(* ===== verification/Prelude.thy ===== *)
theory Prelude
  imports Main "HOL-Library.Monad_Syntax" "HOL-Library.Word"
begin

section \<open>Shared vocabulary of the model\<close>

text \<open>
  What every component theory uses: the machine-level type names of \<open>include/llama.h\<close>,
  checked assertions and loops in the option monad (\<open>None\<close> is a run that does not
  return a value: a failed \<open>assert\<close>, \<open>GGML_ASSERT\<close> or \<open>GGML_ABORT\<close>, an
  out-of-range access, or a loop that does not end), and models of the two ordered containers of
  the C++ standard library the sources rely on, \<open>std::set\<close> and \<open>std::map\<close>.
\<close>

named_theorems run_simps \<open>how asserted computations and loops evaluate\<close>
named_theorems container_simps \<open>laws of the ordered containers\<close>

subsection \<open>Machine types\<close>

text \<open>
  \<open>llama_pos\<close>, \<open>llama_seq_id\<close> and \<open>llama_token\<close> are 32-bit signed; overflow of a signed
  integer is undefined behaviour in C++, so the model uses unbounded integers and is exact
  wherever the program is defined.
\<close>

type_synonym llama_pos = int
type_synonym llama_seq_id = int
type_synonym llama_token = int

text \<open>A 32-bit float is only ever copied by the modelled code: it is its bit pattern.\<close>

type_synonym f32 = "32 word"

definition LLAMA_MAX_SEQ :: int where
  "LLAMA_MAX_SEQ = 256"

definition INT32_MAX :: int where
  "INT32_MAX = 2147483647"

text \<open>Division of signed integers truncates towards zero in C++.\<close>

definition cdiv :: "int \<Rightarrow> int \<Rightarrow> int" where
  "cdiv a b = sgn a * sgn b * (\<bar>a\<bar> div \<bar>b\<bar>)"

lemma cdiv_nonneg: "0 \<le> a \<Longrightarrow> 0 < b \<Longrightarrow> cdiv a b = a div b"
  by (cases "a = 0") (auto simp: cdiv_def)

subsection \<open>Assertions and loops\<close>

definition assrt :: "bool \<Rightarrow> unit option" where
  "assrt b = (if b then Some () else None)"

lemma assrt_True [simp, run_simps]: "assrt True = Some ()"
  by (simp add: assrt_def)

lemma assrt_False [simp, run_simps]: "assrt False = None"
  by (simp add: assrt_def)

lemma assrt_eq_Some [simp, run_simps]: "assrt b = Some u \<longleftrightarrow> b"
  by (simp add: assrt_def)

lemma bind_assrt [run_simps]: "Option.bind (assrt b) f = (if b then f () else None)"
  by (simp add: assrt_def)

text \<open>A \<open>for\<close> loop over the values of a list whose body may fail.\<close>

primrec ofold :: "('a \<Rightarrow> 's \<Rightarrow> 's option) \<Rightarrow> 'a list \<Rightarrow> 's \<Rightarrow> 's option" where
  "ofold f [] s = Some s"
| "ofold f (x # xs) s = Option.bind (f x s) (ofold f xs)"

lemma ofold_append: "ofold f (xs @ ys) s = Option.bind (ofold f xs s) (ofold f ys)"
  by (induction xs arbitrary: s) (auto split: Option.bind_splits)

text \<open>Total correctness of a loop: an invariant indexed by what has been processed.\<close>

lemma ofold_list_inv:
  assumes "I [] s0"
    and "\<And>pre x post s. xs = pre @ x # post \<Longrightarrow> I pre s \<Longrightarrow> \<exists>s'. f x s = Some s' \<and> I (pre @ [x]) s'"
  shows "\<exists>s'. ofold f xs s0 = Some s' \<and> I xs s'"
proof -
  have "\<exists>s'. ofold f ys s = Some s' \<and> I xs s'" if "xs = zs @ ys" "I zs s" for ys zs s
    using that
  proof (induction ys arbitrary: zs s)
    case Nil
    then show ?case by simp
  next
    case (Cons y ys)
    obtain s' where "f y s = Some s'" "I (zs @ [y]) s'"
      using assms(2) Cons.prems by blast
    with Cons.IH [of "zs @ [y]" s'] Cons.prems(1) show ?case by simp
  qed
  from this [of "[]" xs s0] assms(1) show ?thesis by simp
qed

lemma ofold_upt_inv:
  assumes "I 0 s0"
    and "\<And>i s. i < n \<Longrightarrow> I i s \<Longrightarrow> \<exists>s'. f i s = Some s' \<and> I (Suc i) s'"
  shows "\<exists>s'. ofold f [0..<n] s0 = Some s' \<and> I n s'"
  using assms(2)
proof (induction n)
  case 0
  with assms(1) show ?case by simp
next
  case (Suc n)
  then obtain s' where "ofold f [0..<n] s0 = Some s'" "I n s'" by force
  moreover from this(2) Suc.prems obtain s'' where "f n s' = Some s''" "I (Suc n) s''" by blast
  ultimately show ?case by (simp add: ofold_append)
qed

text \<open>Partial correctness: what every successful body keeps, the loop keeps.\<close>

lemma ofold_preserves:
  assumes "\<And>x s s'. x \<in> set xs \<Longrightarrow> I s \<Longrightarrow> f x s = Some s' \<Longrightarrow> I s'"
  shows "ofold f xs s = Some s' \<Longrightarrow> I s \<Longrightarrow> I s'"
  using assms
proof (induction xs arbitrary: s)
  case (Cons x xs)
  then obtain t where "f x s = Some t" "ofold f xs t = Some s'"
    by (auto simp: bind_eq_Some_conv)
  with Cons show ?case by (metis list.set_intros)
qed simp

lemma ofold_total:
  assumes "\<And>x s. x \<in> set xs \<Longrightarrow> I s \<Longrightarrow> \<exists>s'. f x s = Some s' \<and> I s'"
  shows "I s \<Longrightarrow> \<exists>s'. ofold f xs s = Some s' \<and> I s'"
  using assms
proof (induction xs arbitrary: s)
  case (Cons x xs)
  then obtain t where "f x s = Some t" "I t" by force
  with Cons show ?case by simp
qed simp

lemma ofold_Some_fold: "ofold (\<lambda>x s. Some (g x s)) xs s = Some (fold g xs s)"
  by (induction xs arbitrary: s) auto

lemma ofold_cong:
  "xs = ys \<Longrightarrow> (\<And>x s. x \<in> set ys \<Longrightarrow> f x s = g x s) \<Longrightarrow> ofold f xs s = ofold g ys s"
proof (induction xs arbitrary: ys s)
  case (Cons x xs)
  then show ?case by (cases ys) (auto split: Option.bind_splits)
qed simp

text \<open>\<open>v[i]\<close>, which is undefined behaviour outside the vector.\<close>

definition at_idx :: "'a list \<Rightarrow> nat \<Rightarrow> 'a option" where
  "at_idx xs i = (if i < length xs then Some (xs ! i) else None)"

lemma at_idx_Some [simp]: "i < length xs \<Longrightarrow> at_idx xs i = Some (xs ! i)"
  by (simp add: at_idx_def)

subsection \<open>\<open>std::set\<close>: strictly increasing lists\<close>

definition sset_inv :: "'a::linorder list \<Rightarrow> bool" where
  "sset_inv xs \<longleftrightarrow> sorted_wrt (<) xs"

fun sset_insert :: "'a::linorder \<Rightarrow> 'a list \<Rightarrow> 'a list" where
  "sset_insert x [] = [x]"
| "sset_insert x (y # ys) =
     (if x < y then x # y # ys else if x = y then y # ys else y # sset_insert x ys)"

definition sset_erase :: "'a::linorder \<Rightarrow> 'a list \<Rightarrow> 'a list" where
  "sset_erase x ys = filter (\<lambda>y. y \<noteq> x) ys"

lemma sset_inv_Nil [simp]: "sset_inv []"
  by (simp add: sset_inv_def)

lemma set_sset_insert [simp, container_simps]: "set (sset_insert x ys) = insert x (set ys)"
  by (induction ys) auto

lemma set_sset_erase [simp, container_simps]: "set (sset_erase x ys) = set ys - {x}"
  by (auto simp: sset_erase_def)

lemma sset_inv_insert [simp, container_simps]: "sset_inv ys \<Longrightarrow> sset_inv (sset_insert x ys)"
  unfolding sset_inv_def by (induction ys) auto

lemma sset_inv_erase [simp, container_simps]: "sset_inv ys \<Longrightarrow> sset_inv (sset_erase x ys)"
  unfolding sset_inv_def sset_erase_def by (rule sorted_wrt_filter)

lemma sset_inv_distinct: "sset_inv xs \<Longrightarrow> distinct xs"
  unfolding sset_inv_def by (induction xs) auto

lemma sset_unique: "sset_inv xs \<Longrightarrow> sset_inv ys \<Longrightarrow> set xs = set ys \<Longrightarrow> xs = ys"
  unfolding sset_inv_def by (rule strict_sorted_equal)

lemma sset_hd_le: "sset_inv xs \<Longrightarrow> x \<in> set xs \<Longrightarrow> hd xs \<le> x"
  unfolding sset_inv_def by (cases xs) auto

lemma sset_last_ge: "sset_inv xs \<Longrightarrow> x \<in> set xs \<Longrightarrow> x \<le> last xs"
  unfolding sset_inv_def by (induction xs) (auto simp: less_imp_le)

lemma length_sset: "sset_inv xs \<Longrightarrow> length xs = card (set xs)"
  by (simp add: distinct_card sset_inv_distinct)

subsection \<open>\<open>std::map\<close>: association lists with strictly increasing keys\<close>

fun smap_find :: "('k \<times> 'v) list \<Rightarrow> 'k \<Rightarrow> 'v option" where
  "smap_find [] k = None"
| "smap_find ((k', v) # m) k = (if k' = k then Some v else smap_find m k)"

fun smap_insert :: "'k::linorder \<Rightarrow> 'v \<Rightarrow> ('k \<times> 'v) list \<Rightarrow> ('k \<times> 'v) list" where
  "smap_insert k v [] = [(k, v)]"
| "smap_insert k v ((k', v') # m) =
     (if k < k' then (k, v) # (k', v') # m
      else if k = k' then (k, v) # m else (k', v') # smap_insert k v m)"

definition smap_erase :: "'k \<Rightarrow> ('k \<times> 'v) list \<Rightarrow> ('k \<times> 'v) list" where
  "smap_erase k m = filter (\<lambda>e. fst e \<noteq> k) m"

definition smap_begin :: "('k \<times> 'v) list \<Rightarrow> ('k \<times> 'v) option" where
  "smap_begin m = (case m of [] \<Rightarrow> None | e # _ \<Rightarrow> Some e)"

definition smap_rbegin :: "('k \<times> 'v) list \<Rightarrow> ('k \<times> 'v) option" where
  "smap_rbegin m = (case m of [] \<Rightarrow> None | _ # _ \<Rightarrow> Some (last m))"

definition smap_inv :: "('k::linorder \<times> 'v) list \<Rightarrow> bool" where
  "smap_inv m \<longleftrightarrow> sset_inv (map fst m)"

lemma smap_find_map_of: "smap_find m k = map_of m k"
  by (induction m) auto

lemma smap_find_None: "smap_find m k = None \<longleftrightarrow> k \<notin> fst ` set m"
  by (simp add: smap_find_map_of map_of_eq_None_iff)

lemma smap_find_Some_iff: "smap_inv m \<Longrightarrow> smap_find m k = Some v \<longleftrightarrow> (k, v) \<in> set m"
  unfolding smap_find_map_of smap_inv_def by (intro map_of_eq_Some_iff sset_inv_distinct)

lemma fst_smap_insert: "fst ` set (smap_insert k v m) = insert k (fst ` set m)"
  by (induction k v m rule: smap_insert.induct) auto

lemma smap_as_map:
  assumes "smap_inv m"
  shows "m = map (\<lambda>k. (k, the (smap_find m k))) (map fst m)"
proof -
  have "map (\<lambda>e. (fst e, the (smap_find m (fst e)))) m = m"
  proof (rule map_idI)
    fix e
    assume "e \<in> set m"
    then have "smap_find m (fst e) = Some (snd e)"
      by (simp add: smap_find_Some_iff [OF assms])
    then show "(fst e, the (smap_find m (fst e))) = e" by simp
  qed
  then show ?thesis by (simp add: comp_def)
qed

lemma smap_unique:
  assumes "smap_inv m" "smap_inv m'" "\<And>k. smap_find m k = smap_find m' k"
  shows "m = m'"
proof -
  have "map fst m = map fst m'"
  proof (rule sset_unique)
    have "k \<in> fst ` set m \<longleftrightarrow> k \<in> fst ` set m'" for k
      using assms(3) [of k] smap_find_None [of m k] smap_find_None [of m' k] by simp
    then show "set (map fst m) = set (map fst m')" by auto
  qed (use assms in \<open>simp_all add: smap_inv_def\<close>)
  moreover have "smap_find m = smap_find m'"
    using assms(3) by (rule ext)
  ultimately show ?thesis
    using smap_as_map [OF assms(1)] smap_as_map [OF assms(2)] by simp
qed

subsection \<open>The ordered-map interface and its client: a table of counts\<close>

text \<open>
  The memory code uses \<open>std::map\<close> through six operations. The laws below are the ones its
  correctness rests on; the lemmas about tables of counts are proved from the laws alone.
\<close>

locale ordered_map =
  fixes mempty :: "'m"
    and mfind :: "'m \<Rightarrow> 'k::linorder \<Rightarrow> 'v option"
    and minsert :: "'k \<Rightarrow> 'v \<Rightarrow> 'm \<Rightarrow> 'm"
    and merase :: "'k \<Rightarrow> 'm \<Rightarrow> 'm"
    and mbegin :: "'m \<Rightarrow> ('k \<times> 'v) option"
    and mrbegin :: "'m \<Rightarrow> ('k \<times> 'v) option"
    and minv :: "'m \<Rightarrow> bool"
  assumes minv_empty: "minv mempty"
    and minv_insert: "minv m \<Longrightarrow> minv (minsert k v m)"
    and minv_erase: "minv m \<Longrightarrow> minv (merase k m)"
    and mfind_empty: "mfind mempty k = None"
    and mfind_insert: "minv m \<Longrightarrow> mfind (minsert k v m) j = (if j = k then Some v else mfind m j)"
    and mfind_erase: "minv m \<Longrightarrow> mfind (merase k m) j = (if j = k then None else mfind m j)"
    and mbegin_None: "minv m \<Longrightarrow> mbegin m = None \<longleftrightarrow> (\<forall>k. mfind m k = None)"
    and mbegin_Some: "minv m \<Longrightarrow> mbegin m = Some (k, v) \<longleftrightarrow>
      mfind m k = Some v \<and> (\<forall>j. mfind m j \<noteq> None \<longrightarrow> k \<le> j)"
    and mrbegin_None: "minv m \<Longrightarrow> mrbegin m = None \<longleftrightarrow> (\<forall>k. mfind m k = None)"
    and mrbegin_Some: "minv m \<Longrightarrow> mrbegin m = Some (k, v) \<longleftrightarrow>
      mfind m k = Some v \<and> (\<forall>j. mfind m j \<noteq> None \<longrightarrow> j \<le> k)"
begin

lemmas map_laws = minv_empty minv_insert minv_erase mfind_empty mfind_insert mfind_erase

end

lemma smap_begin_None: "smap_begin m = None \<longleftrightarrow> (\<forall>k. smap_find m k = None)"
  by (cases m) (auto simp: smap_begin_def split: prod.splits)

lemma smap_rbegin_None: "smap_rbegin m = None \<longleftrightarrow> (\<forall>k. smap_find m k = None)"
  by (cases m) (auto simp: smap_rbegin_def split: prod.splits)

lemma smap_begin_hd:
  assumes "smap_inv m" "smap_begin m = Some e"
  shows "e \<in> set m \<and> (\<forall>j. smap_find m j \<noteq> None \<longrightarrow> fst e \<le> j)"
proof -
  obtain m' where m: "m = e # m'"
    using assms(2) by (auto simp: smap_begin_def split: list.splits)
  show ?thesis
    using assms(1) sset_hd_le [of "map fst m"] m by (auto simp: smap_inv_def smap_find_None)
qed

lemma smap_rbegin_last:
  assumes "smap_inv m" "smap_rbegin m = Some e"
  shows "e \<in> set m \<and> (\<forall>j. smap_find m j \<noteq> None \<longrightarrow> j \<le> fst e)"
proof -
  have ne: "m \<noteq> []" and e: "e = last m"
    using assms(2) by (auto simp: smap_rbegin_def split: list.splits)
  have "j \<le> fst e" if "j \<in> set (map fst m)" for j
    using sset_last_ge [of "map fst m" j] assms(1) that ne e by (simp add: smap_inv_def last_map)
  with ne e show ?thesis by (auto simp: smap_find_None)
qed

lemma smap_begin_Some:
  assumes "smap_inv m"
  shows "smap_begin m = Some (k, v) \<longleftrightarrow>
    smap_find m k = Some v \<and> (\<forall>j. smap_find m j \<noteq> None \<longrightarrow> k \<le> j)"
proof (cases "smap_begin m")
  case None
  then have "\<forall>k. smap_find m k = None"
    by (rule smap_begin_None [THEN iffD1])
  with None show ?thesis by simp
next
  case (Some e)
  from smap_begin_hd [OF assms Some] have e: "smap_find m (fst e) = Some (snd e)"
    using assms by (simp add: smap_find_Some_iff)
  show ?thesis
  proof
    assume "smap_begin m = Some (k, v)"
    with Some e smap_begin_hd [OF assms Some]
    show "smap_find m k = Some v \<and> (\<forall>j. smap_find m j \<noteq> None \<longrightarrow> k \<le> j)"
      by auto
  next
    assume r: "smap_find m k = Some v \<and> (\<forall>j. smap_find m j \<noteq> None \<longrightarrow> k \<le> j)"
    with e smap_begin_hd [OF assms Some] have "fst e = k"
      by (intro antisym) auto
    with r e Some show "smap_begin m = Some (k, v)" by (cases e) simp
  qed
qed

lemma smap_rbegin_Some:
  assumes "smap_inv m"
  shows "smap_rbegin m = Some (k, v) \<longleftrightarrow>
    smap_find m k = Some v \<and> (\<forall>j. smap_find m j \<noteq> None \<longrightarrow> j \<le> k)"
proof (cases "smap_rbegin m")
  case None
  then have "\<forall>k. smap_find m k = None"
    by (rule smap_rbegin_None [THEN iffD1])
  with None show ?thesis by simp
next
  case (Some e)
  from smap_rbegin_last [OF assms Some] have e: "smap_find m (fst e) = Some (snd e)"
    using assms by (simp add: smap_find_Some_iff)
  show ?thesis
  proof
    assume "smap_rbegin m = Some (k, v)"
    with Some e smap_rbegin_last [OF assms Some]
    show "smap_find m k = Some v \<and> (\<forall>j. smap_find m j \<noteq> None \<longrightarrow> j \<le> k)"
      by auto
  next
    assume r: "smap_find m k = Some v \<and> (\<forall>j. smap_find m j \<noteq> None \<longrightarrow> j \<le> k)"
    with e smap_rbegin_last [OF assms Some] have "fst e = k"
      by (intro antisym) auto
    with r e Some show "smap_rbegin m = Some (k, v)" by (cases e) simp
  qed
qed

interpretation smap: ordered_map "[]" smap_find smap_insert smap_erase smap_begin smap_rbegin smap_inv
proof (unfold_locales, goal_cases)
  case (2 m k v)
  then show ?case
    by (induction k v m rule: smap_insert.induct) (auto simp: smap_inv_def sset_inv_def fst_smap_insert)
next
  case (3 m k)
  then show ?case
    unfolding smap_inv_def sset_inv_def smap_erase_def by (induction m) auto
next
  case (5 m k v j)
  show ?case by (induction k v m rule: smap_insert.induct) auto
next
  case (6 m k j)
  show ?case by (induction m) (auto simp: smap_erase_def)
qed (auto simp: smap_inv_def smap_begin_None smap_rbegin_None smap_begin_Some smap_rbegin_Some)

lemmas smap_laws [simp, container_simps] = smap.map_laws

text \<open>A table of counts keeps no entry for a count of zero.\<close>

definition is_counts :: "('k \<Rightarrow> int option) \<Rightarrow> ('k \<Rightarrow> nat) \<Rightarrow> bool" where
  "is_counts g f \<longleftrightarrow> (\<forall>k. g k = (if f k = 0 then None else Some (int (f k))))"

lemma is_countsD: "is_counts g f \<Longrightarrow> g k = (if f k = 0 then None else Some (int (f k)))"
  by (simp add: is_counts_def)

locale count_table = ordered_map mempty mfind minsert merase mbegin mrbegin minv
  for mempty :: "'m"
    and mfind :: "'m \<Rightarrow> 'k::linorder \<Rightarrow> int option"
    and minsert :: "'k \<Rightarrow> int \<Rightarrow> 'm \<Rightarrow> 'm"
    and merase :: "'k \<Rightarrow> 'm \<Rightarrow> 'm"
    and mbegin :: "'m \<Rightarrow> ('k \<times> int) option"
    and mrbegin :: "'m \<Rightarrow> ('k \<times> int) option"
    and minv :: "'m \<Rightarrow> bool"
begin

lemma counts_empty: "is_counts (mfind mempty) (\<lambda>_. 0)"
  by (simp add: is_counts_def mfind_empty)

lemma counts_inc:
  assumes "minv m" "is_counts (mfind m) f"
  shows "is_counts (mfind (minsert k (case mfind m k of None \<Rightarrow> 1 | Some v \<Rightarrow> v + 1) m))
           (f(k := Suc (f k)))"
  using assms by (auto simp: is_counts_def mfind_insert split: option.splits)

lemma counts_dec:
  assumes "minv m" "is_counts (mfind m) f" "mfind m k = Some v"
  shows "is_counts (mfind (if v - 1 = 0 then merase k m else minsert k (v - 1) m))
           (f(k := f k - 1))"
proof -
  have v: "v = int (f k)" "f k \<noteq> 0"
    using assms(2,3) by (auto simp: is_counts_def split: if_splits)
  have other: "mfind m j = (if f j = 0 then None else Some (int (f j)))" for j
    using assms(2) by (simp add: is_counts_def)
  show ?thesis
    unfolding is_counts_def using v(2)
    by (cases "f k") (auto simp: mfind_insert mfind_erase assms(1) v(1) other)
qed

lemma counts_begin_None:
  assumes "minv m" "is_counts (mfind m) f"
  shows "mbegin m = None \<longleftrightarrow> (\<forall>k. f k = 0)"
  by (simp add: mbegin_None assms(1) is_countsD [OF assms(2)])

lemma counts_begin_Some:
  assumes "minv m" "is_counts (mfind m) f"
  shows "mbegin m = Some (k, v) \<longleftrightarrow> f k \<noteq> 0 \<and> v = int (f k) \<and> (\<forall>j. f j \<noteq> 0 \<longrightarrow> k \<le> j)"
  by (auto simp: mbegin_Some assms(1) is_countsD [OF assms(2)])

lemma counts_rbegin_None:
  assumes "minv m" "is_counts (mfind m) f"
  shows "mrbegin m = None \<longleftrightarrow> (\<forall>k. f k = 0)"
  by (simp add: mrbegin_None assms(1) is_countsD [OF assms(2)])

lemma counts_rbegin_Some:
  assumes "minv m" "is_counts (mfind m) f"
  shows "mrbegin m = Some (k, v) \<longleftrightarrow> f k \<noteq> 0 \<and> v = int (f k) \<and> (\<forall>j. f j \<noteq> 0 \<longrightarrow> j \<le> k)"
  by (auto simp: mrbegin_Some assms(1) is_countsD [OF assms(2)])

end

subsection \<open>Vectors\<close>

definition vec_resize :: "nat \<Rightarrow> 'a \<Rightarrow> 'a list \<Rightarrow> 'a list" where
  "vec_resize n x xs = take n xs @ replicate (n - length xs) x"

lemma length_vec_resize [simp]: "length (vec_resize n x xs) = n"
  by (simp add: vec_resize_def)

lemma map_shift_upt: "map (\<lambda>j. f (i + j)) [0..<n] = map f [i..<i + n]"
  by (rule nth_equalityI) auto

lemma empty_if_no_member: "(\<And>x. x \<notin> set xs) \<Longrightarrow> xs = []"
  by (cases xs) auto

lemma in_set_drop_iff: "x \<in> set (drop k xs) \<longleftrightarrow> (\<exists>i. k \<le> i \<and> i < length xs \<and> xs ! i = x)"
proof
  assume "x \<in> set (drop k xs)"
  then obtain i where "i < length (drop k xs)" "drop k xs ! i = x" by (auto simp only: in_set_conv_nth)
  then show "\<exists>i. k \<le> i \<and> i < length xs \<and> xs ! i = x" by (intro exI [of _ "k + i"]) auto
next
  assume "\<exists>i. k \<le> i \<and> i < length xs \<and> xs ! i = x"
  then obtain i where "k \<le> i" "i < length xs" "xs ! i = x" by blast
  then show "x \<in> set (drop k xs)"
    unfolding in_set_conv_nth by (intro exI [of _ "i - k"]) simp
qed

end
