(* ===== verification/Memory.thy ===== *)
theory Memory
  imports Prelude
begin

section \<open>The memory interface (\<open>src/llama-memory.h\<close>, \<open>src/llama-memory.cpp\<close>)\<close>

text \<open>
  What every memory module offers to the context: a status per prepared batch, and the sequence
  operations. The sequence operations are the locale \<open>seq_memory\<close>, which the modules interpret
  on their own operations.
\<close>

subsection \<open>Status\<close>

datatype memory_status = Status_success | Status_no_update | Status_failed_prepare | Status_failed_compute

definition memory_status_is_fail :: "memory_status \<Rightarrow> bool" where
  "memory_status_is_fail s = (case s of
     Status_success \<Rightarrow> False | Status_no_update \<Rightarrow> False
   | Status_failed_prepare \<Rightarrow> True | Status_failed_compute \<Rightarrow> True)"

definition memory_status_combine :: "memory_status \<Rightarrow> memory_status \<Rightarrow> memory_status" where
  "memory_status_combine s0 s1 =
     (if s0 = Status_failed_prepare \<or> s0 = Status_failed_compute then s0
      else if s1 = Status_failed_prepare \<or> s1 = Status_failed_compute then s1
      else if s0 = Status_success \<or> s1 = Status_success then Status_success else Status_no_update)"

text \<open>
  Combining the statuses of two memory modules fails exactly when one of them failed, with the
  failure of the first one that did; it is associative with \<open>NO_UPDATE\<close> as its unit, so that modules
  can be nested.
\<close>

theorem memory_status_combine_laws:
  "memory_status_is_fail (memory_status_combine a b) = (memory_status_is_fail a \<or> memory_status_is_fail b) \<and>
   (memory_status_combine a b = Status_no_update) = (a = Status_no_update \<and> b = Status_no_update) \<and>
   memory_status_combine (memory_status_combine a b) c = memory_status_combine a (memory_status_combine b c) \<and>
   memory_status_combine Status_no_update a = a \<and> memory_status_combine a Status_no_update = a"
  by (cases a; cases b; cases c) (simp_all add: memory_status_combine_def memory_status_is_fail_def)

subsection \<open>Sequences\<close>

text \<open>Negative bounds of a range of positions stand for its ends.\<close>

definition norm_p0 :: "llama_pos \<Rightarrow> llama_pos" where
  "norm_p0 p0 = (if p0 < 0 then 0 else p0)"

definition norm_p1 :: "llama_pos \<Rightarrow> llama_pos" where
  "norm_p1 p1 = (if p1 < 0 then INT32_MAX else p1)"

lemma norm_p0_nonneg: "0 \<le> norm_p0 p0"
  by (simp add: norm_p0_def)

text \<open>
  The memory interface of \<open>llama-memory.h\<close> as its clients see it: a set of positions per sequence.
  The batch allocator asks for the first and last position, the client removes and copies
  sequences.
\<close>

locale seq_memory =
  fixes inv :: "'m \<Rightarrow> bool"
    and ok :: "'m \<Rightarrow> llama_seq_id \<Rightarrow> bool"
    and view :: "'m \<Rightarrow> llama_seq_id \<Rightarrow> llama_pos set"
    and mem_rm :: "llama_seq_id \<Rightarrow> llama_pos \<Rightarrow> llama_pos \<Rightarrow> 'm \<Rightarrow> (bool \<times> 'm) option"
    and mem_pos_min :: "llama_seq_id \<Rightarrow> 'm \<Rightarrow> llama_pos option"
    and mem_pos_max :: "llama_seq_id \<Rightarrow> 'm \<Rightarrow> llama_pos option"
  assumes view_finite: "inv m \<Longrightarrow> ok m s \<Longrightarrow> finite (view m s)"
    and view_nonneg: "inv m \<Longrightarrow> ok m s \<Longrightarrow> p \<in> view m s \<Longrightarrow> 0 \<le> p"
    and pos_min_view: "inv m \<Longrightarrow> ok m s \<Longrightarrow> mem_pos_min s m = Some (if view m s = {} then -1 else Min (view m s))"
    and pos_max_view: "inv m \<Longrightarrow> ok m s \<Longrightarrow> mem_pos_max s m = Some (if view m s = {} then -1 else Max (view m s))"
    and rm_view: "inv m \<Longrightarrow> ok m s \<Longrightarrow> \<exists>m'. mem_rm s p0 p1 m = Some (True, m') \<and> inv m' \<and>
      (\<forall>r. ok m' r = ok m r) \<and>
      (\<forall>r. ok m r \<longrightarrow> view m' r = (if r = s then {p \<in> view m s. \<not> (norm_p0 p0 \<le> p \<and> p < norm_p1 p1)} else view m r))"
begin

lemma pos_max_ge: "inv m \<Longrightarrow> ok m s \<Longrightarrow> \<exists>p. mem_pos_max s m = Some p \<and> -1 \<le> p"
proof -
  assume m: "inv m" "ok m s"
  show ?thesis
  proof (cases "view m s = {}")
    case False
    then have "Max (view m s) \<in> view m s" using view_finite [OF m] by simp
    then have "0 \<le> Max (view m s)" using view_nonneg [OF m] by blast
    then show ?thesis using pos_max_view [OF m] False by simp
  qed (use pos_max_view [OF m] in simp)
qed

text \<open>Removing a sequence altogether, and cutting it back to a prefix.\<close>

lemma rm_all:
  assumes "inv m" "ok m s" "\<forall>p \<in> view m s. p < INT32_MAX"
  shows "\<exists>m'. mem_rm s (-1) (-1) m = Some (True, m') \<and> inv m' \<and> view m' s = {} \<and>
    mem_pos_min s m' = Some (-1) \<and> mem_pos_max s m' = Some (-1) \<and>
    (\<forall>r. ok m r \<and> r \<noteq> s \<longrightarrow> view m' r = view m r)"
proof -
  obtain m' where m': "mem_rm s (-1) (-1) m = Some (True, m')" "inv m'" "\<forall>r. ok m' r = ok m r"
    "\<forall>r. ok m r \<longrightarrow> view m' r = (if r = s then {p \<in> view m s. \<not> (norm_p0 (-1) \<le> p \<and> p < norm_p1 (-1))} else view m r)"
    using rm_view [OF assms(1,2)] by blast
  have "view m' s = {}"
    using m'(4) assms view_nonneg [OF assms(1,2)] by (auto simp: norm_p0_def norm_p1_def)
  then show ?thesis
    using m' assms(2) pos_min_view [of m' s] pos_max_view [of m' s] by auto
qed

lemma rm_tail:
  assumes "inv m" "ok m s" "\<forall>p \<in> view m s. p < INT32_MAX" "0 \<le> n"
  shows "\<exists>m' p. mem_rm s n (-1) m = Some (True, m') \<and> inv m' \<and> view m' s = {p \<in> view m s. p < n} \<and>
    mem_pos_max s m' = Some p \<and> p < n \<and> (\<forall>r. ok m r \<and> r \<noteq> s \<longrightarrow> view m' r = view m r)"
proof -
  obtain m' where m': "mem_rm s n (-1) m = Some (True, m')" "inv m'" "\<forall>r. ok m' r = ok m r"
    "\<forall>r. ok m r \<longrightarrow> view m' r = (if r = s then {p \<in> view m s. \<not> (norm_p0 n \<le> p \<and> p < norm_p1 (-1))} else view m r)"
    using rm_view [OF assms(1,2)] by blast
  have view: "view m' s = {p \<in> view m s. p < n}"
    using m'(4) assms by (auto simp: norm_p0_def norm_p1_def)
  have ok: "ok m' s" using m'(3) assms(2) by simp
  have "finite (view m' s)" using view_finite [OF m'(2) ok] .
  then have "(if view m' s = {} then -1 else Max (view m' s)) < n"
    using assms(4) view by auto
  then show ?thesis using m' view ok pos_max_view [OF m'(2) ok] by auto
qed

end

locale seq_memory_cp = seq_memory inv ok view mem_rm mem_pos_min mem_pos_max
  for inv :: "'m \<Rightarrow> bool" and ok and view and mem_rm and mem_pos_min and mem_pos_max +
  fixes mem_cp :: "llama_seq_id \<Rightarrow> llama_seq_id \<Rightarrow> llama_pos \<Rightarrow> llama_pos \<Rightarrow> 'm \<Rightarrow> 'm option"
  assumes cp_view: "inv m \<Longrightarrow> ok m src \<Longrightarrow> ok m dst \<Longrightarrow> src \<noteq> dst \<Longrightarrow> view m dst = {} \<Longrightarrow>
    \<exists>m'. mem_cp src dst p0 p1 m = Some m' \<and> inv m' \<and> (\<forall>r. ok m' r = ok m r) \<and>
      (\<forall>r. ok m r \<longrightarrow> view m' r = (if r = dst then {p \<in> view m src. norm_p0 p0 \<le> p \<and> p < norm_p1 p1} else view m r))"
begin

text \<open>
  Forking a sequence: clear the destination, copy the source. Both then have the same first and
  last position, which is what \<open>init\<close> asks of coupled sequences.
\<close>

lemma fork_agrees:
  assumes m: "inv m" "ok m src" "ok m dst" "src \<noteq> dst"
    and bound: "\<forall>p \<in> view m src. p < INT32_MAX" "\<forall>p \<in> view m dst. p < INT32_MAX"
  shows "\<exists>m1 m2. mem_rm dst (-1) (-1) m = Some (True, m1) \<and> mem_cp src dst (-1) (-1) m1 = Some m2 \<and> inv m2 \<and>
    view m2 src = view m src \<and> view m2 dst = view m src \<and>
    mem_pos_min dst m2 = mem_pos_min src m2 \<and> mem_pos_max dst m2 = mem_pos_max src m2"
proof -
  obtain m1 where m1: "mem_rm dst (-1) (-1) m = Some (True, m1)" "inv m1" "\<forall>r. ok m1 r = ok m r"
    "\<forall>r. ok m r \<longrightarrow> view m1 r = (if r = dst then {p \<in> view m dst. \<not> (norm_p0 (-1) \<le> p \<and> p < norm_p1 (-1))} else view m r)"
    using rm_view [OF m(1,3)] by blast
  have "view m1 dst = {}"
    using m1(4) m(3) bound(2) view_nonneg [OF m(1,3)] by (auto simp: norm_p0_def norm_p1_def)
  moreover have "ok m1 src" "ok m1 dst" using m1(3) m(2,3) by simp_all
  ultimately obtain m2 where m2: "mem_cp src dst (-1) (-1) m1 = Some m2" "inv m2" "\<forall>r. ok m2 r = ok m1 r"
    "\<forall>r. ok m1 r \<longrightarrow> view m2 r = (if r = dst then {p \<in> view m1 src. norm_p0 (-1) \<le> p \<and> p < norm_p1 (-1)} else view m1 r)"
    using cp_view [OF m1(2) _ _ m(4), of "-1" "-1"] by blast
  have src: "view m1 src = view m src" using m1(4) m(2,4) by simp
  have view: "view m2 src = view m src" "view m2 dst = view m src"
    using m2(4) m1(3) m(2-4) src bound(1) view_nonneg [OF m(1,2)] by (auto simp: norm_p0_def norm_p1_def)
  have "ok m2 src" "ok m2 dst" using m2(3) m1(3) m(2,3) by simp_all
  then show ?thesis
    using m1(1) m2(1,2) view pos_min_view [OF m2(2)] pos_max_view [OF m2(2)] by auto
qed

end

end
