(* ===== verification/KvCells.thy ===== *)
theory KvCells
  imports Prelude
begin

section \<open>The cells of the KV cache (\<open>src/llama-kv-cells.h\<close>)\<close>

text \<open>
  \<open>llama_kv_cells\<close> keeps, for every cell of the cache, its position, its 2D extension, the shift
  accumulated since the last reset and the set of sequences it belongs to, and beside these three
  redundant indexes that make the queries fast: the set \<open>used\<close> of non-empty cells, and for
  every sequence a map from positions to the number of cells that hold them. This theory
  translates every method of the class; a method that asserts returns \<open>None\<close> where an
  assertion fails. It then proves that the indexes always describe the cells
  (\<open>cells_inv\<close>), that no method called as its comment says ever fails an assertion, and
  what each method does.
\<close>

subsection \<open>Data\<close>

record kv_cell_ext =
  ext_x :: llama_pos
  ext_y :: llama_pos

definition is_2d_gt :: "kv_cell_ext \<Rightarrow> llama_pos \<Rightarrow> llama_pos \<Rightarrow> bool" where
  "is_2d_gt e ox oy \<longleftrightarrow> (ext_y e > oy) \<or> (ext_y e = oy \<and> ext_x e > ox)"

definition ext_reset :: kv_cell_ext where
  "ext_reset = \<lparr>ext_x = 0, ext_y = 0\<rparr>"

text \<open>
  \<open>used\<close> is a \<open>std::set\<close>, \<open>seq_pos\<close> an array of \<open>LLAMA_MAX_SEQ\<close> maps, and every
  \<open>seq[i]\<close> a bitset over the sequence ids.
\<close>

record kv_cells =
  kc_has_shift :: bool
  kc_used :: "nat list"
  kc_pos :: "llama_pos list"
  kc_ext :: "kv_cell_ext list"
  kc_shift :: "llama_pos list"
  kc_seq :: "llama_seq_id set list"
  kc_seq_pos :: "llama_seq_id \<Rightarrow> (llama_pos \<times> int) list"

subsection \<open>Methods without assertions\<close>

definition cells_default :: kv_cells where
  "cells_default = \<lparr>kc_has_shift = False, kc_used = [], kc_pos = [], kc_ext = [], kc_shift = [],
     kc_seq = [], kc_seq_pos = (\<lambda>_. [])\<rparr>"

definition cells_size :: "kv_cells \<Rightarrow> nat" where
  "cells_size c = length (kc_pos c)"

definition cells_reset :: "kv_cells \<Rightarrow> kv_cells" where
  "cells_reset c = c\<lparr>
     kc_pos := map (\<lambda>_. -1) (kc_pos c),
     kc_ext := map (\<lambda>_. ext_reset) (kc_ext c),
     kc_shift := map (\<lambda>_. 0) (kc_shift c),
     kc_seq := map (\<lambda>_. {}) (kc_seq c),
     kc_has_shift := False,
     kc_used := [],
     kc_seq_pos := (\<lambda>_. [])\<rparr>"

definition cells_reset_shift :: "kv_cells \<Rightarrow> kv_cells" where
  "cells_reset_shift c = c\<lparr>kc_has_shift := False, kc_shift := map (\<lambda>_. 0) (kc_shift c)\<rparr>"

definition cells_resize :: "nat \<Rightarrow> kv_cells \<Rightarrow> kv_cells" where
  "cells_resize n c = cells_reset (c\<lparr>
     kc_pos := vec_resize n 0 (kc_pos c),
     kc_ext := vec_resize n ext_reset (kc_ext c),
     kc_shift := vec_resize n 0 (kc_shift c),
     kc_seq := vec_resize n {} (kc_seq c)\<rparr>)"

definition cells_get_used :: "kv_cells \<Rightarrow> nat" where
  "cells_get_used c = length (kc_used c)"

definition cells_used_min :: "kv_cells \<Rightarrow> nat" where
  "cells_used_min c = (if kc_used c = [] then 0 else hd (kc_used c))"

definition cells_used_max_p1 :: "kv_cells \<Rightarrow> nat" where
  "cells_used_max_p1 c = (if kc_used c = [] then 0 else last (kc_used c) + 1)"

definition cells_get_has_shift :: "kv_cells \<Rightarrow> bool" where
  "cells_get_has_shift c = kc_has_shift c"

subsection \<open>Maintenance of the position index\<close>

definition cells_seq_pos_dec :: "llama_seq_id \<Rightarrow> llama_pos \<Rightarrow> kv_cells \<Rightarrow> kv_cells option" where
  "cells_seq_pos_dec s p c =
     (let m = kc_seq_pos c s in
      case smap_find m p of
        None \<Rightarrow> None
      | Some v \<Rightarrow> Some (c\<lparr>kc_seq_pos := (kc_seq_pos c)
          (s := if v - 1 = 0 then smap_erase p m else smap_insert p (v - 1) m)\<rparr>))"

definition cells_seq_pos_inc :: "llama_seq_id \<Rightarrow> llama_pos \<Rightarrow> kv_cells \<Rightarrow> kv_cells" where
  "cells_seq_pos_inc s p c =
     (let m = kc_seq_pos c s in
      c\<lparr>kc_seq_pos := (kc_seq_pos c)
          (s := smap_insert p (case smap_find m p of None \<Rightarrow> 1 | Some v \<Rightarrow> v + 1) m)\<rparr>)"

definition all_seqs :: "llama_seq_id list" where
  "all_seqs = [0..LLAMA_MAX_SEQ - 1]"

definition cells_seq_pos_rm :: "nat \<Rightarrow> kv_cells \<Rightarrow> kv_cells option" where
  "cells_seq_pos_rm i c =
     ofold (\<lambda>s c. if s \<in> kc_seq c ! i then cells_seq_pos_dec s (kc_pos c ! i) c else Some c)
       all_seqs c"

definition cells_seq_pos_add :: "nat \<Rightarrow> kv_cells \<Rightarrow> kv_cells option" where
  "cells_seq_pos_add i c =
     ofold (\<lambda>s c. if s \<in> kc_seq c ! i then Some (cells_seq_pos_inc s (kc_pos c ! i) c) else Some c)
       all_seqs c"

subsection \<open>Queries\<close>

definition cells_is_empty :: "nat \<Rightarrow> kv_cells \<Rightarrow> bool option" where
  "cells_is_empty i c = do {
     assrt (i < cells_size c);
     assrt ((kc_pos c ! i < 0 \<and> kc_pos c ! i = -1) \<or> kc_pos c ! i \<ge> 0);
     Some (kc_pos c ! i = -1) }"

definition cells_seq_count :: "nat \<Rightarrow> kv_cells \<Rightarrow> nat option" where
  "cells_seq_count i c = do {
     assrt (i < cells_size c);
     assrt (kc_pos c ! i \<noteq> -1);
     Some (card (kc_seq c ! i)) }"

text \<open>\<open>bitset::test\<close> throws \<open>std::out_of_range\<close> outside \<open>[0, LLAMA_MAX_SEQ)\<close>.\<close>

definition cells_seq_has :: "nat \<Rightarrow> llama_seq_id \<Rightarrow> kv_cells \<Rightarrow> bool option" where
  "cells_seq_has i s c = do {
     assrt (i < cells_size c);
     assrt (s \<ge> 0);
     assrt (s < LLAMA_MAX_SEQ);
     Some (s \<in> kc_seq c ! i) }"

definition cells_seq_get :: "nat \<Rightarrow> kv_cells \<Rightarrow> llama_seq_id option" where
  "cells_seq_get i c = do {
     assrt (i < cells_size c);
     assrt (card (kc_seq c ! i) = 1);
     Some (case find (\<lambda>s. s \<in> kc_seq c ! i) all_seqs of Some s \<Rightarrow> s | None \<Rightarrow> -1) }"

definition cells_seq_pos_min :: "llama_seq_id \<Rightarrow> kv_cells \<Rightarrow> llama_pos option" where
  "cells_seq_pos_min s c = do {
     assrt (s \<ge> 0);
     assrt (s < LLAMA_MAX_SEQ);
     (case smap_begin (kc_seq_pos c s) of
        None \<Rightarrow> Some (-1)
      | Some (p, v) \<Rightarrow> do { assrt (v > 0); Some p }) }"

definition cells_seq_pos_max :: "llama_seq_id \<Rightarrow> kv_cells \<Rightarrow> llama_pos option" where
  "cells_seq_pos_max s c = do {
     assrt (s \<ge> 0);
     assrt (s < LLAMA_MAX_SEQ);
     (case smap_rbegin (kc_seq_pos c s) of
        None \<Rightarrow> Some (-1)
      | Some (p, v) \<Rightarrow> do { assrt (v > 0); Some p }) }"

definition cells_pos_get :: "nat \<Rightarrow> kv_cells \<Rightarrow> llama_pos option" where
  "cells_pos_get i c = do {
     assrt (i < cells_size c);
     assrt (kc_pos c ! i \<noteq> -1);
     Some (kc_pos c ! i) }"

definition cells_ext_get :: "nat \<Rightarrow> kv_cells \<Rightarrow> kv_cell_ext option" where
  "cells_ext_get i c = do {
     assrt (i < cells_size c);
     assrt (kc_pos c ! i \<noteq> -1);
     Some (kc_ext c ! i) }"

definition cells_get_shift :: "nat \<Rightarrow> kv_cells \<Rightarrow> llama_pos option" where
  "cells_get_shift i c = do {
     assrt (i < cells_size c);
     assrt (kc_pos c ! i \<noteq> -1);
     Some (kc_shift c ! i) }"

definition cells_pos_in :: "nat \<Rightarrow> llama_pos \<Rightarrow> llama_pos \<Rightarrow> kv_cells \<Rightarrow> bool option" where
  "cells_pos_in i p0 p1 c = do {
     assrt (i < cells_size c);
     Some (kc_pos c ! i \<ge> p0 \<and> kc_pos c ! i < p1) }"

subsection \<open>Updates\<close>

definition cells_rm :: "nat \<Rightarrow> kv_cells \<Rightarrow> kv_cells option" where
  "cells_rm i c = do {
     assrt (i < cells_size c);
     assrt (kc_pos c ! i \<noteq> -1);
     c \<leftarrow> cells_seq_pos_rm i c;
     let c = c\<lparr>kc_seq := (kc_seq c)[i := {}]\<rparr>;
     let c = c\<lparr>kc_pos := (kc_pos c)[i := -1]\<rparr>;
     let c = c\<lparr>kc_ext := (kc_ext c)[i := ext_reset]\<rparr>;
     let c = c\<lparr>kc_shift := (kc_shift c)[i := 0]\<rparr>;
     Some (c\<lparr>kc_used := sset_erase i (kc_used c)\<rparr>) }"

definition cells_seq_rm :: "nat \<Rightarrow> llama_seq_id \<Rightarrow> kv_cells \<Rightarrow> (bool \<times> kv_cells) option" where
  "cells_seq_rm i s c = do {
     assrt (i < cells_size c);
     assrt (0 \<le> s \<and> s < LLAMA_MAX_SEQ);
     assrt (s \<in> kc_seq c ! i);
     assrt (kc_pos c ! i \<noteq> -1);
     let c = c\<lparr>kc_seq := (kc_seq c)[i := kc_seq c ! i - {s}]\<rparr>;
     c \<leftarrow> cells_seq_pos_dec s (kc_pos c ! i) c;
     if kc_seq c ! i = {} then do {
       let c = c\<lparr>kc_pos := (kc_pos c)[i := -1]\<rparr>;
       let c = c\<lparr>kc_ext := (kc_ext c)[i := ext_reset]\<rparr>;
       let c = c\<lparr>kc_shift := (kc_shift c)[i := 0]\<rparr>;
       Some (True, c\<lparr>kc_used := sset_erase i (kc_used c)\<rparr>) }
     else Some (False, c) }"

definition cells_seq_keep :: "nat \<Rightarrow> llama_seq_id \<Rightarrow> kv_cells \<Rightarrow> (bool \<times> kv_cells) option" where
  "cells_seq_keep i s c = do {
     assrt (i < cells_size c);
     assrt (0 \<le> s \<and> s < LLAMA_MAX_SEQ);
     if s \<in> kc_seq c ! i then do {
       c \<leftarrow> cells_seq_pos_rm i c;
       let c = c\<lparr>kc_seq := (kc_seq c)[i := {}]\<rparr>;
       let c = c\<lparr>kc_seq := (kc_seq c)[i := insert s (kc_seq c ! i)]\<rparr>;
       Some (False, cells_seq_pos_inc s (kc_pos c ! i) c) }
     else if kc_seq c ! i \<noteq> {} then do {
       c \<leftarrow> cells_seq_pos_rm i c;
       let c = c\<lparr>kc_seq := (kc_seq c)[i := {}]\<rparr>;
       let c = c\<lparr>kc_pos := (kc_pos c)[i := -1]\<rparr>;
       let c = c\<lparr>kc_ext := (kc_ext c)[i := ext_reset]\<rparr>;
       let c = c\<lparr>kc_shift := (kc_shift c)[i := 0]\<rparr>;
       Some (True, c\<lparr>kc_used := sset_erase i (kc_used c)\<rparr>) }
     else do {
       assrt (kc_pos c ! i = -1);
       Some (False, c) } }"

definition cells_seq_add :: "nat \<Rightarrow> llama_seq_id \<Rightarrow> kv_cells \<Rightarrow> kv_cells option" where
  "cells_seq_add i s c = do {
     assrt (i < cells_size c);
     assrt (kc_pos c ! i \<noteq> -1);
     assrt (0 \<le> s \<and> s < LLAMA_MAX_SEQ);
     assrt (s \<notin> kc_seq c ! i);
     let c = c\<lparr>kc_seq := (kc_seq c)[i := insert s (kc_seq c ! i)]\<rparr>;
     Some (cells_seq_pos_inc s (kc_pos c ! i) c) }"

definition cells_pos_set :: "nat \<Rightarrow> llama_pos \<Rightarrow> kv_cells \<Rightarrow> kv_cells option" where
  "cells_pos_set i p c = do {
     assrt (i < cells_size c);
     assrt (kc_pos c ! i = -1);
     assrt (kc_seq c ! i = {});
     let c = c\<lparr>kc_pos := (kc_pos c)[i := p]\<rparr>;
     Some (c\<lparr>kc_used := sset_insert i (kc_used c)\<rparr>) }"

definition cells_ext_set :: "nat \<Rightarrow> kv_cell_ext \<Rightarrow> kv_cells \<Rightarrow> kv_cells option" where
  "cells_ext_set i e c = do {
     assrt (i < length (kc_ext c));
     Some (c\<lparr>kc_ext := (kc_ext c)[i := e]\<rparr>) }"

definition cells_pos_add :: "nat \<Rightarrow> llama_pos \<Rightarrow> kv_cells \<Rightarrow> (bool \<times> kv_cells) option" where
  "cells_pos_add i d c = do {
     assrt (i < cells_size c);
     assrt (kc_pos c ! i \<noteq> -1);
     c \<leftarrow> cells_seq_pos_rm i c;
     let c = c\<lparr>kc_pos := (kc_pos c)[i := kc_pos c ! i + d]\<rparr>;
     let c = c\<lparr>kc_shift := (kc_shift c)[i := kc_shift c ! i + d]\<rparr>;
     let c = c\<lparr>kc_has_shift := True\<rparr>;
     if kc_pos c ! i < 0 then do {
       let c = c\<lparr>kc_seq := (kc_seq c)[i := {}]\<rparr>;
       let c = c\<lparr>kc_pos := (kc_pos c)[i := -1]\<rparr>;
       let c = c\<lparr>kc_shift := (kc_shift c)[i := 0]\<rparr>;
       Some (True, c\<lparr>kc_used := sset_erase i (kc_used c)\<rparr>) }
     else do {
       c \<leftarrow> cells_seq_pos_add i c;
       Some (False, c) } }"

text \<open>Division by zero is undefined behaviour, so \<open>d = 0\<close> has no result.\<close>

definition cells_pos_div :: "nat \<Rightarrow> int \<Rightarrow> kv_cells \<Rightarrow> kv_cells option" where
  "cells_pos_div i d c = do {
     assrt (i < cells_size c);
     assrt (kc_pos c ! i \<noteq> -1);
     let p_old = kc_pos c ! i;
     c \<leftarrow> cells_seq_pos_rm i c;
     assrt (d \<noteq> 0);
     let c = c\<lparr>kc_pos := (kc_pos c)[i := cdiv (kc_pos c ! i) d]\<rparr>;
     let c = c\<lparr>kc_shift := (kc_shift c)[i := kc_shift c ! i + (p_old - kc_pos c ! i)]\<rparr>;
     c \<leftarrow> cells_seq_pos_add i c;
     Some (c\<lparr>kc_has_shift := True\<rparr>) }"

subsection \<open>Saving and restoring cells\<close>

definition cells_cp_list :: "nat list \<Rightarrow> kv_cells \<Rightarrow> kv_cells option" where
  "cells_cp_list idxs c = do {
     assrt (\<forall>idx \<in> set idxs. idx < cells_size c);
     assrt (\<forall>idx \<in> set idxs. kc_shift c ! idx = 0);
     let res = cells_resize (length idxs) cells_default;
     Some (res\<lparr>kc_pos := map (\<lambda>idx. kc_pos c ! idx) idxs,
               kc_ext := map (\<lambda>idx. kc_ext c ! idx) idxs,
               kc_seq := map (\<lambda>idx. kc_seq c ! idx) idxs\<rparr>) }"

definition cells_cp :: "nat \<Rightarrow> nat \<Rightarrow> kv_cells \<Rightarrow> kv_cells option" where
  "cells_cp i n c = do {
     assrt (i + n \<le> cells_size c);
     assrt (\<forall>idx \<in> set [i..<i + n]. kc_shift c ! idx = 0);
     let res = cells_resize n cells_default;
     Some (res\<lparr>kc_pos := map (\<lambda>j. kc_pos c ! (i + j)) [0..<n],
               kc_ext := map (\<lambda>j. kc_ext c ! (i + j)) [0..<n],
               kc_seq := map (\<lambda>j. kc_seq c ! (i + j)) [0..<n]\<rparr>) }"

text \<open>The body of the loop both \<open>set\<close> methods run for every cell.\<close>

definition cells_set_cell :: "kv_cells \<Rightarrow> nat \<Rightarrow> nat \<Rightarrow> kv_cells \<Rightarrow> kv_cells option" where
  "cells_set_cell other j idx c = do {
     assrt (idx < cells_size c);
     let c = (if kc_pos c ! idx = -1 \<and> kc_pos other ! j \<noteq> -1
              then c\<lparr>kc_used := sset_insert idx (kc_used c)\<rparr> else c);
     let c = (if kc_pos c ! idx \<noteq> -1 \<and> kc_pos other ! j = -1
              then c\<lparr>kc_used := sset_erase idx (kc_used c)\<rparr> else c);
     c \<leftarrow> (if kc_pos c ! idx \<noteq> -1 then cells_seq_pos_rm idx c else Some c);
     let c = c\<lparr>kc_pos := (kc_pos c)[idx := kc_pos other ! j]\<rparr>;
     let c = c\<lparr>kc_ext := (kc_ext c)[idx := kc_ext other ! j]\<rparr>;
     let c = c\<lparr>kc_seq := (kc_seq c)[idx := kc_seq other ! j]\<rparr>;
     c \<leftarrow> (if kc_pos c ! idx \<noteq> -1 then cells_seq_pos_add idx c else Some c);
     assrt (kc_shift c ! idx = 0);
     Some c }"

definition cells_set :: "nat \<Rightarrow> kv_cells \<Rightarrow> kv_cells \<Rightarrow> kv_cells option" where
  "cells_set i other c = do {
     assrt (i + cells_size other \<le> cells_size c);
     ofold (\<lambda>j. cells_set_cell other j (i + j)) [0..<cells_size other] c }"

definition cells_set_list :: "nat list \<Rightarrow> kv_cells \<Rightarrow> kv_cells \<Rightarrow> kv_cells option" where
  "cells_set_list idxs other c = do {
     assrt (length idxs = cells_size other);
     ofold (\<lambda>j. cells_set_cell other j (idxs ! j)) [0..<cells_size other] c }"

subsection \<open>The indexes describe the cells\<close>

text \<open>How many cells hold position \<open>p\<close> of sequence \<open>s\<close>.\<close>

definition occ :: "llama_pos list \<Rightarrow> llama_seq_id set list \<Rightarrow> llama_seq_id \<Rightarrow> llama_pos \<Rightarrow> nat" where
  "occ ps ss s p = card {i. i < length ps \<and> ps ! i = p \<and> s \<in> ss ! i}"

definition index_ok :: "(llama_seq_id \<Rightarrow> (llama_pos \<times> int) list) \<Rightarrow>
    (llama_seq_id \<Rightarrow> llama_pos \<Rightarrow> nat) \<Rightarrow> bool" where
  "index_ok sp f \<longleftrightarrow> (\<forall>s. smap_inv (sp s) \<and> is_counts (smap_find (sp s)) (f s))"

definition cells_inv :: "kv_cells \<Rightarrow> bool" where
  "cells_inv c \<longleftrightarrow>
     length (kc_ext c) = cells_size c \<and> length (kc_shift c) = cells_size c \<and>
     length (kc_seq c) = cells_size c \<and>
     (\<forall>i < cells_size c. kc_pos c ! i \<ge> -1) \<and>
     (\<forall>i < cells_size c. kc_seq c ! i \<subseteq> {0..<LLAMA_MAX_SEQ}) \<and>
     (\<forall>i < cells_size c. kc_pos c ! i = -1 \<longrightarrow> kc_seq c ! i = {} \<and> kc_shift c ! i = 0) \<and>
     sset_inv (kc_used c) \<and> set (kc_used c) = {i. i < cells_size c \<and> kc_pos c ! i \<noteq> -1} \<and>
     index_ok (kc_seq_pos c) (occ (kc_pos c) (kc_seq c))"

text \<open>What the indexes are computed from.\<close>

type_synonym cells_data =
  "bool \<times> llama_pos list \<times> kv_cell_ext list \<times> llama_pos list \<times> llama_seq_id set list"

definition data :: "kv_cells \<Rightarrow> cells_data" where
  "data c = (kc_has_shift c, kc_pos c, kc_ext c, kc_shift c, kc_seq c)"

interpretation seq_tab: count_table "[]" smap_find smap_insert smap_erase smap_begin smap_rbegin smap_inv
  by unfold_locales

lemma index_unique: "index_ok sp f \<Longrightarrow> index_ok sp' f \<Longrightarrow> sp = sp'"
  unfolding index_ok_def is_counts_def by (intro ext smap_unique) simp_all

lemma cells_inv_unique:
  assumes "cells_inv c" "cells_inv c'" "data c = data c'"
  shows "c = c'"
proof -
  have "kc_used c = kc_used c'"
    using assms by (intro sset_unique) (auto simp: cells_inv_def data_def cells_size_def)
  moreover have "kc_seq_pos c = kc_seq_pos c'"
    using assms by (intro index_unique) (auto simp: cells_inv_def data_def)
  ultimately show ?thesis
    using assms(3) by (simp add: data_def)
qed

lemma set_all_seqs: "set all_seqs = {0..<LLAMA_MAX_SEQ}"
  by (auto simp: all_seqs_def)

lemma distinct_all_seqs: "distinct all_seqs"
  by (simp add: all_seqs_def)

text \<open>Removing a cell from the index, and adding one.\<close>

lemma index_ok_dec:
  assumes "index_ok sp f" "f s p \<noteq> 0"
  shows "\<exists>v. smap_find (sp s) p = Some v \<and>
    index_ok (sp(s := if v - 1 = 0 then smap_erase p (sp s) else smap_insert p (v - 1) (sp s)))
      (f(s := (f s)(p := f s p - 1)))"
proof -
  have inv: "smap_inv (sp t)" "is_counts (smap_find (sp t)) (f t)" for t
    using assms(1) by (auto simp: index_ok_def)
  have v: "smap_find (sp s) p = Some (int (f s p))"
    using inv(2) [of s] assms(2) by (simp add: is_counts_def)
  from seq_tab.counts_dec [OF inv v] inv v show ?thesis
    by (auto simp: index_ok_def)
qed

lemma index_ok_inc:
  assumes "index_ok sp f"
  shows "index_ok (sp(s := smap_insert p (case smap_find (sp s) p of None \<Rightarrow> 1 | Some v \<Rightarrow> v + 1) (sp s)))
      (f(s := (f s)(p := Suc (f s p))))"
proof -
  have inv: "smap_inv (sp t)" "is_counts (smap_find (sp t)) (f t)" for t
    using assms by (auto simp: index_ok_def)
  from seq_tab.counts_inc [OF inv, of p s] inv show ?thesis
    by (auto simp: index_ok_def)
qed

lemma seq_pos_rm_loop:
  assumes "index_ok (kc_seq_pos c) f" "\<And>s. s \<in> kc_seq c ! i \<Longrightarrow> f s (kc_pos c ! i) \<noteq> 0"
    and "kc_seq c ! i \<subseteq> {0..<LLAMA_MAX_SEQ}"
  shows "\<exists>sp. cells_seq_pos_rm i c = Some (c\<lparr>kc_seq_pos := sp\<rparr>) \<and>
    index_ok sp (\<lambda>s p. if s \<in> kc_seq c ! i \<and> p = kc_pos c ! i then f s p - 1 else f s p)"
proof -
  let ?S = "kc_seq c ! i" and ?p = "kc_pos c ! i"
  let ?I = "\<lambda>pre d. \<exists>sp. d = c\<lparr>kc_seq_pos := sp\<rparr> \<and>
    index_ok sp (\<lambda>s p. if s \<in> ?S \<and> s \<in> set pre \<and> p = ?p then f s p - 1 else f s p)"
  have "\<exists>d. cells_seq_pos_rm i c = Some d \<and> ?I all_seqs d"
    unfolding cells_seq_pos_rm_def
  proof (rule ofold_list_inv)
    show "?I [] c" using assms(1) by (intro exI [of _ "kc_seq_pos c"]) simp
  next
    fix pre s post d
    assume split: "all_seqs = pre @ s # post" and I: "?I pre d"
    have new: "s \<notin> set pre"
      using distinct_all_seqs unfolding split by simp
    from I obtain sp where d: "d = c\<lparr>kc_seq_pos := sp\<rparr>"
      and ok: "index_ok sp (\<lambda>s p. if s \<in> ?S \<and> s \<in> set pre \<and> p = ?p then f s p - 1 else f s p)"
      by blast
    show "\<exists>d'. (if s \<in> kc_seq d ! i then cells_seq_pos_dec s (kc_pos d ! i) d else Some d) = Some d' \<and>
        ?I (pre @ [s]) d'"
    proof (cases "s \<in> ?S")
      case True
      from index_ok_dec [OF ok, of s ?p] new assms(2) [OF True]
      obtain v where "smap_find (sp s) ?p = Some v"
        and "index_ok (sp(s := if v - 1 = 0 then smap_erase ?p (sp s) else smap_insert ?p (v - 1) (sp s)))
          ((\<lambda>s p. if s \<in> ?S \<and> s \<in> set pre \<and> p = ?p then f s p - 1 else f s p)
            (s := (f s)(?p := f s ?p - 1)))"
        by auto
      moreover have "(\<lambda>s p. if s \<in> ?S \<and> s \<in> set pre \<and> p = ?p then f s p - 1 else f s p)
            (s := (f s)(?p := f s ?p - 1)) =
          (\<lambda>t p. if t \<in> ?S \<and> t \<in> set (pre @ [s]) \<and> p = ?p then f t p - 1 else f t p)"
        using True new by (auto simp: fun_eq_iff)
      ultimately show ?thesis
        using True by (auto simp: d cells_seq_pos_dec_def Let_def)
    next
      case False
      then have "(\<lambda>t p. if t \<in> ?S \<and> t \<in> set (pre @ [s]) \<and> p = ?p then f t p - 1 else f t p) =
          (\<lambda>t p. if t \<in> ?S \<and> t \<in> set pre \<and> p = ?p then f t p - 1 else f t p)"
        by (auto simp: fun_eq_iff)
      with False ok show ?thesis by (auto simp: d)
    qed
  qed
  moreover have "(\<lambda>s p. if s \<in> ?S \<and> s \<in> set all_seqs \<and> p = ?p then f s p - 1 else f s p) =
      (\<lambda>s p. if s \<in> ?S \<and> p = ?p then f s p - 1 else f s p)"
    using assms(3) by (auto simp: fun_eq_iff set_all_seqs)
  ultimately show ?thesis by auto
qed

lemma seq_pos_add_loop:
  assumes "index_ok (kc_seq_pos c) f" "kc_seq c ! i \<subseteq> {0..<LLAMA_MAX_SEQ}"
  shows "\<exists>sp. cells_seq_pos_add i c = Some (c\<lparr>kc_seq_pos := sp\<rparr>) \<and>
    index_ok sp (\<lambda>s p. if s \<in> kc_seq c ! i \<and> p = kc_pos c ! i then Suc (f s p) else f s p)"
proof -
  let ?S = "kc_seq c ! i" and ?p = "kc_pos c ! i"
  let ?I = "\<lambda>pre d. \<exists>sp. d = c\<lparr>kc_seq_pos := sp\<rparr> \<and>
    index_ok sp (\<lambda>s p. if s \<in> ?S \<and> s \<in> set pre \<and> p = ?p then Suc (f s p) else f s p)"
  have "\<exists>d. cells_seq_pos_add i c = Some d \<and> ?I all_seqs d"
    unfolding cells_seq_pos_add_def
  proof (rule ofold_list_inv)
    show "?I [] c" using assms(1) by (intro exI [of _ "kc_seq_pos c"]) simp
  next
    fix pre s post d
    assume split: "all_seqs = pre @ s # post" and I: "?I pre d"
    have new: "s \<notin> set pre"
      using distinct_all_seqs unfolding split by simp
    from I obtain sp where d: "d = c\<lparr>kc_seq_pos := sp\<rparr>"
      and ok: "index_ok sp (\<lambda>s p. if s \<in> ?S \<and> s \<in> set pre \<and> p = ?p then Suc (f s p) else f s p)"
      by blast
    have step: "(\<lambda>s p. if s \<in> ?S \<and> s \<in> set pre \<and> p = ?p then Suc (f s p) else f s p)
          (s := (f s)(?p := Suc (f s ?p))) =
        (\<lambda>t p. if t \<in> ?S \<and> t \<in> set (pre @ [s]) \<and> p = ?p then Suc (f t p) else f t p)" if "s \<in> ?S"
      using that new by (auto simp: fun_eq_iff)
    have skip: "(\<lambda>t p. if t \<in> ?S \<and> t \<in> set (pre @ [s]) \<and> p = ?p then Suc (f t p) else f t p) =
        (\<lambda>t p. if t \<in> ?S \<and> t \<in> set pre \<and> p = ?p then Suc (f t p) else f t p)" if "s \<notin> ?S"
      using that by (auto simp: fun_eq_iff)
    show "\<exists>d'. (if s \<in> kc_seq d ! i then Some (cells_seq_pos_inc s (kc_pos d ! i) d) else Some d) = Some d' \<and>
        ?I (pre @ [s]) d'"
      using index_ok_inc [OF ok, of s ?p] new step skip ok
      by (cases "s \<in> ?S") (auto simp: d cells_seq_pos_inc_def Let_def)
  qed
  moreover have "(\<lambda>s p. if s \<in> ?S \<and> s \<in> set all_seqs \<and> p = ?p then Suc (f s p) else f s p) =
      (\<lambda>s p. if s \<in> ?S \<and> p = ?p then Suc (f s p) else f s p)"
    using assms(2) by (auto simp: fun_eq_iff set_all_seqs)
  ultimately show ?thesis by auto
qed

text \<open>Changing one cell changes the counts of its old and its new position only.\<close>

lemma occ_update:
  assumes "i < length ps" "length ss = length ps"
  shows "occ (ps[i := p]) (ss[i := S]) s q =
    (if s \<in> ss ! i \<and> q = ps ! i then occ ps ss s q - 1 else occ ps ss s q) +
    (if s \<in> S \<and> q = p then 1 else 0)"
proof -
  let ?A = "{k. k < length ps \<and> ps ! k = q \<and> s \<in> ss ! k}"
  let ?B = "{k. k < length (ps[i := p]) \<and> ps[i := p] ! k = q \<and> s \<in> ss[i := S] ! k}"
  have B: "?B = (?A - {i}) \<union> (if s \<in> S \<and> q = p then {i} else {})"
    using assms by (auto simp: nth_list_update)
  have "card (?A - {i}) = (if s \<in> ss ! i \<and> q = ps ! i then card ?A - 1 else card ?A)"
    using assms by auto
  moreover have "card ?B = card (?A - {i}) + (if s \<in> S \<and> q = p then 1 else 0)"
    unfolding B by (simp add: card_insert_if del: insert_Diff_single)
  ultimately show ?thesis by (simp add: occ_def)
qed

lemma occ_pos_iff: "occ ps ss s p \<noteq> 0 \<longleftrightarrow> (\<exists>i < length ps. ps ! i = p \<and> s \<in> ss ! i)"
  by (auto simp: occ_def card_eq_0_iff)

subsection \<open>What every method does to the cells\<close>

text \<open>
  The abstract machine: the same operations on the data alone, without indexes and assertions.
\<close>

fun spec_put :: "nat \<Rightarrow> llama_pos \<Rightarrow> kv_cell_ext \<Rightarrow> llama_pos \<Rightarrow> llama_seq_id set \<Rightarrow> cells_data \<Rightarrow> cells_data" where
  "spec_put i p e h S (b, ps, es, hs, ss) = (b, ps[i := p], es[i := e], hs[i := h], ss[i := S])"

definition spec_clear :: "nat \<Rightarrow> cells_data \<Rightarrow> cells_data" where
  "spec_clear i = spec_put i (-1) ext_reset 0 {}"

definition cells_cell :: "kv_cells \<Rightarrow> nat \<Rightarrow> llama_pos \<times> kv_cell_ext \<times> llama_pos \<times> llama_seq_id set" where
  "cells_cell c i = (kc_pos c ! i, kc_ext c ! i, kc_shift c ! i, kc_seq c ! i)"

lemma cells_invD:
  assumes "cells_inv c"
  shows "length (kc_pos c) = cells_size c" "length (kc_ext c) = cells_size c"
    "length (kc_shift c) = cells_size c" "length (kc_seq c) = cells_size c"
    "i < cells_size c \<Longrightarrow> -1 \<le> kc_pos c ! i"
    "i < cells_size c \<Longrightarrow> kc_seq c ! i \<subseteq> {0..<LLAMA_MAX_SEQ}"
    "i < cells_size c \<Longrightarrow> kc_pos c ! i = -1 \<Longrightarrow> kc_seq c ! i = {}"
    "i < cells_size c \<Longrightarrow> kc_pos c ! i = -1 \<Longrightarrow> kc_shift c ! i = 0"
    "sset_inv (kc_used c)"
    "set (kc_used c) = {i. i < cells_size c \<and> kc_pos c ! i \<noteq> -1}"
    "index_ok (kc_seq_pos c) (occ (kc_pos c) (kc_seq c))"
  using assms by (auto simp: cells_inv_def cells_size_def)

lemma cells_inv_finite: "cells_inv c \<Longrightarrow> i < cells_size c \<Longrightarrow> finite (kc_seq c ! i)"
  using cells_invD(6) by (rule finite_subset) auto

lemma cells_inv_updateI:
  assumes inv: "cells_inv c" and i: "i < cells_size c"
    and pos: "kc_pos c' = (kc_pos c)[i := p]" and exts: "kc_ext c' = (kc_ext c)[i := e]"
    and shift: "kc_shift c' = (kc_shift c)[i := h]" and seq: "kc_seq c' = (kc_seq c)[i := S]"
    and p: "-1 \<le> p" "p = -1 \<Longrightarrow> S = {} \<and> h = 0" and S: "S \<subseteq> {0..<LLAMA_MAX_SEQ}"
    and used: "sset_inv (kc_used c')"
      "set (kc_used c') = (if p = -1 then set (kc_used c) - {i} else insert i (set (kc_used c)))"
    and index: "index_ok (kc_seq_pos c') (\<lambda>s q.
      (if s \<in> kc_seq c ! i \<and> q = kc_pos c ! i then occ (kc_pos c) (kc_seq c) s q - 1
       else occ (kc_pos c) (kc_seq c) s q) + (if s \<in> S \<and> q = p then 1 else 0))"
  shows "cells_inv c'"
proof -
  note D = cells_invD [OF inv]
  have size: "cells_size c' = cells_size c"
    by (simp add: cells_size_def pos)
  have "occ (kc_pos c') (kc_seq c') = (\<lambda>s q.
      (if s \<in> kc_seq c ! i \<and> q = kc_pos c ! i then occ (kc_pos c) (kc_seq c) s q - 1
       else occ (kc_pos c) (kc_seq c) s q) + (if s \<in> S \<and> q = p then 1 else 0))"
    unfolding pos seq by (intro ext) (use i D in \<open>simp add: occ_update\<close>)
  then have "index_ok (kc_seq_pos c') (occ (kc_pos c') (kc_seq c'))"
    using index by simp
  moreover have "set (kc_used c') = {k. k < cells_size c \<and> kc_pos c' ! k \<noteq> -1}"
    unfolding used(2) pos using i D(1,10) by (auto simp: nth_list_update)
  moreover have "kc_pos c' ! k \<ge> -1" "kc_seq c' ! k \<subseteq> {0..<LLAMA_MAX_SEQ}"
      "kc_pos c' ! k = -1 \<longrightarrow> kc_seq c' ! k = {} \<and> kc_shift c' ! k = 0" if "k < cells_size c" for k
    using that i p S D by (auto simp: pos seq shift nth_list_update)
  ultimately show ?thesis
    unfolding cells_inv_def size using D used(1) by (simp add: exts shift seq)
qed

lemma data_put:
  assumes "kc_has_shift c' = kc_has_shift c"
    and "kc_pos c' = (kc_pos c)[i := p]" "kc_ext c' = (kc_ext c)[i := e]"
    and "kc_shift c' = (kc_shift c)[i := h]" "kc_seq c' = (kc_seq c)[i := S]"
  shows "data c' = spec_put i p e h S (data c)"
  using assms by (simp add: data_def)

text \<open>The index after a cell has been taken out of it.\<close>

lemma seq_pos_rm_inv:
  assumes "cells_inv c" "i < cells_size c"
  shows "\<exists>sp. cells_seq_pos_rm i c = Some (c\<lparr>kc_seq_pos := sp\<rparr>) \<and>
    index_ok sp (\<lambda>s q. if s \<in> kc_seq c ! i \<and> q = kc_pos c ! i
      then occ (kc_pos c) (kc_seq c) s q - 1 else occ (kc_pos c) (kc_seq c) s q)"
proof (rule seq_pos_rm_loop)
  fix s
  assume "s \<in> kc_seq c ! i"
  with assms(2) show "occ (kc_pos c) (kc_seq c) s (kc_pos c ! i) \<noteq> 0"
    by (subst occ_pos_iff) (auto simp: cells_size_def)
qed (use assms cells_invD in auto)

lemma cells_reset_inv: "length (kc_ext c) = cells_size c \<Longrightarrow> length (kc_shift c) = cells_size c \<Longrightarrow>
    length (kc_seq c) = cells_size c \<Longrightarrow> cells_inv (cells_reset c)"
  by (auto simp: cells_inv_def cells_reset_def cells_size_def index_ok_def smap_inv_def is_counts_def occ_def)

lemma cells_resize_inv: "cells_inv (cells_resize n c)"
  unfolding cells_resize_def by (rule cells_reset_inv) (simp_all add: cells_size_def)

lemma cells_size_resize [simp]: "cells_size (cells_resize n c) = n"
  by (simp add: cells_resize_def cells_reset_def cells_size_def)

lemma cells_size_reset [simp]: "cells_size (cells_reset c) = cells_size c"
  by (simp add: cells_reset_def cells_size_def)

lemma cells_reset_shift_inv: "cells_inv c \<Longrightarrow> cells_inv (cells_reset_shift c)"
  unfolding cells_reset_shift_def cells_inv_def cells_size_def by auto

lemma cells_rm_spec:
  assumes inv: "cells_inv c" and i: "i < cells_size c" and ne: "kc_pos c ! i \<noteq> -1"
  shows "\<exists>c'. cells_rm i c = Some c' \<and> cells_inv c' \<and> data c' = spec_clear i (data c)"
proof -
  obtain sp where sp: "cells_seq_pos_rm i c = Some (c\<lparr>kc_seq_pos := sp\<rparr>)"
    and ok: "index_ok sp (\<lambda>s q. if s \<in> kc_seq c ! i \<and> q = kc_pos c ! i
      then occ (kc_pos c) (kc_seq c) s q - 1 else occ (kc_pos c) (kc_seq c) s q)"
    using seq_pos_rm_inv [OF inv i] by blast
  let ?c' = "c\<lparr>kc_seq_pos := sp, kc_seq := (kc_seq c)[i := {}], kc_pos := (kc_pos c)[i := -1],
    kc_ext := (kc_ext c)[i := ext_reset], kc_shift := (kc_shift c)[i := 0],
    kc_used := sset_erase i (kc_used c)\<rparr>"
  have "cells_rm i c = Some ?c'"
    using i ne by (simp add: cells_rm_def sp Let_def)
  moreover have "cells_inv ?c'"
    by (rule cells_inv_updateI [OF inv i, where p = "-1" and S = "{}" and h = 0 and e = ext_reset])
      (use cells_invD [OF inv] ok in simp_all)
  moreover have "data ?c' = spec_clear i (data c)"
    unfolding spec_clear_def by (rule data_put) simp_all
  ultimately show ?thesis by blast
qed

text \<open>Bundle: a cell's old entry taken out of the index by \<open>seq_pos_dec\<close> for one sequence.\<close>

lemma seq_pos_dec_inv:
  assumes "cells_inv c" "i < cells_size c" "s \<in> kc_seq c ! i" "kc_seq_pos d = kc_seq_pos c"
  shows "\<exists>sp. cells_seq_pos_dec s (kc_pos c ! i) d = Some (d\<lparr>kc_seq_pos := sp\<rparr>) \<and>
    index_ok sp (\<lambda>t q. if t = s \<and> q = kc_pos c ! i
      then occ (kc_pos c) (kc_seq c) t q - 1 else occ (kc_pos c) (kc_seq c) t q)"
proof -
  have "occ (kc_pos c) (kc_seq c) s (kc_pos c ! i) \<noteq> 0"
    using assms by (subst occ_pos_iff) (auto simp: cells_size_def)
  from index_ok_dec [OF cells_invD(11) [OF assms(1)] this]
  obtain v where v: "smap_find (kc_seq_pos c s) (kc_pos c ! i) = Some v"
    and ok: "index_ok ((kc_seq_pos c)(s := if v - 1 = 0 then smap_erase (kc_pos c ! i) (kc_seq_pos c s)
          else smap_insert (kc_pos c ! i) (v - 1) (kc_seq_pos c s)))
      ((occ (kc_pos c) (kc_seq c))(s := (occ (kc_pos c) (kc_seq c) s)
          (kc_pos c ! i := occ (kc_pos c) (kc_seq c) s (kc_pos c ! i) - 1)))" by blast
  have "(occ (kc_pos c) (kc_seq c))(s := (occ (kc_pos c) (kc_seq c) s)
          (kc_pos c ! i := occ (kc_pos c) (kc_seq c) s (kc_pos c ! i) - 1)) =
      (\<lambda>t q. if t = s \<and> q = kc_pos c ! i
        then occ (kc_pos c) (kc_seq c) t q - 1 else occ (kc_pos c) (kc_seq c) t q)"
    by (auto simp: fun_eq_iff)
  with ok v show ?thesis
    unfolding cells_seq_pos_dec_def assms(4) by (auto simp: Let_def)
qed

lemma index_ok_inc_at:
  assumes "index_ok (kc_seq_pos d) f"
  shows "index_ok (kc_seq_pos (cells_seq_pos_inc s p d))
    (\<lambda>t q. f t q + (if t = s \<and> q = p then 1 else 0))"
proof -
  have "f(s := (f s)(p := Suc (f s p))) = (\<lambda>t q. f t q + (if t = s \<and> q = p then 1 else 0))"
    by (auto simp: fun_eq_iff)
  with index_ok_inc [OF assms, of s p] show ?thesis
    by (simp add: cells_seq_pos_inc_def Let_def)
qed

lemma seq_pos_inc_fields [simp]:
  "kc_has_shift (cells_seq_pos_inc s p d) = kc_has_shift d"
  "kc_used (cells_seq_pos_inc s p d) = kc_used d"
  "kc_pos (cells_seq_pos_inc s p d) = kc_pos d"
  "kc_ext (cells_seq_pos_inc s p d) = kc_ext d"
  "kc_shift (cells_seq_pos_inc s p d) = kc_shift d"
  "kc_seq (cells_seq_pos_inc s p d) = kc_seq d"
  by (simp_all add: cells_seq_pos_inc_def Let_def)

definition spec_seq_rm :: "nat \<Rightarrow> llama_seq_id \<Rightarrow> cells_data \<Rightarrow> cells_data" where
  "spec_seq_rm i s d = (case d of (b, ps, es, hs, ss) \<Rightarrow>
     if ss ! i = {s} then spec_clear i d else (b, ps, es, hs, ss[i := ss ! i - {s}]))"

lemma cells_seq_rm_spec:
  assumes inv: "cells_inv c" and i: "i < cells_size c" and s: "s \<in> kc_seq c ! i"
  shows "\<exists>c'. cells_seq_rm i s c = Some (kc_seq c ! i = {s}, c') \<and> cells_inv c' \<and>
    data c' = spec_seq_rm i s (data c)"
proof -
  note D = cells_invD [OF inv]
  have ne: "kc_pos c ! i \<noteq> -1" and range: "0 \<le> s" "s < LLAMA_MAX_SEQ"
    using D(6,7) [OF i] s by auto
  let ?d = "c\<lparr>kc_seq := (kc_seq c)[i := kc_seq c ! i - {s}]\<rparr>"
  obtain sp where sp: "cells_seq_pos_dec s (kc_pos c ! i) ?d = Some (?d\<lparr>kc_seq_pos := sp\<rparr>)"
    and ok: "index_ok sp (\<lambda>t q. if t = s \<and> q = kc_pos c ! i
      then occ (kc_pos c) (kc_seq c) t q - 1 else occ (kc_pos c) (kc_seq c) t q)"
    using seq_pos_dec_inv [OF inv i s, of ?d] by auto
  show ?thesis
  proof (cases "kc_seq c ! i = {s}")
    case True
    let ?c' = "?d\<lparr>kc_seq_pos := sp, kc_pos := (kc_pos c)[i := -1], kc_ext := (kc_ext c)[i := ext_reset],
      kc_shift := (kc_shift c)[i := 0], kc_used := sset_erase i (kc_used c)\<rparr>"
    have "cells_seq_rm i s c = Some (True, ?c')"
      using i s ne range sp True D(4) by (simp add: cells_seq_rm_def Let_def)
    moreover have "cells_inv ?c'"
      by (rule cells_inv_updateI [OF inv i, where p = "-1" and S = "{}" and h = 0 and e = ext_reset])
        (use D ok True in simp_all)
    moreover have "data ?c' = spec_clear i (data c)"
      unfolding spec_clear_def by (rule data_put) (simp_all add: True)
    ultimately show ?thesis
      using True by (auto simp: spec_seq_rm_def data_def)
  next
    case False
    then have rest: "kc_seq c ! i - {s} \<noteq> {}" using s by auto
    let ?c' = "?d\<lparr>kc_seq_pos := sp\<rparr>"
    have eq: "(\<lambda>t q. if t = s \<and> q = kc_pos c ! i
        then occ (kc_pos c) (kc_seq c) t q - 1 else occ (kc_pos c) (kc_seq c) t q) =
      (\<lambda>t q. (if t \<in> kc_seq c ! i \<and> q = kc_pos c ! i then occ (kc_pos c) (kc_seq c) t q - 1
        else occ (kc_pos c) (kc_seq c) t q) + (if t \<in> kc_seq c ! i - {s} \<and> q = kc_pos c ! i then 1 else 0))"
      (is "?f = ?g")
    proof (intro ext)
      fix t q
      have "occ (kc_pos c) (kc_seq c) t (kc_pos c ! i) \<noteq> 0" if "t \<in> kc_seq c ! i"
        using that i by (subst occ_pos_iff) (auto simp: cells_size_def)
      with s show "?f t q = ?g t q" by auto
    qed
    have "cells_seq_rm i s c = Some (False, ?c')"
      using i s ne range sp rest D(4) by (simp add: cells_seq_rm_def Let_def)
    moreover have "cells_inv ?c'"
      by (rule cells_inv_updateI [OF inv i, where p = "kc_pos c ! i" and S = "kc_seq c ! i - {s}"
            and h = "kc_shift c ! i" and e = "kc_ext c ! i"])
        (use D(1-4,9,10) D(5-8) [OF i] i ok ne eq in \<open>auto simp: insert_absorb\<close>)
    ultimately show ?thesis
      using False by (auto simp: spec_seq_rm_def data_def)
  qed
qed

lemma seq_pos_add_inv:
  assumes "index_ok (kc_seq_pos d) f" "kc_seq d ! i \<subseteq> {0..<LLAMA_MAX_SEQ}"
    and "kc_seq d ! i = S" "kc_pos d ! i = r"
  shows "\<exists>sp. cells_seq_pos_add i d = Some (d\<lparr>kc_seq_pos := sp\<rparr>) \<and>
    index_ok sp (\<lambda>s q. f s q + (if s \<in> S \<and> q = r then 1 else 0))"
proof -
  have "(\<lambda>s p. if s \<in> kc_seq d ! i \<and> p = kc_pos d ! i then Suc (f s p) else f s p) =
      (\<lambda>s q. f s q + (if s \<in> S \<and> q = r then 1 else 0))"
    by (auto simp: fun_eq_iff assms(3,4))
  with seq_pos_add_loop [OF assms(1,2)] show ?thesis by simp
qed

definition spec_seq_keep :: "nat \<Rightarrow> llama_seq_id \<Rightarrow> cells_data \<Rightarrow> cells_data" where
  "spec_seq_keep i s d = (case d of (b, ps, es, hs, ss) \<Rightarrow>
     if s \<in> ss ! i then (b, ps, es, hs, ss[i := {s}])
     else if ss ! i \<noteq> {} then spec_clear i d else d)"

lemma cells_seq_keep_spec:
  assumes inv: "cells_inv c" and i: "i < cells_size c" and s: "0 \<le> s" "s < LLAMA_MAX_SEQ"
    and occupied: "kc_seq c ! i = {} \<Longrightarrow> kc_pos c ! i = -1"
  shows "\<exists>c'. cells_seq_keep i s c = Some (s \<notin> kc_seq c ! i \<and> kc_seq c ! i \<noteq> {}, c') \<and>
    cells_inv c' \<and> data c' = spec_seq_keep i s (data c)"
proof -
  note D = cells_invD [OF inv] and Di = cells_invD(5-8) [OF inv i]
  obtain sp where sp: "cells_seq_pos_rm i c = Some (c\<lparr>kc_seq_pos := sp\<rparr>)"
    and ok: "index_ok sp (\<lambda>s q. if s \<in> kc_seq c ! i \<and> q = kc_pos c ! i
      then occ (kc_pos c) (kc_seq c) s q - 1 else occ (kc_pos c) (kc_seq c) s q)"
    using seq_pos_rm_inv [OF inv i] by blast
  consider (own) "s \<in> kc_seq c ! i" | (other) "s \<notin> kc_seq c ! i" "kc_seq c ! i \<noteq> {}"
    | (none) "kc_seq c ! i = {}" by blast
  then show ?thesis
  proof cases
    case own
    then have ne: "kc_pos c ! i \<noteq> -1" using Di by auto
    let ?d = "c\<lparr>kc_seq_pos := sp, kc_seq := (kc_seq c)[i := {s}]\<rparr>"
    let ?c' = "cells_seq_pos_inc s (kc_pos c ! i) ?d"
    have "cells_seq_keep i s c = Some (False, ?c')"
      using i s own sp D(4) by (simp add: cells_seq_keep_def Let_def)
    moreover have "cells_inv ?c'"
      by (rule cells_inv_updateI [OF inv i, where p = "kc_pos c ! i" and S = "{s}"
            and h = "kc_shift c ! i" and e = "kc_ext c ! i"])
        (use D(1-4,9,10) Di i s ne index_ok_inc_at [of ?d, simplified, OF ok, of s "kc_pos c ! i"]
          in \<open>auto simp: insert_absorb\<close>)
    ultimately show ?thesis
      using own by (auto simp: spec_seq_keep_def data_def)
  next
    case other
    let ?c' = "c\<lparr>kc_seq_pos := sp, kc_seq := (kc_seq c)[i := {}], kc_pos := (kc_pos c)[i := -1],
      kc_ext := (kc_ext c)[i := ext_reset], kc_shift := (kc_shift c)[i := 0],
      kc_used := sset_erase i (kc_used c)\<rparr>"
    have "cells_seq_keep i s c = Some (True, ?c')"
      using i s other sp D(4) by (simp add: cells_seq_keep_def Let_def)
    moreover have "cells_inv ?c'"
      by (rule cells_inv_updateI [OF inv i, where p = "-1" and S = "{}" and h = 0 and e = ext_reset])
        (use D ok in simp_all)
    moreover have "data ?c' = spec_clear i (data c)"
      unfolding spec_clear_def by (rule data_put) simp_all
    ultimately show ?thesis
      using other by (auto simp: spec_seq_keep_def data_def)
  next
    case none
    with occupied i s inv show ?thesis
      by (simp add: cells_seq_keep_def spec_seq_keep_def data_def)
  qed
qed

definition spec_seq_add :: "nat \<Rightarrow> llama_seq_id \<Rightarrow> cells_data \<Rightarrow> cells_data" where
  "spec_seq_add i s d = (case d of (b, ps, es, hs, ss) \<Rightarrow> (b, ps, es, hs, ss[i := insert s (ss ! i)]))"

lemma cells_seq_add_spec:
  assumes inv: "cells_inv c" and i: "i < cells_size c" and ne: "kc_pos c ! i \<noteq> -1"
    and s: "0 \<le> s" "s < LLAMA_MAX_SEQ" "s \<notin> kc_seq c ! i"
  shows "\<exists>c'. cells_seq_add i s c = Some c' \<and> cells_inv c' \<and> data c' = spec_seq_add i s (data c)"
proof -
  note D = cells_invD [OF inv] and Di = cells_invD(5-8) [OF inv i]
  let ?d = "c\<lparr>kc_seq := (kc_seq c)[i := insert s (kc_seq c ! i)]\<rparr>"
  let ?c' = "cells_seq_pos_inc s (kc_pos c ! i) ?d"
  have "index_ok (kc_seq_pos ?d) (occ (kc_pos c) (kc_seq c))"
    using D(11) by simp
  from index_ok_inc_at [OF this, of s "kc_pos c ! i"]
  have ok: "index_ok (kc_seq_pos ?c')
      (\<lambda>t q. occ (kc_pos c) (kc_seq c) t q + (if t = s \<and> q = kc_pos c ! i then 1 else 0))" .
  have eq: "(\<lambda>t q. occ (kc_pos c) (kc_seq c) t q + (if t = s \<and> q = kc_pos c ! i then 1 else 0)) =
    (\<lambda>t q. (if t \<in> kc_seq c ! i \<and> q = kc_pos c ! i then occ (kc_pos c) (kc_seq c) t q - 1
       else occ (kc_pos c) (kc_seq c) t q) +
       (if t \<in> insert s (kc_seq c ! i) \<and> q = kc_pos c ! i then 1 else 0))"
    (is "?f = ?g")
  proof (intro ext)
    fix t q
    have "occ (kc_pos c) (kc_seq c) t (kc_pos c ! i) \<noteq> 0" if "t \<in> kc_seq c ! i"
      using that i by (subst occ_pos_iff) (auto simp: cells_size_def)
    with s show "?f t q = ?g t q" by auto
  qed
  have "cells_seq_add i s c = Some ?c'"
    using i ne s D(4) by (simp add: cells_seq_add_def Let_def)
  moreover have "cells_inv ?c'"
    by (rule cells_inv_updateI [OF inv i, where p = "kc_pos c ! i" and S = "insert s (kc_seq c ! i)"
          and h = "kc_shift c ! i" and e = "kc_ext c ! i"])
      (use D(1-4,9,10) Di i s ne ok eq in \<open>auto simp: insert_absorb\<close>)
  ultimately show ?thesis
    by (auto simp: spec_seq_add_def data_def)
qed

lemma cells_pos_set_spec:
  assumes inv: "cells_inv c" and i: "i < cells_size c" and empty: "kc_pos c ! i = -1" and p: "0 \<le> p"
  shows "\<exists>c'. cells_pos_set i p c = Some c' \<and> cells_inv c' \<and>
    data c' = spec_put i p (kc_ext c ! i) 0 {} (data c)"
proof -
  note D = cells_invD [OF inv] and Di = cells_invD(5-8) [OF inv i]
  let ?c' = "c\<lparr>kc_pos := (kc_pos c)[i := p], kc_used := sset_insert i (kc_used c)\<rparr>"
  have same: "(kc_shift c)[i := 0] = kc_shift c" "(kc_seq c)[i := {}] = kc_seq c"
    using Di empty by (metis list_update_id)+
  have "cells_pos_set i p c = Some ?c'"
    using i empty Di by (simp add: cells_pos_set_def Let_def)
  moreover have "cells_inv ?c'"
    by (rule cells_inv_updateI [OF inv i, where p = p and S = "{}" and h = 0 and e = "kc_ext c ! i"])
      (use D Di empty p same in \<open>simp_all\<close>)
  moreover have "data ?c' = spec_put i p (kc_ext c ! i) 0 {} (data c)"
    by (rule data_put) (simp_all add: same)
  ultimately show ?thesis by blast
qed

lemma cells_ext_set_spec:
  assumes inv: "cells_inv c" and i: "i < cells_size c"
  shows "\<exists>c'. cells_ext_set i e c = Some c' \<and> cells_inv c' \<and>
    data c' = spec_put i (kc_pos c ! i) e (kc_shift c ! i) (kc_seq c ! i) (data c)"
  using assms cells_invD(2) [OF inv]
  by (auto simp: cells_ext_set_def data_def cells_inv_def cells_size_def)

text \<open>
  Shifting a cell below zero frees it; unlike \<open>rm\<close> it leaves the 2D extension of the
  freed cell as it was.
\<close>

definition spec_pos_add :: "nat \<Rightarrow> llama_pos \<Rightarrow> cells_data \<Rightarrow> cells_data" where
  "spec_pos_add i d x = (case x of (b, ps, es, hs, ss) \<Rightarrow>
     if ps ! i + d < 0 then (True, ps[i := -1], es, hs[i := 0], ss[i := {}])
     else (True, ps[i := ps ! i + d], es, hs[i := hs ! i + d], ss))"

lemma cells_pos_add_spec:
  assumes inv: "cells_inv c" and i: "i < cells_size c" and ne: "kc_pos c ! i \<noteq> -1"
  shows "\<exists>c'. cells_pos_add i d c = Some (kc_pos c ! i + d < 0, c') \<and> cells_inv c' \<and>
    data c' = spec_pos_add i d (data c)"
proof -
  note D = cells_invD [OF inv] and Di = cells_invD(5-8) [OF inv i]
  obtain sp where sp: "cells_seq_pos_rm i c = Some (c\<lparr>kc_seq_pos := sp\<rparr>)"
    and ok: "index_ok sp (\<lambda>s q. if s \<in> kc_seq c ! i \<and> q = kc_pos c ! i
      then occ (kc_pos c) (kc_seq c) s q - 1 else occ (kc_pos c) (kc_seq c) s q)"
    using seq_pos_rm_inv [OF inv i] by blast
  let ?p = "kc_pos c ! i + d"
  let ?f = "\<lambda>s q. if s \<in> kc_seq c ! i \<and> q = kc_pos c ! i
      then occ (kc_pos c) (kc_seq c) s q - 1 else occ (kc_pos c) (kc_seq c) s q"
  show ?thesis
  proof (cases "?p < 0")
    case True
    let ?c' = "c\<lparr>kc_seq_pos := sp, kc_has_shift := True, kc_seq := (kc_seq c)[i := {}],
      kc_pos := (kc_pos c)[i := -1], kc_shift := (kc_shift c)[i := 0], kc_used := sset_erase i (kc_used c)\<rparr>"
    have "cells_pos_add i d c = Some (True, ?c')"
      using i ne True sp D(1,3,4) by (simp add: cells_pos_add_def Let_def)
    moreover have "cells_inv ?c'"
      by (rule cells_inv_updateI [OF inv i, where p = "-1" and S = "{}" and h = 0 and e = "kc_ext c ! i"])
        (use D ok in simp_all)
    ultimately show ?thesis
      using True by (auto simp: spec_pos_add_def data_def)
  next
    case False
    let ?d = "c\<lparr>kc_seq_pos := sp, kc_pos := (kc_pos c)[i := ?p],
      kc_shift := (kc_shift c)[i := kc_shift c ! i + d], kc_has_shift := True\<rparr>"
    obtain sp' where sp': "cells_seq_pos_add i ?d = Some (?d\<lparr>kc_seq_pos := sp'\<rparr>)"
      and ok': "index_ok sp' (\<lambda>s q. (if s \<in> kc_seq c ! i \<and> q = kc_pos c ! i
        then occ (kc_pos c) (kc_seq c) s q - 1 else occ (kc_pos c) (kc_seq c) s q) +
        (if s \<in> kc_seq c ! i \<and> q = ?p then 1 else 0))"
      using seq_pos_add_inv [of ?d ?f i "kc_seq c ! i" ?p] ok Di(2) i D(1) by auto
    let ?c' = "?d\<lparr>kc_seq_pos := sp'\<rparr>"
    have "cells_pos_add i d c = Some (False, ?c')"
      using i ne False sp sp' D(1,3,4) by (simp add: cells_pos_add_def Let_def)
    moreover have "cells_inv ?c'"
      by (rule cells_inv_updateI [OF inv i, where p = ?p and S = "kc_seq c ! i"
            and h = "kc_shift c ! i + d" and e = "kc_ext c ! i"])
        (use D(1-4,9,10) Di i ne ok' False in \<open>auto simp: insert_absorb\<close>)
    ultimately show ?thesis
      using False by (auto simp: spec_pos_add_def data_def)
  qed
qed

definition spec_pos_div :: "nat \<Rightarrow> int \<Rightarrow> cells_data \<Rightarrow> cells_data" where
  "spec_pos_div i d x = (case x of (b, ps, es, hs, ss) \<Rightarrow>
     (True, ps[i := ps ! i div d], es, hs[i := hs ! i + (ps ! i - ps ! i div d)], ss))"

lemma cells_pos_div_spec:
  assumes inv: "cells_inv c" and i: "i < cells_size c" and ne: "kc_pos c ! i \<noteq> -1" and d: "0 < d"
  shows "\<exists>c'. cells_pos_div i d c = Some c' \<and> cells_inv c' \<and> data c' = spec_pos_div i d (data c)"
proof -
  note D = cells_invD [OF inv] and Di = cells_invD(5-8) [OF inv i]
  obtain sp where sp: "cells_seq_pos_rm i c = Some (c\<lparr>kc_seq_pos := sp\<rparr>)"
    and ok: "index_ok sp (\<lambda>s q. if s \<in> kc_seq c ! i \<and> q = kc_pos c ! i
      then occ (kc_pos c) (kc_seq c) s q - 1 else occ (kc_pos c) (kc_seq c) s q)"
    using seq_pos_rm_inv [OF inv i] by blast
  have nonneg: "0 \<le> kc_pos c ! i" using Di(1) ne by linarith
  let ?f = "\<lambda>s q. if s \<in> kc_seq c ! i \<and> q = kc_pos c ! i
      then occ (kc_pos c) (kc_seq c) s q - 1 else occ (kc_pos c) (kc_seq c) s q"
  let ?p = "kc_pos c ! i div d" and ?h = "kc_shift c ! i + (kc_pos c ! i - kc_pos c ! i div d)"
  have p: "cdiv (kc_pos c ! i) d = ?p" "0 \<le> ?p"
    using nonneg d by (simp_all add: cdiv_nonneg pos_imp_zdiv_nonneg_iff)
  let ?d = "c\<lparr>kc_seq_pos := sp, kc_pos := (kc_pos c)[i := ?p], kc_shift := (kc_shift c)[i := ?h]\<rparr>"
  obtain sp' where sp': "cells_seq_pos_add i ?d = Some (?d\<lparr>kc_seq_pos := sp'\<rparr>)"
    and ok': "index_ok sp' (\<lambda>s q. (if s \<in> kc_seq c ! i \<and> q = kc_pos c ! i
      then occ (kc_pos c) (kc_seq c) s q - 1 else occ (kc_pos c) (kc_seq c) s q) +
      (if s \<in> kc_seq c ! i \<and> q = ?p then 1 else 0))"
    using seq_pos_add_inv [of ?d ?f i "kc_seq c ! i" ?p] ok Di(2) i D(1) by auto
  let ?c' = "?d\<lparr>kc_seq_pos := sp', kc_has_shift := True\<rparr>"
  have "cells_pos_div i d c = Some ?c'"
    using i ne d sp sp' p D(1,3,4) by (simp add: cells_pos_div_def Let_def)
  moreover have "cells_inv ?c'"
    by (rule cells_inv_updateI [OF inv i, where p = ?p and S = "kc_seq c ! i" and h = ?h and e = "kc_ext c ! i"])
      (use D(1-4,9,10) Di i ne ok' p in \<open>auto simp: insert_absorb\<close>)
  ultimately show ?thesis
    by (auto simp: spec_pos_div_def data_def)
qed

text \<open>
  Restoring a cell. What may be restored is a cell as \<open>cp\<close> saved it: in range, and with no
  sequences when it is empty.
\<close>

definition cell_ok :: "llama_pos \<Rightarrow> llama_seq_id set \<Rightarrow> bool" where
  "cell_ok p S \<longleftrightarrow> -1 \<le> p \<and> S \<subseteq> {0..<LLAMA_MAX_SEQ} \<and> (p = -1 \<longrightarrow> S = {})"

lemma cells_set_cell_spec:
  assumes inv: "cells_inv c" and i: "i < cells_size c" and h: "kc_shift c ! i = 0"
    and ok: "cell_ok (kc_pos other ! j) (kc_seq other ! j)"
  shows "\<exists>c'. cells_set_cell other j i c = Some c' \<and> cells_inv c' \<and>
    data c' = spec_put i (kc_pos other ! j) (kc_ext other ! j) 0 (kc_seq other ! j) (data c)"
proof -
  note D = cells_invD [OF inv] and Di = cells_invD(5-8) [OF inv i]
  let ?p = "kc_pos other ! j" and ?e = "kc_ext other ! j" and ?S = "kc_seq other ! j"
  let ?f = "\<lambda>s q. if s \<in> kc_seq c ! i \<and> q = kc_pos c ! i
      then occ (kc_pos c) (kc_seq c) s q - 1 else occ (kc_pos c) (kc_seq c) s q"
  define u where "u = (if kc_pos c ! i = -1 \<and> ?p \<noteq> -1 then sset_insert i (kc_used c)
    else if kc_pos c ! i \<noteq> -1 \<and> ?p = -1 then sset_erase i (kc_used c) else kc_used c)"
  let ?c1 = "c\<lparr>kc_used := u\<rparr>"
  have "\<exists>sp. (if kc_pos c ! i \<noteq> -1 then cells_seq_pos_rm i ?c1 else Some ?c1) =
      Some (?c1\<lparr>kc_seq_pos := sp\<rparr>) \<and> index_ok sp ?f"
  proof (cases "kc_pos c ! i = -1")
    case True
    with Di D(11) show ?thesis by (intro exI [of _ "kc_seq_pos c"]) simp
  next
    case False
    have "occ (kc_pos c) (kc_seq c) s (kc_pos c ! i) \<noteq> 0" if "s \<in> kc_seq c ! i" for s
      using that i by (subst occ_pos_iff) (auto simp: cells_size_def)
    with seq_pos_rm_loop [of ?c1 "occ (kc_pos c) (kc_seq c)" i] D(11) Di(2) False
    show ?thesis by simp
  qed
  then obtain sp where sp: "(if kc_pos c ! i \<noteq> -1 then cells_seq_pos_rm i ?c1 else Some ?c1) =
      Some (?c1\<lparr>kc_seq_pos := sp\<rparr>)" and okf: "index_ok sp ?f" by blast
  let ?c2 = "?c1\<lparr>kc_seq_pos := sp, kc_pos := (kc_pos c)[i := ?p], kc_ext := (kc_ext c)[i := ?e],
    kc_seq := (kc_seq c)[i := ?S]\<rparr>"
  have "\<exists>sp'. (if ?p \<noteq> -1 then cells_seq_pos_add i ?c2 else Some ?c2) = Some (?c2\<lparr>kc_seq_pos := sp'\<rparr>) \<and>
      index_ok sp' (\<lambda>s q. ?f s q + (if s \<in> ?S \<and> q = ?p then 1 else 0))"
  proof (cases "?p = -1")
    case True
    with ok okf show ?thesis by (intro exI [of _ sp]) (simp add: cell_ok_def)
  next
    case False
    with seq_pos_add_inv [of ?c2 ?f i ?S ?p] okf ok i D show ?thesis
      by (auto simp: cell_ok_def)
  qed
  then obtain sp' where sp': "(if ?p \<noteq> -1 then cells_seq_pos_add i ?c2 else Some ?c2) =
      Some (?c2\<lparr>kc_seq_pos := sp'\<rparr>)"
    and ok': "index_ok sp' (\<lambda>s q. ?f s q + (if s \<in> ?S \<and> q = ?p then 1 else 0))" by blast
  let ?c' = "?c2\<lparr>kc_seq_pos := sp'\<rparr>"
  have run: "cells_set_cell other j i c = Some ?c'"
    unfolding cells_set_cell_def using i h sp sp' D(1,3)
    by (simp add: Let_def u_def split: if_splits)
  have same: "(kc_shift c)[i := 0] = kc_shift c"
    using h by (metis list_update_id)
  have used: "sset_inv u" "set u = (if ?p = -1 then set (kc_used c) - {i} else insert i (set (kc_used c)))"
    using D(9,10) i by (auto simp: u_def)
  have "cells_inv ?c'"
    by (rule cells_inv_updateI [OF inv i, where p = ?p and S = ?S and h = 0 and e = ?e])
      (use D(1-4,9,10) Di i h ok ok' used in \<open>auto simp: cell_ok_def same\<close>)
  moreover have "data ?c' = spec_put i ?p ?e 0 ?S (data c)"
    by (rule data_put) (simp_all add: same)
  ultimately show ?thesis using run by blast
qed

subsection \<open>Saving and restoring\<close>

lemma cells_cp_list_fields:
  assumes "cells_cp_list idxs c = Some o'"
  shows "cells_size o' = length idxs" "\<forall>i \<in> set idxs. i < cells_size c \<and> kc_shift c ! i = 0"
    "j < length idxs \<Longrightarrow> kc_pos o' ! j = kc_pos c ! (idxs ! j)"
    "j < length idxs \<Longrightarrow> kc_ext o' ! j = kc_ext c ! (idxs ! j)"
    "j < length idxs \<Longrightarrow> kc_seq o' ! j = kc_seq c ! (idxs ! j)"
  using assms by (auto simp: cells_cp_list_def bind_assrt cells_size_def Let_def split: if_splits)

lemma cells_cp_list_runs:
  "\<forall>i \<in> set idxs. i < cells_size c \<and> kc_shift c ! i = 0 \<Longrightarrow> \<exists>o'. cells_cp_list idxs c = Some o'"
  by (simp add: cells_cp_list_def bind_assrt Let_def)

text \<open>The range version of \<open>cp\<close> is the list version on a range of indices.\<close>

lemma cells_cp_as_list: "i + n \<le> cells_size c \<Longrightarrow> cells_cp i n c = cells_cp_list [i..<i + n] c"
  unfolding cells_cp_def cells_cp_list_def map_shift_upt by (auto simp: bind_assrt Let_def)

lemma data_eqI:
  assumes "cells_inv c" "cells_inv c'" "cells_size c' = cells_size c"
    and "kc_has_shift c' = kc_has_shift c"
    and "\<And>i. i < cells_size c \<Longrightarrow> cells_cell c' i = cells_cell c i"
  shows "c' = c"
proof (rule cells_inv_unique [OF assms(2,1)])
  show "data c' = data c"
    using cells_invD(1-4) [OF assms(1)] cells_invD(1-4) [OF assms(2)] assms(3-5)
    by (auto simp: data_def cells_cell_def intro!: nth_equalityI)
qed

lemma cells_cell_put:
  assumes "data c' = spec_put i p e h S (data c)" "cells_inv c" "i < cells_size c" "k < cells_size c"
  shows "cells_cell c' k = (if k = i then (p, e, h, S) else cells_cell c k)"
    and "cells_size c' = cells_size c" and "kc_has_shift c' = kc_has_shift c"
  using assms cells_invD(2-4) [OF assms(2)]
  by (simp_all add: data_def cells_cell_def cells_size_def)

lemma cells_set_list_spec:
  assumes inv: "cells_inv c" and len: "length idxs = cells_size other"
    and idxs: "\<forall>i \<in> set idxs. i < cells_size c \<and> kc_shift c ! i = 0"
    and ok: "\<forall>j < length idxs. cell_ok (kc_pos other ! j) (kc_seq other ! j)"
    and val: "\<forall>j < length idxs. f (idxs ! j) = (kc_pos other ! j, kc_ext other ! j, 0, kc_seq other ! j)"
  shows "\<exists>c'. cells_set_list idxs other c = Some c' \<and> cells_inv c' \<and>
    cells_size c' = cells_size c \<and> kc_has_shift c' = kc_has_shift c \<and>
    (\<forall>i < cells_size c. cells_cell c' i = (if i \<in> set idxs then f i else cells_cell c i))"
proof -
  let ?I = "\<lambda>k c'. cells_inv c' \<and> cells_size c' = cells_size c \<and> kc_has_shift c' = kc_has_shift c \<and>
    (\<forall>i < cells_size c. cells_cell c' i = (if i \<in> set (take k idxs) then f i else cells_cell c i))"
  have "\<exists>c'. ofold (\<lambda>j. cells_set_cell other j (idxs ! j)) [0..<length idxs] c = Some c' \<and>
      ?I (length idxs) c'"
  proof (rule ofold_upt_inv)
    show "?I 0 c" using inv by simp
  next
    fix j d
    assume j: "j < length idxs" and "?I j d"
    then have I: "cells_inv d" "cells_size d = cells_size c" "kc_has_shift d = kc_has_shift c"
      and cell: "i < cells_size c \<Longrightarrow>
        cells_cell d i = (if i \<in> set (take j idxs) then f i else cells_cell c i)" for i
      by simp_all
    let ?i = "idxs ! j"
    have i: "?i < cells_size c" "kc_shift c ! ?i = 0" using idxs j by auto
    have h: "kc_shift d ! ?i = 0"
    proof (cases "?i \<in> set (take j idxs)")
      case True
      with cell i have "cells_cell d ?i = f ?i" by simp
      with val j show ?thesis by (simp add: cells_cell_def)
    next
      case False
      with cell i have "cells_cell d ?i = cells_cell c ?i" by simp
      with i show ?thesis by (simp add: cells_cell_def)
    qed
    have i': "?i < cells_size d" using i I by simp
    obtain d' where d': "cells_set_cell other j ?i d = Some d'" "cells_inv d'"
      "data d' = spec_put ?i (kc_pos other ! j) (kc_ext other ! j) 0 (kc_seq other ! j) (data d)"
      using cells_set_cell_spec [OF I(1) i' h] ok j by blast
    note P = cells_cell_put [OF d'(3) I(1) i']
    have "cells_cell d' k = (if k \<in> set (take (Suc j) idxs) then f k else cells_cell c k)"
      if "k < cells_size c" for k
      using P(1) [of k] cell [of k] I(2) that val j
      by (simp add: take_Suc_conv_app_nth)
    with d' P(2,3) [OF i'] I
    show "\<exists>d'. cells_set_cell other j (idxs ! j) d = Some d' \<and> ?I (Suc j) d'" by simp
  qed
  with len show ?thesis
    by (simp add: cells_set_list_def)
qed

text \<open>Restoring what was saved undoes any change made to the saved cells in between.\<close>

lemma cells_restore:
  assumes inv: "cells_inv c" "cells_inv d" and saved: "cells_cp_list idxs c = Some o'"
    and size: "cells_size d = cells_size c" and flag: "kc_has_shift d = kc_has_shift c"
    and shift: "\<forall>i \<in> set idxs. kc_shift d ! i = 0"
    and outside: "\<forall>i < cells_size c. i \<notin> set idxs \<longrightarrow> cells_cell d i = cells_cell c i"
  shows "cells_set_list idxs o' d = Some c"
proof -
  note F = cells_cp_list_fields [OF saved]
  have ok: "cell_ok (kc_pos o' ! j) (kc_seq o' ! j)" if "j < length idxs" for j
    using F(2-5) cells_invD(5-8) [OF inv(1)] that by (force simp: cell_ok_def)
  have val: "cells_cell c (idxs ! j) = (kc_pos o' ! j, kc_ext o' ! j, 0, kc_seq o' ! j)"
    if "j < length idxs" for j
    using F(2-5) that by (simp add: cells_cell_def)
  have "\<exists>c'. cells_set_list idxs o' d = Some c' \<and> cells_inv c' \<and>
      cells_size c' = cells_size d \<and> kc_has_shift c' = kc_has_shift d \<and>
      (\<forall>i < cells_size d. cells_cell c' i = (if i \<in> set idxs then cells_cell c i else cells_cell d i))"
    using F(1,2) shift size ok val by (intro cells_set_list_spec inv(2)) auto
  then obtain c' where c': "cells_set_list idxs o' d = Some c'" "cells_inv c'"
    "cells_size c' = cells_size d" "kc_has_shift c' = kc_has_shift d"
    "\<forall>i < cells_size d. cells_cell c' i = (if i \<in> set idxs then cells_cell c i else cells_cell d i)"
    by blast
  have "c' = c"
    by (rule data_eqI) (use inv c' size flag outside in auto)
  with c'(1) show ?thesis by simp
qed

subsection \<open>The indexed queries agree with scans of the cells\<close>

definition scan_used :: "kv_cells \<Rightarrow> nat list" where
  "scan_used c = filter (\<lambda>i. kc_pos c ! i \<noteq> -1) [0..<cells_size c]"

definition scan_pos :: "llama_seq_id \<Rightarrow> kv_cells \<Rightarrow> llama_pos list" where
  "scan_pos s c = map ((!) (kc_pos c)) (filter (\<lambda>i. s \<in> kc_seq c ! i) [0..<cells_size c])"

lemma used_eq_scan: "cells_inv c \<Longrightarrow> kc_used c = scan_used c"
  by (rule sset_unique)
    (auto simp: cells_inv_def scan_used_def sset_inv_def intro!: sorted_wrt_filter)

lemma set_scan_pos: "set (scan_pos s c) = {kc_pos c ! i | i. i < cells_size c \<and> s \<in> kc_seq c ! i}"
  by (auto simp: scan_pos_def)

lemma occ_scan: "occ (kc_pos c) (kc_seq c) s p \<noteq> 0 \<longleftrightarrow> p \<in> set (scan_pos s c)"
  unfolding occ_pos_iff set_scan_pos by (auto simp: cells_size_def)

lemma cells_seq_pos_min_scan:
  assumes inv: "cells_inv c" and s: "0 \<le> s" "s < LLAMA_MAX_SEQ"
  shows "cells_seq_pos_min s c = Some (if scan_pos s c = [] then -1 else Min (set (scan_pos s c)))"
proof -
  have ix: "smap_inv (kc_seq_pos c s)" "is_counts (smap_find (kc_seq_pos c s)) (occ (kc_pos c) (kc_seq c) s)"
    using cells_invD(11) [OF inv] by (auto simp: index_ok_def)
  show ?thesis
  proof (cases "smap_begin (kc_seq_pos c s)")
    case None
    then have "p \<notin> set (scan_pos s c)" for p
      using seq_tab.counts_begin_None [OF ix] occ_scan [of c s p] by simp
    then have "scan_pos s c = []" by (rule empty_if_no_member)
    with None s show ?thesis by (simp add: cells_seq_pos_min_def)
  next
    case (Some e)
    obtain p v where e: "e = (p, v)" by (cases e)
    with Some seq_tab.counts_begin_Some [OF ix, of p v] occ_scan [of c s]
    have p: "p \<in> set (scan_pos s c)" "\<forall>q \<in> set (scan_pos s c). p \<le> q" and v: "v > 0"
      by auto
    then have "Min (set (scan_pos s c)) = p"
      by (intro Min_eqI) auto
    with p v s Some e show ?thesis by (auto simp: cells_seq_pos_min_def)
  qed
qed

lemma cells_seq_pos_max_scan:
  assumes inv: "cells_inv c" and s: "0 \<le> s" "s < LLAMA_MAX_SEQ"
  shows "cells_seq_pos_max s c = Some (if scan_pos s c = [] then -1 else Max (set (scan_pos s c)))"
proof -
  have ix: "smap_inv (kc_seq_pos c s)" "is_counts (smap_find (kc_seq_pos c s)) (occ (kc_pos c) (kc_seq c) s)"
    using cells_invD(11) [OF inv] by (auto simp: index_ok_def)
  show ?thesis
  proof (cases "smap_rbegin (kc_seq_pos c s)")
    case None
    then have "p \<notin> set (scan_pos s c)" for p
      using seq_tab.counts_rbegin_None [OF ix] occ_scan [of c s p] by simp
    then have "scan_pos s c = []" by (rule empty_if_no_member)
    with None s show ?thesis by (simp add: cells_seq_pos_max_def)
  next
    case (Some e)
    obtain p v where e: "e = (p, v)" by (cases e)
    with Some seq_tab.counts_rbegin_Some [OF ix, of p v] occ_scan [of c s]
    have p: "p \<in> set (scan_pos s c)" "\<forall>q \<in> set (scan_pos s c). q \<le> p" and v: "v > 0"
      by auto
    then have "Max (set (scan_pos s c)) = p"
      by (intro Max_eqI) auto
    with p v s Some e show ?thesis by (auto simp: cells_seq_pos_max_def)
  qed
qed

lemma find_singleton: "t \<in> set xs \<Longrightarrow> find (\<lambda>s. s = t) xs = Some t"
  by (induction xs) auto

lemma cells_seq_get_single:
  assumes "cells_inv c" "i < cells_size c" "kc_seq c ! i = {s}"
  shows "cells_seq_get i c = Some s"
proof -
  have "s \<in> set all_seqs"
    using cells_invD(6) [OF assms(1,2)] assms(3) by (auto simp: set_all_seqs)
  with assms show ?thesis by (simp add: cells_seq_get_def find_singleton)
qed

lemma used_min_max_scan:
  assumes "cells_inv c"
  shows "cells_get_used c = length (scan_used c)"
    and "cells_used_min c = (if scan_used c = [] then 0 else Min (set (scan_used c)))"
    and "cells_used_max_p1 c = (if scan_used c = [] then 0 else Max (set (scan_used c)) + 1)"
proof -
  have inv: "sset_inv (scan_used c)"
    using assms used_eq_scan cells_invD(9) by metis
  have "hd (scan_used c) = Min (set (scan_used c))" "last (scan_used c) = Max (set (scan_used c))"
    if "scan_used c \<noteq> []"
    using that sset_hd_le [OF inv] sset_last_ge [OF inv]
    by (auto intro!: Min_eqI [symmetric] Max_eqI [symmetric])
  then show "cells_get_used c = length (scan_used c)"
    and "cells_used_min c = (if scan_used c = [] then 0 else Min (set (scan_used c)))"
    and "cells_used_max_p1 c = (if scan_used c = [] then 0 else Max (set (scan_used c)) + 1)"
    using used_eq_scan [OF assms]
    by (auto simp: cells_get_used_def cells_used_min_def cells_used_max_p1_def)
qed

subsection \<open>The class as a state machine\<close>

text \<open>
  The mutating methods as the operations of one machine, with the contract the comments of the
  class state (\<open>call only if the cell is not empty\<close>, \<open>call only if the cell has seq_id\<close>) as
  their preconditions.
\<close>

datatype cells_op =
    Op_reset
  | Op_reset_shift
  | Op_rm nat
  | Op_seq_rm nat llama_seq_id
  | Op_seq_keep nat llama_seq_id
  | Op_seq_add nat llama_seq_id
  | Op_pos_set nat llama_pos
  | Op_ext_set nat kv_cell_ext
  | Op_pos_add nat llama_pos
  | Op_pos_div nat int
  | Op_resize nat
  | Op_set nat kv_cells
  | Op_set_list "nat list" kv_cells

fun run_cells_op :: "cells_op \<Rightarrow> kv_cells \<Rightarrow> kv_cells option" where
  "run_cells_op Op_reset c = Some (cells_reset c)"
| "run_cells_op Op_reset_shift c = Some (cells_reset_shift c)"
| "run_cells_op (Op_rm i) c = cells_rm i c"
| "run_cells_op (Op_seq_rm i s) c = map_option snd (cells_seq_rm i s c)"
| "run_cells_op (Op_seq_keep i s) c = map_option snd (cells_seq_keep i s c)"
| "run_cells_op (Op_seq_add i s) c = cells_seq_add i s c"
| "run_cells_op (Op_pos_set i p) c = cells_pos_set i p c"
| "run_cells_op (Op_ext_set i e) c = cells_ext_set i e c"
| "run_cells_op (Op_pos_add i d) c = map_option snd (cells_pos_add i d c)"
| "run_cells_op (Op_pos_div i d) c = cells_pos_div i d c"
| "run_cells_op (Op_resize n) c = Some (cells_resize n c)"
| "run_cells_op (Op_set i other) c = cells_set i other c"
| "run_cells_op (Op_set_list idxs other) c = cells_set_list idxs other c"

text \<open>What the \<open>set\<close> methods are given: cells as \<open>cp\<close> saves them, for cells without a shift.\<close>

definition set_pre :: "nat list \<Rightarrow> kv_cells \<Rightarrow> kv_cells \<Rightarrow> bool" where
  "set_pre idxs other c \<longleftrightarrow> length idxs = cells_size other \<and> (\<forall>i \<in> set idxs. i < cells_size c \<and> kc_shift c ! i = 0) \<and>
     (\<forall>j < cells_size other. cell_ok (kc_pos other ! j) (kc_seq other ! j))"

fun cells_op_pre :: "cells_op \<Rightarrow> kv_cells \<Rightarrow> bool" where
  "cells_op_pre Op_reset c = True"
| "cells_op_pre Op_reset_shift c = True"
| "cells_op_pre (Op_rm i) c = (i < cells_size c \<and> kc_pos c ! i \<noteq> -1)"
| "cells_op_pre (Op_seq_rm i s) c = (i < cells_size c \<and> s \<in> kc_seq c ! i)"
| "cells_op_pre (Op_seq_keep i s) c =
     (i < cells_size c \<and> 0 \<le> s \<and> s < LLAMA_MAX_SEQ \<and> (kc_seq c ! i = {} \<longrightarrow> kc_pos c ! i = -1))"
| "cells_op_pre (Op_seq_add i s) c =
     (i < cells_size c \<and> kc_pos c ! i \<noteq> -1 \<and> 0 \<le> s \<and> s < LLAMA_MAX_SEQ \<and> s \<notin> kc_seq c ! i)"
| "cells_op_pre (Op_pos_set i p) c = (i < cells_size c \<and> kc_pos c ! i = -1 \<and> 0 \<le> p)"
| "cells_op_pre (Op_ext_set i e) c = (i < cells_size c)"
| "cells_op_pre (Op_pos_add i d) c = (i < cells_size c \<and> kc_pos c ! i \<noteq> -1)"
| "cells_op_pre (Op_pos_div i d) c = (i < cells_size c \<and> kc_pos c ! i \<noteq> -1 \<and> 0 < d)"
| "cells_op_pre (Op_resize n) c = True"
| "cells_op_pre (Op_set i other) c = (i + cells_size other \<le> cells_size c \<and> set_pre [i..<i + cells_size other] other c)"
| "cells_op_pre (Op_set_list idxs other) c = set_pre idxs other c"

definition spec_set :: "nat list \<Rightarrow> kv_cells \<Rightarrow> cells_data \<Rightarrow> cells_data" where
  "spec_set idxs other = fold (\<lambda>j. spec_put (idxs ! j) (kc_pos other ! j) (kc_ext other ! j) 0 (kc_seq other ! j)) [0..<length idxs]"

fun spec_cells_op :: "cells_op \<Rightarrow> cells_data \<Rightarrow> cells_data" where
  "spec_cells_op Op_reset (b, ps, es, hs, ss) =
     (False, map (\<lambda>_. -1) ps, map (\<lambda>_. ext_reset) es, map (\<lambda>_. 0) hs, map (\<lambda>_. {}) ss)"
| "spec_cells_op Op_reset_shift (b, ps, es, hs, ss) = (False, ps, es, map (\<lambda>_. 0) hs, ss)"
| "spec_cells_op (Op_rm i) d = spec_clear i d"
| "spec_cells_op (Op_seq_rm i s) d = spec_seq_rm i s d"
| "spec_cells_op (Op_seq_keep i s) d = spec_seq_keep i s d"
| "spec_cells_op (Op_seq_add i s) d = spec_seq_add i s d"
| "spec_cells_op (Op_pos_set i p) (b, ps, es, hs, ss) = (b, ps[i := p], es, hs, ss)"
| "spec_cells_op (Op_ext_set i e) (b, ps, es, hs, ss) = (b, ps, es[i := e], hs, ss)"
| "spec_cells_op (Op_pos_add i d) x = spec_pos_add i d x"
| "spec_cells_op (Op_pos_div i d) x = spec_pos_div i d x"
| "spec_cells_op (Op_resize n) x =
     (False, replicate n (-1), replicate n ext_reset, replicate n 0, replicate n {})"
| "spec_cells_op (Op_set i other) x = spec_set [i..<i + cells_size other] other x"
| "spec_cells_op (Op_set_list idxs other) x = spec_set idxs other x"

inductive cells_reachable :: "kv_cells \<Rightarrow> bool" where
  reach_resize: "cells_reachable (cells_resize n cells_default)"
| reach_op: "cells_reachable c \<Longrightarrow> cells_op_pre op c \<Longrightarrow> run_cells_op op c = Some c' \<Longrightarrow>
    cells_reachable c'"

lemma set_cells_spec:
  assumes inv: "cells_inv c" and pre: "set_pre idxs other c" and g: "\<forall>j < length idxs. g j = idxs ! j"
  shows "\<exists>c'. ofold (\<lambda>j. cells_set_cell other j (g j)) [0..<cells_size other] c = Some c' \<and> cells_inv c' \<and>
    data c' = spec_set idxs other (data c)"
proof -
  let ?put = "\<lambda>j. spec_put (idxs ! j) (kc_pos other ! j) (kc_ext other ! j) 0 (kc_seq other ! j)"
  let ?I = "\<lambda>k d. cells_inv d \<and> cells_size d = cells_size c \<and> (\<forall>i \<in> set idxs. kc_shift d ! i = 0) \<and>
    data d = fold ?put [0..<k] (data c)"
  have P: "length idxs = cells_size other" "\<And>i. i \<in> set idxs \<Longrightarrow> i < cells_size c \<and> kc_shift c ! i = 0"
    "\<And>j. j < length idxs \<Longrightarrow> cell_ok (kc_pos other ! j) (kc_seq other ! j)"
    using pre by (auto simp: set_pre_def)
  have "\<exists>c'. ofold (\<lambda>j. cells_set_cell other j (g j)) [0..<length idxs] c = Some c' \<and> ?I (length idxs) c'"
  proof (rule ofold_upt_inv [where I = ?I])
    show "?I 0 c" using inv P(2) by simp
    fix j d assume j: "j < length idxs" and I: "?I j d"
    let ?i = "idxs ! j"
    have i: "?i \<in> set idxs" "?i < cells_size d" "kc_shift d ! ?i = 0" using I P(2) [of ?i] j by simp_all
    obtain d' where d': "cells_set_cell other j ?i d = Some d'" "cells_inv d'" "data d' = ?put j (data d)"
      using cells_set_cell_spec [OF _ i(2,3) P(3) [OF j]] I by blast
    have put: "cells_cell d' k = (if k = ?i then (kc_pos other ! j, kc_ext other ! j, 0, kc_seq other ! j) else cells_cell d k)"
      "cells_size d' = cells_size d" if "k < cells_size d" for k
      using cells_cell_put(1,2) [OF d'(3) _ i(2) that] I by simp_all
    have "kc_shift d' ! k = 0" if "k \<in> set idxs" for k
      using put(1) [of k] I P(2) [OF that] that by (auto simp: cells_cell_def split: if_splits)
    then have "?I (Suc j) d'" using d'(2,3) put(2) [OF i(2)] I by simp
    with d'(1) g j show "\<exists>d'. cells_set_cell other j (g j) d = Some d' \<and> ?I (Suc j) d'" by auto
  qed
  then show ?thesis using P(1) by (auto simp: spec_set_def)
qed

lemma cells_op_refine:
  assumes inv: "cells_inv c" and pre: "cells_op_pre op c"
  shows "\<exists>c'. run_cells_op op c = Some c' \<and> cells_inv c' \<and> data c' = spec_cells_op op (data c)"
proof (cases op)
  case Op_reset
  with inv cells_reset_inv [of c] cells_invD(2-4) [OF inv] show ?thesis
    by (auto simp: data_def cells_reset_def)
next
  case Op_reset_shift
  with cells_reset_shift_inv [OF inv] show ?thesis
    by (auto simp: data_def cells_reset_shift_def)
next
  case (Op_rm i)
  with cells_rm_spec [OF inv] pre show ?thesis by auto
next
  case (Op_seq_rm i s)
  with cells_seq_rm_spec [OF inv, of i s] pre show ?thesis by auto
next
  case (Op_seq_keep i s)
  with cells_seq_keep_spec [OF inv, of i s] pre show ?thesis by auto
next
  case (Op_seq_add i s)
  with cells_seq_add_spec [OF inv, of i s] pre show ?thesis by auto
next
  case (Op_pos_set i p)
  with pre cells_invD(7,8) [OF inv, of i]
  have "(kc_shift c)[i := 0] = kc_shift c" "(kc_seq c)[i := {}] = kc_seq c"
    by (simp_all add: list_update_same_conv) (metis list_update_id)+
  with cells_pos_set_spec [OF inv, of i p] pre Op_pos_set show ?thesis
    by (auto simp: data_def)
next
  case (Op_ext_set i e)
  with cells_ext_set_spec [OF inv, of i e] pre show ?thesis
    by (auto simp: data_def)
next
  case (Op_pos_add i d)
  with cells_pos_add_spec [OF inv, of i d] pre show ?thesis by auto
next
  case (Op_pos_div i d)
  with cells_pos_div_spec [OF inv, of i d] pre show ?thesis by auto
next
  case (Op_resize n)
  with cells_resize_inv [of n c] show ?thesis
    by (auto simp: data_def cells_resize_def cells_reset_def map_replicate_const)
next
  case (Op_set i other)
  then have p: "i + cells_size other \<le> cells_size c" "set_pre [i..<i + cells_size other] other c" using pre by simp_all
  with set_cells_spec [OF inv p(2), of "(+) i"] show ?thesis by (simp add: cells_set_def Op_set)
next
  case (Op_set_list idxs other)
  then have "set_pre idxs other c" using pre by simp
  with set_cells_spec [OF inv this, of "(!) idxs"] show ?thesis by (simp add: cells_set_list_def Op_set_list set_pre_def)
qed

lemma cells_reachable_invariant: "cells_reachable c \<Longrightarrow> cells_inv c"
proof (induction rule: cells_reachable.induct)
  case (reach_resize n)
  show ?case by (rule cells_resize_inv)
next
  case (reach_op c op c')
  with cells_op_refine [of c op] show ?case by auto
qed

subsection \<open>Properties\<close>

text \<open>Four cells, two of them in use: position 5 of the sequences 0 and 1, position 3 of sequence 1.\<close>

definition cells_example_ops :: "cells_op list" where
  "cells_example_ops = [Op_pos_set 1 5, Op_seq_add 1 0, Op_seq_add 1 1, Op_pos_set 3 3, Op_seq_add 3 1]"

definition cells_example :: kv_cells where
  "cells_example = \<lparr>kc_has_shift = False, kc_used = [1, 3], kc_pos = [-1, 5, -1, 3],
     kc_ext = replicate 4 ext_reset, kc_shift = replicate 4 0, kc_seq = [{}, {0, 1}, {}, {1}],
     kc_seq_pos = (\<lambda>s. [])(0 := [(5, 1)], 1 := [(3, 1), (5, 1)])\<rparr>"

fun run_cells_ops :: "cells_op list \<Rightarrow> kv_cells \<Rightarrow> kv_cells option" where
  "run_cells_ops [] c = Some c"
| "run_cells_ops (op # ops) c =
     (if cells_op_pre op c then Option.bind (run_cells_op op c) (run_cells_ops ops) else None)"

lemma run_cells_ops_reachable: "run_cells_ops ops c = Some c' \<Longrightarrow> cells_reachable c \<Longrightarrow> cells_reachable c'"
  by (induction ops c rule: run_cells_ops.induct) (auto split: if_splits bind_splits intro: reach_op)

lemma cells_example_runs: "run_cells_ops cells_example_ops (cells_resize 4 cells_default) = Some cells_example"
  by (simp add: cells_example_ops_def cells_example_def cells_resize_def cells_default_def cells_reset_def
      cells_pos_set_def cells_seq_add_def cells_size_def cells_seq_pos_inc_def vec_resize_def numeral_eq_Suc
      LLAMA_MAX_SEQ_def Let_def insert_commute)

lemma cells_example_reachable: "cells_reachable cells_example"
  using run_cells_ops_reachable [OF cells_example_runs] reach_resize by blast

text \<open>
  C4: Every mutating method of \<open>llama_kv_cells\<close> (\<open>reset\<close>, \<open>reset_shift\<close>, \<open>resize\<close>, both \<open>set\<close>, \<open>rm\<close>,
  \<open>seq_rm\<close>, \<open>seq_keep\<close>, \<open>seq_add\<close>, \<open>pos_set\<close>, \<open>ext_set\<close>, \<open>pos_add\<close>, \<open>pos_div\<close>), called by its contract on cells that were reached
  by such calls, passes its assertions, keeps the set of used cells and the position maps
  consistent with the cells, and changes the cells as specified.
\<close>

theorem cells_ops_correct:
  assumes "cells_reachable c" "cells_op_pre op c"
  shows "\<exists>c'. run_cells_op op c = Some c' \<and> cells_inv c' \<and> data c' = spec_cells_op op (data c)"
  using assms by (intro cells_op_refine cells_reachable_invariant)

theorem cells_ops_correct_witness:
  "\<exists>c'. run_cells_op (Op_seq_keep 1 0) cells_example = Some c' \<and> cells_inv c' \<and>
     kc_seq c' = [{}, {0}, {}, {1}]"
proof -
  have "cells_op_pre (Op_seq_keep 1 0) cells_example"
    by (simp add: cells_example_def cells_size_def LLAMA_MAX_SEQ_def)
  from cells_ops_correct [OF cells_example_reachable this] show ?thesis
    by (auto simp: data_def cells_example_def spec_seq_keep_def)
qed

text \<open>
  C21: On reachable cells the queries answered from the indexes (the position maps and the set of
  used cells) are what a scan over all cells gives.
\<close>

theorem cells_queries_correct:
  assumes "cells_reachable c" "0 \<le> s" "s < LLAMA_MAX_SEQ"
  shows "cells_seq_pos_min s c = Some (if scan_pos s c = [] then -1 else Min (set (scan_pos s c))) \<and>
    cells_seq_pos_max s c = Some (if scan_pos s c = [] then -1 else Max (set (scan_pos s c))) \<and>
    cells_get_used c = length (scan_used c) \<and>
    cells_used_min c = (if scan_used c = [] then 0 else Min (set (scan_used c))) \<and>
    cells_used_max_p1 c = (if scan_used c = [] then 0 else Max (set (scan_used c)) + 1)"
  using cells_reachable_invariant [OF assms(1)] assms(2,3)
  by (intro conjI cells_seq_pos_min_scan cells_seq_pos_max_scan used_min_max_scan)

theorem cells_queries_correct_witness:
  "cells_seq_pos_min 1 cells_example = Some 3 \<and> cells_seq_pos_max 1 cells_example = Some 5 \<and>
   cells_get_used cells_example = 2 \<and> cells_used_min cells_example = 1 \<and> cells_used_max_p1 cells_example = 4"
  using cells_queries_correct [OF cells_example_reachable, of 1]
  by (simp add: LLAMA_MAX_SEQ_def scan_pos_def scan_used_def cells_example_def cells_size_def numeral_eq_Suc)

text \<open>The calls that only place and remove tokens in the given cells.\<close>

fun op_places :: "nat list \<Rightarrow> cells_op \<Rightarrow> bool" where
  "op_places idxs (Op_rm i) = (i \<in> set idxs)"
| "op_places idxs (Op_seq_rm i s) = (i \<in> set idxs)"
| "op_places idxs (Op_seq_keep i s) = (i \<in> set idxs)"
| "op_places idxs (Op_seq_add i s) = (i \<in> set idxs)"
| "op_places idxs (Op_pos_set i p) = (i \<in> set idxs)"
| "op_places idxs (Op_ext_set i e) = (i \<in> set idxs)"
| "op_places idxs op = False"

definition places_only :: "nat list \<Rightarrow> kv_cells \<Rightarrow> kv_cells \<Rightarrow> bool" where
  "places_only idxs c d \<longleftrightarrow> cells_inv d \<and> cells_size d = cells_size c \<and> kc_has_shift d = kc_has_shift c \<and>
     (\<forall>i < cells_size c. i \<in> set idxs \<longrightarrow> kc_shift d ! i = 0) \<and>
     (\<forall>i < cells_size c. i \<notin> set idxs \<longrightarrow> cells_cell d i = cells_cell c i)"

lemma op_places_only:
  assumes d: "places_only idxs c d" and op: "op_places idxs op" "cells_op_pre op d" "run_cells_op op d = Some d'"
  shows "places_only idxs c d'"
proof -
  have inv: "cells_inv d" using d by (simp add: places_only_def)
  note len = cells_invD(2-4) [OF inv]
  from cells_op_refine [OF inv op(2)] op(3) have d': "cells_inv d'" "data d' = spec_cells_op op (data d)" by auto
  have trans: "places_only idxs d d' \<Longrightarrow> places_only idxs c d'"
    using d by (auto simp: places_only_def)
  show ?thesis
  proof (rule trans)
    show "places_only idxs d d'"
      using op d d' len
      by (cases op) (auto simp: places_only_def data_def cells_cell_def cells_size_def nth_list_update
          spec_clear_def spec_seq_rm_def spec_seq_keep_def spec_seq_add_def split: if_splits)
  qed
qed

lemma run_places_only:
  "run_cells_ops ops d = Some d' \<Longrightarrow> list_all (op_places idxs) ops \<Longrightarrow> places_only idxs c d \<Longrightarrow> places_only idxs c d'"
  by (induction ops d rule: run_cells_ops.induct) (auto split: if_splits bind_splits dest: op_places_only)

text \<open>
  C25: Cells saved with \<open>cp\<close> and put back with \<open>set\<close> are as they were, together with all indexes,
  after any calls that placed and removed tokens in the saved cells.
\<close>

theorem cells_save_restore:
  assumes "cells_reachable c" "cells_cp_list idxs c = Some saved"
    and "list_all (op_places idxs) ops" "run_cells_ops ops c = Some d"
  shows "cells_set_list idxs saved d = Some c"
proof -
  have inv: "cells_inv c" using assms(1) by (rule cells_reachable_invariant)
  note F = cells_cp_list_fields [OF assms(2)]
  have "places_only idxs c c" using inv F(2) by (simp add: places_only_def)
  from run_places_only [OF assms(4,3) this] show ?thesis
    using F(2) by (intro cells_restore inv assms(2)) (auto simp: places_only_def)
qed

theorem cells_save_restore_witness:
  "\<exists>saved d. cells_cp_list [0, 1] cells_example = Some saved \<and>
     run_cells_ops [Op_rm 1, Op_pos_set 0 7, Op_seq_add 0 1] cells_example = Some d \<and>
     kc_seq d = [{1}, {}, {}, {1}] \<and> cells_set_list [0, 1] saved d = Some cells_example"
proof -
  let ?ops = "[Op_rm 1, Op_pos_set 0 7, Op_seq_add 0 1]"
  have size: "cells_size c = length (kc_pos c)" for c by (simp add: cells_size_def)
  have pre: "cells_op_pre (Op_rm 1) cells_example" by (simp add: cells_example_def size)
  from cells_op_refine [OF cells_reachable_invariant [OF cells_example_reachable] pre] obtain c1 where
    c1: "run_cells_op (Op_rm 1) cells_example = Some c1" "cells_inv c1"
      "kc_pos c1 = [-1, -1, -1, 3]" "kc_seq c1 = [{}, {}, {}, {1}]"
    by (auto simp: data_def spec_clear_def cells_example_def)
  have pre1: "cells_op_pre (Op_pos_set 0 7) c1" using c1 by (simp add: size)
  from cells_op_refine [OF c1(2) this] obtain c2 where
    c2: "run_cells_op (Op_pos_set 0 7) c1 = Some c2" "cells_inv c2"
      "kc_pos c2 = [7, -1, -1, 3]" "kc_seq c2 = [{}, {}, {}, {1}]"
    using c1 by (auto simp: data_def)
  have pre2: "cells_op_pre (Op_seq_add 0 1) c2" using c2 by (simp add: size LLAMA_MAX_SEQ_def)
  from cells_op_refine [OF c2(2) this] obtain d where
    c3: "run_cells_op (Op_seq_add 0 1) c2 = Some d" "kc_seq d = [{1}, {}, {}, {1}]"
    using c2 by (auto simp: data_def spec_seq_add_def)
  have d: "run_cells_ops ?ops cells_example = Some d"
    unfolding run_cells_ops.simps using pre pre1 pre2 c1(1) c2(1) c3(1)
    by (simp only: if_True bind.bind_lunit option.simps)
  obtain saved where saved: "cells_cp_list [0, 1] cells_example = Some saved"
    by (simp add: cells_example_def cells_cp_list_def cells_size_def)
  have "list_all (op_places [0, 1]) ?ops" by simp
  from cells_save_restore [OF cells_example_reachable saved this d] d c3(2) saved show ?thesis by blast
qed

text \<open>
  The two ways to move a cell account for the move differently. \<open>pos_add\<close> adds to the shift
  what it adds to the position, so that the position less the shift stays the position the keys
  were computed for. \<open>pos_div\<close> adds what it takes away from the position, so that it is the sum that
  stays.
\<close>

theorem cells_shift_accounting:
  assumes "cells_reachable c" "i < cells_size c" "kc_pos c ! i \<noteq> -1"
  shows "(0 \<le> kc_pos c ! i + d \<longrightarrow> (\<exists>c'. cells_pos_add i d c = Some (False, c') \<and>
      kc_pos c' ! i = kc_pos c ! i + d \<and> kc_pos c' ! i - kc_shift c' ! i = kc_pos c ! i - kc_shift c ! i)) \<and>
    (0 < d \<longrightarrow> (\<exists>c'. cells_pos_div i d c = Some c' \<and>
      kc_pos c' ! i = kc_pos c ! i div d \<and> kc_pos c' ! i + kc_shift c' ! i = kc_pos c ! i + kc_shift c ! i))"
proof -
  have inv: "cells_inv c" using assms(1) by (rule cells_reachable_invariant)
  note len = cells_invD(2-4) [OF inv] and lt = assms(2)
  have "i < length (kc_pos c)" using assms(2) by (simp add: cells_size_def)
  then show ?thesis
    using cells_pos_add_spec [OF inv assms(2,3), of d] cells_pos_div_spec [OF inv assms(2,3), of d] len lt
    by (auto simp: data_def spec_pos_add_def spec_pos_div_def)
qed

theorem cells_shift_accounting_witness:
  "\<exists>c'. cells_pos_div 1 2 cells_example = Some c' \<and> kc_pos c' ! 1 = 2 \<and> kc_shift c' ! 1 = 3"
  using cells_shift_accounting [OF cells_example_reachable, of 1 2]
  by (auto simp: cells_example_def cells_size_def)

end
