(* ===== verification/Batch.thy ===== *)
theory Batch
  imports Prelude "HOL-Library.Multiset"
begin

section \<open>Batches and their splits (\<open>src/llama-batch.h\<close>, \<open>src/llama-batch.cpp\<close>)\<close>

text \<open>
  \<open>llama_batch_allocr\<close> takes the batch a client submits, checks it, fills in what the client
  left out, and then cuts it into the ubatches the memory modules and the graph work on. The model
  has the input batch (a null pointer is \<open>None\<close>), the allocator's fields, \<open>init\<close> phase by
  phase, and the three ways to split. The vocabulary is the number of its tokens and the memory
  module the pair of its \<open>seq_pos_min\<close> and \<open>seq_pos_max\<close>.
\<close>

subsection \<open>Data\<close>

record llama_batch =
  bt_n_tokens :: nat
  bt_token :: "llama_token list option"
  bt_embd :: "f32 list option"
  bt_pos :: "llama_pos list option"
  bt_n_seq_id :: "nat list option"
  bt_seq_id :: "llama_seq_id list list option"
  bt_logits :: "bool list option"

record llama_ubatch =
  ub_b_equal_seqs :: bool
  ub_n_tokens :: nat
  ub_n_seq_tokens :: nat
  ub_n_seqs :: nat
  ub_n_seqs_unq :: nat
  ub_n_pos :: nat
  ub_token :: "llama_token list option"
  ub_embd :: "f32 list option"
  ub_pos :: "llama_pos list"
  ub_n_seq_id :: "nat list"
  ub_seq_id :: "llama_seq_id list list"
  ub_seq_id_unq :: "llama_seq_id list"
  ub_seq_idx :: "int list"
  ub_output :: "bool list"

definition equal_seqs :: "llama_ubatch \<Rightarrow> bool" where
  "equal_seqs ub = ub_b_equal_seqs ub"

definition is_pos_2d :: "llama_ubatch \<Rightarrow> bool" where
  "is_pos_2d ub \<longleftrightarrow> ub_n_pos ub \<ge> 3"

text \<open>The default-constructed \<open>llama_ubatch\<close> a split returns when there is nothing left.\<close>

definition ubatch_none :: llama_ubatch where
  "ubatch_none = \<lparr>ub_b_equal_seqs = False, ub_n_tokens = 0, ub_n_seq_tokens = 0, ub_n_seqs = 0,
     ub_n_seqs_unq = 0, ub_n_pos = 0, ub_token = None, ub_embd = None, ub_pos = [],
     ub_n_seq_id = [], ub_seq_id = [], ub_seq_id_unq = [], ub_seq_idx = [], ub_output = []\<rparr>"

record batch_allocr =
  al_n_pos_per_embd :: nat
  al_batch :: llama_batch
  al_n_embd :: nat
  al_n_seq_max :: nat
  al_n_outputs :: nat
  al_seq_id_unq :: "llama_seq_id list"
  al_seq_idx :: "int list"
  al_has_cpl :: bool
  al_seq_pos :: "llama_seq_id \<Rightarrow> llama_pos list"
  al_seq_cpl :: "llama_seq_id \<Rightarrow> llama_seq_id \<Rightarrow> bool"
  al_seq_set :: "llama_seq_id set list"
  al_seq_set_map :: "llama_seq_id set \<Rightarrow> nat list"
  al_out_ids :: "nat list"
  al_n_used :: nat
  al_used :: "bool list"

type_synonym mem_view = "(llama_seq_id \<Rightarrow> llama_pos) \<times> (llama_seq_id \<Rightarrow> llama_pos)"

definition batch_none :: llama_batch where
  "batch_none = \<lparr>bt_n_tokens = 0, bt_token = None, bt_embd = None, bt_pos = None,
     bt_n_seq_id = None, bt_seq_id = None, bt_logits = None\<rparr>"

definition llama_batch_get_one :: "llama_token list \<Rightarrow> llama_batch" where
  "llama_batch_get_one tokens = batch_none\<lparr>bt_n_tokens := length tokens, bt_token := Some tokens\<rparr>"

definition allocr_new :: "nat \<Rightarrow> batch_allocr" where
  "allocr_new n_pos = \<lparr>al_n_pos_per_embd = n_pos, al_batch = batch_none, al_n_embd = 0,
     al_n_seq_max = 0, al_n_outputs = 0, al_seq_id_unq = [],
     al_seq_idx = replicate (nat LLAMA_MAX_SEQ) (-1), al_has_cpl = False, al_seq_pos = (\<lambda>_. []),
     al_seq_cpl = (\<lambda>_ _. False), al_seq_set = [], al_seq_set_map = (\<lambda>_. []), al_out_ids = [],
     al_n_used = 0, al_used = []\<rparr>"

definition allocr_clear :: "batch_allocr \<Rightarrow> batch_allocr" where
  "allocr_clear al = al\<lparr>
     al_n_outputs := 0,
     al_batch := batch_none,
     al_seq_id_unq := [],
     al_seq_pos := (\<lambda>_. []),
     al_seq_cpl := (\<lambda>_ _. False),
     al_seq_set := [],
     al_seq_set_map := (\<lambda>_. []),
     al_seq_idx := map (\<lambda>_. -1) (al_seq_idx al)\<rparr>"

definition al_seq_pos_min :: "batch_allocr \<Rightarrow> llama_seq_id \<Rightarrow> llama_pos" where
  "al_seq_pos_min al s = (if al_seq_pos al s = [] then -1 else hd (al_seq_pos al s))"

definition al_seq_pos_max :: "batch_allocr \<Rightarrow> llama_seq_id \<Rightarrow> llama_pos" where
  "al_seq_pos_max al s = (if al_seq_pos al s = [] then -1 else last (al_seq_pos al s))"

definition split_reset :: "batch_allocr \<Rightarrow> batch_allocr" where
  "split_reset al = al\<lparr>al_out_ids := [], al_n_used := 0,
     al_used := replicate (bt_n_tokens (al_batch al)) False\<rparr>"

subsection \<open>\<open>init\<close>: validation and filling in\<close>

datatype init_error =
    Too_many_sequences
  | Invalid_token nat
  | Invalid_seq_id nat nat
  | Inconsistent_positions llama_seq_id
  | Positions_not_continuous llama_seq_id
  | Coupled_sequences_diverged llama_seq_id llama_seq_id
  | Incompatible_sequence_sets llama_seq_id
  | Decreasing_positions llama_seq_id

definition check_tokens :: "llama_batch \<Rightarrow> nat \<Rightarrow> init_error option" where
  "check_tokens b n_vocab = (case bt_token b of None \<Rightarrow> None | Some toks \<Rightarrow>
     map_option Invalid_token
       (find (\<lambda>i. toks ! i < 0 \<or> toks ! i \<ge> int n_vocab) [0..<bt_n_tokens b]))"

text \<open>The first error of a loop whose rounds may read outside an array.\<close>

fun first_error_in :: "('a \<Rightarrow> 'e option option) \<Rightarrow> 'a list \<Rightarrow> 'e option option" where
  "first_error_in f [] = Some None"
| "first_error_in f (x # xs) = do {
     err \<leftarrow> f x;
     if err \<noteq> None then Some err else first_error_in f xs }"

text \<open>
  When \<open>seq_id\<close> is given, \<open>n_seq_id\<close> is read without a test for the null pointer, and the rows are
  read as far as it says: \<open>None\<close> is a read through a null pointer or outside an array.
\<close>

definition check_seq_ids :: "llama_batch \<Rightarrow> nat \<Rightarrow> init_error option option" where
  "check_seq_ids b n_seq_max = (case bt_seq_id b of
     None \<Rightarrow> Some None
   | Some ids \<Rightarrow>
       first_error_in (\<lambda>i. do {
         ns \<leftarrow> bt_n_seq_id b;
         n \<leftarrow> at_idx ns i;
         first_error_in (\<lambda>s. do {
           row \<leftarrow> at_idx ids i;
           x \<leftarrow> at_idx row s;
           Some (if x < 0 \<or> x \<ge> int n_seq_max then Some (Invalid_seq_id i s) else None) }) [0..<n] })
         [0..<bt_n_tokens b])"

definition fill_n_seq_id :: "llama_batch \<Rightarrow> llama_batch" where
  "fill_n_seq_id b = (case bt_n_seq_id b of
     None \<Rightarrow> b\<lparr>bt_n_seq_id := Some (map (\<lambda>_. 1) [0..<bt_n_tokens b])\<rparr> | Some _ \<Rightarrow> b)"

definition fill_seq_id :: "llama_batch \<Rightarrow> llama_batch" where
  "fill_seq_id b = (case bt_seq_id b of
     None \<Rightarrow> b\<lparr>bt_seq_id := Some (map (\<lambda>_. [0]) [0..<bt_n_tokens b])\<rparr> | Some _ \<Rightarrow> b)"

text \<open>The accessors of a batch whose fields have been filled in.\<close>

definition tok_n_seq :: "llama_batch \<Rightarrow> nat \<Rightarrow> nat" where
  "tok_n_seq b i = the (bt_n_seq_id b) ! i"

definition tok_seq :: "llama_batch \<Rightarrow> nat \<Rightarrow> nat \<Rightarrow> llama_seq_id" where
  "tok_seq b i s = the (bt_seq_id b) ! i ! s"

definition tok_seqs :: "llama_batch \<Rightarrow> nat \<Rightarrow> llama_seq_id list" where
  "tok_seqs b i = map (tok_seq b i) [0..<tok_n_seq b i]"

definition tok_pos :: "llama_batch \<Rightarrow> nat \<Rightarrow> llama_pos" where
  "tok_pos b i = the (bt_pos b) ! i"

definition gen_pos_step :: "llama_batch \<Rightarrow> nat \<Rightarrow> (llama_seq_id \<Rightarrow> llama_pos) \<times> llama_pos list \<Rightarrow>
    (llama_seq_id \<Rightarrow> llama_pos) \<times> llama_pos list" where
  "gen_pos_step b i st = (case st of (p0, ps) \<Rightarrow>
     let p = p0 (tok_seq b i 0)
     in (fold (\<lambda>s p0. p0(s := p + 1)) (tok_seqs b i) p0, ps @ [p]))"

definition fill_pos :: "mem_view option \<Rightarrow> llama_batch \<Rightarrow> llama_batch" where
  "fill_pos mem b = (case bt_pos b of
     None \<Rightarrow>
       let p0 = (case mem of None \<Rightarrow> (\<lambda>s. 0) | Some (_, mx) \<Rightarrow> (\<lambda>s. mx s + 1))
       in b\<lparr>bt_pos := Some (snd (fold (gen_pos_step b) [0..<bt_n_tokens b] (p0, [])))\<rparr>
   | Some _ \<Rightarrow> b)"

definition fill_logits :: "bool \<Rightarrow> llama_batch \<Rightarrow> llama_batch" where
  "fill_logits output_all b = (case bt_logits b of
     None \<Rightarrow>
       if output_all then b\<lparr>bt_logits := Some (replicate (bt_n_tokens b) True)\<rparr>
       else b\<lparr>bt_logits := Some ((replicate (bt_n_tokens b) False)[bt_n_tokens b - 1 := True])\<rparr>
   | Some out \<Rightarrow>
       if output_all \<and> (\<exists>i \<in> set [0..<bt_n_tokens b]. \<not> out ! i)
       then b\<lparr>bt_logits := Some (replicate (bt_n_tokens b) True)\<rparr>
       else b)"

subsection \<open>\<open>init\<close>: statistics\<close>

definition count_outputs :: "llama_batch \<Rightarrow> nat" where
  "count_outputs b = length (filter (\<lambda>i. the (bt_logits b) ! i) [0..<bt_n_tokens b])"

definition stats_seq :: "nat \<Rightarrow> nat \<Rightarrow> batch_allocr \<Rightarrow> batch_allocr" where
  "stats_seq i s al =
     (let b = al_batch al; s0 = tok_seq b i 0; s1 = tok_seq b i s;
          al = al\<lparr>al_seq_pos := (al_seq_pos al)(s1 := sset_insert (tok_pos b i) (al_seq_pos al s1))\<rparr>
      in if s > 0
         then al\<lparr>al_seq_cpl := (al_seq_cpl al)(s1 := (al_seq_cpl al s1)(s0 := True)), al_has_cpl := True\<rparr>
         else al)"

definition stats_token :: "nat \<Rightarrow> batch_allocr \<Rightarrow> batch_allocr" where
  "stats_token i al = fold (stats_seq i) [0..<tok_n_seq (al_batch al) i] al"

definition stats_sets :: "batch_allocr \<Rightarrow> batch_allocr" where
  "stats_sets al =
     fold (\<lambda>i al.
        let cur = set (tok_seqs (al_batch al) i)
        in al\<lparr>al_seq_set := al_seq_set al @ [cur],
              al_seq_set_map := (al_seq_set_map al)(cur := al_seq_set_map al cur @ [i])\<rparr>)
       [0..<bt_n_tokens (al_batch al)] al"

text \<open>The unique sequence ids, in increasing order, and the index of each.\<close>

definition unq_step :: "llama_seq_id set \<Rightarrow> nat \<Rightarrow> llama_seq_id list \<times> int list \<Rightarrow>
    llama_seq_id list \<times> int list" where
  "unq_step S s st = (case st of (unq, idx) \<Rightarrow>
     if int s \<in> S then (unq @ [int s], idx[s := int (length unq)]) else (unq, idx))"

definition stats_unq :: "batch_allocr \<Rightarrow> batch_allocr" where
  "stats_unq al =
     (let S = set (concat (map (tok_seqs (al_batch al)) [0..<bt_n_tokens (al_batch al)]));
          (unq, idx) = fold (unq_step S) [0..<al_n_seq_max al] (al_seq_id_unq al, al_seq_idx al)
      in al\<lparr>al_seq_id_unq := unq, al_seq_idx := idx\<rparr>)"

subsection \<open>\<open>init\<close>: consistency checks\<close>

definition check_pos_mrope :: "mem_view option \<Rightarrow> batch_allocr \<Rightarrow> llama_seq_id \<Rightarrow> init_error option" where
  "check_pos_mrope mem al s =
     (if al_seq_pos al s = [] then None else
      let p0 = (case mem of Some (_, mx) \<Rightarrow> mx s | None \<Rightarrow> -1) in
      if bt_token (al_batch al) \<noteq> None then
        (if p0 \<ge> 0 \<and> p0 \<ge> al_seq_pos_min al s then Some (Inconsistent_positions s) else None)
      else
        (if p0 \<ge> 0 \<and> p0 > al_seq_pos_min al s then Some (Inconsistent_positions s) else None))"

definition check_pos_text :: "mem_view option \<Rightarrow> batch_allocr \<Rightarrow> llama_seq_id \<Rightarrow> init_error option" where
  "check_pos_text mem al s =
     (if al_seq_pos al s = [] then None else
      let p0 = (case mem of Some (_, mx) \<Rightarrow> mx s | None \<Rightarrow> -1) in
      if p0 \<ge> 0 \<and> al_seq_pos_min al s \<noteq> p0 + 1 then Some (Inconsistent_positions s)
      else if al_seq_pos_max al s - al_seq_pos_min al s + 1 > int (length (al_seq_pos al s))
      then Some (Positions_not_continuous s)
      else None)"

fun first_error :: "('a \<Rightarrow> 'e option) \<Rightarrow> 'a list \<Rightarrow> 'e option" where
  "first_error f [] = None"
| "first_error f (x # xs) = (case f x of Some e \<Rightarrow> Some e | None \<Rightarrow> first_error f xs)"

definition seq_range :: "batch_allocr \<Rightarrow> llama_seq_id list" where
  "seq_range al = map int [0..<al_n_seq_max al]"

definition check_positions :: "mem_view option \<Rightarrow> batch_allocr \<Rightarrow> init_error option" where
  "check_positions mem al =
     (if al_n_pos_per_embd al > 1 then first_error (check_pos_mrope mem al) (seq_range al)
      else first_error (check_pos_text mem al) (seq_range al))"

definition check_coupled :: "mem_view option \<Rightarrow> batch_allocr \<Rightarrow> init_error option" where
  "check_coupled mem al = (case mem of None \<Rightarrow> None | Some (mn, mx) \<Rightarrow>
     first_error (\<lambda>(s0, s1).
         if al_seq_cpl al s0 s1 \<and> (mn s0 \<noteq> mn s1 \<or> mx s0 \<noteq> mx s1)
         then Some (Coupled_sequences_diverged s0 s1) else None)
       (concat (map (\<lambda>s0. map (Pair s0) (seq_range al)) (seq_range al))))"

text \<open>
  No partial sequence sub-sets and no decreasing positions: for every sequence the intersection of
  the sets it occurred in so far, and its last position. The sets start full for the sequences
  below \<open>n_seq_max\<close> and, as default-constructed bitsets, empty for the others; the last positions
  of those others are never read, because the empty set is an error before.
\<close>

type_synonym subset_state = "(llama_seq_id \<Rightarrow> llama_seq_id set) \<times> (llama_seq_id \<Rightarrow> llama_pos)"

fun check_subset_seqs :: "llama_seq_id set \<Rightarrow> llama_pos \<Rightarrow> llama_seq_id list \<Rightarrow> subset_state \<Rightarrow>
    init_error + subset_state" where
  "check_subset_seqs S p [] st = Inr st"
| "check_subset_seqs S p (s # ss) (cs, cp) =
     (let cs = cs(s := cs s \<inter> S) in
      if cs s = {} then Inl (Incompatible_sequence_sets s)
      else if p < cp s then Inl (Decreasing_positions s)
      else check_subset_seqs S p ss (cs, cp(s := p)))"

fun check_subset_toks :: "batch_allocr \<Rightarrow> nat list \<Rightarrow> subset_state \<Rightarrow> init_error + subset_state" where
  "check_subset_toks al [] st = Inr st"
| "check_subset_toks al (i # is) st =
     (case check_subset_seqs (al_seq_set al ! i) (tok_pos (al_batch al) i) (tok_seqs (al_batch al) i) st of
        Inl e \<Rightarrow> Inl e
      | Inr st \<Rightarrow> check_subset_toks al is st)"

definition check_subsets :: "batch_allocr \<Rightarrow> init_error option" where
  "check_subsets al =
     (case check_subset_toks al [0..<bt_n_tokens (al_batch al)]
        (\<lambda>s. if 0 \<le> s \<and> s < int (al_n_seq_max al) then {0..<LLAMA_MAX_SEQ} else {}, \<lambda>_. -1) of Inl e \<Rightarrow> Some e | Inr _ \<Rightarrow> None)"

subsection \<open>\<open>init\<close>\<close>

definition reject_on :: "init_error option \<Rightarrow> 'a \<Rightarrow> init_error + 'a" where
  "reject_on e x = (case e of Some err \<Rightarrow> Inl err | None \<Rightarrow> Inr x)"

definition allocr_fill :: "batch_allocr \<Rightarrow> llama_batch \<Rightarrow> mem_view option \<Rightarrow> nat \<Rightarrow> nat \<Rightarrow> bool \<Rightarrow>
    batch_allocr" where
  "allocr_fill al b mem n_embd n_seq_max output_all =
     (let b = fill_logits output_all (fill_pos mem (fill_seq_id (fill_n_seq_id b)));
          al = al\<lparr>al_batch := b, al_n_embd := n_embd, al_n_seq_max := n_seq_max,
                  al_n_outputs := al_n_outputs al + count_outputs b, al_has_cpl := False\<rparr>;
          al = fold stats_token [0..<bt_n_tokens b] al
      in stats_unq (stats_sets al))"

definition allocr_checks :: "mem_view option \<Rightarrow> batch_allocr \<Rightarrow> init_error option" where
  "allocr_checks mem al =
     (case check_positions mem al of Some e \<Rightarrow> Some e | None \<Rightarrow>
      (case check_coupled mem al of Some e \<Rightarrow> Some e | None \<Rightarrow> check_subsets al))"

text \<open>\<open>None\<close> is the \<open>GGML_ASSERT\<close> on an empty batch, or a read outside the sequence id arrays.\<close>

definition allocr_init :: "batch_allocr \<Rightarrow> llama_batch \<Rightarrow> nat \<Rightarrow> mem_view option \<Rightarrow> nat \<Rightarrow> nat \<Rightarrow> bool \<Rightarrow>
    (init_error + batch_allocr) option" where
  "allocr_init al b n_vocab mem n_embd n_seq_max output_all = do {
     assrt (bt_n_tokens b > 0);
     if int n_seq_max > LLAMA_MAX_SEQ then Some (Inl Too_many_sequences)
     else (case check_tokens b n_vocab of Some e \<Rightarrow> Some (Inl e) | None \<Rightarrow> do {
       err \<leftarrow> check_seq_ids b n_seq_max;
       case err of Some e \<Rightarrow> Some (Inl e) | None \<Rightarrow>
         let al = allocr_fill (allocr_clear al) b mem n_embd n_seq_max output_all
         in Some (reject_on (allocr_checks mem al) (split_reset al)) }) }"

subsection \<open>Building a ubatch\<close>

definition gather :: "nat list \<Rightarrow> 'a list \<Rightarrow> 'a list" where
  "gather idxs xs = map (\<lambda>i. xs ! i) idxs"

text \<open>\<open>udata->pos[j*n_tokens + i] = batch.pos[src_off + idxs[i]]\<close>\<close>

definition gather_pos :: "batch_allocr \<Rightarrow> nat list \<Rightarrow> llama_pos list" where
  "gather_pos al idxs =
     (let b = al_batch al in
      concat (map (\<lambda>j. map (\<lambda>i. the (bt_pos b) !
          ((if bt_token b \<noteq> None then 0 else j * bt_n_tokens b) + i)) idxs)
        [0..<al_n_pos_per_embd al]))"

definition ubatch_add :: "nat list \<Rightarrow> nat \<Rightarrow> bool \<Rightarrow> batch_allocr \<Rightarrow> (llama_ubatch \<times> batch_allocr) option" where
  "ubatch_add idxs n_seqs equal al = do {
     let b = al_batch al;
     let n_tokens = length idxs;
     assrt (n_seqs > 0 \<and> n_tokens mod n_seqs = 0);
     let out = gather idxs (the (bt_logits b));
     let S = set (concat (map (tok_seqs b) idxs));
     let (unq, idx) = fold (unq_step S) [0..<al_n_seq_max al] ([], replicate (nat LLAMA_MAX_SEQ) (-1));
     let al = al\<lparr>al_out_ids := al_out_ids al @ filter (\<lambda>i. the (bt_logits b) ! i) idxs\<rparr>;
     Some (\<lparr>ub_b_equal_seqs = equal, ub_n_tokens = n_tokens, ub_n_seq_tokens = n_tokens div n_seqs,
            ub_n_seqs = n_seqs, ub_n_seqs_unq = length unq, ub_n_pos = al_n_pos_per_embd al,
            ub_token = map_option (gather idxs) (bt_token b),
            ub_embd = map_option (\<lambda>e. concat (map (\<lambda>i. take (al_n_embd al) (drop (i * al_n_embd al) e)) idxs))
              (bt_embd b),
            ub_pos = gather_pos al idxs,
            ub_n_seq_id = gather idxs (the (bt_n_seq_id b)),
            ub_seq_id = map (tok_seqs b) idxs,
            ub_seq_id_unq = unq, ub_seq_idx = idx, ub_output = out\<rparr>, al) }"

text \<open>\<open>None\<close> is the write past the \<open>LLAMA_MAX_SEQ\<close> entries of \<open>seq_idx\<close>.\<close>

definition ubatch_reserve :: "nat \<Rightarrow> nat \<Rightarrow> batch_allocr \<Rightarrow> (llama_ubatch \<times> batch_allocr) option" where
  "ubatch_reserve n_seq_tokens n_seqs al = do {
     let n_tokens = n_seq_tokens * n_seqs;
     let al = split_reset (allocr_clear al);
     assrt (int n_seqs \<le> LLAMA_MAX_SEQ);
     Some (\<lparr>ub_b_equal_seqs = True, ub_n_tokens = n_tokens, ub_n_seq_tokens = n_seq_tokens,
        ub_n_seqs = n_seqs, ub_n_seqs_unq = n_seqs, ub_n_pos = al_n_pos_per_embd al,
        ub_token = Some (replicate n_tokens 0), ub_embd = None,
        ub_pos = replicate (n_tokens * al_n_pos_per_embd al) 0,
        ub_n_seq_id = replicate n_tokens 0, ub_seq_id = replicate n_tokens [],
        ub_seq_id_unq = map int [0..<n_seqs],
        ub_seq_idx = fold (\<lambda>s idx. idx[s := int s]) [0..<n_seqs] (replicate (nat LLAMA_MAX_SEQ) (-1)),
        ub_output = replicate n_tokens False\<rparr>, al) }"

subsection \<open>Splits\<close>

text \<open>
  Every split first decides which batch indices go into the ubatch, marking them used, and then
  builds it. The first step is a function of its own (\<open>*_idxs\<close>): its result is the list of
  indices and the allocator with the indices marked.
\<close>

fun first_unused :: "bool list \<Rightarrow> nat" where
  "first_unused [] = 0"
| "first_unused (u # us) = (if u then Suc (first_unused us) else 0)"

definition mark_used :: "nat \<Rightarrow> batch_allocr \<Rightarrow> batch_allocr" where
  "mark_used i al = al\<lparr>al_used := (al_used al)[i := True], al_n_used := al_n_used al + 1\<rparr>"

definition mark_unused :: "nat \<Rightarrow> batch_allocr \<Rightarrow> batch_allocr" where
  "mark_unused i al = al\<lparr>al_used := (al_used al)[i := False], al_n_used := al_n_used al - 1\<rparr>"

function split_simple_loop :: "nat \<Rightarrow> nat \<Rightarrow> nat list \<Rightarrow> batch_allocr \<Rightarrow> nat list \<times> batch_allocr" where
  "split_simple_loop n_ubatch cur idxs al =
     (let idxs = idxs @ [cur]; al = mark_used cur al; cur = Suc cur in
      if cur \<ge> length (al_used al) then (idxs, al)
      else if length idxs \<ge> n_ubatch then (idxs, al)
      else split_simple_loop n_ubatch cur idxs al)"
  by pat_completeness auto
termination
  by (relation "measure (\<lambda>(n_ubatch, cur, idxs, al). length (al_used al) - cur)")
    (auto simp: mark_used_def)

definition split_simple_idxs :: "nat \<Rightarrow> batch_allocr \<Rightarrow> (nat list \<times> batch_allocr) option" where
  "split_simple_idxs n_ubatch al =
     (let cur = first_unused (al_used al) in
      if cur \<ge> length (al_used al) then None
      else Some (split_simple_loop n_ubatch cur [] al))"

definition split_simple :: "nat \<Rightarrow> batch_allocr \<Rightarrow> (llama_ubatch \<times> batch_allocr) option" where
  "split_simple n_ubatch al =
     (case split_simple_idxs n_ubatch al of
        None \<Rightarrow> Some (ubatch_none, al)
      | Some (idxs, al) \<Rightarrow> ubatch_add idxs (length idxs) False al)"

text \<open>\<open>split_seq\<close>: the next unused token whose sequence set is contained in the current one.\<close>

function next_subset :: "batch_allocr \<Rightarrow> llama_seq_id set \<Rightarrow> nat \<Rightarrow> nat" where
  "next_subset al S cur =
     (if cur < bt_n_tokens (al_batch al) \<and>
         (al_used al ! cur \<or> S \<inter> al_seq_set al ! cur \<noteq> al_seq_set al ! cur)
      then next_subset al S (Suc cur) else cur)"
  by pat_completeness auto
termination
  by (relation "measure (\<lambda>(al, S, cur). bt_n_tokens (al_batch al) - cur)") auto

declare next_subset.simps [simp del]

lemma next_subset_ge: "cur \<le> next_subset al S cur"
proof (induction al S cur rule: next_subset.induct)
  case (1 al S cur)
  show ?case
  proof (cases "cur < bt_n_tokens (al_batch al) \<and>
      (al_used al ! cur \<or> S \<inter> al_seq_set al ! cur \<noteq> al_seq_set al ! cur)")
    case True
    from "1.IH" [OF True] show ?thesis
      by (subst next_subset.simps) (simp only: True if_True simp_thms Suc_leD)
  next
    case False
    then show ?thesis by (subst next_subset.simps) (simp only: if_False order_refl)
  qed
qed

function split_seq_loop :: "nat \<Rightarrow> llama_seq_id set \<Rightarrow> nat \<Rightarrow> nat list \<Rightarrow> batch_allocr \<Rightarrow>
    nat list \<times> batch_allocr" where
  "split_seq_loop n_ubatch S cur idxs al =
     (let idxs = idxs @ [cur]; al = mark_used cur al in
      if length idxs \<ge> n_ubatch then (idxs, al)
      else let cur = next_subset al S (Suc cur) in
        if cur \<ge> bt_n_tokens (al_batch al) then (idxs, al)
        else split_seq_loop n_ubatch (al_seq_set al ! cur) cur idxs al)"
  by pat_completeness auto
termination
proof (relation "measure (\<lambda>(n_ubatch, S, cur, idxs, al). bt_n_tokens (al_batch al) - cur)", goal_cases)
  case (2 n_ubatch S cur idxs al idxs' al' cur')
  then show ?case using next_subset_ge [of "Suc cur" al' S] by (auto simp: mark_used_def)
qed simp

definition split_seq_idxs :: "nat \<Rightarrow> batch_allocr \<Rightarrow> (nat list \<times> batch_allocr) option" where
  "split_seq_idxs n_ubatch al =
     (let cur = first_unused (al_used al) in
      if cur \<ge> length (al_used al) then None
      else Some (split_seq_loop n_ubatch (al_seq_set al ! cur) cur [] al))"

definition split_seq :: "nat \<Rightarrow> batch_allocr \<Rightarrow> (llama_ubatch \<times> batch_allocr) option" where
  "split_seq n_ubatch al =
     (case split_seq_idxs n_ubatch al of
        None \<Rightarrow> Some (ubatch_none, al)
      | Some (idxs, al) \<Rightarrow> ubatch_add idxs 1 True al)"

text \<open>
  \<open>split_equal\<close>. A lane is one sequence set that takes part in the ubatch: the batch indices of
  its tokens, how many of them are consumed, and those chosen for this ubatch.
\<close>

record lane =
  ln_all :: "nat list"
  ln_cur :: nat
  ln_idxs :: "nat list"

fun choose_sets :: "batch_allocr \<Rightarrow> nat \<Rightarrow> bool \<Rightarrow> nat list \<Rightarrow> llama_seq_id set list \<Rightarrow> llama_seq_id \<Rightarrow>
    llama_seq_id set list" where
  "choose_sets al n_ubatch sequential [] sets last_id = sets"
| "choose_sets al n_ubatch sequential (i # is) sets last_id =
     (if al_used al ! i then choose_sets al n_ubatch sequential is sets last_id
      else
        let add = (\<forall>S \<in> set sets. S \<inter> al_seq_set al ! i = {});
            add = (if sequential
                   then add \<and> (sets = [] \<or> tok_seq (al_batch al) i 0 = last_id + 1) else add)
        in if add then
             (let sets = sets @ [al_seq_set al ! i] in
              if length sets > n_ubatch then sets
              else choose_sets al n_ubatch sequential is sets (tok_seq (al_batch al) i 0))
           else choose_sets al n_ubatch sequential is sets last_id)"

definition start_lane :: "batch_allocr \<Rightarrow> llama_seq_id set \<Rightarrow> lane" where
  "start_lane al S =
     (let ixs = al_seq_set_map al S in
      \<lparr>ln_all = ixs, ln_cur = first_unused (map ((!) (al_used al)) ixs), ln_idxs = []\<rparr>)"

definition lane_next :: "lane \<Rightarrow> nat" where
  "lane_next l = ln_all l ! ln_cur l"

definition lane_remaining :: "lane \<Rightarrow> nat" where
  "lane_remaining l = length (ln_all l) - ln_cur l"

definition advance_lane :: "lane \<Rightarrow> lane" where
  "advance_lane l = l\<lparr>ln_idxs := ln_idxs l @ [lane_next l], ln_cur := Suc (ln_cur l)\<rparr>"

function expand_lanes :: "nat \<Rightarrow> lane list \<Rightarrow> batch_allocr \<Rightarrow> lane list \<times> batch_allocr" where
  "expand_lanes n_ubatch lanes al =
     (if lanes = [] \<or> (\<exists>l \<in> set lanes. ln_cur l \<ge> length (ln_all l)) then (lanes, al)
      else
        let al = fold (\<lambda>l. mark_used (lane_next l)) lanes al;
            lanes = map advance_lane lanes
        in if (length (ln_idxs (lanes ! 0)) + 1) * length lanes > n_ubatch then (lanes, al)
           else expand_lanes n_ubatch lanes al)"
  by pat_completeness auto
termination
proof (relation "measure (\<lambda>(n_ubatch, lanes, al). lane_remaining (hd lanes))", goal_cases)
  case (2 n_ubatch lanes al al' lanes')
  then show ?case by (cases lanes) (auto simp: lane_remaining_def advance_lane_def)
qed simp

declare expand_lanes.simps [simp del]

text \<open>The first sequence set alone: extended to completion, or cut back to leave a tail.\<close>

function extend_lane :: "lane \<Rightarrow> batch_allocr \<Rightarrow> lane \<times> batch_allocr" where
  "extend_lane l al =
     (if lane_remaining l > 0 then extend_lane (advance_lane l) (mark_used (lane_next l) al)
      else (l, al))"
  by pat_completeness auto
termination
  by (relation "measure (\<lambda>(l, al). lane_remaining l)") (auto simp: lane_remaining_def advance_lane_def)

function truncate_lane :: "nat \<Rightarrow> lane \<Rightarrow> batch_allocr \<Rightarrow> (lane \<times> batch_allocr) option" where
  "truncate_lane n_keep_tail l al =
     (if lane_remaining l < n_keep_tail then
        (if ln_idxs l = [] then None
         else truncate_lane n_keep_tail
           (l\<lparr>ln_idxs := butlast (ln_idxs l), ln_cur := ln_cur l - 1\<rparr>)
           (mark_unused (last (ln_idxs l)) al))
      else Some (l, al))"
  by pat_completeness auto
termination
  by (relation "measure (\<lambda>(k, l, al). length (ln_idxs l))") auto

declare extend_lane.simps [simp del] truncate_lane.simps [simp del]

definition keep_tail :: "nat \<Rightarrow> nat \<Rightarrow> lane list \<Rightarrow> batch_allocr \<Rightarrow> (lane list \<times> batch_allocr) option" where
  "keep_tail n_ubatch n_keep_tail lanes al =
     (if n_keep_tail = 0 then Some (lanes, al) else do {
        assrt (n_ubatch > n_keep_tail);
        let n_keep = length (takeWhile
          (\<lambda>l. \<not> (lane_remaining l \<noteq> 0 \<and> lane_remaining l < n_keep_tail)) lanes);
        (lanes, al, n_keep) \<leftarrow>
          (if n_keep = 0 then do {
             let l = lanes ! 0;
             (l, al) \<leftarrow> (if length (ln_idxs l) + lane_remaining l \<le> n_ubatch
               then Some (extend_lane l al) else truncate_lane n_keep_tail l al);
             Some (lanes[0 := l], al, 1) }
           else Some (lanes, al, n_keep));
        let al = fold (\<lambda>l. fold mark_unused (ln_idxs l)) (drop n_keep lanes) al;
        Some (take n_keep lanes, al) })"

definition split_equal_idxs :: "nat \<Rightarrow> bool \<Rightarrow> nat \<Rightarrow> batch_allocr \<Rightarrow> (lane list \<times> batch_allocr) option" where
  "split_equal_idxs n_ubatch sequential n_keep_tail al =
     (if sequential \<and> al_has_cpl al then Some ([], al)
      else
        let sets = choose_sets al n_ubatch sequential [0..<bt_n_tokens (al_batch al)] [] (-1) in
        if sets = [] then Some ([], al)
        else
          let (lanes, al) = expand_lanes n_ubatch (map (start_lane al) sets) al
          in keep_tail n_ubatch n_keep_tail lanes al)"

definition split_equal :: "nat \<Rightarrow> bool \<Rightarrow> nat \<Rightarrow> batch_allocr \<Rightarrow> (llama_ubatch \<times> batch_allocr) option" where
  "split_equal n_ubatch sequential n_keep_tail al = do {
     (lanes, al) \<leftarrow> split_equal_idxs n_ubatch sequential n_keep_tail al;
     if lanes = [] then Some (ubatch_none, al)
     else ubatch_add (concat (map ln_idxs lanes)) (length lanes) True al }"

subsection \<open>Marking\<close>

text \<open>The allocator with the tokens in \<open>X\<close> marked on top of those already used.\<close>

definition used_with :: "nat set \<Rightarrow> bool list \<Rightarrow> bool list" where
  "used_with X u = map (\<lambda>i. u ! i \<or> i \<in> X) [0..<length u]"

definition marked :: "nat set \<Rightarrow> batch_allocr \<Rightarrow> batch_allocr" where
  "marked X al = al\<lparr>al_used := used_with X (al_used al), al_n_used := al_n_used al + card X\<rparr>"

lemma length_used_with [simp]: "length (used_with X u) = length u"
  by (simp add: used_with_def)

lemma nth_used_with [simp]: "i < length u \<Longrightarrow> used_with X u ! i \<longleftrightarrow> u ! i \<or> i \<in> X"
  by (simp add: used_with_def)

lemma marked_empty [simp]: "marked {} al = al"
  by (simp add: marked_def used_with_def map_nth)

lemma marked_fields [simp]:
  "al_batch (marked X al) = al_batch al" "al_seq_set (marked X al) = al_seq_set al"
  "al_seq_set_map (marked X al) = al_seq_set_map al" "al_n_seq_max (marked X al) = al_n_seq_max al"
  "al_n_pos_per_embd (marked X al) = al_n_pos_per_embd al" "al_n_embd (marked X al) = al_n_embd al"
  "al_out_ids (marked X al) = al_out_ids al" "al_has_cpl (marked X al) = al_has_cpl al"
  "al_used (marked X al) = used_with X (al_used al)"
  "al_n_used (marked X al) = al_n_used al + card X"
  by (simp_all add: marked_def)

lemma mark_used_marked:
  assumes "finite X" "i \<notin> X" "i < length (al_used al)"
  shows "mark_used i (marked X al) = marked (insert i X) al"
proof -
  have "(used_with X (al_used al))[i := True] = used_with (insert i X) (al_used al)"
    using assms(3) by (intro nth_equalityI) (auto simp: used_with_def nth_list_update)
  with assms show ?thesis by (simp add: mark_used_def marked_def)
qed

lemma mark_unused_marked:
  assumes "finite X" "i \<in> X" "i < length (al_used al)" "\<not> al_used al ! i"
  shows "mark_unused i (marked X al) = marked (X - {i}) al"
proof -
  have "(used_with X (al_used al))[i := False] = used_with (X - {i}) (al_used al)"
    using assms(3,4) by (intro nth_equalityI) (auto simp: used_with_def nth_list_update)
  moreover have "card X = Suc (card (X - {i}))"
    using assms(1,2) by (metis card_Suc_Diff1)
  ultimately show ?thesis by (simp add: mark_unused_def marked_def)
qed

lemma fold_mark_used:
  assumes "distinct xs" "finite X" "X \<inter> set xs = {}" "\<forall>i \<in> set xs. i < length (al_used al)"
  shows "fold mark_used xs (marked X al) = marked (X \<union> set xs) al"
  using assms
proof (induction xs arbitrary: X)
  case (Cons x xs)
  then have "fold mark_used (x # xs) (marked X al) = fold mark_used xs (marked (insert x X) al)"
    by (simp add: mark_used_marked)
  also have "\<dots> = marked (insert x X \<union> set xs) al"
    using Cons.prems by (intro Cons.IH) auto
  finally show ?case by simp
qed simp

lemma fold_mark_unused:
  assumes "distinct xs" "finite X" "set xs \<subseteq> X" "\<forall>i \<in> set xs. i < length (al_used al) \<and> \<not> al_used al ! i"
  shows "fold mark_unused xs (marked X al) = marked (X - set xs) al"
  using assms
proof (induction xs arbitrary: X)
  case (Cons x xs)
  then have "fold mark_unused (x # xs) (marked X al) = fold mark_unused xs (marked (X - {x}) al)"
    by (simp add: mark_unused_marked)
  also have "\<dots> = marked (X - {x} - set xs) al"
    using Cons.prems by (intro Cons.IH) auto
  finally show ?case by (simp add: Diff_insert2 [symmetric])
qed simp

lemma first_unused_le: "first_unused us \<le> length us"
  by (induction us) auto

lemma first_unused_spec:
  "first_unused us < length us \<Longrightarrow> \<not> us ! first_unused us"
  "i < first_unused us \<Longrightarrow> us ! i"
  by (induction us arbitrary: i) (auto simp: nth_Cons less_Suc_eq_0_disj split: nat.splits if_splits)

subsection \<open>\<open>split_simple\<close> walks the batch in order\<close>

definition simple_end :: "nat \<Rightarrow> nat \<Rightarrow> nat \<Rightarrow> nat" where
  "simple_end n n_ubatch cur = min n (cur + max 1 n_ubatch)"

declare split_simple_loop.simps [simp del]

lemma split_simple_loop_eq:
  assumes "c \<le> cur" "cur < length (al_used al)" "idxs = [c..<cur]" "cur - c < max 1 n_ubatch"
  shows "split_simple_loop n_ubatch cur idxs (marked {c..<cur} al) =
    ([c..<simple_end (length (al_used al)) n_ubatch c],
     marked {c..<simple_end (length (al_used al)) n_ubatch c} al)"
  using assms
proof (induction "length (al_used al) - cur" arbitrary: cur idxs)
  case (Suc k)
  let ?n = "length (al_used al)"
  have ins: "insert cur {c..<cur} = {c..<Suc cur}"
    using Suc.prems(1) by auto
  have mark: "mark_used cur (marked {c..<cur} al) = marked {c..<Suc cur} al"
    using Suc.prems by (simp add: mark_used_marked ins)
  have app: "idxs @ [cur] = [c..<Suc cur]"
    using Suc.prems by simp
  consider (full) "Suc cur \<ge> ?n" | (stop) "Suc cur < ?n" "length (idxs @ [cur]) \<ge> n_ubatch"
    | (go) "Suc cur < ?n" "length (idxs @ [cur]) < n_ubatch" by linarith
  then show ?case
  proof cases
    case full
    then have "simple_end ?n n_ubatch c = Suc cur"
      using Suc.prems by (auto simp: simple_end_def min_def max_def split: if_splits)
    with full show ?thesis
      by (subst split_simple_loop.simps) (simp only: Let_def app mark marked_fields length_used_with if_True)
  next
    case stop
    then have "simple_end ?n n_ubatch c = Suc cur"
      using Suc.prems by (auto simp: simple_end_def min_def max_def split: if_splits)
    moreover have "\<not> Suc cur \<ge> ?n" "length [c..<Suc cur] \<ge> n_ubatch"
      using stop app by auto
    ultimately show ?thesis
      by (subst split_simple_loop.simps)
        (simp only: Let_def app mark marked_fields length_used_with if_True if_False)
  next
    case go
    have "\<not> Suc cur \<ge> ?n" "\<not> length [c..<Suc cur] \<ge> n_ubatch"
      using go app by auto
    then have "split_simple_loop n_ubatch cur idxs (marked {c..<cur} al) =
        split_simple_loop n_ubatch (Suc cur) [c..<Suc cur] (marked {c..<Suc cur} al)"
      by (subst split_simple_loop.simps)
        (simp only: Let_def app mark marked_fields length_used_with if_True if_False)
    also have "\<dots> = ([c..<simple_end ?n n_ubatch c], marked {c..<simple_end ?n n_ubatch c} al)"
      using Suc go app by (intro Suc.hyps(1)) (auto simp: max_def split: if_splits)
    finally show ?thesis .
  qed
qed simp

lemma split_simple_idxs_eq:
  "split_simple_idxs n_ubatch al =
    (let n = length (al_used al); c = first_unused (al_used al); e = simple_end n n_ubatch c in
     if c \<ge> n then None else Some ([c..<e], marked {c..<e} al))"
proof -
  let ?c = "first_unused (al_used al)"
  have "split_simple_loop n_ubatch ?c [] al =
      ([?c..<simple_end (length (al_used al)) n_ubatch ?c],
       marked {?c..<simple_end (length (al_used al)) n_ubatch ?c} al)" if "?c < length (al_used al)"
    using split_simple_loop_eq [of ?c ?c al "[]" n_ubatch] that by simp
  then show ?thesis
    by (auto simp: split_simple_idxs_def Let_def)
qed


subsection \<open>Draining a batch\<close>

text \<open>
  What the splits rely on and keep: the bookkeeping of \<open>used\<close> and \<open>n_used\<close> agrees, every token has
  a sequence set, \<open>seq_set_map\<close> lists the tokens of each set in order, and the used tokens of a
  set come before its unused ones.
\<close>

definition al_tokens :: "batch_allocr \<Rightarrow> nat" where
  "al_tokens al = bt_n_tokens (al_batch al)"

definition unused :: "batch_allocr \<Rightarrow> nat set" where
  "unused al = {i. i < al_tokens al \<and> \<not> al_used al ! i}"

definition al_ok :: "batch_allocr \<Rightarrow> bool" where
  "al_ok al \<longleftrightarrow> length (al_used al) = al_tokens al \<and>
     al_n_used al + card (unused al) = al_tokens al \<and>
     length (al_seq_set al) = al_tokens al \<and>
     (\<forall>i < al_tokens al. al_seq_set al ! i \<noteq> {}) \<and>
     (\<forall>S. al_seq_set_map al S = filter (\<lambda>i. al_seq_set al ! i = S) [0..<al_tokens al]) \<and>
     (\<forall>j < al_tokens al. \<forall>i < j. al_seq_set al ! i = al_seq_set al ! j \<longrightarrow> al_used al ! j \<longrightarrow> al_used al ! i)"

text \<open>The indices a split chose: new, distinct, and a multiple of the number of sequences.\<close>

definition split_choice :: "batch_allocr \<Rightarrow> nat list \<Rightarrow> nat \<Rightarrow> bool" where
  "split_choice al idxs n_seqs \<longleftrightarrow> distinct idxs \<and> set idxs \<subseteq> unused al \<and> idxs \<noteq> [] \<and>
     n_seqs > 0 \<and> length idxs mod n_seqs = 0"

definition splits_into :: "batch_allocr \<Rightarrow> nat list \<Rightarrow> llama_ubatch \<Rightarrow> bool" where
  "splits_into al idxs ub \<longleftrightarrow>
     ub_n_tokens ub = length idxs \<and>
     ub_token ub = map_option (gather idxs) (bt_token (al_batch al)) \<and>
     ub_pos ub = gather_pos al idxs \<and>
     ub_n_seq_id ub = gather idxs (the (bt_n_seq_id (al_batch al))) \<and>
     ub_seq_id ub = map (tok_seqs (al_batch al)) idxs \<and>
     ub_seq_id_unq ub = filter (\<lambda>s. \<exists>i \<in> set idxs. s \<in> set (tok_seqs (al_batch al) i)) (map int [0..<al_n_seq_max al]) \<and>
     ub_output ub = gather idxs (the (bt_logits (al_batch al)))"

definition output_ids :: "batch_allocr \<Rightarrow> nat list \<Rightarrow> nat list" where
  "output_ids al idxs = filter (\<lambda>i. the (bt_logits (al_batch al)) ! i) idxs"

lemma finite_unused [simp]: "finite (unused al)"
  by (simp add: unused_def)

lemma al_tokens_simps [simp]:
  "al_tokens (marked X al) = al_tokens al" "al_tokens (al\<lparr>al_out_ids := o_ids\<rparr>) = al_tokens al"
  by (simp_all add: al_tokens_def)

lemma unused_simps [simp]:
  "unused (al\<lparr>al_out_ids := o_ids\<rparr>) = unused al"
  by (simp add: unused_def)

lemma unused_marked:
  assumes "length (al_used al) = al_tokens al"
  shows "unused (marked X al) = unused al - X"
  using assms by (auto simp: unused_def)

lemma al_ok_out_ids [simp]: "al_ok (al\<lparr>al_out_ids := o_ids\<rparr>) = al_ok al"
  by (simp add: al_ok_def)

text \<open>Marking new tokens keeps all but the order of the used tokens of a set.\<close>

lemma al_ok_marked:
  assumes "al_ok al" "X \<subseteq> unused al"
    and "\<And>i j. \<lbrakk>i < j; j \<in> X; i \<in> unused al; al_seq_set al ! i = al_seq_set al ! j\<rbrakk> \<Longrightarrow> i \<in> X"
  shows "al_ok (marked X al)"
proof -
  have len: "length (al_used al) = al_tokens al" using assms(1) by (simp add: al_ok_def)
  have "card (unused al - X) + card X = card (unused al)"
    using assms(2) by (metis card_Diff_subset card_mono finite_subset finite_unused le_add_diff_inverse2)
  moreover have "al_n_used al + card (unused al) = al_tokens al" using assms(1) by (simp add: al_ok_def)
  ultimately have "al_n_used al + card X + card (unused al - X) = al_tokens al" by simp
  moreover have "used_with X (al_used al) ! i"
    if "j < al_tokens al" "i < j" "al_seq_set al ! i = al_seq_set al ! j" "used_with X (al_used al) ! j" for i j
  proof (cases "al_used al ! i")
    case False
    then have "j \<in> X" using that assms(1) len by (auto simp: al_ok_def)
    then show ?thesis using assms(3) [of i j] that False len by (auto simp: unused_def)
  qed (use that len in simp)
  ultimately show ?thesis
    using assms(1) by (simp add: al_ok_def unused_marked)
qed

lemma gather_pos_simps [simp]:
  "gather_pos (al\<lparr>al_out_ids := o_ids\<rparr>) = gather_pos al" "gather_pos (marked X al) = gather_pos al"
  by (simp_all add: gather_pos_def fun_eq_iff Let_def cong: if_cong)

lemma unq_steps: "fst (fold (unq_step S) ns st) = fst st @ filter (\<lambda>s. s \<in> S) (map int ns)"
  by (induction ns arbitrary: st) (auto simp: unq_step_def split: prod.splits)

lemma ubatch_add_choice:
  assumes "n_seqs > 0" "length idxs mod n_seqs = 0"
  shows "\<exists>ub. ubatch_add idxs n_seqs eq al =
      Some (ub, al\<lparr>al_out_ids := al_out_ids al @ output_ids al idxs\<rparr>) \<and>
    splits_into al idxs ub \<and> ub_n_seqs ub = n_seqs \<and> ub_b_equal_seqs ub = eq \<and>
    ub_n_seq_tokens ub = length idxs div n_seqs"
  using assms unq_steps [of "set (concat (map (tok_seqs (al_batch al)) idxs))" "[0..<al_n_seq_max al]"
      "([], replicate (nat LLAMA_MAX_SEQ) (-1))"]
  by (auto simp: ubatch_add_def splits_into_def output_ids_def assrt_def Let_def split: prod.splits intro!: filter_cong)

text \<open>
  The loop of every memory module that cuts a batch up: split until an empty ubatch comes back.
\<close>

partial_function (option) split_all :: "(batch_allocr \<Rightarrow> (llama_ubatch \<times> batch_allocr) option) \<Rightarrow>
    batch_allocr \<Rightarrow> llama_ubatch list \<Rightarrow> (llama_ubatch list \<times> batch_allocr) option" where
  "split_all split al ubs = do {
     (ub, al) \<leftarrow> split al;
     if ub_n_tokens ub = 0 then Some (ubs, al) else split_all split al (ubs @ [ub]) }"

text \<open>The contract of a split.\<close>

locale splitter =
  fixes split :: "batch_allocr \<Rightarrow> (llama_ubatch \<times> batch_allocr) option"
    and ok :: "batch_allocr \<Rightarrow> bool"
  assumes ok_al_ok: "ok al \<Longrightarrow> al_ok al"
    and ok_out_ids: "ok (al\<lparr>al_out_ids := o_ids\<rparr>) = ok al"
    and split_done: "\<lbrakk>ok al; unused al = {}\<rbrakk> \<Longrightarrow> split al = Some (ubatch_none, al)"
    and split_some: "\<lbrakk>ok al; unused al \<noteq> {}\<rbrakk> \<Longrightarrow>
      \<exists>idxs n_seqs eq. split_choice al idxs n_seqs \<and> ok (marked (set idxs) al) \<and>
        split al = ubatch_add idxs n_seqs eq (marked (set idxs) al)"
begin

text \<open>
  Draining terminates, every unused token ends up in exactly one ubatch, and \<open>out_ids\<close> lists the
  output tokens in the order in which the ubatches hold them.
\<close>

lemma split_all_total:
  assumes "ok al"
  shows "\<exists>idxss ubs' al'. split_all split al ubs = Some (ubs @ ubs', al') \<and>
    list_all2 (splits_into al) idxss ubs' \<and>
    distinct (concat idxss) \<and> set (concat idxss) = unused al \<and> [] \<notin> set idxss \<and>
    unused al' = {} \<and> al_n_used al' = al_tokens al \<and> al_batch al' = al_batch al \<and>
    al_out_ids al' = al_out_ids al @ output_ids al (concat idxss)"
  using assms
proof (induction "card (unused al)" arbitrary: al ubs rule: less_induct)
  case less
  note okal = ok_al_ok [OF less.prems]
  have len: "length (al_used al) = al_tokens al"
    and cnt: "al_n_used al + card (unused al) = al_tokens al" using okal by (simp_all add: al_ok_def)
  show ?case
  proof (cases "unused al = {}")
    case True
    then have "split_all split al ubs = Some (ubs @ [], al)"
      by (subst split_all.simps) (simp add: split_done [OF less.prems] ubatch_none_def)
    with True cnt show ?thesis
      by (intro exI [of _ "[]"] exI [of _ al]) (simp add: output_ids_def)
  next
    case False
    from split_some [OF less.prems this] obtain idxs n_seqs eq
      where ch: "split_choice al idxs n_seqs" and ok': "ok (marked (set idxs) al)"
        and sp: "split al = ubatch_add idxs n_seqs eq (marked (set idxs) al)" by blast
    let ?m = "marked (set idxs) al"
    let ?al1 = "?m\<lparr>al_out_ids := al_out_ids al @ output_ids al idxs\<rparr>"
    obtain ub where ub: "split al = Some (ub, ?al1)" "splits_into al idxs ub"
      using ubatch_add_choice [of n_seqs idxs eq ?m] ch sp
      by (auto simp: split_choice_def splits_into_def output_ids_def)
    have un: "unused ?al1 = unused al - set idxs" by (simp add: unused_marked [OF len])
    have sub: "set idxs \<subseteq> unused al" "idxs \<noteq> []" using ch by (auto simp: split_choice_def)
    have "unused al - set idxs \<subset> unused al" using sub by (cases idxs) auto
    then have "card (unused ?al1) < card (unused al)" using psubset_card_mono [OF finite_unused] by (simp only: un)
    moreover have "ok ?al1" using ok' by (simp add: ok_out_ids)
    ultimately obtain idxss ubs' al'
      where IH: "split_all split ?al1 (ubs @ [ub]) = Some ((ubs @ [ub]) @ ubs', al')"
        "list_all2 (splits_into ?al1) idxss ubs'" "distinct (concat idxss)"
        "set (concat idxss) = unused ?al1" "[] \<notin> set idxss" "unused al' = {}"
        "al_n_used al' = al_tokens ?al1" "al_batch al' = al_batch ?al1"
        "al_out_ids al' = al_out_ids ?al1 @ output_ids ?al1 (concat idxss)"
      using less.hyps by meson
    have same: "splits_into ?al1 = splits_into al" "output_ids ?al1 = output_ids al"
      by (simp_all add: splits_into_def output_ids_def fun_eq_iff)
    have "split_all split al ubs = Some (ubs @ (ub # ubs'), al')"
      using ub sub IH(1) by (subst split_all.simps) (simp add: splits_into_def)
    moreover have "list_all2 (splits_into al) (idxs # idxss) (ub # ubs')"
      using IH(2) ub(2) by (simp add: same)
    moreover have "distinct (concat (idxs # idxss))" "set (concat (idxs # idxss)) = unused al"
      using IH(3,4) ch sub by (auto simp: unused_marked [OF len] split_choice_def)
    ultimately show ?thesis
      using IH(5-9) sub(2)
      by (intro exI [of _ "idxs # idxss"] exI [of _ "ub # ubs'"] exI [of _ al'])
        (simp add: same output_ids_def)
  qed
qed

end


subsection \<open>\<open>split_simple\<close> as a splitter\<close>

lemma first_unused_unused:
  assumes "al_ok al"
  shows "first_unused (al_used al) \<ge> length (al_used al) \<longleftrightarrow> unused al = {}"
    and "unused al \<noteq> {} \<Longrightarrow> first_unused (al_used al) \<in> unused al"
    and "i \<in> unused al \<Longrightarrow> first_unused (al_used al) \<le> i"
proof -
  have len: "length (al_used al) = al_tokens al" using assms by (simp add: al_ok_def)
  show le: "first_unused (al_used al) \<le> i" if "i \<in> unused al" for i
    using first_unused_spec(2) [of i "al_used al"] that by (force simp: unused_def not_le [symmetric])
  have mem: "first_unused (al_used al) \<in> unused al" if "first_unused (al_used al) < length (al_used al)"
    using first_unused_spec(1) [OF that] that by (simp add: unused_def len)
  show "first_unused (al_used al) \<ge> length (al_used al) \<longleftrightarrow> unused al = {}"
    using mem le len by (fastforce simp: unused_def)
  then show "unused al \<noteq> {} \<Longrightarrow> first_unused (al_used al) \<in> unused al"
    using mem by (meson not_le)
qed

text \<open>\<open>split_simple\<close> is used on its own: what it has used is a prefix of the batch.\<close>

definition simple_ok :: "batch_allocr \<Rightarrow> bool" where
  "simple_ok al \<longleftrightarrow> al_ok al \<and> (\<exists>k \<le> al_tokens al. unused al = {k..<al_tokens al})"

lemma simple_choice:
  fixes n_ubatch :: nat
  assumes "simple_ok al" "unused al \<noteq> {}"
  defines "c \<equiv> first_unused (al_used al)"
  defines "e \<equiv> simple_end (al_tokens al) n_ubatch c"
  shows "split_choice al [c..<e] (length [c..<e])" "simple_ok (marked (set [c..<e]) al)"
    "unused al = {c..<al_tokens al}" "split_simple_idxs n_ubatch al = Some ([c..<e], marked {c..<e} al)"
proof -
  have ok: "al_ok al" using assms(1) by (simp add: simple_ok_def)
  then have len: "length (al_used al) = al_tokens al" by (simp add: al_ok_def)
  have c: "c \<in> unused al" unfolding c_def using first_unused_unused(2) [OF ok] assms(2) .
  then show un: "unused al = {c..<al_tokens al}"
    using assms(1) first_unused_unused(3) [OF ok, of "LEAST i. i \<in> unused al"] first_unused_unused(3) [OF ok]
    by (auto simp: simple_ok_def c_def [symmetric] Ball_def)
  then have lt: "c < al_tokens al" using c by auto
  then have e: "c < e" "e \<le> al_tokens al" by (auto simp: e_def simple_end_def)
  then show "split_choice al [c..<e] (length [c..<e])" by (auto simp: split_choice_def un)
  have "al_ok (marked (set [c..<e]) al)"
    using e by (intro al_ok_marked [OF ok]) (auto simp: un)
  moreover have "unused (marked (set [c..<e]) al) = {e..<al_tokens al}"
    using e by (auto simp: unused_marked [OF len] un)
  ultimately show "simple_ok (marked (set [c..<e]) al)"
    using e by (auto simp: simple_ok_def)
  show "split_simple_idxs n_ubatch al = Some ([c..<e], marked {c..<e} al)"
    using lt by (simp add: split_simple_idxs_eq Let_def c_def [symmetric] len e_def)
qed

interpretation simple: splitter "split_simple n_ubatch" simple_ok for n_ubatch
proof
  fix al
  assume ok: "simple_ok al"
  then show "al_ok al" by (simp add: simple_ok_def)
  show "split_simple n_ubatch al = Some (ubatch_none, al)" if "unused al = {}"
    using first_unused_unused(1) [OF \<open>al_ok al\<close>] that
    by (simp add: split_simple_def split_simple_idxs_def Let_def)
  show "\<exists>idxs n_seqs eq. split_choice al idxs n_seqs \<and> simple_ok (marked (set idxs) al) \<and>
      split_simple n_ubatch al = ubatch_add idxs n_seqs eq (marked (set idxs) al)" if "unused al \<noteq> {}"
    using simple_choice(1,2,4) [OF ok that, of n_ubatch] unfolding split_simple_def by fastforce
next
  show "simple_ok (al\<lparr>al_out_ids := o_ids\<rparr>) = simple_ok al" for al o_ids
    by (simp add: simple_ok_def)
qed

text \<open>Draining with \<open>split_simple\<close> cuts what is left of the batch into consecutive blocks.\<close>

lemma simple_drain:
  assumes "simple_ok al" "unused al = {k..<al_tokens al}" "k \<le> al_tokens al"
  shows "\<exists>idxss ubs' al'. split_all (split_simple n_ubatch) al ubs = Some (ubs @ ubs', al') \<and>
    list_all2 (splits_into al) idxss ubs' \<and> concat idxss = [k..<al_tokens al] \<and>
    (\<forall>idxs \<in> set idxss. idxs \<noteq> [] \<and> length idxs \<le> max 1 n_ubatch) \<and>
    al_n_used al' = al_tokens al \<and> al_out_ids al' = al_out_ids al @ output_ids al [k..<al_tokens al]"
  using assms
proof (induction "al_tokens al - k" arbitrary: al ubs k rule: less_induct)
  case less
  have ok: "al_ok al" using less.prems(1) by (simp add: simple_ok_def)
  then have len: "length (al_used al) = al_tokens al" by (simp add: al_ok_def)
  show ?case
  proof (cases "k = al_tokens al")
    case True
    then have "unused al = {}" using less.prems(2) by simp
    then have "split_all (split_simple n_ubatch) al ubs = Some (ubs @ [], al)"
      by (subst split_all.simps) (simp add: simple.split_done [OF less.prems(1)] ubatch_none_def)
    moreover have "al_n_used al = al_tokens al"
      using ok \<open>unused al = {}\<close> by (simp add: al_ok_def)
    ultimately show ?thesis
      using True by (intro exI [of _ "[]"] exI [of _ al]) (simp add: output_ids_def)
  next
    case False
    then have ne: "unused al \<noteq> {}" "k < al_tokens al" using less.prems(2,3) by auto
    define e where "e = simple_end (al_tokens al) n_ubatch k"
    have k: "first_unused (al_used al) = k"
      using simple_choice(3) [OF less.prems(1) ne(1)] less.prems(2) ne(2)
      by (metis atLeastLessThan_inj(1) first_unused_unused(2) [OF ok ne(1)] atLeastLessThan_iff order.strict_trans1)
    note ch = simple_choice(1,2,4) [OF less.prems(1) ne(1), of n_ubatch, unfolded k, folded e_def]
    let ?m = "marked {k..<e} al" and ?idxs = "[k..<e]"
    let ?al1 = "?m\<lparr>al_out_ids := al_out_ids al @ output_ids al ?idxs\<rparr>"
    have e: "k < e" "e \<le> al_tokens al" "length ?idxs \<le> max 1 n_ubatch"
      using ne(2) by (auto simp: e_def simple_end_def)
    have "split_simple n_ubatch al = ubatch_add ?idxs (length ?idxs) False ?m"
      using ch(3) by (simp add: split_simple_def)
    then obtain ub where ub: "split_simple n_ubatch al = Some (ub, ?al1)" "splits_into al ?idxs ub"
      using ubatch_add_choice [of "length ?idxs" ?idxs False ?m] e(1)
      by (auto simp: splits_into_def output_ids_def)
    have un: "unused ?al1 = {e..<al_tokens ?al1}"
      using e by (auto simp: unused_marked [OF len] less.prems(2))
    have ok1: "simple_ok ?al1" using ch(2) by (simp add: simple.ok_out_ids)
    have tok: "al_tokens ?al1 = al_tokens al" by simp
    have "al_tokens ?al1 - e < al_tokens al - k" "e \<le> al_tokens ?al1" using e ne(2) by simp_all
    from less.hyps [OF this(1) ok1 un this(2), of "ubs @ [ub]", unfolded tok] obtain idxss ubs' al'
      where IH: "split_all (split_simple n_ubatch) ?al1 (ubs @ [ub]) = Some ((ubs @ [ub]) @ ubs', al')"
        "list_all2 (splits_into ?al1) idxss ubs'" "concat idxss = [e..<al_tokens al]"
        "\<forall>idxs \<in> set idxss. idxs \<noteq> [] \<and> length idxs \<le> max 1 n_ubatch"
        "al_n_used al' = al_tokens al" "al_out_ids al' = al_out_ids ?al1 @ output_ids ?al1 [e..<al_tokens al]"
      by blast
    have same: "splits_into ?al1 = splits_into al" "output_ids ?al1 = output_ids al"
      by (simp_all add: splits_into_def output_ids_def fun_eq_iff)
    have upt: "?idxs @ [e..<al_tokens al] = [k..<al_tokens al]"
      using e upt_add_eq_append [of k e "al_tokens al - e"] by simp
    have "split_all (split_simple n_ubatch) al ubs = Some (ubs @ (ub # ubs'), al')"
      using ub e(1) IH(1) by (subst split_all.simps) (simp add: splits_into_def)
    moreover have "list_all2 (splits_into al) (?idxs # idxss) (ub # ubs')"
      using IH(2) ub(2) by (simp add: same)
    moreover have "al_out_ids al' = al_out_ids al @ output_ids al [k..<al_tokens al]"
      unfolding IH(6) same upt [symmetric] by (simp add: output_ids_def)
    ultimately show ?thesis
      using IH(3-5) e upt
      by (intro exI [of _ "?idxs # idxss"] exI [of _ "ub # ubs'"] exI [of _ al']) auto
  qed
qed

subsection \<open>\<open>split_seq\<close> as a splitter\<close>

lemma next_subset_spec:
  assumes "cur \<le> al_tokens al"
  shows "next_subset al S cur \<le> al_tokens al"
    and "next_subset al S cur < al_tokens al \<Longrightarrow>
      next_subset al S cur \<in> unused al \<and> al_seq_set al ! next_subset al S cur \<subseteq> S"
    and "\<lbrakk>cur \<le> i; i < next_subset al S cur; i \<in> unused al\<rbrakk> \<Longrightarrow> \<not> al_seq_set al ! i \<subseteq> S"
  using assms
proof (atomize (full), induction al S cur rule: next_subset.induct)
  case (1 al S cur)
  let ?go = "cur < al_tokens al \<and> (al_used al ! cur \<or> S \<inter> al_seq_set al ! cur \<noteq> al_seq_set al ! cur)"
  show ?case
  proof (cases ?go)
    case True
    then have step: "next_subset al S cur = next_subset al S (Suc cur)"
      by (subst next_subset.simps) (simp only: al_tokens_def if_True simp_thms)
    have here: "cur \<in> unused al \<Longrightarrow> \<not> al_seq_set al ! cur \<subseteq> S" using True by (auto simp: unused_def)
    show ?thesis
      using "1.IH" [OF True [unfolded al_tokens_def]] True here unfolding step
      by (metis Suc_leI le_neq_implies_less)
  next
    case False
    then have "next_subset al S cur = cur"
      by (subst next_subset.simps) (simp only: al_tokens_def if_False)
    with False "1.prems" show ?thesis by (auto simp: unused_def)
  qed
qed


text \<open>
  The indices \<open>split_seq\<close> takes: in batch order, each sequence set contained in the previous one,
  and none skipped whose set would fit.
\<close>

definition seq_chain :: "batch_allocr \<Rightarrow> nat list \<Rightarrow> bool" where
  "seq_chain al idxs \<longleftrightarrow> sorted_wrt (<) idxs \<and>
     sorted_wrt (\<lambda>i j. al_seq_set al ! j \<subseteq> al_seq_set al ! i) idxs \<and> set idxs \<subseteq> unused al \<and>
     (\<forall>j \<in> set idxs. \<forall>i \<in> unused al. i < j \<and> al_seq_set al ! i \<subseteq> al_seq_set al ! j \<and>
       hd idxs \<le> i \<longrightarrow> i \<in> set idxs)"

lemma seq_chain_snoc:
  assumes ch: "seq_chain al (idxs @ [cur])" and len: "length (al_used al) = al_tokens al"
  defines "al1 \<equiv> marked (set (idxs @ [cur])) al"
  defines "cur' \<equiv> next_subset al1 (al_seq_set al ! cur) (Suc cur)"
  assumes lt: "cur' < al_tokens al"
  shows "seq_chain al (idxs @ [cur] @ [cur'])"
proof -
  have cur: "cur < al_tokens al" using ch by (auto simp: seq_chain_def unused_def)
  have un: "unused al1 = unused al - set (idxs @ [cur])" by (simp add: al1_def unused_marked [OF len])
  have new: "cur' \<in> unused al1" "al_seq_set al ! cur' \<subseteq> al_seq_set al ! cur" "Suc cur \<le> cur'"
    using next_subset_spec(2) [of "Suc cur" al1 "al_seq_set al ! cur"] cur lt next_subset_ge
    by (auto simp: cur'_def al1_def)
  have skipped: "\<not> al_seq_set al ! i \<subseteq> al_seq_set al ! cur" if "Suc cur \<le> i" "i < cur'" "i \<in> unused al1" for i
    using next_subset_spec(3) [of "Suc cur" al1 i "al_seq_set al ! cur"] cur that by (simp add: cur'_def al1_def)
  have before: "i < cur'" if "i \<in> set (idxs @ [cur])" for i
    using ch new(3) that by (fastforce simp: seq_chain_def sorted_wrt_append)
  have "i \<in> set (idxs @ [cur])"
    if i: "i \<in> unused al" "i < cur'" "al_seq_set al ! i \<subseteq> al_seq_set al ! cur'" "hd (idxs @ [cur]) \<le> i" for i
  proof (rule ccontr)
    assume no: "i \<notin> set (idxs @ [cur])"
    then have "i \<in> unused al1" using i(1) by (simp add: un)
    then have "\<not> Suc cur \<le> i" using skipped [of i] i new(2) by blast
    then have "i < cur" using no by (cases "i = cur") auto
    then show False using ch i new(2) no by (fastforce simp: seq_chain_def)
  qed
  then have closed: "\<forall>i \<in> unused al. i < cur' \<and> al_seq_set al ! i \<subseteq> al_seq_set al ! cur' \<and>
      hd (idxs @ [cur]) \<le> i \<longrightarrow> i \<in> set (idxs @ [cur])" by blast
  have sub: "al_seq_set al ! cur' \<subseteq> al_seq_set al ! i" if "i \<in> set (idxs @ [cur])" for i
    using ch new(2) that by (fastforce simp: seq_chain_def sorted_wrt_append)
  have hd: "hd ((idxs @ [cur]) @ [cur']) = hd (idxs @ [cur])" by (cases idxs) simp_all
  have "seq_chain al ((idxs @ [cur]) @ [cur'])"
    unfolding seq_chain_def hd
    using ch before sub closed new(1) unfolding seq_chain_def un
    by (simp only: sorted_wrt_append set_append) auto
  then show ?thesis by simp
qed

declare split_seq_loop.simps [simp del]

lemma split_seq_loop_eq:
  assumes "seq_chain al (idxs @ [cur])" "length (al_used al) = al_tokens al"
  shows "\<exists>idxs'. split_seq_loop n_ubatch (al_seq_set al ! cur) cur idxs (marked (set idxs) al) =
      (idxs @ cur # idxs', marked (set (idxs @ cur # idxs')) al) \<and> seq_chain al (idxs @ cur # idxs') \<and>
      (idxs' \<noteq> [] \<longrightarrow> length (idxs @ cur # idxs') \<le> n_ubatch)"
  using assms(1)
proof (induction "al_tokens al - cur" arbitrary: cur idxs rule: less_induct)
  case less
  let ?al1 = "marked (set (idxs @ [cur])) al"
  let ?S = "al_seq_set al ! cur"
  let ?next = "next_subset ?al1 ?S (Suc cur)"
  have cur: "cur \<in> unused al" "cur \<notin> set idxs"
    using less.prems by (auto simp: seq_chain_def sorted_wrt_append)
  then have mark: "mark_used cur (marked (set idxs) al) = ?al1"
    using assms(2) by (simp add: mark_used_marked unused_def)
  consider (full) "length (idxs @ [cur]) \<ge> n_ubatch"
    | (none) "length (idxs @ [cur]) < n_ubatch" "?next \<ge> al_tokens al"
    | (go) "length (idxs @ [cur]) < n_ubatch" "?next < al_tokens al" by linarith
  then show ?case
  proof cases
    case full
    then have "split_seq_loop n_ubatch ?S cur idxs (marked (set idxs) al) = (idxs @ [cur], ?al1)"
      by (subst split_seq_loop.simps) (simp only: Let_def mark if_True)
    then show ?thesis using less.prems by auto
  next
    case none
    then have "split_seq_loop n_ubatch ?S cur idxs (marked (set idxs) al) = (idxs @ [cur], ?al1)"
      by (subst split_seq_loop.simps)
        (simp only: Let_def mark not_le [symmetric] if_False if_True al_tokens_def marked_fields)
    then show ?thesis using less.prems by auto
  next
    case go
    have "split_seq_loop n_ubatch ?S cur idxs (marked (set idxs) al) =
        split_seq_loop n_ubatch (al_seq_set al ! ?next) ?next (idxs @ [cur]) ?al1"
      using go by (subst split_seq_loop.simps)
        (simp only: Let_def mark not_le [symmetric] if_False al_tokens_def marked_fields)
    moreover have chain: "seq_chain al ((idxs @ [cur]) @ [?next])"
      using seq_chain_snoc [OF less.prems assms(2) go(2)] by simp
    moreover have "al_tokens al - ?next < al_tokens al - cur"
      using next_subset_ge [of "Suc cur" ?al1 ?S] go(2) by linarith
    ultimately obtain idxs' where "split_seq_loop n_ubatch ?S cur idxs (marked (set idxs) al) =
        ((idxs @ [cur]) @ ?next # idxs', marked (set ((idxs @ [cur]) @ ?next # idxs')) al)"
      "seq_chain al ((idxs @ [cur]) @ ?next # idxs')"
      "idxs' \<noteq> [] \<longrightarrow> length ((idxs @ [cur]) @ ?next # idxs') \<le> n_ubatch"
      using less.hyps [of ?next "idxs @ [cur]"] by metis
    then show ?thesis using go(1) by (intro exI [of _ "?next # idxs'"]) auto
  qed
qed

lemma split_seq_idxs_eq:
  assumes ok: "al_ok al" and "unused al \<noteq> {}"
  shows "\<exists>idxs. split_seq_idxs n_ubatch al = Some (idxs, marked (set idxs) al) \<and> seq_chain al idxs \<and>
    idxs \<noteq> [] \<and> hd idxs = first_unused (al_used al) \<and> length idxs \<le> max 1 n_ubatch"
proof -
  let ?c = "first_unused (al_used al)"
  have len: "length (al_used al) = al_tokens al" using ok by (simp add: al_ok_def)
  have c: "?c \<in> unused al" "\<not> ?c \<ge> length (al_used al)"
    using first_unused_unused [OF ok] assms(2) by auto
  then have "seq_chain al ([] @ [?c])" by (auto simp: seq_chain_def)
  from split_seq_loop_eq [OF this len, of n_ubatch] obtain idxs' where
    "split_seq_loop n_ubatch (al_seq_set al ! ?c) ?c [] al = (?c # idxs', marked (set (?c # idxs')) al)"
    "seq_chain al (?c # idxs')" "idxs' \<noteq> [] \<longrightarrow> length (?c # idxs') \<le> n_ubatch" by auto
  with c show ?thesis
    by (intro exI [of _ "?c # idxs'"]) (cases "idxs' = []"; simp add: split_seq_idxs_def Let_def)
qed

lemma seq_chain_ok:
  assumes "al_ok al" "seq_chain al idxs" "hd idxs = first_unused (al_used al)"
  shows "al_ok (marked (set idxs) al)"
proof (rule al_ok_marked [OF assms(1)])
  show "set idxs \<subseteq> unused al" using assms(2) by (simp add: seq_chain_def)
  fix i j assume "i < j" "j \<in> set idxs" "i \<in> unused al" "al_seq_set al ! i = al_seq_set al ! j"
  then show "i \<in> set idxs"
    using assms first_unused_unused(3) [OF assms(1), of i] by (simp add: seq_chain_def)
qed

interpretation seq: splitter "split_seq n_ubatch" al_ok for n_ubatch
proof
  fix al
  assume ok: "al_ok al"
  show "split_seq n_ubatch al = Some (ubatch_none, al)" if "unused al = {}"
    using first_unused_unused(1) [OF ok] that by (simp add: split_seq_def split_seq_idxs_def Let_def)
  show "\<exists>idxs n_seqs eq. split_choice al idxs n_seqs \<and> al_ok (marked (set idxs) al) \<and>
      split_seq n_ubatch al = ubatch_add idxs n_seqs eq (marked (set idxs) al)" if ne: "unused al \<noteq> {}"
  proof -
    from split_seq_idxs_eq [OF ok ne, of n_ubatch] obtain idxs where
      idxs: "split_seq_idxs n_ubatch al = Some (idxs, marked (set idxs) al)" "seq_chain al idxs"
        "idxs \<noteq> []" "hd idxs = first_unused (al_used al)" by blast
    then have "split_choice al idxs 1"
      by (auto simp: split_choice_def seq_chain_def intro: strict_sorted_iff [THEN iffD1, THEN conjunct2])
    with idxs seq_chain_ok [OF ok idxs(2,4)] show ?thesis
      unfolding split_seq_def by fastforce
  qed
qed auto


subsection \<open>\<open>split_equal\<close> as a splitter\<close>

text \<open>
  A lane holds the tokens of one sequence set, the used ones first; the chosen ones and the rest are
  its unused tokens in order. Lanes of one split share no tokens.
\<close>

definition lane_rest :: "lane \<Rightarrow> nat list" where
  "lane_rest l = drop (ln_cur l) (ln_all l)"

definition lane_ok :: "batch_allocr \<Rightarrow> lane \<Rightarrow> bool" where
  "lane_ok al l \<longleftrightarrow> length (ln_idxs l) \<le> ln_cur l \<and> ln_cur l \<le> length (ln_all l) \<and>
     drop (ln_cur l - length (ln_idxs l)) (ln_all l) = ln_idxs l @ lane_rest l \<and>
     set (ln_idxs l @ lane_rest l) = set (ln_all l) \<inter> unused al \<and>
     (\<exists>S. ln_all l = filter (\<lambda>i. al_seq_set al ! i = S) [0..<al_tokens al])"

definition lanes_ok :: "batch_allocr \<Rightarrow> lane list \<Rightarrow> bool" where
  "lanes_ok al ls \<longleftrightarrow> (\<forall>l \<in> set ls. lane_ok al l) \<and> distinct (concat (map ln_all ls))"

definition chosen :: "lane list \<Rightarrow> nat list" where
  "chosen ls = concat (map ln_idxs ls)"

lemma lane_remaining_rest: "lane_remaining l = length (lane_rest l)"
  by (simp add: lane_remaining_def lane_rest_def)

lemma lane_ok_sets:
  assumes "lane_ok al l"
  shows "set (ln_idxs l) \<subseteq> set (ln_all l) \<inter> unused al" "set (lane_rest l) \<subseteq> set (ln_all l) \<inter> unused al"
    "sorted_wrt (<) (ln_idxs l @ lane_rest l)"
proof -
  have eq: "set (ln_idxs l @ lane_rest l) = set (ln_all l) \<inter> unused al"
    using assms by (simp add: lane_ok_def)
  then show "set (ln_idxs l) \<subseteq> set (ln_all l) \<inter> unused al" "set (lane_rest l) \<subseteq> set (ln_all l) \<inter> unused al"
    by auto
  obtain S where "ln_all l = filter (\<lambda>i. al_seq_set al ! i = S) [0..<al_tokens al]"
    using assms by (auto simp: lane_ok_def)
  then have "sorted_wrt (<) (ln_all l)" by (simp add: sorted_wrt_filter)
  then have "sorted_wrt (<) (drop (ln_cur l - length (ln_idxs l)) (ln_all l))"
    by (rule sorted_wrt_drop)
  then show "sorted_wrt (<) (ln_idxs l @ lane_rest l)" using assms by (simp add: lane_ok_def)
qed

lemma lane_next_rest: "ln_cur l < length (ln_all l) \<Longrightarrow> lane_rest l = lane_next l # lane_rest (advance_lane l)"
  by (simp add: lane_rest_def lane_next_def advance_lane_def Cons_nth_drop_Suc)

lemma lane_ok_advance:
  assumes ok: "lane_ok al l" and lt: "ln_cur l < length (ln_all l)"
  shows "lane_ok al (advance_lane l)"
proof -
  have "ln_idxs l @ lane_rest l = ln_idxs (advance_lane l) @ lane_rest (advance_lane l)"
    using lane_next_rest [OF lt] by (simp add: advance_lane_def)
  with ok lt show ?thesis
    by (auto simp: lane_ok_def advance_lane_def)
qed

lemma lane_ok_retreat:
  assumes ok: "lane_ok al l" and ne: "ln_idxs l \<noteq> []"
  defines "l' \<equiv> l\<lparr>ln_idxs := butlast (ln_idxs l), ln_cur := ln_cur l - 1\<rparr>"
  shows "lane_ok al l'" "lane_rest l' = last (ln_idxs l) # lane_rest l"
proof -
  let ?k = "length (ln_idxs l)"
  have k: "0 < ?k" "?k \<le> ln_cur l" using ok ne by (auto simp: lane_ok_def)
  have "drop (ln_cur l - 1) (ln_all l) = drop (?k - 1) (drop (ln_cur l - ?k) (ln_all l))"
  proof -
    have "?k - 1 + (ln_cur l - ?k) = ln_cur l - 1" using k by linarith
    then show ?thesis by (simp only: drop_drop)
  qed
  also have "\<dots> = drop (?k - 1) (ln_idxs l @ lane_rest l)" using ok by (simp add: lane_ok_def)
  also have "\<dots> = last (ln_idxs l) # lane_rest l"
    using ne by (cases "ln_idxs l" rule: rev_cases) auto
  finally show rest: "lane_rest l' = last (ln_idxs l) # lane_rest l" by (simp add: lane_rest_def l'_def)
  have "ln_idxs l @ lane_rest l = ln_idxs l' @ lane_rest l'"
    using ne rest by (simp only: rest) (simp add: l'_def)
  moreover have "ln_cur l' - length (ln_idxs l') = ln_cur l - ?k"
    using k by (simp add: l'_def)
  ultimately show "lane_ok al l'"
    using ok k by (auto simp: lane_ok_def l'_def)
qed

text \<open>Lanes with the same tokens, chosen differently.\<close>

lemma lanes_okI:
  assumes "lanes_ok al ls" "map ln_all ls' = map ln_all ls" "\<forall>l \<in> set ls'. lane_ok al l"
  shows "lanes_ok al ls'"
  using assms by (simp add: lanes_ok_def)

lemma distinct_concat_mono:
  assumes "distinct (concat (map f ls))" "\<forall>l \<in> set ls. distinct (g l) \<and> set (g l) \<subseteq> set (f l)"
  shows "distinct (concat (map g ls))"
  using assms by (induction ls) (auto, blast)

lemma chosen_distinct:
  assumes "lanes_ok al ls"
  shows "distinct (chosen ls)" "set (chosen ls) \<subseteq> unused al"
proof -
  have "distinct (ln_idxs l)" if "lane_ok al l" for l
    using lane_ok_sets(3) [OF that] by (simp add: sorted_wrt_append strict_sorted_iff)
  then have sub: "\<forall>l \<in> set ls. distinct (ln_idxs l) \<and> set (ln_idxs l) \<subseteq> set (ln_all l) \<inter> unused al"
    using assms lane_ok_sets(1) unfolding lanes_ok_def by meson
  have "distinct (concat (map ln_all ls))" using assms by (simp only: lanes_ok_def)
  then show "distinct (chosen ls)"
    unfolding chosen_def by (rule distinct_concat_mono) (use sub in blast)
  show "set (chosen ls) \<subseteq> unused al"
    unfolding chosen_def set_concat set_map using sub by blast
qed

lemma lanes_ok_marked:
  assumes "al_ok al" "lanes_ok al ls"
  shows "al_ok (marked (set (chosen ls)) al)"
proof (rule al_ok_marked [OF assms(1) chosen_distinct(2) [OF assms(2)]])
  fix i j
  assume ij: "i < j" "j \<in> set (chosen ls)" "i \<in> unused al" "al_seq_set al ! i = al_seq_set al ! j"
  then obtain l where l: "l \<in> set ls" "j \<in> set (ln_idxs l)" by (auto simp: chosen_def)
  then have ok: "lane_ok al l" using assms(2) by (simp add: lanes_ok_def)
  then have "j \<in> set (ln_all l)" using lane_ok_sets(1) l(2) by blast
  with ij ok have "i \<in> set (ln_all l) \<inter> unused al" by (auto simp: lane_ok_def unused_def)
  then have "i \<in> set (ln_idxs l) \<or> i \<in> set (lane_rest l)" using ok by (auto simp: lane_ok_def)
  then have "i \<in> set (ln_idxs l)"
    using lane_ok_sets(3) [OF ok] l(2) ij(1) by (fastforce simp: sorted_wrt_append)
  with l show "i \<in> set (chosen ls)" by (auto simp: chosen_def)
qed


text \<open>Choosing the sequence sets.\<close>

definition sets_ok :: "batch_allocr \<Rightarrow> llama_seq_id set list \<Rightarrow> bool" where
  "sets_ok al sets \<longleftrightarrow> (\<forall>S \<in> set sets. \<exists>i \<in> unused al. al_seq_set al ! i = S) \<and> distinct sets \<and>
     (\<forall>S \<in> set sets. \<forall>T \<in> set sets. S \<noteq> T \<longrightarrow> S \<inter> T = {})"

lemma sets_ok_snoc:
  assumes "sets_ok al sets" "i \<in> unused al" "al_seq_set al ! i \<noteq> {}"
    and "\<forall>S \<in> set sets. S \<inter> al_seq_set al ! i = {}"
  shows "sets_ok al (sets @ [al_seq_set al ! i])"
  using assms by (auto simp: sets_ok_def)

lemma choose_sets_spec:
  assumes "set is \<subseteq> {..<al_tokens al}" "\<forall>i < al_tokens al. al_seq_set al ! i \<noteq> {}"
    and "sets_ok al sets" "length sets \<le> n_ubatch"
  shows "sets_ok al (choose_sets al n_ubatch sequential is sets last_id) \<and>
    length (choose_sets al n_ubatch sequential is sets last_id) \<le> Suc n_ubatch \<and>
    (sets \<noteq> [] \<or> set is \<inter> unused al \<noteq> {} \<longrightarrow> choose_sets al n_ubatch sequential is sets last_id \<noteq> [])"
  using assms
proof (induction al n_ubatch sequential "is" sets last_id rule: choose_sets.induct)
  case (2 al n_ubatch sequential i "is" sets last_id)
  let ?T = "al_seq_set al ! i"
  let ?fit = "\<forall>S \<in> set sets. S \<inter> ?T = {}"
  let ?add = "if sequential then ?fit \<and> (sets = [] \<or> tok_seq (al_batch al) i 0 = last_id + 1) else ?fit"
  let ?r = "choose_sets al n_ubatch sequential (i # is) sets last_id"
  have i: "i < al_tokens al" "set is \<subseteq> {..<al_tokens al}" using 2(4) by auto
  consider (used) "al_used al ! i" | (skip) "\<not> al_used al ! i" "\<not> ?add"
    | (full) "\<not> al_used al ! i" ?add "length (sets @ [?T]) > n_ubatch"
    | (add) "\<not> al_used al ! i" ?add "\<not> length (sets @ [?T]) > n_ubatch" by argo
  then show ?case
  proof cases
    case used
    then have "?r = choose_sets al n_ubatch sequential is sets last_id" by simp
    moreover have "i \<notin> unused al" using used by (simp add: unused_def)
    ultimately show ?thesis using "2.IH"(1) [OF used i(2) 2(5-7)] by auto
  next
    case skip
    then have "?r = choose_sets al n_ubatch sequential is sets last_id"
      by (subst choose_sets.simps) (simp only: Let_def if_False)
    moreover have "sets \<noteq> []" using skip(2) by (auto split: if_splits)
    ultimately show ?thesis using "2.IH"(3) [OF skip(1) refl refl skip(2) i(2) 2(5-7)] by auto
  next
    case full
    have "?r = sets @ [?T]"
      by (subst choose_sets.simps) (simp only: Let_def full(1) eqTrueI [OF full(2)] eqTrueI [OF full(3)] if_False if_True)
    moreover have "sets_ok al (sets @ [?T])"
      using full i 2(5,6) by (intro sets_ok_snoc) (auto simp: unused_def split: if_splits)
    ultimately show ?thesis using 2(7) by simp
  next
    case add
    have "?r = choose_sets al n_ubatch sequential is (sets @ [?T]) (tok_seq (al_batch al) i 0)"
      by (subst choose_sets.simps) (simp only: Let_def add(1) eqTrueI [OF add(2)] add(3) if_False if_True)
    moreover have "sets_ok al (sets @ [?T])"
      using add i 2(5,6) by (intro sets_ok_snoc) (auto simp: unused_def split: if_splits)
    ultimately show ?thesis
      using "2.IH"(2) [OF add(1) refl refl add(2) refl add(3) i(2) 2(5)] add(3) by auto
  qed
qed auto

lemma start_lane_ok:
  assumes ok: "al_ok al" and "i \<in> unused al"
  defines "l \<equiv> start_lane al (al_seq_set al ! i)"
  shows "lane_ok al l" "ln_cur l < length (ln_all l)" "ln_idxs l = []"
    "ln_all l = filter (\<lambda>j. al_seq_set al ! j = al_seq_set al ! i) [0..<al_tokens al]"
proof -
  define ix where "ix = filter (\<lambda>j. al_seq_set al ! j = al_seq_set al ! i) [0..<al_tokens al]"
  define c where "c = first_unused (map ((!) (al_used al)) ix)"
  have l: "ln_all l = ix" "ln_cur l = c" "ln_idxs l = []"
    using ok by (simp_all add: l_def start_lane_def al_ok_def Let_def ix_def c_def)
  then show "ln_idxs l = []" "ln_all l = filter (\<lambda>j. al_seq_set al ! j = al_seq_set al ! i) [0..<al_tokens al]"
    by (simp_all add: ix_def)
  have "i \<in> set ix" using assms(2) by (simp add: ix_def unused_def)
  then obtain k where k: "k < length ix" "ix ! k = i" by (meson in_set_conv_nth)
  have sorted: "sorted_wrt (<) ix" by (simp add: ix_def sorted_wrt_filter)
  have below: "al_used al ! (ix ! m)" if "m < c" "m < length ix" for m
    using first_unused_spec(2) [of m "map ((!) (al_used al)) ix"] that by (simp add: c_def)
  have lt: "c < length ix"
    using below [of k] k assms(2) by (auto simp: unused_def not_le [symmetric])
  then show "ln_cur l < length (ln_all l)" by (simp add: l)
  have at: "\<not> al_used al ! (ix ! c)"
    using first_unused_spec(1) [of "map ((!) (al_used al)) ix"] lt by (simp add: c_def)
  have same: "j < al_tokens al \<and> al_seq_set al ! j = al_seq_set al ! i" if "j \<in> set ix" for j
    using that by (simp add: ix_def)
  have above: "\<not> al_used al ! (ix ! m)" if "c \<le> m" "m < length ix" for m
  proof (cases "c = m")
    case False
    then have "ix ! c < ix ! m" using sorted_wrt_nth_less [OF sorted] that by simp
    then show ?thesis using at same [OF nth_mem [OF lt]] same [OF nth_mem [OF that(2)]] ok
      unfolding al_ok_def by metis
  qed (use at in simp)
  have "set (drop c ix) = set ix \<inter> unused al"
  proof (intro set_eqI iffI)
    fix j assume "j \<in> set (drop c ix)"
    then obtain m where m: "c \<le> m" "m < length ix" "ix ! m = j" using in_set_drop_iff [of j c ix] by blast
    then show "j \<in> set ix \<inter> unused al" using above [of m] same [of j] by (auto simp: unused_def)
  next
    fix j assume j: "j \<in> set ix \<inter> unused al"
    then obtain m where m: "m < length ix" "ix ! m = j" by (metis IntD1 in_set_conv_nth)
    then have "c \<le> m" using below [of m] j by (auto simp: unused_def not_le [symmetric])
    then show "j \<in> set (drop c ix)" using m in_set_drop_iff [of j c ix] by blast
  qed
  then show "lane_ok al l"
    using lt by (auto simp: lane_ok_def l lane_rest_def ix_def)
qed


lemma start_lanes_ok:
  assumes ok: "al_ok al" and sets: "sets_ok al sets"
  shows "lanes_ok al (map (start_lane al) sets)" "chosen (map (start_lane al) sets) = []"
    "\<forall>l \<in> set (map (start_lane al) sets). ln_idxs l = [] \<and> ln_cur l < length (ln_all l)"
proof -
  have one: "lane_ok al (start_lane al S) \<and> ln_idxs (start_lane al S) = [] \<and>
      ln_cur (start_lane al S) < length (ln_all (start_lane al S)) \<and>
      ln_all (start_lane al S) = filter (\<lambda>j. al_seq_set al ! j = S) [0..<al_tokens al]"
    if "S \<in> set sets" for S
    using start_lane_ok [OF ok] sets that unfolding sets_ok_def by metis
  then show "\<forall>l \<in> set (map (start_lane al) sets). ln_idxs l = [] \<and> ln_cur l < length (ln_all l)"
    unfolding set_map by blast
  from one show "chosen (map (start_lane al) sets) = []" by (simp add: chosen_def)
  have "distinct (concat (map (\<lambda>S. filter (\<lambda>j. al_seq_set al ! j = S) [0..<al_tokens al]) sets))"
    if "distinct sets" for sets
    using that by (induction sets) auto
  then have "distinct (concat (map (\<lambda>S. ln_all (start_lane al S)) sets))"
    using sets one by (simp add: sets_ok_def cong: map_cong)
  then show "lanes_ok al (map (start_lane al) sets)"
    using one by (simp add: lanes_ok_def o_def)
qed

lemma chosen_advance: "set (chosen (map advance_lane ls)) = set (chosen ls) \<union> set (map lane_next ls)"
  by (induction ls) (auto simp: chosen_def advance_lane_def)

lemma advance_marks:
  assumes ok: "lanes_ok al ls" and lt: "\<forall>l \<in> set ls. ln_cur l < length (ln_all l)"
    and len: "length (al_used al) = al_tokens al"
  shows "fold (\<lambda>l. mark_used (lane_next l)) ls (marked (set (chosen ls)) al) =
      marked (set (chosen (map advance_lane ls))) al"
    "lanes_ok al (map advance_lane ls)"
proof -
  have adv: "lane_ok al (advance_lane l)" if "l \<in> set ls" for l
    using ok lt that by (intro lane_ok_advance) (auto simp: lanes_ok_def)
  show ok': "lanes_ok al (map advance_lane ls)"
    using adv by (intro lanes_okI [OF ok]) (auto simp: advance_lane_def)
  have new: "distinct (map lane_next ls)" "set (chosen ls) \<inter> set (map lane_next ls) = {}"
  proof -
    have "mset (chosen (map advance_lane ls)) = mset (chosen ls @ map lane_next ls)" for ls
      by (induction ls) (simp_all add: chosen_def advance_lane_def)
    then have "distinct (chosen ls @ map lane_next ls)"
      using chosen_distinct(1) [OF ok'] by (metis mset_eq_imp_distinct_iff)
    then show "distinct (map lane_next ls)" "set (chosen ls) \<inter> set (map lane_next ls) = {}" by auto
  qed
  have "set (map lane_next ls) \<subseteq> unused al"
    using chosen_distinct(2) [OF ok'] by (simp add: chosen_advance)
  then have "\<forall>i \<in> set (map lane_next ls). i < length (al_used al)" by (auto simp: unused_def len)
  then have "fold mark_used (map lane_next ls) (marked (set (chosen ls)) al) =
      marked (set (chosen ls) \<union> set (map lane_next ls)) al"
    using new by (intro fold_mark_used) auto
  then show "fold (\<lambda>l. mark_used (lane_next l)) ls (marked (set (chosen ls)) al) =
      marked (set (chosen (map advance_lane ls))) al"
    by (simp add: fold_map o_def chosen_advance)
qed

lemma expand_lanes_spec:
  assumes "lanes_ok al ls" "ls \<noteq> []" "length (al_used al) = al_tokens al"
    and "\<forall>l \<in> set ls. length (ln_idxs l) = k" "(k + 1) * length ls \<le> max n_ubatch (length ls)"
  shows "\<exists>ls' k'. expand_lanes n_ubatch ls (marked (set (chosen ls)) al) =
      (ls', marked (set (chosen ls')) al) \<and> lanes_ok al ls' \<and> map ln_all ls' = map ln_all ls \<and>
    (\<forall>l \<in> set ls'. length (ln_idxs l) = k') \<and> k' * length ls \<le> max n_ubatch (length ls) \<and> k \<le> k' \<and>
    ((\<forall>l \<in> set ls. ln_cur l < length (ln_all l)) \<longrightarrow> k < k')"
  using assms(1,2,4,5)
proof (induction "lane_remaining (hd ls)" arbitrary: ls k rule: less_induct)
  case less
  let ?al = "marked (set (chosen ls)) al"
  let ?ls = "map advance_lane ls"
  show ?case
  proof (cases "\<forall>l \<in> set ls. ln_cur l < length (ln_all l)")
    case False
    then have "expand_lanes n_ubatch ls ?al = (ls, ?al)"
      by (subst expand_lanes.simps) (auto simp: not_less)
    then show ?thesis
      using less.prems False by (intro exI [of _ ls] exI [of _ k]) auto
  next
    case True
    note adv = advance_marks [OF less.prems(1) True assms(3)]
    have k: "\<forall>l \<in> set ?ls. length (ln_idxs l) = k + 1" using less.prems(3) by (simp add: advance_lane_def)
    have all: "map ln_all ?ls = map ln_all ls" by (simp add: advance_lane_def)
    have step: "expand_lanes n_ubatch ls ?al =
        (if (k + 1 + 1) * length ls > n_ubatch then (?ls, marked (set (chosen ?ls)) al)
         else expand_lanes n_ubatch ?ls (marked (set (chosen ?ls)) al))"
    proof -
      have "length (ln_idxs (?ls ! 0)) = k + 1" using k less.prems(2) by simp
      moreover have "\<not> (ls = [] \<or> (\<exists>l \<in> set ls. ln_cur l \<ge> length (ln_all l)))"
        using True less.prems(2) by (auto simp: not_le)
      ultimately show ?thesis
        by (subst expand_lanes.simps) (simp only: if_False Let_def adv(1) length_map)
    qed
    show ?thesis
    proof (cases "(k + 1 + 1) * length ls > n_ubatch")
      case stop: True
      with step have "expand_lanes n_ubatch ls ?al = (?ls, marked (set (chosen ?ls)) al)" by simp
      then show ?thesis
        using adv(2) k all less.prems(4) by (intro exI [of _ ?ls] exI [of _ "k + 1"]) simp
    next
      case False
      have lt: "lane_remaining (hd ?ls) < lane_remaining (hd ls)"
        using True less.prems(2) by (cases ls) (auto simp: lane_remaining_def advance_lane_def)
      have le: "(k + 1 + 1) * length ?ls \<le> max n_ubatch (length ?ls)" using False by simp
      have ne: "?ls \<noteq> []" using less.prems(2) by simp
      obtain ls' k' where
        "expand_lanes n_ubatch ?ls (marked (set (chosen ?ls)) al) = (ls', marked (set (chosen ls')) al)"
        "lanes_ok al ls'" "map ln_all ls' = map ln_all ?ls" "\<forall>l \<in> set ls'. length (ln_idxs l) = k'"
        "k' * length ?ls \<le> max n_ubatch (length ?ls)" "k + 1 \<le> k'"
        using less.hyps [OF lt adv(2) ne k le] by blast
      then show ?thesis
        using step False all by (intro exI [of _ ls'] exI [of _ k']) auto
    qed
  qed
qed


lemma extend_lane_spec:
  assumes "lane_ok al l" "finite Y" "Y \<inter> set (ln_all l) = {}" "length (al_used al) = al_tokens al"
  shows "\<exists>l'. extend_lane l (marked (set (ln_idxs l) \<union> Y) al) = (l', marked (set (ln_idxs l') \<union> Y) al) \<and>
    lane_ok al l' \<and> ln_all l' = ln_all l \<and> lane_rest l' = [] \<and> ln_idxs l' = ln_idxs l @ lane_rest l"
  using assms(1,3)
proof (induction "lane_remaining l" arbitrary: l)
  case 0
  then have "extend_lane l (marked (set (ln_idxs l) \<union> Y) al) = (l, marked (set (ln_idxs l) \<union> Y) al)"
    by (subst extend_lane.simps) simp
  then show ?case using 0 by (simp add: lane_remaining_rest)
next
  case (Suc k)
  then have lt: "ln_cur l < length (ln_all l)" by (simp add: lane_remaining_def)
  note rest = lane_next_rest [OF lt]
  have "lane_next l \<in> set (lane_rest l)" by (simp add: rest)
  then have nx: "lane_next l \<in> set (ln_all l)" "lane_next l \<in> unused al" "lane_next l \<notin> set (ln_idxs l)"
    using lane_ok_sets [OF Suc.prems(1)] by (auto simp: sorted_wrt_append)
  then have "mark_used (lane_next l) (marked (set (ln_idxs l) \<union> Y) al) =
      marked (insert (lane_next l) (set (ln_idxs l) \<union> Y)) al"
    using Suc.prems(2) assms(2,4) by (intro mark_used_marked) (auto simp: unused_def)
  also have "insert (lane_next l) (set (ln_idxs l) \<union> Y) = set (ln_idxs (advance_lane l)) \<union> Y"
    by (simp add: advance_lane_def)
  finally have step: "extend_lane l (marked (set (ln_idxs l) \<union> Y) al) =
      extend_lane (advance_lane l) (marked (set (ln_idxs (advance_lane l)) \<union> Y) al)"
    using Suc.hyps(2) by (subst extend_lane.simps) simp
  have "k = lane_remaining (advance_lane l)"
    using Suc.hyps(2) by (simp add: lane_remaining_def advance_lane_def)
  moreover have "Y \<inter> set (ln_all (advance_lane l)) = {}"
    using Suc.prems(2) by (simp add: advance_lane_def)
  ultimately obtain l' where
    "extend_lane (advance_lane l) (marked (set (ln_idxs (advance_lane l)) \<union> Y) al) =
      (l', marked (set (ln_idxs l') \<union> Y) al)" "lane_ok al l'" "ln_all l' = ln_all (advance_lane l)"
    "lane_rest l' = []" "ln_idxs l' = ln_idxs (advance_lane l) @ lane_rest (advance_lane l)"
    using Suc.hyps(1) [OF _ lane_ok_advance [OF Suc.prems(1) lt]] by blast
  then show ?case unfolding step rest
    by (intro exI [of _ l']) (simp add: advance_lane_def)
qed

lemma truncate_lane_spec:
  assumes "lane_ok al l" "finite Y" "Y \<inter> set (ln_all l) = {}" "length (al_used al) = al_tokens al"
    and "n_keep \<le> length (ln_idxs l) + lane_remaining l"
  shows "\<exists>l'. truncate_lane n_keep l (marked (set (ln_idxs l) \<union> Y) al) =
      Some (l', marked (set (ln_idxs l') \<union> Y) al) \<and>
    lane_ok al l' \<and> ln_all l' = ln_all l \<and> length (lane_rest l') = max n_keep (lane_remaining l) \<and>
    ln_idxs l' @ lane_rest l' = ln_idxs l @ lane_rest l"
  using assms(1,3,5)
proof (induction "length (ln_idxs l)" arbitrary: l)
  case 0
  then have "truncate_lane n_keep l (marked (set (ln_idxs l) \<union> Y) al) =
      Some (l, marked (set (ln_idxs l) \<union> Y) al)"
    by (subst truncate_lane.simps) simp
  then show ?case using 0 by (simp add: lane_remaining_rest max_def)
next
  case (Suc k)
  let ?l = "l\<lparr>ln_idxs := butlast (ln_idxs l), ln_cur := ln_cur l - 1\<rparr>"
  have ne: "ln_idxs l \<noteq> []" using Suc.hyps(2) by auto
  note ret = lane_ok_retreat [OF Suc.prems(1) ne]
  show ?case
  proof (cases "lane_remaining l < n_keep")
    case False
    then have "truncate_lane n_keep l (marked (set (ln_idxs l) \<union> Y) al) =
        Some (l, marked (set (ln_idxs l) \<union> Y) al)"
      by (subst truncate_lane.simps) simp
    then show ?thesis using Suc.prems False by (auto simp: lane_remaining_rest)
  next
    case True
    have last: "last (ln_idxs l) \<in> set (ln_idxs l)" "last (ln_idxs l) \<notin> set (butlast (ln_idxs l))"
      using ne lane_ok_sets(3) [OF Suc.prems(1)]
      by (auto simp: strict_sorted_iff sorted_wrt_append)
        (metis append_butlast_last_id distinct_append IntI empty_iff list.set_intros(1))
    then have "last (ln_idxs l) \<in> set (ln_all l)" "last (ln_idxs l) \<in> unused al"
      using lane_ok_sets(1) [OF Suc.prems(1)] by auto
    then have "mark_unused (last (ln_idxs l)) (marked (set (ln_idxs l) \<union> Y) al) =
        marked (set (ln_idxs l) \<union> Y - {last (ln_idxs l)}) al"
      using assms(2,4) last by (intro mark_unused_marked) (auto simp: unused_def)
    also have "set (ln_idxs l) \<union> Y - {last (ln_idxs l)} = set (butlast (ln_idxs l)) \<union> Y"
    proof -
      have "set (ln_idxs l) = insert (last (ln_idxs l)) (set (butlast (ln_idxs l)))"
        using ne by (metis append_butlast_last_id set_append list.simps(15) empty_set Un_insert_right sup_bot_right)
      then show ?thesis using last \<open>last (ln_idxs l) \<in> set (ln_all l)\<close> Suc.prems(2) by auto
    qed
    finally have step: "truncate_lane n_keep l (marked (set (ln_idxs l) \<union> Y) al) =
        truncate_lane n_keep ?l (marked (set (ln_idxs ?l) \<union> Y) al)"
      using True ne by (subst truncate_lane.simps) simp
    have len: "length (ln_idxs ?l) + lane_remaining ?l = length (ln_idxs l) + lane_remaining l"
      using ret(2) ne by (simp add: lane_remaining_rest)
    have "k = length (ln_idxs ?l)" "Y \<inter> set (ln_all ?l) = {}" "n_keep \<le> length (ln_idxs ?l) + lane_remaining ?l"
      using Suc.hyps(2) Suc.prems(2,3) len by simp_all
    then obtain l' where "truncate_lane n_keep ?l (marked (set (ln_idxs ?l) \<union> Y) al) =
        Some (l', marked (set (ln_idxs l') \<union> Y) al)"
      "lane_ok al l'" "ln_all l' = ln_all ?l" "length (lane_rest l') = max n_keep (lane_remaining ?l)"
      "ln_idxs l' @ lane_rest l' = ln_idxs ?l @ lane_rest ?l"
      using Suc.hyps(1) [OF _ ret(1)] by blast
    moreover have "ln_idxs ?l @ lane_rest ?l = ln_idxs l @ lane_rest l"
      using ret(2) ne by simp
    moreover have "max n_keep (lane_remaining ?l) = max n_keep (lane_remaining l)"
      using True ret(2) by (simp add: lane_remaining_rest)
    ultimately show ?thesis unfolding step by (intro exI [of _ l']) simp
  qed
qed


lemma fold_fold_concat: "fold (\<lambda>x. fold f (g x)) xs = fold f (concat (map g xs))"
  by (induction xs) (auto simp: fun_eq_iff)

lemma chosen_append: "chosen (ls @ ls') = chosen ls @ chosen ls'"
  by (simp add: chosen_def)

text \<open>Returning the tokens of the lanes beyond the first \<open>n\<close>.\<close>

lemma drop_lanes:
  assumes ok: "lanes_ok al ls" and len: "length (al_used al) = al_tokens al"
  shows "fold (\<lambda>l. fold mark_unused (ln_idxs l)) (drop n ls) (marked (set (chosen ls)) al) =
      marked (set (chosen (take n ls))) al"
    "lanes_ok al (take n ls)"
proof -
  have split: "chosen ls = chosen (take n ls) @ chosen (drop n ls)"
    by (metis append_take_drop_id chosen_append)
  note ch = chosen_distinct [OF ok]
  have "fold mark_unused (chosen (drop n ls)) (marked (set (chosen ls)) al) =
      marked (set (chosen ls) - set (chosen (drop n ls))) al"
    using ch by (intro fold_mark_unused) (auto simp: split unused_def len)
  also have "set (chosen ls) - set (chosen (drop n ls)) = set (chosen (take n ls))"
    using ch(1) by (auto simp: split)
  finally show "fold (\<lambda>l. fold mark_unused (ln_idxs l)) (drop n ls) (marked (set (chosen ls)) al) =
      marked (set (chosen (take n ls))) al"
    by (simp add: fold_fold_concat chosen_def)
  have "concat (map ln_all ls) = concat (map ln_all (take n ls)) @ concat (map ln_all (drop n ls))"
    by (metis append_take_drop_id concat_append map_append)
  then have "distinct (concat (map ln_all (take n ls)))"
    using ok by (simp add: lanes_ok_def)
  then show "lanes_ok al (take n ls)"
    using ok by (auto simp: lanes_ok_def dest: in_set_takeD)
qed

text \<open>Replacing the choice in the first lane.\<close>

lemma first_lane:
  assumes ok: "lanes_ok al (l # ls)"
  defines "Y \<equiv> set (chosen ls)"
  shows "set (chosen (l # ls)) = set (ln_idxs l) \<union> Y" "Y \<inter> set (ln_all l) = {}"
    "lane_ok al l' \<Longrightarrow> ln_all l' = ln_all l \<Longrightarrow> lanes_ok al (l' # ls)"
proof -
  show "set (chosen (l # ls)) = set (ln_idxs l) \<union> Y" by (simp add: chosen_def Y_def)
  have "Y \<subseteq> set (concat (map ln_all ls))"
  proof
    fix i assume "i \<in> Y"
    then obtain l1 where "l1 \<in> set ls" "i \<in> set (ln_idxs l1)" by (auto simp: Y_def chosen_def)
    moreover from this have "lane_ok al l1" using ok by (simp add: lanes_ok_def)
    ultimately show "i \<in> set (concat (map ln_all ls))" using lane_ok_sets(1) by fastforce
  qed
  then show "Y \<inter> set (ln_all l) = {}"
    using ok by (auto simp: lanes_ok_def)
  show "lane_ok al l' \<Longrightarrow> ln_all l' = ln_all l \<Longrightarrow> lanes_ok al (l' # ls)"
    using ok by (simp add: lanes_ok_def)
qed

definition tail_kept :: "nat \<Rightarrow> lane \<Rightarrow> bool" where
  "tail_kept n_keep_tail l \<longleftrightarrow> lane_rest l = [] \<or> n_keep_tail \<le> length (lane_rest l)"

text \<open>The first lane when no lane leaves an acceptable tail.\<close>

lemma resolve_first_lane:
  assumes ok: "lanes_ok al (l # ls)" and len: "length (al_used al) = al_tokens al"
    and k: "0 < length (ln_idxs l)" and keep: "n_keep_tail < n_ubatch"
  shows "\<exists>l'. (if length (ln_idxs l) + lane_remaining l \<le> n_ubatch
        then Some (extend_lane l (marked (set (chosen (l # ls))) al))
        else truncate_lane n_keep_tail l (marked (set (chosen (l # ls))) al)) =
      Some (l', marked (set (chosen (l' # ls))) al) \<and>
    lanes_ok al (l' # ls) \<and> ln_all l' = ln_all l \<and> tail_kept n_keep_tail l' \<and> 0 < length (ln_idxs l') \<and>
    length (ln_idxs l') \<le> max n_ubatch (length (ln_idxs l))"
proof -
  have okl: "lane_ok al l" using ok by (simp add: lanes_ok_def)
  note first = first_lane [OF ok]
  have fin: "finite (set (chosen ls))" by simp
  show ?thesis
  proof (cases "length (ln_idxs l) + lane_remaining l \<le> n_ubatch")
    case True
    obtain l' where l': "extend_lane l (marked (set (chosen (l # ls))) al) =
          (l', marked (set (ln_idxs l') \<union> set (chosen ls)) al)"
        "lane_ok al l'" "ln_all l' = ln_all l" "lane_rest l' = []" "ln_idxs l' = ln_idxs l @ lane_rest l"
      using extend_lane_spec [OF okl fin first(2) len] unfolding first(1) by blast
    have "length (ln_idxs l') \<le> n_ubatch" using True l'(5) by (simp add: lane_remaining_rest)
    then show ?thesis
      using True l' k first(3) [of l'] first_lane(1) [OF first(3) [of l']]
      by (intro exI [of _ l']) (simp add: tail_kept_def)
  next
    case False
    then have "n_keep_tail \<le> length (ln_idxs l) + lane_remaining l" using keep by simp
    then obtain l' where l': "truncate_lane n_keep_tail l (marked (set (chosen (l # ls))) al) =
          Some (l', marked (set (ln_idxs l') \<union> set (chosen ls)) al)"
        "lane_ok al l'" "ln_all l' = ln_all l" "length (lane_rest l') = max n_keep_tail (lane_remaining l)"
        "ln_idxs l' @ lane_rest l' = ln_idxs l @ lane_rest l"
      using truncate_lane_spec [OF okl fin first(2) len] unfolding first(1) by blast
    have "length (ln_idxs l') + length (lane_rest l') = length (ln_idxs l) + lane_remaining l"
      using arg_cong [OF l'(5), of length] by (simp add: lane_remaining_rest)
    then have "0 < length (ln_idxs l')" "length (ln_idxs l') \<le> length (ln_idxs l)"
      using l'(4) k keep False by linarith+
    then show ?thesis
      using False l' first(3) [of l'] first_lane(1) [OF first(3) [of l']]
      by (intro exI [of _ l']) (simp add: tail_kept_def)
  qed
qed

lemma keep_tail_spec:
  assumes ok: "lanes_ok al ls" and ne: "ls \<noteq> []" and len: "length (al_used al) = al_tokens al"
    and k: "\<forall>l \<in> set ls. length (ln_idxs l) = k" "0 < k" "k * length ls \<le> max n_ubatch (length ls)"
    and keep: "n_keep_tail = 0 \<or> n_keep_tail < n_ubatch"
  shows "\<exists>ls' k'. keep_tail n_ubatch n_keep_tail ls (marked (set (chosen ls)) al) =
      Some (ls', marked (set (chosen ls')) al) \<and> lanes_ok al ls' \<and> ls' \<noteq> [] \<and>
    map ln_all ls' = take (length ls') (map ln_all ls) \<and>
    (\<forall>l \<in> set ls'. length (ln_idxs l) = k' \<and> tail_kept n_keep_tail l) \<and> 0 < k' \<and>
    k' * length ls' \<le> max n_ubatch (length ls)"
proof (cases "n_keep_tail = 0")
  case True
  then show ?thesis using assms by (intro exI [of _ ls] exI [of _ k]) (simp add: keep_tail_def tail_kept_def)
next
  case False
  let ?P = "\<lambda>l. \<not> (lane_remaining l \<noteq> 0 \<and> lane_remaining l < n_keep_tail)"
  let ?n = "length (takeWhile ?P ls)"
  have lt: "n_keep_tail < n_ubatch" using keep False by simp
  show ?thesis
  proof (cases "?n = 0")
    case False
    have "keep_tail n_ubatch n_keep_tail ls (marked (set (chosen ls)) al) =
        Some (take ?n ls, fold (\<lambda>l. fold mark_unused (ln_idxs l)) (drop ?n ls) (marked (set (chosen ls)) al))"
      using \<open>n_keep_tail \<noteq> 0\<close> lt False unfolding keep_tail_def by (simp add: assrt_def Let_def)
    also have "\<dots> = Some (take ?n ls, marked (set (chosen (take ?n ls))) al)"
      by (simp only: drop_lanes(1) [OF ok len])
    finally have eq: "keep_tail n_ubatch n_keep_tail ls (marked (set (chosen ls)) al) =
        Some (take ?n ls, marked (set (chosen (take ?n ls))) al)" .
    have "tail_kept n_keep_tail l" if "l \<in> set (takeWhile ?P ls)" for l
      using set_takeWhileD [OF that] by (auto simp: tail_kept_def lane_remaining_rest)
    then have "\<forall>l \<in> set (take ?n ls). length (ln_idxs l) = k \<and> tail_kept n_keep_tail l"
      using k(1) by (auto simp: takeWhile_eq_take [symmetric] dest: set_takeWhileD)
    moreover have "k * length (take ?n ls) \<le> max n_ubatch (length ls)"
      using k(3) le_trans [OF mult_le_mono2 [of "length (take ?n ls)" "length ls" k]] by simp
    moreover have "take ?n ls \<noteq> []" using False ne by simp
    moreover have "map ln_all (take ?n ls) = take (length (take ?n ls)) (map ln_all ls)"
      by (simp add: take_map length_takeWhile_le min_absorb2)
    ultimately show ?thesis
      using eq drop_lanes(2) [OF ok len] k(2) by (intro exI [of _ "take ?n ls"] exI [of _ k]) simp
  next
    case True
    obtain l ls0 where ls: "ls = l # ls0" using ne by (cases ls) auto
    obtain l' where l': "(if length (ln_idxs l) + lane_remaining l \<le> n_ubatch
          then Some (extend_lane l (marked (set (chosen (l # ls0))) al))
          else truncate_lane n_keep_tail l (marked (set (chosen (l # ls0))) al)) =
        Some (l', marked (set (chosen (l' # ls0))) al)"
      "lanes_ok al (l' # ls0)" "ln_all l' = ln_all l" "tail_kept n_keep_tail l'" "0 < length (ln_idxs l')"
      "length (ln_idxs l') \<le> max n_ubatch (length (ln_idxs l))"
      using resolve_first_lane [OF ok [unfolded ls] len _ lt] k(1,2) ls by auto
    have "keep_tail n_ubatch n_keep_tail ls (marked (set (chosen ls)) al) =
        Some (take 1 (l' # ls0), fold (\<lambda>l. fold mark_unused (ln_idxs l)) (drop 1 (l' # ls0))
          (marked (set (chosen (l' # ls0))) al))"
      using False lt True l'(1) unfolding keep_tail_def by (auto simp: assrt_def ls Let_def split: if_splits)
    also have "\<dots> = Some ([l'], marked (set (chosen [l'])) al)"
      using drop_lanes(1) [OF l'(2) len, of 1] by simp
    finally have eq: "keep_tail n_ubatch n_keep_tail ls (marked (set (chosen ls)) al) =
        Some ([l'], marked (set (chosen [l'])) al)" .
    have "length (ln_idxs l) \<le> max n_ubatch (length ls)"
      using k(1,3) le_trans [OF mult_le_mono2 [of 1 "length ls" k]] by (simp add: ls)
    then show ?thesis
      using eq l' drop_lanes(2) [OF l'(2) len, of 1]
      by (intro exI [of _ "[l']"] exI [of _ "length (ln_idxs l')"]) (simp add: ls)
  qed
qed


text \<open>No sequence is in two lanes.\<close>

definition lanes_apart :: "batch_allocr \<Rightarrow> lane list \<Rightarrow> bool" where
  "lanes_apart al ls \<longleftrightarrow> (\<forall>a < length ls. \<forall>b < length ls. a \<noteq> b \<longrightarrow>
     (\<forall>i \<in> set (ln_all (ls ! a)). \<forall>j \<in> set (ln_all (ls ! b)). al_seq_set al ! i \<inter> al_seq_set al ! j = {}))"

lemma start_lanes_apart:
  assumes ok: "al_ok al" and sets: "sets_ok al sets"
  shows "lanes_apart al (map (start_lane al) sets)"
  unfolding lanes_apart_def
proof (intro allI impI ballI)
  fix a b i j
  assume a: "a < length (map (start_lane al) sets)" "b < length (map (start_lane al) sets)" "a \<noteq> b"
    and i: "i \<in> set (ln_all (map (start_lane al) sets ! a))" "j \<in> set (ln_all (map (start_lane al) sets ! b))"
  have ln: "ln_all (start_lane al S) = filter (\<lambda>i. al_seq_set al ! i = S) [0..<al_tokens al]" for S
    using ok by (simp add: start_lane_def al_ok_def Let_def)
  have "sets ! a \<noteq> sets ! b" using a sets by (simp add: sets_ok_def nth_eq_iff_index_eq)
  then have "sets ! a \<inter> sets ! b = {}" using a sets by (simp add: sets_ok_def)
  then show "al_seq_set al ! i \<inter> al_seq_set al ! j = {}" using a i by (simp add: ln)
qed

lemma lanes_apart_prefix:
  assumes "lanes_apart al ls" "map ln_all ls' = take (length ls') (map ln_all ls)"
  shows "lanes_apart al ls'"
proof -
  have "length ls' \<le> length ls" using arg_cong [OF assms(2), of length] by simp
  then have "a < length ls" "ln_all (ls' ! a) = ln_all (ls ! a)" if "a < length ls'" for a
    using arg_cong [OF assms(2), of "\<lambda>xs. xs ! a"] that by simp_all
  then show ?thesis using assms(1) by (simp add: lanes_apart_def) blast
qed

text \<open>
  What \<open>split_equal\<close> chooses: lanes over disjoint sequence sets, all with the same number of tokens,
  none with a tail shorter than asked for. The bound is \<open>n_ubatch + 1\<close>: see \<open>choose_sets\<close>.
\<close>

lemma split_equal_idxs_spec:
  assumes ok: "al_ok al" and ne: "unused al \<noteq> {}" and cpl: "\<not> (sequential \<and> al_has_cpl al)"
    and keep: "n_keep_tail = 0 \<or> n_keep_tail < n_ubatch"
  shows "\<exists>ls k. split_equal_idxs n_ubatch sequential n_keep_tail al = Some (ls, marked (set (chosen ls)) al) \<and>
    lanes_ok al ls \<and> ls \<noteq> [] \<and> lanes_apart al ls \<and>
    (\<forall>l \<in> set ls. length (ln_idxs l) = k \<and> tail_kept n_keep_tail l) \<and> 0 < k \<and>
    k * length ls \<le> Suc n_ubatch"
proof -
  have len: "length (al_used al) = al_tokens al" using ok by (simp add: al_ok_def)
  let ?sets = "choose_sets al n_ubatch sequential [0..<al_tokens al] [] (-1)"
  have "sets_ok al []" by (simp add: sets_ok_def)
  moreover have "set [0..<al_tokens al] \<inter> unused al \<noteq> {}" using ne by (auto simp: unused_def)
  moreover have "set [0..<al_tokens al] \<subseteq> {..<al_tokens al}" by auto
  moreover have "\<forall>i < al_tokens al. al_seq_set al ! i \<noteq> {}" using ok by (simp add: al_ok_def)
  ultimately have sets: "sets_ok al ?sets" "length ?sets \<le> Suc n_ubatch" "?sets \<noteq> []"
    using choose_sets_spec [of "[0..<al_tokens al]" al "[]" n_ubatch sequential "-1"]
    by (simp_all only: list.size le0 simp_thms)
  let ?ls = "map (start_lane al) ?sets"
  note start = start_lanes_ok [OF ok sets(1)]
  have "?ls \<noteq> []" "\<forall>l \<in> set ?ls. length (ln_idxs l) = 0" "(0 + 1) * length ?ls \<le> max n_ubatch (length ?ls)"
    using sets(3) start(3) by auto
  from expand_lanes_spec [OF start(1) this(1) len this(2,3)] start(2,3) obtain ls k where ls:
    "expand_lanes n_ubatch ?ls al = (ls, marked (set (chosen ls)) al)" "lanes_ok al ls"
    "map ln_all ls = map ln_all ?ls" "\<forall>l \<in> set ls. length (ln_idxs l) = k"
    "k * length ?ls \<le> max n_ubatch (length ?ls)" "0 < k"
    by auto
  have lenls: "length ls = length ?ls" using ls(3) by (metis length_map)
  then have "ls \<noteq> []" "k * length ls \<le> max n_ubatch (length ls)" using sets(3) ls(5) by auto
  from keep_tail_spec [OF ls(2) this(1) len ls(4,6) this(2) keep] obtain ls' k' where ls':
    "keep_tail n_ubatch n_keep_tail ls (marked (set (chosen ls)) al) = Some (ls', marked (set (chosen ls')) al)"
    "lanes_ok al ls'" "ls' \<noteq> []" "map ln_all ls' = take (length ls') (map ln_all ls)"
    "\<forall>l \<in> set ls'. length (ln_idxs l) = k' \<and> tail_kept n_keep_tail l" "0 < k'"
    "k' * length ls' \<le> max n_ubatch (length ls)" by blast
  have "lanes_apart al ls" using lanes_apart_prefix [OF start_lanes_apart [OF ok sets(1)], of ls] ls(3) lenls by simp
  then have apart: "lanes_apart al ls'" using lanes_apart_prefix ls'(4) by blast
  have "k' * length ls' \<le> Suc n_ubatch" using ls'(7) sets(2) lenls by simp
  moreover have "split_equal_idxs n_ubatch sequential n_keep_tail al = Some (ls', marked (set (chosen ls')) al)"
    using cpl sets(3) ls(1) ls'(1) by (auto simp: split_equal_idxs_def al_tokens_def Let_def)
  ultimately show ?thesis using ls' apart by blast
qed

lemma length_chosen: "\<forall>l \<in> set ls. length (ln_idxs l) = k \<Longrightarrow> length (chosen ls) = k * length ls"
  by (induction ls) (auto simp: chosen_def)

text \<open>The sequential split refuses batches with coupled sequences.\<close>

definition equal_ok :: "bool \<Rightarrow> batch_allocr \<Rightarrow> bool" where
  "equal_ok sequential al \<longleftrightarrow> al_ok al \<and> \<not> (sequential \<and> al_has_cpl al)"

lemma split_equal_choice:
  assumes "equal_ok sequential al" "unused al \<noteq> {}" "n_keep_tail = 0 \<or> n_keep_tail < n_ubatch"
  shows "\<exists>ls. split_equal n_ubatch sequential n_keep_tail al =
      ubatch_add (chosen ls) (length ls) True (marked (set (chosen ls)) al) \<and>
    split_choice al (chosen ls) (length ls) \<and> equal_ok sequential (marked (set (chosen ls)) al) \<and>
    lanes_ok al ls \<and> lanes_apart al ls \<and> length (chosen ls) \<le> Suc n_ubatch \<and>
    (\<forall>l \<in> set ls. length (ln_idxs l) = length (chosen ls) div length ls \<and> tail_kept n_keep_tail l)"
proof -
  have ok: "al_ok al" "\<not> (sequential \<and> al_has_cpl al)" using assms(1) by (auto simp: equal_ok_def)
  from split_equal_idxs_spec [OF ok(1) assms(2) ok(2) assms(3)] obtain ls k where ls:
    "split_equal_idxs n_ubatch sequential n_keep_tail al = Some (ls, marked (set (chosen ls)) al)"
    "lanes_ok al ls" "ls \<noteq> []" "\<forall>l \<in> set ls. length (ln_idxs l) = k \<and> tail_kept n_keep_tail l" "0 < k"
    "k * length ls \<le> Suc n_ubatch" "lanes_apart al ls" by blast
  have len: "length (chosen ls) = k * length ls" using ls(4) by (intro length_chosen) blast
  then have "chosen ls \<noteq> []" using ls(3,5) by (cases "chosen ls") auto
  then have "split_choice al (chosen ls) (length ls)"
    using chosen_distinct [OF ls(2)] ls(3) len by (simp add: split_choice_def)
  moreover have "split_equal n_ubatch sequential n_keep_tail al =
      ubatch_add (chosen ls) (length ls) True (marked (set (chosen ls)) al)"
    using ls(1,3) by (simp add: split_equal_def chosen_def)
  moreover have "equal_ok sequential (marked (set (chosen ls)) al)"
    using lanes_ok_marked [OF ok(1) ls(2)] ok(2) by (simp add: equal_ok_def)
  moreover have "k = length (chosen ls) div length ls" using len ls(3) by simp
  ultimately show ?thesis using ls len by metis
qed

text \<open>The contract asks for a tail length the code's assertion admits.\<close>

definition tail_arg :: "nat \<Rightarrow> nat \<Rightarrow> nat" where
  "tail_arg n_ubatch n_keep_tail = (if n_keep_tail < n_ubatch then n_keep_tail else 0)"

interpretation equal: splitter "split_equal n_ubatch sequential (tail_arg n_ubatch n_keep_tail)"
  "equal_ok sequential" for n_ubatch sequential n_keep_tail
proof
  let ?keep = "tail_arg n_ubatch n_keep_tail"
  fix al
  assume ok: "equal_ok sequential al"
  then show "al_ok al" by (simp add: equal_ok_def)
  show "split_equal n_ubatch sequential ?keep al = Some (ubatch_none, al)" if "unused al = {}"
  proof -
    have "choose_sets al n_ubatch sequential is [] x = []" if "set is \<subseteq> {..<al_tokens al}" for "is" x
      using that \<open>unused al = {}\<close> by (induction "is") (auto simp: unused_def)
    then have "choose_sets al n_ubatch sequential [0..<al_tokens al] [] (-1) = []" by (metis atLeast_upt order_refl)
    then show ?thesis by (simp add: split_equal_def split_equal_idxs_def al_tokens_def)
  qed
  show "\<exists>idxs n_seqs eq. split_choice al idxs n_seqs \<and> equal_ok sequential (marked (set idxs) al) \<and>
      split_equal n_ubatch sequential ?keep al = ubatch_add idxs n_seqs eq (marked (set idxs) al)"
    if "unused al \<noteq> {}"
  proof -
    have "?keep = 0 \<or> ?keep < n_ubatch" by (simp add: tail_arg_def)
    from split_equal_choice [OF ok that this] show ?thesis by blast
  qed
next
  show "equal_ok sequential (al\<lparr>al_out_ids := o_ids\<rparr>) = equal_ok sequential al" for al o_ids
    by (simp add: equal_ok_def)
qed


subsection \<open>The statistics of \<open>init\<close>\<close>

text \<open>What has been recorded once the (token, slot) pairs in \<open>P\<close> have been visited.\<close>

definition stats_inv :: "llama_batch \<Rightarrow> (nat \<times> nat) set \<Rightarrow> batch_allocr \<Rightarrow> batch_allocr \<Rightarrow> bool" where
  "stats_inv b P al0 al \<longleftrightarrow>
     (\<exists>p c h. al = al0\<lparr>al_seq_pos := p, al_seq_cpl := c, al_has_cpl := h\<rparr> \<and>
     (\<forall>s. sset_inv (p s) \<and> set (p s) = {tok_pos b i |i k. (i, k) \<in> P \<and> tok_seq b i k = s}) \<and>
     (\<forall>s1 s0. c s1 s0 \<longleftrightarrow> (\<exists>i k. (i, k) \<in> P \<and> k > 0 \<and> tok_seq b i k = s1 \<and> tok_seq b i 0 = s0)) \<and>
     (h \<longleftrightarrow> (\<exists>i k. (i, k) \<in> P \<and> k > 0)))"

lemma stats_invE:
  assumes "stats_inv b P al0 al"
  obtains p c h where "al = al0\<lparr>al_seq_pos := p, al_seq_cpl := c, al_has_cpl := h\<rparr>"
    "\<And>s. sset_inv (p s)" "\<And>s. set (p s) = {tok_pos b i |i k. (i, k) \<in> P \<and> tok_seq b i k = s}"
    "\<And>s1 s0. c s1 s0 \<longleftrightarrow> (\<exists>i k. (i, k) \<in> P \<and> k > 0 \<and> tok_seq b i k = s1 \<and> tok_seq b i 0 = s0)"
    "h \<longleftrightarrow> (\<exists>i k. (i, k) \<in> P \<and> k > 0)"
  using assms unfolding stats_inv_def by blast

lemma stats_seq_inv:
  assumes "stats_inv b P al0 al" "al_batch al0 = b"
  shows "stats_inv b (insert (i, k) P) al0 (stats_seq i k al)"
proof -
  from assms(1) obtain p c h where al: "al = al0\<lparr>al_seq_pos := p, al_seq_cpl := c, al_has_cpl := h\<rparr>"
    and pos: "\<And>s. sset_inv (p s)" "\<And>s. set (p s) = {tok_pos b i |i k. (i, k) \<in> P \<and> tok_seq b i k = s}"
    and cpl: "\<And>s1 s0. c s1 s0 \<longleftrightarrow> (\<exists>i k. (i, k) \<in> P \<and> k > 0 \<and> tok_seq b i k = s1 \<and> tok_seq b i 0 = s0)"
    and has: "h \<longleftrightarrow> (\<exists>i k. (i, k) \<in> P \<and> k > 0)"
    by (rule stats_invE) (rule that)
  let ?s = "tok_seq b i k"
  let ?p = "p(?s := sset_insert (tok_pos b i) (p ?s))"
  let ?c = "if k > 0 then c(?s := (c ?s)(tok_seq b i 0 := True)) else c"
  have "stats_seq i k al = al0\<lparr>al_seq_pos := ?p, al_seq_cpl := ?c, al_has_cpl := h \<or> k > 0\<rparr>"
    by (auto simp: stats_seq_def al assms(2) Let_def)
  moreover have "sset_inv (?p s)" for s by (simp add: pos(1))
  moreover have "set (?p s) = {tok_pos b j |j m. (j, m) \<in> insert (i, k) P \<and> tok_seq b j m = s}" for s
    by (auto simp: pos(2))
  moreover have "?c s1 s0 \<longleftrightarrow>
      (\<exists>j m. (j, m) \<in> insert (i, k) P \<and> m > 0 \<and> tok_seq b j m = s1 \<and> tok_seq b j 0 = s0)" for s1 s0
    by (auto simp: cpl)
  moreover have "h \<or> k > 0 \<longleftrightarrow> (\<exists>j m. (j, m) \<in> insert (i, k) P \<and> m > 0)" by (auto simp: has)
  ultimately show ?thesis unfolding stats_inv_def by (intro exI conjI allI)
qed

lemma stats_inv_batch: "stats_inv b P al0 al \<Longrightarrow> al_batch al = al_batch al0"
  by (auto simp: stats_inv_def)

lemma stats_token_inv:
  assumes "stats_inv b P al0 al" "al_batch al0 = b"
  shows "stats_inv b (P \<union> {i} \<times> {..<tok_n_seq b i}) al0 (stats_token i al)"
proof -
  have "stats_inv b (P \<union> {i} \<times> {..<n}) al0 (fold (stats_seq i) [0..<n] al)" for n
  proof (induction n)
    case (Suc n)
    have "P \<union> {i} \<times> {..<Suc n} = insert (i, n) (P \<union> {i} \<times> {..<n})" by auto
    then show ?case using stats_seq_inv [OF Suc assms(2)] by simp
  qed (use assms in simp)
  then show ?thesis using stats_inv_batch [OF assms(1)] assms(2) by (simp add: stats_token_def)
qed

definition slots :: "llama_batch \<Rightarrow> nat \<Rightarrow> (nat \<times> nat) set" where
  "slots b n = {(i, k). i < n \<and> k < tok_n_seq b i}"

lemma stats_tokens_inv:
  assumes "\<forall>s. al_seq_pos al s = []" "\<forall>s1 s0. \<not> al_seq_cpl al s1 s0" "\<not> al_has_cpl al" "al_batch al = b"
  shows "stats_inv b (slots b n) al (fold stats_token [0..<n] al)"
proof (induction n)
  case 0
  have "al = al\<lparr>al_seq_pos := al_seq_pos al, al_seq_cpl := al_seq_cpl al, al_has_cpl := al_has_cpl al\<rparr>" by simp
  moreover have "slots b 0 = {}" by (simp add: slots_def)
  ultimately show ?case using assms unfolding stats_inv_def
    by (intro exI [of _ "al_seq_pos al"] exI [of _ "al_seq_cpl al"] exI [of _ "al_has_cpl al"]) simp
next
  case (Suc n)
  have "slots b (Suc n) = slots b n \<union> {n} \<times> {..<tok_n_seq b n}" by (auto simp: slots_def less_Suc_eq)
  then show ?case using stats_token_inv [OF Suc assms(4)] by simp
qed

lemma slots_tok_seqs: "(\<exists>k. (i, k) \<in> slots b n \<and> tok_seq b i k = s) \<longleftrightarrow> i < n \<and> s \<in> set (tok_seqs b i)"
  by (auto simp: slots_def tok_seqs_def)

lemma stats_sets_eq:
  "stats_sets al = al\<lparr>
     al_seq_set := al_seq_set al @ map (\<lambda>i. set (tok_seqs (al_batch al) i)) [0..<bt_n_tokens (al_batch al)],
     al_seq_set_map := (\<lambda>S. al_seq_set_map al S @
       filter (\<lambda>i. set (tok_seqs (al_batch al) i) = S) [0..<bt_n_tokens (al_batch al)])\<rparr>"
proof -
  let ?b = "al_batch al"
  let ?step = "\<lambda>i al. let cur = set (tok_seqs (al_batch al) i)
        in al\<lparr>al_seq_set := al_seq_set al @ [cur],
              al_seq_set_map := (al_seq_set_map al)(cur := al_seq_set_map al cur @ [i])\<rparr>"
  have "fold ?step [0..<n] al = al\<lparr>
     al_seq_set := al_seq_set al @ map (\<lambda>i. set (tok_seqs ?b i)) [0..<n],
     al_seq_set_map := (\<lambda>S. al_seq_set_map al S @ filter (\<lambda>i. set (tok_seqs ?b i) = S) [0..<n])\<rparr>" for n
    by (induction n) (auto simp: Let_def fun_eq_iff)
  then show ?thesis by (simp add: stats_sets_def)
qed


text \<open>The allocator after the filling phase, in terms of the filled batch.\<close>

definition al_stats :: "batch_allocr \<Rightarrow> bool" where
  "al_stats al \<longleftrightarrow> (let b = al_batch al; n = al_tokens al in
     (\<forall>s. sset_inv (al_seq_pos al s) \<and>
       set (al_seq_pos al s) = {tok_pos b i |i. i < n \<and> s \<in> set (tok_seqs b i)}) \<and>
     (\<forall>s1 s0. al_seq_cpl al s1 s0 \<longleftrightarrow>
       (\<exists>i k. i < n \<and> 0 < k \<and> k < tok_n_seq b i \<and> tok_seq b i k = s1 \<and> tok_seq b i 0 = s0)) \<and>
     (al_has_cpl al \<longleftrightarrow> (\<exists>i < n. 1 < tok_n_seq b i)) \<and>
     al_seq_set al = map (\<lambda>i. set (tok_seqs b i)) [0..<n] \<and>
     (\<forall>S. al_seq_set_map al S = filter (\<lambda>i. set (tok_seqs b i) = S) [0..<n]))"

definition filled :: "llama_batch \<Rightarrow> mem_view option \<Rightarrow> bool \<Rightarrow> llama_batch" where
  "filled b mem output_all = fill_logits output_all (fill_pos mem (fill_seq_id (fill_n_seq_id b)))"

lemma fill_fields [simp]:
  "bt_n_tokens (fill_n_seq_id b) = bt_n_tokens b" "bt_token (fill_n_seq_id b) = bt_token b"
  "bt_seq_id (fill_n_seq_id b) = bt_seq_id b" "bt_pos (fill_n_seq_id b) = bt_pos b"
  "bt_n_tokens (fill_seq_id b) = bt_n_tokens b" "bt_token (fill_seq_id b) = bt_token b"
  "bt_n_seq_id (fill_seq_id b) = bt_n_seq_id b" "bt_pos (fill_seq_id b) = bt_pos b"
  "bt_n_tokens (fill_pos mem b) = bt_n_tokens b" "bt_token (fill_pos mem b) = bt_token b"
  "bt_n_seq_id (fill_pos mem b) = bt_n_seq_id b" "bt_seq_id (fill_pos mem b) = bt_seq_id b"
  "bt_n_tokens (fill_logits o_all b) = bt_n_tokens b" "bt_token (fill_logits o_all b) = bt_token b"
  "bt_n_seq_id (fill_logits o_all b) = bt_n_seq_id b" "bt_seq_id (fill_logits o_all b) = bt_seq_id b"
  "bt_pos (fill_logits o_all b) = bt_pos b"
  by (simp_all add: fill_logits_def fill_pos_def fill_seq_id_def fill_n_seq_id_def Let_def split: option.splits)

lemma filled_fields [simp]:
  "bt_n_tokens (filled b mem output_all) = bt_n_tokens b" "bt_token (filled b mem output_all) = bt_token b"
  "bt_n_seq_id (filled b mem output_all) = bt_n_seq_id (fill_n_seq_id b)"
  "bt_seq_id (filled b mem output_all) = bt_seq_id (fill_seq_id (fill_n_seq_id b))"
  "bt_pos (filled b mem output_all) = bt_pos (fill_pos mem (fill_seq_id (fill_n_seq_id b)))"
  by (simp_all add: filled_def)

lemmas filled_n_tokens = filled_fields(1)

lemma stats_unq_fields [simp]:
  "al_batch (stats_unq al) = al_batch al" "al_seq_pos (stats_unq al) = al_seq_pos al"
  "al_seq_cpl (stats_unq al) = al_seq_cpl al" "al_has_cpl (stats_unq al) = al_has_cpl al"
  "al_seq_set (stats_unq al) = al_seq_set al" "al_seq_set_map (stats_unq al) = al_seq_set_map al"
  "al_n_seq_max (stats_unq al) = al_n_seq_max al" "al_n_pos_per_embd (stats_unq al) = al_n_pos_per_embd al"
  "al_out_ids (stats_unq al) = al_out_ids al"
  by (simp_all add: stats_unq_def Let_def split: prod.splits)

lemma allocr_fill_stats:
  defines "al' al b mem n_embd n_seq_max output_all \<equiv> allocr_fill (allocr_clear al) b mem n_embd n_seq_max output_all"
  shows "al_batch (al' al b mem n_embd n_seq_max output_all) = filled b mem output_all"
    "al_stats (al' al b mem n_embd n_seq_max output_all)"
    "al_n_seq_max (al' al b mem n_embd n_seq_max output_all) = n_seq_max"
    "al_n_pos_per_embd (al' al b mem n_embd n_seq_max output_all) = al_n_pos_per_embd al"
proof -
  let ?b = "filled b mem output_all"
  let ?n = "bt_n_tokens b"
  let ?al0 = "(allocr_clear al)\<lparr>al_batch := ?b, al_n_embd := n_embd, al_n_seq_max := n_seq_max,
                  al_n_outputs := al_n_outputs (allocr_clear al) + count_outputs ?b, al_has_cpl := False\<rparr>"
  have "stats_inv ?b (slots ?b ?n) ?al0 (fold stats_token [0..<?n] ?al0)"
    by (rule stats_tokens_inv) (simp_all add: allocr_clear_def)
  then obtain p c h where al: "fold stats_token [0..<?n] ?al0 = ?al0\<lparr>al_seq_pos := p, al_seq_cpl := c, al_has_cpl := h\<rparr>"
    and pos: "\<And>s. sset_inv (p s)" "\<And>s. set (p s) = {tok_pos ?b i |i k. (i, k) \<in> slots ?b ?n \<and> tok_seq ?b i k = s}"
    and cpl: "\<And>s1 s0. c s1 s0 \<longleftrightarrow> (\<exists>i k. (i, k) \<in> slots ?b ?n \<and> k > 0 \<and> tok_seq ?b i k = s1 \<and> tok_seq ?b i 0 = s0)"
    and has: "h \<longleftrightarrow> (\<exists>i k. (i, k) \<in> slots ?b ?n \<and> k > 0)"
    by (rule stats_invE) (rule that)
  let ?al1 = "?al0\<lparr>al_seq_pos := p, al_seq_cpl := c, al_has_cpl := h\<rparr>"
  have fill: "al' al b mem n_embd n_seq_max output_all = stats_unq (stats_sets ?al1)"
    unfolding al'_def allocr_fill_def filled_def [symmetric] Let_def filled_n_tokens al ..
  have set_pos: "set (p s) = {tok_pos ?b i |i. i < ?n \<and> s \<in> set (tok_seqs ?b i)}" for s
    unfolding pos(2) slots_tok_seqs [symmetric] by blast
  have cpl': "c s1 s0 \<longleftrightarrow> (\<exists>i k. i < ?n \<and> 0 < k \<and> k < tok_n_seq ?b i \<and> tok_seq ?b i k = s1 \<and> tok_seq ?b i 0 = s0)"
    for s1 s0 unfolding cpl slots_def by auto
  have has': "h \<longleftrightarrow> (\<exists>i < ?n. 1 < tok_n_seq ?b i)"
  proof -
    have "(\<exists>k. k < tok_n_seq ?b i \<and> 0 < k) \<longleftrightarrow> 1 < tok_n_seq ?b i" for i
      by (rule iffI) (auto intro: exI [of _ 1])
    then show ?thesis unfolding has slots_def by auto
  qed
  show batch: "al_batch (al' al b mem n_embd n_seq_max output_all) = ?b"
    "al_n_seq_max (al' al b mem n_embd n_seq_max output_all) = n_seq_max"
    "al_n_pos_per_embd (al' al b mem n_embd n_seq_max output_all) = al_n_pos_per_embd al"
    by (simp_all add: fill stats_sets_eq allocr_clear_def)
  have "al_seq_pos (stats_unq (stats_sets ?al1)) = p" "al_seq_cpl (stats_unq (stats_sets ?al1)) = c"
    "al_has_cpl (stats_unq (stats_sets ?al1)) = h"
    "al_seq_set (stats_unq (stats_sets ?al1)) = map (\<lambda>i. set (tok_seqs ?b i)) [0..<?n]"
    "al_seq_set_map (stats_unq (stats_sets ?al1)) = (\<lambda>S. filter (\<lambda>i. set (tok_seqs ?b i) = S) [0..<?n])"
    by (simp_all add: stats_sets_eq allocr_clear_def)
  then show "al_stats (al' al b mem n_embd n_seq_max output_all)"
    unfolding al_stats_def al_tokens_def batch Let_def filled_n_tokens
    unfolding fill using pos(1) set_pos cpl' has' by (simp only: simp_thms)
qed

subsection \<open>What \<open>init\<close> accepts\<close>

lemma first_error_None: "first_error f xs = None \<longleftrightarrow> (\<forall>x \<in> set xs. f x = None)"
  by (induction xs) (auto split: option.splits)

lemma set_seq_range: "s \<in> set (seq_range al) \<longleftrightarrow> 0 \<le> s \<and> s < int (al_n_seq_max al)"
  by (auto simp: seq_range_def image_iff intro: bexI [of _ "nat s"])

text \<open>The positions of a sequence in the batch.\<close>

definition seq_positions :: "llama_batch \<Rightarrow> llama_seq_id \<Rightarrow> llama_pos set" where
  "seq_positions b s = {tok_pos b i |i. i < bt_n_tokens b \<and> s \<in> set (tok_seqs b i)}"

lemma finite_seq_positions [simp]: "finite (seq_positions b s)"
  by (simp add: seq_positions_def)

lemma al_stats_pos:
  assumes "al_stats al"
  shows "al_seq_pos al s = [] \<longleftrightarrow> seq_positions (al_batch al) s = {}"
    "al_seq_pos al s \<noteq> [] \<Longrightarrow> al_seq_pos_min al s = Min (seq_positions (al_batch al) s)"
    "al_seq_pos al s \<noteq> [] \<Longrightarrow> al_seq_pos_max al s = Max (seq_positions (al_batch al) s)"
    "length (al_seq_pos al s) = card (seq_positions (al_batch al) s)"
proof -
  let ?p = "al_seq_pos al s"
  have inv: "sset_inv ?p" and set: "set ?p = seq_positions (al_batch al) s"
    using assms by (auto simp: al_stats_def Let_def al_tokens_def seq_positions_def)
  show "?p = [] \<longleftrightarrow> seq_positions (al_batch al) s = {}" using set by (metis set_empty2)
  show "length ?p = card (seq_positions (al_batch al) s)" by (simp only: length_sset [OF inv] set)
  show "al_seq_pos_min al s = Min (seq_positions (al_batch al) s)" if "?p \<noteq> []"
    using that sset_hd_le [OF inv]
    by (auto simp: al_seq_pos_min_def set [symmetric] intro: Min_eqI [symmetric])
  show "al_seq_pos_max al s = Max (seq_positions (al_batch al) s)" if "?p \<noteq> []"
    using that sset_last_ge [OF inv]
    by (auto simp: al_seq_pos_max_def set [symmetric] intro: Max_eqI [symmetric])
qed

text \<open>The last position the memory module knows of a sequence; without memory there is none.\<close>

definition mem_max :: "mem_view option \<Rightarrow> llama_seq_id \<Rightarrow> llama_pos" where
  "mem_max mem s = (case mem of Some (_, mx) \<Rightarrow> mx s | None \<Rightarrow> -1)"

definition text_positions_ok :: "mem_view option \<Rightarrow> llama_batch \<Rightarrow> llama_seq_id \<Rightarrow> bool" where
  "text_positions_ok mem b s \<longleftrightarrow> (let P = seq_positions b s in P = {} \<or>
     P = {Min P..Max P} \<and> (mem_max mem s \<ge> 0 \<longrightarrow> Min P = mem_max mem s + 1))"

definition mrope_positions_ok :: "mem_view option \<Rightarrow> llama_batch \<Rightarrow> llama_seq_id \<Rightarrow> bool" where
  "mrope_positions_ok mem b s \<longleftrightarrow> (\<forall>p \<in> seq_positions b s. mem_max mem s \<ge> 0 \<longrightarrow>
     (if bt_token b \<noteq> None then mem_max mem s < p else mem_max mem s \<le> p))"

lemma interval_iff_card:
  assumes "finite P" "P \<noteq> {}"
  shows "(P::int set) = {Min P..Max P} \<longleftrightarrow> \<not> Max P - Min P + 1 > int (card P)"
proof -
  have sub: "P \<subseteq> {Min P..Max P}" using assms by auto
  have le: "Min P \<le> Max P" using assms by simp
  have card: "int (card {Min P..Max P}) = Max P - Min P + 1" using le by simp
  show ?thesis
  proof
    assume "P = {Min P..Max P}"
    then have "card P = card {Min P..Max P}" by simp
    then show "\<not> Max P - Min P + 1 > int (card P)" using card by linarith
  next
    assume "\<not> Max P - Min P + 1 > int (card P)"
    then have "card {Min P..Max P} \<le> card P" using card by linarith
    then show "P = {Min P..Max P}" using card_seteq [OF _ sub] by simp
  qed
qed

lemma check_pos_text_iff:
  assumes "al_stats al"
  shows "check_pos_text mem al s = None \<longleftrightarrow> text_positions_ok mem (al_batch al) s"
proof (cases "al_seq_pos al s = []")
  case True
  then show ?thesis using al_stats_pos(1) [OF assms] by (simp add: check_pos_text_def text_positions_ok_def)
next
  case False
  then have ne: "seq_positions (al_batch al) s \<noteq> {}" using al_stats_pos(1) [OF assms] by simp
  show ?thesis
    using False ne al_stats_pos(2-4) [OF assms, of s] interval_iff_card [OF _ ne]
    by (auto simp: check_pos_text_def text_positions_ok_def mem_max_def Let_def split: option.splits)
qed

lemma check_pos_mrope_iff:
  assumes "al_stats al"
  shows "check_pos_mrope mem al s = None \<longleftrightarrow> mrope_positions_ok mem (al_batch al) s"
proof (cases "al_seq_pos al s = []")
  case True
  then show ?thesis using al_stats_pos(1) [OF assms] by (simp add: check_pos_mrope_def mrope_positions_ok_def)
next
  case False
  then have ne: "seq_positions (al_batch al) s \<noteq> {}" using al_stats_pos(1) [OF assms] by simp
  have min: "q < Min (seq_positions (al_batch al) s) \<longleftrightarrow> (\<forall>p \<in> seq_positions (al_batch al) s. q < p)"
    "q \<le> Min (seq_positions (al_batch al) s) \<longleftrightarrow> (\<forall>p \<in> seq_positions (al_batch al) s. q \<le> p)" for q
    using ne by simp_all
  have "check_pos_mrope mem al s = None \<longleftrightarrow>
      (mem_max mem s \<ge> 0 \<longrightarrow> (if bt_token (al_batch al) \<noteq> None
        then mem_max mem s < Min (seq_positions (al_batch al) s)
        else mem_max mem s \<le> Min (seq_positions (al_batch al) s)))"
    using False al_stats_pos(2) [OF assms False]
    by (simp add: check_pos_mrope_def mem_max_def Let_def not_le not_less)
  then show ?thesis unfolding min mrope_positions_ok_def by (auto split: if_splits)
qed


text \<open>
  Coupled sequences must agree in memory. The sets a sequence occurs in must have a sequence in
  common, and its positions must not decrease.
\<close>

definition coupled_ok :: "mem_view option \<Rightarrow> llama_batch \<Rightarrow> nat \<Rightarrow> bool" where
  "coupled_ok mem b n_seq_max \<longleftrightarrow> (case mem of None \<Rightarrow> True | Some (mn, mx) \<Rightarrow>
     (\<forall>i < bt_n_tokens b. \<forall>k < tok_n_seq b i.
       tok_seq b i k \<in> {0..<int n_seq_max} \<and> tok_seq b i 0 \<in> {0..<int n_seq_max} \<longrightarrow>
       mn (tok_seq b i k) = mn (tok_seq b i 0) \<and> mx (tok_seq b i k) = mx (tok_seq b i 0)))"

lemma check_coupled_iff:
  assumes "al_stats al"
  shows "check_coupled mem al = None \<longleftrightarrow> coupled_ok mem (al_batch al) (al_n_seq_max al)"
proof (cases mem)
  case (Some m)
  obtain mn mx where m: "m = (mn, mx)" by fastforce
  have cpl: "al_seq_cpl al s1 s0 \<longleftrightarrow> (\<exists>i k. i < bt_n_tokens (al_batch al) \<and> 0 < k \<and>
      k < tok_n_seq (al_batch al) i \<and> tok_seq (al_batch al) i k = s1 \<and> tok_seq (al_batch al) i 0 = s0)" for s1 s0
    using assms by (simp add: al_stats_def Let_def al_tokens_def)
  have "check_coupled mem al = None \<longleftrightarrow> (\<forall>s1 \<in> set (seq_range al). \<forall>s0 \<in> set (seq_range al).
      al_seq_cpl al s1 s0 \<longrightarrow> mn s1 = mn s0 \<and> mx s1 = mx s0)"
  proof -
    have pairs: "set (concat (map (\<lambda>s0. map (Pair s0) xs) xs)) = set xs \<times> set xs" for xs :: "llama_seq_id list"
      by auto
    show ?thesis
      unfolding check_coupled_def Some m first_error_None pairs option.case prod.case
      by (simp only: split_paired_Ball_Sigma prod.case option.distinct if_bool_eq_disj
          if_distrib [of "\<lambda>x. x = None"]) (simp only: de_Morgan_conj de_Morgan_disj imp_conv_disj simp_thms)
  qed
  also have "\<dots> \<longleftrightarrow> coupled_ok mem (al_batch al) (al_n_seq_max al)"
  proof (intro iffI ballI impI)
    assume all: "\<forall>s1 \<in> set (seq_range al). \<forall>s0 \<in> set (seq_range al).
      al_seq_cpl al s1 s0 \<longrightarrow> mn s1 = mn s0 \<and> mx s1 = mx s0"
    have "mn (tok_seq (al_batch al) i k) = mn (tok_seq (al_batch al) i 0) \<and>
        mx (tok_seq (al_batch al) i k) = mx (tok_seq (al_batch al) i 0)"
      if "i < bt_n_tokens (al_batch al)" "k < tok_n_seq (al_batch al) i"
        "tok_seq (al_batch al) i k \<in> set (seq_range al)" "tok_seq (al_batch al) i 0 \<in> set (seq_range al)" for i k
    proof (cases "k = 0")
      case False
      with that(1,2) have "al_seq_cpl al (tok_seq (al_batch al) i k) (tok_seq (al_batch al) i 0)"
        unfolding cpl by (intro exI [of _ i] exI [of _ k]) simp
      then show ?thesis using all [rule_format, OF that(3,4)] by simp
    qed simp
    then show "coupled_ok mem (al_batch al) (al_n_seq_max al)"
      unfolding coupled_ok_def Some m option.case prod.case set_seq_range atLeastLessThan_iff by blast
  next
    fix s1 s0
    assume ok: "coupled_ok mem (al_batch al) (al_n_seq_max al)"
      and s: "s1 \<in> set (seq_range al)" "s0 \<in> set (seq_range al)" and "al_seq_cpl al s1 s0"
    then obtain i k where ik: "i < bt_n_tokens (al_batch al)" "k < tok_n_seq (al_batch al) i"
      "tok_seq (al_batch al) i k = s1" "tok_seq (al_batch al) i 0 = s0" unfolding cpl by (elim exE conjE) (rule that)
    show "mn s1 = mn s0 \<and> mx s1 = mx s0"
      using ok [unfolded coupled_ok_def Some m option.case prod.case, rule_format, OF ik(1,2)] s
      unfolding set_seq_range ik(3,4) by simp
  qed
  finally show ?thesis .
qed (simp add: check_coupled_def coupled_ok_def)

definition seq_common :: "nat \<Rightarrow> llama_batch \<Rightarrow> nat \<Rightarrow> llama_seq_id \<Rightarrow> llama_seq_id set" where
  "seq_common n_max b n s = (if 0 \<le> s \<and> s < int n_max then {0..<LLAMA_MAX_SEQ} else {}) \<inter> (\<Inter>i \<in> {i. i < n \<and> s \<in> set (tok_seqs b i)}. set (tok_seqs b i))"

definition seq_last :: "llama_batch \<Rightarrow> nat \<Rightarrow> llama_seq_id \<Rightarrow> llama_pos" where
  "seq_last b n s = (let is = filter (\<lambda>i. s \<in> set (tok_seqs b i)) [0..<n] in
     if is = [] then -1 else tok_pos b (last is))"

lemma check_subset_seqs_eq:
  "((\<forall>s \<in> set ss. cs s \<inter> S \<noteq> {} \<and> cp s \<le> p) \<longrightarrow> check_subset_seqs S p ss (cs, cp) =
      Inr (\<lambda>s. if s \<in> set ss then cs s \<inter> S else cs s, \<lambda>s. if s \<in> set ss then p else cp s)) \<and>
   (\<not> (\<forall>s \<in> set ss. cs s \<inter> S \<noteq> {} \<and> cp s \<le> p) \<longrightarrow> (\<exists>e. check_subset_seqs S p ss (cs, cp) = Inl e))"
proof (induction ss arbitrary: cs cp)
  case (Cons s ss)
  show ?case
  proof (cases "cs s \<inter> S \<noteq> {} \<and> cp s \<le> p")
    case True
    then have step: "check_subset_seqs S p (s # ss) (cs, cp) =
        check_subset_seqs S p ss (cs(s := cs s \<inter> S), cp(s := p))"
      by (auto simp: Let_def)
    have all: "(\<forall>t \<in> set ss. (cs(s := cs s \<inter> S)) t \<inter> S \<noteq> {} \<and> (cp(s := p)) t \<le> p) \<longleftrightarrow>
        (\<forall>t \<in> set (s # ss). cs t \<inter> S \<noteq> {} \<and> cp t \<le> p)"
      using True by auto
    have upd: "(\<lambda>t. if t \<in> set ss then (cs(s := cs s \<inter> S)) t \<inter> S else (cs(s := cs s \<inter> S)) t) =
        (\<lambda>t. if t \<in> set (s # ss) then cs t \<inter> S else cs t)"
      "(\<lambda>t. if t \<in> set ss then p else (cp(s := p)) t) = (\<lambda>t. if t \<in> set (s # ss) then p else cp t)"
      by (auto simp: fun_eq_iff)
    show ?thesis
      using Cons.IH [of "cs(s := cs s \<inter> S)" "cp(s := p)"] unfolding step all upd .
  qed (auto simp: Let_def)
qed simp

lemma seq_common_Suc:
  "seq_common n_max b (Suc n) s =
    (if s \<in> set (tok_seqs b n) then seq_common n_max b n s \<inter> set (tok_seqs b n) else seq_common n_max b n s)"
  by (auto simp: seq_common_def less_Suc_eq)

lemma seq_last_Suc:
  "seq_last b (Suc n) s = (if s \<in> set (tok_seqs b n) then tok_pos b n else seq_last b n s)"
  by (simp add: seq_last_def Let_def)

lemma check_subset_toks_snoc:
  "check_subset_toks al (is @ [i]) st = (case check_subset_toks al is st of Inl e \<Rightarrow> Inl e
     | Inr st \<Rightarrow> check_subset_seqs (al_seq_set al ! i) (tok_pos (al_batch al) i) (tok_seqs (al_batch al) i) st)"
  by (induction "is" arbitrary: st) (auto split: sum.splits)

definition tokens_compatible :: "nat \<Rightarrow> llama_batch \<Rightarrow> nat \<Rightarrow> bool" where
  "tokens_compatible n_max b n \<longleftrightarrow> (\<forall>i < n. \<forall>s \<in> set (tok_seqs b i).
     seq_common n_max b i s \<inter> set (tok_seqs b i) \<noteq> {} \<and> seq_last b i s \<le> tok_pos b i)"

lemma check_subsets_iff:
  assumes "al_stats al"
  shows "check_subsets al = None \<longleftrightarrow> tokens_compatible (al_n_seq_max al) (al_batch al) (bt_n_tokens (al_batch al))"
proof -
  let ?b = "al_batch al" and ?m = "al_n_seq_max al"
  let ?st0 = "(\<lambda>s. if 0 \<le> s \<and> s < int ?m then {0..<LLAMA_MAX_SEQ} else {}, \<lambda>_. -1) :: subset_state"
  have "(tokens_compatible ?m ?b n \<longrightarrow> check_subset_toks al [0..<n] ?st0 = Inr (seq_common ?m ?b n, seq_last ?b n)) \<and>
      (\<not> tokens_compatible ?m ?b n \<longrightarrow> (\<exists>e. check_subset_toks al [0..<n] ?st0 = Inl e))"
    if "n \<le> bt_n_tokens ?b" for n
    using that
  proof (induction n)
    case 0
    show ?case by (auto simp: tokens_compatible_def seq_common_def seq_last_def fun_eq_iff)
  next
    case (Suc n)
    have S: "al_seq_set al ! n = set (tok_seqs ?b n)"
      using assms Suc.prems by (simp add: al_stats_def Let_def al_tokens_def)
    have compat: "tokens_compatible ?m ?b (Suc n) \<longleftrightarrow> tokens_compatible ?m ?b n \<and>
        (\<forall>s \<in> set (tok_seqs ?b n). seq_common ?m ?b n s \<inter> set (tok_seqs ?b n) \<noteq> {} \<and> seq_last ?b n s \<le> tok_pos ?b n)"
      by (auto simp: tokens_compatible_def less_Suc_eq)
    have upd: "seq_common ?m ?b (Suc n) = (\<lambda>s. if s \<in> set (tok_seqs ?b n) then seq_common ?m ?b n s \<inter> set (tok_seqs ?b n) else seq_common ?m ?b n s)"
      "seq_last ?b (Suc n) = (\<lambda>s. if s \<in> set (tok_seqs ?b n) then tok_pos ?b n else seq_last ?b n s)"
      by (simp_all add: fun_eq_iff seq_common_Suc seq_last_Suc)
    have step: "check_subset_toks al [0..<Suc n] ?st0 = (case check_subset_toks al [0..<n] ?st0 of Inl e \<Rightarrow> Inl e
        | Inr st \<Rightarrow> check_subset_seqs (set (tok_seqs ?b n)) (tok_pos ?b n) (tok_seqs ?b n) st)"
      unfolding S [symmetric] by (simp add: check_subset_toks_snoc)
    show ?case
    proof (cases "tokens_compatible ?m ?b n")
      case True
      then have "check_subset_toks al [0..<Suc n] ?st0 =
          check_subset_seqs (set (tok_seqs ?b n)) (tok_pos ?b n) (tok_seqs ?b n) (seq_common ?m ?b n, seq_last ?b n)"
        using Suc step by simp
      then show ?thesis
        using check_subset_seqs_eq [of "tok_seqs ?b n" "seq_common ?m ?b n" "set (tok_seqs ?b n)" "seq_last ?b n" "tok_pos ?b n"]
          True unfolding compat upd by simp
    next
      case False
      then obtain e where "check_subset_toks al [0..<n] ?st0 = Inl e" using Suc by auto
      then show ?thesis using False step compat by simp
    qed
  qed
  from this [of "bt_n_tokens ?b"] show ?thesis
    by (auto simp: check_subsets_def split: sum.splits)
qed


definition tokens_in_vocab :: "nat \<Rightarrow> llama_batch \<Rightarrow> bool" where
  "tokens_in_vocab n_vocab b \<longleftrightarrow> (\<forall>toks. bt_token b = Some toks \<longrightarrow>
     (\<forall>i < bt_n_tokens b. 0 \<le> toks ! i \<and> toks ! i < int n_vocab))"

definition seq_ids_in_range :: "nat \<Rightarrow> llama_batch \<Rightarrow> bool" where
  "seq_ids_in_range n_seq_max b \<longleftrightarrow> (\<forall>ids ns. bt_seq_id b = Some ids \<longrightarrow> bt_n_seq_id b = Some ns \<longrightarrow>
     (\<forall>i < bt_n_tokens b. \<forall>k < ns ! i. 0 \<le> ids ! i ! k \<and> ids ! i ! k < int n_seq_max))"

definition init_accepts :: "nat \<Rightarrow> nat \<Rightarrow> mem_view option \<Rightarrow> nat \<Rightarrow> bool \<Rightarrow> llama_batch \<Rightarrow> bool" where
  "init_accepts n_pos n_vocab mem n_seq_max output_all b \<longleftrightarrow> (let b' = filled b mem output_all in
     int n_seq_max \<le> LLAMA_MAX_SEQ \<and> tokens_in_vocab n_vocab b \<and> seq_ids_in_range n_seq_max b \<and>
     (\<forall>s. 0 \<le> s \<and> s < int n_seq_max \<longrightarrow>
       (if n_pos > 1 then mrope_positions_ok mem b' s else text_positions_ok mem b' s)) \<and>
     coupled_ok mem b' n_seq_max \<and> tokens_compatible n_seq_max b' (bt_n_tokens b))"

lemma find_None: "find P xs = None \<longleftrightarrow> (\<forall>x \<in> set xs. \<not> P x)"
  by (auto simp: find_None_iff)

lemma check_tokens_iff: "check_tokens b n_vocab = None \<longleftrightarrow> tokens_in_vocab n_vocab b"
  by (auto simp: check_tokens_def tokens_in_vocab_def find_None not_less not_le split: option.splits)

text \<open>
  The arrays reach as far as \<open>init\<close> reads them: one entry per token, and for every token a row of
  as many sequence ids as its count says, the first of which is always read.
\<close>

definition arrays_readable :: "llama_batch \<Rightarrow> bool" where
  "arrays_readable b \<longleftrightarrow> (let n = bt_n_tokens b in
     (\<forall>toks. bt_token b = Some toks \<longrightarrow> n \<le> length toks) \<and>
     (\<forall>ps. bt_pos b = Some ps \<longrightarrow> n \<le> length ps) \<and>
     (\<forall>out. bt_logits b = Some out \<longrightarrow> n \<le> length out) \<and>
     (\<forall>ns. bt_n_seq_id b = Some ns \<longrightarrow> n \<le> length ns \<and>
        (bt_seq_id b = None \<longrightarrow> (\<forall>i < n. ns ! i \<le> 1))) \<and>
     (\<forall>ids. bt_seq_id b = Some ids \<longrightarrow> n \<le> length ids \<and> (\<forall>i < n. ids ! i \<noteq> []) \<and>
        (\<exists>ns. bt_n_seq_id b = Some ns \<and> (\<forall>i < n. ns ! i \<le> length (ids ! i)))))"

lemma first_error_in_None: "first_error_in f xs = Some None \<longleftrightarrow> (\<forall>x \<in> set xs. f x = Some None)"
  by (induction xs) (auto split: Option.bind_splits)

lemma first_error_in_total: "\<forall>x \<in> set xs. f x \<noteq> None \<Longrightarrow> first_error_in f xs \<noteq> None"
  by (induction xs) auto

lemma check_seq_ids_range:
  assumes "check_seq_ids b n_seq_max = Some None"
  shows "seq_ids_in_range n_seq_max b"
  unfolding seq_ids_in_range_def
proof (intro allI impI)
  fix ids ns i k
  assume b: "bt_seq_id b = Some ids" "bt_n_seq_id b = Some ns" and i: "i < bt_n_tokens b" "k < ns ! i"
  let ?row = "\<lambda>i s. do {
      row \<leftarrow> at_idx ids i;
      x \<leftarrow> at_idx row s;
      Some (if x < 0 \<or> x \<ge> int n_seq_max then Some (Invalid_seq_id i s) else None) }"
  have "first_error_in (\<lambda>i. do { n \<leftarrow> at_idx ns i; first_error_in (?row i) [0..<n] })
      [0..<bt_n_tokens b] = Some None"
    using assms by (simp add: check_seq_ids_def b)
  with i(1) have "do { n \<leftarrow> at_idx ns i; first_error_in (?row i) [0..<n] } = Some None"
    by (auto simp: first_error_in_None)
  then have "first_error_in (?row i) [0..<ns ! i] = Some None"
    by (cases "i < length ns") (simp_all add: at_idx_def)
  with i(2) have "?row i k = Some None" by (simp add: first_error_in_None)
  then show "0 \<le> ids ! i ! k \<and> ids ! i ! k < int n_seq_max"
    by (auto simp: at_idx_def bind_eq_Some_conv split: if_splits)
qed

lemma check_seq_ids_iff:
  assumes "arrays_readable b"
  shows "\<exists>err. check_seq_ids b n_seq_max = Some err \<and> (err = None \<longleftrightarrow> seq_ids_in_range n_seq_max b)"
proof (cases "bt_seq_id b")
  case (Some ids)
  with assms obtain ns where ns: "bt_n_seq_id b = Some ns" "bt_n_tokens b \<le> length ids"
    "bt_n_tokens b \<le> length ns" "\<forall>i < bt_n_tokens b. ns ! i \<le> length (ids ! i)"
    by (auto simp: arrays_readable_def Let_def)
  let ?row = "\<lambda>i s. do {
      row \<leftarrow> at_idx ids i;
      x \<leftarrow> at_idx row s;
      Some (if x < 0 \<or> x \<ge> int n_seq_max then Some (Invalid_seq_id i s) else None) }"
  have row: "?row i s = Some (if ids ! i ! s < 0 \<or> ids ! i ! s \<ge> int n_seq_max
      then Some (Invalid_seq_id i s) else None)" if "i < bt_n_tokens b" "s < ns ! i" for i s
  proof -
    have "i < length ids" "s < length (ids ! i)" using ns that by fastforce+
    then show ?thesis by simp
  qed
  have run: "check_seq_ids b n_seq_max =
      first_error_in (\<lambda>i. do { n \<leftarrow> at_idx ns i; first_error_in (?row i) [0..<n] }) [0..<bt_n_tokens b]"
    by (simp add: check_seq_ids_def Some ns(1))
  have "first_error_in (?row i) [0..<ns ! i] \<noteq> None" if "i < bt_n_tokens b" for i
    by (rule first_error_in_total) (simp add: row that del: bind_eq_None_conv)
  then have "check_seq_ids b n_seq_max \<noteq> None"
    unfolding run using ns(3) by (intro first_error_in_total) auto
  moreover have "check_seq_ids b n_seq_max = Some None \<longleftrightarrow> seq_ids_in_range n_seq_max b"
  proof -
    have "check_seq_ids b n_seq_max = Some None \<longleftrightarrow>
        (\<forall>i < bt_n_tokens b. first_error_in (?row i) [0..<ns ! i] = Some None)"
      unfolding run using ns(3) by (subst first_error_in_None) (auto simp del: first_error_in.simps)
    also have "\<dots> \<longleftrightarrow> (\<forall>i < bt_n_tokens b. \<forall>s < ns ! i. ?row i s = Some None)"
      unfolding first_error_in_None by (simp add: Ball_def)
    also have "\<dots> \<longleftrightarrow> (\<forall>i < bt_n_tokens b. \<forall>s < ns ! i. 0 \<le> ids ! i ! s \<and> ids ! i ! s < int n_seq_max)"
    proof -
      have "?row i s = Some None \<longleftrightarrow> 0 \<le> ids ! i ! s \<and> ids ! i ! s < int n_seq_max"
        if "i < bt_n_tokens b" "s < ns ! i" for i s
        by (auto simp: row [OF that])
      then show ?thesis by blast
    qed
    also have "\<dots> \<longleftrightarrow> seq_ids_in_range n_seq_max b"
      by (simp add: seq_ids_in_range_def Some ns(1))
    finally show ?thesis .
  qed
  ultimately show ?thesis by auto
qed (simp add: check_seq_ids_def seq_ids_in_range_def)

lemma allocr_checks_iff:
  assumes "al_stats al"
  shows "allocr_checks mem al = None \<longleftrightarrow>
    (\<forall>s. 0 \<le> s \<and> s < int (al_n_seq_max al) \<longrightarrow>
      (if al_n_pos_per_embd al > 1 then mrope_positions_ok mem (al_batch al) s
       else text_positions_ok mem (al_batch al) s)) \<and>
    coupled_ok mem (al_batch al) (al_n_seq_max al) \<and>
    tokens_compatible (al_n_seq_max al) (al_batch al) (bt_n_tokens (al_batch al))"
proof -
  have "check_positions mem al = None \<longleftrightarrow> (\<forall>s. 0 \<le> s \<and> s < int (al_n_seq_max al) \<longrightarrow>
      (if al_n_pos_per_embd al > 1 then mrope_positions_ok mem (al_batch al) s
       else text_positions_ok mem (al_batch al) s))"
    by (simp add: check_positions_def first_error_None Ball_def set_seq_range
        check_pos_text_iff [OF assms] check_pos_mrope_iff [OF assms])
  moreover have "allocr_checks mem al = None \<longleftrightarrow>
      check_positions mem al = None \<and> check_coupled mem al = None \<and> check_subsets al = None"
    by (simp add: allocr_checks_def split: option.splits)
  ultimately show ?thesis
    by (simp only: check_coupled_iff [OF assms] check_subsets_iff [OF assms])
qed

text \<open>\<open>init\<close> accepts exactly the acceptable batches, and then leaves the filled one to be split.\<close>

lemma allocr_init_iff:
  assumes "bt_n_tokens b > 0" "arrays_readable b"
  shows "\<exists>r. allocr_init al b n_vocab mem n_embd n_seq_max output_all = Some r \<and>
    (if init_accepts (al_n_pos_per_embd al) n_vocab mem n_seq_max output_all b
     then r = Inr (split_reset (allocr_fill (allocr_clear al) b mem n_embd n_seq_max output_all))
     else \<exists>e. r = Inl e)"
proof -
  let ?fill = "allocr_fill (allocr_clear al) b mem n_embd n_seq_max output_all"
  note fill = allocr_fill_stats [of al b mem n_embd n_seq_max output_all]
  have checks: "allocr_checks mem ?fill = None \<longleftrightarrow>
      (\<forall>s. 0 \<le> s \<and> s < int n_seq_max \<longrightarrow> (if al_n_pos_per_embd al > 1
        then mrope_positions_ok mem (filled b mem output_all) s
        else text_positions_ok mem (filled b mem output_all) s)) \<and>
      coupled_ok mem (filled b mem output_all) n_seq_max \<and>
      tokens_compatible n_seq_max (filled b mem output_all) (bt_n_tokens b)"
    using allocr_checks_iff [OF fill(2), of mem] unfolding fill(1,3,4) filled_n_tokens .
  obtain err where err: "check_seq_ids b n_seq_max = Some err" "err = None \<longleftrightarrow> seq_ids_in_range n_seq_max b"
    using check_seq_ids_iff [OF assms(2)] by blast
  have accepts: "init_accepts (al_n_pos_per_embd al) n_vocab mem n_seq_max output_all b \<longleftrightarrow>
      \<not> int n_seq_max > LLAMA_MAX_SEQ \<and> check_tokens b n_vocab = None \<and>
      err = None \<and> allocr_checks mem ?fill = None"
    unfolding init_accepts_def Let_def check_tokens_iff err(2) checks not_less by blast
  show ?thesis unfolding accepts using assms(1) err(1)
    by (auto simp: allocr_init_def reject_on_def Let_def split: option.splits)
qed

text \<open>What an accepted batch leaves, however long its arrays are.\<close>

lemma allocr_init_Inr:
  assumes "allocr_init al b n_vocab mem n_embd n_seq_max output_all = Some (Inr al0)"
  shows "al0 = split_reset (allocr_fill (allocr_clear al) b mem n_embd n_seq_max output_all)"
    "bt_n_tokens b > 0" "init_accepts (al_n_pos_per_embd al) n_vocab mem n_seq_max output_all b"
proof -
  let ?fill = "allocr_fill (allocr_clear al) b mem n_embd n_seq_max output_all"
  note fill = allocr_fill_stats [of al b mem n_embd n_seq_max output_all]
  from assms show "al0 = split_reset ?fill" "bt_n_tokens b > 0"
    by (auto simp: allocr_init_def reject_on_def Let_def split: option.splits if_splits Option.bind_splits)
  from assms have "\<not> int n_seq_max > LLAMA_MAX_SEQ" "check_tokens b n_vocab = None"
    "check_seq_ids b n_seq_max = Some None" "allocr_checks mem ?fill = None"
    by (auto simp: allocr_init_def reject_on_def Let_def split: option.splits if_splits Option.bind_splits)
  then show "init_accepts (al_n_pos_per_embd al) n_vocab mem n_seq_max output_all b"
    using allocr_checks_iff [OF fill(2), of mem] check_seq_ids_range [of b n_seq_max]
    unfolding init_accepts_def Let_def check_tokens_iff [symmetric] fill(1,3,4) filled_n_tokens by simp
qed

definition has_seqs :: "llama_batch \<Rightarrow> bool" where
  "has_seqs b \<longleftrightarrow> (\<forall>ns. bt_n_seq_id b = Some ns \<longrightarrow> (\<forall>i < bt_n_tokens b. 0 < ns ! i))"

lemma filled_n_seq: "has_seqs b \<Longrightarrow> i < bt_n_tokens b \<Longrightarrow> 0 < tok_n_seq (filled b mem output_all) i"
  by (cases "bt_n_seq_id b") (simp_all add: has_seqs_def tok_n_seq_def fill_n_seq_id_def)

text \<open>The sets of the sequences of the tokens.\<close>

definition seq_sets_ok :: "batch_allocr \<Rightarrow> bool" where
  "seq_sets_ok al \<longleftrightarrow> (\<forall>i < al_tokens al. al_seq_set al ! i = set (tok_seqs (al_batch al) i))"

text \<open>The allocator \<open>init\<close> leaves is ready for every split.\<close>

lemma init_ready:
  assumes "has_seqs b"
  defines "al' al mem n_embd n_seq_max output_all \<equiv>
    split_reset (allocr_fill (allocr_clear al) b mem n_embd n_seq_max output_all)"
  shows "al_ok (al' al mem n_embd n_seq_max output_all)"
    "unused (al' al mem n_embd n_seq_max output_all) = {..<bt_n_tokens b}"
    "simple_ok (al' al mem n_embd n_seq_max output_all)"
    "al_out_ids (al' al mem n_embd n_seq_max output_all) = []"
    "al_batch (al' al mem n_embd n_seq_max output_all) = filled b mem output_all"
    "seq_sets_ok (al' al mem n_embd n_seq_max output_all)"
proof -
  let ?al = "al' al mem n_embd n_seq_max output_all"
  let ?b = "filled b mem output_all"
  note fill = allocr_fill_stats [of al b mem n_embd n_seq_max output_all]
  have al: "al_batch ?al = ?b" "al_used ?al = replicate (bt_n_tokens b) False" "al_n_used ?al = 0"
    "al_out_ids ?al = []"
    by (simp_all add: al'_def split_reset_def fill(1))
  then show "al_batch ?al = ?b" "al_out_ids ?al = []" by simp_all
  have tokens: "al_tokens ?al = bt_n_tokens b" by (simp add: al_tokens_def al(1))
  show un: "unused ?al = {..<bt_n_tokens b}" by (auto simp: unused_def tokens al(2))
  have "al_seq_set ?al = al_seq_set (allocr_fill (allocr_clear al) b mem n_embd n_seq_max output_all)"
    "al_seq_set_map ?al = al_seq_set_map (allocr_fill (allocr_clear al) b mem n_embd n_seq_max output_all)"
    by (simp_all add: al'_def split_reset_def)
  then have sets: "al_seq_set ?al = map (\<lambda>i. set (tok_seqs ?b i)) [0..<bt_n_tokens b]"
    "\<forall>S. al_seq_set_map ?al S = filter (\<lambda>i. set (tok_seqs ?b i) = S) [0..<bt_n_tokens b]"
    using fill(2) unfolding al_stats_def al_tokens_def Let_def fill(1) filled_n_tokens by metis+
  have nth: "al_seq_set ?al ! i = set (tok_seqs ?b i)" if "i < bt_n_tokens b" for i
    using that by (simp add: sets(1))
  then show "seq_sets_ok ?al" by (simp add: seq_sets_ok_def tokens al(1))
  have "set (tok_seqs ?b i) \<noteq> {}" if "i < bt_n_tokens b" for i
    using filled_n_seq [OF assms(1) that, of mem output_all] by (simp add: tok_seqs_def)
  moreover have "filter (\<lambda>i. al_seq_set ?al ! i = S) [0..<bt_n_tokens b] =
      filter (\<lambda>i. set (tok_seqs ?b i) = S) [0..<bt_n_tokens b]" for S
    by (intro filter_cong) (simp_all add: nth)
  ultimately show "al_ok ?al"
    unfolding al_ok_def tokens un al(2,3) using sets nth by simp
  then show "simple_ok ?al" by (auto simp: simple_ok_def un tokens lessThan_atLeast0)
qed

subsection \<open>The simplest batch\<close>

text \<open>A client that gives no positions, sequences or output flags needs no more than its tokens.\<close>

abbreviation (input) "get_one_filled mem toks \<equiv> filled (llama_batch_get_one toks) mem False"

lemma get_one_fields [simp]:
  "bt_n_tokens (llama_batch_get_one toks) = length toks" "bt_token (llama_batch_get_one toks) = Some toks"
  "bt_pos (llama_batch_get_one toks) = None" "bt_n_seq_id (llama_batch_get_one toks) = None"
  "bt_seq_id (llama_batch_get_one toks) = None" "bt_logits (llama_batch_get_one toks) = None"
  by (simp_all add: llama_batch_get_one_def batch_none_def)

lemma get_one_readable [simp]: "arrays_readable (llama_batch_get_one toks)"
  by (simp add: arrays_readable_def Let_def)

lemma get_one_seqs:
  assumes "i < length toks"
  defines "b \<equiv> fill_seq_id (fill_n_seq_id (llama_batch_get_one toks))"
  shows "tok_n_seq b i = 1" "tok_seq b i 0 = 0" "tok_seqs b i = [0]"
    "tok_seqs (get_one_filled mem toks) i = [0]" "tok_n_seq (get_one_filled mem toks) i = 1"
    "tok_seq (get_one_filled mem toks) i 0 = 0"
  using assms by (simp_all add: tok_n_seq_def tok_seq_def tok_seqs_def fill_seq_id_def fill_n_seq_id_def)

lemma get_one_pos:
  "bt_pos (get_one_filled mem toks) = Some (map (\<lambda>i. mem_max mem 0 + 1 + int i) [0..<length toks])"
proof -
  let ?b = "fill_seq_id (fill_n_seq_id (llama_batch_get_one toks))"
  let ?p0 = "(case mem of None \<Rightarrow> (\<lambda>s. 0) | Some (_, mx) \<Rightarrow> (\<lambda>s. mx s + 1)) :: llama_seq_id \<Rightarrow> llama_pos"
  have start: "?p0 0 = mem_max mem 0 + 1" by (auto simp: mem_max_def split: option.splits)
  have "fold (gen_pos_step ?b) [0..<n] (?p0, []) =
      (if n = 0 then ?p0 else ?p0(0 := ?p0 0 + int n), map (\<lambda>i. ?p0 0 + int i) [0..<n])"
    if "n \<le> length toks" for n
    using that
  proof (induction n)
    case (Suc n)
    then show ?case using get_one_seqs(2,3) [of n toks]
      by (auto simp: gen_pos_step_def Let_def)
  qed simp
  from this [of "length toks"] show ?thesis
    by (simp add: fill_pos_def start Let_def fill_n_seq_id_def fill_seq_id_def)
qed

lemma get_one_tok_pos: "i < length toks \<Longrightarrow> tok_pos (get_one_filled mem toks) i = mem_max mem 0 + 1 + int i"
  by (simp add: tok_pos_def get_one_pos del: filled_fields)

lemma get_one_accepted:
  assumes toks: "toks \<noteq> []" "\<forall>t \<in> set toks. 0 \<le> t \<and> t < int n_vocab"
    and "1 \<le> n_seq_max" "int n_seq_max \<le> LLAMA_MAX_SEQ" and mem: "-1 \<le> mem_max mem 0"
  shows "init_accepts n_pos n_vocab mem n_seq_max False (llama_batch_get_one toks)"
proof -
  let ?b = "get_one_filled mem toks"
  let ?p = "mem_max mem 0 + 1"
  have P: "seq_positions ?b s = (if s = 0 then {?p..<?p + int (length toks)} else {})" for s
  proof -
    have eq: "i < length toks \<and> s \<in> set (tok_seqs ?b i) \<longleftrightarrow> i < length toks \<and> s = 0" for i
      using get_one_seqs(4) [of i toks mem] by auto
    have "seq_positions ?b s = {tok_pos ?b i |i. i < length toks \<and> s = 0}"
      unfolding seq_positions_def filled_n_tokens get_one_fields(1) eq ..
    also have "\<dots> = (if s = 0 then (\<lambda>i. ?p + int i) ` {..<length toks} else {})"
    proof -
      have "{tok_pos ?b i |i. i < length toks} = tok_pos ?b ` {..<length toks}" by auto
      also have "\<dots> = (\<lambda>i. ?p + int i) ` {..<length toks}"
        by (rule image_cong) (simp_all add: get_one_tok_pos del: filled_fields)
      finally show ?thesis by simp
    qed
    also have "(\<lambda>i. ?p + int i) ` {..<length toks} = {?p..<?p + int (length toks)}"
    proof (intro set_eqI iffI)
      fix x assume "x \<in> {?p..<?p + int (length toks)}"
      then show "x \<in> (\<lambda>i. ?p + int i) ` {..<length toks}"
        by (intro image_eqI [of _ _ "nat (x - ?p)"]) auto
    qed auto
    finally show ?thesis .
  qed
  have mm: "Min {?p..<?p + int (length toks)} = ?p" "Max {?p..<?p + int (length toks)} = ?p + int (length toks) - 1"
    using toks(1) by (auto intro!: Min_eqI Max_eqI simp: Suc_le_eq)
  have "text_positions_ok mem ?b s" "mrope_positions_ok mem ?b s" for s
    using toks(1) by (auto simp: text_positions_ok_def mrope_positions_ok_def P mm Let_def)
  moreover have "coupled_ok mem ?b n_seq_max"
    using get_one_seqs(5,6) by (auto simp: coupled_ok_def split: option.splits)
  moreover have "tokens_compatible n_seq_max ?b (length toks)"
  proof -
    have "seq_common n_seq_max ?b i 0 \<inter> {0} \<noteq> {}" if "i < length toks" for i
      using that assms(3) get_one_seqs(4) by (auto simp: seq_common_def LLAMA_MAX_SEQ_def)
    moreover have "seq_last ?b i 0 \<le> tok_pos ?b i" if "i < length toks" for i
    proof -
      have "filter (\<lambda>j. 0 \<in> set (tok_seqs ?b j)) [0..<i] = [0..<i]"
        using that get_one_seqs(4) by (intro filter_True) simp
      then show ?thesis using that mem get_one_tok_pos
        by (cases i) (auto simp: seq_last_def Let_def)
    qed
    ultimately show ?thesis by (simp add: tokens_compatible_def get_one_seqs(4))
  qed
  moreover have "tokens_in_vocab n_vocab (llama_batch_get_one toks)"
    using toks(2) by (auto simp: tokens_in_vocab_def)
  ultimately show ?thesis using assms(4)
    by (simp add: init_accepts_def Let_def seq_ids_in_range_def)
qed


subsection \<open>Properties\<close>

text \<open>
  C17: \<open>init\<close> never fails an assertion on a non-empty batch whose arrays reach as far as they are
  read (\<open>arrays_readable\<close>: one entry per token, counts with the sequence ids): it accepts exactly the batches that
  meet the declarative conditions of \<open>init_accepts\<close> (vocabulary, sequence ids, positions that
  continue the memory without gaps, coupled sequences equal in memory, compatible sequence sets,
  non-decreasing positions) and rejects every other with an error.
\<close>

theorem init_decides:
  assumes "bt_n_tokens b > 0" "arrays_readable b"
  shows "\<exists>r. allocr_init al b n_vocab mem n_embd n_seq_max output_all = Some r \<and>
    (if init_accepts (al_n_pos_per_embd al) n_vocab mem n_seq_max output_all b
     then r = Inr (split_reset (allocr_fill (allocr_clear al) b mem n_embd n_seq_max output_all))
     else \<exists>e. r = Inl e)"
  by (rule allocr_init_iff [OF assms])

theorem init_decides_witness:
  "\<exists>r. allocr_init (allocr_new 1) (llama_batch_get_one [5, 7]) 8 None 0 1 False = Some r \<and>
    (if init_accepts (al_n_pos_per_embd (allocr_new 1)) 8 None 1 False (llama_batch_get_one [5, 7])
     then r = Inr (split_reset (allocr_fill (allocr_clear (allocr_new 1)) (llama_batch_get_one [5, 7]) None 0 1 False))
     else \<exists>e. r = Inl e)"
  by (rule init_decides) simp_all

text \<open>
  A batch from \<open>llama_batch_get_one\<close> over tokens of the vocabulary is always accepted, and the
  generated positions continue the memory's last position of sequence 0.
\<close>

theorem get_one_init:
  assumes "toks \<noteq> []" "\<forall>t \<in> set toks. 0 \<le> t \<and> t < int n_vocab"
    and "1 \<le> n_seq_max" "int n_seq_max \<le> LLAMA_MAX_SEQ" "-1 \<le> mem_max mem 0"
  shows "\<exists>al'. allocr_init al (llama_batch_get_one toks) n_vocab mem n_embd n_seq_max False = Some (Inr al') \<and>
    bt_token (al_batch al') = Some toks \<and>
    bt_pos (al_batch al') = Some (map (\<lambda>i. mem_max mem 0 + 1 + int i) [0..<length toks]) \<and>
    unused al' = {..<length toks}"
proof -
  have seqs: "has_seqs (llama_batch_get_one toks)" by (simp add: has_seqs_def)
  show ?thesis
    using allocr_init_iff [of "llama_batch_get_one toks" al n_vocab mem n_embd n_seq_max False]
      get_one_accepted [OF assms, of "al_n_pos_per_embd al"] init_ready(2,5) [OF seqs] assms(1) get_one_pos
    by (auto simp del: filled_fields(5))
qed

theorem get_one_init_witness:
  "\<exists>al'. allocr_init (allocr_new 1) (llama_batch_get_one [5, 7]) 8 (Some (\<lambda>s. 0, \<lambda>s. 3)) 0 1 False =
      Some (Inr al') \<and> bt_token (al_batch al') = Some [5, 7] \<and>
    bt_pos (al_batch al') = Some (map (\<lambda>i. mem_max (Some (\<lambda>s. 0, \<lambda>s. 3)) 0 + 1 + int i) [0..<length [5::int, 7]]) \<and>
    unused al' = {..<length [5::int, 7]}"
  by (rule get_one_init) (simp_all add: mem_max_def LLAMA_MAX_SEQ_def)

text \<open>
  C22: From an accepted batch, splitting with \<open>split_simple\<close> until nothing is left terminates; the
  ubatches are the batch cut into consecutive blocks, in batch order, of at most \<open>n_ubatch\<close> tokens
  (one, if \<open>n_ubatch\<close> is 0), each with its tokens' positions, sequences and output flags, and
  \<open>out_ids\<close> lists the output tokens in batch order.
\<close>

theorem simple_partition:
  assumes "has_seqs b"
    and "allocr_init al b n_vocab mem n_embd n_seq_max output_all = Some (Inr al0)"
  shows "\<exists>idxss ubs al'. split_all (split_simple n_ubatch) al0 [] = Some (ubs, al') \<and>
    list_all2 (splits_into al0) idxss ubs \<and> concat idxss = [0..<bt_n_tokens b] \<and>
    (\<forall>idxs \<in> set idxss. idxs \<noteq> [] \<and> length idxs \<le> max 1 n_ubatch) \<and>
    al_n_used al' = bt_n_tokens b \<and> al_out_ids al' = output_ids al0 [0..<bt_n_tokens b]"
proof -
  note al0 = allocr_init_Inr(1) [OF assms(2)]
  note ready = init_ready [OF assms(1), of al mem n_embd n_seq_max output_all, folded al0]
  have "al_tokens al0 = bt_n_tokens b" by (simp add: al_tokens_def ready(5))
  then show ?thesis
    using simple_drain [OF ready(3), of 0 n_ubatch "[]"] ready(2,4) by (auto simp: lessThan_atLeast0)
qed

theorem simple_partition_witness:
  "\<exists>al0. allocr_init (allocr_new 1) (llama_batch_get_one [5, 7]) 8 None 0 1 False = Some (Inr al0) \<and>
   (\<exists>idxss ubs al'. split_all (split_simple 1) al0 [] = Some (ubs, al') \<and>
    list_all2 (splits_into al0) idxss ubs \<and> concat idxss = [0..<bt_n_tokens (llama_batch_get_one [5, 7])] \<and>
    (\<forall>idxs \<in> set idxss. idxs \<noteq> [] \<and> length idxs \<le> max 1 1) \<and>
    al_n_used al' = bt_n_tokens (llama_batch_get_one [5, 7]) \<and>
    al_out_ids al' = output_ids al0 [0..<bt_n_tokens (llama_batch_get_one [5, 7])])"
proof -
  obtain al0 where al0: "allocr_init (allocr_new 1) (llama_batch_get_one [5, 7]) 8 None 0 1 False = Some (Inr al0)"
    using allocr_init_iff [of "llama_batch_get_one [5, 7]" "allocr_new 1" 8 None 0 1 False]
      get_one_accepted [of "[5, 7]" 8 1 None "al_n_pos_per_embd (allocr_new 1)"]
    by (auto simp: mem_max_def LLAMA_MAX_SEQ_def)
  have "has_seqs (llama_batch_get_one [5, 7])" by (simp add: has_seqs_def)
  from simple_partition [OF this al0, of 1] al0 show ?thesis by blast
qed


text \<open>
  C5: \<open>split_equal\<close> on a well-formed allocator never fails an assertion when \<open>n_keep_tail < n_ubatch\<close>
  or no tail is asked for: it takes unused tokens, the same number from each of several disjoint
  sequence sets, as a run of the set's next unused tokens, leaves every such set either finished or
  with at least \<open>n_keep_tail\<close> tokens, and keeps \<open>used\<close> and \<open>n_used\<close> consistent. At most
  \<open>n_ubatch + 1\<close> tokens are taken.
\<close>

theorem split_equal_shape:
  assumes "equal_ok sequential al" "unused al \<noteq> {}" "n_keep_tail = 0 \<or> n_keep_tail < n_ubatch"
  shows "\<exists>ls ub. split_equal n_ubatch sequential n_keep_tail al =
      Some (ub, (marked (set (chosen ls)) al)\<lparr>al_out_ids := al_out_ids al @ output_ids al (chosen ls)\<rparr>) \<and>
    splits_into al (chosen ls) ub \<and> ub_n_seqs ub = length ls \<and>
    ls \<noteq> [] \<and> distinct (chosen ls) \<and> set (chosen ls) \<subseteq> unused al \<and>
    distinct (concat (map ln_all ls)) \<and> lanes_apart al ls \<and>
    (\<forall>l \<in> set ls. lane_ok al l \<and> length (ln_idxs l) = ub_n_seq_tokens ub \<and> ln_idxs l \<noteq> [] \<and>
      tail_kept n_keep_tail l) \<and>
    ub_n_tokens ub = ub_n_seq_tokens ub * ub_n_seqs ub \<and> ub_n_tokens ub \<le> Suc n_ubatch"
proof -
  from split_equal_choice [OF assms] obtain ls where ls:
    "split_equal n_ubatch sequential n_keep_tail al =
      ubatch_add (chosen ls) (length ls) True (marked (set (chosen ls)) al)"
    "split_choice al (chosen ls) (length ls)" "lanes_ok al ls" "length (chosen ls) \<le> Suc n_ubatch"
    "\<forall>l \<in> set ls. length (ln_idxs l) = length (chosen ls) div length ls \<and> tail_kept n_keep_tail l"
    "lanes_apart al ls"
    by blast
  have pre: "length ls > 0" "length (chosen ls) mod length ls = 0" using ls(2) by (simp_all add: split_choice_def)
  obtain ub where ub: "ubatch_add (chosen ls) (length ls) True (marked (set (chosen ls)) al) =
      Some (ub, (marked (set (chosen ls)) al)\<lparr>al_out_ids := al_out_ids (marked (set (chosen ls)) al) @
        output_ids (marked (set (chosen ls)) al) (chosen ls)\<rparr>)"
    "splits_into (marked (set (chosen ls)) al) (chosen ls) ub" "ub_n_seqs ub = length ls"
    "ub_n_seq_tokens ub = length (chosen ls) div length ls"
    using ubatch_add_choice [OF pre, of True "marked (set (chosen ls)) al"] by (elim exE conjE) (rule that)
  have n: "ub_n_tokens ub = length (chosen ls)" using ub(2) by (simp add: splits_into_def)
  have len: "length (chosen ls) = (length (chosen ls) div length ls) * length ls" "ls \<noteq> []"
    using ls(2) by (auto simp: split_choice_def)
  have "length (chosen ls) > 0" using ls(2) by (simp add: split_choice_def)
  then have "ln_idxs l \<noteq> []" if "l \<in> set ls" for l
    using ls(5) that len by (metis length_greater_0_conv mult_is_0 not_gr0)
  moreover have "splits_into al (chosen ls) ub"
    using ub(2) by (simp add: splits_into_def)
  ultimately show ?thesis
    using ls ub(1,3,4) n len unfolding lanes_ok_def split_choice_def
    by (intro exI [of _ ls] exI [of _ ub]) (simp add: output_ids_def)
qed

text \<open>Three sequences with one token each: the accepted batch the examples run on.\<close>

definition three_seqs :: llama_batch where
  "three_seqs = batch_none\<lparr>bt_n_tokens := 3, bt_token := Some [4, 5, 6], bt_pos := Some [0, 0, 0],
     bt_n_seq_id := Some [1, 1, 1], bt_seq_id := Some [[0], [1], [2]], bt_logits := Some [True, True, True]\<rparr>"

definition three_al :: batch_allocr where
  "three_al = split_reset (allocr_fill (allocr_clear (allocr_new 1)) three_seqs None 0 3 True)"

lemma three_filled: "filled three_seqs None True = three_seqs"
  by (simp add: filled_def fill_logits_def fill_pos_def fill_seq_id_def fill_n_seq_id_def three_seqs_def
      batch_none_def upt_rec)

lemma three_ok: "al_ok three_al" "unused three_al = {..<3}" "\<not> al_has_cpl three_al" "al_batch three_al = three_seqs"
proof -
  have seqs: "has_seqs three_seqs" by (simp add: has_seqs_def three_seqs_def less_Suc_eq numeral_3_eq_3)
  have n: "bt_n_tokens three_seqs = 3" by (simp add: three_seqs_def)
  note ready = init_ready [OF seqs, of "allocr_new 1" None 0 3 True, folded three_al_def]
  show "al_ok three_al" "unused three_al = {..<3}" "al_batch three_al = three_seqs"
    using ready n by (simp_all add: three_filled)
  show "\<not> al_has_cpl three_al" by code_simp
qed

theorem split_equal_shape_witness:
  "\<exists>ls ub. split_equal 4 True 1 three_al =
      Some (ub, (marked (set (chosen ls)) three_al)\<lparr>al_out_ids := al_out_ids three_al @ output_ids three_al (chosen ls)\<rparr>) \<and>
    splits_into three_al (chosen ls) ub \<and> ub_n_seqs ub = length ls \<and>
    ls \<noteq> [] \<and> distinct (chosen ls) \<and> set (chosen ls) \<subseteq> unused three_al \<and>
    distinct (concat (map ln_all ls)) \<and> lanes_apart three_al ls \<and>
    (\<forall>l \<in> set ls. lane_ok three_al l \<and> length (ln_idxs l) = ub_n_seq_tokens ub \<and> ln_idxs l \<noteq> [] \<and>
      tail_kept 1 l) \<and>
    ub_n_tokens ub = ub_n_seq_tokens ub * ub_n_seqs ub \<and> ub_n_tokens ub \<le> Suc 4"
proof (rule split_equal_shape)
  have "(0::nat) \<in> {..<3}" by simp
  then show "unused three_al \<noteq> {}" unfolding three_ok(2) by blast
qed (simp_all add: equal_ok_def three_ok)

text \<open>
  C23: The drain with \<open>split_equal\<close>: when \<open>sequential\<close> it is refused for coupled sequences; otherwise
  splitting until nothing is left terminates for every \<open>n_ubatch\<close> and admissible tail, and every
  unused token of a well-formed allocator goes into exactly one ubatch.
\<close>

theorem equal_partition:
  assumes "equal_ok sequential al" "n_keep_tail = 0 \<or> n_keep_tail < n_ubatch"
  shows "\<exists>idxss ubs al'. split_all (split_equal n_ubatch sequential n_keep_tail) al [] = Some (ubs, al') \<and>
    list_all2 (splits_into al) idxss ubs \<and> distinct (concat idxss) \<and>
    set (concat idxss) = unused al \<and> [] \<notin> set idxss \<and> unused al' = {} \<and>
    al_n_used al' = al_tokens al \<and> al_out_ids al' = al_out_ids al @ output_ids al (concat idxss)"
proof -
  have "tail_arg n_ubatch n_keep_tail = n_keep_tail" using assms(2) by (auto simp: tail_arg_def)
  then show ?thesis
    using equal.split_all_total [OF assms(1), of n_ubatch n_keep_tail "[]"] by auto
qed

theorem equal_partition_witness:
  "\<exists>idxss ubs al'. split_all (split_equal 4 True 1) three_al [] = Some (ubs, al') \<and>
    list_all2 (splits_into three_al) idxss ubs \<and> distinct (concat idxss) \<and>
    set (concat idxss) = unused three_al \<and> [] \<notin> set idxss \<and> unused al' = {} \<and>
    al_n_used al' = al_tokens three_al \<and>
    al_out_ids al' = al_out_ids three_al @ output_ids three_al (concat idxss)"
  by (rule equal_partition) (simp_all add: equal_ok_def three_ok)

text \<open>
  C24: The drain with \<open>split_seq\<close> terminates with every unused token in exactly one ubatch, and each
  single split takes tokens in batch order, starting from the first unused one, each token's
  sequence set contained in the previous token's, at most \<open>max 1 n_ubatch\<close> of them.
\<close>

theorem seq_partition:
  assumes "al_ok al"
  shows "(\<exists>idxss ubs al'. split_all (split_seq n_ubatch) al [] = Some (ubs, al') \<and>
    list_all2 (splits_into al) idxss ubs \<and> distinct (concat idxss) \<and> set (concat idxss) = unused al \<and>
    al_n_used al' = al_tokens al \<and> al_out_ids al' = al_out_ids al @ output_ids al (concat idxss)) \<and>
    (unused al \<noteq> {} \<longrightarrow> (\<exists>idxs. split_seq_idxs n_ubatch al = Some (idxs, marked (set idxs) al) \<and>
      sorted_wrt (<) idxs \<and> sorted_wrt (\<lambda>i j. al_seq_set al ! j \<subseteq> al_seq_set al ! i) idxs \<and>
      hd idxs = first_unused (al_used al) \<and> idxs \<noteq> [] \<and> length idxs \<le> max 1 n_ubatch))"
proof (intro conjI impI)
  show "\<exists>idxss ubs al'. split_all (split_seq n_ubatch) al [] = Some (ubs, al') \<and>
    list_all2 (splits_into al) idxss ubs \<and> distinct (concat idxss) \<and> set (concat idxss) = unused al \<and>
    al_n_used al' = al_tokens al \<and> al_out_ids al' = al_out_ids al @ output_ids al (concat idxss)"
    using seq.split_all_total [OF assms, of n_ubatch "[]"] by auto
  assume "unused al \<noteq> {}"
  from split_seq_idxs_eq [OF assms this, of n_ubatch]
  show "\<exists>idxs. split_seq_idxs n_ubatch al = Some (idxs, marked (set idxs) al) \<and>
      sorted_wrt (<) idxs \<and> sorted_wrt (\<lambda>i j. al_seq_set al ! j \<subseteq> al_seq_set al ! i) idxs \<and>
      hd idxs = first_unused (al_used al) \<and> idxs \<noteq> [] \<and> length idxs \<le> max 1 n_ubatch"
    unfolding seq_chain_def by blast
qed

theorem seq_partition_witness:
  "(\<exists>idxss ubs al'. split_all (split_seq 2) three_al [] = Some (ubs, al') \<and>
    list_all2 (splits_into three_al) idxss ubs \<and> distinct (concat idxss) \<and> set (concat idxss) = unused three_al \<and>
    al_n_used al' = al_tokens three_al \<and> al_out_ids al' = al_out_ids three_al @ output_ids three_al (concat idxss)) \<and>
   (\<exists>idxs. split_seq_idxs 2 three_al = Some (idxs, marked (set idxs) three_al) \<and>
      sorted_wrt (<) idxs \<and> sorted_wrt (\<lambda>i j. al_seq_set three_al ! j \<subseteq> al_seq_set three_al ! i) idxs \<and>
      hd idxs = first_unused (al_used three_al) \<and> idxs \<noteq> [] \<and> length idxs \<le> max 1 2)"
proof -
  have "0 \<in> unused three_al" by (simp add: three_ok)
  then have "unused three_al \<noteq> {}" by blast
  then show ?thesis using seq_partition [OF three_ok(1), of 2] by blast
qed

text \<open>
  C31: The bound \<open>n_ubatch\<close> itself does not hold: the test that stops collecting sequence sets comes
  after a set has been added and asks for more than \<open>n_ubatch\<close> of them, so an accepted batch of
  three one-token sequences split with \<open>n_ubatch = 2\<close> gives a ubatch of three tokens.
\<close>

theorem split_equal_exceeds_n_ubatch:
  "allocr_init (allocr_new 1) three_seqs 10 None 0 3 True = Some (Inr three_al) \<and>
   (\<exists>ub al'. split_equal 2 False 0 three_al = Some (ub, al') \<and> ub_n_tokens ub = 3)"
proof -
  have "case allocr_init (allocr_new 1) three_seqs 10 None 0 3 True of Some (Inr _) \<Rightarrow> True | _ \<Rightarrow> False"
    by code_simp
  then have "allocr_init (allocr_new 1) three_seqs 10 None 0 3 True = Some (Inr three_al)"
    using allocr_init_Inr(1) [of "allocr_new 1" three_seqs 10 None 0 3 True]
    by (auto simp: three_al_def split: option.splits sum.splits)
  moreover have "case split_equal 2 False 0 three_al of Some (ub, _) \<Rightarrow> ub_n_tokens ub = 3 | None \<Rightarrow> False"
    by code_simp
  ultimately show ?thesis by (auto split: option.splits)
qed

end
