(* ===== verification/KvCache.thy ===== *)
theory KvCache
  imports Memory KvCells Batch
begin

section \<open>The KV cache (\<open>src/llama-kv-cache.h\<close>, \<open>src/llama-kv-cache.cpp\<close>)\<close>

text \<open>
  \<open>llama_kv_cache\<close> maps sequences to streams, keeps the cells and the search head of every
  stream, places ubatches into cells and translates the sequence operations of the memory
  interface into cell operations. The model has the metadata of the class: the tensors are not
  part of it. A method is a function of the cache that returns \<open>None\<close> where an assertion
  fails or an index is out of range.
\<close>

subsection \<open>Data\<close>

datatype swa_type = Swa_none | Swa_standard | Swa_chunked | Swa_symmetric

record slot_info =
  si_s0 :: nat
  si_s1 :: nat
  si_strm :: "nat list"
  si_idxs :: "nat list list"

definition si_none :: slot_info where
  "si_none = \<lparr>si_s0 = 0, si_s1 = 0, si_strm = [], si_idxs = []\<rparr>"

definition si_head :: "slot_info \<Rightarrow> nat option" where
  "si_head si = do {
     assrt (length (si_idxs si) = 1);
     assrt (si_idxs si ! 0 \<noteq> []);
     Some (si_idxs si ! 0 ! 0) }"

definition si_resize :: "nat \<Rightarrow> slot_info \<Rightarrow> slot_info" where
  "si_resize n si = si\<lparr>si_strm := vec_resize n 0 (si_strm si), si_idxs := vec_resize n [] (si_idxs si)\<rparr>"

definition si_size :: "slot_info \<Rightarrow> nat option" where
  "si_size si = do {
     assrt (length (si_idxs si) = length (si_strm si));
     assrt (si_idxs si \<noteq> []);
     Some (length (si_idxs si ! 0)) }"

definition si_n_stream :: "slot_info \<Rightarrow> nat" where
  "si_n_stream si = length (si_strm si)"

definition si_empty :: "slot_info \<Rightarrow> bool" where
  "si_empty si \<longleftrightarrow> si_idxs si = []"

definition si_clear :: "slot_info \<Rightarrow> slot_info" where
  "si_clear si = si\<lparr>si_idxs := []\<rparr>"

definition si_is_contiguous :: "slot_info \<Rightarrow> bool" where
  "si_is_contiguous si =
     (if si_idxs si = [] \<or> si_idxs si ! 0 = [] then True
      else if length (si_idxs si) > 1 then False
      else let h = si_idxs si ! 0 ! 0 in
        \<forall>i \<in> set [0..<length (si_idxs si ! 0)]. si_idxs si ! 0 ! i = h + i)"

record stream_copy_info =
  sc_ssrc :: "nat list"
  sc_sdst :: "nat list"

definition sc_empty :: "stream_copy_info \<Rightarrow> bool option" where
  "sc_empty sc = do { assrt (length (sc_ssrc sc) = length (sc_sdst sc)); Some (sc_ssrc sc = []) }"

text \<open>
  \<open>kv_other\<close> is the cache whose cells this one shares, represented by that cache's
  \<open>seq_to_stream\<close>; the cells themselves are the shared vector.
\<close>

record kv_cache =
  kv_n_seq_max :: nat
  kv_n_stream :: nat
  kv_n_pad :: nat
  kv_n_swa :: nat
  kv_swa_type :: swa_type
  kv_n_pos :: nat
  kv_other :: "nat list option"
  kv_cells :: "kv_cells list"
  kv_heads :: "nat list"
  kv_seq_to_stream :: "nat list"
  kv_sc_info :: stream_copy_info

definition is_masked_swa :: "nat \<Rightarrow> swa_type \<Rightarrow> llama_pos \<Rightarrow> llama_pos \<Rightarrow> bool option" where
  "is_masked_swa n_swa t p0 p1 = do {
     assrt (p0 \<ge> 0 \<and> p1 \<ge> 0);
     (case t of
        Swa_none \<Rightarrow> Some False
      | Swa_standard \<Rightarrow> Some (p1 - p0 \<ge> int n_swa)
      | Swa_chunked \<Rightarrow> do {
          assrt (n_swa \<noteq> 0);
          let pos_chunk_start = (p1 div int n_swa) * int n_swa;
          Some (p0 < pos_chunk_start) }
      | Swa_symmetric \<Rightarrow>
          (let half_n_swa = int n_swa div 2; pos_diff = p1 - p0
           in Some (pos_diff < - half_n_swa \<or> pos_diff > half_n_swa))) }"

subsection \<open>Construction and access\<close>

definition kv_stream_of :: "kv_cache \<Rightarrow> llama_seq_id \<Rightarrow> nat option" where
  "kv_stream_of kv s = do {
     assrt (s \<ge> 0 \<and> s < int (length (kv_seq_to_stream kv)));
     Some (kv_seq_to_stream kv ! nat s) }"

definition kv_get_size :: "kv_cache \<Rightarrow> nat option" where
  "kv_get_size kv = do {
     s \<leftarrow> at_idx (kv_seq_to_stream kv) 0;
     c \<leftarrow> at_idx (kv_cells kv) s;
     Some (cells_size c) }"

definition kv_new :: "bool \<Rightarrow> nat \<Rightarrow> nat \<Rightarrow> nat \<Rightarrow> nat \<Rightarrow> swa_type \<Rightarrow> nat \<Rightarrow> kv_cache option \<Rightarrow> kv_cache option" where
  "kv_new unified kv_size n_seq_max n_pad n_swa swa n_pos other = do {
     kv_size \<leftarrow> (case other of None \<Rightarrow> Some kv_size | Some o' \<Rightarrow> kv_get_size o');
     assrt (n_pad > 0 \<and> kv_size mod n_pad = 0);
     let n_stream = (if unified then 1 else n_seq_max);
     assrt (n_stream = 1 \<or> n_stream = n_seq_max);
     let shared = (case other of None \<Rightarrow> [] | Some o' \<Rightarrow> kv_cells o');
     let cells = map (cells_resize kv_size) (vec_resize n_stream cells_default shared);
     let s2s = replicate (nat LLAMA_MAX_SEQ) 0;
     let s2s = (if n_stream > 1 then [0..<n_stream] else s2s);
     Some \<lparr>kv_n_seq_max = n_seq_max, kv_n_stream = n_stream, kv_n_pad = n_pad, kv_n_swa = n_swa,
           kv_swa_type = swa, kv_n_pos = n_pos, kv_other = map_option kv_seq_to_stream other,
           kv_cells = cells, kv_heads = replicate n_stream 0, kv_seq_to_stream = s2s,
           kv_sc_info = \<lparr>sc_ssrc = [], sc_sdst = []\<rparr>\<rparr> }"

text \<open>The cells and the head of a stream, read and written together.\<close>

definition kv_put :: "nat \<Rightarrow> kv_cells \<Rightarrow> nat \<Rightarrow> kv_cache \<Rightarrow> kv_cache" where
  "kv_put t c h kv = kv\<lparr>kv_cells := (kv_cells kv)[t := c], kv_heads := (kv_heads kv)[t := h]\<rparr>"

subsection \<open>Sequence operations\<close>

definition kv_clear :: "kv_cache \<Rightarrow> kv_cache" where
  "kv_clear kv = kv\<lparr>
     kv_cells := map cells_reset (take (kv_n_stream kv) (kv_cells kv)) @ drop (kv_n_stream kv) (kv_cells kv),
     kv_heads := replicate (kv_n_stream kv) 0 @ drop (kv_n_stream kv) (kv_heads kv)\<rparr>"

text \<open>Every loop over the cells remembers the first cell it freed; \<open>cells.size()\<close> means none.\<close>

definition note_freed :: "bool \<Rightarrow> nat \<Rightarrow> nat \<times> kv_cells \<Rightarrow> nat \<times> kv_cells" where
  "note_freed freed i st = (case st of (new_head, c) \<Rightarrow>
     (if freed \<and> new_head = cells_size c then i else new_head, c))"

definition rm_cell :: "llama_seq_id \<Rightarrow> llama_pos \<Rightarrow> llama_pos \<Rightarrow> nat \<Rightarrow> nat \<times> kv_cells \<Rightarrow> (nat \<times> kv_cells) option" where
  "rm_cell s p0 p1 i st = (case st of (new_head, c) \<Rightarrow> do {
     b \<leftarrow> cells_pos_in i p0 p1 c;
     if \<not> b then Some (new_head, c) else do {
       h \<leftarrow> cells_seq_has i s c;
       if h then do {
         (freed, c) \<leftarrow> cells_seq_rm i s c;
         Some (note_freed freed i (new_head, c)) }
       else Some (new_head, c) } })"

definition rm_any_cell :: "llama_pos \<Rightarrow> llama_pos \<Rightarrow> nat \<Rightarrow> nat \<times> kv_cells \<Rightarrow> (nat \<times> kv_cells) option" where
  "rm_any_cell p0 p1 i st = (case st of (new_head, c) \<Rightarrow> do {
     b \<leftarrow> cells_pos_in i p0 p1 c;
     if \<not> b then Some (new_head, c) else do {
       c \<leftarrow> cells_rm i c;
       Some (note_freed True i (new_head, c)) } })"

text \<open>\<open>for (i = 0; i < cells.size(); ++i)\<close> from \<open>new_head = cells.size()\<close>.\<close>

definition over_cells :: "(nat \<Rightarrow> nat \<times> kv_cells \<Rightarrow> (nat \<times> kv_cells) option) \<Rightarrow> kv_cells \<Rightarrow> (nat \<times> kv_cells) option" where
  "over_cells f c = ofold f [0..<cells_size c] (cells_size c, c)"

definition lower_head :: "nat \<Rightarrow> kv_cells \<Rightarrow> nat \<Rightarrow> nat" where
  "lower_head new_head c head = (if new_head \<noteq> cells_size c \<and> new_head < head then new_head else head)"

definition kv_seq_rm :: "llama_seq_id \<Rightarrow> llama_pos \<Rightarrow> llama_pos \<Rightarrow> kv_cache \<Rightarrow> (bool \<times> kv_cache) option" where
  "kv_seq_rm s p0 p1 kv =
     (if kv_other kv \<noteq> None then Some (True, kv) else do {
        assrt (s = -1 \<or> (s \<ge> 0 \<and> s < int (length (kv_seq_to_stream kv))));
        let p0 = norm_p0 p0; let p1 = norm_p1 p1;
        if s \<ge> 0 then do {
          t \<leftarrow> kv_stream_of kv s;
          c \<leftarrow> at_idx (kv_cells kv) t;
          head \<leftarrow> at_idx (kv_heads kv) t;
          (new_head, c) \<leftarrow> over_cells (rm_cell s p0 p1) c;
          Some (True, kv_put t c (lower_head new_head c head) kv) }
        else do {
          kv \<leftarrow> ofold (\<lambda>t kv. do {
            c \<leftarrow> at_idx (kv_cells kv) t;
            head \<leftarrow> at_idx (kv_heads kv) t;
            (new_head, c) \<leftarrow> over_cells (rm_any_cell p0 p1) c;
            Some (kv_put t c (lower_head new_head c head) kv) }) [0..<kv_n_stream kv] kv;
          Some (True, kv) } })"

definition cp_cell :: "llama_seq_id \<Rightarrow> llama_seq_id \<Rightarrow> llama_pos \<Rightarrow> llama_pos \<Rightarrow> nat \<Rightarrow> kv_cells \<Rightarrow> kv_cells option" where
  "cp_cell src dst p0 p1 i c = do {
     b \<leftarrow> cells_pos_in i p0 p1 c;
     if \<not> b then Some c else do {
       h \<leftarrow> cells_seq_has i src c;
       if h then cells_seq_add i dst c else Some c } }"

text \<open>The cell-by-cell copy between streams.\<close>

definition cp_stream_cell :: "kv_cells \<Rightarrow> llama_seq_id \<Rightarrow> llama_seq_id \<Rightarrow> nat \<Rightarrow> kv_cells \<Rightarrow> kv_cells option" where
  "cp_stream_cell c0 src dst i c1 = do {
     h \<leftarrow> cells_seq_has i src c0;
     if h then do {
       pos \<leftarrow> cells_pos_get i c0;
       shift \<leftarrow> cells_get_shift i c0;
       ex \<leftarrow> cells_ext_get i c0;
       pos \<leftarrow> (if shift \<noteq> 0 then do { assrt (pos - shift \<ge> 0); Some (pos - shift) } else Some pos);
       c1 \<leftarrow> cells_pos_set i pos c1;
       c1 \<leftarrow> cells_seq_add i dst c1;
       c1 \<leftarrow> (if shift \<noteq> 0 then map_option snd (cells_pos_add i shift c1) else Some c1);
       cells_ext_set i ex c1 }
     else Some c1 }"

definition kv_seq_cp :: "llama_seq_id \<Rightarrow> llama_seq_id \<Rightarrow> llama_pos \<Rightarrow> llama_pos \<Rightarrow> kv_cache \<Rightarrow> kv_cache option" where
  "kv_seq_cp src dst p0 p1 kv =
     (if kv_other kv \<noteq> None then Some kv else do {
        s0 \<leftarrow> kv_stream_of kv src;
        s1 \<leftarrow> kv_stream_of kv dst;
        c0 \<leftarrow> at_idx (kv_cells kv) s0;
        c1 \<leftarrow> at_idx (kv_cells kv) s1;
        if s0 = s1 then
          (if src = dst then Some kv else do {
             c \<leftarrow> ofold (cp_cell src dst (norm_p0 p0) (norm_p1 p1)) [0..<cells_size c0] c0;
             Some (kv\<lparr>kv_cells := (kv_cells kv)[s0 := c]\<rparr>) })
        else do {
          size \<leftarrow> kv_get_size kv;
          let is_full = \<not> (p0 > 0 \<and> p0 + 1 < int size) \<and> \<not> (p1 > 0 \<and> p1 + 1 < int size);
          assrt is_full;
          let sc = kv_sc_info kv;
          let kv = kv\<lparr>kv_sc_info := \<lparr>sc_ssrc = sc_ssrc sc @ [s0], sc_sdst = sc_sdst sc @ [s1]\<rparr>\<rparr>;
          c1 \<leftarrow> ofold (cp_stream_cell c0 src dst) [0..<cells_size c0] (cells_reset c1);
          head \<leftarrow> at_idx (kv_heads kv) s0;
          Some (kv_put s1 c1 head kv) } })"

definition keep_cell :: "llama_seq_id \<Rightarrow> nat \<Rightarrow> nat \<times> kv_cells \<Rightarrow> (nat \<times> kv_cells) option" where
  "keep_cell s i st = (case st of (new_head, c) \<Rightarrow> do {
     (freed, c) \<leftarrow> cells_seq_keep i s c;
     Some (note_freed freed i (new_head, c)) })"

definition kv_seq_keep :: "llama_seq_id \<Rightarrow> kv_cache \<Rightarrow> kv_cache option" where
  "kv_seq_keep s kv =
     (if kv_other kv \<noteq> None then Some kv else do {
        t \<leftarrow> kv_stream_of kv s;
        c \<leftarrow> at_idx (kv_cells kv) t;
        head \<leftarrow> at_idx (kv_heads kv) t;
        (new_head, c) \<leftarrow> over_cells (keep_cell s) c;
        Some (kv_put t c (lower_head new_head c head) kv) })"

definition add_cell :: "llama_seq_id \<Rightarrow> llama_pos \<Rightarrow> llama_pos \<Rightarrow> llama_pos \<Rightarrow> nat \<Rightarrow> nat \<times> kv_cells \<Rightarrow>
    (nat \<times> kv_cells) option" where
  "add_cell s p0 p1 shift i st = (case st of (new_head, c) \<Rightarrow> do {
     b \<leftarrow> cells_pos_in i p0 p1 c;
     if \<not> b then Some (new_head, c) else do {
       h \<leftarrow> cells_seq_has i s c;
       if h then do {
         (freed, c) \<leftarrow> cells_pos_add i shift c;
         Some (note_freed freed i (new_head, c)) }
       else Some (new_head, c) } })"

definition kv_seq_add :: "llama_seq_id \<Rightarrow> llama_pos \<Rightarrow> llama_pos \<Rightarrow> llama_pos \<Rightarrow> kv_cache \<Rightarrow> kv_cache option" where
  "kv_seq_add s p0 p1 shift kv =
     (if kv_other kv \<noteq> None then Some kv else do {
        t \<leftarrow> kv_stream_of kv s;
        assrt (kv_n_pos kv = 1);
        c \<leftarrow> at_idx (kv_cells kv) t;
        head \<leftarrow> at_idx (kv_heads kv) t;
        if shift = 0 then Some kv
        else if norm_p0 p0 = norm_p1 p1 then Some kv
        else do {
          (new_head, c) \<leftarrow> over_cells (add_cell s (norm_p0 p0) (norm_p1 p1) shift) c;
          Some (kv_put t c (if new_head \<noteq> cells_size c then new_head else 0) kv) } })"

definition div_cell :: "llama_seq_id \<Rightarrow> llama_pos \<Rightarrow> llama_pos \<Rightarrow> int \<Rightarrow> nat \<Rightarrow> kv_cells \<Rightarrow> kv_cells option" where
  "div_cell s p0 p1 d i c = do {
     b \<leftarrow> cells_pos_in i p0 p1 c;
     if \<not> b then Some c else do {
       h \<leftarrow> cells_seq_has i s c;
       if h then cells_pos_div i d c else Some c } }"

definition kv_seq_div :: "llama_seq_id \<Rightarrow> llama_pos \<Rightarrow> llama_pos \<Rightarrow> int \<Rightarrow> kv_cache \<Rightarrow> kv_cache option" where
  "kv_seq_div s p0 p1 d kv =
     (if kv_other kv \<noteq> None then Some kv else do {
        t \<leftarrow> kv_stream_of kv s;
        assrt (kv_n_pos kv = 1);
        c \<leftarrow> at_idx (kv_cells kv) t;
        if d = 1 then Some kv
        else if norm_p0 p0 = norm_p1 p1 then Some kv
        else do {
          c \<leftarrow> ofold (div_cell s (norm_p0 p0) (norm_p1 p1) d) [0..<cells_size c] c;
          Some (kv\<lparr>kv_cells := (kv_cells kv)[t := c]\<rparr>) } })"

text \<open>A cache that shares cells asks the other one, that is: uses the other one's streams.\<close>

definition kv_query_stream :: "kv_cache \<Rightarrow> llama_seq_id \<Rightarrow> nat option" where
  "kv_query_stream kv s = (case kv_other kv of
     Some s2s \<Rightarrow> do { assrt (s \<ge> 0 \<and> s < int (length s2s)); Some (s2s ! nat s) }
   | None \<Rightarrow> kv_stream_of kv s)"

definition kv_seq_pos_min :: "llama_seq_id \<Rightarrow> kv_cache \<Rightarrow> llama_pos option" where
  "kv_seq_pos_min s kv = do {
     t \<leftarrow> kv_query_stream kv s;
     c \<leftarrow> at_idx (kv_cells kv) t;
     cells_seq_pos_min s c }"

definition kv_seq_pos_max :: "llama_seq_id \<Rightarrow> kv_cache \<Rightarrow> llama_pos option" where
  "kv_seq_pos_max s kv = do {
     t \<leftarrow> kv_query_stream kv s;
     c \<leftarrow> at_idx (kv_cells kv) t;
     cells_seq_pos_max s c }"

definition kv_get_has_shift :: "kv_cache \<Rightarrow> bool" where
  "kv_get_has_shift kv = fold (\<lambda>c r. r \<or> cells_get_has_shift c) (take (kv_n_stream kv) (kv_cells kv)) False"


subsection \<open>Finding a slot\<close>

definition cell_usable :: "nat \<Rightarrow> swa_type \<Rightarrow> kv_cells \<Rightarrow> nat \<Rightarrow> bool option" where
  "cell_usable n_swa swa c idx = do {
     e \<leftarrow> cells_is_empty idx c;
     if e then Some True else do {
       n \<leftarrow> cells_seq_count idx c;
       if n = 1 then do {
         pos_cell \<leftarrow> cells_pos_get idx c;
         s \<leftarrow> cells_seq_get idx c;
         mx \<leftarrow> cells_seq_pos_max s c;
         is_masked_swa n_swa swa pos_cell (mx + 1) }
       else Some False } }"

text \<open>
  The inner loop: test \<open>n_test\<close> cells from \<open>head_cur\<close>. The state is \<open>(head_cur, n_tested, idxs)\<close>.
\<close>

fun test_cells :: "(nat \<Rightarrow> bool option) \<Rightarrow> bool \<Rightarrow> nat \<Rightarrow> nat \<Rightarrow> nat \<Rightarrow> nat list \<Rightarrow> (nat \<times> nat \<times> nat list) option" where
  "test_cells use cont 0 head_cur n_tested idxs = Some (head_cur, n_tested, idxs)"
| "test_cells use cont (Suc n) head_cur n_tested idxs = do {
     u \<leftarrow> use head_cur;
     if u then test_cells use cont n (Suc head_cur) (Suc n_tested) (idxs @ [head_cur])
     else if cont then Some (Suc head_cur, Suc n_tested, idxs)
     else test_cells use cont n (Suc head_cur) (Suc n_tested) idxs }"

text \<open>The \<open>while (true)\<close> loop. \<open>Some None\<close> is the return without a slot.\<close>

partial_function (option) search_slot :: "(nat \<Rightarrow> bool option) \<Rightarrow> nat \<Rightarrow> bool \<Rightarrow> nat \<Rightarrow> nat \<Rightarrow> nat \<Rightarrow> nat list \<Rightarrow>
    nat list option option" where [code]:
  "search_slot use sz cont n_tokens head_cur n_tested idxs =
     (let n_test = (if cont then n_tokens else 1) in
      if head_cur + n_test > sz
      then search_slot use sz cont n_tokens 0 (n_tested + (sz - head_cur)) idxs
      else do {
        (head_cur, n_tested, idxs) \<leftarrow> test_cells use cont n_test head_cur n_tested idxs;
        if length idxs = n_tokens then Some (Some idxs)
        else
          let idxs = (if cont then [] else idxs) in
          if n_tested \<ge> sz then Some None
          else search_slot use sz cont n_tokens head_cur n_tested idxs })"

fun find_streams :: "kv_cache \<Rightarrow> llama_ubatch \<Rightarrow> bool \<Rightarrow> nat \<Rightarrow> nat list \<Rightarrow> slot_info \<Rightarrow> slot_info option" where
  "find_streams kv ub cont n_tokens [] res = Some res"
| "find_streams kv ub cont n_tokens (s # ss) res = do {
     seq_id \<leftarrow> at_idx (ub_seq_id_unq ub) s;
     assrt (kv_n_stream kv > 1 \<longrightarrow> ub_n_seq_id ub ! (s * n_tokens) = 1 \<and> ub_seq_id ub ! (s * n_tokens) ! 0 = seq_id);
     t \<leftarrow> kv_stream_of kv seq_id;
     c \<leftarrow> at_idx (kv_cells kv) t;
     head_cur \<leftarrow> at_idx (kv_heads kv) t;
     let res = res\<lparr>si_s0 := min (si_s0 res) t, si_s1 := max (si_s1 res) t, si_strm := (si_strm res)[s := t]\<rparr>;
     let head_cur = (if head_cur > cells_get_used c + 2 * n_tokens then 0 else head_cur);
     if n_tokens > cells_size c then Some si_none
     else do {
       r \<leftarrow> search_slot (cell_usable (kv_n_swa kv) (kv_swa_type kv) c) (cells_size c) cont n_tokens head_cur 0 [];
       (case r of
          None \<Rightarrow> Some si_none
        | Some idxs \<Rightarrow> find_streams kv ub cont n_tokens ss (res\<lparr>si_idxs := (si_idxs res)[s := idxs]\<rparr>)) } }"

definition find_slot :: "llama_ubatch \<Rightarrow> bool \<Rightarrow> kv_cache \<Rightarrow> slot_info option" where
  "find_slot ub cont kv = do {
     (n_tokens, n_seqs) \<leftarrow>
       (if kv_n_stream kv > 1 then do {
          assrt (ub_n_seqs_unq ub > 0 \<and> ub_n_tokens ub mod ub_n_seqs_unq ub = 0);
          Some (ub_n_tokens ub div ub_n_seqs_unq ub, ub_n_seqs_unq ub) }
        else Some (ub_n_tokens ub, 1));
     let res = si_resize n_seqs \<lparr>si_s0 = nat LLAMA_MAX_SEQ, si_s1 = 0, si_strm = [], si_idxs = []\<rparr>;
     res \<leftarrow> find_streams kv ub cont n_tokens [0..<n_seqs] res;
     assrt (si_empty res \<or> si_s1 res \<ge> si_s0 res);
     Some res }"

subsection \<open>Placing a ubatch\<close>

text \<open>
  One token: the cell is freed if need be, with the highest freed position of the sequence noted
  in \<open>rm\<close>, then filled.
\<close>

definition fill_cell :: "nat \<Rightarrow> llama_pos \<Rightarrow> kv_cell_ext option \<Rightarrow> llama_seq_id list \<Rightarrow>
    (llama_seq_id \<Rightarrow> llama_pos) \<times> kv_cells \<Rightarrow> ((llama_seq_id \<Rightarrow> llama_pos) \<times> kv_cells) option" where
  "fill_cell idx pos ex seqs st = (case st of (rm, c) \<Rightarrow> do {
     e \<leftarrow> cells_is_empty idx c;
     (rm, c) \<leftarrow> (if e then Some (rm, c) else do {
       n \<leftarrow> cells_seq_count idx c;
       assrt (n = 1);
       seq_id \<leftarrow> cells_seq_get idx c;
       pos \<leftarrow> cells_pos_get idx c;
       c \<leftarrow> cells_rm idx c;
       Some (rm(seq_id := max (rm seq_id) pos), c) });
     c \<leftarrow> cells_pos_set idx pos c;
     c \<leftarrow> (case ex of Some e \<Rightarrow> cells_ext_set idx e c | None \<Rightarrow> Some c);
     c \<leftarrow> ofold (cells_seq_add idx) seqs c;
     Some (rm, c) })"

definition tok_ext :: "llama_ubatch \<Rightarrow> nat \<Rightarrow> kv_cell_ext option" where
  "tok_ext ub i = (if is_pos_2d ub
     then Some \<lparr>ext_x = ub_pos ub ! (i + ub_n_tokens ub * 2), ext_y = ub_pos ub ! (i + ub_n_tokens ub)\<rparr>
     else None)"

definition ub_seqs :: "llama_ubatch \<Rightarrow> nat \<Rightarrow> llama_seq_id list" where
  "ub_seqs ub i = take (ub_n_seq_id ub ! i) (ub_seq_id ub ! i)"

definition place_token :: "slot_info \<Rightarrow> llama_ubatch \<Rightarrow> nat \<times> nat \<Rightarrow>
    (llama_seq_id \<Rightarrow> llama_pos) \<times> kv_cache \<Rightarrow> ((llama_seq_id \<Rightarrow> llama_pos) \<times> kv_cache) option" where
  "place_token si ub p st = (case (p, st) of ((s, ii), (rm, kv)) \<Rightarrow> do {
     n \<leftarrow> si_size si;
     let i = s * n + ii;
     t \<leftarrow> at_idx (si_strm si) s;
     c \<leftarrow> at_idx (kv_cells kv) t;
     idxs \<leftarrow> at_idx (si_idxs si) s;
     idx \<leftarrow> at_idx idxs ii;
     (rm, c) \<leftarrow> fill_cell idx (ub_pos ub ! i) (tok_ext ub i) (ub_seqs ub i) (rm, c);
     Some (rm, kv\<lparr>kv_cells := (kv_cells kv)[t := c]\<rparr>) })"

definition slot_pairs :: "nat \<Rightarrow> nat \<Rightarrow> (nat \<times> nat) list" where
  "slot_pairs n_stream n = concat (map (\<lambda>s. map (Pair s) [0..<n]) [0..<n_stream])"

definition purge_seq :: "(llama_seq_id \<Rightarrow> llama_pos) \<Rightarrow> llama_seq_id \<Rightarrow> kv_cache \<Rightarrow> kv_cache option" where
  "purge_seq rm s kv =
     (if rm s = -1 then Some kv else do {
        t \<leftarrow> kv_stream_of kv s;
        c \<leftarrow> at_idx (kv_cells kv) t;
        mn \<leftarrow> cells_seq_pos_min s c;
        if mn \<le> rm s then map_option snd (kv_seq_rm s mn (rm s + 1) kv) else Some kv })"

definition move_head :: "slot_info \<Rightarrow> nat \<Rightarrow> kv_cache \<Rightarrow> kv_cache option" where
  "move_head si s kv = do {
     t \<leftarrow> at_idx (si_strm si) s;
     idxs \<leftarrow> at_idx (si_idxs si) s;
     assrt (idxs \<noteq> []);
     assrt (t < length (kv_heads kv));
     Some (kv\<lparr>kv_heads := (kv_heads kv)[t := last idxs + 1]\<rparr>) }"

definition apply_ubatch :: "slot_info \<Rightarrow> llama_ubatch \<Rightarrow> kv_cache \<Rightarrow> kv_cache option" where
  "apply_ubatch si ub kv =
     (if kv_other kv \<noteq> None then Some kv else do {
        size \<leftarrow> si_size si;
        assrt (ub_n_tokens ub = si_n_stream si * size);
        (rm, kv) \<leftarrow> ofold (place_token si ub) (slot_pairs (si_n_stream si) size) (\<lambda>_. -1, kv);
        kv \<leftarrow> ofold (purge_seq rm) all_seqs kv;
        ofold (move_head si) [0..<si_n_stream si] kv })"

subsection \<open>Preparing a batch\<close>

record prep_state =
  ps_sinfo :: slot_info
  ps_heads_old :: "nat list"
  ps_cells :: "kv_cells list"

fun place_ubatches :: "llama_ubatch list \<Rightarrow> slot_info list \<Rightarrow> prep_state list \<Rightarrow> kv_cache \<Rightarrow>
    (bool \<times> slot_info list \<times> prep_state list \<times> kv_cache) option" where
  "place_ubatches [] res states kv = Some (True, res, states, kv)"
| "place_ubatches (ub # ubs) res states kv = do {
     si \<leftarrow> find_slot ub False kv;
     if si_empty si then Some (False, res, states, kv)
     else do {
       saved \<leftarrow> ofold (\<lambda>s acc. do {
           t \<leftarrow> at_idx (si_strm si) s;
           c \<leftarrow> at_idx (kv_cells kv) t;
           idxs \<leftarrow> at_idx (si_idxs si) s;
           d \<leftarrow> cells_cp_list idxs c;
           Some (acc @ [d]) }) [0..<si_n_stream si] [];
       let states = states @ [\<lparr>ps_sinfo = si, ps_heads_old = kv_heads kv, ps_cells = saved\<rparr>];
       kv' \<leftarrow> apply_ubatch si ub kv;
       place_ubatches ubs (res @ [si]) states kv' } }"

text \<open>
  The old head is looked up by the position \<open>s\<close> of the stream in the slot, as the code has it, not
  by the stream's number.
\<close>

definition restore_stream :: "prep_state \<Rightarrow> nat \<Rightarrow> kv_cache \<Rightarrow> kv_cache option" where
  "restore_stream st s kv = do {
     t \<leftarrow> at_idx (si_strm (ps_sinfo st)) s;
     c \<leftarrow> at_idx (kv_cells kv) t;
     idxs \<leftarrow> at_idx (si_idxs (ps_sinfo st)) s;
     d \<leftarrow> at_idx (ps_cells st) s;
     c \<leftarrow> cells_set_list idxs d c;
     h \<leftarrow> at_idx (ps_heads_old st) s;
     assrt (t < length (kv_heads kv));
     Some (kv_put t c h kv) }"

definition restore_state :: "prep_state \<Rightarrow> kv_cache \<Rightarrow> kv_cache option" where
  "restore_state st = ofold (restore_stream st) [0..<si_n_stream (ps_sinfo st)]"

definition prepare :: "llama_ubatch list \<Rightarrow> kv_cache \<Rightarrow> (slot_info list \<times> kv_cache) option" where
  "prepare ubs kv = do {
     (success, res, states, kv) \<leftarrow> place_ubatches ubs [] [] kv;
     assrt (states \<noteq> [] \<or> \<not> success);
     kv \<leftarrow> ofold restore_state (rev states) kv;
     Some (if success then res else [], kv) }"

text \<open>
  \<open>init_batch\<close>. The context it returns is \<open>None\<close> for \<open>FAILED_PREPARE\<close> and otherwise the slots
  with their ubatches.
\<close>

definition kv_init_batch :: "nat \<Rightarrow> batch_allocr \<Rightarrow> kv_cache \<Rightarrow>
    ((slot_info list \<times> llama_ubatch list) option \<times> batch_allocr \<times> kv_cache) option" where
  "kv_init_batch n_ubatch al kv = do {
     let al = split_reset al;
     (ubs, al) \<leftarrow> split_all (\<lambda>al. if kv_n_stream kv = 1 then split_simple n_ubatch al
                                 else split_equal n_ubatch True 0 al) al [];
     if al_n_used al < bt_n_tokens (al_batch al) then Some (None, al, kv)
     else do {
       (sinfos, kv) \<leftarrow> prepare ubs kv;
       Some (if sinfos = [] then None else Some (sinfos, ubs), al, kv) } }"

subsection \<open>Updates, and what the graph reads\<close>

text \<open>
  \<open>update\<close> performs the pending stream copies on the tensors and the K-shift; on the metadata it
  resets the shifts. \<open>can_shift\<close> is \<open>get_can_shift()\<close> and \<open>compute\<close> tells whether the K-shift graph
  (not built for models without RoPE, \<open>None\<close>) could be allocated and run.
\<close>

definition kv_update :: "bool \<Rightarrow> bool option \<Rightarrow> bool \<Rightarrow> stream_copy_info \<Rightarrow> kv_cache \<Rightarrow> (bool \<times> kv_cache) option" where
  "kv_update can_shift compute do_shift sc kv =
     (if kv_other kv \<noteq> None then Some (True, kv) else do {
        no_copy \<leftarrow> sc_empty sc;
        assrt (no_copy \<or> kv_n_stream kv > 1);
        assrt (\<forall>(a, b) \<in> set (zip (sc_ssrc sc) (sc_sdst sc)). a < kv_n_stream kv \<and> b < kv_n_stream kv \<and> a \<noteq> b);
        if do_shift then do {
          assrt can_shift;
          if compute = Some False then Some (False, kv)
          else Some (compute \<noteq> None,
            kv\<lparr>kv_cells := map cells_reset_shift (take (kv_n_stream kv) (kv_cells kv)) @
                drop (kv_n_stream kv) (kv_cells kv)\<rparr>) }
        else Some (False, kv) })"

definition ggml_pad :: "nat \<Rightarrow> nat \<Rightarrow> nat" where
  "ggml_pad x n = nat (and (int x + int n - 1) (not (int n - 1)))"

definition kv_get_n_kv :: "slot_info \<Rightarrow> kv_cache \<Rightarrow> nat option" where
  "kv_get_n_kv si kv =
     (let n_pad_cur = max (kv_n_pad kv) 256 in
      ofold (\<lambda>s result. do {
          t \<leftarrow> at_idx (si_strm si) s;
          c \<leftarrow> at_idx (kv_cells kv) t;
          Some (max (min (cells_size c) (max n_pad_cur (ggml_pad (cells_used_max_p1 c) n_pad_cur))) result) })
        [0..<si_n_stream si] 0)"

definition set_input_k_idxs :: "llama_ubatch \<Rightarrow> slot_info \<Rightarrow> kv_cache \<Rightarrow> nat list option" where
  "set_input_k_idxs ub si kv = do {
     size \<leftarrow> si_size si;
     assrt (ub_n_tokens ub = size * si_n_stream si);
     kv_size \<leftarrow> kv_get_size kv;
     Some (map (\<lambda>(s, i). si_strm si ! s * kv_size + si_idxs si ! s ! i) (slot_pairs (si_n_stream si) size)) }"

definition set_input_v_idxs :: "bool \<Rightarrow> nat \<Rightarrow> llama_ubatch \<Rightarrow> slot_info \<Rightarrow> kv_cache \<Rightarrow> nat list option" where
  "set_input_v_idxs v_trans n_embd_v_gqa ub si kv = do {
     size \<leftarrow> si_size si;
     assrt (ub_n_tokens ub = size * si_n_stream si);
     kv_size \<leftarrow> kv_get_size kv;
     Some (if \<not> v_trans
       then map (\<lambda>(s, i). si_strm si ! s * kv_size + si_idxs si ! s ! i) (slot_pairs (si_n_stream si) size)
       else concat (map (\<lambda>(s, i). map (\<lambda>j. si_strm si ! s * kv_size * n_embd_v_gqa + j * kv_size + si_idxs si ! s ! i)
         [0..<n_embd_v_gqa]) (slot_pairs (si_n_stream si) size))) }"

definition set_input_k_shift :: "kv_cache \<Rightarrow> llama_pos list option" where
  "set_input_k_shift kv =
     ofold (\<lambda>c data. ofold (\<lambda>i data. do {
         e \<leftarrow> cells_is_empty i c;
         v \<leftarrow> (if e then Some 0 else cells_get_shift i c);
         Some (data @ [v]) }) [0..<cells_size c] data)
       (take (kv_n_stream kv) (kv_cells kv)) []"

text \<open>\<open>set_input_pos_bucket\<close>, with the bucket function of the graph a parameter.\<close>

definition set_input_pos_bucket :: "(llama_pos \<Rightarrow> llama_pos \<Rightarrow> int) \<Rightarrow> nat \<Rightarrow> llama_ubatch \<Rightarrow> kv_cache \<Rightarrow> int list option" where
  "set_input_pos_bucket bucket n_kv ub kv = do {
     assrt (kv_n_stream kv = 1);
     c \<leftarrow> at_idx (kv_cells kv) 0;
     assrt (\<not> equal_seqs ub);
     ofold (\<lambda>i data. ofold (\<lambda>j data. do {
         e \<leftarrow> cells_is_empty j c;
         p0 \<leftarrow> (if e then Some (-1) else cells_pos_get j c);
         Some (data @ [bucket p0 (ub_pos ub ! i)]) }) [0..<n_kv] data) [0..<ub_n_tokens ub] [] }"

subsection \<open>The context\<close>

text \<open>
  The three ways a context is made: for a batch that was prepared, for the whole cache (one slot
  with the first cell of every stream) and for an update, which takes the pending copies.
\<close>

record kv_context =
  kx_status :: memory_status
  kx_sinfos :: "slot_info list"
  kx_ubatches :: "llama_ubatch list"
  kx_i_cur :: nat
  kx_n_kv :: nat
  kx_do_shift :: bool
  kx_sc_info :: stream_copy_info

definition kx_new :: "memory_status \<Rightarrow> kv_context" where
  "kx_new status = \<lparr>kx_status = status, kx_sinfos = [], kx_ubatches = [], kx_i_cur = 0, kx_n_kv = 0,
     kx_do_shift = False, kx_sc_info = \<lparr>sc_ssrc = [], sc_sdst = []\<rparr>\<rparr>"

definition kv_init_full :: "kv_cache \<Rightarrow> kv_context option" where
  "kv_init_full kv = do {
     n \<leftarrow> kv_get_size kv;
     Some ((kx_new Status_success)\<lparr>kx_n_kv := n,
       kx_sinfos := [\<lparr>si_s0 = 0, si_s1 = kv_n_stream kv - 1, si_strm = [0..<kv_n_stream kv],
         si_idxs = replicate (kv_n_stream kv) [0]\<rparr>]\<rparr>) }"

definition kv_init_update :: "kv_cache \<Rightarrow> (kv_context \<times> kv_cache) option" where
  "kv_init_update kv =
     (let do_shift = kv_get_has_shift kv; sc = kv_sc_info kv in do {
        no_copy \<leftarrow> (if do_shift then Some False else sc_empty sc);
        Some ((kx_new (if no_copy then Status_no_update else Status_success))\<lparr>kx_do_shift := do_shift, kx_sc_info := sc\<rparr>,
          kv\<lparr>kv_sc_info := \<lparr>sc_ssrc = [], sc_sdst = []\<rparr>\<rparr>) })"

definition kx_next :: "kv_context \<Rightarrow> (bool \<times> kv_context) option" where
  "kx_next x = do {
     assrt (kx_status x = Status_success);
     let x = x\<lparr>kx_i_cur := kx_i_cur x + 1\<rparr>;
     Some (kx_i_cur x < length (kx_ubatches x), x) }"

text \<open>Without ubatches the context is an update of the cache.\<close>

definition kx_apply :: "bool \<Rightarrow> bool option \<Rightarrow> kv_context \<Rightarrow> kv_cache \<Rightarrow> (kv_context \<times> kv_cache) option" where
  "kx_apply can_shift compute x kv = do {
     assrt (\<not> memory_status_is_fail (kx_status x));
     if kx_ubatches x = [] then do {
       (_, kv) \<leftarrow> kv_update can_shift compute (kx_do_shift x) (kx_sc_info x) kv;
       Some (x, kv) }
     else do {
       si \<leftarrow> at_idx (kx_sinfos x) (kx_i_cur x);
       ub \<leftarrow> at_idx (kx_ubatches x) (kx_i_cur x);
       kv \<leftarrow> apply_ubatch si ub kv;
       n_kv \<leftarrow> kv_get_n_kv si kv;
       Some (x\<lparr>kx_n_kv := n_kv\<rparr>, kv) } }"


subsection \<open>Which cells \<open>find_slot\<close> picks\<close>

text \<open>The cells in the order of the search: once around the ring, from the head.\<close>

definition ring :: "nat \<Rightarrow> nat \<Rightarrow> nat list" where
  "ring n h = map (\<lambda>k. (h + k) mod n) [0..<n]"

lemma ring_props:
  assumes "0 < n"
  shows "distinct (ring n h)" "set (ring n h) = {..<n}" "length (ring n h) = n"
proof -
  show len: "length (ring n h) = n" by (simp add: ring_def)
  have inj: "inj_on (\<lambda>k. (h + k) mod n) {0..<n}"
  proof (rule inj_onI)
    have le: "j \<le> i" if "i < n" "j < n" "(h + i) mod n = (h + j) mod n" for i j
    proof (rule ccontr)
      assume "\<not> j \<le> i"
      then have "n dvd (h + j) - (h + i)" using that(3) mod_eq_dvd_iff_nat [of "h + i" "h + j" n] by simp
      then show False using \<open>\<not> j \<le> i\<close> that(1,2) by (auto dest: dvd_imp_le)
    qed
    fix i j assume "i \<in> {0..<n}" "j \<in> {0..<n}" "(h + i) mod n = (h + j) mod n"
    then show "i = j" using le [of i j] le [of j i] by simp
  qed
  then show "distinct (ring n h)" by (simp add: ring_def distinct_map)
  have "set (ring n h) \<subseteq> {..<n}" using assms by (auto simp: ring_def)
  moreover have "card (set (ring n h)) = n"
    using \<open>distinct (ring n h)\<close> len by (simp add: distinct_card)
  ultimately show "set (ring n h) = {..<n}" by (simp add: card_subset_eq)
qed

definition pick_cells :: "(nat \<Rightarrow> bool) \<Rightarrow> nat \<Rightarrow> nat \<Rightarrow> nat \<Rightarrow> nat list option" where
  "pick_cells u n h n_tokens =
     (let us = filter u (ring n h) in if n_tokens \<le> length us then Some (take n_tokens us) else None)"

lemma search_slot_ring:
  assumes use: "\<forall>i < n. use i = Some (u i)" and n: "0 < n"
    and "head \<le> n" "head mod n = (h + t) mod n" "t < n"
    and "idxs = filter u (take t (ring n h))" "length idxs < n_tokens"
  shows "search_slot use n False n_tokens head t idxs = Some (pick_cells u n h n_tokens)"
  using assms(3-7)
proof (induction "n - t" arbitrary: head t idxs rule: less_induct)
  case less
  have inner: "search_slot use n False n_tokens head t idxs = Some (pick_cells u n h n_tokens)"
    if lt: "head < n" and eq: "head = (h + t) mod n" for head
  proof -
    let ?us = "filter u (ring n h)"
    have here: "ring n h ! t = head" using less.prems(3) by (simp add: ring_def eq)
    let ?idxs = "if u head then idxs @ [head] else idxs"
    have snoc: "?idxs = filter u (take (Suc t) (ring n h))"
      using less.prems(3,4) ring_props(3) [OF n, of h] by (simp add: take_Suc_conv_app_nth here)
    have test: "test_cells use False 1 head t idxs = Some (Suc head, Suc t, ?idxs)"
      using use lt by simp
    have step: "search_slot use n False n_tokens head t idxs =
        (if length ?idxs = n_tokens then Some (Some ?idxs)
         else if Suc t \<ge> n then Some None
         else search_slot use n False n_tokens (Suc head) (Suc t) ?idxs)"
      using lt by (subst search_slot.simps) (simp only: Let_def if_False test bind.bind_lunit prod.case not_le
          option.simps, simp add: Let_def)
    have split: "?us = ?idxs @ filter u (drop (Suc t) (ring n h))"
      unfolding snoc by (metis append_take_drop_id filter_append)
    show ?thesis
    proof (cases "length ?idxs = n_tokens")
      case True
      then have "pick_cells u n h n_tokens = Some ?idxs" by (simp add: pick_cells_def Let_def split)
      with True step show ?thesis by simp
    next
      case False
      then have short: "length ?idxs < n_tokens" using less.prems(5) by (auto split: if_splits)
      show ?thesis
      proof (cases "Suc t \<ge> n")
        case True
        then have "drop (Suc t) (ring n h) = []" using ring_props(3) [OF n] by simp
        then have "?us = ?idxs" using split by simp
        then have "pick_cells u n h n_tokens = None" using short by (simp add: pick_cells_def Let_def)
        with True False step show ?thesis by simp
      next
        case go: False
        have "Suc head mod n = (h + Suc t) mod n" by (simp add: eq mod_Suc_eq)
        then have "search_slot use n False n_tokens (Suc head) (Suc t) ?idxs = Some (pick_cells u n h n_tokens)"
          using go lt snoc short less.prems(3) by (intro less.hyps) auto
        with step False go show ?thesis by simp
      qed
    qed
  qed
  show ?case
  proof (cases "head = n")
    case True
    have "search_slot use n False n_tokens head t idxs = search_slot use n False n_tokens 0 t idxs"
      using True by (subst search_slot.simps) simp
    also have "\<dots> = Some (pick_cells u n h n_tokens)"
      using less.prems(2) True n by (intro inner) simp_all
    finally show ?thesis .
  next
    case False
    then show ?thesis using less.prems(1,2) by (intro inner) simp_all
  qed
qed

text \<open>
  The contiguous mode, which no caller in the repository asks for: it terminates, and a slot it
  finds is a run of usable cells.
\<close>

lemma filter_full: "length (filter P xs) = length xs \<Longrightarrow> filter P xs = xs"
proof (induction xs)
  case (Cons x xs)
  show ?case
  proof (cases "P x")
    case False
    then have "length (filter P xs) = Suc (length xs)" using Cons.prems by simp
    then show ?thesis using length_filter_le [of P xs] by linarith
  qed (use Cons in simp)
qed simp

lemma test_cells_cont:
  assumes use: "\<forall>i < n. use i = Some (u i)"
  shows "head + k \<le> n \<Longrightarrow> \<exists>m. test_cells use True k head t idxs = Some (head + m, t + m, idxs @ filter u [head..<head + m]) \<and>
    m \<le> k \<and> (m = k \<or> 0 < m) \<and> (if \<forall>i \<in> {head..<head + k}. u i then m = k else \<exists>i \<in> {head..<head + m}. \<not> u i)"
proof (induction k arbitrary: head t idxs)
  case (Suc k)
  have now: "use head = Some (u head)" using Suc.prems use by simp
  show ?case
  proof (cases "u head")
    case True
    from Suc.IH [of "Suc head" "Suc t" "idxs @ [head]"] Suc.prems obtain m where
      m: "test_cells use True k (Suc head) (Suc t) (idxs @ [head]) =
        Some (Suc head + m, Suc t + m, (idxs @ [head]) @ filter u [Suc head..<Suc head + m])" "m \<le> k"
      "if \<forall>i \<in> {Suc head..<Suc head + k}. u i then m = k else \<exists>i \<in> {Suc head..<Suc head + m}. \<not> u i" by auto
    have "[head..<head + Suc m] = head # [Suc head..<Suc head + m]"
      by (subst upt_conv_Cons) simp_all
    then have up: "filter u [head..<head + Suc m] = head # filter u [Suc head..<Suc head + m]"
      using True by simp
    have sets: "{head..<head + Suc k} = insert head {Suc head..<Suc head + k}"
      "{head..<head + Suc m} = insert head {Suc head..<Suc head + m}" by auto
    show ?thesis
      using m now True unfolding sets
      by (intro exI [of _ "Suc m"]) (simp add: up del: upt_Suc filter.simps add_Suc_right, auto split: if_splits)
  next
    case False
    then show ?thesis using now by (intro exI [of _ 1]) auto
  qed
qed auto

lemma search_slot_cont:
  assumes use: "\<forall>i < n. use i = Some (u i)" and k: "0 < k" "k \<le> n"
  shows "head \<le> n \<Longrightarrow> \<exists>r. search_slot use n True k head t [] = Some r \<and>
    (\<forall>idxs. r = Some idxs \<longrightarrow> (\<exists>a. a + k \<le> n \<and> idxs = [a..<a + k] \<and> (\<forall>i \<in> set idxs. u i)))"
proof (induction "n - t" arbitrary: head t rule: less_induct)
  case less
  have inner: "\<exists>r. search_slot use n True k head t [] = Some r \<and>
    (\<forall>idxs. r = Some idxs \<longrightarrow> (\<exists>a. a + k \<le> n \<and> idxs = [a..<a + k] \<and> (\<forall>i \<in> set idxs. u i)))"
    if fits: "head + k \<le> n" and IH: "\<And>head t'. t < t' \<Longrightarrow> t' < n \<Longrightarrow> head \<le> n \<Longrightarrow>
      \<exists>r. search_slot use n True k head t' [] = Some r \<and>
      (\<forall>idxs. r = Some idxs \<longrightarrow> (\<exists>a. a + k \<le> n \<and> idxs = [a..<a + k] \<and> (\<forall>i \<in> set idxs. u i)))" for head t
  proof -
    obtain m where m: "test_cells use True k head t [] = Some (head + m, t + m, [] @ filter u [head..<head + m])"
      "m \<le> k" "m = k \<or> 0 < m" "if \<forall>i \<in> {head..<head + k}. u i then m = k else \<exists>i \<in> {head..<head + m}. \<not> u i"
      using test_cells_cont [OF use fits, of t "[]"] by (elim exE conjE) (rule that)
    let ?idxs = "filter u [head..<head + m]"
    have step: "search_slot use n True k head t [] =
        (if length ?idxs = k then Some (Some ?idxs)
         else if t + m \<ge> n then Some None else search_slot use n True k (head + m) (t + m) [])"
      using fits by (subst search_slot.simps) (simp add: m(1) Let_def)
    show ?thesis
    proof (cases "length ?idxs = k")
      case True
      have "length ?idxs \<le> length [head..<head + m]" by (rule length_filter_le)
      then have "m = k" using True m(2) by simp
      then have eq: "?idxs = [head..<head + k]"
        using True filter_full [of u "[head..<head + k]"] by simp
      have "\<forall>i \<in> set ?idxs. u i" by simp
      then have us: "\<forall>i \<in> set [head..<head + k]. u i" unfolding eq .
      have "search_slot use n True k head t [] = Some (Some [head..<head + k])" using step True eq by simp
      moreover have "\<forall>idxs. Some [head..<head + k] = Some idxs \<longrightarrow>
          (\<exists>a. a + k \<le> n \<and> idxs = [a..<a + k] \<and> (\<forall>i \<in> set idxs. u i))"
        using us fits by blast
      ultimately show ?thesis by blast
    next
      case False
      show ?thesis
      proof (cases "t + m \<ge> n")
        case True
        with False step have "search_slot use n True k head t [] = Some None" by simp
        then show ?thesis by simp
      next
        case go: False
        with False step have "search_slot use n True k head t [] = search_slot use n True k (head + m) (t + m) []"
          by simp
        moreover have "t < t + m" "t + m < n" "head + m \<le> n" using m(2,3) k(1) fits go by auto
        ultimately show ?thesis using IH [of "t + m" "head + m"] by simp
      qed
    qed
  qed
  have again: "\<exists>r. search_slot use n True k head' t' [] = Some r \<and>
      (\<forall>idxs. r = Some idxs \<longrightarrow> (\<exists>a. a + k \<le> n \<and> idxs = [a..<a + k] \<and> (\<forall>i \<in> set idxs. u i)))"
    if "t < t'" "t' < n" "head' \<le> n" for head' t'
    by (rule less.hyps) (use that in simp_all)
  show ?case
  proof (cases "head + k \<le> n")
    case True
    then show ?thesis by (rule inner) (rule again)
  next
    case False
    have wrap: "search_slot use n True k head t [] = search_slot use n True k 0 (t + (n - head)) []"
      using False by (subst search_slot.simps) (simp add: Let_def)
    have "0 + k \<le> n" using k(2) by simp
    then show ?thesis
      unfolding wrap by (rule inner) (rule again, simp_all)
  qed
qed


subsection \<open>Loops over the cells\<close>

type_synonym cell = "llama_pos \<times> kv_cell_ext \<times> llama_pos \<times> llama_seq_id set"

text \<open>\<open>d\<close> is \<open>c\<close> with the cell \<open>i\<close> changed by \<open>g\<close>; \<open>maps_cells\<close>: all cells.\<close>

definition changes_cell :: "(cell \<Rightarrow> cell) \<Rightarrow> nat \<Rightarrow> kv_cells \<Rightarrow> kv_cells \<Rightarrow> bool" where
  "changes_cell g i c d \<longleftrightarrow> cells_inv d \<and> cells_size d = cells_size c \<and>
     (\<forall>k < cells_size c. cells_cell d k = (if k = i then g (cells_cell c k) else cells_cell c k))"

definition maps_cells :: "(cell \<Rightarrow> cell) \<Rightarrow> kv_cells \<Rightarrow> kv_cells \<Rightarrow> bool" where
  "maps_cells g c d \<longleftrightarrow> cells_inv d \<and> cells_size d = cells_size c \<and>
     (\<forall>k < cells_size c. cells_cell d k = g (cells_cell c k))"

definition first_freed :: "(cell \<Rightarrow> bool) \<Rightarrow> kv_cells \<Rightarrow> nat" where
  "first_freed fr c = (case find (\<lambda>i. fr (cells_cell c i)) [0..<cells_size c] of Some i \<Rightarrow> i | None \<Rightarrow> cells_size c)"

lemma cells_loop:
  assumes inv: "cells_inv c" and P: "\<forall>i < cells_size c. P (cells_cell c i)"
    and step: "\<And>i d. \<lbrakk>cells_inv d; i < cells_size d; P (cells_cell d i)\<rbrakk> \<Longrightarrow>
      \<exists>d'. f i d = Some d' \<and> changes_cell g i d d'"
  shows "\<exists>c'. ofold f [0..<cells_size c] c = Some c' \<and> maps_cells g c c'"
proof -
  let ?I = "\<lambda>k d. cells_inv d \<and> cells_size d = cells_size c \<and>
    (\<forall>j < cells_size c. cells_cell d j = (if j < k then g (cells_cell c j) else cells_cell c j))"
  have "\<exists>d. ofold f [0..<cells_size c] c = Some d \<and> ?I (cells_size c) d"
  proof (rule ofold_upt_inv [where I = ?I])
    show "?I 0 c" using inv by simp
    fix i d assume i: "i < cells_size c" and I: "?I i d"
    then obtain d' where "f i d = Some d'" "changes_cell g i d d'"
      using step [of d i] P by auto
    then show "\<exists>d'. f i d = Some d' \<and> ?I (Suc i) d'"
      using I i by (auto simp: changes_cell_def less_Suc_eq)
  qed
  then show ?thesis by (auto simp: maps_cells_def)
qed

lemma find_snoc: "find P (xs @ [x]) = (case find P xs of Some y \<Rightarrow> Some y | None \<Rightarrow> if P x then Some x else None)"
  by (induction xs) auto

lemma over_cells_loop:
  assumes inv: "cells_inv c" and P: "\<forall>i < cells_size c. P (cells_cell c i)"
    and step: "\<And>i d nh. \<lbrakk>cells_inv d; i < cells_size d; P (cells_cell d i)\<rbrakk> \<Longrightarrow>
      \<exists>d'. f i (nh, d) = Some (note_freed (fr (cells_cell d i)) i (nh, d')) \<and> changes_cell g i d d'"
  shows "\<exists>c'. over_cells f c = Some (first_freed fr c, c') \<and> maps_cells g c c'"
proof -
  let ?n = "cells_size c"
  let ?first = "\<lambda>k. case find (\<lambda>i. fr (cells_cell c i)) [0..<k] of Some i \<Rightarrow> i | None \<Rightarrow> ?n"
  let ?I = "\<lambda>k st. cells_inv (snd st) \<and> cells_size (snd st) = ?n \<and> fst st = ?first k \<and>
    (\<forall>j < ?n. cells_cell (snd st) j = (if j < k then g (cells_cell c j) else cells_cell c j))"
  have "\<exists>st. ofold f [0..<?n] (?n, c) = Some st \<and> ?I ?n st"
  proof (rule ofold_upt_inv [where I = ?I])
    show "?I 0 (?n, c)" using inv by simp
    fix i st assume i: "i < ?n" and I: "?I i st"
    obtain nh d where st: "st = (nh, d)" by (cases st)
    obtain d' where d': "f i (nh, d) = Some (note_freed (fr (cells_cell d i)) i (nh, d'))" "changes_cell g i d d'"
      using step [of d i nh] P I i st by auto
    have "find (\<lambda>i. fr (cells_cell c i)) [0..<i] = Some j \<Longrightarrow> j < i" for j
      by (auto simp: find_Some_iff)
    then have "?first (Suc i) = (if fr (cells_cell d i) \<and> nh = ?n then i else nh)"
      using I i st by (auto simp: find_snoc split: option.splits)
    then show "\<exists>st'. f i st = Some st' \<and> ?I (Suc i) st'"
      using I i st d' by (auto simp: changes_cell_def note_freed_def less_Suc_eq)
  qed
  then show ?thesis by (auto simp: maps_cells_def over_cells_def first_freed_def)
qed

text \<open>From the specification of one cell operation to its effect on the cells.\<close>

lemma changes_cellI:
  assumes "cells_inv c" "i < cells_size c" "cells_inv c'"
    and "case g (cells_cell c i) of (p, e, h, S) \<Rightarrow> kc_pos c' = (kc_pos c)[i := p] \<and>
      kc_ext c' = (kc_ext c)[i := e] \<and> kc_shift c' = (kc_shift c)[i := h] \<and> kc_seq c' = (kc_seq c)[i := S]"
  shows "changes_cell g i c c'"
proof -
  have len: "length (kc_ext c) = cells_size c" "length (kc_shift c) = cells_size c" "length (kc_seq c) = cells_size c"
    "length (kc_pos c) = cells_size c"
    using assms(1) by (simp_all add: cells_inv_def cells_size_def)
  obtain p e h S where g: "g (cells_cell c i) = (p, e, h, S)" by (cases "g (cells_cell c i)")
  have "cells_size c' = cells_size c" using assms(4) g by (simp add: cells_size_def)
  with assms len g show ?thesis
    by (auto simp: changes_cell_def cells_cell_def nth_list_update)
qed

lemma changes_cell_id: "cells_inv c \<Longrightarrow> g (cells_cell c i) = cells_cell c i \<Longrightarrow> changes_cell g i c c"
  by (simp add: changes_cell_def)

lemma upd_same: "xs[i := xs ! i] = xs"
  by simp


text \<open>The effect of each sequence operation on one cell.\<close>

fun g_rm :: "llama_seq_id \<Rightarrow> llama_pos \<Rightarrow> llama_pos \<Rightarrow> cell \<Rightarrow> cell" where
  "g_rm s p0 p1 (p, e, h, S) =
     (if p0 \<le> p \<and> p < p1 \<and> s \<in> S then (if S = {s} then (-1, ext_reset, 0, {}) else (p, e, h, S - {s}))
      else (p, e, h, S))"

fun g_rm_any :: "llama_pos \<Rightarrow> llama_pos \<Rightarrow> cell \<Rightarrow> cell" where
  "g_rm_any p0 p1 (p, e, h, S) = (if p0 \<le> p \<and> p < p1 then (-1, ext_reset, 0, {}) else (p, e, h, S))"

fun g_cp :: "llama_seq_id \<Rightarrow> llama_seq_id \<Rightarrow> llama_pos \<Rightarrow> llama_pos \<Rightarrow> cell \<Rightarrow> cell" where
  "g_cp src dst p0 p1 (p, e, h, S) = (p, e, h, if p0 \<le> p \<and> p < p1 \<and> src \<in> S then insert dst S else S)"

fun g_keep :: "llama_seq_id \<Rightarrow> cell \<Rightarrow> cell" where
  "g_keep s (p, e, h, S) = (if s \<in> S then (p, e, h, {s}) else if S \<noteq> {} then (-1, ext_reset, 0, {}) else (p, e, h, S))"

fun g_add :: "llama_seq_id \<Rightarrow> llama_pos \<Rightarrow> llama_pos \<Rightarrow> llama_pos \<Rightarrow> cell \<Rightarrow> cell" where
  "g_add s p0 p1 d (p, e, h, S) =
     (if p0 \<le> p \<and> p < p1 \<and> s \<in> S then (if p + d < 0 then (-1, e, 0, {}) else (p + d, e, h + d, S))
      else (p, e, h, S))"

fun g_div :: "llama_seq_id \<Rightarrow> llama_pos \<Rightarrow> llama_pos \<Rightarrow> int \<Rightarrow> cell \<Rightarrow> cell" where
  "g_div s p0 p1 d (p, e, h, S) =
     (if p0 \<le> p \<and> p < p1 \<and> s \<in> S then (p div d, e, h + (p - p div d), S) else (p, e, h, S))"

lemma pos_in_run: "i < cells_size c \<Longrightarrow> cells_pos_in i p0 p1 c = Some (p0 \<le> kc_pos c ! i \<and> kc_pos c ! i < p1)"
  by (simp add: cells_pos_in_def)

lemma seq_has_run: "i < cells_size c \<Longrightarrow> 0 \<le> s \<Longrightarrow> s < LLAMA_MAX_SEQ \<Longrightarrow>
    cells_seq_has i s c = Some (s \<in> kc_seq c ! i)"
  by (simp add: cells_seq_has_def)

lemma seq_occupied: "cells_inv c \<Longrightarrow> i < cells_size c \<Longrightarrow> s \<in> kc_seq c ! i \<Longrightarrow> kc_pos c ! i \<noteq> -1"
  by (auto simp: cells_inv_def)

lemmas cell_runs = pos_in_run seq_has_run

lemma rm_cell_step:
  assumes inv: "cells_inv d" "i < cells_size d" and s: "0 \<le> s" "s < LLAMA_MAX_SEQ"
  shows "\<exists>d'. rm_cell s p0 p1 i (nh, d) =
      Some (note_freed (case cells_cell d i of (p, e, h, S) \<Rightarrow> p0 \<le> p \<and> p < p1 \<and> S = {s}) i (nh, d')) \<and>
    changes_cell (g_rm s p0 p1) i d d'"
proof (cases "p0 \<le> kc_pos d ! i \<and> kc_pos d ! i < p1 \<and> s \<in> kc_seq d ! i")
  case True
  from cells_seq_rm_spec [OF inv] True obtain d' where
    d': "cells_seq_rm i s d = Some (kc_seq d ! i = {s}, d')" "cells_inv d'" "data d' = spec_seq_rm i s (data d)" by blast
  have "changes_cell (g_rm s p0 p1) i d d'"
    using True d'(3) by (intro changes_cellI [OF inv d'(2)])
      (auto simp: spec_seq_rm_def spec_clear_def data_def cells_cell_def split: if_splits)
  then show ?thesis
    using True d'(1) inv s by (auto simp: rm_cell_def cell_runs cells_cell_def)
next
  case False
  then have "rm_cell s p0 p1 i (nh, d) = Some (nh, d)"
    using inv s by (auto simp: rm_cell_def cell_runs)
  with False show ?thesis using inv s
    by (intro exI [of _ d]) (auto simp: cells_cell_def note_freed_def intro!: changes_cell_id)
qed

lemma rm_any_cell_step:
  assumes inv: "cells_inv d" "i < cells_size d" and p: "0 \<le> p0"
  shows "\<exists>d'. rm_any_cell p0 p1 i (nh, d) =
      Some (note_freed (case cells_cell d i of (p, e, h, S) \<Rightarrow> p0 \<le> p \<and> p < p1) i (nh, d')) \<and>
    changes_cell (g_rm_any p0 p1) i d d'"
proof (cases "p0 \<le> kc_pos d ! i \<and> kc_pos d ! i < p1")
  case True
  then have "kc_pos d ! i \<noteq> -1" using p by auto
  from cells_rm_spec [OF inv this] obtain d' where
    d': "cells_rm i d = Some d'" "cells_inv d'" "data d' = spec_clear i (data d)" by blast
  have "changes_cell (g_rm_any p0 p1) i d d'"
    using True d'(3) by (intro changes_cellI [OF inv d'(2)]) (auto simp: spec_clear_def data_def cells_cell_def)
  then show ?thesis
    using True d'(1) inv by (auto simp: rm_any_cell_def cell_runs cells_cell_def)
next
  case False
  then have "rm_any_cell p0 p1 i (nh, d) = Some (nh, d)"
    using inv by (auto simp: rm_any_cell_def cell_runs)
  with False show ?thesis using inv
    by (intro exI [of _ d]) (auto simp: cells_cell_def note_freed_def intro!: changes_cell_id)
qed

lemma cp_cell_step:
  assumes inv: "cells_inv d" "i < cells_size d" and s: "0 \<le> src" "src < LLAMA_MAX_SEQ" "0 \<le> dst" "dst < LLAMA_MAX_SEQ"
    and new: "case cells_cell d i of (p, e, h, S) \<Rightarrow> p0 \<le> p \<and> p < p1 \<and> src \<in> S \<longrightarrow> dst \<notin> S"
  shows "\<exists>d'. cp_cell src dst p0 p1 i d = Some d' \<and> changes_cell (g_cp src dst p0 p1) i d d'"
proof (cases "p0 \<le> kc_pos d ! i \<and> kc_pos d ! i < p1 \<and> src \<in> kc_seq d ! i")
  case True
  then have "kc_pos d ! i \<noteq> -1" "dst \<notin> kc_seq d ! i" using seq_occupied [OF inv] new by (auto simp: cells_cell_def)
  from cells_seq_add_spec [OF inv this(1) s(3,4) this(2)] obtain d' where
    d': "cells_seq_add i dst d = Some d'" "cells_inv d'" "data d' = spec_seq_add i dst (data d)" by blast
  have "changes_cell (g_cp src dst p0 p1) i d d'"
    using True d'(3) by (intro changes_cellI [OF inv d'(2)]) (auto simp: spec_seq_add_def data_def cells_cell_def)
  then show ?thesis
    using True d'(1) inv s by (auto simp: cp_cell_def cell_runs)
next
  case False
  then have "cp_cell src dst p0 p1 i d = Some d"
    using inv s by (auto simp: cp_cell_def cell_runs)
  with False show ?thesis using inv
    by (intro exI [of _ d]) (auto simp: cells_cell_def intro!: changes_cell_id)
qed

lemma keep_cell_step:
  assumes inv: "cells_inv d" "i < cells_size d" and s: "0 \<le> s" "s < LLAMA_MAX_SEQ"
    and busy: "case cells_cell d i of (p, e, h, S) \<Rightarrow> S = {} \<longrightarrow> p = -1"
  shows "\<exists>d'. keep_cell s i (nh, d) =
      Some (note_freed (case cells_cell d i of (p, e, h, S) \<Rightarrow> s \<notin> S \<and> S \<noteq> {}) i (nh, d')) \<and>
    changes_cell (g_keep s) i d d'"
proof -
  from cells_seq_keep_spec [OF inv s] busy obtain d' where
    d': "cells_seq_keep i s d = Some (s \<notin> kc_seq d ! i \<and> kc_seq d ! i \<noteq> {}, d')" "cells_inv d'"
      "data d' = spec_seq_keep i s (data d)" by (auto simp: cells_cell_def)
  have "changes_cell (g_keep s) i d d'"
  proof (cases "kc_seq d ! i = {}")
    case True
    then have "data d' = data d" using d'(3) by (simp add: spec_seq_keep_def data_def)
    then have "cells_size d' = cells_size d" "cells_cell d' = cells_cell d"
      by (auto simp: data_def cells_size_def cells_cell_def fun_eq_iff)
    then show ?thesis using True d'(2) by (auto simp: changes_cell_def cells_cell_def)
  next
    case False
    then show ?thesis
      using d'(3) by (intro changes_cellI [OF inv d'(2)])
        (auto simp: spec_seq_keep_def spec_clear_def data_def cells_cell_def split: if_splits)
  qed
  with d'(1) show ?thesis by (auto simp: keep_cell_def cells_cell_def)
qed

lemma add_cell_step:
  assumes inv: "cells_inv d" "i < cells_size d" and s: "0 \<le> s" "s < LLAMA_MAX_SEQ"
  shows "\<exists>d'. add_cell s p0 p1 \<delta> i (nh, d) =
      Some (note_freed (case cells_cell d i of (p, e, h, S) \<Rightarrow> p0 \<le> p \<and> p < p1 \<and> s \<in> S \<and> p + \<delta> < 0) i (nh, d')) \<and>
    changes_cell (g_add s p0 p1 \<delta>) i d d'"
proof (cases "p0 \<le> kc_pos d ! i \<and> kc_pos d ! i < p1 \<and> s \<in> kc_seq d ! i")
  case True
  then have "kc_pos d ! i \<noteq> -1" using seq_occupied [OF inv] by auto
  from cells_pos_add_spec [OF inv this, of \<delta>] obtain d' where
    d': "cells_pos_add i \<delta> d = Some (kc_pos d ! i + \<delta> < 0, d')" "cells_inv d'"
      "data d' = spec_pos_add i \<delta> (data d)" by blast
  have "changes_cell (g_add s p0 p1 \<delta>) i d d'"
    using True d'(3) by (intro changes_cellI [OF inv d'(2)])
      (auto simp: spec_pos_add_def data_def cells_cell_def split: if_splits)
  then show ?thesis
    using True d'(1) inv s by (auto simp: add_cell_def cell_runs cells_cell_def)
next
  case False
  then have "add_cell s p0 p1 \<delta> i (nh, d) = Some (nh, d)"
    using inv s by (auto simp: add_cell_def cell_runs)
  with False show ?thesis using inv s
    by (intro exI [of _ d]) (auto simp: cells_cell_def note_freed_def intro!: changes_cell_id)
qed

lemma div_cell_step:
  assumes inv: "cells_inv d" "i < cells_size d" and s: "0 \<le> s" "s < LLAMA_MAX_SEQ" and q: "0 < q"
  shows "\<exists>d'. div_cell s p0 p1 q i d = Some d' \<and> changes_cell (g_div s p0 p1 q) i d d'"
proof (cases "p0 \<le> kc_pos d ! i \<and> kc_pos d ! i < p1 \<and> s \<in> kc_seq d ! i")
  case True
  then have "kc_pos d ! i \<noteq> -1" using seq_occupied [OF inv] by auto
  from cells_pos_div_spec [OF inv this q] obtain d' where
    d': "cells_pos_div i q d = Some d'" "cells_inv d'" "data d' = spec_pos_div i q (data d)" by blast
  have "changes_cell (g_div s p0 p1 q) i d d'"
    using True d'(3) by (intro changes_cellI [OF inv d'(2)]) (auto simp: spec_pos_div_def data_def cells_cell_def)
  then show ?thesis
    using True d'(1) inv s by (auto simp: div_cell_def cell_runs)
next
  case False
  then have "div_cell s p0 p1 q i d = Some d"
    using inv s by (auto simp: div_cell_def cell_runs)
  with False show ?thesis using inv
    by (intro exI [of _ d]) (auto simp: cells_cell_def intro!: changes_cell_id)
qed


subsection \<open>The invariant of the cache\<close>

text \<open>
  A cell in use belongs to some sequence, and the sequences of a cell are mapped to its stream.
\<close>

definition cell_good :: "kv_cache \<Rightarrow> nat \<Rightarrow> cell \<Rightarrow> bool" where
  "cell_good kv t cl = (case cl of (p, e, h, S) \<Rightarrow> (p \<noteq> -1 \<longrightarrow> S \<noteq> {}) \<and>
     (\<forall>s \<in> S. 0 \<le> s \<and> s < int (length (kv_seq_to_stream kv)) \<and> kv_seq_to_stream kv ! nat s = t))"

definition stream_ok :: "kv_cache \<Rightarrow> nat \<Rightarrow> kv_cells \<Rightarrow> bool" where
  "stream_ok kv t c \<longleftrightarrow> cells_inv c \<and> (\<forall>i < cells_size c. cell_good kv t (cells_cell c i))"

definition kv_size :: "kv_cache \<Rightarrow> nat" where
  "kv_size kv = cells_size (kv_cells kv ! 0)"

text \<open>The invariant of a cache that owns its cells.\<close>

definition cache_inv :: "kv_cache \<Rightarrow> bool" where
  "cache_inv kv \<longleftrightarrow> kv_other kv = None \<and> 0 < kv_n_stream kv \<and>
     length (kv_cells kv) = kv_n_stream kv \<and> length (kv_heads kv) = kv_n_stream kv \<and>
     kv_seq_to_stream kv \<noteq> [] \<and> int (length (kv_seq_to_stream kv)) \<le> LLAMA_MAX_SEQ \<and>
     (\<forall>t \<in> set (kv_seq_to_stream kv). t < kv_n_stream kv) \<and>
     (\<forall>t < kv_n_stream kv. stream_ok kv t (kv_cells kv ! t) \<and> cells_size (kv_cells kv ! t) = kv_size kv \<and>
       kv_heads kv ! t \<le> kv_size kv)"

definition seq_ok :: "kv_cache \<Rightarrow> llama_seq_id \<Rightarrow> bool" where
  "seq_ok kv s \<longleftrightarrow> 0 \<le> s \<and> s < int (length (kv_seq_to_stream kv))"

definition strm :: "kv_cache \<Rightarrow> llama_seq_id \<Rightarrow> nat" where
  "strm kv s = kv_seq_to_stream kv ! nat s"

text \<open>The same cache but for the cells, the heads and the pending copies.\<close>

definition same_config :: "kv_cache \<Rightarrow> kv_cache \<Rightarrow> bool" where
  "same_config kv kv' \<longleftrightarrow> kv_n_stream kv' = kv_n_stream kv \<and> kv_seq_to_stream kv' = kv_seq_to_stream kv \<and>
     kv_other kv' = kv_other kv \<and> kv_n_pos kv' = kv_n_pos kv \<and> kv_n_swa kv' = kv_n_swa kv \<and>
     kv_swa_type kv' = kv_swa_type kv \<and> kv_n_seq_max kv' = kv_n_seq_max kv \<and> kv_n_pad kv' = kv_n_pad kv \<and>
     kv_size kv' = kv_size kv"

lemma same_configD:
  assumes "same_config kv kv'"
  shows "kv_n_stream kv' = kv_n_stream kv" "kv_seq_to_stream kv' = kv_seq_to_stream kv"
    "kv_other kv' = kv_other kv" "kv_n_pos kv' = kv_n_pos kv" "kv_n_swa kv' = kv_n_swa kv"
    "kv_swa_type kv' = kv_swa_type kv" "kv_n_seq_max kv' = kv_n_seq_max kv" "kv_n_pad kv' = kv_n_pad kv"
    "kv_size kv' = kv_size kv"
  using assms by (simp_all add: same_config_def)

lemma same_config_refl [simp]: "same_config kv kv"
  by (simp add: same_config_def)

lemma same_config_trans: "same_config a b \<Longrightarrow> same_config b c \<Longrightarrow> same_config a c"
  by (simp add: same_config_def)

lemma same_config_good: "same_config kv kv' \<Longrightarrow> cell_good kv' = cell_good kv"
  by (simp add: cell_good_def same_configD fun_eq_iff split: prod.splits)

lemma same_config_good2: "same_config kv kv' \<Longrightarrow> strm kv' = strm kv" "same_config kv kv' \<Longrightarrow> seq_ok kv' = seq_ok kv"
  by (simp_all add: strm_def seq_ok_def same_configD fun_eq_iff)

lemma cache_invD:
  assumes "cache_inv kv"
  shows "kv_other kv = None" "0 < kv_n_stream kv" "length (kv_cells kv) = kv_n_stream kv"
    "length (kv_heads kv) = kv_n_stream kv"
    "t < kv_n_stream kv \<Longrightarrow> cells_inv (kv_cells kv ! t)"
    "t < kv_n_stream kv \<Longrightarrow> cells_size (kv_cells kv ! t) = kv_size kv"
    "t < kv_n_stream kv \<Longrightarrow> kv_heads kv ! t \<le> kv_size kv"
    "t < kv_n_stream kv \<Longrightarrow> i < kv_size kv \<Longrightarrow> cell_good kv t (cells_cell (kv_cells kv ! t) i)"
    "seq_ok kv s \<Longrightarrow> strm kv s < kv_n_stream kv" "seq_ok kv s \<Longrightarrow> 0 \<le> s" "seq_ok kv s \<Longrightarrow> s < LLAMA_MAX_SEQ"
    "seq_ok kv s \<Longrightarrow> kv_stream_of kv s = Some (strm kv s)"
  using assms by (auto simp: cache_inv_def stream_ok_def seq_ok_def strm_def kv_stream_of_def)

text \<open>Replacing the cells and the head of one stream.\<close>

definition kv_maps1 :: "(cell \<Rightarrow> cell) \<Rightarrow> nat \<Rightarrow> kv_cache \<Rightarrow> kv_cache \<Rightarrow> bool" where
  "kv_maps1 g t kv kv' \<longleftrightarrow> cache_inv kv' \<and> same_config kv kv' \<and>
     maps_cells g (kv_cells kv ! t) (kv_cells kv' ! t) \<and>
     (\<forall>u. u \<noteq> t \<longrightarrow> kv_cells kv' ! u = kv_cells kv ! u \<and> kv_heads kv' ! u = kv_heads kv ! u)"

lemma kv_put_inv:
  assumes inv: "cache_inv kv" and t: "t < kv_n_stream kv" and c: "stream_ok kv t c" "cells_size c = kv_size kv"
    and h: "h \<le> kv_size kv"
  shows "cache_inv (kv_put t c h kv)" "same_config kv (kv_put t c h kv)"
    "kv_cells (kv_put t c h kv) ! t = c" "kv_heads (kv_put t c h kv) ! t = h"
    "u \<noteq> t \<Longrightarrow> kv_cells (kv_put t c h kv) ! u = kv_cells kv ! u"
    "u \<noteq> t \<Longrightarrow> kv_heads (kv_put t c h kv) ! u = kv_heads kv ! u"
proof -
  note D = cache_invD [OF inv]
  have size: "kv_size (kv_put t c h kv) = kv_size kv"
    using t c(2) D(2,3) by (cases "t = 0") (simp_all add: kv_size_def kv_put_def)
  then show config: "same_config kv (kv_put t c h kv)" by (simp add: same_config_def kv_put_def)
  show at: "kv_cells (kv_put t c h kv) ! t = c" "kv_heads (kv_put t c h kv) ! t = h"
    "u \<noteq> t \<Longrightarrow> kv_cells (kv_put t c h kv) ! u = kv_cells kv ! u"
    "u \<noteq> t \<Longrightarrow> kv_heads (kv_put t c h kv) ! u = kv_heads kv ! u" for u
    using t D(3,4) by (simp_all add: kv_put_def)
  have ok: "stream_ok (kv_put t c h kv) = stream_ok kv"
    by (simp add: stream_ok_def fun_eq_iff same_config_good [OF config])
  have "stream_ok kv u (kv_cells (kv_put t c h kv) ! u) \<and> cells_size (kv_cells (kv_put t c h kv) ! u) = kv_size kv \<and>
      kv_heads (kv_put t c h kv) ! u \<le> kv_size kv" if "u < kv_n_stream kv" for u
    using inv that c h at by (cases "u = t") (auto simp: cache_inv_def)
  then show "cache_inv (kv_put t c h kv)"
    using inv unfolding cache_inv_def ok size same_configD [OF config] by (simp add: kv_put_def)
qed

lemma kv_maps1_put:
  assumes inv: "cache_inv kv" and t: "t < kv_n_stream kv" and c: "maps_cells g (kv_cells kv ! t) c"
    and g: "\<And>cl. cell_good kv t cl \<Longrightarrow> cell_good kv t (g cl)" and h: "h \<le> kv_size kv"
  shows "kv_maps1 g t kv (kv_put t c h kv)"
proof -
  note D = cache_invD [OF inv]
  have "cells_size c = kv_size kv" using c D(6) [OF t] by (simp add: maps_cells_def)
  moreover have "stream_ok kv t c"
    using c D(6,8) [OF t] g by (simp add: stream_ok_def maps_cells_def)
  ultimately show ?thesis
    using kv_put_inv [OF inv t _ _ h] c by (simp add: kv_maps1_def)
qed

lemma first_freed_le: "first_freed fr c \<le> cells_size c"
proof (cases "find (\<lambda>i. fr (cells_cell c i)) [0..<cells_size c]")
  case (Some i)
  then have "i < cells_size c" by (auto simp: find_Some_iff)
  with Some show ?thesis by (simp add: first_freed_def)
qed (simp add: first_freed_def)


subsection \<open>What the sequence operations do\<close>

lemma cell_good_busy: "cell_good kv t cl \<Longrightarrow> case cl of (p, e, h, S) \<Rightarrow> S = {} \<longrightarrow> p = -1"
  by (auto simp: cell_good_def split: prod.splits)

lemma good_rm: "cell_good kv t cl \<Longrightarrow> cell_good kv t (g_rm s p0 p1 cl)"
  by (cases cl) (auto simp: cell_good_def)

lemma good_rm_any: "cell_good kv t cl \<Longrightarrow> cell_good kv t (g_rm_any p0 p1 cl)"
  by (cases cl) (auto simp: cell_good_def)

lemma good_cp: "seq_ok kv dst \<Longrightarrow> strm kv dst = t \<Longrightarrow> cell_good kv t cl \<Longrightarrow> cell_good kv t (g_cp src dst p0 p1 cl)"
  by (cases cl) (auto simp: cell_good_def seq_ok_def strm_def)

lemma good_keep: "cell_good kv t cl \<Longrightarrow> cell_good kv t (g_keep s cl)"
  by (cases cl) (auto simp: cell_good_def)

lemma good_add: "cell_good kv t cl \<Longrightarrow> cell_good kv t (g_add s p0 p1 d cl)"
  by (cases cl) (auto simp: cell_good_def)

lemma good_div: "cell_good kv t cl \<Longrightarrow> cell_good kv t (g_div s p0 p1 d cl)"
  by (cases cl) (auto simp: cell_good_def)

lemma kv_seq_rm_spec:
  assumes inv: "cache_inv kv" and s: "seq_ok kv s"
  shows "\<exists>kv'. kv_seq_rm s p0 p1 kv = Some (True, kv') \<and> kv_maps1 (g_rm s (norm_p0 p0) (norm_p1 p1)) (strm kv s) kv kv'"
proof -
  note D = cache_invD [OF inv]
  let ?t = "strm kv s" and ?g = "g_rm s (norm_p0 p0) (norm_p1 p1)"
  let ?fr = "\<lambda>(p, e, h, S). norm_p0 p0 \<le> p \<and> p < norm_p1 p1 \<and> S = {s}"
  have t: "?t < kv_n_stream kv" using D(9) [OF s] .
  obtain c' where c': "over_cells (rm_cell s (norm_p0 p0) (norm_p1 p1)) (kv_cells kv ! ?t) =
      Some (first_freed ?fr (kv_cells kv ! ?t), c')" "maps_cells ?g (kv_cells kv ! ?t) c'"
    using over_cells_loop [of "kv_cells kv ! ?t" "\<lambda>_. True" "rm_cell s (norm_p0 p0) (norm_p1 p1)" ?fr ?g]
      rm_cell_step [OF _ _ D(10) [OF s] D(11) [OF s]] D(5) [OF t] by blast
  have "lower_head (first_freed ?fr (kv_cells kv ! ?t)) c' (kv_heads kv ! ?t) \<le> kv_size kv"
    using D(7) [OF t] by (simp add: lower_head_def)
  from kv_maps1_put [OF inv t c'(2) good_rm this] show ?thesis
    using c'(1) t s D(1-4,10,12) by (auto simp: kv_seq_rm_def seq_ok_def)
qed

lemma kv_seq_keep_spec:
  assumes inv: "cache_inv kv" and s: "seq_ok kv s"
  shows "\<exists>kv'. kv_seq_keep s kv = Some kv' \<and> kv_maps1 (g_keep s) (strm kv s) kv kv'"
proof -
  note D = cache_invD [OF inv]
  let ?t = "strm kv s"
  let ?fr = "\<lambda>(p, e, h, S). s \<notin> S \<and> S \<noteq> {}"
  have t: "?t < kv_n_stream kv" using D(9) [OF s] .
  have "\<forall>i < cells_size (kv_cells kv ! ?t). case cells_cell (kv_cells kv ! ?t) i of (p, e, h, S) \<Rightarrow> S = {} \<longrightarrow> p = -1"
    using D(6) [OF t] cell_good_busy [OF D(8) [OF t]] by simp
  then have "\<exists>c'. over_cells (keep_cell s) (kv_cells kv ! ?t) = Some (first_freed ?fr (kv_cells kv ! ?t), c') \<and>
      maps_cells (g_keep s) (kv_cells kv ! ?t) c'"
    by (rule over_cells_loop [OF D(5) [OF t]]) (rule keep_cell_step [OF _ _ D(10) [OF s] D(11) [OF s]])
  then obtain c' where c': "over_cells (keep_cell s) (kv_cells kv ! ?t) =
      Some (first_freed ?fr (kv_cells kv ! ?t), c')" "maps_cells (g_keep s) (kv_cells kv ! ?t) c'" by blast
  have "lower_head (first_freed ?fr (kv_cells kv ! ?t)) c' (kv_heads kv ! ?t) \<le> kv_size kv"
    using D(7) [OF t] by (simp add: lower_head_def)
  from kv_maps1_put [OF inv t c'(2) good_keep this] show ?thesis
    using c'(1) t D(1,3,4) D(12) [OF s] by (auto simp: kv_seq_keep_def)
qed

lemma kv_put_same: "t < length (kv_cells kv) \<Longrightarrow> t < length (kv_heads kv) \<Longrightarrow>
    kv_put t (kv_cells kv ! t) (kv_heads kv ! t) kv = kv"
  by (simp add: kv_put_def)

lemma kv_maps1_id:
  assumes inv: "cache_inv kv" and t: "t < kv_n_stream kv"
    and g: "\<forall>i < kv_size kv. g (cells_cell (kv_cells kv ! t) i) = cells_cell (kv_cells kv ! t) i"
  shows "kv_maps1 g t kv kv"
  using assms cache_invD [OF inv] by (simp add: kv_maps1_def maps_cells_def)

lemma kv_seq_add_spec:
  assumes inv: "cache_inv kv" and s: "seq_ok kv s" and n: "kv_n_pos kv = 1"
  shows "\<exists>kv'. kv_seq_add s p0 p1 d kv = Some kv' \<and> kv_maps1 (g_add s (norm_p0 p0) (norm_p1 p1) d) (strm kv s) kv kv'"
proof -
  note D = cache_invD [OF inv]
  let ?t = "strm kv s" and ?g = "g_add s (norm_p0 p0) (norm_p1 p1) d"
  let ?fr = "\<lambda>(p, e, h, S). norm_p0 p0 \<le> p \<and> p < norm_p1 p1 \<and> s \<in> S \<and> p + d < 0"
  have t: "?t < kv_n_stream kv" using D(9) [OF s] .
  have pos: "0 \<le> fst (cells_cell (kv_cells kv ! ?t) i)" if "norm_p0 p0 \<le> fst (cells_cell (kv_cells kv ! ?t) i)" for i
    using that norm_p0_nonneg [of p0] by linarith
  show ?thesis
  proof (cases "d = 0 \<or> norm_p0 p0 = norm_p1 p1")
    case True
    have "?g (cells_cell (kv_cells kv ! ?t) i) = cells_cell (kv_cells kv ! ?t) i" for i
      using True pos [of i] by (cases "cells_cell (kv_cells kv ! ?t) i") auto
    then have "kv_maps1 ?g ?t kv kv" using inv t by (intro kv_maps1_id) auto
    moreover have "kv_seq_add s p0 p1 d kv = Some kv"
      using True t n D(1,3,4) D(12) [OF s] by (auto simp: kv_seq_add_def)
    ultimately show ?thesis by blast
  next
    case False
    obtain c' where c': "over_cells (add_cell s (norm_p0 p0) (norm_p1 p1) d) (kv_cells kv ! ?t) =
        Some (first_freed ?fr (kv_cells kv ! ?t), c')" "maps_cells ?g (kv_cells kv ! ?t) c'"
      using over_cells_loop [of "kv_cells kv ! ?t" "\<lambda>_. True" "add_cell s (norm_p0 p0) (norm_p1 p1) d" ?fr ?g]
        add_cell_step [OF _ _ D(10) [OF s] D(11) [OF s]] D(5) [OF t] by blast
    have "(if first_freed ?fr (kv_cells kv ! ?t) \<noteq> cells_size c' then first_freed ?fr (kv_cells kv ! ?t) else 0) \<le> kv_size kv"
      using first_freed_le [of ?fr "kv_cells kv ! ?t"] D(6) [OF t] by simp
    from kv_maps1_put [OF inv t c'(2) good_add this] show ?thesis
      using c'(1) t n False D(1,3,4) D(12) [OF s] by (auto simp: kv_seq_add_def)
  qed
qed

lemma kv_cells_upd_put: "t < length (kv_heads kv) \<Longrightarrow>
    kv\<lparr>kv_cells := (kv_cells kv)[t := c]\<rparr> = kv_put t c (kv_heads kv ! t) kv"
  by (simp add: kv_put_def)

lemma kv_seq_div_spec:
  assumes inv: "cache_inv kv" and s: "seq_ok kv s" and n: "kv_n_pos kv = 1" and d: "0 < d"
  shows "\<exists>kv'. kv_seq_div s p0 p1 d kv = Some kv' \<and> kv_maps1 (g_div s (norm_p0 p0) (norm_p1 p1) d) (strm kv s) kv kv'"
proof -
  note D = cache_invD [OF inv]
  let ?t = "strm kv s" and ?g = "g_div s (norm_p0 p0) (norm_p1 p1) d"
  have t: "?t < kv_n_stream kv" using D(9) [OF s] .
  show ?thesis
  proof (cases "d = 1 \<or> norm_p0 p0 = norm_p1 p1")
    case True
    have "?g (cells_cell (kv_cells kv ! ?t) i) = cells_cell (kv_cells kv ! ?t) i" for i
      using True by (cases "cells_cell (kv_cells kv ! ?t) i") auto
    then have "kv_maps1 ?g ?t kv kv" using inv t by (intro kv_maps1_id) auto
    moreover have "kv_seq_div s p0 p1 d kv = Some kv"
      using True t n D(1,3,4) D(12) [OF s] by (auto simp: kv_seq_div_def)
    ultimately show ?thesis by blast
  next
    case False
    obtain c' where c': "ofold (div_cell s (norm_p0 p0) (norm_p1 p1) d) [0..<cells_size (kv_cells kv ! ?t)] (kv_cells kv ! ?t) =
        Some c'" "maps_cells ?g (kv_cells kv ! ?t) c'"
      using cells_loop [of "kv_cells kv ! ?t" "\<lambda>_. True" "div_cell s (norm_p0 p0) (norm_p1 p1) d" ?g]
        div_cell_step [OF _ _ D(10) [OF s] D(11) [OF s] d] D(5) [OF t] by blast
    from kv_maps1_put [OF inv t c'(2) good_div D(7) [OF t]] show ?thesis
      using c'(1) t n False D(1,3,4) D(12) [OF s] kv_cells_upd_put [of ?t kv c'] by (auto simp: kv_seq_div_def)
  qed
qed

text \<open>Within a stream, \<open>seq_cp\<close> needs the destination absent from the cells it is added to.\<close>

lemma kv_seq_cp_same_spec:
  assumes inv: "cache_inv kv" and s: "seq_ok kv src" "seq_ok kv dst" "strm kv src = strm kv dst" "src \<noteq> dst"
    and new: "\<forall>i < kv_size kv. case cells_cell (kv_cells kv ! strm kv src) i of
      (p, e, h, S) \<Rightarrow> norm_p0 p0 \<le> p \<and> p < norm_p1 p1 \<and> src \<in> S \<longrightarrow> dst \<notin> S"
  shows "\<exists>kv'. kv_seq_cp src dst p0 p1 kv = Some kv' \<and>
    kv_maps1 (g_cp src dst (norm_p0 p0) (norm_p1 p1)) (strm kv src) kv kv'"
proof -
  note D = cache_invD [OF inv]
  let ?t = "strm kv src" and ?g = "g_cp src dst (norm_p0 p0) (norm_p1 p1)"
  let ?P = "\<lambda>(p, e, h, S). norm_p0 p0 \<le> p \<and> p < norm_p1 p1 \<and> src \<in> S \<longrightarrow> dst \<notin> S"
  have t: "?t < kv_n_stream kv" using D(9) [OF s(1)] .
  obtain c' where c': "ofold (cp_cell src dst (norm_p0 p0) (norm_p1 p1)) [0..<cells_size (kv_cells kv ! ?t)] (kv_cells kv ! ?t) =
      Some c'" "maps_cells ?g (kv_cells kv ! ?t) c'"
    using cells_loop [of "kv_cells kv ! ?t" ?P "cp_cell src dst (norm_p0 p0) (norm_p1 p1)" ?g]
      cp_cell_step [OF _ _ D(10) [OF s(1)] D(11) [OF s(1)] D(10) [OF s(2)] D(11) [OF s(2)]] D(5,6) [OF t] new by auto
  have "kv_maps1 ?g ?t kv (kv_put ?t c' (kv_heads kv ! ?t) kv)"
    using kv_maps1_put [OF inv t c'(2) good_cp [OF s(2) s(3) [symmetric]] D(7) [OF t]] .
  then show ?thesis
    using c'(1) t s D(1,3,4) D(12) [OF s(1)] D(12) [OF s(2)] kv_cells_upd_put [of ?t kv c'] by (auto simp: kv_seq_cp_def)
qed


subsection \<open>Single cell updates as changes of one cell\<close>

lemma changes_cell_trans:
  assumes "changes_cell f i c d" "changes_cell g i d e"
  shows "changes_cell (g \<circ> f) i c e"
  using assms by (simp add: changes_cell_def)

lemma changes_cell_at:
  assumes "changes_cell f i c d" "i < cells_size c"
  shows "cells_cell d i = f (cells_cell c i)" "cells_inv d" "cells_size d = cells_size c"
  using assms by (simp_all add: changes_cell_def)

lemma changes_cell_cong: "changes_cell f i c d \<Longrightarrow> f (cells_cell c i) = g (cells_cell c i) \<Longrightarrow> changes_cell g i c d"
  by (auto simp: changes_cell_def)

lemma rm_change:
  assumes inv: "cells_inv c" "i < cells_size c" and "cells_cell c i = (p, e, h, S)" "p \<noteq> -1"
  shows "\<exists>d. cells_rm i c = Some d \<and> changes_cell (\<lambda>_. (-1, ext_reset, 0, {})) i c d"
proof -
  have "kc_pos c ! i \<noteq> -1" using assms(3,4) by (simp add: cells_cell_def)
  from cells_rm_spec [OF inv this] obtain d where
    d: "cells_rm i c = Some d" "cells_inv d" "data d = spec_clear i (data c)" by blast
  have "changes_cell (\<lambda>_. (-1, ext_reset, 0, {})) i c d"
    using d(3) by (intro changes_cellI [OF inv d(2)]) (auto simp: spec_clear_def data_def)
  with d(1) show ?thesis by blast
qed

lemma pos_set_change:
  assumes inv: "cells_inv c" "i < cells_size c" and "cells_cell c i = (-1, e, h, S)" and p: "0 \<le> p"
  shows "\<exists>d. cells_pos_set i p c = Some d \<and> changes_cell (\<lambda>_. (p, e, 0, {})) i c d"
proof -
  have "kc_pos c ! i = -1" using assms(3) by (simp add: cells_cell_def)
  from cells_pos_set_spec [OF inv this p] obtain d where
    d: "cells_pos_set i p c = Some d" "cells_inv d" "data d = spec_put i p (kc_ext c ! i) 0 {} (data c)" by blast
  have "changes_cell (\<lambda>_. (p, e, 0, {})) i c d"
    using d(3) assms(3) by (intro changes_cellI [OF inv d(2)]) (auto simp: data_def cells_cell_def)
  with d(1) show ?thesis by blast
qed

lemma seq_add_change:
  assumes inv: "cells_inv c" "i < cells_size c" and "cells_cell c i = (p, e, h, S)" "p \<noteq> -1" "s \<notin> S"
    and s: "0 \<le> s" "s < LLAMA_MAX_SEQ"
  shows "\<exists>d. cells_seq_add i s c = Some d \<and> changes_cell (\<lambda>_. (p, e, h, insert s S)) i c d"
proof -
  have "kc_pos c ! i \<noteq> -1" "s \<notin> kc_seq c ! i" using assms(3-5) by (auto simp: cells_cell_def)
  from cells_seq_add_spec [OF inv this(1) s this(2)] obtain d where
    d: "cells_seq_add i s c = Some d" "cells_inv d" "data d = spec_seq_add i s (data c)" by blast
  have "changes_cell (\<lambda>_. (p, e, h, insert s S)) i c d"
    using d(3) assms(3) by (intro changes_cellI [OF inv d(2)]) (auto simp: spec_seq_add_def data_def cells_cell_def)
  with d(1) show ?thesis by blast
qed

lemma pos_add_change:
  assumes inv: "cells_inv c" "i < cells_size c" and "cells_cell c i = (p, e, h, S)" "p \<noteq> -1" "0 \<le> p + x"
  shows "\<exists>d. cells_pos_add i x c = Some (False, d) \<and> changes_cell (\<lambda>_. (p + x, e, h + x, S)) i c d"
proof -
  have "kc_pos c ! i \<noteq> -1" using assms(3,4) by (simp add: cells_cell_def)
  from cells_pos_add_spec [OF inv this, of x] obtain d where
    d: "cells_pos_add i x c = Some (kc_pos c ! i + x < 0, d)" "cells_inv d" "data d = spec_pos_add i x (data c)" by blast
  have "changes_cell (\<lambda>_. (p + x, e, h + x, S)) i c d"
    using d(3) assms(3,5) by (intro changes_cellI [OF inv d(2)])
      (auto simp: spec_pos_add_def data_def cells_cell_def split: if_splits)
  with d(1) assms(3,5) show ?thesis by (auto simp: cells_cell_def)
qed

lemma ext_set_change:
  assumes inv: "cells_inv c" "i < cells_size c" and "cells_cell c i = (p, e, h, S)"
  shows "\<exists>d. cells_ext_set i x c = Some d \<and> changes_cell (\<lambda>_. (p, x, h, S)) i c d"
proof -
  from cells_ext_set_spec [OF inv, of x] obtain d where
    d: "cells_ext_set i x c = Some d" "cells_inv d"
      "data d = spec_put i (kc_pos c ! i) x (kc_shift c ! i) (kc_seq c ! i) (data c)" by blast
  have "changes_cell (\<lambda>_. (p, x, h, S)) i c d"
    using d(3) assms(3) by (intro changes_cellI [OF inv d(2)]) (auto simp: data_def cells_cell_def)
  with d(1) show ?thesis by blast
qed

lemma cell_queries:
  assumes "i < cells_size c" "cells_cell c i = (p, e, h, S)" "p \<noteq> -1"
  shows "cells_pos_get i c = Some p" "cells_ext_get i c = Some e" "cells_get_shift i c = Some h"
  using assms by (auto simp: cells_cell_def cells_pos_get_def cells_ext_get_def cells_get_shift_def)

text \<open>\<open>seq_cp\<close> between streams.\<close>

fun g_fill :: "llama_seq_id \<Rightarrow> llama_seq_id \<Rightarrow> cell \<Rightarrow> cell" where
  "g_fill src dst (p, e, h, S) = (if src \<in> S then (p, e, h, {dst}) else (-1, ext_reset, 0, {}))"

lemma cp_stream_cell_step:
  assumes inv: "cells_inv c0" "cells_inv c1" "i < cells_size c0" "cells_size c1 = cells_size c0"
    and s: "0 \<le> src" "src < LLAMA_MAX_SEQ" "0 \<le> dst" "dst < LLAMA_MAX_SEQ"
    and cell: "cells_cell c0 i = (p, e, h, S)" "src \<in> S \<longrightarrow> h \<le> p"
    and blank: "cells_cell c1 i = (-1, ext_reset, 0, {})"
  shows "\<exists>d. cp_stream_cell c0 src dst i c1 = Some d \<and> changes_cell (\<lambda>_. g_fill src dst (p, e, h, S)) i c1 d"
proof (cases "src \<in> S")
  case False
  then have "cp_stream_cell c0 src dst i c1 = Some c1"
    using inv s cell by (simp add: cp_stream_cell_def seq_has_run cells_cell_def)
  moreover have "changes_cell (\<lambda>_. g_fill src dst (p, e, h, S)) i c1 c1"
    using False inv blank by (intro changes_cell_id) auto
  ultimately show ?thesis by blast
next
  case True
  then have has: "cells_seq_has i src c0 = Some True" "p \<noteq> -1" "0 \<le> p"
    using inv s cell cells_invD(5) [OF inv(1,3)] seq_occupied [OF inv(1,3), of src]
    by (auto simp: seq_has_run cells_cell_def)
  have i1: "i < cells_size c1" using inv by simp
  obtain c2 where c2: "cells_pos_set i (p - h) c1 = Some c2" "changes_cell (\<lambda>_. (p - h, ext_reset, 0, {})) i c1 c2"
    using pos_set_change [OF inv(2) i1 blank, of "p - h"] cell(2) True by auto
  note c2' = changes_cell_at [OF c2(2) i1]
  obtain c3 where c3: "cells_seq_add i dst c2 = Some c3" "changes_cell (\<lambda>_. (p - h, ext_reset, 0, {dst})) i c2 c3"
    using seq_add_change [OF c2'(2) _ c2'(1) _ _ s(3,4)] i1 c2'(3) cell(2) True by auto
  have i2: "i < cells_size c2" using i1 c2'(3) by simp
  note c3' = changes_cell_at [OF c3(2) i2]
  have i3: "i < cells_size c3" using i2 c3'(3) by simp
  have "\<exists>c4. (if h \<noteq> 0 then map_option snd (cells_pos_add i h c3) else Some c3) = Some c4 \<and>
      changes_cell (\<lambda>_. (p, ext_reset, h, {dst})) i c3 c4"
  proof (cases "h = 0")
    case True
    then show ?thesis using c3' by (auto intro!: changes_cell_id)
  next
    case False
    then show ?thesis
      using pos_add_change [OF c3'(2) i3 c3'(1), of h] cell(2) True has(3) by auto
  qed
  then obtain c4 where c4: "(if h \<noteq> 0 then map_option snd (cells_pos_add i h c3) else Some c3) = Some c4"
    "changes_cell (\<lambda>_. (p, ext_reset, h, {dst})) i c3 c4" by blast
  note c4' = changes_cell_at [OF c4(2) i3]
  have i4: "i < cells_size c4" using i3 c4'(3) by simp
  obtain c5 where c5: "cells_ext_set i e c4 = Some c5" "changes_cell (\<lambda>_. (p, e, h, {dst})) i c4 c5"
    using ext_set_change [OF c4'(2) i4 c4'(1), of e] by auto
  have "cp_stream_cell c0 src dst i c1 = Some c5"
    using has cell(2) True c2(1) c3(1) c4(1) c5(1) cell_queries [OF inv(3) cell(1) has(2)]
    by (cases "h = 0") (auto simp: cp_stream_cell_def)
  moreover have "changes_cell (\<lambda>_. g_fill src dst (p, e, h, S)) i c1 c5"
    using changes_cell_trans [OF changes_cell_trans [OF changes_cell_trans [OF c2(2) c3(2)] c4(2)] c5(2)] True
    by (simp add: o_def)
  ultimately show ?thesis by blast
qed


lemma cells_reset_cell: "cells_inv c \<Longrightarrow> i < cells_size c \<Longrightarrow> cells_cell (cells_reset c) i = (-1, ext_reset, 0, {})"
  by (simp add: cells_reset_def cells_cell_def cells_inv_def cells_size_def)

lemma cells_reset_ok: "cells_inv c \<Longrightarrow> cells_inv (cells_reset c)"
  by (rule cells_reset_inv) (simp_all add: cells_inv_def)

lemma cp_stream_loop:
  assumes inv: "cells_inv c0" "cells_inv c1" "cells_size c1 = cells_size c0"
    and s: "0 \<le> src" "src < LLAMA_MAX_SEQ" "0 \<le> dst" "dst < LLAMA_MAX_SEQ"
    and shift: "\<forall>i < cells_size c0. case cells_cell c0 i of (p, e, h, S) \<Rightarrow> src \<in> S \<longrightarrow> h \<le> p"
  shows "\<exists>d. ofold (cp_stream_cell c0 src dst) [0..<cells_size c0] (cells_reset c1) = Some d \<and>
    maps_cells (g_fill src dst) c0 d"
proof -
  let ?I = "\<lambda>k d. cells_inv d \<and> cells_size d = cells_size c0 \<and>
    (\<forall>j < cells_size c0. cells_cell d j = (if j < k then g_fill src dst (cells_cell c0 j) else (-1, ext_reset, 0, {})))"
  have "\<exists>d. ofold (cp_stream_cell c0 src dst) [0..<cells_size c0] (cells_reset c1) = Some d \<and> ?I (cells_size c0) d"
  proof (rule ofold_upt_inv [where I = ?I])
    show "?I 0 (cells_reset c1)" using inv by (simp add: cells_reset_ok cells_reset_cell)
    fix i d assume i: "i < cells_size c0" and I: "?I i d"
    obtain p e h S where cl: "cells_cell c0 i = (p, e, h, S)" by (cases "cells_cell c0 i")
    have "src \<in> S \<longrightarrow> h \<le> p" using shift i cl by auto
    moreover have "cells_inv d" "cells_size d = cells_size c0" "cells_cell d i = (-1, ext_reset, 0, {})" using I i by auto
    ultimately obtain d' where "cp_stream_cell c0 src dst i d = Some d'" "changes_cell (\<lambda>_. g_fill src dst (p, e, h, S)) i d d'"
      using cp_stream_cell_step [OF inv(1) _ i _ s cl] by blast
    then show "\<exists>d'. cp_stream_cell c0 src dst i d = Some d' \<and> ?I (Suc i) d'"
      using I i cl by (auto simp: changes_cell_def less_Suc_eq)
  qed
  then show ?thesis by (auto simp: maps_cells_def)
qed

text \<open>Between streams the destination stream becomes a copy of the source sequence.\<close>

lemma kv_seq_cp_cross_spec:
  assumes inv: "cache_inv kv" and s: "seq_ok kv src" "seq_ok kv dst" "strm kv src \<noteq> strm kv dst"
    and full: "\<not> (p0 > 0 \<and> p0 + 1 < int (kv_size kv))" "\<not> (p1 > 0 \<and> p1 + 1 < int (kv_size kv))"
    and shift: "\<forall>i < kv_size kv. case cells_cell (kv_cells kv ! strm kv src) i of (p, e, h, S) \<Rightarrow> src \<in> S \<longrightarrow> h \<le> p"
  shows "\<exists>kv'. kv_seq_cp src dst p0 p1 kv = Some kv' \<and> cache_inv kv' \<and> same_config kv kv' \<and>
    maps_cells (g_fill src dst) (kv_cells kv ! strm kv src) (kv_cells kv' ! strm kv dst) \<and>
    (\<forall>u. u \<noteq> strm kv dst \<longrightarrow> kv_cells kv' ! u = kv_cells kv ! u)"
proof -
  note D = cache_invD [OF inv]
  let ?t0 = "strm kv src" and ?t1 = "strm kv dst"
  have t: "?t0 < kv_n_stream kv" "?t1 < kv_n_stream kv" using D(9) s by auto
  have size: "kv_get_size kv = Some (kv_size kv)"
    using inv D(2,3,6) by (auto simp: kv_get_size_def cache_inv_def)
  have sizes: "cells_size (kv_cells kv ! ?t0) = kv_size kv" "cells_size (kv_cells kv ! ?t1) = cells_size (kv_cells kv ! ?t0)"
    using D(6) t by simp_all
  obtain c' where c': "ofold (cp_stream_cell (kv_cells kv ! ?t0) src dst) [0..<cells_size (kv_cells kv ! ?t0)]
      (cells_reset (kv_cells kv ! ?t1)) = Some c'" "maps_cells (g_fill src dst) (kv_cells kv ! ?t0) c'"
    using cp_stream_loop [OF D(5) [OF t(1)] D(5) [OF t(2)] sizes(2) D(10) [OF s(1)] D(11) [OF s(1)]
        D(10) [OF s(2)] D(11) [OF s(2)] shift [folded sizes(1)]] by (elim exE conjE) (rule that)
  let ?kv1 = "kv\<lparr>kv_sc_info := \<lparr>sc_ssrc = sc_ssrc (kv_sc_info kv) @ [?t0], sc_sdst = sc_sdst (kv_sc_info kv) @ [?t1]\<rparr>\<rparr>"
  have config1: "same_config kv ?kv1" by (simp add: same_config_def kv_size_def)
  have size1: "kv_size ?kv1 = kv_size kv" by (simp add: kv_size_def)
  have "stream_ok ?kv1 = stream_ok kv" by (simp add: stream_ok_def same_config_good [OF config1] fun_eq_iff)
  then have inv1: "cache_inv ?kv1"
    using inv by (simp add: cache_inv_def size1)
  have "cell_good kv ?t1 (g_fill src dst cl)" for cl
    using s by (cases cl) (auto simp: cell_good_def seq_ok_def strm_def)
  then have "stream_ok ?kv1 ?t1 c'"
    using c'(2) by (auto simp: stream_ok_def maps_cells_def same_config_good [OF config1])
  moreover have "cells_size c' = kv_size ?kv1" using c'(2) D(6) [OF t(1)] by (simp add: maps_cells_def size1)
  moreover have "kv_heads kv ! ?t0 \<le> kv_size ?kv1" using D(7) [OF t(1)] by (simp add: size1)
  ultimately have "cache_inv (kv_put ?t1 c' (kv_heads kv ! ?t0) ?kv1)" "same_config ?kv1 (kv_put ?t1 c' (kv_heads kv ! ?t0) ?kv1)"
    "kv_cells (kv_put ?t1 c' (kv_heads kv ! ?t0) ?kv1) ! ?t1 = c'"
    "\<And>u. u \<noteq> ?t1 \<Longrightarrow> kv_cells (kv_put ?t1 c' (kv_heads kv ! ?t0) ?kv1) ! u = kv_cells kv ! u"
    using kv_put_inv [OF inv1, of ?t1 c' "kv_heads kv ! ?t0"] t(2) by auto
  moreover have "kv_seq_cp src dst p0 p1 kv = Some (kv_put ?t1 c' (kv_heads kv ! ?t0) ?kv1)"
    using c'(1) t s(3) full size D(1,3,4) D(12) [OF s(1)] D(12) [OF s(2)]
    by (simp add: kv_seq_cp_def Let_def)
  moreover have "same_config kv (kv_put ?t1 c' (kv_heads kv ! ?t0) ?kv1)"
    using same_config_trans [OF config1 calculation(2)] .
  ultimately show ?thesis using c'(2) by auto
qed

lemma kv_clear_spec:
  assumes inv: "cache_inv kv"
  shows "cache_inv (kv_clear kv)" "same_config kv (kv_clear kv)"
    "t < kv_n_stream kv \<Longrightarrow> kv_cells (kv_clear kv) ! t = cells_reset (kv_cells kv ! t)"
    "t < kv_n_stream kv \<Longrightarrow> kv_heads (kv_clear kv) ! t = 0"
proof -
  note D = cache_invD [OF inv]
  have cells: "kv_cells (kv_clear kv) = map cells_reset (kv_cells kv)" "kv_heads (kv_clear kv) = replicate (kv_n_stream kv) 0"
    using D(3,4) by (simp_all add: kv_clear_def)
  then show at: "kv_cells (kv_clear kv) ! t = cells_reset (kv_cells kv ! t)" "kv_heads (kv_clear kv) ! t = 0"
    if "t < kv_n_stream kv" for t using that D(3) by simp_all
  have size: "kv_size (kv_clear kv) = kv_size kv" using at(1) [OF D(2)] by (simp add: kv_size_def)
  then show config: "same_config kv (kv_clear kv)" by (simp add: same_config_def kv_clear_def)
  have "stream_ok kv t (cells_reset (kv_cells kv ! t))" if "t < kv_n_stream kv" for t
    using D(5) [OF that] by (simp add: stream_ok_def cells_reset_ok cells_reset_cell cell_good_def)
  then have "stream_ok (kv_clear kv) t (kv_cells (kv_clear kv) ! t)" if "t < kv_n_stream kv" for t
    using that by (simp add: at stream_ok_def same_config_good [OF config])
  then show "cache_inv (kv_clear kv)"
    using inv at size D(3,4) same_configD [OF config]
    by (simp add: cache_inv_def) (simp add: kv_clear_def)
qed

text \<open>\<open>seq_rm(-1, ...)\<close>: all sequences, all streams.\<close>

lemma kv_seq_rm_all_spec:
  assumes inv: "cache_inv kv"
  shows "\<exists>kv'. kv_seq_rm (-1) p0 p1 kv = Some (True, kv') \<and> cache_inv kv' \<and> same_config kv kv' \<and>
    (\<forall>t < kv_n_stream kv. maps_cells (g_rm_any (norm_p0 p0) (norm_p1 p1)) (kv_cells kv ! t) (kv_cells kv' ! t))"
proof -
  let ?g = "g_rm_any (norm_p0 p0) (norm_p1 p1)"
  let ?fr = "\<lambda>(p, e, h, S). norm_p0 p0 \<le> p \<and> p < norm_p1 p1"
  let ?f = "\<lambda>t kv. do {
            c \<leftarrow> at_idx (kv_cells kv) t;
            head \<leftarrow> at_idx (kv_heads kv) t;
            (new_head, c) \<leftarrow> over_cells (rm_any_cell (norm_p0 p0) (norm_p1 p1)) c;
            Some (kv_put t c (lower_head new_head c head) kv) }"
  let ?I = "\<lambda>k kv'. cache_inv kv' \<and> same_config kv kv' \<and>
    (\<forall>t < kv_n_stream kv. if t < k then maps_cells ?g (kv_cells kv ! t) (kv_cells kv' ! t)
      else kv_cells kv' ! t = kv_cells kv ! t)"
  have "\<exists>kv'. ofold ?f [0..<kv_n_stream kv] kv = Some kv' \<and> ?I (kv_n_stream kv) kv'"
  proof (rule ofold_upt_inv [where I = ?I])
    show "?I 0 kv" using inv by simp
    fix t kv1 assume t: "t < kv_n_stream kv" and I: "?I t kv1"
    then have inv1: "cache_inv kv1" and t1: "t < kv_n_stream kv1" by (auto dest: same_configD(1))
    note D = cache_invD [OF inv1]
    obtain c' where c': "over_cells (rm_any_cell (norm_p0 p0) (norm_p1 p1)) (kv_cells kv1 ! t) =
        Some (first_freed ?fr (kv_cells kv1 ! t), c')" "maps_cells ?g (kv_cells kv1 ! t) c'"
      using over_cells_loop [of "kv_cells kv1 ! t" "\<lambda>_. True" "rm_any_cell (norm_p0 p0) (norm_p1 p1)" ?fr ?g]
        rm_any_cell_step [OF _ _ norm_p0_nonneg] D(5) [OF t1] by blast
    let ?kv2 = "kv_put t c' (lower_head (first_freed ?fr (kv_cells kv1 ! t)) c' (kv_heads kv1 ! t)) kv1"
    have "lower_head (first_freed ?fr (kv_cells kv1 ! t)) c' (kv_heads kv1 ! t) \<le> kv_size kv1"
      using D(7) [OF t1] by (simp add: lower_head_def)
    from kv_maps1_put [OF inv1 t1 c'(2) good_rm_any this]
    have "kv_maps1 ?g t kv1 ?kv2" .
    moreover have "same_config kv ?kv2"
      using I calculation same_config_trans unfolding kv_maps1_def by blast
    ultimately have "?I (Suc t) ?kv2"
      using I t by (auto simp: kv_maps1_def less_Suc_eq)
    moreover have "?f t kv1 = Some ?kv2" using c'(1) t1 D(3,4) by simp
    ultimately show "\<exists>kv2. ?f t kv1 = Some kv2 \<and> ?I (Suc t) kv2" by blast
  qed
  then show ?thesis
    using cache_invD(1) [OF inv] by (auto simp: kv_seq_rm_def Let_def)
qed


subsection \<open>The cache as a sequence memory\<close>

definition seq_view :: "kv_cache \<Rightarrow> llama_seq_id \<Rightarrow> llama_pos set" where
  "seq_view kv s = {p. \<exists>i < kv_size kv. \<exists>e h S. cells_cell (kv_cells kv ! strm kv s) i = (p, e, h, S) \<and> s \<in> S}"

lemma seq_view_scan:
  assumes "cache_inv kv" "seq_ok kv s"
  shows "seq_view kv s = set (scan_pos s (kv_cells kv ! strm kv s))"
  using cache_invD(6) [OF assms(1) cache_invD(9) [OF assms]]
  by (auto simp: seq_view_def set_scan_pos cells_cell_def)

lemma seq_view_queries:
  assumes "cache_inv kv" "seq_ok kv s"
  shows "kv_seq_pos_min s kv = Some (if seq_view kv s = {} then -1 else Min (seq_view kv s))"
    "kv_seq_pos_max s kv = Some (if seq_view kv s = {} then -1 else Max (seq_view kv s))"
    "finite (seq_view kv s)" "p \<in> seq_view kv s \<Longrightarrow> 0 \<le> p"
proof -
  note D = cache_invD [OF assms(1)]
  let ?c = "kv_cells kv ! strm kv s"
  have t: "strm kv s < kv_n_stream kv" using D(9) [OF assms(2)] .
  have empty: "scan_pos s ?c = [] \<longleftrightarrow> seq_view kv s = {}"
    unfolding seq_view_scan [OF assms] by simp
  show "kv_seq_pos_min s kv = Some (if seq_view kv s = {} then -1 else Min (seq_view kv s))"
    "kv_seq_pos_max s kv = Some (if seq_view kv s = {} then -1 else Max (seq_view kv s))"
    using t D(1,3) D(12) [OF assms(2)] empty
      cells_seq_pos_min_scan [OF D(5) [OF t] D(10) [OF assms(2)] D(11) [OF assms(2)]]
      cells_seq_pos_max_scan [OF D(5) [OF t] D(10) [OF assms(2)] D(11) [OF assms(2)]]
    by (auto simp: kv_seq_pos_min_def kv_seq_pos_max_def kv_query_stream_def seq_view_scan [OF assms])
  show "finite (seq_view kv s)" by (simp add: seq_view_scan [OF assms])
  show "0 \<le> p" if "p \<in> seq_view kv s"
  proof -
    obtain i where i: "i < kv_size kv" "kc_pos ?c ! i = p" "s \<in> kc_seq ?c ! i"
      using \<open>p \<in> seq_view kv s\<close> by (auto simp: seq_view_def cells_cell_def)
    have lt: "i < cells_size ?c" using i(1) D(6) [OF t] by simp
    show ?thesis using seq_occupied [OF D(5) [OF t] lt i(3)] cells_invD(5) [OF D(5) [OF t] lt] i(2) by auto
  qed
qed


lemma view_maps1:
  assumes inv: "cache_inv kv" and m: "kv_maps1 g t kv kv'" and r: "seq_ok kv r"
  shows "seq_view kv' r = (if strm kv r = t
    then {p. \<exists>i < kv_size kv. \<exists>e h S. g (cells_cell (kv_cells kv ! t) i) = (p, e, h, S) \<and> r \<in> S}
    else seq_view kv r)"
proof -
  have config: "same_config kv kv'" using m by (simp add: kv_maps1_def)
  have t: "strm kv r < kv_n_stream kv" using cache_invD(9) [OF inv r] .
  show ?thesis
  proof (cases "strm kv r = t")
    case True
    have "cells_cell (kv_cells kv' ! t) i = g (cells_cell (kv_cells kv ! t) i)" if "i < kv_size kv" for i
      using m that cache_invD(6) [OF inv t] True by (simp add: kv_maps1_def maps_cells_def)
    then show ?thesis
      using True by (auto simp: seq_view_def same_config_good2 [OF config] same_configD [OF config])
  next
    case False
    then show ?thesis
      using m by (simp add: seq_view_def same_config_good2 [OF config] same_configD [OF config] kv_maps1_def)
  qed
qed

lemma view_rm:
  assumes inv: "cache_inv kv" and m: "kv_maps1 (g_rm s p0 p1) (strm kv s) kv kv'" and r: "seq_ok kv r"
  shows "seq_view kv' r = (if r = s then {p \<in> seq_view kv s. \<not> (p0 \<le> p \<and> p < p1)} else seq_view kv r)"
proof -
  have g: "(\<exists>e h S. g_rm s p0 p1 cl = (p, e, h, S) \<and> r \<in> S) \<longleftrightarrow>
      (\<exists>e h S. cl = (p, e, h, S) \<and> r \<in> S) \<and> \<not> (r = s \<and> p0 \<le> p \<and> p < p1)" for cl p
    by (cases cl) auto
  have "seq_view kv' r = (if strm kv r = strm kv s
      then {p. \<exists>i < kv_size kv. (\<exists>e h S. cells_cell (kv_cells kv ! strm kv s) i = (p, e, h, S) \<and> r \<in> S) \<and>
        \<not> (r = s \<and> p0 \<le> p \<and> p < p1)} else seq_view kv r)"
    unfolding view_maps1 [OF inv m r] g ..
  then show ?thesis by (auto simp: seq_view_def)
qed

lemma view_cp:
  assumes inv: "cache_inv kv" and m: "kv_maps1 (g_cp src dst p0 p1) (strm kv src) kv kv'"
    and s: "strm kv src = strm kv dst" and r: "seq_ok kv r"
  shows "seq_view kv' r =
    (if r = dst then seq_view kv dst \<union> {p \<in> seq_view kv src. p0 \<le> p \<and> p < p1} else seq_view kv r)"
proof -
  have g: "(\<exists>e h S. g_cp src dst p0 p1 cl = (p, e, h, S) \<and> r \<in> S) \<longleftrightarrow>
      (\<exists>e h S. cl = (p, e, h, S) \<and> r \<in> S) \<or>
      (r = dst \<and> p0 \<le> p \<and> p < p1 \<and> (\<exists>e h S. cl = (p, e, h, S) \<and> src \<in> S))" for cl p
    by (cases cl) auto
  have "seq_view kv' r = (if strm kv r = strm kv src
      then {p. \<exists>i < kv_size kv. (\<exists>e h S. cells_cell (kv_cells kv ! strm kv src) i = (p, e, h, S) \<and> r \<in> S) \<or>
        (r = dst \<and> p0 \<le> p \<and> p < p1 \<and> (\<exists>e h S. cells_cell (kv_cells kv ! strm kv src) i = (p, e, h, S) \<and> src \<in> S))}
      else seq_view kv r)"
    unfolding view_maps1 [OF inv m r] g ..
  then show ?thesis using s by (auto simp: seq_view_def)
qed

lemma kv_maps1_ok: "kv_maps1 g t kv kv' \<Longrightarrow> seq_ok kv' r = seq_ok kv r"
  using same_config_good2(2) [of kv kv'] by (simp add: kv_maps1_def)

interpretation kv_mem: seq_memory cache_inv seq_ok seq_view kv_seq_rm kv_seq_pos_min kv_seq_pos_max
proof
  fix kv s p0 p1
  assume inv: "cache_inv kv" and s: "seq_ok kv s"
  from kv_seq_rm_spec [OF inv s, of p0 p1] obtain kv' where
    kv': "kv_seq_rm s p0 p1 kv = Some (True, kv')" "kv_maps1 (g_rm s (norm_p0 p0) (norm_p1 p1)) (strm kv s) kv kv'" by blast
  then show "\<exists>kv'. kv_seq_rm s p0 p1 kv = Some (True, kv') \<and> cache_inv kv' \<and> (\<forall>r. seq_ok kv' r = seq_ok kv r) \<and>
      (\<forall>r. seq_ok kv r \<longrightarrow> seq_view kv' r =
        (if r = s then {p \<in> seq_view kv s. \<not> (norm_p0 p0 \<le> p \<and> p < norm_p1 p1)} else seq_view kv r))"
    using view_rm [OF inv kv'(2)] kv_maps1_ok [OF kv'(2)] by (auto simp: kv_maps1_def)
qed (use seq_view_queries in auto)

text \<open>A cache with one stream also forks sequences.\<close>

definition unified_inv :: "kv_cache \<Rightarrow> bool" where
  "unified_inv kv \<longleftrightarrow> cache_inv kv \<and> kv_n_stream kv = 1"

lemma unified_strm: "unified_inv kv \<Longrightarrow> seq_ok kv s \<Longrightarrow> strm kv s = 0"
  using cache_invD(9) [of kv s] by (simp add: unified_inv_def)

interpretation kv_fork: seq_memory_cp unified_inv seq_ok seq_view kv_seq_rm kv_seq_pos_min kv_seq_pos_max kv_seq_cp
proof
  fix kv s p0 p1
  assume u: "unified_inv kv" and s: "seq_ok kv s"
  then have inv: "cache_inv kv" by (simp add: unified_inv_def)
  show "finite (seq_view kv s)" "kv_seq_pos_min s kv = Some (if seq_view kv s = {} then -1 else Min (seq_view kv s))"
    "kv_seq_pos_max s kv = Some (if seq_view kv s = {} then -1 else Max (seq_view kv s))"
    using seq_view_queries [OF inv s] by auto
  from kv_seq_rm_spec [OF inv s, of p0 p1] obtain kv' where
    kv': "kv_seq_rm s p0 p1 kv = Some (True, kv')" "kv_maps1 (g_rm s (norm_p0 p0) (norm_p1 p1)) (strm kv s) kv kv'" by blast
  then have "unified_inv kv'" using u same_configD(1) [of kv kv'] by (auto simp: unified_inv_def kv_maps1_def)
  then show "\<exists>kv'. kv_seq_rm s p0 p1 kv = Some (True, kv') \<and> unified_inv kv' \<and> (\<forall>r. seq_ok kv' r = seq_ok kv r) \<and>
      (\<forall>r. seq_ok kv r \<longrightarrow> seq_view kv' r =
        (if r = s then {p \<in> seq_view kv s. \<not> (norm_p0 p0 \<le> p \<and> p < norm_p1 p1)} else seq_view kv r))"
    using kv'(1) view_rm [OF inv kv'(2)] kv_maps1_ok [OF kv'(2)] by auto
next
  fix kv src dst p0 p1
  assume u: "unified_inv kv" and s: "seq_ok kv src" "seq_ok kv dst" "src \<noteq> dst" and empty: "seq_view kv dst = {}"
  then have inv: "cache_inv kv" by (simp add: unified_inv_def)
  note strm = unified_strm [OF u s(1)] unified_strm [OF u s(2)]
  have "\<forall>i < kv_size kv. case cells_cell (kv_cells kv ! strm kv src) i of
      (p, e, h, S) \<Rightarrow> norm_p0 p0 \<le> p \<and> p < norm_p1 p1 \<and> src \<in> S \<longrightarrow> dst \<notin> S"
    using empty strm by (auto simp: seq_view_def)
  from kv_seq_cp_same_spec [OF inv s(1,2) _ s(3) this] strm obtain kv' where
    kv': "kv_seq_cp src dst p0 p1 kv = Some kv'"
      "kv_maps1 (g_cp src dst (norm_p0 p0) (norm_p1 p1)) (strm kv src) kv kv'" by auto
  have "unified_inv kv'" using u kv'(2) same_configD(1) [of kv kv'] by (auto simp: unified_inv_def kv_maps1_def)
  moreover have "strm kv src = strm kv dst" using strm by simp
  ultimately show "\<exists>kv'. kv_seq_cp src dst p0 p1 kv = Some kv' \<and> unified_inv kv' \<and> (\<forall>r. seq_ok kv' r = seq_ok kv r) \<and>
      (\<forall>r. seq_ok kv r \<longrightarrow> seq_view kv' r =
        (if r = dst then {p \<in> seq_view kv src. norm_p0 p0 \<le> p \<and> p < norm_p1 p1} else seq_view kv r))"
    using kv'(1) view_cp [OF inv kv'(2)] kv_maps1_ok [OF kv'(2)] empty by auto
next
  fix kv s p
  assume "unified_inv kv" "seq_ok kv s" "p \<in> seq_view kv s"
  then show "0 \<le> p" using seq_view_queries(4) [of kv s p] by (simp add: unified_inv_def)
qed

end
