(* ===== verification/KvPlace.thy ===== *)
theory KvPlace
  imports KvCache
begin

section \<open>Placing ubatches in the KV cache (\<open>src/llama-kv-cache.cpp\<close>)\<close>

text \<open>
  What \<open>find_slot\<close>, \<open>apply_ubatch\<close> and \<open>prepare\<close> of \<open>KvCache\<close> do: which cells a slot has, what the
  cache holds after a ubatch is placed, and that \<open>prepare\<close> leaves the cache as it was.
\<close>

subsection \<open>Finding a slot\<close>

definition swa_ok :: "kv_cache \<Rightarrow> bool" where
  "swa_ok kv \<longleftrightarrow> (kv_swa_type kv = Swa_chunked \<longrightarrow> kv_n_swa kv \<noteq> 0)"

lemma is_masked_swa_total: "0 \<le> p0 \<Longrightarrow> 0 \<le> p1 \<Longrightarrow> (t = Swa_chunked \<longrightarrow> n \<noteq> 0) \<Longrightarrow> \<exists>b. is_masked_swa n t p0 p1 = Some b"
  by (cases t) (auto simp: is_masked_swa_def Let_def)

text \<open>A masked position stays masked when it is lowered or the querying position raised.\<close>

lemma is_masked_swa_mono:
  assumes "is_masked_swa n t p q = Some True" "0 \<le> p'" "p' \<le> p" "q \<le> q'" "p \<le> q"
  shows "is_masked_swa n t p' q' = Some True"
proof (cases t)
  case Swa_none
  then show ?thesis using assms by (simp add: is_masked_swa_def run_simps split: if_splits)
next
  case Swa_standard
  then show ?thesis using assms by (simp add: is_masked_swa_def run_simps split: if_splits)
next
  case Swa_chunked
  then have "0 < int n" using assms(1) by (simp add: is_masked_swa_def run_simps split: if_splits)
  then have "q div int n * int n \<le> q' div int n * int n"
    using assms(4) zdiv_mono1 [of q q' "int n"] by (intro mult_right_mono) auto
  moreover have "p < q div int n * int n" "n \<noteq> 0"
    using Swa_chunked assms(1) by (simp_all add: is_masked_swa_def run_simps split: if_splits)
  ultimately have "p' < q' div int n * int n" using assms(3) by linarith
  then show ?thesis using Swa_chunked assms(2-5) \<open>n \<noteq> 0\<close> by (simp add: is_masked_swa_def run_simps)
next
  case Swa_symmetric
  then show ?thesis using assms by (auto simp: is_masked_swa_def run_simps Let_def split: if_splits)
qed

text \<open>A cell that can be used is empty, or holds one sequence at a masked position.\<close>

definition usable :: "kv_cache \<Rightarrow> nat \<Rightarrow> nat \<Rightarrow> bool" where
  "usable kv t i \<longleftrightarrow> cell_usable (kv_n_swa kv) (kv_swa_type kv) (kv_cells kv ! t) i = Some True"

lemma cells_inv_pos: "cells_inv c \<Longrightarrow> i < cells_size c \<Longrightarrow> kc_pos c ! i = -1 \<or> 0 \<le> kc_pos c ! i"
  by (force simp: cells_inv_def)

lemma cell_usable_cases:
  assumes inv: "cells_inv c" "i < cells_size c" and swa: "swa = Swa_chunked \<longrightarrow> n \<noteq> 0"
  shows "cell_usable n swa c i = Some (kc_pos c ! i = -1 \<or>
    (kc_pos c ! i \<noteq> -1 \<and> (\<exists>s. kc_seq c ! i = {s} \<and> is_masked_swa n swa (kc_pos c ! i) (Max (set (scan_pos s c)) + 1) = Some True)))"
proof -
  let ?p = "kc_pos c ! i"
  have e: "cells_is_empty i c = Some (?p = -1)"
    using inv cells_inv_pos [OF inv] by (auto simp: cells_is_empty_def)
  show ?thesis
  proof (cases "?p = -1")
    case True
    then show ?thesis using e by (simp add: cell_usable_def)
  next
    case False
    then have p: "0 \<le> ?p" using cells_inv_pos [OF inv] by simp
    have cnt: "cells_seq_count i c = Some (card (kc_seq c ! i))" "cells_pos_get i c = Some ?p"
      using False inv by (simp_all add: cells_seq_count_def cells_pos_get_def)
    show ?thesis
    proof (cases "\<exists>s. kc_seq c ! i = {s}")
      case True
      then obtain s where s: "kc_seq c ! i = {s}" by blast
      have range: "0 \<le> s" "s < LLAMA_MAX_SEQ" using cells_invD(6) [OF inv] s by auto
      have mem: "?p \<in> set (scan_pos s c)" using inv s by (auto simp: set_scan_pos)
      have mx: "cells_seq_pos_max s c = Some (Max (set (scan_pos s c)))"
        using cells_seq_pos_max_scan [OF inv(1) range] mem by auto
      have "?p \<le> Max (set (scan_pos s c))" using mem by simp
      then obtain b where b: "is_masked_swa n swa ?p (Max (set (scan_pos s c)) + 1) = Some b"
        using is_masked_swa_total [of ?p "Max (set (scan_pos s c)) + 1" swa n] p swa by auto
      show ?thesis
        using e False cnt s mx b cells_seq_get_single [OF inv s] by (simp add: cell_usable_def)
    next
      case none: False
      then have "card (kc_seq c ! i) \<noteq> 1" by (auto simp: card_1_singleton_iff)
      then show ?thesis using e False cnt none by (auto simp: cell_usable_def)
    qed
  qed
qed


text \<open>The ubatches the cache is given: laid out stream by stream, each token in the sequences of its stream.\<close>

definition ub_n_seqs_for :: "kv_cache \<Rightarrow> llama_ubatch \<Rightarrow> nat" where
  "ub_n_seqs_for kv ub = (if kv_n_stream kv > 1 then ub_n_seqs_unq ub else 1)"

definition ub_ok :: "kv_cache \<Rightarrow> llama_ubatch \<Rightarrow> bool" where
  "ub_ok kv ub \<longleftrightarrow> (let k = ub_n_seqs_for kv ub; n = ub_n_tokens ub div k in
     0 < ub_n_tokens ub \<and> 0 < k \<and> ub_n_tokens ub mod k = 0 \<and> k \<le> length (ub_seq_id_unq ub) \<and>
     (\<forall>s < k. seq_ok kv (ub_seq_id_unq ub ! s)) \<and>
     distinct (map (strm kv) (take k (ub_seq_id_unq ub))) \<and>
     (kv_n_stream kv > 1 \<longrightarrow> (\<forall>s < k. ub_n_seq_id ub ! (s * n) = 1 \<and> ub_seq_id ub ! (s * n) ! 0 = ub_seq_id_unq ub ! s)) \<and>
     (\<forall>s < k. \<forall>ii < n. 0 \<le> ub_pos ub ! (s * n + ii) \<and> ub_seqs ub (s * n + ii) \<noteq> [] \<and>
        distinct (ub_seqs ub (s * n + ii)) \<and>
        (\<forall>q \<in> set (ub_seqs ub (s * n + ii)). seq_ok kv q \<and> strm kv q = strm kv (ub_seq_id_unq ub ! s))))"

text \<open>The slot \<open>find_slot\<close> looks for: per stream, the first usable cells from the head.\<close>

definition start_head :: "kv_cache \<Rightarrow> nat \<Rightarrow> nat \<Rightarrow> nat" where
  "start_head kv t n = (if kv_heads kv ! t > cells_get_used (kv_cells kv ! t) + 2 * n then 0 else kv_heads kv ! t)"

definition stream_pick :: "kv_cache \<Rightarrow> nat \<Rightarrow> nat \<Rightarrow> nat list option" where
  "stream_pick kv t n = pick_cells (usable kv t) (kv_size kv) (start_head kv t n) n"

lemma pick_cells_None_small: "sz < n \<Longrightarrow> pick_cells u sz h n = None"
  using length_filter_le [of u "ring sz h"] by (auto simp: pick_cells_def Let_def ring_def)

lemma stream_pick_run:
  assumes inv: "cache_inv kv" and swa: "swa_ok kv" and t: "t < kv_n_stream kv" and n: "0 < n" "n \<le> kv_size kv"
  shows "search_slot (cell_usable (kv_n_swa kv) (kv_swa_type kv) (kv_cells kv ! t)) (cells_size (kv_cells kv ! t))
      False n (start_head kv t n) 0 [] = Some (stream_pick kv t n)"
proof -
  note D = cache_invD [OF inv]
  have size: "cells_size (kv_cells kv ! t) = kv_size kv" using D(6) [OF t] .
  have swa': "kv_swa_type kv = Swa_chunked \<longrightarrow> kv_n_swa kv \<noteq> 0" using swa by (simp add: swa_ok_def)
  have use: "\<forall>i < kv_size kv. cell_usable (kv_n_swa kv) (kv_swa_type kv) (kv_cells kv ! t) i = Some (usable kv t i)"
    using cell_usable_cases [OF D(5) [OF t] _ swa'] size by (auto simp: usable_def)
  have "start_head kv t n \<le> kv_size kv" using D(7) [OF t] by (simp add: start_head_def)
  then show ?thesis
    unfolding size stream_pick_def using n
    by (intro search_slot_ring [OF use]) auto
qed

lemma find_streams_spec:
  assumes inv: "cache_inv kv" and swa: "swa_ok kv" and n: "0 < n"
    and ss: "\<forall>s \<in> set ss. s < length (ub_seq_id_unq ub) \<and> seq_ok kv (ub_seq_id_unq ub ! s) \<and>
      (kv_n_stream kv > 1 \<longrightarrow> ub_n_seq_id ub ! (s * n) = 1 \<and> ub_seq_id ub ! (s * n) ! 0 = ub_seq_id_unq ub ! s)"
  defines "tt s \<equiv> strm kv (ub_seq_id_unq ub ! s)"
  shows "find_streams kv ub False n ss res =
    (if \<forall>s \<in> set ss. stream_pick kv (tt s) n \<noteq> None
     then Some (fold (\<lambda>s r. r\<lparr>si_s0 := min (si_s0 r) (tt s), si_s1 := max (si_s1 r) (tt s),
       si_strm := (si_strm r)[s := tt s], si_idxs := (si_idxs r)[s := the (stream_pick kv (tt s) n)]\<rparr>) ss res)
     else Some si_none)"
  using ss
proof (induction ss arbitrary: res)
  case (Cons s ss)
  note D = cache_invD [OF inv]
  have s: "s < length (ub_seq_id_unq ub)" "seq_ok kv (ub_seq_id_unq ub ! s)" using Cons.prems by auto
  have t: "tt s < kv_n_stream kv" using D(9) [OF s(2)] by (simp add: tt_def)
  let ?res = "res\<lparr>si_s0 := min (si_s0 res) (tt s), si_s1 := max (si_s1 res) (tt s), si_strm := (si_strm res)[s := tt s]\<rparr>"
  have first: "find_streams kv ub False n (s # ss) res =
      (if n > kv_size kv then Some si_none else
        (case stream_pick kv (tt s) n of None \<Rightarrow> Some si_none
         | Some idxs \<Rightarrow> find_streams kv ub False n ss (?res\<lparr>si_idxs := (si_idxs res)[s := idxs]\<rparr>)))"
  proof -
    have head: "(if kv_heads kv ! tt s > cells_get_used (kv_cells kv ! tt s) + 2 * n then 0 else kv_heads kv ! tt s) =
        start_head kv (tt s) n" by (simp add: start_head_def)
    have "at_idx (ub_seq_id_unq ub) s = Some (ub_seq_id_unq ub ! s)" using s(1) by simp
    moreover have "kv_stream_of kv (ub_seq_id_unq ub ! s) = Some (tt s)" using D(12) [OF s(2)] by (simp add: tt_def)
    moreover have "at_idx (kv_cells kv) (tt s) = Some (kv_cells kv ! tt s)" "at_idx (kv_heads kv) (tt s) = Some (kv_heads kv ! tt s)"
      using t D(3,4) by simp_all
    moreover have "assrt (kv_n_stream kv > 1 \<longrightarrow> ub_n_seq_id ub ! (s * n) = 1 \<and>
        ub_seq_id ub ! (s * n) ! 0 = ub_seq_id_unq ub ! s) = Some ()"
      using Cons.prems by (simp add: assrt_def)
    ultimately show ?thesis
      using stream_pick_run [OF inv swa t n] D(6) [OF t]
      by (simp add: head Let_def cong: option.case_cong)
  qed
  show ?case
  proof (cases "stream_pick kv (tt s) n")
    case None
    then show ?thesis using first by (simp del: find_streams.simps)
  next
    case (Some idxs)
    then have "\<not> n > kv_size kv" using pick_cells_None_small by (auto simp: stream_pick_def)
    with first Some have step: "find_streams kv ub False n (s # ss) res =
        find_streams kv ub False n ss (?res\<lparr>si_idxs := (si_idxs res)[s := idxs]\<rparr>)"
      by (simp del: find_streams.simps)
    have "\<forall>s \<in> set ss. s < length (ub_seq_id_unq ub) \<and> seq_ok kv (ub_seq_id_unq ub ! s) \<and>
      (kv_n_stream kv > 1 \<longrightarrow> ub_n_seq_id ub ! (s * n) = 1 \<and> ub_seq_id ub ! (s * n) ! 0 = ub_seq_id_unq ub ! s)"
      using Cons.prems by simp
    note IH = Cons.IH [OF this]
    show ?thesis
      unfolding step IH by (simp add: Some del: not_None_eq)
  qed
qed simp

text \<open>The streams and the cells of the slot.\<close>

definition slot_ok :: "kv_cache \<Rightarrow> llama_ubatch \<Rightarrow> slot_info \<Rightarrow> bool" where
  "slot_ok kv ub si \<longleftrightarrow> (let k = ub_n_seqs_for kv ub; n = ub_n_tokens ub div k in
     si_strm si = map (strm kv) (take k (ub_seq_id_unq ub)) \<and>
     length (si_idxs si) = k \<and>
     (\<forall>s < k. length (si_idxs si ! s) = n \<and> distinct (si_idxs si ! s) \<and>
        (\<forall>i \<in> set (si_idxs si ! s). i < kv_size kv \<and> usable kv (si_strm si ! s) i)))"

lemma stream_pick_ok:
  assumes "0 < kv_size kv" "stream_pick kv t n = Some idxs"
  shows "length idxs = n" "distinct idxs" "i \<in> set idxs \<Longrightarrow> i < kv_size kv \<and> usable kv t i"
proof -
  let ?us = "filter (usable kv t) (ring (kv_size kv) (start_head kv t n))"
  have idxs: "idxs = take n ?us" and n: "n \<le> length ?us"
    using assms(2) by (auto simp: stream_pick_def pick_cells_def Let_def split: if_splits)
  show "length idxs = n" using n idxs by simp
  show "distinct idxs" using ring_props(1) [OF assms(1)] idxs by simp
  show "i \<in> set idxs \<Longrightarrow> i < kv_size kv \<and> usable kv t i"
    using idxs ring_props(2) [OF assms(1)] by (auto dest!: in_set_takeD)
qed

lemma fold_slots:
  assumes "\<forall>s \<in> set ss. s < length xs" "distinct ss"
  shows "si_strm (fold (\<lambda>s r. r\<lparr>si_s0 := min (si_s0 r) (f s), si_s1 := max (si_s1 r) (f s),
      si_strm := (si_strm r)[s := f s], si_idxs := (si_idxs r)[s := g s]\<rparr>) ss r) =
      map (\<lambda>i. if i \<in> set ss then f i else si_strm r ! i) [0..<length (si_strm r)]"
    "si_idxs (fold (\<lambda>s r. r\<lparr>si_s0 := min (si_s0 r) (f s), si_s1 := max (si_s1 r) (f s),
      si_strm := (si_strm r)[s := f s], si_idxs := (si_idxs r)[s := g s]\<rparr>) ss r) =
      map (\<lambda>i. if i \<in> set ss then g i else si_idxs r ! i) [0..<length (si_idxs r)]"
    "si_s0 (fold (\<lambda>s r. r\<lparr>si_s0 := min (si_s0 r) (f s), si_s1 := max (si_s1 r) (f s),
      si_strm := (si_strm r)[s := f s], si_idxs := (si_idxs r)[s := g s]\<rparr>) ss r) = fold (\<lambda>s m. min m (f s)) ss (si_s0 r)"
    "si_s1 (fold (\<lambda>s r. r\<lparr>si_s0 := min (si_s0 r) (f s), si_s1 := max (si_s1 r) (f s),
      si_strm := (si_strm r)[s := f s], si_idxs := (si_idxs r)[s := g s]\<rparr>) ss r) = fold (\<lambda>s m. max m (f s)) ss (si_s1 r)"
  by (induction ss arbitrary: r) (auto simp: nth_list_update map_nth intro!: nth_equalityI)

lemma fold_min_max_le:
  fixes f :: "'a \<Rightarrow> nat"
  shows "fold (\<lambda>s m. min m (f s)) ss a \<le> a" "s \<in> set ss \<Longrightarrow> fold (\<lambda>s m. min m (f s)) ss a \<le> f s"
    "b \<le> fold (\<lambda>s m. max m (f s)) ss b" "s \<in> set ss \<Longrightarrow> f s \<le> fold (\<lambda>s m. max m (f s)) ss b"
proof -
  show min: "fold (\<lambda>s m. min m (f s)) ss a \<le> a" for ss a
  proof (induction ss arbitrary: a)
    case (Cons s ss)
    from Cons [of "min a (f s)"] show ?case by simp
  qed simp
  show max: "b \<le> fold (\<lambda>s m. max m (f s)) ss b" for ss b
  proof (induction ss arbitrary: b)
    case (Cons s ss)
    from Cons [of "max b (f s)"] show ?case by simp
  qed simp
  show "s \<in> set ss \<Longrightarrow> fold (\<lambda>s m. min m (f s)) ss a \<le> f s"
  proof (induction ss arbitrary: a)
    case (Cons r ss)
    with min [of ss "min a (f r)"] show ?case by auto
  qed simp
  show "s \<in> set ss \<Longrightarrow> f s \<le> fold (\<lambda>s m. max m (f s)) ss b"
  proof (induction ss arbitrary: b)
    case (Cons r ss)
    with max [of "max b (f r)" ss] show ?case by auto
  qed simp
qed

definition ub_streams :: "kv_cache \<Rightarrow> llama_ubatch \<Rightarrow> nat list" where
  "ub_streams kv ub = map (strm kv) (take (ub_n_seqs_for kv ub) (ub_seq_id_unq ub))"

lemma ub_okD:
  assumes "ub_ok kv ub"
  defines "k \<equiv> ub_n_seqs_for kv ub"
  defines "n \<equiv> ub_n_tokens ub div k"
  shows "0 < k" "0 < n" "k * n = ub_n_tokens ub" "k \<le> length (ub_seq_id_unq ub)"
    "s < k \<Longrightarrow> seq_ok kv (ub_seq_id_unq ub ! s)"
    "distinct (map (strm kv) (take k (ub_seq_id_unq ub)))"
    "s < k \<Longrightarrow> kv_n_stream kv > 1 \<Longrightarrow> ub_n_seq_id ub ! (s * n) = 1 \<and> ub_seq_id ub ! (s * n) ! 0 = ub_seq_id_unq ub ! s"
    "s < k \<Longrightarrow> ii < n \<Longrightarrow> 0 \<le> ub_pos ub ! (s * n + ii) \<and> ub_seqs ub (s * n + ii) \<noteq> [] \<and>
        distinct (ub_seqs ub (s * n + ii)) \<and>
        (\<forall>q \<in> set (ub_seqs ub (s * n + ii)). seq_ok kv q \<and> strm kv q = strm kv (ub_seq_id_unq ub ! s))"
proof -
  have U: "0 < ub_n_tokens ub" "0 < k" "ub_n_tokens ub mod k = 0" "k \<le> length (ub_seq_id_unq ub)"
     "\<forall>s < k. seq_ok kv (ub_seq_id_unq ub ! s)"
     "distinct (map (strm kv) (take k (ub_seq_id_unq ub)))"
     "kv_n_stream kv > 1 \<longrightarrow> (\<forall>s < k. ub_n_seq_id ub ! (s * n) = 1 \<and> ub_seq_id ub ! (s * n) ! 0 = ub_seq_id_unq ub ! s)"
     "\<forall>s < k. \<forall>ii < n. 0 \<le> ub_pos ub ! (s * n + ii) \<and> ub_seqs ub (s * n + ii) \<noteq> [] \<and>
        distinct (ub_seqs ub (s * n + ii)) \<and>
        (\<forall>q \<in> set (ub_seqs ub (s * n + ii)). seq_ok kv q \<and> strm kv q = strm kv (ub_seq_id_unq ub ! s))"
    using assms(1) unfolding ub_ok_def k_def n_def Let_def by blast+
  show "k * n = ub_n_tokens ub" using U(3) by (simp add: n_def mod_eq_0_iff_dvd)
  then show "0 < n" using U(1) by (cases n) auto
  show "0 < k" "k \<le> length (ub_seq_id_unq ub)" "distinct (map (strm kv) (take k (ub_seq_id_unq ub)))"
    using U by blast+
  show "s < k \<Longrightarrow> seq_ok kv (ub_seq_id_unq ub ! s)" using U(5) by blast
  show "s < k \<Longrightarrow> kv_n_stream kv > 1 \<Longrightarrow> ub_n_seq_id ub ! (s * n) = 1 \<and> ub_seq_id ub ! (s * n) ! 0 = ub_seq_id_unq ub ! s"
    using U(7) by blast
  show "s < k \<Longrightarrow> ii < n \<Longrightarrow> 0 \<le> ub_pos ub ! (s * n + ii) \<and> ub_seqs ub (s * n + ii) \<noteq> [] \<and>
        distinct (ub_seqs ub (s * n + ii)) \<and>
        (\<forall>q \<in> set (ub_seqs ub (s * n + ii)). seq_ok kv q \<and> strm kv q = strm kv (ub_seq_id_unq ub ! s))"
    using U(8) by blast
qed

lemma find_slot_spec:
  assumes inv: "cache_inv kv" and swa: "swa_ok kv" and size: "0 < kv_size kv" and ub: "ub_ok kv ub"
  defines "n \<equiv> ub_n_tokens ub div ub_n_seqs_for kv ub"
  shows "\<exists>si. find_slot ub False kv = Some si \<and>
    (if \<forall>t \<in> set (ub_streams kv ub). stream_pick kv t n \<noteq> None
     then slot_ok kv ub si \<and> \<not> si_empty si \<and> si_idxs si = map (\<lambda>t. the (stream_pick kv t n)) (ub_streams kv ub)
     else si = si_none)"
proof -
  note D = cache_invD [OF inv] and U = ub_okD [OF ub]
  let ?k = "ub_n_seqs_for kv ub" and ?tt = "\<lambda>s. strm kv (ub_seq_id_unq ub ! s)"
  let ?r0 = "si_resize ?k \<lparr>si_s0 = nat LLAMA_MAX_SEQ, si_s1 = 0, si_strm = [], si_idxs = []\<rparr>"
  let ?slot = "fold (\<lambda>s r. r\<lparr>si_s0 := min (si_s0 r) (?tt s), si_s1 := max (si_s1 r) (?tt s),
       si_strm := (si_strm r)[s := ?tt s], si_idxs := (si_idxs r)[s := the (stream_pick kv (?tt s) n)]\<rparr>) [0..<?k] ?r0"
  have streams: "ub_streams kv ub = map ?tt [0..<?k]"
    using U(4) by (auto simp: ub_streams_def intro!: nth_equalityI)
  have ss: "\<forall>s \<in> set [0..<?k]. s < length (ub_seq_id_unq ub) \<and> seq_ok kv (ub_seq_id_unq ub ! s) \<and>
      (kv_n_stream kv > 1 \<longrightarrow> ub_n_seq_id ub ! (s * n) = 1 \<and> ub_seq_id ub ! (s * n) ! 0 = ub_seq_id_unq ub ! s)"
    using U(4,5,7) by (auto simp: n_def)
  have n: "0 < n" using U(2) by (simp add: n_def)
  note find = find_streams_spec [OF inv swa n ss, of ?r0]
  have slots: "si_strm ?slot = map ?tt [0..<?k]" "si_idxs ?slot = map (\<lambda>s. the (stream_pick kv (?tt s) n)) [0..<?k]"
    "si_s0 ?slot \<le> ?tt 0" "?tt 0 \<le> si_s1 ?slot"
    using U(1) fold_min_max_le(2) [of 0 "[0..<?k]" ?tt] fold_min_max_le(4) [of 0 "[0..<?k]" ?tt]
    by (simp_all add: fold_slots [of "[0..<?k]" "[0..<?k]"] si_resize_def vec_resize_def)
  have start: "(if kv_n_stream kv > 1 then do {
          assrt (ub_n_seqs_unq ub > 0 \<and> ub_n_tokens ub mod ub_n_seqs_unq ub = 0);
          Some (ub_n_tokens ub div ub_n_seqs_unq ub, ub_n_seqs_unq ub) }
        else Some (ub_n_tokens ub, 1)) = Some (n, ?k)"
  proof -
    have "ub_n_tokens ub mod ?k = 0" using ub unfolding ub_ok_def Let_def by blast
    then show ?thesis
      using U(1) unfolding n_def by (cases "kv_n_stream kv > 1") (simp_all add: ub_n_seqs_for_def assrt_def)
  qed
  have none: "si_empty si_none" by (simp add: si_empty_def si_none_def)
  show ?thesis
  proof (cases "\<forall>s \<in> set [0..<?k]. stream_pick kv (?tt s) n \<noteq> None")
    case True
    note trans [OF find if_P [OF True]]
    moreover have "si_s0 ?slot \<le> si_s1 ?slot" using slots(3,4) by (rule order_trans)
    ultimately have found: "find_slot ub False kv = Some ?slot"
      unfolding find_slot_def start by (simp only: bind.bind_lunit prod.case Let_def assrt_def if_True simp_thms)
    have full: "\<not> si_empty ?slot" using slots(2) U(1) by (simp add: si_empty_def)
    have ok: "slot_ok kv ub ?slot"
    proof -
      have pick: "length (the (stream_pick kv (?tt s) n)) = n \<and> distinct (the (stream_pick kv (?tt s) n)) \<and>
          (\<forall>i \<in> set (the (stream_pick kv (?tt s) n)). i < kv_size kv \<and> usable kv (?tt s) i)" if "s < ?k" for s
      proof -
        from that True have "stream_pick kv (?tt s) n = Some (the (stream_pick kv (?tt s) n))" by simp
        from stream_pick_ok [OF size this] show ?thesis by blast
      qed
      show ?thesis
        unfolding slot_ok_def Let_def slots(1,2) n_def [symmetric]
        using pick streams by (simp add: ub_streams_def)
    qed
    have idxs: "si_idxs ?slot = map (\<lambda>t. the (stream_pick kv t n)) (ub_streams kv ub)"
      unfolding slots streams by simp
    have all: "\<forall>t \<in> set (ub_streams kv ub). stream_pick kv t n \<noteq> None"
      using True unfolding streams by simp
    show ?thesis
      unfolding if_P [OF all] by (intro exI [of _ ?slot] conjI found ok full idxs)
  next
    case False
    note trans [OF find if_not_P [OF False]]
    then have "find_slot ub False kv = Some si_none"
      unfolding find_slot_def start by (simp only: bind.bind_lunit prod.case Let_def assrt_def none if_True simp_thms)
    moreover have "\<not> (\<forall>t \<in> set (ub_streams kv ub). stream_pick kv t n \<noteq> None)"
      using False unfolding streams by simp
    ultimately show ?thesis by (simp only: if_False) simp
  qed
qed


subsection \<open>Filling one cell\<close>

fun g_place :: "llama_pos \<Rightarrow> kv_cell_ext option \<Rightarrow> llama_seq_id list \<Rightarrow> cell \<Rightarrow> cell" where
  "g_place pos ex seqs (p, e, h, S) =
     (pos, (case ex of Some x \<Rightarrow> x | None \<Rightarrow> if p = -1 then e else ext_reset), 0, set seqs)"

fun note_rm :: "cell \<Rightarrow> (llama_seq_id \<Rightarrow> llama_pos) \<Rightarrow> llama_seq_id \<Rightarrow> llama_pos" where
  "note_rm (p, e, h, S) rm = (\<lambda>q. if p \<noteq> -1 \<and> q \<in> S then max (rm q) p else rm q)"

lemma seq_adds_change:
  assumes "cells_inv c" "i < cells_size c" "cells_cell c i = (p, e, h, S)" "p \<noteq> -1"
    and "distinct seqs" "set seqs \<inter> S = {}" "\<forall>q \<in> set seqs. 0 \<le> q \<and> q < LLAMA_MAX_SEQ"
  shows "\<exists>d. ofold (cells_seq_add i) seqs c = Some d \<and> changes_cell (\<lambda>_. (p, e, h, S \<union> set seqs)) i c d"
  using assms
proof (induction seqs arbitrary: c S)
  case Nil
  then show ?case by (auto intro: changes_cell_id)
next
  case (Cons q seqs)
  then obtain d where d: "cells_seq_add i q c = Some d" "changes_cell (\<lambda>_. (p, e, h, insert q S)) i c d"
    using seq_add_change [of c i p e h S q] by auto
  note at = changes_cell_at [OF d(2) Cons.prems(2)]
  obtain d' where d': "ofold (cells_seq_add i) seqs d = Some d'"
    "changes_cell (\<lambda>_. (p, e, h, insert q S \<union> set seqs)) i d d'"
    using Cons.IH [of d "insert q S"] at Cons.prems by auto
  have "changes_cell (\<lambda>_. (p, e, h, S \<union> set (q # seqs))) i c d'"
    using changes_cell_trans [OF d(2) d'(2)] by (simp add: o_def)
  with d(1) d'(1) show ?case by auto
qed

lemma fill_cell_spec:
  assumes inv: "cells_inv c" "i < cells_size c" and cl: "cells_cell c i = (p, e, h, S)"
    and one: "p \<noteq> -1 \<longrightarrow> (\<exists>q. S = {q})"
    and new: "0 \<le> pos" "distinct seqs" "\<forall>q \<in> set seqs. 0 \<le> q \<and> q < LLAMA_MAX_SEQ"
  shows "\<exists>d. fill_cell i pos ex seqs (rm, c) = Some (note_rm (p, e, h, S) rm, d) \<and>
    changes_cell (g_place pos ex seqs) i c d"
proof -
  let ?e = "if p = -1 then e else ext_reset" and ?x = "case ex of Some x \<Rightarrow> x | None \<Rightarrow> if p = -1 then e else ext_reset"
  have empty: "cells_is_empty i c = Some (p = -1)"
    using inv cells_inv_pos [OF inv] cl by (auto simp: cells_is_empty_def cells_cell_def)
  have blank: "p = -1 \<Longrightarrow> h = 0 \<and> S = {}"
    using cells_invD(7,8) [OF inv] cl by (auto simp: cells_cell_def)
  obtain c1 where c1: "(if p = -1 then Some (rm, c) else do {
       n \<leftarrow> cells_seq_count i c;
       assrt (n = 1);
       seq_id \<leftarrow> cells_seq_get i c;
       pos \<leftarrow> cells_pos_get i c;
       c \<leftarrow> cells_rm i c;
       Some (rm(seq_id := max (rm seq_id) pos), c) }) = Some (note_rm (p, e, h, S) rm, c1)"
    "changes_cell (\<lambda>_. (-1, ?e, 0, {})) i c c1"
  proof (cases "p = -1")
    case True
    then show ?thesis using blank cl inv by (intro that [of c]) (auto intro!: changes_cell_id)
  next
    case False
    then obtain q where q: "S = {q}" using one by blast
    obtain c1 where c1: "cells_rm i c = Some c1" "changes_cell (\<lambda>_. (-1, ext_reset, 0, {})) i c c1"
      using rm_change [OF inv cl False] by blast
    have "kc_seq c ! i = {q}" "kc_pos c ! i \<noteq> -1" using cl q False by (simp_all add: cells_cell_def)
    then have "cells_seq_count i c = Some 1" "cells_seq_get i c = Some q"
      using inv cells_seq_get_single [OF inv] by (simp_all add: cells_seq_count_def)
    moreover have "note_rm (p, e, h, S) rm = rm(q := max (rm q) p)"
      using False q by (auto simp: fun_eq_iff)
    ultimately show ?thesis
      using False c1 cell_queries(1) [OF inv(2) cl False] by (intro that [of c1]) simp_all
  qed
  note at1 = changes_cell_at [OF c1(2) inv(2)]
  have i1: "i < cells_size c1" using at1 inv by simp
  obtain c2 where c2: "cells_pos_set i pos c1 = Some c2" "changes_cell (\<lambda>_. (pos, ?e, 0, {})) i c1 c2"
    using pos_set_change [OF at1(2) i1 at1(1) new(1)] by blast
  note at2 = changes_cell_at [OF c2(2) i1]
  have i2: "i < cells_size c2" using at2 i1 by simp
  obtain c3 where c3: "(case ex of Some e \<Rightarrow> cells_ext_set i e c2 | None \<Rightarrow> Some c2) = Some c3"
    "changes_cell (\<lambda>_. (pos, ?x, 0, {})) i c2 c3"
  proof (cases ex)
    case None
    then show ?thesis using at2 by (intro that [of c2]) (auto intro!: changes_cell_id)
  next
    case (Some x)
    then show ?thesis using ext_set_change [OF at2(2) i2 at2(1), of x] that by auto
  qed
  note at3 = changes_cell_at [OF c3(2) i2]
  have i3: "i < cells_size c3" using at3 i2 by simp
  obtain d where d: "ofold (cells_seq_add i) seqs c3 = Some d" "changes_cell (\<lambda>_. (pos, ?x, 0, {} \<union> set seqs)) i c3 d"
    using seq_adds_change [OF at3(2) i3 at3(1) _ new(2) _ new(3)] new(1) by auto
  have "fill_cell i pos ex seqs (rm, c) = Some (note_rm (p, e, h, S) rm, d)"
    unfolding fill_cell_def prod.case empty bind.bind_lunit c1(1) c2(1) c3(1) d(1) ..
  moreover have "changes_cell (g_place pos ex seqs) i c d"
    by (rule changes_cell_cong [OF changes_cell_trans [OF changes_cell_trans [OF changes_cell_trans [OF c1(2) c2(2)] c3(2)] d(2)]])
      (simp add: cl)
  ultimately show ?thesis by blast
qed

lemma seq_pos_rm_flag: "cells_seq_pos_rm i c = Some d \<Longrightarrow> kc_has_shift d = kc_has_shift c"
  unfolding cells_seq_pos_rm_def
  by (rule ofold_preserves [where I = "\<lambda>d. kc_has_shift d = kc_has_shift c"])
    (auto simp: cells_seq_pos_dec_def Let_def split: if_splits option.splits)

lemma seq_add_flag: "cells_seq_add i s c = Some d \<Longrightarrow> kc_has_shift d = kc_has_shift c"
  by (auto simp: cells_seq_add_def cells_seq_pos_inc_def bind_assrt Let_def split: if_splits)

lemma cell_op_flags:
  "cells_rm i c = Some d \<Longrightarrow> kc_has_shift d = kc_has_shift c"
  "cells_pos_set i pos c = Some d \<Longrightarrow> kc_has_shift d = kc_has_shift c"
  "cells_ext_set i x c = Some d \<Longrightarrow> kc_has_shift d = kc_has_shift c"
  "ofold (cells_seq_add i) seqs c = Some d \<Longrightarrow> kc_has_shift d = kc_has_shift c"
proof -
  show "cells_rm i c = Some d \<Longrightarrow> kc_has_shift d = kc_has_shift c"
    by (auto simp: cells_rm_def bind_assrt Let_def split: if_splits bind_splits dest: seq_pos_rm_flag)
  show "cells_pos_set i pos c = Some d \<Longrightarrow> kc_has_shift d = kc_has_shift c"
    by (auto simp: cells_pos_set_def bind_assrt Let_def split: if_splits)
  show "cells_ext_set i x c = Some d \<Longrightarrow> kc_has_shift d = kc_has_shift c"
    by (auto simp: cells_ext_set_def bind_assrt Let_def split: if_splits)
  show "ofold (cells_seq_add i) seqs c = Some d \<Longrightarrow> kc_has_shift d = kc_has_shift c"
    by (rule ofold_preserves [where I = "\<lambda>d. kc_has_shift d = kc_has_shift c"]) (auto dest: seq_add_flag)
qed

lemma fill_cell_flag:
  assumes "fill_cell i pos ex seqs (rm, c) = Some (rm', d)"
  shows "kc_has_shift d = kc_has_shift c"
proof -
  obtain e rm1 c1 c2 c3 where run: "(if e then Some (rm, c) else do {
       n \<leftarrow> cells_seq_count i c;
       assrt (n = 1);
       seq_id \<leftarrow> cells_seq_get i c;
       pos \<leftarrow> cells_pos_get i c;
       c \<leftarrow> cells_rm i c;
       Some (rm(seq_id := max (rm seq_id) pos), c) }) = Some (rm1, c1)"
    "cells_pos_set i pos c1 = Some c2" "(case ex of Some e \<Rightarrow> cells_ext_set i e c2 | None \<Rightarrow> Some c2) = Some c3"
    "ofold (cells_seq_add i) seqs c3 = Some d"
    using assms unfolding fill_cell_def prod.case by (auto simp only: bind_eq_Some_conv prod.case)
  have "kc_has_shift c1 = kc_has_shift c"
  proof (cases e)
    case False
    then obtain n where "cells_rm i c = Some c1"
      using run(1) by (auto simp: bind_eq_Some_conv)
    then show ?thesis by (rule cell_op_flags)
  qed (use run(1) in simp)
  moreover have "kc_has_shift c3 = kc_has_shift c2"
    using run(3) cell_op_flags(3) by (cases ex) auto
  ultimately show ?thesis
    using cell_op_flags(2) [OF run(2)] cell_op_flags(4) [OF run(4)] by simp
qed


subsection \<open>Placing all tokens of a ubatch\<close>

definition cell_at :: "kv_cache \<Rightarrow> nat \<times> nat \<Rightarrow> cell" where
  "cell_at kv a = cells_cell (kv_cells kv ! fst a) (snd a)"

definition in_cache :: "kv_cache \<Rightarrow> nat \<times> nat \<Rightarrow> bool" where
  "in_cache kv a \<longleftrightarrow> fst a < kv_n_stream kv \<and> snd a < kv_size kv"

definition slot_addr :: "slot_info \<Rightarrow> nat \<Rightarrow> nat \<times> nat" where
  "slot_addr si j = (let n = length (si_idxs si ! 0) in (si_strm si ! (j div n), si_idxs si ! (j div n) ! (j mod n)))"

definition placed :: "llama_ubatch \<Rightarrow> nat \<Rightarrow> cell \<Rightarrow> cell" where
  "placed ub j = g_place (ub_pos ub ! j) (tok_ext ub j) (ub_seqs ub j)"

definition overwritten :: "kv_cache \<Rightarrow> slot_info \<Rightarrow> nat \<Rightarrow> llama_seq_id \<Rightarrow> llama_pos" where
  "overwritten kv si m = fold (\<lambda>j. note_rm (cell_at kv (slot_addr si j))) [0..<m] (\<lambda>_. -1)"

lemma slot_pairs_upt: "0 < n \<Longrightarrow> slot_pairs k n = map (\<lambda>j. (j div n, j mod n)) [0..<k * n]"
proof (induction k)
  case (Suc k)
  have "map (Pair k) [0..<n] = map (\<lambda>j. (j div n, j mod n)) [k * n..<k * n + n]"
    using Suc.prems by (auto intro!: nth_equalityI simp: div_add1_eq)
  moreover have "[0..<Suc k * n] = [0..<k * n] @ [k * n..<k * n + n]"
    using upt_add_eq_append [of 0 "k * n" n] by (simp add: add.commute)
  ultimately show ?case using Suc by (simp add: slot_pairs_def)
qed (simp add: slot_pairs_def)

lemma slot_okD:
  assumes "slot_ok kv ub si" "ub_ok kv ub"
  defines "k \<equiv> ub_n_seqs_for kv ub"
  defines "n \<equiv> ub_n_tokens ub div k"
  shows "si_n_stream si = k" "length (si_strm si) = k" "length (si_idxs si) = k" "si_size si = Some n"
    "s < k \<Longrightarrow> si_strm si ! s = strm kv (ub_seq_id_unq ub ! s)"
    "s < k \<Longrightarrow> length (si_idxs si ! s) = n" "distinct (si_strm si)" "s < k \<Longrightarrow> distinct (si_idxs si ! s)"
    "s < k \<Longrightarrow> i \<in> set (si_idxs si ! s) \<Longrightarrow> i < kv_size kv \<and> usable kv (si_strm si ! s) i"
    "length (si_idxs si ! 0) = n"
proof -
  note U = ub_okD [OF assms(2), folded k_def, folded n_def]
  have S: "si_strm si = map (strm kv) (take k (ub_seq_id_unq ub))" "length (si_idxs si) = k"
    "\<forall>s < k. length (si_idxs si ! s) = n \<and> distinct (si_idxs si ! s) \<and>
        (\<forall>i \<in> set (si_idxs si ! s). i < kv_size kv \<and> usable kv (si_strm si ! s) i)"
    using assms(1) unfolding slot_ok_def k_def n_def Let_def by blast+
  show len: "length (si_strm si) = k" using S(1) U(4) by simp
  then show "si_n_stream si = k" by (simp add: si_n_stream_def)
  show "length (si_idxs si) = k" by fact
  show n0: "length (si_idxs si ! 0) = n" using S(3) U(1) by blast
  then show "si_size si = Some n" using S(2) len U(1) by (cases "si_idxs si") (auto simp: si_size_def assrt_def)
  show "s < k \<Longrightarrow> si_strm si ! s = strm kv (ub_seq_id_unq ub ! s)" using S(1) U(4) by simp
  show "distinct (si_strm si)" using S(1) U(6) by simp
  show "s < k \<Longrightarrow> length (si_idxs si ! s) = n" "s < k \<Longrightarrow> distinct (si_idxs si ! s)"
    "s < k \<Longrightarrow> i \<in> set (si_idxs si ! s) \<Longrightarrow> i < kv_size kv \<and> usable kv (si_strm si ! s) i"
    using S(3) by blast+
qed

lemma slot_addr_ok:
  assumes inv: "cache_inv kv" and si: "slot_ok kv ub si" and ub: "ub_ok kv ub"
  shows "j < ub_n_tokens ub \<Longrightarrow> in_cache kv (slot_addr si j) \<and> usable kv (fst (slot_addr si j)) (snd (slot_addr si j))"
    "inj_on (slot_addr si) {..<ub_n_tokens ub}"
    "j < ub_n_tokens ub \<Longrightarrow> q \<in> set (ub_seqs ub j) \<Longrightarrow> seq_ok kv q \<and> strm kv q = fst (slot_addr si j)"
    "j < ub_n_tokens ub \<Longrightarrow> 0 \<le> ub_pos ub ! j \<and> ub_seqs ub j \<noteq> [] \<and> distinct (ub_seqs ub j)"
proof -
  note S = slot_okD [OF si ub] and U = ub_okD [OF ub]
  let ?k = "ub_n_seqs_for kv ub"
  let ?n = "ub_n_tokens ub div ?k"
  have dm: "j div ?n < ?k \<and> j mod ?n < ?n \<and> j = j div ?n * ?n + j mod ?n" if "j < ub_n_tokens ub" for j
    using that U(2,3) by (intro conjI less_mult_imp_div_less mod_less_divisor div_mult_mod_eq [symmetric]) simp_all
  have addr: "slot_addr si j = (si_strm si ! (j div ?n), si_idxs si ! (j div ?n) ! (j mod ?n))" for j
    unfolding slot_addr_def Let_def S(10) ..
  show "in_cache kv (slot_addr si j) \<and> usable kv (fst (slot_addr si j)) (snd (slot_addr si j))" if "j < ub_n_tokens ub" for j
    using dm [OF that] S(5) S(6) S(9) [of "j div ?n" "si_idxs si ! (j div ?n) ! (j mod ?n)"]
      cache_invD(9) [OF inv U(5) [of "j div ?n"]] unfolding addr in_cache_def by simp
  show "inj_on (slot_addr si) {..<ub_n_tokens ub}"
  proof (rule inj_onI)
    fix i j assume i: "i \<in> {..<ub_n_tokens ub}" and j: "j \<in> {..<ub_n_tokens ub}" and eq: "slot_addr si i = slot_addr si j"
    have i': "i div ?n < ?k \<and> i mod ?n < ?n \<and> i = i div ?n * ?n + i mod ?n"
      and j': "j div ?n < ?k \<and> j mod ?n < ?n \<and> j = j div ?n * ?n + j mod ?n" using dm i j by auto
    have "i div ?n = j div ?n"
      using eq i' j' S(2,7) nth_eq_iff_index_eq [of "si_strm si" "i div ?n" "j div ?n"] by (simp add: addr)
    moreover from this have "i mod ?n = j mod ?n"
      using eq i' j' S(6) [of "i div ?n"] S(8) [of "i div ?n"]
        nth_eq_iff_index_eq [of "si_idxs si ! (i div ?n)" "i mod ?n" "j mod ?n"] by (simp add: addr)
    ultimately show "i = j" using i' j' by metis
  qed
  show "seq_ok kv q \<and> strm kv q = fst (slot_addr si j)" if "j < ub_n_tokens ub" "q \<in> set (ub_seqs ub j)" for j q
    using dm [OF that(1)] U(8) [of "j div ?n" "j mod ?n"] that(2) S(5) [of "j div ?n"] by (simp add: addr)
  show "0 \<le> ub_pos ub ! j \<and> ub_seqs ub j \<noteq> [] \<and> distinct (ub_seqs ub j)" if "j < ub_n_tokens ub" for j
    using dm [OF that] U(8) [of "j div ?n" "j mod ?n"] by simp
qed

lemma usable_cell:
  assumes inv: "cache_inv kv" and swa: "swa_ok kv" and t: "in_cache kv a" and us: "usable kv (fst a) (snd a)"
    and cl: "cell_at kv a = (p, e, h, S)" and p: "p \<noteq> -1"
  shows "\<exists>q. S = {q} \<and> seq_ok kv q \<and> strm kv q = fst a \<and>
    is_masked_swa (kv_n_swa kv) (kv_swa_type kv) p (Max (seq_view kv q) + 1) = Some True"
proof -
  let ?c = "kv_cells kv ! fst a" and ?i = "snd a"
  note D = cache_invD [OF inv]
  have t': "fst a < kv_n_stream kv" "?i < cells_size ?c" using t D(6) by (auto simp: in_cache_def)
  have swa': "kv_swa_type kv = Swa_chunked \<longrightarrow> kv_n_swa kv \<noteq> 0" using swa by (simp add: swa_ok_def)
  obtain q where q: "kc_seq ?c ! ?i = {q}"
    "is_masked_swa (kv_n_swa kv) (kv_swa_type kv) (kc_pos ?c ! ?i) (Max (set (scan_pos q ?c)) + 1) = Some True"
    using us cell_usable_cases [OF D(5) [OF t'(1)] t'(2) swa'] cl p by (auto simp: usable_def cell_at_def cells_cell_def)
  have good: "cell_good kv (fst a) (cell_at kv a)" using D(8) t by (simp add: in_cache_def cell_at_def)
  have qq: "S = {q}" "seq_ok kv q" "strm kv q = fst a"
    using good cl q(1) by (auto simp: cell_good_def cell_at_def cells_cell_def seq_ok_def strm_def)
  then show ?thesis
    using q(2) cl seq_view_scan [OF inv qq(2)] by (auto simp: cell_at_def cells_cell_def)
qed

text \<open>What the cache is after the first \<open>m\<close> tokens are placed.\<close>

definition placed_state :: "kv_cache \<Rightarrow> llama_ubatch \<Rightarrow> slot_info \<Rightarrow> nat \<Rightarrow> kv_cache \<Rightarrow> bool" where
  "placed_state kv ub si m kv' \<longleftrightarrow> cache_inv kv' \<and> same_config kv kv' \<and> (\<exists>cs. kv' = kv\<lparr>kv_cells := cs\<rparr>) \<and>
     (\<forall>t < kv_n_stream kv. kc_has_shift (kv_cells kv' ! t) = kc_has_shift (kv_cells kv ! t)) \<and>
     (\<forall>j < m. cell_at kv' (slot_addr si j) = placed ub j (cell_at kv (slot_addr si j))) \<and>
     (\<forall>a. in_cache kv a \<longrightarrow> a \<notin> slot_addr si ` {..<m} \<longrightarrow> cell_at kv' a = cell_at kv a)"

lemma put_cells:
  assumes inv: "cache_inv kv" and t: "t < kv_n_stream kv" and c: "stream_ok kv t c" "cells_size c = kv_size kv"
  defines "kv' \<equiv> kv\<lparr>kv_cells := (kv_cells kv)[t := c]\<rparr>"
  shows "cache_inv kv'" "same_config kv kv'" "kv_cells kv' ! t = c" "u \<noteq> t \<Longrightarrow> kv_cells kv' ! u = kv_cells kv ! u"
    "kv_heads kv' = kv_heads kv"
proof -
  have "kv_put t c (kv_heads kv ! t) kv = kv'" by (simp add: kv_put_def kv'_def)
  with kv_put_inv [OF inv t c, of "kv_heads kv ! t"] cache_invD(7) [OF inv t]
  show "cache_inv kv'" "same_config kv kv'" "kv_cells kv' ! t = c" "u \<noteq> t \<Longrightarrow> kv_cells kv' ! u = kv_cells kv ! u"
    by simp_all
  show "kv_heads kv' = kv_heads kv" by (simp add: kv'_def)
qed

lemma place_token_step:
  assumes inv: "cache_inv kv" and swa: "swa_ok kv" and ub: "ub_ok kv ub" and si: "slot_ok kv ub si"
    and j: "j < ub_n_tokens ub" and st: "placed_state kv ub si j kv1"
  defines "n \<equiv> length (si_idxs si ! 0)"
  shows "\<exists>kv2. place_token si ub (j div n, j mod n) (rm, kv1) = Some (note_rm (cell_at kv (slot_addr si j)) rm, kv2) \<and>
    placed_state kv ub si (Suc j) kv2"
proof -
  note S = slot_okD [OF si ub] and A = slot_addr_ok [OF inv si ub]
  let ?a = "slot_addr si j"
  let ?t = "fst ?a" and ?i = "snd ?a"
  have P: "cache_inv kv1" "same_config kv kv1" "\<exists>cs. kv1 = kv\<lparr>kv_cells := cs\<rparr>"
    "\<forall>t < kv_n_stream kv. kc_has_shift (kv_cells kv1 ! t) = kc_has_shift (kv_cells kv ! t)"
    "\<forall>k < j. cell_at kv1 (slot_addr si k) = placed ub k (cell_at kv (slot_addr si k))"
    "\<forall>a. in_cache kv a \<longrightarrow> a \<notin> slot_addr si ` {..<j} \<longrightarrow> cell_at kv1 a = cell_at kv a"
    using st by (simp_all add: placed_state_def)
  note D = cache_invD [OF P(1)]
  have aok: "in_cache kv ?a" "usable kv ?t ?i" using A(1) [OF j] by simp_all
  have t: "?t < kv_n_stream kv1" "?t < kv_n_stream kv" "?i < kv_size kv1" "?i < kv_size kv"
    using aok same_configD(1,9) [OF P(2)] by (auto simp: in_cache_def)
  have new: "?a \<notin> slot_addr si ` {..<j}"
  proof
    assume "?a \<in> slot_addr si ` {..<j}"
    then obtain k where "k < j" "?a = slot_addr si k" by blast
    with inj_onD [OF A(2), of j k] j show False by simp
  qed
  obtain p e h X where cl: "cell_at kv ?a = (p, e, h, X)" by (cases "cell_at kv ?a")
  let ?c = "kv_cells kv1 ! ?t"
  have cl1: "cells_cell ?c ?i = (p, e, h, X)" using P(6) aok(1) new cl by (simp add: cell_at_def)
  have i: "?i < cells_size ?c" using D(6) [OF t(1)] t(3) by simp
  have one: "p \<noteq> -1 \<longrightarrow> (\<exists>q. X = {q})" using usable_cell [OF inv swa aok cl] by blast
  have seqs: "\<forall>q \<in> set (ub_seqs ub j). 0 \<le> q \<and> q < LLAMA_MAX_SEQ"
    using A(3) [OF j] cache_invD(10,11) [OF inv] by blast
  have pos: "0 \<le> ub_pos ub ! j" "distinct (ub_seqs ub j)" "ub_seqs ub j \<noteq> []" using A(4) [OF j] by auto
  obtain d where d: "fill_cell ?i (ub_pos ub ! j) (tok_ext ub j) (ub_seqs ub j) (rm, ?c) = Some (note_rm (p, e, h, X) rm, d)"
    "changes_cell (placed ub j) ?i ?c d"
    using fill_cell_spec [OF D(5) [OF t(1)] i cl1 one pos(1,2) seqs, of "tok_ext ub j" rm] unfolding placed_def by blast
  have size: "cells_size d = kv_size kv1" using d(2) D(6) [OF t(1)] by (simp add: changes_cell_def)
  have good: "cell_good kv1 ?t (placed ub j (p, e, h, X))"
    using A(3) [OF j] pos(3) same_configD(2) [OF P(2)]
    by (auto simp: placed_def cell_good_def seq_ok_def strm_def)
  have "cell_good kv1 ?t (cells_cell d k)" if "k < cells_size d" for k
    using that d(2) size D(6) [OF t(1)] D(8) [OF t(1), of k] good cl1 by (auto simp: changes_cell_def)
  then have sok: "stream_ok kv1 ?t d" using d(2) by (simp add: stream_ok_def changes_cell_def)
  let ?kv2 = "kv1\<lparr>kv_cells := (kv_cells kv1)[?t := d]\<rparr>"
  note Q = put_cells [OF P(1) t(1) sok size]
  have lens: "j div n < length (si_strm si)" "j div n < length (si_idxs si)" "j mod n < length (si_idxs si ! (j div n))"
    "n * (j div n) + j mod n = j" "si_size si = Some n"
    using S(2,3,4,10) S(6) [of "j div n"] ub_okD(2,3) [OF ub] j
    by (simp_all add: n_def less_mult_imp_div_less)
  have addr: "?t = si_strm si ! (j div n)" "?i = si_idxs si ! (j div n) ! (j mod n)"
    by (simp_all add: slot_addr_def n_def Let_def)
  have "place_token si ub (j div n, j mod n) (rm, kv1) = Some (note_rm (p, e, h, X) rm, ?kv2)"
    using lens t(1) D(3) d(1) unfolding addr
    by (simp add: place_token_def Let_def mult.commute [of "j div n"] del: fst_conv)
  moreover have "placed_state kv ub si (Suc j) ?kv2"
    unfolding placed_state_def
  proof (intro conjI allI impI)
    show "cache_inv ?kv2" by (rule Q)
    show "same_config kv ?kv2" by (rule same_config_trans [OF P(2) Q(2)])
    show "\<exists>cs. ?kv2 = kv\<lparr>kv_cells := cs\<rparr>" using P(3) by (elim exE) (simp, blast)
    show "kc_has_shift (kv_cells ?kv2 ! u) = kc_has_shift (kv_cells kv ! u)" if "u < kv_n_stream kv" for u
      using that P(4) Q(3,4) fill_cell_flag [OF d(1)] by (cases "u = ?t") auto
    have cell: "cell_at ?kv2 a = (if a = ?a then placed ub j (p, e, h, X) else cell_at kv1 a)" if "in_cache kv a" for a
    proof (cases "fst a = ?t")
      case True
      have "snd a < cells_size ?c" using that D(6) [OF t(1)] same_configD(9) [OF P(2)] by (simp add: in_cache_def)
      then show ?thesis
        using True Q(3) d(2) cl1 by (auto simp: cell_at_def changes_cell_def prod_eq_iff)
    next
      case False
      then show ?thesis using Q(4) by (auto simp: cell_at_def)
    qed
    show "cell_at ?kv2 (slot_addr si k) = placed ub k (cell_at kv (slot_addr si k))" if "k < Suc j" for k
    proof (cases "k = j")
      case True
      then show ?thesis using cell [OF aok(1)] cl by simp
    next
      case False
      then have k: "k < j" using that by simp
      then have "slot_addr si k \<in> slot_addr si ` {..<j}" by blast
      with new have "slot_addr si k \<noteq> ?a" by metis
      moreover have "in_cache kv (slot_addr si k)" using A(1) [of k] k j by simp
      ultimately show ?thesis using cell P(5) k by simp
    qed
    show "cell_at ?kv2 a = cell_at kv a" if "in_cache kv a" "a \<notin> slot_addr si ` {..<Suc j}" for a
    proof -
      have "a \<noteq> ?a" "a \<notin> slot_addr si ` {..<j}" using that(2) by auto
      then show ?thesis using cell [OF that(1)] P(6) that(1) by simp
    qed
  qed
  ultimately show ?thesis using cl by auto
qed

lemma place_tokens_spec:
  assumes inv: "cache_inv kv" and swa: "swa_ok kv" and ub: "ub_ok kv ub" and si: "slot_ok kv ub si"
  shows "\<exists>kv'. ofold (place_token si ub) (slot_pairs (si_n_stream si) (length (si_idxs si ! 0))) (\<lambda>_. -1, kv) =
      Some (overwritten kv si (ub_n_tokens ub), kv') \<and> placed_state kv ub si (ub_n_tokens ub) kv'"
proof -
  note S = slot_okD [OF si ub] and U = ub_okD [OF ub]
  let ?n = "length (si_idxs si ! 0)"
  have run: "ofold (place_token si ub) (map (\<lambda>j. (j div ?n, j mod ?n)) js) s =
      ofold (\<lambda>j. place_token si ub (j div ?n, j mod ?n)) js s" for js s
    by (induction js arbitrary: s) (auto split: bind_splits)
  have pairs: "slot_pairs (si_n_stream si) ?n = map (\<lambda>j. (j div ?n, j mod ?n)) [0..<ub_n_tokens ub]"
    using slot_pairs_upt [of ?n] S(1,10) U(2,3) by simp
  let ?I = "\<lambda>j st. fst st = overwritten kv si j \<and> placed_state kv ub si j (snd st)"
  have "\<exists>st. ofold (\<lambda>j. place_token si ub (j div ?n, j mod ?n)) [0..<ub_n_tokens ub] (\<lambda>_. -1, kv) = Some st \<and>
      ?I (ub_n_tokens ub) st"
  proof (rule ofold_upt_inv [where I = ?I])
    show "?I 0 (\<lambda>_. -1, kv)"
      using inv by (auto simp: overwritten_def placed_state_def intro: exI [of _ "kv_cells kv"])
    fix j st assume j: "j < ub_n_tokens ub" and I: "?I j st"
    obtain kv2 where "place_token si ub (j div ?n, j mod ?n) (overwritten kv si j, snd st) =
        Some (note_rm (cell_at kv (slot_addr si j)) (overwritten kv si j), kv2)" "placed_state kv ub si (Suc j) kv2"
      using place_token_step [OF inv swa ub si j conjunct2 [OF I]] by blast
    then show "\<exists>st'. place_token si ub (j div ?n, j mod ?n) st = Some st' \<and> ?I (Suc j) st'"
      using I by (cases st) (auto simp: overwritten_def)
  qed
  then show ?thesis unfolding pairs run by auto
qed


subsection \<open>Removing what precedes the overwritten tokens\<close>

fun g_purge :: "(llama_seq_id \<Rightarrow> llama_pos) \<Rightarrow> cell \<Rightarrow> cell" where
  "g_purge rm (p, e, h, S) = (let S' = {q \<in> S. rm q < p} in
     if S \<noteq> {} \<and> S' = {} then (-1, ext_reset, 0, {}) else (p, e, h, S'))"

lemma g_purge_step:
  assumes "S \<noteq> {} \<longrightarrow> 0 \<le> p" "rm' s = -1" "s \<in> S \<longrightarrow> p0 \<le> p"
  shows "g_rm s p0 (x + 1) (g_purge rm' (p, e, h, S)) = g_purge (rm'(s := x)) (p, e, h, S)"
proof (cases "s \<in> S \<and> p \<le> x")
  case True
  let ?S = "{q \<in> S. rm' q < p}"
  have s: "s \<in> ?S" using True assms by auto
  then have "g_purge rm' (p, e, h, S) = (p, e, h, ?S)" by (auto simp: Let_def)
  moreover have "{q \<in> S. (rm'(s := x)) q < p} = ?S - {s}" using True by auto
  moreover have "?S = {s} \<longleftrightarrow> ?S - {s} = {}" using s by blast
  ultimately show ?thesis using s True assms(3) by (auto simp: Let_def)
next
  case False
  then have "{q \<in> S. (rm'(s := x)) q < p} = {q \<in> S. rm' q < p}" using assms by auto
  then have "g_purge (rm'(s := x)) (p, e, h, S) = g_purge rm' (p, e, h, S)" by (simp add: Let_def)
  with False show ?thesis by (auto simp: Let_def)
qed

lemma g_purge_id: "S \<noteq> {} \<longrightarrow> 0 \<le> p \<Longrightarrow> (\<And>q. q \<in> S \<Longrightarrow> rm q = -1) \<Longrightarrow> g_purge rm (p, e, h, S) = (p, e, h, S)"
  by (auto simp: Let_def)

definition purged :: "(llama_seq_id \<Rightarrow> llama_pos) \<Rightarrow> kv_cache \<Rightarrow> kv_cache \<Rightarrow> bool" where
  "purged rm kv kv' \<longleftrightarrow> cache_inv kv' \<and> same_config kv kv' \<and>
     (\<forall>a. in_cache kv a \<longrightarrow> cell_at kv' a = g_purge rm (cell_at kv a))"

lemma cell_at_nonneg:
  assumes "cache_inv kv" "in_cache kv a" "cell_at kv a = (p, e, h, S)"
  shows "S \<noteq> {} \<longrightarrow> 0 \<le> p" "p = -1 \<longrightarrow> S = {}" "-1 \<le> p" "p \<noteq> -1 \<longrightarrow> S \<noteq> {}" "p = -1 \<longrightarrow> h = 0"
    "q \<in> S \<Longrightarrow> seq_ok kv q \<and> strm kv q = fst a"
proof -
  note D = cache_invD [OF assms(1)]
  have t: "fst a < kv_n_stream kv" "snd a < cells_size (kv_cells kv ! fst a)"
    using assms(2) D(6) by (auto simp: in_cache_def)
  have good: "cell_good kv (fst a) (cell_at kv a)" using D(8) assms(2) by (simp add: in_cache_def cell_at_def)
  show "S \<noteq> {} \<longrightarrow> 0 \<le> p" "p = -1 \<longrightarrow> S = {}" "-1 \<le> p" "p = -1 \<longrightarrow> h = 0"
    using cells_invD(5-8) [OF D(5) [OF t(1)] t(2)] assms(3) by (auto simp: cell_at_def cells_cell_def)
  show "p \<noteq> -1 \<longrightarrow> S \<noteq> {}" "q \<in> S \<Longrightarrow> seq_ok kv q \<and> strm kv q = fst a"
    using good assms(3) by (auto simp: cell_good_def seq_ok_def strm_def)
qed

lemma seq_view_cell: "p \<in> seq_view kv s \<longleftrightarrow> (\<exists>i < kv_size kv. \<exists>e h S. cell_at kv (strm kv s, i) = (p, e, h, S) \<and> s \<in> S)"
  by (auto simp: seq_view_def cell_at_def)

lemma purge_seq_step:
  assumes inv: "cache_inv kv" and p: "purged rm' kv kv1" and s: "rm s \<noteq> -1 \<longrightarrow> seq_ok kv s \<and> 0 \<le> rm s" "rm' s = -1"
  shows "\<exists>kv2. purge_seq rm s kv1 = Some kv2 \<and> purged (rm'(s := rm s)) kv kv2"
proof (cases "rm s = -1")
  case True
  then have "rm'(s := rm s) = rm'" using s(2) by auto
  then show ?thesis using True p by (simp add: purge_seq_def)
next
  case False
  have P: "cache_inv kv1" "same_config kv kv1" "\<forall>a. in_cache kv a \<longrightarrow> cell_at kv1 a = g_purge rm' (cell_at kv a)"
    using p by (simp_all add: purged_def)
  note D = cache_invD [OF P(1)]
  have ok: "seq_ok kv1 s" "0 \<le> rm s" using s(1) False same_config_good2 [OF P(2)] by auto
  let ?t = "strm kv1 s"
  have t: "?t < kv_n_stream kv1" using D(9) [OF ok(1)] .
  define mn where "mn = (if seq_view kv1 s = {} then -1 else Min (seq_view kv1 s))"
  have mn: "cells_seq_pos_min s (kv_cells kv1 ! ?t) = Some mn"
    using cells_seq_pos_min_scan [OF D(5) [OF t] D(10) [OF ok(1)] D(11) [OF ok(1)]] seq_view_scan [OF P(1) ok(1)]
    unfolding mn_def by simp
  have run: "purge_seq rm s kv1 = (if mn \<le> rm s then map_option snd (kv_seq_rm s mn (rm s + 1) kv1) else Some kv1)"
    using False D(12) [OF ok(1)] t D(3) mn by (simp add: purge_seq_def)
  have ge: "mn \<le> q \<and> norm_p0 mn \<le> q" if "q \<in> seq_view kv1 s" for q
    using that seq_view_queries(3,4) [OF P(1) ok(1)] by (auto simp: mn_def norm_p0_def)
  have p1: "norm_p1 (rm s + 1) = rm s + 1" using ok(2) by (simp add: norm_p1_def)
  have in1: "in_cache kv1 a = in_cache kv a" for a
    using same_configD(1,9) [OF P(2)] by (simp add: in_cache_def)
  have cell: "cell_at kv1 a = g_purge rm' (cell_at kv a)" if "in_cache kv a" for a using P(3) that by blast
  have low: "s \<in> S \<longrightarrow> norm_p0 mn \<le> pp \<and> mn \<le> pp" if a: "in_cache kv a" "cell_at kv a = (pp, e, h, S)" for a pp e h S
  proof
    assume sS: "s \<in> S"
    then have "{q \<in> S. rm' q < pp} \<noteq> {}" using s(2) cell_at_nonneg(1) [OF inv a] by auto
    then have c1: "cell_at kv1 a = (pp, e, h, {q \<in> S. rm' q < pp})" using cell [OF a(1)] a(2) by (auto simp: Let_def)
    have "s \<in> {q \<in> S. rm' q < pp}" using sS s(2) cell_at_nonneg(1) [OF inv a] by auto
    moreover from this have "strm kv1 s = fst a" using cell_at_nonneg(6) [OF P(1) _ c1] in1 a(1) by blast
    ultimately have "pp \<in> seq_view kv1 s"
      using c1 a(1) in1 [of a] unfolding seq_view_cell in_cache_def by (metis prod.collapse)
    then show "norm_p0 mn \<le> pp \<and> mn \<le> pp" using ge by blast
  qed
  show ?thesis
  proof (cases "mn \<le> rm s")
    case True
    from kv_seq_rm_spec [OF P(1) ok(1), of mn "rm s + 1"] obtain kv2 where
      kv2: "kv_seq_rm s mn (rm s + 1) kv1 = Some (True, kv2)" "kv_maps1 (g_rm s (norm_p0 mn) (rm s + 1)) ?t kv1 kv2"
      unfolding p1 by blast
    have M: "cache_inv kv2" "same_config kv1 kv2" "maps_cells (g_rm s (norm_p0 mn) (rm s + 1)) (kv_cells kv1 ! ?t) (kv_cells kv2 ! ?t)"
      "\<forall>u. u \<noteq> ?t \<longrightarrow> kv_cells kv2 ! u = kv_cells kv1 ! u" using kv2(2) by (auto simp: kv_maps1_def)
    have "cell_at kv2 a = g_purge (rm'(s := rm s)) (cell_at kv a)" if a: "in_cache kv a" for a
    proof -
      obtain pp e h S where cl: "cell_at kv a = (pp, e, h, S)" by (cases "cell_at kv a")
      have step: "g_rm s (norm_p0 mn) (rm s + 1) (g_purge rm' (cell_at kv a)) = g_purge (rm'(s := rm s)) (cell_at kv a)"
        unfolding cl using low [OF a cl] cell_at_nonneg(1) [OF inv a cl] s(2) by (intro g_purge_step) auto
      show ?thesis
      proof (cases "fst a = ?t")
        case True
        have "snd a < cells_size (kv_cells kv1 ! ?t)" using a in1 [of a] D(6) [OF t] by (simp add: in_cache_def)
        then have "cell_at kv2 a = g_rm s (norm_p0 mn) (rm s + 1) (cell_at kv1 a)"
          using M(3) True by (simp add: cell_at_def maps_cells_def)
        then show ?thesis using step cell [OF a] by simp
      next
        case False
        have "s \<notin> S"
          using cell_at_nonneg(6) [OF inv a cl] False same_config_good2(1) [OF P(2)] by auto
        then have "{q \<in> S. (rm'(s := rm s)) q < pp} = {q \<in> S. rm' q < pp}" by auto
        then have "g_purge (rm'(s := rm s)) (cell_at kv a) = g_purge rm' (cell_at kv a)"
          unfolding cl by (simp add: Let_def)
        moreover have "cell_at kv2 a = cell_at kv1 a" using M(4) False by (simp add: cell_at_def)
        ultimately show ?thesis using cell [OF a] by simp
      qed
    qed
    moreover have "purge_seq rm s kv1 = Some kv2" using run True kv2(1) by simp
    ultimately show ?thesis using M(1) same_config_trans [OF P(2) M(2)] by (auto simp: purged_def)
  next
    case False
    have "g_purge (rm'(s := rm s)) (cell_at kv a) = cell_at kv1 a" if a: "in_cache kv a" for a
    proof -
      obtain pp e h S where cl: "cell_at kv a = (pp, e, h, S)" by (cases "cell_at kv a")
      have "s \<in> S \<longrightarrow> rm s < pp" using low [OF a cl] False by auto
      then have "{q \<in> S. (rm'(s := rm s)) q < pp} = {q \<in> S. rm' q < pp}"
        using s(2) cell_at_nonneg(1) [OF inv a cl] by auto
      then show ?thesis unfolding cell [OF a] cl by (simp add: Let_def)
    qed
    then show ?thesis using run False P by (auto simp: purged_def)
  qed
qed

lemma purge_loop:
  assumes inv: "cache_inv kv" and rm: "\<forall>q. rm q \<noteq> -1 \<longrightarrow> seq_ok kv q \<and> 0 \<le> rm q"
  shows "\<exists>kv'. ofold (purge_seq rm) all_seqs kv = Some kv' \<and> purged rm kv kv'"
proof -
  let ?I = "\<lambda>pre. purged (\<lambda>q. if q \<in> set pre then rm q else -1) kv"
  have "\<exists>kv'. ofold (purge_seq rm) all_seqs kv = Some kv' \<and> ?I all_seqs kv'"
  proof (rule ofold_list_inv)
    have "g_purge (\<lambda>q. -1) (cell_at kv a) = cell_at kv a" if a: "in_cache kv a" for a
    proof -
      obtain pp e h S where cl: "cell_at kv a = (pp, e, h, S)" by (cases "cell_at kv a")
      show ?thesis unfolding cl using cell_at_nonneg(1) [OF inv a cl] by (intro g_purge_id) auto
    qed
    then show "?I [] kv" using inv by (simp add: purged_def)
    fix pre x post kv1 assume split: "all_seqs = pre @ x # post" and I: "?I pre kv1"
    have "x \<notin> set pre" using distinct_all_seqs unfolding split by simp
    then have eq: "(\<lambda>q. if q \<in> set pre then rm q else -1)(x := rm x) = (\<lambda>q. if q \<in> set (pre @ [x]) then rm q else -1)"
      by auto
    from purge_seq_step [OF inv I, of rm x] rm \<open>x \<notin> set pre\<close>
    show "\<exists>kv2. purge_seq rm x kv1 = Some kv2 \<and> ?I (pre @ [x]) kv2" unfolding eq by simp
  qed
  moreover have "(\<lambda>q. if q \<in> set all_seqs then rm q else -1) = rm"
  proof
    fix q
    show "(if q \<in> set all_seqs then rm q else -1) = rm q"
      using rm cache_invD(10,11) [OF inv, of q] by (cases "rm q = -1") (auto simp: set_all_seqs)
  qed
  ultimately show ?thesis by simp
qed

lemma purge_nothing: "\<forall>q. rm q = -1 \<Longrightarrow> ofold (purge_seq rm) ss kv = Some kv"
  by (induction ss) (simp_all add: purge_seq_def)

text \<open>The heads of the streams of the slot move behind the last cell.\<close>

definition heads_moved :: "slot_info \<Rightarrow> nat \<Rightarrow> kv_cache \<Rightarrow> kv_cache \<Rightarrow> bool" where
  "heads_moved si m kv kv' \<longleftrightarrow> cache_inv kv' \<and> same_config kv kv' \<and> kv_cells kv' = kv_cells kv \<and>
     (\<exists>hs. kv' = kv\<lparr>kv_heads := hs\<rparr>) \<and>
     (\<forall>s < m. kv_heads kv' ! (si_strm si ! s) = last (si_idxs si ! s) + 1) \<and>
     (\<forall>t. t \<notin> set (take m (si_strm si)) \<longrightarrow> kv_heads kv' ! t = kv_heads kv ! t)"

lemma move_heads:
  assumes inv: "cache_inv kv" and len: "length (si_idxs si) = length (si_strm si)" "distinct (si_strm si)"
    and ok: "\<forall>s < length (si_strm si). si_strm si ! s < kv_n_stream kv \<and> si_idxs si ! s \<noteq> [] \<and>
      (\<forall>i \<in> set (si_idxs si ! s). i < kv_size kv)"
  shows "\<exists>kv'. ofold (move_head si) [0..<si_n_stream si] kv = Some kv' \<and> heads_moved si (length (si_strm si)) kv kv'"
proof -
  have "\<exists>kv'. ofold (move_head si) [0..<length (si_strm si)] kv = Some kv' \<and> heads_moved si (length (si_strm si)) kv kv'"
  proof (rule ofold_upt_inv [where I = "\<lambda>m. heads_moved si m kv"])
    show "heads_moved si 0 kv kv" using inv by (auto simp: heads_moved_def intro: exI [of _ "kv_heads kv"])
    fix m kv1 assume m: "m < length (si_strm si)" and I: "heads_moved si m kv kv1"
    let ?t = "si_strm si ! m" and ?h = "last (si_idxs si ! m) + 1"
    obtain hs where hs: "kv1 = kv\<lparr>kv_heads := hs\<rparr>" using I by (auto simp: heads_moved_def)
    have inv1: "cache_inv kv1" "same_config kv kv1" using I by (simp_all add: heads_moved_def)
    note D = cache_invD [OF inv1(1)]
    have o: "?t < kv_n_stream kv1" "si_idxs si ! m \<noteq> []" "last (si_idxs si ! m) < kv_size kv1"
      using ok m same_configD(1,9) [OF inv1(2)] by auto
    let ?kv2 = "kv1\<lparr>kv_heads := (kv_heads kv1)[?t := ?h]\<rparr>"
    have "stream_ok kv1 ?t (kv_cells kv1 ! ?t)" using inv1(1) o(1) by (simp add: cache_inv_def)
    moreover have "kv_put ?t (kv_cells kv1 ! ?t) ?h kv1 = ?kv2" by (simp add: kv_put_def)
    ultimately have Q: "cache_inv ?kv2" "same_config kv1 ?kv2"
      using kv_put_inv(1,2) [OF inv1(1) o(1) _ D(6) [OF o(1)], of ?h] o(3) by simp_all
    have run: "move_head si m kv1 = Some ?kv2"
      using m len(1) o D(4) by (simp add: move_head_def)
    have others: "si_strm si ! s \<noteq> ?t" if "s < m" for s
      using that m len(2) by (simp add: nth_eq_iff_index_eq)
    have "heads_moved si (Suc m) kv ?kv2"
      unfolding heads_moved_def
    proof (intro conjI allI impI)
      show "cache_inv ?kv2" by (rule Q)
      show "same_config kv ?kv2" by (rule same_config_trans [OF inv1(2) Q(2)])
      show "kv_cells ?kv2 = kv_cells kv" using I by (simp add: heads_moved_def)
      show "\<exists>hs. ?kv2 = kv\<lparr>kv_heads := hs\<rparr>" unfolding hs by simp blast
      show "kv_heads ?kv2 ! (si_strm si ! s) = last (si_idxs si ! s) + 1" if "s < Suc m" for s
        using that others [of s] o(1) D(4) I by (cases "s = m") (auto simp: heads_moved_def)
      show "kv_heads ?kv2 ! t = kv_heads kv ! t" if "t \<notin> set (take (Suc m) (si_strm si))" for t
        using that m I by (auto simp: heads_moved_def take_Suc_conv_app_nth nth_list_update_neq)
    qed
    with run show "\<exists>kv2. move_head si m kv1 = Some kv2 \<and> heads_moved si (Suc m) kv kv2" by blast
  qed
  then show ?thesis by (simp add: si_n_stream_def)
qed

text \<open>What was overwritten.\<close>

lemma finite_overwritten:
  "finite {p. \<exists>j < m. \<exists>e h S. cell_at kv (slot_addr si j) = (p, e, h, S) \<and> p \<noteq> -1 \<and> q \<in> S}"
proof (rule finite_subset)
  show "{p. \<exists>j < m. \<exists>e h S. cell_at kv (slot_addr si j) = (p, e, h, S) \<and> p \<noteq> -1 \<and> q \<in> S} \<subseteq>
      (\<lambda>j. fst (cell_at kv (slot_addr si j))) ` {..<m}" by (force simp: image_iff)
qed simp

lemma overwritten_char:
  "overwritten kv si m q = Max (insert (-1) {p. \<exists>j < m. \<exists>e h S. cell_at kv (slot_addr si j) = (p, e, h, S) \<and> p \<noteq> -1 \<and> q \<in> S})"
proof (induction m)
  case (Suc m)
  obtain p e h S where cl: "cell_at kv (slot_addr si m) = (p, e, h, S)" by (cases "cell_at kv (slot_addr si m)")
  let ?A = "\<lambda>m. {p. \<exists>j < m. \<exists>e h S. cell_at kv (slot_addr si j) = (p, e, h, S) \<and> p \<noteq> -1 \<and> q \<in> S}"
  have fin: "finite (?A m)" by (rule finite_overwritten)
  have "overwritten kv si (Suc m) q = note_rm (p, e, h, S) (overwritten kv si m) q"
    by (simp add: overwritten_def cl)
  moreover have "?A (Suc m) = (if p \<noteq> -1 \<and> q \<in> S then insert p (?A m) else ?A m)"
    using cl by (auto simp: less_Suc_eq)
  ultimately show ?case
    using Suc fin by (simp add: max.commute insert_commute [of "-1" p])
qed (simp add: overwritten_def)

lemma overwritten_cases:
  assumes "overwritten kv si m q \<noteq> -1"
  shows "\<exists>j < m. \<exists>e h S. cell_at kv (slot_addr si j) = (overwritten kv si m q, e, h, S) \<and> q \<in> S"
proof -
  let ?A = "{p. \<exists>j < m. \<exists>e h S. cell_at kv (slot_addr si j) = (p, e, h, S) \<and> p \<noteq> -1 \<and> q \<in> S}"
  have "finite ?A" by (rule finite_overwritten)
  then have "Max (insert (-1) ?A) \<in> insert (-1) ?A" by (intro Max_in) auto
  with assms show ?thesis unfolding overwritten_char by auto
qed

lemma overwritten_ge:
  assumes "j < m" "cell_at kv (slot_addr si j) = (p, e, h, S)" "p \<noteq> -1" "q \<in> S"
  shows "p \<le> overwritten kv si m q"
proof -
  let ?A = "{p. \<exists>j < m. \<exists>e h S. cell_at kv (slot_addr si j) = (p, e, h, S) \<and> p \<noteq> -1 \<and> q \<in> S}"
  have "finite ?A" by (rule finite_overwritten)
  then show ?thesis unfolding overwritten_char using assms by (intro Max_ge) auto
qed


subsection \<open>What \<open>apply_ubatch\<close> does\<close>

lemma overwritten_seq_ok:
  assumes inv: "cache_inv kv" and si: "slot_ok kv ub si" and ub: "ub_ok kv ub"
    and r: "overwritten kv si (ub_n_tokens ub) q \<noteq> -1"
  defines "r \<equiv> overwritten kv si (ub_n_tokens ub) q"
  shows "seq_ok kv q \<and> 0 \<le> r \<and> r \<in> seq_view kv q \<and>
    (\<exists>j < ub_n_tokens ub. \<exists>e h S. cell_at kv (slot_addr si j) = (r, e, h, S) \<and> q \<in> S)"
proof -
  obtain j e h S where j: "j < ub_n_tokens ub" "cell_at kv (slot_addr si j) = (r, e, h, S)" "q \<in> S"
    using overwritten_cases [OF r] unfolding r_def by blast
  have a: "in_cache kv (slot_addr si j)" using slot_addr_ok(1) [OF inv si ub j(1)] by blast
  note C = cell_at_nonneg [OF inv a j(2)]
  have q: "seq_ok kv q" "strm kv q = fst (slot_addr si j)" using C(6) [OF j(3)] by auto
  then have "cell_at kv (strm kv q, snd (slot_addr si j)) = (r, e, h, S)" "snd (slot_addr si j) < kv_size kv"
    using j(2) a by (simp_all add: in_cache_def)
  then have "r \<in> seq_view kv q" using j(3) unfolding seq_view_cell by blast
  then show ?thesis using q(1) C(1) j by auto
qed

lemma apply_ubatch_spec:
  assumes inv: "cache_inv kv" and swa: "swa_ok kv" and ub: "ub_ok kv ub" and si: "slot_ok kv ub si"
  defines "N \<equiv> ub_n_tokens ub" and "rm \<equiv> overwritten kv si (ub_n_tokens ub)"
  shows "\<exists>kv'. apply_ubatch si ub kv = Some kv' \<and> cache_inv kv' \<and> same_config kv kv' \<and>
    (\<forall>j < N. cell_at kv' (slot_addr si j) = g_purge rm (placed ub j (cell_at kv (slot_addr si j)))) \<and>
    (\<forall>a. in_cache kv a \<longrightarrow> a \<notin> slot_addr si ` {..<N} \<longrightarrow> cell_at kv' a = g_purge rm (cell_at kv a)) \<and>
    (\<forall>s < si_n_stream si. kv_heads kv' ! (si_strm si ! s) = last (si_idxs si ! s) + 1) \<and>
    ((\<forall>q. rm q = -1) \<longrightarrow> (\<exists>kv1 hs. placed_state kv ub si N kv1 \<and> kv' = kv1\<lparr>kv_heads := hs\<rparr>))"
proof -
  note S = slot_okD [OF si ub] and U = ub_okD [OF ub] and A = slot_addr_ok [OF inv si ub]
  obtain kv1 where kv1: "ofold (place_token si ub) (slot_pairs (si_n_stream si) (length (si_idxs si ! 0))) (\<lambda>_. -1, kv) =
      Some (rm, kv1)" "placed_state kv ub si N kv1"
    using place_tokens_spec [OF inv swa ub si] unfolding rm_def N_def by blast
  have inv1: "cache_inv kv1" "same_config kv kv1" using kv1(2) by (simp_all add: placed_state_def)
  have ok1: "seq_ok kv1 = seq_ok kv" using same_config_good2 [OF inv1(2)] by simp
  have rm: "\<forall>q. rm q \<noteq> -1 \<longrightarrow> seq_ok kv1 q \<and> 0 \<le> rm q"
    using overwritten_seq_ok [OF inv si ub] unfolding rm_def ok1 by blast
  obtain kv2 where kv2: "ofold (purge_seq rm) all_seqs kv1 = Some kv2" "purged rm kv1 kv2"
    using purge_loop [OF inv1(1) rm] by blast
  have inv2: "cache_inv kv2" "same_config kv1 kv2" using kv2(2) by (simp_all add: purged_def)
  have config2: "same_config kv kv2" by (rule same_config_trans [OF inv1(2) inv2(2)])
  have lens: "length (si_idxs si) = length (si_strm si)" using S(2,3) by simp
  have slots: "\<forall>s < length (si_strm si). si_strm si ! s < kv_n_stream kv2 \<and> si_idxs si ! s \<noteq> [] \<and>
      (\<forall>i \<in> set (si_idxs si ! s). i < kv_size kv2)"
  proof (intro allI impI)
    fix s assume "s < length (si_strm si)"
    then have s: "s < ub_n_seqs_for kv ub" using S(2) by simp
    have "si_idxs si ! s \<noteq> []" using S(6) [OF s] U(2) by force
    moreover have "si_strm si ! s < kv_n_stream kv" using S(5) [OF s] cache_invD(9) [OF inv U(5) [OF s]] by simp
    ultimately show "si_strm si ! s < kv_n_stream kv2 \<and> si_idxs si ! s \<noteq> [] \<and> (\<forall>i \<in> set (si_idxs si ! s). i < kv_size kv2)"
      using S(9) [OF s] same_configD(1,9) [OF config2] by simp
  qed
  obtain kv3 where kv3: "ofold (move_head si) [0..<si_n_stream si] kv2 = Some kv3" "heads_moved si (length (si_strm si)) kv2 kv3"
    using move_heads [OF inv2(1) lens S(7) slots] by blast
  have inv3: "cache_inv kv3" "same_config kv2 kv3" "kv_cells kv3 = kv_cells kv2"
    using kv3(2) by (simp_all add: heads_moved_def)
  have at3: "cell_at kv3 a = cell_at kv2 a" for a by (simp add: cell_at_def inv3(3))
  have in1: "in_cache kv1 a = in_cache kv a" for a using same_configD(1,9) [OF inv1(2)] by (simp add: in_cache_def)
  have at2: "cell_at kv3 a = g_purge rm (cell_at kv1 a)" if "in_cache kv a" for a
    using kv2(2) that unfolding at3 purged_def in1 by blast
  have "N = si_n_stream si * length (si_idxs si ! 0)" using S(1,10) U(3) by (simp add: N_def)
  then have run: "apply_ubatch si ub kv = Some kv3"
    using cache_invD(1) [OF inv] S(4,10) kv1(1) kv2(1) kv3(1) by (simp add: apply_ubatch_def N_def)
  show ?thesis
  proof (rule exI [of _ kv3], intro conjI allI impI run inv3(1))
    show "same_config kv kv3" by (rule same_config_trans [OF config2 inv3(2)])
    show "cell_at kv3 (slot_addr si j) = g_purge rm (placed ub j (cell_at kv (slot_addr si j)))" if "j < N" for j
      using at2 [of "slot_addr si j"] A(1) [of j] kv1(2) that by (simp add: placed_state_def N_def)
    show "cell_at kv3 a = g_purge rm (cell_at kv a)" if "in_cache kv a" "a \<notin> slot_addr si ` {..<N}" for a
    proof -
      have "cell_at kv1 a = cell_at kv a" using kv1(2) that unfolding placed_state_def by blast
      then show ?thesis using at2 [OF that(1)] by simp
    qed
    show "kv_heads kv3 ! (si_strm si ! s) = last (si_idxs si ! s) + 1" if "s < si_n_stream si" for s
      using kv3(2) that by (simp add: heads_moved_def si_n_stream_def)
    assume "\<forall>q. rm q = -1"
    from purge_nothing [OF this] kv2(1) have "kv2 = kv1" by simp
    with kv3(2) kv1(2) show "\<exists>kv1 hs. placed_state kv ub si N kv1 \<and> kv3 = kv1\<lparr>kv_heads := hs\<rparr>"
      by (auto simp: heads_moved_def)
  qed
qed

text \<open>In terms of sequences.\<close>

definition ub_positions :: "llama_ubatch \<Rightarrow> llama_seq_id \<Rightarrow> llama_pos set" where
  "ub_positions ub q = {ub_pos ub ! j | j. j < ub_n_tokens ub \<and> q \<in> set (ub_seqs ub j)}"

lemma purge_member:
  "(\<exists>e h S'. g_purge rm cl = (p, e, h, S') \<and> q \<in> S') \<longleftrightarrow> (\<exists>e h S. cl = (p, e, h, S) \<and> q \<in> S \<and> rm q < p)"
  by (cases cl) (auto simp: Let_def)

lemma apply_ubatch_view_spec:
  assumes inv: "cache_inv kv" and swa: "swa_ok kv" and ub: "ub_ok kv ub" and si: "slot_ok kv ub si"
    and later: "\<forall>q. seq_ok kv q \<longrightarrow> (\<forall>p \<in> seq_view kv q. \<forall>x \<in> ub_positions ub q. p < x)"
  defines "rm \<equiv> overwritten kv si (ub_n_tokens ub)"
  shows "\<exists>kv'. apply_ubatch si ub kv = Some kv' \<and> cache_inv kv' \<and> same_config kv kv' \<and>
    (\<forall>q. seq_ok kv q \<longrightarrow> seq_view kv' q = {p \<in> seq_view kv q. rm q < p} \<union> ub_positions ub q)"
proof -
  note A = slot_addr_ok [OF inv si ub]
  let ?N = "ub_n_tokens ub"
  obtain kv' where kv': "apply_ubatch si ub kv = Some kv'" "cache_inv kv'" "same_config kv kv'"
    and cells: "\<forall>j < ?N. cell_at kv' (slot_addr si j) = g_purge rm (placed ub j (cell_at kv (slot_addr si j)))"
      "\<forall>a. in_cache kv a \<longrightarrow> a \<notin> slot_addr si ` {..<?N} \<longrightarrow> cell_at kv' a = g_purge rm (cell_at kv a)"
    using apply_ubatch_spec [OF inv swa ub si] unfolding rm_def by blast
  have "seq_view kv' q = {p \<in> seq_view kv q. rm q < p} \<union> ub_positions ub q" if q: "seq_ok kv q" for q
  proof (rule set_eqI)
    fix p
    let ?t = "strm kv q"
    have t: "?t < kv_n_stream kv" using cache_invD(9) [OF inv q] .
    have rm: "rm q = -1 \<or> rm q \<in> seq_view kv q"
      using overwritten_seq_ok [OF inv si ub, of q] unfolding rm_def by blast
    have new: "(\<exists>e h S. g_purge rm (placed ub j cl) = (p, e, h, S) \<and> q \<in> S) \<longleftrightarrow> p = ub_pos ub ! j \<and> q \<in> set (ub_seqs ub j)"
      if "j < ?N" for j cl
    proof -
      obtain p' e' h' S' where cl: "cl = (p', e', h', S')" by (cases cl)
      have "rm q < ub_pos ub ! j" if qj: "q \<in> set (ub_seqs ub j)"
      proof -
        have "ub_pos ub ! j \<in> ub_positions ub q" using qj \<open>j < ?N\<close> by (auto simp: ub_positions_def)
        then show ?thesis using rm later q A(4) [OF \<open>j < ?N\<close>] by auto
      qed
      then show ?thesis unfolding purge_member by (auto simp: placed_def cl)
    qed
    have view': "p \<in> seq_view kv' q \<longleftrightarrow> (\<exists>i < kv_size kv. \<exists>e h S. cell_at kv' (?t, i) = (p, e, h, S) \<and> q \<in> S)"
      using same_config_good2(1) [OF kv'(3)] same_configD(9) [OF kv'(3)] by (simp add: seq_view_cell)
    show "p \<in> seq_view kv' q \<longleftrightarrow> p \<in> {p \<in> seq_view kv q. rm q < p} \<union> ub_positions ub q"
    proof
      assume "p \<in> seq_view kv' q"
      then obtain i where i: "i < kv_size kv" "\<exists>e h S. cell_at kv' (?t, i) = (p, e, h, S) \<and> q \<in> S"
        unfolding view' by blast
      show "p \<in> {p \<in> seq_view kv q. rm q < p} \<union> ub_positions ub q"
      proof (cases "(?t, i) \<in> slot_addr si ` {..<?N}")
        case True
        then obtain j where j: "j < ?N" "slot_addr si j = (?t, i)" by auto
        then have "\<exists>e h S. g_purge rm (placed ub j (cell_at kv (?t, i))) = (p, e, h, S) \<and> q \<in> S"
          using i(2) cells(1) [rule_format, OF j(1)] unfolding j(2) by simp
        then show ?thesis unfolding new [OF j(1)] using j(1) by (auto simp: ub_positions_def)
      next
        case False
        then have "cell_at kv' (?t, i) = g_purge rm (cell_at kv (?t, i))"
          using cells(2) t i(1) by (simp add: in_cache_def)
        then have "\<exists>e h S. cell_at kv (?t, i) = (p, e, h, S) \<and> q \<in> S \<and> rm q < p"
          using i(2) unfolding purge_member [symmetric] by simp
        then show ?thesis using i(1) unfolding seq_view_cell by blast
      qed
    next
      assume "p \<in> {p \<in> seq_view kv q. rm q < p} \<union> ub_positions ub q"
      then consider (old) "p \<in> seq_view kv q" "rm q < p" | (fresh) "p \<in> ub_positions ub q" by blast
      then show "p \<in> seq_view kv' q"
      proof cases
        case old
        then obtain i e h S where i: "i < kv_size kv" "cell_at kv (?t, i) = (p, e, h, S)" "q \<in> S"
          unfolding seq_view_cell by blast
        have a: "in_cache kv (?t, i)" using t i(1) by (simp add: in_cache_def)
        have "(?t, i) \<notin> slot_addr si ` {..<?N}"
        proof
          assume "(?t, i) \<in> slot_addr si ` {..<?N}"
          then obtain j where j: "j < ?N" "slot_addr si j = (?t, i)" by auto
          have "p \<noteq> -1" using cell_at_nonneg(2) [OF inv a i(2)] i(3) by auto
          then have "p \<le> rm q" using overwritten_ge [OF j(1), of kv si p e h S q] j(2) i unfolding rm_def by simp
          then show False using old(2) by simp
        qed
        then have "cell_at kv' (?t, i) = g_purge rm (cell_at kv (?t, i))" using cells(2) a by blast
        moreover have "\<exists>e h S. cell_at kv (?t, i) = (p, e, h, S) \<and> q \<in> S \<and> rm q < p" using i(2,3) old(2) by blast
        ultimately show ?thesis using i(1) unfolding view' purge_member [symmetric] by auto
      next
        case fresh
        then obtain j where j: "j < ?N" "p = ub_pos ub ! j" "q \<in> set (ub_seqs ub j)" by (auto simp: ub_positions_def)
        have "fst (slot_addr si j) = ?t" using A(3) [OF j(1,3)] by simp
        then have a: "slot_addr si j = (?t, snd (slot_addr si j))" by (simp add: prod_eq_iff)
        have "snd (slot_addr si j) < kv_size kv" using A(1) [OF j(1)] by (simp add: in_cache_def)
        moreover have "\<exists>e h S. cell_at kv' (slot_addr si j) = (p, e, h, S) \<and> q \<in> S"
          using j(2,3) unfolding cells(1) [rule_format, OF j(1)] new [OF j(1)] by blast
        ultimately show ?thesis unfolding view' using a by metis
      qed
    qed
  qed
  with kv' show ?thesis by blast
qed


text \<open>What is removed is masked for the next token of its sequence.\<close>

lemma overwritten_masked:
  assumes inv: "cache_inv kv" and swa: "swa_ok kv" and si: "slot_ok kv ub si" and ub: "ub_ok kv ub"
    and q: "seq_ok kv q" and p: "p \<in> seq_view kv q" "p \<le> overwritten kv si (ub_n_tokens ub) q"
  shows "is_masked_swa (kv_n_swa kv) (kv_swa_type kv) p (Max (seq_view kv q) + 1) = Some True"
proof -
  let ?r = "overwritten kv si (ub_n_tokens ub) q"
  have p0: "0 \<le> p" using seq_view_queries(4) [OF inv q p(1)] .
  then have "?r \<noteq> -1" using p(2) by linarith
  from overwritten_seq_ok [OF inv si ub this] obtain j e h S where
    j: "j < ub_n_tokens ub" "cell_at kv (slot_addr si j) = (?r, e, h, S)" "q \<in> S" "?r \<in> seq_view kv q" by blast
  have a: "in_cache kv (slot_addr si j)" "usable kv (fst (slot_addr si j)) (snd (slot_addr si j))"
    using slot_addr_ok(1) [OF inv si ub j(1)] by simp_all
  from usable_cell [OF inv swa a j(2) \<open>?r \<noteq> -1\<close>] obtain q' where
    "S = {q'}" "is_masked_swa (kv_n_swa kv) (kv_swa_type kv) ?r (Max (seq_view kv q') + 1) = Some True" by blast
  moreover have "?r \<le> Max (seq_view kv q)" using j(4) seq_view_queries(3) [OF inv q] by simp
  ultimately show ?thesis using j(3) p(2) p0 by (auto intro: is_masked_swa_mono)
qed

lemma none_not_masked: "is_masked_swa n Swa_none p q \<noteq> Some True"
  by (simp add: is_masked_swa_def assrt_def)

lemma none_slot_empty:
  assumes inv: "cache_inv kv" and none: "kv_swa_type kv = Swa_none" and si: "slot_ok kv ub si" and ub: "ub_ok kv ub"
    and j: "j < ub_n_tokens ub"
  shows "\<exists>e. cell_at kv (slot_addr si j) = (-1, e, 0, {})"
proof -
  have swa: "swa_ok kv" using none by (simp add: swa_ok_def)
  have a: "in_cache kv (slot_addr si j)" "usable kv (fst (slot_addr si j)) (snd (slot_addr si j))"
    using slot_addr_ok(1) [OF inv si ub j] by simp_all
  obtain p e h S where cl: "cell_at kv (slot_addr si j) = (p, e, h, S)" by (cases "cell_at kv (slot_addr si j)")
  have "p = -1"
    using usable_cell [OF inv swa a cl] none_not_masked by (auto simp: none)
  then show ?thesis using cl cell_at_nonneg(2,5) [OF inv a(1) cl] by simp
qed

lemma none_overwritten:
  assumes inv: "cache_inv kv" and none: "kv_swa_type kv = Swa_none" and si: "slot_ok kv ub si" and ub: "ub_ok kv ub"
  shows "overwritten kv si (ub_n_tokens ub) q = -1"
proof (rule ccontr)
  assume "overwritten kv si (ub_n_tokens ub) q \<noteq> -1"
  from overwritten_cases [OF this] obtain j e h S where
    "j < ub_n_tokens ub" "cell_at kv (slot_addr si j) = (overwritten kv si (ub_n_tokens ub) q, e, h, S)" "q \<in> S" by blast
  with none_slot_empty [OF inv none si ub, of j] show False by auto
qed


subsection \<open>\<open>prepare\<close> puts the cells back\<close>

definition save_stream :: "kv_cache \<Rightarrow> slot_info \<Rightarrow> nat \<Rightarrow> kv_cells list \<Rightarrow> kv_cells list option" where
  "save_stream kv si s acc = do {
     t \<leftarrow> at_idx (si_strm si) s;
     c \<leftarrow> at_idx (kv_cells kv) t;
     idxs \<leftarrow> at_idx (si_idxs si) s;
     d \<leftarrow> cells_cp_list idxs c;
     Some (acc @ [d]) }"

lemma save_streams:
  assumes inv: "cache_inv kv" and none: "kv_swa_type kv = Swa_none" and si: "slot_ok kv ub si" and ub: "ub_ok kv ub"
  shows "\<exists>sv. ofold (save_stream kv si) [0..<si_n_stream si] [] = Some sv \<and> length sv = si_n_stream si \<and>
    (\<forall>s < si_n_stream si. cells_cp_list (si_idxs si ! s) (kv_cells kv ! (si_strm si ! s)) = Some (sv ! s))"
proof (rule ofold_upt_inv [where I = "\<lambda>m sv. length sv = m \<and>
    (\<forall>s < m. cells_cp_list (si_idxs si ! s) (kv_cells kv ! (si_strm si ! s)) = Some (sv ! s))", simplified conj_assoc])
  note S = slot_okD [OF si ub] and U = ub_okD [OF ub] and D = cache_invD [OF inv]
  fix s sv assume s: "s < si_n_stream si"
    and I: "length sv = s \<and> (\<forall>r < s. cells_cp_list (si_idxs si ! r) (kv_cells kv ! (si_strm si ! r)) = Some (sv ! r))"
  then have sk: "s < ub_n_seqs_for kv ub" using S(1) by simp
  let ?t = "si_strm si ! s"
  have t: "?t < kv_n_stream kv" using S(5) [OF sk] D(9) [OF U(5) [OF sk]] by simp
  have "\<forall>i \<in> set (si_idxs si ! s). i < cells_size (kv_cells kv ! ?t) \<and> kc_shift (kv_cells kv ! ?t) ! i = 0"
  proof
    fix i assume i: "i \<in> set (si_idxs si ! s)"
    have u: "i < kv_size kv" "usable kv ?t i" using S(9) [OF sk i] by auto
    have a: "in_cache kv (?t, i)" using t u(1) by (simp add: in_cache_def)
    obtain p e h X where cl: "cell_at kv (?t, i) = (p, e, h, X)" by (cases "cell_at kv (?t, i)")
    have swa: "swa_ok kv" using none by (simp add: swa_ok_def)
    have "p = -1" using usable_cell [OF inv swa a _ cl] u(2) none_not_masked by (auto simp: none)
    then have "h = 0" using cell_at_nonneg(5) [OF inv a cl] by simp
    then show "i < cells_size (kv_cells kv ! ?t) \<and> kc_shift (kv_cells kv ! ?t) ! i = 0"
      using cl u(1) D(6) [OF t] by (simp add: cell_at_def cells_cell_def)
  qed
  from cells_cp_list_runs [OF this] obtain d where d: "cells_cp_list (si_idxs si ! s) (kv_cells kv ! ?t) = Some d" ..
  have "save_stream kv si s sv = Some (sv @ [d])"
    using d t sk S(2,3) D(3) by (simp add: save_stream_def)
  then show "\<exists>sv'. save_stream kv si s sv = Some sv' \<and> length sv' = Suc s \<and>
      (\<forall>r < Suc s. cells_cp_list (si_idxs si ! r) (kv_cells kv ! (si_strm si ! r)) = Some (sv' ! r))"
    using I d by (auto simp: nth_append less_Suc_eq)
qed simp

text \<open>The same cache but for the heads, and for one stream exactly the same cache.\<close>

definition restores :: "kv_cache \<Rightarrow> kv_cache \<Rightarrow> bool" where
  "restores kv kv' \<longleftrightarrow> (\<exists>hs. kv' = kv\<lparr>kv_heads := hs\<rparr> \<and> length hs = length (kv_heads kv) \<and>
     (kv_n_stream kv = 1 \<longrightarrow> hs = kv_heads kv))"

lemma restore_cells:
  assumes inv: "cache_inv kv" and none: "kv_swa_type kv = Swa_none" and si: "slot_ok kv ub si" and ub: "ub_ok kv ub"
    and placed: "placed_state kv ub si (ub_n_tokens ub) kv1" and s: "s < si_n_stream si"
    and saved: "cells_cp_list (si_idxs si ! s) (kv_cells kv ! (si_strm si ! s)) = Some d"
  shows "cells_set_list (si_idxs si ! s) d (kv_cells kv1 ! (si_strm si ! s)) = Some (kv_cells kv ! (si_strm si ! s))"
proof -
  note S = slot_okD [OF si ub] and U = ub_okD [OF ub] and D = cache_invD [OF inv]
  have P: "cache_inv kv1" "same_config kv kv1"
    "\<forall>t < kv_n_stream kv. kc_has_shift (kv_cells kv1 ! t) = kc_has_shift (kv_cells kv ! t)"
    "\<forall>j < ub_n_tokens ub. cell_at kv1 (slot_addr si j) = placed ub j (cell_at kv (slot_addr si j))"
    "\<forall>a. in_cache kv a \<longrightarrow> a \<notin> slot_addr si ` {..<ub_n_tokens ub} \<longrightarrow> cell_at kv1 a = cell_at kv a"
    using placed by (simp_all add: placed_state_def)
  note D1 = cache_invD [OF P(1)]
  let ?n = "ub_n_tokens ub div ub_n_seqs_for kv ub" and ?t = "si_strm si ! s"
  have sk: "s < ub_n_seqs_for kv ub" using s S(1) by simp
  have t: "?t < kv_n_stream kv" using S(5) [OF sk] D(9) [OF U(5) [OF sk]] by simp
  then have t1: "?t < kv_n_stream kv1" using same_configD(1) [OF P(2)] by simp
  have size: "cells_size (kv_cells kv1 ! ?t) = cells_size (kv_cells kv ! ?t)"
    using D(6) [OF t] D1(6) [OF t1] same_configD(9) [OF P(2)] by simp
  have addr: "slot_addr si j = (si_strm si ! (j div ?n), si_idxs si ! (j div ?n) ! (j mod ?n))" for j
    unfolding slot_addr_def Let_def S(10) ..
  have "kc_shift (kv_cells kv1 ! ?t) ! i = 0" if i: "i \<in> set (si_idxs si ! s)" for i
  proof -
    obtain m where m: "m < ?n" "i = si_idxs si ! s ! m" using i S(6) [OF sk] by (auto simp: in_set_conv_nth)
    let ?j = "s * ?n + m"
    have "?j < (s + 1) * ?n" using m(1) by simp
    also have "\<dots> \<le> ub_n_seqs_for kv ub * ?n" using sk by (intro mult_le_mono1) simp
    finally have j: "?j < ub_n_tokens ub" using U(3) by simp
    have "slot_addr si ?j = (?t, i)" unfolding addr using m by simp
    then have "cell_at kv1 (?t, i) = placed ub ?j (cell_at kv (?t, i))" using P(4) j by metis
    then show ?thesis by (cases "cell_at kv (?t, i)") (simp add: cell_at_def cells_cell_def placed_def)
  qed
  moreover have "cells_cell (kv_cells kv1 ! ?t) i = cells_cell (kv_cells kv ! ?t) i"
    if i: "i < cells_size (kv_cells kv ! ?t)" "i \<notin> set (si_idxs si ! s)" for i
  proof -
    have "(?t, i) \<notin> slot_addr si ` {..<ub_n_tokens ub}"
    proof
      assume "(?t, i) \<in> slot_addr si ` {..<ub_n_tokens ub}"
      then obtain j where j: "j < ub_n_tokens ub" "slot_addr si j = (?t, i)" by auto
      have dm: "j div ?n < ub_n_seqs_for kv ub" "j mod ?n < ?n"
        using j(1) U(2,3) by (simp_all add: less_mult_imp_div_less)
      have "j div ?n = s"
        using j(2) dm(1) sk S(2,7) by (simp add: addr nth_eq_iff_index_eq)
      then have "i \<in> set (si_idxs si ! s)" using j(2) dm S(6) [OF sk] by (auto simp: addr)
      then show False using i(2) by simp
    qed
    moreover have "in_cache kv (?t, i)" using t i(1) D(6) [OF t] by (simp add: in_cache_def)
    ultimately have "cell_at kv1 (?t, i) = cell_at kv (?t, i)" using P(5) by blast
    then show ?thesis by (simp add: cell_at_def)
  qed
  ultimately show ?thesis
    using P(3) t by (intro cells_restore [OF D(5) [OF t] D1(5) [OF t1] saved size]) auto
qed

lemma placed_other_streams:
  assumes inv: "cache_inv kv" and si: "slot_ok kv ub si" and ub: "ub_ok kv ub"
    and placed: "placed_state kv ub si (ub_n_tokens ub) kv1" and t: "t < kv_n_stream kv" "t \<notin> set (si_strm si)"
  shows "kv_cells kv1 ! t = kv_cells kv ! t"
proof -
  note S = slot_okD [OF si ub] and U = ub_okD [OF ub] and D = cache_invD [OF inv]
  have P: "cache_inv kv1" "same_config kv kv1"
    "\<forall>t < kv_n_stream kv. kc_has_shift (kv_cells kv1 ! t) = kc_has_shift (kv_cells kv ! t)"
    "\<forall>a. in_cache kv a \<longrightarrow> a \<notin> slot_addr si ` {..<ub_n_tokens ub} \<longrightarrow> cell_at kv1 a = cell_at kv a"
    using placed by (simp_all add: placed_state_def)
  note D1 = cache_invD [OF P(1)]
  have t1: "t < kv_n_stream kv1" using t(1) same_configD(1) [OF P(2)] by simp
  let ?n = "ub_n_tokens ub div ub_n_seqs_for kv ub"
  have slots: "fst (slot_addr si j) \<in> set (si_strm si)" if "j < ub_n_tokens ub" for j
    using that S(2) U(2,3) unfolding slot_addr_def Let_def S(10) by (simp add: less_mult_imp_div_less)
  have out: "(t, i) \<notin> slot_addr si ` {..<ub_n_tokens ub}" for i
  proof
    assume "(t, i) \<in> slot_addr si ` {..<ub_n_tokens ub}"
    then obtain j where "j < ub_n_tokens ub" "slot_addr si j = (t, i)" by auto
    with slots [of j] t(2) show False by simp
  qed
  show ?thesis
  proof (rule data_eqI [OF D(5) [OF t(1)] D1(5) [OF t1]])
    show "cells_size (kv_cells kv1 ! t) = cells_size (kv_cells kv ! t)"
      using D(6) [OF t(1)] D1(6) [OF t1] same_configD(9) [OF P(2)] by simp
    show "kc_has_shift (kv_cells kv1 ! t) = kc_has_shift (kv_cells kv ! t)" using P(3) t(1) by blast
    fix i assume "i < cells_size (kv_cells kv ! t)"
    then have "in_cache kv (t, i)" using t(1) D(6) [OF t(1)] by (simp add: in_cache_def)
    then have "cell_at kv1 (t, i) = cell_at kv (t, i)" using P(4) out by blast
    then show "cells_cell (kv_cells kv1 ! t) i = cells_cell (kv_cells kv ! t) i" by (simp add: cell_at_def)
  qed
qed

lemma slot_streams_le:
  assumes "cache_inv kv" "slot_ok kv ub si" "ub_ok kv ub"
  shows "si_n_stream si \<le> kv_n_stream kv"
proof -
  note S = slot_okD [OF assms(2,3)] and U = ub_okD [OF assms(3)]
  have "set (si_strm si) \<subseteq> {..<kv_n_stream kv}"
    using S(1,2,5) U(5) cache_invD(9) [OF assms(1)] by (auto simp: in_set_conv_nth)
  from card_mono [OF _ this] show ?thesis
    using S(1,2,7) by (simp add: distinct_card)
qed

lemma restore_state_spec:
  assumes inv: "cache_inv kv" and none: "kv_swa_type kv = Swa_none" and si: "slot_ok kv ub si" and ub: "ub_ok kv ub"
    and placed: "placed_state kv ub si (ub_n_tokens ub) kv1"
    and saved: "length sv = si_n_stream si"
      "\<forall>s < si_n_stream si. cells_cp_list (si_idxs si ! s) (kv_cells kv ! (si_strm si ! s)) = Some (sv ! s)"
    and x: "x = kv1\<lparr>kv_heads := hs\<rparr>" "length hs = length (kv_heads kv)"
  shows "\<exists>y. restore_state \<lparr>ps_sinfo = si, ps_heads_old = kv_heads kv, ps_cells = sv\<rparr> x = Some y \<and> restores kv y"
proof -
  note S = slot_okD [OF si ub] and U = ub_okD [OF ub] and D = cache_invD [OF inv]
  let ?st = "\<lparr>ps_sinfo = si, ps_heads_old = kv_heads kv, ps_cells = sv\<rparr>"
  obtain cs where cs: "kv1 = kv\<lparr>kv_cells := cs\<rparr>" using placed by (auto simp: placed_state_def)
  have inv1: "cache_inv kv1" "kv_n_stream kv1 = kv_n_stream kv"
    using placed same_configD(1) [of kv kv1] by (auto simp: placed_state_def)
  have lencs: "length cs = kv_n_stream kv" using cache_invD(3) [OF inv1(1)] inv1(2) cs by simp
  let ?I = "\<lambda>m y. \<exists>cs' hs'. y = kv\<lparr>kv_cells := cs', kv_heads := hs'\<rparr> \<and> length cs' = kv_n_stream kv \<and>
    length hs' = kv_n_stream kv \<and>
    (\<forall>t < kv_n_stream kv. cs' ! t = (if t \<in> set (take m (si_strm si)) then kv_cells kv ! t else cs ! t)) \<and>
    (kv_n_stream kv = 1 \<longrightarrow> 0 < m \<longrightarrow> hs' = kv_heads kv)"
  have "\<exists>y. ofold (restore_stream ?st) [0..<si_n_stream si] x = Some y \<and> ?I (si_n_stream si) y"
  proof (rule ofold_upt_inv [where I = ?I])
    show "?I 0 x"
      using x lencs D(4) by (intro exI [of _ cs] exI [of _ hs]) (simp add: cs)
    fix s y assume s: "s < si_n_stream si" and I: "?I s y"
    then obtain cs' hs' where y: "y = kv\<lparr>kv_cells := cs', kv_heads := hs'\<rparr>" "length cs' = kv_n_stream kv"
      "length hs' = kv_n_stream kv"
      "\<forall>t < kv_n_stream kv. cs' ! t = (if t \<in> set (take s (si_strm si)) then kv_cells kv ! t else cs ! t)" by blast
    let ?t = "si_strm si ! s"
    have sk: "s < ub_n_seqs_for kv ub" using s S(1) by simp
    have t: "?t < kv_n_stream kv" using S(5) [OF sk] D(9) [OF U(5) [OF sk]] by simp
    have new: "?t \<notin> set (take s (si_strm si))"
      using S(2,7) sk by (auto simp: in_set_conv_nth nth_eq_iff_index_eq)
    then have "cs' ! ?t = kv_cells kv1 ! ?t" using y(4) t by (simp add: cs)
    then have set: "cells_set_list (si_idxs si ! s) (sv ! s) (cs' ! ?t) = Some (kv_cells kv ! ?t)"
      using restore_cells [OF inv none si ub placed s] saved(2) s by simp
    have sn: "s < kv_n_stream kv" using s slot_streams_le [OF inv si ub] by simp
    let ?y = "kv\<lparr>kv_cells := cs'[?t := kv_cells kv ! ?t], kv_heads := hs'[?t := kv_heads kv ! s]\<rparr>"
    have run: "restore_stream ?st s y = Some ?y"
      using set sk S(1-3) t y(1-3) saved(1) s sn D(4) by (simp add: restore_stream_def kv_put_def)
    have "hs'[?t := kv_heads kv ! s] = kv_heads kv" if one: "kv_n_stream kv = 1"
      using one t sn y(3) D(4) by (cases hs'; cases "kv_heads kv") auto
    moreover have "cs'[?t := kv_cells kv ! ?t] ! u = (if u \<in> set (take (Suc s) (si_strm si)) then kv_cells kv ! u else cs ! u)"
      if "u < kv_n_stream kv" for u
      using that y(2) y(4) [rule_format, OF that] sk S(2) by (cases "u = ?t") (auto simp: take_Suc_conv_app_nth)
    ultimately have "?I (Suc s) ?y"
      using y(2,3) by (intro exI [of _ "cs'[?t := kv_cells kv ! ?t]"] exI [of _ "hs'[?t := kv_heads kv ! s]"]) simp
    with run show "\<exists>z. restore_stream ?st s y = Some z \<and> ?I (Suc s) z" by blast
  qed
  then obtain y cs' hs' where y: "ofold (restore_stream ?st) [0..<si_n_stream si] x = Some y"
    "y = kv\<lparr>kv_cells := cs', kv_heads := hs'\<rparr>" "length cs' = kv_n_stream kv" "length hs' = kv_n_stream kv"
    "\<forall>t < kv_n_stream kv. cs' ! t = (if t \<in> set (take (si_n_stream si) (si_strm si)) then kv_cells kv ! t else cs ! t)"
    "kv_n_stream kv = 1 \<longrightarrow> 0 < si_n_stream si \<longrightarrow> hs' = kv_heads kv" by (elim exE conjE) (rule that)
  have "cs' = kv_cells kv"
  proof (rule nth_equalityI)
    show "length cs' = length (kv_cells kv)" using y(3) D(3) by simp
    fix t assume "t < length cs'"
    then have t: "t < kv_n_stream kv" using y(3) by simp
    have "cs ! t = kv_cells kv ! t" if "t \<notin> set (si_strm si)"
      using placed_other_streams [OF inv si ub placed t that] by (simp add: cs)
    then show "cs' ! t = kv_cells kv ! t" using y(5) t by (simp add: si_n_stream_def)
  qed
  then have "y = kv\<lparr>kv_heads := hs'\<rparr>" using y(2) by simp
  moreover have "0 < si_n_stream si" using S(1) U(1) by simp
  ultimately have "restores kv y" using y(4,6) D(4) by (auto simp: restores_def)
  with y(1) show ?thesis by (simp add: restore_state_def)
qed

lemma ub_ok_config: "same_config kv kv' \<Longrightarrow> ub_ok kv' ub = ub_ok kv ub"
  using same_configD(1) [of kv kv'] same_config_good2 [of kv kv']
  by (simp add: ub_ok_def ub_n_seqs_for_def)

definition apply_all :: "slot_info list \<Rightarrow> llama_ubatch list \<Rightarrow> kv_cache \<Rightarrow> kv_cache option" where
  "apply_all sis ubs = ofold (\<lambda>(si, ub). apply_ubatch si ub) (zip sis ubs)"

lemma restores_refl [simp]: "restores kv kv"
  by (auto simp: restores_def intro: exI [of _ "kv_heads kv"])

text \<open>Without a window a slot consists of empty cells, so what is left to use can be counted.\<close>

definition free_cells :: "kv_cache \<Rightarrow> nat \<Rightarrow> nat set" where
  "free_cells kv t = {i. i < kv_size kv \<and> kc_pos (kv_cells kv ! t) ! i = -1}"

definition tokens_in :: "kv_cache \<Rightarrow> llama_ubatch \<Rightarrow> nat \<Rightarrow> nat" where
  "tokens_in kv ub t = (if t \<in> set (ub_streams kv ub) then ub_n_tokens ub div ub_n_seqs_for kv ub else 0)"

definition fits :: "kv_cache \<Rightarrow> llama_ubatch list \<Rightarrow> bool" where
  "fits kv ubs \<longleftrightarrow> (\<forall>t < kv_n_stream kv. (\<Sum>ub\<leftarrow>ubs. tokens_in kv ub t) \<le> card (free_cells kv t))"

lemma stream_pick_None:
  assumes "0 < kv_size kv"
  shows "stream_pick kv t n = None \<longleftrightarrow> card {i. i < kv_size kv \<and> usable kv t i} < n"
proof -
  let ?us = "filter (usable kv t) (ring (kv_size kv) (start_head kv t n))"
  have "distinct ?us" "set ?us = {i. i < kv_size kv \<and> usable kv t i}" using ring_props [OF assms] by auto
  then have "length ?us = card {i. i < kv_size kv \<and> usable kv t i}" using distinct_card by metis
  then show ?thesis by (simp add: stream_pick_def pick_cells_def Let_def)
qed

lemma none_usable:
  assumes "cache_inv kv" "kv_swa_type kv = Swa_none" "t < kv_n_stream kv" "i < kv_size kv"
  shows "usable kv t i \<longleftrightarrow> kc_pos (kv_cells kv ! t) ! i = -1"
  using cell_usable_cases [OF cache_invD(5) [OF assms(1,3)], of i "kv_swa_type kv" "kv_n_swa kv"] cache_invD(6) [OF assms(1,3)]
    assms(2,4) none_not_masked by (auto simp: usable_def)

lemma ub_streams_lt:
  assumes "cache_inv kv" "ub_ok kv ub" "t \<in> set (ub_streams kv ub)"
  shows "t < kv_n_stream kv"
  using assms(3) ub_okD(4,5) [OF assms(2)] cache_invD(9) [OF assms(1)] by (auto simp: ub_streams_def in_set_conv_nth)

lemma find_slot_none:
  assumes inv: "cache_inv kv" and none: "kv_swa_type kv = Swa_none" and size: "0 < kv_size kv" and ub: "ub_ok kv ub"
    and si: "find_slot ub False kv = Some si"
  shows "si \<noteq> si_none \<longleftrightarrow> (\<forall>t < kv_n_stream kv. tokens_in kv ub t \<le> card (free_cells kv t))"
proof -
  let ?n = "ub_n_tokens ub div ub_n_seqs_for kv ub"
  have "swa_ok kv" using none by (simp add: swa_ok_def)
  from find_slot_spec [OF inv this size ub] si
  have "si \<noteq> si_none \<longleftrightarrow> (\<forall>t \<in> set (ub_streams kv ub). stream_pick kv t ?n \<noteq> None)"
    by (auto simp: si_empty_def si_none_def split: if_splits)
  moreover have "stream_pick kv t ?n \<noteq> None \<longleftrightarrow> ?n \<le> card (free_cells kv t)" if "t \<in> set (ub_streams kv ub)" for t
  proof -
    have "{i. i < kv_size kv \<and> usable kv t i} = free_cells kv t"
      using none_usable [OF inv none ub_streams_lt [OF inv ub that]] by (auto simp: free_cells_def)
    then show ?thesis using stream_pick_None [OF size, of t ?n] by (simp del: not_None_eq add: not_less)
  qed
  ultimately show ?thesis using ub_streams_lt [OF inv ub] by (auto simp: tokens_in_def)
qed

lemma slot_cells_of_stream:
  assumes inv: "cache_inv kv" and si: "slot_ok kv ub si" and ub: "ub_ok kv ub"
  shows "card {i. (t, i) \<in> slot_addr si ` {..<ub_n_tokens ub}} = tokens_in kv ub t"
proof -
  note S = slot_okD [OF si ub] and U = ub_okD [OF ub]
  let ?k = "ub_n_seqs_for kv ub"
  let ?n = "ub_n_tokens ub div ?k"
  have addr: "slot_addr si j = (si_strm si ! (j div ?n), si_idxs si ! (j div ?n) ! (j mod ?n))" for j
    unfolding slot_addr_def Let_def S(10) ..
  have strms: "set (ub_streams kv ub) = set (si_strm si)"
    using si by (simp add: slot_ok_def Let_def ub_streams_def)
  show ?thesis
  proof (cases "t \<in> set (si_strm si)")
    case True
    then obtain s where s: "s < ?k" "t = si_strm si ! s" using S(2) by (auto simp: in_set_conv_nth)
    have "{i. (t, i) \<in> slot_addr si ` {..<ub_n_tokens ub}} = set (si_idxs si ! s)"
    proof (intro set_eqI iffI)
      fix i assume "i \<in> {i. (t, i) \<in> slot_addr si ` {..<ub_n_tokens ub}}"
      then obtain j where j: "j < ub_n_tokens ub" "slot_addr si j = (t, i)" by auto
      have dm: "j div ?n < ?k" "j mod ?n < ?n" using j(1) U(2,3) by (simp_all add: less_mult_imp_div_less)
      then have "j div ?n = s" using j(2) s S(2,7) by (simp add: addr nth_eq_iff_index_eq)
      then show "i \<in> set (si_idxs si ! s)" using j(2) dm S(6) [OF s(1)] by (auto simp: addr)
    next
      fix i assume "i \<in> set (si_idxs si ! s)"
      then obtain m where m: "m < ?n" "i = si_idxs si ! s ! m" using S(6) [OF s(1)] by (auto simp: in_set_conv_nth)
      have "s * ?n + m < (s + 1) * ?n" using m(1) by simp
      also have "\<dots> \<le> ?k * ?n" using s(1) by (intro mult_le_mono1) simp
      finally have "s * ?n + m < ub_n_tokens ub" using U(3) by simp
      moreover have "slot_addr si (s * ?n + m) = (t, i)" using m s(2) by (simp add: addr)
      ultimately show "i \<in> {i. (t, i) \<in> slot_addr si ` {..<ub_n_tokens ub}}" by (auto simp: image_iff intro!: bexI [of _ "s * ?n + m"])
    qed
    then show ?thesis using S(6,8) [OF s(1)] True strms by (simp add: distinct_card tokens_in_def)
  next
    case False
    have "{i. (t, i) \<in> slot_addr si ` {..<ub_n_tokens ub}} = {}"
    proof (rule ccontr)
      assume "{i. (t, i) \<in> slot_addr si ` {..<ub_n_tokens ub}} \<noteq> {}"
      then obtain i where "(t, i) \<in> slot_addr si ` {..<ub_n_tokens ub}" by blast
      then obtain j where j: "j < ub_n_tokens ub" "slot_addr si j = (t, i)" by auto
      then have "j div ?n < length (si_strm si)" using U(2,3) S(2) by (simp add: less_mult_imp_div_less)
      with j(2) False show False by (auto simp: addr)
    qed
    then show ?thesis using False strms by (simp add: tokens_in_def)
  qed
qed

lemma placed_free:
  assumes inv: "cache_inv kv" and none: "kv_swa_type kv = Swa_none" and si: "slot_ok kv ub si" and ub: "ub_ok kv ub"
    and st: "placed_state kv ub si (ub_n_tokens ub) kv1" and t: "t < kv_n_stream kv"
  shows "card (free_cells kv1 t) = card (free_cells kv t) - tokens_in kv ub t"
proof -
  let ?A = "{i. (t, i) \<in> slot_addr si ` {..<ub_n_tokens ub}}"
  have P: "kv_size kv1 = kv_size kv" "\<forall>j < ub_n_tokens ub. cell_at kv1 (slot_addr si j) = placed ub j (cell_at kv (slot_addr si j))"
    "\<forall>a. in_cache kv a \<longrightarrow> a \<notin> slot_addr si ` {..<ub_n_tokens ub} \<longrightarrow> cell_at kv1 a = cell_at kv a"
    using st same_configD(9) [of kv kv1] by (auto simp: placed_state_def)
  have pos: "kc_pos (kv_cells kv ! t) ! i = fst (cell_at kv (t, i))" for kv i by (simp add: cell_at_def cells_cell_def)
  have "?A \<subseteq> free_cells kv t"
  proof
    fix i assume "i \<in> ?A"
    then obtain j where j: "j < ub_n_tokens ub" "slot_addr si j = (t, i)" by auto
    then show "i \<in> free_cells kv t"
      using none_slot_empty [OF inv none si ub j(1)] slot_addr_ok(1) [OF inv si ub j(1)]
      by (auto simp: free_cells_def pos in_cache_def)
  qed
  moreover have "free_cells kv1 t = free_cells kv t - ?A"
  proof -
    have "fst (cell_at kv1 (t, i)) = -1 \<longleftrightarrow> fst (cell_at kv (t, i)) = -1 \<and> i \<notin> ?A" if i: "i < kv_size kv" for i
    proof (cases "i \<in> ?A")
      case True
      then obtain j where j: "j < ub_n_tokens ub" "slot_addr si j = (t, i)" by auto
      then have "fst (cell_at kv1 (t, i)) = ub_pos ub ! j"
        using P(2) by (cases "cell_at kv (t, i)") (fastforce simp: placed_def)
      then show ?thesis using True slot_addr_ok(4) [OF inv si ub j(1)] by simp
    next
      case False
      then show ?thesis using P(3) t i by (auto simp: in_cache_def)
    qed
    then show ?thesis by (auto simp: free_cells_def pos P(1))
  qed
  ultimately show ?thesis
    using slot_cells_of_stream [OF inv si ub, of t] by (simp add: card_Diff_subset finite_subset free_cells_def)
qed

lemma fits_config:
  assumes "same_config kv kv'"
  shows "tokens_in kv' ub t = tokens_in kv ub t"
  using same_configD(1) [OF assms] same_config_good2(1) [OF assms]
  by (simp add: tokens_in_def ub_streams_def ub_n_seqs_for_def)

lemma fits_Cons:
  assumes ap: "\<forall>t < kv_n_stream kv. tokens_in kv ub t \<le> card (free_cells kv t)"
    and c: "same_config kv kv'" "\<forall>t < kv_n_stream kv. card (free_cells kv' t) = card (free_cells kv t) - tokens_in kv ub t"
  shows "fits kv (ub # ubs) \<longleftrightarrow> fits kv' ubs"
proof -
  have "(tokens_in kv ub t + (\<Sum>ub\<leftarrow>ubs. tokens_in kv ub t) \<le> card (free_cells kv t)) =
      ((\<Sum>ub\<leftarrow>ubs. tokens_in kv ub t) \<le> card (free_cells kv' t))" if "t < kv_n_stream kv" for t
    using ap c(2) that by (auto simp: le_diff_conv2 add.commute)
  then show ?thesis using same_configD(1) [OF c(1)] by (simp add: fits_def fits_config [OF c(1)])
qed

lemma place_ubatches_spec:
  assumes "cache_inv kv" "kv_swa_type kv = Swa_none" "0 < kv_size kv" "\<forall>ub \<in> set ubs. ub_ok kv ub"
  shows "\<exists>ok sis sts kv'. place_ubatches ubs res states kv = Some (ok, res @ sis, states @ sts, kv') \<and>
    length sts = length sis \<and> (ok \<longleftrightarrow> fits kv ubs) \<and> (ok \<longrightarrow> length sis = length ubs \<and> apply_all sis ubs kv = Some kv') \<and>
    (\<exists>y. ofold restore_state (rev sts) kv' = Some y \<and> restores kv y)"
  using assms
proof (induction ubs arbitrary: kv res states)
  case Nil
  then show ?case by (auto simp: apply_all_def fits_def intro!: exI [of _ True])
next
  case (Cons ub ubs)
  note inv = Cons.prems(1) and none = Cons.prems(2) and size = Cons.prems(3)
  have ub: "ub_ok kv ub" using Cons.prems(4) by simp
  have swa: "swa_ok kv" using none by (simp add: swa_ok_def)
  obtain si where found: "find_slot ub False kv = Some si"
    and si: "si = si_none \<or> slot_ok kv ub si \<and> \<not> si_empty si"
    using find_slot_spec [OF inv swa size ub] by (auto split: if_splits)
  show ?case
  proof (cases "si = si_none")
    case True
    then have "place_ubatches (ub # ubs) res states kv = Some (False, res, states, kv)"
      using found by (simp add: si_empty_def si_none_def)
    moreover have "\<not> fits kv (ub # ubs)"
      using find_slot_none [OF inv none size ub found] True by (force simp: fits_def)
    ultimately show ?thesis by (intro exI [of _ False] exI [of _ "[]"] exI [of _ kv]) simp
  next
    case False
    then have slot: "slot_ok kv ub si" "\<not> si_empty si" using si by simp_all
    obtain sv where sv: "ofold (save_stream kv si) [0..<si_n_stream si] [] = Some sv" "length sv = si_n_stream si"
      "\<forall>s < si_n_stream si. cells_cp_list (si_idxs si ! s) (kv_cells kv ! (si_strm si ! s)) = Some (sv ! s)"
      using save_streams [OF inv none slot(1) ub] by blast
    obtain kv' kv1 hs where ap: "apply_ubatch si ub kv = Some kv'" "cache_inv kv'" "same_config kv kv'"
      "placed_state kv ub si (ub_n_tokens ub) kv1" "kv' = kv1\<lparr>kv_heads := hs\<rparr>"
      using apply_ubatch_spec [OF inv swa ub slot(1)] none_overwritten [OF inv none slot(1) ub] by blast
    let ?st = "\<lparr>ps_sinfo = si, ps_heads_old = kv_heads kv, ps_cells = sv\<rparr>"
    have "\<forall>t < kv_n_stream kv. card (free_cells kv' t) = card (free_cells kv t) - tokens_in kv ub t"
      using placed_free [OF inv none slot(1) ub ap(4)] by (simp add: ap(5) free_cells_def kv_size_def)
    with find_slot_none [OF inv none size ub found] False ap(3)
    have fit: "fits kv (ub # ubs) \<longleftrightarrow> fits kv' ubs" by (intro fits_Cons) simp_all
    have "kv_swa_type kv' = Swa_none" "0 < kv_size kv'" "\<forall>ub \<in> set ubs. ub_ok kv' ub"
      using same_configD(6,9) [OF ap(3)] none size Cons.prems(4) ub_ok_config [OF ap(3)] by simp_all
    from Cons.IH [OF ap(2) this, of "res @ [si]" "states @ [?st]"] obtain ok sis sts kv2 y where
      rest: "place_ubatches ubs (res @ [si]) (states @ [?st]) kv' = Some (ok, (res @ [si]) @ sis, (states @ [?st]) @ sts, kv2)"
        "length sts = length sis" "ok \<longleftrightarrow> fits kv' ubs" "ok \<longrightarrow> length sis = length ubs \<and> apply_all sis ubs kv' = Some kv2"
        "ofold restore_state (rev sts) kv2 = Some y" "restores kv' y" by blast
    have "(\<lambda>s acc. do {
           t \<leftarrow> at_idx (si_strm si) s;
           c \<leftarrow> at_idx (kv_cells kv) t;
           idxs \<leftarrow> at_idx (si_idxs si) s;
           d \<leftarrow> cells_cp_list idxs c;
           Some (acc @ [d]) }) = save_stream kv si" by (simp add: fun_eq_iff save_stream_def)
    then have run: "place_ubatches (ub # ubs) res states kv = Some (ok, res @ si # sis, states @ ?st # sts, kv2)"
      using found slot(2) sv(1) ap(1) rest(1) by simp
    obtain hs' where hs': "y = kv1\<lparr>kv_heads := hs'\<rparr>" "length hs' = length (kv_heads kv')"
      using rest(6) ap(5) by (auto simp: restores_def)
    have "length (kv_heads kv') = length (kv_heads kv)"
      using cache_invD(4) [OF ap(2)] cache_invD(4) [OF inv] same_configD(1) [OF ap(3)] by simp
    with hs' obtain z where z: "restore_state ?st y = Some z" "restores kv z"
      using restore_state_spec [OF inv none slot(1) ub ap(4) sv(2,3) hs'(1)] by auto
    have "ofold restore_state (rev (?st # sts)) kv2 = Some z" using rest(5) z(1) by (simp add: ofold_append)
    moreover have "ok \<longrightarrow> length (si # sis) = length (ub # ubs) \<and> apply_all (si # sis) (ub # ubs) kv = Some kv2"
      using rest(4) ap(1) by (simp add: apply_all_def)
    ultimately show ?thesis using run rest(2,3) fit z(2)
      by (intro exI [of _ ok] exI [of _ "si # sis"] exI [of _ "?st # sts"] exI [of _ kv2]) auto
  qed
qed

lemma prepare_spec:
  assumes "cache_inv kv" "kv_swa_type kv = Swa_none" "0 < kv_size kv" "\<forall>ub \<in> set ubs. ub_ok kv ub" "ubs \<noteq> []"
  shows "\<exists>sis kv'. prepare ubs kv = Some (sis, kv') \<and> restores kv kv' \<and> (sis \<noteq> [] \<longleftrightarrow> fits kv ubs) \<and>
    (sis \<noteq> [] \<longrightarrow> length sis = length ubs \<and> (\<exists>kv2. apply_all sis ubs kv = Some kv2))"
proof -
  from place_ubatches_spec [OF assms(1-4), of "[]" "[]"] obtain ok sis sts kv1 y where
    p: "place_ubatches ubs [] [] kv = Some (ok, sis, sts, kv1)" "length sts = length sis"
      "ok \<longrightarrow> length sis = length ubs \<and> apply_all sis ubs kv = Some kv1" "ok \<longleftrightarrow> fits kv ubs"
      "ofold restore_state (rev sts) kv1 = Some y" "restores kv y" by auto
  have "sts \<noteq> [] \<or> \<not> ok" using p(2,3) assms(5) by auto
  then have "prepare ubs kv = Some (if ok then sis else [], y)"
    using p(1,5) by (simp add: prepare_def assrt_def)
  moreover have "(if ok then sis else []) \<noteq> [] \<longleftrightarrow> fits kv ubs" using p(3,4) assms(5) by auto
  ultimately show ?thesis using p(3,6) by auto
qed


subsection \<open>From an accepted batch to the cells\<close>

text \<open>What the cache asks of the tokens of a batch.\<close>

definition tokens_ok :: "nat \<Rightarrow> llama_batch \<Rightarrow> bool" where
  "tokens_ok n_seq_max b \<longleftrightarrow> (\<forall>i < bt_n_tokens b. 0 \<le> tok_pos b i \<and> tok_seqs b i \<noteq> [] \<and> distinct (tok_seqs b i) \<and>
     (\<forall>q \<in> set (tok_seqs b i). 0 \<le> q \<and> q < int n_seq_max))"

lemma gather_pos_nth:
  assumes "0 < al_n_pos_per_embd al" "ii < length idxs"
  shows "gather_pos al idxs ! ii = tok_pos (al_batch al) (idxs ! ii)"
proof -
  obtain m where m: "al_n_pos_per_embd al = Suc m" using assms(1) by (cases "al_n_pos_per_embd al") auto
  have "[0..<Suc m] = 0 # [1..<Suc m]" by (subst upt_conv_Cons) simp_all
  then show ?thesis
    using assms(2) by (simp add: gather_pos_def m tok_pos_def nth_append Let_def del: upt_Suc)
qed

lemma splits_into_ub_ok:
  assumes u: "unified_inv kv" and ub: "splits_into al idxs ub" and idxs: "idxs \<noteq> []" "set idxs \<subseteq> {..<al_tokens al}"
    and toks: "tokens_ok (al_n_seq_max al) (al_batch al)" "0 < al_n_pos_per_embd al"
    and seqs: "al_n_seq_max al \<le> length (kv_seq_to_stream kv)"
  shows "ub_ok kv ub" "j < length idxs \<Longrightarrow> ub_seqs ub j = tok_seqs (al_batch al) (idxs ! j)"
    "j < length idxs \<Longrightarrow> ub_pos ub ! j = tok_pos (al_batch al) (idxs ! j)"
proof -
  let ?b = "al_batch al"
  have one: "kv_n_stream kv = 1" using u by (simp add: unified_inv_def)
  have k: "ub_n_seqs_for kv ub = 1" by (simp add: ub_n_seqs_for_def one)
  have n: "ub_n_tokens ub = length idxs" using ub by (simp add: splits_into_def)
  show pos: "ub_pos ub ! j = tok_pos ?b (idxs ! j)" if "j < length idxs" for j
    using ub gather_pos_nth [OF toks(2) that] by (simp add: splits_into_def)
  show sq: "ub_seqs ub j = tok_seqs ?b (idxs ! j)" if "j < length idxs" for j
    using ub that by (simp add: splits_into_def ub_seqs_def gather_def tok_seqs_def tok_n_seq_def)
  have tok: "0 \<le> tok_pos ?b (idxs ! j)" "tok_seqs ?b (idxs ! j) \<noteq> []" "distinct (tok_seqs ?b (idxs ! j))"
    "\<forall>q \<in> set (tok_seqs ?b (idxs ! j)). 0 \<le> q \<and> q < int (al_n_seq_max al)" if "j < length idxs" for j
  proof -
    have "idxs ! j < bt_n_tokens ?b" using subsetD [OF idxs(2) nth_mem [OF that]] by (simp add: al_tokens_def)
    then show "0 \<le> tok_pos ?b (idxs ! j)" "tok_seqs ?b (idxs ! j) \<noteq> []" "distinct (tok_seqs ?b (idxs ! j))"
      "\<forall>q \<in> set (tok_seqs ?b (idxs ! j)). 0 \<le> q \<and> q < int (al_n_seq_max al)"
      using toks(1) by (auto simp: tokens_ok_def)
  qed
  have ok: "seq_ok kv q" if "0 \<le> q" "q < int (al_n_seq_max al)" for q
    using that seqs by (simp add: seq_ok_def)
  have unq: "ub_seq_id_unq ub = filter (\<lambda>s. \<exists>i \<in> set idxs. s \<in> set (tok_seqs ?b i)) (map int [0..<al_n_seq_max al])"
    using ub by (simp add: splits_into_def)
  have j0: "0 < length idxs" using idxs(1) by simp
  obtain q where q: "q \<in> set (tok_seqs ?b (idxs ! 0))" using that hd_in_set [OF tok(2) [OF j0]] by blast
  have "q \<in> int ` {0..<al_n_seq_max al}" using q tok(4) [OF j0] by (auto simp: image_iff intro!: bexI [of _ "nat q"])
  moreover have "idxs ! 0 \<in> set idxs" using j0 by simp
  ultimately have "q \<in> set (ub_seq_id_unq ub)" using q unfolding unq by auto
  then have len: "0 < length (ub_seq_id_unq ub)" by (auto dest: length_pos_if_in_set)
  then have "ub_seq_id_unq ub ! 0 \<in> set (ub_seq_id_unq ub)" by simp
  then have ok0: "seq_ok kv (ub_seq_id_unq ub ! 0)" unfolding unq by (auto intro!: ok)
  note strm0 = unified_strm [OF u]
  have "1 \<le> length (ub_seq_id_unq ub)" using len by (cases "ub_seq_id_unq ub") simp_all
  moreover have "distinct (map (strm kv) (take 1 (ub_seq_id_unq ub)))" by (cases "ub_seq_id_unq ub") simp_all
  ultimately show "ub_ok kv ub"
    unfolding ub_ok_def k Let_def
    using j0 ok0 one pos sq tok ok strm0 n by auto
qed

lemma accepted_ok:
  assumes "has_seqs b" "allocr_init al b n_vocab mem n_embd n_seq_max output_all = Some (Inr al0)"
  shows "simple_ok al0" "al_tokens al0 = bt_n_tokens b" "0 < bt_n_tokens b" "al_n_used al0 = 0" "unused al0 = {..<bt_n_tokens b}"
    "al_out_ids al0 = []" "split_reset al0 = al0" "al_n_seq_max al0 = n_seq_max" "al_n_pos_per_embd al0 = al_n_pos_per_embd al"
proof -
  note al0 = allocr_init_Inr(1) [OF assms(2)]
  show n: "bt_n_tokens b > 0" by (rule allocr_init_Inr(2) [OF assms(2)])
  note ready = init_ready [OF assms(1), of al mem n_embd n_seq_max output_all, folded al0]
  show "simple_ok al0" "unused al0 = {..<bt_n_tokens b}" "al_out_ids al0 = []" using ready by simp_all
  show "al_tokens al0 = bt_n_tokens b" by (simp add: al_tokens_def ready(5))
  show "al_n_used al0 = 0" by (simp add: al0 split_reset_def)
  show "split_reset al0 = al0" by (simp add: al0 split_reset_def)
  show "al_n_seq_max al0 = n_seq_max" "al_n_pos_per_embd al0 = al_n_pos_per_embd al"
    using allocr_fill_stats(3,4) [of al b mem n_embd n_seq_max output_all] by (simp_all add: al0 split_reset_def)
qed

lemma unified_tokens_in:
  assumes "unified_inv kv" "ub_ok kv ub"
  shows "tokens_in kv ub 0 = ub_n_tokens ub"
proof -
  have k: "ub_n_seqs_for kv ub = 1" using assms(1) by (simp add: ub_n_seqs_for_def unified_inv_def)
  have "ub_seq_id_unq ub \<noteq> []" "seq_ok kv (ub_seq_id_unq ub ! 0)" using ub_okD(4,5) [OF assms(2)] k by auto
  then have "ub_streams kv ub = [0]"
    using unified_strm [OF assms(1)] unfolding ub_streams_def k by (cases "ub_seq_id_unq ub") simp_all
  then show ?thesis by (simp add: tokens_in_def k)
qed

lemma kv_init_batch_spec:
  assumes b: "has_seqs b" "allocr_init al b n_vocab mem n_embd n_seq_max output_all = Some (Inr al0)"
    and toks: "tokens_ok n_seq_max (al_batch al0)" "0 < al_n_pos_per_embd al"
    and kv: "unified_inv kv" "kv_swa_type kv = Swa_none" "0 < kv_size kv" "n_seq_max \<le> length (kv_seq_to_stream kv)"
  shows "\<exists>r al'. kv_init_batch n_ubatch al0 kv = Some (r, al', kv) \<and> al_n_used al' = bt_n_tokens b \<and>
    (r \<noteq> None \<longleftrightarrow> bt_n_tokens b \<le> card (free_cells kv 0)) \<and>
    (\<forall>sis ubs. r = Some (sis, ubs) \<longrightarrow> length sis = length ubs \<and>
      (\<exists>idxss. list_all2 (splits_into al0) idxss ubs \<and> concat idxss = [0..<bt_n_tokens b] \<and>
         (\<forall>idxs \<in> set idxss. idxs \<noteq> [] \<and> length idxs \<le> max 1 n_ubatch)) \<and>
      (\<exists>kv2. apply_all sis ubs kv = Some kv2))"
proof -
  note ok = accepted_ok [OF b]
  have inv: "cache_inv kv" "kv_n_stream kv = 1" using kv(1) by (simp_all add: unified_inv_def)
  from simple.split_all_total [OF ok(1), of n_ubatch "[]"] obtain ubs al' where
    sp: "split_all (split_simple n_ubatch) al0 [] = Some (ubs, al')" "al_n_used al' = bt_n_tokens b" "al_batch al' = al_batch al0"
    using ok(2,5) by auto
  from simple_drain [OF ok(1), of 0 n_ubatch "[]"] obtain idxss where
    cut: "list_all2 (splits_into al0) idxss ubs" "concat idxss = [0..<bt_n_tokens b]"
      "\<forall>idxs \<in> set idxss. idxs \<noteq> [] \<and> length idxs \<le> max 1 n_ubatch"
    using ok(2,5) sp(1) by (auto simp: lessThan_atLeast0)
  have ubs: "\<forall>ub \<in> set ubs. ub_ok kv ub"
  proof
    fix ub assume "ub \<in> set ubs"
    then obtain j where j: "j < length ubs" "ub = ubs ! j" by (auto simp: in_set_conv_nth)
    then have i: "idxss ! j \<in> set idxss" "splits_into al0 (idxss ! j) ub"
      using cut(1) by (simp_all add: list_all2_conv_all_nth)
    have "set (idxss ! j) \<subseteq> set (concat idxss)" using i(1) by auto
    then have "idxss ! j \<noteq> []" "set (idxss ! j) \<subseteq> {..<al_tokens al0}"
      using i(1) cut(3) ok(2) by (auto simp: cut(2) lessThan_atLeast0)
    from splits_into_ub_ok(1) [OF kv(1) i(2) this] toks kv(4) ok(8,9) show "ub_ok kv ub" by simp
  qed
  have ne: "ubs \<noteq> []"
  proof
    assume "ubs = []"
    then have "[0..<bt_n_tokens b] = []" using cut(1,2) by simp
    then show False using ok(3) by simp
  qed
  have "(\<Sum>ub\<leftarrow>ubs. tokens_in kv ub 0) = (\<Sum>ub\<leftarrow>ubs. ub_n_tokens ub)"
    using unified_tokens_in [OF kv(1)] ubs by (intro arg_cong [of _ _ sum_list] map_cong) auto
  also have "map ub_n_tokens ubs = map length idxss"
    using cut(1) by (induction rule: list_all2_induct) (simp_all add: splits_into_def)
  also have "sum_list (map length idxss) = bt_n_tokens b"
    using cut(2) by (simp flip: length_concat)
  finally have fit: "fits kv ubs \<longleftrightarrow> bt_n_tokens b \<le> card (free_cells kv 0)" using inv(2) by (simp add: fits_def)
  from prepare_spec [OF inv(1) kv(2,3) ubs ne] obtain sis kv' where
    p: "prepare ubs kv = Some (sis, kv')" "restores kv kv'" "sis \<noteq> [] \<longleftrightarrow> fits kv ubs"
      "sis \<noteq> [] \<longrightarrow> length sis = length ubs \<and> (\<exists>kv2. apply_all sis ubs kv = Some kv2)" by blast
  have "kv' = kv" using p(2) inv(2) by (auto simp: restores_def)
  moreover have "\<not> al_n_used al' < bt_n_tokens (al_batch al')"
    using sp(2,3) ok(2) by (simp add: al_tokens_def)
  ultimately have "kv_init_batch n_ubatch al0 kv = Some (if sis = [] then None else Some (sis, ubs), al', kv)"
    using sp(1) p(1) inv(2) ok(7) by (simp add: kv_init_batch_def Let_def)
  then show ?thesis
    using sp(2) cut p(3,4) fit by (intro exI [of _ "if sis = [] then None else Some (sis, ubs)"] exI [of _ al']) auto
qed

end
