(* ===== verification/KvSpec.thy ===== *)
theory KvSpec
  imports KvPlace
begin

section \<open>The KV cache as a state machine, and its properties\<close>

text \<open>
  The operations of \<open>llama_kv_cache\<close> as the steps of one machine, with what the comments and
  assertions of the code ask of their arguments as preconditions; the invariant of \<open>KvCache\<close>
  holds in every reachable cache. The properties of the cache are stated at the end.
\<close>

subsection \<open>A fresh cache\<close>

lemma kv_new_inv:
  assumes new: "kv_new unified n_cells n_seq_max n_pad n_swa swa n_pos None = Some kv"
    and seqs: "0 < n_seq_max" "int n_seq_max \<le> LLAMA_MAX_SEQ"
  shows "cache_inv kv" "kv_size kv = n_cells" "kv_n_stream kv = (if unified then 1 else n_seq_max)"
    "length (kv_seq_to_stream kv) = (if unified \<or> n_seq_max = 1 then nat LLAMA_MAX_SEQ else n_seq_max)"
    "kv_swa_type kv = swa" "kv_n_swa kv = n_swa" "kv_n_pos kv = n_pos"
    "seq_ok kv s \<Longrightarrow> seq_view kv s = {}"
proof -
  define ns where "ns = (if unified then 1 else n_seq_max)"
  have ns: "0 < ns" "int ns \<le> LLAMA_MAX_SEQ" using seqs by (auto simp: ns_def LLAMA_MAX_SEQ_def)
  have F: "kv_n_stream kv = ns" "kv_other kv = None"
    "kv_cells kv = replicate ns (cells_resize n_cells cells_default)" "kv_heads kv = replicate ns 0"
    "kv_seq_to_stream kv = (if ns > 1 then [0..<ns] else replicate (nat LLAMA_MAX_SEQ) 0)"
    "kv_swa_type kv = swa" "kv_n_swa kv = n_swa" "kv_n_pos kv = n_pos"
    using new by (auto simp: kv_new_def bind_assrt ns_def vec_resize_def Let_def split: if_splits)
  show n_cells: "kv_size kv = n_cells" using ns(1) by (simp add: kv_size_def F(3))
  show "kv_n_stream kv = (if unified then 1 else n_seq_max)" using F(1) by (simp add: ns_def)
  show "length (kv_seq_to_stream kv) = (if unified \<or> n_seq_max = 1 then nat LLAMA_MAX_SEQ else n_seq_max)"
    using F(5) seqs(1) by (auto simp: ns_def)
  show "kv_swa_type kv = swa" "kv_n_swa kv = n_swa" "kv_n_pos kv = n_pos" by (fact F)+
  have cell: "cells_cell (cells_resize n_cells cells_default) i = (-1, ext_reset, 0, {})" if "i < n_cells" for i
    using that by (simp add: cells_resize_def cells_reset_def cells_cell_def cells_size_def)
  have "stream_ok kv t (cells_resize n_cells cells_default)" for t
    using cell by (simp add: stream_ok_def cells_resize_inv cell_good_def)
  then show inv: "cache_inv kv"
    using ns n_cells unfolding cache_inv_def F by (auto simp: LLAMA_MAX_SEQ_def nth_append)
  show "seq_view kv s = {}" if "seq_ok kv s"
    using cache_invD(9) [OF inv that] cell unfolding F(1) by (simp add: seq_view_def n_cells F(3))
qed

subsection \<open>The steps\<close>

datatype kv_op =
    Kv_clear
  | Kv_rm llama_seq_id llama_pos llama_pos
  | Kv_rm_all llama_pos llama_pos
  | Kv_cp llama_seq_id llama_seq_id llama_pos llama_pos
  | Kv_keep llama_seq_id
  | Kv_add llama_seq_id llama_pos llama_pos llama_pos
  | Kv_div llama_seq_id llama_pos llama_pos int
  | Kv_apply llama_ubatch
  | Kv_update "bool option"

fun run_kv_op :: "kv_op \<Rightarrow> kv_cache \<Rightarrow> kv_cache option" where
  "run_kv_op Kv_clear kv = Some (kv_clear kv)"
| "run_kv_op (Kv_rm s p0 p1) kv = map_option snd (kv_seq_rm s p0 p1 kv)"
| "run_kv_op (Kv_rm_all p0 p1) kv = map_option snd (kv_seq_rm (-1) p0 p1 kv)"
| "run_kv_op (Kv_cp src dst p0 p1) kv = kv_seq_cp src dst p0 p1 kv"
| "run_kv_op (Kv_keep s) kv = kv_seq_keep s kv"
| "run_kv_op (Kv_add s p0 p1 d) kv = kv_seq_add s p0 p1 d kv"
| "run_kv_op (Kv_div s p0 p1 d) kv = kv_seq_div s p0 p1 d kv"
| "run_kv_op (Kv_apply ub) kv = do {
     si \<leftarrow> find_slot ub False kv;
     if si_empty si then Some kv else apply_ubatch si ub kv }"
| "run_kv_op (Kv_update compute) kv = do {
     (x, kv) \<leftarrow> kv_init_update kv;
     map_option snd (kx_apply True compute x kv) }"

definition cp_ok :: "llama_seq_id \<Rightarrow> llama_seq_id \<Rightarrow> llama_pos \<Rightarrow> llama_pos \<Rightarrow> kv_cache \<Rightarrow> bool" where
  "cp_ok src dst p0 p1 kv \<longleftrightarrow> seq_ok kv src \<and> seq_ok kv dst \<and>
     (if strm kv src = strm kv dst then
        src = dst \<or> (\<forall>i < kv_size kv. case cells_cell (kv_cells kv ! strm kv src) i of
          (p, e, h, S) \<Rightarrow> norm_p0 p0 \<le> p \<and> p < norm_p1 p1 \<and> src \<in> S \<longrightarrow> dst \<notin> S)
      else
        \<not> (p0 > 0 \<and> p0 + 1 < int (kv_size kv)) \<and> \<not> (p1 > 0 \<and> p1 + 1 < int (kv_size kv)) \<and>
        (\<forall>i < kv_size kv. case cells_cell (kv_cells kv ! strm kv src) i of (p, e, h, S) \<Rightarrow> src \<in> S \<longrightarrow> h \<le> p))"

definition sc_ok :: "kv_cache \<Rightarrow> bool" where
  "sc_ok kv \<longleftrightarrow> length (sc_ssrc (kv_sc_info kv)) = length (sc_sdst (kv_sc_info kv)) \<and>
     (\<forall>(a, b) \<in> set (zip (sc_ssrc (kv_sc_info kv)) (sc_sdst (kv_sc_info kv))).
        a < kv_n_stream kv \<and> b < kv_n_stream kv \<and> a \<noteq> b) \<and>
     (sc_ssrc (kv_sc_info kv) \<noteq> [] \<longrightarrow> kv_n_stream kv > 1)"

fun kv_op_pre :: "kv_op \<Rightarrow> kv_cache \<Rightarrow> bool" where
  "kv_op_pre Kv_clear kv = True"
| "kv_op_pre (Kv_rm s p0 p1) kv = seq_ok kv s"
| "kv_op_pre (Kv_rm_all p0 p1) kv = True"
| "kv_op_pre (Kv_cp src dst p0 p1) kv = cp_ok src dst p0 p1 kv"
| "kv_op_pre (Kv_keep s) kv = seq_ok kv s"
| "kv_op_pre (Kv_add s p0 p1 d) kv = (seq_ok kv s \<and> kv_n_pos kv = 1)"
| "kv_op_pre (Kv_div s p0 p1 d) kv = (seq_ok kv s \<and> kv_n_pos kv = 1 \<and> 0 < d)"
| "kv_op_pre (Kv_apply ub) kv = ub_ok kv ub"
| "kv_op_pre (Kv_update compute) kv = True"

inductive kv_reachable :: "kv_cache \<Rightarrow> bool" where
  kv_start: "kv_new unified n_cells n_seq_max n_pad n_swa swa n_pos None = Some kv \<Longrightarrow> 0 < n_seq_max \<Longrightarrow>
    int n_seq_max \<le> LLAMA_MAX_SEQ \<Longrightarrow> 0 < n_cells \<Longrightarrow> (swa = Swa_chunked \<longrightarrow> n_swa \<noteq> 0) \<Longrightarrow> kv_reachable kv"
| kv_step: "kv_reachable kv \<Longrightarrow> kv_op_pre op kv \<Longrightarrow> run_kv_op op kv = Some kv' \<Longrightarrow> kv_reachable kv'"

definition kv_good :: "kv_cache \<Rightarrow> bool" where
  "kv_good kv \<longleftrightarrow> cache_inv kv \<and> swa_ok kv \<and> sc_ok kv \<and> 0 < kv_size kv"

text \<open>Which steps touch the pending copies.\<close>

lemma kv_put_sc [simp]: "kv_sc_info (kv_put t c h kv) = kv_sc_info kv"
  by (simp add: kv_put_def)

lemma seq_rm_sc:
  assumes "kv_seq_rm s p0 p1 kv = Some (b, kv')"
  shows "kv_sc_info kv' = kv_sc_info kv"
proof -
  have *: "ofold (\<lambda>t kv. do {
            c \<leftarrow> at_idx (kv_cells kv) t;
            head \<leftarrow> at_idx (kv_heads kv) t;
            (new_head, c) \<leftarrow> over_cells (rm_any_cell x y) c;
            Some (kv_put t c (lower_head new_head c head) kv) }) ts kv = Some kv' \<Longrightarrow> kv_sc_info kv' = kv_sc_info kv" for x y ts
    by (rule ofold_preserves [where I = "\<lambda>k. kv_sc_info k = kv_sc_info kv"]) (auto split: bind_splits)
  show ?thesis
    using assms * by (auto simp: kv_seq_rm_def bind_assrt Let_def split: if_splits bind_splits)
qed

lemma apply_ubatch_sc:
  assumes "apply_ubatch si ub kv = Some kv'"
  shows "kv_sc_info kv' = kv_sc_info kv"
proof (cases "kv_other kv = None")
  case True
  then obtain n_cells rm kv1 kv2 where run: "ofold (place_token si ub) (slot_pairs (si_n_stream si) n_cells) (\<lambda>_. -1, kv) = Some (rm, kv1)"
    "ofold (purge_seq rm) all_seqs kv1 = Some kv2" "ofold (move_head si) [0..<si_n_stream si] kv2 = Some kv'"
    using assms by (auto simp: apply_ubatch_def bind_assrt split: if_splits bind_splits)
  have "kv_sc_info (snd (rm, kv1)) = kv_sc_info kv"
    by (rule ofold_preserves [OF _ run(1), where I = "\<lambda>st. kv_sc_info (snd st) = kv_sc_info kv"])
      (auto simp: place_token_def Let_def split: bind_splits prod.splits)
  moreover have "kv_sc_info kv2 = kv_sc_info kv1"
    by (rule ofold_preserves [OF _ run(2), where I = "\<lambda>k. kv_sc_info k = kv_sc_info kv1"])
      (auto simp: purge_seq_def split: bind_splits if_splits dest: seq_rm_sc)
  moreover have "kv_sc_info kv' = kv_sc_info kv2"
    by (rule ofold_preserves [OF _ run(3), where I = "\<lambda>k. kv_sc_info k = kv_sc_info kv2"])
      (auto simp: move_head_def bind_assrt split: bind_splits if_splits)
  ultimately show ?thesis by simp
qed (use assms in \<open>simp add: apply_ubatch_def\<close>)

lemma sc_ok_same: "kv_sc_info kv' = kv_sc_info kv \<Longrightarrow> kv_n_stream kv' = kv_n_stream kv \<Longrightarrow> sc_ok kv' = sc_ok kv"
  by (simp add: sc_ok_def)

lemma kv_good_step:
  assumes "kv_good kv" "cache_inv kv'" "same_config kv kv'" "sc_ok kv'"
  shows "kv_good kv'"
  using assms same_configD(5,6,9) [OF assms(3)] by (simp add: kv_good_def swa_ok_def)

lemma maps1_good:
  assumes "kv_good kv" "kv_maps1 g t kv kv'" "kv_sc_info kv' = kv_sc_info kv"
  shows "kv_good kv'"
proof -
  have "same_config kv kv'" "cache_inv kv'" using assms(2) by (simp_all add: kv_maps1_def)
  moreover from this have "sc_ok kv'"
    using sc_ok_same [OF assms(3) same_configD(1)] assms(1) by (auto simp: kv_good_def)
  ultimately show ?thesis using kv_good_step [OF assms(1)] by blast
qed

lemma seq_ops_sc:
  "kv_seq_keep s kv = Some kv' \<Longrightarrow> kv_sc_info kv' = kv_sc_info kv"
  "kv_seq_add s p0 p1 d kv = Some kv' \<Longrightarrow> kv_sc_info kv' = kv_sc_info kv"
  "kv_seq_div s p0 p1 d kv = Some kv' \<Longrightarrow> kv_sc_info kv' = kv_sc_info kv"
  by (auto simp: kv_seq_keep_def kv_seq_add_def kv_seq_div_def bind_assrt split: if_splits bind_splits)

lemma seq_cp_sc:
  assumes "cache_inv kv" "seq_ok kv src" "seq_ok kv dst" "kv_seq_cp src dst p0 p1 kv = Some kv'"
  shows "kv_sc_info kv' = (if strm kv src = strm kv dst then kv_sc_info kv
    else \<lparr>sc_ssrc = sc_ssrc (kv_sc_info kv) @ [strm kv src], sc_sdst = sc_sdst (kv_sc_info kv) @ [strm kv dst]\<rparr>)"
  using assms(4) cache_invD(1) [OF assms(1)] cache_invD(12) [OF assms(1,2)] cache_invD(12) [OF assms(1,3)]
  by (auto simp: kv_seq_cp_def bind_assrt Let_def split: if_splits bind_splits)

lemma reset_shifts_inv:
  assumes inv: "cache_inv kv"
  defines "kv' \<equiv> kv\<lparr>kv_cells := map cells_reset_shift (kv_cells kv)\<rparr>"
  shows "cache_inv kv'" "same_config kv kv'"
proof -
  note D = cache_invD [OF inv]
  have size: "cells_size (cells_reset_shift c) = cells_size c" for c by (simp add: cells_reset_shift_def cells_size_def)
  have at: "kv_cells kv' ! t = cells_reset_shift (kv_cells kv ! t)" if "t < kv_n_stream kv" for t
    using that D(3) by (simp add: kv'_def)
  have kv_size: "kv_size kv' = kv_size kv" unfolding kv_size_def at [OF D(2)] size ..
  then show config: "same_config kv kv'" by (simp add: same_config_def) (simp add: kv'_def)
  have "stream_ok kv' t (kv_cells kv' ! t)" if t: "t < kv_n_stream kv" for t
    unfolding stream_ok_def at [OF t] same_config_good [OF config] size
  proof (intro conjI allI impI)
    show "cells_inv (cells_reset_shift (kv_cells kv ! t))" using D(5) [OF t] by (rule cells_reset_shift_inv)
    fix i assume "i < cells_size (kv_cells kv ! t)"
    then show "cell_good kv t (cells_cell (cells_reset_shift (kv_cells kv ! t)) i)"
      using D(8) [OF t, of i] D(6) [OF t] by (simp add: cell_good_def cells_cell_def cells_reset_shift_def)
  qed
  then show "cache_inv kv'"
    using inv at kv_size size D(3) unfolding cache_inv_def same_configD [OF config] by (simp add: kv'_def)
qed

lemma kv_update_step:
  assumes g: "kv_good kv"
  shows "\<exists>kv'. run_kv_op (Kv_update compute) kv = Some kv' \<and> kv_good kv'"
proof -
  have inv: "cache_inv kv" and sc: "sc_ok kv" using g by (simp_all add: kv_good_def)
  note D = cache_invD [OF inv]
  let ?kv = "kv\<lparr>kv_sc_info := \<lparr>sc_ssrc = [], sc_sdst = []\<rparr>\<rparr>" and ?do = "kv_get_has_shift kv"
  have "kv_size ?kv = kv_size kv" by (simp add: kv_size_def)
  then have config: "same_config kv ?kv" by (simp add: same_config_def)
  have inv': "cache_inv ?kv"
    using inv by (simp add: cache_inv_def same_config_good [OF config] stream_ok_def \<open>kv_size ?kv = kv_size kv\<close>)
  have good: "kv_good ?kv" by (rule kv_good_step [OF g inv' config]) (simp add: sc_ok_def)
  have lens: "length (sc_ssrc (kv_sc_info kv)) = length (sc_sdst (kv_sc_info kv))" using sc by (simp add: sc_ok_def)
  obtain x where x: "kv_init_update kv = Some (x, ?kv)" "kx_ubatches x = []" "kx_do_shift x = ?do" "kx_sc_info x = kv_sc_info kv"
    "\<not> memory_status_is_fail (kx_status x)"
  proof -
    have e: "sc_empty (kv_sc_info kv) = Some (sc_ssrc (kv_sc_info kv) = [])" using lens by (simp add: sc_empty_def assrt_def)
    let ?st = "if \<not> ?do \<and> sc_ssrc (kv_sc_info kv) = [] then Status_no_update else Status_success"
    have "kv_init_update kv = Some ((kx_new ?st)\<lparr>kx_do_shift := ?do, kx_sc_info := kv_sc_info kv\<rparr>, ?kv)"
      by (simp add: kv_init_update_def Let_def e)
    then show ?thesis by (rule that) (simp_all add: kx_new_def memory_status_is_fail_def)
  qed
  have upd: "kv_update True compute ?do (kv_sc_info kv) ?kv =
      (if ?do then if compute = Some False then Some (False, ?kv)
         else Some (compute \<noteq> None, ?kv\<lparr>kv_cells := map cells_reset_shift (kv_cells ?kv)\<rparr>)
       else Some (False, ?kv))"
    using D(1,3) sc lens by (auto simp: kv_update_def sc_empty_def sc_ok_def assrt_def)
  have "kv_good (?kv\<lparr>kv_cells := map cells_reset_shift (kv_cells ?kv)\<rparr>)"
    by (rule kv_good_step [OF good reset_shifts_inv [OF inv']]) (simp add: sc_ok_def)
  with good upd x show ?thesis by (auto simp: kx_apply_def assrt_def)
qed

lemma kv_cp_step:
  assumes g: "kv_good kv" and ok: "cp_ok src dst p0 p1 kv"
  shows "\<exists>kv'. kv_seq_cp src dst p0 p1 kv = Some kv' \<and> kv_good kv'"
proof -
  have inv: "cache_inv kv" and sc: "sc_ok kv" using g by (simp_all add: kv_good_def)
  have s: "seq_ok kv src" "seq_ok kv dst" using ok by (simp_all add: cp_ok_def)
  show ?thesis
  proof (cases "strm kv src = strm kv dst")
    case True
    show ?thesis
    proof (cases "src = dst")
      case True
      have "kv_seq_cp src dst p0 p1 kv = Some kv"
        using True cache_invD(1,3) [OF inv] cache_invD(9) [OF inv s(1)] cache_invD(12) [OF inv s(1)]
        by (simp add: kv_seq_cp_def Let_def)
      with g show ?thesis by blast
    next
      case False
      then have "\<forall>i < kv_size kv. case cells_cell (kv_cells kv ! strm kv src) i of
          (p, e, h, S) \<Rightarrow> norm_p0 p0 \<le> p \<and> p < norm_p1 p1 \<and> src \<in> S \<longrightarrow> dst \<notin> S"
        using ok True by (simp add: cp_ok_def)
      from kv_seq_cp_same_spec [OF inv s True False this] obtain kv' where
        kv': "kv_seq_cp src dst p0 p1 kv = Some kv'"
          "kv_maps1 (g_cp src dst (norm_p0 p0) (norm_p1 p1)) (strm kv src) kv kv'" by blast
      have "kv_good kv'" using trans [OF seq_cp_sc [OF inv s kv'(1)] if_P [OF True]] by (rule maps1_good [OF g kv'(2)])
      with kv'(1) show ?thesis by blast
    qed
  next
    case False
    note cross = ok [unfolded cp_ok_def if_not_P [OF False], THEN conjunct2, THEN conjunct2]
    from kv_seq_cp_cross_spec [OF inv s False cross [THEN conjunct1] cross [THEN conjunct2, THEN conjunct1]
        cross [THEN conjunct2, THEN conjunct2]] obtain kv' where
      kv': "kv_seq_cp src dst p0 p1 kv = Some kv'" "cache_inv kv'" "same_config kv kv'" by blast
    have t: "strm kv src < kv_n_stream kv" "strm kv dst < kv_n_stream kv" using cache_invD(9) [OF inv] s by simp_all
    then have n: "kv_n_stream kv > 1" using False by linarith
    have "sc_ok kv'"
      unfolding sc_ok_def trans [OF seq_cp_sc [OF inv s kv'(1)] if_not_P [OF False]] same_configD(1) [OF kv'(3)]
      using sc t n False by (auto simp: sc_ok_def)
    then show ?thesis using kv'(1) kv_good_step [OF g kv'(2,3)] by blast
  qed
qed

lemma kv_op_step:
  assumes g: "kv_good kv" and pre: "kv_op_pre op kv"
  shows "\<exists>kv'. run_kv_op op kv = Some kv' \<and> kv_good kv'"
proof -
  have inv: "cache_inv kv" and swa: "swa_ok kv" and sc: "sc_ok kv" and pos: "0 < kv_size kv" using g by (simp_all add: kv_good_def)
  show ?thesis
  proof (cases op)
    case Kv_clear
    have "kv_sc_info (kv_clear kv) = kv_sc_info kv" by (simp add: kv_clear_def)
    from sc_ok_same [OF this same_configD(1) [OF kv_clear_spec(2) [OF inv]]] sc have "sc_ok (kv_clear kv)" by iprover
    from kv_good_step [OF g kv_clear_spec(1) [OF inv] kv_clear_spec(2) [OF inv] this] show ?thesis
      unfolding Kv_clear by simp
  next
    case (Kv_rm s p0 p1)
    have ok: "kv_op_pre op kv" by (fact pre)
    obtain kv' where "kv_seq_rm s p0 p1 kv = Some (True, kv')" "kv_maps1 (g_rm s (norm_p0 p0) (norm_p1 p1)) (strm kv s) kv kv'"
      using kv_seq_rm_spec [OF inv, of s p0 p1] ok unfolding \<open>op = Kv_rm s p0 p1\<close> kv_op_pre.simps by blast
    then show ?thesis using Kv_rm maps1_good [OF g] seq_rm_sc by auto
  next
    case (Kv_rm_all p0 p1)
    obtain kv' where kv': "kv_seq_rm (-1) p0 p1 kv = Some (True, kv')" "cache_inv kv'" "same_config kv kv'"
      using kv_seq_rm_all_spec [OF inv, of p0 p1] by blast
    have "sc_ok kv'"
      using sc_ok_same [OF seq_rm_sc [OF kv'(1)] same_configD(1) [OF kv'(3)]] sc by iprover
    then show ?thesis using Kv_rm_all kv'(1) kv_good_step [OF g kv'(2,3)] by simp
  next
    case (Kv_cp src dst p0 p1)
    then show ?thesis using kv_cp_step [OF g] pre by simp
  next
    case (Kv_keep s)
    have ok: "kv_op_pre op kv" by (fact pre)
    obtain kv' where "kv_seq_keep s kv = Some kv'" "kv_maps1 (g_keep s) (strm kv s) kv kv'"
      using kv_seq_keep_spec [OF inv, of s] ok unfolding \<open>op = Kv_keep s\<close> kv_op_pre.simps by blast
    then show ?thesis using Kv_keep maps1_good [OF g] seq_ops_sc(1) by auto
  next
    case (Kv_add s p0 p1 d)
    have ok: "kv_op_pre op kv" by (fact pre)
    obtain kv' where "kv_seq_add s p0 p1 d kv = Some kv'" "kv_maps1 (g_add s (norm_p0 p0) (norm_p1 p1) d) (strm kv s) kv kv'"
      using kv_seq_add_spec [OF inv, of s p0 p1 d] ok unfolding \<open>op = Kv_add s p0 p1 d\<close> kv_op_pre.simps by blast
    then show ?thesis using Kv_add maps1_good [OF g] seq_ops_sc(2) by auto
  next
    case (Kv_div s p0 p1 d)
    have ok: "kv_op_pre op kv" by (fact pre)
    obtain kv' where "kv_seq_div s p0 p1 d kv = Some kv'" "kv_maps1 (g_div s (norm_p0 p0) (norm_p1 p1) d) (strm kv s) kv kv'"
      using kv_seq_div_spec [OF inv, of s d p0 p1] ok unfolding \<open>op = Kv_div s p0 p1 d\<close> kv_op_pre.simps by blast
    then show ?thesis using Kv_div maps1_good [OF g] seq_ops_sc(3) by auto
  next
    case (Kv_apply ub)
    then have ub: "ub_ok kv ub" using pre by simp
    obtain si where si: "find_slot ub False kv = Some si" "si = si_none \<or> slot_ok kv ub si \<and> \<not> si_empty si"
      using find_slot_spec [OF inv swa pos ub] by (auto split: if_splits)
    show ?thesis
    proof (cases "si_empty si")
      case True
      then show ?thesis using Kv_apply si(1) g by simp
    next
      case False
      then have "slot_ok kv ub si" using si(2) by (auto simp: si_empty_def si_none_def)
      then obtain kv' where kv': "apply_ubatch si ub kv = Some kv'" "cache_inv kv'" "same_config kv kv'"
        using apply_ubatch_spec [OF inv swa ub] by blast
      have "sc_ok kv'"
        using sc_ok_same [OF apply_ubatch_sc [OF kv'(1)] same_configD(1) [OF kv'(3)]] sc by iprover
      then show ?thesis using Kv_apply si(1) False kv'(1) kv_good_step [OF g kv'(2,3)] by simp
    qed
  next
    case (Kv_update compute)
    then show ?thesis using kv_update_step [OF g] by simp
  qed
qed

lemma kv_new_good:
  assumes "kv_new unified n_cells n_seq_max n_pad n_swa swa n_pos None = Some kv"
    "0 < n_seq_max" "int n_seq_max \<le> LLAMA_MAX_SEQ" "0 < n_cells" "swa = Swa_chunked \<longrightarrow> n_swa \<noteq> 0"
  shows "kv_good kv"
proof -
  have "kv_sc_info kv = \<lparr>sc_ssrc = [], sc_sdst = []\<rparr>"
    using assms(1) by (auto simp: kv_new_def bind_assrt Let_def split: if_splits)
  then show ?thesis
    using kv_new_inv [OF assms(1-3)] assms(4,5) by (simp add: kv_good_def sc_ok_def swa_ok_def)
qed

lemma kv_reachable_good: "kv_reachable kv \<Longrightarrow> kv_good kv"
proof (induction rule: kv_reachable.induct)
  case (kv_step kv op kv')
  with kv_op_step [of kv op] show ?case by auto
qed (rule kv_new_good)

subsection \<open>How much of the cache a graph attends to\<close>

lemma and_not_mask: "and (x::int) (not (mask k)) = push_bit k (drop_bit k x)"
  by (rule bit_eqI) (auto simp: bit_simps)

lemma ggml_pad_pow2: "ggml_pad x (2 ^ k) = (x + 2 ^ k - 1) div 2 ^ k * 2 ^ k"
proof -
  have "1 \<le> (2::nat) ^ k" by simp
  then have "int x + int (2 ^ k) - 1 = int (x + 2 ^ k - 1)" by (subst of_nat_diff) (linarith, simp)
  moreover have "(int (2 ^ k) - 1 :: int) = mask k" by (simp add: mask_eq_exp_minus_1)
  ultimately have "ggml_pad x (2 ^ k) = nat (push_bit k (drop_bit k (int (x + 2 ^ k - 1))))"
    unfolding ggml_pad_def by (simp only: and_not_mask)
  also have "\<dots> = nat (int ((x + 2 ^ k - 1) div 2 ^ k * 2 ^ k))"
    by (simp add: push_bit_eq_mult drop_bit_eq_div zdiv_int)
  finally show ?thesis by (simp only: nat_int)
qed

lemma ggml_pad_ge: "x \<le> ggml_pad x (2 ^ k)"
proof -
  let ?n = "2 ^ k :: nat"
  have "(x + ?n - 1) mod ?n < ?n" by simp
  moreover have "(x + ?n - 1) div ?n * ?n + (x + ?n - 1) mod ?n = x + ?n - 1" by (rule div_mult_mod_eq)
  ultimately show ?thesis unfolding ggml_pad_pow2 by linarith
qed

lemma get_n_kv_steps:
  fixes pad :: nat
  assumes "\<forall>s < m. \<exists>t. at_idx (si_strm si) s = Some t \<and> t < length (kv_cells kv)"
  defines "f s result \<equiv> do {
          t \<leftarrow> at_idx (si_strm si) s;
          c \<leftarrow> at_idx (kv_cells kv) t;
          Some (max (min (cells_size c) (max pad (ggml_pad (cells_used_max_p1 c) pad))) result) }"
  shows "\<exists>n. ofold f [0..<m] 0 = Some n \<and>
    (\<forall>s < m. min (cells_size (kv_cells kv ! (si_strm si ! s)))
      (max pad (ggml_pad (cells_used_max_p1 (kv_cells kv ! (si_strm si ! s))) pad)) \<le> n) \<and>
    (\<forall>b. (\<forall>s < m. cells_size (kv_cells kv ! (si_strm si ! s)) \<le> b) \<longrightarrow> n \<le> b)"
proof (rule ofold_upt_inv [where I = "\<lambda>k n. (\<forall>s < k. min (cells_size (kv_cells kv ! (si_strm si ! s)))
      (max pad (ggml_pad (cells_used_max_p1 (kv_cells kv ! (si_strm si ! s))) pad)) \<le> n) \<and>
    (\<forall>b. (\<forall>s < k. cells_size (kv_cells kv ! (si_strm si ! s)) \<le> b) \<longrightarrow> n \<le> b)"])
  fix s n assume s: "s < m"
    and I: "(\<forall>r < s. min (cells_size (kv_cells kv ! (si_strm si ! r)))
      (max pad (ggml_pad (cells_used_max_p1 (kv_cells kv ! (si_strm si ! r))) pad)) \<le> n) \<and>
      (\<forall>b. (\<forall>r < s. cells_size (kv_cells kv ! (si_strm si ! r)) \<le> b) \<longrightarrow> n \<le> b)"
  let ?c = "kv_cells kv ! (si_strm si ! s)"
  have "at_idx (si_strm si) s = Some (si_strm si ! s)" "si_strm si ! s < length (kv_cells kv)"
    using assms(1) s by (auto simp: at_idx_def split: if_splits)
  then have run: "f s n = Some (max (min (cells_size ?c) (max pad (ggml_pad (cells_used_max_p1 ?c) pad))) n)"
    by (simp add: f_def)
  have "(\<forall>r < Suc s. cells_size (kv_cells kv ! (si_strm si ! r)) \<le> b) \<longrightarrow>
      max (min (cells_size ?c) (max pad (ggml_pad (cells_used_max_p1 ?c) pad))) n \<le> b" for b
    using I by (auto simp: less_Suc_eq intro: min.coboundedI1)
  moreover have "\<forall>r < Suc s. min (cells_size (kv_cells kv ! (si_strm si ! r)))
      (max pad (ggml_pad (cells_used_max_p1 (kv_cells kv ! (si_strm si ! r))) pad)) \<le>
      max (min (cells_size ?c) (max pad (ggml_pad (cells_used_max_p1 ?c) pad))) n"
    using I by (auto simp: less_Suc_eq intro: max.coboundedI2)
  ultimately show "\<exists>n'. f s n = Some n' \<and> (\<forall>r < Suc s. min (cells_size (kv_cells kv ! (si_strm si ! r)))
      (max pad (ggml_pad (cells_used_max_p1 (kv_cells kv ! (si_strm si ! r))) pad)) \<le> n') \<and>
      (\<forall>b. (\<forall>r < Suc s. cells_size (kv_cells kv ! (si_strm si ! r)) \<le> b) \<longrightarrow> n' \<le> b)"
    using run by blast
qed simp

lemma kv_get_n_kv_spec:
  assumes inv: "cache_inv kv" and strm: "\<forall>t \<in> set (si_strm si). t < kv_n_stream kv" and pad: "kv_n_pad kv = 2 ^ k"
  shows "\<exists>n. kv_get_n_kv si kv = Some n \<and> n \<le> kv_size kv \<and>
    (\<forall>t \<in> set (si_strm si). \<forall>i < kv_size kv. cell_at kv (t, i) \<noteq> (-1, snd (cell_at kv (t, i))) \<longrightarrow> i < n)"
proof -
  note D = cache_invD [OF inv]
  define pad where "pad = max (kv_n_pad kv) 256"
  have "max (2 ^ k) 256 = (2::nat) ^ max k 8"
  proof (cases "k \<le> 8")
    case True
    then have "(2::nat) ^ k \<le> 2 ^ 8" by (intro power_increasing) auto
    with True show ?thesis by (simp add: max_def)
  next
    case False
    then have "(2::nat) ^ 8 \<le> 2 ^ k" by (intro power_increasing) auto
    with False show ?thesis by (simp add: max_def)
  qed
  then have pad2: "pad = 2 ^ max k 8" using pad by (simp add: pad_def)
  have at: "\<forall>s < si_n_stream si. \<exists>t. at_idx (si_strm si) s = Some t \<and> t < length (kv_cells kv)"
    using strm D(3) by (auto simp: si_n_stream_def)
  from get_n_kv_steps [OF this, of pad] obtain n where
    n: "kv_get_n_kv si kv = Some n"
      "\<forall>s < si_n_stream si. min (cells_size (kv_cells kv ! (si_strm si ! s)))
        (max pad (ggml_pad (cells_used_max_p1 (kv_cells kv ! (si_strm si ! s))) pad)) \<le> n"
      "\<forall>b. (\<forall>s < si_n_stream si. cells_size (kv_cells kv ! (si_strm si ! s)) \<le> b) \<longrightarrow> n \<le> b"
    unfolding kv_get_n_kv_def Let_def pad_def by blast
  have "n \<le> kv_size kv" using n(3) strm D(6) by (simp add: si_n_stream_def)
  moreover have "i < n" if t: "t \<in> set (si_strm si)" and i: "i < kv_size kv" and used: "cell_at kv (t, i) \<noteq> (-1, snd (cell_at kv (t, i)))" for t i
  proof -
    obtain s where s: "s < si_n_stream si" "t = si_strm si ! s" using t by (auto simp: in_set_conv_nth si_n_stream_def)
    have tn: "t < kv_n_stream kv" using strm t by blast
    let ?c = "kv_cells kv ! t"
    have "kc_pos ?c ! i \<noteq> -1" using used by (auto simp: cell_at_def cells_cell_def)
    then have "i \<in> set (scan_used ?c)" using i D(6) [OF tn] by (simp add: scan_used_def)
    then have "i < cells_used_max_p1 ?c"
      using used_min_max_scan(3) [OF D(5) [OF tn]] by (auto simp: less_Suc_eq_le)
    also have "\<dots> \<le> ggml_pad (cells_used_max_p1 ?c) pad" unfolding pad2 by (rule ggml_pad_ge)
    finally have "i < min (cells_size ?c) (max pad (ggml_pad (cells_used_max_p1 ?c) pad))"
      using i D(6) [OF tn] by simp
    with n(2) s show ?thesis by fastforce
  qed
  ultimately show ?thesis using n(1) by blast
qed

subsection \<open>Rows written by a ubatch\<close>

lemma kv_get_size_inv:
  assumes "cache_inv kv"
  shows "kv_get_size kv = Some (kv_size kv)"
proof -
  note D = cache_invD [OF assms]
  have "kv_seq_to_stream kv ! 0 < kv_n_stream kv" "0 < length (kv_seq_to_stream kv)"
    using assms by (auto simp: cache_inv_def)
  then show ?thesis using D(3,6) by (simp add: kv_get_size_def)
qed

lemma k_idxs_spec:
  assumes inv: "cache_inv kv" and ub: "ub_ok kv ub" and si: "slot_ok kv ub si"
  shows "\<exists>rows. set_input_k_idxs ub si kv = Some rows \<and> length rows = ub_n_tokens ub \<and> distinct rows \<and>
    (\<forall>j < ub_n_tokens ub. rows ! j = fst (slot_addr si j) * kv_size kv + snd (slot_addr si j) \<and>
       rows ! j < kv_n_stream kv * kv_size kv)"
proof -
  note S = slot_okD [OF si ub] and U = ub_okD [OF ub] and A = slot_addr_ok [OF inv si ub]
  let ?n = "length (si_idxs si ! 0)" and ?N = "ub_n_tokens ub"
  let ?row = "\<lambda>j. fst (slot_addr si j) * kv_size kv + snd (slot_addr si j)"
  have "slot_pairs (si_n_stream si) ?n = map (\<lambda>j. (j div ?n, j mod ?n)) [0..<?N]"
    using slot_pairs_upt [of ?n] S(1,10) U(2,3) by simp
  then have rows: "map (\<lambda>(s, i). si_strm si ! s * kv_size kv + si_idxs si ! s ! i) (slot_pairs (si_n_stream si) ?n) = map ?row [0..<?N]"
    by (simp add: slot_addr_def Let_def)
  have "?N = ?n * si_n_stream si" using S(1,10) U(3) by (simp add: mult.commute)
  then have run: "set_input_k_idxs ub si kv = Some (map ?row [0..<?N])"
    using S(4,10) rows kv_get_size_inv [OF inv] by (simp add: set_input_k_idxs_def assrt_def)
  have lt: "snd (slot_addr si j) < kv_size kv" "fst (slot_addr si j) < kv_n_stream kv" if "j < ?N" for j
    using A(1) [OF that] by (simp_all add: in_cache_def)
  have "inj_on ?row {..<?N}"
  proof (rule inj_onI)
    fix i j assume i: "i \<in> {..<?N}" and j: "j \<in> {..<?N}" and eq: "?row i = ?row j"
    have "?row i div kv_size kv = fst (slot_addr si i)" "?row j div kv_size kv = fst (slot_addr si j)"
      "?row i mod kv_size kv = snd (slot_addr si i)" "?row j mod kv_size kv = snd (slot_addr si j)"
      using lt(1) [of i] lt(1) [of j] i j by simp_all
    then have "slot_addr si i = slot_addr si j" unfolding eq prod_eq_iff by metis
    then show "i = j" using inj_onD [OF A(2)] i j by blast
  qed
  then have "distinct (map ?row [0..<?N])" by (simp add: distinct_map atLeast0LessThan)
  moreover have "?row j < kv_n_stream kv * kv_size kv" if "j < ?N" for j
  proof -
    have "?row j < (fst (slot_addr si j) + 1) * kv_size kv" using lt(1) [OF that] unfolding add_mult_distrib by linarith
    also have "\<dots> \<le> kv_n_stream kv * kv_size kv" using lt(2) [OF that] by (intro mult_le_mono1) simp
    finally show ?thesis .
  qed
  ultimately show ?thesis using run by simp
qed

subsection \<open>Contiguous positions\<close>

definition contiguous :: "llama_pos set \<Rightarrow> bool" where
  "contiguous P \<longleftrightarrow> (\<forall>p \<in> P. \<forall>q \<in> P. {p..q} \<subseteq> P)"

lemma contiguous_cut:
  assumes "contiguous P" "contiguous (P \<union> Q)" "\<forall>p \<in> P. \<forall>q \<in> Q. p < q" "r = -1 \<or> r \<in> P" "\<forall>p \<in> P \<union> Q. 0 \<le> p"
  shows "contiguous ({p \<in> P. r < p} \<union> Q)"
  unfolding contiguous_def
proof (intro ballI subsetI)
  fix p q x assume p: "p \<in> {p \<in> P. r < p} \<union> Q" and q: "q \<in> {p \<in> P. r < p} \<union> Q" and x: "x \<in> {p..q}"
  have "x \<in> P \<union> Q" using assms(2) p q x unfolding contiguous_def by blast
  moreover have "r < p"
  proof (cases "p \<in> Q")
    case True
    then have "0 \<le> p" using assms(5) by blast
    with True show ?thesis using assms(3,4) by (cases "r = -1") auto
  next
    case False
    with p show ?thesis by blast
  qed
  ultimately show "x \<in> {p \<in> P. r < p} \<union> Q" using x by auto
qed

subsection \<open>Examples\<close>

definition small_kv :: kv_cache where
  "small_kv = the (kv_new True 4 2 1 0 Swa_none 1 None)"

lemma small_kv_new: "kv_new True 4 2 1 0 Swa_none 1 None = Some small_kv"
  by (simp add: small_kv_def kv_new_def assrt_def Let_def)

lemmas small_kv_facts = kv_new_inv [OF small_kv_new, unfolded LLAMA_MAX_SEQ_def, simplified]

lemma small_kv_reachable: "kv_reachable small_kv"
  by (rule kv_start [OF small_kv_new]) (simp_all add: LLAMA_MAX_SEQ_def)

definition one_token :: "llama_pos \<Rightarrow> llama_seq_id list \<Rightarrow> llama_ubatch" where
  "one_token p seqs = ubatch_none\<lparr>ub_n_tokens := 1, ub_n_seq_tokens := 1, ub_n_seqs := 1, ub_n_seqs_unq := length seqs,
     ub_n_pos := 1, ub_token := Some [7], ub_pos := [p], ub_n_seq_id := [length seqs], ub_seq_id := [seqs],
     ub_seq_id_unq := seqs, ub_output := [True]\<rparr>"

lemma one_token_ok:
  assumes "unified_inv kv" "0 \<le> p" "seqs \<noteq> []" "distinct seqs" "\<forall>s \<in> set seqs. seq_ok kv s"
  shows "ub_ok kv (one_token p seqs)"
proof -
  have one: "kv_n_stream kv = 1" using assms(1) by (simp add: unified_inv_def)
  have "seq_ok kv (seqs ! 0)" "1 \<le> length seqs" "distinct (map (strm kv) (take 1 seqs))"
    using assms(3,5) by (cases seqs; simp)+
  then show ?thesis
    unfolding ub_ok_def Let_def
    using assms(2-5) one unified_strm [OF assms(1)]
    by (simp add: ub_n_seqs_for_def one_token_def ubatch_none_def ub_seqs_def)
qed

lemma small_kv_unified: "unified_inv small_kv"
  using small_kv_facts by (simp add: unified_inv_def)

lemma small_kv_seq_ok: "0 \<le> s \<Longrightarrow> s < 256 \<Longrightarrow> seq_ok small_kv s"
  using small_kv_facts by (simp add: seq_ok_def)

text \<open>In a cache without tokens the slot is found.\<close>

lemma empty_cell_usable:
  assumes "cache_inv kv" "swa_ok kv" "t < kv_n_stream kv" "i < kv_size kv" "cell_at kv (t, i) = (-1, e, h, S)"
  shows "usable kv t i"
proof -
  note D = cache_invD [OF assms(1)]
  have "kv_swa_type kv = Swa_chunked \<longrightarrow> kv_n_swa kv \<noteq> 0" using assms(2) by (simp add: swa_ok_def)
  from cell_usable_cases [OF D(5) [OF assms(3)] _ this, of i] show ?thesis
    using assms(4,5) D(6) [OF assms(3)] by (simp add: usable_def cell_at_def cells_cell_def)
qed

end
