(* ===== verification/KvProps.thy ===== *)
theory KvProps
  imports KvSpec
begin

section \<open>What the KV cache promises\<close>

text \<open>
  The properties of \<open>llama_kv_cache\<close>, over the machine of \<open>KvSpec\<close>, with a small cache of four cells
  on which each is applied.
\<close>

subsection \<open>A cache with three tokens\<close>

definition prompt :: llama_ubatch where
  "prompt = ubatch_none\<lparr>ub_n_tokens := 3, ub_n_seq_tokens := 3, ub_n_seqs := 1, ub_n_seqs_unq := 1, ub_n_pos := 1,
     ub_token := Some [7, 8, 9], ub_pos := [0, 1, 2], ub_n_seq_id := [1, 1, 1], ub_seq_id := [[0], [0], [0]],
     ub_seq_id_unq := [0], ub_output := [False, False, True]\<rparr>"

lemma small_pick: "stream_pick small_kv 0 3 = Some [0, 1, 2]"
  by code_simp

lemma prompt_ok: "ub_ok small_kv prompt"
  using small_kv_facts(3) small_kv_seq_ok [of 0]
  by (simp add: ub_ok_def Let_def ub_n_seqs_for_def prompt_def ubatch_none_def ub_seqs_def less_Suc_eq numeral_3_eq_3)

lemma prompt_facts: "ub_n_tokens prompt = 3" "j < 3 \<Longrightarrow> ub_seqs prompt j = [0]" "ub_pos prompt = [0, 1, 2]"
  by (auto simp: prompt_def ubatch_none_def ub_seqs_def less_Suc_eq numeral_3_eq_3)

lemma prompt_streams: "ub_streams small_kv prompt = [0]" "ub_n_seqs_for small_kv prompt = 1"
proof -
  show one: "ub_n_seqs_for small_kv prompt = 1" using small_kv_facts(3) by (simp add: ub_n_seqs_for_def)
  have "strm small_kv 0 = 0" using unified_strm [OF small_kv_unified small_kv_seq_ok [of 0]] by simp
  then show "ub_streams small_kv prompt = [0]"
    unfolding ub_streams_def one by (simp add: prompt_def ubatch_none_def)
qed

lemma prompt_positions: "ub_positions prompt q = (if q = 0 then {0..<3} else {})"
proof -
  have "{[0, 1, 2 :: int] ! j | j. j < 3} = set [0, 1, 2]"
    unfolding set_conv_nth by (simp add: numeral_3_eq_3)
  moreover have "set [0, 1, 2] = {0..<3 :: int}" by auto
  moreover have "ub_positions prompt q = {[0, 1, 2 :: int] ! j | j. j < 3 \<and> q = 0}"
    by (simp add: ub_positions_def prompt_facts cong: conj_cong)
  ultimately show ?thesis by (cases "q = 0") simp_all
qed

lemma small_kv_config: "cache_inv small_kv" "swa_ok small_kv" "0 < kv_size small_kv" "kv_swa_type small_kv = Swa_none"
  using small_kv_facts by (simp_all add: swa_ok_def)

lemma prompt_slot: "\<exists>si. find_slot prompt False small_kv = Some si \<and> slot_ok small_kv prompt si \<and> \<not> si_empty si"
proof -
  have "\<forall>t \<in> set (ub_streams small_kv prompt). stream_pick small_kv t (ub_n_tokens prompt div ub_n_seqs_for small_kv prompt) \<noteq> None"
    using small_pick by (simp add: prompt_streams prompt_facts)
  with find_slot_spec [OF small_kv_config(1-3) prompt_ok] show ?thesis by auto
qed

definition prompt_slot_info :: slot_info where
  "prompt_slot_info = the (find_slot prompt False small_kv)"

definition small_kv1 :: kv_cache where
  "small_kv1 = the (run_kv_op (Kv_apply prompt) small_kv)"

lemma small_kv1_run: "run_kv_op (Kv_apply prompt) small_kv = Some small_kv1"
  using kv_op_step [OF kv_reachable_good [OF small_kv_reachable], of "Kv_apply prompt"] prompt_ok
  by (auto simp: small_kv1_def)

lemma prompt_slot_ok:
  "find_slot prompt False small_kv = Some prompt_slot_info" "slot_ok small_kv prompt prompt_slot_info" "\<not> si_empty prompt_slot_info"
  using prompt_slot by (auto simp: prompt_slot_info_def)

lemma small_kv1_apply: "apply_ubatch prompt_slot_info prompt small_kv = Some small_kv1"
  using small_kv1_run prompt_slot_ok by simp

lemma small_kv1_reachable: "kv_reachable small_kv1"
  by (rule kv_step [OF small_kv_reachable _ small_kv1_run]) (simp add: prompt_ok)

lemma small_kv1_facts:
  "unified_inv small_kv1" "same_config small_kv small_kv1" "0 \<le> s \<Longrightarrow> s < 256 \<Longrightarrow> seq_ok small_kv1 s"
  "0 \<le> s \<Longrightarrow> s < 256 \<Longrightarrow> seq_view small_kv1 s = (if s = 0 then {0..<3} else {})"
  "kv_n_pos small_kv1 = 1"
proof -
  have empty: "seq_view small_kv q = {}" if "seq_ok small_kv q" for q
    using that by (rule small_kv_facts(8))
  then obtain kv' where kv': "apply_ubatch prompt_slot_info prompt small_kv = Some kv'" "cache_inv kv'" "same_config small_kv kv'"
    "\<forall>q. seq_ok small_kv q \<longrightarrow> seq_view kv' q = {p \<in> seq_view small_kv q.
        overwritten small_kv prompt_slot_info (ub_n_tokens prompt) q < p} \<union> ub_positions prompt q"
    using apply_ubatch_view_spec [OF small_kv_config(1,2) prompt_ok prompt_slot_ok(2)] by blast
  then have eq: "kv' = small_kv1" using small_kv1_apply by simp
  show config: "same_config small_kv small_kv1" using kv'(3) eq by simp
  show "kv_n_pos small_kv1 = 1" using small_kv_facts(7) same_configD(4) [OF config] by simp
  show "unified_inv small_kv1"
    using kv'(2) same_configD(1) [OF config] small_kv_unified by (simp add: unified_inv_def eq)
  show "seq_ok small_kv1 s" if "0 \<le> s" "s < 256"
    using small_kv_seq_ok [OF that] same_config_good2(2) [OF config] by simp
  show "seq_view small_kv1 s = (if s = 0 then {0..<3} else {})" if "0 \<le> s" "s < 256"
    using kv'(4) empty small_kv_seq_ok [OF that] prompt_positions by (auto simp: eq)
qed

subsection \<open>The machine\<close>

text \<open>
  C1: The calls \<open>clear\<close>, \<open>seq_rm\<close>, \<open>seq_cp\<close>, \<open>seq_keep\<close>, \<open>seq_add\<close>, \<open>seq_div\<close>, \<open>find_slot\<close> followed by
  \<open>apply_ubatch\<close>, and \<open>update\<close>, in any order from a fresh cache that owns its cells, each called as
  its comments and assertions ask, fail no assertion, read no index out of range, and keep the
  invariant: the cells and their indexes agree, and a sequence has cells only in its own stream.
  (\<open>prepare\<close> and \<open>init_batch\<close>, the state I/O and the inputs of the graph are not calls of this
  machine; they have properties of their own.)
\<close>

theorem kv_reachable_ops:
  assumes "kv_reachable kv" "kv_op_pre op kv"
  shows "\<exists>kv'. run_kv_op op kv = Some kv' \<and> cache_inv kv' \<and> kv_reachable kv'"
proof -
  obtain kv' where kv': "run_kv_op op kv = Some kv'" "kv_good kv'"
    using kv_op_step [OF kv_reachable_good [OF assms(1)] assms(2)] by blast
  then show ?thesis using kv_reachable.kv_step [OF assms kv'(1)] by (auto simp: kv_good_def)
qed

lemma kv_reachable_ops_witness:
  "\<exists>kv'. run_kv_op (Kv_add 0 0 (-1) (-3)) small_kv1 = Some kv' \<and> cache_inv kv' \<and> kv_reachable kv'"
proof (rule kv_reachable_ops [OF small_kv1_reachable])
  show "kv_op_pre (Kv_add 0 0 (-1) (-3)) small_kv1" using small_kv1_facts(5) small_kv1_facts(3) [of 0] by simp
qed

subsection \<open>Sequences\<close>

text \<open>
  C27: Cutting a sequence back to its positions below \<open>n\<close>, what a client does when it rejects drafted
  tokens, always succeeds; the positions below \<open>n\<close> stay, \<open>seq_pos_max\<close> then answers less than
  \<open>n\<close>, and no other sequence changes, also one that shares cells.
\<close>

theorem seq_rm_cuts_back:
  assumes "cache_inv kv" "seq_ok kv s" "\<forall>p \<in> seq_view kv s. p < INT32_MAX" "0 \<le> n"
  shows "\<exists>kv' p. kv_seq_rm s n (-1) kv = Some (True, kv') \<and> cache_inv kv' \<and>
    seq_view kv' s = {p \<in> seq_view kv s. p < n} \<and> kv_seq_pos_max s kv' = Some p \<and> p < n \<and>
    (\<forall>r. seq_ok kv r \<and> r \<noteq> s \<longrightarrow> seq_view kv' r = seq_view kv r)"
  using assms by (rule kv_mem.rm_tail)

lemma seq_rm_cuts_back_witness:
  "\<exists>kv' p. kv_seq_rm 0 2 (-1) small_kv1 = Some (True, kv') \<and> cache_inv kv' \<and>
    seq_view kv' 0 = {p \<in> seq_view small_kv1 0. p < 2} \<and> kv_seq_pos_max 0 kv' = Some p \<and> p < 2 \<and>
    (\<forall>r. seq_ok small_kv1 r \<and> r \<noteq> 0 \<longrightarrow> seq_view kv' r = seq_view small_kv1 r)"
  by (rule seq_rm_cuts_back)
    (use small_kv1_facts(1) small_kv1_facts(3) [of 0] small_kv1_facts(4) [of 0] in \<open>simp_all add: unified_inv_def INT32_MAX_def\<close>)

text \<open>
  C28: Forking a sequence in a unified cache (clear the destination, copy the source) gives the
  destination the positions of the source and leaves the source as it is; both have the same
  first and last position, which is what \<open>init\<close> of the batch allocator asks of coupled
  sequences.
\<close>

theorem seq_fork_couples:
  assumes "unified_inv kv" "seq_ok kv src" "seq_ok kv dst" "src \<noteq> dst"
    and "\<forall>p \<in> seq_view kv src. p < INT32_MAX" "\<forall>p \<in> seq_view kv dst. p < INT32_MAX"
  shows "\<exists>kv1 kv2. kv_seq_rm dst (-1) (-1) kv = Some (True, kv1) \<and> kv_seq_cp src dst (-1) (-1) kv1 = Some kv2 \<and>
    unified_inv kv2 \<and> seq_view kv2 src = seq_view kv src \<and> seq_view kv2 dst = seq_view kv src \<and>
    kv_seq_pos_min dst kv2 = kv_seq_pos_min src kv2 \<and> kv_seq_pos_max dst kv2 = kv_seq_pos_max src kv2"
  using assms by (rule kv_fork.fork_agrees)

lemma seq_fork_couples_witness:
  "\<exists>kv1 kv2. kv_seq_rm 1 (-1) (-1) small_kv1 = Some (True, kv1) \<and> kv_seq_cp 0 1 (-1) (-1) kv1 = Some kv2 \<and>
    unified_inv kv2 \<and> seq_view kv2 0 = seq_view small_kv1 0 \<and> seq_view kv2 1 = seq_view small_kv1 0 \<and>
    kv_seq_pos_min 1 kv2 = kv_seq_pos_min 0 kv2 \<and> kv_seq_pos_max 1 kv2 = kv_seq_pos_max 0 kv2"
  by (rule seq_fork_couples)
    (use small_kv1_facts(1) small_kv1_facts(3) [of 0] small_kv1_facts(3) [of 1] small_kv1_facts(4) [of 0] small_kv1_facts(4) [of 1]
      in \<open>simp_all add: INT32_MAX_def\<close>)

text \<open>How \<open>seq_add\<close> moves the positions of its sequence.\<close>

lemma seq_add_view:
  assumes inv: "cache_inv kv" and s: "seq_ok kv s" and m: "kv_maps1 (g_add s p0 p1 d) (strm kv s) kv kv'"
  shows "seq_view kv' s = {p \<in> seq_view kv s. \<not> (p0 \<le> p \<and> p < p1)} \<union>
    (\<lambda>p. p + d) ` {p \<in> seq_view kv s. p0 \<le> p \<and> p < p1 \<and> 0 \<le> p + d}"
    (is "_ = ?keep \<union> ?moved")
proof -
  let ?c = "\<lambda>i. cells_cell (kv_cells kv ! strm kv s) i"
  have view: "seq_view kv' s = {p. \<exists>i < kv_size kv. \<exists>e h S. g_add s p0 p1 d (?c i) = (p, e, h, S) \<and> s \<in> S}"
    using view_maps1 [OF inv m s] by simp
  show ?thesis
  proof (intro set_eqI iffI)
    fix x assume "x \<in> seq_view kv' s"
    then obtain i e h S where i: "i < kv_size kv" "g_add s p0 p1 d (?c i) = (x, e, h, S)" "s \<in> S" using view by blast
    obtain p e' h' S' where c: "?c i = (p, e', h', S')" by (cases "?c i")
    show "x \<in> ?keep \<union> ?moved"
    proof (cases "p0 \<le> p \<and> p < p1 \<and> s \<in> S'")
      case True
      then have "p \<in> seq_view kv s" "x = p + d" "0 \<le> p + d" using i c by (auto simp: seq_view_def split: if_splits)
      with True show ?thesis by blast
    next
      case False
      then have "x = p" "s \<in> S'" using i c by (auto split: if_splits)
      with False i(1) c show ?thesis by (auto simp: seq_view_def)
    qed
  next
    fix x assume "x \<in> ?keep \<union> ?moved"
    then show "x \<in> seq_view kv' s"
    proof
      assume "x \<in> ?keep"
      then obtain i e h S where "i < kv_size kv" "?c i = (x, e, h, S)" "s \<in> S" "\<not> (p0 \<le> x \<and> x < p1)" by (auto simp: seq_view_def)
      moreover from this have "g_add s p0 p1 d (?c i) = (x, e, h, S)" by auto
      ultimately show ?thesis using view by blast
    next
      assume "x \<in> ?moved"
      then obtain p i e h S where "i < kv_size kv" "?c i = (p, e, h, S)" "s \<in> S" "p0 \<le> p" "p < p1" "0 \<le> p + d" "x = p + d"
        by (auto simp: seq_view_def)
      moreover from this have "g_add s p0 p1 d (?c i) = (x, e, h + d, S)" by auto
      ultimately show ?thesis using view by blast
    qed
  qed
qed

text \<open>
  C26: The context shift. When a sequence holds the positions \<open>0..n-1\<close>, removing \<open>m\<close> of them after
  the first \<open>k\<close> and moving the rest down by \<open>m\<close> leaves exactly the positions \<open>0..n-m-1\<close>, so that the
  next token again follows the last one.
\<close>

theorem context_shift_closes_gap:
  assumes inv: "cache_inv kv" "kv_n_pos kv = 1" and s: "seq_ok kv s" "seq_view kv s = {0..<n}"
    and k: "0 \<le> k" "0 < m" "k + m \<le> n" "n \<le> INT32_MAX"
  shows "\<exists>kv1 kv2. kv_seq_rm s k (k + m) kv = Some (True, kv1) \<and> kv_seq_add s (k + m) n (-m) kv1 = Some kv2 \<and>
    cache_inv kv2 \<and> seq_view kv2 s = {0..<n - m}"
proof -
  from kv_mem.rm_view [OF inv(1) s(1), of k "k + m"] obtain kv1 where
    kv1: "kv_seq_rm s k (k + m) kv = Some (True, kv1)" "cache_inv kv1" "\<forall>r. seq_ok kv1 r = seq_ok kv r"
      "\<forall>r. seq_ok kv r \<longrightarrow> seq_view kv1 r = (if r = s
         then {p \<in> seq_view kv s. \<not> (norm_p0 k \<le> p \<and> p < norm_p1 (k + m))} else seq_view kv r)" by blast
  have view1: "seq_view kv1 s = {0..<k} \<union> {k + m..<n}"
    using kv1(4) s k by (auto simp: norm_p0_def norm_p1_def)
  have ok1: "seq_ok kv1 s" using kv1(3) s(1) by simp
  have "same_config kv kv1"
    using kv_seq_rm_spec [OF inv(1) s(1), of k "k + m"] kv1(1) by (auto simp: kv_maps1_def)
  from same_configD(4) [OF this] inv(2) have "kv_n_pos kv1 = 1" by simp
  from kv_seq_add_spec [OF kv1(2) ok1 this, of "k + m" n "-m"] obtain kv2 where
    kv2: "kv_seq_add s (k + m) n (-m) kv1 = Some kv2" "kv_maps1 (g_add s (norm_p0 (k + m)) (norm_p1 n) (-m)) (strm kv1 s) kv1 kv2" by blast
  have "seq_view kv2 s = {0..<k} \<union> (\<lambda>p. p + - m) ` {k + m..<n}"
    unfolding seq_add_view [OF kv1(2) ok1 kv2(2)] view1 using k by (auto simp: norm_p0_def norm_p1_def)
  also have "(\<lambda>p. p + - m) ` {k + m..<n} = {k..<n - m}"
  proof (intro equalityI subsetI)
    fix x assume "x \<in> {k..<n - m}"
    then show "x \<in> (\<lambda>p. p + - m) ` {k + m..<n}" by (intro image_eqI [of _ _ "x + m"]) auto
  qed auto
  also have "{0..<k} \<union> {k..<n - m} = {0..<n - m}" using k by (intro ivl_disj_un_two(3)) simp_all
  finally have "seq_view kv2 s = {0..<n - m}" .
  moreover have "cache_inv kv2" using kv2(2) by (simp add: kv_maps1_def)
  ultimately show ?thesis using kv1(1) kv2(1) by blast
qed

lemma context_shift_closes_gap_witness:
  "\<exists>kv1 kv2. kv_seq_rm 0 1 (1 + 1) small_kv1 = Some (True, kv1) \<and> kv_seq_add 0 (1 + 1) 3 (- 1) kv1 = Some kv2 \<and>
    cache_inv kv2 \<and> seq_view kv2 0 = {0..<3 - 1}"
  by (rule context_shift_closes_gap)
    (use small_kv1_facts(1,5) small_kv1_facts(3) [of 0] small_kv1_facts(4) [of 0] in \<open>simp_all add: unified_inv_def INT32_MAX_def\<close>)

text \<open>What a copy into another stream does to the sequences.\<close>

lemma fill_view:
  assumes inv: "cache_inv kv" and s: "seq_ok kv src" "seq_ok kv dst" "strm kv src \<noteq> strm kv dst"
    and kv': "same_config kv kv'" "maps_cells (g_fill src dst) (kv_cells kv ! strm kv src) (kv_cells kv' ! strm kv dst)"
      "\<forall>u. u \<noteq> strm kv dst \<longrightarrow> kv_cells kv' ! u = kv_cells kv ! u"
    and r: "seq_ok kv r"
  shows "seq_view kv' r = (if r = dst then seq_view kv src else if strm kv r = strm kv dst then {} else seq_view kv r)"
proof -
  have size: "cells_size (kv_cells kv ! strm kv src) = kv_size kv" using cache_invD(6,9) [OF inv] s(1) by blast
  have same: "strm kv' = strm kv" "kv_size kv' = kv_size kv"
    using same_config_good2(1) [OF kv'(1)] same_configD(9) [OF kv'(1)] .
  have cell: "cells_cell (kv_cells kv' ! strm kv dst) i = g_fill src dst (cells_cell (kv_cells kv ! strm kv src) i)"
    if "i < kv_size kv" for i using kv'(2) that size by (simp add: maps_cells_def)
  have member: "(\<exists>e h S. g_fill src dst cl = (p, e, h, S) \<and> r \<in> S) \<longleftrightarrow> r = dst \<and> (\<exists>e h S. cl = (p, e, h, S) \<and> src \<in> S)"
    for cl p by (cases cl) auto
  show ?thesis
  proof (cases "strm kv r = strm kv dst")
    case True
    have "seq_view kv' r = {p. \<exists>i < kv_size kv. \<exists>e h S. g_fill src dst (cells_cell (kv_cells kv ! strm kv src) i) = (p, e, h, S) \<and> r \<in> S}"
      unfolding seq_view_def same True using cell by (simp cong: conj_cong)
    also have "\<dots> = {p. r = dst \<and> p \<in> seq_view kv src}" unfolding member seq_view_def by blast
    finally show ?thesis using True by auto
  next
    case False
    then have "r \<noteq> dst" by blast
    with False show ?thesis using kv'(3) by (simp add: seq_view_def same)
  qed
qed

text \<open>
  C29: Copying a whole sequence into another stream gives the destination the positions of the
  source, empties every other sequence of the destination's stream, leaves the sequences of all
  other streams as they are and records the pending copy of the tensors.
\<close>

theorem seq_cp_to_stream:
  assumes inv: "cache_inv kv" and s: "seq_ok kv src" "seq_ok kv dst" "strm kv src \<noteq> strm kv dst"
    and shift: "\<forall>i < kv_size kv. case cells_cell (kv_cells kv ! strm kv src) i of (p, e, h, S) \<Rightarrow> src \<in> S \<longrightarrow> h \<le> p"
  shows "\<exists>kv'. kv_seq_cp src dst (-1) (-1) kv = Some kv' \<and> cache_inv kv' \<and>
    (\<forall>r. seq_ok kv r \<longrightarrow> seq_view kv' r =
       (if r = dst then seq_view kv src else if strm kv r = strm kv dst then {} else seq_view kv r)) \<and>
    kv_sc_info kv' = \<lparr>sc_ssrc = sc_ssrc (kv_sc_info kv) @ [strm kv src], sc_sdst = sc_sdst (kv_sc_info kv) @ [strm kv dst]\<rparr>"
proof -
  obtain kv' where kv': "kv_seq_cp src dst (-1) (-1) kv = Some kv'" "cache_inv kv'" "same_config kv kv'"
    "maps_cells (g_fill src dst) (kv_cells kv ! strm kv src) (kv_cells kv' ! strm kv dst)"
    "\<forall>u. u \<noteq> strm kv dst \<longrightarrow> kv_cells kv' ! u = kv_cells kv ! u"
    using kv_seq_cp_cross_spec [OF inv s _ _ shift, of "-1" "-1"] by auto
  have "kv_sc_info kv' = \<lparr>sc_ssrc = sc_ssrc (kv_sc_info kv) @ [strm kv src], sc_sdst = sc_sdst (kv_sc_info kv) @ [strm kv dst]\<rparr>"
    using trans [OF seq_cp_sc [OF inv s(1,2) kv'(1)] if_not_P [OF s(3)]] .
  then show ?thesis using kv'(1,2) fill_view [OF inv s kv'(3-5)] by blast
qed

definition split_kv :: kv_cache where
  "split_kv = the (kv_new False 4 2 1 0 Swa_none 1 None)"

lemma split_kv_new: "kv_new False 4 2 1 0 Swa_none 1 None = Some split_kv"
  by (simp add: split_kv_def kv_new_def assrt_def Let_def)

lemmas split_kv_facts = kv_new_inv [OF split_kv_new, unfolded LLAMA_MAX_SEQ_def, simplified]

lemma seq_cp_to_stream_witness:
  "\<exists>kv'. kv_seq_cp 0 1 (-1) (-1) split_kv = Some kv' \<and> cache_inv kv' \<and>
    (\<forall>r. seq_ok split_kv r \<longrightarrow> seq_view kv' r =
       (if r = 1 then seq_view split_kv 0 else if strm split_kv r = strm split_kv 1 then {} else seq_view split_kv r)) \<and>
    kv_sc_info kv' = \<lparr>sc_ssrc = sc_ssrc (kv_sc_info split_kv) @ [strm split_kv 0],
      sc_sdst = sc_sdst (kv_sc_info split_kv) @ [strm split_kv 1]\<rparr>"
proof (rule seq_cp_to_stream)
  show "cache_inv split_kv" by (rule split_kv_facts)
  show ok: "seq_ok split_kv 0" "seq_ok split_kv 1" using split_kv_facts(4) by (simp_all add: seq_ok_def)
  show "strm split_kv 0 \<noteq> strm split_kv 1" by code_simp
  have "seq_view split_kv 0 = {}" using split_kv_facts(8) [OF ok(1)] .
  then show "\<forall>i < kv_size split_kv. case cells_cell (kv_cells split_kv ! strm split_kv 0) i of (p, e, h, S) \<Rightarrow> 0 \<in> S \<longrightarrow> h \<le> p"
    by (auto simp: seq_view_def)
qed

subsection \<open>Placing a ubatch\<close>

text \<open>
  C19: \<open>find_slot\<close> terminates without a failed assertion. It finds a slot exactly when every stream
  of the ubatch has as many usable cells as it has tokens there; the slot then has for every
  stream that many different usable cells, the first ones found going round from the head.
\<close>

theorem find_slot_correct:
  assumes "kv_reachable kv" "ub_ok kv ub"
  shows "\<exists>si. find_slot ub False kv = Some si \<and>
    (if \<exists>t \<in> set (ub_streams kv ub). card {i. i < kv_size kv \<and> usable kv t i} < ub_n_tokens ub div ub_n_seqs_for kv ub
     then si_empty si
     else \<not> si_empty si \<and> slot_ok kv ub si \<and>
       si_idxs si = map (\<lambda>t. take (ub_n_tokens ub div ub_n_seqs_for kv ub)
         (filter (usable kv t) (ring (kv_size kv) (start_head kv t (ub_n_tokens ub div ub_n_seqs_for kv ub))))) (ub_streams kv ub))"
proof -
  let ?n = "ub_n_tokens ub div ub_n_seqs_for kv ub"
  have g: "cache_inv kv" "swa_ok kv" "0 < kv_size kv" using kv_reachable_good [OF assms(1)] by (simp_all add: kv_good_def)
  have pick: "(\<exists>t \<in> T. card {i. i < kv_size kv \<and> usable kv t i} < ?n) \<longleftrightarrow> \<not> (\<forall>t \<in> T. stream_pick kv t ?n \<noteq> None)" for T
    unfolding stream_pick_None [OF g(3), symmetric] by (simp del: not_None_eq)
  have the: "the (stream_pick kv t ?n) = take ?n (filter (usable kv t) (ring (kv_size kv) (start_head kv t ?n)))"
    if "stream_pick kv t ?n \<noteq> None" for t
    using that by (auto simp: stream_pick_def pick_cells_def Let_def split: if_splits)
  obtain si where si: "find_slot ub False kv = Some si"
    "if \<forall>t \<in> set (ub_streams kv ub). stream_pick kv t ?n \<noteq> None
     then slot_ok kv ub si \<and> \<not> si_empty si \<and> si_idxs si = map (\<lambda>t. the (stream_pick kv t ?n)) (ub_streams kv ub)
     else si = si_none"
    using find_slot_spec [OF g assms(2)] by blast
  show ?thesis
  proof (cases "\<forall>t \<in> set (ub_streams kv ub). stream_pick kv t ?n \<noteq> None")
    case True
    then have "map (\<lambda>t. the (stream_pick kv t ?n)) (ub_streams kv ub) =
        map (\<lambda>t. take ?n (filter (usable kv t) (ring (kv_size kv) (start_head kv t ?n)))) (ub_streams kv ub)"
      using the by (intro map_cong refl) blast
    with True si show ?thesis unfolding pick by simp
  next
    case False
    moreover have "si_empty si_none" by (simp add: si_empty_def si_none_def)
    ultimately show ?thesis using si unfolding pick if_not_P [OF False] by auto
  qed
qed

lemma find_slot_correct_witness:
  "\<exists>si. find_slot prompt False small_kv = Some si \<and>
    (if \<exists>t \<in> set (ub_streams small_kv prompt). card {i. i < kv_size small_kv \<and> usable small_kv t i} <
       ub_n_tokens prompt div ub_n_seqs_for small_kv prompt
     then si_empty si
     else \<not> si_empty si \<and> slot_ok small_kv prompt si \<and>
       si_idxs si = map (\<lambda>t. take (ub_n_tokens prompt div ub_n_seqs_for small_kv prompt)
         (filter (usable small_kv t) (ring (kv_size small_kv)
           (start_head small_kv t (ub_n_tokens prompt div ub_n_seqs_for small_kv prompt))))) (ub_streams small_kv prompt))"
  by (rule find_slot_correct [OF small_kv_reachable prompt_ok])

text \<open>
  C2: Placing a ubatch in the slot \<open>find_slot\<close> found, when its positions come after those of the
  cache, adds exactly the positions of its tokens to each sequence. A sequence may lose positions
  whose cells are reused, always a prefix; every position that is lost was already outside the
  attention window of the next token of that sequence, so no later token can miss it.
\<close>

theorem apply_ubatch_loses_masked_only:
  assumes r: "kv_reachable kv" and ub: "ub_ok kv ub" and si: "slot_ok kv ub si"
    and later: "\<forall>q. seq_ok kv q \<longrightarrow> (\<forall>p \<in> seq_view kv q. \<forall>x \<in> ub_positions ub q. p < x)"
  shows "\<exists>kv'. apply_ubatch si ub kv = Some kv' \<and> cache_inv kv' \<and>
    (\<forall>q. seq_ok kv q \<longrightarrow> ub_positions ub q \<subseteq> seq_view kv' q \<and> seq_view kv' q \<subseteq> seq_view kv q \<union> ub_positions ub q \<and>
       (\<forall>p \<in> seq_view kv q - seq_view kv' q.
          (\<forall>p' \<in> seq_view kv q. p' \<le> p \<longrightarrow> p' \<notin> seq_view kv' q) \<and>
          is_masked_swa (kv_n_swa kv) (kv_swa_type kv) p (Max (seq_view kv q) + 1) = Some True))"
proof -
  let ?rm = "overwritten kv si (ub_n_tokens ub)"
  have g: "cache_inv kv" "swa_ok kv" using kv_reachable_good [OF r] by (simp_all add: kv_good_def)
  obtain kv' where kv': "apply_ubatch si ub kv = Some kv'" "cache_inv kv'"
    "\<forall>q. seq_ok kv q \<longrightarrow> seq_view kv' q = {p \<in> seq_view kv q. ?rm q < p} \<union> ub_positions ub q"
    using apply_ubatch_view_spec [OF g ub si later] by blast
  have masked: "is_masked_swa (kv_n_swa kv) (kv_swa_type kv) p (Max (seq_view kv q) + 1) = Some True"
    if "seq_ok kv q" "p \<in> seq_view kv q" "\<not> ?rm q < p" for p q
    using overwritten_masked [OF g si ub that(1,2)] that(3) by linarith
  have lost: "p' \<notin> ub_positions ub q \<and> \<not> ?rm q < p'"
    if "seq_ok kv q" "p \<in> seq_view kv q" "p' \<in> seq_view kv q" "p' \<le> p" "\<not> ?rm q < p" for p p' q
    using later that order_less_irrefl [of p'] by (meson order.strict_trans2)
  have "ub_positions ub q \<subseteq> seq_view kv' q \<and> seq_view kv' q \<subseteq> seq_view kv q \<union> ub_positions ub q \<and>
       (\<forall>p \<in> seq_view kv q - seq_view kv' q. (\<forall>p' \<in> seq_view kv q. p' \<le> p \<longrightarrow> p' \<notin> seq_view kv' q) \<and>
          is_masked_swa (kv_n_swa kv) (kv_swa_type kv) p (Max (seq_view kv q) + 1) = Some True)" if q: "seq_ok kv q" for q
    unfolding kv'(3) [rule_format, OF q] using masked [OF q] lost [OF q] by blast
  then show ?thesis using kv'(1,2) by blast
qed

lemma prompt_later: "\<forall>q. seq_ok small_kv q \<longrightarrow> (\<forall>p \<in> seq_view small_kv q. \<forall>x \<in> ub_positions prompt q. p < x)"
  using small_kv_facts(8) by simp

lemma apply_ubatch_loses_masked_only_witness:
  "\<exists>kv'. apply_ubatch prompt_slot_info prompt small_kv = Some kv' \<and> cache_inv kv' \<and>
    (\<forall>q. seq_ok small_kv q \<longrightarrow> ub_positions prompt q \<subseteq> seq_view kv' q \<and>
       seq_view kv' q \<subseteq> seq_view small_kv q \<union> ub_positions prompt q \<and>
       (\<forall>p \<in> seq_view small_kv q - seq_view kv' q.
          (\<forall>p' \<in> seq_view small_kv q. p' \<le> p \<longrightarrow> p' \<notin> seq_view kv' q) \<and>
          is_masked_swa (kv_n_swa small_kv) (kv_swa_type small_kv) p (Max (seq_view small_kv q) + 1) = Some True))"
  by (rule apply_ubatch_loses_masked_only [OF small_kv_reachable prompt_ok prompt_slot_ok(2) prompt_later])

text \<open>
  C20: Placing a ubatch keeps the positions of a sequence without gaps: if they have none, and the
  ubatch continues them without one, then there is none afterwards, also when cells were reused
  in the middle of the cache. This is the invariant that lets \<open>seq_pos_min\<close> and \<open>seq_pos_max\<close>
  stand for everything between them.
\<close>

theorem apply_ubatch_keeps_contiguous:
  assumes r: "kv_reachable kv" and ub: "ub_ok kv ub" and si: "slot_ok kv ub si"
    and later: "\<forall>q. seq_ok kv q \<longrightarrow> (\<forall>p \<in> seq_view kv q. \<forall>x \<in> ub_positions ub q. p < x)"
    and cont: "\<forall>q. seq_ok kv q \<longrightarrow> contiguous (seq_view kv q) \<and> contiguous (seq_view kv q \<union> ub_positions ub q)"
  shows "\<exists>kv'. apply_ubatch si ub kv = Some kv' \<and> (\<forall>q. seq_ok kv q \<longrightarrow> contiguous (seq_view kv' q))"
proof -
  let ?rm = "overwritten kv si (ub_n_tokens ub)"
  have g: "cache_inv kv" "swa_ok kv" using kv_reachable_good [OF r] by (simp_all add: kv_good_def)
  obtain kv' where kv': "apply_ubatch si ub kv = Some kv'"
    "\<forall>q. seq_ok kv q \<longrightarrow> seq_view kv' q = {p \<in> seq_view kv q. ?rm q < p} \<union> ub_positions ub q"
    using apply_ubatch_view_spec [OF g ub si later] by blast
  have "contiguous (seq_view kv' q)" if q: "seq_ok kv q" for q
    unfolding kv'(2) [rule_format, OF q]
  proof (rule contiguous_cut)
    show "?rm q = -1 \<or> ?rm q \<in> seq_view kv q" using overwritten_seq_ok [OF g(1) si ub] by blast
    have "\<forall>x \<in> ub_positions ub q. 0 \<le> x"
      using slot_addr_ok(4) [OF g(1) si ub] by (auto simp: ub_positions_def)
    then show "\<forall>p \<in> seq_view kv q \<union> ub_positions ub q. 0 \<le> p" using seq_view_queries(4) [OF g(1) q] by blast
  qed (use cont later q in blast)+
  then show ?thesis using kv'(1) by blast
qed

lemma apply_ubatch_keeps_contiguous_witness:
  "\<exists>kv'. apply_ubatch prompt_slot_info prompt small_kv = Some kv' \<and>
    (\<forall>q. seq_ok small_kv q \<longrightarrow> contiguous (seq_view kv' q))"
proof (rule apply_ubatch_keeps_contiguous [OF small_kv_reachable prompt_ok prompt_slot_ok(2) prompt_later])
  have "contiguous {0..<3}" "contiguous {}" by (auto simp: contiguous_def)
  then show "\<forall>q. seq_ok small_kv q \<longrightarrow> contiguous (seq_view small_kv q) \<and>
      contiguous (seq_view small_kv q \<union> ub_positions prompt q)"
    using small_kv_facts(8) by (simp add: prompt_positions)
qed

text \<open>
  C18: \<open>prepare\<close>, on a cache without a sliding window, places the ubatches one after the other to learn
  their slots and takes them back: the cells, with their shift flags, are as before, with one
  stream the whole cache. It returns slots exactly when every stream has as many empty cells as all
  the ubatches together have tokens there; there is then one slot for each ubatch, and they can
  all be applied in order.
\<close>

theorem prepare_restores:
  assumes "kv_reachable kv" "kv_swa_type kv = Swa_none" "\<forall>ub \<in> set ubs. ub_ok kv ub" "ubs \<noteq> []"
  shows "\<exists>sis kv'. prepare ubs kv = Some (sis, kv') \<and> kv_cells kv' = kv_cells kv \<and>
    (kv_n_stream kv = 1 \<longrightarrow> kv' = kv) \<and>
    (sis \<noteq> [] \<longleftrightarrow> (\<forall>t < kv_n_stream kv. (\<Sum>ub\<leftarrow>ubs. tokens_in kv ub t) \<le> card (free_cells kv t))) \<and>
    (sis \<noteq> [] \<longrightarrow> length sis = length ubs \<and> (\<exists>kv2. apply_all sis ubs kv = Some kv2))"
proof -
  have g: "cache_inv kv" "0 < kv_size kv" using kv_reachable_good [OF assms(1)] by (simp_all add: kv_good_def)
  obtain sis kv' where p: "prepare ubs kv = Some (sis, kv')" "restores kv kv'" "sis \<noteq> [] \<longleftrightarrow> fits kv ubs"
    "sis \<noteq> [] \<longrightarrow> length sis = length ubs \<and> (\<exists>kv2. apply_all sis ubs kv = Some kv2)"
    using prepare_spec [OF g(1) assms(2) g(2) assms(3,4)] by blast
  then obtain hs where "kv' = kv\<lparr>kv_heads := hs\<rparr>" "kv_n_stream kv = 1 \<longrightarrow> hs = kv_heads kv" by (auto simp: restores_def)
  then have "kv_cells kv' = kv_cells kv" "kv_n_stream kv = 1 \<longrightarrow> kv' = kv" by auto
  with p show ?thesis unfolding fits_def by blast
qed

lemma prepare_restores_witness:
  "\<exists>sis kv'. prepare [prompt, prompt] small_kv = Some (sis, kv') \<and> kv_cells kv' = kv_cells small_kv \<and>
    (kv_n_stream small_kv = 1 \<longrightarrow> kv' = small_kv) \<and>
    (sis \<noteq> [] \<longleftrightarrow> (\<forall>t < kv_n_stream small_kv. (\<Sum>ub\<leftarrow>[prompt, prompt]. tokens_in small_kv ub t) \<le> card (free_cells small_kv t))) \<and>
    (sis \<noteq> [] \<longrightarrow> length sis = length [prompt, prompt] \<and> (\<exists>kv2. apply_all sis [prompt, prompt] small_kv = Some kv2))"
  by (rule prepare_restores [OF small_kv_reachable small_kv_config(4)]) (simp_all add: prompt_ok)

text \<open>
  With several streams the heads are not always put back: the head that is restored for a stream is the
  saved one with the number of the slot's row. Here row 0 of the slot is stream 1, whose head becomes
  that of stream 0.
\<close>

definition token_of_1 :: llama_ubatch where
  "token_of_1 = ubatch_none\<lparr>ub_n_tokens := 1, ub_n_seq_tokens := 1, ub_n_seqs := 1, ub_n_seqs_unq := 1, ub_n_pos := 1,
     ub_token := Some [7], ub_pos := [0], ub_n_seq_id := [1], ub_seq_id := [[1]], ub_seq_id_unq := [1], ub_output := [True]\<rparr>"

lemma prepare_moves_head:
  "map_option (\<lambda>kv. (kv_heads kv, map_option (\<lambda>(sis, kv'). (map si_strm sis, kv_heads kv')) (prepare [token_of_1] kv)))
    (run_kv_op (Kv_apply prompt) split_kv) = Some ([3, 0], Some ([[1]], [3, 3]))"
  by code_simp

subsection \<open>From a batch to slots\<close>

text \<open>
  C3: \<open>init_batch\<close> on a unified cache without a sliding window: the cache is left as it was, and slots
  are returned exactly when the cache has as many empty cells as the batch has tokens. The batch is
  then cut into consecutive blocks of at most \<open>n_ubatch\<close> tokens, each of which is the content of one
  ubatch, there is one slot for each ubatch, and the ubatches can be applied in order with them.
\<close>

theorem init_batch_prepares:
  assumes b: "has_seqs b" "allocr_init al b n_vocab mem n_embd n_seq_max output_all = Some (Inr al0)"
    and toks: "tokens_ok n_seq_max (al_batch al0)" "0 < al_n_pos_per_embd al"
    and kv: "kv_reachable kv" "kv_n_stream kv = 1" "kv_swa_type kv = Swa_none" "n_seq_max \<le> length (kv_seq_to_stream kv)"
  shows "\<exists>r al'. kv_init_batch n_ubatch al0 kv = Some (r, al', kv) \<and> al_n_used al' = bt_n_tokens b \<and>
    (r \<noteq> None \<longleftrightarrow> bt_n_tokens b \<le> card (free_cells kv 0)) \<and>
    (\<forall>sis ubs. r = Some (sis, ubs) \<longrightarrow> length sis = length ubs \<and>
      (\<exists>idxss. list_all2 (splits_into al0) idxss ubs \<and> concat idxss = [0..<bt_n_tokens b] \<and>
         (\<forall>idxs \<in> set idxss. idxs \<noteq> [] \<and> length idxs \<le> max 1 n_ubatch)) \<and>
      (\<exists>kv2. apply_all sis ubs kv = Some kv2))"
proof (rule kv_init_batch_spec [OF b toks _ kv(3) _ kv(4)])
  show "unified_inv kv" "0 < kv_size kv"
    using kv_reachable_good [OF kv(1)] kv(2) by (simp_all add: unified_inv_def kv_good_def)
qed

definition two_tokens :: batch_allocr where
  "two_tokens = (case allocr_init (allocr_new 1) (llama_batch_get_one [5, 7]) 8 None 0 2 False of
     Some (Inr al) \<Rightarrow> al | _ \<Rightarrow> allocr_new 1)"

lemma two_tokens_init: "allocr_init (allocr_new 1) (llama_batch_get_one [5, 7]) 8 None 0 2 False = Some (Inr two_tokens)"
proof -
  have "case allocr_init (allocr_new 1) (llama_batch_get_one [5, 7]) 8 None 0 2 False of Some (Inr al) \<Rightarrow> True | _ \<Rightarrow> False"
    by code_simp
  then show ?thesis by (auto simp: two_tokens_def split: option.splits sum.splits)
qed

lemma two_tokens_ok: "tokens_ok 2 (al_batch two_tokens)"
  by code_simp

lemma init_batch_prepares_witness:
  "\<exists>r al'. kv_init_batch 1 two_tokens small_kv = Some (r, al', small_kv) \<and>
    al_n_used al' = bt_n_tokens (llama_batch_get_one [5, 7]) \<and>
    (r \<noteq> None \<longleftrightarrow> bt_n_tokens (llama_batch_get_one [5, 7]) \<le> card (free_cells small_kv 0)) \<and>
    (\<forall>sis ubs. r = Some (sis, ubs) \<longrightarrow> length sis = length ubs \<and>
      (\<exists>idxss. list_all2 (splits_into two_tokens) idxss ubs \<and> concat idxss = [0..<bt_n_tokens (llama_batch_get_one [5, 7])] \<and>
         (\<forall>idxs \<in> set idxss. idxs \<noteq> [] \<and> length idxs \<le> max 1 1)) \<and>
      (\<exists>kv2. apply_all sis ubs small_kv = Some kv2))"
  by (rule init_batch_prepares [OF _ two_tokens_init two_tokens_ok])
    (use small_kv_facts small_kv_reachable in \<open>simp_all add: has_seqs_def llama_batch_get_one_def batch_none_def allocr_new_def\<close>)

subsection \<open>What the graph reads and writes\<close>

text \<open>
  C30: \<open>get_n_kv\<close> never cuts off an occupied cell: it is at most the size of the cache, and every
  occupied cell of the slot's streams lies below it, when the padding is a power of two.
\<close>

theorem get_n_kv_covers:
  assumes "kv_reachable kv" "\<forall>t \<in> set (si_strm si). t < kv_n_stream kv" "kv_n_pad kv = 2 ^ k"
  shows "\<exists>n. kv_get_n_kv si kv = Some n \<and> n \<le> kv_size kv \<and>
    (\<forall>t \<in> set (si_strm si). \<forall>i < kv_size kv. kc_pos (kv_cells kv ! t) ! i \<noteq> -1 \<longrightarrow> i < n)"
proof -
  have "cache_inv kv" using kv_reachable_good [OF assms(1)] by (simp add: kv_good_def)
  from kv_get_n_kv_spec [OF this assms(2,3)] show ?thesis by (auto simp: cell_at_def cells_cell_def)
qed

lemma get_n_kv_covers_witness:
  "\<exists>n. kv_get_n_kv prompt_slot_info small_kv1 = Some n \<and> n \<le> kv_size small_kv1 \<and>
    (\<forall>t \<in> set (si_strm prompt_slot_info). \<forall>i < kv_size small_kv1. kc_pos (kv_cells small_kv1 ! t) ! i \<noteq> -1 \<longrightarrow> i < n)"
proof (rule get_n_kv_covers [OF small_kv1_reachable])
  show "kv_n_pad small_kv1 = 2 ^ 0"
  proof -
    have "kv_n_pad small_kv = 1" by code_simp
    then show ?thesis using same_configD(8) [OF small_kv1_facts(2)] by simp
  qed
  show "\<forall>t \<in> set (si_strm prompt_slot_info). t < kv_n_stream small_kv1"
  proof -
    have "si_strm prompt_slot_info = ub_streams small_kv prompt"
      using prompt_slot_ok(2) by (simp add: slot_ok_def Let_def ub_streams_def)
    then show ?thesis using same_configD(1) [OF small_kv1_facts(2)] small_kv_facts(3) by (simp add: prompt_streams)
  qed
qed

text \<open>
  The rows of the K tensor a ubatch writes, \<open>set_input_k_idxs\<close>, are one per token, all different
  and inside the tensor, and row by row the cell of the slot the token was placed in.
\<close>

theorem k_rows_distinct:
  assumes "kv_reachable kv" "ub_ok kv ub" "slot_ok kv ub si"
  shows "\<exists>rows. set_input_k_idxs ub si kv = Some rows \<and> length rows = ub_n_tokens ub \<and> distinct rows \<and>
    (\<forall>j < ub_n_tokens ub. rows ! j = fst (slot_addr si j) * kv_size kv + snd (slot_addr si j) \<and>
       rows ! j < kv_n_stream kv * kv_size kv)"
  using k_idxs_spec [OF _ assms(2,3)] kv_reachable_good [OF assms(1)] by (simp add: kv_good_def)

lemma k_rows_distinct_witness:
  "\<exists>rows. set_input_k_idxs prompt prompt_slot_info small_kv = Some rows \<and> length rows = ub_n_tokens prompt \<and> distinct rows \<and>
    (\<forall>j < ub_n_tokens prompt. rows ! j = fst (slot_addr prompt_slot_info j) * kv_size small_kv + snd (slot_addr prompt_slot_info j) \<and>
       rows ! j < kv_n_stream small_kv * kv_size small_kv)"
  by (rule k_rows_distinct [OF small_kv_reachable prompt_ok prompt_slot_ok(2)])

end
