(* ===== verification/KqMask.thy ===== *)
theory KqMask
  imports KvProps
begin

section \<open>The attention mask (\<open>llama_kv_cache::set_input_kq_mask\<close>)\<close>

text \<open>
  For every token of a ubatch and every cell below \<open>n_kv\<close> the mask says whether the token attends to
  the cell. The code builds the row of the first token of a sequence cell by cell, remembers which
  cells could differ for the other tokens of the sequence, and for these copies the row and
  revisits only the remembered cells. This theory translates the code with this shortcut and
  proves that every entry is what a direct test of the cell gives.

  The destination is a list of rows, one per token (the flat index \<open>n_kv*i + j\<close> is row \<open>i\<close>, column
  \<open>j\<close>), and an entry is the value before the cast to the type of the tensor.
\<close>

datatype mask_val = Mask_keep | Mask_drop | Mask_alibi int

record kq_args =
  ka_ubatch :: llama_ubatch
  ka_cells :: "kv_cells list"
  ka_seq_to_stream :: "nat list"
  ka_n_swa :: nat
  ka_swa_type :: swa_type
  ka_n_kv :: nat
  ka_n_stream :: nat
  ka_n_tps :: nat

record kq_flags =
  kf_causal :: bool
  kf_swa :: bool
  kf_is_2d :: bool
  kf_alibi :: bool

text \<open>The first position in the ubatch of each sequence.\<close>

definition kq_pos_min :: "llama_ubatch \<Rightarrow> (llama_seq_id \<Rightarrow> llama_pos) option" where
  "kq_pos_min ub = ofold (\<lambda>i m. let s = ub_seq_id ub ! i ! 0 in do {
       assrt (0 \<le> s \<and> s < LLAMA_MAX_SEQ);
       Some (m(s := min (m s) (ub_pos ub ! i))) })
     [0..<ub_n_tokens ub] (\<lambda>_. INT32_MAX)"

definition kq_future :: "kq_flags \<Rightarrow> kv_cells \<Rightarrow> nat \<Rightarrow> llama_pos \<Rightarrow> llama_pos \<Rightarrow> llama_pos \<Rightarrow> llama_pos \<Rightarrow> bool option" where
  "kq_future fl c j p0 p1 p1_x p1_y =
     (if \<not> kf_causal fl then Some False
      else if p0 > p1 then Some True
      else if kf_is_2d fl \<and> p0 = p1 then do {
        p0_ext \<leftarrow> cells_ext_get j c;
        Some (is_2d_gt p0_ext p1_x p1_y) }
      else Some False)"

text \<open>One cell for token \<open>i\<close>: the body of the loop over \<open>jj\<close>.\<close>

definition kq_visit :: "kq_flags \<Rightarrow> kq_args \<Rightarrow> (llama_seq_id \<Rightarrow> llama_pos) \<Rightarrow> bool \<Rightarrow> kv_cells \<Rightarrow> nat \<Rightarrow> nat \<Rightarrow>
    mask_val list \<times> nat list \<Rightarrow> (mask_val list \<times> nat list) option" where
  "kq_visit fl a pmin prev c i j st = (case st of (row, idxs) \<Rightarrow>
     let ub = ka_ubatch a; seq_id = ub_seq_id ub ! i ! 0; p1 = ub_pos ub ! i;
       p1_x = (if kf_is_2d fl then ub_pos ub ! (i + ub_n_tokens ub * 2) else 0);
       p1_y = (if kf_is_2d fl then ub_pos ub ! (i + ub_n_tokens ub) else 0) in do {
     e \<leftarrow> cells_is_empty j c;
     if e then Some (row[j := Mask_drop], idxs) else do {
     h \<leftarrow> cells_seq_has j seq_id c;
     if \<not> h then Some (row[j := Mask_drop], idxs) else do {
     p0 \<leftarrow> cells_pos_get j c;
     let idxs = (if \<not> kf_alibi fl \<and> \<not> prev \<and> p0 + int (ka_n_swa a + 32) \<ge> pmin seq_id then idxs @ [j] else idxs);
     future \<leftarrow> kq_future fl c j p0 p1 p1_x p1_y;
     if future then Some (row[j := Mask_drop], idxs) else do {
     masked \<leftarrow> (if kf_swa fl then is_masked_swa (ka_n_swa a) (ka_swa_type a) p0 p1 else Some False);
     if masked then Some (row[j := Mask_drop], idxs)
     else Some (row[j := if kf_alibi fl then Mask_alibi (- \<bar>p0 - p1\<bar>) else Mask_keep], idxs) } } } })"

text \<open>
  One token: the body of the loop over \<open>ii\<close>. The state is the mask with the two maps of a stream,
  \<open>seq_srct\<close> and \<open>seq_idxs\<close>.
\<close>

definition kq_token :: "kq_flags \<Rightarrow> kq_args \<Rightarrow> (llama_seq_id \<Rightarrow> llama_pos) \<Rightarrow> nat \<Rightarrow>
    mask_val list list \<times> (llama_seq_id \<Rightarrow> nat option) \<times> (llama_seq_id \<Rightarrow> nat list) \<Rightarrow>
    (mask_val list list \<times> (llama_seq_id \<Rightarrow> nat option) \<times> (llama_seq_id \<Rightarrow> nat list)) option" where
  "kq_token fl a pmin i st = (case st of (rows, srct, idxs) \<Rightarrow>
     let seq_id = ub_seq_id (ka_ubatch a) ! i ! 0 in do {
     assrt (0 \<le> seq_id \<and> seq_id < int (length (ka_seq_to_stream a)));
     c \<leftarrow> at_idx (ka_cells a) (ka_seq_to_stream a ! nat seq_id);
     let (rows, prev, srct, seq_idxs) =
       (if kf_alibi fl then (rows, False, srct, idxs seq_id)
        else case srct seq_id of
            Some k \<Rightarrow> (rows[i := rows ! k], True, srct, idxs seq_id)
          | None \<Rightarrow> (rows, False, srct(seq_id \<mapsto> i), []));
     let js = (if \<not> kf_alibi fl \<and> prev then take (ka_n_kv a) seq_idxs else [0..<ka_n_kv a]);
     (row, seq_idxs) \<leftarrow> ofold (kq_visit fl a pmin prev c i) js (rows ! i, seq_idxs);
     Some (rows[i := row], srct, idxs(seq_id := seq_idxs)) })"

definition kq_stream :: "kq_flags \<Rightarrow> kq_args \<Rightarrow> (llama_seq_id \<Rightarrow> llama_pos) \<Rightarrow> nat \<Rightarrow> mask_val list list \<Rightarrow> mask_val list list option" where
  "kq_stream fl a pmin s rows =
     map_option fst (ofold (\<lambda>ii. kq_token fl a pmin (s * ka_n_tps a + ii)) [0..<ka_n_tps a] (rows, \<lambda>_. None, \<lambda>_. []))"

definition set_input_kq_mask_impl :: "kq_flags \<Rightarrow> kq_args \<Rightarrow> mask_val list list \<Rightarrow> mask_val list list option" where
  "set_input_kq_mask_impl fl a rows = do {
     pmin \<leftarrow> kq_pos_min (ka_ubatch a);
     ofold (kq_stream fl a pmin) [0..<ka_n_stream a] rows }"

text \<open>The template arguments are chosen from the run-time values.\<close>

definition kq_dispatch :: "bool \<Rightarrow> bool \<Rightarrow> kq_args \<Rightarrow> kq_flags" where
  "kq_dispatch use_alibi causal_attn a =
     \<lparr>kf_causal = causal_attn, kf_swa = (ka_swa_type a \<noteq> Swa_none), kf_is_2d = is_pos_2d (ka_ubatch a), kf_alibi = use_alibi\<rparr>"

text \<open>\<open>n_kv\<close> and \<open>n_stream\<close> are dimensions of the destination tensor.\<close>

definition set_input_kq_mask :: "bool \<Rightarrow> bool \<Rightarrow> nat \<Rightarrow> nat \<Rightarrow> llama_ubatch \<Rightarrow> kv_cache \<Rightarrow> mask_val list list \<Rightarrow>
    mask_val list list option" where
  "set_input_kq_mask use_alibi causal_attn n_kv n_stream ub kv rows = do {
     assrt (n_stream \<noteq> 0 \<and> ub_n_tokens ub mod n_stream = 0);
     let n_tps = ub_n_tokens ub div n_stream;
     let a = \<lparr>ka_ubatch = ub, ka_cells = kv_cells kv, ka_seq_to_stream = kv_seq_to_stream kv, ka_n_swa = kv_n_swa kv,
       ka_swa_type = kv_swa_type kv, ka_n_kv = n_kv, ka_n_stream = n_stream, ka_n_tps = n_tps\<rparr>;
     set_input_kq_mask_impl (kq_dispatch use_alibi causal_attn a) a rows }"

subsection \<open>The direct test\<close>

definition kq_seq :: "kq_args \<Rightarrow> nat \<Rightarrow> llama_seq_id" where
  "kq_seq a i = ub_seq_id (ka_ubatch a) ! i ! 0"

definition kq_cells :: "kq_args \<Rightarrow> nat \<Rightarrow> kv_cells" where
  "kq_cells a i = ka_cells a ! (ka_seq_to_stream a ! nat (kq_seq a i))"

text \<open>A token attends to a cell of its sequence that is not in its future and inside its window.\<close>

definition kq_attends :: "kq_flags \<Rightarrow> kq_args \<Rightarrow> nat \<Rightarrow> nat \<Rightarrow> bool" where
  "kq_attends fl a i j \<longleftrightarrow> (let ub = ka_ubatch a; c = kq_cells a i; p0 = kc_pos c ! j; p1 = ub_pos ub ! i in
     p0 \<noteq> -1 \<and> kq_seq a i \<in> kc_seq c ! j \<and>
     (kf_causal fl \<longrightarrow> p0 \<le> p1 \<and> (kf_is_2d fl \<and> p0 = p1 \<longrightarrow>
        \<not> is_2d_gt (kc_ext c ! j) (ub_pos ub ! (i + ub_n_tokens ub * 2)) (ub_pos ub ! (i + ub_n_tokens ub)))) \<and>
     (kf_swa fl \<longrightarrow> is_masked_swa (ka_n_swa a) (ka_swa_type a) p0 p1 = Some False))"

definition kq_value :: "kq_flags \<Rightarrow> kq_args \<Rightarrow> nat \<Rightarrow> nat \<Rightarrow> mask_val" where
  "kq_value fl a i j =
     (if kq_attends fl a i j
      then if kf_alibi fl then Mask_alibi (- \<bar>kc_pos (kq_cells a i) ! j - ub_pos (ka_ubatch a) ! i\<bar>) else Mask_keep
      else Mask_drop)"

definition kq_near :: "kq_args \<Rightarrow> (llama_seq_id \<Rightarrow> llama_pos) \<Rightarrow> nat \<Rightarrow> nat \<Rightarrow> bool" where
  "kq_near a pmin i j \<longleftrightarrow> (let c = kq_cells a i in kc_pos c ! j \<noteq> -1 \<and> kq_seq a i \<in> kc_seq c ! j \<and>
     kc_pos c ! j + int (ka_n_swa a + 32) \<ge> pmin (kq_seq a i))"

text \<open>What the inputs must satisfy; the dispatch makes \<open>kf_swa\<close> true exactly with a window.\<close>

definition kq_ok :: "kq_flags \<Rightarrow> kq_args \<Rightarrow> bool" where
  "kq_ok fl a \<longleftrightarrow> (ka_swa_type a = Swa_chunked \<longrightarrow> ka_n_swa a \<noteq> 0) \<and> kf_swa fl = (ka_swa_type a \<noteq> Swa_none) \<and>
     ka_n_stream a * ka_n_tps a = ub_n_tokens (ka_ubatch a) \<and>
     (\<forall>i < ub_n_tokens (ka_ubatch a). 0 \<le> kq_seq a i \<and> kq_seq a i < LLAMA_MAX_SEQ \<and>
        kq_seq a i < int (length (ka_seq_to_stream a)) \<and>
        ka_seq_to_stream a ! nat (kq_seq a i) < length (ka_cells a) \<and> cells_inv (kq_cells a i) \<and>
        ka_n_kv a \<le> cells_size (kq_cells a i) \<and> 0 \<le> ub_pos (ka_ubatch a) ! i)"

lemma kq_visit_value:
  assumes ok: "kq_ok fl a" and i: "i < ub_n_tokens (ka_ubatch a)" and j: "j < ka_n_kv a"
  shows "kq_visit fl a pmin prev (kq_cells a i) i j (row, idxs) =
    Some (row[j := kq_value fl a i j], idxs @ (if \<not> kf_alibi fl \<and> \<not> prev \<and> kq_near a pmin i j then [j] else []))"
proof -
  let ?c = "kq_cells a i" and ?s = "kq_seq a i"
  have A: "cells_inv ?c" "j < cells_size ?c" "0 \<le> ?s" "?s < LLAMA_MAX_SEQ" "0 \<le> ub_pos (ka_ubatch a) ! i"
    "ka_swa_type a = Swa_chunked \<longrightarrow> ka_n_swa a \<noteq> 0"
    using ok i j by (auto simp: kq_ok_def)
  have e: "cells_is_empty j ?c = Some (kc_pos ?c ! j = -1)"
    using A(2) cells_invD(5) [OF A(1,2)] by (auto simp: cells_is_empty_def assrt_def)
  have h: "cells_seq_has j ?s ?c = Some (?s \<in> kc_seq ?c ! j)"
    using A by (simp add: cells_seq_has_def)
  show ?thesis
  proof (cases "kc_pos ?c ! j = -1 \<or> ?s \<notin> kc_seq ?c ! j")
    case True
    then show ?thesis
      using e h by (auto simp: kq_visit_def kq_value_def kq_attends_def kq_near_def Let_def kq_seq_def)
  next
    case False
    then have p: "cells_pos_get j ?c = Some (kc_pos ?c ! j)" "cells_ext_get j ?c = Some (kc_ext ?c ! j)" "0 \<le> kc_pos ?c ! j"
      using A(2) cells_invD(5) [OF A(1,2)] by (auto simp: cells_pos_get_def cells_ext_get_def)
    obtain b where b: "is_masked_swa (ka_n_swa a) (ka_swa_type a) (kc_pos ?c ! j) (ub_pos (ka_ubatch a) ! i) = Some b"
      using is_masked_swa_total [OF p(3) A(5,6)] by blast
    show ?thesis
      using False e h p b
      by (auto simp: kq_visit_def kq_value_def kq_attends_def kq_near_def kq_future_def Let_def kq_seq_def)
  qed
qed

lemma fold_update_nth: "j < length xs \<Longrightarrow> fold (\<lambda>j r. r[j := v j]) js xs ! j = (if j \<in> set js then v j else xs ! j)"
  by (induction js arbitrary: xs) (auto simp: nth_list_update)

lemma fold_update_length: "length (fold (\<lambda>j r. r[j := v j]) js xs) = length xs"
  by (induction js arbitrary: xs) auto

text \<open>A row: every visited cell gets its value, and the cells to revisit are collected.\<close>

lemma kq_row:
  assumes ok: "kq_ok fl a" and i: "i < ub_n_tokens (ka_ubatch a)" and js: "\<forall>j \<in> set js. j < ka_n_kv a"
  shows "ofold (kq_visit fl a pmin prev (kq_cells a i) i) js (row, idxs) =
    Some (fold (\<lambda>j r. r[j := kq_value fl a i j]) js row, idxs @ filter (\<lambda>j. \<not> kf_alibi fl \<and> \<not> prev \<and> kq_near a pmin i j) js)"
  using js by (induction js arbitrary: row idxs) (auto simp: kq_visit_value [OF ok i])

text \<open>A cell that is not remembered has the same value for all tokens of the sequence.\<close>

lemma kq_far:
  assumes ok: "kq_ok fl a" and i: "i < ub_n_tokens (ka_ubatch a)" and k: "k < ub_n_tokens (ka_ubatch a)"
    and j: "j < ka_n_kv a" and same: "kq_seq a k = kq_seq a i" and far: "\<not> kq_near a pmin k j"
    and pmin: "pmin (kq_seq a i) \<le> ub_pos (ka_ubatch a) ! i" "pmin (kq_seq a i) \<le> ub_pos (ka_ubatch a) ! k"
    and noalibi: "\<not> kf_alibi fl"
  shows "kq_value fl a k j = kq_value fl a i j"
proof -
  let ?c = "kq_cells a i" and ?n = "ka_n_swa a" and ?ub = "ka_ubatch a"
  let ?p0 = "kc_pos ?c ! j"
  have c: "kq_cells a k = ?c" using same by (simp add: kq_cells_def)
  show ?thesis
  proof (cases "?p0 = -1 \<or> kq_seq a i \<notin> kc_seq ?c ! j")
    case True
    then show ?thesis using c same by (auto simp: kq_value_def kq_attends_def Let_def)
  next
    case False
    then have lt: "?p0 + int (?n + 32) < pmin (kq_seq a i)" using far c same by (auto simp: kq_near_def Let_def)
    have A: "cells_inv ?c" "j < cells_size ?c" "0 \<le> ub_pos ?ub ! i" "0 \<le> ub_pos ?ub ! k"
      "ka_swa_type a = Swa_chunked \<longrightarrow> ?n \<noteq> 0"
      using ok i k j by (auto simp: kq_ok_def)
    have p0: "0 \<le> ?p0" using False cells_invD(5) [OF A(1,2)] by simp
    have mask: "is_masked_swa ?n (ka_swa_type a) ?p0 p1 = Some (ka_swa_type a \<noteq> Swa_none)"
      if p1: "pmin (kq_seq a i) \<le> p1" for p1
    proof (cases "ka_swa_type a")
      case Swa_chunked
      then have n: "0 < int ?n" using A(5) by simp
      have "p1 - p1 mod int ?n = p1 div int ?n * int ?n" by (simp add: minus_mod_eq_div_mult)
      moreover have "p1 mod int ?n < int ?n" using n by simp
      ultimately have "?p0 < p1 div int ?n * int ?n" using lt p1 by linarith
      then show ?thesis using Swa_chunked p0 lt p1 n by (simp add: is_masked_swa_def assrt_def Let_def)
    qed (use p0 lt p1 in \<open>auto simp: is_masked_swa_def assrt_def Let_def\<close>)
    have "?p0 < ub_pos ?ub ! i" "?p0 < ub_pos ?ub ! k" using lt pmin by linarith+
    then show ?thesis
      using mask [OF pmin(1)] mask [OF pmin(2)] noalibi c same False
      by (simp add: kq_value_def kq_attends_def Let_def)
  qed
qed

subsection \<open>Every row\<close>

definition rows_ok :: "kq_flags \<Rightarrow> kq_args \<Rightarrow> nat \<Rightarrow> mask_val list list \<Rightarrow> bool" where
  "rows_ok fl a m rows \<longleftrightarrow> length rows = ub_n_tokens (ka_ubatch a) \<and> (\<forall>i < length rows. length (rows ! i) = ka_n_kv a) \<and>
     (\<forall>i < m. \<forall>j < ka_n_kv a. rows ! i ! j = kq_value fl a i j)"

text \<open>The maps of a stream: a row to copy is finished, and its cells to revisit are known.\<close>

definition maps_ok :: "kq_args \<Rightarrow> (llama_seq_id \<Rightarrow> llama_pos) \<Rightarrow> nat \<Rightarrow> (llama_seq_id \<Rightarrow> nat option) \<Rightarrow> (llama_seq_id \<Rightarrow> nat list) \<Rightarrow> bool" where
  "maps_ok a pmin m srct idxs \<longleftrightarrow> (\<forall>s k. srct s = Some k \<longrightarrow> k < m \<and> kq_seq a k = s \<and>
     idxs s = filter (kq_near a pmin k) [0..<ka_n_kv a])"

lemma kq_token_step:
  assumes ok: "kq_ok fl a" and i: "i < ub_n_tokens (ka_ubatch a)"
    and pmin: "\<forall>k < ub_n_tokens (ka_ubatch a). pmin (kq_seq a k) \<le> ub_pos (ka_ubatch a) ! k"
    and rows: "rows_ok fl a i rows" and maps: "kf_alibi fl \<or> maps_ok a pmin i srct idxs"
  shows "\<exists>rows' srct' idxs'. kq_token fl a pmin i (rows, srct, idxs) = Some (rows', srct', idxs') \<and>
    rows_ok fl a (Suc i) rows' \<and> (kf_alibi fl \<or> maps_ok a pmin (Suc i) srct' idxs')"
proof -
  let ?s = "kq_seq a i" and ?n = "ka_n_kv a"
  let ?fill = "\<lambda>js row. fold (\<lambda>j r. r[j := kq_value fl a i j]) js row"
  have R: "length rows = ub_n_tokens (ka_ubatch a)" "\<And>k. k < length rows \<Longrightarrow> length (rows ! k) = ?n"
    "\<And>k j. k < i \<Longrightarrow> j < ?n \<Longrightarrow> rows ! k ! j = kq_value fl a k j"
    using rows by (auto simp: rows_ok_def)
  have seq: "assrt (0 \<le> ?s \<and> ?s < int (length (ka_seq_to_stream a))) = Some ()"
    "at_idx (ka_cells a) (ka_seq_to_stream a ! nat ?s) = Some (kq_cells a i)"
    using ok i by (auto simp: kq_ok_def at_idx_def kq_cells_def)
  have good: "rows_ok fl a (Suc i) (rows[i := row])"
    if "length row = ?n" "\<And>j. j < ?n \<Longrightarrow> row ! j = kq_value fl a i j" for row
    using that R i by (auto simp: rows_ok_def nth_list_update less_Suc_eq)
  show ?thesis
  proof (cases "kf_alibi fl \<or> srct ?s = None")
    case True
    let ?row = "?fill [0..<?n] (rows ! i)"
    let ?ix = "if kf_alibi fl then idxs ?s else filter (kq_near a pmin i) [0..<?n]"
    have "ofold (kq_visit fl a pmin False (kq_cells a i) i) [0..<?n] (rows ! i, ix) =
        Some (?row, ix @ filter (\<lambda>j. \<not> kf_alibi fl \<and> kq_near a pmin i j) [0..<?n])" for ix
      using kq_row [OF ok i, of "[0..<?n]"] by simp
    then have "kq_token fl a pmin i (rows, srct, idxs) =
        Some (rows[i := ?row], if kf_alibi fl then srct else srct(?s \<mapsto> i), idxs(?s := ?ix))"
      using True seq by (auto simp: kq_token_def kq_seq_def [symmetric] Let_def)
    moreover have "rows_ok fl a (Suc i) (rows[i := ?row])"
      by (rule good) (use R(1,2) i in \<open>simp_all add: fold_update_length fold_update_nth\<close>)
    moreover have "kf_alibi fl \<or> maps_ok a pmin (Suc i) (srct(?s \<mapsto> i)) (idxs(?s := ?ix))"
      using maps by (auto simp: maps_ok_def less_Suc_eq)
    ultimately show ?thesis by (cases "kf_alibi fl") auto
  next
    case False
    then obtain k where k: "srct ?s = Some k" "\<not> kf_alibi fl" by auto
    with maps have K: "k < i" "kq_seq a k = ?s" "idxs ?s = filter (kq_near a pmin k) [0..<?n]" by (auto simp: maps_ok_def)
    let ?js = "idxs ?s" and ?row = "?fill (idxs ?s) (rows ! k)"
    have "length ?js \<le> ?n" unfolding K(3) using length_filter_le [of "kq_near a pmin k" "[0..<?n]"] by simp
    then have js: "take ?n ?js = ?js" "\<forall>j \<in> set ?js. j < ?n" using K(3) by auto
    have "ofold (kq_visit fl a pmin True (kq_cells a i) i) ?js (rows ! k, ?js) = Some (?row, ?js)"
      using kq_row [OF ok i js(2), of pmin True "rows ! k" ?js] by simp
    moreover have "i < length rows" using R(1) i by simp
    ultimately have "kq_token fl a pmin i (rows, srct, idxs) = Some (rows[i := ?row], srct, idxs)"
      using k seq js(1) by (simp add: kq_token_def kq_seq_def [symmetric] Let_def)
    moreover have "rows_ok fl a (Suc i) (rows[i := ?row])"
    proof (rule good)
      have len: "length (rows ! k) = ?n" using R(1,2) K(1) i by simp
      then show "length ?row = ?n" by (simp add: fold_update_length)
      fix j assume j: "j < ?n"
      have "kq_value fl a k j = kq_value fl a i j" if "j \<notin> set ?js"
      proof (rule kq_far [OF ok i _ j K(2)])
        show "\<not> kq_near a pmin k j" using that j unfolding K(3) by simp
        show "pmin ?s \<le> ub_pos (ka_ubatch a) ! i" using pmin i by blast
        have "k < ub_n_tokens (ka_ubatch a)" using K(1) i by simp
        with pmin K(2) show "pmin ?s \<le> ub_pos (ka_ubatch a) ! k" by metis
      qed (use K(1) i k(2) in simp_all)
      then show "?row ! j = kq_value fl a i j"
        using R(3) [OF K(1) j] j len by (simp add: fold_update_nth)
    qed
    moreover have "maps_ok a pmin (Suc i) srct idxs" using maps k(2) by (auto simp: maps_ok_def less_Suc_eq)
    ultimately show ?thesis by blast
  qed
qed

lemma kq_stream_step:
  assumes ok: "kq_ok fl a" and s: "s < ka_n_stream a"
    and pmin: "\<forall>k < ub_n_tokens (ka_ubatch a). pmin (kq_seq a k) \<le> ub_pos (ka_ubatch a) ! k"
    and rows: "rows_ok fl a (s * ka_n_tps a) rows"
  shows "\<exists>rows'. kq_stream fl a pmin s rows = Some rows' \<and> rows_ok fl a (Suc s * ka_n_tps a) rows'"
proof -
  let ?I = "\<lambda>m (r, srct, idxs). rows_ok fl a (s * ka_n_tps a + m) r \<and> (kf_alibi fl \<or> maps_ok a pmin (s * ka_n_tps a + m) srct idxs)"
  have "Suc s * ka_n_tps a \<le> ka_n_stream a * ka_n_tps a" using s by (intro mult_le_mono1) simp
  then have le: "s * ka_n_tps a + ka_n_tps a \<le> ub_n_tokens (ka_ubatch a)" using ok by (simp add: kq_ok_def)
  have "\<exists>st. ofold (\<lambda>ii. kq_token fl a pmin (s * ka_n_tps a + ii)) [0..<ka_n_tps a] (rows, \<lambda>_. None, \<lambda>_. []) = Some st \<and> ?I (ka_n_tps a) st"
  proof (rule ofold_upt_inv [where I = ?I])
    show "?I 0 (rows, \<lambda>_. None, \<lambda>_. [])" using rows by (simp add: maps_ok_def)
    fix ii st assume ii: "ii < ka_n_tps a" and I: "?I ii st"
    obtain r srct idxs where st: "st = (r, srct, idxs)" by (cases st)
    have "s * ka_n_tps a + ii < ub_n_tokens (ka_ubatch a)" using ii le by linarith
    from kq_token_step [OF ok this pmin, of r srct idxs] I
    show "\<exists>s'. kq_token fl a pmin (s * ka_n_tps a + ii) st = Some s' \<and> ?I (Suc ii) s'" unfolding st by auto
  qed
  then show ?thesis by (auto simp: kq_stream_def add.commute)
qed

lemma kq_pos_min_spec:
  assumes "\<forall>i < ub_n_tokens ub. 0 \<le> ub_seq_id ub ! i ! 0 \<and> ub_seq_id ub ! i ! 0 < LLAMA_MAX_SEQ"
  shows "\<exists>m. kq_pos_min ub = Some m \<and> (\<forall>k < ub_n_tokens ub. m (ub_seq_id ub ! k ! 0) \<le> ub_pos ub ! k)"
  unfolding kq_pos_min_def Let_def
proof (rule ofold_upt_inv [where I = "\<lambda>i m. \<forall>k < i. m (ub_seq_id ub ! k ! 0) \<le> ub_pos ub ! k"])
  fix i m assume "i < ub_n_tokens ub" and "\<forall>k < i. m (ub_seq_id ub ! k ! 0) \<le> ub_pos ub ! k"
  then show "\<exists>m'. Option.bind (assrt (0 \<le> ub_seq_id ub ! i ! 0 \<and> ub_seq_id ub ! i ! 0 < LLAMA_MAX_SEQ))
      (\<lambda>_. Some (m(ub_seq_id ub ! i ! 0 := min (m (ub_seq_id ub ! i ! 0)) (ub_pos ub ! i)))) = Some m' \<and>
      (\<forall>k < Suc i. m' (ub_seq_id ub ! k ! 0) \<le> ub_pos ub ! k)"
    using assms by (auto simp: less_Suc_eq min.coboundedI1)
qed simp

lemma kq_impl_spec:
  assumes ok: "kq_ok fl a" and rows: "rows_ok fl a 0 rows"
  shows "\<exists>rows'. set_input_kq_mask_impl fl a rows = Some rows' \<and> rows_ok fl a (ub_n_tokens (ka_ubatch a)) rows'"
proof -
  obtain pmin where pmin: "kq_pos_min (ka_ubatch a) = Some pmin"
    "\<forall>k < ub_n_tokens (ka_ubatch a). pmin (kq_seq a k) \<le> ub_pos (ka_ubatch a) ! k"
    using kq_pos_min_spec [of "ka_ubatch a"] ok by (auto simp: kq_ok_def kq_seq_def)
  have "\<exists>rows'. ofold (kq_stream fl a pmin) [0..<ka_n_stream a] rows = Some rows' \<and>
      rows_ok fl a (ka_n_stream a * ka_n_tps a) rows'"
    by (rule ofold_upt_inv [where I = "\<lambda>s. rows_ok fl a (s * ka_n_tps a)"])
      (use rows kq_stream_step [OF ok _ pmin(2)] in auto)
  then show ?thesis using pmin(1) ok by (simp add: set_input_kq_mask_impl_def kq_ok_def)
qed

subsection \<open>Properties\<close>

definition mask_ub_ok :: "kv_cache \<Rightarrow> llama_ubatch \<Rightarrow> bool" where
  "mask_ub_ok kv ub \<longleftrightarrow> (\<forall>i < ub_n_tokens ub. seq_ok kv (ub_seq_id ub ! i ! 0) \<and> 0 \<le> ub_pos ub ! i)"

text \<open>The entry of the mask as a direct test on the cells of the token's stream.\<close>

definition mask_entry :: "bool \<Rightarrow> bool \<Rightarrow> llama_ubatch \<Rightarrow> kv_cache \<Rightarrow> nat \<Rightarrow> nat \<Rightarrow> mask_val" where
  "mask_entry use_alibi causal_attn ub kv i j =
     (let seq_id = ub_seq_id ub ! i ! 0; p1 = ub_pos ub ! i in
      case cells_cell (kv_cells kv ! strm kv seq_id) j of (p0, e, _, S) \<Rightarrow>
        if p0 \<noteq> -1 \<and> seq_id \<in> S \<and> is_masked_swa (kv_n_swa kv) (kv_swa_type kv) p0 p1 = Some False \<and>
          (causal_attn \<longrightarrow> p0 < p1 \<or> p0 = p1 \<and>
             \<not> (is_pos_2d ub \<and> is_2d_gt e (ub_pos ub ! (i + ub_n_tokens ub * 2)) (ub_pos ub ! (i + ub_n_tokens ub))))
        then if use_alibi then Mask_alibi (- \<bar>p0 - p1\<bar>) else Mask_keep
        else Mask_drop)"

lemma kq_mask_entry:
  assumes g: "cache_inv kv" and a: "a = \<lparr>ka_ubatch = ub, ka_cells = kv_cells kv, ka_seq_to_stream = kv_seq_to_stream kv,
      ka_n_swa = kv_n_swa kv, ka_swa_type = kv_swa_type kv, ka_n_kv = n_kv, ka_n_stream = ns, ka_n_tps = nt\<rparr>"
    and i: "seq_ok kv (ub_seq_id ub ! i ! 0)" "0 \<le> ub_pos ub ! i" and j: "j < kv_size kv"
  shows "kq_value (kq_dispatch use_alibi causal a) a i j = mask_entry use_alibi causal ub kv i j"
proof -
  let ?s = "ub_seq_id ub ! i ! 0"
  have c: "kq_cells a i = kv_cells kv ! strm kv ?s" "kq_seq a i = ?s" by (simp_all add: kq_cells_def kq_seq_def a strm_def)
  let ?c = "kv_cells kv ! strm kv ?s"
  have t: "strm kv ?s < kv_n_stream kv" using cache_invD(9) [OF g i(1)] .
  have p: "kc_pos ?c ! j = -1 \<or> 0 \<le> kc_pos ?c ! j"
    using cells_inv_pos [OF cache_invD(5) [OF g t]] cache_invD(6) [OF g t] j by simp
  let ?m = "is_masked_swa (kv_n_swa kv) (kv_swa_type kv) (kc_pos ?c ! j) (ub_pos ub ! i) = Some False"
  have order: "(x \<le> y \<and> (b \<and> x = y \<longrightarrow> \<not> h)) = (x < y \<or> x = y \<and> \<not> (b \<and> h))" for x y :: int and b h by auto
  show ?thesis
  proof (cases "kc_pos ?c ! j = -1")
    case True
    then show ?thesis by (simp add: kq_value_def kq_attends_def mask_entry_def c Let_def cells_cell_def)
  next
    case False
    then have "(kv_swa_type kv \<noteq> Swa_none \<longrightarrow> ?m) = ?m"
      using p i(2) by (cases "kv_swa_type kv") (simp_all add: is_masked_swa_def assrt_def)
    with False have "kq_attends (kq_dispatch use_alibi causal a) a i j \<longleftrightarrow> ?s \<in> kc_seq ?c ! j \<and> ?m \<and>
        (causal \<longrightarrow> kc_pos ?c ! j < ub_pos ub ! i \<or> kc_pos ?c ! j = ub_pos ub ! i \<and> \<not> (is_pos_2d ub \<and>
          is_2d_gt (kc_ext ?c ! j) (ub_pos ub ! (i + ub_n_tokens ub * 2)) (ub_pos ub ! (i + ub_n_tokens ub))))"
      unfolding kq_attends_def Let_def c kq_dispatch_def order by (simp add: a conj_commute)
    then show ?thesis using False
      by (simp add: kq_value_def mask_entry_def c Let_def cells_cell_def) (simp add: a kq_dispatch_def)
  qed
qed

lemma kq_mask_run:
  assumes g: "cache_inv kv" "swa_ok kv" and ub: "mask_ub_ok kv ub" and n: "n_kv \<le> kv_size kv" "0 < n_stream" "ub_n_tokens ub mod n_stream = 0"
    and rows: "length rows = ub_n_tokens ub" "\<forall>i < length rows. length (rows ! i) = n_kv"
  shows "\<exists>mask. set_input_kq_mask use_alibi causal n_kv n_stream ub kv rows = Some mask \<and> length mask = ub_n_tokens ub \<and>
    (\<forall>i < ub_n_tokens ub. mask ! i = map (mask_entry use_alibi causal ub kv i) [0..<n_kv])"
proof -
  define a where "a = \<lparr>ka_ubatch = ub, ka_cells = kv_cells kv, ka_seq_to_stream = kv_seq_to_stream kv,
      ka_n_swa = kv_n_swa kv, ka_swa_type = kv_swa_type kv, ka_n_kv = n_kv, ka_n_stream = n_stream,
      ka_n_tps = ub_n_tokens ub div n_stream\<rparr>"
  let ?fl = "kq_dispatch use_alibi causal a"
  note D = cache_invD [OF g(1)]
  have tok: "seq_ok kv (kq_seq a i)" "0 \<le> ub_pos ub ! i" if "i < ub_n_tokens ub" for i
    using ub that by (simp_all add: mask_ub_ok_def kq_seq_def a_def)
  have "kq_ok ?fl a"
    unfolding kq_ok_def
  proof (intro conjI allI impI)
    show "ka_swa_type a = Swa_chunked \<Longrightarrow> ka_n_swa a \<noteq> 0" using g(2) by (simp add: a_def swa_ok_def)
    show "kf_swa ?fl = (ka_swa_type a \<noteq> Swa_none)" by (simp add: kq_dispatch_def)
    show "ka_n_stream a * ka_n_tps a = ub_n_tokens (ka_ubatch a)" using n by (simp add: a_def mult.commute [of n_stream] mod_0_imp_dvd)
    fix i assume "i < ub_n_tokens (ka_ubatch a)"
    then have i: "i < ub_n_tokens ub" by (simp add: a_def)
    let ?s = "kq_seq a i"
    have t: "strm kv ?s < kv_n_stream kv" using D(9) [OF tok(1) [OF i]] .
    have c: "kq_cells a i = kv_cells kv ! strm kv ?s" by (simp add: kq_cells_def a_def strm_def)
    show "0 \<le> ?s" "?s < LLAMA_MAX_SEQ" using D(10,11) [OF tok(1) [OF i]] .
    show "?s < int (length (ka_seq_to_stream a))" using tok(1) [OF i] by (simp add: seq_ok_def a_def)
    show "ka_seq_to_stream a ! nat ?s < length (ka_cells a)" using t D(3) by (simp add: a_def strm_def)
    show "cells_inv (kq_cells a i)" "ka_n_kv a \<le> cells_size (kq_cells a i)" unfolding c using D(5,6) [OF t] n(1) by (simp_all add: a_def)
    show "0 \<le> ub_pos (ka_ubatch a) ! i" using tok(2) [OF i] by (simp add: a_def)
  qed
  moreover have "rows_ok ?fl a 0 rows" using rows by (simp add: rows_ok_def a_def)
  ultimately obtain mask where mask: "set_input_kq_mask_impl ?fl a rows = Some mask" "rows_ok ?fl a (ub_n_tokens (ka_ubatch a)) mask"
    using kq_impl_spec by blast
  have run: "set_input_kq_mask use_alibi causal n_kv n_stream ub kv rows = Some mask"
    using mask(1) n by (simp add: set_input_kq_mask_def a_def)
  have M: "length mask = ub_n_tokens ub" "\<And>i. i < ub_n_tokens ub \<Longrightarrow> length (mask ! i) = n_kv"
    "\<And>i j. i < ub_n_tokens ub \<Longrightarrow> j < n_kv \<Longrightarrow> mask ! i ! j = kq_value ?fl a i j"
    using mask(2) by (auto simp: rows_ok_def a_def)
  have "mask ! i = map (mask_entry use_alibi causal ub kv i) [0..<n_kv]" if i: "i < ub_n_tokens ub" for i
  proof (rule nth_equalityI)
    fix j assume "j < length (mask ! i)"
    then have j: "j < n_kv" using M(2) [OF i] by simp
    have "kq_value ?fl a i j = mask_entry use_alibi causal ub kv i j"
      by (rule kq_mask_entry [OF g(1) a_def]) (use tok [OF i] j n(1) in \<open>simp_all add: kq_seq_def a_def\<close>)
    then show "mask ! i ! j = map (mask_entry use_alibi causal ub kv i) [0..<n_kv] ! j" using M(3) [OF i j] j by simp
  qed (use M(2) [OF i] in simp)
  then show ?thesis using run M(1) by blast
qed

text \<open>
  C33: Filling the mask on a reachable cache fails no assertion, and every entry is what a direct test
  of the one cell for the one token gives: the shortcut that copies the row of an earlier token of
  the sequence and revisits only some cells changes nothing.
\<close>

theorem kq_mask_exact:
  assumes "kv_reachable kv" and "mask_ub_ok kv ub" and "n_kv \<le> kv_size kv" "0 < n_stream" "ub_n_tokens ub mod n_stream = 0"
    and "length rows = ub_n_tokens ub" "\<forall>i < length rows. length (rows ! i) = n_kv"
  shows "\<exists>mask. set_input_kq_mask use_alibi causal n_kv n_stream ub kv rows = Some mask \<and> length mask = ub_n_tokens ub \<and>
    (\<forall>i < ub_n_tokens ub. mask ! i = map (mask_entry use_alibi causal ub kv i) [0..<n_kv])"
  using kq_mask_run [OF _ _ assms(2-)] kv_reachable_good [OF assms(1)] by (simp add: kv_good_def)

lemma small_mask_ub: "mask_ub_ok small_kv (one_token 3 [1])"
  using small_kv_seq_ok [of 1] by (simp add: mask_ub_ok_def one_token_def)

lemma kq_mask_exact_witness:
  "\<exists>mask. set_input_kq_mask False True 4 1 (one_token 3 [1]) small_kv [replicate 4 Mask_drop] = Some mask \<and>
    length mask = ub_n_tokens (one_token 3 [1]) \<and>
    (\<forall>i < ub_n_tokens (one_token 3 [1]). mask ! i = map (mask_entry False True (one_token 3 [1]) small_kv i) [0..<4])"
  by (rule kq_mask_exact [OF small_kv_reachable small_mask_ub])
    (use small_kv_facts(2) in \<open>simp_all add: one_token_def ubatch_none_def\<close>)

text \<open>
  C34: With \<open>n_kv\<close> from \<open>get_n_kv\<close> the mask shows a token exactly the positions of its sequence in the
  cache that are inside its window and, with causal attention, not after it: no occupied cell is
  cut off and no cell of another sequence is shown.
\<close>

theorem kq_mask_shows_sequence:
  assumes r: "kv_reachable kv" and ub: "mask_ub_ok kv ub" "\<not> is_pos_2d ub" and si: "\<forall>t \<in> set (si_strm si). t < kv_n_stream kv"
    and n_kv: "kv_n_pad kv = 2 ^ k" "kv_get_n_kv si kv = Some n_kv"
    and ns: "0 < n_stream" "ub_n_tokens ub mod n_stream = 0"
    and rows: "length rows = ub_n_tokens ub" "\<forall>i < length rows. length (rows ! i) = n_kv"
    and i: "i < ub_n_tokens ub" "strm kv (ub_seq_id ub ! i ! 0) \<in> set (si_strm si)"
  defines "q \<equiv> ub_seq_id ub ! i ! 0" and "p1 \<equiv> ub_pos ub ! i"
  shows "\<exists>mask. set_input_kq_mask use_alibi causal n_kv n_stream ub kv rows = Some mask \<and>
    {kc_pos (kv_cells kv ! strm kv q) ! j | j. j < n_kv \<and> mask ! i ! j \<noteq> Mask_drop} =
    {p \<in> seq_view kv q. (causal \<longrightarrow> p \<le> p1) \<and> is_masked_swa (kv_n_swa kv) (kv_swa_type kv) p p1 = Some False}"
proof -
  have inv: "cache_inv kv" and swa: "swa_ok kv" using kv_reachable_good [OF r] by (simp_all add: kv_good_def)
  obtain n where "kv_get_n_kv si kv = Some n" "n \<le> kv_size kv"
    "\<forall>t \<in> set (si_strm si). \<forall>i < kv_size kv. cell_at kv (t, i) \<noteq> (-1, snd (cell_at kv (t, i))) \<longrightarrow> i < n"
    using kv_get_n_kv_spec [OF inv si n_kv(1)] by blast
  then have n: "n_kv \<le> kv_size kv" and cover: "\<And>j. j < kv_size kv \<Longrightarrow> kc_pos (kv_cells kv ! strm kv q) ! j \<noteq> -1 \<Longrightarrow> j < n_kv"
    using n_kv(2) i(2) by (auto simp: cell_at_def cells_cell_def q_def)
  obtain mask where mask: "set_input_kq_mask use_alibi causal n_kv n_stream ub kv rows = Some mask"
    "mask ! i = map (mask_entry use_alibi causal ub kv i) [0..<n_kv]"
    using kq_mask_run [OF inv swa ub(1) n ns rows] i(1) by blast
  have q: "seq_ok kv q" using ub(1) i(1) by (simp add: mask_ub_ok_def q_def)
  let ?c = "kv_cells kv ! strm kv q"
  have keep: "mask ! i ! j \<noteq> Mask_drop \<longleftrightarrow> kc_pos ?c ! j \<noteq> -1 \<and> q \<in> kc_seq ?c ! j \<and>
      is_masked_swa (kv_n_swa kv) (kv_swa_type kv) (kc_pos ?c ! j) p1 = Some False \<and> (causal \<longrightarrow> kc_pos ?c ! j \<le> p1)"
    if "j < n_kv" for j
    using that ub(2) by (auto simp: mask(2) mask_entry_def Let_def cells_cell_def q_def p1_def)
  have view: "p \<in> seq_view kv q \<longleftrightarrow> (\<exists>j < n_kv. kc_pos ?c ! j = p \<and> kc_pos ?c ! j \<noteq> -1 \<and> q \<in> kc_seq ?c ! j)" for p
  proof -
    have t: "strm kv q < kv_n_stream kv" using cache_invD(9) [OF inv q] .
    have ne: "kc_pos ?c ! j \<noteq> -1" if "j < kv_size kv" "q \<in> kc_seq ?c ! j" for j
      using cells_invD(7) [OF cache_invD(5) [OF inv t], of j] that cache_invD(6) [OF inv t] by auto
    have "p \<in> seq_view kv q \<longleftrightarrow> (\<exists>j < kv_size kv. kc_pos ?c ! j = p \<and> q \<in> kc_seq ?c ! j)"
      by (auto simp: seq_view_def cells_cell_def)
    also have "\<dots> \<longleftrightarrow> (\<exists>j < n_kv. kc_pos ?c ! j = p \<and> kc_pos ?c ! j \<noteq> -1 \<and> q \<in> kc_seq ?c ! j)"
      using ne cover less_le_trans [OF _ n] by blast
    finally show ?thesis .
  qed
  let ?m = "\<lambda>p. is_masked_swa (kv_n_swa kv) (kv_swa_type kv) p p1 = Some False"
  have "x \<in> {kc_pos ?c ! j | j. j < n_kv \<and> mask ! i ! j \<noteq> Mask_drop} \<longleftrightarrow>
      x \<in> {p \<in> seq_view kv q. (causal \<longrightarrow> p \<le> p1) \<and> ?m p}" for x
  proof -
    have "x \<in> {kc_pos ?c ! j | j. j < n_kv \<and> mask ! i ! j \<noteq> Mask_drop} \<longleftrightarrow>
        (\<exists>j < n_kv. x = kc_pos ?c ! j \<and> kc_pos ?c ! j \<noteq> -1 \<and> q \<in> kc_seq ?c ! j \<and> ?m (kc_pos ?c ! j) \<and>
          (causal \<longrightarrow> kc_pos ?c ! j \<le> p1))"
      unfolding mem_Collect_eq using keep by blast
    also have "\<dots> \<longleftrightarrow> x \<in> seq_view kv q \<and> (causal \<longrightarrow> x \<le> p1) \<and> ?m x" unfolding view by blast
    finally show ?thesis by blast
  qed
  then show ?thesis using mask(1) by blast
qed

lemma small_kv1_pad: "kv_n_pad small_kv1 = 2 ^ 0"
proof -
  have "kv_n_pad small_kv = 1" by code_simp
  then show ?thesis using same_configD(8) [OF small_kv1_facts(2)] by simp
qed

lemma prompt_streams_ok: "si_strm prompt_slot_info = [0]" "kv_n_stream small_kv1 = 1"
proof -
  show "si_strm prompt_slot_info = [0]"
    using prompt_slot_ok(2) prompt_streams(1) by (simp add: slot_ok_def Let_def ub_streams_def)
  show "kv_n_stream small_kv1 = 1" using small_kv1_facts(1) by (simp add: unified_inv_def)
qed

lemma kq_mask_shows_sequence_witness:
  "\<exists>n mask. kv_get_n_kv prompt_slot_info small_kv1 = Some n \<and>
    set_input_kq_mask False True n 1 (one_token 3 [0]) small_kv1 [replicate n Mask_drop] = Some mask \<and>
    {kc_pos (kv_cells small_kv1 ! strm small_kv1 (ub_seq_id (one_token 3 [0]) ! 0 ! 0)) ! j | j. j < n \<and> mask ! 0 ! j \<noteq> Mask_drop} =
    {p \<in> seq_view small_kv1 (ub_seq_id (one_token 3 [0]) ! 0 ! 0). (True \<longrightarrow> p \<le> ub_pos (one_token 3 [0]) ! 0) \<and>
      is_masked_swa (kv_n_swa small_kv1) (kv_swa_type small_kv1) p (ub_pos (one_token 3 [0]) ! 0) = Some False}"
proof -
  have strm: "\<forall>t \<in> set (si_strm prompt_slot_info). t < kv_n_stream small_kv1" by (simp add: prompt_streams_ok)
  have inv: "cache_inv small_kv1" using small_kv1_facts(1) by (simp add: unified_inv_def)
  obtain n where n: "kv_get_n_kv prompt_slot_info small_kv1 = Some n"
    using kv_get_n_kv_spec [OF inv strm small_kv1_pad] by blast
  have ub: "mask_ub_ok small_kv1 (one_token 3 [0])"
    using small_kv1_facts(3) [of 0] by (simp add: mask_ub_ok_def one_token_def)
  have "strm small_kv1 0 = 0" using unified_strm [OF small_kv1_facts(1,3), of 0] by simp
  then have "strm small_kv1 (ub_seq_id (one_token 3 [0]) ! 0 ! 0) \<in> set (si_strm prompt_slot_info)"
    by (simp add: prompt_streams_ok one_token_def)
  then have "\<exists>mask. set_input_kq_mask False True n 1 (one_token 3 [0]) small_kv1 [replicate n Mask_drop] = Some mask \<and>
    {kc_pos (kv_cells small_kv1 ! strm small_kv1 (ub_seq_id (one_token 3 [0]) ! 0 ! 0)) ! j | j. j < n \<and> mask ! 0 ! j \<noteq> Mask_drop} =
    {p \<in> seq_view small_kv1 (ub_seq_id (one_token 3 [0]) ! 0 ! 0). (True \<longrightarrow> p \<le> ub_pos (one_token 3 [0]) ! 0) \<and>
      is_masked_swa (kv_n_swa small_kv1) (kv_swa_type small_kv1) p (ub_pos (one_token 3 [0]) ! 0) = Some False}"
    by (intro kq_mask_shows_sequence [OF small_kv1_reachable ub _ strm small_kv1_pad n])
      (simp_all add: is_pos_2d_def one_token_def ubatch_none_def)
  with n show ?thesis by blast
qed

end
