(* ===== verification/StateIo.thy ===== *)
theory StateIo
  imports Prelude
begin

section \<open>Saved state as bytes (\<open>src/llama-io.h\<close>, the host buffers of \<open>src/llama-context.cpp\<close>)\<close>

text \<open>
  The memory modules save themselves through \<open>llama_io_write_i\<close> and load through
  \<open>llama_io_read_i\<close>. A module that saves emits a list of chunks, values and parts of tensors, which
  a writer counts or copies into a buffer; one that loads takes bytes from the front of a buffer.
  Values are little-endian, as \<open>memcpy\<close> lays them out on the supported hosts. \<open>None\<close> is the
  \<open>std::runtime_error\<close> at the end of a buffer.
\<close>

type_synonym bytes = "8 word list"

subsection \<open>Values\<close>

fun le_bytes :: "nat \<Rightarrow> nat \<Rightarrow> bytes" where
  "le_bytes 0 n = []"
| "le_bytes (Suc k) n = word_of_nat n # le_bytes k (n div 256)"

fun le_nat :: "bytes \<Rightarrow> nat" where
  "le_nat [] = 0"
| "le_nat (b # bs) = unat b + 256 * le_nat bs"

lemma length_le_bytes [simp]: "length (le_bytes k n) = k"
  by (induction k n rule: le_bytes.induct) auto

lemma le_nat_le_bytes: "le_nat (le_bytes k n) = n mod 256 ^ k"
proof (induction k n rule: le_bytes.induct)
  case (2 k n)
  have "unat (word_of_nat n :: 8 word) = n mod 256" by (simp add: unat_of_nat)
  then show ?case using 2 by (simp add: mod_mult2_eq)
qed simp

definition put_u32 :: "nat \<Rightarrow> bytes" where
  "put_u32 n = le_bytes 4 n"

definition put_u64 :: "nat \<Rightarrow> bytes" where
  "put_u64 n = le_bytes 8 n"

definition put_i32 :: "int \<Rightarrow> bytes" where
  "put_i32 x = le_bytes 4 (nat (x mod 2 ^ 32))"

definition of_u32 :: "nat \<Rightarrow> int" where
  "of_u32 n = (if n < 2 ^ 31 then int n else int n - 2 ^ 32)"

definition is_i32 :: "int \<Rightarrow> bool" where
  "is_i32 x \<longleftrightarrow> - (2 ^ 31) \<le> x \<and> x < 2 ^ 31"

lemma put_lengths [simp]: "length (put_u32 n) = 4" "length (put_u64 n) = 8" "length (put_i32 x) = 4"
  by (simp_all add: put_u32_def put_u64_def put_i32_def)

lemma of_u32_put: "is_i32 x \<Longrightarrow> of_u32 (le_nat (put_i32 x)) = x"
proof -
  assume x: "is_i32 x"
  have "nat (x mod 2 ^ 32) < 256 ^ 4" by simp
  then have "le_nat (put_i32 x) = nat (x mod 2 ^ 32)" by (simp add: put_i32_def le_nat_le_bytes)
  moreover have "x mod 2 ^ 32 = (if x < 0 then x + 2 ^ 32 else x)"
  proof (cases "x < 0")
    case True
    have "(x + 2 ^ 32) mod 2 ^ 32 = x + 2 ^ 32" using x True by (intro mod_pos_pos_trivial) (simp_all add: is_i32_def)
    with True show ?thesis by simp
  next
    case False
    then show ?thesis using x by (simp add: is_i32_def)
  qed
  ultimately show ?thesis using x by (auto simp: of_u32_def is_i32_def)
qed

lemma le_nat_put_u32: "n < 2 ^ 32 \<Longrightarrow> le_nat (put_u32 n) = n"
  by (simp add: put_u32_def le_nat_le_bytes)

lemma le_nat_put_u64: "n < 2 ^ 64 \<Longrightarrow> le_nat (put_u64 n) = n"
  by (simp add: put_u64_def le_nat_le_bytes)

subsection \<open>Writers\<close>

datatype io_chunk = Io_value bytes | Io_tensor bytes

fun chunk_bytes :: "io_chunk \<Rightarrow> bytes" where
  "chunk_bytes (Io_value b) = b"
| "chunk_bytes (Io_tensor b) = b"

definition emitted :: "io_chunk list \<Rightarrow> bytes" where
  "emitted cs = concat (map chunk_bytes cs)"

text \<open>\<open>llama_io_write_dummy\<close> counts.\<close>

definition dummy_write :: "bool \<Rightarrow> io_chunk \<Rightarrow> nat \<Rightarrow> nat" where
  "dummy_write skip_tensors c size_written =
     (case c of Io_value b \<Rightarrow> size_written + length b
      | Io_tensor b \<Rightarrow> if skip_tensors then size_written else size_written + length b)"

text \<open>
  \<open>llama_io_write_host\<close> copies. It fetches the tensors when it is destroyed; they do not change in
  between, so the model copies at once.
\<close>

record io_writer =
  iw_out :: bytes
  iw_room :: nat
  iw_written :: nat

definition host_write :: "io_chunk \<Rightarrow> io_writer \<Rightarrow> io_writer option" where
  "host_write c w = (let b = chunk_bytes c in
     if length b > iw_room w then None
     else Some (w\<lparr>iw_out := iw_out w @ b, iw_written := iw_written w + length b, iw_room := iw_room w - length b\<rparr>))"

lemma emitted_Nil [simp]: "emitted [] = []"
  by (simp add: emitted_def)

lemma emitted_Cons [simp]: "emitted (c # cs) = chunk_bytes c @ emitted cs"
  by (simp add: emitted_def)

lemma emitted_append [simp]: "emitted (cs @ ds) = emitted cs @ emitted ds"
  by (simp add: emitted_def)

lemma emitted_concat: "emitted (concat css) = concat (map emitted css)"
  by (induction css) simp_all

lemma dummy_writes: "fold (dummy_write False) cs n = n + length (emitted cs)"
  by (induction cs arbitrary: n) (auto simp: dummy_write_def split: io_chunk.splits)

lemma host_writes:
  "ofold host_write cs w = (if length (emitted cs) \<le> iw_room w
     then Some (w\<lparr>iw_out := iw_out w @ emitted cs, iw_written := iw_written w + length (emitted cs),
       iw_room := iw_room w - length (emitted cs)\<rparr>) else None)"
  by (induction cs arbitrary: w) (auto simp: host_write_def Let_def)

text \<open>
  The size a dry run with \<open>llama_io_write_dummy\<close> counts is exactly the room
  \<open>llama_io_write_host\<close> needs: with that much room it writes everything and ends with none left,
  with less it throws.
\<close>

theorem dummy_size_exact:
  "ofold host_write cs \<lparr>iw_out = [], iw_room = n, iw_written = 0\<rparr> =
    (if fold (dummy_write False) cs 0 \<le> n
     then Some \<lparr>iw_out = emitted cs, iw_room = n - fold (dummy_write False) cs 0, iw_written = fold (dummy_write False) cs 0\<rparr>
     else None)"
  by (simp add: host_writes dummy_writes)

subsection \<open>Readers\<close>

record io_reader =
  ir_buf :: bytes
  ir_read :: nat

definition host_read :: "nat \<Rightarrow> io_reader \<Rightarrow> (bytes \<times> io_reader) option" where
  "host_read sz r =
     (if sz > length (ir_buf r) then None
      else Some (take sz (ir_buf r), r\<lparr>ir_buf := drop sz (ir_buf r), ir_read := ir_read r + sz\<rparr>))"

definition get_u32 :: "io_reader \<Rightarrow> (nat \<times> io_reader) option" where
  "get_u32 r = do { (b, r) \<leftarrow> host_read 4 r; Some (le_nat b, r) }"

definition get_u64 :: "io_reader \<Rightarrow> (nat \<times> io_reader) option" where
  "get_u64 r = do { (b, r) \<leftarrow> host_read 8 r; Some (le_nat b, r) }"

definition get_i32 :: "io_reader \<Rightarrow> (int \<times> io_reader) option" where
  "get_i32 r = do { (b, r) \<leftarrow> host_read 4 r; Some (of_u32 (le_nat b), r) }"

text \<open>A reader in front of given bytes.\<close>

definition reader :: "bytes \<Rightarrow> nat \<Rightarrow> io_reader" where
  "reader b n = \<lparr>ir_buf = b, ir_read = n\<rparr>"

lemma host_read_reader: "length b = k \<Longrightarrow> host_read k (reader (b @ rest) n) = Some (b, reader rest (n + k))"
  by (simp add: host_read_def reader_def)

lemma get_u32_reader: "x < 2 ^ 32 \<Longrightarrow> get_u32 (reader (put_u32 x @ rest) n) = Some (x, reader rest (n + 4))"
  by (simp add: get_u32_def host_read_reader le_nat_put_u32)

lemma get_u64_reader: "x < 2 ^ 64 \<Longrightarrow> get_u64 (reader (put_u64 x @ rest) n) = Some (x, reader rest (n + 8))"
  by (simp add: get_u64_def host_read_reader le_nat_put_u64)

lemma get_i32_reader: "is_i32 x \<Longrightarrow> get_i32 (reader (put_i32 x @ rest) n) = Some (x, reader rest (n + 4))"
  by (simp add: get_i32_def host_read_reader of_u32_put)

subsection \<open>Strings (\<open>src/llama-io.cpp\<close>)\<close>

definition write_string :: "bytes \<Rightarrow> io_chunk list" where
  "write_string str = [Io_value (put_u32 (length str)), Io_value str]"

definition read_string :: "io_reader \<Rightarrow> (bytes \<times> io_reader) option" where
  "read_string r = do {
     (str_size, r) \<leftarrow> get_u32 r;
     host_read str_size r }"

text \<open>A string of less than \<open>2^32\<close> bytes is read back as it was written, and nothing after it is consumed.\<close>

theorem read_string_write_string:
  assumes "length str < 2 ^ 32"
  shows "read_string (reader (emitted (write_string str) @ rest) n) = Some (str, reader rest (n + 4 + length str))"
  using assms by (simp add: read_string_def write_string_def get_u32_reader host_read_reader)

lemma read_string_write_string_witness:
  "read_string (reader (emitted (write_string [104, 105]) @ [7]) 0) = Some ([104, 105], reader [7] 6)"
  using read_string_write_string [of "[104, 105]" "[7]" 0] by simp

subsection \<open>Tensors as bytes\<close>

text \<open>\<open>ggml_backend_tensor_get\<close> and \<open>_set\<close> assert that the range is inside the tensor.\<close>

definition tensor_get :: "bytes \<Rightarrow> nat \<Rightarrow> nat \<Rightarrow> bytes option" where
  "tensor_get t off sz = (if off + sz \<le> length t then Some (take sz (drop off t)) else None)"

definition tensor_set :: "bytes \<Rightarrow> nat \<Rightarrow> bytes \<Rightarrow> bytes option" where
  "tensor_set t off b = (if off + length b \<le> length t then Some (take off t @ b @ drop (off + length b) t) else None)"

end
