(* ===== verification/KvState.thy ===== *)
theory KvState
  imports KvProps StateIo
begin

section \<open>Saving and restoring the KV cache (\<open>llama_kv_cache::state_write\<close>, \<open>state_read\<close>)\<close>

text \<open>
  The cells of one sequence, or of the whole cache, with the rows of the K and V tensors that belong
  to them. The tensors of a layer are byte lists, one per stream, with the sizes \<open>ggml_row_size\<close>
  and \<open>ggml_type_size\<close> give for their types as fields. A read has three outcomes beside a failed
  assertion: success, \<open>return false\<close>, and an exception.
\<close>

record kv_layer =
  ly_k_type :: int
  ly_k_row :: nat
  ly_k :: "bytes list"
  ly_v_type :: int
  ly_v_row :: nat
  ly_v_el :: nat
  ly_n_embd_v :: nat
  ly_v :: "bytes list option"

record kv_full =
  fv_kv :: kv_cache
  fv_layers :: "kv_layer list"
  fv_v_trans :: bool

datatype io_res = Io_ok | Io_false | Io_throw

subsection \<open>Writing\<close>

text \<open>Which cells are saved: those of the sequence that are not masked, or all with \<open>-1\<close>.\<close>

definition save_cell :: "kv_cache \<Rightarrow> llama_seq_id \<Rightarrow> kv_cells \<Rightarrow> nat \<Rightarrow> bool option" where
  "save_cell kv seq_id c i = do {
     e \<leftarrow> cells_is_empty i c;
     if e then Some False else do {
     h \<leftarrow> (if seq_id = -1 then Some True else cells_seq_has i seq_id c);
     if h \<and> seq_id \<noteq> -1 then do {
       p \<leftarrow> cells_pos_get i c;
       mx \<leftarrow> cells_seq_pos_max seq_id c;
       is_masked \<leftarrow> is_masked_swa (kv_n_swa kv) (kv_swa_type kv) p mx;
       Some (\<not> is_masked) }
     else Some h } }"

definition range_step :: "(nat \<Rightarrow> bool option) \<Rightarrow> nat \<Rightarrow> nat \<Rightarrow> (nat \<times> nat) list \<times> nat \<times> nat \<Rightarrow>
    ((nat \<times> nat) list \<times> nat \<times> nat) option" where
  "range_step add sz i st = (case st of (rs, cell_range_begin, cell_count) \<Rightarrow> do {
     add_cell \<leftarrow> add i;
     Some (if add_cell then (rs, (if cell_range_begin = sz then i else cell_range_begin), cell_count + 1)
           else if cell_range_begin \<noteq> sz then (rs @ [(cell_range_begin, i)], sz, cell_count)
           else (rs, cell_range_begin, cell_count)) })"

definition cell_ranges :: "kv_cache \<Rightarrow> llama_seq_id \<Rightarrow> kv_cells \<Rightarrow> (nat \<times> (nat \<times> nat) list) option" where
  "cell_ranges kv seq_id c = do {
     (rs, cell_range_begin, cell_count) \<leftarrow>
       ofold (range_step (save_cell kv seq_id c) (cells_size c)) [0..<cells_size c] ([], cells_size c, 0);
     let rs = (if cell_range_begin \<noteq> cells_size c then rs @ [(cell_range_begin, cells_size c)] else rs);
     assrt (cell_count = sum_list (map (\<lambda>(a, b). b - a) rs));
     Some (cell_count, rs) }"

definition put_ext :: "kv_cell_ext \<Rightarrow> bytes" where
  "put_ext e = put_i32 (ext_x e) @ put_i32 (ext_y e)"

definition write_meta_cell :: "kv_cache \<Rightarrow> llama_seq_id \<Rightarrow> kv_cells \<Rightarrow> nat \<Rightarrow> io_chunk list option" where
  "write_meta_cell kv seq_id c i = do {
     seq_ids \<leftarrow> ofold (\<lambda>cur ids.
         if cur = seq_id \<or> seq_id = -1 then do {
           h \<leftarrow> cells_seq_has i cur c;
           Some (if h then ids @ [cur] else ids) }
         else Some ids)
       (map int [0..<kv_n_seq_max kv]) [];
     pos \<leftarrow> cells_pos_get i c;
     ext \<leftarrow> (if kv_n_pos kv > 1 then do { e \<leftarrow> cells_ext_get i c; Some [Io_value (put_ext e)] } else Some []);
     Some ([Io_value (put_i32 pos), Io_value (put_u32 (length seq_ids))] @ ext @ map (\<lambda>s. Io_value (put_i32 s)) seq_ids) }"

definition emit_over :: "('a \<Rightarrow> io_chunk list option) \<Rightarrow> 'a list \<Rightarrow> io_chunk list option" where
  "emit_over f xs = ofold (\<lambda>x out. do { cs \<leftarrow> f x; Some (out @ cs) }) xs []"

definition state_write_meta :: "kv_cache \<Rightarrow> nat \<Rightarrow> (nat \<times> nat) list \<Rightarrow> llama_seq_id \<Rightarrow> io_chunk list option" where
  "state_write_meta kv sm cr seq_id = do {
     c \<leftarrow> at_idx (kv_cells kv) sm;
     emit_over (\<lambda>(a, b). emit_over (write_meta_cell kv seq_id c) [a..<b]) cr }"

definition write_ranges :: "bytes \<Rightarrow> nat \<Rightarrow> nat \<Rightarrow> (nat \<times> nat) list \<Rightarrow> io_chunk list option" where
  "write_ranges t off unit_sz cr = emit_over (\<lambda>(a, b). do {
     x \<leftarrow> tensor_get t ((off + a) * unit_sz) ((b - a) * unit_sz);
     Some [Io_tensor x] }) cr"

definition write_k_layer :: "nat \<Rightarrow> (nat \<times> nat) list \<Rightarrow> kv_layer \<Rightarrow> io_chunk list option" where
  "write_k_layer sm cr ly = do {
     k \<leftarrow> at_idx (ly_k ly) sm;
     rows \<leftarrow> write_ranges k 0 (ly_k_row ly) cr;
     Some ([Io_value (put_i32 (ly_k_type ly)), Io_value (put_u64 (ly_k_row ly))] @ rows) }"

definition write_v_layer :: "nat \<Rightarrow> (nat \<times> nat) list \<Rightarrow> kv_layer \<Rightarrow> io_chunk list option" where
  "write_v_layer sm cr ly = (case ly_v ly of None \<Rightarrow> Some [] | Some vs \<Rightarrow> do {
     v \<leftarrow> at_idx vs sm;
     rows \<leftarrow> write_ranges v 0 (ly_v_row ly) cr;
     Some ([Io_value (put_i32 (ly_v_type ly)), Io_value (put_u64 (ly_v_row ly))] @ rows) })"

definition write_v_trans_layer :: "nat \<Rightarrow> nat \<Rightarrow> (nat \<times> nat) list \<Rightarrow> kv_layer \<Rightarrow> io_chunk list option" where
  "write_v_trans_layer kv_sz sm cr ly = (case ly_v ly of None \<Rightarrow> Some [] | Some vs \<Rightarrow> do {
     v \<leftarrow> at_idx vs sm;
     els \<leftarrow> emit_over (\<lambda>j. write_ranges v (j * kv_sz) (ly_v_el ly) cr) [0..<ly_n_embd_v ly];
     Some ([Io_value (put_i32 (ly_v_type ly)), Io_value (put_u32 (ly_v_el ly)), Io_value (put_u32 (ly_n_embd_v ly))] @ els) })"

definition state_write_data :: "kv_full \<Rightarrow> nat \<Rightarrow> (nat \<times> nat) list \<Rightarrow> io_chunk list option" where
  "state_write_data fv sm cr = do {
     c \<leftarrow> at_idx (kv_cells (fv_kv fv)) sm;
     ks \<leftarrow> emit_over (write_k_layer sm cr) (fv_layers fv);
     vs \<leftarrow> emit_over (if fv_v_trans fv then write_v_trans_layer (cells_size c) sm cr else write_v_layer sm cr) (fv_layers fv);
     Some ([Io_value (put_u32 (if fv_v_trans fv then 1 else 0)), Io_value (put_u32 (length (fv_layers fv)))] @ ks @ vs) }"

definition write_stream :: "kv_full \<Rightarrow> llama_seq_id \<Rightarrow> nat \<Rightarrow> io_chunk list option" where
  "write_stream fv seq_id s = do {
     c \<leftarrow> at_idx (kv_cells (fv_kv fv)) s;
     (cell_count, cr) \<leftarrow> cell_ranges (fv_kv fv) seq_id c;
     if cell_count = 0 then Some [Io_value (put_u32 cell_count)] else do {
       meta \<leftarrow> state_write_meta (fv_kv fv) s cr seq_id;
       rows \<leftarrow> state_write_data fv s cr;
       Some ([Io_value (put_u32 cell_count)] @ meta @ rows) } }"

definition state_write :: "kv_full \<Rightarrow> llama_seq_id \<Rightarrow> io_chunk list option" where
  "state_write fv seq_id =
     (if kv_other (fv_kv fv) \<noteq> None then Some [] else do {
        streams \<leftarrow> emit_over (write_stream fv seq_id) [0..<kv_n_stream (fv_kv fv)];
        Some ([Io_value (put_u32 (kv_n_stream (fv_kv fv)))] @ streams) })"

subsection \<open>Reading the cells\<close>

text \<open>
  One cell of a single sequence. \<open>None\<close> is a write outside \<open>ubatch.pos\<close>: the two coordinates of an
  M-RoPE cell are its second and third block, so a model with two positions per token would write
  past the end of it.
\<close>

definition read_token_ext :: "nat \<Rightarrow> nat \<Rightarrow> llama_ubatch \<Rightarrow> io_reader \<Rightarrow> (io_res \<times> llama_ubatch \<times> io_reader) option" where
  "read_token_ext n_pos i ub r = (if n_pos > 1
     then (case (do { (x, r) \<leftarrow> get_i32 r; (y, r) \<leftarrow> get_i32 r; Some (x, y, r) }) of
         None \<Rightarrow> Some (Io_throw, ub, r)
       | Some (x, y, r) \<Rightarrow> do {
           assrt (i + ub_n_tokens ub < length (ub_pos ub));
           assrt (i + ub_n_tokens ub * 2 < length (ub_pos ub));
           Some (Io_ok, ub\<lparr>ub_pos := (ub_pos ub)[i + ub_n_tokens ub := y, i + ub_n_tokens ub * 2 := x]\<rparr>, r) })
     else Some (Io_ok, ub, r))"

definition read_token :: "nat \<Rightarrow> llama_seq_id \<Rightarrow> nat \<Rightarrow> llama_ubatch \<Rightarrow> io_reader \<Rightarrow> (io_res \<times> llama_ubatch \<times> io_reader) option" where
  "read_token n_pos dest i ub r =
     (case (do { (pos, r) \<leftarrow> get_i32 r; (n_seq_id, r) \<leftarrow> get_u32 r; Some (pos, n_seq_id, r) }) of
        None \<Rightarrow> Some (Io_throw, ub, r)
      | Some (pos, n_seq_id, r) \<Rightarrow>
          if n_seq_id \<noteq> 1 then Some (Io_false, ub, r) else do {
            (res, ub, r) \<leftarrow> read_token_ext n_pos i ub r;
            if res \<noteq> Io_ok then Some (res, ub, r) else (case get_i32 r of
                None \<Rightarrow> Some (Io_throw, ub, r)
              | Some (_, r) \<Rightarrow> do {
                  assrt (i < length (ub_pos ub));
                  Some (Io_ok, ub\<lparr>ub_pos := (ub_pos ub)[i := pos], ub_n_seq_id := (ub_n_seq_id ub)[i := n_seq_id],
                    ub_seq_id := (ub_seq_id ub)[i := [dest]]\<rparr>, r) }) })"

fun read_tokens :: "nat \<Rightarrow> llama_seq_id \<Rightarrow> nat list \<Rightarrow> llama_ubatch \<Rightarrow> io_reader \<Rightarrow> (io_res \<times> llama_ubatch \<times> io_reader) option" where
  "read_tokens n_pos dest [] ub r = Some (Io_ok, ub, r)"
| "read_tokens n_pos dest (i # is) ub r = do {
     (res, ub, r) \<leftarrow> read_token n_pos dest i ub r;
     if res \<noteq> Io_ok then Some (res, ub, r) else read_tokens n_pos dest is ub r }"

definition read_meta_seq :: "kv_cache \<Rightarrow> nat \<Rightarrow> nat \<Rightarrow> llama_seq_id \<Rightarrow> io_reader \<Rightarrow>
    (io_res \<times> slot_info \<times> kv_cache \<times> io_reader) option" where
  "read_meta_seq kv sm cell_count dest r = do {
     (_, kv) \<leftarrow> kv_seq_rm dest (-1) (-1) kv;
     (ub, _) \<leftarrow> ubatch_reserve cell_count 1 (allocr_new (kv_n_pos kv));
     let ub = ub\<lparr>ub_seq_id_unq := (ub_seq_id_unq ub)[0 := dest]\<rparr>;
     (res, ub, r) \<leftarrow> read_tokens (kv_n_pos kv) dest [0..<cell_count] ub r;
     if res \<noteq> Io_ok then Some (res, si_none, kv, r) else do {
       si \<leftarrow> find_slot ub False kv;
       if si_empty si then Some (Io_false, si, kv, r) else do {
         kv \<leftarrow> apply_ubatch si ub kv;
         assrt (si_n_stream si = 1);
         idxs \<leftarrow> at_idx (si_idxs si) 0;
         assrt (length idxs = cell_count);
         c \<leftarrow> at_idx (kv_cells kv) sm;
         _ \<leftarrow> ofold (\<lambda>i u. do {
             p \<leftarrow> cells_pos_get (idxs ! i) c;
             assrt (p = ub_pos ub ! i);
             h \<leftarrow> cells_seq_has (idxs ! i) dest c;
             assrt h }) [0..<cell_count] ();
         Some (Io_ok, si, kv, r) } } }"

text \<open>The whole cache: the cells are filled as they are read.\<close>

fun read_cell_seqs :: "nat \<Rightarrow> nat \<Rightarrow> nat \<Rightarrow> kv_cells \<Rightarrow> io_reader \<Rightarrow> (io_res \<times> kv_cells \<times> io_reader) option" where
  "read_cell_seqs n_seq_max i 0 c r = Some (Io_ok, c, r)"
| "read_cell_seqs n_seq_max i (Suc n) c r = (case get_i32 r of
     None \<Rightarrow> Some (Io_throw, c, r)
   | Some (seq_id, r) \<Rightarrow>
       if seq_id < 0 \<or> nat seq_id \<ge> n_seq_max then Some (Io_false, c, r)
       else do {
         c \<leftarrow> cells_seq_add i seq_id c;
         read_cell_seqs n_seq_max i n c r })"

definition read_cell_ext :: "nat \<Rightarrow> nat \<Rightarrow> kv_cells \<Rightarrow> io_reader \<Rightarrow> (io_res \<times> kv_cells \<times> io_reader) option" where
  "read_cell_ext n_pos i c r = (if n_pos > 1
     then (case (do { (x, r) \<leftarrow> get_i32 r; (y, r) \<leftarrow> get_i32 r; Some (x, y, r) }) of
         None \<Rightarrow> Some (Io_throw, c, r)
       | Some (x, y, r) \<Rightarrow> do { c \<leftarrow> cells_ext_set i \<lparr>ext_x = x, ext_y = y\<rparr> c; Some (Io_ok, c, r) })
     else Some (Io_ok, c, r))"

fun read_cells :: "nat \<Rightarrow> nat \<Rightarrow> nat list \<Rightarrow> kv_cells \<Rightarrow> io_reader \<Rightarrow> (io_res \<times> kv_cells \<times> io_reader) option" where
  "read_cells n_seq_max n_pos [] c r = Some (Io_ok, c, r)"
| "read_cells n_seq_max n_pos (i # is) c r =
     (case (do { (pos, r) \<leftarrow> get_i32 r; (n_seq_id, r) \<leftarrow> get_u32 r; Some (pos, n_seq_id, r) }) of
        None \<Rightarrow> Some (Io_throw, c, r)
      | Some (pos, n_seq_id, r) \<Rightarrow> do {
          c \<leftarrow> cells_pos_set i pos c;
          (res, c, r) \<leftarrow> read_cell_ext n_pos i c r;
          if res \<noteq> Io_ok then Some (res, c, r) else do {
          (res, c, r) \<leftarrow> read_cell_seqs n_seq_max i n_seq_id c r;
          if res \<noteq> Io_ok then Some (res, c, r) else read_cells n_seq_max n_pos is c r } })"

definition read_meta_all :: "kv_cache \<Rightarrow> nat \<Rightarrow> nat \<Rightarrow> io_reader \<Rightarrow> (io_res \<times> slot_info \<times> kv_cache \<times> io_reader) option" where
  "read_meta_all kv sm cell_count r = do {
     c \<leftarrow> at_idx (kv_cells kv) sm;
     if cell_count > cells_size c then Some (Io_false, si_none, kv, r) else do {
       let kv = kv_clear kv;
       c \<leftarrow> at_idx (kv_cells kv) sm;
       (res, c, r) \<leftarrow> read_cells (kv_n_seq_max kv) (kv_n_pos kv) [0..<cell_count] c r;
       let kv = kv\<lparr>kv_cells := (kv_cells kv)[sm := c]\<rparr>;
       if res \<noteq> Io_ok then Some (res, si_none, kv, r)
       else Some (Io_ok, \<lparr>si_s0 = sm, si_s1 = sm, si_strm = [sm], si_idxs = [[0..<cell_count]]\<rparr>,
         kv\<lparr>kv_heads := (kv_heads kv)[sm := 0]\<rparr>, r) } }"

definition state_read_meta :: "kv_cache \<Rightarrow> nat \<Rightarrow> nat \<Rightarrow> llama_seq_id \<Rightarrow> io_reader \<Rightarrow>
    (io_res \<times> slot_info \<times> kv_cache \<times> io_reader) option" where
  "state_read_meta kv sm cell_count dest r =
     (if dest \<noteq> -1 then read_meta_seq kv sm cell_count dest r else read_meta_all kv sm cell_count r)"

subsection \<open>Reading the tensors\<close>

fun read_blocks :: "nat \<Rightarrow> nat list \<Rightarrow> bytes \<Rightarrow> io_reader \<Rightarrow> (io_res \<times> bytes \<times> io_reader) option" where
  "read_blocks sz [] t r = Some (Io_ok, t, r)"
| "read_blocks sz (off # offs) t r = (case host_read sz r of
     None \<Rightarrow> Some (Io_throw, t, r)
   | Some (b, r) \<Rightarrow> do { t \<leftarrow> tensor_set t off b; read_blocks sz offs t r })"

text \<open>One tensor: a single block when the cells are contiguous, else row by row.\<close>

definition read_rows :: "nat \<Rightarrow> slot_info \<Rightarrow> nat \<Rightarrow> bytes \<Rightarrow> io_reader \<Rightarrow> (io_res \<times> bytes \<times> io_reader) option" where
  "read_rows cell_count si row t r = (if cell_count = 0 then Some (Io_ok, t, r) else if si_is_contiguous si then do {
       h \<leftarrow> si_head si;
       read_blocks (cell_count * row) [h * row] t r }
   else do {
       idxs \<leftarrow> at_idx (si_idxs si) 0;
       read_blocks row (map (\<lambda>i. idxs ! i * row) [0..<cell_count]) t r })"

definition read_els :: "nat \<Rightarrow> nat \<Rightarrow> nat \<Rightarrow> slot_info \<Rightarrow> nat \<Rightarrow> bytes \<Rightarrow> io_reader \<Rightarrow> (io_res \<times> bytes \<times> io_reader) option" where
  "read_els kv_sz n_embd cell_count si el t r = (if cell_count = 0 then Some (Io_ok, t, r) else if si_is_contiguous si then do {
       h \<leftarrow> si_head si;
       read_blocks (cell_count * el) (map (\<lambda>j. (h + j * kv_sz) * el) [0..<n_embd]) t r }
   else do {
       idxs \<leftarrow> at_idx (si_idxs si) 0;
       read_blocks el (concat (map (\<lambda>j. map (\<lambda>i. (idxs ! i + j * kv_sz) * el) [0..<cell_count]) [0..<n_embd])) t r })"

definition read_k_layer :: "nat \<Rightarrow> nat \<Rightarrow> slot_info \<Rightarrow> kv_layer \<Rightarrow> io_reader \<Rightarrow> (io_res \<times> kv_layer \<times> io_reader) option" where
  "read_k_layer sm cell_count si ly r = do {
     k \<leftarrow> at_idx (ly_k ly) sm;
     (case get_i32 r of None \<Rightarrow> Some (Io_throw, ly, r) | Some (ty, r) \<Rightarrow>
        if ly_k_type ly \<noteq> ty then Some (Io_false, ly, r) else
        (case get_u64 r of None \<Rightarrow> Some (Io_throw, ly, r) | Some (row, r) \<Rightarrow>
           if ly_k_row ly \<noteq> row then Some (Io_false, ly, r) else do {
             (res, k, r) \<leftarrow> read_rows cell_count si (ly_k_row ly) k r;
             Some (res, ly\<lparr>ly_k := (ly_k ly)[sm := k]\<rparr>, r) })) }"

definition read_v_layer :: "nat \<Rightarrow> nat \<Rightarrow> slot_info \<Rightarrow> kv_layer \<Rightarrow> io_reader \<Rightarrow> (io_res \<times> kv_layer \<times> io_reader) option" where
  "read_v_layer sm cell_count si ly r = (case ly_v ly of None \<Rightarrow> Some (Io_ok, ly, r) | Some vs \<Rightarrow> do {
     v \<leftarrow> at_idx vs sm;
     (case get_i32 r of None \<Rightarrow> Some (Io_throw, ly, r) | Some (ty, r) \<Rightarrow>
        if ly_v_type ly \<noteq> ty then Some (Io_false, ly, r) else
        (case get_u64 r of None \<Rightarrow> Some (Io_throw, ly, r) | Some (row, r) \<Rightarrow>
           if ly_v_row ly \<noteq> row then Some (Io_false, ly, r) else do {
             (res, v, r) \<leftarrow> read_rows cell_count si (ly_v_row ly) v r;
             Some (res, ly\<lparr>ly_v := Some (vs[sm := v])\<rparr>, r) })) })"

definition read_v_trans_layer :: "nat \<Rightarrow> nat \<Rightarrow> nat \<Rightarrow> slot_info \<Rightarrow> kv_layer \<Rightarrow> io_reader \<Rightarrow> (io_res \<times> kv_layer \<times> io_reader) option" where
  "read_v_trans_layer kv_sz sm cell_count si ly r = (case ly_v ly of None \<Rightarrow> Some (Io_ok, ly, r) | Some vs \<Rightarrow> do {
     v \<leftarrow> at_idx vs sm;
     (case get_i32 r of None \<Rightarrow> Some (Io_throw, ly, r) | Some (ty, r) \<Rightarrow>
        if ly_v_type ly \<noteq> ty then Some (Io_false, ly, r) else
        (case get_u32 r of None \<Rightarrow> Some (Io_throw, ly, r) | Some (el, r) \<Rightarrow>
           if ly_v_el ly \<noteq> el then Some (Io_false, ly, r) else
           (case get_u32 r of None \<Rightarrow> Some (Io_throw, ly, r) | Some (n_embd, r) \<Rightarrow>
              if ly_n_embd_v ly \<noteq> n_embd then Some (Io_false, ly, r) else do {
                (res, v, r) \<leftarrow> read_els kv_sz (ly_n_embd_v ly) cell_count si (ly_v_el ly) v r;
                Some (res, ly\<lparr>ly_v := Some (vs[sm := v])\<rparr>, r) }))) })"

fun read_layers :: "(kv_layer \<Rightarrow> io_reader \<Rightarrow> (io_res \<times> kv_layer \<times> io_reader) option) \<Rightarrow> kv_layer list \<Rightarrow> io_reader \<Rightarrow>
    (io_res \<times> kv_layer list \<times> io_reader) option" where
  "read_layers f [] r = Some (Io_ok, [], r)"
| "read_layers f (ly # lys) r = do {
     (res, ly, r) \<leftarrow> f ly r;
     if res \<noteq> Io_ok then Some (res, ly # lys, r) else do {
       (res, lys, r) \<leftarrow> read_layers f lys r;
       Some (res, ly # lys, r) } }"

definition state_read_data :: "kv_full \<Rightarrow> nat \<Rightarrow> nat \<Rightarrow> slot_info \<Rightarrow> io_reader \<Rightarrow> (io_res \<times> kv_full \<times> io_reader) option" where
  "state_read_data fv sm cell_count si r = do {
     c \<leftarrow> at_idx (kv_cells (fv_kv fv)) sm;
     (case (do { (v_trans, r) \<leftarrow> get_u32 r; (n_layer, r) \<leftarrow> get_u32 r; Some (v_trans, n_layer, r) }) of
        None \<Rightarrow> Some (Io_throw, fv, r)
      | Some (v_trans, n_layer, r) \<Rightarrow>
          if n_layer \<noteq> length (fv_layers fv) then Some (Io_false, fv, r)
          else if cell_count > cells_size c then Some (Io_false, fv, r)
          else if fv_v_trans fv \<noteq> (v_trans \<noteq> 0) then Some (Io_false, fv, r)
          else do {
            (res, lys, r) \<leftarrow> read_layers (read_k_layer sm cell_count si) (fv_layers fv) r;
            let fv = fv\<lparr>fv_layers := lys\<rparr>;
            if res \<noteq> Io_ok then Some (res, fv, r) else do {
              (res, lys, r) \<leftarrow> read_layers (if fv_v_trans fv then read_v_trans_layer (cells_size c) sm cell_count si
                else read_v_layer sm cell_count si) (fv_layers fv) r;
              Some (res, fv\<lparr>fv_layers := lys\<rparr>, r) } }) }"

text \<open>
  The reader collects the tensor reads and carries them out when it is destroyed, after everything
  else, so that a \<open>clear(true)\<close> in between zeroes the buffers without touching the rows read so far.
  Here the rows are stored at once, and the buffers are zeroed with the first \<open>clear(true)\<close> only,
  before any row is stored; \<open>z\<close> says that this has happened.
\<close>

definition zero_layer :: "kv_layer \<Rightarrow> kv_layer" where
  "zero_layer ly = ly\<lparr>ly_k := map (map (\<lambda>_. 0)) (ly_k ly), ly_v := map_option (map (map (\<lambda>_. 0))) (ly_v ly)\<rparr>"

definition clear_tensors :: "bool \<Rightarrow> kv_full \<Rightarrow> kv_full" where
  "clear_tensors z fv = (if z then fv else fv\<lparr>fv_layers := map zero_layer (fv_layers fv)\<rparr>)"

text \<open>
  One stream. An exception while the cells are read leaves at once; one while the tensors are read
  counts as \<open>false\<close>, and then the cache or the sequence is cleared before the exception is thrown
  on. With \<open>-1\<close> the buffers are zeroed on every path with cells: before the cells are read, or in
  the failure branch when there are too many of them.
\<close>

definition read_stream :: "bool \<Rightarrow> llama_seq_id \<Rightarrow> nat \<Rightarrow> kv_full \<Rightarrow> io_reader \<Rightarrow> (io_res \<times> kv_full \<times> io_reader) option" where
  "read_stream z seq_id s fv r = (case get_u32 r of None \<Rightarrow> Some (Io_throw, fv, r) | Some (cell_count, r) \<Rightarrow>
     if cell_count = 0 then Some (Io_ok, fv, r) else do {
       sm \<leftarrow> (if seq_id = -1 then Some s else at_idx (kv_seq_to_stream (fv_kv fv)) (nat seq_id));
       (res, si, kv, r) \<leftarrow> state_read_meta (fv_kv fv) sm cell_count seq_id r;
       let fv = (if seq_id = -1 then clear_tensors z fv else fv)\<lparr>fv_kv := kv\<rparr>;
       if res = Io_throw then Some (Io_throw, fv, r) else do {
         (res, fv, r) \<leftarrow> (if res = Io_ok then state_read_data fv sm cell_count si r else Some (res, fv, r));
         if res = Io_ok then Some (Io_ok, fv, r)
         else if seq_id = -1 then Some (Io_throw, fv\<lparr>fv_kv := kv_clear (fv_kv fv)\<rparr>, r)
         else do {
           (_, kv) \<leftarrow> kv_seq_rm seq_id (-1) (-1) (fv_kv fv);
           Some (Io_throw, fv\<lparr>fv_kv := kv\<rparr>, r) } } })"

definition cleared :: "bool \<Rightarrow> llama_seq_id \<Rightarrow> io_reader \<Rightarrow> bool" where
  "cleared z seq_id r \<longleftrightarrow> z \<or> (seq_id = -1 \<and> (case get_u32 r of Some (cell_count, _) \<Rightarrow> cell_count \<noteq> 0 | None \<Rightarrow> False))"

fun read_streams :: "bool \<Rightarrow> llama_seq_id \<Rightarrow> nat list \<Rightarrow> kv_full \<Rightarrow> io_reader \<Rightarrow> (io_res \<times> kv_full \<times> io_reader) option" where
  "read_streams z seq_id [] fv r = Some (Io_ok, fv, r)"
| "read_streams z seq_id (s # ss) fv r = do {
     (res, fv, r') \<leftarrow> read_stream z seq_id s fv r;
     if res \<noteq> Io_ok then Some (res, fv, r') else read_streams (cleared z seq_id r) seq_id ss fv r' }"

definition state_read :: "kv_full \<Rightarrow> llama_seq_id \<Rightarrow> io_reader \<Rightarrow> (io_res \<times> kv_full \<times> io_reader) option" where
  "state_read fv seq_id r =
     (if kv_other (fv_kv fv) \<noteq> None then Some (Io_ok, fv, r) else do {
        assrt (seq_id = -1 \<or> (seq_id \<ge> 0 \<and> nat seq_id < length (kv_seq_to_stream (fv_kv fv))));
        (case get_u32 r of None \<Rightarrow> Some (Io_throw, fv, r) | Some (n_stream_cur, r) \<Rightarrow>
           if n_stream_cur \<noteq> kv_n_stream (fv_kv fv) then Some (Io_throw, fv, r)
           else read_streams False seq_id [0..<kv_n_stream (fv_kv fv)] fv r) })"

subsection \<open>What is written\<close>

lemma emit_over_Some:
  assumes "\<forall>x \<in> set xs. f x = Some (g x)"
  shows "emit_over f xs = Some (concat (map g xs))"
proof -
  have "ofold (\<lambda>x out. Option.bind (f x) (\<lambda>cs. Some (out @ cs))) xs out = Some (out @ concat (map g xs))" for out
    using assms by (induction xs arbitrary: out) simp_all
  then show ?thesis by (simp add: emit_over_def)
qed

definition flat :: "(nat \<times> nat) list \<Rightarrow> nat list" where
  "flat rs = concat (map (\<lambda>(a, b). [a..<b]) rs)"

lemma flat_simps [simp]: "flat [] = []" "flat (rs @ [(a, b)]) = flat rs @ [a..<b]"
  by (simp_all add: flat_def)

lemma length_flat: "length (flat rs) = sum_list (map (\<lambda>(a, b). b - a) rs)"
  by (induction rs) (auto simp: flat_def)

lemma filter_all_upt: "(\<forall>k. b \<le> k \<and> k < m \<longrightarrow> p k) \<Longrightarrow> filter p [b..<m] = [b..<m]"
  by (simp add: filter_id_conv)

lemma range_scan:
  assumes add: "\<forall>i < sz. add i = Some (b i)"
  shows "\<exists>rs st n. ofold (range_step add sz) [0..<sz] ([], sz, 0) = Some (rs, st, n) \<and>
    n = length (filter b [0..<sz]) \<and> flat (if st \<noteq> sz then rs @ [(st, sz)] else rs) = filter b [0..<sz]"
proof -
  let ?I = "\<lambda>m (rs, st, n). n = length (filter b [0..<m]) \<and> (if st = sz then flat rs = filter b [0..<m]
      else st < m \<and> flat rs = filter b [0..<st] \<and> (\<forall>k. st \<le> k \<and> k < m \<longrightarrow> b k))"
  have "\<exists>st. ofold (range_step add sz) [0..<sz] ([], sz, 0) = Some st \<and> ?I sz st"
  proof (rule ofold_upt_inv [where I = ?I])
    fix i x assume i: "i < sz" and I: "?I i x"
    obtain rs st n where x: "x = (rs, st, n)" by (cases x)
    have run: "range_step add sz i x = Some (if b i then (rs, (if st = sz then i else st), n + 1)
           else if st \<noteq> sz then (rs @ [(st, i)], sz, n) else (rs, st, n))"
      using add i by (simp add: range_step_def x)
    have split: "filter b [0..<i] = filter b [0..<st] @ [st..<i]" if "st < i" "\<forall>k. st \<le> k \<and> k < i \<longrightarrow> b k"
    proof -
      have "[0..<i] = [0..<st] @ [st..<i]" using that(1) upt_add_eq_append [of 0 st "i - st"] by simp
      then show ?thesis using filter_all_upt [OF that(2)] by simp
    qed
    show "\<exists>y. range_step add sz i x = Some y \<and> ?I (Suc i) y"
      unfolding run using I i split by (auto simp: x less_Suc_eq split: if_splits)
  qed simp
  then obtain rs st n where *: "ofold (range_step add sz) [0..<sz] ([], sz, 0) = Some (rs, st, n)" "?I sz (rs, st, n)" by auto
  have "flat rs @ [st..<sz] = filter b [0..<sz]" if "st \<noteq> sz"
  proof -
    have st: "st < sz" "flat rs = filter b [0..<st]" "\<forall>k. st \<le> k \<and> k < sz \<longrightarrow> b k" using *(2) that by auto
    have "[0..<sz] = [0..<st] @ [st..<sz]" using st(1) upt_add_eq_append [of 0 st "sz - st"] by simp
    then show ?thesis using filter_all_upt [OF st(3)] st(2) by simp
  qed
  then show ?thesis using * by (intro exI [of _ rs] exI [of _ st] exI [of _ n]) auto
qed

lemma flat_nonempty_ranges:
  assumes "\<forall>i < sz. add i = Some (b i)" "ofold (range_step add sz) [0..<sz] ([], sz, 0) = Some (rs, st, n)"
  shows "\<forall>(x, y) \<in> set (if st \<noteq> sz then rs @ [(st, sz)] else rs). x < y \<and> y \<le> sz"
proof -
  let ?I = "\<lambda>m (rs, st, n :: nat). (\<forall>(x, y) \<in> set rs. x < y \<and> y \<le> sz) \<and> (st = sz \<or> st < m)"
  have "\<exists>st. ofold (range_step add sz) [0..<sz] ([], sz, 0) = Some st \<and> ?I sz st"
  proof (rule ofold_upt_inv [where I = ?I])
    fix i x assume i: "i < sz" and I: "?I i x"
    obtain rs st n where x: "x = (rs, st, n)" by (cases x)
    have "range_step add sz i x = Some (if b i then (rs, (if st = sz then i else st), n + 1)
           else if st \<noteq> sz then (rs @ [(st, i)], sz, n) else (rs, st, n))"
      using assms(1) i by (simp add: range_step_def x)
    then show "\<exists>y. range_step add sz i x = Some y \<and> ?I (Suc i) y" using I i by (auto simp: x)
  qed simp
  then have "?I sz (rs, st, n)" using assms(2) by auto
  then show ?thesis by auto
qed

text \<open>The saved cells of a stream.\<close>

definition saved :: "kv_cache \<Rightarrow> llama_seq_id \<Rightarrow> kv_cells \<Rightarrow> nat \<Rightarrow> bool" where
  "saved kv s c i \<longleftrightarrow> save_cell kv s c i = Some True"

definition saved_cells :: "kv_cache \<Rightarrow> llama_seq_id \<Rightarrow> kv_cells \<Rightarrow> nat list" where
  "saved_cells kv s c = filter (saved kv s c) [0..<cells_size c]"

lemma cell_ranges_spec:
  assumes "\<forall>i < cells_size c. save_cell kv s c i \<noteq> None"
  shows "\<exists>rs. cell_ranges kv s c = Some (length (saved_cells kv s c), rs) \<and> flat rs = saved_cells kv s c \<and>
    (\<forall>(x, y) \<in> set rs. x < y \<and> y \<le> cells_size c)"
proof -
  let ?sz = "cells_size c"
  have add: "\<forall>i < ?sz. save_cell kv s c i = Some (saved kv s c i)"
    using assms by (auto simp: saved_def)
  from range_scan [OF add] obtain rs st n where
    run: "ofold (range_step (save_cell kv s c) ?sz) [0..<?sz] ([], ?sz, 0) = Some (rs, st, n)"
      "n = length (filter (saved kv s c) [0..<?sz])"
      "flat (if st \<noteq> ?sz then rs @ [(st, ?sz)] else rs) = filter (saved kv s c) [0..<?sz]" by blast
  let ?rs = "if st \<noteq> ?sz then rs @ [(st, ?sz)] else rs"
  have "n = sum_list (map (\<lambda>(a, b). b - a) ?rs)" unfolding run(2) run(3) [symmetric] length_flat ..
  then have "cell_ranges kv s c = Some (n, ?rs)" by (simp add: cell_ranges_def run(1) Let_def assrt_def)
  then show ?thesis using run(2,3) flat_nonempty_ranges [OF add run(1)] unfolding saved_cells_def by blast
qed

lemma saved_total:
  assumes inv: "cache_inv kv" and swa: "swa_ok kv" and t: "t < kv_n_stream kv" and s: "s = -1 \<or> seq_ok kv s"
    and i: "i < kv_size kv"
  shows "save_cell kv s (kv_cells kv ! t) i = Some (kc_pos (kv_cells kv ! t) ! i \<noteq> -1 \<and>
    (s \<noteq> -1 \<longrightarrow> s \<in> kc_seq (kv_cells kv ! t) ! i \<and>
      is_masked_swa (kv_n_swa kv) (kv_swa_type kv) (kc_pos (kv_cells kv ! t) ! i)
        (Max (set (scan_pos s (kv_cells kv ! t)))) = Some False))"
proof -
  let ?c = "kv_cells kv ! t"
  have c: "cells_inv ?c" "i < cells_size ?c" using cache_invD(5,6) [OF inv t] i by simp_all
  have p: "kc_pos ?c ! i = -1 \<or> 0 \<le> kc_pos ?c ! i" by (rule cells_inv_pos [OF c])
  have e: "cells_is_empty i ?c = Some (kc_pos ?c ! i = -1)" using c p by (auto simp: cells_is_empty_def assrt_def)
  show ?thesis
  proof (cases "kc_pos ?c ! i = -1 \<or> s = -1")
    case True
    then show ?thesis using e by (auto simp: save_cell_def)
  next
    case False
    then have s0: "0 \<le> s" "s < LLAMA_MAX_SEQ" using s cache_invD(10,11) [OF inv] by auto
    have h: "cells_seq_has i s ?c = Some (s \<in> kc_seq ?c ! i)" using c(2) s0 by (simp add: cells_seq_has_def)
    show ?thesis
    proof (cases "s \<in> kc_seq ?c ! i")
      case True
      have mem: "kc_pos ?c ! i \<in> set (scan_pos s ?c)" using True False c(2) by (auto simp: scan_pos_def)
      then have mx: "cells_seq_pos_max s ?c = Some (Max (set (scan_pos s ?c)))"
        using cells_seq_pos_max_scan [OF c(1) s0] by (cases "scan_pos s ?c") simp_all
      have "0 \<le> Max (set (scan_pos s ?c))" using Max_ge [OF finite_set mem] p False by linarith
      then obtain m where m: "is_masked_swa (kv_n_swa kv) (kv_swa_type kv) (kc_pos ?c ! i) (Max (set (scan_pos s ?c))) = Some m"
        using is_masked_swa_total p False swa unfolding swa_ok_def by blast
      have "cells_pos_get i ?c = Some (kc_pos ?c ! i)" using c(2) False by (simp add: cells_pos_get_def)
      then show ?thesis using e h mx m True False by (simp add: save_cell_def)
    next
      case notin: False
      then show ?thesis using e h False by (simp add: save_cell_def)
    qed
  qed
qed

text \<open>The bytes of one cell of a single sequence.\<close>

definition meta_bytes :: "nat \<Rightarrow> llama_seq_id \<Rightarrow> kv_cells \<Rightarrow> nat \<Rightarrow> bytes" where
  "meta_bytes n_pos s c i = put_i32 (kc_pos c ! i) @ put_u32 1 @ (if n_pos > 1 then put_ext (kc_ext c ! i) else []) @ put_i32 s"

lemma seq_ids_filter:
  assumes "\<forall>x \<in> set xs. f x = Some (h x)"
  shows "ofold (\<lambda>cur ids. if P cur then Option.bind (f cur) (\<lambda>b. Some (if b then ids @ [cur] else ids)) else Some ids) xs acc =
    Some (acc @ filter (\<lambda>x. P x \<and> h x) xs)"
  using assms by (induction xs arbitrary: acc) auto

lemma filter_one: "distinct xs \<Longrightarrow> s \<in> set xs \<Longrightarrow> filter (\<lambda>x. x = s) xs = [s]"
  by (induction xs) (auto simp: filter_empty_conv)

lemma write_meta_cell_seq:
  assumes c: "cells_inv c" "i < cells_size c" "kc_pos c ! i \<noteq> -1"
    and s: "0 \<le> s" "s < int (kv_n_seq_max kv)" "int (kv_n_seq_max kv) \<le> LLAMA_MAX_SEQ" "s \<in> kc_seq c ! i"
  shows "\<exists>cs. write_meta_cell kv s c i = Some cs \<and> emitted cs = meta_bytes (kv_n_pos kv) s c i"
proof -
  let ?xs = "map int [0..<kv_n_seq_max kv]"
  have has: "\<forall>x \<in> set ?xs. cells_seq_has i x c = Some (x \<in> kc_seq c ! i)"
    using c(2) s(3) by (auto simp: cells_seq_has_def)
  have "distinct ?xs" by (simp add: distinct_map)
  moreover have "s \<in> set ?xs" using s(1,2) by (auto simp: image_iff intro: bexI [of _ "nat s"])
  ultimately have "filter (\<lambda>x. x = s) ?xs = [s]"
    by (rule filter_one)
  moreover have "filter (\<lambda>x. (x = s \<or> s = -1) \<and> x \<in> kc_seq c ! i) ?xs = filter (\<lambda>x. x = s) ?xs"
    by (rule filter_cong) (use s(1,4) in auto)
  ultimately have "ofold (\<lambda>cur ids. if cur = s \<or> s = -1 then Option.bind (cells_seq_has i cur c)
      (\<lambda>b. Some (if b then ids @ [cur] else ids)) else Some ids) ?xs [] = Some [s]"
    using seq_ids_filter [OF has, of "\<lambda>cur. cur = s \<or> s = -1" "[]"] by simp
  moreover have "cells_pos_get i c = Some (kc_pos c ! i)" "cells_ext_get i c = Some (kc_ext c ! i)"
    using c(2,3) by (simp_all add: cells_pos_get_def cells_ext_get_def)
  ultimately show ?thesis by (simp add: write_meta_cell_def meta_bytes_def)
qed

lemma emit_over_emitted:
  assumes "\<forall>x \<in> set xs. \<exists>cs. f x = Some cs \<and> emitted cs = g x"
  shows "\<exists>cs. emit_over f xs = Some cs \<and> emitted cs = concat (map g xs)"
proof -
  have f: "\<forall>x \<in> set xs. f x = Some (the (f x))" using assms by force
  have "emitted (the (f x)) = g x" if "x \<in> set xs" for x using assms that by force
  then have g: "map (\<lambda>x. emitted (the (f x))) xs = map g xs" by (rule map_cong [OF refl])
  have "emitted (concat (map (\<lambda>x. the (f x)) xs)) = concat (map g xs)"
    unfolding emitted_concat map_map comp_def g ..
  then show ?thesis using emit_over_Some [OF f] by blast
qed

lemma concat_flat: "concat (map (\<lambda>(a, b). concat (map g [a..<b])) rs) = concat (map g (flat rs))"
  by (induction rs) (auto simp: flat_def)

lemma write_meta_seq:
  assumes inv: "cache_inv kv" and swa: "swa_ok kv" and t: "t < kv_n_stream kv"
    and s: "seq_ok kv s" "s < int (kv_n_seq_max kv)" "int (kv_n_seq_max kv) \<le> LLAMA_MAX_SEQ"
    and rs: "flat rs = saved_cells kv s (kv_cells kv ! t)"
  shows "\<exists>cs. state_write_meta kv t rs s = Some cs \<and>
    emitted cs = concat (map (meta_bytes (kv_n_pos kv) s (kv_cells kv ! t)) (saved_cells kv s (kv_cells kv ! t)))"
proof -
  let ?c = "kv_cells kv ! t"
  have c: "cells_inv ?c" "cells_size ?c = kv_size kv" "at_idx (kv_cells kv) t = Some ?c"
    using cache_invD(3,5,6) [OF inv] t by simp_all
  have s0: "0 \<le> s" using cache_invD(10) [OF inv s(1)] .
  have cell: "\<exists>cs. write_meta_cell kv s ?c i = Some cs \<and> emitted cs = meta_bytes (kv_n_pos kv) s ?c i"
    if i: "i \<in> set (flat rs)" for i
  proof (rule write_meta_cell_seq [OF c(1) _ _ s0 s(2,3)])
    have "i < cells_size ?c" "saved kv s ?c i" using i rs by (simp_all add: saved_cells_def)
    then show "i < cells_size ?c" "kc_pos ?c ! i \<noteq> -1" "s \<in> kc_seq ?c ! i"
      using saved_total [OF inv swa t, of s i] s(1) s0 c(2) by (auto simp: saved_def)
  qed
  have "\<exists>cs. emit_over (\<lambda>(a, b). emit_over (write_meta_cell kv s ?c) [a..<b]) rs = Some cs \<and>
      emitted cs = concat (map (\<lambda>(a, b). concat (map (meta_bytes (kv_n_pos kv) s ?c) [a..<b])) rs)"
  proof (rule emit_over_emitted, clarify)
    fix a b assume "(a, b) \<in> set rs"
    then have "\<forall>i \<in> set [a..<b]. i \<in> set (flat rs)" by (force simp: flat_def)
    with cell show "\<exists>cs. emit_over (write_meta_cell kv s ?c) [a..<b] = Some cs \<and>
        emitted cs = concat (map (meta_bytes (kv_n_pos kv) s ?c) [a..<b])"
      by (intro emit_over_emitted) blast
  qed
  then show ?thesis using c(3) rs by (simp add: state_write_meta_def concat_flat)
qed

subsection \<open>Rows of a tensor\<close>

definition unit_at :: "nat \<Rightarrow> bytes \<Rightarrow> nat \<Rightarrow> bytes" where
  "unit_at u t i = take u (drop (i * u) t)"

lemma units_slice: "a \<le> b \<Longrightarrow> concat (map (unit_at u t) [a..<b]) = take ((b - a) * u) (drop (a * u) t)"
proof (induction "b - a" arbitrary: a)
  case (Suc n)
  then have ab: "a < b" by simp
  then have "[a..<b] = a # [Suc a..<b]" by (rule upt_conv_Cons)
  moreover have "concat (map (unit_at u t) [Suc a..<b]) = take ((b - Suc a) * u) (drop (Suc a * u) t)"
    using Suc by (intro Suc.hyps(1)) auto
  moreover have "drop (Suc a * u) t = drop u (drop (a * u) t)" by (simp add: add.commute)
  moreover have "(b - a) * u = u + (b - Suc a) * u" using ab by (simp add: Suc_diff_Suc [symmetric])
  ultimately show ?case by (simp add: unit_at_def take_add)
qed simp

lemma write_ranges_units:
  assumes "\<forall>(a, b) \<in> set rs. a < b \<and> (off + b) * u \<le> length t"
  shows "\<exists>cs. write_ranges t off u rs = Some cs \<and> emitted cs = concat (map (\<lambda>i. unit_at u t (off + i)) (flat rs))"
proof -
  have "\<exists>cs. write_ranges t off u rs = Some cs \<and> emitted cs = concat (map (\<lambda>(a, b). concat (map (\<lambda>i. unit_at u t (off + i)) [a..<b])) rs)"
    unfolding write_ranges_def
  proof (rule emit_over_emitted, clarify)
    fix a b assume "(a, b) \<in> set rs"
    then have ab: "a < b" "(off + b) * u \<le> length t" using assms by auto
    have sz: "(off + a) * u + (b - a) * u = (off + b) * u" using ab(1) by (simp add: add_mult_distrib [symmetric])
    have "tensor_get t ((off + a) * u) ((b - a) * u) = Some (take ((b - a) * u) (drop ((off + a) * u) t))"
      using ab(2) by (simp only: tensor_get_def sz if_True)
    moreover have "map (\<lambda>i. unit_at u t (off + i)) [a..<b] = map (unit_at u t) [off + a..<off + b]"
      by (rule nth_equalityI) (simp_all add: add.assoc)
    moreover have "concat (map (unit_at u t) [off + a..<off + b]) = take ((b - a) * u) (drop ((off + a) * u) t)"
      using units_slice [of "off + a" "off + b" u t] ab(1) by simp
    ultimately show "\<exists>cs. Option.bind (tensor_get t ((off + a) * u) ((b - a) * u)) (\<lambda>x. Some [Io_tensor x]) = Some cs \<and>
        emitted cs = concat (map (\<lambda>i. unit_at u t (off + i)) [a..<b])" by simp
  qed
  then show ?thesis by (simp add: concat_flat)
qed

text \<open>Writing units back into a tensor.\<close>

definition units_set :: "nat \<Rightarrow> bytes \<Rightarrow> nat list \<Rightarrow> bytes list \<Rightarrow> bytes \<Rightarrow> bool" where
  "units_set u t us bs t' \<longleftrightarrow> length t' = length t \<and> (\<forall>(x, b) \<in> set (zip us bs). unit_at u t' x = b) \<and>
     (\<forall>i. Suc i * u \<le> length t \<longrightarrow> i \<notin> set us \<longrightarrow> unit_at u t' i = unit_at u t i)"

lemma unit_after_set:
  assumes "Suc i * u \<le> length t" "length b = u" "Suc k * u \<le> length t"
  shows "unit_at u (take (i * u) t @ b @ drop (i * u + u) t) k = (if k = i then b else unit_at u t k)"
proof -
  consider "k < i" | "k = i" | "i < k" by linarith
  then show ?thesis
  proof cases
    case 1
    then have "Suc k * u \<le> i * u" by (intro mult_le_mono1) simp
    then have le: "k * u + u \<le> i * u" "i * u \<le> length t" using assms(1) by simp_all
    then have "u \<le> i * u - k * u" by linarith
    then have "take u (drop (k * u) (take (i * u) t)) = take u (drop (k * u) t)" "u \<le> length (drop (k * u) (take (i * u) t))"
      using le by (simp_all add: drop_take min_absorb1 min_absorb2)
    then show ?thesis using 1 by (simp add: unit_at_def)
  next
    case 2
    have "i * u \<le> length t" using assms(1) by simp
    then show ?thesis using 2 assms(2) by (simp add: unit_at_def)
  next
    case 3
    then have "Suc i * u \<le> k * u" by (intro mult_le_mono1) simp
    then have "i * u + u \<le> k * u" "i * u \<le> length t" using assms(1) by simp_all
    then show ?thesis using 3 assms(2) by (simp add: unit_at_def)
  qed
qed

lemma tensor_set_unit:
  assumes "Suc i * u \<le> length t" "length b = u"
  shows "tensor_set t (i * u) b = Some (take (i * u) t @ b @ drop (i * u + u) t)"
  using assms by (simp add: tensor_set_def add.commute)

lemma read_blocks_units:
  assumes "length bs = length us" "\<forall>b \<in> set bs. length b = u" "\<forall>i \<in> set us. Suc i * u \<le> length t" "distinct us"
  shows "\<exists>t'. read_blocks u (map (\<lambda>i. i * u) us) t (reader (concat bs @ rest) n) =
      Some (Io_ok, t', reader rest (n + length us * u)) \<and> units_set u t us bs t'"
  using assms
proof (induction us arbitrary: bs t n)
  case Nil
  then show ?case by (simp add: units_set_def)
next
  case (Cons i us)
  then obtain b bs' where bs: "bs = b # bs'" by (cases bs) auto
  let ?t = "take (i * u) t @ b @ drop (i * u + u) t"
  have b: "length b = u" "Suc i * u \<le> length t" using Cons.prems bs by auto
  have len: "length ?t = length t" using b by simp
  have unit: "unit_at u ?t k = (if k = i then b else unit_at u t k)" if "Suc k * u \<le> length t" for k
    using unit_after_set [OF b(2,1) that] .
  obtain t' where t': "read_blocks u (map (\<lambda>i. i * u) us) ?t (reader (concat bs' @ rest) (n + u)) =
      Some (Io_ok, t', reader rest (n + u + length us * u))" "units_set u ?t us bs' t'"
  proof -
    have "length bs' = length us" "\<forall>b \<in> set bs'. length b = u" "distinct us" using Cons.prems bs by auto
    moreover have "\<forall>i \<in> set us. Suc i * u \<le> length ?t" unfolding len using Cons.prems(3) by simp
    ultimately show ?thesis using Cons.IH [of bs' ?t "n + u"] that by blast
  qed
  have "read_blocks u (map (\<lambda>i. i * u) (i # us)) t (reader (concat bs @ rest) n) =
      Some (Io_ok, t', reader rest (n + length (i # us) * u))"
    using t'(1) b by (simp add: bs host_read_reader tensor_set_unit add.assoc)
  moreover have "units_set u t (i # us) bs t'"
    unfolding units_set_def
  proof (intro conjI allI impI)
    show "length t' = length t" using t'(2) len by (simp add: units_set_def)
    have "unit_at u t' i = unit_at u ?t i" using t'(2) Cons.prems(4) b len unfolding units_set_def by simp
    then have "unit_at u t' i = b" using unit [OF b(2)] by simp
    then show "\<forall>(x, b) \<in> set (zip (i # us) bs). unit_at u t' x = b" using t'(2) by (simp add: units_set_def bs)
  next
    fix k assume k: "Suc k * u \<le> length t" "k \<notin> set (i # us)"
    then have "unit_at u t' k = unit_at u ?t k" using t'(2) len unfolding units_set_def by simp
    then show "unit_at u t' k = unit_at u t k" using unit [OF k(1)] k(2) by simp
  qed
  ultimately show ?case by blast
qed

text \<open>A block of several units is read like its units one by one.\<close>

lemma read_units_block:
  assumes "length b = cnt * u" "(off + cnt) * u \<le> length t"
  shows "read_blocks u (map (\<lambda>i. i * u) [off..<off + cnt]) t (reader (b @ rest) n) =
    Some (Io_ok, take (off * u) t @ b @ drop ((off + cnt) * u) t, reader rest (n + cnt * u))"
  using assms
proof (induction cnt arbitrary: off b t n)
  case (Suc cnt)
  let ?b0 = "take u b" and ?b1 = "drop u b"
  let ?t = "take (off * u) t @ ?b0 @ drop (off * u + u) t"
  have len: "length ?b0 = u" "length ?b1 = cnt * u" "Suc off * u \<le> length t"
    using Suc.prems by (simp_all add: add_mult_distrib)
  have tl: "length ?t = length t" using len by simp
  have bnd: "(Suc off + cnt) * u \<le> length t" using Suc.prems(2) by simp
  have "read_blocks u (map (\<lambda>i. i * u) [Suc off..<Suc off + cnt]) ?t (reader (?b1 @ rest) (n + u)) =
      Some (Io_ok, take (Suc off * u) ?t @ ?b1 @ drop ((Suc off + cnt) * u) ?t, reader rest (n + u + cnt * u))"
    by (rule Suc.IH [OF len(2)]) (use bnd tl in simp)
  moreover have "take (Suc off * u) ?t = take (off * u) t @ ?b0" using len by simp
  moreover have "drop ((Suc off + cnt) * u) ?t = drop ((off + Suc cnt) * u) t"
  proof -
    have "off * u \<le> length t" using len(3) by simp
    then have "drop ((Suc off + cnt) * u) ?t = drop (cnt * u) (drop (off * u + u) t)"
      using len(1) by (simp add: add_mult_distrib)
    then show ?thesis by (simp add: add_mult_distrib add_ac)
  qed
  moreover have "[off..<off + Suc cnt] = off # [Suc off..<Suc off + cnt]" by (subst upt_conv_Cons) simp_all
  moreover have "reader (b @ rest) n = reader (?b0 @ ?b1 @ rest) n" by (simp only: append_assoc [symmetric] append_take_drop_id)
  ultimately show ?case
    using len(1,3) by (simp only: list.map read_blocks.simps host_read_reader [OF len(1)] option.case prod.case
        tensor_set_unit [OF len(3,1)] bind.bind_lunit) (simp add: add.assoc)
qed (simp add: reader_def)

lemma read_blocks_append:
  "read_blocks u (xs @ ys) t r = Option.bind (read_blocks u xs t r)
     (\<lambda>(res, t, r). if res = Io_ok then read_blocks u ys t r else Some (res, t, r))"
  by (induction u xs t r rule: read_blocks.induct) (auto split: option.splits bind_splits)

lemma read_blocks_units_eq:
  assumes "length bs = length os" "\<forall>b \<in> set bs. length b = cnt * u" "\<forall>off \<in> set os. (off + cnt) * u \<le> length t"
  shows "read_blocks (cnt * u) (map (\<lambda>i. i * u) os) t (reader (concat bs @ rest) n) =
    read_blocks u (map (\<lambda>i. i * u) (concat (map (\<lambda>i. [i..<i + cnt]) os))) t (reader (concat bs @ rest) n)"
  using assms
proof (induction os arbitrary: bs t n)
  case (Cons off os)
  then obtain b bs' where bs: "bs = b # bs'" by (cases bs) auto
  let ?t = "take (off * u) t @ b @ drop ((off + cnt) * u) t"
  have b: "length b = cnt * u" "(off + cnt) * u \<le> length t" using Cons.prems bs by auto
  have off: "off * u + cnt * u \<le> length t" using b(2) by (simp add: add_mult_distrib)
  have set: "tensor_set t (off * u) b = Some ?t" using b(1) off by (simp add: tensor_set_def add_mult_distrib)
  have "length ?t = length t" using b off by (simp add: add_mult_distrib)
  then have IH: "read_blocks (cnt * u) (map (\<lambda>i. i * u) os) ?t (reader (concat bs' @ rest) (n + cnt * u)) =
      read_blocks u (map (\<lambda>i. i * u) (concat (map (\<lambda>i. [i..<i + cnt]) os))) ?t (reader (concat bs' @ rest) (n + cnt * u))"
    using Cons.prems bs by (intro Cons.IH) auto
  have r: "reader (concat bs @ rest) n = reader (b @ concat bs' @ rest) n" by (simp add: bs)
  show ?case
    unfolding r list.map concat.simps map_append read_blocks_append read_units_block [OF b]
    using IH set by (simp add: host_read_reader [OF b(1)])
qed simp

lemma contiguous_slot:
  assumes "si_idxs si = [dst]" "dst \<noteq> []" "si_is_contiguous si"
  shows "si_head si = Some (dst ! 0)" "dst = [dst ! 0..<dst ! 0 + length dst]"
proof -
  show "si_head si = Some (dst ! 0)" using assms by (simp add: si_head_def)
  have run: "\<forall>i \<in> set [0..<length dst]. dst ! i = dst ! 0 + i"
    using assms unfolding si_is_contiguous_def Let_def by (simp only: list.distinct nth_Cons_0 if_False split: if_splits) simp
  show "dst = [dst ! 0..<dst ! 0 + length dst]"
  proof (rule nth_equalityI)
    fix i assume i: "i < length dst"
    have "dst ! i = dst ! 0 + i" by (rule bspec [OF run]) (simp add: i)
    also have "\<dots> = [dst ! 0..<dst ! 0 + length dst] ! i" using i by (intro nth_upt [symmetric]) simp
    finally show "dst ! i = [dst ! 0..<dst ! 0 + length dst] ! i" .
  qed simp
qed

lemma read_rows_spec:
  assumes si: "si_idxs si = [dst]" "length dst = cnt" "0 < cnt" "distinct dst" "\<forall>i \<in> set dst. i < kv_sz"
    and t: "length t = kv_sz * row" and bs: "length bs = cnt" "\<forall>b \<in> set bs. length b = row"
  shows "\<exists>t'. read_rows cnt si row t (reader (concat bs @ rest) n) = Some (Io_ok, t', reader rest (n + cnt * row)) \<and>
    units_set row t dst bs t'"
proof -
  have le: "Suc i * row \<le> length t" if "i \<in> set dst" for i
  proof -
    have "Suc i \<le> kv_sz" using si(5) that by (simp add: Suc_leI)
    then show ?thesis unfolding t by (rule mult_le_mono1)
  qed
  have "length bs = length dst" using bs(1) si(2) by simp
  from read_blocks_units [OF this bs(2) _ si(4), of t rest n] le obtain t' where
    t': "read_blocks row (map (\<lambda>i. i * row) dst) t (reader (concat bs @ rest) n) = Some (Io_ok, t', reader rest (n + length dst * row))"
      "units_set row t dst bs t'" by blast
  have ne: "dst \<noteq> []" using si(2,3) by auto
  have "read_rows cnt si row t (reader (concat bs @ rest) n) = read_blocks row (map (\<lambda>i. i * row) dst) t (reader (concat bs @ rest) n)"
  proof (cases "si_is_contiguous si")
    case True
    note C = contiguous_slot [OF si(1) ne True]
    let ?h = "dst ! 0"
    have len: "length (concat bs) = cnt * row" using bs by (simp add: length_concat sum_list_triv map_eq_conv cong: map_cong)
    have "last dst \<in> set dst" using ne by simp
    moreover have "last dst = ?h + cnt - 1" using C(2) si(2,3) by (metis add_gr_0 last_upt less_add_same_cancel1)
    ultimately have "(?h + cnt) * row \<le> length t" using le [of "last dst"] si(3) by simp
    then have "read_blocks (cnt * row) (map (\<lambda>i. i * row) [?h]) t (reader (concat [concat bs] @ rest) n) =
        read_blocks row (map (\<lambda>i. i * row) (concat (map (\<lambda>i. [i..<i + cnt]) [?h]))) t (reader (concat [concat bs] @ rest) n)"
      by (intro read_blocks_units_eq) (simp_all add: len)
    moreover have "[?h..<?h + cnt] = dst" using C(2) si(2) by simp
    ultimately show ?thesis using True C(1) si(3) by (simp add: read_rows_def)
  next
    case False
    have "map (\<lambda>i. dst ! i * row) [0..<cnt] = map (\<lambda>i. i * row) dst"
      using si(2) by (intro nth_equalityI) simp_all
    then show ?thesis using False si(1,3) by (simp add: read_rows_def)
  qed
  then show ?thesis using t' si(2) by auto
qed

lemma distinct_grid:
  assumes "distinct dst" "\<forall>i \<in> set dst. i < (m :: nat)"
  shows "distinct (concat (map (\<lambda>j. map (\<lambda>i. i + j * m) dst) [0..<n]))"
proof (induction n)
  case (Suc n)
  have "x + n * m \<noteq> y + j * m" if "x \<in> set dst" "y \<in> set dst" "j < n" for x y j
  proof -
    have "Suc j * m \<le> n * m" using that(3) by (intro mult_le_mono1) simp
    then show ?thesis using assms(2) that(2) by (auto simp: less_imp_neq)
  qed
  then have "set (map (\<lambda>i. i + n * m) dst) \<inter> set (concat (map (\<lambda>j. map (\<lambda>i. i + j * m) dst) [0..<n])) = {}"
    by fastforce
  then show ?case using Suc assms(1) by (auto simp: distinct_map)
qed simp

lemma read_els_spec:
  assumes si: "si_idxs si = [dst]" "length dst = cnt" "0 < cnt" "distinct dst" "\<forall>i \<in> set dst. i < kv_sz"
    and t: "length t = n_embd * kv_sz * el" and bs: "length bss = n_embd" "\<forall>bs \<in> set bss. length bs = cnt \<and> (\<forall>b \<in> set bs. length b = el)"
  defines "us \<equiv> concat (map (\<lambda>j. map (\<lambda>i. i + j * kv_sz) dst) [0..<n_embd])"
  shows "\<exists>t'. read_els kv_sz n_embd cnt si el t (reader (concat (concat bss) @ rest) n) =
      Some (Io_ok, t', reader rest (n + n_embd * cnt * el)) \<and> units_set el t us (concat bss) t'"
proof -
  have le: "Suc (i + j * kv_sz) * el \<le> length t" if "i \<in> set dst" "j < n_embd" for i j
  proof -
    have "Suc j * kv_sz \<le> n_embd * kv_sz" using that(2) by (intro mult_le_mono1) simp
    then have "Suc (i + j * kv_sz) \<le> n_embd * kv_sz" using si(5) that(1) by (auto simp: less_imp_le)
    then show ?thesis unfolding t by (rule mult_le_mono1)
  qed
  have us: "length us = n_embd * cnt" using si(2) by (simp add: us_def length_concat sum_list_triv comp_def)
  have "length (concat bss) = n_embd * cnt"
  proof -
    have "map length bss = replicate n_embd cnt" using bs by (intro nth_equalityI) simp_all
    then show ?thesis by (simp add: length_concat sum_list_replicate)
  qed
  then have len: "length (concat bss) = length us" using us by simp
  have units: "\<forall>b \<in> set (concat bss). length b = el" using bs(2) by auto
  have "distinct us" unfolding us_def by (rule distinct_grid [OF si(4,5)])
  from read_blocks_units [OF len units _ this, of t rest n] le obtain t' where
    t': "read_blocks el (map (\<lambda>i. i * el) us) t (reader (concat (concat bss) @ rest) n) = Some (Io_ok, t', reader rest (n + length us * el))"
      "units_set el t us (concat bss) t'" by (auto simp: us_def)
  have ne: "dst \<noteq> []" using si(2,3) by auto
  have "read_els kv_sz n_embd cnt si el t (reader (concat (concat bss) @ rest) n) =
      read_blocks el (map (\<lambda>i. i * el) us) t (reader (concat (concat bss) @ rest) n)"
  proof (cases "si_is_contiguous si")
    case True
    note C = contiguous_slot [OF si(1) ne True]
    let ?h = "dst ! 0" and ?os = "map (\<lambda>j. dst ! 0 + j * kv_sz) [0..<n_embd]"
    have cc: "concat (map concat bss) = concat (concat bss)" by (induction bss) simp_all
    have block: "\<forall>b \<in> set (map concat bss). length b = cnt * el"
    proof
      fix b assume "b \<in> set (map concat bss)"
      then obtain g where g: "g \<in> set bss" "b = concat g" by auto
      then have "map length g = replicate cnt el" using bs(2) by (intro nth_equalityI) simp_all
      then show "length b = cnt * el" by (simp add: g(2) length_concat sum_list_replicate)
    qed
    have last: "last dst \<in> set dst" "last dst = ?h + cnt - 1"
      using C(2) si(2,3) ne by (simp, metis add_gr_0 last_upt less_add_same_cancel1)
    have bound: "\<forall>off \<in> set ?os. (off + cnt) * el \<le> length t"
    proof
      fix off assume "off \<in> set ?os"
      then obtain j where j: "j < n_embd" "off = ?h + j * kv_sz" by auto
      have "off + cnt = Suc (last dst + j * kv_sz)" using j(2) last(2) si(3) by simp
      then show "(off + cnt) * el \<le> length t" using le [OF last(1) j(1)] by simp
    qed
    have "concat (map (\<lambda>i. [i..<i + cnt]) ?os) = us"
    proof -
      have "[?h + k..<?h + k + cnt] = map (\<lambda>i. i + k) dst" for k
      proof -
        have "map (\<lambda>i. i + k) [?h..<?h + cnt] = [?h + k..<?h + k + cnt]" by (rule nth_equalityI) simp_all
        then show ?thesis using C(2) si(2) by simp
      qed
      then show ?thesis by (simp add: us_def comp_def)
    qed
    with read_blocks_units_eq [OF _ block bound, of rest n] bs(1)
    have "read_blocks (cnt * el) (map (\<lambda>i. i * el) ?os) t (reader (concat (concat bss) @ rest) n) =
        read_blocks el (map (\<lambda>i. i * el) us) t (reader (concat (concat bss) @ rest) n)" by (simp only: cc length_map length_upt diff_zero)
    then show ?thesis using True C(1) si(3) by (simp add: read_els_def comp_def)
  next
    case False
    have "map (\<lambda>i. (dst ! i + k) * el) [0..<cnt] = map (\<lambda>i. (i + k) * el) dst" for k
      using si(2) by (intro nth_equalityI) simp_all
    then show ?thesis using False si(1,3) by (simp add: read_els_def us_def map_concat comp_def)
  qed
  then show ?thesis using t' us by auto
qed

end
