(* ===== verification/KvRestore.thy ===== *)
theory KvRestore
  imports KvState
begin

section \<open>A saved sequence is restored\<close>

text \<open>
  What \<open>state_read\<close> makes of the bytes \<open>state_write\<close> emitted for one sequence, possibly of another
  cache and under another sequence number: the cells come back with their positions, each with its
  rows of K and V.
\<close>

subsection \<open>Layers\<close>

definition fmt_ok :: "kv_layer \<Rightarrow> bool" where
  "fmt_ok ly \<longleftrightarrow> is_i32 (ly_k_type ly) \<and> ly_k_row ly < 2 ^ 64 \<and> is_i32 (ly_v_type ly) \<and> ly_v_row ly < 2 ^ 64 \<and>
     ly_v_el ly < 2 ^ 32 \<and> ly_n_embd_v ly < 2 ^ 32"

definition same_format :: "kv_layer \<Rightarrow> kv_layer \<Rightarrow> bool" where
  "same_format ly1 ly2 \<longleftrightarrow> ly_k_type ly1 = ly_k_type ly2 \<and> ly_k_row ly1 = ly_k_row ly2 \<and> ly_v_type ly1 = ly_v_type ly2 \<and>
     ly_v_row ly1 = ly_v_row ly2 \<and> ly_v_el ly1 = ly_v_el ly2 \<and> ly_n_embd_v ly1 = ly_n_embd_v ly2 \<and>
     (ly_v ly1 = None) = (ly_v ly2 = None)"

text \<open>The tensors have a row, or an element per embedding dimension, for every cell.\<close>

definition layer_ok :: "bool \<Rightarrow> nat \<Rightarrow> nat \<Rightarrow> kv_layer \<Rightarrow> bool" where
  "layer_ok tr kv_sz n_stream ly \<longleftrightarrow> fmt_ok ly \<and> length (ly_k ly) = n_stream \<and>
     (\<forall>t < n_stream. length (ly_k ly ! t) = kv_sz * ly_k_row ly) \<and>
     (\<forall>vs. ly_v ly = Some vs \<longrightarrow> length vs = n_stream \<and>
        (\<forall>t < n_stream. length (vs ! t) = (if tr then ly_n_embd_v ly * kv_sz * ly_v_el ly else kv_sz * ly_v_row ly)))"

definition k_cell :: "kv_layer \<Rightarrow> nat \<Rightarrow> nat \<Rightarrow> bytes" where
  "k_cell ly t i = unit_at (ly_k_row ly) (ly_k ly ! t) i"

definition v_cell :: "bool \<Rightarrow> nat \<Rightarrow> kv_layer \<Rightarrow> nat \<Rightarrow> nat \<Rightarrow> bytes list" where
  "v_cell tr kv_sz ly t i = (case ly_v ly of None \<Rightarrow> []
     | Some vs \<Rightarrow> if tr then map (\<lambda>j. unit_at (ly_v_el ly) (vs ! t) (i + j * kv_sz)) [0..<ly_n_embd_v ly]
                  else [unit_at (ly_v_row ly) (vs ! t) i])"

definition k_bytes :: "nat \<Rightarrow> nat list \<Rightarrow> kv_layer \<Rightarrow> bytes" where
  "k_bytes t idxs ly = put_i32 (ly_k_type ly) @ put_u64 (ly_k_row ly) @ concat (map (k_cell ly t) idxs)"

definition v_bytes :: "bool \<Rightarrow> nat \<Rightarrow> nat \<Rightarrow> nat list \<Rightarrow> kv_layer \<Rightarrow> bytes" where
  "v_bytes tr kv_sz t idxs ly = (case ly_v ly of None \<Rightarrow> []
     | Some vs \<Rightarrow> if tr
         then put_i32 (ly_v_type ly) @ put_u32 (ly_v_el ly) @ put_u32 (ly_n_embd_v ly) @
           concat (map (\<lambda>j. concat (map (\<lambda>i. unit_at (ly_v_el ly) (vs ! t) (i + j * kv_sz)) idxs)) [0..<ly_n_embd_v ly])
         else put_i32 (ly_v_type ly) @ put_u64 (ly_v_row ly) @ concat (map (unit_at (ly_v_row ly) (vs ! t)) idxs))"

lemma write_k_layer_bytes:
  assumes "layer_ok tr kv_sz n_stream ly" "t < n_stream" "\<forall>(a, b) \<in> set rs. a < b \<and> b \<le> kv_sz"
  shows "\<exists>cs. write_k_layer t rs ly = Some cs \<and> emitted cs = k_bytes t (flat rs) ly"
proof -
  have "\<forall>(a, b) \<in> set rs. a < b \<and> (0 + b) * ly_k_row ly \<le> length (ly_k ly ! t)"
    using assms by (auto simp: layer_ok_def)
  from write_ranges_units [OF this] obtain cs where
    "write_ranges (ly_k ly ! t) 0 (ly_k_row ly) rs = Some cs" "emitted cs = concat (map (k_cell ly t) (flat rs))"
    by (auto simp: k_cell_def [abs_def])
  then show ?thesis using assms by (simp add: write_k_layer_def layer_ok_def k_bytes_def)
qed

lemma write_v_layer_bytes:
  assumes "layer_ok False kv_sz n_stream ly" "t < n_stream" "\<forall>(a, b) \<in> set rs. a < b \<and> b \<le> kv_sz"
  shows "\<exists>cs. write_v_layer t rs ly = Some cs \<and> emitted cs = v_bytes False kv_sz t (flat rs) ly"
proof (cases "ly_v ly")
  case (Some vs)
  have vs: "length vs = n_stream" "length (vs ! t) = kv_sz * ly_v_row ly" using assms(1,2) Some by (auto simp: layer_ok_def)
  then have "\<forall>(a, b) \<in> set rs. a < b \<and> (0 + b) * ly_v_row ly \<le> length (vs ! t)" using assms(3) by auto
  from write_ranges_units [OF this] obtain cs where
    "write_ranges (vs ! t) 0 (ly_v_row ly) rs = Some cs" "emitted cs = concat (map (unit_at (ly_v_row ly) (vs ! t)) (flat rs))" by auto
  then show ?thesis using Some vs(1) assms(2) by (simp add: write_v_layer_def v_bytes_def)
qed (simp add: write_v_layer_def v_bytes_def)

lemma write_v_trans_layer_bytes:
  assumes "layer_ok True kv_sz n_stream ly" "t < n_stream" "\<forall>(a, b) \<in> set rs. a < b \<and> b \<le> kv_sz"
  shows "\<exists>cs. write_v_trans_layer kv_sz t rs ly = Some cs \<and> emitted cs = v_bytes True kv_sz t (flat rs) ly"
proof (cases "ly_v ly")
  case (Some vs)
  let ?el = "ly_v_el ly" and ?n = "ly_n_embd_v ly"
  have vs: "length vs = n_stream" "length (vs ! t) = ?n * kv_sz * ?el" using assms(1,2) Some by (auto simp: layer_ok_def)
  have "\<exists>cs. emit_over (\<lambda>j. write_ranges (vs ! t) (j * kv_sz) ?el rs) [0..<?n] = Some cs \<and>
      emitted cs = concat (map (\<lambda>j. concat (map (\<lambda>i. unit_at ?el (vs ! t) (j * kv_sz + i)) (flat rs))) [0..<?n])"
  proof (rule emit_over_emitted, intro ballI write_ranges_units)
    fix j x assume j: "j \<in> set [0..<?n]" and x: "x \<in> set rs"
    have "Suc j * kv_sz \<le> ?n * kv_sz" using j by (intro mult_le_mono1) simp
    then have "j * kv_sz + kv_sz \<le> ?n * kv_sz" by simp
    moreover have "snd x \<le> kv_sz" "fst x < snd x" using x assms(3) by auto
    ultimately have "j * kv_sz + snd x \<le> ?n * kv_sz" by linarith
    then have "(j * kv_sz + snd x) * ?el \<le> length (vs ! t)" unfolding vs(2) by (rule mult_le_mono1)
    then show "case x of (a, b) \<Rightarrow> a < b \<and> (j * kv_sz + b) * ?el \<le> length (vs ! t)"
      using \<open>fst x < snd x\<close> by (cases x) simp
  qed
  then show ?thesis using Some vs(1) assms(2) by (auto simp: write_v_trans_layer_def v_bytes_def add.commute)
qed (simp add: write_v_trans_layer_def v_bytes_def)

text \<open>Reading one layer's K, and its V.\<close>

definition slot_at :: "slot_info \<Rightarrow> nat \<Rightarrow> nat list \<Rightarrow> bool" where
  "slot_at si kv_sz dst \<longleftrightarrow> si_idxs si = [dst] \<and> dst \<noteq> [] \<and> distinct dst \<and> (\<forall>i \<in> set dst. i < kv_sz)"

lemma length_k_cell:
  assumes "layer_ok tr kv_sz n_stream ly" "t < n_stream" "i < kv_sz"
  shows "length (k_cell ly t i) = ly_k_row ly" "Suc i * ly_k_row ly \<le> length (ly_k ly ! t)"
proof -
  have len: "length (ly_k ly ! t) = kv_sz * ly_k_row ly" using assms(1,2) by (simp add: layer_ok_def)
  have "Suc i \<le> kv_sz" using assms(3) by simp
  then show le: "Suc i * ly_k_row ly \<le> length (ly_k ly ! t)" unfolding len by (rule mult_le_mono1)
  then have "ly_k_row ly \<le> length (ly_k ly ! t) - i * ly_k_row ly" by simp
  then show "length (k_cell ly t i) = ly_k_row ly" by (simp add: k_cell_def unit_at_def min_absorb2)
qed

lemma read_k_layer_spec:
  assumes l1: "layer_ok tr sz1 ns1 ly1" "t1 < ns1" and l2: "layer_ok tr sz2 ns2 ly" "t2 < ns2" and fmt: "same_format ly1 ly"
    and src: "\<forall>i \<in> set src. i < sz1" and si: "slot_at si sz2 dst" and len: "length src = length dst"
  shows "\<exists>k'. read_k_layer t2 (length dst) si ly (reader (k_bytes t1 src ly1 @ rest) n) =
      Some (Io_ok, ly\<lparr>ly_k := (ly_k ly)[t2 := k']\<rparr>, reader rest (n + length (k_bytes t1 src ly1))) \<and>
    units_set (ly_k_row ly) (ly_k ly ! t2) dst (map (k_cell ly1 t1) src) k'"
proof -
  let ?row = "ly_k_row ly" and ?bs = "map (k_cell ly1 t1) src"
  have F: "ly_k_type ly1 = ly_k_type ly" "ly_k_row ly1 = ?row" using fmt by (simp_all add: same_format_def)
  have bs: "\<forall>b \<in> set ?bs. length b = ?row" using length_k_cell(1) [OF l1] src F(2) by simp
  have k: "length (ly_k ly ! t2) = sz2 * ?row" "t2 < length (ly_k ly)" using l2 by (simp_all add: layer_ok_def)
  have S: "si_idxs si = [dst]" "0 < length dst" "distinct dst" "\<forall>i \<in> set dst. i < sz2" using si by (simp_all add: slot_at_def)
  from read_rows_spec [OF S(1) refl S(2-4) k(1) _ bs, of rest "n + 4 + 8"] len obtain k' where
    k': "read_rows (length dst) si ?row (ly_k ly ! t2) (reader (concat ?bs @ rest) (n + 4 + 8)) =
        Some (Io_ok, k', reader rest (n + 4 + 8 + length dst * ?row))" "units_set ?row (ly_k ly ! t2) dst ?bs k'" by auto
  have "map length ?bs = replicate (length dst) ?row" using bs len by (intro nth_equalityI) auto
  then have "length (concat ?bs) = length dst * ?row" by (simp only: length_concat sum_list_replicate) simp
  then have l: "length (k_bytes t1 src ly1) = 4 + 8 + length dst * ?row" by (simp add: k_bytes_def)
  have "is_i32 (ly_k_type ly)" "?row < 2 ^ 64" using l2(1) by (simp_all add: layer_ok_def fmt_ok_def)
  then have "read_k_layer t2 (length dst) si ly (reader (k_bytes t1 src ly1 @ rest) n) =
      Some (Io_ok, ly\<lparr>ly_k := (ly_k ly)[t2 := k']\<rparr>, reader rest (n + length (k_bytes t1 src ly1)))"
    using k(2) k'(1) F l by (simp add: read_k_layer_def k_bytes_def get_i32_reader get_u64_reader add.assoc)
  with k'(2) show ?thesis by blast
qed

text \<open>What a restored layer has, seen from the cells.\<close>

definition k_restored :: "nat \<Rightarrow> nat \<Rightarrow> nat list \<Rightarrow> kv_layer \<Rightarrow> nat \<Rightarrow> nat list \<Rightarrow> kv_layer \<Rightarrow> kv_layer \<Rightarrow> bool" where
  "k_restored sz2 t1 src ly1 t2 dst ly ly' \<longleftrightarrow> same_format ly ly' \<and> ly_v ly' = ly_v ly \<and>
     (\<forall>t. t \<noteq> t2 \<longrightarrow> ly_k ly' ! t = ly_k ly ! t) \<and>
     (\<forall>(i, j) \<in> set (zip dst src). k_cell ly' t2 i = k_cell ly1 t1 j) \<and>
     (\<forall>i < sz2. i \<notin> set dst \<longrightarrow> k_cell ly' t2 i = k_cell ly t2 i)"

definition v_restored :: "bool \<Rightarrow> nat \<Rightarrow> nat \<Rightarrow> nat \<Rightarrow> nat list \<Rightarrow> kv_layer \<Rightarrow> nat \<Rightarrow> nat list \<Rightarrow> kv_layer \<Rightarrow> kv_layer \<Rightarrow> bool" where
  "v_restored tr sz1 sz2 t1 src ly1 t2 dst ly ly' \<longleftrightarrow> same_format ly ly' \<and> ly_k ly' = ly_k ly \<and>
     (\<forall>t i. t \<noteq> t2 \<longrightarrow> v_cell tr sz2 ly' t i = v_cell tr sz2 ly t i) \<and>
     (\<forall>(i, j) \<in> set (zip dst src). v_cell tr sz2 ly' t2 i = v_cell tr sz1 ly1 t1 j) \<and>
     (\<forall>i < sz2. i \<notin> set dst \<longrightarrow> v_cell tr sz2 ly' t2 i = v_cell tr sz2 ly t2 i)"

lemma units_setD:
  assumes "units_set u t us (map g src) t'" "length src = length us"
  shows "(x, y) \<in> set (zip us src) \<Longrightarrow> unit_at u t' x = g y"
    "Suc i * u \<le> length t \<Longrightarrow> i \<notin> set us \<Longrightarrow> unit_at u t' i = unit_at u t i" "length t' = length t"
  using assms by (auto simp: units_set_def zip_map2)

lemma read_k_restored:
  assumes l1: "layer_ok tr sz1 ns1 ly1" "t1 < ns1" and l2: "layer_ok tr sz2 ns2 ly" "t2 < ns2" and fmt: "same_format ly1 ly"
    and src: "\<forall>i \<in> set src. i < sz1" and si: "slot_at si sz2 dst" and len: "length src = length dst"
  shows "\<exists>ly'. read_k_layer t2 (length dst) si ly (reader (k_bytes t1 src ly1 @ rest) n) =
      Some (Io_ok, ly', reader rest (n + length (k_bytes t1 src ly1))) \<and>
    k_restored sz2 t1 src ly1 t2 dst ly ly' \<and> layer_ok tr sz2 ns2 ly'"
proof -
  from read_k_layer_spec [OF assms, of rest n] obtain k' where
    run: "read_k_layer t2 (length dst) si ly (reader (k_bytes t1 src ly1 @ rest) n) =
      Some (Io_ok, ly\<lparr>ly_k := (ly_k ly)[t2 := k']\<rparr>, reader rest (n + length (k_bytes t1 src ly1)))" and
    units: "units_set (ly_k_row ly) (ly_k ly ! t2) dst (map (k_cell ly1 t1) src) k'" by blast
  note U = units_setD [OF units len]
  let ?ly = "ly\<lparr>ly_k := (ly_k ly)[t2 := k']\<rparr>"
  have t2: "t2 < length (ly_k ly)" using l2 by (simp add: layer_ok_def)
  have k: "k_cell ?ly t2 i = unit_at (ly_k_row ly) k' i" for i using t2 by (simp add: k_cell_def)
  have "k_cell ?ly t2 i = k_cell ly t2 i" if "i < sz2" "i \<notin> set dst" for i
    unfolding k using U(2) [OF length_k_cell(2) [OF l2 that(1)] that(2)] by (simp add: k_cell_def)
  then have "k_restored sz2 t1 src ly1 t2 dst ly ?ly"
    using U(1) k by (auto simp: k_restored_def same_format_def)
  moreover have "layer_ok tr sz2 ns2 ?ly"
    using l2 U(3) by (auto simp: layer_ok_def fmt_ok_def nth_list_update)
  ultimately show ?thesis using run by blast
qed

lemma length_v_unit:
  assumes "layer_ok False kv_sz n_stream ly" "t < n_stream" "i < kv_sz" "ly_v ly = Some vs"
  shows "length (unit_at (ly_v_row ly) (vs ! t) i) = ly_v_row ly" "Suc i * ly_v_row ly \<le> length (vs ! t)"
proof -
  have len: "length (vs ! t) = kv_sz * ly_v_row ly" using assms by (simp add: layer_ok_def)
  have "Suc i \<le> kv_sz" using assms(3) by simp
  then show le: "Suc i * ly_v_row ly \<le> length (vs ! t)" unfolding len by (rule mult_le_mono1)
  then have "ly_v_row ly \<le> length (vs ! t) - i * ly_v_row ly" by simp
  then show "length (unit_at (ly_v_row ly) (vs ! t) i) = ly_v_row ly" by (simp add: unit_at_def min_absorb2)
qed

lemma read_v_restored:
  assumes l1: "layer_ok False sz1 ns1 ly1" "t1 < ns1" and l2: "layer_ok False sz2 ns2 ly" "t2 < ns2" and fmt: "same_format ly1 ly"
    and src: "\<forall>i \<in> set src. i < sz1" and si: "slot_at si sz2 dst" and len: "length src = length dst"
  shows "\<exists>ly'. read_v_layer t2 (length dst) si ly (reader (v_bytes False sz1 t1 src ly1 @ rest) n) =
      Some (Io_ok, ly', reader rest (n + length (v_bytes False sz1 t1 src ly1))) \<and>
    v_restored False sz1 sz2 t1 src ly1 t2 dst ly ly'"
proof (cases "ly_v ly")
  case None
  then have "ly_v ly1 = None" using fmt by (simp add: same_format_def)
  then show ?thesis using None
    by (auto simp: read_v_layer_def v_bytes_def v_restored_def same_format_def v_cell_def intro!: exI [of _ ly])
next
  case (Some vs)
  then obtain vs1 where vs1: "ly_v ly1 = Some vs1" using fmt by (auto simp: same_format_def)
  let ?row = "ly_v_row ly" and ?g = "unit_at (ly_v_row ly1) (vs1 ! t1)"
  have F: "ly_v_type ly1 = ly_v_type ly" "ly_v_row ly1 = ?row" using fmt by (simp_all add: same_format_def)
  have bs: "\<forall>b \<in> set (map ?g src). length b = ?row" using length_v_unit(1) [OF l1 _ vs1] src F(2) by simp
  have v: "length (vs ! t2) = sz2 * ?row" "t2 < length vs" using l2 Some by (simp_all add: layer_ok_def)
  have S: "si_idxs si = [dst]" "0 < length dst" "distinct dst" "\<forall>i \<in> set dst. i < sz2" using si by (simp_all add: slot_at_def)
  from read_rows_spec [OF S(1) refl S(2-4) v(1) _ bs, of rest "n + 4 + 8"] len obtain v' where
    v': "read_rows (length dst) si ?row (vs ! t2) (reader (concat (map ?g src) @ rest) (n + 4 + 8)) =
        Some (Io_ok, v', reader rest (n + 4 + 8 + length dst * ?row))" "units_set ?row (vs ! t2) dst (map ?g src) v'" by auto
  have "map length (map ?g src) = replicate (length dst) ?row" using bs len by (intro nth_equalityI) auto
  then have "length (concat (map ?g src)) = length dst * ?row" by (simp only: length_concat sum_list_replicate) simp
  then have l: "length (v_bytes False sz1 t1 src ly1) = 4 + 8 + length dst * ?row" by (simp add: v_bytes_def vs1)
  let ?ly = "ly\<lparr>ly_v := Some (vs[t2 := v'])\<rparr>"
  have "is_i32 (ly_v_type ly)" "?row < 2 ^ 64" using l2(1) by (simp_all add: layer_ok_def fmt_ok_def)
  then have run: "read_v_layer t2 (length dst) si ly (reader (v_bytes False sz1 t1 src ly1 @ rest) n) =
      Some (Io_ok, ?ly, reader rest (n + length (v_bytes False sz1 t1 src ly1)))"
    using Some v(2) v'(1) F l by (simp add: read_v_layer_def v_bytes_def vs1 get_i32_reader get_u64_reader add.assoc)
  note U = units_setD [OF v'(2) len]
  have k: "v_cell False sz2 ?ly t2 i = [unit_at ?row v' i]" for i using v(2) by (simp add: v_cell_def)
  have "v_cell False sz2 ?ly t2 i = v_cell False sz2 ly t2 i" if "i < sz2" "i \<notin> set dst" for i
    unfolding k using U(2) [OF length_v_unit(2) [OF l2 that(1) Some] that(2)] Some by (simp add: v_cell_def)
  moreover have "v_cell False sz2 ?ly t2 i = v_cell False sz1 ly1 t1 j" if "(i, j) \<in> set (zip dst src)" for i j
    unfolding k using U(1) [OF that] vs1 by (simp add: v_cell_def)
  ultimately have "v_restored False sz1 sz2 t1 src ly1 t2 dst ly ?ly"
    using Some unfolding v_restored_def by (auto simp: same_format_def v_cell_def)
  with run show ?thesis by blast
qed

lemma length_v_el:
  assumes "layer_ok True kv_sz n_stream ly" "t < n_stream" "i < kv_sz" "j < ly_n_embd_v ly" "ly_v ly = Some vs"
  shows "length (unit_at (ly_v_el ly) (vs ! t) (i + j * kv_sz)) = ly_v_el ly" "Suc (i + j * kv_sz) * ly_v_el ly \<le> length (vs ! t)"
proof -
  have len: "length (vs ! t) = ly_n_embd_v ly * kv_sz * ly_v_el ly" using assms by (simp add: layer_ok_def)
  have "Suc j * kv_sz \<le> ly_n_embd_v ly * kv_sz" using assms(4) by (intro mult_le_mono1) simp
  then have "Suc (i + j * kv_sz) \<le> ly_n_embd_v ly * kv_sz" using assms(3) by simp
  then show le: "Suc (i + j * kv_sz) * ly_v_el ly \<le> length (vs ! t)" unfolding len by (rule mult_le_mono1)
  then have "ly_v_el ly \<le> length (vs ! t) - (i + j * kv_sz) * ly_v_el ly" by simp
  then show "length (unit_at (ly_v_el ly) (vs ! t) (i + j * kv_sz)) = ly_v_el ly" by (simp add: unit_at_def min_absorb2)
qed

lemma zip_concat: "list_all2 (\<lambda>a b. length a = length b) as bs \<Longrightarrow> zip (concat as) (concat bs) = concat (map2 zip as bs)"
  by (induction rule: list_all2_induct) simp_all

lemma length_units: "\<forall>b \<in> set bs. length b = u \<Longrightarrow> length (concat bs) = length bs * u"
  by (induction bs) simp_all

lemma concat_twice: "concat (concat xss) = concat (map concat xss)"
  by (induction xss) simp_all

lemma in_grid:
  fixes i x m :: nat
  assumes "i < m" "x < m" and eq: "i + j * m = x + k * m"
  shows "i = x"
proof -
  have "i = (i + j * m) mod m" using assms(1) by simp
  also have "\<dots> = x" unfolding eq using assms(2) by simp
  finally show ?thesis .
qed

lemma read_v_trans_restored:
  assumes l1: "layer_ok True sz1 ns1 ly1" "t1 < ns1" and l2: "layer_ok True sz2 ns2 ly" "t2 < ns2" and fmt: "same_format ly1 ly"
    and src: "\<forall>i \<in> set src. i < sz1" and si: "slot_at si sz2 dst" and len: "length src = length dst"
  shows "\<exists>ly'. read_v_trans_layer sz2 t2 (length dst) si ly (reader (v_bytes True sz1 t1 src ly1 @ rest) n) =
      Some (Io_ok, ly', reader rest (n + length (v_bytes True sz1 t1 src ly1))) \<and>
    v_restored True sz1 sz2 t1 src ly1 t2 dst ly ly'"
proof (cases "ly_v ly")
  case None
  then have "ly_v ly1 = None" using fmt by (simp add: same_format_def)
  then show ?thesis using None
    by (auto simp: read_v_trans_layer_def v_bytes_def v_restored_def same_format_def v_cell_def intro!: exI [of _ ly])
next
  case (Some vs)
  then obtain vs1 where vs1: "ly_v ly1 = Some vs1" using fmt by (auto simp: same_format_def)
  let ?el = "ly_v_el ly" and ?m = "ly_n_embd_v ly" and ?g = "\<lambda>j i. unit_at (ly_v_el ly) (vs1 ! t1) (i + j * sz1)"
  let ?bss = "map (\<lambda>j. map (?g j) src) [0..<?m]" and ?us = "concat (map (\<lambda>j. map (\<lambda>i. i + j * sz2) dst) [0..<?m])"
  have F: "ly_v_type ly1 = ly_v_type ly" "ly_v_el ly1 = ?el" "ly_n_embd_v ly1 = ?m" using fmt by (simp_all add: same_format_def)
  have bs: "length ?bss = ?m" "\<forall>bs \<in> set ?bss. length bs = length dst \<and> (\<forall>b \<in> set bs. length b = ?el)"
    using length_v_el(1) [OF l1 _ _ vs1, unfolded F] src len by auto
  have v: "length (vs ! t2) = ?m * sz2 * ?el" "t2 < length vs" using l2 Some by (simp_all add: layer_ok_def)
  have S: "si_idxs si = [dst]" "0 < length dst" "distinct dst" "\<forall>i \<in> set dst. i < sz2" using si by (simp_all add: slot_at_def)
  from read_els_spec [OF S(1) refl S(2-4) v(1) bs, of rest "n + 4 + 4 + 4"] obtain v' where
    v': "read_els sz2 ?m (length dst) si ?el (vs ! t2) (reader (concat (concat ?bss) @ rest) (n + 4 + 4 + 4)) =
        Some (Io_ok, v', reader rest (n + 4 + 4 + 4 + ?m * length dst * ?el))" "units_set ?el (vs ! t2) ?us (concat ?bss) v'" by blast
  have cc: "concat (concat ?bss) = concat (map (\<lambda>j. concat (map (?g j) src)) [0..<?m])" by (simp add: concat_twice comp_def)
  have "map length ?bss = replicate ?m (length dst)" using len by (intro nth_equalityI) simp_all
  then have n_units: "length (concat ?bss) = ?m * length dst" by (simp only: length_concat sum_list_replicate) simp
  have "\<forall>b \<in> set (concat ?bss). length b = ?el" using bs(2) by auto
  from length_units [OF this] have "length (concat (concat ?bss)) = ?m * length dst * ?el" unfolding n_units .
  moreover have vb: "v_bytes True sz1 t1 src ly1 = put_i32 (ly_v_type ly) @ put_u32 ?el @ put_u32 ?m @ concat (concat ?bss)"
    by (simp only: v_bytes_def vs1 option.case F if_True cc)
  ultimately have l: "length (v_bytes True sz1 t1 src ly1) = 4 + (4 + (4 + ?m * length dst * ?el))" by simp
  let ?ly = "ly\<lparr>ly_v := Some (vs[t2 := v'])\<rparr>"
  let ?b = "concat (concat ?bss)"
  have fmt: "is_i32 (ly_v_type ly)" "?el < 2 ^ 32" "?m < 2 ^ 32" using l2(1) by (simp_all add: layer_ok_def fmt_ok_def)
  have run: "read_v_trans_layer sz2 t2 (length dst) si ly (reader (v_bytes True sz1 t1 src ly1 @ rest) n) =
      Some (Io_ok, ?ly, reader rest (n + length (v_bytes True sz1 t1 src ly1)))"
    unfolding read_v_trans_layer_def Some option.case at_idx_Some [OF v(2)] bind.bind_lunit vb append_assoc
      get_i32_reader [OF fmt(1)] prod.case get_u32_reader [OF fmt(2)] get_u32_reader [OF fmt(3)] v'(1)
    using l unfolding vb by (simp add: add.assoc)
  have k: "v_cell True sz2 ?ly t2 i = map (\<lambda>j. unit_at ?el v' (i + j * sz2)) [0..<?m]" for i using v(2) by (simp add: v_cell_def)
  have grid: "unit_at ?el v' (i + j * sz2) = ?g j y" if "(i, y) \<in> set (zip dst src)" "j < ?m" for i j y
  proof -
    have "(i + j * sz2, ?g j y) \<in> set (zip (map (\<lambda>i. i + j * sz2) dst) (map (?g j) src))"
      using that(1) len by (auto simp: zip_map_map)
    moreover have "zip (map (\<lambda>i. i + j * sz2) dst) (map (?g j) src) \<in>
        set (map (\<lambda>j. zip (map (\<lambda>i. i + j * sz2) dst) (map (?g j) src)) [0..<?m])"
      using that(2) by (simp only: set_map set_upt) (rule imageI, simp)
    ultimately have "(i + j * sz2, ?g j y) \<in> set (concat (map (\<lambda>j. zip (map (\<lambda>i. i + j * sz2) dst) (map (?g j) src)) [0..<?m]))"
      unfolding set_concat by blast
    also have "\<dots> = set (zip ?us (concat ?bss))"
      by (subst zip_concat) (simp_all add: list_all2_map1 list_all2_map2 list_all2_same len map2_map_map)
    finally show ?thesis using v'(2) by (auto simp: units_set_def)
  qed
  have other: "unit_at ?el v' (i + j * sz2) = unit_at ?el (vs ! t2) (i + j * sz2)" if "i < sz2" "i \<notin> set dst" "j < ?m" for i j
  proof -
    have "i + j * sz2 \<notin> set ?us" using that S(4) by (auto dest: in_grid)
    then show ?thesis using v'(2) length_v_el(2) [OF l2 that(1,3) Some] by (simp add: units_set_def)
  qed
  have "v_restored True sz1 sz2 t1 src ly1 t2 dst ly ?ly"
    unfolding v_restored_def
  proof (intro conjI allI impI ballI, goal_cases)
    case (4 p)
    obtain i y where "p = (i, y)" by (cases p)
    with 4 have p: "p = (i, y)" "(i, y) \<in> set (zip dst src)" by blast+
    then show ?case using grid [OF p(2)] vs1 F unfolding p(1) prod.case k by (simp add: v_cell_def)
  next
    case (5 i)
    then show ?case unfolding k using other Some by (simp add: v_cell_def)
  qed (use Some in \<open>auto simp: same_format_def v_cell_def\<close>)
  with run show ?thesis by blast
qed

subsection \<open>All layers\<close>

definition data_bytes :: "bool \<Rightarrow> nat \<Rightarrow> nat \<Rightarrow> nat list \<Rightarrow> kv_layer list \<Rightarrow> bytes" where
  "data_bytes tr kv_sz t idxs lys = put_u32 (if tr then 1 else 0) @ put_u32 (length lys) @
     concat (map (k_bytes t idxs) lys) @ concat (map (v_bytes tr kv_sz t idxs) lys)"

text \<open>The cache with tensors that fit it.\<close>

definition full_inv :: "kv_full \<Rightarrow> bool" where
  "full_inv fv \<longleftrightarrow> cache_inv (fv_kv fv) \<and> swa_ok (fv_kv fv) \<and> 0 < kv_size (fv_kv fv) \<and> length (fv_layers fv) < 2 ^ 32 \<and>
     (\<forall>ly \<in> set (fv_layers fv). layer_ok (fv_v_trans fv) (kv_size (fv_kv fv)) (kv_n_stream (fv_kv fv)) ly)"

lemma write_data_bytes:
  assumes inv: "full_inv fv" and t: "t < kv_n_stream (fv_kv fv)" and rs: "\<forall>(a, b) \<in> set rs. a < b \<and> b \<le> kv_size (fv_kv fv)"
  shows "\<exists>cs. state_write_data fv t rs = Some cs \<and>
    emitted cs = data_bytes (fv_v_trans fv) (kv_size (fv_kv fv)) t (flat rs) (fv_layers fv)"
proof -
  let ?kv = "fv_kv fv" and ?tr = "fv_v_trans fv"
  have c: "cells_size (kv_cells ?kv ! t) = kv_size ?kv" "at_idx (kv_cells ?kv) t = Some (kv_cells ?kv ! t)"
    using inv t cache_invD(3,6) [of ?kv] by (simp_all add: full_inv_def)
  have lys: "\<forall>ly \<in> set (fv_layers fv). layer_ok ?tr (kv_size ?kv) (kv_n_stream ?kv) ly" using inv by (simp add: full_inv_def)
  obtain ks where ks: "emit_over (write_k_layer t rs) (fv_layers fv) = Some ks"
    "emitted ks = concat (map (k_bytes t (flat rs)) (fv_layers fv))"
    using emit_over_emitted [of "fv_layers fv" "write_k_layer t rs" "k_bytes t (flat rs)"] lys write_k_layer_bytes [OF _ t rs] by blast
  let ?w = "if ?tr then write_v_trans_layer (kv_size ?kv) t rs else write_v_layer t rs"
  have "\<forall>ly \<in> set (fv_layers fv). \<exists>cs. ?w ly = Some cs \<and> emitted cs = v_bytes ?tr (kv_size ?kv) t (flat rs) ly"
    using lys write_v_layer_bytes [OF _ t rs] write_v_trans_layer_bytes [OF _ t rs] by (cases ?tr) simp_all
  from emit_over_emitted [OF this] obtain vs where vs: "emit_over ?w (fv_layers fv) = Some vs" "emitted vs = concat (map (v_bytes ?tr (kv_size ?kv) t (flat rs)) (fv_layers fv))" by blast
  show ?thesis
    unfolding state_write_data_def c(2) bind.bind_lunit c(1) ks(1) vs(1) by (simp add: data_bytes_def ks(2) vs(2))
qed

lemma read_layers_all:
  assumes "length lys1 = length lys"
    and "\<And>l rest n. l < length lys \<Longrightarrow> \<exists>ly'. f (lys ! l) (reader (g (lys1 ! l) @ rest) n) =
      Some (Io_ok, ly', reader rest (n + length (g (lys1 ! l)))) \<and> P (lys1 ! l) (lys ! l) ly'"
  shows "\<exists>lys'. read_layers f lys (reader (concat (map g lys1) @ rest) n) =
      Some (Io_ok, lys', reader rest (n + length (concat (map g lys1)))) \<and> length lys' = length lys \<and>
    (\<forall>l < length lys. P (lys1 ! l) (lys ! l) (lys' ! l))"
  using assms
proof (induction lys arbitrary: lys1 n)
  case (Cons ly lys)
  then obtain ly1 ls where lys1: "lys1 = ly1 # ls" by (cases lys1) auto
  obtain ly' where ly': "f ly (reader (g ly1 @ concat (map g ls) @ rest) n) =
      Some (Io_ok, ly', reader (concat (map g ls) @ rest) (n + length (g ly1)))" "P ly1 ly ly'"
    using Cons.prems(2) [of 0 "concat (map g ls) @ rest" n] lys1 by auto
  have "length ls = length lys" using Cons.prems(1) lys1 by simp
  moreover have "\<exists>ly'. f (lys ! l) (reader (g (ls ! l) @ rest) n) =
      Some (Io_ok, ly', reader rest (n + length (g (ls ! l)))) \<and> P (ls ! l) (lys ! l) ly'" if "l < length lys" for l rest n
    using Cons.prems(2) [of "Suc l" rest n] that lys1 by simp
  ultimately obtain lys' where "read_layers f lys (reader (concat (map g ls) @ rest) (n + length (g ly1))) =
      Some (Io_ok, lys', reader rest (n + length (g ly1) + length (concat (map g ls))))" "length lys' = length lys"
      "\<forall>l < length lys. P (ls ! l) (lys ! l) (lys' ! l)"
    using Cons.IH [of ls "n + length (g ly1)"] by blast
  with ly' show ?case
    by (intro exI [of _ "ly' # lys'"]) (auto simp: lys1 add.assoc less_Suc_eq_0_disj)
qed simp

definition layer_restored :: "bool \<Rightarrow> nat \<Rightarrow> nat \<Rightarrow> nat \<Rightarrow> nat list \<Rightarrow> kv_layer \<Rightarrow> nat \<Rightarrow> nat list \<Rightarrow> kv_layer \<Rightarrow> kv_layer \<Rightarrow> bool" where
  "layer_restored tr sz1 sz2 t1 src ly1 t2 dst ly ly' \<longleftrightarrow>
     (\<forall>(i, j) \<in> set (zip dst src). k_cell ly' t2 i = k_cell ly1 t1 j \<and> v_cell tr sz2 ly' t2 i = v_cell tr sz1 ly1 t1 j) \<and>
     (\<forall>t. \<forall>i < sz2. t \<noteq> t2 \<or> i \<notin> set dst \<longrightarrow>
        k_cell ly' t i = k_cell ly t i \<and> v_cell tr sz2 ly' t i = v_cell tr sz2 ly t i)"

lemma same_format_trans: "same_format a b \<Longrightarrow> same_format b c \<Longrightarrow> same_format a c"
  by (simp add: same_format_def)

lemma restored_both:
  assumes k: "k_restored sz2 t1 src ly1 t2 dst ly lyk" and v: "v_restored tr sz1 sz2 t1 src ly1 t2 dst lyk ly'"
  shows "layer_restored tr sz1 sz2 t1 src ly1 t2 dst ly ly'"
proof -
  have kc: "k_cell ly' t i = k_cell lyk t i" for t i
    using v by (simp add: k_cell_def v_restored_def same_format_def)
  have vc: "v_cell tr sz2 lyk t i = v_cell tr sz2 ly t i" for t i
    using k by (cases "ly_v ly") (simp_all add: v_cell_def k_restored_def same_format_def)
  have other: "k_cell lyk t i = k_cell ly t i" if "t \<noteq> t2" for t i
    using k that by (simp add: k_cell_def k_restored_def same_format_def)
  show ?thesis
    unfolding layer_restored_def kc
  proof (intro conjI ballI allI impI)
    fix p assume "p \<in> set (zip dst src)"
    then show "case p of (i, j) \<Rightarrow> k_cell lyk t2 i = k_cell ly1 t1 j \<and> v_cell tr sz2 ly' t2 i = v_cell tr sz1 ly1 t1 j"
      using k v unfolding k_restored_def v_restored_def by blast
  next
    fix t i assume "i < sz2" "t \<noteq> t2 \<or> i \<notin> set dst"
    then show "k_cell lyk t i = k_cell ly t i" using k other unfolding k_restored_def by metis
  next
    fix t i assume "i < sz2" "t \<noteq> t2 \<or> i \<notin> set dst"
    then have "v_cell tr sz2 ly' t i = v_cell tr sz2 lyk t i" using v unfolding v_restored_def by metis
    then show "v_cell tr sz2 ly' t i = v_cell tr sz2 ly t i" by (simp add: vc)
  qed
qed

lemma read_data_restored:
  assumes i1: "full_inv fv1" and i2: "full_inv fv" and t: "t1 < kv_n_stream (fv_kv fv1)" "t2 < kv_n_stream (fv_kv fv)"
    and fmt: "fv_v_trans fv1 = fv_v_trans fv" "list_all2 same_format (fv_layers fv1) (fv_layers fv)"
    and src: "\<forall>i \<in> set src. i < kv_size (fv_kv fv1)" and si: "slot_at si (kv_size (fv_kv fv)) dst"
    and len: "length src = length dst" "length dst \<le> kv_size (fv_kv fv)"
  shows "\<exists>lys'. state_read_data fv t2 (length dst) si
      (reader (data_bytes (fv_v_trans fv1) (kv_size (fv_kv fv1)) t1 src (fv_layers fv1) @ rest) n) =
      Some (Io_ok, fv\<lparr>fv_layers := lys'\<rparr>, reader rest (n + length (data_bytes (fv_v_trans fv1) (kv_size (fv_kv fv1)) t1 src (fv_layers fv1)))) \<and>
    length lys' = length (fv_layers fv) \<and>
    (\<forall>l < length lys'. layer_restored (fv_v_trans fv) (kv_size (fv_kv fv1)) (kv_size (fv_kv fv)) t1 src (fv_layers fv1 ! l) t2 dst
       (fv_layers fv ! l) (lys' ! l))"
proof -
  let ?lys1 = "fv_layers fv1" and ?lys = "fv_layers fv" and ?tr = "fv_v_trans fv"
  let ?sz1 = "kv_size (fv_kv fv1)" and ?sz2 = "kv_size (fv_kv fv)"
  let ?ns1 = "kv_n_stream (fv_kv fv1)" and ?ns2 = "kv_n_stream (fv_kv fv)"
  have L: "length ?lys1 = length ?lys" "length ?lys < 2 ^ 32" using fmt(2) i2 by (simp_all add: list_all2_lengthD full_inv_def)
  have l1: "layer_ok ?tr ?sz1 ?ns1 (?lys1 ! l)" if "l < length ?lys" for l
    using i1 that fmt(1) L(1) by (simp add: full_inv_def)
  have l2: "layer_ok ?tr ?sz2 ?ns2 (?lys ! l)" if "l < length ?lys" for l using i2 that by (simp add: full_inv_def)
  have f: "same_format (?lys1 ! l) (?lys ! l)" if "l < length ?lys" for l using fmt(2) that L(1) by (simp add: list_all2_conv_all_nth)
  have "\<exists>lysk. read_layers (read_k_layer t2 (length dst) si) ?lys (reader (concat (map (k_bytes t1 src) ?lys1) @ rest) n) =
      Some (Io_ok, lysk, reader rest (n + length (concat (map (k_bytes t1 src) ?lys1)))) \<and> length lysk = length ?lys \<and>
    (\<forall>l < length ?lys. k_restored ?sz2 t1 src (?lys1 ! l) t2 dst (?lys ! l) (lysk ! l) \<and> layer_ok ?tr ?sz2 ?ns2 (lysk ! l))" for rest n
    by (rule read_layers_all [OF L(1), where P = "\<lambda>ly1 ly ly'. k_restored ?sz2 t1 src ly1 t2 dst ly ly' \<and> layer_ok ?tr ?sz2 ?ns2 ly'"])
      (rule read_k_restored [OF l1 t(1) l2 t(2) f src si len(1)])
  then obtain lysk where K: "read_layers (read_k_layer t2 (length dst) si) ?lys
        (reader (concat (map (k_bytes t1 src) ?lys1) @ concat (map (v_bytes ?tr ?sz1 t1 src) ?lys1) @ rest) (n + 4 + 4)) =
      Some (Io_ok, lysk, reader (concat (map (v_bytes ?tr ?sz1 t1 src) ?lys1) @ rest) (n + 4 + 4 + length (concat (map (k_bytes t1 src) ?lys1))))"
    "length lysk = length ?lys"
    "\<forall>l < length ?lys. k_restored ?sz2 t1 src (?lys1 ! l) t2 dst (?lys ! l) (lysk ! l) \<and> layer_ok ?tr ?sz2 ?ns2 (lysk ! l)" by metis
  let ?f = "if ?tr then read_v_trans_layer ?sz2 t2 (length dst) si else read_v_layer t2 (length dst) si"
  have fk: "same_format (?lys1 ! l) (lysk ! l)" if "l < length ?lys" for l
  proof -
    have "same_format (?lys ! l) (lysk ! l)" using K(3) that unfolding k_restored_def by blast
    then show ?thesis by (rule same_format_trans [OF f [OF that]])
  qed
  have "\<exists>lys'. read_layers ?f lysk (reader (concat (map (v_bytes ?tr ?sz1 t1 src) ?lys1) @ rest) m) =
      Some (Io_ok, lys', reader rest (m + length (concat (map (v_bytes ?tr ?sz1 t1 src) ?lys1)))) \<and> length lys' = length lysk \<and>
    (\<forall>l < length lysk. v_restored ?tr ?sz1 ?sz2 t1 src (?lys1 ! l) t2 dst (lysk ! l) (lys' ! l))" for m
  proof (rule read_layers_all [where P = "\<lambda>ly1 ly ly'. v_restored ?tr ?sz1 ?sz2 t1 src ly1 t2 dst ly ly'"])
    show "length ?lys1 = length lysk" using L(1) K(2) by simp
    fix l rest n assume "l < length lysk"
    then have l: "l < length ?lys" using K(2) by simp
    have k: "layer_ok ?tr ?sz2 ?ns2 (lysk ! l)" using K(3) l by blast
    show "\<exists>ly'. ?f (lysk ! l) (reader (v_bytes ?tr ?sz1 t1 src (?lys1 ! l) @ rest) n) =
        Some (Io_ok, ly', reader rest (n + length (v_bytes ?tr ?sz1 t1 src (?lys1 ! l)))) \<and>
        v_restored ?tr ?sz1 ?sz2 t1 src (?lys1 ! l) t2 dst (lysk ! l) ly'"
    proof (cases ?tr)
      case True
      then show ?thesis
        using read_v_trans_restored [OF _ t(1) _ t(2) fk [OF l] src si len(1)] k l1 [OF l] by simp
    next
      case False
      then show ?thesis
        using read_v_restored [OF _ t(1) _ t(2) fk [OF l] src si len(1)] k l1 [OF l] by simp
    qed
  qed
  then obtain lys' where V: "read_layers ?f lysk
        (reader (concat (map (v_bytes ?tr ?sz1 t1 src) ?lys1) @ rest) (n + 4 + 4 + length (concat (map (k_bytes t1 src) ?lys1)))) =
      Some (Io_ok, lys', reader rest (n + 4 + 4 + length (concat (map (k_bytes t1 src) ?lys1)) + length (concat (map (v_bytes ?tr ?sz1 t1 src) ?lys1))))"
    "length lys' = length lysk"
    "\<forall>l < length lysk. v_restored ?tr ?sz1 ?sz2 t1 src (?lys1 ! l) t2 dst (lysk ! l) (lys' ! l)" by blast
  have c: "cells_size (kv_cells (fv_kv fv) ! t2) = ?sz2" "at_idx (kv_cells (fv_kv fv)) t2 = Some (kv_cells (fv_kv fv) ! t2)"
    using i2 t(2) cache_invD(3,6) [of "fv_kv fv"] by (simp_all add: full_inv_def)
  have hdr: "get_u32 (reader (put_u32 (if ?tr then 1 else 0) @ rest) n) = Some (if ?tr then 1 else 0, reader rest (n + 4))" for rest n
    by (rule get_u32_reader) simp
  have "state_read_data fv t2 (length dst) si (reader (data_bytes ?tr ?sz1 t1 src ?lys1 @ rest) n) =
      Some (Io_ok, fv\<lparr>fv_layers := lys'\<rparr>, reader rest (n + length (data_bytes ?tr ?sz1 t1 src ?lys1)))"
  proof -
    let ?b = "concat (map (k_bytes t1 src) ?lys1)" and ?d = "concat (map (v_bytes ?tr ?sz1 t1 src) ?lys1)"
    have head: "Option.bind (get_u32 (reader (data_bytes ?tr ?sz1 t1 src ?lys1 @ rest) n)) (\<lambda>(v_trans, r). Option.bind (get_u32 r)
        (\<lambda>(n_layer, r). Some (v_trans, n_layer, r))) = Some (if ?tr then 1 else 0, length ?lys, reader (?b @ ?d @ rest) (n + 4 + 4))"
      unfolding data_bytes_def append_assoc hdr bind.bind_lunit prod.case L(1) get_u32_reader [OF L(2)] ..
    have ok: "length dst \<le> cells_size (kv_cells (fv_kv fv) ! t2)" using len(2) c(1) by simp
    have len: "n + length (data_bytes ?tr ?sz1 t1 src ?lys1) = n + 4 + 4 + length ?b + length ?d" by (simp add: data_bytes_def)
    have no: "(length ?lys \<noteq> length ?lys) = False" "(length dst > ?sz2) = False" "(?tr \<noteq> ((if ?tr then 1 else 0) \<noteq> (0 :: nat))) = False"
      "(Io_ok \<noteq> Io_ok) = False"
      using ok c(1) by auto
    have upd: "fv_v_trans (fv\<lparr>fv_layers := x\<rparr>) = ?tr" "fv_layers (fv\<lparr>fv_layers := x\<rparr>) = x"
      "fv\<lparr>fv_layers := x, fv_layers := y\<rparr> = fv\<lparr>fv_layers := y\<rparr>" for x y by simp_all
    show ?thesis
      by (simp only: state_read_data_def c bind.bind_lunit head option.case prod.case len no if_False K(1) Let_def upd V(1))
  qed
  then show ?thesis
    using restored_both K(3) V(2,3) K(2) unfolding fmt(1) by metis
qed

end
