(* ===== verification/KvRoundtrip.thy ===== *)
theory KvRoundtrip
  imports KvRestore
begin

section \<open>Saving a sequence and restoring it\<close>

text \<open>
  The cells of the sequence become a ubatch again, which is placed like any other; together with the
  tensors of \<open>KvRestore\<close> this gives the round trip of a sequence.
\<close>

subsection \<open>The ubatch of the saved cells\<close>

definition tok_upd :: "nat \<Rightarrow> llama_seq_id \<Rightarrow> nat \<Rightarrow> llama_pos \<Rightarrow> kv_cell_ext \<Rightarrow> llama_ubatch \<Rightarrow> llama_ubatch" where
  "tok_upd n_pos dest i p e ub =
     (let ub = (if n_pos > 1 then ub\<lparr>ub_pos := (ub_pos ub)[i + ub_n_tokens ub := ext_y e, i + ub_n_tokens ub * 2 := ext_x e]\<rparr> else ub) in
      ub\<lparr>ub_pos := (ub_pos ub)[i := p], ub_n_seq_id := (ub_n_seq_id ub)[i := 1], ub_seq_id := (ub_seq_id ub)[i := [dest]]\<rparr>)"


text \<open>The positions written are inside \<open>ubatch.pos\<close>.\<close>

definition pos_room :: "nat \<Rightarrow> nat \<Rightarrow> llama_ubatch \<Rightarrow> bool" where
  "pos_room n_pos i ub \<longleftrightarrow> i < length (ub_pos ub) \<and> (n_pos > 1 \<longrightarrow> i + ub_n_tokens ub * 2 < length (ub_pos ub))"

lemma pos_room_upd [simp]: "pos_room n_pos i (tok_upd n_pos dest j p e ub) = pos_room n_pos i ub"
  by (simp add: pos_room_def tok_upd_def Let_def)











subsection \<open>Restoring the cells\<close>




subsection \<open>The bytes of a sequence\<close>





lemma read_empty_stream: "read_stream z d t fv (reader (put_u32 0 @ rest) n) = Some (Io_ok, fv, reader rest (n + 4))"
  by (simp add: read_stream_def get_u32_reader)

lemma read_empty_streams:
  "read_streams z d ts fv (reader (concat (map (\<lambda>_. put_u32 0) ts) @ rest) n) = Some (Io_ok, fv, reader rest (n + 4 * length ts))"
  by (induction ts arbitrary: n) (simp_all add: read_empty_stream cleared_def get_u32_reader algebra_simps)



subsection \<open>The round trip\<close>







subsection \<open>What a restore leaves behind\<close>

text \<open>
  C35: Restoring the whole cache of several streams: reading the cells of one stream clears the cache
  first, all streams of it, so after a stream is read every other stream is empty, also those read
  before it.
\<close>

theorem restore_all_clears_streams:
  assumes inv: "cache_inv kv" and t: "t < kv_n_stream kv" "t \<noteq> sm"
    and run: "read_meta_all kv sm cell_count r = Some (Io_ok, si, kv', r')" and i: "i < kv_size kv"
  shows "cells_cell (kv_cells kv' ! t) i = (-1, ext_reset, 0, {})"
proof -
  obtain c where c: "kv_cells kv' = (kv_cells (kv_clear kv))[sm := c]"
    using run by (auto simp: read_meta_all_def Let_def split: bind_splits if_splits)
  have "kv_cells kv' ! t = cells_reset (kv_cells kv ! t)" using t kv_clear_spec(3) [OF inv] by (simp add: c)
  then show ?thesis using cells_reset_cell cache_invD(5,6) [OF inv t(1)] i by simp
qed

text \<open>
  C37: Restoring a state in which no cell was saved changes nothing: the sequence, or the whole cache,
  that should become empty keeps what it had.
\<close>

theorem restore_empty_keeps:
  assumes "kv_other (fv_kv fv) = None" "d = -1 \<or> seq_ok (fv_kv fv) d" "kv_n_stream (fv_kv fv) < 2 ^ 32"
  shows "state_read fv d (reader (put_u32 (kv_n_stream (fv_kv fv)) @ concat (map (\<lambda>_. put_u32 0) [0..<kv_n_stream (fv_kv fv)]) @ rest) n) =
    Some (Io_ok, fv, reader rest (n + 4 + 4 * kv_n_stream (fv_kv fv)))"
proof -
  have "d = -1 \<or> (0 \<le> d \<and> nat d < length (kv_seq_to_stream (fv_kv fv)))" using assms(2) by (auto simp: seq_ok_def)
  then show ?thesis using assms(1,3) read_empty_streams [of False d "[0..<kv_n_stream (fv_kv fv)]"]
    by (auto simp: state_read_def get_u32_reader)
qed

lemma restore_all_clears_streams_witness:
  "\<exists>si kv' r'. read_meta_all split_kv 0 1 (reader (put_i32 7 @ put_u32 1 @ put_i32 0) 0) = Some (Io_ok, si, kv', r') \<and>
    cells_cell (kv_cells kv' ! 1) 3 = (-1, ext_reset, 0, {})"
proof -
  have "case cells_pos_set 0 7 (kv_cells (kv_clear split_kv) ! 0) of Some c \<Rightarrow>
      (case cells_seq_add 0 0 c of Some _ \<Rightarrow> True | _ \<Rightarrow> False) | _ \<Rightarrow> False" by code_simp
  then obtain c1 c2 where c: "cells_pos_set 0 7 (kv_cells (kv_clear split_kv) ! 0) = Some c1" "cells_seq_add 0 0 c1 = Some c2"
    by (cases "cells_pos_set 0 7 (kv_cells (kv_clear split_kv) ! 0)"; cases "cells_seq_add 0 0 (the (cells_pos_set 0 7 (kv_cells (kv_clear split_kv) ! 0)))") auto
  have one: "[0..<1] = [0 :: nat]" by simp
  have kv: "kv_n_pos split_kv = 1" "kv_n_seq_max split_kv = 2" "0 < length (kv_cells split_kv)"
    "0 < length (kv_cells (kv_clear split_kv))" "\<not> 1 > cells_size (kv_cells split_kv ! 0)" by code_simp+
  have at: "at_idx (kv_cells split_kv) 0 = Some (kv_cells split_kv ! 0)"
    "at_idx (kv_cells (kv_clear split_kv)) 0 = Some (kv_cells (kv_clear split_kv) ! 0)" by (rule at_idx_Some [OF kv(3)], rule at_idx_Some [OF kv(4)])
  have kv2: "kv_n_pos (kv_clear split_kv) = 1" "kv_n_seq_max (kv_clear split_kv) = 2" by code_simp+
  have cells: "read_cells 2 1 [0] (kv_cells (kv_clear split_kv) ! 0) (reader (put_i32 7 @ put_u32 1 @ put_i32 0) 0) =
      Some (Io_ok, c2, reader [] 12)"
    using get_i32_reader [of 0 "[]" 8] by (simp add: read_cell_ext_def get_i32_reader get_u32_reader is_i32_def c)
  obtain si kv' r' where run: "read_meta_all split_kv 0 1 (reader (put_i32 7 @ put_u32 1 @ put_i32 0) 0) = Some (Io_ok, si, kv', r')"
    using kv(5) unfolding read_meta_all_def at bind.bind_lunit Let_def kv2 one cells by simp
  have "cells_cell (kv_cells kv' ! 1) 3 = (-1, ext_reset, 0, {})"
    by (rule restore_all_clears_streams [OF split_kv_facts(1) _ _ run]) (use split_kv_facts(2,3) in simp_all)
  with run show ?thesis by blast
qed

definition small_layer :: "bytes \<Rightarrow> bytes \<Rightarrow> kv_layer" where
  "small_layer k v = \<lparr>ly_k_type = 1, ly_k_row = 1, ly_k = [k], ly_v_type = 1, ly_v_row = 1, ly_v_el = 1, ly_n_embd_v = 1, ly_v = Some [v]\<rparr>"

definition saved_fv :: kv_full where
  "saved_fv = \<lparr>fv_kv = small_kv1, fv_layers = [small_layer [1, 2, 3, 4] [5, 6, 7, 8]], fv_v_trans = False\<rparr>"


lemma small_kv1_size: "kv_size small_kv1 = 4" "swa_ok small_kv1" "kv_n_seq_max small_kv1 = 2" "kv_n_stream small_kv1 = 1"
proof -
  note C = same_configD [OF small_kv1_facts(2)]
  have "kv_n_seq_max small_kv = 2" by code_simp
  then show "kv_size small_kv1 = 4" "swa_ok small_kv1" "kv_n_seq_max small_kv1 = 2" "kv_n_stream small_kv1 = 1"
    using C small_kv_facts by (simp_all add: swa_ok_def)
qed





lemma restore_empty_keeps_witness:
  "state_read saved_fv 0 (reader (put_u32 (kv_n_stream (fv_kv saved_fv)) @
      concat (map (\<lambda>_. put_u32 0) [0..<kv_n_stream (fv_kv saved_fv)]) @ []) 0) =
    Some (Io_ok, saved_fv, reader [] (0 + 4 + 4 * kv_n_stream (fv_kv saved_fv))) \<and> seq_view (fv_kv saved_fv) 0 \<noteq> {}"
proof -
  have kv: "fv_kv saved_fv = small_kv1" by (simp add: saved_fv_def)
  have "cache_inv small_kv1" using small_kv1_facts(1) by (simp add: unified_inv_def)
  then have "kv_other (fv_kv saved_fv) = None" using cache_invD(1) by (simp add: kv)
  moreover have "0 = -1 \<or> seq_ok (fv_kv saved_fv) 0" using small_kv1_facts(3) [of 0] by (simp add: kv)
  moreover have "kv_n_stream (fv_kv saved_fv) < 2 ^ 32" using small_kv1_size(4) by (simp add: kv)
  moreover have "seq_view (fv_kv saved_fv) 0 \<noteq> {}" using small_kv1_facts(4) [of 0] by (simp add: kv)
  ultimately show ?thesis using restore_empty_keeps [of saved_fv 0 "[]" 0] by blast
qed

end
