(* ===== verification/Recurrent.thy ===== *)
theory Recurrent
  imports KvCache
begin

section \<open>The recurrent memory (\<open>src/llama-memory-recurrent.{h,cpp}\<close>)\<close>

text \<open>
  A recurrent model keeps one state per sequence. A cell is a row of the state tensors; several
  sequences may share a cell until one of them goes on. The cell of sequence \<open>s\<close> is the \<open>tail\<close> that
  is stored, for want of a better place, in cell number \<open>s\<close>. \<open>src\<close> is the row that holds the state
  of a cell, negative for none; \<open>src0\<close> is what the next graph copies it from. The field \<open>size\<close> of
  the code is the number of cells and never changes.
\<close>

subsection \<open>State\<close>

record mem_cell =
  mc_pos :: llama_pos
  mc_src :: int
  mc_src0 :: int
  mc_tail :: int
  mc_seq :: "llama_seq_id set"

definition mc_default :: mem_cell where
  "mc_default = \<lparr>mc_pos = -1, mc_src = -1, mc_src0 = -1, mc_tail = -1, mc_seq = {}\<rparr>"

definition has_seq_id :: "llama_seq_id \<Rightarrow> mem_cell \<Rightarrow> bool" where
  "has_seq_id s c \<longleftrightarrow> s \<in> mc_seq c"

definition mc_is_empty :: "mem_cell \<Rightarrow> bool" where
  "mc_is_empty c \<longleftrightarrow> mc_seq c = {}"

record mem_recr =
  mr_head :: nat
  mr_used :: int
  mr_n_rs_seq :: nat
  mr_rs_idx :: "nat list"
  mr_n :: nat
  mr_rs_z :: int
  mr_cells :: "mem_cell list"
  mr_n_seq_max :: nat

definition mr_size :: "mem_recr \<Rightarrow> nat" where
  "mr_size m = length (mr_cells m)"

definition recr_new :: "nat \<Rightarrow> nat \<Rightarrow> nat \<Rightarrow> mem_recr" where
  "recr_new mem_size n_seq_max n_rs_seq =
     \<lparr>mr_head = 0, mr_used = 0, mr_n_rs_seq = n_rs_seq, mr_rs_idx = replicate n_seq_max 0, mr_n = 0,
      mr_rs_z = -1, mr_cells = replicate mem_size mc_default, mr_n_seq_max = n_seq_max\<rparr>"

definition cell_upd :: "nat \<Rightarrow> (mem_cell \<Rightarrow> mem_cell) \<Rightarrow> mem_cell list \<Rightarrow> mem_cell list" where
  "cell_upd i f cs = cs[i := f (cs ! i)]"

definition u32 :: "int \<Rightarrow> nat" where
  "u32 x = nat (x mod 2 ^ 32)"

subsection \<open>Sequence operations\<close>

definition mc_cleared :: "mem_cell \<Rightarrow> mem_cell" where
  "mc_cleared c = c\<lparr>mc_pos := -1, mc_seq := {}, mc_src := -1, mc_tail := -1\<rparr>"

definition recr_clear :: "mem_recr \<Rightarrow> mem_recr" where
  "recr_clear m = m\<lparr>mr_cells := map mc_cleared (mr_cells m), mr_head := 0, mr_used := 0,
     mr_rs_idx := map (\<lambda>_. 0) (mr_rs_idx m)\<rparr>"

definition set_rs_idx :: "llama_seq_id \<Rightarrow> nat \<Rightarrow> mem_recr \<Rightarrow> mem_recr option" where
  "set_rs_idx s idx m = (if s < 0 then Some (m\<lparr>mr_rs_idx := map (\<lambda>_. 0) (mr_rs_idx m)\<rparr>) else do {
     assrt (mr_n_seq_max m = length (mr_rs_idx m));
     assrt (u32 s < mr_n_seq_max m);
     assrt (idx \<le> mr_n_rs_seq m);
     Some (m\<lparr>mr_rs_idx := (mr_rs_idx m)[nat s := idx]\<rparr>) })"

text \<open>A cell that has lost its last sequence is free again.\<close>

definition free_if_empty :: "nat \<Rightarrow> nat \<times> mem_recr \<Rightarrow> nat \<times> mem_recr" where
  "free_if_empty i st = (case st of (new_head, m) \<Rightarrow>
     if mc_is_empty (mr_cells m ! i) then
       (if new_head = mr_size m then i else new_head,
        m\<lparr>mr_used := (if mc_pos (mr_cells m ! i) \<ge> 0 then mr_used m - 1 else mr_used m),
          mr_cells := cell_upd i (\<lambda>c. c\<lparr>mc_pos := -1, mc_src := -1\<rparr>) (mr_cells m)\<rparr>)
     else (new_head, m))"

definition rm_recr_cell :: "llama_seq_id \<Rightarrow> llama_pos \<Rightarrow> llama_pos \<Rightarrow> nat \<Rightarrow> nat \<times> mem_recr \<Rightarrow> nat \<times> mem_recr" where
  "rm_recr_cell s p0 p1 i st = (case st of (new_head, m) \<Rightarrow>
     let c = mr_cells m ! i in
     if p0 \<le> mc_pos c \<and> mc_pos c < p1 then
       if s < 0 then free_if_empty i (new_head, m\<lparr>mr_cells := cell_upd i (mc_seq_update (\<lambda>_. {})) (mr_cells m)\<rparr>)
       else if has_seq_id s c then
         free_if_empty i (new_head, m\<lparr>mr_cells := cell_upd i (mc_seq_update (\<lambda>S. S - {s})) (mr_cells m)\<rparr>)
       else st
     else st)"

text \<open>
  What \<open>seq_rm\<close> does before the loop: a partial range at the end of a sequence is a rollback to a
  snapshot or fails, a range that holds the position of the sequence takes its tail away. The result
  is the value to return at once, if any.
\<close>

definition rm_recr_tail :: "llama_seq_id \<Rightarrow> llama_pos \<Rightarrow> llama_pos \<Rightarrow> mem_recr \<Rightarrow> (bool option \<times> mem_recr) option" where
  "rm_recr_tail s p0 p1 m =
     (if 0 \<le> s then do {
        sc \<leftarrow> at_idx (mr_cells m) (nat s);
        if mc_tail sc \<ge> 0 then do {
          cell \<leftarrow> at_idx (mr_cells m) (nat (mc_tail sc));
          if 0 < p0 \<and> p0 \<le> mc_pos cell \<and> p1 > mc_pos cell then do {
            let rollback = mc_pos cell - (p0 - 1);
            idx \<leftarrow> at_idx (mr_rs_idx m) (nat s);
            let pending = (idx \<noteq> 0);
            if \<not> pending \<and> rollback \<ge> 1 \<and> rollback \<le> int (mr_n_rs_seq m) then do {
              m \<leftarrow> set_rs_idx s (nat rollback) m;
              Some (Some True, m\<lparr>mr_cells := cell_upd (nat (mc_tail sc)) (mc_pos_update (\<lambda>_. p0 - 1)) (mr_cells m)\<rparr>) }
            else Some (Some False, m) }
          else if p0 \<le> mc_pos cell \<and> mc_pos cell < p1 then
            Some (None, m\<lparr>mr_cells := cell_upd (nat s) (mc_tail_update (\<lambda>_. -1)) (mr_cells m)\<rparr>)
          else Some (None, m) }
        else Some (None, m) }
      else if p0 \<noteq> p1 \<and> (p0 \<noteq> 0 \<or> p1 \<noteq> INT32_MAX) then Some (Some False, m)
      else Some (None, m))"

definition recr_seq_rm :: "llama_seq_id \<Rightarrow> llama_pos \<Rightarrow> llama_pos \<Rightarrow> mem_recr \<Rightarrow> (bool \<times> mem_recr) option" where
  "recr_seq_rm s p0 p1 m =
     (let p0 = norm_p0 p0; p1 = norm_p1 p1 in
      if u32 s \<ge> mr_n_seq_max m then Some (False, m) else do {
        m \<leftarrow> (if p0 = 0 \<and> p1 = INT32_MAX then set_rs_idx s 0 m else Some m);
        if s \<ge> int (mr_size m) then Some (False, m) else do {
          (res, m) \<leftarrow> rm_recr_tail s p0 p1 m;
          (case res of Some b \<Rightarrow> Some (b, m) | None \<Rightarrow>
             let (new_head, m) = fold (rm_recr_cell s p0 p1) [0..<mr_size m] (mr_size m, m) in
             Some (True, if new_head \<noteq> mr_size m \<and> new_head < mr_head m then m\<lparr>mr_head := new_head\<rparr> else m)) } })"

text \<open>Takes a sequence out of its cell, which is freed when nobody else uses it.\<close>

definition release_tail :: "llama_seq_id \<Rightarrow> mem_recr \<Rightarrow> mem_recr option" where
  "release_tail s m = do {
     sc \<leftarrow> at_idx (mr_cells m) (nat s);
     if mc_tail sc \<ge> 0 then do {
       let t = nat (mc_tail sc);
       cell \<leftarrow> at_idx (mr_cells m) t;
       let cs = cell_upd t (mc_seq_update (\<lambda>S. S - {s})) (mr_cells m);
       let cs = cell_upd (nat s) (mc_tail_update (\<lambda>_. -1)) cs;
       if mc_is_empty (cs ! t) then
         Some (m\<lparr>mr_cells := cell_upd t (\<lambda>c. c\<lparr>mc_pos := -1, mc_src := -1\<rparr>) cs, mr_used := mr_used m - 1\<rparr>)
       else Some (m\<lparr>mr_cells := cs\<rparr>) }
     else Some m }"

text \<open>The bounds of the copy are normalised and then ignored.\<close>

definition recr_seq_cp :: "llama_seq_id \<Rightarrow> llama_seq_id \<Rightarrow> llama_pos \<Rightarrow> llama_pos \<Rightarrow> mem_recr \<Rightarrow> mem_recr option" where
  "recr_seq_cp src dst p0 p1 m =
     (if src = dst then Some m
      else if u32 dst < mr_size m \<and> u32 src < mr_size m then do {
        m \<leftarrow> release_tail dst m;
        sc \<leftarrow> at_idx (mr_cells m) (nat src);
        if mc_tail sc \<ge> 0 then do {
          let t = nat (mc_tail sc);
          cell \<leftarrow> at_idx (mr_cells m) t;
          let cs = cell_upd t (mc_seq_update (insert dst)) (mr_cells m);
          Some (m\<lparr>mr_cells := cell_upd (nat dst) (mc_tail_update (\<lambda>_. int t)) cs\<rparr>) }
        else Some m }
      else Some m)"

definition keep_recr_cell :: "llama_seq_id \<Rightarrow> nat \<Rightarrow> nat \<times> mem_recr \<Rightarrow> nat \<times> mem_recr" where
  "keep_recr_cell s i st = (case st of (new_head, m) \<Rightarrow>
     let m = (if int i \<noteq> s then m\<lparr>mr_cells := cell_upd i (mc_tail_update (\<lambda>_. -1)) (mr_cells m)\<rparr> else m) in
     if \<not> has_seq_id s (mr_cells m ! i) then
       (if new_head = mr_size m then i else new_head,
        m\<lparr>mr_used := (if mc_pos (mr_cells m ! i) \<ge> 0 then mr_used m - 1 else mr_used m),
          mr_cells := cell_upd i (\<lambda>c. c\<lparr>mc_pos := -1, mc_src := -1, mc_seq := {}\<rparr>) (mr_cells m)\<rparr>)
     else (new_head, m\<lparr>mr_cells := cell_upd i (mc_seq_update (\<lambda>_. {s})) (mr_cells m)\<rparr>))"

definition recr_seq_keep :: "llama_seq_id \<Rightarrow> mem_recr \<Rightarrow> mem_recr" where
  "recr_seq_keep s m =
     (let (new_head, m) = fold (keep_recr_cell s) [0..<mr_size m] (mr_size m, m) in
      if new_head \<noteq> mr_size m \<and> new_head < mr_head m then m\<lparr>mr_head := new_head\<rparr> else m)"

text \<open>\<open>seq_add\<close> and \<open>seq_div\<close> move the position of the cell.\<close>

definition move_pos :: "llama_seq_id \<Rightarrow> llama_pos \<Rightarrow> llama_pos \<Rightarrow> (llama_pos \<Rightarrow> llama_pos) \<Rightarrow> mem_recr \<Rightarrow> mem_recr option" where
  "move_pos s p0 p1 f m =
     (if 0 \<le> s \<and> s < int (mr_size m) then do {
        sc \<leftarrow> at_idx (mr_cells m) (nat s);
        if mc_tail sc \<ge> 0 then do {
          cell \<leftarrow> at_idx (mr_cells m) (nat (mc_tail sc));
          Some (if has_seq_id s cell \<and> p0 \<le> mc_pos cell \<and> mc_pos cell < p1
            then m\<lparr>mr_cells := cell_upd (nat (mc_tail sc)) (mc_pos_update f) (mr_cells m)\<rparr> else m) }
        else Some m }
      else Some m)"

definition recr_seq_add :: "llama_seq_id \<Rightarrow> llama_pos \<Rightarrow> llama_pos \<Rightarrow> llama_pos \<Rightarrow> mem_recr \<Rightarrow> mem_recr option" where
  "recr_seq_add s p0 p1 shift m =
     (if shift = 0 then Some m else if norm_p0 p0 = norm_p1 p1 then Some m
      else move_pos s (norm_p0 p0) (norm_p1 p1) (\<lambda>p. p + shift) m)"

definition recr_seq_div :: "llama_seq_id \<Rightarrow> llama_pos \<Rightarrow> llama_pos \<Rightarrow> int \<Rightarrow> mem_recr \<Rightarrow> mem_recr option" where
  "recr_seq_div s p0 p1 d m =
     (if d = 1 then Some m else if norm_p0 p0 = norm_p1 p1 then Some m
      else move_pos s (norm_p0 p0) (norm_p1 p1) (\<lambda>p. cdiv p d) m)"

definition recr_seq_pos_min :: "llama_seq_id \<Rightarrow> mem_recr \<Rightarrow> llama_pos" where
  "recr_seq_pos_min s m =
     (let result = fold (\<lambda>c result. if has_seq_id s c then min result (mc_pos c) else result) (mr_cells m) INT32_MAX in
      if result = INT32_MAX then -1 else result)"

definition recr_seq_pos_max :: "llama_seq_id \<Rightarrow> mem_recr \<Rightarrow> llama_pos" where
  "recr_seq_pos_max s m = fold (\<lambda>c result. if has_seq_id s c then max result (mc_pos c) else result) (mr_cells m) (-1)"

subsection \<open>Finding a slot\<close>

text \<open>All sequences must have a tail slot; those that become shared leave their cell.\<close>

fun fs_check :: "(nat \<times> llama_seq_id) list \<Rightarrow> mem_recr \<Rightarrow> (bool \<times> mem_recr) option" where
  "fs_check [] m = Some (True, m)"
| "fs_check ((j, s) # xs) m =
     (if s < 0 \<or> u32 s \<ge> mr_size m then Some (False, m) else do {
        m \<leftarrow> (if j > 0 then release_tail s m else Some m);
        fs_check xs m })"

text \<open>The sequences of sequence set \<open>s\<close> are those of its first token.\<close>

definition fs_first :: "llama_ubatch \<Rightarrow> nat \<Rightarrow> nat" where
  "fs_first ub s = s * ub_n_seq_tokens ub"

definition fs_seqs :: "llama_ubatch \<Rightarrow> nat \<Rightarrow> llama_seq_id list" where
  "fs_seqs ub s = map (\<lambda>j. ub_seq_id ub ! fs_first ub s ! j) [0..<ub_n_seq_id ub ! fs_first ub s]"

definition fs_lead :: "llama_ubatch \<Rightarrow> nat \<Rightarrow> llama_seq_id" where
  "fs_lead ub s = ub_seq_id ub ! fs_first ub s ! 0"

text \<open>The first empty cell from a position on, going round, and the next one after it.\<close>

fun first_empty :: "mem_cell list \<Rightarrow> nat \<Rightarrow> nat \<Rightarrow> nat" where
  "first_empty cs 0 next_empty_cell = next_empty_cell"
| "first_empty cs (Suc k) next_empty_cell =
     (let next_empty_cell = (if next_empty_cell \<ge> length cs then next_empty_cell - length cs else next_empty_cell) in
      if mc_is_empty (cs ! next_empty_cell) then next_empty_cell else first_empty cs k (next_empty_cell + 1))"

fun next_empty :: "mem_cell list \<Rightarrow> nat \<Rightarrow> nat \<Rightarrow> nat" where
  "next_empty cs 0 next_empty_cell = next_empty_cell"
| "next_empty cs (Suc k) next_empty_cell =
     (let next_empty_cell = next_empty_cell + 1;
          next_empty_cell = (if next_empty_cell \<ge> length cs then next_empty_cell - length cs else next_empty_cell) in
      if mc_is_empty (cs ! next_empty_cell) then next_empty_cell else next_empty cs k next_empty_cell)"

text \<open>The leading sequence of every set gets a cell of its own, with the old tail copied into it.\<close>

definition fs_copy_tail :: "llama_seq_id \<Rightarrow> int \<Rightarrow> nat \<Rightarrow> mem_cell list \<Rightarrow> mem_cell list option" where
  "fs_copy_tail q tail e cs =
     (if tail \<ge> 0 then do {
        orig \<leftarrow> at_idx cs (nat tail);
        let cs = cell_upd e (\<lambda>c. c\<lparr>mc_pos := mc_pos orig, mc_src := mc_src orig\<rparr>) cs;
        let cs = cell_upd (nat tail) (mc_seq_update (\<lambda>S. S - {q})) cs;
        let cs = cell_upd e (mc_seq_update (insert q)) cs;
        assrt (\<not> mc_is_empty (cs ! nat tail));
        Some cs }
      else Some cs)"

definition fs_own :: "llama_ubatch \<Rightarrow> nat \<Rightarrow> mem_cell list \<times> nat \<times> int \<times> int \<Rightarrow> (mem_cell list \<times> nat \<times> int \<times> int) option" where
  "fs_own ub s st = (case st of (cs, next_empty_cell, mn, mx) \<Rightarrow> do {
     let q = fs_lead ub s;
     seq_meta \<leftarrow> at_idx cs (nat q);
     has_cell \<leftarrow> (if mc_tail seq_meta \<ge> 0 then do {
        cell \<leftarrow> at_idx cs (nat (mc_tail seq_meta));
        assrt (has_seq_id q cell);
        Some (card (mc_seq cell) = 1) } else Some False);
     (cs, next_empty_cell) \<leftarrow> (if has_cell then Some (cs, next_empty_cell) else do {
        empty_cell \<leftarrow> at_idx cs next_empty_cell;
        assrt (mc_is_empty empty_cell);
        cs \<leftarrow> fs_copy_tail q (mc_tail seq_meta) next_empty_cell cs;
        let cs = cell_upd (nat q) (mc_tail_update (\<lambda>_. int next_empty_cell)) cs;
        Some (cs, if s + 1 < ub_n_seqs ub then next_empty cs (length cs) next_empty_cell else next_empty_cell) });
     let tail = mc_tail (cs ! nat q);
     Some (cs, next_empty_cell, if mn > tail then tail else mn, if mx < tail then tail else mx) })"

text \<open>The cells of the ubatch are brought together, in the order of its sequence sets.\<close>

definition fs_gather :: "llama_ubatch \<Rightarrow> int \<Rightarrow> nat \<Rightarrow> mem_cell list \<Rightarrow> mem_cell list option" where
  "fs_gather ub mn s cs = do {
     let dst_id = int s + mn;
     seq_meta \<leftarrow> at_idx cs (nat (fs_lead ub s));
     let src_id = mc_tail seq_meta;
     if dst_id = src_id then Some cs else do {
       assrt (0 \<le> dst_id \<and> 0 \<le> src_id);
       dst_cell \<leftarrow> at_idx cs (nat dst_id);
       src_cell \<leftarrow> at_idx cs (nat src_id);
       let cs = cell_upd (nat dst_id) (\<lambda>c. c\<lparr>mc_pos := mc_pos src_cell, mc_src := mc_src src_cell, mc_seq := mc_seq src_cell\<rparr>) cs;
       let cs = cell_upd (nat src_id) (\<lambda>c. c\<lparr>mc_pos := mc_pos dst_cell, mc_src := mc_src dst_cell, mc_seq := mc_seq dst_cell\<rparr>) cs;
       Some (map (mc_tail_update (\<lambda>tail. if tail = src_id then dst_id else if tail = dst_id then src_id else tail)) cs) } }"

definition fs_fill :: "llama_ubatch \<Rightarrow> int \<Rightarrow> nat \<Rightarrow> mem_cell list \<Rightarrow> mem_cell list option" where
  "fs_fill ub mn s cs = do {
     let last_pos = ub_pos ub ! (fs_first ub s + ub_n_seq_tokens ub - 1);
     let cell_id = int s + mn;
     cell \<leftarrow> at_idx cs (nat cell_id);
     let cs = cell_upd (nat cell_id) (\<lambda>c. c\<lparr>mc_pos := last_pos, mc_seq := {}\<rparr>) cs;
     ofold (\<lambda>q cs. do {
         let cs = cell_upd (nat cell_id) (mc_seq_update (insert q)) cs;
         seq_meta \<leftarrow> at_idx cs (nat q);
         Some (cell_upd (nat q) (mc_tail_update (\<lambda>_. cell_id)) cs) })
       (fs_seqs ub s) cs }"

text \<open>Where the states come from: the first row that no cell refers to is zeroed for new states.\<close>

definition refcount :: "mem_cell list \<Rightarrow> nat \<Rightarrow> nat" where
  "refcount cs i = length (filter (\<lambda>c. mc_src c = int i) cs)"

definition fs_rs_z :: "mem_cell list \<Rightarrow> nat \<Rightarrow> nat \<Rightarrow> int" where
  "fs_rs_z cs mn mx = (case find (\<lambda>i. refcount cs i = 0) [mn..<Suc mx] of Some i \<Rightarrow> int i | None \<Rightarrow> -1)"

definition fs_stage :: "int \<Rightarrow> nat \<Rightarrow> mem_cell list \<Rightarrow> mem_cell list option" where
  "fs_stage rs_z i cs = do {
     c \<leftarrow> at_idx cs i;
     src0 \<leftarrow> (if mc_src c < 0 then do { assrt (rs_z \<ge> 0); Some rs_z } else Some (mc_src c));
     Some (cell_upd i (\<lambda>c. c\<lparr>mc_src0 := src0, mc_src := int i\<rparr>) cs) }"

definition recr_find_slot :: "llama_ubatch \<Rightarrow> mem_recr \<Rightarrow> (bool \<times> mem_recr) option" where
  "recr_find_slot ub m = do {
     let n_seqs = ub_n_seqs ub;
     let m = (if int (mr_head m) > mr_used m + 2 * int n_seqs then m\<lparr>mr_head := 0\<rparr> else m);
     assrt (equal_seqs ub);
     (ok, m) \<leftarrow> fs_check (concat (map (\<lambda>s. enumerate 0 (fs_seqs ub s)) [0..<n_seqs])) m;
     if \<not> ok then Some (False, m) else do {
     let sz = mr_size m;
     let next_empty_cell = first_empty (mr_cells m) sz (mr_head m);
     (cs, _, mn, mx) \<leftarrow> ofold (fs_own ub) [0..<n_seqs] (mr_cells m, next_empty_cell, int sz - 1, 0);
     cs \<leftarrow> ofold (fs_gather ub mn) [0..<n_seqs] cs;
     cs \<leftarrow> ofold (fs_fill ub mn) [0..<n_seqs] cs;
     assrt (\<forall>c \<in> set cs. mc_src c < int sz);
     let rs_z = fs_rs_z cs (nat mn) (nat mx);
     cs \<leftarrow> ofold (fs_stage rs_z) [nat mn..<nat (mx + 1)] cs;
     let n = nat (mx - mn + 1);
     Some (n \<ge> n_seqs, m\<lparr>mr_cells := cs, mr_rs_z := rs_z, mr_head := nat mn, mr_n := n,
       mr_used := int (length (filter (\<lambda>c. \<not> mc_is_empty c) cs))\<rparr>) } }"

subsection \<open>Batches\<close>

fun recr_place :: "llama_ubatch list \<Rightarrow> mem_recr \<Rightarrow> (bool \<times> mem_recr) option" where
  "recr_place [] m = Some (True, m)"
| "recr_place (ub # ubs) m = do {
     (ok, m) \<leftarrow> recr_find_slot ub m;
     if ok then recr_place ubs m else Some (False, m) }"

definition recr_prepare :: "llama_ubatch list \<Rightarrow> mem_recr \<Rightarrow> (bool \<times> mem_recr) option" where
  "recr_prepare ubs m = do {
     (success, m') \<leftarrow> recr_place ubs m;
     Some (success, m'\<lparr>mr_cells := mr_cells m, mr_used := mr_used m, mr_head := mr_head m\<rparr>) }"

definition recr_init_batch :: "nat \<Rightarrow> bool \<Rightarrow> batch_allocr \<Rightarrow> mem_recr \<Rightarrow>
    (llama_ubatch list option \<times> batch_allocr \<times> mem_recr) option" where
  "recr_init_batch n_ubatch embd_all al m = do {
     let al = split_reset al;
     (ubs, al) \<leftarrow> split_all (\<lambda>al. if embd_all then split_seq n_ubatch al
        else split_equal n_ubatch True (if mr_n_rs_seq m > 0 then mr_n_rs_seq m + 1 else 0) al) al [];
     if al_n_used al < bt_n_tokens (al_batch al) then Some (None, al, m) else do {
       (success, m) \<leftarrow> recr_prepare ubs m;
       Some (if success then Some ubs else None, al, m) } }"

subsection \<open>The graph over the states (\<open>src/llama-graph.cpp\<close>)\<close>

definition s_copy :: "nat \<Rightarrow> mem_recr \<Rightarrow> (int \<times> mem_recr) option" where
  "s_copy i m = do {
     c \<leftarrow> at_idx (mr_cells m) (i + mr_head m);
     if mr_n_rs_seq m = 0 then Some (mc_src0 c, m)
     else if mc_is_empty c then Some (mc_src0 c, m)
     else (let q = Min (mc_seq c) in
       if q \<ge> 0 \<and> nat q < length (mr_rs_idx m) then
         Some (int (mr_rs_idx m ! nat q) * int (mr_size m) + mc_src0 c, m\<lparr>mr_rs_idx := (mr_rs_idx m)[nat q := 0]\<rparr>)
       else Some (mc_src0 c, m)) }"

definition rs_set_input :: "mem_recr \<Rightarrow> (int list \<times> mem_recr) option" where
  "rs_set_input m = ofold (\<lambda>i (out, m). do { (x, m) \<leftarrow> s_copy i m; Some (out @ [x], m) }) [0..<mr_n m] ([], m)"

text \<open>
  \<open>build_rs\<close>: zero one row, read the states of the ubatch, copy the states that lie between them and
  the end of the slot. The result is the states read and the rows after the copy.
\<close>

definition get_rows :: "'st list \<Rightarrow> int list \<Rightarrow> 'st list option" where
  "get_rows rows idxs = (if \<forall>i \<in> set idxs. 0 \<le> i \<and> nat i < length rows then Some (map (\<lambda>i. rows ! nat i) idxs) else None)"

definition put_rows :: "nat \<Rightarrow> 'st list \<Rightarrow> 'st list \<Rightarrow> 'st list option" where
  "put_rows at xs rows = (if at + length xs \<le> length rows then Some (take at rows @ xs @ drop (at + length xs) rows) else None)"

definition build_rs :: "'st \<Rightarrow> int list \<Rightarrow> nat \<Rightarrow> nat \<Rightarrow> int \<Rightarrow> 'st list \<Rightarrow> ('st list \<times> 'st list) option" where
  "build_rs zero copy n_seqs rs_head rs_zero rows = do {
     let rows = (if rs_zero \<ge> 0 then rows[nat rs_zero := zero] else rows);
     output_states \<leftarrow> get_rows rows (take n_seqs copy);
     states_extra \<leftarrow> get_rows rows (drop n_seqs copy);
     rows \<leftarrow> put_rows (rs_head + n_seqs) states_extra rows;
     Some (output_states, rows) }"

text \<open>
  One ubatch: find the slot, copy the states, and store the new state of every sequence set, which
  the model computes from the old one (\<open>f\<close>), in the cells from the head on.
\<close>

definition recr_decode :: "'st \<Rightarrow> (nat \<Rightarrow> 'st \<Rightarrow> 'st) \<Rightarrow> llama_ubatch \<Rightarrow> mem_recr \<Rightarrow> 'st list \<Rightarrow> (mem_recr \<times> 'st list) option" where
  "recr_decode zero f ub m rows = do {
     (_, m) \<leftarrow> recr_find_slot ub m;
     (copy, m) \<leftarrow> rs_set_input m;
     (states, rows) \<leftarrow> build_rs zero copy (ub_n_seqs ub) (mr_head m) (mr_rs_z m) rows;
     rows \<leftarrow> put_rows (mr_head m) (map (\<lambda>s. f s (states ! s)) [0..<length states]) rows;
     Some (m, rows) }"

end
