(* ===== verification/RecurrentSlot.thy ===== *)
theory RecurrentSlot
  imports Recurrent
begin

section \<open>How the recurrent memory finds a slot\<close>

text \<open>
  The cells seen per sequence: the cell a sequence is in, its position, and the row with its state.
  The sets of sequences in the cells are determined by the tails.
\<close>

abbreviation seq_in :: "mem_cell list \<Rightarrow> llama_seq_id \<Rightarrow> bool" where
  "seq_in cs q \<equiv> 0 \<le> q \<and> q < int (length cs)"

abbreviation tail_at :: "mem_cell list \<Rightarrow> llama_seq_id \<Rightarrow> int" where
  "tail_at cs q \<equiv> mc_tail (cs ! nat q)"

definition lpos :: "mem_cell list \<Rightarrow> llama_seq_id \<Rightarrow> llama_pos" where
  "lpos cs q = (if tail_at cs q < 0 then -1 else mc_pos (cs ! nat (tail_at cs q)))"

definition lsrc :: "mem_cell list \<Rightarrow> llama_seq_id \<Rightarrow> int" where
  "lsrc cs q = (if tail_at cs q < 0 then -1 else mc_src (cs ! nat (tail_at cs q)))"

definition tails_in :: "mem_cell list \<Rightarrow> bool" where
  "tails_in cs \<longleftrightarrow> (\<forall>q. seq_in cs q \<longrightarrow> -1 \<le> tail_at cs q \<and> tail_at cs q < int (length cs)) \<and>
     (\<forall>i < length cs. \<forall>q \<in> mc_seq (cs ! i). seq_in cs q \<and> tail_at cs q = int i)"

definition tails_ok :: "mem_cell list \<Rightarrow> bool" where
  "tails_ok cs \<longleftrightarrow> tails_in cs \<and> (\<forall>q. seq_in cs q \<and> 0 \<le> tail_at cs q \<longrightarrow> q \<in> mc_seq (cs ! nat (tail_at cs q)))"

definition cells_ok :: "mem_cell list \<Rightarrow> bool" where
  "cells_ok cs \<longleftrightarrow> tails_ok cs \<and> (\<forall>i < length cs.
     (mc_seq (cs ! i) = {} \<longrightarrow> mc_pos (cs ! i) = -1 \<and> (mc_src (cs ! i) = -1 \<or> mc_src (cs ! i) = int i)) \<and>
     (mc_seq (cs ! i) \<noteq> {} \<longrightarrow> 0 \<le> mc_pos (cs ! i) \<and> mc_src (cs ! i) = int i))"

definition n_full :: "mem_cell list \<Rightarrow> nat" where
  "n_full cs = length (filter (\<lambda>c. \<not> mc_is_empty c) cs)"

definition recr_inv :: "mem_recr \<Rightarrow> bool" where
  "recr_inv m \<longleftrightarrow> cells_ok (mr_cells m) \<and> mr_used m = int (n_full (mr_cells m)) \<and> mr_head m < mr_size m \<and>
     length (mr_rs_idx m) = mr_n_seq_max m \<and> mr_n_seq_max m \<le> mr_size m \<and> mr_size m < 2 ^ 31 \<and>
     (\<forall>x \<in> set (mr_rs_idx m). x \<le> mr_n_rs_seq m)"

lemma seq_in_nat: "seq_in cs q \<Longrightarrow> nat q < length cs"
  by linarith

lemma tails_inD:
  assumes "tails_in cs"
  shows "seq_in cs q \<Longrightarrow> -1 \<le> tail_at cs q" "seq_in cs q \<Longrightarrow> tail_at cs q < int (length cs)"
    "i < length cs \<Longrightarrow> q \<in> mc_seq (cs ! i) \<Longrightarrow> 0 \<le> q" "i < length cs \<Longrightarrow> q \<in> mc_seq (cs ! i) \<Longrightarrow> q < int (length cs)"
    "i < length cs \<Longrightarrow> q \<in> mc_seq (cs ! i) \<Longrightarrow> tail_at cs q = int i"
  using assms unfolding tails_in_def by blast+

lemma tails_okD:
  assumes "tails_ok cs"
  shows "tails_in cs" "seq_in cs q \<Longrightarrow> 0 \<le> tail_at cs q \<Longrightarrow> q \<in> mc_seq (cs ! nat (tail_at cs q))"
  using assms unfolding tails_ok_def by blast+

lemma tails_ok_iff: "tails_ok cs \<Longrightarrow> seq_in cs q \<Longrightarrow> i < length cs \<Longrightarrow> q \<in> mc_seq (cs ! i) \<longleftrightarrow> tail_at cs q = int i"
  using tails_inD(5) [OF tails_okD(1)] tails_okD(2) [of cs q] by (metis nat_int of_nat_0_le_iff)

lemma cells_okD:
  assumes "cells_ok cs" and "i < length cs"
  shows "mc_seq (cs ! i) = {} \<Longrightarrow> mc_pos (cs ! i) = -1" "mc_seq (cs ! i) = {} \<Longrightarrow> mc_src (cs ! i) = -1 \<or> mc_src (cs ! i) = int i"
    "mc_seq (cs ! i) \<noteq> {} \<Longrightarrow> 0 \<le> mc_pos (cs ! i)" "mc_seq (cs ! i) \<noteq> {} \<Longrightarrow> mc_src (cs ! i) = int i"
  using assms unfolding cells_ok_def by blast+

lemma length_cell_upd [simp]: "length (cell_upd i f cs) = length cs"
  by (simp add: cell_upd_def)

lemma nth_cell_upd [simp]: "j < length cs \<Longrightarrow> cell_upd i f cs ! j = (if j = i then f (cs ! j) else cs ! j)"
  by (simp add: cell_upd_def)

lemma n_full_card: "n_full cs = card {i. i < length cs \<and> mc_seq (cs ! i) \<noteq> {}}"
  by (simp add: n_full_def length_filter_conv_card mc_is_empty_def)

lemma u32_seq: "seq_in cs q \<Longrightarrow> length cs < 2 ^ 31 \<Longrightarrow> u32 q = nat q"
  by (simp add: u32_def)

subsection \<open>Taking a sequence out of its cell\<close>

definition rel_cells :: "llama_seq_id \<Rightarrow> mem_cell list \<Rightarrow> mem_cell list" where
  "rel_cells s cs = (if tail_at cs s < 0 then cs else
     let t = nat (tail_at cs s);
       cs = cell_upd (nat s) (mc_tail_update (\<lambda>_. -1)) (cell_upd t (mc_seq_update (\<lambda>S. S - {s})) cs)
     in if mc_seq (cs ! t) = {} then cell_upd t (\<lambda>c. c\<lparr>mc_pos := -1, mc_src := -1\<rparr>) cs else cs)"

lemma rel_cells_nth:
  assumes "tails_ok cs" "seq_in cs s" "i < length cs"
  shows "mc_tail (rel_cells s cs ! i) = (if i = nat s then -1 else mc_tail (cs ! i))"
    "mc_seq (rel_cells s cs ! i) = mc_seq (cs ! i) - {s}"
    "mc_pos (rel_cells s cs ! i) = (if mc_seq (cs ! i) = {s} then -1 else mc_pos (cs ! i))"
    "mc_src (rel_cells s cs ! i) = (if mc_seq (cs ! i) = {s} then -1 else mc_src (cs ! i))"
    "length (rel_cells s cs) = length cs"
proof -
  have "mc_tail (rel_cells s cs ! i) = (if i = nat s then -1 else mc_tail (cs ! i)) \<and>
    mc_seq (rel_cells s cs ! i) = mc_seq (cs ! i) - {s} \<and>
    mc_pos (rel_cells s cs ! i) = (if mc_seq (cs ! i) = {s} then -1 else mc_pos (cs ! i)) \<and>
    mc_src (rel_cells s cs ! i) = (if mc_seq (cs ! i) = {s} then -1 else mc_src (cs ! i)) \<and>
    length (rel_cells s cs) = length cs"
  proof (cases "tail_at cs s < 0")
    case True
    then have "tail_at cs s = -1" using tails_inD(1) [OF tails_okD(1) [OF assms(1)] assms(2)] by linarith
    moreover have "s \<notin> mc_seq (cs ! i)" using True tails_ok_iff [OF assms] by simp
    ultimately show ?thesis by (auto simp: rel_cells_def)
  next
    case False
    then obtain t where t: "tail_at cs s = int t" by (metis nonneg_int_cases not_less)
    have tl: "t < length cs" using tails_inD(2) [OF tails_okD(1) [OF assms(1)] assms(2)] t by simp
    have mem: "s \<in> mc_seq (cs ! i) \<longleftrightarrow> i = t" using tails_ok_iff [OF assms] t by auto
    have "rel_cells s cs = (let cs' = cell_upd (nat s) (mc_tail_update (\<lambda>_. -1)) (cell_upd t (mc_seq_update (\<lambda>S. S - {s})) cs)
      in if mc_seq (cs' ! t) = {} then cell_upd t (\<lambda>c. c\<lparr>mc_pos := -1, mc_src := -1\<rparr>) cs' else cs')"
      by (simp add: rel_cells_def t)
    then show ?thesis using mem tl assms(3) by (cases "i = t"; cases "i = nat s") (auto simp: Let_def)
  qed
  then show "mc_tail (rel_cells s cs ! i) = (if i = nat s then -1 else mc_tail (cs ! i))"
    "mc_seq (rel_cells s cs ! i) = mc_seq (cs ! i) - {s}"
    "mc_pos (rel_cells s cs ! i) = (if mc_seq (cs ! i) = {s} then -1 else mc_pos (cs ! i))"
    "mc_src (rel_cells s cs ! i) = (if mc_seq (cs ! i) = {s} then -1 else mc_src (cs ! i))"
    "length (rel_cells s cs) = length cs" by blast+
qed

lemma rel_cells_spec:
  assumes "cells_ok cs" "seq_in cs s"
  shows "cells_ok (rel_cells s cs)"
    "seq_in cs q \<Longrightarrow> tail_at (rel_cells s cs) q = (if q = s then -1 else tail_at cs q)"
    "seq_in cs q \<Longrightarrow> q \<noteq> s \<Longrightarrow> lpos (rel_cells s cs) q = lpos cs q"
    "seq_in cs q \<Longrightarrow> q \<noteq> s \<Longrightarrow> lsrc (rel_cells s cs) q = lsrc cs q"
    "length (rel_cells s cs) = length cs"
proof -
  have ok: "tails_ok cs" using assms(1) by (simp add: cells_ok_def)
  note nth = rel_cells_nth [OF ok assms(2)]
  have "0 < length cs" using assms(2) by linarith
  from nth(5) [OF this] show len: "length (rel_cells s cs) = length cs" .
  have tail: "tail_at (rel_cells s cs) q = (if q = s then -1 else tail_at cs q)" if "seq_in cs q" for q
    using nth(1) [of "nat q"] that assms(2) by auto
  then show "seq_in cs q \<Longrightarrow> tail_at (rel_cells s cs) q = (if q = s then -1 else tail_at cs q)" .
  have other: "mc_seq (cs ! nat (tail_at cs q)) \<noteq> {s}" if "seq_in cs q" "q \<noteq> s" "0 \<le> tail_at cs q" for q
    using tails_okD(2) [OF ok that(1,3)] that(2) by blast
  have lt: "nat (tail_at cs q) < length cs" if "seq_in cs q" "0 \<le> tail_at cs q" for q
    using tails_inD(2) [OF tails_okD(1) [OF ok] that(1)] that(2) by linarith
  show "seq_in cs q \<Longrightarrow> q \<noteq> s \<Longrightarrow> lpos (rel_cells s cs) q = lpos cs q"
    using tail [of q] nth(3) [OF lt, of q] other [of q] by (simp add: lpos_def)
  show "seq_in cs q \<Longrightarrow> q \<noteq> s \<Longrightarrow> lsrc (rel_cells s cs) q = lsrc cs q"
    using tail [of q] nth(4) [OF lt, of q] other [of q] by (simp add: lsrc_def)
  have "tails_in (rel_cells s cs)" unfolding tails_in_def len
    using tail tails_inD [OF tails_okD(1) [OF ok]] nth(2) by auto
  moreover have "q \<in> mc_seq (rel_cells s cs ! nat (tail_at (rel_cells s cs) q))"
    if "seq_in cs q" "0 \<le> tail_at (rel_cells s cs) q" for q
  proof -
    have "q \<noteq> s" "0 \<le> tail_at cs q" using that tail [OF that(1)] by (auto split: if_splits)
    then show ?thesis using tail [OF that(1)] nth(2) [OF lt [OF that(1)]] tails_okD(2) [OF ok that(1)] by simp
  qed
  ultimately have t: "tails_ok (rel_cells s cs)" unfolding tails_ok_def len by blast
  have "(mc_seq (rel_cells s cs ! i) = {} \<longrightarrow> mc_pos (rel_cells s cs ! i) = -1 \<and>
       (mc_src (rel_cells s cs ! i) = -1 \<or> mc_src (rel_cells s cs ! i) = int i)) \<and>
     (mc_seq (rel_cells s cs ! i) \<noteq> {} \<longrightarrow> 0 \<le> mc_pos (rel_cells s cs ! i) \<and> mc_src (rel_cells s cs ! i) = int i)"
    if "i < length cs" for i
  proof (cases "mc_seq (cs ! i) = {s}")
    case False
    then have "mc_seq (rel_cells s cs ! i) = {} \<longleftrightarrow> mc_seq (cs ! i) = {}" using nth(2) [OF that] by auto
    then show ?thesis using False nth(3,4) [OF that] cells_okD [OF assms(1) that] by simp
  qed (simp add: nth(2-4) [OF that])
  then show "cells_ok (rel_cells s cs)" unfolding cells_ok_def len using t by blast
qed

lemma release_tail_spec:
  assumes inv: "recr_inv m" and s: "seq_in (mr_cells m) s"
  shows "\<exists>u. release_tail s m = Some (m\<lparr>mr_cells := rel_cells s (mr_cells m), mr_used := u\<rparr>) \<and>
    recr_inv (m\<lparr>mr_cells := rel_cells s (mr_cells m), mr_used := u\<rparr>)"
proof -
  let ?cs = "mr_cells m"
  have ok: "cells_ok ?cs" "tails_ok ?cs" and used: "mr_used m = int (n_full ?cs)"
    using inv by (simp_all add: recr_inv_def cells_ok_def)
  note nth = rel_cells_nth [OF ok(2) s]
  note spec = rel_cells_spec [OF ok(1) s]
  let ?F = "{i. i < length ?cs \<and> mc_seq (?cs ! i) \<noteq> {}}"
  have F: "{i. i < length (rel_cells s ?cs) \<and> mc_seq (rel_cells s ?cs ! i) \<noteq> {}} =
      ?F - {i. i < length ?cs \<and> mc_seq (?cs ! i) = {s}}"
    using nth(2) spec(5) by auto
  have "\<exists>u. release_tail s m = Some (m\<lparr>mr_cells := rel_cells s ?cs, mr_used := u\<rparr>) \<and> u = int (n_full (rel_cells s ?cs))"
  proof (cases "tail_at ?cs s < 0")
    case True
    then have "release_tail s m = Some (m\<lparr>mr_cells := rel_cells s ?cs, mr_used := mr_used m\<rparr>)" "rel_cells s ?cs = ?cs"
      using seq_in_nat [OF s] by (simp_all add: release_tail_def rel_cells_def)
    then show ?thesis using used by simp
  next
    case False
    then obtain t where t: "tail_at ?cs s = int t" by (metis nonneg_int_cases not_less)
    have tl: "t < length ?cs" using tails_inD(2) [OF tails_okD(1) [OF ok(2)] s] t by simp
    have mem: "s \<in> mc_seq (?cs ! t)" using tails_ok_iff [OF ok(2) s tl] t by simp
    have only: "{i. i < length ?cs \<and> mc_seq (?cs ! i) = {s}} = (if mc_seq (?cs ! t) = {s} then {t} else {})"
      using tails_ok_iff [OF ok(2) s] t tl by auto
    let ?cs' = "cell_upd (nat s) (mc_tail_update (\<lambda>_. -1)) (cell_upd t (mc_seq_update (\<lambda>S. S - {s})) ?cs)"
    have sq: "mc_seq (?cs' ! t) = mc_seq (?cs ! t) - {s}" using tl by simp
    have "n_full (rel_cells s ?cs) = (if mc_seq (?cs ! t) = {s} then n_full ?cs - 1 else n_full ?cs)"
      unfolding n_full_card F only using mem tl by simp
    moreover have "0 < n_full ?cs"
      using mem tl unfolding n_full_card by (auto simp: card_gt_0_iff)
    moreover have "release_tail s m = Some (m\<lparr>mr_cells := rel_cells s ?cs,
        mr_used := (if mc_seq (?cs ! t) = {s} then mr_used m - 1 else mr_used m)\<rparr>)"
      using seq_in_nat [OF s] t tl mem unfolding release_tail_def rel_cells_def Let_def mc_is_empty_def by (auto simp: sq)
    ultimately show ?thesis using used by auto
  qed
  then show ?thesis using inv spec(1,5) by (auto simp: recr_inv_def mr_size_def)
qed

lemma rel_all_spec:
  assumes "cells_ok cs" "\<forall>q \<in> set qs. seq_in cs q"
  shows "cells_ok (fold rel_cells qs cs) \<and> length (fold rel_cells qs cs) = length cs \<and>
    (\<forall>q. seq_in cs q \<longrightarrow> tail_at (fold rel_cells qs cs) q = (if q \<in> set qs then -1 else tail_at cs q) \<and>
      (q \<notin> set qs \<longrightarrow> lpos (fold rel_cells qs cs) q = lpos cs q \<and> lsrc (fold rel_cells qs cs) q = lsrc cs q)) \<and>
    (\<forall>i < length cs. mc_src (fold rel_cells qs cs ! i) = -1 \<or>
      (mc_src (fold rel_cells qs cs ! i) = mc_src (cs ! i) \<and> (mc_seq (fold rel_cells qs cs ! i) = {} \<longrightarrow> mc_seq (cs ! i) = {})))"
  using assms
proof (induction qs arbitrary: cs)
  case (Cons s qs)
  let ?c = "rel_cells s cs"
  have s: "seq_in cs s" using Cons.prems(2) by simp
  note spec = rel_cells_spec [OF Cons.prems(1) s]
  note nth = rel_cells_nth [OF _ s, unfolded cells_ok_def]
  have ok: "tails_ok cs" using Cons.prems(1) by (simp add: cells_ok_def)
  have "\<forall>q \<in> set qs. seq_in ?c q" using Cons.prems(2) spec(5) by simp
  note IH = Cons.IH [OF spec(1) this, unfolded spec(5)]
  have src: "mc_src (?c ! i) = -1 \<or> (mc_src (?c ! i) = mc_src (cs ! i) \<and> (mc_seq (?c ! i) = {} \<longrightarrow> mc_seq (cs ! i) = {}))"
    if "i < length cs" for i
    using rel_cells_nth(2,4) [OF ok s that] by auto
  have "mc_src (fold rel_cells qs ?c ! i) = -1 \<or>
      (mc_src (fold rel_cells qs ?c ! i) = mc_src (cs ! i) \<and> (mc_seq (fold rel_cells qs ?c ! i) = {} \<longrightarrow> mc_seq (cs ! i) = {}))"
    if "i < length cs" for i
    using src [OF that] IH that by metis
  moreover have "tail_at (fold rel_cells qs ?c) q = (if q \<in> set (s # qs) then -1 else tail_at cs q) \<and>
      (q \<notin> set (s # qs) \<longrightarrow> lpos (fold rel_cells qs ?c) q = lpos cs q \<and> lsrc (fold rel_cells qs ?c) q = lsrc cs q)"
    if "seq_in cs q" for q
    using IH that spec(2-4) [OF that] by auto
  ultimately show ?case using IH by (simp add: spec(5))
qed auto

lemma fs_check_spec:
  assumes "recr_inv m" "\<forall>x \<in> set xs. seq_in (mr_cells m) (snd x)"
  shows "\<exists>u. fs_check xs m = Some (True, m\<lparr>mr_cells := fold rel_cells (map snd (filter (\<lambda>x. 0 < fst x) xs)) (mr_cells m), mr_used := u\<rparr>) \<and>
    recr_inv (m\<lparr>mr_cells := fold rel_cells (map snd (filter (\<lambda>x. 0 < fst x) xs)) (mr_cells m), mr_used := u\<rparr>)"
  using assms
proof (induction xs arbitrary: m)
  case Nil
  have "m\<lparr>mr_cells := mr_cells m, mr_used := mr_used m\<rparr> = m" by simp
  then show ?case using Nil.prems(1) by (metis filter.simps(1) fold_simps(1) fs_check.simps(1) list.map(1))
next
  case (Cons x xs)
  obtain j s where x: "x = (j, s)" by (cases x)
  have s: "seq_in (mr_cells m) s" using Cons.prems(2) x by simp
  have chk: "\<not> (s < 0 \<or> u32 s \<ge> mr_size m)"
    using s u32_seq [OF s] Cons.prems(1) by (auto simp: recr_inv_def mr_size_def)
  show ?case
  proof (cases "0 < j")
    case True
    obtain u where u: "release_tail s m = Some (m\<lparr>mr_cells := rel_cells s (mr_cells m), mr_used := u\<rparr>)"
      "recr_inv (m\<lparr>mr_cells := rel_cells s (mr_cells m), mr_used := u\<rparr>)"
      using release_tail_spec [OF Cons.prems(1) s] by blast
    have "length (rel_cells s (mr_cells m)) = length (mr_cells m)"
      using rel_cells_spec(5) [OF _ s] Cons.prems(1) by (simp add: recr_inv_def)
    then have "\<forall>x \<in> set xs. seq_in (mr_cells (m\<lparr>mr_cells := rel_cells s (mr_cells m), mr_used := u\<rparr>)) (snd x)"
      using Cons.prems(2) by simp
    from Cons.IH [OF u(2) this] chk u(1) True x show ?thesis by simp
  next
    case False
    then show ?thesis using Cons.IH [OF Cons.prems(1)] Cons.prems(2) chk x by auto
  qed
qed

subsection \<open>Looking for an empty cell\<close>

lemma wrap_mod: "x < 2 * N \<Longrightarrow> (if x \<ge> N then x - N else x) = x mod (N :: nat)"
  by (simp add: mod_if)

lemma first_empty_ring:
  assumes "j < k" "h < 2 * length cs" "mc_is_empty (cs ! ((h + j) mod length cs))"
    "\<forall>j' < j. \<not> mc_is_empty (cs ! ((h + j') mod length cs))"
  shows "first_empty cs k h = (h + j) mod length cs"
  using assms
proof (induction k arbitrary: h j)
  case (Suc k)
  let ?N = "length cs" and ?w = "h mod length cs"
  have w: "(if h \<ge> ?N then h - ?N else h) = ?w" using Suc.prems(2) by (rule wrap_mod)
  show ?case
  proof (cases j)
    case 0
    then show ?thesis using Suc.prems(3) w by (simp add: Let_def)
  next
    case (Suc i)
    have "0 < ?N" using Suc.prems(2) by linarith
    then have "?w + 1 < 2 * ?N" using mod_less_divisor [of ?N h] by linarith
    moreover have m: "(?w + 1 + x) mod ?N = (h + Suc x) mod ?N" for x
      using mod_add_left_eq [of h ?N "Suc x"] by (simp add: add.assoc)
    moreover have "\<not> mc_is_empty (cs ! ?w)" "\<forall>j' < i. \<not> mc_is_empty (cs ! ((h + Suc j') mod ?N))"
      using Suc.prems(4) Suc by auto
    ultimately show ?thesis using Suc.IH [of i "?w + 1"] Suc.prems Suc w by (simp add: Let_def)
  qed
qed simp

lemma next_empty_ring:
  assumes "j < k" "h < length cs" "mc_is_empty (cs ! ((h + Suc j) mod length cs))"
    "\<forall>j' < j. \<not> mc_is_empty (cs ! ((h + Suc j') mod length cs))"
  shows "next_empty cs k h = (h + Suc j) mod length cs"
  using assms
proof (induction k arbitrary: h j)
  case (Suc k)
  let ?N = "length cs" and ?w = "(h + 1) mod length cs"
  have "h + 1 < 2 * ?N" using Suc.prems(2) by linarith
  then have w: "(if h + 1 \<ge> ?N then h + 1 - ?N else h + 1) = ?w" by (rule wrap_mod)
  show ?case
  proof (cases j)
    case 0
    then show ?thesis using Suc.prems(3) unfolding next_empty.simps Let_def w by simp
  next
    case (Suc i)
    have "?w < ?N" using Suc.prems(2) by (intro mod_less_divisor) linarith
    moreover have m: "(?w + Suc x) mod ?N = (h + Suc (Suc x)) mod ?N" for x
      using mod_add_left_eq [of "h + 1" ?N "Suc x"] by simp
    moreover have "\<not> mc_is_empty (cs ! ?w)" "\<forall>j' < i. \<not> mc_is_empty (cs ! ((h + Suc (Suc j')) mod ?N))"
      using Suc.prems(4) Suc by auto
    ultimately show ?thesis using Suc.IH [of i ?w] Suc.prems Suc unfolding next_empty.simps Let_def w by simp
  qed
qed simp

lemma ring_inj: "k < N \<Longrightarrow> k' < N \<Longrightarrow> (h + k) mod N = (h + k') mod N \<Longrightarrow> k = (k' :: nat)"
proof (induction k k' rule: linorder_wlog)
  case (le a b)
  then have "N dvd (h + b) - (h + a)" using mod_eq_dvd_iff_nat [of "h + a" "h + b" N] by simp
  then have "N dvd b - a" by simp
  then show ?case using le by (metis diff_diff_cancel diff_zero dvd_imp_le leD less_imp_diff_less neq0_conv)
qed simp

lemma ring_onto:
  assumes "i < (N :: nat)"
  obtains k where "k < N" "(h + k) mod N = i"
proof
  let ?k = "(i + (N - h mod N)) mod N"
  show "?k < N" using assms by simp
  have "h mod N < N" using assms by simp
  then have "h mod N + (i + (N - h mod N)) = i + N" by simp
  then have "(h mod N + (i + (N - h mod N))) mod N = i" using assms by simp
  then show "(h + ?k) mod N = i" by (metis mod_add_left_eq mod_add_right_eq)
qed

subsection \<open>Giving the leading sequences cells of their own\<close>

definition cell_free :: "mem_cell list \<Rightarrow> nat \<Rightarrow> bool" where
  "cell_free cs i \<longleftrightarrow> i < length cs \<and> (\<forall>q. seq_in cs q \<longrightarrow> tail_at cs q \<noteq> int i)"

lemma free_empty: "tails_in cs \<Longrightarrow> cell_free cs i \<Longrightarrow> mc_seq (cs ! i) = {}"
  unfolding cell_free_def tails_in_def by blast

text \<open>There is a free cell when some sequence does not need one: there are as many cells as sequences.\<close>

lemma free_cell_exists:
  assumes "seq_in cs q" and "\<forall>i < length cs. tail_at cs q = int i \<longrightarrow> (\<exists>r. r \<noteq> q \<and> seq_in cs r \<and> tail_at cs r = int i)"
  shows "\<exists>i. cell_free cs i"
proof (rule ccontr)
  assume "\<nexists>i. cell_free cs i"
  then have all: "\<exists>r. seq_in cs r \<and> tail_at cs r = int i" if "i < length cs" for i
    using that unfolding cell_free_def by blast
  let ?R = "{..<length cs} - {nat q}"
  have "\<exists>r \<in> ?R. mc_tail (cs ! r) = int i" if i: "i < length cs" for i
  proof -
    obtain r where r: "seq_in cs r" "tail_at cs r = int i" using all [OF i] by blast
    then obtain r where "r \<noteq> q" "seq_in cs r" "tail_at cs r = int i" using assms(2) i by metis
    then show ?thesis using assms(1) by (intro bexI [of _ "nat r"]) auto
  qed
  then have "{..<length cs} \<subseteq> (\<lambda>r. nat (mc_tail (cs ! r))) ` ?R" by (auto simp: image_iff) (metis nat_int)
  then have "card {..<length cs} \<le> card ?R" using surj_card_le by blast
  moreover have "nat q < length cs" using assms(1) by linarith
  ultimately show False by simp
qed

definition own_new :: "llama_seq_id \<Rightarrow> nat \<Rightarrow> mem_cell list \<Rightarrow> mem_cell list" where
  "own_new q e cs = cell_upd (nat q) (mc_tail_update (\<lambda>_. int e)) (the (fs_copy_tail q (tail_at cs q) e cs))"

lemma own_new_nth:
  assumes t: "tails_in cs" and q: "seq_in cs q" and e: "cell_free cs e"
    and sh: "0 \<le> tail_at cs q \<longrightarrow> q \<in> mc_seq (cs ! nat (tail_at cs q)) \<and> mc_seq (cs ! nat (tail_at cs q)) \<noteq> {q}"
  shows "\<exists>cs1. fs_copy_tail q (tail_at cs q) e cs = Some cs1 \<and> own_new q e cs = cell_upd (nat q) (mc_tail_update (\<lambda>_. int e)) cs1"
    "length (own_new q e cs) = length cs"
    "i < length cs \<Longrightarrow> mc_tail (own_new q e cs ! i) = (if i = nat q then int e else mc_tail (cs ! i))"
    "i < length cs \<Longrightarrow> mc_seq (own_new q e cs ! i) = (if 0 \<le> tail_at cs q then
       (if i = e then {q} else if int i = tail_at cs q then mc_seq (cs ! i) - {q} else mc_seq (cs ! i)) else mc_seq (cs ! i))"
    "i < length cs \<Longrightarrow> mc_pos (own_new q e cs ! i) = (if i = e \<and> 0 \<le> tail_at cs q then lpos cs q else mc_pos (cs ! i))"
    "i < length cs \<Longrightarrow> mc_src (own_new q e cs ! i) = (if i = e \<and> 0 \<le> tail_at cs q then lsrc cs q else mc_src (cs ! i))"
proof -
  have "(\<exists>cs1. fs_copy_tail q (tail_at cs q) e cs = Some cs1 \<and> own_new q e cs = cell_upd (nat q) (mc_tail_update (\<lambda>_. int e)) cs1) \<and>
    length (own_new q e cs) = length cs \<and>
    (\<forall>i < length cs. mc_tail (own_new q e cs ! i) = (if i = nat q then int e else mc_tail (cs ! i)) \<and>
      mc_seq (own_new q e cs ! i) = (if 0 \<le> tail_at cs q then
         (if i = e then {q} else if int i = tail_at cs q then mc_seq (cs ! i) - {q} else mc_seq (cs ! i)) else mc_seq (cs ! i)) \<and>
      mc_pos (own_new q e cs ! i) = (if i = e \<and> 0 \<le> tail_at cs q then lpos cs q else mc_pos (cs ! i)) \<and>
      mc_src (own_new q e cs ! i) = (if i = e \<and> 0 \<le> tail_at cs q then lsrc cs q else mc_src (cs ! i)))"
  proof (cases "tail_at cs q < 0")
    case True
    then have "fs_copy_tail q (tail_at cs q) e cs = Some cs" by (simp add: fs_copy_tail_def)
    then show ?thesis using True by (simp add: own_new_def)
  next
    case False
    then obtain t where t: "tail_at cs q = int t" by (metis nonneg_int_cases not_less)
    have tl: "t < length cs" using tails_inD(2) [OF assms(1) q] t by simp
    have ne: "t \<noteq> e" using e q t by (auto simp: cell_free_def)
    have el: "e < length cs" "mc_seq (cs ! e) = {}" using e free_empty [OF assms(1) e] by (simp_all add: cell_free_def)
    have sq: "q \<in> mc_seq (cs ! t)" "mc_seq (cs ! t) - {q} \<noteq> {}" using sh t by auto
    let ?cs1 = "cell_upd e (mc_seq_update (insert q)) (cell_upd t (mc_seq_update (\<lambda>S. S - {q}))
      (cell_upd e (\<lambda>c. c\<lparr>mc_pos := mc_pos (cs ! t), mc_src := mc_src (cs ! t)\<rparr>) cs))"
    have "fs_copy_tail q (tail_at cs q) e cs = Some ?cs1"
      using tl ne sq(2) by (simp add: fs_copy_tail_def t mc_is_empty_def)
    then have own: "own_new q e cs = cell_upd (nat q) (mc_tail_update (\<lambda>_. int e)) ?cs1"
      "fs_copy_tail q (tail_at cs q) e cs = Some ?cs1" by (simp_all add: own_new_def)
    have ex: "\<exists>cs1. fs_copy_tail q (tail_at cs q) e cs = Some cs1 \<and> own_new q e cs = cell_upd (nat q) (mc_tail_update (\<lambda>_. int e)) cs1"
      using own by blast
    have len: "length (own_new q e cs) = length cs" by (simp add: own(1))
    have "lpos cs q = mc_pos (cs ! t)" "lsrc cs q = mc_src (cs ! t)" by (simp_all add: lpos_def lsrc_def t)
    then have "mc_tail (own_new q e cs ! i) = (if i = nat q then int e else mc_tail (cs ! i)) \<and>
      mc_seq (own_new q e cs ! i) = (if i = e then {q} else if i = t then mc_seq (cs ! i) - {q} else mc_seq (cs ! i)) \<and>
      mc_pos (own_new q e cs ! i) = (if i = e then lpos cs q else mc_pos (cs ! i)) \<and>
      mc_src (own_new q e cs ! i) = (if i = e then lsrc cs q else mc_src (cs ! i))" if "i < length cs" for i
      using that tl ne el unfolding own(1) by (cases "i = e"; cases "i = t"; cases "i = nat q") simp_all
    then show ?thesis using ex len unfolding t by simp
  qed
  then show "\<exists>cs1. fs_copy_tail q (tail_at cs q) e cs = Some cs1 \<and> own_new q e cs = cell_upd (nat q) (mc_tail_update (\<lambda>_. int e)) cs1"
    "length (own_new q e cs) = length cs"
    "i < length cs \<Longrightarrow> mc_tail (own_new q e cs ! i) = (if i = nat q then int e else mc_tail (cs ! i))"
    "i < length cs \<Longrightarrow> mc_seq (own_new q e cs ! i) = (if 0 \<le> tail_at cs q then
       (if i = e then {q} else if int i = tail_at cs q then mc_seq (cs ! i) - {q} else mc_seq (cs ! i)) else mc_seq (cs ! i))"
    "i < length cs \<Longrightarrow> mc_pos (own_new q e cs ! i) = (if i = e \<and> 0 \<le> tail_at cs q then lpos cs q else mc_pos (cs ! i))"
    "i < length cs \<Longrightarrow> mc_src (own_new q e cs ! i) = (if i = e \<and> 0 \<le> tail_at cs q then lsrc cs q else mc_src (cs ! i))"
    by blast+
qed

text \<open>
  The cells after the leading sequences \<open>P\<close> have their own. A sequence that had none before gets an
  empty cell, whose row, if it has one, is that of an empty cell.
\<close>

definition zero_src :: "mem_cell list \<Rightarrow> int \<Rightarrow> bool" where
  "zero_src cs x \<longleftrightarrow> x = -1 \<or> (\<exists>i < length cs. x = int i \<and> mc_seq (cs ! i) = {} \<and> mc_src (cs ! i) = int i)"

definition own_cells :: "mem_cell list \<Rightarrow> llama_seq_id set \<Rightarrow> mem_cell list \<Rightarrow> bool" where
  "own_cells cs0 P cs \<longleftrightarrow> length cs = length cs0 \<and> tails_in cs \<and>
     (\<forall>q. seq_in cs q \<and> q \<notin> P \<longrightarrow> tail_at cs q = tail_at cs0 q \<and> lpos cs q = lpos cs0 q \<and> lsrc cs q = lsrc cs0 q) \<and>
     (\<forall>q \<in> P. 0 \<le> tail_at cs q \<and> (\<forall>r. seq_in cs r \<and> r \<noteq> q \<longrightarrow> tail_at cs r \<noteq> tail_at cs q)) \<and>
     (\<forall>q. seq_in cs q \<and> 0 \<le> tail_at cs q \<and> \<not> (q \<in> P \<and> tail_at cs0 q < 0) \<longrightarrow> q \<in> mc_seq (cs ! nat (tail_at cs q))) \<and>
     (\<forall>q \<in> P. 0 \<le> tail_at cs0 q \<longrightarrow> lpos cs q = lpos cs0 q \<and> lsrc cs q = lsrc cs0 q) \<and>
     (\<forall>q \<in> P. tail_at cs0 q < 0 \<longrightarrow> lpos cs q = -1 \<and> zero_src cs0 (lsrc cs q)) \<and>
     (\<forall>i < length cs. (\<forall>q \<in> P. tail_at cs q \<noteq> int i) \<longrightarrow>
        mc_pos (cs ! i) = mc_pos (cs0 ! i) \<and> mc_src (cs ! i) = mc_src (cs0 ! i) \<and>
        (mc_seq (cs ! i) = {} \<longleftrightarrow> mc_seq (cs0 ! i) = {}))"

lemma own_cellsD:
  assumes "own_cells cs0 P cs"
  shows "length cs = length cs0" "tails_in cs"
    "seq_in cs q \<Longrightarrow> q \<notin> P \<Longrightarrow> tail_at cs q = tail_at cs0 q" "seq_in cs q \<Longrightarrow> q \<notin> P \<Longrightarrow> lpos cs q = lpos cs0 q"
    "seq_in cs q \<Longrightarrow> q \<notin> P \<Longrightarrow> lsrc cs q = lsrc cs0 q"
    "q \<in> P \<Longrightarrow> 0 \<le> tail_at cs q" "q \<in> P \<Longrightarrow> seq_in cs r \<Longrightarrow> r \<noteq> q \<Longrightarrow> tail_at cs r \<noteq> tail_at cs q"
    "seq_in cs q \<Longrightarrow> 0 \<le> tail_at cs q \<Longrightarrow> \<not> (q \<in> P \<and> tail_at cs0 q < 0) \<Longrightarrow> q \<in> mc_seq (cs ! nat (tail_at cs q))"
    "q \<in> P \<Longrightarrow> 0 \<le> tail_at cs0 q \<Longrightarrow> lpos cs q = lpos cs0 q" "q \<in> P \<Longrightarrow> 0 \<le> tail_at cs0 q \<Longrightarrow> lsrc cs q = lsrc cs0 q"
    "q \<in> P \<Longrightarrow> tail_at cs0 q < 0 \<Longrightarrow> lpos cs q = -1" "q \<in> P \<Longrightarrow> tail_at cs0 q < 0 \<Longrightarrow> zero_src cs0 (lsrc cs q)"
    "i < length cs \<Longrightarrow> \<forall>q \<in> P. tail_at cs q \<noteq> int i \<Longrightarrow> mc_pos (cs ! i) = mc_pos (cs0 ! i)"
    "i < length cs \<Longrightarrow> \<forall>q \<in> P. tail_at cs q \<noteq> int i \<Longrightarrow> mc_src (cs ! i) = mc_src (cs0 ! i)"
    "i < length cs \<Longrightarrow> \<forall>q \<in> P. tail_at cs q \<noteq> int i \<Longrightarrow> mc_seq (cs ! i) = {} \<longleftrightarrow> mc_seq (cs0 ! i) = {}"
  using assms unfolding own_cells_def by blast+

lemma own_cellsI:
  assumes "length cs = length cs0" "tails_in cs"
    "\<And>q. seq_in cs q \<Longrightarrow> q \<notin> P \<Longrightarrow> tail_at cs q = tail_at cs0 q \<and> lpos cs q = lpos cs0 q \<and> lsrc cs q = lsrc cs0 q"
    "\<And>q. q \<in> P \<Longrightarrow> 0 \<le> tail_at cs q" "\<And>q r. q \<in> P \<Longrightarrow> seq_in cs r \<Longrightarrow> r \<noteq> q \<Longrightarrow> tail_at cs r \<noteq> tail_at cs q"
    "\<And>q. seq_in cs q \<Longrightarrow> 0 \<le> tail_at cs q \<Longrightarrow> q \<notin> P \<or> 0 \<le> tail_at cs0 q \<Longrightarrow> q \<in> mc_seq (cs ! nat (tail_at cs q))"
    "\<And>q. q \<in> P \<Longrightarrow> 0 \<le> tail_at cs0 q \<Longrightarrow> lpos cs q = lpos cs0 q \<and> lsrc cs q = lsrc cs0 q"
    "\<And>q. q \<in> P \<Longrightarrow> tail_at cs0 q < 0 \<Longrightarrow> lpos cs q = -1 \<and> zero_src cs0 (lsrc cs q)"
    "\<And>i. i < length cs \<Longrightarrow> \<forall>q \<in> P. tail_at cs q \<noteq> int i \<Longrightarrow>
        mc_pos (cs ! i) = mc_pos (cs0 ! i) \<and> mc_src (cs ! i) = mc_src (cs0 ! i) \<and>
        (mc_seq (cs ! i) = {} \<longleftrightarrow> mc_seq (cs0 ! i) = {})"
  shows "own_cells cs0 P cs"
  unfolding own_cells_def
proof (intro conjI allI impI ballI)
  fix q assume "seq_in cs q \<and> 0 \<le> tail_at cs q \<and> \<not> (q \<in> P \<and> tail_at cs0 q < 0)"
  then show "q \<in> mc_seq (cs ! nat (tail_at cs q))" using assms(6) [of q] by (simp add: not_less)
qed (use assms in blast)+

lemma own_cells_start: "cells_ok cs \<Longrightarrow> own_cells cs {} cs"
  by (simp add: own_cells_def cells_ok_def tails_ok_def)

text \<open>A sequence that is alone in its cell keeps it.\<close>

lemma own_cells_keep:
  assumes o: "own_cells cs0 P cs" and q: "seq_in cs q" "q \<notin> P" and own: "0 \<le> tail_at cs q" "mc_seq (cs ! nat (tail_at cs q)) = {q}"
    and P: "\<forall>p \<in> P. seq_in cs p"
  shows "own_cells cs0 (insert q P) cs"
proof -
  note D = own_cellsD [OF o]
  have excl: "tail_at cs r \<noteq> tail_at cs q" if r: "seq_in cs r" "r \<noteq> q" for r
  proof
    assume eq: "tail_at cs r = tail_at cs q"
    have "r \<notin> P" using D(7) [of r q] q r eq by metis
    then have "r \<in> mc_seq (cs ! nat (tail_at cs r))" using D(8) [OF r(1)] own(1) eq by simp
    then show False using own(2) eq r(2) by simp
  qed
  have t0: "tail_at cs0 q = tail_at cs q" "lpos cs q = lpos cs0 q" "lsrc cs q = lsrc cs0 q"
    using D(3-5) [OF q] by simp_all
  show ?thesis
  proof (rule own_cellsI)
    fix r assume r: "seq_in cs r" "0 \<le> tail_at cs r" "r \<notin> insert q P \<or> 0 \<le> tail_at cs0 r"
    show "r \<in> mc_seq (cs ! nat (tail_at cs r))"
    proof (cases "r = q")
      case False
      then show ?thesis using D(8) [OF r(1,2)] r(3) by auto
    qed (use own in simp)
  next
    fix p r assume "p \<in> insert q P" "seq_in cs r" "r \<noteq> p"
    then show "tail_at cs r \<noteq> tail_at cs p" using D(7) excl by (cases "p = q") auto
  qed (use D own(1) t0 in auto)
qed

text \<open>The others get a free cell.\<close>

lemma own_cells_new:
  assumes o: "own_cells cs0 P cs" and c0: "cells_ok cs0" and q: "seq_in cs q" "q \<notin> P" and P: "\<forall>p \<in> P. seq_in cs p"
    and e: "cell_free cs e" and sh: "0 \<le> tail_at cs q \<Longrightarrow> mc_seq (cs ! nat (tail_at cs q)) \<noteq> {q}"
  shows "own_cells cs0 (insert q P) (own_new q e cs)"
proof -
  note D = own_cellsD [OF o]
  let ?cs = "own_new q e cs"
  have mem: "q \<in> mc_seq (cs ! nat (tail_at cs q))" if "0 \<le> tail_at cs q" using D(8) [OF q(1) that] q(2) by simp
  have "0 \<le> tail_at cs q \<longrightarrow> q \<in> mc_seq (cs ! nat (tail_at cs q)) \<and> mc_seq (cs ! nat (tail_at cs q)) \<noteq> {q}"
    using mem sh by blast
  note N = own_new_nth [OF D(2) q(1) e this]
  note len = N(2)
  have el: "e < length cs" and no_e: "\<And>r. seq_in cs r \<Longrightarrow> tail_at cs r \<noteq> int e" using e by (auto simp: cell_free_def)
  have tail: "tail_at ?cs r = (if r = q then int e else tail_at cs r)" if "seq_in cs r" for r
    using N(3) [OF seq_in_nat [OF that]] that q(1) by (simp add: eq_nat_nat_iff)
  have idx: "nat (tail_at cs r) < length cs" "nat (tail_at cs r) \<noteq> e" if "seq_in cs r" "0 \<le> tail_at cs r" for r
    using tails_inD(2) [OF D(2) that(1)] no_e [OF that(1)] that(2) el by auto
  have view: "lpos ?cs r = lpos cs r" "lsrc ?cs r = lsrc cs r" if "seq_in cs r" "r \<noteq> q" for r
    using tail [OF that(1)] that(2) N(5,6) [OF idx(1) [OF that(1)]] idx(2) [OF that(1)] by (simp_all add: lpos_def lsrc_def)
  have view_q: "lpos ?cs q = mc_pos (?cs ! e)" "lsrc ?cs q = mc_src (?cs ! e)"
    using tail [OF q(1)] by (simp_all add: lpos_def lsrc_def)
  have t0: "tail_at cs0 q = tail_at cs q" "lpos cs q = lpos cs0 q" "lsrc cs q = lsrc cs0 q" using D(3-5) [OF q] by simp_all
  have tin: "tails_in ?cs" unfolding tails_in_def len
  proof (intro conjI allI impI ballI)
    fix r assume "seq_in cs r"
    then show "-1 \<le> tail_at ?cs r" "tail_at ?cs r < int (length cs)"
      using tail tails_inD(1,2) [OF D(2), of r] el by auto
  next
    fix i r assume i: "i < length cs" "r \<in> mc_seq (?cs ! i)"
    have "(r = q \<and> i = e) \<or> (r \<noteq> q \<and> r \<in> mc_seq (cs ! i))"
    proof (cases "0 \<le> tail_at cs q")
      case True
      then show ?thesis using i N(4) [OF i(1)] tails_inD(5) [OF D(2) i(1), of q] by (auto split: if_splits)
    next
      case False
      then show ?thesis using i N(4) [OF i(1)] tails_inD(5) [OF D(2) i(1), of q] by auto
    qed
    then show "0 \<le> r" "r < int (length cs)" "tail_at ?cs r = int i"
      using tails_inD(3-5) [OF D(2) i(1), of r] tail [of r] q(1) by auto
  qed
  show ?thesis
  proof (rule own_cellsI)
    show "length ?cs = length cs0" using len D(1) by simp
    show "tails_in ?cs" by (rule tin)
  next
    fix r assume "seq_in ?cs r" "r \<notin> insert q P"
    then show "tail_at ?cs r = tail_at cs0 r \<and> lpos ?cs r = lpos cs0 r \<and> lsrc ?cs r = lsrc cs0 r"
      using tail [of r] view [of r] D(3-5) [of r] by (simp add: len)
  next
    fix r assume "r \<in> insert q P"
    then show "0 \<le> tail_at ?cs r" using tail [of r] D(6) [of r] P q(1) by auto
  next
    fix p r assume "p \<in> insert q P" "seq_in ?cs r" "r \<noteq> p"
    then show "tail_at ?cs r \<noteq> tail_at ?cs p"
      using tail [of r] tail [of p] D(7) [of p r] P q no_e [of r] no_e [of p] by (cases "p = q"; cases "r = q") (auto simp: len)
  next
    fix r assume r: "seq_in ?cs r" "0 \<le> tail_at ?cs r" "r \<notin> insert q P \<or> 0 \<le> tail_at cs0 r"
    show "r \<in> mc_seq (?cs ! nat (tail_at ?cs r))"
    proof (cases "r = q")
      case True
      then show ?thesis using r(3) t0(1) tail [OF q(1)] N(4) [OF el] by simp
    next
      case False
      have rc: "seq_in cs r" "0 \<le> tail_at cs r" using r(1,2) tail [of r] False by (simp_all add: len)
      have "\<not> (r \<in> P \<and> tail_at cs0 r < 0)" using r(3) False by auto
      then have "r \<in> mc_seq (cs ! nat (tail_at cs r))" by (rule D(8) [OF rc])
      then show ?thesis using False tail [OF rc(1)] N(4) [OF idx(1) [OF rc]] idx(2) [OF rc] by simp
    qed
  next
    fix r assume r: "r \<in> insert q P" "0 \<le> tail_at cs0 r"
    show "lpos ?cs r = lpos cs0 r \<and> lsrc ?cs r = lsrc cs0 r"
    proof (cases "r = q")
      case True
      then show ?thesis using r(2) t0 view_q N(5,6) [OF el] by simp
    next
      case False
      then show ?thesis using r D(9,10) [of r] view [of r] P by auto
    qed
  next
    fix r assume r: "r \<in> insert q P" "tail_at cs0 r < 0"
    show "lpos ?cs r = -1 \<and> zero_src cs0 (lsrc ?cs r)"
    proof (cases "r = q")
      case True
      have "\<forall>p \<in> P. tail_at cs p \<noteq> int e" using no_e P by blast
      note f = D(13-15) [OF el this]
      have "mc_seq (cs0 ! e) = {}" using f(3) free_empty [OF D(2) e] by simp
      then have "mc_pos (cs0 ! e) = -1" "zero_src cs0 (mc_src (cs0 ! e))"
        using cells_okD(1,2) [OF c0, of e] el D(1) by (auto simp: zero_src_def)
      then show ?thesis using True r(2) t0(1) view_q N(5,6) [OF el] f by simp
    next
      case False
      then show ?thesis using r D(11,12) [of r] view [of r] P by auto
    qed
  next
    fix i assume i: "i < length ?cs" "\<forall>p \<in> insert q P. tail_at ?cs p \<noteq> int i"
    have il: "i < length cs" using i(1) len by simp
    have ne: "i \<noteq> e" using i(2) tail [OF q(1)] by auto
    have "\<forall>p \<in> P. tail_at cs p \<noteq> int i"
    proof
      fix p assume p: "p \<in> P"
      then have "tail_at ?cs p = tail_at cs p" using tail [of p] P q(2) by auto
      then show "tail_at cs p \<noteq> int i" using i(2) p by auto
    qed
    note f = D(13-15) [OF il this]
    have "mc_seq (?cs ! i) = {} \<longleftrightarrow> mc_seq (cs ! i) = {}"
    proof (cases "int i = tail_at cs q")
      case True
      then have "mc_seq (cs ! i) \<noteq> {q}" "q \<in> mc_seq (cs ! i)" using sh mem by (metis nat_int of_nat_0_le_iff)+
      then show ?thesis using N(4) [OF il] ne True by auto
    qed (use N(4) [OF il] ne in auto)
    then show "mc_pos (?cs ! i) = mc_pos (cs0 ! i) \<and> mc_src (?cs ! i) = mc_src (cs0 ! i) \<and>
        (mc_seq (?cs ! i) = {} \<longleftrightarrow> mc_seq (cs0 ! i) = {})"
      unfolding f(3) using f(1,2) N(5,6) [OF il] ne by simp
  qed
qed

end
