(* ===== verification/RecurrentFind.thy ===== *)
theory RecurrentFind
  imports RecurrentSlot
begin

section \<open>The slot that is found\<close>

subsection \<open>Going round the cells\<close>

text \<open>
  While cells are taken, the next candidate is a free cell if there is one; the cells passed on the
  way round from the head are not free. Cells taken for new sequences still look empty, but they
  have been passed.
\<close>

definition ring_at :: "nat \<Rightarrow> mem_cell list \<Rightarrow> llama_seq_id set \<Rightarrow> mem_cell list \<Rightarrow> nat \<Rightarrow> bool" where
  "ring_at h cs0 P cs nx \<longleftrightarrow> (\<exists>i. cell_free cs i) \<longrightarrow>
     (\<exists>k < length cs. nx = (h + k) mod length cs \<and> cell_free cs nx \<and>
        (\<forall>k' < k. \<not> cell_free cs ((h + k') mod length cs)) \<and>
        (\<forall>q \<in> P. tail_at cs0 q < 0 \<longrightarrow> (\<exists>k' < k. tail_at cs q = int ((h + k') mod length cs))))"

lemma tails_ok_free: "tails_ok cs \<Longrightarrow> i < length cs \<Longrightarrow> cell_free cs i \<longleftrightarrow> mc_seq (cs ! i) = {}"
  using free_empty [OF tails_okD(1), of cs i] tails_ok_iff [of cs _ i] unfolding cell_free_def by blast

lemma ring_start:
  assumes ok: "tails_ok cs" and h: "h < length cs"
  shows "ring_at h cs0 {} cs (first_empty cs (length cs) h)"
  unfolding ring_at_def
proof (intro impI)
  assume "\<exists>i. cell_free cs i"
  then obtain i where i: "i < length cs" "mc_seq (cs ! i) = {}" using tails_ok_free [OF ok] by (auto simp: cell_free_def)
  let ?E = "\<lambda>k. mc_is_empty (cs ! ((h + k) mod length cs))"
  obtain k where k: "k < length cs" "(h + k) mod length cs = i" using ring_onto [OF i(1)] .
  then have "?E k" using i(2) by (simp add: mc_is_empty_def)
  then have L: "?E (Least ?E)" "Least ?E \<le> k" "\<forall>k' < Least ?E. \<not> ?E k'"
    by (auto intro: LeastI Least_le dest: not_less_Least)
  have lt: "Least ?E < length cs" using L(2) k(1) by simp
  have fe: "first_empty cs (length cs) h = (h + Least ?E) mod length cs"
    using first_empty_ring [OF lt _ L(1,3)] h by simp
  have md: "(h + x) mod length cs < length cs" for x by (rule mod_less_divisor) (use h in linarith)
  show "\<exists>k < length cs. first_empty cs (length cs) h = (h + k) mod length cs \<and> cell_free cs (first_empty cs (length cs) h) \<and>
      (\<forall>k' < k. \<not> cell_free cs ((h + k') mod length cs)) \<and>
      (\<forall>q \<in> {}. tail_at cs0 q < 0 \<longrightarrow> (\<exists>k' < k. tail_at cs q = int ((h + k') mod length cs)))"
    using lt L(1,3) tails_ok_free [OF ok md] by (intro exI [of _ "Least ?E"]) (simp add: fe mc_is_empty_def)
qed

lemma ring_keep: "ring_at h cs0 P cs nx \<Longrightarrow> 0 \<le> tail_at cs0 q \<Longrightarrow> ring_at h cs0 (insert q P) cs nx"
  by (auto simp: ring_at_def)

lemma own_new_tail:
  assumes t: "tails_in cs" and q: "seq_in cs q" and e: "cell_free cs e"
    and sh: "0 \<le> tail_at cs q \<longrightarrow> q \<in> mc_seq (cs ! nat (tail_at cs q)) \<and> mc_seq (cs ! nat (tail_at cs q)) \<noteq> {q}"
    and r: "seq_in cs r"
  shows "tail_at (own_new q e cs) r = (if r = q then int e else tail_at cs r)"
  using own_new_nth(3) [OF t q e sh seq_in_nat [OF r]] q r by (simp add: eq_nat_nat_iff)

lemma ring_step:
  assumes o: "own_cells cs0 P cs" and o': "own_cells cs0 (insert q P) (own_new q e cs)"
    and q: "seq_in cs q" "q \<notin> P" and P: "\<forall>p \<in> P. seq_in cs p" and e: "cell_free cs e" and ring: "ring_at h cs0 P cs e"
    and sh: "0 \<le> tail_at cs q \<longrightarrow> q \<in> mc_seq (cs ! nat (tail_at cs q)) \<and> mc_seq (cs ! nat (tail_at cs q)) \<noteq> {q}"
  shows "ring_at h cs0 (insert q P) (own_new q e cs) (next_empty (own_new q e cs) (length cs) e)"
proof -
  let ?cs = "own_new q e cs" and ?N = "length cs"
  have t: "tails_in cs" and t': "tails_in ?cs" using own_cellsD(2) [OF o] own_cellsD(2) [OF o'] .
  have len: "length ?cs = ?N" by (rule own_new_nth(2) [OF t q(1) e sh])
  note tail = own_new_tail [OF t q(1) e sh]
  have el: "e < ?N" using e by (simp add: cell_free_def)
  have was: "cell_free cs i \<and> i \<noteq> e" if i: "cell_free ?cs i" for i
  proof -
    have il: "i < ?N" and no: "\<And>r. seq_in cs r \<Longrightarrow> tail_at ?cs r \<noteq> int i" using i by (auto simp: cell_free_def len)
    have "tail_at cs q \<noteq> int i"
    proof
      assume qi: "tail_at cs q = int i"
      then obtain r where r: "r \<in> mc_seq (cs ! i)" "r \<noteq> q" using sh by auto
      have "seq_in cs r" "tail_at cs r = int i" using tails_inD(3-5) [OF t il r(1)] by auto
      then show False using no [of r] tail [of r] r(2) by simp
    qed
    then have "tail_at cs r \<noteq> int i" if "seq_in cs r" for r using no [OF that] tail [OF that] by (cases "r = q") auto
    then show ?thesis using il no [OF q(1)] tail [OF q(1)] by (auto simp: cell_free_def)
  qed
  show ?thesis unfolding ring_at_def len
  proof (intro impI)
    assume "\<exists>i. cell_free ?cs i"
    then obtain i where i: "cell_free ?cs i" by blast
    then obtain k0 where k0: "k0 < ?N" "e = (h + k0) mod ?N" "\<forall>k' < k0. \<not> cell_free cs ((h + k') mod ?N)"
      "\<forall>q \<in> P. tail_at cs0 q < 0 \<longrightarrow> (\<exists>k' < k0. tail_at cs q = int ((h + k') mod ?N))"
      using was [OF i] ring unfolding ring_at_def by blast
    have il: "i < ?N" using i by (simp add: cell_free_def len)
    obtain k where k: "k < ?N" "(h + k) mod ?N = i" using ring_onto [OF il] .
    have "k \<noteq> k0" "\<not> k < k0" using was [OF i] k(2) k0(2,3) by auto
    then obtain d where d: "k = k0 + Suc d" by (metis add_Suc_right less_imp_Suc_add nat_neq_iff)
    let ?E = "\<lambda>j. mc_is_empty (?cs ! ((e + Suc j) mod ?N))"
    have shift: "(e + x) mod ?N = (h + (k0 + x)) mod ?N" for x
      using mod_add_left_eq [of "h + k0" ?N x] by (simp add: k0(2) add.assoc)
    have "?E d" using free_empty [OF t' i] k(2) d by (simp add: shift mc_is_empty_def del: add_Suc_right)
    then have L: "?E (Least ?E)" "Least ?E \<le> d" "\<forall>j < Least ?E. \<not> ?E j"
      by (auto intro: LeastI Least_le dest: not_less_Least)
    let ?k1 = "k0 + Suc (Least ?E)"
    have k1: "?k1 < ?N" "k0 < ?k1" using L(2) d k(1) by simp_all
    have "Least ?E < ?N" using L(2) d k(1) by simp
    then have nx: "next_empty ?cs ?N e = (h + ?k1) mod ?N"
      using next_empty_ring [of "Least ?E" ?N e ?cs] L(1,3) el unfolding len shift by blast
    have empty: "mc_seq (?cs ! ((h + ?k1) mod ?N)) = {}" using L(1) unfolding shift mc_is_empty_def .
    have xl: "(h + ?k1) mod ?N < ?N" using el by (intro mod_less_divisor) linarith
    have no: "tail_at ?cs r \<noteq> int ((h + ?k1) mod ?N)" if r: "seq_in cs r" for r
    proof
      assume eq: "tail_at ?cs r = int ((h + ?k1) mod ?N)"
      have "\<not> (seq_in ?cs r \<and> 0 \<le> tail_at ?cs r \<and> \<not> (r \<in> insert q P \<and> tail_at cs0 r < 0))"
        using own_cellsD(8) [OF o', of r] eq empty by auto
      then have P': "r \<in> insert q P" "tail_at cs0 r < 0" using r eq by (auto simp: len)
      show False
      proof (cases "r = q")
        case True
        then have "(h + k0) mod ?N = (h + ?k1) mod ?N" using eq tail [OF q(1)] k0(2) by simp
        then show False using ring_inj [OF k0(1) k1(1)] k1(2) by simp
      next
        case False
        then obtain k' where k': "k' < k0" "tail_at cs r = int ((h + k') mod ?N)" using P' k0(4) by blast
        then have "(h + k') mod ?N = (h + ?k1) mod ?N" using eq tail [OF r] False by simp
        moreover have "k' < ?N" "k' \<noteq> ?k1" using k'(1) k0(1) k1(2) by simp_all
        ultimately show False using ring_inj [OF _ k1(1)] by blast
      qed
    qed
    have "\<not> cell_free ?cs ((h + k') mod ?N)" if k': "k' < ?k1" for k'
    proof
      assume f: "cell_free ?cs ((h + k') mod ?N)"
      note b = was [OF f]
      have "\<not> k' < k0" "k' \<noteq> k0" using b k0(2,3) by auto
      then obtain j where j: "k' = k0 + Suc j" by (metis add_Suc_right less_imp_Suc_add nat_neq_iff)
      then have "j < Least ?E" using k' by simp
      then have "\<not> mc_is_empty (?cs ! ((h + k') mod ?N))" using L(3) shift j by metis
      then show False using free_empty [OF t' f] by (simp add: mc_is_empty_def)
    qed
    moreover have "\<exists>k' < ?k1. tail_at ?cs p = int ((h + k') mod ?N)" if p: "p \<in> insert q P" "tail_at cs0 p < 0" for p
    proof (cases "p = q")
      case True
      then have "tail_at ?cs p = int ((h + k0) mod ?N)" using tail [OF q(1)] k0(2) by simp
      then show ?thesis using k1(2) by blast
    next
      case False
      then obtain k' where "k' < k0" "tail_at cs p = int ((h + k') mod ?N)" using p k0(4) by blast
      then show ?thesis using tail [of p] P p False k1(2) by (intro exI [of _ k']) auto
    qed
    moreover have "cell_free ?cs ((h + ?k1) mod ?N)" using xl no by (simp add: cell_free_def len)
    ultimately show "\<exists>k < ?N. next_empty ?cs ?N e = (h + k) mod ?N \<and> cell_free ?cs (next_empty ?cs ?N e) \<and>
        (\<forall>k' < k. \<not> cell_free ?cs ((h + k') mod ?N)) \<and>
        (\<forall>p \<in> insert q P. tail_at cs0 p < 0 \<longrightarrow> (\<exists>k' < k. tail_at ?cs p = int ((h + k') mod ?N)))"
      using k1(1) unfolding nx by blast
  qed
qed

subsection \<open>The leading sequences\<close>

definition own_loop :: "nat \<Rightarrow> mem_cell list \<Rightarrow> llama_ubatch \<Rightarrow> nat \<Rightarrow> mem_cell list \<times> nat \<times> int \<times> int \<Rightarrow> bool" where
  "own_loop h cs0 ub s st = (case st of (cs, nx, mn, mx) \<Rightarrow>
     own_cells cs0 (fs_lead ub ` {..<s}) cs \<and> (s < ub_n_seqs ub \<longrightarrow> ring_at h cs0 (fs_lead ub ` {..<s}) cs nx) \<and>
     0 \<le> mn \<and> mx < int (length cs0) \<and> (\<forall>s' < s. mn \<le> tail_at cs (fs_lead ub s') \<and> tail_at cs (fs_lead ub s') \<le> mx))"

lemma fs_own_step:
  assumes c0: "cells_ok cs0" and leads: "\<forall>s < ub_n_seqs ub. seq_in cs0 (fs_lead ub s)" "inj_on (fs_lead ub) {..<ub_n_seqs ub}"
    and s: "s < ub_n_seqs ub" and I: "own_loop h cs0 ub s st"
  shows "\<exists>st'. fs_own ub s st = Some st' \<and> own_loop h cs0 ub (Suc s) st'"
proof -
  obtain cs nx mn mx where st: "st = (cs, nx, mn, mx)" by (cases st) auto
  let ?P = "fs_lead ub ` {..<s}" and ?q = "fs_lead ub s"
  have o: "own_cells cs0 ?P cs" and ring: "ring_at h cs0 ?P cs nx" and b: "0 \<le> mn" "mx < int (length cs0)"
    "\<forall>s' < s. mn \<le> tail_at cs (fs_lead ub s') \<and> tail_at cs (fs_lead ub s') \<le> mx"
    using I s by (simp_all add: own_loop_def st)
  note D = own_cellsD [OF o]
  have q: "seq_in cs ?q" using leads(1) s D(1) by simp
  have P: "\<forall>p \<in> ?P. seq_in cs p" using leads(1) s D(1) by auto
  have nq: "?q \<notin> ?P"
  proof
    assume "?q \<in> ?P"
    then obtain x where x: "x < s" "fs_lead ub x = ?q" by auto
    then show False using inj_onD [OF leads(2) x(2)] s by simp
  qed
  have ql: "nat ?q < length cs" using q by linarith
  have mem: "?q \<in> mc_seq (cs ! nat (tail_at cs ?q))" if "0 \<le> tail_at cs ?q" using D(8) [OF q that] nq by simp
  have idx: "nat (tail_at cs ?q) < length cs" if "0 \<le> tail_at cs ?q"
    using tails_inD(2) [OF D(2) q] that by linarith
  have ins: "insert ?q ?P = fs_lead ub ` {..<Suc s}" by (simp add: lessThan_Suc)
  have bounds: "0 \<le> min mn t \<and> max mx t < int (length cs0)" if "0 \<le> t" "t < int (length cs)" for t
    using that b D(1) by simp
  have out: "(if mn > t then t else mn) = min mn t" "(if mx < t then t else mx) = max mx t" for t by simp_all
  show ?thesis
  proof (cases "0 \<le> tail_at cs ?q \<and> mc_seq (cs ! nat (tail_at cs ?q)) = {?q}")
    case True
    then have "fs_own ub s st = Some (cs, nx, min mn (tail_at cs ?q), max mx (tail_at cs ?q))"
      using ql idx by (simp add: fs_own_def st has_seq_id_def Let_def out)
    moreover have "own_cells cs0 (fs_lead ub ` {..<Suc s}) cs" using own_cells_keep [OF o q nq] True P by (simp add: ins)
    moreover have "ring_at h cs0 (fs_lead ub ` {..<Suc s}) cs nx"
      using ring_keep [OF ring, of ?q] D(3) [OF q nq] True by (simp add: ins)
    ultimately show ?thesis
      using bounds [of "tail_at cs ?q"] tails_inD(2) [OF D(2) q] True b(3) by (auto simp: own_loop_def less_Suc_eq)
  next
    case False
    have sh: "0 \<le> tail_at cs ?q \<longrightarrow> ?q \<in> mc_seq (cs ! nat (tail_at cs ?q)) \<and> mc_seq (cs ! nat (tail_at cs ?q)) \<noteq> {?q}"
      using mem False by blast
    have "\<exists>i. cell_free cs i"
    proof (rule free_cell_exists [OF q], intro allI impI)
      fix i assume i: "i < length cs" "tail_at cs ?q = int i"
      then obtain r where r: "r \<in> mc_seq (cs ! i)" "r \<noteq> ?q" using sh by auto
      then show "\<exists>r. r \<noteq> ?q \<and> seq_in cs r \<and> tail_at cs r = int i" using tails_inD(3-5) [OF D(2) i(1) r(1)] by blast
    qed
    then have e: "cell_free cs nx" using ring unfolding ring_at_def by blast
    then have el: "nx < length cs" "mc_is_empty (cs ! nx)" using free_empty [OF D(2) e] by (simp_all add: cell_free_def mc_is_empty_def)
    let ?cs = "own_new ?q nx cs"
    obtain cs1 where cs1: "fs_copy_tail ?q (tail_at cs ?q) nx cs = Some cs1" "?cs = cell_upd (nat ?q) (mc_tail_update (\<lambda>_. int nx)) cs1"
      using own_new_nth(1) [OF D(2) q e sh] by blast
    have len: "length ?cs = length cs" by (rule own_new_nth(2) [OF D(2) q e sh])
    note tail = own_new_tail [OF D(2) q e sh]
    have card: "card (mc_seq (cs ! nat (tail_at cs ?q))) \<noteq> 1" if "0 \<le> tail_at cs ?q"
      using sh that by (auto simp: card_1_singleton_iff)
    have "fs_own ub s st = Some (?cs, if s + 1 < ub_n_seqs ub then next_empty ?cs (length cs) nx else nx,
        min mn (tail_at ?cs ?q), max mx (tail_at ?cs ?q))"
      using ql idx mem card el cs1(1) len by (simp add: fs_own_def st has_seq_id_def Let_def out cs1(2) [symmetric] del: One_nat_def)
    moreover have o': "own_cells cs0 (insert ?q ?P) ?cs" using own_cells_new [OF o c0 q nq P e] sh by blast
    moreover have "ring_at h cs0 (insert ?q ?P) ?cs (next_empty ?cs (length cs) nx)"
      by (rule ring_step [OF o o' q nq P e ring sh])
    moreover have "tail_at ?cs (fs_lead ub s') = tail_at cs (fs_lead ub s')" if "s' < s" for s'
    proof -
      have "fs_lead ub s' \<in> ?P" using that by simp
      then show ?thesis using tail [of "fs_lead ub s'"] P nq by auto
    qed
    ultimately show ?thesis
      using bounds [of "int nx"] el(1) tail [OF q] b(3) by (auto simp: own_loop_def less_Suc_eq ins)
  qed
qed

lemma fs_own_loop:
  assumes c0: "cells_ok cs0" and leads: "\<forall>s < ub_n_seqs ub. seq_in cs0 (fs_lead ub s)" "inj_on (fs_lead ub) {..<ub_n_seqs ub}"
    and h: "h < length cs0"
  shows "\<exists>cs nx mn mx. ofold (fs_own ub) [0..<ub_n_seqs ub] (cs0, first_empty cs0 (length cs0) h, int (length cs0) - 1, 0) = Some (cs, nx, mn, mx) \<and>
    own_cells cs0 (fs_lead ub ` {..<ub_n_seqs ub}) cs \<and> 0 \<le> mn \<and> mx < int (length cs0) \<and>
    (\<forall>s < ub_n_seqs ub. mn \<le> tail_at cs (fs_lead ub s) \<and> tail_at cs (fs_lead ub s) \<le> mx)"
proof -
  have "own_loop h cs0 ub 0 (cs0, first_empty cs0 (length cs0) h, int (length cs0) - 1, 0)"
    using own_cells_start [OF c0] ring_start [OF _ h] c0 h by (auto simp: own_loop_def cells_ok_def)
  then obtain st where st: "ofold (fs_own ub) [0..<ub_n_seqs ub] (cs0, first_empty cs0 (length cs0) h, int (length cs0) - 1, 0) = Some st"
    "own_loop h cs0 ub (ub_n_seqs ub) st"
    using ofold_upt_inv [where I = "own_loop h cs0 ub" and f = "fs_own ub", OF _ fs_own_step [OF c0 leads]] by blast
  obtain cs nx mn mx where "st = (cs, nx, mn, mx)" by (cases st) auto
  then show ?thesis using st by (auto simp: own_loop_def)
qed

subsection \<open>Bringing the cells together\<close>

text \<open>The contents of the cells are permuted, and the tails follow.\<close>

definition permuted :: "(nat \<Rightarrow> nat) \<Rightarrow> mem_cell list \<Rightarrow> mem_cell list \<Rightarrow> bool" where
  "permuted f cs0 cs \<longleftrightarrow> length cs = length cs0 \<and> inj_on f {..<length cs} \<and>
     (\<forall>i < length cs. f i < length cs \<and> mc_pos (cs ! f i) = mc_pos (cs0 ! i) \<and> mc_src (cs ! f i) = mc_src (cs0 ! i) \<and>
        mc_seq (cs ! f i) = mc_seq (cs0 ! i)) \<and>
     (\<forall>q. seq_in cs q \<longrightarrow> tail_at cs q = (if tail_at cs0 q < 0 then tail_at cs0 q else int (f (nat (tail_at cs0 q)))))"

definition swap_idx :: "nat \<Rightarrow> nat \<Rightarrow> nat \<Rightarrow> nat" where
  "swap_idx a b i = (if i = a then b else if i = b then a else i)"

definition swap_cells :: "nat \<Rightarrow> nat \<Rightarrow> mem_cell list \<Rightarrow> mem_cell list" where
  "swap_cells a b cs = map (mc_tail_update (\<lambda>t. if t = int b then int a else if t = int a then int b else t))
     (cell_upd b (\<lambda>c. c\<lparr>mc_pos := mc_pos (cs ! a), mc_src := mc_src (cs ! a), mc_seq := mc_seq (cs ! a)\<rparr>)
       (cell_upd a (\<lambda>c. c\<lparr>mc_pos := mc_pos (cs ! b), mc_src := mc_src (cs ! b), mc_seq := mc_seq (cs ! b)\<rparr>) cs))"

lemma swap_idx_inj: "swap_idx a b i = swap_idx a b j \<longleftrightarrow> i = j"
  by (auto simp: swap_idx_def)

lemma swap_cells_permuted:
  assumes "a < length cs" "b < length cs" "a \<noteq> b" "tails_in cs"
  shows "permuted (swap_idx a b) cs (swap_cells a b cs)"
  unfolding permuted_def
proof (intro conjI allI impI)
  show len: "length (swap_cells a b cs) = length cs" by (simp add: swap_cells_def)
  show "inj_on (swap_idx a b) {..<length (swap_cells a b cs)}" by (simp add: inj_on_def swap_idx_inj)
  fix i assume "i < length (swap_cells a b cs)"
  then have i: "i < length cs" by (simp add: len)
  show "swap_idx a b i < length (swap_cells a b cs)" using i assms(1,2) len by (simp add: swap_idx_def)
  show "mc_pos (swap_cells a b cs ! swap_idx a b i) = mc_pos (cs ! i)" "mc_src (swap_cells a b cs ! swap_idx a b i) = mc_src (cs ! i)"
    "mc_seq (swap_cells a b cs ! swap_idx a b i) = mc_seq (cs ! i)"
    using i assms(1-3) by (auto simp: swap_cells_def swap_idx_def)
next
  fix q assume "seq_in (swap_cells a b cs) q"
  then have "nat q < length cs" unfolding swap_cells_def length_map length_cell_upd by (rule seq_in_nat)
  then have t: "tail_at (swap_cells a b cs) q = (if tail_at cs q = int b then int a else if tail_at cs q = int a then int b else tail_at cs q)"
    by (simp add: swap_cells_def)
  show "tail_at (swap_cells a b cs) q = (if tail_at cs q < 0 then tail_at cs q else int (swap_idx a b (nat (tail_at cs q))))"
  proof (cases "tail_at cs q < 0")
    case False
    then obtain k where "tail_at cs q = int k" by (metis nonneg_int_cases not_less)
    then show ?thesis unfolding t by (simp add: swap_idx_def)
  qed (simp add: t)
qed

lemma permuted_id: "permuted (\<lambda>i. i) cs cs"
  by (auto simp: permuted_def)

lemma permutedD:
  assumes "permuted f cs0 cs"
  shows "length cs = length cs0" "i < length cs0 \<Longrightarrow> j < length cs0 \<Longrightarrow> f i = f j \<Longrightarrow> i = j" "i < length cs0 \<Longrightarrow> f i < length cs0"
    "i < length cs0 \<Longrightarrow> mc_pos (cs ! f i) = mc_pos (cs0 ! i)" "i < length cs0 \<Longrightarrow> mc_src (cs ! f i) = mc_src (cs0 ! i)"
    "i < length cs0 \<Longrightarrow> mc_seq (cs ! f i) = mc_seq (cs0 ! i)"
    "seq_in cs0 q \<Longrightarrow> tail_at cs q = (if tail_at cs0 q < 0 then tail_at cs0 q else int (f (nat (tail_at cs0 q))))"
  using assms unfolding permuted_def inj_on_def by auto

lemma permuted_trans:
  assumes "permuted f cs0 cs1" "permuted g cs1 cs2"
  shows "permuted (g \<circ> f) cs0 cs2"
proof -
  note D = permutedD [OF assms(1)] and E = permutedD [OF assms(2), unfolded permutedD(1) [OF assms(1)]]
  show ?thesis unfolding permuted_def
  proof (intro conjI allI impI)
    show len: "length cs2 = length cs0" by (rule E(1))
    show "inj_on (g \<circ> f) {..<length cs2}" unfolding len inj_on_def using D(2,3) E(2) by simp
  next
    fix i assume "i < length cs2"
    then have i: "i < length cs0" using E(1) by simp
    show "(g \<circ> f) i < length cs2" "mc_pos (cs2 ! (g \<circ> f) i) = mc_pos (cs0 ! i)" "mc_src (cs2 ! (g \<circ> f) i) = mc_src (cs0 ! i)"
      "mc_seq (cs2 ! (g \<circ> f) i) = mc_seq (cs0 ! i)"
      using D(3-6) [OF i] E(3-6) [OF D(3) [OF i]] E(1) by simp_all
  next
    fix q assume "seq_in cs2 q"
    then have "seq_in cs0 q" using E(1) by simp
    from D(7) [OF this] E(7) [OF this]
    show "tail_at cs2 q = (if tail_at cs0 q < 0 then tail_at cs0 q else int ((g \<circ> f) (nat (tail_at cs0 q))))" by simp
  qed
qed

lemma permuted_onto:
  assumes "permuted f cs0 cs" "j < length cs0"
  obtains i where "i < length cs0" "f i = j"
proof -
  have "f ` {..<length cs0} = {..<length cs0}"
    using permutedD(2,3) [OF assms(1)] by (intro endo_inj_surj) (auto simp: inj_on_def)
  then show ?thesis using assms(2) that by (metis imageE lessThan_iff)
qed

lemma permuted_tails:
  assumes p: "permuted f cs0 cs" and t: "tails_in cs0"
  shows "tails_in cs" "seq_in cs0 q \<Longrightarrow> lpos cs q = lpos cs0 q" "seq_in cs0 q \<Longrightarrow> lsrc cs q = lsrc cs0 q"
    "seq_in cs0 q \<Longrightarrow> seq_in cs0 r \<Longrightarrow> tail_at cs q = tail_at cs r \<longleftrightarrow> tail_at cs0 q = tail_at cs0 r"
    "seq_in cs0 q \<Longrightarrow> 0 \<le> tail_at cs q \<longleftrightarrow> 0 \<le> tail_at cs0 q"
proof -
  note D = permutedD [OF p]
  have idx: "nat (tail_at cs0 q) < length cs0" if "seq_in cs0 q" "0 \<le> tail_at cs0 q" for q
    using tails_inD(2) [OF t that(1)] that(2) by linarith
  show v: "lpos cs q = lpos cs0 q" "lsrc cs q = lsrc cs0 q" if "seq_in cs0 q" for q
    using D(7) [OF that] D(4,5) [OF idx [OF that]] by (auto simp: lpos_def lsrc_def)
  show "0 \<le> tail_at cs q \<longleftrightarrow> 0 \<le> tail_at cs0 q" if "seq_in cs0 q" for q
    using D(7) [OF that] by auto
  show "tail_at cs q = tail_at cs r \<longleftrightarrow> tail_at cs0 q = tail_at cs0 r" if "seq_in cs0 q" "seq_in cs0 r" for q r
  proof -
    have "-1 \<le> tail_at cs0 q" "-1 \<le> tail_at cs0 r" using tails_inD(1) [OF t] that by blast+
    then show ?thesis using D(7) [OF that(1)] D(7) [OF that(2)] D(2) [OF idx [OF that(1)] idx [OF that(2)]]
      by (cases "tail_at cs0 q < 0"; cases "tail_at cs0 r < 0") (auto simp: eq_nat_nat_iff)
  qed
  show "tails_in cs" unfolding tails_in_def D(1)
  proof (intro conjI allI impI ballI)
    fix q assume q: "seq_in cs0 q"
    show "-1 \<le> tail_at cs q" "tail_at cs q < int (length cs0)"
      using D(7) [OF q] tails_inD(1) [OF t q] D(3) [OF idx [OF q]] by auto
  next
    fix j q assume j: "j < length cs0" "q \<in> mc_seq (cs ! j)"
    obtain i where i: "i < length cs0" "f i = j" using permuted_onto [OF p j(1)] .
    then have "q \<in> mc_seq (cs0 ! i)" using j(2) D(6) [OF i(1)] by simp
    note T = tails_inD(3-5) [OF t i(1) this]
    then show "0 \<le> q" "q < int (length cs0)" by blast+
    then show "tail_at cs q = int j" using D(7) [of q] T(3) i(2) by simp
  qed
qed

definition gathered :: "mem_cell list \<Rightarrow> llama_ubatch \<Rightarrow> int \<Rightarrow> int \<Rightarrow> nat \<Rightarrow> mem_cell list \<Rightarrow> bool" where
  "gathered cs0 ub mn mx s cs \<longleftrightarrow> (\<exists>f. permuted f cs0 cs \<and>
     (\<forall>i < length cs0. if int i \<in> {mn..mx} then int (f i) \<in> {mn..mx} else f i = i) \<and>
     (\<forall>s' < s. tail_at cs (fs_lead ub s') = int s' + mn))"

lemma fs_gather_step:
  assumes t: "tails_in cs0" and leads: "\<forall>s < n. seq_in cs0 (fs_lead ub s)"
    and b: "0 \<le> mn" "mx < int (length cs0)" "\<forall>s < n. tail_at cs0 (fs_lead ub s) \<in> {mn..mx}"
    and inj: "inj_on (\<lambda>s. tail_at cs0 (fs_lead ub s)) {..<n}"
    and s: "s < n" and I: "gathered cs0 ub mn mx s cs"
  shows "\<exists>cs'. fs_gather ub mn s cs = Some cs' \<and> gathered cs0 ub mn mx (Suc s) cs'"
proof -
  from I obtain f where p: "permuted f cs0 cs" and rng: "\<forall>i < length cs0. if int i \<in> {mn..mx} then int (f i) \<in> {mn..mx} else f i = i"
    and ready: "\<forall>s' < s. tail_at cs (fs_lead ub s') = int s' + mn" unfolding gathered_def by blast
  note D = permutedD [OF p] and T = permuted_tails [OF p t]
  let ?q = "fs_lead ub s"
  have q: "seq_in cs0 ?q" using leads s by blast
  have ql: "nat ?q < length cs" using seq_in_nat [OF q] D(1) by simp
  have "(\<lambda>s. tail_at cs0 (fs_lead ub s)) ` {..<n} \<subseteq> {mn..mx}" using b(3) by auto
  then have "card {..<n} \<le> card {mn..mx}" by (intro card_inj_on_le [OF inj]) auto
  then have room: "int s + mn \<le> mx" using s by simp
  obtain a where a: "int s + mn = int a" using b(1) by (metis nonneg_int_cases add_nonneg_nonneg of_nat_0_le_iff)
  have al: "a < length cs" using a room b(2) D(1) by linarith
  have "tail_at cs0 ?q \<in> {mn..mx}" using b(3) s by blast
  moreover from this obtain k where k: "tail_at cs0 ?q = int k" using b(1) by (metis atLeastAtMost_iff nonneg_int_cases order_trans)
  ultimately have kl: "k < length cs0" "int k \<in> {mn..mx}" using b(2) by auto
  let ?b = "f k"
  have tq: "tail_at cs ?q = int ?b" using D(7) [OF q] k by simp
  have bl: "?b < length cs" "int ?b \<in> {mn..mx}" using D(1,3) kl rng by auto
  show ?thesis
  proof (cases "a = ?b")
    case True
    then have "fs_gather ub mn s cs = Some cs" using ql tq a by (simp add: fs_gather_def)
    moreover have "\<forall>s' < Suc s. tail_at cs (fs_lead ub s') = int s' + mn" using ready True tq a by (auto simp: less_Suc_eq)
    then have "gathered cs0 ub mn mx (Suc s) cs" unfolding gathered_def using p rng by blast
    ultimately show ?thesis by blast
  next
    case False
    let ?cs = "swap_cells a ?b cs"
    have "fs_gather ub mn s cs = Some ?cs"
      using ql tq a al bl(1) False by (simp add: fs_gather_def swap_cells_def Let_def)
    moreover have sp: "permuted (swap_idx a ?b) cs ?cs" by (rule swap_cells_permuted [OF al bl(1) False T(1)])
    have "permuted (swap_idx a ?b \<circ> f) cs0 ?cs" by (rule permuted_trans [OF p sp])
    moreover have "if int i \<in> {mn..mx} then int ((swap_idx a ?b \<circ> f) i) \<in> {mn..mx} else (swap_idx a ?b \<circ> f) i = i"
      if i: "i < length cs0" for i
    proof -
      have ar: "int a \<in> {mn..mx}" using a room by simp
      show ?thesis
      proof (cases "int i \<in> {mn..mx}")
        case True
        then have "int (f i) \<in> {mn..mx}" using rng i by presburger
        then show ?thesis unfolding if_P [OF True] comp_apply swap_idx_def using ar bl(2) by presburger
      next
        case False
        then have "f i = i" using rng i by presburger
        moreover have "i \<noteq> a" "i \<noteq> ?b" using False ar bl(2) by blast+
        ultimately show ?thesis unfolding if_not_P [OF False] comp_apply swap_idx_def by simp
      qed
    qed
    moreover have "tail_at ?cs (fs_lead ub s') = int s' + mn" if s': "s' < Suc s" for s'
    proof (cases "s' = s")
      case True
      then show ?thesis using permutedD(7) [OF sp, of ?q] q D(1) tq a by (simp add: swap_idx_def)
    next
      case False
      then have lt: "s' < s" using s' by simp
      have r: "seq_in cs0 (fs_lead ub s')" "tail_at cs (fs_lead ub s') = int s' + mn" using leads ready lt s by auto
      have "tail_at cs0 (fs_lead ub s') \<noteq> tail_at cs0 ?q" using inj_onD [OF inj, of s' s] lt s by auto
      then have "tail_at cs (fs_lead ub s') \<noteq> int ?b" using T(4) [OF r(1) q] tq by simp
      moreover have "tail_at cs (fs_lead ub s') \<noteq> int a" using r(2) a lt by linarith
      moreover have pos: "0 \<le> tail_at cs (fs_lead ub s')" using r(2) b(1) by simp
      ultimately have "nat (tail_at cs (fs_lead ub s')) \<notin> {a, ?b}" by auto
      then show ?thesis using permutedD(7) [OF sp, of "fs_lead ub s'"] r pos D(1) by (simp add: swap_idx_def)
    qed
    ultimately show ?thesis unfolding gathered_def by blast
  qed
qed

lemma fs_gather_loop:
  assumes t: "tails_in cs0" and leads: "\<forall>s < n. seq_in cs0 (fs_lead ub s)"
    and b: "0 \<le> mn" "mx < int (length cs0)" "\<forall>s < n. tail_at cs0 (fs_lead ub s) \<in> {mn..mx}"
    and inj: "inj_on (\<lambda>s. tail_at cs0 (fs_lead ub s)) {..<n}"
  shows "\<exists>cs. ofold (fs_gather ub mn) [0..<n] cs0 = Some cs \<and> gathered cs0 ub mn mx n cs"
proof (rule ofold_upt_inv [where I = "gathered cs0 ub mn mx"])
  show "gathered cs0 ub mn mx 0 cs0" using permuted_id [of cs0] by (auto simp: gathered_def intro!: exI [of _ "\<lambda>i. i"])
qed (rule fs_gather_step [OF t leads b inj])

end
