(* ===== verification/RecurrentFill.thy ===== *)
theory RecurrentFill
  imports RecurrentFind
begin

section \<open>Filling the slot\<close>

subsection \<open>The cells of the ubatch\<close>

definition last_pos :: "llama_ubatch \<Rightarrow> nat \<Rightarrow> llama_pos" where
  "last_pos ub s = ub_pos ub ! (fs_first ub s + ub_n_seq_tokens ub - 1)"

definition batch_seqs :: "llama_ubatch \<Rightarrow> nat \<Rightarrow> llama_seq_id set" where
  "batch_seqs ub n = (\<Union>s < n. set (fs_seqs ub s))"

definition filled :: "mem_cell list \<Rightarrow> llama_ubatch \<Rightarrow> nat \<Rightarrow> nat \<Rightarrow> mem_cell list \<Rightarrow> bool" where
  "filled cs0 ub h s cs \<longleftrightarrow> length cs = length cs0 \<and>
     (\<forall>i < length cs0. mc_src (cs ! i) = mc_src (cs0 ! i)) \<and>
     (\<forall>s' < s. mc_pos (cs ! (h + s')) = last_pos ub s' \<and> mc_seq (cs ! (h + s')) = set (fs_seqs ub s') \<and>
        (\<forall>q \<in> set (fs_seqs ub s'). tail_at cs q = int (h + s'))) \<and>
     (\<forall>i < length cs0. i \<notin> {h..<h + s} \<longrightarrow> mc_pos (cs ! i) = mc_pos (cs0 ! i) \<and> mc_seq (cs ! i) = mc_seq (cs0 ! i)) \<and>
     (\<forall>q. seq_in cs0 q \<and> q \<notin> batch_seqs ub s \<longrightarrow> tail_at cs q = tail_at cs0 q)"

lemma fill_seqs:
  assumes "c < length cs" "\<forall>q \<in> set qs. seq_in cs q"
  shows "\<exists>cs'. ofold (\<lambda>q cs. do {
         let cs = cell_upd c (mc_seq_update (insert q)) cs;
         seq_meta \<leftarrow> at_idx cs (nat q);
         Some (cell_upd (nat q) (mc_tail_update (\<lambda>_. int c)) cs) }) qs cs = Some cs' \<and> length cs' = length cs \<and>
    (\<forall>i < length cs. mc_src (cs' ! i) = mc_src (cs ! i) \<and> mc_pos (cs' ! i) = mc_pos (cs ! i) \<and>
       mc_seq (cs' ! i) = (if i = c then mc_seq (cs ! i) \<union> set qs else mc_seq (cs ! i)) \<and>
       mc_tail (cs' ! i) = (if int i \<in> set qs then int c else mc_tail (cs ! i)))"
  using assms
proof (induction qs arbitrary: cs)
  case (Cons q qs)
  let ?cs = "cell_upd (nat q) (mc_tail_update (\<lambda>_. int c)) (cell_upd c (mc_seq_update (insert q)) cs)"
  have q: "nat q < length cs" "int (nat q) = q" using Cons.prems(2) by auto
  have "c < length ?cs" "\<forall>q \<in> set qs. seq_in ?cs q" using Cons.prems by simp_all
  from Cons.IH [OF this] obtain cs' where IH: "ofold (\<lambda>q cs. do {
         let cs = cell_upd c (mc_seq_update (insert q)) cs;
         seq_meta \<leftarrow> at_idx cs (nat q);
         Some (cell_upd (nat q) (mc_tail_update (\<lambda>_. int c)) cs) }) qs ?cs = Some cs'" "length cs' = length ?cs"
    "\<forall>i < length ?cs. mc_src (cs' ! i) = mc_src (?cs ! i) \<and> mc_pos (cs' ! i) = mc_pos (?cs ! i) \<and>
       mc_seq (cs' ! i) = (if i = c then mc_seq (?cs ! i) \<union> set qs else mc_seq (?cs ! i)) \<and>
       mc_tail (cs' ! i) = (if int i \<in> set qs then int c else mc_tail (?cs ! i))" by blast
  have "mc_src (cs' ! i) = mc_src (cs ! i) \<and> mc_pos (cs' ! i) = mc_pos (cs ! i) \<and>
       mc_seq (cs' ! i) = (if i = c then mc_seq (cs ! i) \<union> set (q # qs) else mc_seq (cs ! i)) \<and>
       mc_tail (cs' ! i) = (if int i \<in> set (q # qs) then int c else mc_tail (cs ! i))" if i: "i < length cs" for i
  proof -
    have "i = nat q \<longleftrightarrow> int i = q" using q by auto
    then show ?thesis using IH(3) i by auto
  qed
  then show ?case using IH(1,2) q(1) by (simp add: Let_def)
qed simp

lemma fs_fill_step:
  assumes mn: "mn = int h" and room: "h + n \<le> length cs0" and s: "s < n"
    and qs: "\<forall>s < n. \<forall>q \<in> set (fs_seqs ub s). seq_in cs0 q"
    and disj: "\<forall>s < n. \<forall>s' < n. s \<noteq> s' \<longrightarrow> set (fs_seqs ub s) \<inter> set (fs_seqs ub s') = {}"
    and I: "filled cs0 ub h s cs"
  shows "\<exists>cs'. fs_fill ub mn s cs = Some cs' \<and> filled cs0 ub h (Suc s) cs'"
proof -
  have len: "length cs = length cs0" using I by (simp add: filled_def)
  let ?c = "h + s"
  have c: "?c < length cs" "nat (int s + mn) = ?c" "int s + mn = int ?c" using room s len mn by simp_all
  let ?cs = "cell_upd ?c (\<lambda>c. c\<lparr>mc_pos := last_pos ub s, mc_seq := {}\<rparr>) cs"
  have "\<forall>q \<in> set (fs_seqs ub s). seq_in ?cs q" using qs s len by simp
  from fill_seqs [OF _ this, of ?c] c(1) obtain cs' where F: "ofold (\<lambda>q cs. do {
         let cs = cell_upd ?c (mc_seq_update (insert q)) cs;
         seq_meta \<leftarrow> at_idx cs (nat q);
         Some (cell_upd (nat q) (mc_tail_update (\<lambda>_. int ?c)) cs) }) (fs_seqs ub s) ?cs = Some cs'" "length cs' = length cs"
    "\<forall>i < length cs. mc_src (cs' ! i) = mc_src (?cs ! i) \<and> mc_pos (cs' ! i) = mc_pos (?cs ! i) \<and>
       mc_seq (cs' ! i) = (if i = ?c then mc_seq (?cs ! i) \<union> set (fs_seqs ub s) else mc_seq (?cs ! i)) \<and>
       mc_tail (cs' ! i) = (if int i \<in> set (fs_seqs ub s) then int ?c else mc_tail (?cs ! i))"
    unfolding length_cell_upd by blast
  have run: "fs_fill ub mn s cs = Some cs'"
    using F(1) c(1) unfolding fs_fill_def Let_def c(3) nat_int last_pos_def [symmetric] by simp
  have nth: "mc_src (cs' ! i) = mc_src (cs ! i)" "mc_pos (cs' ! i) = (if i = ?c then last_pos ub s else mc_pos (cs ! i))"
    "mc_seq (cs' ! i) = (if i = ?c then set (fs_seqs ub s) else mc_seq (cs ! i))" if "i < length cs" for i
    using F(3) that by auto
  have tail: "tail_at cs' q = (if q \<in> set (fs_seqs ub s) then int ?c else tail_at cs q)" if "seq_in cs0 q" for q
    using F(3) seq_in_nat [OF that] that len by auto
  have "filled cs0 ub h (Suc s) cs'" unfolding filled_def
  proof (intro conjI allI impI ballI)
    show "length cs' = length cs0" using F(2) len by simp
    show "mc_src (cs' ! i) = mc_src (cs0 ! i)" if "i < length cs0" for i using nth(1) [of i] that len I by (simp add: filled_def)
  next
    fix s' assume s': "s' < Suc s"
    have "h + s' < length cs" using s' c(1) by simp
    then show "mc_pos (cs' ! (h + s')) = last_pos ub s'" "mc_seq (cs' ! (h + s')) = set (fs_seqs ub s')"
      using nth(2,3) s' I by (auto simp: filled_def less_Suc_eq)
    fix q assume q: "q \<in> set (fs_seqs ub s')"
    have "q \<notin> set (fs_seqs ub s)" if "s' \<noteq> s" using q disj s s' that by (metis IntI empty_iff less_Suc_eq less_trans)
    then show "tail_at cs' q = int (h + s')" 
    proof (cases "s' = s")
      case False
      then have lt: "s' < s" using s' by simp
      then have "seq_in cs0 q" using qs q s by (meson less_trans)
      moreover have "tail_at cs q = int (h + s')" using I lt q unfolding filled_def by blast
      ultimately show ?thesis using tail [of q] False \<open>s' \<noteq> s \<Longrightarrow> _\<close> by simp
    qed (use tail [of q] qs q s in simp)
  next
    fix i assume "i < length cs0" "i \<notin> {h..<h + Suc s}"
    then show "mc_pos (cs' ! i) = mc_pos (cs0 ! i)" "mc_seq (cs' ! i) = mc_seq (cs0 ! i)"
      using nth(2,3) [of i] len I by (auto simp: filled_def)
  next
    fix q assume q: "seq_in cs0 q \<and> q \<notin> batch_seqs ub (Suc s)"
    then have "q \<notin> set (fs_seqs ub s)" "q \<notin> batch_seqs ub s" by (auto simp: batch_seqs_def)
    then show "tail_at cs' q = tail_at cs0 q" using tail [of q] q I by (simp add: filled_def)
  qed
  then show ?thesis using run by blast
qed

lemma fs_fill_loop:
  assumes "mn = int h" "h + n \<le> length cs0" "\<forall>s < n. \<forall>q \<in> set (fs_seqs ub s). seq_in cs0 q"
    "\<forall>s < n. \<forall>s' < n. s \<noteq> s' \<longrightarrow> set (fs_seqs ub s) \<inter> set (fs_seqs ub s') = {}"
  shows "\<exists>cs. ofold (fs_fill ub mn) [0..<n] cs0 = Some cs \<and> filled cs0 ub h n cs"
proof (rule ofold_upt_inv [where I = "filled cs0 ub h"])
  show "filled cs0 ub h 0 cs0" by (simp add: filled_def batch_seqs_def)
qed (rule fs_fill_step [OF assms(1,2) _ assms(3,4)])

subsection \<open>The cells once they are together\<close>

definition together :: "mem_cell list \<Rightarrow> llama_ubatch \<Rightarrow> nat \<Rightarrow> nat \<Rightarrow> nat \<Rightarrow> mem_cell list \<Rightarrow> bool" where
  "together cs0 ub n h b cs \<longleftrightarrow> length cs = length cs0 \<and> tails_in cs \<and> h + n \<le> b \<and> b \<le> length cs0 \<and>
     (\<forall>s < n. tail_at cs (fs_lead ub s) = int (h + s)) \<and>
     (\<forall>s < n. (0 \<le> tail_at cs0 (fs_lead ub s) \<longrightarrow> mc_src (cs ! (h + s)) = lsrc cs0 (fs_lead ub s)) \<and>
        (tail_at cs0 (fs_lead ub s) < 0 \<longrightarrow> zero_src cs0 (mc_src (cs ! (h + s))))) \<and>
     (\<forall>q. seq_in cs0 q \<and> q \<notin> fs_lead ub ` {..<n} \<longrightarrow> (0 \<le> tail_at cs q \<longleftrightarrow> 0 \<le> tail_at cs0 q) \<and>
        lpos cs q = lpos cs0 q \<and> lsrc cs q = lsrc cs0 q \<and>
        (0 \<le> tail_at cs q \<longrightarrow> q \<in> mc_seq (cs ! nat (tail_at cs q)) \<and> nat (tail_at cs q) \<notin> {h..<h + n})) \<and>
     (\<forall>i < length cs0. i \<notin> {h..<h + n} \<longrightarrow> (\<exists>k < length cs0. mc_pos (cs ! i) = mc_pos (cs0 ! k) \<and>
        mc_src (cs ! i) = mc_src (cs0 ! k) \<and> (mc_seq (cs ! i) = {} \<longleftrightarrow> mc_seq (cs0 ! k) = {}) \<and> (i \<notin> {h..<b} \<longrightarrow> k = i)))"

lemma gathered_together:
  assumes o: "own_cells cs0 (fs_lead ub ` {..<n}) cs1" and g: "gathered cs1 ub (int h) mx n cs"
    and leads: "\<forall>s < n. seq_in cs0 (fs_lead ub s)" and n: "0 < n" and mx: "mx < int (length cs0)"
    and b: "\<forall>s < n. tail_at cs1 (fs_lead ub s) \<in> {int h..mx}"
  shows "together cs0 ub n h (nat (mx + 1)) cs"
proof -
  let ?P = "fs_lead ub ` {..<n}"
  note O = own_cellsD [OF o]
  obtain f where p: "permuted f cs1 cs" and rng: "\<forall>i < length cs1. if int i \<in> {int h..mx} then int (f i) \<in> {int h..mx} else f i = i"
    and at: "\<forall>s < n. tail_at cs (fs_lead ub s) = int s + int h" using g unfolding gathered_def by blast
  note D = permutedD [OF p] and T = permuted_tails [OF p O(2)]
  have len: "length cs = length cs0" "length cs1 = length cs0" using D(1) O(1) by simp_all
  have lead: "seq_in cs1 (fs_lead ub s)" "0 \<le> tail_at cs1 (fs_lead ub s)" "nat (tail_at cs1 (fs_lead ub s)) < length cs1"
    "f (nat (tail_at cs1 (fs_lead ub s))) = h + s" if "s < n" for s
  proof -
    show 1: "seq_in cs1 (fs_lead ub s)" using leads len that by simp
    show 2: "0 \<le> tail_at cs1 (fs_lead ub s)" using O(6) that by blast
    then show "nat (tail_at cs1 (fs_lead ub s)) < length cs1" using tails_inD(2) [OF O(2) 1] by linarith
    have "tail_at cs (fs_lead ub s) = int (f (nat (tail_at cs1 (fs_lead ub s))))" using D(7) [OF 1] 2 by simp
    then show "f (nat (tail_at cs1 (fs_lead ub s))) = h + s" using at that by (metis add.commute of_nat_add of_nat_eq_iff)
  qed
  have room: "h + n \<le> nat (mx + 1)"
  proof -
    let ?j = "nat (tail_at cs1 (fs_lead ub (n - 1)))"
    have j: "int ?j \<in> {int h..mx}" "?j < length cs1" using b lead(2,3) [of "n - 1"] n by simp_all
    from rng j(2) have "int (f ?j) \<in> {int h..mx}" using if_P [OF j(1)] by metis
    then have "int (h + (n - 1)) \<le> mx" using lead(4) [of "n - 1"] n by simp
    then show ?thesis using n by linarith
  qed
  have inside: "\<exists>s < n. i = h + s" if "i \<in> {h..<h + n}" for i
    using that by (metis add_less_cancel_left atLeastLessThan_iff le_iff_add)
  show ?thesis unfolding together_def
  proof (intro conjI allI impI)
    show "length cs = length cs0" "tails_in cs" "h + n \<le> nat (mx + 1)" using len T(1) room by simp_all
    show "nat (mx + 1) \<le> length cs0" using mx by simp
  next
    fix s assume s: "s < n"
    show "tail_at cs (fs_lead ub s) = int (h + s)" using at s by simp
    have "mc_src (cs ! (h + s)) = lsrc cs1 (fs_lead ub s)"
      using D(5) [OF lead(3) [OF s]] lead(2,4) [OF s] by (simp add: lsrc_def)
    then show "0 \<le> tail_at cs0 (fs_lead ub s) \<Longrightarrow> mc_src (cs ! (h + s)) = lsrc cs0 (fs_lead ub s)"
      "tail_at cs0 (fs_lead ub s) < 0 \<Longrightarrow> zero_src cs0 (mc_src (cs ! (h + s)))"
      using O(10,12) [of "fs_lead ub s"] s by auto
  next
    fix q assume q0: "seq_in cs0 q \<and> q \<notin> ?P"
    then have q: "seq_in cs1 q" "q \<notin> ?P" using len by simp_all
    show "(0 \<le> tail_at cs q) = (0 \<le> tail_at cs0 q)" "lpos cs q = lpos cs0 q" "lsrc cs q = lsrc cs0 q"
      using T(2,3,5) [OF q(1)] O(3-5) [OF q] by simp_all
    assume t: "0 \<le> tail_at cs q"
    then have t1: "0 \<le> tail_at cs1 q" using T(5) [OF q(1)] by simp
    let ?j = "nat (tail_at cs1 q)"
    have j: "?j < length cs1" "q \<in> mc_seq (cs1 ! ?j)"
      using tails_inD(2) [OF O(2) q(1)] t1 O(8) [OF q(1) t1] q(2) by auto
    have fj: "nat (tail_at cs q) = f ?j" using D(7) [OF q(1)] t1 by simp
    show "q \<in> mc_seq (cs ! nat (tail_at cs q))" unfolding fj using D(6) [OF j(1)] j(2) by simp
    have "f ?j \<noteq> h + s" if s: "s < n" for s
    proof
      assume "f ?j = h + s"
      then have "?j = nat (tail_at cs1 (fs_lead ub s))" using D(2) [OF j(1) lead(3) [OF s]] lead(4) [OF s] by simp
      then have "tail_at cs1 q = tail_at cs1 (fs_lead ub s)" using t1 lead(2) [OF s] by (simp add: eq_nat_nat_iff)
      then show False using O(7) [of "fs_lead ub s" q] q s by auto
    qed
    then show "nat (tail_at cs q) \<notin> {h..<h + n}" unfolding fj using inside by blast
  next
    fix i assume i: "i < length cs0" "i \<notin> {h..<h + n}"
    obtain k where k: "k < length cs1" "f k = i" using permuted_onto [OF p, of i] i(1) len by auto
    have "tail_at cs1 q \<noteq> int k" if q: "q \<in> ?P" for q
    proof
      obtain s where s: "s < n" "q = fs_lead ub s" using q by blast
      assume "tail_at cs1 q = int k"
      then have "i = h + s" using lead(4) [OF s(1)] s(2) k(2) by simp
      then show False using i(2) s(1) by simp
    qed
    then have "\<forall>q \<in> ?P. tail_at cs1 q \<noteq> int k" by blast
    note E = O(13-15) [OF k(1) this]
    have "k = i" if "i \<notin> {h..<nat (mx + 1)}"
    proof -
      have "int (f k) \<notin> {int h..mx}" using that k(2) by auto
      then have "f k = k" using rng k(1) by meson
      then show ?thesis using k(2) by simp
    qed
    then show "\<exists>k < length cs0. mc_pos (cs ! i) = mc_pos (cs0 ! k) \<and> mc_src (cs ! i) = mc_src (cs0 ! k) \<and>
        (mc_seq (cs ! i) = {} \<longleftrightarrow> mc_seq (cs0 ! k) = {}) \<and> (i \<notin> {h..<nat (mx + 1)} \<longrightarrow> k = i)"
      using D(4-6) [OF k(1)] E k len by (intro exI [of _ k]) simp
  qed
qed

lemma togetherD:
  assumes "together cs0 ub n h b cs"
  shows "length cs = length cs0" "tails_in cs" "h + n \<le> b" "b \<le> length cs0"
    "s < n \<Longrightarrow> tail_at cs (fs_lead ub s) = int (h + s)"
    "s < n \<Longrightarrow> 0 \<le> tail_at cs0 (fs_lead ub s) \<Longrightarrow> mc_src (cs ! (h + s)) = lsrc cs0 (fs_lead ub s)"
    "s < n \<Longrightarrow> tail_at cs0 (fs_lead ub s) < 0 \<Longrightarrow> zero_src cs0 (mc_src (cs ! (h + s)))"
    "seq_in cs0 q \<Longrightarrow> q \<notin> fs_lead ub ` {..<n} \<Longrightarrow> 0 \<le> tail_at cs q \<longleftrightarrow> 0 \<le> tail_at cs0 q"
    "seq_in cs0 q \<Longrightarrow> q \<notin> fs_lead ub ` {..<n} \<Longrightarrow> lpos cs q = lpos cs0 q"
    "seq_in cs0 q \<Longrightarrow> q \<notin> fs_lead ub ` {..<n} \<Longrightarrow> lsrc cs q = lsrc cs0 q"
    "seq_in cs0 q \<Longrightarrow> q \<notin> fs_lead ub ` {..<n} \<Longrightarrow> 0 \<le> tail_at cs q \<Longrightarrow> q \<in> mc_seq (cs ! nat (tail_at cs q))"
    "seq_in cs0 q \<Longrightarrow> q \<notin> fs_lead ub ` {..<n} \<Longrightarrow> 0 \<le> tail_at cs q \<Longrightarrow> nat (tail_at cs q) \<notin> {h..<h + n}"
    "i < length cs0 \<Longrightarrow> i \<notin> {h..<h + n} \<Longrightarrow> \<exists>k < length cs0. mc_pos (cs ! i) = mc_pos (cs0 ! k) \<and>
        mc_src (cs ! i) = mc_src (cs0 ! k) \<and> (mc_seq (cs ! i) = {} \<longleftrightarrow> mc_seq (cs0 ! k) = {}) \<and> (i \<notin> {h..<b} \<longrightarrow> k = i)"
  using assms unfolding together_def by blast+

text \<open>
  The slot filled: sequence set \<open>s\<close> is in cell \<open>h + s\<close>, whose row comes from its leading sequence;
  the other sequences have their positions and rows; the other cells are those there were.
\<close>

definition slot_cells :: "mem_cell list \<Rightarrow> llama_ubatch \<Rightarrow> nat \<Rightarrow> nat \<Rightarrow> nat \<Rightarrow> mem_cell list \<Rightarrow> bool" where
  "slot_cells cs0 ub n h b cs \<longleftrightarrow> length cs = length cs0 \<and> tails_ok cs \<and> h + n \<le> b \<and> b \<le> length cs0 \<and>
     (\<forall>s < n. mc_pos (cs ! (h + s)) = last_pos ub s \<and> mc_seq (cs ! (h + s)) = set (fs_seqs ub s)) \<and>
     (\<forall>s < n. (0 \<le> tail_at cs0 (fs_lead ub s) \<longrightarrow> mc_src (cs ! (h + s)) = lsrc cs0 (fs_lead ub s)) \<and>
        (tail_at cs0 (fs_lead ub s) < 0 \<longrightarrow> zero_src cs0 (mc_src (cs ! (h + s))))) \<and>
     (\<forall>q. seq_in cs0 q \<and> q \<notin> batch_seqs ub n \<longrightarrow> (0 \<le> tail_at cs q \<longleftrightarrow> 0 \<le> tail_at cs0 q) \<and>
        lpos cs q = lpos cs0 q \<and> lsrc cs q = lsrc cs0 q \<and>
        (0 \<le> tail_at cs q \<longrightarrow> nat (tail_at cs q) \<notin> {h..<h + n})) \<and>
     (\<forall>i < length cs0. i \<notin> {h..<h + n} \<longrightarrow> (\<exists>k < length cs0. mc_pos (cs ! i) = mc_pos (cs0 ! k) \<and>
        mc_src (cs ! i) = mc_src (cs0 ! k) \<and> (mc_seq (cs ! i) = {} \<longleftrightarrow> mc_seq (cs0 ! k) = {}) \<and> (i \<notin> {h..<b} \<longrightarrow> k = i)))"

lemma filledD:
  assumes "filled cs0 ub h n cs"
  shows "length cs = length cs0" "i < length cs0 \<Longrightarrow> mc_src (cs ! i) = mc_src (cs0 ! i)"
    "s < n \<Longrightarrow> mc_pos (cs ! (h + s)) = last_pos ub s" "s < n \<Longrightarrow> mc_seq (cs ! (h + s)) = set (fs_seqs ub s)"
    "s < n \<Longrightarrow> q \<in> set (fs_seqs ub s) \<Longrightarrow> tail_at cs q = int (h + s)"
    "i < length cs0 \<Longrightarrow> i \<notin> {h..<h + n} \<Longrightarrow> mc_pos (cs ! i) = mc_pos (cs0 ! i)"
    "i < length cs0 \<Longrightarrow> i \<notin> {h..<h + n} \<Longrightarrow> mc_seq (cs ! i) = mc_seq (cs0 ! i)"
    "seq_in cs0 q \<Longrightarrow> q \<notin> batch_seqs ub n \<Longrightarrow> tail_at cs q = tail_at cs0 q"
  using assms unfolding filled_def by blast+

lemma filled_slot:
  assumes g: "together cs0 ub n h b cs1" and f: "filled cs1 ub h n cs"
    and qs: "\<forall>q \<in> batch_seqs ub n. seq_in cs0 q" and leads: "fs_lead ub ` {..<n} \<subseteq> batch_seqs ub n"
    and J: "\<forall>q \<in> batch_seqs ub n - fs_lead ub ` {..<n}. tail_at cs0 q < 0"
  shows "slot_cells cs0 ub n h b cs"
proof -
  let ?P = "fs_lead ub ` {..<n}" and ?B = "batch_seqs ub n"
  note G = togetherD [OF g] and F = filledD [OF f]
  have len: "length cs = length cs0" using F(1) G(1) by simp
  have slot: "h + s < length cs1" if "s < n" for s using G(1,3,4) that by linarith
  have tail_B: "tail_at cs1 q < 0 \<or> nat (tail_at cs1 q) \<in> {h..<h + n}" if q: "q \<in> ?B" for q
  proof (cases "q \<in> ?P")
    case True
    then show ?thesis using G(5) by auto
  next
    case False
    then have "tail_at cs0 q < 0" using J q by blast
    then show ?thesis using G(8) [of q] False qs q by auto
  qed
  have other: "seq_in cs1 q" "q \<notin> ?P" "tail_at cs q = tail_at cs1 q" if "seq_in cs0 q" "q \<notin> ?B" for q
    using that G(1) leads F(8) [of q] by auto
  have idx: "nat (tail_at cs1 q) < length cs1" if "seq_in cs1 q" "0 \<le> tail_at cs1 q" for q
    using tails_inD(2) [OF G(2) that(1)] that(2) by linarith
  have tok: "tails_ok cs" unfolding tails_ok_def tails_in_def len
  proof (intro conjI allI impI ballI)
    fix q assume q: "seq_in cs0 q"
    have "-1 \<le> tail_at cs q \<and> tail_at cs q < int (length cs0)"
    proof (cases "q \<in> ?B")
      case True
      then obtain s where s: "s < n" "q \<in> set (fs_seqs ub s)" by (auto simp: batch_seqs_def)
      then show ?thesis using F(5) [OF s] slot [OF s(1)] G(1) by simp
    next
      case False
      then show ?thesis using other [OF q False] tails_inD(1,2) [OF G(2), of q] G(1) by simp
    qed
    then show "-1 \<le> tail_at cs q" "tail_at cs q < int (length cs0)" by blast+
  next
    fix i q assume i: "i < length cs0" "q \<in> mc_seq (cs ! i)"
    have "seq_in cs0 q \<and> tail_at cs q = int i"
    proof (cases "i \<in> {h..<h + n}")
      case True
      then obtain s where s: "s < n" "i = h + s" by (metis add_less_cancel_left atLeastLessThan_iff le_iff_add)
      then have "q \<in> set (fs_seqs ub s)" using i(2) F(4) by simp
      then show ?thesis using F(5) [OF s(1)] s qs by (auto simp: batch_seqs_def)
    next
      case False
      then have "q \<in> mc_seq (cs1 ! i)" using i F(7) [of i] G(1) by simp
      note T = tails_inD(3-5) [OF G(2) _ this]
      have q: "seq_in cs0 q" "tail_at cs1 q = int i" using T i(1) G(1) by auto
      then have "q \<notin> ?B" using tail_B [of q] False by auto
      then show ?thesis using other(3) q by simp
    qed
    then show "0 \<le> q" "q < int (length cs0)" "tail_at cs q = int i" by blast+
  next
    fix q assume q: "seq_in cs0 q \<and> 0 \<le> tail_at cs q"
    show "q \<in> mc_seq (cs ! nat (tail_at cs q))"
    proof (cases "q \<in> ?B")
      case True
      then obtain s where s: "s < n" "q \<in> set (fs_seqs ub s)" by (auto simp: batch_seqs_def)
      have "nat (tail_at cs q) = h + s" using F(5) [OF s] by (simp only: nat_int)
      then show ?thesis using F(4) s by simp
    next
      case False
      note o = other [OF _ False]
      have t: "0 \<le> tail_at cs1 q" using q o by simp
      then show ?thesis using G(11,12) [of q] o q F(7) [OF idx] by simp
    qed
  qed
  have seqs: "(0 \<le> tail_at cs q \<longleftrightarrow> 0 \<le> tail_at cs0 q) \<and> lpos cs q = lpos cs0 q \<and> lsrc cs q = lsrc cs0 q \<and>
      (0 \<le> tail_at cs q \<longrightarrow> nat (tail_at cs q) \<notin> {h..<h + n})" if q: "seq_in cs0 q" "q \<notin> ?B" for q
  proof -
    note o = other [OF q]
    have out: "nat (tail_at cs1 q) \<notin> {h..<h + n}" if "0 \<le> tail_at cs1 q" using G(12) [OF q(1) o(2) that] .
    have "lpos cs q = lpos cs1 q" "lsrc cs q = lsrc cs1 q"
      unfolding lpos_def lsrc_def o(3) using F(2,6) [OF idx [OF o(1)]] out by simp_all
    then show ?thesis using G(8-10) [OF q(1) o(2)] o(3) out by simp
  qed
  show ?thesis unfolding slot_cells_def
    using len tok G(3,4) F(3,4) seqs F(2) [OF slot] G(6,7) F(2,6,7) G(1,13) by (simp add: not_le [symmetric])
qed

end
