(* ===== verification/RecurrentFound.thy ===== *)
theory RecurrentFound
  imports RecurrentFill
begin

section \<open>What \<open>find_slot\<close> of the recurrent memory does\<close>

subsection \<open>Where the states come from\<close>

definition stage_cell :: "int \<Rightarrow> nat \<Rightarrow> mem_cell \<Rightarrow> mem_cell" where
  "stage_cell z i c = c\<lparr>mc_src0 := (if mc_src c < 0 then z else mc_src c), mc_src := int i\<rparr>"

lemma fs_stage_loop:
  assumes "a \<le> b" "b \<le> length cs" "\<forall>i < length cs. a \<le> i \<and> i < b \<and> mc_src (cs ! i) < 0 \<longrightarrow> 0 \<le> z"
  shows "\<exists>cs'. ofold (fs_stage z) [a..<b] cs = Some cs' \<and> length cs' = length cs \<and>
    (\<forall>i < length cs. cs' ! i = (if a \<le> i \<and> i < b then stage_cell z i (cs ! i) else cs ! i))"
  using assms
proof (induction rule: dec_induct)
  case (step b)
  then obtain cs' where IH: "ofold (fs_stage z) [a..<b] cs = Some cs'" "length cs' = length cs"
    "\<forall>i < length cs. cs' ! i = (if a \<le> i \<and> i < b then stage_cell z i (cs ! i) else cs ! i)" by force
  have b: "b < length cs" "cs' ! b = cs ! b" using step.prems(1) IH(3) by simp_all
  then have "fs_stage z b cs' = Some (cell_upd b (stage_cell z b) cs')"
    using step.prems(2) step.hyps(1) IH(2) by (simp add: fs_stage_def cell_upd_def stage_cell_def)
  moreover have "\<forall>i < length cs. cell_upd b (stage_cell z b) cs' ! i = (if a \<le> i \<and> i < Suc b then stage_cell z i (cs ! i) else cs ! i)"
    using IH(2,3) step.hyps(1) by (auto simp: less_Suc_eq)
  ultimately show ?case using IH(1,2) step.hyps(1) by (simp add: ofold_append)
qed auto

text \<open>
  Among the rows of the slot one is not referred to, unless every cell of the slot has a row: there
  are as many cells as rows.
\<close>

lemma fs_rs_z_spec:
  assumes b: "b \<le> length cs" and ab: "a < b"
    and out: "\<forall>i < length cs. \<not> (a \<le> i \<and> i < b) \<longrightarrow> mc_src (cs ! i) \<notin> int ` {a..<b}"
  shows "(fs_rs_z cs a (b - 1) = -1 \<and> (\<forall>i < length cs. a \<le> i \<and> i < b \<longrightarrow> 0 \<le> mc_src (cs ! i))) \<or>
    (\<exists>k. a \<le> k \<and> k < b \<and> fs_rs_z cs a (b - 1) = int k \<and> (\<forall>i < length cs. mc_src (cs ! i) \<noteq> int k))"
proof (cases "find (\<lambda>i. refcount cs i = 0) [a..<b]")
  case None
  then have all: "\<exists>j < length cs. mc_src (cs ! j) = int k" if "a \<le> k" "k < b" for k
  proof -
    have "\<exists>c \<in> set cs. mc_src c = int k" using None that unfolding find_None_iff refcount_def by (auto simp: filter_empty_conv)
    then show ?thesis by (metis in_set_conv_nth)
  qed
  have "0 \<le> mc_src (cs ! i)" if i: "i < length cs" "a \<le> i" "i < b" for i
  proof (rule ccontr)
    assume neg: "\<not> 0 \<le> mc_src (cs ! i)"
    have "{a..<b} \<subseteq> (\<lambda>j. nat (mc_src (cs ! j))) ` ({a..<b} - {i})"
    proof
      fix k assume k: "k \<in> {a..<b}"
      then obtain j where j: "j < length cs" "mc_src (cs ! j) = int k" using all by auto
      have "j \<in> {a..<b}" using out j k by (metis atLeastLessThan_iff image_eqI)
      moreover have "j \<noteq> i" using neg j(2) by auto
      ultimately show "k \<in> (\<lambda>j. nat (mc_src (cs ! j))) ` ({a..<b} - {i})" using j(2) by (intro image_eqI [of _ _ j]) auto
    qed
    then have "card {a..<b} \<le> card ({a..<b} - {i})" using surj_card_le by blast
    then show False using i by simp
  qed
  then show ?thesis using None ab by (simp add: fs_rs_z_def)
next
  case (Some k)
  then have "k \<in> set [a..<b]" "refcount cs k = 0" by (auto simp: find_Some_iff intro: nth_mem)
  then show ?thesis using Some ab by (auto simp: fs_rs_z_def refcount_def filter_empty_conv)
qed

lemma cells_ok_views:
  assumes "cells_ok cs" "seq_in cs q" "0 \<le> tail_at cs q"
  shows "lsrc cs q = tail_at cs q" "0 \<le> lpos cs q" "nat (tail_at cs q) < length cs"
proof -
  have t: "tails_ok cs" using assms(1) by (simp add: cells_ok_def)
  show i: "nat (tail_at cs q) < length cs" using tails_inD(2) [OF tails_okD(1) [OF t] assms(2)] assms(3) by linarith
  have "mc_seq (cs ! nat (tail_at cs q)) \<noteq> {}" using tails_okD(2) [OF t assms(2,3)] by blast
  then show "lsrc cs q = tail_at cs q" "0 \<le> lpos cs q"
    using cells_okD(3,4) [OF assms(1) i] assms(3) by (simp_all add: lsrc_def lpos_def)
qed

text \<open>Rows that hold the initial state: the one that is zeroed, and those of empty cells.\<close>

definition fresh_row :: "mem_cell list \<Rightarrow> int \<Rightarrow> int \<Rightarrow> bool" where
  "fresh_row cs z x \<longleftrightarrow> (0 \<le> z \<and> x = z) \<or> (\<exists>k < length cs. x = int k \<and> mc_seq (cs ! k) = {} \<and> mc_src (cs ! k) = int k)"

definition staged :: "mem_cell list \<Rightarrow> nat \<Rightarrow> nat \<Rightarrow> int \<Rightarrow> mem_cell list \<Rightarrow> bool" where
  "staged cs a b z cs' \<longleftrightarrow> length cs' = length cs \<and>
     (\<forall>i < length cs. cs' ! i = (if a \<le> i \<and> i < b then stage_cell z i (cs ! i) else cs ! i)) \<and>
     (\<forall>i < length cs. a \<le> i \<and> i < b \<and> mc_src (cs ! i) < 0 \<longrightarrow> 0 \<le> z) \<and>
     (\<forall>i < length cs. 0 \<le> z \<longrightarrow> mc_src (cs ! i) \<noteq> z) \<and> z < int (length cs)"

lemma stage_runs:
  assumes b: "b \<le> length cs" and ab: "a < b"
    and out: "\<forall>i < length cs. \<not> (a \<le> i \<and> i < b) \<longrightarrow> mc_src (cs ! i) \<notin> int ` {a..<b}"
  shows "\<exists>cs'. ofold (fs_stage (fs_rs_z cs a (b - 1))) [a..<b] cs = Some cs' \<and> staged cs a b (fs_rs_z cs a (b - 1)) cs'"
proof -
  let ?z = "fs_rs_z cs a (b - 1)"
  note z = fs_rs_z_spec [OF b ab out]
  have neg: "\<forall>i < length cs. a \<le> i \<and> i < b \<and> mc_src (cs ! i) < 0 \<longrightarrow> 0 \<le> ?z" using z by force
  moreover have "\<forall>i < length cs. 0 \<le> ?z \<longrightarrow> mc_src (cs ! i) \<noteq> ?z" "?z < int (length cs)" using z b by auto
  ultimately show ?thesis using fs_stage_loop [OF _ b neg] ab unfolding staged_def by auto
qed

lemma stagedD:
  assumes "staged cs a b z cs'" "i < length cs"
  shows "mc_pos (cs' ! i) = mc_pos (cs ! i)" "mc_seq (cs' ! i) = mc_seq (cs ! i)" "mc_tail (cs' ! i) = mc_tail (cs ! i)"
    "mc_src (cs' ! i) = (if a \<le> i \<and> i < b then int i else mc_src (cs ! i))"
    "a \<le> i \<Longrightarrow> i < b \<Longrightarrow> mc_src0 (cs' ! i) = (if mc_src (cs ! i) < 0 then z else mc_src (cs ! i))"
    "a \<le> i \<Longrightarrow> i < b \<Longrightarrow> mc_src (cs ! i) < 0 \<Longrightarrow> 0 \<le> z" "0 \<le> z \<Longrightarrow> mc_src (cs ! i) \<noteq> z"
  using assms by (auto simp: staged_def stage_cell_def)

subsection \<open>The slot as a whole\<close>

lemma slot_cellsD:
  assumes "slot_cells cs0 ub n h b cs"
  shows "length cs = length cs0" "tails_ok cs" "h + n \<le> b" "b \<le> length cs0"
    "s < n \<Longrightarrow> mc_pos (cs ! (h + s)) = last_pos ub s" "s < n \<Longrightarrow> mc_seq (cs ! (h + s)) = set (fs_seqs ub s)"
    "s < n \<Longrightarrow> 0 \<le> tail_at cs0 (fs_lead ub s) \<Longrightarrow> mc_src (cs ! (h + s)) = lsrc cs0 (fs_lead ub s)"
    "s < n \<Longrightarrow> tail_at cs0 (fs_lead ub s) < 0 \<Longrightarrow> zero_src cs0 (mc_src (cs ! (h + s)))"
    "seq_in cs0 q \<Longrightarrow> q \<notin> batch_seqs ub n \<Longrightarrow> 0 \<le> tail_at cs q \<longleftrightarrow> 0 \<le> tail_at cs0 q"
    "seq_in cs0 q \<Longrightarrow> q \<notin> batch_seqs ub n \<Longrightarrow> lpos cs q = lpos cs0 q"
    "seq_in cs0 q \<Longrightarrow> q \<notin> batch_seqs ub n \<Longrightarrow> lsrc cs q = lsrc cs0 q"
    "seq_in cs0 q \<Longrightarrow> q \<notin> batch_seqs ub n \<Longrightarrow> 0 \<le> tail_at cs q \<Longrightarrow> nat (tail_at cs q) \<notin> {h..<h + n}"
    "i < length cs0 \<Longrightarrow> i \<notin> {h..<h + n} \<Longrightarrow> \<exists>k < length cs0. mc_pos (cs ! i) = mc_pos (cs0 ! k) \<and>
        mc_src (cs ! i) = mc_src (cs0 ! k) \<and> (mc_seq (cs ! i) = {} \<longleftrightarrow> mc_seq (cs0 ! k) = {}) \<and> (i \<notin> {h..<b} \<longrightarrow> k = i)"
  using assms unfolding slot_cells_def by blast+

lemma slot_index: "i \<in> {h..<h + n} \<Longrightarrow> \<exists>s < n. i = h + (s :: nat)"
  by (metis add_less_cancel_left atLeastLessThan_iff le_iff_add)

text \<open>Every row the slot refers to is a row of the cache; outside the slot it is the cell's own.\<close>

lemma slot_srcs:
  assumes c0: "cells_ok cs0" and sl: "slot_cells cs0 ub n h b cs" and leads: "\<forall>s < n. seq_in cs0 (fs_lead ub s)" and i: "i < length cs0"
  shows "mc_src (cs ! i) < int (length cs0)" "i \<notin> {h..<b} \<Longrightarrow> mc_src (cs ! i) = -1 \<or> mc_src (cs ! i) = int i"
proof -
  note S = slot_cellsD [OF sl]
  have own: "mc_src (cs0 ! k) = -1 \<or> mc_src (cs0 ! k) = int k" if "k < length cs0" for k
    using cells_okD(2,4) [OF c0 that] by blast
  show "i \<notin> {h..<b} \<Longrightarrow> mc_src (cs ! i) = -1 \<or> mc_src (cs ! i) = int i"
    using S(13) [OF i] own [OF i] S(3) by fastforce
  show "mc_src (cs ! i) < int (length cs0)"
  proof (cases "i \<in> {h..<h + n}")
    case True
    then obtain s where s: "s < n" "i = h + s" using slot_index by blast
    show ?thesis
    proof (cases "0 \<le> tail_at cs0 (fs_lead ub s)")
      case True
      have "seq_in cs0 (fs_lead ub s)" using leads s(1) by blast
      note V = cells_ok_views [OF c0 this True]
      show ?thesis using S(7) [OF s(1) True] V(1,3) True s(2) by simp
    next
      case False
      then have "zero_src cs0 (mc_src (cs ! i))" using S(8) [OF s(1)] s(2) by simp
      then show ?thesis using i by (auto simp: zero_src_def)
    qed
  next
    case False
    then obtain k where "k < length cs0" "mc_src (cs ! i) = mc_src (cs0 ! k)" using S(13) [OF i] by blast
    then show ?thesis using own [of k] by auto
  qed
qed

lemma tails_ok_cong:
  assumes len: "length cs' = length cs" and eq: "\<forall>i < length cs. mc_tail (cs' ! i) = mc_tail (cs ! i) \<and> mc_seq (cs' ! i) = mc_seq (cs ! i)"
    and ok: "tails_ok cs"
  shows "tails_ok cs'"
proof -
  have tail: "tail_at cs' q = tail_at cs q" if "seq_in cs q" for q using eq seq_in_nat [OF that] by blast
  note D = tails_inD [OF tails_okD(1) [OF ok]]
  show ?thesis unfolding tails_ok_def tails_in_def len
  proof (intro conjI allI impI ballI)
    fix q assume q: "seq_in cs q"
    show "-1 \<le> tail_at cs' q" "tail_at cs' q < int (length cs)" using D(1,2) [OF q] tail [OF q] by simp_all
  next
    fix i q assume i: "i < length cs" "q \<in> mc_seq (cs' ! i)"
    then have "q \<in> mc_seq (cs ! i)" using eq by simp
    from D(3-5) [OF i(1) this] show "0 \<le> q" "q < int (length cs)" "tail_at cs' q = int i" using tail [of q] by simp_all
  next
    fix q assume q: "seq_in cs q \<and> 0 \<le> tail_at cs' q"
    then have t: "tail_at cs' q = tail_at cs q" "0 \<le> tail_at cs q" "seq_in cs q" using tail [of q] by simp_all
    then have "nat (tail_at cs q) < length cs" using D(2) [OF t(3)] by linarith
    then show "q \<in> mc_seq (cs' ! nat (tail_at cs' q))" using tails_okD(2) [OF ok t(3,2)] eq t(1) by simp
  qed
qed

lemma staged_slot_ok:
  assumes c0: "cells_ok cs0" and sl: "slot_cells cs0 ub n h b cs" and st: "staged cs h b z cs'"
    and ub: "\<forall>s < n. 0 \<le> last_pos ub s \<and> fs_seqs ub s \<noteq> []"
  shows "cells_ok cs'"
proof -
  note S = slot_cellsD [OF sl] and T = stagedD [OF st]
  have len: "length cs' = length cs0" using st S(1) by (simp add: staged_def)
  have "(mc_seq (cs' ! i) = {} \<longrightarrow> mc_pos (cs' ! i) = -1 \<and> (mc_src (cs' ! i) = -1 \<or> mc_src (cs' ! i) = int i)) \<and>
     (mc_seq (cs' ! i) \<noteq> {} \<longrightarrow> 0 \<le> mc_pos (cs' ! i) \<and> mc_src (cs' ! i) = int i)" if i: "i < length cs0" for i
  proof (cases "i \<in> {h..<h + n}")
    case True
    then obtain s where s: "s < n" "i = h + s" using slot_index by blast
    then show ?thesis using S(5,6) [OF s(1)] S(1,3) ub T(1,2,4) [of i] i by auto
  next
    case False
    then obtain k where k: "k < length cs0" "mc_pos (cs ! i) = mc_pos (cs0 ! k)" "mc_src (cs ! i) = mc_src (cs0 ! k)"
      "mc_seq (cs ! i) = {} \<longleftrightarrow> mc_seq (cs0 ! k) = {}" "i \<notin> {h..<b} \<Longrightarrow> k = i" using S(13) [OF i] by blast
    then show ?thesis using cells_okD [OF c0 k(1)] T(1,2,4) [of i] i S(1) by (cases "i \<in> {h..<b}") auto
  qed
  moreover have "tails_ok cs'"
    by (rule tails_ok_cong [OF _ _ S(2)]) (use T(2,3) len S(1) in auto)
  ultimately show ?thesis unfolding cells_ok_def len by blast
qed

text \<open>
  A ubatch for the recurrent memory: as many new tokens for each of its sequence sets, which are
  disjoint.
\<close>

definition rub_ok :: "nat \<Rightarrow> llama_ubatch \<Rightarrow> bool" where
  "rub_ok N ub \<longleftrightarrow> equal_seqs ub \<and> 0 < ub_n_seqs ub \<and>
     (\<forall>s < ub_n_seqs ub. fs_seqs ub s \<noteq> [] \<and> distinct (fs_seqs ub s) \<and> 0 \<le> last_pos ub s \<and>
        (\<forall>q \<in> set (fs_seqs ub s). 0 \<le> q \<and> q < int N)) \<and>
     (\<forall>s < ub_n_seqs ub. \<forall>s' < ub_n_seqs ub. s \<noteq> s' \<longrightarrow> set (fs_seqs ub s) \<inter> set (fs_seqs ub s') = {})"

lemma rub_okD:
  assumes "rub_ok N ub"
  shows "equal_seqs ub" "0 < ub_n_seqs ub" "s < ub_n_seqs ub \<Longrightarrow> fs_seqs ub s \<noteq> []" "s < ub_n_seqs ub \<Longrightarrow> distinct (fs_seqs ub s)"
    "s < ub_n_seqs ub \<Longrightarrow> 0 \<le> last_pos ub s" "s < ub_n_seqs ub \<Longrightarrow> q \<in> set (fs_seqs ub s) \<Longrightarrow> 0 \<le> q \<and> q < int N"
    "\<forall>s < ub_n_seqs ub. \<forall>s' < ub_n_seqs ub. s \<noteq> s' \<longrightarrow> set (fs_seqs ub s) \<inter> set (fs_seqs ub s') = {}"
  using assms unfolding rub_ok_def by blast+

lemma rub_lead:
  assumes "rub_ok N ub" "s < ub_n_seqs ub"
  shows "fs_lead ub s = fs_seqs ub s ! 0" "fs_lead ub s \<in> set (fs_seqs ub s)"
proof -
  have "0 < ub_n_seq_id ub ! fs_first ub s" using rub_okD(3) [OF assms] by (simp add: fs_seqs_def)
  then show eq: "fs_lead ub s = fs_seqs ub s ! 0" by (simp add: fs_seqs_def fs_lead_def)
  show "fs_lead ub s \<in> set (fs_seqs ub s)" unfolding eq using rub_okD(3) [OF assms] by simp
qed

lemma rub_lead_inj: "rub_ok N ub \<Longrightarrow> inj_on (fs_lead ub) {..<ub_n_seqs ub}"
  using rub_lead(2) rub_okD(7) by (intro inj_onI) (metis IntI empty_iff lessThan_iff)

definition fs_pairs :: "llama_ubatch \<Rightarrow> (nat \<times> llama_seq_id) list" where
  "fs_pairs ub = concat (map (\<lambda>s. enumerate 0 (fs_seqs ub s)) [0..<ub_n_seqs ub])"

lemma set_fs_pairs: "set (fs_pairs ub) = {(j, fs_seqs ub s ! j) | s j. s < ub_n_seqs ub \<and> j < length (fs_seqs ub s)}"
  unfolding fs_pairs_def by (auto simp: in_set_enumerate_eq)

lemma shared_seqs:
  assumes "rub_ok N ub"
  shows "set (map snd (filter (\<lambda>x. 0 < fst x) (fs_pairs ub))) = batch_seqs ub (ub_n_seqs ub) - fs_lead ub ` {..<ub_n_seqs ub}"
proof (intro set_eqI iffI)
  fix q assume "q \<in> set (map snd (filter (\<lambda>x. 0 < fst x) (fs_pairs ub)))"
  then obtain s j where q: "s < ub_n_seqs ub" "j < length (fs_seqs ub s)" "0 < j" "q = fs_seqs ub s ! j"
    by (auto simp: set_fs_pairs)
  have "q \<noteq> fs_lead ub s'" if s': "s' < ub_n_seqs ub" for s'
  proof (cases "s' = s")
    case True
    have "fs_seqs ub s ! j \<noteq> fs_seqs ub s ! 0" using rub_okD(4) [OF assms q(1)] q(2,3) by (subst nth_eq_iff_index_eq) auto
    then show ?thesis using rub_lead(1) [OF assms q(1)] q(4) True by simp
  next
    case False
    then show ?thesis using rub_okD(7) [OF assms] rub_lead(2) [OF assms s'] q s' by (metis IntI empty_iff nth_mem)
  qed
  then show "q \<in> batch_seqs ub (ub_n_seqs ub) - fs_lead ub ` {..<ub_n_seqs ub}"
    using q by (auto simp: batch_seqs_def intro!: bexI [of _ s])
next
  fix q assume "q \<in> batch_seqs ub (ub_n_seqs ub) - fs_lead ub ` {..<ub_n_seqs ub}"
  then obtain s where s: "s < ub_n_seqs ub" "q \<in> set (fs_seqs ub s)" "q \<noteq> fs_lead ub s" by (auto simp: batch_seqs_def)
  then obtain j where j: "j < length (fs_seqs ub s)" "q = fs_seqs ub s ! j" by (auto simp: in_set_conv_nth)
  then have "0 < j" using s(3) rub_lead(1) [OF assms s(1)] by (metis gr0I)
  moreover have "(j, q) \<in> set (fs_pairs ub)" using s(1) j unfolding set_fs_pairs by blast
  ultimately have "(j, q) \<in> set (filter (\<lambda>x. 0 < fst x) (fs_pairs ub))" by simp
  then show "q \<in> set (map snd (filter (\<lambda>x. 0 < fst x) (fs_pairs ub)))" by force
qed

text \<open>What is known of the memory after a slot was found for a ubatch.\<close>

definition slot_found :: "llama_ubatch \<Rightarrow> mem_recr \<Rightarrow> mem_recr \<Rightarrow> bool" where
  "slot_found ub m m' \<longleftrightarrow> (let cs = mr_cells m; cs' = mr_cells m'; h = mr_head m'; n = ub_n_seqs ub; b = h + mr_n m'; z = mr_rs_z m' in
     length cs' = length cs \<and> mr_rs_idx m' = mr_rs_idx m \<and> mr_n_rs_seq m' = mr_n_rs_seq m \<and> mr_n_seq_max m' = mr_n_seq_max m \<and>
     n \<le> mr_n m' \<and> b \<le> length cs \<and> z < int (length cs) \<and>
     (\<forall>s < n. mc_pos (cs' ! (h + s)) = last_pos ub s \<and> mc_seq (cs' ! (h + s)) = set (fs_seqs ub s)) \<and>
     (\<forall>s < n. (0 \<le> tail_at cs (fs_lead ub s) \<longrightarrow> mc_src0 (cs' ! (h + s)) = tail_at cs (fs_lead ub s)) \<and>
        (tail_at cs (fs_lead ub s) < 0 \<longrightarrow> fresh_row cs z (mc_src0 (cs' ! (h + s))))) \<and>
     (\<forall>q. seq_in cs q \<and> q \<notin> batch_seqs ub n \<longrightarrow> (0 \<le> tail_at cs' q \<longleftrightarrow> 0 \<le> tail_at cs q) \<and> lpos cs' q = lpos cs q \<and>
        (0 \<le> tail_at cs' q \<longrightarrow> nat (tail_at cs' q) \<notin> {h..<h + n} \<and>
           (if nat (tail_at cs' q) \<in> {h..<b} then mc_src0 (cs' ! nat (tail_at cs' q)) = tail_at cs q else tail_at cs' q = tail_at cs q))) \<and>
     (\<forall>q. seq_in cs q \<and> (q \<in> fs_lead ub ` {..<n} \<or> q \<notin> batch_seqs ub n) \<and> 0 \<le> tail_at cs q \<longrightarrow> tail_at cs q \<noteq> z) \<and>
     (\<forall>i < length cs. mc_seq (cs' ! i) = {} \<longrightarrow> (if i \<in> {h..<b} then fresh_row cs z (mc_src0 (cs' ! i))
        else mc_src (cs' ! i) = -1 \<or> (mc_src (cs' ! i) = mc_src (cs ! i) \<and> mc_seq (cs ! i) = {}))))"

lemma fresh_rel:
  assumes "cells_ok cs" "\<forall>q \<in> set js. seq_in cs q" "zero_src (fold rel_cells js cs) x" "x = -1 \<Longrightarrow> 0 \<le> z"
  shows "fresh_row cs z (if x < 0 then z else x)"
proof (cases "x = -1")
  case False
  note R = rel_all_spec [OF assms(1,2)]
  obtain k where k: "k < length cs" "x = int k" "mc_seq (fold rel_cells js cs ! k) = {}" "mc_src (fold rel_cells js cs ! k) = int k"
    using assms(3) False R unfolding zero_src_def by auto
  then have "mc_src (cs ! k) = int k" "mc_seq (cs ! k) = {}" using R by fastforce+
  then show ?thesis using k by (auto simp: fresh_row_def)
qed (use assms(4) in \<open>simp add: fresh_row_def\<close>)

text \<open>The stages of one run.\<close>

definition slot_run :: "mem_cell list \<Rightarrow> llama_ubatch \<Rightarrow> llama_seq_id list \<Rightarrow> nat \<Rightarrow> nat \<Rightarrow> nat \<Rightarrow> int \<Rightarrow> mem_cell list \<Rightarrow> mem_cell list \<Rightarrow> bool" where
  "slot_run cs ub js n h b z cs1 cs2 \<longleftrightarrow> cells_ok cs \<and> (\<forall>q \<in> set js. seq_in cs q) \<and> set js = batch_seqs ub n - fs_lead ub ` {..<n} \<and>
     (\<forall>s < n. seq_in cs (fs_lead ub s)) \<and> slot_cells (fold rel_cells js cs) ub n h b cs1 \<and> staged cs1 h b z cs2 \<and> cells_ok cs2 \<and>
     (\<forall>s < n. fs_seqs ub s \<noteq> [])"

lemma run_lead:
  assumes run: "slot_run cs ub js n h b z cs1 cs2" and s: "s < n"
  shows "0 \<le> tail_at cs (fs_lead ub s) \<Longrightarrow> mc_src (cs1 ! (h + s)) = tail_at cs (fs_lead ub s)"
    "0 \<le> tail_at cs (fs_lead ub s) \<Longrightarrow> mc_src0 (cs2 ! (h + s)) = tail_at cs (fs_lead ub s)"
    "tail_at cs (fs_lead ub s) < 0 \<Longrightarrow> fresh_row cs z (mc_src0 (cs2 ! (h + s)))" "h + s < length cs"
proof -
  let ?cs0 = "fold rel_cells js cs" and ?q = "fs_lead ub s"
  have ok: "cells_ok cs" "\<forall>q \<in> set js. seq_in cs q" and sl: "slot_cells ?cs0 ub n h b cs1" and st: "staged cs1 h b z cs2"
    and q: "seq_in cs ?q" "?q \<notin> set js" using run s by (auto simp: slot_run_def)
  note R = rel_all_spec [OF ok] and S = slot_cellsD [OF sl]
  have len: "length ?cs0 = length cs" "length cs1 = length cs" using R S(1) by simp_all
  have t: "tail_at ?cs0 ?q = tail_at cs ?q" using R q by auto
  show i: "h + s < length cs" using S(3,4) s len by linarith
  have in_b: "h \<le> h + s" "h + s < b" using S(3) s by simp_all
  note T = stagedD [OF st, of "h + s", unfolded len, OF i]
  have "lsrc ?cs0 ?q = tail_at ?cs0 ?q" if "0 \<le> tail_at cs ?q"
    using cells_ok_views(1) [of ?cs0 ?q] R that t q(1) by simp
  then show src: "0 \<le> tail_at cs ?q \<Longrightarrow> mc_src (cs1 ! (h + s)) = tail_at cs ?q" using S(7) [OF s] t by simp
  then show "0 \<le> tail_at cs ?q \<Longrightarrow> mc_src0 (cs2 ! (h + s)) = tail_at cs ?q" using T(5) [OF in_b] by simp
  show "fresh_row cs z (mc_src0 (cs2 ! (h + s)))" if "tail_at cs ?q < 0"
    using fresh_rel [OF ok, of "mc_src (cs1 ! (h + s))" z] S(8) [OF s] that t T(5,6) [OF in_b] by simp
qed

lemma run_other:
  assumes run: "slot_run cs ub js n h b z cs1 cs2" and q: "seq_in cs q" "q \<notin> batch_seqs ub n"
  shows "0 \<le> tail_at cs2 q \<longleftrightarrow> 0 \<le> tail_at cs q" "lpos cs2 q = lpos cs q"
    "0 \<le> tail_at cs2 q \<Longrightarrow> nat (tail_at cs2 q) \<notin> {h..<h + n}"
    "0 \<le> tail_at cs2 q \<Longrightarrow> nat (tail_at cs2 q) \<in> {h..<b} \<Longrightarrow> mc_src0 (cs2 ! nat (tail_at cs2 q)) = tail_at cs q"
    "0 \<le> tail_at cs2 q \<Longrightarrow> nat (tail_at cs2 q) \<notin> {h..<b} \<Longrightarrow> tail_at cs2 q = tail_at cs q"
    "0 \<le> tail_at cs q \<Longrightarrow> \<exists>i < length cs. mc_src (cs1 ! i) = tail_at cs q"
proof -
  let ?cs0 = "fold rel_cells js cs"
  have ok: "cells_ok cs" "\<forall>q \<in> set js. seq_in cs q" and sl: "slot_cells ?cs0 ub n h b cs1" and st: "staged cs1 h b z cs2"
    and ok2: "cells_ok cs2" and nj: "q \<notin> set js" using run q by (auto simp: slot_run_def)
  note R = rel_all_spec [OF ok] and S = slot_cellsD [OF sl]
  have len: "length ?cs0 = length cs" "length cs1 = length cs" "length cs2 = length cs"
    using R S(1) st by (simp_all add: staged_def)
  note T = stagedD [OF st, unfolded len]
  have q0: "seq_in ?cs0 q" using q(1) len by simp
  have t0: "tail_at ?cs0 q = tail_at cs q" "lpos ?cs0 q = lpos cs q" using R q(1) nj by auto
  have t1: "tail_at cs2 q = tail_at cs1 q" using T(3) [OF seq_in_nat [OF q(1)]] .
  have l1: "0 \<le> tail_at cs1 q \<longleftrightarrow> 0 \<le> tail_at cs q" using S(9) [OF q0 q(2)] t0(1) by simp
  have idx: "nat (tail_at cs1 q) < length cs" if "0 \<le> tail_at cs1 q"
    using tails_inD(2) [OF tails_okD(1) [OF S(2)], of q] that q(1) len by simp
  show "0 \<le> tail_at cs2 q \<longleftrightarrow> 0 \<le> tail_at cs q" using t1 l1 by simp
  have "lpos cs2 q = lpos cs1 q" unfolding lpos_def t1 using T(1) [OF idx] by simp
  then show "lpos cs2 q = lpos cs q" using S(10) [OF q0 q(2)] t0(2) by simp
  show "0 \<le> tail_at cs2 q \<Longrightarrow> nat (tail_at cs2 q) \<notin> {h..<h + n}" unfolding t1 by (rule S(12) [OF q0 q(2)])
  have src: "mc_src (cs1 ! nat (tail_at cs1 q)) = tail_at cs q" if "0 \<le> tail_at cs1 q"
  proof -
    have "lsrc ?cs0 q = tail_at ?cs0 q" using cells_ok_views(1) [of ?cs0 q] R q0 that l1 t0(1) by simp
    then show ?thesis using S(11) [OF q0 q(2)] t0(1) that by (simp add: lsrc_def)
  qed
  show "0 \<le> tail_at cs2 q \<Longrightarrow> nat (tail_at cs2 q) \<in> {h..<b} \<Longrightarrow> mc_src0 (cs2 ! nat (tail_at cs2 q)) = tail_at cs q"
    unfolding t1 using T(5) [OF idx] src l1 by simp
  show "tail_at cs2 q = tail_at cs q" if "0 \<le> tail_at cs2 q" "nat (tail_at cs2 q) \<notin> {h..<b}"
  proof -
    have "lsrc cs2 q = tail_at cs2 q" using cells_ok_views(1) [OF ok2 _ that(1)] q(1) len by simp
    moreover have "lsrc cs2 q = mc_src (cs1 ! nat (tail_at cs1 q))"
      using that T(4) [OF idx] unfolding lsrc_def t1 by auto
    ultimately show ?thesis using src that(1) t1 by simp
  qed
  show "0 \<le> tail_at cs q \<Longrightarrow> \<exists>i < length cs. mc_src (cs1 ! i) = tail_at cs q" using src idx l1 by blast
qed

lemma run_empty:
  assumes run: "slot_run cs ub js n h b z cs1 cs2" and i: "i < length cs" "mc_seq (cs2 ! i) = {}"
  shows "i \<in> {h..<b} \<Longrightarrow> fresh_row cs z (mc_src0 (cs2 ! i))"
    "i \<notin> {h..<b} \<Longrightarrow> mc_src (cs2 ! i) = -1 \<or> (mc_src (cs2 ! i) = mc_src (cs ! i) \<and> mc_seq (cs ! i) = {})"
proof -
  let ?cs0 = "fold rel_cells js cs"
  have ok: "cells_ok cs" "\<forall>q \<in> set js. seq_in cs q" and sl: "slot_cells ?cs0 ub n h b cs1" and st: "staged cs1 h b z cs2"
    and ne: "\<forall>s < n. fs_seqs ub s \<noteq> []" using run by (auto simp: slot_run_def)
  note R = rel_all_spec [OF ok] and S = slot_cellsD [OF sl]
  have len: "length ?cs0 = length cs" "length cs1 = length cs" using R S(1) by simp_all
  note T = stagedD [OF st, unfolded len, OF i(1)]
  have e1: "mc_seq (cs1 ! i) = {}" using i(2) T(2) by simp
  have "i \<notin> {h..<h + n}" using slot_index [of i h n] S(6) ne e1 by fastforce
  then obtain k where k: "k < length cs" "mc_src (cs1 ! i) = mc_src (?cs0 ! k)" "mc_seq (?cs0 ! k) = {}" "i \<notin> {h..<b} \<Longrightarrow> k = i"
    using S(13) [of i] i(1) len e1 by auto
  have "zero_src ?cs0 (mc_src (cs1 ! i))"
    using cells_okD(2) [of ?cs0 k] R k len by (auto simp: zero_src_def)
  then show "i \<in> {h..<b} \<Longrightarrow> fresh_row cs z (mc_src0 (cs2 ! i))"
    using fresh_rel [OF ok] T(5,6) by simp
  show "i \<notin> {h..<b} \<Longrightarrow> mc_src (cs2 ! i) = -1 \<or> (mc_src (cs2 ! i) = mc_src (cs ! i) \<and> mc_seq (cs ! i) = {})"
    using T(4) k R i(1) by auto
qed

text \<open>The stages run one after the other without failing.\<close>

lemma stages_run:
  assumes ok: "cells_ok cs" and ub: "rub_ok (length cs) ub" and n: "n = ub_n_seqs ub"
    and js: "set js = batch_seqs ub n - fs_lead ub ` {..<n}" and h0: "h0 < length cs"
  shows "\<exists>cs1 nx mn mx cs2 cs3 cs4.
    ofold (fs_own ub) [0..<n] (fold rel_cells js cs, first_empty (fold rel_cells js cs) (length cs) h0, int (length cs) - 1, 0) = Some (cs1, nx, mn, mx) \<and>
    ofold (fs_gather ub mn) [0..<n] cs1 = Some cs2 \<and> ofold (fs_fill ub mn) [0..<n] cs2 = Some cs3 \<and>
    (\<forall>c \<in> set cs3. mc_src c < int (length cs)) \<and>
    ofold (fs_stage (fs_rs_z cs3 (nat mn) (nat mx))) [nat mn..<nat (mx + 1)] cs3 = Some cs4 \<and>
    0 \<le> mn \<and> mn \<le> mx \<and> slot_run cs ub js n (nat mn) (nat (mx + 1)) (fs_rs_z cs3 (nat mn) (nat mx)) cs3 cs4"
proof -
  let ?cs0 = "fold rel_cells js cs" and ?P = "fs_lead ub ` {..<n}"
  note U = rub_okD [OF ub, folded n] and L = rub_lead [OF ub, folded n]
  have n0: "0 < n" using U(2) .
  have batch: "\<forall>q \<in> batch_seqs ub n. seq_in cs q" using U(6) by (auto simp: batch_seqs_def)
  have lead_in: "?P \<subseteq> batch_seqs ub n" using L(2) by (auto simp: batch_seqs_def)
  have jin: "\<forall>q \<in> set js. seq_in cs q" using js batch by blast
  note R = rel_all_spec [OF ok jin]
  have ok0: "cells_ok ?cs0" and len0: "length ?cs0 = length cs" using R by blast+
  have leads: "\<forall>s < n. seq_in ?cs0 (fs_lead ub s)" using batch lead_in len0 by auto
  have inj: "inj_on (fs_lead ub) {..<n}" using rub_lead_inj [OF ub] n by simp
  obtain cs1 nx mn mx where C: "ofold (fs_own ub) [0..<n] (?cs0, first_empty ?cs0 (length cs) h0, int (length cs) - 1, 0) = Some (cs1, nx, mn, mx)"
    "own_cells ?cs0 ?P cs1" "0 \<le> mn" "mx < int (length cs)" "\<forall>s < n. mn \<le> tail_at cs1 (fs_lead ub s) \<and> tail_at cs1 (fs_lead ub s) \<le> mx"
    using fs_own_loop [OF ok0 leads [unfolded n] inj [unfolded n], of h0] h0 unfolding len0 n by blast
  note O = own_cellsD [OF C(2)]
  have leads1: "\<forall>s < n. seq_in cs1 (fs_lead ub s)" using leads O(1) by simp
  have rng: "\<forall>s < n. tail_at cs1 (fs_lead ub s) \<in> {mn..mx}" using C(5) by simp
  have "inj_on (\<lambda>s. tail_at cs1 (fs_lead ub s)) {..<n}"
    using O(7) leads1 inj by (intro inj_onI) (metis imageI inj_onD lessThan_iff)
  from fs_gather_loop [OF O(2) leads1 C(3) _ rng this] C(4) O(1) len0
  obtain cs2 where D: "ofold (fs_gather ub mn) [0..<n] cs1 = Some cs2" "gathered cs1 ub mn mx n cs2" by auto
  obtain h where h: "mn = int h" using C(3) by (metis nonneg_int_cases)
  have mnx: "mn \<le> mx" using C(5) n0 by (meson order_trans)
  have tg: "together ?cs0 ub n h (nat (mx + 1)) cs2"
    using gathered_together [OF C(2) _ leads n0 _ rng [unfolded h]] D(2) C(4) len0 h by simp
  note G = togetherD [OF tg]
  have "\<forall>s < n. \<forall>q \<in> set (fs_seqs ub s). seq_in cs2 q" using batch G(1) len0 by (auto simp: batch_seqs_def)
  from fs_fill_loop [OF h _ this U(7)] G(1,3,4)
  obtain cs3 where E: "ofold (fs_fill ub mn) [0..<n] cs2 = Some cs3" "filled cs2 ub h n cs3" by auto
  have "\<forall>q \<in> batch_seqs ub n - ?P. tail_at ?cs0 q < 0" using R js batch by auto
  then have sl: "slot_cells ?cs0 ub n h (nat (mx + 1)) cs3"
    using filled_slot [OF tg E(2) _ lead_in] batch len0 by simp
  note S = slot_cellsD [OF sl]
  have src: "\<forall>c \<in> set cs3. mc_src c < int (length cs)"
    using slot_srcs(1) [OF ok0 sl leads] S(1) len0 by (metis in_set_conv_nth)
  have "\<forall>i < length cs3. \<not> (h \<le> i \<and> i < nat (mx + 1)) \<longrightarrow> mc_src (cs3 ! i) \<notin> int ` {h..<nat (mx + 1)}"
    using slot_srcs(2) [OF ok0 sl leads] S(1) by fastforce
  moreover have "nat (mx + 1) \<le> length cs3" "h < nat (mx + 1)" using S(1,4) mnx h by simp_all
  ultimately obtain cs4 where F: "ofold (fs_stage (fs_rs_z cs3 h (nat (mx + 1) - 1))) [h..<nat (mx + 1)] cs3 = Some cs4"
    "staged cs3 h (nat (mx + 1)) (fs_rs_z cs3 h (nat (mx + 1) - 1)) cs4"
    using stage_runs [of "nat (mx + 1)" cs3 h] by blast
  have "\<forall>s < n. 0 \<le> last_pos ub s \<and> fs_seqs ub s \<noteq> []" using U(3,5) by blast
  from staged_slot_ok [OF ok0 sl F(2) this] have "cells_ok cs4" .
  moreover have "nat (mx + 1) - 1 = nat mx" "nat mn = h" using mnx h by simp_all
  ultimately have "slot_run cs ub js n (nat mn) (nat (mx + 1)) (fs_rs_z cs3 (nat mn) (nat mx)) cs3 cs4"
    using ok jin js batch lead_in sl F(2) U(3) by (auto simp: slot_run_def)
  then show ?thesis using C(1,3) D(1) E(1) src F(1) mnx \<open>nat (mx + 1) - 1 = nat mx\<close> \<open>nat mn = h\<close> by metis
qed

lemma slot_run_found:
  assumes run: "slot_run (mr_cells m) ub js (ub_n_seqs ub) h b z cs1 cs2"
  shows "slot_found ub m (m\<lparr>mr_cells := cs2, mr_rs_z := z, mr_head := h, mr_n := b - h, mr_used := u\<rparr>)"
proof -
  let ?cs = "mr_cells m" and ?n = "ub_n_seqs ub"
  have ok: "cells_ok ?cs" "\<forall>q \<in> set js. seq_in ?cs q" and sl: "slot_cells (fold rel_cells js ?cs) ub ?n h b cs1" and st: "staged cs1 h b z cs2"
    and js: "set js = batch_seqs ub ?n - fs_lead ub ` {..<?n}"
    using run by (auto simp: slot_run_def)
  note S = slot_cellsD [OF sl]
  have len: "length cs1 = length ?cs" "length cs2 = length ?cs" "length (fold rel_cells js ?cs) = length ?cs"
    using rel_all_spec [OF ok] S(1) st by (simp_all add: staged_def)
  note T = stagedD [OF st, unfolded len]
  have z: "z < int (length ?cs)" using st len by (simp add: staged_def)
  have cell: "mc_pos (cs2 ! (h + s)) = last_pos ub s" "mc_seq (cs2 ! (h + s)) = set (fs_seqs ub s)" if "s < ?n" for s
    using T(1,2) [OF run_lead(4) [OF run that]] S(5,6) [OF that] by simp_all
  have nz: "tail_at ?cs q \<noteq> z" if q: "seq_in ?cs q" "q \<in> fs_lead ub ` {..<?n} \<or> q \<notin> batch_seqs ub ?n" "0 \<le> tail_at ?cs q" for q
  proof -
    have "\<exists>i < length ?cs. mc_src (cs1 ! i) = tail_at ?cs q"
      using run_lead(1,4) [OF run] run_other(6) [OF run q(1)] q by blast
    then show ?thesis using T(7) q(3) by metis
  qed
  show ?thesis unfolding slot_found_def Let_def
    using len(2) S(3,4) len(3) z cell run_lead(2,3) [OF run] run_other(1-5) [OF run] nz run_empty [OF run]
    by simp
qed

lemma find_slot_found:
  assumes inv: "recr_inv m" and ub: "rub_ok (mr_size m) ub"
  shows "\<exists>m'. recr_find_slot ub m = Some (True, m') \<and> recr_inv m' \<and> slot_found ub m m'"
proof -
  let ?n = "ub_n_seqs ub" and ?cs = "mr_cells m"
  let ?js = "map snd (filter (\<lambda>x. 0 < fst x) (fs_pairs ub))" and ?h0 = "if int (mr_head m) > mr_used m + 2 * int ?n then 0 else mr_head m"
  let ?m1 = "m\<lparr>mr_head := ?h0\<rparr>"
  have m1: "(if int (mr_head m) > mr_used m + 2 * int ?n then m\<lparr>mr_head := 0\<rparr> else m) = ?m1" by simp
  have inv1: "recr_inv ?m1" and h0: "?h0 < length ?cs" and ok: "cells_ok ?cs"
    using inv by (auto simp: recr_inv_def mr_size_def)
  have ub': "rub_ok (length ?cs) ub" using ub by (simp add: mr_size_def)
  have "seq_in ?cs (snd x)" if "x \<in> set (fs_pairs ub)" for x
    using that rub_okD(6) [OF ub'] by (fastforce simp: set_fs_pairs)
  then have "\<forall>x \<in> set (fs_pairs ub). seq_in (mr_cells ?m1) (snd x)" by simp
  from fs_check_spec [OF inv1 this] obtain u where chk:
    "fs_check (fs_pairs ub) ?m1 = Some (True, ?m1\<lparr>mr_cells := fold rel_cells ?js ?cs, mr_used := u\<rparr>)" by auto
  have "\<forall>q \<in> set ?js. seq_in ?cs q" using shared_seqs [OF ub'] rub_okD(6) [OF ub'] by (auto simp: batch_seqs_def)
  then have len0: "length (fold rel_cells ?js ?cs) = length ?cs" using rel_all_spec [OF ok] by blast
  obtain cs1 nx mn mx cs2 cs3 cs4 where
    R: "ofold (fs_own ub) [0..<?n] (fold rel_cells ?js ?cs, first_empty (fold rel_cells ?js ?cs) (length ?cs) ?h0, int (length ?cs) - 1, 0) = Some (cs1, nx, mn, mx)"
    "ofold (fs_gather ub mn) [0..<?n] cs1 = Some cs2" "ofold (fs_fill ub mn) [0..<?n] cs2 = Some cs3"
    "\<forall>c \<in> set cs3. mc_src c < int (length ?cs)"
    "ofold (fs_stage (fs_rs_z cs3 (nat mn) (nat mx))) [nat mn..<nat (mx + 1)] cs3 = Some cs4"
    "0 \<le> mn" "mn \<le> mx" "slot_run ?cs ub ?js ?n (nat mn) (nat (mx + 1)) (fs_rs_z cs3 (nat mn) (nat mx)) cs3 cs4"
    using stages_run [OF ok ub' refl shared_seqs [OF ub'] h0] by blast
  let ?m' = "m\<lparr>mr_cells := cs4, mr_rs_z := fs_rs_z cs3 (nat mn) (nat mx), mr_head := nat mn, mr_n := nat (mx + 1) - nat mn, mr_used := int (n_full cs4)\<rparr>"
  have found: "slot_found ub m ?m'" by (rule slot_run_found [OF R(8)])
  have n: "nat (mx - mn + 1) = nat (mx + 1) - nat mn" using R(6,7) by simp
  have enough: "?n \<le> nat (mx + 1) - nat mn" using found by (simp add: slot_found_def Let_def)
  have "recr_find_slot ub m = Some (True, ?m')"
    unfolding recr_find_slot_def Let_def m1 fs_pairs_def [symmetric] using rub_okD(1) [OF ub] chk R(1-5) enough
    by (simp add: mr_size_def len0 n n_full_def)
  moreover have "recr_inv ?m'"
  proof -
    have "cells_ok cs4" using R(8) by (simp add: slot_run_def)
    moreover have "length cs4 = length ?cs" "nat mn < length ?cs"
      using found rub_okD(2) [OF ub] by (auto simp: slot_found_def Let_def)
    ultimately show ?thesis using inv by (simp add: recr_inv_def mr_size_def)
  qed
  ultimately show ?thesis using found by blast
qed

end
