(* ===== verification/RecurrentState.thy ===== *)
theory RecurrentState
  imports RecurrentFound
begin

section \<open>The states of the recurrent memory\<close>

subsection \<open>Positions\<close>

lemma filter_single:
  assumes "i < length xs" "P (xs ! i)" "\<forall>j < length xs. j \<noteq> i \<longrightarrow> \<not> P (xs ! j)"
  shows "filter P xs = [xs ! i]"
proof -
  have "filter P (take i xs) = []" using assms by (auto simp: filter_empty_conv in_set_conv_nth)
  moreover have "filter P (drop (Suc i) xs) = []" using assms by (auto simp: filter_empty_conv in_set_conv_nth)
  ultimately show ?thesis using assms(1,2) by (subst id_take_nth_drop [OF assms(1)]) simp
qed

lemma fold_filter: "fold (\<lambda>c r. if P c then g c r else r) cs r = fold g (filter P cs) r"
  by (induction cs arbitrary: r) simp_all

lemma cells_of_seq:
  assumes "tails_ok cs" "seq_in cs q"
  shows "filter (has_seq_id q) cs = (if tail_at cs q < 0 then [] else [cs ! nat (tail_at cs q)])"
proof (cases "tail_at cs q < 0")
  case True
  then have "\<not> has_seq_id q (cs ! i)" if "i < length cs" for i
    using tails_ok_iff [OF assms that] by (simp add: has_seq_id_def)
  then show ?thesis using True by (auto simp: filter_empty_conv in_set_conv_nth)
next
  case False
  then have i: "nat (tail_at cs q) < length cs" using tails_inD(2) [OF tails_okD(1) [OF assms(1)] assms(2)] by linarith
  have "filter (has_seq_id q) cs = [cs ! nat (tail_at cs q)]"
  proof (rule filter_single [OF i])
    show "has_seq_id q (cs ! nat (tail_at cs q))" using tails_okD(2) [OF assms] False by (simp add: has_seq_id_def)
    show "\<forall>j < length cs. j \<noteq> nat (tail_at cs q) \<longrightarrow> \<not> has_seq_id q (cs ! j)"
      using tails_ok_iff [OF assms] by (auto simp: has_seq_id_def)
  qed
  then show ?thesis using False by simp
qed

lemma recr_pos:
  assumes "cells_ok (mr_cells m)" "seq_in (mr_cells m) q"
  shows "recr_seq_pos_max q m = lpos (mr_cells m) q"
    "lpos (mr_cells m) q < INT32_MAX \<Longrightarrow> recr_seq_pos_min q m = lpos (mr_cells m) q"
proof -
  have t: "tails_ok (mr_cells m)" using assms(1) by (simp add: cells_ok_def)
  note C = cells_of_seq [OF t assms(2)]
  have pos: "0 \<le> lpos (mr_cells m) q" if "\<not> tail_at (mr_cells m) q < 0" using cells_ok_views(2) [OF assms] that by simp
  show "recr_seq_pos_max q m = lpos (mr_cells m) q"
    unfolding recr_seq_pos_max_def fold_filter C using pos by (auto simp: lpos_def)
  show "lpos (mr_cells m) q < INT32_MAX \<Longrightarrow> recr_seq_pos_min q m = lpos (mr_cells m) q"
    unfolding recr_seq_pos_min_def fold_filter C using pos by (auto simp: lpos_def INT32_MAX_def)
qed

subsection \<open>The rows\<close>

text \<open>The state of a sequence is the row of its cell, or the initial state.\<close>

definition recr_state :: "'st \<Rightarrow> mem_recr \<Rightarrow> 'st list \<Rightarrow> llama_seq_id \<Rightarrow> 'st" where
  "recr_state zero m rows q = (if lsrc (mr_cells m) q < 0 then zero else rows ! nat (lsrc (mr_cells m) q))"

text \<open>The row of an empty cell that has one holds the initial state.\<close>

definition rows_ok :: "'st \<Rightarrow> mem_recr \<Rightarrow> 'st list \<Rightarrow> bool" where
  "rows_ok zero m rows \<longleftrightarrow> length rows = mr_size m \<and>
     (\<forall>i < mr_size m. mc_seq (mr_cells m ! i) = {} \<and> 0 \<le> mc_src (mr_cells m ! i) \<longrightarrow> rows ! i = zero)"

lemma recr_state_tail:
  assumes "cells_ok (mr_cells m)" "seq_in (mr_cells m) q"
  shows "recr_state zero m rows q = (if tail_at (mr_cells m) q < 0 then zero else rows ! nat (tail_at (mr_cells m) q))"
proof (cases "tail_at (mr_cells m) q < 0")
  case True
  then show ?thesis by (simp add: recr_state_def lsrc_def)
next
  case False
  then show ?thesis using cells_ok_views(1) [OF assms] by (simp add: recr_state_def)
qed

lemma put_rows_nth:
  assumes "a + length xs \<le> length rows"
  shows "\<exists>r. put_rows a xs rows = Some r \<and> length r = length rows \<and>
    (\<forall>i < length rows. r ! i = (if a \<le> i \<and> i < a + length xs then xs ! (i - a) else rows ! i))"
  using assms by (auto simp: put_rows_def nth_append min_def)

lemma rs_set_input_plain:
  assumes "mr_n_rs_seq m = 0" "mr_head m + mr_n m \<le> mr_size m"
  shows "rs_set_input m = Some (map (\<lambda>i. mc_src0 (mr_cells m ! (mr_head m + i))) [0..<mr_n m], m)"
proof -
  have "ofold (\<lambda>i (out, m). do { (x, m) \<leftarrow> s_copy i m; Some (out @ [x], m) }) [0..<k] ([], m) =
      Some (map (\<lambda>i. mc_src0 (mr_cells m ! (mr_head m + i))) [0..<k], m)" if "k \<le> mr_n m" for k
    using that
  proof (induction k)
    case (Suc k)
    have "k + mr_head m < length (mr_cells m)" using Suc.prems assms(2) by (simp add: mr_size_def)
    then have "s_copy k m = Some (mc_src0 (mr_cells m ! (mr_head m + k)), m)" using assms(1) by (simp add: s_copy_def add.commute)
    then show ?case using Suc by (simp add: ofold_append)
  qed simp
  then show ?thesis by (simp add: rs_set_input_def)
qed

text \<open>What one pass over the rows does, cell by cell.\<close>

lemma rows_pass:
  fixes zero :: 'st and rows :: "'st list"
  assumes n: "n \<le> nn" "h + nn \<le> length rows" and z: "z < int (length rows)"
    and src: "\<forall>i < nn. 0 \<le> src i \<and> src i < int (length rows)"
  defines "rows1 \<equiv> if 0 \<le> z then rows[nat z := zero] else rows"
  shows "\<exists>states rows2 rows3. build_rs zero (map src [0..<nn]) n h z rows = Some (states, rows2) \<and>
    put_rows h (map (\<lambda>s. f s (states ! s)) [0..<length states]) rows2 = Some rows3 \<and> length rows3 = length rows \<and>
    (\<forall>s < n. rows3 ! (h + s) = f s (rows1 ! nat (src s))) \<and>
    (\<forall>i < nn. n \<le> i \<longrightarrow> rows3 ! (h + i) = rows1 ! nat (src i)) \<and>
    (\<forall>i < length rows. i \<notin> {h..<h + nn} \<longrightarrow> rows3 ! i = rows1 ! i)"
proof -
  let ?row = "\<lambda>i. rows1 ! nat (src i)"
  have len: "length rows1 = length rows" by (simp add: rows1_def)
  have get: "get_rows rows1 (map src js) = Some (map ?row js)" if "set js \<subseteq> {0..<nn}" for js
    using src that len by (auto simp: get_rows_def subset_iff)
  have split: "take n (map src [0..<nn]) = map src [0..<n]" "drop n (map src [0..<nn]) = map src [n..<nn]"
    using n(1) by (simp_all add: take_map drop_map)
  obtain rows2 where r2: "put_rows (h + n) (map ?row [n..<nn]) rows1 = Some rows2" "length rows2 = length rows"
    "\<forall>i < length rows. rows2 ! i = (if h + n \<le> i \<and> i < h + n + (nn - n) then map ?row [n..<nn] ! (i - (h + n)) else rows1 ! i)"
    using put_rows_nth [of "h + n" "map ?row [n..<nn]" rows1] n len by auto
  have "build_rs zero (map src [0..<nn]) n h z rows = Some (map ?row [0..<n], rows2)"
    unfolding build_rs_def rows1_def [symmetric] Let_def split using get [of "[0..<n]"] get [of "[n..<nn]"] n(1) r2(1) by simp
  moreover obtain rows3 where r3: "put_rows h (map (\<lambda>s. f s (map ?row [0..<n] ! s)) [0..<length (map ?row [0..<n])]) rows2 = Some rows3"
    "length rows3 = length rows"
    "\<forall>i < length rows. rows3 ! i = (if h \<le> i \<and> i < h + n then map (\<lambda>s. f s (map ?row [0..<n] ! s)) [0..<n] ! (i - h) else rows2 ! i)"
    using put_rows_nth [of h "map (\<lambda>s. f s (map ?row [0..<n] ! s)) [0..<length (map ?row [0..<n])]" rows2] n r2(2) by auto
  moreover have "rows3 ! (h + s) = f s (?row s)" if "s < n" for s using r3(3) that n by simp
  moreover have "rows3 ! (h + i) = ?row i" if "i < nn" "n \<le> i" for i using r3(3) r2(3) that n by simp
  moreover have "rows3 ! i = rows1 ! i" if "i < length rows" "i \<notin> {h..<h + nn}" for i using r3(3) r2(3) that n by auto
  ultimately show ?thesis by blast
qed

lemma slot_foundD:
  assumes "slot_found ub m m'"
  shows "length (mr_cells m') = length (mr_cells m)" "mr_rs_idx m' = mr_rs_idx m" "mr_n_rs_seq m' = mr_n_rs_seq m"
    "mr_n_seq_max m' = mr_n_seq_max m" "ub_n_seqs ub \<le> mr_n m'" "mr_head m' + mr_n m' \<le> length (mr_cells m)"
    "mr_rs_z m' < int (length (mr_cells m))"
    "s < ub_n_seqs ub \<Longrightarrow> mc_pos (mr_cells m' ! (mr_head m' + s)) = last_pos ub s"
    "s < ub_n_seqs ub \<Longrightarrow> mc_seq (mr_cells m' ! (mr_head m' + s)) = set (fs_seqs ub s)"
    "s < ub_n_seqs ub \<Longrightarrow> 0 \<le> tail_at (mr_cells m) (fs_lead ub s) \<Longrightarrow>
       mc_src0 (mr_cells m' ! (mr_head m' + s)) = tail_at (mr_cells m) (fs_lead ub s)"
    "s < ub_n_seqs ub \<Longrightarrow> tail_at (mr_cells m) (fs_lead ub s) < 0 \<Longrightarrow>
       fresh_row (mr_cells m) (mr_rs_z m') (mc_src0 (mr_cells m' ! (mr_head m' + s)))"
    "seq_in (mr_cells m) q \<Longrightarrow> q \<notin> batch_seqs ub (ub_n_seqs ub) \<Longrightarrow> 0 \<le> tail_at (mr_cells m') q \<longleftrightarrow> 0 \<le> tail_at (mr_cells m) q"
    "seq_in (mr_cells m) q \<Longrightarrow> q \<notin> batch_seqs ub (ub_n_seqs ub) \<Longrightarrow> lpos (mr_cells m') q = lpos (mr_cells m) q"
    "seq_in (mr_cells m) q \<Longrightarrow> q \<notin> batch_seqs ub (ub_n_seqs ub) \<Longrightarrow> 0 \<le> tail_at (mr_cells m') q \<Longrightarrow>
       nat (tail_at (mr_cells m') q) \<notin> {mr_head m'..<mr_head m' + ub_n_seqs ub} \<and>
       (if nat (tail_at (mr_cells m') q) \<in> {mr_head m'..<mr_head m' + mr_n m'}
        then mc_src0 (mr_cells m' ! nat (tail_at (mr_cells m') q)) = tail_at (mr_cells m) q
        else tail_at (mr_cells m') q = tail_at (mr_cells m) q)"
    "seq_in (mr_cells m) q \<Longrightarrow> q \<in> fs_lead ub ` {..<ub_n_seqs ub} \<or> q \<notin> batch_seqs ub (ub_n_seqs ub) \<Longrightarrow>
       0 \<le> tail_at (mr_cells m) q \<Longrightarrow> tail_at (mr_cells m) q \<noteq> mr_rs_z m'"
    "i < length (mr_cells m) \<Longrightarrow> mc_seq (mr_cells m' ! i) = {} \<Longrightarrow> i \<in> {mr_head m'..<mr_head m' + mr_n m'} \<Longrightarrow>
       fresh_row (mr_cells m) (mr_rs_z m') (mc_src0 (mr_cells m' ! i))"
    "i < length (mr_cells m) \<Longrightarrow> mc_seq (mr_cells m' ! i) = {} \<Longrightarrow> i \<notin> {mr_head m'..<mr_head m' + mr_n m'} \<Longrightarrow>
       mc_src (mr_cells m' ! i) = -1 \<or> (mc_src (mr_cells m' ! i) = mc_src (mr_cells m ! i) \<and> mc_seq (mr_cells m ! i) = {})"
  using assms unfolding slot_found_def Let_def if_bool_eq_conj by blast+

text \<open>The rows the slot is read from exist, and hold what they should after one row was zeroed.\<close>

lemma found_srcs:
  assumes inv: "recr_inv m" and inv': "recr_inv m'" and ub: "rub_ok (mr_size m) ub" and sf: "slot_found ub m m'" and i: "i < mr_n m'"
  shows "0 \<le> mc_src0 (mr_cells m' ! (mr_head m' + i))" "mc_src0 (mr_cells m' ! (mr_head m' + i)) < int (mr_size m)"
proof -
  let ?cs = "mr_cells m" and ?cs' = "mr_cells m'" and ?j = "mr_head m' + i" and ?n = "ub_n_seqs ub"
  note S = slot_foundD [OF sf]
  have ok: "cells_ok ?cs" "cells_ok ?cs'" and t': "tails_ok ?cs'" using inv inv' by (simp_all add: recr_inv_def cells_ok_def)
  have j: "?j < length ?cs" using S(6) i by simp
  have fr: "0 \<le> x \<and> x < int (length ?cs)" if "fresh_row ?cs (mr_rs_z m') x" for x
    using that S(7) by (auto simp: fresh_row_def)
  have tl: "tail_at ?cs q < int (length ?cs)" if "seq_in ?cs q" for q
    using tails_inD(2) [OF tails_okD(1) that] ok(1) by (simp add: cells_ok_def)
  have "0 \<le> mc_src0 (?cs' ! ?j) \<and> mc_src0 (?cs' ! ?j) < int (length ?cs)"
  proof (cases "i < ?n")
    case True
    have q: "seq_in ?cs (fs_lead ub i)"
      using rub_okD(6) [OF ub True rub_lead(2) [OF ub True]] by (simp add: mr_size_def)
    show ?thesis using S(10,11) [OF True] fr tl [OF q] by (cases "0 \<le> tail_at ?cs (fs_lead ub i)") simp_all
  next
    case False
    show ?thesis
    proof (cases "mc_seq (?cs' ! ?j) = {}")
      case True
      then show ?thesis using S(16) [OF j True] i fr by simp
    next
      case ne: False
      then obtain q where q: "q \<in> mc_seq (?cs' ! ?j)" by blast
      have j': "?j < length ?cs'" using j S(1) by simp
      note T = tails_inD(3-5) [OF tails_okD(1) [OF t'] j' q]
      have qc: "seq_in ?cs q" using T(1,2) S(1) by simp
      have nb: "q \<notin> batch_seqs ub ?n"
      proof
        assume "q \<in> batch_seqs ub ?n"
        then obtain s where s: "s < ?n" "q \<in> mc_seq (?cs' ! (mr_head m' + s))" using S(9) by (auto simp: batch_seqs_def)
        have "mr_head m' + s < length ?cs'" using s(1) S(1,5,6) by linarith
        from tails_inD(5) [OF tails_okD(1) [OF t'] this s(2)] T(3) False s(1) show False by simp
      qed
      have nt: "nat (tail_at ?cs' q) = ?j" "0 \<le> tail_at ?cs' q" using T(3) by simp_all
      have "0 \<le> tail_at ?cs q" using S(12) [OF qc nb] nt(2) by simp
      moreover have "mc_src0 (?cs' ! ?j) = tail_at ?cs q" using S(14) [OF qc nb nt(2)] i unfolding nt(1) by simp
      ultimately show ?thesis using tl [OF qc] by simp
    qed
  qed
  then show "0 \<le> mc_src0 (?cs' ! ?j)" "mc_src0 (?cs' ! ?j) < int (mr_size m)" by (simp_all add: mr_size_def)
qed

lemma zeroed_fresh:
  assumes "rows_ok zero m rows" "fresh_row (mr_cells m) z x" "z < int (mr_size m)"
  shows "(if 0 \<le> z then rows[nat z := zero] else rows) ! nat x = zero"
proof -
  have len: "length rows = mr_size m" using assms(1) by (simp add: rows_ok_def)
  show ?thesis
  proof (cases "0 \<le> z \<and> x = z")
    case False
    then obtain k where k: "k < mr_size m" "x = int k" "mc_seq (mr_cells m ! k) = {}" "mc_src (mr_cells m ! k) = int k"
      using assms(2) by (auto simp: fresh_row_def mr_size_def)
    then have "rows ! k = zero" using assms(1) by (auto simp: rows_ok_def)
    then show ?thesis using k(1,2) len by (cases "nat z = k") simp_all
  next
    case True
    then have "nat z < length rows" using assms(3) len by linarith
    then show ?thesis using True by simp
  qed
qed

lemma decode_states:
  assumes inv: "recr_inv m" and plain: "mr_n_rs_seq m = 0" and ub: "rub_ok (mr_size m) ub" and rows: "rows_ok zero m rows"
  shows "\<exists>m' rows'. recr_decode zero f ub m rows = Some (m', rows') \<and> recr_find_slot ub m = Some (True, m') \<and>
    recr_inv m' \<and> slot_found ub m m' \<and> rows_ok zero m' rows' \<and>
    (\<forall>s < ub_n_seqs ub. \<forall>q \<in> set (fs_seqs ub s). recr_state zero m' rows' q = f s (recr_state zero m rows (fs_lead ub s)) \<and>
       lpos (mr_cells m') q = last_pos ub s) \<and>
    (\<forall>q. seq_in (mr_cells m) q \<and> q \<notin> batch_seqs ub (ub_n_seqs ub) \<longrightarrow>
       recr_state zero m' rows' q = recr_state zero m rows q \<and> lpos (mr_cells m') q = lpos (mr_cells m) q)"
proof -
  let ?n = "ub_n_seqs ub" and ?cs = "mr_cells m"
  obtain m' where m': "recr_find_slot ub m = Some (True, m')" "recr_inv m'" "slot_found ub m m'"
    using find_slot_found [OF inv ub] by blast
  let ?cs' = "mr_cells m'" and ?h = "mr_head m'" and ?nn = "mr_n m'" and ?z = "mr_rs_z m'"
  note S = slot_foundD [OF m'(3)]
  have ok: "cells_ok ?cs" "cells_ok ?cs'" and t': "tails_ok ?cs'" using inv m'(2) by (simp_all add: recr_inv_def cells_ok_def)
  have size: "mr_size m' = mr_size m" "length rows = mr_size m" using S(1) rows by (simp_all add: mr_size_def rows_ok_def)
  define src where "src i = mc_src0 (?cs' ! (?h + i))" for i
  have copy: "rs_set_input m' = Some (map src [0..<?nn], m')"
    using rs_set_input_plain [of m'] plain S(1,3,6) by (simp add: src_def [abs_def] mr_size_def)
  have srcs: "\<forall>i < ?nn. 0 \<le> src i \<and> src i < int (length rows)"
    using found_srcs [OF inv m'(2) ub m'(3)] size by (simp add: src_def)
  have z: "?z < int (length rows)" and room: "?h + ?nn \<le> length rows" using S(6,7) size by (simp_all add: mr_size_def)
  let ?rows1 = "if 0 \<le> ?z then rows[nat ?z := zero] else rows"
  obtain states rows2 rows3 where R: "build_rs zero (map src [0..<?nn]) ?n ?h ?z rows = Some (states, rows2)"
    "put_rows ?h (map (\<lambda>s. f s (states ! s)) [0..<length states]) rows2 = Some rows3" "length rows3 = length rows"
    "\<forall>s < ?n. rows3 ! (?h + s) = f s (?rows1 ! nat (src s))"
    "\<forall>i < ?nn. ?n \<le> i \<longrightarrow> rows3 ! (?h + i) = ?rows1 ! nat (src i)"
    "\<forall>i < length rows. i \<notin> {?h..<?h + ?nn} \<longrightarrow> rows3 ! i = ?rows1 ! i"
    using rows_pass [OF S(5) room z srcs, of zero f] by blast
  have run: "recr_decode zero f ub m rows = Some (m', rows3)"
    using m'(1) copy R(1,2) by (simp add: recr_decode_def)
  have keep: "?rows1 ! nat (tail_at ?cs q) = rows ! nat (tail_at ?cs q)"
    if "seq_in ?cs q" "q \<in> fs_lead ub ` {..<?n} \<or> q \<notin> batch_seqs ub ?n" "0 \<le> tail_at ?cs q" for q
  proof -
    have "nat ?z \<noteq> nat (tail_at ?cs q)" if "0 \<le> ?z" using S(15) \<open>seq_in ?cs q\<close> \<open>q \<in> _ \<or> _\<close> \<open>0 \<le> tail_at ?cs q\<close> that by (metis eq_nat_nat_iff)
    then show ?thesis by simp
  qed
  have seqs: "recr_state zero m' rows3 q = f s (recr_state zero m rows (fs_lead ub s)) \<and> lpos ?cs' q = last_pos ub s"
    if s: "s < ?n" and q: "q \<in> set (fs_seqs ub s)" for s q
  proof -
    have i: "?h + s < length ?cs'" using s S(1,5,6) by linarith
    have "q \<in> mc_seq (?cs' ! (?h + s))" using S(9) [OF s] q by simp
    note T = tails_inD(3-5) [OF tails_okD(1) [OF t'] i this]
    have qi: "seq_in ?cs' q" using T by blast
    have lead: "seq_in ?cs (fs_lead ub s)" using rub_okD(6) [OF ub s rub_lead(2) [OF ub s]] by (simp add: mr_size_def)
    have "?rows1 ! nat (src s) = recr_state zero m rows (fs_lead ub s)"
    proof (cases "tail_at ?cs (fs_lead ub s) < 0")
      case True
      then show ?thesis using zeroed_fresh [OF rows S(11) [OF s True]] z size recr_state_tail [OF ok(1) lead, of zero rows]
        by (simp add: src_def)
    next
      case False
      then show ?thesis using keep [OF lead] s S(10) [OF s] recr_state_tail [OF ok(1) lead, of zero rows] by (simp add: src_def)
    qed
    then show ?thesis using recr_state_tail [OF ok(2) qi, of zero rows3] T(3) R(4) s S(8) [OF s] by (simp add: lpos_def flip: of_nat_add)
  qed
  have others: "recr_state zero m' rows3 q = recr_state zero m rows q \<and> lpos ?cs' q = lpos ?cs q"
    if q: "seq_in ?cs q" "q \<notin> batch_seqs ub ?n" for q
  proof (cases "0 \<le> tail_at ?cs q")
    case True
    have t: "0 \<le> tail_at ?cs' q" using S(12) [OF q] True by simp
    let ?t = "nat (tail_at ?cs' q)"
    have qi: "seq_in ?cs' q" using q(1) S(1) by simp
    have tl: "?t < length rows" using cells_ok_views(3) [OF ok(2) qi t] S(1) size by (simp add: mr_size_def)
    have "rows3 ! ?t = rows ! nat (tail_at ?cs q)"
    proof (cases "?t \<in> {?h..<?h + ?nn}")
      case True
      then have b: "?h \<le> ?t" "?t < ?h + ?nn" by simp_all
      have "?t \<notin> {?h..<?h + ?n}" using S(14) [OF q t] by blast
      then have "\<not> ?t < ?h + ?n" using b(1) by simp
      then have i: "?t - ?h < ?nn" "?n \<le> ?t - ?h" "?h + (?t - ?h) = ?t" using b by linarith+
      then have "rows3 ! ?t = ?rows1 ! nat (src (?t - ?h))" using R(5) by metis
      moreover have "src (?t - ?h) = tail_at ?cs q" using S(14) [OF q t] True i(3) by (simp add: src_def)
      ultimately show ?thesis using keep [OF q(1)] q(2) \<open>0 \<le> tail_at ?cs q\<close> by simp
    next
      case False
      then have "tail_at ?cs' q = tail_at ?cs q" using S(14) [OF q t] by presburger
      then show ?thesis using R(6) tl False keep [OF q(1)] q(2) \<open>0 \<le> tail_at ?cs q\<close> by simp
    qed
    then show ?thesis using recr_state_tail [OF ok(2) qi, of zero rows3] recr_state_tail [OF ok(1) q(1), of zero rows] t True S(13) [OF q] by simp
  next
    case False
    then show ?thesis using S(12,13) [OF q] recr_state_tail [OF ok(2), of q zero rows3] recr_state_tail [OF ok(1) q(1), of zero rows] q(1) S(1)
      by simp
  qed
  have "rows3 ! i = zero" if i: "i < mr_size m'" "mc_seq (?cs' ! i) = {}" "0 \<le> mc_src (?cs' ! i)" for i
  proof -
    have ic: "i < length ?cs" using i(1) size by (simp add: mr_size_def)
    show ?thesis
    proof (cases "i \<in> {?h..<?h + ?nn}")
      case True
      then have d: "i - ?h < ?nn" "?h + (i - ?h) = i" by auto
      have "\<not> i - ?h < ?n"
      proof
        assume s: "i - ?h < ?n"
        then have "set (fs_seqs ub (i - ?h)) = {}" using S(9) [OF s] d(2) i(2) by simp
        then show False using rub_okD(3) [OF ub s] by simp
      qed
      then have "rows3 ! i = ?rows1 ! nat (src (i - ?h))" using R(5) d by (metis not_le)
      moreover have "fresh_row ?cs ?z (src (i - ?h))" using S(16) [OF ic i(2) True] d(2) by (simp add: src_def)
      ultimately show ?thesis using zeroed_fresh [OF rows] z size by simp
    next
      case False
      then have "mc_src (?cs ! i) = mc_src (?cs' ! i)" "mc_seq (?cs ! i) = {}" using S(17) [OF ic i(2)] i(3) by auto
      then have "rows ! i = zero" using rows i(3) ic by (auto simp: rows_ok_def mr_size_def)
      moreover have "rows3 ! i = ?rows1 ! i" using R(6) False ic size by (simp add: mr_size_def)
      ultimately show ?thesis using ic size by (cases "nat ?z = i") (simp_all add: mr_size_def)
    qed
  qed
  then have "rows_ok zero m' rows3" using R(3) size by (simp add: rows_ok_def)
  then show ?thesis using run m' seqs others by blast
qed

end
