(* ===== verification/RecurrentOps.thy ===== *)
theory RecurrentOps
  imports RecurrentState
begin

section \<open>The sequence operations of the recurrent memory\<close>

lemma recr_invD:
  assumes "recr_inv m"
  shows "cells_ok (mr_cells m)" "tails_ok (mr_cells m)" "tails_in (mr_cells m)" "mr_used m = int (n_full (mr_cells m))"
    "mr_head m < mr_size m" "length (mr_rs_idx m) = mr_n_seq_max m" "mr_n_seq_max m \<le> mr_size m" "mr_size m < 2 ^ 31"
    "x \<in> set (mr_rs_idx m) \<Longrightarrow> x \<le> mr_n_rs_seq m"
  using assms by (simp_all add: recr_inv_def cells_ok_def tails_ok_def)

text \<open>A sequence number as the code has it, a 32-bit integer.\<close>

abbreviation seq_int :: "llama_seq_id \<Rightarrow> bool" where
  "seq_int s \<equiv> -(2 ^ 31) \<le> s \<and> s < 2 ^ 31"

lemma u32_neg: "seq_int s \<Longrightarrow> s < 0 \<Longrightarrow> 2 ^ 31 \<le> u32 s"
proof -
  assume s: "seq_int s" "s < 0"
  have "s mod 2 ^ 32 = (s + 2 ^ 32) mod 2 ^ 32" by simp
  also have "\<dots> = s + 2 ^ 32" by (rule mod_pos_pos_trivial) (use s in simp_all)
  finally show ?thesis using s by (simp add: u32_def)
qed

lemma u32_nonneg: "seq_int s \<Longrightarrow> 0 \<le> s \<Longrightarrow> u32 s = nat s"
  by (simp add: u32_def)

lemma u32_less: "seq_int s \<Longrightarrow> n \<le> 2 ^ 31 \<Longrightarrow> u32 s < n \<longleftrightarrow> 0 \<le> s \<and> s < int n"
  using u32_neg [of s] u32_nonneg [of s] by (cases "s < 0") auto

subsection \<open>Cells\<close>

lemma tails_ok_nth: "tails_ok cs \<Longrightarrow> seq_in cs q \<Longrightarrow> 0 \<le> tail_at cs q \<Longrightarrow>
    \<exists>t < length cs. tail_at cs q = int t \<and> q \<in> mc_seq (cs ! t)"
  using tails_inD(2) [OF tails_okD(1)] tails_okD(2)
  by (intro exI [of _ "nat (tail_at cs q)"]) (simp add: nat_less_iff)

lemma cells_ok_mem: "cells_ok cs \<Longrightarrow> i < length cs \<Longrightarrow> q \<in> mc_seq (cs ! i) \<Longrightarrow> 0 \<le> mc_pos (cs ! i) \<and> mc_src (cs ! i) = int i"
  using cells_okD(3,4) [of cs i] by blast

lemma n_full_upd:
  assumes "i < length cs"
  shows "int (n_full (cs[i := c])) = int (n_full cs) - (if mc_is_empty (cs ! i) then 0 else 1) + (if mc_is_empty c then 0 else 1)"
proof -
  have "cs = take i cs @ cs ! i # drop (Suc i) cs" using assms by (simp add: id_take_nth_drop)
  then have "n_full cs = n_full (take i cs) + n_full [cs ! i] + n_full (drop (Suc i) cs)"
    by (metis append_Cons append_Nil filter_append length_append n_full_def add.assoc)
  moreover have "n_full (cs[i := c]) = n_full (take i cs) + n_full [c] + n_full (drop (Suc i) cs)"
    using assms by (simp add: upd_conv_take_nth_drop n_full_def)
  ultimately show ?thesis by (simp add: n_full_def)
qed

text \<open>An empty cell that refers to a row was empty before and referred to it.\<close>

definition frees_only :: "mem_recr \<Rightarrow> mem_recr \<Rightarrow> bool" where
  "frees_only m m' \<longleftrightarrow> mr_size m' = mr_size m \<and> (\<forall>i < mr_size m. mc_seq (mr_cells m' ! i) = {} \<and> 0 \<le> mc_src (mr_cells m' ! i) \<longrightarrow>
     mc_seq (mr_cells m ! i) = {} \<and> mc_src (mr_cells m' ! i) = mc_src (mr_cells m ! i))"

lemma frees_only_refl [simp]: "mr_cells m' = mr_cells m \<Longrightarrow> frees_only m m'"
  by (simp add: frees_only_def mr_size_def)

lemma frees_only_rel: "cells_ok (mr_cells m) \<Longrightarrow> seq_in (mr_cells m) s \<Longrightarrow> mr_cells m' = rel_cells s (mr_cells m) \<Longrightarrow> frees_only m m'"
  using rel_cells_nth(2,4,5) [of "mr_cells m" s] rel_cells_spec(5) [of "mr_cells m" s]
  by (auto simp: frees_only_def mr_size_def cells_ok_def)

text \<open>A cell that keeps its sequences may move to another position.\<close>

lemma cells_ok_pos:
  assumes "cells_ok cs" "t < length cs" "mc_seq (cs ! t) \<noteq> {}" "0 \<le> p"
  shows "cells_ok (cell_upd t (mc_pos_update (\<lambda>_. p)) cs)" "n_full (cell_upd t (mc_pos_update (\<lambda>_. p)) cs) = n_full cs"
    "seq_in cs q \<Longrightarrow> tail_at (cell_upd t (mc_pos_update (\<lambda>_. p)) cs) q = tail_at cs q"
    "seq_in cs q \<Longrightarrow> lpos (cell_upd t (mc_pos_update (\<lambda>_. p)) cs) q = (if tail_at cs q = int t then p else lpos cs q)"
proof -
  let ?cs = "cell_upd t (mc_pos_update (\<lambda>_. p)) cs"
  have ok: "tails_ok cs" using assms(1) by (simp add: cells_ok_def)
  have nth: "mc_tail (?cs ! i) = mc_tail (cs ! i)" "mc_seq (?cs ! i) = mc_seq (cs ! i)" "mc_src (?cs ! i) = mc_src (cs ! i)"
    "mc_pos (?cs ! i) = (if i = t then p else mc_pos (cs ! i))" if "i < length cs" for i
    using that by simp_all
  have tail: "tail_at ?cs q = tail_at cs q" if "seq_in cs q" for q using nth(1) [OF seq_in_nat [OF that]] .
  then show "seq_in cs q \<Longrightarrow> tail_at ?cs q = tail_at cs q" .
  have idx: "nat (tail_at cs q) < length cs" if "seq_in cs q" "0 \<le> tail_at cs q" for q
    using tails_ok_nth [OF ok that] by auto
  have "tails_ok ?cs" by (rule tails_ok_cong [OF _ _ ok]) simp_all
  moreover have "\<forall>i < length cs. (mc_seq (?cs ! i) = {} \<longrightarrow> mc_pos (?cs ! i) = -1 \<and> (mc_src (?cs ! i) = -1 \<or> mc_src (?cs ! i) = int i)) \<and>
     (mc_seq (?cs ! i) \<noteq> {} \<longrightarrow> 0 \<le> mc_pos (?cs ! i) \<and> mc_src (?cs ! i) = int i)"
    using nth cells_okD [OF assms(1)] assms(3,4) by auto
  ultimately show "cells_ok ?cs" by (simp add: cells_ok_def)
  have "int (n_full ?cs) = int (n_full cs)"
    unfolding cell_upd_def n_full_upd [OF assms(2)] using assms(3) by (simp add: mc_is_empty_def)
  then show "n_full ?cs = n_full cs" by simp
  show "lpos ?cs q = (if tail_at cs q = int t then p else lpos cs q)" if "seq_in cs q"
    using tail [OF that] nth(4) [OF idx [OF that]] by (auto simp: lpos_def)
qed

text \<open>A sequence without a cell may join the cell of another one.\<close>

lemma cells_ok_share:
  assumes "cells_ok cs" "seq_in cs src" "seq_in cs dst" "tail_at cs dst = -1" "tail_at cs src = int t"
  defines "cs' \<equiv> cell_upd (nat dst) (mc_tail_update (\<lambda>_. int t)) (cell_upd t (mc_seq_update (insert dst)) cs)"
  shows "cells_ok cs'" "n_full cs' = n_full cs" "length cs' = length cs"
    "seq_in cs q \<Longrightarrow> tail_at cs' q = (if q = dst then int t else tail_at cs q)"
    "seq_in cs q \<Longrightarrow> lpos cs' q = (if q = dst then lpos cs src else lpos cs q)"
proof -
  have ok: "tails_ok cs" using assms(1) by (simp add: cells_ok_def)
  obtain t' where "t' < length cs" "tail_at cs src = int t'" "src \<in> mc_seq (cs ! t')"
    using tails_ok_nth [OF ok assms(2)] assms(5) by auto
  then have t: "t < length cs" "src \<in> mc_seq (cs ! t)" using assms(5) by simp_all
  show len: "length cs' = length cs" by (simp add: cs'_def)
  have nth: "mc_tail (cs' ! i) = (if i = nat dst then int t else mc_tail (cs ! i))"
    "mc_seq (cs' ! i) = (if i = t then insert dst (mc_seq (cs ! i)) else mc_seq (cs ! i))"
    "mc_src (cs' ! i) = mc_src (cs ! i)" "mc_pos (cs' ! i) = mc_pos (cs ! i)" if "i < length cs" for i
    using that by (simp_all add: cs'_def)
  have tail: "tail_at cs' q = (if q = dst then int t else tail_at cs q)" if "seq_in cs q" for q
    using nth(1) [OF seq_in_nat [OF that]] that assms(3) by (simp add: eq_nat_nat_iff)
  then show "seq_in cs q \<Longrightarrow> tail_at cs' q = (if q = dst then int t else tail_at cs q)" .
  have idx: "nat (tail_at cs q) < length cs" if "seq_in cs q" "0 \<le> tail_at cs q" for q
    using tails_ok_nth [OF ok that] by auto
  have tin: "tails_in cs'" unfolding tails_in_def len
  proof (intro conjI allI impI ballI)
    fix q assume "seq_in cs q"
    then show "-1 \<le> tail_at cs' q" "tail_at cs' q < int (length cs)"
      using tail [of q] tails_inD(1,2) [OF tails_okD(1) [OF ok], of q] t(1) by auto
  next
    fix i q assume i: "i < length cs" "q \<in> mc_seq (cs' ! i)"
    have "q = dst \<and> i = t \<or> q \<noteq> dst \<and> q \<in> mc_seq (cs ! i)"
      using i nth(2) [OF i(1)] tails_inD(5) [OF tails_okD(1) [OF ok] i(1), of dst] assms(4) by (auto split: if_splits)
    then show "0 \<le> q" "q < int (length cs)" "tail_at cs' q = int i"
      using tails_inD(3-5) [OF tails_okD(1) [OF ok] i(1), of q] tail [of q] assms(3) by auto
  qed
  have "q \<in> mc_seq (cs' ! nat (tail_at cs' q))" if "seq_in cs q" "0 \<le> tail_at cs' q" for q
  proof (cases "q = dst")
    case False
    then have q: "0 \<le> tail_at cs q" "tail_at cs' q = tail_at cs q" using that tail by simp_all
    have "q \<in> mc_seq (cs ! nat (tail_at cs q))" by (rule tails_okD(2) [OF ok that(1) q(1)])
    then have "q \<in> mc_seq (cs' ! nat (tail_at cs q))" unfolding nth(2) [OF idx [OF that(1) q(1)]] by auto
    then show ?thesis unfolding q(2) .
  qed (use tail [OF that(1)] nth(2) [OF t(1)] in simp)
  then have "tails_ok cs'" using tin len by (simp add: tails_ok_def)
  moreover have "(mc_seq (cs' ! i) = {} \<longrightarrow> mc_pos (cs' ! i) = -1 \<and> (mc_src (cs' ! i) = -1 \<or> mc_src (cs' ! i) = int i)) \<and>
     (mc_seq (cs' ! i) \<noteq> {} \<longrightarrow> 0 \<le> mc_pos (cs' ! i) \<and> mc_src (cs' ! i) = int i)" if "i < length cs" for i
  proof -
    have "mc_seq (cs' ! i) = {} \<longleftrightarrow> mc_seq (cs ! i) = {}" using nth(2) [OF that] t(2) by auto
    then show ?thesis using nth(3,4) [OF that] cells_okD [OF assms(1) that] by simp
  qed
  ultimately show "cells_ok cs'" using len by (simp add: cells_ok_def)
  have "{i. i < length cs' \<and> mc_seq (cs' ! i) \<noteq> {}} = {i. i < length cs \<and> mc_seq (cs ! i) \<noteq> {}}"
    using nth(2) t(2) len by (auto split: if_splits)
  then show "n_full cs' = n_full cs" by (simp add: n_full_card)
  show "seq_in cs q \<Longrightarrow> lpos cs' q = (if q = dst then lpos cs src else lpos cs q)"
    using tail [of q] nth(4) [OF idx, of q] nth(4) [OF t(1)] assms(5) by (auto simp: lpos_def)
qed

subsection \<open>\<open>seq_cp\<close>, \<open>seq_add\<close>, \<open>seq_div\<close>, \<open>clear\<close>\<close>

lemma recr_seq_cp_spec:
  assumes inv: "recr_inv m" and sd: "seq_int src" "seq_int dst"
  shows "\<exists>m'. recr_seq_cp src dst p0 p1 m = Some m' \<and> recr_inv m' \<and> mr_size m' = mr_size m \<and> mr_rs_idx m' = mr_rs_idx m \<and>
    mr_n_seq_max m' = mr_n_seq_max m \<and> mr_n_rs_seq m' = mr_n_rs_seq m \<and> frees_only m m' \<and>
    (if src \<noteq> dst \<and> seq_in (mr_cells m) src \<and> seq_in (mr_cells m) dst
     then (\<forall>q. seq_in (mr_cells m) q \<longrightarrow> tail_at (mr_cells m') q = tail_at (mr_cells m) (if q = dst then src else q) \<and>
       lpos (mr_cells m') q = lpos (mr_cells m) (if q = dst then src else q))
     else m' = m)"
proof (cases "src \<noteq> dst \<and> seq_in (mr_cells m) src \<and> seq_in (mr_cells m) dst")
  case True
  let ?cs = "mr_cells m"
  note D = recr_invD [OF inv]
  have s: "seq_in ?cs src" "seq_in ?cs dst" "src \<noteq> dst" using True by blast+
  obtain u where rel: "release_tail dst m = Some (m\<lparr>mr_cells := rel_cells dst ?cs, mr_used := u\<rparr>)"
    "recr_inv (m\<lparr>mr_cells := rel_cells dst ?cs, mr_used := u\<rparr>)" using release_tail_spec [OF inv s(2)] by blast
  note R = rel_cells_spec [OF D(1) s(2)]
  let ?m1 = "m\<lparr>mr_cells := rel_cells dst ?cs, mr_used := u\<rparr>" and ?cs1 = "rel_cells dst ?cs"
  have t: "tail_at ?cs1 dst = -1" "tail_at ?cs1 src = tail_at ?cs src" "lpos ?cs1 src = lpos ?cs src" "length ?cs1 = length ?cs"
    using R(2) [OF s(2)] R(2,3) [OF s(1)] s(3) R(5) by simp_all
  have bnd: "u32 dst < mr_size m" "u32 src < mr_size m"
    using s(1,2) u32_seq [of dst ?cs] u32_seq [of src ?cs] D(8) by (auto simp: mr_size_def)
  have none: "lpos cs src = -1" if "tail_at cs src < 0" for cs using that by (simp add: lpos_def)
  show ?thesis
  proof (cases "0 \<le> tail_at ?cs1 src")
    case False
    have "recr_seq_cp src dst p0 p1 m = Some ?m1"
      using rel(1) bnd s(1,3) False t(4) seq_in_nat [of src ?cs] by (simp add: recr_seq_cp_def mr_size_def)
    moreover have "tail_at ?cs1 src = -1" using tails_inD(1) [of ?cs1 src] recr_invD(3) [OF rel(2)] s(1) t(4) False by simp
    then have "tail_at ?cs1 q = tail_at ?cs (if q = dst then src else q) \<and> lpos ?cs1 q = lpos ?cs (if q = dst then src else q)"
      if "seq_in ?cs q" for q
      using t(1-3) R(2,3) [OF that] none [of ?cs] by (auto simp: lpos_def)
    moreover have "frees_only m ?m1" by (rule frees_only_rel [OF D(1) s(2)]) simp
    ultimately show ?thesis using rel(2) R(5) True by (intro exI [of _ ?m1]) (simp add: mr_size_def)
  next
    case pos: True
    then obtain k where k: "tail_at ?cs1 src = int k" by (metis nonneg_int_cases)
    have ok1: "cells_ok ?cs1" using recr_invD(1) [OF rel(2)] by simp
    note S = cells_ok_share [OF ok1 _ _ t(1) k, unfolded t(4), OF s(1,2)]
    let ?cs2 = "cell_upd (nat dst) (mc_tail_update (\<lambda>_. int k)) (cell_upd k (mc_seq_update (insert dst)) ?cs1)"
    have kl: "k < length ?cs1" using tails_inD(2) [of ?cs1 src] recr_invD(3) [OF rel(2)] s(1) t(4) k by simp
    have "recr_seq_cp src dst p0 p1 m = Some (?m1\<lparr>mr_cells := ?cs2\<rparr>)"
      using rel(1) bnd s(1,3) pos t(4) k kl seq_in_nat [of src ?cs] by (simp add: recr_seq_cp_def mr_size_def Let_def)
    moreover have "recr_inv (?m1\<lparr>mr_cells := ?cs2\<rparr>)" using rel(2) S(1-3) by (simp add: recr_inv_def mr_size_def t(4))
    moreover have "tail_at ?cs2 q = tail_at ?cs (if q = dst then src else q) \<and> lpos ?cs2 q = lpos ?cs (if q = dst then src else q)"
      if "seq_in ?cs q" for q
      using S(4,5) [OF that] R(2,3) [OF that] k t(2,3) by simp
    moreover have "frees_only m (?m1\<lparr>mr_cells := ?cs2\<rparr>)"
      using frees_only_rel [OF D(1) s(2), of ?m1] t(4) by (auto simp: frees_only_def mr_size_def)
    ultimately show ?thesis using S(3) True by (intro exI [of _ "?m1\<lparr>mr_cells := ?cs2\<rparr>"]) (simp add: mr_size_def)
  qed
next
  case False
  have "2 ^ 31 \<ge> mr_size m" using recr_invD(8) [OF inv] by simp
  then have "src = dst \<or> \<not> (u32 dst < mr_size m \<and> u32 src < mr_size m)"
    using False u32_less [OF sd(1)] u32_less [OF sd(2)] by (auto simp: mr_size_def)
  then have "recr_seq_cp src dst p0 p1 m = Some m" by (auto simp: recr_seq_cp_def)
  then show ?thesis using inv False by auto
qed

lemma move_pos_spec:
  assumes inv: "recr_inv m" and f: "\<And>p. p0 \<le> p \<Longrightarrow> p < p1 \<Longrightarrow> 0 \<le> p \<Longrightarrow> 0 \<le> f p"
  shows "\<exists>m'. move_pos s p0 p1 f m = Some m' \<and> recr_inv m' \<and> frees_only m m' \<and>
    (\<forall>q. seq_in (mr_cells m) q \<longrightarrow> tail_at (mr_cells m') q = tail_at (mr_cells m) q \<and>
      lpos (mr_cells m') q = (if seq_in (mr_cells m) s \<and> 0 \<le> tail_at (mr_cells m) s \<and> tail_at (mr_cells m) q = tail_at (mr_cells m) s \<and>
         p0 \<le> lpos (mr_cells m) s \<and> lpos (mr_cells m) s < p1 then f (lpos (mr_cells m) s) else lpos (mr_cells m) q))"
proof (cases "seq_in (mr_cells m) s \<and> 0 \<le> tail_at (mr_cells m) s")
  case True
  let ?cs = "mr_cells m"
  note D = recr_invD [OF inv]
  obtain t where t: "t < length ?cs" "tail_at ?cs s = int t" "s \<in> mc_seq (?cs ! t)" using tails_ok_nth [OF D(2)] True by blast
  have l: "lpos ?cs s = mc_pos (?cs ! t)" using t by (simp add: lpos_def)
  have p: "0 \<le> mc_pos (?cs ! t)" using cells_okD(3) [OF D(1) t(1)] t(3) by blast
  let ?m' = "if p0 \<le> mc_pos (?cs ! t) \<and> mc_pos (?cs ! t) < p1 then m\<lparr>mr_cells := cell_upd t (mc_pos_update f) ?cs\<rparr> else m"
  have run: "move_pos s p0 p1 f m = Some ?m'"
    using True t seq_in_nat [of s ?cs] by (simp add: move_pos_def mr_size_def has_seq_id_def)
  show ?thesis
  proof (cases "p0 \<le> mc_pos (?cs ! t) \<and> mc_pos (?cs ! t) < p1")
    case hit: True
    have eq: "cell_upd t (mc_pos_update f) ?cs = cell_upd t (mc_pos_update (\<lambda>_. f (mc_pos (?cs ! t)))) ?cs"
      by (cases "?cs ! t") (simp add: cell_upd_def)
    have "mc_seq (?cs ! t) \<noteq> {}" "0 \<le> f (mc_pos (?cs ! t))" using t(3) f p hit by auto
    note P = cells_ok_pos [OF D(1) t(1) this]
    have "recr_inv ?m'" using hit inv P(1,2) by (simp add: recr_inv_def eq mr_size_def)
    moreover have "frees_only m ?m'" by (simp add: frees_only_def mr_size_def)
    ultimately show ?thesis using run hit P(3,4) True l t(2) by (intro exI [of _ ?m']) (simp add: eq)
  next
    case False
    then show ?thesis using run inv l by (intro exI [of _ m]) auto
  qed
next
  case False
  then have "move_pos s p0 p1 f m = Some m"
    by (auto simp: move_pos_def mr_size_def nat_less_iff)
  then show ?thesis using inv False by auto
qed

lemma recr_clear_spec:
  assumes "recr_inv m"
  shows "recr_inv (recr_clear m)" "seq_in (mr_cells m) q \<Longrightarrow> tail_at (mr_cells (recr_clear m)) q = -1" "frees_only m (recr_clear m)"
proof -
  let ?cs = "mr_cells (recr_clear m)"
  note D = recr_invD [OF assms]
  have nth: "?cs ! i = mc_cleared (mr_cells m ! i)" if "i < length (mr_cells m)" for i using that by (simp add: recr_clear_def)
  have len: "length ?cs = length (mr_cells m)" by (simp add: recr_clear_def)
  show "frees_only m (recr_clear m)" using nth len by (simp add: frees_only_def mr_size_def mc_cleared_def)
  have tail: "tail_at ?cs q = -1" if "seq_in (mr_cells m) q" for q
    using nth [OF seq_in_nat [OF that]] by (simp add: mc_cleared_def)
  then show "seq_in (mr_cells m) q \<Longrightarrow> tail_at ?cs q = -1" .
  have "tails_ok ?cs" unfolding tails_ok_def tails_in_def len using tail nth by (auto simp: mc_cleared_def)
  then have ok: "cells_ok ?cs" unfolding cells_ok_def len using nth by (simp add: mc_cleared_def)
  have "n_full ?cs = 0" unfolding n_full_card len using nth by (simp add: mc_cleared_def)
  then show "recr_inv (recr_clear m)" using ok D(5-9) len by (auto simp: recr_inv_def recr_clear_def mr_size_def)
qed

subsection \<open>\<open>seq_keep\<close>\<close>

definition kept :: "llama_seq_id \<Rightarrow> nat \<Rightarrow> mem_cell \<Rightarrow> mem_cell" where
  "kept s i c = (let c = (if int i \<noteq> s then c\<lparr>mc_tail := -1\<rparr> else c) in
     if s \<in> mc_seq c then c\<lparr>mc_seq := {s}\<rparr> else c\<lparr>mc_pos := -1, mc_src := -1, mc_seq := {}\<rparr>)"

lemma keep_recr_cell_eq:
  assumes "i < mr_size m"
  shows "keep_recr_cell s i (h, m) = (if s \<notin> mc_seq (mr_cells m ! i) \<and> h = mr_size m then i else h,
    m\<lparr>mr_cells := (mr_cells m)[i := kept s i (mr_cells m ! i)],
      mr_used := (if s \<notin> mc_seq (mr_cells m ! i) \<and> mc_pos (mr_cells m ! i) \<ge> 0 then mr_used m - 1 else mr_used m)\<rparr>)"
  using assms unfolding keep_recr_cell_def kept_def Let_def cell_upd_def has_seq_id_def mr_size_def
  by (cases "int i = s"; cases "s \<in> mc_seq (mr_cells m ! i)"; cases "0 \<le> mc_pos (mr_cells m ! i)") simp_all

lemma keep_loop:
  assumes inv: "recr_inv m" and k: "k \<le> mr_size m"
  shows "\<exists>h cs u. fold (keep_recr_cell s) [0..<k] (mr_size m, m) = (h, m\<lparr>mr_cells := cs, mr_used := u\<rparr>) \<and> h \<le> mr_size m \<and>
    length cs = mr_size m \<and> u = int (n_full cs) \<and>
    (\<forall>i < mr_size m. cs ! i = (if i < k then kept s i (mr_cells m ! i) else mr_cells m ! i))"
  using k
proof (induction k)
  case 0
  have "m\<lparr>mr_cells := mr_cells m, mr_used := mr_used m\<rparr> = m" by simp
  then show ?case using recr_invD(4) [OF inv] by (auto simp: mr_size_def intro!: exI [of _ "mr_cells m"] exI [of _ "mr_used m"])
next
  case (Suc k)
  from Suc.IH Suc.prems obtain h cs u where IH: "fold (keep_recr_cell s) [0..<k] (mr_size m, m) = (h, m\<lparr>mr_cells := cs, mr_used := u\<rparr>)"
    "h \<le> mr_size m" "length cs = mr_size m" "u = int (n_full cs)"
    "\<forall>i < mr_size m. cs ! i = (if i < k then kept s i (mr_cells m ! i) else mr_cells m ! i)" by auto
  have kl: "k < length cs" "k < mr_size m" using Suc.prems IH(3) by simp_all
  have ck: "cs ! k = mr_cells m ! k" using IH(5) kl(2) by simp
  have pos: "0 \<le> mc_pos (cs ! k) \<longleftrightarrow> \<not> mc_is_empty (cs ! k)"
    using cells_okD(1,3) [OF recr_invD(1) [OF inv], of k] kl(2) unfolding ck by (auto simp: mr_size_def mc_is_empty_def)
  have e: "mc_is_empty (kept s k (cs ! k)) \<longleftrightarrow> s \<notin> mc_seq (cs ! k)" by (simp add: kept_def mc_is_empty_def Let_def)
  have used: "(if s \<notin> mc_seq (cs ! k) \<and> mc_pos (cs ! k) \<ge> 0 then u - 1 else u) = int (n_full (cs[k := kept s k (cs ! k)]))"
    unfolding n_full_upd [OF kl(1)] e pos IH(4) by (auto simp: mc_is_empty_def)
  have sz: "mr_size (m\<lparr>mr_cells := cs, mr_used := u\<rparr>) = mr_size m" using IH(3) by (simp add: mr_size_def)
  have "fold (keep_recr_cell s) [0..<Suc k] (mr_size m, m) = (if s \<notin> mc_seq (cs ! k) \<and> h = mr_size m then k else h,
      m\<lparr>mr_cells := cs[k := kept s k (cs ! k)], mr_used := int (n_full (cs[k := kept s k (cs ! k)]))\<rparr>)"
    unfolding used [symmetric]
    using IH(1) keep_recr_cell_eq [of k "m\<lparr>mr_cells := cs, mr_used := u\<rparr>" s h] kl(2) sz by simp
  moreover have "\<forall>i < mr_size m. cs[k := kept s k (cs ! k)] ! i = (if i < Suc k then kept s i (mr_cells m ! i) else mr_cells m ! i)"
    using IH(3,5) ck by (auto simp: nth_list_update less_Suc_eq)
  moreover have "(if s \<notin> mc_seq (cs ! k) \<and> h = mr_size m then k else h) \<le> mr_size m" using IH(2) kl(2) by simp
  moreover have "length (cs[k := kept s k (cs ! k)]) = mr_size m" using IH(3) by simp
  ultimately show ?case by blast
qed

lemma recr_seq_keep_spec:
  assumes inv: "recr_inv m"
  shows "recr_inv (recr_seq_keep s m)" "frees_only m (recr_seq_keep s m)" "mr_rs_idx (recr_seq_keep s m) = mr_rs_idx m"
    "mr_n_rs_seq (recr_seq_keep s m) = mr_n_rs_seq m"
    "seq_in (mr_cells m) q \<Longrightarrow> tail_at (mr_cells (recr_seq_keep s m)) q = (if q = s then tail_at (mr_cells m) q else -1)"
    "seq_in (mr_cells m) q \<Longrightarrow> lpos (mr_cells (recr_seq_keep s m)) q = (if q = s then lpos (mr_cells m) q else -1)"
proof -
  note D = recr_invD [OF inv]
  obtain h cs u where L: "fold (keep_recr_cell s) [0..<mr_size m] (mr_size m, m) = (h, m\<lparr>mr_cells := cs, mr_used := u\<rparr>)"
    "h \<le> mr_size m" "length cs = mr_size m" "u = int (n_full cs)" "\<forall>i < mr_size m. cs ! i = kept s i (mr_cells m ! i)"
    using keep_loop [OF inv, of "mr_size m" s] by auto
  let ?h = "if h \<noteq> mr_size m \<and> h < mr_head m then h else mr_head m"
  have eq: "recr_seq_keep s m = m\<lparr>mr_cells := cs, mr_used := u, mr_head := ?h\<rparr>"
  proof -
    have "mr_size (m\<lparr>mr_cells := cs, mr_used := u\<rparr>) = mr_size m" using L(3) by (simp add: mr_size_def)
    then show ?thesis unfolding recr_seq_keep_def L(1) by simp
  qed
  have len: "length cs = length (mr_cells m)" using L(3) by (simp add: mr_size_def)
  have nth: "mc_tail (cs ! i) = (if int i = s then mc_tail (mr_cells m ! i) else -1)"
    "mc_seq (cs ! i) = (if s \<in> mc_seq (mr_cells m ! i) then {s} else {})"
    "mc_pos (cs ! i) = (if s \<in> mc_seq (mr_cells m ! i) then mc_pos (mr_cells m ! i) else -1)"
    "mc_src (cs ! i) = (if s \<in> mc_seq (mr_cells m ! i) then mc_src (mr_cells m ! i) else -1)" if "i < length (mr_cells m)" for i
    using L(5) that by (simp_all add: kept_def Let_def mr_size_def)
  have tail: "tail_at cs q = (if q = s then tail_at (mr_cells m) q else -1)" if "seq_in (mr_cells m) q" for q
    using nth(1) [OF seq_in_nat [OF that]] that by auto
  have own: "\<exists>t < length (mr_cells m). tail_at (mr_cells m) s = int t \<and> s \<in> mc_seq (mr_cells m ! t)"
    if "seq_in (mr_cells m) s" "0 \<le> tail_at (mr_cells m) s" using tails_ok_nth [OF D(2) that] .
  have lp: "lpos cs q = (if q = s then lpos (mr_cells m) q else -1)" if "seq_in (mr_cells m) q" for q
    using tail [OF that] own that nth(3) by (cases "q = s"; cases "0 \<le> tail_at (mr_cells m) s") (auto simp: lpos_def)
  have tin: "tails_in cs" unfolding tails_in_def len
  proof (intro conjI allI impI ballI)
    fix q assume "seq_in (mr_cells m) q"
    then show "-1 \<le> tail_at cs q" "tail_at cs q < int (length (mr_cells m))"
      using tail tails_inD(1,2) [OF D(3), of q] by auto
  next
    fix i q assume i: "i < length (mr_cells m)" "q \<in> mc_seq (cs ! i)"
    then have q: "q = s" "s \<in> mc_seq (mr_cells m ! i)" using nth(2) [OF i(1)] by (auto split: if_splits)
    note T = tails_inD(3-5) [OF D(3) i(1) q(2)]
    show "0 \<le> q" "q < int (length (mr_cells m))" "tail_at cs q = int i" using T tail [of s] q(1) by simp_all
  qed
  have "q \<in> mc_seq (cs ! nat (tail_at cs q))" if "seq_in (mr_cells m) q" "0 \<le> tail_at cs q" for q
  proof -
    have q: "q = s" "0 \<le> tail_at (mr_cells m) s" using that tail [OF that(1)] by (auto split: if_splits)
    have "seq_in (mr_cells m) s" using that(1) q(1) by simp
    from own [OF this q(2)] obtain t where "t < length (mr_cells m)" "tail_at (mr_cells m) s = int t" "s \<in> mc_seq (mr_cells m ! t)" by blast
    then show ?thesis using nth(2) tail [OF that(1)] q(1) by simp
  qed
  then have "tails_ok cs" using tin by (simp add: tails_ok_def len)
  then have "cells_ok cs" unfolding cells_ok_def len using nth(2-4) cells_ok_mem [OF D(1)] by auto
  moreover have "?h < mr_size m" using D(5) by simp
  ultimately show "recr_inv (recr_seq_keep s m)" using inv L(4) len unfolding eq by (simp add: recr_inv_def mr_size_def)
  show "mr_rs_idx (recr_seq_keep s m) = mr_rs_idx m" "mr_n_rs_seq (recr_seq_keep s m) = mr_n_rs_seq m" by (simp_all add: eq)
  show "frees_only m (recr_seq_keep s m)" using nth(2,4) len by (simp add: eq frees_only_def mr_size_def)
  show "seq_in (mr_cells m) q \<Longrightarrow> tail_at (mr_cells (recr_seq_keep s m)) q = (if q = s then tail_at (mr_cells m) q else -1)"
    "seq_in (mr_cells m) q \<Longrightarrow> lpos (mr_cells (recr_seq_keep s m)) q = (if q = s then lpos (mr_cells m) q else -1)"
    using tail [of q] lp [of q] by (simp_all add: eq)
qed

subsection \<open>\<open>seq_rm\<close>\<close>

lemma fold_id: "(\<And>x. x \<in> set xs \<Longrightarrow> f x st = st) \<Longrightarrow> fold f xs st = st"
  by (induction xs) simp_all

lemma fold_once:
  assumes "distinct xs" "t \<in> set xs" "\<And>i. i \<in> set xs \<Longrightarrow> i \<noteq> t \<Longrightarrow> f i st = st \<and> f i (f t st) = f t st"
  shows "fold f xs st = f t st"
proof -
  obtain ys zs where xs: "xs = ys @ t # zs" using assms(2) by (auto simp: in_set_conv_decomp)
  have "fold f ys st = st" by (rule fold_id) (use assms(1,3) xs in auto)
  moreover have "fold f zs (f t st) = f t st" by (rule fold_id) (use assms(1,3) xs in auto)
  ultimately show ?thesis by (simp add: xs)
qed

lemma rm_recr_cell_skip:
  "0 \<le> s \<Longrightarrow> \<not> (p0 \<le> mc_pos (mr_cells m ! i) \<and> mc_pos (mr_cells m ! i) < p1 \<and> s \<in> mc_seq (mr_cells m ! i)) \<Longrightarrow>
    rm_recr_cell s p0 p1 i (h, m) = (h, m)"
  by (auto simp: rm_recr_cell_def Let_def has_seq_id_def)

lemma cell_upd_comm:
  assumes "\<And>c. f (g c) = g (f c)"
  shows "cell_upd i f (cell_upd j g cs) = cell_upd j g (cell_upd i f cs)"
  by (rule nth_equalityI) (auto simp: assms)

lemma rm_loop_hit:
  assumes inv: "recr_inv m" and s: "seq_in (mr_cells m) s" "tail_at (mr_cells m) s = int t"
    and hit: "p0 \<le> mc_pos (mr_cells m ! t)" "mc_pos (mr_cells m ! t) < p1"
  shows "\<exists>h u. fold (rm_recr_cell s p0 p1) [0..<mr_size m]
      (mr_size m, m\<lparr>mr_cells := cell_upd (nat s) (mc_tail_update (\<lambda>_. -1)) (mr_cells m)\<rparr>) =
      (h, m\<lparr>mr_cells := rel_cells s (mr_cells m), mr_used := u\<rparr>) \<and>
    recr_inv (m\<lparr>mr_cells := rel_cells s (mr_cells m), mr_used := u\<rparr>)"
proof -
  let ?cs = "mr_cells m"
  let ?cs1 = "cell_upd (nat s) (mc_tail_update (\<lambda>_. -1)) ?cs"
  let ?cs2 = "cell_upd t (mc_seq_update (\<lambda>S. S - {s})) ?cs1"
  let ?m1 = "m\<lparr>mr_cells := ?cs1\<rparr>"
  note D = recr_invD [OF inv]
  have t: "t < length ?cs" "s \<in> mc_seq (?cs ! t)" using tails_ok_nth [OF D(2) s(1)] s(2) by auto
  have pos: "0 \<le> mc_pos (?cs ! t)" using cells_ok_mem [OF D(1) t] by blast
  have f1: "mc_pos (?cs1 ! i) = mc_pos (?cs ! i)" "mc_seq (?cs1 ! i) = mc_seq (?cs ! i)" if "i < length ?cs" for i
    using that by simp_all
  have comm: "?cs2 = cell_upd (nat s) (mc_tail_update (\<lambda>_. -1)) (cell_upd t (mc_seq_update (\<lambda>S. S - {s})) ?cs)"
    by (rule cell_upd_comm) simp
  have rel: "rel_cells s ?cs = (if mc_seq (?cs2 ! t) = {} then cell_upd t (\<lambda>c. c\<lparr>mc_pos := -1, mc_src := -1\<rparr>) ?cs2 else ?cs2)"
    using s(2) by (simp add: rel_cells_def Let_def comm)
  define u where "u = (if mc_seq (?cs2 ! t) = {} then mr_used m - 1 else mr_used m)"
  obtain u' where u': "release_tail s m = Some (m\<lparr>mr_cells := rel_cells s ?cs, mr_used := u'\<rparr>)"
    "recr_inv (m\<lparr>mr_cells := rel_cells s ?cs, mr_used := u'\<rparr>)" using release_tail_spec [OF inv s(1)] by blast
  have "release_tail s m = Some (m\<lparr>mr_cells := rel_cells s ?cs, mr_used := u\<rparr>)"
    using t(1) s(2) seq_in_nat [OF s(1)] unfolding release_tail_def rel u_def comm Let_def mc_is_empty_def by simp
  then have "u' = u" using u'(1) by (simp add: mem_recr.ext_inject [symmetric] del: mem_recr.ext_inject)
    (metis mem_recr.select_convs(2) mem_recr.surjective mem_recr.update_convs(2,7))
  have at_t: "rm_recr_cell s p0 p1 t (mr_size m, ?m1) =
      (if mc_seq (?cs2 ! t) = {} then t else mr_size m, m\<lparr>mr_cells := rel_cells s ?cs, mr_used := u\<rparr>)"
    using f1 [OF t(1)] t hit s(1) pos unfolding rm_recr_cell_def free_if_empty_def Let_def has_seq_id_def mc_is_empty_def rel u_def
    by (simp add: mr_size_def del: nth_cell_upd) (simp add: nth_cell_upd)
  have skip: "rm_recr_cell s p0 p1 i (h, m') = (h, m')"
    if "i < length ?cs" "i \<noteq> t" "mc_seq (mr_cells m' ! i) \<subseteq> mc_seq (?cs ! i)" for i h m'
  proof (rule rm_recr_cell_skip)
    have "s \<notin> mc_seq (?cs ! i)" using tails_ok_iff [OF D(2) s(1) that(1)] s(2) that(2) by simp
    then show "\<not> (p0 \<le> mc_pos (mr_cells m' ! i) \<and> mc_pos (mr_cells m' ! i) < p1 \<and> s \<in> mc_seq (mr_cells m' ! i))"
      using that(3) by blast
  qed (use s(1) in simp)
  have "fold (rm_recr_cell s p0 p1) [0..<mr_size m] (mr_size m, ?m1) = rm_recr_cell s p0 p1 t (mr_size m, ?m1)"
  proof (rule fold_once)
    fix i assume i: "i \<in> set [0..<mr_size m]" "i \<noteq> t"
    then have il: "i < length ?cs" by (simp add: mr_size_def)
    show "rm_recr_cell s p0 p1 i (mr_size m, ?m1) = (mr_size m, ?m1) \<and>
      rm_recr_cell s p0 p1 i (rm_recr_cell s p0 p1 t (mr_size m, ?m1)) = rm_recr_cell s p0 p1 t (mr_size m, ?m1)"
      unfolding at_t using skip [OF il i(2)] f1(2) [OF il] rel_cells_nth(2) [OF D(2) s(1) il] by simp
  qed (use t(1) in \<open>simp_all add: mr_size_def\<close>)
  then show ?thesis using at_t u'(2) \<open>u' = u\<close> by auto
qed

text \<open>The range to remove holds the position of the sequence; a rollback starts after its first position.\<close>

definition rm_hit :: "llama_seq_id \<Rightarrow> llama_pos \<Rightarrow> llama_pos \<Rightarrow> mem_recr \<Rightarrow> bool" where
  "rm_hit s p0 p1 m \<longleftrightarrow> norm_p0 p0 \<le> lpos (mr_cells m) s \<and> lpos (mr_cells m) s < norm_p1 p1"

definition rollback :: "llama_seq_id \<Rightarrow> llama_pos \<Rightarrow> mem_recr \<Rightarrow> int" where
  "rollback s p0 m = lpos (mr_cells m) s - p0 + 1"

lemma set_rs_idx_ok:
  assumes "recr_inv m" "0 \<le> s" "s < int (mr_n_seq_max m)" "x \<le> mr_n_rs_seq m"
  shows "set_rs_idx s x m = Some (m\<lparr>mr_rs_idx := (mr_rs_idx m)[nat s := x]\<rparr>)"
    "recr_inv (m\<lparr>mr_rs_idx := (mr_rs_idx m)[nat s := x]\<rparr>)"
proof -
  note D = recr_invD [OF assms(1)]
  have "u32 s < mr_n_seq_max m" using assms(2,3) D(7,8) u32_less [of s "mr_n_seq_max m"] by simp
  then show "set_rs_idx s x m = Some (m\<lparr>mr_rs_idx := (mr_rs_idx m)[nat s := x]\<rparr>)"
    using assms D(6) by (simp add: set_rs_idx_def)
  show "recr_inv (m\<lparr>mr_rs_idx := (mr_rs_idx m)[nat s := x]\<rparr>)"
    using assms(1,4) by (auto simp: recr_inv_def mr_size_def dest!: subsetD [OF set_update_subset_insert])
qed

lemma recr_inv_head: "recr_inv m \<Longrightarrow> h < mr_size m \<Longrightarrow> recr_inv (m\<lparr>mr_head := h\<rparr>)"
  by (simp add: recr_inv_def mr_size_def)

lemma recr_seq_rm_miss:
  assumes inv: "recr_inv m" and s: "0 \<le> s" "s < int (mr_n_seq_max m)" and miss: "\<not> rm_hit s p0 p1 m"
  shows "recr_seq_rm s p0 p1 m = Some (True, if norm_p0 p0 = 0 \<and> norm_p1 p1 = INT32_MAX
     then m\<lparr>mr_rs_idx := (mr_rs_idx m)[nat s := 0]\<rparr> else m)"
proof -
  let ?cs = "mr_cells m"
  note D = recr_invD [OF inv]
  have sin: "seq_in ?cs s" using s D(7) by (simp add: mr_size_def)
  have u: "\<not> mr_n_seq_max m \<le> u32 s" using s D(7,8) u32_less [of s "mr_n_seq_max m"] by simp
  define m0 where "m0 = (if norm_p0 p0 = 0 \<and> norm_p1 p1 = INT32_MAX then m\<lparr>mr_rs_idx := (mr_rs_idx m)[nat s := 0]\<rparr> else m)"
  have m0: "mr_cells m0 = ?cs" "mr_size m0 = mr_size m" by (simp_all add: m0_def mr_size_def)
  have set0: "(if norm_p0 p0 = 0 \<and> norm_p1 p1 = INT32_MAX then set_rs_idx s 0 m else Some m) = Some m0"
    using set_rs_idx_ok(1) [OF inv s, of 0] by (simp add: m0_def)
  have no: "\<not> (norm_p0 p0 \<le> mc_pos (?cs ! i) \<and> mc_pos (?cs ! i) < norm_p1 p1 \<and> s \<in> mc_seq (?cs ! i))" if "i < length ?cs" for i
    using miss tails_ok_iff [OF D(2) sin that] by (auto simp: rm_hit_def lpos_def)
  have "rm_recr_tail s (norm_p0 p0) (norm_p1 p1) m0 = Some (None, m0)"
  proof (cases "0 \<le> tail_at ?cs s")
    case True
    obtain t where t: "t < length ?cs" "tail_at ?cs s = int t" "s \<in> mc_seq (?cs ! t)" using tails_ok_nth [OF D(2) sin True] by blast
    then show ?thesis using no [OF t(1)] s seq_in_nat [OF sin] by (auto simp: rm_recr_tail_def m0)
  qed (use s seq_in_nat [OF sin] in \<open>simp add: rm_recr_tail_def m0\<close>)
  moreover have "fold (rm_recr_cell s (norm_p0 p0) (norm_p1 p1)) [0..<mr_size m] (mr_size m, m0) = (mr_size m, m0)"
    by (rule fold_id, rule rm_recr_cell_skip) (use s no in \<open>auto simp: m0 mr_size_def\<close>)
  ultimately show ?thesis
    unfolding recr_seq_rm_def Let_def set0 m0_def [symmetric] using u sin by (simp add: m0) (simp add: mr_size_def)
qed

lemma recr_seq_rm_whole:
  assumes inv: "recr_inv m" and s: "0 \<le> s" "s < int (mr_n_seq_max m)" and hit: "rm_hit s p0 p1 m" and p0: "p0 \<le> 0"
  shows "\<exists>m'. recr_seq_rm s p0 p1 m = Some (True, m') \<and> recr_inv m' \<and> mr_cells m' = rel_cells s (mr_cells m) \<and>
    mr_rs_idx m' = (if norm_p1 p1 = INT32_MAX then (mr_rs_idx m)[nat s := 0] else mr_rs_idx m) \<and>
    mr_n_seq_max m' = mr_n_seq_max m \<and> mr_n_rs_seq m' = mr_n_rs_seq m"
proof -
  let ?cs = "mr_cells m"
  note D = recr_invD [OF inv]
  have r0: "norm_p0 p0 = 0" using p0 by (simp add: norm_p0_def)
  have sin: "seq_in ?cs s" using s D(7) by (simp add: mr_size_def)
  have u: "\<not> mr_n_seq_max m \<le> u32 s" using s D(7,8) u32_less [of s "mr_n_seq_max m"] by simp
  define m0 where "m0 = (if norm_p1 p1 = INT32_MAX then m\<lparr>mr_rs_idx := (mr_rs_idx m)[nat s := 0]\<rparr> else m)"
  have m0: "mr_cells m0 = ?cs" "mr_size m0 = mr_size m" "recr_inv m0" "mr_head m0 = mr_head m"
    "mr_rs_idx m0 = (if norm_p1 p1 = INT32_MAX then (mr_rs_idx m)[nat s := 0] else mr_rs_idx m)"
    "mr_n_seq_max m0 = mr_n_seq_max m" "mr_n_rs_seq m0 = mr_n_rs_seq m"
    using set_rs_idx_ok(2) [OF inv s, of 0] inv by (simp_all add: m0_def mr_size_def)
  have set0: "(if 0 = (0 :: int) \<and> norm_p1 p1 = INT32_MAX then set_rs_idx s 0 m else Some m) = Some m0"
    using set_rs_idx_ok(1) [OF inv s, of 0] by (simp add: m0_def)
  have t0: "0 \<le> tail_at ?cs s" using hit r0 by (auto simp: rm_hit_def lpos_def split: if_splits)
  obtain t where t: "t < length ?cs" "tail_at ?cs s = int t" "s \<in> mc_seq (?cs ! t)" using tails_ok_nth [OF D(2) sin t0] by blast
  have h: "0 \<le> mc_pos (?cs ! t)" "mc_pos (?cs ! t) < norm_p1 p1" using hit r0 t(2) by (simp_all add: rm_hit_def lpos_def)
  have tl: "rm_recr_tail s 0 (norm_p1 p1) m0 = Some (None, m0\<lparr>mr_cells := cell_upd (nat s) (mc_tail_update (\<lambda>_. -1)) ?cs\<rparr>)"
    using s t h seq_in_nat [OF sin] by (simp add: rm_recr_tail_def m0)
  obtain h' u' where L: "fold (rm_recr_cell s 0 (norm_p1 p1)) [0..<mr_size m]
      (mr_size m, m0\<lparr>mr_cells := cell_upd (nat s) (mc_tail_update (\<lambda>_. -1)) ?cs\<rparr>) =
      (h', m0\<lparr>mr_cells := rel_cells s ?cs, mr_used := u'\<rparr>)" "recr_inv (m0\<lparr>mr_cells := rel_cells s ?cs, mr_used := u'\<rparr>)"
    using rm_loop_hit [OF m0(3), of s t 0 "norm_p1 p1"] sin t(2) h m0 by auto
  let ?m2 = "m0\<lparr>mr_cells := rel_cells s ?cs, mr_used := u'\<rparr>"
  let ?m3 = "if h' \<noteq> mr_size m \<and> h' < mr_head m then ?m2\<lparr>mr_head := h'\<rparr> else ?m2"
  have sz: "mr_size ?m2 = mr_size m" "length (rel_cells s ?cs) = length ?cs" using rel_cells_spec(5) [OF D(1) sin] by (simp_all add: mr_size_def)
  have "recr_seq_rm s p0 p1 m = Some (True, ?m3)"
    unfolding recr_seq_rm_def Let_def r0 set0 using u sin tl L(1) sz m0 by (simp add: mr_size_def)
  moreover have "h' < mr_size m" if "h' < mr_head m" using that D(5) by simp
  then have "recr_inv ?m3" using L(2) recr_inv_head [OF L(2), of h'] sz by simp
  ultimately show ?thesis using m0 by (intro exI [of _ ?m3]) simp
qed

lemma recr_seq_rm_tail:
  assumes inv: "recr_inv m" and s: "0 \<le> s" "s < int (mr_n_seq_max m)" and hit: "rm_hit s p0 p1 m" and p0: "0 < p0"
  shows "recr_seq_rm s p0 p1 m = Some (if mr_rs_idx m ! nat s = 0 \<and> rollback s p0 m \<le> int (mr_n_rs_seq m)
    then (True, m\<lparr>mr_rs_idx := (mr_rs_idx m)[nat s := nat (rollback s p0 m)],
      mr_cells := cell_upd (nat (tail_at (mr_cells m) s)) (mc_pos_update (\<lambda>_. p0 - 1)) (mr_cells m)\<rparr>)
    else (False, m))"
proof -
  let ?cs = "mr_cells m"
  note D = recr_invD [OF inv]
  have r0: "norm_p0 p0 = p0" using p0 by (simp add: norm_p0_def)
  have sin: "seq_in ?cs s" using s D(7) by (simp add: mr_size_def)
  have u: "\<not> mr_n_seq_max m \<le> u32 s" using s D(7,8) u32_less [of s "mr_n_seq_max m"] by simp
  have t0: "0 \<le> tail_at ?cs s" using hit r0 p0 by (auto simp: rm_hit_def lpos_def split: if_splits)
  obtain t where t: "t < length ?cs" "tail_at ?cs s = int t" "s \<in> mc_seq (?cs ! t)" using tails_ok_nth [OF D(2) sin t0] by blast
  have h: "p0 \<le> mc_pos (?cs ! t)" "mc_pos (?cs ! t) < norm_p1 p1" and l: "lpos ?cs s = mc_pos (?cs ! t)"
    using hit r0 t(2) by (simp_all add: rm_hit_def lpos_def)
  have idx: "nat s < length (mr_rs_idx m)" using s D(6) by (simp add: nat_less_iff)
  have rb: "mc_pos (?cs ! t) - (p0 - 1) = rollback s p0 m" "1 \<le> rollback s p0 m" using h l by (simp_all add: rollback_def)
  have "rm_recr_tail s p0 (norm_p1 p1) m = Some (if mr_rs_idx m ! nat s = 0 \<and> rollback s p0 m \<le> int (mr_n_rs_seq m)
    then (Some True, m\<lparr>mr_rs_idx := (mr_rs_idx m)[nat s := nat (rollback s p0 m)],
      mr_cells := cell_upd (nat (tail_at ?cs s)) (mc_pos_update (\<lambda>_. p0 - 1)) ?cs\<rparr>) else (Some False, m))"
  proof (cases "mr_rs_idx m ! nat s = 0 \<and> rollback s p0 m \<le> int (mr_n_rs_seq m)")
    case True
    then have "nat (rollback s p0 m) \<le> mr_n_rs_seq m" by linarith
    from set_rs_idx_ok(1) [OF inv s this] True show ?thesis
      using s t h p0 seq_in_nat [OF sin] idx rb unfolding rm_recr_tail_def by (simp add: Let_def)
  next
    case False
    then show ?thesis using s t h p0 seq_in_nat [OF sin] idx rb unfolding rm_recr_tail_def by (auto simp: Let_def)
  qed
  then show ?thesis unfolding recr_seq_rm_def Let_def r0 using u sin p0 by (simp add: mr_size_def)
qed

text \<open>All that \<open>seq_rm\<close> does.\<close>

lemma recr_seq_rm_spec:
  assumes inv: "recr_inv m" and s: "seq_int s"
  shows "\<exists>b m'. recr_seq_rm s p0 p1 m = Some (b, m') \<and> recr_inv m' \<and> frees_only m m' \<and>
    mr_n_seq_max m' = mr_n_seq_max m \<and> mr_n_rs_seq m' = mr_n_rs_seq m \<and>
    (b \<longleftrightarrow> 0 \<le> s \<and> s < int (mr_n_seq_max m) \<and>
       (0 < p0 \<and> rm_hit s p0 p1 m \<longrightarrow> mr_rs_idx m ! nat s = 0 \<and> rollback s p0 m \<le> int (mr_n_rs_seq m))) \<and>
    (\<not> b \<longrightarrow> m' = m) \<and>
    (b \<longrightarrow> (\<forall>q. seq_in (mr_cells m) q \<longrightarrow>
       tail_at (mr_cells m') q = (if q = s \<and> rm_hit s p0 p1 m \<and> p0 \<le> 0 then -1 else tail_at (mr_cells m) q) \<and>
       lpos (mr_cells m') q = (if rm_hit s p0 p1 m then if p0 \<le> 0 then if q = s then -1 else lpos (mr_cells m) q
         else if tail_at (mr_cells m) q = tail_at (mr_cells m) s then p0 - 1 else lpos (mr_cells m) q else lpos (mr_cells m) q)))"
proof -
  let ?cs = "mr_cells m"
  note D = recr_invD [OF inv]
  consider (out) "\<not> (0 \<le> s \<and> s < int (mr_n_seq_max m))" | (miss) "0 \<le> s" "s < int (mr_n_seq_max m)" "\<not> rm_hit s p0 p1 m"
    | (whole) "0 \<le> s" "s < int (mr_n_seq_max m)" "rm_hit s p0 p1 m" "p0 \<le> 0"
    | (tail) "0 \<le> s" "s < int (mr_n_seq_max m)" "rm_hit s p0 p1 m" "0 < p0" by linarith
  then show ?thesis
  proof cases
    case out
    then have "mr_n_seq_max m \<le> u32 s" using u32_less [OF s, of "mr_n_seq_max m"] D(7,8) by linarith
    then have "recr_seq_rm s p0 p1 m = Some (False, m)" by (simp add: recr_seq_rm_def)
    then show ?thesis using inv out by auto
  next
    case miss
    let ?m0 = "m\<lparr>mr_rs_idx := (mr_rs_idx m)[nat s := 0]\<rparr>"
    have "recr_inv ?m0" by (rule set_rs_idx_ok(2) [OF inv miss(1,2)]) simp
    then show ?thesis using inv recr_seq_rm_miss [OF inv miss] miss
      by (cases "norm_p0 p0 = 0 \<and> norm_p1 p1 = INT32_MAX") auto
  next
    case whole
    have sin: "seq_in ?cs s" using whole(1,2) D(7) by (simp add: mr_size_def)
    note R = rel_cells_spec [OF D(1) sin]
    obtain m' where m': "recr_seq_rm s p0 p1 m = Some (True, m')" "recr_inv m'" "mr_cells m' = rel_cells s ?cs"
      "mr_n_seq_max m' = mr_n_seq_max m" "mr_n_rs_seq m' = mr_n_rs_seq m"
      using recr_seq_rm_whole [OF inv whole] by blast
    have "tail_at (mr_cells m') q = (if q = s then -1 else tail_at ?cs q) \<and> lpos (mr_cells m') q = (if q = s then -1 else lpos ?cs q)"
      if "seq_in ?cs q" for q
      using R(2,3) [OF that] by (auto simp: m'(3) lpos_def)
    moreover have "frees_only m m'" by (rule frees_only_rel [OF D(1) sin m'(3)])
    ultimately show ?thesis using m' whole by (intro exI [of _ True] exI [of _ m']) simp
  next
    case tail
    have sin: "seq_in ?cs s" using tail(1,2) D(7) by (simp add: mr_size_def)
    have t0: "0 \<le> tail_at ?cs s" using tail(3,4) by (auto simp: rm_hit_def lpos_def norm_p0_def split: if_splits)
    obtain t where t: "t < length ?cs" "tail_at ?cs s = int t" "s \<in> mc_seq (?cs ! t)" using tails_ok_nth [OF D(2) sin t0] by blast
    have "mc_seq (?cs ! t) \<noteq> {}" "0 \<le> p0 - 1" using t(3) tail(4) by auto
    note P = cells_ok_pos [OF D(1) t(1) this]
    note run = recr_seq_rm_tail [OF inv tail]
    show ?thesis
    proof (cases "mr_rs_idx m ! nat s = 0 \<and> rollback s p0 m \<le> int (mr_n_rs_seq m)")
      case True
      let ?m' = "m\<lparr>mr_rs_idx := (mr_rs_idx m)[nat s := nat (rollback s p0 m)],
        mr_cells := cell_upd (nat (tail_at ?cs s)) (mc_pos_update (\<lambda>_. p0 - 1)) ?cs\<rparr>"
      have "nat (rollback s p0 m) \<le> mr_n_rs_seq m" using True by linarith
      from set_rs_idx_ok(2) [OF inv tail(1,2) this] have "recr_inv ?m'" using P(1,2) by (simp add: recr_inv_def mr_size_def t(2))
      moreover have "frees_only m ?m'" by (simp add: frees_only_def mr_size_def)
      moreover have "tail_at (mr_cells ?m') q = tail_at ?cs q \<and>
          lpos (mr_cells ?m') q = (if tail_at ?cs q = tail_at ?cs s then p0 - 1 else lpos ?cs q)" if "seq_in ?cs q" for q
        using P(3,4) [OF that] by (simp add: t(2))
      ultimately show ?thesis using run True tail by (intro exI [of _ True] exI [of _ ?m']) simp
    next
      case False
      then show ?thesis using run inv tail by (intro exI [of _ False] exI [of _ m]) auto
    qed
  qed
qed

subsection \<open>Batches\<close>

lemma slot_found_config:
  assumes "slot_found ub m m'"
  shows "mr_size m' = mr_size m" "mr_rs_idx m' = mr_rs_idx m" "mr_n_rs_seq m' = mr_n_rs_seq m" "mr_n_seq_max m' = mr_n_seq_max m"
  using slot_foundD(1-4) [OF assms] by (simp_all add: mr_size_def)

lemma recr_place_spec:
  assumes "recr_inv m" "\<forall>ub \<in> set ubs. rub_ok (mr_size m) ub"
  shows "\<exists>m'. recr_place ubs m = Some (True, m') \<and> recr_inv m' \<and> mr_size m' = mr_size m \<and> mr_rs_idx m' = mr_rs_idx m \<and>
    mr_n_rs_seq m' = mr_n_rs_seq m \<and> mr_n_seq_max m' = mr_n_seq_max m"
  using assms
proof (induction ubs arbitrary: m)
  case (Cons ub ubs)
  have "rub_ok (mr_size m) ub" using Cons.prems(2) by simp
  from find_slot_found [OF Cons.prems(1) this] obtain m1 where
    m1: "recr_find_slot ub m = Some (True, m1)" "recr_inv m1" "slot_found ub m m1" by blast
  note C = slot_found_config [OF m1(3)]
  have "\<forall>ub \<in> set ubs. rub_ok (mr_size m1) ub" using Cons.prems(2) C(1) by simp
  from Cons.IH [OF m1(2) this] show ?case using m1(1) C by auto
qed auto

lemma recr_prepare_spec:
  assumes inv: "recr_inv m" and ubs: "\<forall>ub \<in> set ubs. rub_ok (mr_size m) ub"
  shows "\<exists>z n. recr_prepare ubs m = Some (True, m\<lparr>mr_rs_z := z, mr_n := n\<rparr>) \<and> recr_inv (m\<lparr>mr_rs_z := z, mr_n := n\<rparr>)"
proof -
  obtain m' where m': "recr_place ubs m = Some (True, m')" "mr_rs_idx m' = mr_rs_idx m"
    "mr_n_rs_seq m' = mr_n_rs_seq m" "mr_n_seq_max m' = mr_n_seq_max m"
    using recr_place_spec [OF assms] by blast
  have "m'\<lparr>mr_cells := mr_cells m, mr_used := mr_used m, mr_head := mr_head m\<rparr> = m\<lparr>mr_rs_z := mr_rs_z m', mr_n := mr_n m'\<rparr>"
    using m'(2-4) by (cases m; cases m') simp
  then have "recr_prepare ubs m = Some (True, m\<lparr>mr_rs_z := mr_rs_z m', mr_n := mr_n m'\<rparr>)"
    using m'(1) by (simp add: recr_prepare_def)
  then show ?thesis using inv by (auto simp: recr_inv_def mr_size_def)
qed

end
