(* ===== verification/RecurrentBatch.thy ===== *)
theory RecurrentBatch
  imports RecurrentOps KvPlace
begin

section \<open>From an accepted batch to the recurrent memory\<close>

text \<open>
  What \<open>find_slot\<close> asks of a ubatch holds of those that \<open>split_equal\<close> and \<open>split_seq\<close> make of an
  accepted batch.
\<close>

lemma concat_same_nth:
  assumes "\<forall>xs \<in> set xss. length xs = k" "a < length xss" "j < k"
  shows "concat xss ! (a * k + j) = xss ! a ! j"
  using assms
proof (induction xss arbitrary: a)
  case (Cons xs xss)
  then show ?case
  proof (cases a)
    case (Suc b)
    have "Suc b * k + j = length xs + (b * k + j)" using Cons.prems(1) by simp
    then show ?thesis using Cons Suc by (simp add: nth_append del: mult_Suc)
  qed (simp add: nth_append)
qed simp

lemma ubatch_rub_ok:
  assumes ub: "splits_into al idxs ub" "equal_seqs ub" "ub_n_seqs ub = n" "ub_n_seq_tokens ub = k" "0 < n" "0 < k" "length idxs = k * n"
    and idxs: "set idxs \<subseteq> {..<al_tokens al}" and toks: "tokens_ok N (al_batch al)" "0 < al_n_pos_per_embd al"
    and apart: "\<And>a b. a < n \<Longrightarrow> b < n \<Longrightarrow> a \<noteq> b \<Longrightarrow>
      set (tok_seqs (al_batch al) (idxs ! (a * k))) \<inter> set (tok_seqs (al_batch al) (idxs ! (b * k))) = {}"
  shows "rub_ok N ub"
proof -
  let ?b = "al_batch al"
  have in_k: "a * k + j < length idxs" if "a < n" "j < k" for a j
  proof -
    have "a * k + j < Suc a * k" using that by simp
    also have "\<dots> \<le> n * k" using that by (intro mult_le_mono1) simp
    finally show ?thesis using ub(7) by (simp add: mult.commute)
  qed
  have tok: "0 \<le> tok_pos ?b (idxs ! i)" "tok_seqs ?b (idxs ! i) \<noteq> []" "distinct (tok_seqs ?b (idxs ! i))"
    "\<forall>q \<in> set (tok_seqs ?b (idxs ! i)). 0 \<le> q \<and> q < int N" if "i < length idxs" for i
  proof -
    have "idxs ! i < bt_n_tokens ?b" using subsetD [OF idxs nth_mem [OF that]] by (simp add: al_tokens_def)
    then show "0 \<le> tok_pos ?b (idxs ! i)" "tok_seqs ?b (idxs ! i) \<noteq> []" "distinct (tok_seqs ?b (idxs ! i))"
      "\<forall>q \<in> set (tok_seqs ?b (idxs ! i)). 0 \<le> q \<and> q < int N" using toks(1) by (auto simp: tokens_ok_def)
  qed
  have first: "fs_first ub a = a * k" for a by (simp add: fs_first_def ub(4))
  have seqs: "fs_seqs ub a = tok_seqs ?b (idxs ! (a * k))" if "a < n" for a
    using in_k [OF that ub(6)] ub(1) unfolding fs_seqs_def first splits_into_def
    by (simp add: gather_def tok_seqs_def tok_n_seq_def)
  have "last_pos ub a = tok_pos ?b (idxs ! (a * k + (k - 1)))" if "a < n" for a
  proof -
    have e: "a * k + k - 1 = a * k + (k - 1)" using ub(6) by linarith
    have "ub_pos ub ! (a * k + (k - 1)) = tok_pos ?b (idxs ! (a * k + (k - 1)))"
      using gather_pos_nth [OF toks(2) in_k [OF that, of "k - 1"]] ub(1,6) unfolding splits_into_def by simp
    then show ?thesis unfolding last_pos_def first ub(4) e .
  qed
  moreover have "0 \<le> tok_pos ?b (idxs ! (a * k + (k - 1)))" if "a < n" for a
    using ub(6) by (intro tok(1) in_k [OF that]) simp
  ultimately have "0 \<le> last_pos ub a" if "a < n" for a using that by metis
  then show ?thesis
    unfolding rub_ok_def ub(3) using ub(2,5,6) seqs tok(2-4) [OF in_k [of _ 0]] apart by simp
qed

text \<open>What a split leaves of the allocator.\<close>

lemma card_unused_marked:
  assumes "length (al_used al) = al_tokens al" "idxs \<noteq> []" "set idxs \<subseteq> unused al"
  shows "card (unused ((marked (set idxs) al)\<lparr>al_out_ids := o_ids\<rparr>)) < card (unused al)"
proof -
  have "unused ((marked (set idxs) al)\<lparr>al_out_ids := o_ids\<rparr>) = unused al - set idxs" by (simp add: unused_marked [OF assms(1)])
  moreover have "unused al - set idxs \<subset> unused al" using assms(2,3) by (cases idxs) auto
  ultimately show ?thesis using psubset_card_mono [OF finite_unused] by simp
qed

text \<open>\<open>split_equal\<close>\<close>

lemma split_equal_rub:
  assumes ok: "equal_ok sequential al" "unused al \<noteq> {}" "n_keep_tail = 0 \<or> n_keep_tail < n_ubatch"
    and toks: "tokens_ok N (al_batch al)" "0 < al_n_pos_per_embd al" "seq_sets_ok al"
  shows "\<exists>ub al1. split_equal n_ubatch sequential n_keep_tail al = Some (ub, al1) \<and> rub_ok N ub \<and> 0 < ub_n_tokens ub \<and>
    equal_ok sequential al1 \<and> al_batch al1 = al_batch al \<and> al_n_pos_per_embd al1 = al_n_pos_per_embd al \<and>
    seq_sets_ok al1 \<and> card (unused al1) < card (unused al)"
proof -
  obtain ls where ls: "split_equal n_ubatch sequential n_keep_tail al =
      ubatch_add (chosen ls) (length ls) True (marked (set (chosen ls)) al)"
    "split_choice al (chosen ls) (length ls)" "equal_ok sequential (marked (set (chosen ls)) al)" "lanes_ok al ls" "lanes_apart al ls"
    "\<forall>l \<in> set ls. length (ln_idxs l) = length (chosen ls) div length ls"
    using split_equal_choice [OF ok] by blast
  let ?al = "marked (set (chosen ls)) al" and ?n = "length ls" and ?k = "length (chosen ls) div length ls"
  have ch: "chosen ls \<noteq> []" "0 < ?n" "length (chosen ls) mod ?n = 0" "set (chosen ls) \<subseteq> unused al"
    using ls(2) by (simp_all add: split_choice_def)
  have len: "length (chosen ls) = ?k * ?n" using ch(3) by (metis div_mult_mod_eq add_0_right)
  have k: "0 < ?k" using ch(1) len by (cases "?k = 0") simp_all
  have alu: "length (al_used al) = al_tokens al" using ok(1) by (simp add: equal_ok_def al_ok_def)
  obtain ub where ub: "ubatch_add (chosen ls) ?n True ?al = Some (ub, ?al\<lparr>al_out_ids := al_out_ids ?al @ output_ids ?al (chosen ls)\<rparr>)"
    "splits_into ?al (chosen ls) ub" "ub_n_seqs ub = ?n" "ub_b_equal_seqs ub" "ub_n_seq_tokens ub = ?k"
    using ubatch_add_choice [OF ch(2,3), of True ?al] by blast
  have lt: "set (chosen ls) \<subseteq> {..<al_tokens al}" using ch(4) by (auto simp: unused_def)
  have head: "chosen ls ! (a * ?k) \<in> set (ln_all (ls ! a))" if "a < ?n" for a
  proof -
    have "chosen ls ! (a * ?k + 0) = ln_idxs (ls ! a) ! 0"
      unfolding chosen_def by (subst concat_same_nth) (use that ls(6) k in \<open>auto simp: chosen_def\<close>)
    moreover have "ln_idxs (ls ! a) ! 0 \<in> set (ln_idxs (ls ! a))" using that ls(6) k by simp
    moreover have "lane_ok al (ls ! a)" using ls(4) that by (simp add: lanes_ok_def)
    ultimately show ?thesis using lane_ok_sets(1) by fastforce
  qed
  have "rub_ok N ub"
  proof (rule ubatch_rub_ok [OF ub(2) _ ub(3,5) ch(2) k len])
    show "set (tok_seqs (al_batch ?al) (chosen ls ! (a * ?k))) \<inter> set (tok_seqs (al_batch ?al) (chosen ls ! (b * ?k))) = {}"
      if a: "a < ?n" and b: "b < ?n" and ne: "a \<noteq> b" for a b
    proof -
      have "a * ?k < ?n * ?k" "b * ?k < ?n * ?k" using a b k by (simp_all only: mult_less_cancel2)
      then have "a * ?k < length (chosen ls)" "b * ?k < length (chosen ls)" using len by (metis mult.commute)+
      then have "chosen ls ! (a * ?k) < al_tokens al" "chosen ls ! (b * ?k) < al_tokens al" using lt nth_mem by blast+
      moreover have "al_seq_set al ! (chosen ls ! (a * ?k)) \<inter> al_seq_set al ! (chosen ls ! (b * ?k)) = {}"
        using ls(5) a b ne head [OF a] head [OF b] unfolding lanes_apart_def by blast
      ultimately show ?thesis using toks(3) by (simp add: seq_sets_ok_def)
    qed
  qed (use lt toks ub(4) in \<open>simp_all add: equal_seqs_def\<close>)
  moreover note card_unused_marked [OF alu ch(1,4), of "al_out_ids ?al @ output_ids ?al (chosen ls)"]
  moreover have "0 < ub_n_tokens ub" using ub(2) ch(1) by (simp add: splits_into_def)
  ultimately show ?thesis using ls(1,3) ub(1) toks(3)
    by (intro exI [of _ ub] exI [of _ "?al\<lparr>al_out_ids := al_out_ids ?al @ output_ids ?al (chosen ls)\<rparr>"])
      (simp add: seq_sets_ok_def equal_ok_def)
qed

text \<open>\<open>split_seq\<close>\<close>

lemma split_seq_rub:
  assumes ok: "al_ok al" "unused al \<noteq> {}"
    and toks: "tokens_ok N (al_batch al)" "0 < al_n_pos_per_embd al" "seq_sets_ok al"
  shows "\<exists>ub al1. split_seq n_ubatch al = Some (ub, al1) \<and> rub_ok N ub \<and> 0 < ub_n_tokens ub \<and>
    al_ok al1 \<and> al_batch al1 = al_batch al \<and> al_n_pos_per_embd al1 = al_n_pos_per_embd al \<and>
    seq_sets_ok al1 \<and> card (unused al1) < card (unused al)"
proof -
  from split_seq_idxs_eq [OF ok, of n_ubatch] obtain idxs where
    idxs: "split_seq_idxs n_ubatch al = Some (idxs, marked (set idxs) al)" "seq_chain al idxs"
      "idxs \<noteq> []" "hd idxs = first_unused (al_used al)" by blast
  let ?al = "marked (set idxs) al"
  have un: "set idxs \<subseteq> unused al" using idxs(2) by (simp add: seq_chain_def)
  have alu: "length (al_used al) = al_tokens al" using ok(1) by (simp add: al_ok_def)
  obtain ub where ub: "ubatch_add idxs 1 True ?al = Some (ub, ?al\<lparr>al_out_ids := al_out_ids ?al @ output_ids ?al idxs\<rparr>)"
    "splits_into ?al idxs ub" "ub_n_seqs ub = 1" "ub_b_equal_seqs ub" "ub_n_seq_tokens ub = length idxs"
    using ubatch_add_choice [of 1 idxs True ?al] by auto
  have "rub_ok N ub"
    by (rule ubatch_rub_ok [OF ub(2) _ ub(3,5)]) (use un toks ub(4) idxs(3) in \<open>auto simp: equal_seqs_def unused_def\<close>)
  moreover have "split_seq n_ubatch al = Some (ub, ?al\<lparr>al_out_ids := al_out_ids ?al @ output_ids ?al idxs\<rparr>)"
    using idxs(1) ub(1) by (simp add: split_seq_def)
  moreover have "0 < ub_n_tokens ub" using ub(2) idxs(3) by (simp add: splits_into_def)
  moreover note card_unused_marked [OF alu idxs(3) un, of "al_out_ids ?al @ output_ids ?al idxs"]
  ultimately show ?thesis using seq_chain_ok [OF ok(1) idxs(2,4)] toks(3)
    by (intro exI [of _ ub] exI [of _ "?al\<lparr>al_out_ids := al_out_ids ?al @ output_ids ?al idxs\<rparr>"]) (simp add: seq_sets_ok_def)
qed

text \<open>Draining the batch.\<close>

lemma drain_all:
  assumes stop: "\<And>al. P al \<Longrightarrow> unused al = {} \<Longrightarrow> split al = Some (ubatch_none, al)"
    and step: "\<And>al. P al \<Longrightarrow> unused al \<noteq> {} \<Longrightarrow> \<exists>ub al1. split al = Some (ub, al1) \<and> Q ub \<and> 0 < ub_n_tokens ub \<and>
      P al1 \<and> card (unused al1) < card (unused al)"
    and P: "P al"
  shows "\<exists>ubs' al'. split_all split al ubs = Some (ubs @ ubs', al') \<and> (\<forall>ub \<in> set ubs'. Q ub)"
  using P
proof (induction "card (unused al)" arbitrary: al ubs rule: less_induct)
  case less
  show ?case
  proof (cases "unused al = {}")
    case True
    then have "split_all split al ubs = Some (ubs @ [], al)"
      by (subst split_all.simps) (simp add: stop [OF less.prems] ubatch_none_def)
    then show ?thesis by (intro exI [of _ "[]"] exI [of _ al]) simp
  next
    case False
    obtain ub al1 where s: "split al = Some (ub, al1)" "Q ub" "0 < ub_n_tokens ub" "P al1" "card (unused al1) < card (unused al)"
      using step [OF less.prems False] by blast
    obtain ubs' al' where "split_all split al1 (ubs @ [ub]) = Some ((ubs @ [ub]) @ ubs', al')" "\<forall>ub \<in> set ubs'. Q ub"
      using less.hyps [OF s(5,4)] by blast
    then have "split_all split al ubs = Some (ubs @ (ub # ubs'), al')"
      using s(1,3) by (subst split_all.simps) simp
    then show ?thesis using s(2) \<open>\<forall>ub \<in> set ubs'. Q ub\<close> by (intro exI [of _ "ub # ubs'"] exI [of _ al']) simp
  qed
qed

lemma drain_equal:
  assumes ok: "equal_ok sequential al" "n_keep_tail = 0 \<or> n_keep_tail < n_ubatch"
    and toks: "tokens_ok N (al_batch al)" "0 < al_n_pos_per_embd al" "seq_sets_ok al"
  shows "\<exists>idxss ubs al'. split_all (split_equal n_ubatch sequential n_keep_tail) al [] = Some (ubs, al') \<and>
    list_all2 (splits_into al) idxss ubs \<and> distinct (concat idxss) \<and> set (concat idxss) = unused al \<and>
    al_n_used al' = al_tokens al \<and> al_batch al' = al_batch al \<and> (\<forall>ub \<in> set ubs. rub_ok N ub)"
proof -
  have arg: "tail_arg n_ubatch n_keep_tail = n_keep_tail" using ok(2) by (auto simp: tail_arg_def)
  let ?P = "\<lambda>a. equal_ok sequential a \<and> al_batch a = al_batch al \<and> al_n_pos_per_embd a = al_n_pos_per_embd al \<and> seq_sets_ok a"
  have "\<exists>ubs' al'. split_all (split_equal n_ubatch sequential n_keep_tail) al [] = Some ([] @ ubs', al') \<and> (\<forall>ub \<in> set ubs'. rub_ok N ub)"
  proof (rule drain_all [where P = ?P])
    show "split_equal n_ubatch sequential n_keep_tail a = Some (ubatch_none, a)" if "?P a" "unused a = {}" for a
      using equal.split_done [of sequential a n_ubatch n_keep_tail] that arg by simp
    show "\<exists>ub al1. split_equal n_ubatch sequential n_keep_tail a = Some (ub, al1) \<and> rub_ok N ub \<and> 0 < ub_n_tokens ub \<and>
        ?P al1 \<and> card (unused al1) < card (unused a)" if "?P a" "unused a \<noteq> {}" for a
      using split_equal_rub [of sequential a n_keep_tail n_ubatch N] that ok(2) toks by auto
  qed (use ok toks in simp)
  then show ?thesis using equal.split_all_total [OF ok(1), of n_ubatch n_keep_tail "[]"] arg by auto
qed

lemma drain_seq:
  assumes ok: "al_ok al" and toks: "tokens_ok N (al_batch al)" "0 < al_n_pos_per_embd al" "seq_sets_ok al"
  shows "\<exists>idxss ubs al'. split_all (split_seq n_ubatch) al [] = Some (ubs, al') \<and>
    list_all2 (splits_into al) idxss ubs \<and> distinct (concat idxss) \<and> set (concat idxss) = unused al \<and>
    al_n_used al' = al_tokens al \<and> al_batch al' = al_batch al \<and> (\<forall>ub \<in> set ubs. rub_ok N ub)"
proof -
  let ?P = "\<lambda>a. al_ok a \<and> al_batch a = al_batch al \<and> al_n_pos_per_embd a = al_n_pos_per_embd al \<and> seq_sets_ok a"
  have "\<exists>ubs' al'. split_all (split_seq n_ubatch) al [] = Some ([] @ ubs', al') \<and> (\<forall>ub \<in> set ubs'. rub_ok N ub)"
  proof (rule drain_all [where P = ?P])
    show "split_seq n_ubatch a = Some (ubatch_none, a)" if "?P a" "unused a = {}" for a
      using seq.split_done that by simp
    show "\<exists>ub al1. split_seq n_ubatch a = Some (ub, al1) \<and> rub_ok N ub \<and> 0 < ub_n_tokens ub \<and>
        ?P al1 \<and> card (unused al1) < card (unused a)" if "?P a" "unused a \<noteq> {}" for a
      using split_seq_rub [of a N n_ubatch] that toks by auto
  qed (use ok toks in simp)
  then show ?thesis using seq.split_all_total [OF ok, of n_ubatch "[]"] by auto
qed

lemma accepted_sets:
  assumes "has_seqs b" "allocr_init al b n_vocab mem n_embd n_seq_max output_all = Some (Inr al0)"
  shows "al_ok al0" "seq_sets_ok al0"
proof -
  note al0 = allocr_init_Inr(1) [OF assms(2)]
  show "al_ok al0" "seq_sets_ok al0" using init_ready(1,6) [OF assms(1)] by (simp_all add: al0)
qed

text \<open>The tail that must stay together, when there are snapshots to roll back to.\<close>

definition rs_keep_tail :: "mem_recr \<Rightarrow> nat" where
  "rs_keep_tail m = (if mr_n_rs_seq m > 0 then mr_n_rs_seq m + 1 else 0)"

lemma recr_init_batch_spec:
  assumes b: "has_seqs b" "allocr_init al b n_vocab mem n_embd n_seq_max output_all = Some (Inr al0)"
    and toks: "tokens_ok n_seq_max (al_batch al0)" "0 < al_n_pos_per_embd al"
    and m: "recr_inv m" "n_seq_max \<le> mr_size m" "rs_keep_tail m < n_ubatch"
  shows "\<exists>al'. if al_has_cpl al0 \<and> \<not> embd_all then recr_init_batch n_ubatch embd_all al0 m = Some (None, al', m)
    else (\<exists>ubs z n. recr_init_batch n_ubatch embd_all al0 m = Some (Some ubs, al', m\<lparr>mr_rs_z := z, mr_n := n\<rparr>) \<and>
      (\<exists>idxss. list_all2 (splits_into al0) idxss ubs \<and> distinct (concat idxss) \<and> set (concat idxss) = {..<bt_n_tokens b}) \<and>
      (\<exists>m2. recr_place ubs m = Some (True, m2) \<and> recr_inv m2))"
proof -
  note A = accepted_ok [OF b] and S = accepted_sets [OF b]
  have tok: "tokens_ok (mr_size m) (al_batch al0)" using toks(1) m(2) by (force simp: tokens_ok_def)
  have pos: "0 < al_n_pos_per_embd al0" using toks(2) A(9) by simp
  let ?keep = "rs_keep_tail m"
  let ?split = "\<lambda>al. if embd_all then split_seq n_ubatch al else split_equal n_ubatch True ?keep al"
  have n: "bt_n_tokens (al_batch al0) = bt_n_tokens b" using A(2) by (simp add: al_tokens_def)
  show ?thesis
  proof (cases "al_has_cpl al0 \<and> \<not> embd_all")
    case True
    then have "split_equal n_ubatch True ?keep al0 = Some (ubatch_none, al0)"
      by (simp add: split_equal_def split_equal_idxs_def)
    then have "split_all (split_equal n_ubatch True ?keep) al0 [] = Some ([], al0)"
      by (subst split_all.simps) (simp add: ubatch_none_def)
    then have "recr_init_batch n_ubatch embd_all al0 m = Some (None, al0, m)"
      using True A(3,4,7) n by (simp add: recr_init_batch_def Let_def rs_keep_tail_def)
    then show ?thesis using True by auto
  next
    case False
    have "\<exists>idxss ubs al'. split_all ?split al0 [] = Some (ubs, al') \<and>
      list_all2 (splits_into al0) idxss ubs \<and> distinct (concat idxss) \<and> set (concat idxss) = unused al0 \<and>
      al_n_used al' = al_tokens al0 \<and> al_batch al' = al_batch al0 \<and> (\<forall>ub \<in> set ubs. rub_ok (mr_size m) ub)"
    proof (cases embd_all)
      case True
      then show ?thesis using drain_seq [OF S(1) tok pos S(2), of n_ubatch] by simp
    next
      case f: False
      have "equal_ok True al0" using S(1) False f by (simp add: equal_ok_def)
      then show ?thesis using drain_equal [OF _ _ tok pos S(2), of True ?keep n_ubatch] m(3) f by simp
    qed
    then obtain idxss ubs al' where D: "split_all ?split al0 [] = Some (ubs, al')"
      "list_all2 (splits_into al0) idxss ubs" "distinct (concat idxss)" "set (concat idxss) = unused al0"
      "al_n_used al' = al_tokens al0" "al_batch al' = al_batch al0" "\<forall>ub \<in> set ubs. rub_ok (mr_size m) ub" by blast
    obtain z k where P: "recr_prepare ubs m = Some (True, m\<lparr>mr_rs_z := z, mr_n := k\<rparr>)" using recr_prepare_spec [OF m(1) D(7)] by blast
    have "recr_init_batch n_ubatch embd_all al0 m = Some (Some ubs, al', m\<lparr>mr_rs_z := z, mr_n := k\<rparr>)"
      unfolding recr_init_batch_def Let_def A(7) rs_keep_tail_def [symmetric] using D(1,5,6) P n by (simp add: al_tokens_def)
    moreover have "\<exists>idxss. list_all2 (splits_into al0) idxss ubs \<and> distinct (concat idxss) \<and> set (concat idxss) = {..<bt_n_tokens b}"
      using D(2-4) A(5) by auto
    moreover have "\<exists>m2. recr_place ubs m = Some (True, m2) \<and> recr_inv m2" using recr_place_spec [OF m(1) D(7)] by blast
    ultimately show ?thesis unfolding if_not_P [OF False] by blast
  qed
qed

end
