(* ===== verification/RecurrentProps.thy ===== *)
theory RecurrentProps
  imports RecurrentBatch KvProps
begin

section \<open>What the recurrent memory guarantees\<close>

subsection \<open>The machine\<close>

text \<open>The methods of the memory, and what their callers must see to.\<close>

datatype recr_op =
    Recr_clear
  | Recr_rm llama_seq_id llama_pos llama_pos
  | Recr_cp llama_seq_id llama_seq_id llama_pos llama_pos
  | Recr_keep llama_seq_id
  | Recr_add llama_seq_id llama_pos llama_pos llama_pos
  | Recr_div llama_seq_id llama_pos llama_pos int
  | Recr_prepare "llama_ubatch list"
  | Recr_apply llama_ubatch

fun run_recr_op :: "recr_op \<Rightarrow> mem_recr \<Rightarrow> mem_recr option" where
  "run_recr_op Recr_clear m = Some (recr_clear m)"
| "run_recr_op (Recr_rm s p0 p1) m = map_option snd (recr_seq_rm s p0 p1 m)"
| "run_recr_op (Recr_cp src dst p0 p1) m = recr_seq_cp src dst p0 p1 m"
| "run_recr_op (Recr_keep s) m = Some (recr_seq_keep s m)"
| "run_recr_op (Recr_add s p0 p1 shift) m = recr_seq_add s p0 p1 shift m"
| "run_recr_op (Recr_div s p0 p1 d) m = recr_seq_div s p0 p1 d m"
| "run_recr_op (Recr_prepare ubs) m = map_option snd (recr_prepare ubs m)"
| "run_recr_op (Recr_apply ub) m = map_option snd (recr_find_slot ub m)"

fun recr_op_pre :: "recr_op \<Rightarrow> mem_recr \<Rightarrow> bool" where
  "recr_op_pre (Recr_rm s p0 p1) m = seq_int s"
| "recr_op_pre (Recr_cp src dst p0 p1) m = (seq_int src \<and> seq_int dst)"
| "recr_op_pre (Recr_add s p0 p1 shift) m = (0 \<le> norm_p0 p0 + shift)"
| "recr_op_pre (Recr_div s p0 p1 d) m = (0 < d)"
| "recr_op_pre (Recr_prepare ubs) m = (\<forall>ub \<in> set ubs. rub_ok (mr_size m) ub)"
| "recr_op_pre (Recr_apply ub) m = rub_ok (mr_size m) ub"
| "recr_op_pre _ m = True"

fun moves_rows :: "recr_op \<Rightarrow> bool" where
  "moves_rows (Recr_apply ub) = True"
| "moves_rows _ = False"

inductive recr_reachable :: "mem_recr \<Rightarrow> bool" where
  recr_start: "0 < n \<Longrightarrow> n < 2 ^ 31 \<Longrightarrow> n_seq_max \<le> n \<Longrightarrow> recr_reachable (recr_new n n_seq_max n_rs_seq)"
| recr_step: "recr_reachable m \<Longrightarrow> recr_op_pre op m \<Longrightarrow> run_recr_op op m = Some m' \<Longrightarrow> recr_reachable m'"

inductive_cases recr_reachableE: "recr_reachable m"

lemma recr_new_inv:
  assumes "0 < n" "n < 2 ^ 31" "n_seq_max \<le> n"
  shows "recr_inv (recr_new n n_seq_max n_rs_seq)"
proof -
  have nth: "replicate n mc_default ! i = mc_default" if "i < n" for i using that by simp
  have "tails_ok (replicate n mc_default)" by (auto simp: tails_ok_def tails_in_def mc_default_def)
  then have "cells_ok (replicate n mc_default)" by (simp add: cells_ok_def mc_default_def)
  moreover have "n_full (replicate n mc_default) = 0" by (simp add: n_full_def mc_is_empty_def mc_default_def)
  ultimately show ?thesis using assms by (simp add: recr_inv_def recr_new_def mr_size_def)
qed

lemma recr_op_inv:
  assumes inv: "recr_inv m" and pre: "recr_op_pre op m"
  shows "\<exists>m'. run_recr_op op m = Some m' \<and> recr_inv m' \<and> (\<not> moves_rows op \<longrightarrow> frees_only m m')"
proof (cases op)
  case Recr_clear
  then show ?thesis using recr_clear_spec [OF inv] by simp
next
  case (Recr_rm s p0 p1)
  then show ?thesis using recr_seq_rm_spec [OF inv, of s p0 p1] pre by auto
next
  case (Recr_cp src dst p0 p1)
  then show ?thesis using recr_seq_cp_spec [OF inv, of src dst p0 p1] pre by auto
next
  case (Recr_keep s)
  then show ?thesis using recr_seq_keep_spec(1,2) [OF inv] by simp
next
  case (Recr_add s p0 p1 shift)
  then have "0 \<le> p + shift" if "norm_p0 p0 \<le> p" for p using pre that by simp
  then show ?thesis using move_pos_spec [OF inv, of "norm_p0 p0" "norm_p1 p1" "\<lambda>p. p + shift" s] Recr_add inv
    by (auto simp: recr_seq_add_def)
next
  case (Recr_div s p0 p1 d)
  then have "0 \<le> cdiv p d" if "0 \<le> p" for p using pre that by (simp add: cdiv_nonneg pos_imp_zdiv_nonneg_iff)
  then show ?thesis using move_pos_spec [OF inv, of "norm_p0 p0" "norm_p1 p1" "\<lambda>p. cdiv p d" s] Recr_div inv
    by (auto simp: recr_seq_div_def)
next
  case (Recr_prepare ubs)
  then show ?thesis using recr_prepare_spec [OF inv, of ubs] pre by auto
next
  case (Recr_apply ub)
  then show ?thesis using find_slot_found [OF inv, of ub] pre by auto
qed

lemma recr_reachable_inv: "recr_reachable m \<Longrightarrow> recr_inv m"
proof (induction rule: recr_reachable.induct)
  case (recr_step m op m')
  then show ?case using recr_op_inv [OF recr_step.IH recr_step.hyps(2)] by auto
qed (rule recr_new_inv)

lemma rows_ok_frees: "frees_only m m' \<Longrightarrow> rows_ok zero m rows \<Longrightarrow> rows_ok zero m' rows"
  by (auto simp: frees_only_def rows_ok_def)

subsection \<open>Examples\<close>

text \<open>A ubatch with one token for every sequence set.\<close>

definition one_each :: "(llama_pos \<times> llama_seq_id list) list \<Rightarrow> llama_ubatch" where
  "one_each toks = ubatch_none\<lparr>ub_b_equal_seqs := True, ub_n_tokens := length toks, ub_n_seq_tokens := 1,
     ub_n_seqs := length toks, ub_pos := map fst toks, ub_n_seq_id := map (length \<circ> snd) toks, ub_seq_id := map snd toks\<rparr>"

lemma one_each_seqs:
  assumes "s < length toks"
  shows "fs_seqs (one_each toks) s = snd (toks ! s)" "last_pos (one_each toks) s = fst (toks ! s)" "ub_n_seqs (one_each toks) = length toks"
  using assms by (simp_all add: one_each_def fs_seqs_def fs_first_def last_pos_def map_nth)

lemma one_each_ok:
  assumes "toks \<noteq> []" "\<forall>t \<in> set toks. snd t \<noteq> [] \<and> distinct (snd t) \<and> 0 \<le> fst t \<and> (\<forall>q \<in> set (snd t). 0 \<le> q \<and> q < int N)"
    and "distinct (concat (map snd toks))"
  shows "rub_ok N (one_each toks)"
proof -
  have n: "ub_n_seqs (one_each toks) = length toks" "equal_seqs (one_each toks)" by (simp_all add: one_each_def equal_seqs_def)
  have "set (snd (toks ! a)) \<inter> set (snd (toks ! b)) = {}" if ab: "a < b" "b < length toks" for a b
  proof -
    have "toks ! a \<in> set (take b toks)" using ab by (auto simp: in_set_conv_nth)
    moreover have "distinct (concat (map snd (take b toks @ drop b toks)))" using assms(3) by simp
    moreover have "toks ! b \<in> set (drop b toks)" using ab(2) by (simp add: Cons_nth_drop_Suc [symmetric])
    ultimately show ?thesis unfolding map_append concat_append distinct_append by auto
  qed
  then have "set (snd (toks ! a)) \<inter> set (snd (toks ! b)) = {}" if "a < length toks" "b < length toks" "a \<noteq> b" for a b
    using that by (metis Int_commute nat_neq_iff)
  then show ?thesis unfolding rub_ok_def n(1) using n(2) assms(1,2) one_each_seqs(1,2) by auto
qed

text \<open>A memory for two sequences, and the first token of both.\<close>

definition two_recr :: "nat \<Rightarrow> mem_recr" where
  "two_recr n_rs_seq = recr_new 2 2 n_rs_seq"

lemma two_recr_ok: "recr_reachable (two_recr r)" "recr_inv (two_recr r)" "mr_size (two_recr r) = 2" "mr_n_rs_seq (two_recr r) = r"
  "mr_n_seq_max (two_recr r) = 2" "mr_rs_idx (two_recr r) = [0, 0]"
proof -
  show "recr_reachable (two_recr r)" unfolding two_recr_def by (rule recr_start) simp_all
  show "recr_inv (two_recr r)" unfolding two_recr_def by (rule recr_new_inv) simp_all
qed (simp_all add: two_recr_def recr_new_def mr_size_def numeral_2_eq_2)

definition both_first :: llama_ubatch where
  "both_first = one_each [(0, [0, 1])]"

definition second_only :: llama_ubatch where
  "second_only = one_each [(1, [1])]"

lemma first_ubs_ok: "rub_ok 2 both_first" "rub_ok 2 second_only"
  by (auto simp: both_first_def second_only_def intro!: one_each_ok)

lemma first_ubs_seqs: "ub_n_seqs both_first = 1" "fs_seqs both_first 0 = [0, 1]" "fs_lead both_first 0 = 0" "batch_seqs both_first 1 = {0, 1}"
  "last_pos both_first 0 = 0"
  "ub_n_seqs second_only = 1" "fs_seqs second_only 0 = [1]" "fs_lead second_only 0 = 1" "batch_seqs second_only 1 = {1}" "last_pos second_only 0 = 1"
  by (simp_all add: both_first_def second_only_def one_each_def fs_seqs_def fs_first_def fs_lead_def batch_seqs_def last_pos_def lessThan_Suc)

text \<open>The memory after a first token of both sequences at a position.\<close>

lemma both_placed:
  assumes "0 \<le> p"
  shows "\<exists>m. recr_reachable m \<and> recr_seq_pos_max 0 m = p \<and> recr_seq_pos_max 1 m = p \<and> tail_at (mr_cells m) 1 = tail_at (mr_cells m) 0 \<and>
    mr_size m = 2 \<and> mr_n_seq_max m = 2 \<and> mr_n_rs_seq m = r \<and> mr_rs_idx m = [0, 0]"
proof -
  let ?ub = "one_each [(p, [0, 1])]"
  note T = two_recr_ok [of r]
  have ok: "rub_ok 2 ?ub" by (rule one_each_ok) (use assms in auto)
  obtain m where m: "recr_find_slot ?ub (two_recr r) = Some (True, m)" "recr_inv m" "slot_found ?ub (two_recr r) m"
    using find_slot_found [OF T(2), of ?ub] ok T(3) by auto
  have r: "recr_reachable m" using recr_step [OF T(1), of "Recr_apply ?ub" m] m(1) ok T(3) by simp
  note C = slot_found_config [OF m(3), unfolded T]
  have "seq_in (mr_cells m) 0" "seq_in (mr_cells m) 1" using C(1) by (simp_all add: mr_size_def)
  note P = recr_pos(1) [OF recr_invD(1) [OF m(2)] this(1)] recr_pos(1) [OF recr_invD(1) [OF m(2)] this(2)]
  have h: "mc_seq (mr_cells m ! mr_head m) = {0, 1}" "mc_pos (mr_cells m ! mr_head m) = p" "mr_head m < length (mr_cells m)"
    using slot_foundD(8,9) [OF m(3), of 0] one_each_seqs [of 0 "[(p, [0, 1])]"] recr_invD(5) [OF m(2)] by (simp_all add: mr_size_def)
  then have t: "tail_at (mr_cells m) 0 = int (mr_head m)" "tail_at (mr_cells m) 1 = int (mr_head m)"
    using tails_inD(5) [OF recr_invD(3) [OF m(2)] h(3), of 0] tails_inD(5) [OF recr_invD(3) [OF m(2)] h(3), of 1] by simp_all
  then have "lpos (mr_cells m) 0 = p" "lpos (mr_cells m) 1 = p" using h(2) by (simp_all add: lpos_def)
  then show ?thesis using r P t C by (intro exI [of _ m]) simp
qed

subsection \<open>Properties\<close>

text \<open>
  C13: Without rollback snapshots (\<open>n_rs_seq\<close> is 0), decoding a
  ubatch never fails: a slot is always found. Afterwards every sequence of a sequence
  set of the ubatch has the state the model computed from the state its first sequence had before,
  or from the initial state when it had none, and its position is that of its last token; every
  other sequence has the state and the position it had, also one that shared a cell with a
  sequence of the ubatch, or whose cell was moved.
\<close>

theorem recr_decode_states:
  assumes "recr_reachable m" "mr_n_rs_seq m = 0" "rub_ok (mr_size m) ub" "rows_ok zero m rows"
  shows "\<exists>m' rows'. recr_decode zero f ub m rows = Some (m', rows') \<and> recr_reachable m' \<and> mr_n_rs_seq m' = 0 \<and>
    mr_size m' = mr_size m \<and> rows_ok zero m' rows' \<and>
    (\<forall>s < ub_n_seqs ub. \<forall>q \<in> set (fs_seqs ub s).
       recr_state zero m' rows' q = f s (recr_state zero m rows (fs_lead ub s)) \<and> recr_seq_pos_max q m' = last_pos ub s) \<and>
    (\<forall>q. 0 \<le> q \<and> q < int (mr_size m) \<and> q \<notin> batch_seqs ub (ub_n_seqs ub) \<longrightarrow>
       recr_state zero m' rows' q = recr_state zero m rows q \<and> recr_seq_pos_max q m' = recr_seq_pos_max q m)"
proof -
  note inv = recr_reachable_inv [OF assms(1)]
  obtain m' rows' where D: "recr_decode zero f ub m rows = Some (m', rows')" "recr_inv m'" "slot_found ub m m'"
    "recr_find_slot ub m = Some (True, m')" "rows_ok zero m' rows'"
    "\<forall>s < ub_n_seqs ub. \<forall>q \<in> set (fs_seqs ub s). recr_state zero m' rows' q = f s (recr_state zero m rows (fs_lead ub s)) \<and>
       lpos (mr_cells m') q = last_pos ub s"
    "\<forall>q. seq_in (mr_cells m) q \<and> q \<notin> batch_seqs ub (ub_n_seqs ub) \<longrightarrow>
       recr_state zero m' rows' q = recr_state zero m rows q \<and> lpos (mr_cells m') q = lpos (mr_cells m) q"
    using decode_states [OF inv assms(2-4), of f] by blast
  have sz: "mr_size m' = mr_size m" using slot_found_config(1) [OF D(3)] .
  have pos: "recr_seq_pos_max q m = lpos (mr_cells m) q" "recr_seq_pos_max q m' = lpos (mr_cells m') q"
    if "0 \<le> q" "q < int (mr_size m)" for q
    using recr_pos(1) [OF recr_invD(1) [OF inv], of q] recr_pos(1) [OF recr_invD(1) [OF D(2)], of q] that sz by (simp_all add: mr_size_def)
  have "0 \<le> q \<and> q < int (mr_size m)" if "s < ub_n_seqs ub" "q \<in> set (fs_seqs ub s)" for s q
    using rub_okD(6) [OF assms(3) that] .
  moreover have "recr_reachable m'" using recr_step [OF assms(1), of "Recr_apply ub" m'] D(4) assms(3) by simp
  ultimately show ?thesis using D(1,5-7) pos sz slot_found_config(3) [OF D(3)] assms(2)
    by (intro exI [of _ m'] exI [of _ rows']) (simp add: mr_size_def)
qed

text \<open>
  The witness decodes the first token for sequences 0 and 1 together, then one token for sequence 1
  alone: its cell is copied, and sequence 0 keeps its state.
\<close>

lemma recr_decode_states_witness:
  "\<exists>m1 rows1 m2 rows2. recr_decode (0 :: int) (\<lambda>s x. x + 7) both_first (two_recr 0) [0, 0] = Some (m1, rows1) \<and>
    recr_decode 0 (\<lambda>s x. 2 * x) second_only m1 rows1 = Some (m2, rows2) \<and>
    recr_state 0 m2 rows2 0 = 7 \<and> recr_state 0 m2 rows2 1 = 14 \<and> recr_seq_pos_max 0 m2 = 0 \<and> recr_seq_pos_max 1 m2 = 1"
proof -
  note T = two_recr_ok [of 0] and F = first_ubs_ok first_ubs_seqs
  have rows: "rows_ok (0 :: int) (two_recr 0) [0, 0]" by (simp add: rows_ok_def T(3) nth_Cons')
  have st: "recr_state (0 :: int) (two_recr 0) [0, 0] 0 = 0" by (simp add: recr_state_def lsrc_def two_recr_def recr_new_def mc_default_def)
  obtain m1 rows1 where D: "recr_decode (0 :: int) (\<lambda>s x. x + 7) both_first (two_recr 0) [0, 0] = Some (m1, rows1)"
    "recr_reachable m1" "mr_n_rs_seq m1 = 0" "mr_size m1 = 2" "rows_ok 0 m1 rows1"
    "recr_state 0 m1 rows1 0 = 7" "recr_state 0 m1 rows1 1 = 7" "recr_seq_pos_max 0 m1 = 0"
    using recr_decode_states [OF T(1,4), of both_first "0 :: int" "[0, 0]" "\<lambda>s x. x + 7"] rows F st T(3) by auto
  from recr_decode_states [OF D(2,3), of second_only 0 rows1 "\<lambda>s x. 2 * x"] D F(2-)
  show ?thesis by auto
qed

text \<open>
  C15: From an accepted batch to the recurrent memory: \<open>init_batch\<close> refuses coupled sequences unless
  all tokens are outputs; every other batch is cut completely, every token of it in exactly one
  ubatch, a slot is found for every ubatch one after the other, and the cells, the head and the
  number of used cells are as before.
\<close>

theorem recr_init_batch_places:
  assumes "has_seqs b" "allocr_init al b n_vocab mem n_embd n_seq_max output_all = Some (Inr al0)"
    and "tokens_ok n_seq_max (al_batch al0)" "0 < al_n_pos_per_embd al"
    and "recr_reachable m" "n_seq_max \<le> mr_size m" "rs_keep_tail m < n_ubatch"
  shows "\<exists>al'. if al_has_cpl al0 \<and> \<not> embd_all then recr_init_batch n_ubatch embd_all al0 m = Some (None, al', m)
    else (\<exists>ubs z n. recr_init_batch n_ubatch embd_all al0 m = Some (Some ubs, al', m\<lparr>mr_rs_z := z, mr_n := n\<rparr>) \<and>
      (\<exists>idxss. list_all2 (splits_into al0) idxss ubs \<and> distinct (concat idxss) \<and> set (concat idxss) = {..<bt_n_tokens b}) \<and>
      (\<exists>m2. recr_place ubs m = Some (True, m2) \<and> recr_inv m2))"
  by (rule recr_init_batch_spec [OF assms(1-4) recr_reachable_inv [OF assms(5)] assms(6,7)])

lemma recr_init_batch_places_witness:
  "\<exists>al'. if al_has_cpl two_tokens \<and> \<not> False then recr_init_batch 4 False two_tokens (two_recr 1) = Some (None, al', two_recr 1)
    else (\<exists>ubs z n. recr_init_batch 4 False two_tokens (two_recr 1) = Some (Some ubs, al', (two_recr 1)\<lparr>mr_rs_z := z, mr_n := n\<rparr>) \<and>
      (\<exists>idxss. list_all2 (splits_into two_tokens) idxss ubs \<and> distinct (concat idxss) \<and>
         set (concat idxss) = {..<bt_n_tokens (llama_batch_get_one [5, 7])}) \<and>
      (\<exists>m2. recr_place ubs (two_recr 1) = Some (True, m2) \<and> recr_inv m2))"
  by (rule recr_init_batch_places [OF _ two_tokens_init two_tokens_ok _ two_recr_ok(1)])
    (simp_all add: two_recr_ok rs_keep_tail_def has_seqs_def llama_batch_get_one_def batch_none_def allocr_new_def)

text \<open>
  C14: The calls \<open>clear\<close>, \<open>seq_rm\<close>, \<open>seq_cp\<close>, \<open>seq_keep\<close>, \<open>seq_add\<close>, \<open>seq_div\<close>, \<open>prepare\<close> and
  \<open>find_slot\<close> of the recurrent memory, in any order from a fresh one and each called as its callers
  do, fail no assertion, read no cell out of range and keep the invariant (restoring a saved state is
  not among them): the tails and the
  sets of sequences of the cells agree, occupied cells have a position and their own row, \<open>used\<close>
  counts them, and the head is a cell. Only placing a ubatch makes an empty cell refer to a row.
\<close>

theorem recr_reachable_ops:
  assumes "recr_reachable m" "recr_op_pre op m"
  shows "\<exists>m'. run_recr_op op m = Some m' \<and> recr_inv m' \<and> recr_reachable m' \<and> (moves_rows op \<or> frees_only m m')"
  using recr_op_inv [OF recr_reachable_inv [OF assms(1)] assms(2)] recr_step [OF assms] by auto

lemma recr_reachable_ops_witness:
  "\<exists>m'. run_recr_op (Recr_apply both_first) (two_recr 0) = Some m' \<and> recr_inv m' \<and> recr_reachable m' \<and>
    (moves_rows (Recr_apply both_first) \<or> frees_only (two_recr 0) m')"
  by (rule recr_reachable_ops [OF two_recr_ok(1)]) (simp add: two_recr_ok(3) first_ubs_ok(1))

text \<open>
  C16: \<open>seq_rm\<close> decides as its code says and is atomic: it returns false, with the memory untouched,
  for a sequence number that does not exist (also \<open>-1\<close>) and for a cut in the middle that no
  snapshot can undo. Otherwise it returns true: when the position of the sequence was in the range, the
  sequence now ends before \<open>p0\<close>; when it was not, the position stays, so that a range that ends at or
  below the position, a part of the sequence that cannot be removed, is reported as removed. The
  sequences that are not in its cell keep their positions, all the others when \<open>p0\<close> is not positive.
\<close>

theorem recr_seq_rm_effect:
  assumes "recr_reachable m" "seq_int s"
  shows "\<exists>b m'. recr_seq_rm s p0 p1 m = Some (b, m') \<and> recr_inv m' \<and> (\<not> b \<longrightarrow> m' = m) \<and>
    (b \<longleftrightarrow> 0 \<le> s \<and> s < int (mr_n_seq_max m) \<and>
       (0 < p0 \<and> p0 \<le> recr_seq_pos_max s m \<and> recr_seq_pos_max s m < norm_p1 p1 \<longrightarrow>
          mr_rs_idx m ! nat s = 0 \<and> recr_seq_pos_max s m - p0 + 1 \<le> int (mr_n_rs_seq m))) \<and>
    (b \<longrightarrow> recr_seq_pos_max s m' = (if norm_p0 p0 \<le> recr_seq_pos_max s m \<and> recr_seq_pos_max s m < norm_p1 p1 then norm_p0 p0 - 1 else recr_seq_pos_max s m) \<and>
       (\<forall>q. 0 \<le> q \<and> q < int (mr_size m) \<and> q \<noteq> s \<and> (p0 \<le> 0 \<or> tail_at (mr_cells m) q \<noteq> tail_at (mr_cells m) s) \<longrightarrow>
          recr_seq_pos_max q m' = recr_seq_pos_max q m))"
proof -
  note inv = recr_reachable_inv [OF assms(1)]
  obtain b m' where R: "recr_seq_rm s p0 p1 m = Some (b, m')" "recr_inv m'" "frees_only m m'"
    "b \<longleftrightarrow> 0 \<le> s \<and> s < int (mr_n_seq_max m) \<and>
       (0 < p0 \<and> rm_hit s p0 p1 m \<longrightarrow> mr_rs_idx m ! nat s = 0 \<and> rollback s p0 m \<le> int (mr_n_rs_seq m))" "\<not> b \<longrightarrow> m' = m"
    "b \<longrightarrow> (\<forall>q. seq_in (mr_cells m) q \<longrightarrow>
       lpos (mr_cells m') q = (if rm_hit s p0 p1 m then if p0 \<le> 0 then if q = s then -1 else lpos (mr_cells m) q
         else if tail_at (mr_cells m) q = tail_at (mr_cells m) s then p0 - 1 else lpos (mr_cells m) q else lpos (mr_cells m) q))"
    using recr_seq_rm_spec [OF inv assms(2), of p0 p1] by blast
  have sz: "mr_size m' = mr_size m" using R(3) by (simp add: frees_only_def)
  have P: "recr_seq_pos_max q m = lpos (mr_cells m) q" "recr_seq_pos_max q m' = lpos (mr_cells m') q" if "0 \<le> q" "q < int (mr_size m)" for q
    using recr_pos(1) [OF recr_invD(1) [OF inv], of q] recr_pos(1) [OF recr_invD(1) [OF R(2)], of q] that sz
    by (simp_all add: mr_size_def)
  have n0: "norm_p0 p0 = (if 0 < p0 then p0 else 0)" by (simp add: norm_p0_def)
  have hit: "rm_hit s p0 p1 m \<longleftrightarrow> norm_p0 p0 \<le> recr_seq_pos_max s m \<and> recr_seq_pos_max s m < norm_p1 p1" "rollback s p0 m = recr_seq_pos_max s m - p0 + 1"
    if "0 \<le> s" "s < int (mr_n_seq_max m)"
    using P(1) [of s] that recr_invD(7) [OF inv] by (simp_all add: rm_hit_def rollback_def)
  have b: "b \<longleftrightarrow> 0 \<le> s \<and> s < int (mr_n_seq_max m) \<and>
       (0 < p0 \<and> p0 \<le> recr_seq_pos_max s m \<and> recr_seq_pos_max s m < norm_p1 p1 \<longrightarrow> mr_rs_idx m ! nat s = 0 \<and> recr_seq_pos_max s m - p0 + 1 \<le> int (mr_n_rs_seq m))"
    unfolding R(4) using hit n0 by auto
  show ?thesis
  proof (cases b)
    case True
    then have s: "0 \<le> s" "s < int (mr_n_seq_max m)" "s < int (mr_size m)" using b recr_invD(7) [OF inv] by simp_all
    have lp: "recr_seq_pos_max q m' = (if rm_hit s p0 p1 m then if p0 \<le> 0 then if q = s then -1 else recr_seq_pos_max q m
         else if tail_at (mr_cells m) q = tail_at (mr_cells m) s then p0 - 1 else recr_seq_pos_max q m else recr_seq_pos_max q m)"
      if "0 \<le> q" "q < int (mr_size m)" for q
      using R(6) True P [OF that] that by (simp add: mr_size_def)
    have "recr_seq_pos_max s m' = (if norm_p0 p0 \<le> recr_seq_pos_max s m \<and> recr_seq_pos_max s m < norm_p1 p1 then norm_p0 p0 - 1 else recr_seq_pos_max s m)"
      unfolding lp [OF s(1,3)] hit(1) [OF s(1,2)] n0 by simp
    moreover have "recr_seq_pos_max q m' = recr_seq_pos_max q m" if "0 \<le> q" "q < int (mr_size m)" "q \<noteq> s"
      "p0 \<le> 0 \<or> tail_at (mr_cells m) q \<noteq> tail_at (mr_cells m) s" for q
      using that unfolding lp [OF that(1,2)] by auto
    ultimately show ?thesis using R(1,2,5) b by (intro exI [of _ b] exI [of _ m']) simp
  next
    case False
    then show ?thesis using R(1,2,5) b by (intro exI [of _ b] exI [of _ m']) simp
  qed
qed

lemma recr_seq_rm_effect_witness:
  "\<exists>m m'. recr_reachable m \<and> recr_seq_pos_max 0 m = 5 \<and> recr_seq_pos_max 1 m = 5 \<and>
    recr_seq_rm 0 (-1) (-1) m = Some (True, m') \<and> recr_seq_pos_max 0 m' = -1 \<and> recr_seq_pos_max 1 m' = 5"
proof -
  obtain m where m: "recr_reachable m" "recr_seq_pos_max 0 m = 5" "recr_seq_pos_max 1 m = 5" "mr_size m = 2" "mr_n_seq_max m = 2"
    using both_placed [of 5 0] by auto
  have "seq_int 0" by simp
  then obtain m' where m': "recr_seq_rm 0 (-1) (-1) m = Some (True, m')" "recr_seq_pos_max 0 m' = -1"
    "\<forall>q. 0 \<le> q \<and> q < int (mr_size m) \<and> q \<noteq> 0 \<longrightarrow> recr_seq_pos_max q m' = recr_seq_pos_max q m"
    using recr_seq_rm_effect [OF m(1), of 0 "-1" "-1"] m by (auto simp: norm_p0_def norm_p1_def INT32_MAX_def)
  have "recr_seq_pos_max 1 m' = 5" using m'(3) m(3,4) by simp
  then show ?thesis using m(1-3) m'(1,2) by blast
qed

text \<open>
  C36: Rolling back forks that share a cell: the cut of the first sequence moves the shared position
  and notes a snapshot for that sequence only; the same cut of the other sequence then finds nothing
  to remove and reports success, so its state stays the later one while its position says \<open>p0 - 1\<close>.
\<close>

theorem recr_rollback_of_forks:
  assumes "recr_reachable m" "0 \<le> s" "s < int (mr_n_seq_max m)" "0 \<le> q" "q < int (mr_n_seq_max m)" "q \<noteq> s"
    and "tail_at (mr_cells m) q = tail_at (mr_cells m) s" "0 < p0" "p0 \<le> recr_seq_pos_max s m" "recr_seq_pos_max s m < INT32_MAX"
    and "mr_rs_idx m ! nat s = 0" "recr_seq_pos_max s m - p0 + 1 \<le> int (mr_n_rs_seq m)"
  shows "\<exists>m1 m2. recr_seq_rm s p0 (-1) m = Some (True, m1) \<and> recr_seq_rm q p0 (-1) m1 = Some (True, m2) \<and>
    recr_seq_pos_max s m2 = p0 - 1 \<and> recr_seq_pos_max q m2 = p0 - 1 \<and>
    int (mr_rs_idx m2 ! nat s) = recr_seq_pos_max s m - p0 + 1 \<and> mr_rs_idx m2 ! nat q = mr_rs_idx m ! nat q"
proof -
  note inv = recr_reachable_inv [OF assms(1)]
  note D = recr_invD [OF inv]
  have sin: "seq_in (mr_cells m) s" "seq_in (mr_cells m) q" using assms(2-5) D(7) by (simp_all add: mr_size_def)
  have pos: "recr_seq_pos_max s m = lpos (mr_cells m) s" using recr_pos(1) [OF D(1) sin(1)] .
  have n: "norm_p0 p0 = p0" "norm_p1 (-1) = INT32_MAX" using assms(8) by (simp_all add: norm_p0_def norm_p1_def)
  have hit: "rm_hit s p0 (-1) m" using assms(9,10) by (simp add: rm_hit_def n pos)
  have rb: "rollback s p0 m = recr_seq_pos_max s m - p0 + 1" by (simp add: rollback_def pos)
  let ?m1 = "m\<lparr>mr_rs_idx := (mr_rs_idx m)[nat s := nat (rollback s p0 m)],
      mr_cells := cell_upd (nat (tail_at (mr_cells m) s)) (mc_pos_update (\<lambda>_. p0 - 1)) (mr_cells m)\<rparr>"
  have r1: "recr_seq_rm s p0 (-1) m = Some (True, ?m1)"
    using recr_seq_rm_tail [OF inv assms(2,3) hit assms(8)] assms(11,12) by (simp add: rb)
  have inv1: "recr_inv ?m1" using recr_op_inv [OF inv, of "Recr_rm s p0 (-1)"] r1 sin(1) D(8) by (simp add: mr_size_def)
  have sz: "mr_size ?m1 = mr_size m" by (simp add: mr_size_def)
  have t0: "0 \<le> tail_at (mr_cells m) s" using hit assms(8) n by (auto simp: rm_hit_def lpos_def split: if_splits)
  obtain t where t: "t < length (mr_cells m)" "tail_at (mr_cells m) s = int t" "s \<in> mc_seq (mr_cells m ! t)"
    using tails_ok_nth [OF D(2) sin(1) t0] by blast
  then have "mc_seq (mr_cells m ! t) \<noteq> {}" "0 \<le> p0 - 1" using assms(8) by auto
  note P = cells_ok_pos(4) [OF D(1) t(1) this]
  have l1: "lpos (mr_cells ?m1) r = p0 - 1" if "r = s \<or> r = q" for r
    using that P [OF sin(1)] P [OF sin(2)] t(2) assms(7) by auto
  then have "\<not> rm_hit q p0 (-1) ?m1" by (simp add: rm_hit_def n)
  from recr_seq_rm_miss [OF inv1 assms(4) _ this] have r2: "recr_seq_rm q p0 (-1) ?m1 = Some (True, ?m1)"
    using assms(5,8) n by simp
  have "recr_seq_pos_max r ?m1 = p0 - 1" if "r = s \<or> r = q" for r
    using recr_pos(1) [OF recr_invD(1) [OF inv1], of r] l1 [OF that] that sin by auto
  moreover have "int (mr_rs_idx ?m1 ! nat s) = recr_seq_pos_max s m - p0 + 1" using assms(2,3,9) D(6) by (simp add: rb nat_less_iff)
  moreover have "mr_rs_idx ?m1 ! nat q = mr_rs_idx m ! nat q" using assms(2,4,6) by (simp add: eq_nat_nat_iff)
  ultimately show ?thesis using r1 r2 by blast
qed

lemma recr_rollback_of_forks_witness:
  "\<exists>m m1 m2. recr_reachable m \<and> recr_seq_rm 0 5 (-1) m = Some (True, m1) \<and> recr_seq_rm 1 5 (-1) m1 = Some (True, m2) \<and>
    recr_seq_pos_max 0 m2 = 4 \<and> recr_seq_pos_max 1 m2 = 4 \<and> mr_rs_idx m2 ! 0 = 1 \<and> mr_rs_idx m2 ! 1 = 0"
proof -
  obtain m where m: "recr_reachable m" "recr_seq_pos_max 0 m = 5" "tail_at (mr_cells m) 1 = tail_at (mr_cells m) 0"
    "mr_size m = 2" "mr_n_seq_max m = 2" "mr_n_rs_seq m = 1" "mr_rs_idx m = [0, 0]"
    using both_placed [of 5 1] by auto
  obtain m1 m2 where "recr_seq_rm 0 5 (-1) m = Some (True, m1)" "recr_seq_rm 1 5 (-1) m1 = Some (True, m2)"
    "recr_seq_pos_max 0 m2 = 4" "recr_seq_pos_max 1 m2 = 4" "mr_rs_idx m2 ! 0 = 1" "mr_rs_idx m2 ! 1 = 0"
    using recr_rollback_of_forks [OF m(1), of 0 1 5] m by (auto simp: INT32_MAX_def)
  then show ?thesis using m(1) by blast
qed

end
