(* ===== verification/KvView.thy ===== *)
theory KvView
  imports KvSpec
begin

section \<open>The KV cache as sets of positions\<close>

text \<open>
  What each operation of the cache does to the positions of its sequences, for the modules that are
  built from several memories and compare them by these.
\<close>

text \<open>The abstract state of a cache: its sequences as sets of positions.\<close>

definition moved :: "kv_op \<Rightarrow> llama_pos \<Rightarrow> llama_pos" where
  "moved op p = (case op of
     Kv_add s p0 p1 d \<Rightarrow> if norm_p0 p0 \<le> p \<and> p < norm_p1 p1 then p + d else p
   | Kv_div s p0 p1 d \<Rightarrow> if norm_p0 p0 \<le> p \<and> p < norm_p1 p1 then p div d else p
   | _ \<Rightarrow> p)"

fun view_op :: "kv_op \<Rightarrow> (llama_seq_id \<Rightarrow> bool) \<Rightarrow> (llama_seq_id \<Rightarrow> llama_pos set) \<Rightarrow> llama_seq_id \<Rightarrow> llama_pos set" where
  "view_op Kv_clear near V r = {}"
| "view_op (Kv_rm s p0 p1) near V r = (if r = s then {p \<in> V s. \<not> (norm_p0 p0 \<le> p \<and> p < norm_p1 p1)} else V r)"
| "view_op (Kv_rm_all p0 p1) near V r = {p \<in> V r. \<not> (norm_p0 p0 \<le> p \<and> p < norm_p1 p1)}"
| "view_op (Kv_cp src dst p0 p1) near V r =
     (if r = dst then V dst \<union> {p \<in> V src. norm_p0 p0 \<le> p \<and> p < norm_p1 p1} else V r)"
| "view_op (Kv_keep s) near V r = (if r = s \<or> \<not> near r then V r else {})"
| "view_op (Kv_apply ub) near V r = V r"
| "view_op (Kv_update compute) near V r = V r"
| "view_op op near V r = (case op of
     Kv_add s p0 p1 d \<Rightarrow> if r = s then {p \<in> moved op ` V s. 0 \<le> p} else V r
   | Kv_div s p0 p1 d \<Rightarrow> if r = s then moved op ` V s else V r
   | _ \<Rightarrow> V r)"

text \<open>Sequences in the same stream as the one an operation keeps.\<close>

definition near_op :: "kv_op \<Rightarrow> kv_cache \<Rightarrow> llama_seq_id \<Rightarrow> bool" where
  "near_op op kv r = (case op of Kv_keep s \<Rightarrow> strm kv r = strm kv s | _ \<Rightarrow> True)"

definition unshared :: "kv_cache \<Rightarrow> llama_seq_id \<Rightarrow> bool" where
  "unshared kv s \<longleftrightarrow> (\<forall>i < kv_size kv. case cells_cell (kv_cells kv ! strm kv s) i of (p, e, h, S) \<Rightarrow> s \<in> S \<longrightarrow> S = {s})"

fun view_pre :: "kv_op \<Rightarrow> kv_cache \<Rightarrow> bool" where
  "view_pre (Kv_cp src dst p0 p1) kv = (strm kv src = strm kv dst \<and> (src = dst \<or> seq_view kv dst = {}))"
| "view_pre (Kv_add s p0 p1 d) kv = unshared kv s"
| "view_pre (Kv_div s p0 p1 d) kv = unshared kv s"
| "view_pre _ kv = True"

lemma view_unshared:
  assumes inv: "cache_inv kv" and m: "kv_maps1 g (strm kv s) kv kv'" and un: "unshared kv s" and s: "seq_ok kv s" and r: "seq_ok kv r"
    and g: "\<And>p e h. p \<in> seq_view kv s \<Longrightarrow>
      (if keep p then \<exists>e' h'. g (p, e, h, {s}) = (f p, e', h', {s}) else \<exists>p' e' h'. g (p, e, h, {s}) = (p', e', h', {}))"
    and other: "\<And>p e h S. s \<notin> S \<Longrightarrow> g (p, e, h, S) = (p, e, h, S)"
  shows "seq_view kv' r = (if r = s then f ` {p \<in> seq_view kv s. keep p} else seq_view kv r)"
proof -
  have cell: "(\<exists>e h S. g (cells_cell (kv_cells kv ! strm kv s) i) = (q, e, h, S) \<and> r \<in> S) \<longleftrightarrow>
      (if r = s then \<exists>p e h S. cells_cell (kv_cells kv ! strm kv s) i = (p, e, h, S) \<and> s \<in> S \<and> keep p \<and> q = f p
       else \<exists>e h S. cells_cell (kv_cells kv ! strm kv s) i = (q, e, h, S) \<and> r \<in> S)" if i: "i < kv_size kv" for i q
  proof -
    obtain p e h S where cl: "cells_cell (kv_cells kv ! strm kv s) i = (p, e, h, S)"
      by (cases "cells_cell (kv_cells kv ! strm kv s) i")
    show ?thesis
    proof (cases "s \<in> S")
      case True
      then have S: "S = {s}" using un i cl unfolding unshared_def by fastforce
      have "p \<in> seq_view kv s" using i cl True by (auto simp: seq_view_def)
      from g [OF this, of e h] show ?thesis unfolding cl S by (auto split: if_splits)
    next
      case False
      then show ?thesis unfolding cl other [OF False] by auto
    qed
  qed
  show ?thesis
  proof (rule set_eqI)
    fix q
    show "q \<in> seq_view kv' r \<longleftrightarrow> q \<in> (if r = s then f ` {p \<in> seq_view kv s. keep p} else seq_view kv r)"
    proof (cases "r = s")
      case True
      then show ?thesis
        unfolding view_maps1 [OF inv m r] using cell [of _ q] by (simp add: seq_view_def image_iff cong: conj_cong) blast
    next
      case False
      then show ?thesis
        unfolding view_maps1 [OF inv m r] using cell [of _ q] by (simp add: seq_view_def cong: conj_cong)
    qed
  qed
qed

text \<open>An update resets shifts and forgets the copies.\<close>

lemma view_update:
  assumes inv: "cache_inv kv" and run: "run_kv_op (Kv_update compute) kv = Some kv'" and r: "seq_ok kv r"
  shows "same_config kv kv' \<and> seq_view kv' r = seq_view kv r"
proof -
  let ?kv = "kv\<lparr>kv_sc_info := \<lparr>sc_ssrc = [], sc_sdst = []\<rparr>\<rparr>"
  note D = cache_invD [OF inv]
  have same: "kv_size ?kv = kv_size kv" "seq_view ?kv r = seq_view kv r"
    by (simp_all add: kv_size_def seq_view_def strm_def)
  have config: "same_config kv ?kv" using same by (simp add: same_config_def)
  have inv': "cache_inv ?kv"
    using inv by (simp add: cache_inv_def same_config_good [OF config] stream_ok_def same)
  let ?kv' = "?kv\<lparr>kv_cells := map cells_reset_shift (kv_cells kv)\<rparr>"
  have config': "same_config kv ?kv'"
    using same_config_trans [OF config] reset_shifts_inv(2) [OF inv'] by simp
  have t: "strm kv r < length (kv_cells kv)" using D(3) D(9) [OF r] by simp
  have "(\<exists>e h S. cells_cell (kv_cells ?kv' ! strm kv r) i = (p, e, h, S) \<and> r \<in> S) \<longleftrightarrow>
      (\<exists>e h S. cells_cell (kv_cells kv ! strm kv r) i = (p, e, h, S) \<and> r \<in> S)" for i p
    using t by (simp add: cells_cell_def cells_reset_shift_def)
  then have "seq_view ?kv' r = seq_view kv r"
    unfolding seq_view_def same_config_good2(1) [OF config'] same_configD(9) [OF config'] by simp
  moreover have "kv' = ?kv \<or> kv' = ?kv'"
    using run D(1,3) by (auto simp: kv_init_update_def Let_def kx_apply_def kv_update_def kx_new_def bind_assrt split: if_splits bind_splits)
  ultimately show ?thesis using config config' same by auto
qed

text \<open>Every operation does to the cache what \<open>view_op\<close> does to the positions.\<close>

lemma view_run:
  assumes g: "kv_good kv" and pre: "kv_op_pre op kv" "view_pre op kv" and run: "run_kv_op op kv = Some kv'"
    and r: "seq_ok kv r" and nap: "\<forall>ub. op \<noteq> Kv_apply ub"
  shows "same_config kv kv'" "seq_view kv' r = view_op op (near_op op kv) (seq_view kv) r"
proof -
  have inv: "cache_inv kv" using g by (simp add: kv_good_def)
  note D = cache_invD [OF inv]
  have t: "strm kv r < kv_n_stream kv" using D(9) [OF r] .
  have "same_config kv kv' \<and> seq_view kv' r = view_op op (near_op op kv) (seq_view kv) r"
  proof (cases op)
    case Kv_clear
    note C = kv_clear_spec [OF inv]
    have "cells_cell (cells_reset (kv_cells kv ! strm kv r)) i = (-1, ext_reset, 0, {})" if "i < kv_size kv" for i
      using that cells_invD(1-4) [OF D(5) [OF t]] D(6) [OF t] by (simp add: cells_reset_def cells_cell_def cells_size_def)
    then have "seq_view (kv_clear kv) r = {}"
      using C(3) [OF t] D(6) [OF t]
      by (simp add: seq_view_def same_config_good2(1) [OF C(2)] same_configD(9) [OF C(2)])
    then show ?thesis using run Kv_clear C(2) by simp
  next
    case (Kv_rm s p0 p1)
    then have s: "seq_ok kv s" using pre by simp
    obtain x where x: "kv_seq_rm s p0 p1 kv = Some (True, x)" "kv_maps1 (g_rm s (norm_p0 p0) (norm_p1 p1)) (strm kv s) kv x"
      using kv_seq_rm_spec [OF inv s] by blast
    then have eq: "x = kv'" using run Kv_rm by simp
    show ?thesis using view_rm [OF inv x(2) r] x(2) unfolding eq Kv_rm by (simp add: kv_maps1_def)
  next
    case (Kv_rm_all p0 p1)
    obtain x where x: "kv_seq_rm (-1) p0 p1 kv = Some (True, x)" "same_config kv x"
      "\<forall>t < kv_n_stream kv. maps_cells (g_rm_any (norm_p0 p0) (norm_p1 p1)) (kv_cells kv ! t) (kv_cells x ! t)"
      using kv_seq_rm_all_spec [OF inv] by blast
    then have eq: "x = kv'" using run Kv_rm_all by simp
    have cell: "cells_cell (kv_cells kv' ! strm kv r) i = g_rm_any (norm_p0 p0) (norm_p1 p1) (cells_cell (kv_cells kv ! strm kv r) i)"
      if "i < kv_size kv" for i using x(3) t that D(6) [OF t] by (simp add: maps_cells_def eq)
    have g: "(\<exists>e h S. g_rm_any a b cl = (p, e, h, S) \<and> r \<in> S) \<longleftrightarrow> (\<exists>e h S. cl = (p, e, h, S) \<and> r \<in> S) \<and> \<not> (a \<le> p \<and> p < b)" for a b cl p
      by (cases cl) auto
    have "seq_view kv' r = {p. \<exists>i < kv_size kv. (\<exists>e h S. cells_cell (kv_cells kv ! strm kv r) i = (p, e, h, S) \<and> r \<in> S) \<and>
        \<not> (norm_p0 p0 \<le> p \<and> p < norm_p1 p1)}"
      using cell g by (simp add: seq_view_def same_config_good2(1) [OF x(2)[unfolded eq]] same_configD(9) [OF x(2)[unfolded eq]] cong: conj_cong)
    then show ?thesis using x(2) Kv_rm_all by (auto simp: seq_view_def eq)
  next
    case (Kv_cp src dst p0 p1)
    then have s: "seq_ok kv src" "seq_ok kv dst" "strm kv src = strm kv dst" "src = dst \<or> seq_view kv dst = {}"
      using pre by (auto simp: cp_ok_def)
    show ?thesis
    proof (cases "src = dst")
      case True
      have "kv_seq_cp src dst p0 p1 kv = Some kv"
        using True D(1,3) D(9) [OF s(1)] D(12) [OF s(1)] by (simp add: kv_seq_cp_def Let_def)
      then show ?thesis using run Kv_cp True by auto
    next
      case False
      then have "\<forall>i < kv_size kv. case cells_cell (kv_cells kv ! strm kv src) i of
          (p, e, h, S) \<Rightarrow> norm_p0 p0 \<le> p \<and> p < norm_p1 p1 \<and> src \<in> S \<longrightarrow> dst \<notin> S"
        using pre(1) s(3) Kv_cp by (simp add: cp_ok_def)
      from kv_seq_cp_same_spec [OF inv s(1-3) False this] obtain x where
        x: "kv_seq_cp src dst p0 p1 kv = Some x" "kv_maps1 (g_cp src dst (norm_p0 p0) (norm_p1 p1)) (strm kv src) kv x" by blast
      then have eq: "x = kv'" using run Kv_cp by simp
      show ?thesis using view_cp [OF inv x(2) s(3) r] x(2) unfolding eq Kv_cp by (simp add: kv_maps1_def)
    qed
  next
    case (Kv_keep s)
    then have s: "seq_ok kv s" using pre by simp
    obtain x where x: "kv_seq_keep s kv = Some x" "kv_maps1 (g_keep s) (strm kv s) kv x"
      using kv_seq_keep_spec [OF inv s] by blast
    then have eq: "x = kv'" using run Kv_keep by simp
    have g: "(\<exists>e h S. g_keep s cl = (p, e, h, S) \<and> r \<in> S) \<longleftrightarrow> r = s \<and> (\<exists>e h S. cl = (p, e, h, S) \<and> s \<in> S)" for cl p
      by (cases cl) auto
    have "seq_view kv' r = (if strm kv r = strm kv s then if r = s then seq_view kv s else {} else seq_view kv r)"
      unfolding view_maps1 [OF inv x(2)[unfolded eq] r] g by (auto simp: seq_view_def)
    then show ?thesis using x(2) unfolding eq Kv_keep by (auto simp: kv_maps1_def near_op_def)
  next
    case (Kv_add s p0 p1 d)
    then have s: "seq_ok kv s" "kv_n_pos kv = 1" "unshared kv s" using pre by simp_all
    obtain x where x: "kv_seq_add s p0 p1 d kv = Some x" "kv_maps1 (g_add s (norm_p0 p0) (norm_p1 p1) d) (strm kv s) kv x"
      using kv_seq_add_spec [OF inv s(1,2)] by blast
    then have eq: "x = kv'" using run Kv_add by simp
    have pos: "0 \<le> p" if "p \<in> seq_view kv s" for p using seq_view_queries(4) [OF inv s(1) that] .
    have "seq_view kv' r = (if r = s then moved op ` {p \<in> seq_view kv s. 0 \<le> moved op p} else seq_view kv r)"
      by (rule view_unshared [OF inv x(2)[unfolded eq] s(3,1) r]) (use pos in \<open>auto simp: Kv_add moved_def\<close>)
    moreover have "moved op ` {p \<in> seq_view kv s. 0 \<le> moved op p} = {p \<in> moved op ` seq_view kv s. 0 \<le> p}" by auto
    ultimately show ?thesis using x(2) unfolding eq Kv_add by (simp add: kv_maps1_def)
  next
    case (Kv_div s p0 p1 d)
    then have s: "seq_ok kv s" "kv_n_pos kv = 1" "0 < d" "unshared kv s" using pre by simp_all
    obtain x where x: "kv_seq_div s p0 p1 d kv = Some x" "kv_maps1 (g_div s (norm_p0 p0) (norm_p1 p1) d) (strm kv s) kv x"
      using kv_seq_div_spec [OF inv s(1,2,3)] by blast
    then have eq: "x = kv'" using run Kv_div by simp
    have "seq_view kv' r = (if r = s then moved op ` {p \<in> seq_view kv s. True} else seq_view kv r)"
      by (rule view_unshared [OF inv x(2)[unfolded eq] s(4,1) r]) (auto simp: Kv_div moved_def)
    then show ?thesis using x(2) unfolding eq Kv_div by (simp add: kv_maps1_def)
  next
    case (Kv_apply ub)
    then show ?thesis using nap by simp
  next
    case (Kv_update compute)
    then show ?thesis using view_update [OF inv _ r, of compute kv'] run by simp
  qed
  then show "same_config kv kv'" "seq_view kv' r = view_op op (near_op op kv) (seq_view kv) r" by simp_all
qed

lemma get_n_kv_total:
  assumes inv: "cache_inv kv" "cache_inv kv'" "same_config kv kv'" and si: "slot_ok kv ub si" and ub: "ub_ok kv ub"
  shows "\<exists>n. kv_get_n_kv si kv' = Some n"
proof -
  note S = slot_okD [OF si ub] and U = ub_okD [OF ub]
  have "length (kv_cells kv') = kv_n_stream kv" using cache_invD(3) [OF inv(2)] same_configD(1) [OF inv(3)] by simp
  then have "\<forall>s < si_n_stream si. \<exists>t. at_idx (si_strm si) s = Some t \<and> t < length (kv_cells kv')"
    using S(1,2,5) cache_invD(9) [OF inv(1) U(5)] by simp
  from get_n_kv_steps [OF this] show ?thesis unfolding kv_get_n_kv_def Let_def by blast
qed

lemma init_update_status: "kv_init_update kv = Some (x, kv') \<Longrightarrow> \<not> memory_status_is_fail (kx_status x)"
  by (auto simp: kv_init_update_def Let_def kx_new_def memory_status_is_fail_def split: if_splits bind_splits)

text \<open>
  \<open>seq_keep\<close> is documented to remove all tokens of other sequences; with several streams it only sees
  the stream of its own sequence.
\<close>

lemma seq_keep_one_stream:
  assumes "kv_good kv" "seq_ok kv s" "seq_ok kv r" "strm kv r \<noteq> strm kv s"
  shows "\<exists>kv'. kv_seq_keep s kv = Some kv' \<and> seq_view kv' r = seq_view kv r"
proof -
  obtain kv' where run: "run_kv_op (Kv_keep s) kv = Some kv'"
    using kv_op_step [OF assms(1), of "Kv_keep s"] assms(2) by auto
  then show ?thesis
    using view_run(2) [OF assms(1) _ _ run assms(3)] assms(2,4) by (simp add: near_op_def)
qed

end
