(* ===== verification/Iswa.thy ===== *)
theory Iswa
  imports KvProps KvState KvView
begin

section \<open>Two caches for interleaved window attention (\<open>src/llama-kv-cache-iswa.{h,cpp}\<close>)\<close>

text \<open>
  Models that attend to everything in some layers and within a sliding window in the others keep two
  KV caches side by side, and every operation goes to both. The sizes of both and the operations
  are here, with the relation between them that the position queries rely on: they ask the
  window's cache only.
\<close>

subsection \<open>The module\<close>

record kv_iswa =
  iw_unified :: bool
  iw_base :: kv_cache
  iw_swa :: kv_cache

definition iswa_size_swa :: "bool \<Rightarrow> bool \<Rightarrow> nat \<Rightarrow> nat \<Rightarrow> nat \<Rightarrow> nat \<Rightarrow> nat" where
  "iswa_size_swa swa_full unified n_cells n_seq_max n_ubatch n_swa =
     (let size_base = n_cells;
          size_swa = ggml_pad (min size_base (n_swa * (if unified then n_seq_max else 1) + n_ubatch)) 256
      in if swa_full then size_base else size_swa)"

definition iswa_new :: "bool \<Rightarrow> bool \<Rightarrow> nat \<Rightarrow> nat \<Rightarrow> nat \<Rightarrow> nat \<Rightarrow> nat \<Rightarrow> swa_type \<Rightarrow> nat \<Rightarrow> kv_iswa option \<Rightarrow> kv_iswa option" where
  "iswa_new swa_full unified n_cells n_seq_max n_ubatch n_pad n_swa swa n_pos other = do {
     base \<leftarrow> kv_new unified n_cells n_seq_max n_pad 0 Swa_none n_pos (map_option iw_base other);
     window \<leftarrow> kv_new unified (iswa_size_swa swa_full unified n_cells n_seq_max n_ubatch n_swa) n_seq_max n_pad
       n_swa swa n_pos (map_option iw_swa other);
     Some \<lparr>iw_unified = unified, iw_base = base, iw_swa = window\<rparr> }"

definition iswa_clear :: "kv_iswa \<Rightarrow> kv_iswa" where
  "iswa_clear m = m\<lparr>iw_base := kv_clear (iw_base m), iw_swa := kv_clear (iw_swa m)\<rparr>"

text \<open>\<open>res & \<dots>\<close> does not cut off: both caches are always asked.\<close>

definition iswa_seq_rm :: "llama_seq_id \<Rightarrow> llama_pos \<Rightarrow> llama_pos \<Rightarrow> kv_iswa \<Rightarrow> (bool \<times> kv_iswa) option" where
  "iswa_seq_rm s p0 p1 m = do {
     (r0, base) \<leftarrow> kv_seq_rm s p0 p1 (iw_base m);
     (r1, window) \<leftarrow> kv_seq_rm s p0 p1 (iw_swa m);
     Some (r0 \<and> r1, m\<lparr>iw_base := base, iw_swa := window\<rparr>) }"

definition on_both :: "(kv_cache \<Rightarrow> kv_cache option) \<Rightarrow> kv_iswa \<Rightarrow> kv_iswa option" where
  "on_both f m = do {
     base \<leftarrow> f (iw_base m);
     window \<leftarrow> f (iw_swa m);
     Some (m\<lparr>iw_base := base, iw_swa := window\<rparr>) }"

definition iswa_seq_cp :: "llama_seq_id \<Rightarrow> llama_seq_id \<Rightarrow> llama_pos \<Rightarrow> llama_pos \<Rightarrow> kv_iswa \<Rightarrow> kv_iswa option" where
  "iswa_seq_cp src dst p0 p1 = on_both (kv_seq_cp src dst p0 p1)"

definition iswa_seq_keep :: "llama_seq_id \<Rightarrow> kv_iswa \<Rightarrow> kv_iswa option" where
  "iswa_seq_keep s = on_both (kv_seq_keep s)"

definition iswa_seq_add :: "llama_seq_id \<Rightarrow> llama_pos \<Rightarrow> llama_pos \<Rightarrow> llama_pos \<Rightarrow> kv_iswa \<Rightarrow> kv_iswa option" where
  "iswa_seq_add s p0 p1 shift = on_both (kv_seq_add s p0 p1 shift)"

definition iswa_seq_div :: "llama_seq_id \<Rightarrow> llama_pos \<Rightarrow> llama_pos \<Rightarrow> int \<Rightarrow> kv_iswa \<Rightarrow> kv_iswa option" where
  "iswa_seq_div s p0 p1 d = on_both (kv_seq_div s p0 p1 d)"

definition iswa_seq_pos_min :: "llama_seq_id \<Rightarrow> kv_iswa \<Rightarrow> llama_pos option" where
  "iswa_seq_pos_min s m = kv_seq_pos_min s (iw_swa m)"

definition iswa_seq_pos_max :: "llama_seq_id \<Rightarrow> kv_iswa \<Rightarrow> llama_pos option" where
  "iswa_seq_pos_max s m = kv_seq_pos_max s (iw_swa m)"

text \<open>\<open>get_can_shift\<close>, given what the two caches answer.\<close>

definition iswa_get_can_shift :: "bool \<Rightarrow> bool \<Rightarrow> kv_iswa \<Rightarrow> bool option" where
  "iswa_get_can_shift base_can swa_can m =
     (if \<not> base_can \<or> \<not> swa_can then Some False else do {
        n \<leftarrow> kv_get_size (iw_base m);
        k \<leftarrow> kv_get_size (iw_swa m);
        Some (n = k) })"

subsection \<open>Preparing a batch\<close>

record iswa_context =
  ix_i_next :: nat
  ix_ubatches :: "llama_ubatch list"
  ix_base :: kv_context
  ix_swa :: kv_context
  ix_status :: memory_status

definition iswa_context_batch :: "slot_info list \<Rightarrow> slot_info list \<Rightarrow> llama_ubatch list \<Rightarrow> iswa_context" where
  "iswa_context_batch sinfos_base sinfos_swa ubs =
     (let base = (kx_new Status_success)\<lparr>kx_sinfos := sinfos_base, kx_ubatches := ubs\<rparr>;
          window = (kx_new Status_success)\<lparr>kx_sinfos := sinfos_swa, kx_ubatches := ubs\<rparr>
      in \<lparr>ix_i_next = 0, ix_ubatches = ubs, ix_base = base, ix_swa = window,
          ix_status = memory_status_combine (kx_status base) (kx_status window)\<rparr>)"

text \<open>
  One of the two attempts: split the batch, then prepare the base cache and after it the other. \<open>None\<close>
  stands for leaving the attempt; the second cache keeps what its \<open>prepare\<close> did.
\<close>

definition iswa_attempt :: "(batch_allocr \<Rightarrow> (llama_ubatch \<times> batch_allocr) option) \<Rightarrow> batch_allocr \<Rightarrow> kv_iswa \<Rightarrow>
    (iswa_context option \<times> batch_allocr \<times> kv_iswa) option" where
  "iswa_attempt split al m = do {
     let al = split_reset al;
     (ubs, al) \<leftarrow> split_all split al [];
     if al_n_used al < bt_n_tokens (al_batch al) then Some (None, al, m)
     else do {
       (sinfos_base, base) \<leftarrow> prepare ubs (iw_base m);
       let m = m\<lparr>iw_base := base\<rparr>;
       if sinfos_base = [] then Some (None, al, m)
       else do {
         (sinfos_swa, window) \<leftarrow> prepare ubs (iw_swa m);
         let m = m\<lparr>iw_swa := window\<rparr>;
         if sinfos_swa = [] then Some (None, al, m)
         else do {
           assrt (length sinfos_base = length sinfos_swa);
           Some (Some (iswa_context_batch sinfos_base sinfos_swa ubs), al, m) } } } }"

definition iswa_init_batch :: "nat \<Rightarrow> batch_allocr \<Rightarrow> kv_iswa \<Rightarrow>
    (iswa_context option \<times> batch_allocr \<times> kv_iswa) option" where
  "iswa_init_batch n_ubatch al m = do {
     (r, al, m) \<leftarrow> (if iw_unified m then iswa_attempt (split_simple n_ubatch) al m else Some (None, al, m));
     if r \<noteq> None then Some (r, al, m)
     else iswa_attempt (split_equal n_ubatch (\<not> iw_unified m) 0) al m }"

definition iswa_init_full :: "kv_iswa \<Rightarrow> iswa_context option" where
  "iswa_init_full m = do {
     base \<leftarrow> kv_init_full (iw_base m);
     window \<leftarrow> kv_init_full (iw_swa m);
     Some \<lparr>ix_i_next = 0, ix_ubatches = [], ix_base = base, ix_swa = window,
       ix_status = memory_status_combine (kx_status base) (kx_status window)\<rparr> }"

definition iswa_init_update :: "kv_iswa \<Rightarrow> (iswa_context \<times> kv_iswa) option" where
  "iswa_init_update m = do {
     (base, kv0) \<leftarrow> kv_init_update (iw_base m);
     (window, kv1) \<leftarrow> kv_init_update (iw_swa m);
     Some (\<lparr>ix_i_next = 0, ix_ubatches = [], ix_base = base, ix_swa = window,
       ix_status = memory_status_combine (kx_status base) (kx_status window)\<rparr>, m\<lparr>iw_base := kv0, iw_swa := kv1\<rparr>) }"

definition ix_next :: "iswa_context \<Rightarrow> (bool \<times> iswa_context) option" where
  "ix_next x = do {
     assrt (ix_status x = Status_success);
     (_, base) \<leftarrow> kx_next (ix_base x);
     (_, window) \<leftarrow> kx_next (ix_swa x);
     let x = x\<lparr>ix_base := base, ix_swa := window, ix_i_next := ix_i_next x + 1\<rparr>;
     Some (ix_i_next x < length (ix_ubatches x), x) }"

definition ix_apply :: "bool \<Rightarrow> bool option \<Rightarrow> iswa_context \<Rightarrow> kv_iswa \<Rightarrow> (iswa_context \<times> kv_iswa) option" where
  "ix_apply can_shift compute x m = do {
     assrt (\<not> memory_status_is_fail (ix_status x));
     (base, kv0) \<leftarrow> kx_apply can_shift compute (ix_base x) (iw_base m);
     (window, kv1) \<leftarrow> kx_apply can_shift compute (ix_swa x) (iw_swa m);
     Some (x\<lparr>ix_base := base, ix_swa := window\<rparr>, m\<lparr>iw_base := kv0, iw_swa := kv1\<rparr>) }"

subsection \<open>Saved states\<close>

text \<open>
  With \<open>LLAMA_STATE_SEQ_FLAGS_PARTIAL_ONLY\<close> only the window's cache is saved. An exception while the
  base cache is read leaves the other unread.
\<close>

definition iswa_state_write :: "bool \<Rightarrow> kv_full \<Rightarrow> kv_full \<Rightarrow> llama_seq_id \<Rightarrow> io_chunk list option" where
  "iswa_state_write partial_only base window seq_id = do {
     b \<leftarrow> (if partial_only then Some [] else state_write base seq_id);
     w \<leftarrow> state_write window seq_id;
     Some (b @ w) }"

definition iswa_state_read :: "bool \<Rightarrow> kv_full \<Rightarrow> kv_full \<Rightarrow> llama_seq_id \<Rightarrow> io_reader \<Rightarrow>
    (io_res \<times> kv_full \<times> kv_full \<times> io_reader) option" where
  "iswa_state_read partial_only base window seq_id r = do {
     (res, base, r) \<leftarrow> (if partial_only then Some (Io_ok, base, r) else state_read base seq_id r);
     if res \<noteq> Io_ok then Some (res, base, window, r) else do {
       (res, window, r) \<leftarrow> state_read window seq_id r;
       Some (res, base, window, r) } }"

subsection \<open>The window's cache is the tail of the other\<close>

definition tail_of :: "llama_pos set \<Rightarrow> llama_pos set \<Rightarrow> bool" where
  "tail_of A B \<longleftrightarrow> A \<subseteq> B \<and> (\<forall>p \<in> A. \<forall>q \<in> B. p \<le> q \<longrightarrow> q \<in> A)"

lemma tail_of_filter: "tail_of A B \<Longrightarrow> tail_of {p \<in> A. P p} {p \<in> B. P p}"
  by (auto simp: tail_of_def)

lemma tail_of_image:
  assumes "tail_of A B" and mono: "\<forall>p \<in> B. \<forall>q \<in> B. p < q \<longrightarrow> f p \<le> f q"
  shows "tail_of (f ` A) (f ` B)"
  unfolding tail_of_def
proof (intro conjI ballI impI)
  show "f ` A \<subseteq> f ` B" using assms(1) by (auto simp: tail_of_def)
  fix x y assume "x \<in> f ` A" "y \<in> f ` B" and le: "x \<le> y"
  then obtain p q where p: "p \<in> A" "x = f p" and q: "q \<in> B" "y = f q" by blast
  have B: "p \<in> B" using p(1) assms(1) by (auto simp: tail_of_def)
  show "y \<in> f ` A"
  proof (cases "p \<le> q")
    case True
    then show ?thesis using assms(1) p(1) q by (auto simp: tail_of_def)
  next
    case False
    then have "y = f p" using mono q B le p(2) by force
    then show ?thesis using p(1) by blast
  qed
qed

lemma tail_of_add: "tail_of A B \<Longrightarrow> \<forall>p \<in> B. \<forall>x \<in> N. p < x \<Longrightarrow> tail_of ({p \<in> A. r < p} \<union> N) (B \<union> N)"
  by (fastforce simp: tail_of_def)

lemma view_op_tail:
  assumes tail: "\<And>q. ok q \<Longrightarrow> tail_of (A q) (B q)" and r: "ok r"
    and cp: "\<And>src dst p0 p1. op = Kv_cp src dst p0 p1 \<Longrightarrow> ok src \<and> (src = dst \<or> A dst = {} \<and> B dst = {})"
    and move: "\<And>s p0 p1 d. op = Kv_add s p0 p1 d \<or> op = Kv_div s p0 p1 d \<Longrightarrow>
      \<forall>p \<in> B s. \<forall>q \<in> B s. p < q \<longrightarrow> moved op p \<le> moved op q"
  shows "tail_of (view_op op near A r) (view_op op near B r)"
proof (cases op)
  case (Kv_cp src dst p0 p1)
  show ?thesis
  proof (cases "r = dst")
    case True
    have "tail_of {p \<in> A src. norm_p0 p0 \<le> p \<and> p < norm_p1 p1} {p \<in> B src. norm_p0 p0 \<le> p \<and> p < norm_p1 p1}"
      using cp [OF Kv_cp] by (intro tail_of_filter tail) simp
    moreover have "X \<union> {p \<in> X. P p} = X" for X :: "llama_pos set" and P by blast
    ultimately show ?thesis using cp [OF Kv_cp] tail [OF r] True Kv_cp by (elim conjE disjE) simp_all
  qed (use Kv_cp tail [OF r] in simp)
next
  case (Kv_add s p0 p1 d)
  show ?thesis
  proof (cases "r = s")
    case True
    then have "tail_of {p \<in> moved op ` A r. 0 \<le> p} {p \<in> moved op ` B r. 0 \<le> p}"
      using move [of s p0 p1 d] Kv_add by (intro tail_of_filter tail_of_image [OF tail [OF r]]) simp
    then show ?thesis using Kv_add True by simp
  qed (use Kv_add tail [OF r] in simp)
next
  case (Kv_div s p0 p1 d)
  show ?thesis
  proof (cases "r = s")
    case True
    then have "tail_of (moved op ` A r) (moved op ` B r)"
      using move [of s p0 p1 d] Kv_div by (intro tail_of_image [OF tail [OF r]]) simp
    then show ?thesis using Kv_div True by simp
  qed (use Kv_div tail [OF r] in simp)
next
  case (Kv_rm s p0 p1)
  show ?thesis
  proof (cases "r = s")
    case True
    then show ?thesis using Kv_rm tail_of_filter [OF tail [OF r]] by simp
  qed (use Kv_rm tail [OF r] in simp)
next
  case (Kv_rm_all p0 p1)
  then show ?thesis using tail_of_filter [OF tail [OF r]] by simp
next
  case (Kv_keep s)
  then show ?thesis using tail [OF r] by (simp add: tail_of_def)
qed (use tail [OF r] in \<open>simp_all add: tail_of_def\<close>)

subsection \<open>The machine\<close>

text \<open>
  The operations of the module, with those of one cache for names. The step for a ubatch looks for a
  slot in both caches and applies it through the context of a batch with this one ubatch.
\<close>

fun run_iswa :: "kv_op \<Rightarrow> kv_iswa \<Rightarrow> kv_iswa option" where
  "run_iswa Kv_clear m = Some (iswa_clear m)"
| "run_iswa (Kv_rm s p0 p1) m = map_option snd (iswa_seq_rm s p0 p1 m)"
| "run_iswa (Kv_rm_all p0 p1) m = map_option snd (iswa_seq_rm (-1) p0 p1 m)"
| "run_iswa (Kv_cp src dst p0 p1) m = iswa_seq_cp src dst p0 p1 m"
| "run_iswa (Kv_keep s) m = iswa_seq_keep s m"
| "run_iswa (Kv_add s p0 p1 d) m = iswa_seq_add s p0 p1 d m"
| "run_iswa (Kv_div s p0 p1 d) m = iswa_seq_div s p0 p1 d m"
| "run_iswa (Kv_apply ub) m = do {
     s0 \<leftarrow> find_slot ub False (iw_base m);
     s1 \<leftarrow> find_slot ub False (iw_swa m);
     if si_empty s0 \<or> si_empty s1 then Some m
     else map_option snd (ix_apply True None (iswa_context_batch [s0] [s1] [ub]) m) }"
| "run_iswa (Kv_update compute) m = do {
     (x, m) \<leftarrow> iswa_init_update m;
     map_option snd (ix_apply True compute x m) }"

lemma run_iswa_both:
  assumes "\<forall>ub. op \<noteq> Kv_apply ub" "run_kv_op op (iw_base m) = Some b" "run_kv_op op (iw_swa m) = Some w"
  shows "run_iswa op m = Some (m\<lparr>iw_base := b, iw_swa := w\<rparr>)"
proof (cases op)
  case (Kv_update compute)
  obtain x b1 y w1 where u: "kv_init_update (iw_base m) = Some (x, b1)" "kv_init_update (iw_swa m) = Some (y, w1)"
    using assms(2,3) Kv_update by (auto split: bind_splits)
  then obtain x' y' where a: "kx_apply True compute x b1 = Some (x', b)" "kx_apply True compute y w1 = Some (y', w)"
    using assms(2,3) Kv_update by (auto simp: map_option_case split: option.splits)
  show ?thesis
    using u a init_update_status [OF u(1)] init_update_status [OF u(2)]
    by (cases m) (simp add: Kv_update iswa_init_update_def ix_apply_def memory_status_combine_def memory_status_is_fail_def assrt_def
      split: memory_status.splits)
qed (use assms in \<open>cases m; auto simp: iswa_clear_def iswa_seq_rm_def iswa_seq_cp_def iswa_seq_keep_def iswa_seq_add_def iswa_seq_div_def
    on_both_def map_option_case split: option.splits prod.splits\<close>)+

text \<open>
  The caches agree on their streams and on the positions of their tokens, the first has no window, and
  each sequence in the second is a tail of the same sequence in the first.
\<close>

definition iswa_good :: "kv_iswa \<Rightarrow> bool" where
  "iswa_good m \<longleftrightarrow> kv_good (iw_base m) \<and> kv_good (iw_swa m) \<and> kv_swa_type (iw_base m) = Swa_none \<and>
     kv_seq_to_stream (iw_swa m) = kv_seq_to_stream (iw_base m) \<and> kv_n_stream (iw_swa m) = kv_n_stream (iw_base m) \<and>
     (\<forall>s. seq_ok (iw_base m) s \<longrightarrow> tail_of (seq_view (iw_swa m) s) (seq_view (iw_base m) s))"

fun iswa_pre :: "kv_op \<Rightarrow> kv_iswa \<Rightarrow> bool" where
  "iswa_pre (Kv_apply ub) m = (ub_ok (iw_base m) ub \<and>
     (\<forall>q. seq_ok (iw_base m) q \<longrightarrow> (\<forall>p \<in> seq_view (iw_base m) q. \<forall>x \<in> ub_positions ub q. p < x)))"
| "iswa_pre op m = (kv_op_pre op (iw_base m) \<and> kv_op_pre op (iw_swa m) \<and> view_pre op (iw_base m) \<and> view_pre op (iw_swa m) \<and>
     (case op of
        Kv_add s p0 p1 d \<Rightarrow> \<forall>p \<in> seq_view (iw_base m) s. \<forall>q \<in> seq_view (iw_base m) s. p < q \<longrightarrow> moved op p \<le> moved op q
      | Kv_div s p0 p1 d \<Rightarrow> \<forall>p \<in> seq_view (iw_base m) s. \<forall>q \<in> seq_view (iw_base m) s. p < q \<longrightarrow> moved op p \<le> moved op q
      | _ \<Rightarrow> True))"

inductive iswa_reachable :: "kv_iswa \<Rightarrow> bool" where
  iswa_start: "iswa_new swa_full unified n_cells n_seq_max n_ubatch n_pad n_swa swa n_pos None = Some m \<Longrightarrow>
    0 < n_seq_max \<Longrightarrow> int n_seq_max \<le> LLAMA_MAX_SEQ \<Longrightarrow> 0 < n_cells \<Longrightarrow> 0 < n_ubatch \<Longrightarrow>
    (swa = Swa_chunked \<longrightarrow> n_swa \<noteq> 0) \<Longrightarrow> iswa_reachable m"
| iswa_step: "iswa_reachable m \<Longrightarrow> iswa_pre op m \<Longrightarrow> run_iswa op m = Some m' \<Longrightarrow> iswa_reachable m'"

inductive_cases iswa_reachableE: "iswa_reachable m"

lemma size_swa_pos: "0 < n_cells \<Longrightarrow> 0 < n_ubatch \<Longrightarrow> 0 < iswa_size_swa swa_full unified n_cells n_seq_max n_ubatch n_swa"
  using ggml_pad_ge [of "min n_cells (n_swa * (if unified then n_seq_max else 1) + n_ubatch)" 8]
  by (auto simp: iswa_size_swa_def Let_def)

lemma kv_new_streams:
  "kv_new unified n n_seq_max n_pad n_swa swa n_pos None = Some kv \<Longrightarrow>
    kv_seq_to_stream kv = (if \<not> unified \<and> n_seq_max > 1 then [0..<n_seq_max] else replicate (nat LLAMA_MAX_SEQ) 0)"
  by (auto simp: kv_new_def bind_assrt Let_def split: if_splits)

lemma iswa_new_good:
  assumes "iswa_new swa_full unified n_cells n_seq_max n_ubatch n_pad n_swa swa n_pos None = Some m"
    "0 < n_seq_max" "int n_seq_max \<le> LLAMA_MAX_SEQ" "0 < n_cells" "0 < n_ubatch" "swa = Swa_chunked \<longrightarrow> n_swa \<noteq> 0"
  shows "iswa_good m"
proof -
  let ?n = "iswa_size_swa swa_full unified n_cells n_seq_max n_ubatch n_swa"
  have base: "kv_new unified n_cells n_seq_max n_pad 0 Swa_none n_pos None = Some (iw_base m)"
    and window: "kv_new unified ?n n_seq_max n_pad n_swa swa n_pos None = Some (iw_swa m)"
    using assms(1) by (auto simp: iswa_new_def split: bind_splits)
  note B = kv_new_inv [OF base assms(2,3)] and W = kv_new_inv [OF window assms(2,3)]
  have "kv_seq_to_stream (iw_swa m) = kv_seq_to_stream (iw_base m)"
    unfolding kv_new_streams [OF base] kv_new_streams [OF window] ..
  moreover have "kv_good (iw_base m)" using kv_new_good [OF base assms(2-4)] by simp
  moreover have "kv_good (iw_swa m)" using kv_new_good [OF window assms(2,3) size_swa_pos [OF assms(4,5)] assms(6)] .
  ultimately show ?thesis
    unfolding iswa_good_def using B(3,5,8) W(3,8) by (simp add: seq_ok_def tail_of_def)
qed

text \<open>Placing a ubatch in both caches.\<close>

lemma iswa_apply_step:
  assumes g: "iswa_good m" and pre: "iswa_pre (Kv_apply ub) m"
  shows "\<exists>m'. run_iswa (Kv_apply ub) m = Some m' \<and> iswa_good m'"
proof -
  let ?b = "iw_base m" and ?w = "iw_swa m"
  have G: "kv_good ?b" "kv_good ?w" "kv_swa_type ?b = Swa_none" "kv_seq_to_stream ?w = kv_seq_to_stream ?b"
    "kv_n_stream ?w = kv_n_stream ?b" "\<And>s. seq_ok ?b s \<Longrightarrow> tail_of (seq_view ?w s) (seq_view ?b s)"
    using g by (simp_all add: iswa_good_def)
  have ok: "seq_ok ?w = seq_ok ?b" "strm ?w = strm ?b" using G(4) by (simp_all add: seq_ok_def strm_def fun_eq_iff)
  have ub: "ub_ok ?b ub" using pre by simp
  then have ubw: "ub_ok ?w ub" using G(5) ok by (simp add: ub_ok_def ub_n_seqs_for_def)
  have later: "\<forall>q. seq_ok ?b q \<longrightarrow> (\<forall>p \<in> seq_view ?b q. \<forall>x \<in> ub_positions ub q. p < x)" using pre by simp
  then have laterw: "\<forall>q. seq_ok ?w q \<longrightarrow> (\<forall>p \<in> seq_view ?w q. \<forall>x \<in> ub_positions ub q. p < x)"
    using G(6) unfolding ok by (fastforce simp: tail_of_def)
  have I: "cache_inv ?b" "swa_ok ?b" "0 < kv_size ?b" "cache_inv ?w" "swa_ok ?w" "0 < kv_size ?w"
    using G(1,2) by (simp_all add: kv_good_def)
  obtain s0 s1 where s: "find_slot ub False ?b = Some s0" "s0 = si_none \<or> slot_ok ?b ub s0"
      "find_slot ub False ?w = Some s1" "s1 = si_none \<or> slot_ok ?w ub s1"
    using find_slot_spec [OF I(1-3) ub] find_slot_spec [OF I(4-6) ubw] by (auto split: if_splits)
  show ?thesis
  proof (cases "si_empty s0 \<or> si_empty s1")
    case True
    then show ?thesis using s g by auto
  next
    case False
    then have S: "slot_ok ?b ub s0" "slot_ok ?w ub s1" using s(2,4) by (auto simp: si_empty_def si_none_def)
    obtain b where b: "apply_ubatch s0 ub ?b = Some b" "cache_inv b" "same_config ?b b"
      "\<And>q. seq_ok ?b q \<Longrightarrow> seq_view b q = {p \<in> seq_view ?b q. -1 < p} \<union> ub_positions ub q"
      using apply_ubatch_view_spec [OF I(1,2) ub S(1) later] none_overwritten [OF I(1) G(3) S(1) ub] by auto
    obtain w rm where w: "apply_ubatch s1 ub ?w = Some w" "cache_inv w" "same_config ?w w"
      "\<And>q. seq_ok ?w q \<Longrightarrow> seq_view w q = {p \<in> seq_view ?w q. rm q < p} \<union> ub_positions ub q"
      using apply_ubatch_view_spec [OF I(4,5) ubw S(2) laterw] by auto
    have run: "run_kv_op (Kv_apply ub) ?b = Some b" "run_kv_op (Kv_apply ub) ?w = Some w"
      using s False b(1) w(1) by simp_all
    have good: "kv_good b" "kv_good w"
      using kv_op_step [OF G(1), of "Kv_apply ub"] kv_op_step [OF G(2), of "Kv_apply ub"] run ub ubw by auto
    have bv: "seq_view b q = seq_view ?b q \<union> ub_positions ub q" if "seq_ok ?b q" for q
      using b(4) [OF that] seq_view_queries(4) [OF I(1) that] by fastforce
    have tail: "tail_of (seq_view w q) (seq_view b q)" if q: "seq_ok ?b q" for q
      unfolding bv [OF q] w(4) [unfolded ok, OF q] using G(6) [OF q] later q by (intro tail_of_add) auto
    obtain n0 n1 where n: "kv_get_n_kv s0 b = Some n0" "kv_get_n_kv s1 w = Some n1"
      using get_n_kv_total [OF I(1) b(2,3) S(1) ub] get_n_kv_total [OF I(4) w(2,3) S(2) ubw] by blast
    have run: "run_iswa (Kv_apply ub) m = Some (m\<lparr>iw_base := b, iw_swa := w\<rparr>)"
      using s False n b(1) w(1)
      by (cases m) (simp add: ix_apply_def iswa_context_batch_def kx_apply_def kx_new_def memory_status_combine_def memory_status_is_fail_def assrt_def Let_def)
    have "iswa_good (m\<lparr>iw_base := b, iw_swa := w\<rparr>)"
      unfolding iswa_good_def using good G(3-5) tail same_configD [OF b(3)] same_configD [OF w(3)] same_config_good2 [OF b(3)] by simp
    with run show ?thesis by blast
  qed
qed

lemma iswa_op_step:
  assumes g: "iswa_good m" and pre: "iswa_pre op m"
  shows "\<exists>m'. run_iswa op m = Some m' \<and> iswa_good m'"
proof (cases "\<exists>ub. op = Kv_apply ub")
  case True
  then show ?thesis using iswa_apply_step [OF g] pre by blast
next
  case False
  then have nap: "\<forall>ub. op \<noteq> Kv_apply ub" by blast
  let ?b = "iw_base m" and ?w = "iw_swa m"
  have G: "kv_good ?b" "kv_good ?w" "kv_swa_type ?b = Swa_none" "kv_seq_to_stream ?w = kv_seq_to_stream ?b"
    "kv_n_stream ?w = kv_n_stream ?b" "\<And>s. seq_ok ?b s \<Longrightarrow> tail_of (seq_view ?w s) (seq_view ?b s)"
    using g by (simp_all add: iswa_good_def)
  have ok: "seq_ok ?w = seq_ok ?b" "strm ?w = strm ?b" using G(4) by (simp_all add: seq_ok_def strm_def fun_eq_iff)
  have P: "kv_op_pre op ?b" "kv_op_pre op ?w" "view_pre op ?b" "view_pre op ?w"
    using pre nap by (cases op; simp)+
  obtain b where b: "run_kv_op op ?b = Some b" "kv_good b" using kv_op_step [OF G(1) P(1)] by blast
  obtain w where w: "run_kv_op op ?w = Some w" "kv_good w" using kv_op_step [OF G(2) P(2)] by blast
  have near: "near_op op ?w = near_op op ?b" by (simp add: near_op_def ok fun_eq_iff split: kv_op.splits)
  have cp: "seq_ok ?b src \<and> (src = dst \<or> seq_view ?w dst = {} \<and> seq_view ?b dst = {})" if "op = Kv_cp src dst p0 p1" for src dst p0 p1
    using P that by (auto simp: cp_ok_def)
  have move: "\<forall>p \<in> seq_view ?b s. \<forall>q \<in> seq_view ?b s. p < q \<longrightarrow> moved op p \<le> moved op q"
    if "op = Kv_add s p0 p1 d \<or> op = Kv_div s p0 p1 d" for s p0 p1 d using pre that by auto
  have zero: "seq_ok ?b 0"
    using G(1) by (cases "kv_seq_to_stream ?b") (simp_all add: kv_good_def cache_inv_def seq_ok_def)
  have config: "same_config ?b b" "same_config ?w w"
    using view_run(1) [OF G(1) P(1,3) b(1) zero nap] view_run(1) [OF G(2) P(2,4) w(1) _ nap, of 0] zero ok by simp_all
  have "tail_of (seq_view w q) (seq_view b q)" if q: "seq_ok ?b q" for q
    unfolding view_run(2) [OF G(1) P(1,3) b(1) q nap] view_run(2) [OF G(2) P(2,4) w(1) q [folded ok(1)] nap] near
    by (rule view_op_tail [where ok = "seq_ok ?b", OF G(6) q cp move])
  then have "iswa_good (m\<lparr>iw_base := b, iw_swa := w\<rparr>)"
    unfolding iswa_good_def
    using b(2) w(2) G(3-5) same_configD [OF config(1)] same_configD [OF config(2)] same_config_good2 [OF config(1)] by simp
  then show ?thesis using run_iswa_both [OF nap b(1) w(1)] by blast
qed

lemma iswa_reachable_good: "iswa_reachable m \<Longrightarrow> iswa_good m"
proof (induction rule: iswa_reachable.induct)
  case (iswa_step m op m')
  with iswa_op_step [of m op] show ?case by auto
qed (rule iswa_new_good)

lemma iswa_queries:
  assumes g: "iswa_good m" and s: "seq_ok (iw_base m) s"
  shows "\<exists>lo hi. iswa_seq_pos_min s m = Some lo \<and> iswa_seq_pos_max s m = Some hi \<and>
    seq_view (iw_swa m) s \<subseteq> seq_view (iw_base m) s \<and>
    (lo \<noteq> -1 \<longrightarrow> seq_view (iw_swa m) s = {p \<in> seq_view (iw_base m) s. lo \<le> p} \<and> kv_seq_pos_max s (iw_base m) = Some hi)"
proof -
  let ?A = "seq_view (iw_swa m) s" and ?B = "seq_view (iw_base m) s"
  have I: "cache_inv (iw_base m)" "cache_inv (iw_swa m)" and tail: "tail_of ?A ?B" and sw: "seq_ok (iw_swa m) s"
    using g s by (simp_all add: iswa_good_def kv_good_def seq_ok_def)
  note A = seq_view_queries [OF I(2) sw] and B = seq_view_queries [OF I(1) s]
  show ?thesis
  proof (cases "?A = {}")
    case True
    then show ?thesis using A(1,2) by (simp add: iswa_seq_pos_min_def iswa_seq_pos_max_def)
  next
    case False
    have min: "Min ?A \<in> ?A" "\<forall>p \<in> ?A. Min ?A \<le> p" and max: "Max ?A \<in> ?A" using A(3) False by simp_all
    have sub: "?A \<subseteq> ?B" and up: "\<forall>p \<in> ?A. \<forall>q \<in> ?B. p \<le> q \<longrightarrow> q \<in> ?A" using tail by (simp_all add: tail_of_def)
    have eq: "?A = {p \<in> ?B. Min ?A \<le> p}" using min sub up by blast
    have ne: "?B \<noteq> {}" using False sub by blast
    have "Max ?B \<in> ?B" "Max ?A \<le> Max ?B" using B(3) ne max sub by auto
    then have "Max ?B \<in> ?A" using up max by blast
    then have "Max ?B \<le> Max ?A" using A(3) by simp
    then have "Max ?A = Max ?B" using \<open>Max ?A \<le> Max ?B\<close> by simp
    then show ?thesis
      using A(1,2) B(2) False ne eq sub unfolding iswa_seq_pos_min_def iswa_seq_pos_max_def by simp
  qed
qed

text \<open>For its clients the module is a memory whose sequences are those of the window's cache.\<close>

definition iswa_ok :: "kv_iswa \<Rightarrow> llama_seq_id \<Rightarrow> bool" where
  "iswa_ok m = seq_ok (iw_base m)"

definition iswa_view :: "kv_iswa \<Rightarrow> llama_seq_id \<Rightarrow> llama_pos set" where
  "iswa_view m = seq_view (iw_swa m)"

lemma iswa_goodD:
  assumes "iswa_good m"
  shows "cache_inv (iw_base m)" "cache_inv (iw_swa m)" "seq_ok (iw_swa m) = iswa_ok m"
  using assms by (simp_all add: iswa_good_def kv_good_def iswa_ok_def seq_ok_def fun_eq_iff)

interpretation iswa_mem: seq_memory iswa_good iswa_ok iswa_view iswa_seq_rm iswa_seq_pos_min iswa_seq_pos_max
proof
  fix m s p0 p1 assume g: "iswa_good m" and s: "iswa_ok m s"
  note D = iswa_goodD [OF g] and b = s [unfolded iswa_ok_def] and w = s [folded iswa_goodD(3) [OF g]]
  note Q = seq_view_queries [OF D(2) w, folded iswa_view_def]
  show "finite (iswa_view m s)" by (fact Q(3))
  show "iswa_seq_pos_min s m = Some (if iswa_view m s = {} then -1 else Min (iswa_view m s))"
    "iswa_seq_pos_max s m = Some (if iswa_view m s = {} then -1 else Max (iswa_view m s))"
    unfolding iswa_seq_pos_min_def iswa_seq_pos_max_def by (fact Q(1), fact Q(2))
  obtain x where x: "kv_seq_rm s p0 p1 (iw_base m) = Some (True, x)" "\<forall>r. seq_ok x r = seq_ok (iw_base m) r"
    using kv_mem.rm_view [OF D(1) b] by blast
  obtain y where y: "kv_seq_rm s p0 p1 (iw_swa m) = Some (True, y)"
    "\<forall>r. seq_ok (iw_swa m) r \<longrightarrow> seq_view y r =
      (if r = s then {p \<in> seq_view (iw_swa m) s. \<not> (norm_p0 p0 \<le> p \<and> p < norm_p1 p1)} else seq_view (iw_swa m) r)"
    using kv_mem.rm_view [OF D(2) w] by blast
  let ?m = "m\<lparr>iw_base := x, iw_swa := y\<rparr>"
  have run: "iswa_seq_rm s p0 p1 m = Some (True, ?m)" using x(1) y(1) by (simp add: iswa_seq_rm_def)
  have "iswa_pre (Kv_rm s p0 p1) m" using b w by simp
  then have "iswa_good ?m" using iswa_op_step [OF g] run by fastforce
  then show "\<exists>m'. iswa_seq_rm s p0 p1 m = Some (True, m') \<and> iswa_good m' \<and> (\<forall>r. iswa_ok m' r = iswa_ok m r) \<and>
      (\<forall>r. iswa_ok m r \<longrightarrow> iswa_view m' r =
        (if r = s then {p \<in> iswa_view m s. \<not> (norm_p0 p0 \<le> p \<and> p < norm_p1 p1)} else iswa_view m r))"
    using run x(2) y(2) D(3) by (intro exI [of _ ?m]) (simp add: iswa_ok_def iswa_view_def)
next
  fix m s p assume "iswa_good m" "iswa_ok m s" "p \<in> iswa_view m s"
  then show "0 \<le> p"
    using seq_view_queries(4) [of "iw_swa m" s p] iswa_goodD [of m] by (simp add: iswa_view_def)
qed

subsection \<open>The property\<close>

text \<open>
  C38: The calls \<open>clear\<close>, \<open>seq_rm\<close>, \<open>seq_cp\<close> inside a stream to an empty sequence, \<open>seq_keep\<close>, \<open>seq_add\<close>
  and \<open>seq_div\<close> that keep the order of the positions of a sequence which shares no cell, the placing
  of a ubatch whose positions come after those of its sequences, and \<open>update\<close>, in any order from a
  fresh pair of caches, fail no assertion. Afterwards the window's cache holds of every sequence a
  tail of what the base cache holds. As long as it holds any token of the sequence (\<open>lo \<noteq> -1\<close>),
  asking it alone, as \<open>seq_pos_min\<close> and \<open>seq_pos_max\<close> do, is right: from the first position it
  reports on, both caches hold the same tokens, and the last position is that of the base cache.
\<close>

theorem iswa_reachable_ops:
  assumes "iswa_reachable m" "iswa_pre op m"
  shows "\<exists>m'. run_iswa op m = Some m' \<and> iswa_reachable m' \<and>
    (\<forall>s. seq_ok (iw_base m') s \<longrightarrow> (\<exists>lo hi. iswa_seq_pos_min s m' = Some lo \<and> iswa_seq_pos_max s m' = Some hi \<and>
      seq_view (iw_swa m') s \<subseteq> seq_view (iw_base m') s \<and>
      (lo \<noteq> -1 \<longrightarrow> seq_view (iw_swa m') s = {p \<in> seq_view (iw_base m') s. lo \<le> p} \<and> kv_seq_pos_max s (iw_base m') = Some hi)))"
proof -
  obtain m' where m': "run_iswa op m = Some m'" "iswa_good m'"
    using iswa_op_step [OF iswa_reachable_good [OF assms(1)] assms(2)] by blast
  then show ?thesis using iswa_step [OF assms m'(1)] iswa_queries [OF m'(2)] by blast
qed

definition small_iswa :: kv_iswa where
  "small_iswa = the (iswa_new True True 4 2 4 1 2 Swa_standard 1 None)"

lemma small_iswa_reachable: "iswa_reachable small_iswa"
proof (rule iswa_start)
  show "iswa_new True True 4 2 4 1 2 Swa_standard 1 None = Some small_iswa"
    by (simp add: small_iswa_def iswa_new_def kv_new_def iswa_size_swa_def Let_def assrt_def)
qed (simp_all add: LLAMA_MAX_SEQ_def)

lemma small_iswa_base: "iw_base small_iswa = small_kv"
  by (simp add: small_iswa_def iswa_new_def kv_new_def iswa_size_swa_def Let_def assrt_def small_kv_def)

lemma iswa_reachable_ops_witness:
  "\<exists>m'. run_iswa (Kv_apply prompt) small_iswa = Some m' \<and> iswa_reachable m' \<and>
    (\<forall>s. seq_ok (iw_base m') s \<longrightarrow> (\<exists>lo hi. iswa_seq_pos_min s m' = Some lo \<and> iswa_seq_pos_max s m' = Some hi \<and>
      seq_view (iw_swa m') s \<subseteq> seq_view (iw_base m') s \<and>
      (lo \<noteq> -1 \<longrightarrow> seq_view (iw_swa m') s = {p \<in> seq_view (iw_base m') s. lo \<le> p} \<and> kv_seq_pos_max s (iw_base m') = Some hi)))"
  by (rule iswa_reachable_ops [OF small_iswa_reachable]) (simp add: small_iswa_base prompt_ok small_kv_facts(8))

text \<open>
  C40: A cut below the first position the window still holds empties the sequence in the window's cache
  only. Both position queries then answer \<open>-1\<close>, which stands for an empty sequence, while the base
  cache keeps all the positions below the cut.
\<close>

theorem iswa_cut_below_window:
  assumes "iswa_reachable m" "seq_ok (iw_base m) s" "\<forall>p \<in> seq_view (iw_base m) s. p < INT32_MAX"
    and "0 \<le> n" "\<forall>p \<in> seq_view (iw_swa m) s. n \<le> p"
  shows "\<exists>m'. iswa_seq_rm s n (-1) m = Some (True, m') \<and> iswa_reachable m' \<and>
    iswa_seq_pos_min s m' = Some (-1) \<and> iswa_seq_pos_max s m' = Some (-1) \<and>
    seq_view (iw_base m') s = {p \<in> seq_view (iw_base m) s. p < n}"
proof -
  have g: "iswa_good m" by (rule iswa_reachable_good [OF assms(1)])
  note D = iswa_goodD [OF g]
  have w: "seq_ok (iw_swa m) s" using D(3) assms(2) by (simp add: iswa_ok_def)
  have sub: "seq_view (iw_swa m) s \<subseteq> seq_view (iw_base m) s" using g assms(2) by (simp add: iswa_good_def tail_of_def)
  obtain b where b: "kv_seq_rm s n (-1) (iw_base m) = Some (True, b)" "seq_view b s = {p \<in> seq_view (iw_base m) s. p < n}"
    using kv_mem.rm_tail [OF D(1) assms(2-4)] by blast
  have wmax: "\<forall>p \<in> seq_view (iw_swa m) s. p < INT32_MAX" using assms(3) sub by blast
  obtain y where y: "kv_seq_rm s n (-1) (iw_swa m) = Some (True, y)" "seq_view y s = {p \<in> seq_view (iw_swa m) s. p < n}"
    using kv_mem.rm_tail [OF D(2) w wmax assms(4)] by blast
  let ?m = "m\<lparr>iw_base := b, iw_swa := y\<rparr>"
  have run: "iswa_seq_rm s n (-1) m = Some (True, ?m)" using b(1) y(1) by (simp add: iswa_seq_rm_def)
  have r: "iswa_reachable ?m" by (rule iswa_step [OF assms(1), of "Kv_rm s n (-1)"]) (use run assms(2) w in simp_all)
  have g': "iswa_good ?m" by (rule iswa_reachable_good [OF r])
  have ok: "iswa_ok ?m s" using iswa_mem.rm_view [OF g, of s n "-1"] assms(2) run by (auto simp: iswa_ok_def)
  have "seq_view y s = {}" using y(2) assms(5) by auto
  then have "iswa_view ?m s = {}" by (simp add: iswa_view_def)
  then show ?thesis
    using run b(2) r iswa_mem.pos_min_view [OF g' ok] iswa_mem.pos_max_view [OF g' ok] by auto
qed

text \<open>
  A sequence of five tokens in caches of six cells, with a window of two; the first token is removed. The next
  two tokens take its cell, and in the window's cache also that of the second token, which the window has left.
\<close>

definition tokens_ub :: "llama_pos list \<Rightarrow> llama_ubatch" where
  "tokens_ub ps = (let n = length ps in ubatch_none\<lparr>ub_n_tokens := n, ub_n_seq_tokens := n, ub_n_seqs := 1,
     ub_n_seqs_unq := 1, ub_n_pos := 1, ub_token := Some (replicate n 7), ub_pos := ps, ub_n_seq_id := replicate n 1,
     ub_seq_id := replicate n [0], ub_seq_id_unq := [0], ub_output := replicate n False\<rparr>)"

definition wrap_start :: kv_iswa where
  "wrap_start = the (iswa_new True True 6 2 6 1 2 Swa_standard 1 None)"

definition wrap_full :: kv_iswa where
  "wrap_full = the (run_iswa (Kv_apply (tokens_ub [0, 1, 2, 3, 4])) wrap_start)"

definition wrap_cut :: kv_iswa where
  "wrap_cut = the (run_iswa (Kv_rm 0 0 1) wrap_full)"

definition wrap_done :: kv_iswa where
  "wrap_done = the (run_iswa (Kv_apply (tokens_ub [5, 6])) wrap_cut)"

text \<open>All cells of the only stream, as far as the positions of sequence 0 depend on them.\<close>

definition only_stream :: "kv_cache \<Rightarrow> nat \<times> nat \<times> nat list \<times> (llama_pos \<times> bool) list" where
  "only_stream kv = (kv_n_stream kv, kv_size kv, take 1 (kv_seq_to_stream kv),
     map (\<lambda>i. (kc_pos (kv_cells kv ! 0) ! i, 0 \<in> kc_seq (kv_cells kv ! 0) ! i)) [0..<kv_size kv])"

lemma wrap_cells:
  "only_stream (iw_base wrap_start) = (1, 6, [0], replicate 6 (-1, False))"
  "only_stream (iw_base wrap_cut) = (1, 6, [0], [(-1, False), (1, True), (2, True), (3, True), (4, True), (-1, False)])"
  "only_stream (iw_base wrap_done) = (1, 6, [0], [(5, True), (1, True), (2, True), (3, True), (4, True), (6, True)])"
  "only_stream (iw_swa wrap_done) = (1, 6, [0], [(5, True), (6, True), (2, True), (3, True), (4, True), (-1, False)])"
  by code_simp+

lemma only_stream_ok:
  assumes "only_stream kv = (1, n, [0], ps)"
  shows "seq_ok kv 0" "seq_view kv 0 = {p. (p, True) \<in> set ps}"
    "us \<noteq> [] \<Longrightarrow> \<forall>p \<in> set us. 0 \<le> p \<Longrightarrow> ub_ok kv (tokens_ub us)"
proof -
  have kv: "kv_n_stream kv = 1" "kv_size kv = n" "take 1 (kv_seq_to_stream kv) = [0]"
    "ps = map (\<lambda>i. (kc_pos (kv_cells kv ! 0) ! i, 0 \<in> kc_seq (kv_cells kv ! 0) ! i)) [0..<n]"
    using assms by (auto simp: only_stream_def)
  obtain ss where ss: "kv_seq_to_stream kv = 0 # ss" using kv(3) by (cases "kv_seq_to_stream kv") simp_all
  then have s: "seq_ok kv 0" "strm kv 0 = 0" by (simp_all add: seq_ok_def strm_def)
  then show "seq_ok kv 0" by simp
  show "seq_view kv 0 = {p. (p, True) \<in> set ps}"
    unfolding seq_view_def s(2) kv(2,4) by (auto simp: cells_cell_def image_iff)
  show "ub_ok kv (tokens_ub us)" if "us \<noteq> []" "\<forall>p \<in> set us. 0 \<le> p"
    using that s kv(1) by (simp add: ub_ok_def Let_def ub_n_seqs_for_def tokens_ub_def ubatch_none_def ub_seqs_def)
qed

lemma tokens_ub_positions: "ub_positions (tokens_ub ps) q = (if q = 0 then set ps else {})"
  by (auto simp: ub_positions_def tokens_ub_def ubatch_none_def ub_seqs_def set_conv_nth Let_def)

lemma wrap_apply:
  assumes "iswa_reachable m" "only_stream (iw_base m) = (1, n, [0], ps)" "us \<noteq> []" "\<forall>p \<in> set us. 0 \<le> p"
    "\<forall>p. (p, True) \<in> set ps \<longrightarrow> (\<forall>x \<in> set us. p < x)"
  shows "iswa_reachable (the (run_iswa (Kv_apply (tokens_ub us)) m))"
proof -
  note O = only_stream_ok [OF assms(2)]
  have "iswa_pre (Kv_apply (tokens_ub us)) m" using O(2) O(3) [OF assms(3,4)] assms(5) by (simp add: tokens_ub_positions)
  then show ?thesis
    using iswa_op_step [OF iswa_reachable_good [OF assms(1)]] iswa_step [OF assms(1)] by (metis option.sel)
qed

lemma wrap_reachable: "iswa_reachable wrap_done"
proof -
  have "iswa_reachable wrap_start"
  proof (rule iswa_start)
    show "iswa_new True True 6 2 6 1 2 Swa_standard 1 None = Some wrap_start"
      by (simp add: wrap_start_def iswa_new_def kv_new_def iswa_size_swa_def Let_def assrt_def)
  qed (simp_all add: LLAMA_MAX_SEQ_def)
  then have "iswa_reachable wrap_full"
    unfolding wrap_full_def by (rule wrap_apply [OF _ wrap_cells(1)]) (auto simp: set_replicate_conv_if)
  moreover from this have g: "iswa_good wrap_full" by (rule iswa_reachable_good)
  moreover have "seq_ok (iw_base wrap_full) 0"
    using g by (cases "kv_seq_to_stream (iw_base wrap_full)") (simp_all add: iswa_good_def kv_good_def cache_inv_def seq_ok_def)
  then have "iswa_pre (Kv_rm 0 0 1) wrap_full" using iswa_goodD(3) [OF g] by (simp add: iswa_ok_def)
  ultimately have "iswa_reachable wrap_cut"
    unfolding wrap_cut_def using iswa_op_step [OF g] iswa_step by (metis option.sel)
  then show ?thesis unfolding wrap_done_def by (rule wrap_apply [OF _ wrap_cells(2)]) auto
qed

lemma iswa_cut_below_window_witness:
  "\<exists>m'. iswa_seq_rm 0 2 (-1) wrap_done = Some (True, m') \<and> iswa_reachable m' \<and>
    iswa_seq_pos_min 0 m' = Some (-1) \<and> iswa_seq_pos_max 0 m' = Some (-1) \<and> seq_view (iw_base m') 0 = {1}"
proof -
  note B = only_stream_ok(1,2) [OF wrap_cells(3)] and W = only_stream_ok(2) [OF wrap_cells(4)]
  have "{p \<in> seq_view (iw_base wrap_done) 0. p < 2} = {1}" unfolding B(2) by auto
  moreover have "\<forall>p \<in> seq_view (iw_base wrap_done) 0. p < INT32_MAX" unfolding B(2) by (auto simp: INT32_MAX_def)
  moreover have "\<forall>p \<in> seq_view (iw_swa wrap_done) 0. 2 \<le> p" unfolding W by auto
  ultimately show ?thesis using iswa_cut_below_window [OF wrap_reachable B(1), of 2] by simp
qed

end
