(* ===== verification/Hybrid.thy ===== *)
theory Hybrid
  imports RecurrentProps KvView
begin

section \<open>Models with attention and recurrent layers (\<open>src/llama-memory-hybrid.{h,cpp}\<close>)\<close>

text \<open>
  A hybrid model keeps a KV cache for its attention layers and a recurrent memory for the others. An
  operation goes to both; a client sees one memory whose sequences are in both. The property is that
  the two never disagree about where a sequence ends.
\<close>

subsection \<open>The contexts of the recurrent memory (\<open>src/llama-memory-recurrent.cpp\<close>)\<close>

record recr_context =
  rx_status :: memory_status
  rx_ubatches :: "llama_ubatch list"
  rx_i_next :: nat
  rx_is_full :: bool

definition rx_new :: "memory_status \<Rightarrow> recr_context" where
  "rx_new status = \<lparr>rx_status = status, rx_ubatches = [], rx_i_next = 0, rx_is_full = False\<rparr>"

definition recr_init_full :: recr_context where
  "recr_init_full = (rx_new Status_success)\<lparr>rx_is_full := True\<rparr>"

definition recr_init_update :: recr_context where
  "recr_init_update = rx_new Status_no_update"

definition rx_batch :: "llama_ubatch list \<Rightarrow> recr_context" where
  "rx_batch ubs = (rx_new Status_success)\<lparr>rx_ubatches := ubs\<rparr>"

definition rx_next :: "recr_context \<Rightarrow> (bool \<times> recr_context) option" where
  "rx_next x = do {
     assrt (rx_status x = Status_success);
     let x = x\<lparr>rx_i_next := rx_i_next x + 1\<rparr>;
     Some (rx_i_next x < length (rx_ubatches x), x) }"

text \<open>What \<open>find_slot\<close> answers is not looked at.\<close>

definition rx_apply :: "recr_context \<Rightarrow> mem_recr \<Rightarrow> mem_recr option" where
  "rx_apply x m = do {
     assrt (\<not> memory_status_is_fail (rx_status x));
     if rx_ubatches x = [] then do {
       assrt (rx_status x = Status_no_update);
       Some m }
     else do {
       ub \<leftarrow> at_idx (rx_ubatches x) (rx_i_next x);
       (_, m) \<leftarrow> recr_find_slot ub m;
       Some m } }"

definition rx_get_n_rs :: "recr_context \<Rightarrow> mem_recr \<Rightarrow> nat" where
  "rx_get_n_rs x m = (if rx_is_full x then mr_size m else mr_n m)"

definition rx_get_head :: "recr_context \<Rightarrow> mem_recr \<Rightarrow> nat" where
  "rx_get_head x m = (if rx_is_full x then 0 else mr_head m)"

definition rx_get_rs_z :: "recr_context \<Rightarrow> mem_recr \<Rightarrow> int" where
  "rx_get_rs_z x m = (if rx_is_full x then 0 else mr_rs_z m)"

subsection \<open>The module\<close>

record mem_hybrid =
  hy_attn :: kv_cache
  hy_recr :: mem_recr

definition hybrid_new :: "bool \<Rightarrow> nat \<Rightarrow> nat \<Rightarrow> nat \<Rightarrow> swa_type \<Rightarrow> nat \<Rightarrow> nat \<Rightarrow> nat \<Rightarrow> nat \<Rightarrow> mem_hybrid option" where
  "hybrid_new unified n_cells n_pad n_swa swa n_pos rs_size n_seq_max n_rs_seq = do {
     attn \<leftarrow> kv_new unified n_cells n_seq_max n_pad n_swa swa n_pos None;
     Some \<lparr>hy_attn = attn, hy_recr = recr_new rs_size n_seq_max n_rs_seq\<rparr> }"

definition hybrid_clear :: "mem_hybrid \<Rightarrow> mem_hybrid" where
  "hybrid_clear m = m\<lparr>hy_attn := kv_clear (hy_attn m), hy_recr := recr_clear (hy_recr m)\<rparr>"

definition hybrid_seq_rm :: "llama_seq_id \<Rightarrow> llama_pos \<Rightarrow> llama_pos \<Rightarrow> mem_hybrid \<Rightarrow> (bool \<times> mem_hybrid) option" where
  "hybrid_seq_rm s p0 p1 m = do {
     (ok, recr) \<leftarrow> recr_seq_rm s p0 p1 (hy_recr m);
     let m = m\<lparr>hy_recr := recr\<rparr>;
     if \<not> ok then Some (False, m) else do {
       (res, attn) \<leftarrow> kv_seq_rm s p0 p1 (hy_attn m);
       Some (res, m\<lparr>hy_attn := attn\<rparr>) } }"

definition hybrid_seq_cp :: "llama_seq_id \<Rightarrow> llama_seq_id \<Rightarrow> llama_pos \<Rightarrow> llama_pos \<Rightarrow> mem_hybrid \<Rightarrow> mem_hybrid option" where
  "hybrid_seq_cp src dst p0 p1 m = do {
     attn \<leftarrow> kv_seq_cp src dst p0 p1 (hy_attn m);
     recr \<leftarrow> recr_seq_cp src dst p0 p1 (hy_recr m);
     Some (m\<lparr>hy_attn := attn, hy_recr := recr\<rparr>) }"

definition hybrid_seq_keep :: "llama_seq_id \<Rightarrow> mem_hybrid \<Rightarrow> mem_hybrid option" where
  "hybrid_seq_keep s m = do {
     attn \<leftarrow> kv_seq_keep s (hy_attn m);
     Some (m\<lparr>hy_attn := attn, hy_recr := recr_seq_keep s (hy_recr m)\<rparr>) }"

definition hybrid_seq_add :: "llama_seq_id \<Rightarrow> llama_pos \<Rightarrow> llama_pos \<Rightarrow> llama_pos \<Rightarrow> mem_hybrid \<Rightarrow> mem_hybrid option" where
  "hybrid_seq_add s p0 p1 shift m = do {
     attn \<leftarrow> kv_seq_add s p0 p1 shift (hy_attn m);
     recr \<leftarrow> recr_seq_add s p0 p1 shift (hy_recr m);
     Some (m\<lparr>hy_attn := attn, hy_recr := recr\<rparr>) }"

definition hybrid_seq_div :: "llama_seq_id \<Rightarrow> llama_pos \<Rightarrow> llama_pos \<Rightarrow> int \<Rightarrow> mem_hybrid \<Rightarrow> mem_hybrid option" where
  "hybrid_seq_div s p0 p1 d m = do {
     attn \<leftarrow> kv_seq_div s p0 p1 d (hy_attn m);
     recr \<leftarrow> recr_seq_div s p0 p1 d (hy_recr m);
     Some (m\<lparr>hy_attn := attn, hy_recr := recr\<rparr>) }"

definition hybrid_seq_pos_min :: "llama_seq_id \<Rightarrow> mem_hybrid \<Rightarrow> llama_pos option" where
  "hybrid_seq_pos_min s m = do {
     a \<leftarrow> kv_seq_pos_min s (hy_attn m);
     Some (max a (recr_seq_pos_min s (hy_recr m))) }"

definition hybrid_seq_pos_max :: "llama_seq_id \<Rightarrow> mem_hybrid \<Rightarrow> llama_pos option" where
  "hybrid_seq_pos_max s m = do {
     a \<leftarrow> kv_seq_pos_max s (hy_attn m);
     Some (min a (recr_seq_pos_max s (hy_recr m))) }"

subsection \<open>Preparing and applying a batch\<close>

record hybrid_context =
  hx_i_next :: nat
  hx_ubatches :: "llama_ubatch list"
  hx_attn :: kv_context
  hx_recr :: recr_context
  hx_status :: memory_status

definition hybrid_context_of :: "llama_ubatch list \<Rightarrow> kv_context \<Rightarrow> recr_context \<Rightarrow> hybrid_context" where
  "hybrid_context_of ubs attn recr = \<lparr>hx_i_next = 0, hx_ubatches = ubs, hx_attn = attn, hx_recr = recr,
     hx_status = memory_status_combine (kx_status attn) (rx_status recr)\<rparr>"

definition hybrid_context_batch :: "slot_info list \<Rightarrow> llama_ubatch list \<Rightarrow> hybrid_context" where
  "hybrid_context_batch sinfos ubs =
     hybrid_context_of ubs ((kx_new Status_success)\<lparr>kx_sinfos := sinfos, kx_ubatches := ubs\<rparr>) (rx_batch ubs)"

text \<open>The splits follow the recurrent memory; the recurrent part is prepared first.\<close>

definition hybrid_init_batch :: "nat \<Rightarrow> bool \<Rightarrow> batch_allocr \<Rightarrow> mem_hybrid \<Rightarrow>
    (hybrid_context option \<times> batch_allocr \<times> mem_hybrid) option" where
  "hybrid_init_batch n_ubatch embd_all al m = do {
     let al = split_reset al;
     let n_rs_seq = mr_n_rs_seq (hy_recr m);
     (ubs, al) \<leftarrow> split_all (\<lambda>al. if embd_all then split_seq n_ubatch al
        else split_equal n_ubatch (kv_n_stream (hy_attn m) \<noteq> 1) (if n_rs_seq > 0 then n_rs_seq + 1 else 0) al) al [];
     if al_n_used al < bt_n_tokens (al_batch al) then Some (None, al, m) else do {
       (ok, recr) \<leftarrow> recr_prepare ubs (hy_recr m);
       let m = m\<lparr>hy_recr := recr\<rparr>;
       if \<not> ok then Some (None, al, m) else do {
         (heads_attn, attn) \<leftarrow> prepare ubs (hy_attn m);
         let m = m\<lparr>hy_attn := attn\<rparr>;
         Some (if heads_attn = [] then None else Some (hybrid_context_batch heads_attn ubs), al, m) } } }"

definition hybrid_init_full :: "mem_hybrid \<Rightarrow> hybrid_context option" where
  "hybrid_init_full m = do {
     attn \<leftarrow> kv_init_full (hy_attn m);
     Some (hybrid_context_of [] attn recr_init_full) }"

definition hybrid_init_update :: "mem_hybrid \<Rightarrow> (hybrid_context \<times> mem_hybrid) option" where
  "hybrid_init_update m = do {
     (attn, kv) \<leftarrow> kv_init_update (hy_attn m);
     Some (hybrid_context_of [] attn recr_init_update, m\<lparr>hy_attn := kv\<rparr>) }"

definition hx_next :: "hybrid_context \<Rightarrow> (bool \<times> hybrid_context) option" where
  "hx_next x = do {
     assrt (hx_status x = Status_success);
     (_, attn) \<leftarrow> kx_next (hx_attn x);
     (_, recr) \<leftarrow> rx_next (hx_recr x);
     let x = x\<lparr>hx_attn := attn, hx_recr := recr, hx_i_next := hx_i_next x + 1\<rparr>;
     Some (hx_i_next x < length (hx_ubatches x), x) }"

definition hx_apply :: "bool \<Rightarrow> bool option \<Rightarrow> hybrid_context \<Rightarrow> mem_hybrid \<Rightarrow> (hybrid_context \<times> mem_hybrid) option" where
  "hx_apply can_shift compute x m = do {
     assrt (\<not> memory_status_is_fail (hx_status x));
     (attn, kv) \<leftarrow> kx_apply can_shift compute (hx_attn x) (hy_attn m);
     recr \<leftarrow> rx_apply (hx_recr x) (hy_recr m);
     Some (x\<lparr>hx_attn := attn\<rparr>, m\<lparr>hy_attn := kv, hy_recr := recr\<rparr>) }"

subsection \<open>The machine\<close>

text \<open>
  The step for a ubatch looks for a slot in the attention cache and applies the ubatch through the
  context of a batch with only this one; the recurrent memory finds its slot by itself.
\<close>

datatype hybrid_op =
    Hyb_clear
  | Hyb_rm llama_seq_id llama_pos llama_pos
  | Hyb_cp llama_seq_id llama_seq_id
  | Hyb_keep llama_seq_id
  | Hyb_update "bool option"
  | Hyb_apply llama_ubatch

fun run_hybrid :: "hybrid_op \<Rightarrow> mem_hybrid \<Rightarrow> (bool \<times> mem_hybrid) option" where
  "run_hybrid Hyb_clear m = Some (True, hybrid_clear m)"
| "run_hybrid (Hyb_rm s p0 p1) m = hybrid_seq_rm s p0 p1 m"
| "run_hybrid (Hyb_cp src dst) m = map_option (Pair True) (hybrid_seq_cp src dst (-1) (-1) m)"
| "run_hybrid (Hyb_keep s) m = map_option (Pair True) (hybrid_seq_keep s m)"
| "run_hybrid (Hyb_update compute) m = do {
     (x, m) \<leftarrow> hybrid_init_update m;
     (_, m) \<leftarrow> hx_apply True compute x m;
     Some (True, m) }"
| "run_hybrid (Hyb_apply ub) m = do {
     si \<leftarrow> find_slot ub False (hy_attn m);
     if si_empty si then Some (False, m) else do {
       (_, m) \<leftarrow> hx_apply True None (hybrid_context_batch [si] [ub]) m;
       Some (True, m) } }"

abbreviation hy_seq :: "mem_hybrid \<Rightarrow> llama_seq_id \<Rightarrow> bool" where
  "hy_seq m s \<equiv> 0 \<le> s \<and> s < int (mr_n_seq_max (hy_recr m))"

abbreviation hy_pos :: "llama_seq_id \<Rightarrow> mem_hybrid \<Rightarrow> llama_pos" where
  "hy_pos s m \<equiv> recr_seq_pos_max s (hy_recr m)"

text \<open>
  What the callers see to. A ubatch continues each of its sequences without gaps. A removal cuts the
  sequence at its end, and when the cut needs a snapshot no other sequence shares the cell. A copy goes to an
  empty sequence in the same stream.
\<close>

fun hybrid_pre :: "hybrid_op \<Rightarrow> mem_hybrid \<Rightarrow> bool" where
  "hybrid_pre (Hyb_rm s p0 p1) m = (hy_seq m s \<and> hy_pos s m < norm_p1 p1 \<and>
     (p0 \<le> 0 \<or> (\<forall>q. hy_seq m q \<and> q \<noteq> s \<longrightarrow> tail_at (mr_cells (hy_recr m)) q \<noteq> tail_at (mr_cells (hy_recr m)) s)))"
| "hybrid_pre (Hyb_cp src dst) m = (hy_seq m src \<and> hy_seq m dst \<and> strm (hy_attn m) src = strm (hy_attn m) dst \<and>
     hy_pos src m < INT32_MAX \<and> src \<noteq> dst \<and> hy_pos dst m = -1)"
| "hybrid_pre (Hyb_keep s) m = (hy_seq m s \<and> (\<forall>q. hy_seq m q \<longrightarrow> strm (hy_attn m) q = strm (hy_attn m) s))"
| "hybrid_pre (Hyb_apply ub) m = (ub_ok (hy_attn m) ub \<and> rub_ok (mr_n_seq_max (hy_recr m)) ub \<and>
     (\<forall>q. ub_positions ub q \<noteq> {} \<longrightarrow> q \<in> batch_seqs ub (ub_n_seqs ub)) \<and>
     (\<forall>s < ub_n_seqs ub. \<forall>q \<in> set (fs_seqs ub s). hy_pos q m < last_pos ub s \<and> ub_positions ub q = {hy_pos q m <.. last_pos ub s}))"
| "hybrid_pre _ m = True"

inductive hybrid_reachable :: "mem_hybrid \<Rightarrow> bool" where
  hybrid_start: "hybrid_new unified n_cells n_pad n_swa Swa_none n_pos rs_size n_seq_max n_rs_seq = Some m \<Longrightarrow>
    0 < n_seq_max \<Longrightarrow> int n_seq_max \<le> LLAMA_MAX_SEQ \<Longrightarrow> 0 < n_cells \<Longrightarrow> n_seq_max \<le> rs_size \<Longrightarrow> rs_size < 2 ^ 31 \<Longrightarrow>
    hybrid_reachable m"
| hybrid_step: "hybrid_reachable m \<Longrightarrow> hybrid_pre op m \<Longrightarrow> run_hybrid op m = Some (r, m') \<Longrightarrow> hybrid_reachable m'"

inductive_cases hybrid_reachableE: "hybrid_reachable m"

text \<open>The attention cache holds of each sequence exactly the positions up to its recurrent state.\<close>

definition hybrid_good :: "mem_hybrid \<Rightarrow> bool" where
  "hybrid_good m \<longleftrightarrow> kv_good (hy_attn m) \<and> kv_swa_type (hy_attn m) = Swa_none \<and> recr_inv (hy_recr m) \<and>
     mr_n_seq_max (hy_recr m) \<le> length (kv_seq_to_stream (hy_attn m)) \<and>
     (\<forall>s. hy_seq m s \<longrightarrow> seq_view (hy_attn m) s = {0..hy_pos s m})"

lemma hybrid_goodD:
  assumes "hybrid_good m"
  shows "kv_good (hy_attn m)" "cache_inv (hy_attn m)" "recr_inv (hy_recr m)" "kv_swa_type (hy_attn m) = Swa_none"
    "hy_seq m s \<Longrightarrow> seq_ok (hy_attn m) s" "hy_seq m s \<Longrightarrow> seq_in (mr_cells (hy_recr m)) s"
    "hy_seq m s \<Longrightarrow> hy_pos s m = lpos (mr_cells (hy_recr m)) s" "hy_seq m s \<Longrightarrow> seq_view (hy_attn m) s = {0..hy_pos s m}"
    "hy_seq m s \<Longrightarrow> seq_int s"
proof -
  show g: "kv_good (hy_attn m)" "recr_inv (hy_recr m)" "kv_swa_type (hy_attn m) = Swa_none"
    using assms by (simp_all add: hybrid_good_def)
  show "cache_inv (hy_attn m)" using g(1) by (simp add: kv_good_def)
  note R = recr_invD [OF g(2)]
  show sin: "hy_seq m s \<Longrightarrow> seq_in (mr_cells (hy_recr m)) s" using R(7) by (simp add: mr_size_def)
  show "hy_seq m s \<Longrightarrow> hy_pos s m = lpos (mr_cells (hy_recr m)) s" using recr_pos(1) [OF R(1)] sin by simp
  show "hy_seq m s \<Longrightarrow> seq_ok (hy_attn m) s" "hy_seq m s \<Longrightarrow> seq_view (hy_attn m) s = {0..hy_pos s m}"
    using assms by (simp_all add: hybrid_good_def seq_ok_def)
  show "hy_seq m s \<Longrightarrow> seq_int s" using R(7,8) by simp
qed

lemma hybrid_goodI:
  assumes g: "hybrid_good m" and a: "kv_good a" "same_config (hy_attn m) a"
    and r: "recr_inv r" "mr_n_seq_max r = mr_n_seq_max (hy_recr m)" "mr_size r = mr_size (hy_recr m)"
    and v: "\<And>s. hy_seq m s \<Longrightarrow> seq_view a s = {0..lpos (mr_cells r) s}"
  shows "hybrid_good (m\<lparr>hy_attn := a, hy_recr := r\<rparr>)" "hy_seq m s \<Longrightarrow> recr_seq_pos_max s r = lpos (mr_cells r) s"
proof -
  note D = hybrid_goodD [OF g]
  show pos: "recr_seq_pos_max s r = lpos (mr_cells r) s" if "hy_seq m s" for s
    using recr_pos(1) [OF recr_invD(1) [OF r(1)], of s] D(6) [OF that] r(3) by (simp add: mr_size_def)
  show "hybrid_good (m\<lparr>hy_attn := a, hy_recr := r\<rparr>)"
    using g a r(1,2) v pos same_configD(2,6) [OF a(2)] by (simp add: hybrid_good_def)
qed

text \<open>The step of the attention cache.\<close>

lemma attn_step:
  assumes g: "hybrid_good m" and pre: "kv_op_pre op (hy_attn m)" "view_pre op (hy_attn m)" and nap: "\<forall>ub. op \<noteq> Kv_apply ub"
  shows "\<exists>a. run_kv_op op (hy_attn m) = Some a \<and> kv_good a \<and> same_config (hy_attn m) a \<and>
    (\<forall>q. seq_ok (hy_attn m) q \<longrightarrow> seq_view a q = view_op op (near_op op (hy_attn m)) (seq_view (hy_attn m)) q)"
proof -
  note D = hybrid_goodD [OF g]
  obtain a where a: "run_kv_op op (hy_attn m) = Some a" "kv_good a" using kv_op_step [OF D(1) pre(1)] by blast
  have "seq_ok (hy_attn m) 0"
    using D(2) by (cases "kv_seq_to_stream (hy_attn m)") (simp_all add: cache_inv_def seq_ok_def)
  then show ?thesis using a view_run [OF D(1) pre a(1) _ nap] by blast
qed

lemma hybrid_rm_step:
  assumes g: "hybrid_good m" and pre: "hybrid_pre (Hyb_rm s p0 p1) m"
  shows "\<exists>b m'. hybrid_seq_rm s p0 p1 m = Some (b, m') \<and> hybrid_good m' \<and> (\<not> b \<longrightarrow> m' = m) \<and>
    mr_n_seq_max (hy_recr m') = mr_n_seq_max (hy_recr m) \<and>
    (b \<longleftrightarrow> (0 < p0 \<and> p0 \<le> hy_pos s m \<longrightarrow> mr_rs_idx (hy_recr m) ! nat s = 0 \<and> hy_pos s m - p0 + 1 \<le> int (mr_n_rs_seq (hy_recr m)))) \<and>
    (b \<longrightarrow> (\<forall>q. hy_seq m q \<longrightarrow> hy_pos q m' = (if q = s then min (hy_pos s m) (norm_p0 p0 - 1) else hy_pos q m)))"
proof -
  note D = hybrid_goodD [OF g]
  let ?r = "hy_recr m" and ?a = "hy_attn m"
  have s: "hy_seq m s" and p1: "hy_pos s m < norm_p1 p1" using pre by simp_all
  note pos = D(7) [OF s]
  have ge: "-1 \<le> hy_pos q m" if "hy_seq m q" for q
    using D(7) [OF that] cells_ok_views(2) [OF recr_invD(1) [OF D(3)] D(6) [OF that]] by (auto simp: lpos_def)
  obtain b r where R: "recr_seq_rm s p0 p1 ?r = Some (b, r)" "recr_inv r" "frees_only ?r r" "mr_n_seq_max r = mr_n_seq_max ?r"
    "b \<longleftrightarrow> (0 < p0 \<and> rm_hit s p0 p1 ?r \<longrightarrow> mr_rs_idx ?r ! nat s = 0 \<and> rollback s p0 ?r \<le> int (mr_n_rs_seq ?r))" "\<not> b \<longrightarrow> r = ?r"
    "b \<longrightarrow> (\<forall>q. seq_in (mr_cells ?r) q \<longrightarrow>
       lpos (mr_cells r) q = (if rm_hit s p0 p1 ?r then if p0 \<le> 0 then if q = s then -1 else lpos (mr_cells ?r) q
         else if tail_at (mr_cells ?r) q = tail_at (mr_cells ?r) s then p0 - 1 else lpos (mr_cells ?r) q else lpos (mr_cells ?r) q))"
    using recr_seq_rm_spec [OF D(3) D(9) [OF s], of p0 p1] s by auto
  have hit: "rm_hit s p0 p1 ?r \<longleftrightarrow> norm_p0 p0 \<le> hy_pos s m" "rollback s p0 ?r = hy_pos s m - p0 + 1"
    using pos p1 by (simp_all add: rm_hit_def rollback_def)
  have b: "b \<longleftrightarrow> (0 < p0 \<and> p0 \<le> hy_pos s m \<longrightarrow> mr_rs_idx ?r ! nat s = 0 \<and> hy_pos s m - p0 + 1 \<le> int (mr_n_rs_seq ?r))"
    unfolding R(5) hit by (auto simp: norm_p0_def)
  show ?thesis
  proof (cases b)
    case False
    then have "hybrid_seq_rm s p0 p1 m = Some (False, m)" using R(1,6) by (cases m) (simp add: hybrid_seq_rm_def)
    then show ?thesis using g b False by blast
  next
    case True
    obtain a where a: "run_kv_op (Kv_rm s p0 p1) ?a = Some a" "kv_good a" "same_config ?a a"
      "\<forall>q. seq_ok ?a q \<longrightarrow> seq_view a q = view_op (Kv_rm s p0 p1) (near_op (Kv_rm s p0 p1) ?a) (seq_view ?a) q"
      using attn_step [OF g, of "Kv_rm s p0 p1"] D(5) [OF s] by auto
    obtain res where res: "kv_seq_rm s p0 p1 ?a = Some (True, a)"
      using kv_seq_rm_spec [OF D(2) D(5) [OF s], of p0 p1] a(1) by auto
    let ?m = "m\<lparr>hy_attn := a, hy_recr := r\<rparr>"
    have run: "hybrid_seq_rm s p0 p1 m = Some (True, ?m)"
      using R(1) True res by (cases m) (simp add: hybrid_seq_rm_def)
    have lp: "lpos (mr_cells r) q = (if q = s then min (hy_pos s m) (norm_p0 p0 - 1) else hy_pos q m)" if q: "hy_seq m q" for q
    proof -
      have "lpos (mr_cells r) q = (if norm_p0 p0 \<le> hy_pos s m then if p0 \<le> 0 then if q = s then -1 else hy_pos q m
         else if tail_at (mr_cells ?r) q = tail_at (mr_cells ?r) s then p0 - 1 else hy_pos q m else hy_pos q m)"
        using R(7) True D(6) [OF q] D(7) [OF q] hit(1) by simp
      then show ?thesis using pre q by (auto simp: norm_p0_def)
    qed
    have v: "seq_view a q = {0..lpos (mr_cells r) q}" if q: "hy_seq m q" for q
    proof -
      have n0: "0 \<le> norm_p0 p0" by (rule norm_p0_nonneg)
      have "seq_view a q = (if q = s then {p \<in> {0..hy_pos s m}. \<not> (norm_p0 p0 \<le> p \<and> p < norm_p1 p1)} else {0..hy_pos q m})"
        using a(4) D(5) [OF q] D(8) [OF q] D(8) [OF s] by simp
      also have "\<dots> = {0..lpos (mr_cells r) q}" unfolding lp [OF q] using p1 n0 by auto
      finally show ?thesis .
    qed
    have sz: "mr_size r = mr_size ?r" using R(3) by (simp add: frees_only_def)
    note G = hybrid_goodI [OF g a(2,3) R(2,4) sz v]
    show ?thesis
      using run G lp R(4) True b by (intro exI [of _ True] exI [of _ ?m]) simp
  qed
qed

lemma slot_found_pos:
  assumes inv: "recr_inv m'" and f: "slot_found ub m m'" and s: "s < ub_n_seqs ub" and q: "q \<in> set (fs_seqs ub s)"
    and i: "seq_in (mr_cells m') q"
  shows "lpos (mr_cells m') q = last_pos ub s"
proof -
  note F = slot_foundD [OF f]
  have h: "mr_head m' + s < length (mr_cells m')" using F(1,5,6) s by linarith
  have "tail_at (mr_cells m') q = int (mr_head m' + s)"
    using tails_ok_iff [OF recr_invD(2) [OF inv] i h] F(9) [OF s] q by simp
  then show ?thesis using F(8) [OF s] by (simp add: lpos_def nat_add_distrib)
qed

lemma hybrid_apply_step:
  assumes g: "hybrid_good m" and pre: "hybrid_pre (Hyb_apply ub) m"
  shows "\<exists>r m'. run_hybrid (Hyb_apply ub) m = Some (r, m') \<and> hybrid_good m' \<and> (\<not> r \<longrightarrow> m' = m) \<and>
    mr_n_seq_max (hy_recr m') = mr_n_seq_max (hy_recr m) \<and>
    (r \<longrightarrow> (\<forall>s < ub_n_seqs ub. \<forall>q \<in> set (fs_seqs ub s). hy_pos q m' = last_pos ub s))"
proof -
  note D = hybrid_goodD [OF g]
  let ?a = "hy_attn m" and ?r = "hy_recr m" and ?n = "ub_n_seqs ub"
  have ub: "ub_ok ?a ub" and rub: "rub_ok (mr_n_seq_max ?r) ub"
    and cont: "\<And>s q. s < ?n \<Longrightarrow> q \<in> set (fs_seqs ub s) \<Longrightarrow> hy_pos q m < last_pos ub s \<and> ub_positions ub q = {hy_pos q m <.. last_pos ub s}"
    and only: "\<And>q. ub_positions ub q \<noteq> {} \<Longrightarrow> q \<in> batch_seqs ub ?n" using pre by simp_all
  have rub': "rub_ok (mr_size ?r) ub" using rub recr_invD(7) [OF D(3)] by (force simp: rub_ok_def)
  have inb: "hy_seq m q" if "s < ?n" "q \<in> set (fs_seqs ub s)" for s q using rub_okD(6) [OF rub that] by simp
  have I: "swa_ok ?a" "0 < kv_size ?a" using D(1) by (simp_all add: kv_good_def)
  obtain si where si: "find_slot ub False ?a = Some si" "si = si_none \<or> slot_ok ?a ub si"
    using find_slot_spec [OF D(2) I ub] by (auto split: if_splits)
  show ?thesis
  proof (cases "si_empty si")
    case True
    then show ?thesis using si g by auto
  next
    case False
    then have S: "slot_ok ?a ub si" using si(2) by (auto simp: si_empty_def si_none_def)
    have later: "p < x" if h: "seq_ok ?a q" "p \<in> seq_view ?a q" "x \<in> ub_positions ub q" for q p x
    proof -
      obtain s where s: "s < ?n" "q \<in> set (fs_seqs ub s)" using only [of q] h(3) by (auto simp: batch_seqs_def)
      then show ?thesis using cont [OF s] D(8) [OF inb [OF s]] h by auto
    qed
    obtain a where a: "apply_ubatch si ub ?a = Some a" "cache_inv a" "same_config ?a a"
      "\<And>q. seq_ok ?a q \<Longrightarrow> seq_view a q = {p \<in> seq_view ?a q. -1 < p} \<union> ub_positions ub q"
      using apply_ubatch_view_spec [OF D(2) I(1) ub S] later none_overwritten [OF D(2,4) S ub] by auto
    obtain n where n: "kv_get_n_kv si a = Some n" using get_n_kv_total [OF D(2) a(2,3) S ub] by blast
    obtain r where r: "recr_find_slot ub ?r = Some (True, r)" "recr_inv r" "slot_found ub ?r r"
      using find_slot_found [OF D(3) rub'] by blast
    note C = slot_found_config [OF r(3)]
    let ?m = "m\<lparr>hy_attn := a, hy_recr := r\<rparr>"
    have run: "run_hybrid (Hyb_apply ub) m = Some (True, ?m)"
      using si(1) False a(1) n r(1) by (cases m) (simp add: hx_apply_def hybrid_context_batch_def hybrid_context_of_def
        rx_batch_def rx_new_def rx_apply_def kx_apply_def kx_new_def memory_status_combine_def memory_status_is_fail_def assrt_def)
    have good: "kv_good a" using kv_op_step [OF D(1), of "Kv_apply ub"] ub si(1) False a(1) by auto
    have len: "seq_in (mr_cells r) q" if "hy_seq m q" for q using D(6) [OF that] slot_foundD(1) [OF r(3)] by simp
    have batch: "lpos (mr_cells r) q = last_pos ub s" if "s < ?n" "q \<in> set (fs_seqs ub s)" for s q
      using slot_found_pos [OF r(2,3) that len [OF inb [OF that]]] .
    have v: "seq_view a q = {0..lpos (mr_cells r) q}" if q: "hy_seq m q" for q
    proof -
      have old: "seq_view a q = {0..hy_pos q m} \<union> ub_positions ub q"
        unfolding a(4) [OF D(5) [OF q]] D(8) [OF q] by auto
      show ?thesis
      proof (cases "q \<in> batch_seqs ub ?n")
        case True
        then obtain s where s: "s < ?n" "q \<in> set (fs_seqs ub s)" by (auto simp: batch_seqs_def)
        have "-1 \<le> hy_pos q m"
          using D(7) [OF q] cells_ok_views(2) [OF recr_invD(1) [OF D(3)] D(6) [OF q]] by (auto simp: lpos_def)
        then show ?thesis unfolding old batch [OF s] using cont [OF s] by auto
      next
        case False
        then have "lpos (mr_cells r) q = hy_pos q m" using slot_foundD(13) [OF r(3) D(6) [OF q]] D(7) [OF q] by simp
        then show ?thesis unfolding old using only [of q] False by auto
      qed
    qed
    note G = hybrid_goodI [OF g good a(3) r(2) C(4) C(1) v]
    show ?thesis using run G batch inb C(4) by (intro exI [of _ True] exI [of _ ?m]) simp
  qed
qed

lemma hybrid_stepI:
  assumes "run_hybrid op m = Some (True, m')" "hybrid_good m'" "mr_n_seq_max (hy_recr m') = mr_n_seq_max (hy_recr m)"
  shows "\<exists>r m'. run_hybrid op m = Some (r, m') \<and> hybrid_good m' \<and> (\<not> r \<longrightarrow> m' = m) \<and>
    mr_n_seq_max (hy_recr m') = mr_n_seq_max (hy_recr m)"
  using assms by blast

lemma hybrid_op_step:
  assumes g: "hybrid_good m" and pre: "hybrid_pre op m"
  shows "\<exists>r m'. run_hybrid op m = Some (r, m') \<and> hybrid_good m' \<and> (\<not> r \<longrightarrow> m' = m) \<and>
    mr_n_seq_max (hy_recr m') = mr_n_seq_max (hy_recr m)"
proof -
  note D = hybrid_goodD [OF g]
  let ?a = "hy_attn m" and ?r = "hy_recr m"
  show ?thesis
  proof (cases op)
    case Hyb_clear
    obtain a where a: "run_kv_op Kv_clear ?a = Some a" "kv_good a" "same_config ?a a"
      "\<forall>q. seq_ok ?a q \<longrightarrow> seq_view a q = view_op Kv_clear (near_op Kv_clear ?a) (seq_view ?a) q"
      using attn_step [OF g, of Kv_clear] by auto
    note R = recr_clear_spec [OF D(3)]
    have "mr_size (recr_clear ?r) = mr_size ?r" "mr_n_seq_max (recr_clear ?r) = mr_n_seq_max ?r" by (simp_all add: recr_clear_def mr_size_def)
    moreover have "seq_view a q = {0..lpos (mr_cells (recr_clear ?r)) q}" if "hy_seq m q" for q
      using a(4) D(5) [OF that] R(2) [OF D(6) [OF that]] by (simp add: lpos_def)
    ultimately have "hybrid_good (m\<lparr>hy_attn := a, hy_recr := recr_clear ?r\<rparr>)" by (intro hybrid_goodI(1) [OF g a(2,3) R(1)])
    moreover have "run_hybrid op m = Some (True, m\<lparr>hy_attn := a, hy_recr := recr_clear ?r\<rparr>)"
      using a(1) unfolding Hyb_clear by (simp add: hybrid_clear_def)
    ultimately show ?thesis by - (rule hybrid_stepI, assumption, assumption, simp add: recr_clear_def)
  next
    case (Hyb_rm s p0 p1)
    then show ?thesis using hybrid_rm_step [OF g, of s p0 p1] pre by auto
  next
    case (Hyb_cp src dst)
    let ?op = "Kv_cp src dst (-1) (-1)"
    have q: "hy_seq m src" "hy_seq m dst" "strm ?a src = strm ?a dst" "src \<noteq> dst" "hy_pos dst m = -1" "hy_pos src m < INT32_MAX"
      using pre Hyb_cp by simp_all
    have empty: "seq_view ?a dst = {}" using D(8) [OF q(2)] q(5) by simp
    have "kv_op_pre ?op ?a" "view_pre ?op ?a"
      using D(5) [OF q(1)] D(5) [OF q(2)] q(3) empty by (auto simp: cp_ok_def seq_view_def)
    from attn_step [OF g this] obtain a where a: "run_kv_op ?op ?a = Some a" "kv_good a" "same_config ?a a"
      "\<forall>q. seq_ok ?a q \<longrightarrow> seq_view a q = view_op ?op (near_op ?op ?a) (seq_view ?a) q" by auto
    obtain r where r: "recr_seq_cp src dst (-1) (-1) ?r = Some r" "recr_inv r" "mr_size r = mr_size ?r" "mr_n_seq_max r = mr_n_seq_max ?r"
      "\<forall>q. seq_in (mr_cells ?r) q \<longrightarrow> lpos (mr_cells r) q = lpos (mr_cells ?r) (if q = dst then src else q)"
      using recr_seq_cp_spec [OF D(3) D(9) [OF q(1)] D(9) [OF q(2)], of "-1" "-1"] D(6) [OF q(1)] D(6) [OF q(2)] q(4) by auto
    have lp: "lpos (mr_cells r) x = hy_pos (if x = dst then src else x) m" if "hy_seq m x" for x
      using r(5) D(6) [OF that] D(7) [OF that] D(7) [OF q(1)] by simp
    have "seq_view a x = {0..lpos (mr_cells r) x}" if x: "hy_seq m x" for x
    proof -
      have "{p \<in> {0..hy_pos src m}. norm_p0 (-1) \<le> p \<and> p < norm_p1 (-1)} = {0..hy_pos src m}"
        using q(6) by (auto simp: norm_p0_def norm_p1_def)
      then show ?thesis
        unfolding lp [OF x] a(4) [rule_format, OF D(5) [OF x]] using empty D(8) [OF q(1)] D(8) [OF x] by simp
    qed
    from hybrid_goodI(1) [OF g a(2,3) r(2,4,3) this] have "hybrid_good (m\<lparr>hy_attn := a, hy_recr := r\<rparr>)" .
    moreover have "run_hybrid op m = Some (True, m\<lparr>hy_attn := a, hy_recr := r\<rparr>)"
      using a(1) r(1) unfolding Hyb_cp by (simp add: hybrid_seq_cp_def)
    ultimately show ?thesis by - (rule hybrid_stepI, assumption, assumption, simp add: r(4))
  next
    case (Hyb_keep s)
    have s: "hy_seq m s" "\<And>q. hy_seq m q \<Longrightarrow> strm ?a q = strm ?a s"
      using pre unfolding Hyb_keep hybrid_pre.simps by blast+
    obtain a where a: "run_kv_op (Kv_keep s) ?a = Some a" "kv_good a" "same_config ?a a"
      "\<forall>q. seq_ok ?a q \<longrightarrow> seq_view a q = view_op (Kv_keep s) (near_op (Kv_keep s) ?a) (seq_view ?a) q"
      using attn_step [OF g, of "Kv_keep s"] D(5) [OF s(1)] by auto
    note R = recr_seq_keep_spec [OF D(3), where s = s]
    have n: "mr_n_seq_max (recr_seq_keep s ?r) = mr_n_seq_max ?r"
      using recr_invD(6) [OF R(1)] recr_invD(6) [OF D(3)] R(3) by simp
    have "mr_size (recr_seq_keep s ?r) = mr_size ?r" using R(2) by (simp add: frees_only_def)
    moreover have "seq_view a q = {0..lpos (mr_cells (recr_seq_keep s ?r)) q}" if "hy_seq m q" for q
      using a(4) D(5) [OF that] R(6) [OF D(6) [OF that]] D(7,8) [OF that] s(2) [OF that]
      by (cases "q = s") (simp_all add: near_op_def)
    ultimately have "hybrid_good (m\<lparr>hy_attn := a, hy_recr := recr_seq_keep s ?r\<rparr>)" using n by (intro hybrid_goodI(1) [OF g a(2,3) R(1)])
    moreover have "run_hybrid op m = Some (True, m\<lparr>hy_attn := a, hy_recr := recr_seq_keep s ?r\<rparr>)"
      using a(1) unfolding Hyb_keep by (simp add: hybrid_seq_keep_def)
    ultimately show ?thesis by - (rule hybrid_stepI, assumption, assumption, simp add: n)
  next
    case (Hyb_update compute)
    obtain a where a: "run_kv_op (Kv_update compute) ?a = Some a" "kv_good a" "same_config ?a a"
      "\<forall>q. seq_ok ?a q \<longrightarrow> seq_view a q = view_op (Kv_update compute) (near_op (Kv_update compute) ?a) (seq_view ?a) q"
      using attn_step [OF g, of "Kv_update compute"] by auto
    obtain x kv where x: "kv_init_update ?a = Some (x, kv)" using a(1) by (auto split: bind_splits)
    then obtain x' where x': "kx_apply True compute x kv = Some (x', a)" using a(1) by (auto simp: map_option_case split: option.splits)
    have "run_hybrid (Hyb_update compute) m = Some (True, m\<lparr>hy_attn := a, hy_recr := ?r\<rparr>)"
      using x x' init_update_status [OF x] by (cases m) (simp add: hybrid_init_update_def hybrid_context_of_def hx_apply_def recr_init_update_def rx_new_def
        rx_apply_def memory_status_combine_def memory_status_is_fail_def assrt_def split: memory_status.splits)
    moreover have "hybrid_good (m\<lparr>hy_attn := a, hy_recr := ?r\<rparr>)"
      by (rule hybrid_goodI(1) [OF g a(2,3) D(3)]) (use a(4) D(5,7,8) in simp_all)
    ultimately show ?thesis unfolding Hyb_update by - (rule hybrid_stepI, assumption, assumption, simp)
  next
    case (Hyb_apply ub)
    then show ?thesis using hybrid_apply_step [OF g, of ub] pre by auto
  qed
qed

lemma recr_new_pos: "recr_seq_pos_max s (recr_new n n_seq_max n_rs_seq) = -1"
proof -
  have "((\<lambda>result. result) ^^ n) (-1 :: llama_pos) = -1" by (induction n) simp_all
  moreover have "\<not> has_seq_id s mc_default" by (simp add: has_seq_id_def mc_default_def)
  ultimately show ?thesis by (simp add: recr_new_def recr_seq_pos_max_def)
qed

lemma hybrid_new_good:
  assumes "hybrid_new unified n_cells n_pad n_swa Swa_none n_pos rs_size n_seq_max n_rs_seq = Some m"
    "0 < n_seq_max" "int n_seq_max \<le> LLAMA_MAX_SEQ" "0 < n_cells" "n_seq_max \<le> rs_size" "rs_size < 2 ^ 31"
  shows "hybrid_good m"
proof -
  have attn: "kv_new unified n_cells n_seq_max n_pad n_swa Swa_none n_pos None = Some (hy_attn m)"
    and recr: "hy_recr m = recr_new rs_size n_seq_max n_rs_seq"
    using assms(1) by (auto simp: hybrid_new_def split: bind_splits)
  note A = kv_new_inv [OF attn assms(2,3)]
  have inv: "recr_inv (hy_recr m)" unfolding recr using assms(2,5,6) by (intro recr_new_inv) simp_all
  have n: "mr_n_seq_max (hy_recr m) = n_seq_max" by (simp add: recr recr_new_def)
  have len: "n_seq_max \<le> length (kv_seq_to_stream (hy_attn m))" using A(4) assms(3) by auto
  have "hy_pos s m = -1" if "hy_seq m s" for s
    by (simp add: recr recr_new_pos)
  then show ?thesis
    unfolding hybrid_good_def n using kv_new_good [OF attn assms(2-4)] A(5) inv len A(8) n by (simp add: seq_ok_def)
qed

lemma hybrid_reachable_good: "hybrid_reachable m \<Longrightarrow> hybrid_good m"
proof (induction rule: hybrid_reachable.induct)
  case (hybrid_step m op r m')
  with hybrid_op_step [of m op] show ?case by auto
qed (rule hybrid_new_good)

lemma hybrid_queries:
  assumes g: "hybrid_good m" and s: "hy_seq m s"
  shows "seq_view (hy_attn m) s = {0..hy_pos s m}" "kv_seq_pos_max s (hy_attn m) = Some (hy_pos s m)"
    "hybrid_seq_pos_max s m = Some (hy_pos s m)"
    "hy_pos s m < INT32_MAX \<Longrightarrow> hybrid_seq_pos_min s m = Some (hy_pos s m)"
proof -
  note D = hybrid_goodD [OF g]
  show v: "seq_view (hy_attn m) s = {0..hy_pos s m}" using D(8) [OF s] .
  have ge: "-1 \<le> hy_pos s m"
    using D(7) [OF s] cells_ok_views(2) [OF recr_invD(1) [OF D(3)] D(6) [OF s]] by (auto simp: lpos_def)
  then have mm: "(if {0..hy_pos s m} = {} then -1 else Max {0..hy_pos s m}) = hy_pos s m"
    by (auto intro!: Max_eqI)
  note Q = seq_view_queries [OF D(2) D(5) [OF s]]
  show "kv_seq_pos_max s (hy_attn m) = Some (hy_pos s m)" using Q(2) unfolding v mm .
  then show "hybrid_seq_pos_max s m = Some (hy_pos s m)" by (simp add: hybrid_seq_pos_max_def)
  have "(if {0..hy_pos s m} = {} then -1 else Min {0..hy_pos s m}) \<le> hy_pos s m"
    using ge by (auto intro!: Min_le)
  moreover have "kv_seq_pos_min s (hy_attn m) = Some (if {0..hy_pos s m} = {} then -1 else Min {0..hy_pos s m})"
    using Q(1) unfolding v .
  ultimately show "hybrid_seq_pos_min s m = Some (hy_pos s m)" if "hy_pos s m < INT32_MAX"
    using recr_pos(2) [OF recr_invD(1) [OF D(3)] D(6) [OF s]] D(7) [OF s] that by (simp add: hybrid_seq_pos_min_def max_def)
qed

subsection \<open>The property\<close>

text \<open>
  C39: The calls \<open>clear\<close>, \<open>seq_rm\<close> of the end of a sequence (with a positive \<open>p0\<close>: of one that
  shares its recurrent cell with no other), \<open>seq_cp\<close> of a whole sequence to an empty one of the same
  stream, \<open>seq_keep\<close> within one stream, \<open>update\<close>, and the placing of a ubatch that continues its
  sequences without gaps, in any order from a fresh hybrid memory without a window: no call fails an
  assertion, and the attention cache always holds of each sequence exactly the positions up to the
  position of its recurrent state. A call that reports a failure (a cut that no snapshot can undo, a
  ubatch for which the cache has no slot) leaves both halves as they were, and a successful cut
  shortens both to the same end. (Removing from the middle, shifting positions and copying a part of
  a sequence are not calls of this machine.)
\<close>

theorem hybrid_reachable_ops:
  assumes "hybrid_reachable m" "hybrid_pre op m"
  shows "\<exists>r m'. run_hybrid op m = Some (r, m') \<and> hybrid_reachable m' \<and> (\<not> r \<longrightarrow> m' = m) \<and>
    (\<forall>s. 0 \<le> s \<and> s < int (mr_n_seq_max (hy_recr m')) \<longrightarrow>
       seq_view (hy_attn m') s = {0..recr_seq_pos_max s (hy_recr m')} \<and>
       hybrid_seq_pos_max s m' = Some (recr_seq_pos_max s (hy_recr m'))) \<and>
    (\<forall>s p0 p1. op = Hyb_rm s p0 p1 \<and> r \<longrightarrow>
       recr_seq_pos_max s (hy_recr m') = min (recr_seq_pos_max s (hy_recr m)) (norm_p0 p0 - 1)) \<and>
    (\<forall>ub. op = Hyb_apply ub \<and> r \<longrightarrow>
       (\<forall>s < ub_n_seqs ub. \<forall>q \<in> set (fs_seqs ub s). recr_seq_pos_max q (hy_recr m') = last_pos ub s))"
proof -
  note g = hybrid_reachable_good [OF assms(1)]
  obtain r m' where m': "run_hybrid op m = Some (r, m')" "hybrid_good m'" "\<not> r \<longrightarrow> m' = m"
    using hybrid_op_step [OF g assms(2)] by blast
  have "hy_pos s m' = min (hy_pos s m) (norm_p0 p0 - 1)" if h: "op = Hyb_rm s p0 p1" "r" for s p0 p1
    using hybrid_rm_step [OF g assms(2) [unfolded h(1)]] m'(1) h assms(2) by auto
  moreover have "\<forall>s < ub_n_seqs ub. \<forall>q \<in> set (fs_seqs ub s). hy_pos q m' = last_pos ub s" if h: "op = Hyb_apply ub" "r" for ub
    using hybrid_apply_step [OF g assms(2) [unfolded h(1)]] m'(1) h by auto
  ultimately show ?thesis
    by (intro exI [of _ r] exI [of _ m'] conjI)
      (use m' hybrid_step [OF assms m'(1)] hybrid_queries(1,3) [OF m'(2)] in blast)+
qed

text \<open>A prompt of three tokens, then a cut back to the first of them with the second of two snapshots.\<close>

definition small_hybrid :: mem_hybrid where
  "small_hybrid = \<lparr>hy_attn = small_kv, hy_recr = two_recr 2\<rparr>"

definition prompt_equal :: llama_ubatch where
  "prompt_equal = prompt\<lparr>ub_b_equal_seqs := True\<rparr>"

lemma small_hybrid_reachable: "hybrid_reachable small_hybrid"
proof (rule hybrid_start)
  show "hybrid_new True 4 1 0 Swa_none 1 2 2 2 = Some small_hybrid"
    using small_kv_new by (simp add: hybrid_new_def small_hybrid_def two_recr_def)
qed (simp_all add: LLAMA_MAX_SEQ_def)

lemma prompt_equal_ok: "hybrid_pre (Hyb_apply prompt_equal) small_hybrid"
  "fs_seqs prompt_equal 0 = [0]" "last_pos prompt_equal 0 = 2" "ub_n_seqs prompt_equal = 1"
proof -
  show f: "fs_seqs prompt_equal 0 = [0]" "last_pos prompt_equal 0 = 2" "ub_n_seqs prompt_equal = 1"
    by (simp_all add: prompt_equal_def prompt_def ubatch_none_def fs_seqs_def fs_first_def last_pos_def)
  have fields: "ub_n_tokens prompt_equal = ub_n_tokens prompt" "ub_n_seqs_unq prompt_equal = ub_n_seqs_unq prompt"
    "ub_seq_id_unq prompt_equal = ub_seq_id_unq prompt" "ub_n_seq_id prompt_equal = ub_n_seq_id prompt"
    "ub_seq_id prompt_equal = ub_seq_id prompt" "ub_pos prompt_equal = ub_pos prompt"
    by (simp_all add: prompt_equal_def)
  have ok: "ub_ok small_kv prompt_equal"
    using prompt_ok unfolding ub_ok_def ub_n_seqs_for_def ub_seqs_def fields .
  have pos: "ub_positions prompt_equal q = ub_positions prompt q" for q
    by (simp add: ub_positions_def prompt_equal_def ub_seqs_def)
  have "hy_pos 0 small_hybrid = -1"
    by (simp add: small_hybrid_def two_recr_def recr_new_pos)
  moreover have "equal_seqs prompt_equal" by (simp add: prompt_equal_def equal_seqs_def)
  then have "rub_ok 2 prompt_equal" unfolding rub_ok_def f(3) by (simp add: f(1,2))
  moreover have "{0..<3 :: int} = {-1 <.. 2}" by auto
  ultimately show "hybrid_pre (Hyb_apply prompt_equal) small_hybrid"
    using ok f by (simp add: pos prompt_positions small_hybrid_def two_recr_ok batch_seqs_def lessThan_Suc)
qed

lemma hybrid_reachable_ops_witness:
  "\<exists>r m1 r' m2. run_hybrid (Hyb_apply prompt_equal) small_hybrid = Some (r, m1) \<and>
    run_hybrid (Hyb_rm 0 0 (-1)) m1 = Some (r', m2) \<and> hybrid_reachable m2 \<and> (r' \<longrightarrow> recr_seq_pos_max 0 (hy_recr m2) = -1)"
proof -
  obtain r m1 where m1: "run_hybrid (Hyb_apply prompt_equal) small_hybrid = Some (r, m1)" "hybrid_reachable m1"
    "\<not> r \<longrightarrow> m1 = small_hybrid" "r \<longrightarrow> recr_seq_pos_max 0 (hy_recr m1) = 2"
    using hybrid_reachable_ops [OF small_hybrid_reachable prompt_equal_ok(1)] prompt_equal_ok(2-4) by force
  have n: "mr_n_seq_max (hy_recr m1) = 2"
    using hybrid_op_step [OF hybrid_reachable_good [OF small_hybrid_reachable] prompt_equal_ok(1)] m1(1)
    by (auto simp: small_hybrid_def two_recr_ok)
  have "recr_seq_pos_max 0 (hy_recr small_hybrid) = -1"
    by (simp add: small_hybrid_def two_recr_def recr_new_pos)
  then have p: "-1 \<le> recr_seq_pos_max 0 (hy_recr m1)" "recr_seq_pos_max 0 (hy_recr m1) < INT32_MAX"
    using m1(3,4) by (cases r; simp add: INT32_MAX_def)+
  then have "hybrid_pre (Hyb_rm 0 0 (-1)) m1" using n by (simp add: norm_p1_def)
  from hybrid_reachable_ops [OF m1(2) this] obtain r' m2 where
    "run_hybrid (Hyb_rm 0 0 (-1)) m1 = Some (r', m2)" "hybrid_reachable m2"
    "r' \<longrightarrow> recr_seq_pos_max 0 (hy_recr m2) = min (recr_seq_pos_max 0 (hy_recr m1)) (norm_p0 0 - 1)" by blast
  then show ?thesis using m1(1) p(1) by (auto simp: norm_p0_def)
qed

end
