(* ===== verification/Grammar.thy ===== *)
theory Grammar
  imports Prelude
begin

unbundle bit_operations_syntax

section \<open>Grammar constrained sampling: the pushdown machine\<close>

text \<open>
  Model of the run-time half of \<open>src/llama-grammar.cpp\<close>. A grammar is a vector of rules, a rule
  a vector of elements, and a stack a vector of pointers to elements, here pairs of a rule index
  and an offset in that rule. Reading outside a rule is undefined behaviour and gives \<open>None\<close>, as
  does a failed \<open>GGML_ASSERT\<close> or \<open>GGML_ABORT\<close>; loops and recursions of which nothing in the code
  bounds the number of rounds are \<open>partial_function\<close>s, so that \<open>None\<close> also stands for not
  returning. The back of a stack is the last element of its list.
\<close>

subsection \<open>Elements, rules, stacks, candidates\<close>

type_synonym u32 = "32 word"
type_synonym gr_string = "8 word list"

datatype gretype =
    Gre_END
  | Gre_ALT
  | Gre_RULE_REF
  | Gre_CHAR
  | Gre_CHAR_NOT
  | Gre_CHAR_RNG_UPPER
  | Gre_CHAR_ALT
  | Gre_CHAR_ANY
  | Gre_TOKEN
  | Gre_TOKEN_NOT

record gr_element =
  ge_type :: gretype
  ge_value :: u32

record gr_partial_utf8 =
  pu_value :: u32
  pu_n_remain :: int

text \<open>\<open>code_points\<close> points into a zero-terminated buffer: the buffer and an offset.\<close>

record gr_candidate =
  gc_index :: nat
  gc_buffer :: "u32 list"
  gc_offset :: nat
  gc_partial :: gr_partial_utf8
  gc_id :: llama_token

type_synonym gr_rule = "gr_element list"
type_synonym gr_rules = "gr_rule list"
type_synonym gr_ptr = "nat \<times> nat"
type_synonym gr_stack = "gr_ptr list"

text \<open>Dereferencing a pointer to an element, and \<open>pos + 1\<close>.\<close>

definition elem_at :: "gr_rules \<Rightarrow> gr_ptr \<Rightarrow> gr_element option" where
  "elem_at rules p = do { rule \<leftarrow> at_idx rules (fst p); at_idx rule (snd p) }"

abbreviation ptr_next :: "gr_ptr \<Rightarrow> gr_ptr" where
  "ptr_next p \<equiv> (fst p, Suc (snd p))"

subsection \<open>Decoding UTF-8 in pieces\<close>

definition utf8_lookup :: "int list" where
  "utf8_lookup = [1, 1, 1, 1, 1, 1, 1, 1, 0, 0, 0, 0, 2, 2, 3, 4]"

text \<open>The two loops over continuation bytes: the first checks them, the second does not.\<close>

fun utf8_continue :: "gr_string \<Rightarrow> u32 \<Rightarrow> int \<Rightarrow> (gr_string \<times> u32 \<times> int) option" where
  "utf8_continue [] val n_remain = Some ([], val, n_remain)"
| "utf8_continue (b # bs) val n_remain =
     (if b = 0 \<or> n_remain \<le> 0 then Some (b # bs, val, n_remain)
      else if drop_bit 6 b \<noteq> 2 then None
      else utf8_continue bs (push_bit 6 val + ucast (b AND 0x3F)) (n_remain - 1))"

fun utf8_collect :: "gr_string \<Rightarrow> u32 \<Rightarrow> int \<Rightarrow> gr_string \<times> u32 \<times> int" where
  "utf8_collect [] val n_remain = ([], val, n_remain)"
| "utf8_collect (b # bs) val n_remain =
     (if b = 0 \<or> n_remain \<le> 0 then (b # bs, val, n_remain)
      else utf8_collect bs (push_bit 6 val + ucast (b AND 0x3F)) (n_remain - 1))"

lemma utf8_collect_length: "length (fst (utf8_collect bs val n)) \<le> length bs"
  by (induction bs val n rule: utf8_collect.induct) auto

function utf8_sequences ::
  "gr_string \<Rightarrow> u32 list \<Rightarrow> u32 \<Rightarrow> int \<Rightarrow> u32 list \<times> gr_partial_utf8" where
  "utf8_sequences src code_points val n_remain =
     (if src = [] \<or> hd src = 0
      then (code_points @ [0], \<lparr>pu_value = val, pu_n_remain = n_remain\<rparr>)
      else
        let first_byte = hd src;
            n = utf8_lookup ! unat (drop_bit 4 first_byte) - 1 in
        if n < 0 then ([0], \<lparr>pu_value = 0, pu_n_remain = n\<rparr>)
        else
          let mask = push_bit (nat (7 - n)) 1 - 1 :: 8 word;
              r = utf8_collect (tl src) (ucast (first_byte AND mask)) n;
              val' = fst (snd r); n' = snd (snd r) in
          utf8_sequences (fst r) (if n' = 0 then code_points @ [val'] else code_points) val' n')"
  by pat_completeness auto
termination
proof (relation "measure (\<lambda>(src, _, _, _). length src)", goal_cases)
  case (2 src code_points val n_remain first_byte n mask r val' n')
  have "length (fst r) \<le> length (tl src)"
    unfolding 2 by (rule utf8_collect_length)
  with 2(1) show ?case by (cases src) auto
qed simp

declare utf8_sequences.simps [simp del]

definition decode_utf8 :: "gr_string \<Rightarrow> gr_partial_utf8 \<Rightarrow> u32 list \<times> gr_partial_utf8" where
  "decode_utf8 src partial_start =
     (case utf8_continue src (pu_value partial_start) (pu_n_remain partial_start) of
        None \<Rightarrow> ([0], \<lparr>pu_value = 0, pu_n_remain = -1\<rparr>)
      | Some (rest, val, n_remain) \<Rightarrow>
          utf8_sequences rest
            (if pu_n_remain partial_start > 0 \<and> n_remain = 0 then [val] else []) val n_remain)"

subsection \<open>Matching one element\<close>

definition is_end_of_sequence :: "gr_element \<Rightarrow> bool" where
  "is_end_of_sequence e \<longleftrightarrow> ge_type e = Gre_END \<or> ge_type e = Gre_ALT"

definition is_positive_char :: "gr_element \<Rightarrow> bool" where
  "is_positive_char e \<longleftrightarrow> ge_type e = Gre_CHAR \<or> ge_type e = Gre_CHAR_ANY"

text \<open>
  The \<open>do \<dots> while\<close> loops run over the rest of the rule, from the element \<open>pos\<close> points to;
  the first returns whether the character was found and how many elements were passed.
\<close>

fun match_char_loop :: "u32 \<Rightarrow> bool \<Rightarrow> nat \<Rightarrow> gr_rule \<Rightarrow> (bool \<times> nat) option" where
  "match_char_loop chr found i (e0 # e1 # es) =
     (let (found, i, rest) =
            (if ge_type e1 = Gre_CHAR_RNG_UPPER
             then (found \<or> ge_value e0 \<le> chr \<and> chr \<le> ge_value e1, i + 2, es)
             else if ge_type e0 = Gre_CHAR_ANY then (True, i + 1, e1 # es)
             else (found \<or> ge_value e0 = chr, i + 1, e1 # es))
      in case rest of
           [] \<Rightarrow> None
         | e # _ \<Rightarrow>
             if ge_type e = Gre_CHAR_ALT then match_char_loop chr found i rest
             else Some (found, i))"
| "match_char_loop chr found i _ = None"

definition match_char :: "gr_rules \<Rightarrow> gr_ptr \<Rightarrow> u32 \<Rightarrow> (bool \<times> gr_ptr) option" where
  "match_char rules pos chr = do {
     e \<leftarrow> elem_at rules pos;
     assrt (is_positive_char e \<or> ge_type e = Gre_CHAR_NOT);
     (found, i) \<leftarrow> match_char_loop chr False (snd pos) (drop (snd pos) (rules ! fst pos));
     Some (found = is_positive_char e, (fst pos, i)) }"

fun match_partial_loop :: "u32 \<Rightarrow> u32 \<Rightarrow> bool \<Rightarrow> gr_rule \<Rightarrow> bool option" where
  "match_partial_loop low high positive (e0 # e1 # es) =
     (if ge_type e1 = Gre_CHAR_RNG_UPPER \<and> ge_value e0 \<le> high \<and> low \<le> ge_value e1
      then Some positive
      else if ge_type e1 \<noteq> Gre_CHAR_RNG_UPPER \<and> ge_type e0 = Gre_CHAR_ANY then Some True
      else if ge_type e1 \<noteq> Gre_CHAR_RNG_UPPER \<and> low \<le> ge_value e0 \<and> ge_value e0 \<le> high
      then Some positive
      else
        let rest = (if ge_type e1 = Gre_CHAR_RNG_UPPER then es else e1 # es)
        in case rest of
             [] \<Rightarrow> None
           | e # _ \<Rightarrow>
               if ge_type e = Gre_CHAR_ALT then match_partial_loop low high positive rest
               else Some (\<not> positive))"
| "match_partial_loop low high positive _ = None"

definition match_partial_char :: "gr_rules \<Rightarrow> gr_ptr \<Rightarrow> gr_partial_utf8 \<Rightarrow> bool option" where
  "match_partial_char rules pos partial_utf8 = do {
     e \<leftarrow> elem_at rules pos;
     assrt (is_positive_char e \<or> ge_type e = Gre_CHAR_NOT);
     (let partial_value = pu_value partial_utf8; n_remain = pu_n_remain partial_utf8 in
      if n_remain < 0 \<or> n_remain = 1 \<and> partial_value < 2 then Some False
      else do {
        assrt (n_remain \<le> 5);
        (let k = nat n_remain * 6;
             low = push_bit k partial_value;
             high = low OR (push_bit k 1 - 1);
             low = (if low = 0 then
                      if n_remain = 2 then push_bit 11 1
                      else if n_remain = 3 then push_bit 16 1 else low
                    else low)
         in match_partial_loop low high (is_positive_char e) (drop (snd pos) (rules ! fst pos))) }) }"

definition match_token :: "gr_element \<Rightarrow> llama_token \<Rightarrow> bool option" where
  "match_token e token =
     (if ge_type e = Gre_TOKEN then Some (ge_value e = word_of_int token)
      else if ge_type e = Gre_TOKEN_NOT then Some (ge_value e \<noteq> word_of_int token)
      else None)"

subsection \<open>Resolving rule references at the top of a stack\<close>

text \<open>
  The offsets at which the alternates of a rule start, found by scanning each alternate to its
  end: \<open>s\<close> is the start of the current one, \<open>i\<close> the scan.
\<close>

fun alt_starts :: "nat \<Rightarrow> nat \<Rightarrow> gr_rule \<Rightarrow> nat list option" where
  "alt_starts s i [] = None"
| "alt_starts s i (e # es) =
     (if ge_type e = Gre_ALT then do { rest \<leftarrow> alt_starts (Suc i) (Suc i) es; Some (s # rest) }
      else if ge_type e = Gre_END then Some [s]
      else alt_starts s (Suc i) es)"

text \<open>A stack with one more pointer, unless that pointer is at the end of an alternate.\<close>

definition push_ptr :: "gr_rules \<Rightarrow> gr_ptr \<Rightarrow> gr_stack \<Rightarrow> gr_stack option" where
  "push_ptr rules p stack = do {
     e \<leftarrow> elem_at rules p;
     Some (if is_end_of_sequence e then stack else stack @ [p]) }"

definition add_stack :: "gr_stack \<Rightarrow> gr_stack list \<Rightarrow> gr_stack list" where
  "add_stack stack stacks = (if stack \<in> set stacks then stacks else stacks @ [stack])"

text \<open>
  The stacks a stack with the reference \<open>pos\<close> to rule \<open>rule_id\<close> on top is replaced by, one per
  alternate, in the order the code pushes them onto \<open>todo\<close>.
\<close>

definition expand_ref :: "gr_rules \<Rightarrow> gr_stack \<Rightarrow> gr_ptr \<Rightarrow> nat \<Rightarrow> gr_stack list option" where
  "expand_ref rules curr_stack pos rule_id = do {
     rule \<leftarrow> at_idx rules rule_id;
     starts \<leftarrow> alt_starts 0 0 rule;
     ofold (\<lambda>subpos todo. do {
       next_stack \<leftarrow> push_ptr rules (ptr_next pos) (butlast curr_stack);
       next_stack \<leftarrow> push_ptr rules (rule_id, subpos) next_stack;
       Some (todo @ [next_stack]) }) starts [] }"

definition is_stack_terminal :: "gretype \<Rightarrow> bool" where
  "is_stack_terminal t \<longleftrightarrow>
     t = Gre_CHAR \<or> t = Gre_CHAR_NOT \<or> t = Gre_CHAR_ANY \<or> t = Gre_TOKEN \<or> t = Gre_TOKEN_NOT"

text \<open>
  One round of the \<open>while\<close> loop of \<open>llama_grammar_advance_stack\<close>, on the stacks to do (the head
  of the list is the back of the vector), the stacks seen and the stacks found.
\<close>

type_synonym advance_state = "gr_stack list \<times> gr_stack list \<times> gr_stack list"

fun advance_step :: "gr_rules \<Rightarrow> advance_state \<Rightarrow> advance_state option" where
  "advance_step rules ([], seen, new_stacks) = Some ([], seen, new_stacks)"
| "advance_step rules (curr_stack # todo, seen, new_stacks) =
     (if curr_stack \<in> set seen then Some (todo, seen, new_stacks)
      else if curr_stack = [] then Some (todo, curr_stack # seen, add_stack curr_stack new_stacks)
      else do {
        e \<leftarrow> elem_at rules (last curr_stack);
        if ge_type e = Gre_RULE_REF then do {
          nexts \<leftarrow> expand_ref rules curr_stack (last curr_stack) (unat (ge_value e));
          Some (rev nexts @ todo, curr_stack # seen, new_stacks) }
        else if is_stack_terminal (ge_type e)
        then Some (todo, curr_stack # seen, add_stack curr_stack new_stacks)
        else None })"

partial_function (option) advance_loop :: "gr_rules \<Rightarrow> advance_state \<Rightarrow> gr_stack list option" where [code]:
  "advance_loop rules st =
     (case st of (todo, seen, new_stacks) \<Rightarrow>
        if todo = [] then Some new_stacks
        else do { st \<leftarrow> advance_step rules st; advance_loop rules st })"

definition advance_stack :: "gr_rules \<Rightarrow> gr_stack \<Rightarrow> gr_stack list \<Rightarrow> gr_stack list option" where
  "advance_stack rules stack new_stacks = advance_loop rules ([stack], [], new_stacks)"

subsection \<open>Accepting a character\<close>

definition accept_chr :: "gr_rules \<Rightarrow> gr_stack \<Rightarrow> u32 \<Rightarrow> gr_stack list \<Rightarrow> gr_stack list option" where
  "accept_chr rules stack chr new_stacks =
     (if stack = [] then Some new_stacks
      else do {
        e \<leftarrow> elem_at rules (last stack);
        if ge_type e = Gre_TOKEN \<or> ge_type e = Gre_TOKEN_NOT then Some new_stacks
        else do {
          (found, pos) \<leftarrow> match_char rules (last stack) chr;
          if found then do {
            new_stack \<leftarrow> push_ptr rules pos (butlast stack);
            advance_stack rules new_stack new_stacks }
          else Some new_stacks } })"

definition accept_stacks :: "gr_rules \<Rightarrow> u32 \<Rightarrow> gr_stack list \<Rightarrow> gr_stack list option" where
  "accept_stacks rules chr stacks =
     ofold (\<lambda>stack stacks_new. accept_chr rules stack chr stacks_new) stacks []"

subsection \<open>Rejecting candidates\<close>

text \<open>\<open>*tok.code_points\<close>; the buffers the code builds end in a zero.\<close>

definition gc_head :: "gr_candidate \<Rightarrow> u32 option" where
  "gc_head tok = at_idx (gc_buffer tok) (gc_offset tok)"

lemma ofold_mono [partial_function_mono]:
  assumes "\<And>x s. mono_option (\<lambda>f. F f x s)"
  shows "mono_option (\<lambda>f. ofold (F f) xs s)"
proof (induction xs arbitrary: s)
  case (Cons x xs)
  show ?case
    unfolding ofold.simps by (intro bind_mono assms Cons)
qed (simp add: option.const_mono)

text \<open>
  \<open>llama_grammar_reject_candidates\<close> over the stacks, given what rejects the candidates for one
  stack.
\<close>

definition reject_all ::
  "(gr_stack \<Rightarrow> gr_candidate list \<Rightarrow> gr_candidate list option) \<Rightarrow>
   gr_stack list \<Rightarrow> gr_candidate list \<Rightarrow> gr_candidate list option" where
  "reject_all for_stack stacks candidates = do {
     assrt (stacks \<noteq> []);
     if candidates = [] then Some []
     else do {
       rejects \<leftarrow> for_stack (hd stacks) candidates;
       ofold for_stack (tl stacks) rejects } }"

lemma reject_all_mono [partial_function_mono]:
  assumes "\<And>x s. mono_option (\<lambda>f. F f x s)"
  shows "mono_option (\<lambda>f. reject_all (F f) stacks candidates)"
  unfolding reject_all_def
  by (intro bind_mono option.const_mono if_mono assms ofold_mono)

text \<open>The loops over the candidates: those rejected here, and those passed on.\<close>

definition reject_at_end :: "gr_candidate list \<Rightarrow> gr_candidate list option" where
  "reject_at_end candidates =
     ofold (\<lambda>tok rejects. do {
       c \<leftarrow> gc_head tok;
       Some (if c \<noteq> 0 \<or> pu_n_remain (gc_partial tok) \<noteq> 0 then rejects @ [tok] else rejects) })
     candidates []"

definition reject_at_token :: "gr_element \<Rightarrow> gr_candidate list \<Rightarrow> gr_candidate list option" where
  "reject_at_token e candidates =
     ofold (\<lambda>tok rejects. do {
       c \<leftarrow> gc_head tok;
       if c = 0 then
         Some (if pu_n_remain (gc_partial tok) \<noteq> 0 then rejects @ [tok] else rejects)
       else do {
         m \<leftarrow> match_token e (gc_id tok);
         Some (if \<not> m then rejects @ [tok] else rejects) } })
     candidates []"

definition reject_at_char ::
  "gr_rules \<Rightarrow> gr_ptr \<Rightarrow> gr_candidate list \<Rightarrow> (gr_candidate list \<times> gr_candidate list) option" where
  "reject_at_char rules stack_pos candidates =
     ofold (\<lambda>tok (rejects, next_candidates). do {
       c \<leftarrow> gc_head tok;
       if c = 0 then
         (if pu_n_remain (gc_partial tok) \<noteq> 0 then do {
            m \<leftarrow> match_partial_char rules stack_pos (gc_partial tok);
            Some (if \<not> m then rejects @ [tok] else rejects, next_candidates) }
          else Some (rejects, next_candidates))
       else do {
         (m, _) \<leftarrow> match_char rules stack_pos c;
         Some (if m then (rejects, next_candidates @ [tok\<lparr>gc_offset := gc_offset tok + 1\<rparr>])
               else (rejects @ [tok], next_candidates)) } })
     candidates ([], [])"

partial_function (option) reject_candidates_for_stack ::
  "gr_rules \<Rightarrow> gr_stack \<Rightarrow> gr_candidate list \<Rightarrow> gr_candidate list option" where
  "reject_candidates_for_stack rules stack candidates =
     (if stack = [] then reject_at_end candidates
      else do {
        e \<leftarrow> elem_at rules (last stack);
        if ge_type e = Gre_TOKEN \<or> ge_type e = Gre_TOKEN_NOT then reject_at_token e candidates
        else do {
          (rejects, next_candidates) \<leftarrow> reject_at_char rules (last stack) candidates;
          (_, stack_pos_after) \<leftarrow> match_char rules (last stack) 0;
          stack_after \<leftarrow> push_ptr rules stack_pos_after (butlast stack);
          next_stacks \<leftarrow> advance_stack rules stack_after [];
          next_rejects \<leftarrow> reject_all (\<lambda>st cs. reject_candidates_for_stack rules st cs)
                            next_stacks next_candidates;
          Some (rejects @ map (\<lambda>tok. tok\<lparr>gc_offset := gc_offset tok - 1\<rparr>) next_rejects) } })"

definition reject_candidates ::
  "gr_rules \<Rightarrow> gr_stack list \<Rightarrow> gr_candidate list \<Rightarrow> gr_candidate list option" where
  "reject_candidates rules stacks candidates =
     reject_all (reject_candidates_for_stack rules) stacks candidates"

end
