(* ===== verification/GrammarState.thy ===== *)
theory GrammarState
  imports Grammar
begin

unbundle bit_operations_syntax

section \<open>Grammar constrained sampling: construction and the sampler's calls\<close>

text \<open>
  The check for left recursion, the construction of a grammar from its rules, and the calls the
  sampler makes: \<open>llama_grammar_apply_impl\<close> masks the candidates of a step,
  \<open>llama_grammar_accept_impl\<close> takes the token that was sampled, with the buffering of a lazy
  grammar that waits for its trigger. What the vocabulary and the compiled regular expressions
  answer are parameters, kept in the records \<open>gr_vocab\<close> and \<open>gr_trigger\<close>.
\<close>

subsection \<open>Left recursion\<close>

record lr_state =
  lr_visited :: "bool list"
  lr_in_progress :: "bool list"
  lr_may_be_empty :: "bool list"

definition set_at :: "nat \<Rightarrow> bool \<Rightarrow> bool list \<Rightarrow> bool list option" where
  "set_at i b xs = do { assrt (i < length xs); Some (xs[i := b]) }"

fun has_empty_alt :: "bool \<Rightarrow> gr_rule \<Rightarrow> bool" where
  "has_empty_alt at_rule_start [] = False"
| "has_empty_alt at_rule_start (e # es) =
     (if is_end_of_sequence e then at_rule_start \<or> has_empty_alt True es
      else has_empty_alt False es)"

text \<open>
  The body of the loop that follows the leftmost references, given what the recursive call
  answers; \<open>found\<close> is the early return.
\<close>

definition detect_elem ::
  "(nat \<Rightarrow> lr_state \<Rightarrow> (bool \<times> lr_state) option) \<Rightarrow>
   gr_element \<Rightarrow> bool \<times> bool \<times> lr_state \<Rightarrow> (bool \<times> bool \<times> lr_state) option" where
  "detect_elem detect e s =
     (case s of (found, recurse, st) \<Rightarrow>
        if found then Some (found, recurse, st)
        else if ge_type e = Gre_RULE_REF \<and> recurse then do {
          (found, st) \<leftarrow> detect (unat (ge_value e)) st;
          if found then Some (True, recurse, st)
          else do {
            m \<leftarrow> at_idx (lr_may_be_empty st) (unat (ge_value e));
            Some (False, m, st) } }
        else Some (False, is_end_of_sequence e, st))"

lemma detect_elem_mono [partial_function_mono]:
  assumes "\<And>n st. mono_option (\<lambda>f. F f n st)"
  shows "mono_option (\<lambda>f. detect_elem (F f) e s)"
  unfolding detect_elem_def split_def
  by (intro bind_mono option.const_mono if_mono assms)

partial_function (option) detect_left_recursion ::
  "gr_rules \<Rightarrow> nat \<Rightarrow> lr_state \<Rightarrow> (bool \<times> lr_state) option" where [code]:
  "detect_left_recursion rules rule_index st = do {
     busy \<leftarrow> at_idx (lr_in_progress st) rule_index;
     if busy then Some (True, st)
     else do {
       in_progress \<leftarrow> set_at rule_index True (lr_in_progress st);
       rule \<leftarrow> at_idx rules rule_index;
       may_be_empty \<leftarrow> (if has_empty_alt True rule
                         then set_at rule_index True (lr_may_be_empty st)
                         else Some (lr_may_be_empty st));
       (found, _, st) \<leftarrow> ofold (detect_elem (\<lambda>n st. detect_left_recursion rules n st)) rule
         (False, True, st\<lparr>lr_in_progress := in_progress, lr_may_be_empty := may_be_empty\<rparr>);
       if found then Some (True, st)
       else do {
         in_progress \<leftarrow> set_at rule_index False (lr_in_progress st);
         visited \<leftarrow> set_at rule_index True (lr_visited st);
         Some (False, st\<lparr>lr_in_progress := in_progress, lr_visited := visited\<rparr>) } } }"

text \<open>The loop over the rules in both versions of \<open>llama_grammar_init_impl\<close>.\<close>

definition has_left_recursion :: "gr_rules \<Rightarrow> bool option" where
  "has_left_recursion rules =
     (let n = length rules; none = replicate n False in do {
        (found, _) \<leftarrow> ofold (\<lambda>i (found, st).
            if found then Some (found, st)
            else do {
              v \<leftarrow> at_idx (lr_visited st) i;
              if v then Some (found, st) else detect_left_recursion rules i st }) [0..<n]
          (False, \<lparr>lr_visited = none, lr_in_progress = none, lr_may_be_empty = none\<rparr>);
        Some found })"

subsection \<open>The grammar object\<close>

text \<open>
  What \<open>std::regex_match\<close> and \<open>std::regex_search\<close> return for the compiled pattern: the position
  and length of each group, the whole match first.
\<close>

record gr_trigger =
  gt_pattern :: gr_string
  gt_match :: "gr_string \<Rightarrow> (nat \<times> nat) list option"
  gt_search :: "gr_string \<Rightarrow> (nat \<times> nat) list option"

record gr_vocab =
  gv_token_to_piece :: "llama_token \<Rightarrow> gr_string"
  gv_is_eog :: "llama_token \<Rightarrow> bool"

record gr_grammar =
  gr_rules_of :: gr_rules
  gr_stacks :: "gr_stack list"
  gr_partial :: gr_partial_utf8
  gr_lazy :: bool
  gr_awaiting_trigger :: bool
  gr_trigger_buffer :: gr_string
  gr_trigger_positions :: "(llama_token \<times> nat \<times> nat) list"
  gr_trigger_tokens :: "llama_token list"
  gr_trigger_patterns :: "gr_trigger list"

subsection \<open>Construction\<close>

text \<open>A rule is copied up to its first end marker; without one the loop runs off the array.\<close>

definition copy_rule :: "gr_element list \<Rightarrow> gr_rule option" where
  "copy_rule es = do {
     assrt (\<exists>e \<in> set es. ge_type e = Gre_END);
     Some (takeWhile (\<lambda>e. ge_type e \<noteq> Gre_END) es @ [\<lparr>ge_type = Gre_END, ge_value = 0\<rparr>]) }"

definition copy_rules :: "gr_element list list \<Rightarrow> gr_rules option" where
  "copy_rules rules =
     ofold (\<lambda>es vec. do { rule \<leftarrow> copy_rule es; Some (vec @ [rule]) }) rules []"

definition rule_refs_valid :: "gr_rules \<Rightarrow> bool" where
  "rule_refs_valid rules \<longleftrightarrow>
     (\<forall>rule \<in> set rules. \<forall>e \<in> set rule. ge_type e = Gre_RULE_REF \<longrightarrow>
        unat (ge_value e) < length rules \<and> rules ! unat (ge_value e) \<noteq> [])"

definition initial_stacks :: "gr_rules \<Rightarrow> nat \<Rightarrow> gr_stack list option" where
  "initial_stacks rules start_rule_index = do {
     rule \<leftarrow> at_idx rules start_rule_index;
     starts \<leftarrow> alt_starts 0 0 rule;
     ofold (\<lambda>pos stacks. do {
       stack \<leftarrow> push_ptr rules (start_rule_index, pos) [];
       advance_stack rules stack stacks }) starts [] }"

text \<open>The inner \<open>None\<close> is the null pointer both functions return for a grammar they refuse.\<close>

definition grammar_init_rules :: "gr_element list list \<Rightarrow> nat \<Rightarrow> gr_grammar option option" where
  "grammar_init_rules rules start_rule_index = do {
     vec_rules \<leftarrow> copy_rules rules;
     if \<not> rule_refs_valid vec_rules then Some None
     else do {
       bad \<leftarrow> has_left_recursion vec_rules;
       if bad then Some None
       else do {
         stacks \<leftarrow> initial_stacks vec_rules start_rule_index;
         Some (Some \<lparr>gr_rules_of = vec_rules, gr_stacks = stacks,
           gr_partial = \<lparr>pu_value = 0, pu_n_remain = 0\<rparr>, gr_lazy = False,
           gr_awaiting_trigger = False, gr_trigger_buffer = [], gr_trigger_positions = [],
           gr_trigger_tokens = [], gr_trigger_patterns = []\<rparr>) } } }"

subsection \<open>Accepting text\<close>

text \<open>
  \<open>Gr_throw\<close> is the exception for a grammar left without a stack; the object it leaves behind
  has been changed already.
\<close>

datatype gr_outcome = Gr_throw gr_grammar | Gr_ok gr_grammar

definition gr_finish :: "gr_stack list \<Rightarrow> gr_partial_utf8 \<Rightarrow> gr_grammar \<Rightarrow> gr_outcome" where
  "gr_finish stacks partial g =
     (let g = g\<lparr>gr_stacks := stacks, gr_partial := partial\<rparr>
      in if stacks = [] then Gr_throw g else Gr_ok g)"

definition gr_accept :: "u32 \<Rightarrow> gr_grammar \<Rightarrow> gr_grammar option" where
  "gr_accept chr g = do {
     stacks \<leftarrow> accept_stacks (gr_rules_of g) chr (gr_stacks g);
     Some (g\<lparr>gr_stacks := stacks\<rparr>) }"

definition gr_accept_str :: "gr_grammar \<Rightarrow> gr_string \<Rightarrow> gr_outcome option" where
  "gr_accept_str g piece =
     (let decoded = decode_utf8 piece (gr_partial g) in do {
        g \<leftarrow> ofold gr_accept (butlast (fst decoded)) g;
        Some (gr_finish (gr_stacks g) (snd decoded) g) })"

definition accept_token_stack ::
  "gr_rules \<Rightarrow> llama_token \<Rightarrow> u32 list \<Rightarrow> gr_stack \<Rightarrow> gr_stack list \<Rightarrow> gr_stack list option" where
  "accept_token_stack rules token code_points stack stacks_new =
     (if stack = [] then Some stacks_new
      else do {
        e \<leftarrow> elem_at rules (last stack);
        if ge_type e = Gre_TOKEN \<or> ge_type e = Gre_TOKEN_NOT then do {
          m \<leftarrow> match_token e token;
          if m then do {
            new_stack \<leftarrow> push_ptr rules (ptr_next (last stack)) (butlast stack);
            advance_stack rules new_stack stacks_new }
          else Some stacks_new }
        else do {
          current_stacks \<leftarrow> ofold (\<lambda>chr current_stacks.
              if current_stacks = [] then Some current_stacks
              else accept_stacks rules chr current_stacks) (butlast code_points) [stack];
          Some (fold add_stack current_stacks stacks_new) } })"

definition gr_accept_token :: "gr_grammar \<Rightarrow> llama_token \<Rightarrow> gr_string \<Rightarrow> gr_outcome option" where
  "gr_accept_token g token piece =
     (let decoded = decode_utf8 piece (gr_partial g) in do {
        stacks \<leftarrow> ofold (accept_token_stack (gr_rules_of g) token (fst decoded)) (gr_stacks g) [];
        Some (gr_finish stacks (snd decoded) g) })"

subsection \<open>Triggers of a lazy grammar\<close>

definition find_start_pos :: "(nat \<times> nat) list \<Rightarrow> nat" where
  "find_start_pos groups =
     (case find (\<lambda>(pos, len). len > 0) (tl groups) of
        Some (pos, len) \<Rightarrow> pos
      | None \<Rightarrow> fst (hd groups))"

definition trigger_find :: "gr_trigger \<Rightarrow> gr_string \<Rightarrow> nat option" where
  "trigger_find t input =
     (let pattern = gt_pattern t;
          whole = (if pattern \<noteq> [] \<and> hd pattern = 0x5E \<and> last pattern = 0x24
                   then gt_match t input else None)
      in case whole of
           Some groups \<Rightarrow> Some (find_start_pos groups)
         | None \<Rightarrow> map_option find_start_pos (gt_search t input))"

text \<open>The first pattern, in their order, that is found.\<close>

fun first_trigger :: "gr_trigger list \<Rightarrow> gr_string \<Rightarrow> nat option" where
  "first_trigger [] input = None"
| "first_trigger (t # ts) input =
     (case trigger_find t input of Some start \<Rightarrow> Some start | None \<Rightarrow> first_trigger ts input)"

text \<open>The buffered tokens that reach past \<open>start\<close> are accepted again, the first one cut.\<close>

definition replay_tokens ::
  "nat \<Rightarrow> (llama_token \<times> nat \<times> nat) list \<Rightarrow> gr_outcome \<Rightarrow> gr_outcome option" where
  "replay_tokens start positions out =
     ofold (\<lambda>(tok, tok_start, tok_end) out.
       case out of
         Gr_throw g \<Rightarrow> Some (Gr_throw g)
       | Gr_ok g \<Rightarrow>
           if tok_end \<le> start then Some (Gr_ok g)
           else
             let piece_start = (if tok_start < start then start else tok_start);
                 piece_len = tok_end - piece_start
             in gr_accept_token g tok (take piece_len (drop piece_start (gr_trigger_buffer g))))
     positions out"

definition gr_accept_impl :: "gr_vocab \<Rightarrow> gr_grammar \<Rightarrow> llama_token \<Rightarrow> gr_outcome option" where
  "gr_accept_impl vocab g token =
     (let piece = gv_token_to_piece vocab token in
      if gr_awaiting_trigger g then
        (if token \<in> set (gr_trigger_tokens g)
         then gr_accept_token (g\<lparr>gr_awaiting_trigger := False, gr_trigger_buffer := []\<rparr>) token piece
         else
           let len = length (gr_trigger_buffer g);
               g = g\<lparr>gr_trigger_positions :=
                       gr_trigger_positions g @ [(token, len, len + length piece)],
                     gr_trigger_buffer := gr_trigger_buffer g @ piece\<rparr>
           in case first_trigger (gr_trigger_patterns g) (gr_trigger_buffer g) of
                None \<Rightarrow> Some (Gr_ok g)
              | Some start \<Rightarrow> do {
                  out \<leftarrow> replay_tokens start (gr_trigger_positions g)
                           (Gr_ok (g\<lparr>gr_awaiting_trigger := False\<rparr>));
                  Some (case out of
                          Gr_throw g \<Rightarrow> Gr_throw g
                        | Gr_ok g \<Rightarrow> Gr_ok (g\<lparr>gr_trigger_buffer := [], gr_trigger_positions := []\<rparr>)) })
      else if gv_is_eog vocab token then
        (if [] \<in> set (gr_stacks g) then Some (Gr_ok g) else None)
      else gr_accept_token g token piece)"

subsection \<open>Masking the candidates of a sampling step\<close>

record token_data =
  td_id :: llama_token
  td_logit :: f32
  td_p :: f32

definition minus_infinity :: f32 where
  "minus_infinity = 0xFF800000"

definition gr_apply_impl :: "gr_vocab \<Rightarrow> gr_grammar \<Rightarrow> token_data list \<Rightarrow> token_data list option" where
  "gr_apply_impl vocab g cur_p =
     (if gr_awaiting_trigger g then Some cur_p
      else
        let allow_eog = ([] \<in> set (gr_stacks g)) in do {
          (cur_p, candidates) \<leftarrow> ofold (\<lambda>i (cur_p, candidates).
              let id = td_id (cur_p ! i); piece = gv_token_to_piece vocab id;
                  masked = cur_p[i := (cur_p ! i)\<lparr>td_logit := minus_infinity\<rparr>]
              in if gv_is_eog vocab id
                 then Some (if \<not> allow_eog then masked else cur_p, candidates)
                 else if piece = [] \<or> hd piece = 0 then Some (masked, candidates)
                 else
                   let decoded = decode_utf8 piece (gr_partial g)
                   in Some (cur_p, candidates @
                        [\<lparr>gc_index = i, gc_buffer = fst decoded, gc_offset = 0,
                          gc_partial = snd decoded, gc_id = id\<rparr>])) [0..<length cur_p] (cur_p, []);
          rejects \<leftarrow> reject_candidates (gr_rules_of g) (gr_stacks g) candidates;
          Some (fold (\<lambda>tok cur_p. cur_p[gc_index tok := (cur_p ! gc_index tok)
                   \<lparr>td_logit := minus_infinity\<rparr>]) rejects cur_p) })"

end
