(* ===== verification/GrammarLang.thy ===== *)
theory GrammarLang
  imports GrammarState
begin

section \<open>The language of a grammar\<close>

text \<open>
  The specification the pushdown machine of \<open>Grammar\<close> is measured against: the rules read as a
  context-free grammar over code points, with derivations that always rewrite the leftmost
  symbol, and the correspondence of rules, pointers and stacks with its sentential forms.
\<close>

subsection \<open>Context-free grammars\<close>

datatype gr_sym = Chars "u32 set" | Ref nat | Tok gr_element

text \<open>The characters of the run of elements of a character class, as written (not inverted).\<close>

fun class_set :: "gr_rule \<Rightarrow> u32 set" where
  "class_set (e0 # e1 # es) =
     (if ge_type e1 = Gre_CHAR_RNG_UPPER
      then {ge_value e0 .. ge_value e1} \<union>
           (if es \<noteq> [] \<and> ge_type (hd es) = Gre_CHAR_ALT then class_set es else {})
      else (if ge_type e0 = Gre_CHAR_ANY then UNIV else {ge_value e0}) \<union>
           (if ge_type e1 = Gre_CHAR_ALT then class_set (e1 # es) else {}))"
| "class_set _ = {}"

text \<open>The symbols from an element to the end of its alternate.\<close>

fun syms_of :: "gr_rule \<Rightarrow> gr_sym list" where
  "syms_of [] = []"
| "syms_of (e # es) =
     (case ge_type e of
        Gre_END \<Rightarrow> []
      | Gre_ALT \<Rightarrow> []
      | Gre_RULE_REF \<Rightarrow> Ref (unat (ge_value e)) # syms_of es
      | Gre_CHAR \<Rightarrow> Chars (class_set (e # es)) # syms_of es
      | Gre_CHAR_NOT \<Rightarrow> Chars (- class_set (e # es)) # syms_of es
      | Gre_CHAR_ANY \<Rightarrow> Chars (class_set (e # es)) # syms_of es
      | Gre_CHAR_RNG_UPPER \<Rightarrow> syms_of es
      | Gre_CHAR_ALT \<Rightarrow> syms_of es
      | Gre_TOKEN \<Rightarrow> Tok e # syms_of es
      | Gre_TOKEN_NOT \<Rightarrow> Tok e # syms_of es)"

text \<open>The alternates of a rule start at its first element and after every separator.\<close>

definition alt_syms :: "gr_rule \<Rightarrow> gr_sym list set" where
  "alt_syms rule = {syms_of (drop s rule) |s. s = 0 \<or>
     (0 < s \<and> s < length rule \<and> ge_type (rule ! (s - 1)) = Gre_ALT)}"

inductive derives :: "gr_rules \<Rightarrow> gr_sym list \<Rightarrow> u32 list \<Rightarrow> bool" for rules where
  derives_Nil: "derives rules [] []"
| derives_Chars: "c \<in> S \<Longrightarrow> derives rules ss w \<Longrightarrow> derives rules (Chars S # ss) (c # w)"
| derives_Ref: "n < length rules \<Longrightarrow> a \<in> alt_syms (rules ! n) \<Longrightarrow> derives rules (a @ ss) w \<Longrightarrow>
    derives rules (Ref n # ss) w"

inductive_cases derives_NilE: "derives rules [] w"
inductive_cases derives_CharsE: "derives rules (Chars S # ss) w"
inductive_cases derives_RefE: "derives rules (Ref n # ss) w"
inductive_simps derives_Nil_iff [simp]: "derives rules [] w"
inductive_simps derives_Tok_iff [simp]: "derives rules (Tok e # ss) w"
inductive_simps derives_Chars_iff: "derives rules (Chars S # ss) w"
inductive_simps derives_Ref_iff: "derives rules (Ref n # ss) w"

lemma derives_Chars_Nil [simp]: "\<not> derives rules (Chars S # ss) []"
  by (auto simp: derives_Chars_iff)

lemma derives_append:
  "derives rules ss v \<Longrightarrow> derives rules ts w \<Longrightarrow> derives rules (ss @ ts) (v @ w)"
  by (induction rule: derives.induct) (auto intro: derives.intros)

lemma derives_split:
  "derives rules us x \<Longrightarrow> us = ss @ ts \<Longrightarrow>
    \<exists>v w. x = v @ w \<and> derives rules ss v \<and> derives rules ts w"
proof (induction arbitrary: ss rule: derives.induct)
  case (derives_Chars c S us w)
  then show ?case
  proof (cases ss)
    case Nil
    with derives_Chars show ?thesis by (metis append_Nil derives.intros(1,2))
  next
    case (Cons s ss')
    with derives_Chars obtain v u where "w = v @ u" "derives rules ss' v" "derives rules ts u" by auto
    with Cons derives_Chars show ?thesis by (metis append_Cons derives.intros(2) list.inject)
  qed
next
  case (derives_Ref n a us w)
  then show ?case
  proof (cases ss)
    case Nil
    with derives_Ref show ?thesis by (metis append_Nil derives.intros(1,3))
  next
    case (Cons s ss')
    with derives_Ref obtain v u where "w = v @ u" "derives rules (a @ ss') v" "derives rules ts u"
      by force
    with Cons derives_Ref show ?thesis by (metis append_Cons derives.intros(3) list.inject)
  qed
qed auto

lemma derives_append_iff:
  "derives rules (ss @ ts) x \<longleftrightarrow> (\<exists>v w. x = v @ w \<and> derives rules ss v \<and> derives rules ts w)"
  using derives_append derives_split by metis

subsection \<open>Well-formed rules\<close>

definition is_modifier :: "gr_element \<Rightarrow> bool" where
  "is_modifier e \<longleftrightarrow> ge_type e = Gre_CHAR_RNG_UPPER \<or> ge_type e = Gre_CHAR_ALT"

definition follows_ok :: "gretype \<Rightarrow> gretype \<Rightarrow> bool" where
  "follows_ok t t' \<longleftrightarrow>
     (t' = Gre_CHAR_RNG_UPPER \<longrightarrow> t \<in> {Gre_CHAR, Gre_CHAR_NOT, Gre_CHAR_ALT}) \<and>
     (t' = Gre_CHAR_ALT \<longrightarrow> t \<in> {Gre_CHAR, Gre_CHAR_NOT, Gre_CHAR_ALT, Gre_CHAR_RNG_UPPER})"

fun rule_shape :: "gretype \<Rightarrow> gr_rule \<Rightarrow> bool" where
  "rule_shape t [] = False"
| "rule_shape t (e # es) =
     (follows_ok t (ge_type e) \<and> (if ge_type e = Gre_END then es = [] else rule_shape (ge_type e) es))"

definition wf_rules :: "gr_rules \<Rightarrow> bool" where
  "wf_rules rules \<longleftrightarrow> rule_refs_valid rules \<and> (\<forall>rule \<in> set rules. rule_shape Gre_ALT rule)"

text \<open>What may be on a stack: a pointer to an element that starts a symbol.\<close>

definition starts_symbol :: "gr_element \<Rightarrow> bool" where
  "starts_symbol e \<longleftrightarrow> \<not> is_end_of_sequence e \<and> \<not> is_modifier e"

definition ptr_ok :: "gr_rules \<Rightarrow> gr_ptr \<Rightarrow> bool" where
  "ptr_ok rules p \<longleftrightarrow> (\<exists>e. elem_at rules p = Some e \<and> starts_symbol e)"

abbreviation stack_ok :: "gr_rules \<Rightarrow> gr_stack \<Rightarrow> bool" where
  "stack_ok rules stack \<equiv> \<forall>p \<in> set stack. ptr_ok rules p"

text \<open>The part of a rule a pointer stands for, and the sentential form of a stack.\<close>

abbreviation suffix_at :: "gr_rules \<Rightarrow> gr_ptr \<Rightarrow> gr_rule" where
  "suffix_at rules p \<equiv> drop (snd p) (rules ! fst p)"

definition stack_syms :: "gr_rules \<Rightarrow> gr_stack \<Rightarrow> gr_sym list" where
  "stack_syms rules stack = concat (map (\<lambda>p. syms_of (suffix_at rules p)) (rev stack))"

lemma stack_syms_Nil [simp]: "stack_syms rules [] = []"
  by (simp add: stack_syms_def)

lemma stack_syms_snoc [simp]:
  "stack_syms rules (stack @ [p]) = syms_of (suffix_at rules p) @ stack_syms rules stack"
  by (simp add: stack_syms_def)

lemma elem_at_Some_iff:
  "elem_at rules p = Some e \<longleftrightarrow> fst p < length rules \<and> snd p < length (rules ! fst p) \<and>
     e = rules ! fst p ! snd p"
  by (auto simp: elem_at_def at_idx_def)

lemma elem_at_suffix:
  "elem_at rules p = Some e \<Longrightarrow> suffix_at rules p = e # suffix_at rules (ptr_next p)"
  by (auto simp: elem_at_Some_iff Cons_nth_drop_Suc)

lemma rule_shape_drop:
  "rule_shape t rule \<Longrightarrow> i < length rule \<Longrightarrow>
    rule_shape (if i = 0 then t else ge_type (rule ! (i - 1))) (drop i rule)"
proof (induction rule arbitrary: t i)
  case (Cons e es)
  show ?case
  proof (cases i)
    case (Suc j)
    with Cons.prems have "ge_type e \<noteq> Gre_END" by (auto split: if_splits)
    with Cons.prems Cons.IH [of "ge_type e" j] Suc show ?thesis
      by (auto simp: nth_Cons' split: if_splits)
  qed (use Cons.prems in simp)
qed simp

lemma rule_shape_nonempty: "rule_shape t es \<Longrightarrow> es \<noteq> []"
  by (cases es) auto

lemma wf_suffix_shape:
  assumes "wf_rules rules" "elem_at rules p = Some e"
  shows "\<exists>t. rule_shape t (suffix_at rules p)"
  using assms rule_shape_drop [of Gre_ALT "rules ! fst p" "snd p"]
  by (auto simp: wf_rules_def elem_at_Some_iff)

subsection \<open>The scanning loops on well-formed rules\<close>

lemma alt_starts_spec:
  "rule_shape t es \<Longrightarrow>
    \<exists>starts. alt_starts s i es = Some starts \<and>
      set starts = insert s {i + Suc j |j. Suc j < length es \<and> ge_type (es ! j) = Gre_ALT}"
proof (induction es arbitrary: t s i)
  case (Cons e es)
  have split: "{i + Suc j |j. Suc j < length (e # es) \<and> ge_type ((e # es) ! j) = Gre_ALT} =
      (if ge_type e = Gre_ALT \<and> es \<noteq> [] then {Suc i} else {}) \<union>
      {Suc i + Suc j |j. Suc j < length es \<and> ge_type (es ! j) = Gre_ALT}" (is "?L = ?R")
  proof (intro set_eqI iffI)
    fix x assume "x \<in> ?L"
    then obtain j where j: "x = i + Suc j" "Suc j < length (e # es)" "ge_type ((e # es) ! j) = Gre_ALT"
      by blast
    then show "x \<in> ?R" by (cases j) auto
  next
    fix x assume "x \<in> ?R"
    then consider "ge_type e = Gre_ALT" "es \<noteq> []" "x = Suc i"
      | j where "x = Suc i + Suc j" "Suc j < length es" "ge_type (es ! j) = Gre_ALT"
      by (auto split: if_splits)
    then show "x \<in> ?L"
    proof cases
      case 1
      then have "x = i + Suc 0 \<and> Suc 0 < length (e # es) \<and> ge_type ((e # es) ! 0) = Gre_ALT" by simp
      then show ?thesis by blast
    next
      case 2
      then have "x = i + Suc (Suc j) \<and> Suc (Suc j) < length (e # es) \<and>
          ge_type ((e # es) ! Suc j) = Gre_ALT" by simp
      then show ?thesis by blast
    qed
  qed
  consider "ge_type e = Gre_ALT" | "ge_type e = Gre_END" | "ge_type e \<noteq> Gre_ALT" "ge_type e \<noteq> Gre_END"
    by blast
  then show ?case
  proof cases
    case 1
    with Cons.prems have sh: "rule_shape Gre_ALT es" by simp
    from Cons.IH [OF this, of "Suc i" "Suc i"] obtain starts
      where "alt_starts (Suc i) (Suc i) es = Some starts"
        "set starts = insert (Suc i) {Suc i + Suc j |j. Suc j < length es \<and> ge_type (es ! j) = Gre_ALT}"
      by blast
    with 1 sh show ?thesis unfolding split by (auto dest: rule_shape_nonempty)
  next
    case 2
    with Cons.prems show ?thesis by simp
  next
    case 3
    with Cons.prems have sh: "rule_shape (ge_type e) es" by simp
    from Cons.IH [OF this, of s "Suc i"] 3 show ?thesis unfolding split by simp
  qed
qed simp

definition class_len :: "gr_rule \<Rightarrow> nat" where
  "class_len es = Suc (length (takeWhile is_modifier (tl es)))"

lemma follows_RNG_UPPER:
  "follows_ok Gre_CHAR_RNG_UPPER t \<Longrightarrow> t \<noteq> Gre_CHAR_RNG_UPPER"
  by (simp add: follows_ok_def)

lemma match_char_loop_spec:
  assumes "rule_shape t es" "ge_type (hd es) \<in> {Gre_CHAR, Gre_CHAR_NOT, Gre_CHAR_ANY, Gre_CHAR_ALT}"
  shows "match_char_loop chr found i es = Some (found \<or> chr \<in> class_set es, i + class_len es)"
  using assms
proof (induction chr found i es arbitrary: t rule: match_char_loop.induct)
  case (1 chr found i e0 e1 es)
  from "1.prems" have sh1: "rule_shape (ge_type e0) (e1 # es)" by (auto split: if_splits)
  show ?case
  proof (cases "ge_type e1 = Gre_CHAR_RNG_UPPER")
    case True
    with sh1 have sh2: "rule_shape Gre_CHAR_RNG_UPPER es" by simp
    then obtain e2 es' where es: "es = e2 # es'" by (cases es) auto
    from sh2 es have ne: "ge_type e2 \<noteq> Gre_CHAR_RNG_UPPER" by (auto simp: follows_ok_def)
    show ?thesis
    proof (cases "ge_type e2 = Gre_CHAR_ALT")
      case alt: True
      from "1.IH" [OF refl, of _ _ "i + 2" es e2 es'] True alt sh2 es
      show ?thesis by (auto simp: class_len_def is_modifier_def)
    next
      case False
      with True es ne show ?thesis by (auto simp: class_len_def is_modifier_def)
    qed
  next
    case False
    show ?thesis
    proof (cases "ge_type e1 = Gre_CHAR_ALT")
      case alt: True
      with sh1 have e0: "ge_type e0 \<noteq> Gre_CHAR_ANY" by (auto simp: follows_ok_def)
      from "1.IH" [OF refl, of _ _ "i + 1" "e1 # es" e1 es] False alt e0 sh1
      show ?thesis by (auto simp: class_len_def is_modifier_def)
    next
      case noalt: False
      with False show ?thesis by (auto simp: class_len_def is_modifier_def)
    qed
  qed
qed (auto split: if_splits)

lemma syms_of_dropWhile: "syms_of (dropWhile is_modifier es) = syms_of es"
  by (induction es) (auto simp: is_modifier_def)

lemma drop_class_len: "drop (class_len (e # es)) (e # es) = dropWhile is_modifier es"
  by (simp add: class_len_def dropWhile_eq_drop)

lemma rule_shape_dropWhile:
  "rule_shape t es \<Longrightarrow> dropWhile is_modifier es \<noteq> [] \<and> \<not> is_modifier (hd (dropWhile is_modifier es))"
  by (induction es arbitrary: t) (auto simp: is_modifier_def split: if_splits)

subsection \<open>Matching, pushing and expanding on well-formed stacks\<close>

definition is_char_start :: "gretype \<Rightarrow> bool" where
  "is_char_start t \<longleftrightarrow> t = Gre_CHAR \<or> t = Gre_CHAR_NOT \<or> t = Gre_CHAR_ANY"

definition char_set_at :: "gr_rules \<Rightarrow> gr_ptr \<Rightarrow> u32 set" where
  "char_set_at rules p =
     (if ge_type (rules ! fst p ! snd p) = Gre_CHAR_NOT then - class_set (suffix_at rules p)
      else class_set (suffix_at rules p))"

definition after_char :: "gr_rules \<Rightarrow> gr_ptr \<Rightarrow> gr_ptr" where
  "after_char rules p = (fst p, snd p + class_len (suffix_at rules p))"

lemma wf_next:
  assumes "wf_rules rules" "elem_at rules p = Some e" "ge_type e \<noteq> Gre_END"
  obtains e' where "elem_at rules (ptr_next p) = Some e'" "follows_ok (ge_type e) (ge_type e')"
proof -
  obtain t where "rule_shape t (suffix_at rules p)"
    using wf_suffix_shape [OF assms(1,2)] by blast
  then have "rule_shape (ge_type e) (suffix_at rules (ptr_next p))"
    using elem_at_suffix [OF assms(2)] assms(3) by simp
  then obtain e' es where "suffix_at rules (ptr_next p) = e' # es" "follows_ok (ge_type e) (ge_type e')"
    by (metis rule_shape.elims(2))
  moreover from this have "elem_at rules (ptr_next p) = Some e'"
    using assms(2) by (auto simp: elem_at_Some_iff) (metis drop_eq_Nil list.distinct(1) not_le_imp_less,
      metis drop_eq_Nil hd_drop_conv_nth list.distinct(1) list.sel(1) not_le_imp_less)
  ultimately show thesis by (intro that)
qed

lemma match_char_ok:
  assumes "wf_rules rules" "elem_at rules p = Some e" "is_char_start (ge_type e)"
  shows "match_char rules p chr = Some (chr \<in> char_set_at rules p, after_char rules p)"
    and "syms_of (suffix_at rules p) =
      Chars (char_set_at rules p) # syms_of (suffix_at rules (after_char rules p))"
    and "\<exists>e'. elem_at rules (after_char rules p) = Some e' \<and> \<not> is_modifier e'"
proof -
  obtain t where t: "rule_shape t (suffix_at rules p)"
    using wf_suffix_shape [OF assms(1,2)] by blast
  let ?es = "suffix_at rules (ptr_next p)"
  have suf: "suffix_at rules p = e # ?es"
    by (rule elem_at_suffix [OF assms(2)])
  have e: "rules ! fst p ! snd p = e"
    using assms(2) by (simp add: elem_at_Some_iff)
  have "match_char_loop chr False (snd p) (suffix_at rules p) =
      Some (chr \<in> class_set (suffix_at rules p), snd p + class_len (suffix_at rules p))"
    using match_char_loop_spec [OF t, of chr False "snd p"] assms(3) suf
    by (auto simp: is_char_start_def)
  then show "match_char rules p chr = Some (chr \<in> char_set_at rules p, after_char rules p)"
    using assms(2,3) e
    by (auto simp: match_char_def is_positive_char_def is_char_start_def char_set_at_def after_char_def)
  have after: "suffix_at rules (after_char rules p) = dropWhile is_modifier ?es"
  proof -
    have "suffix_at rules (after_char rules p) = drop (class_len (suffix_at rules p)) (suffix_at rules p)"
      by (simp add: after_char_def add.commute)
    then show ?thesis unfolding suf by (simp only: drop_class_len)
  qed
  show "syms_of (suffix_at rules p) =
      Chars (char_set_at rules p) # syms_of (suffix_at rules (after_char rules p))"
    unfolding after syms_of_dropWhile using suf e assms(3)
    by (auto simp: char_set_at_def is_char_start_def)
  have "rule_shape (ge_type e) ?es"
    using t suf assms(3) by (auto simp: is_char_start_def)
  from rule_shape_dropWhile [OF this]
  have ne: "suffix_at rules (after_char rules p) \<noteq> []"
    and hd: "\<not> is_modifier (hd (suffix_at rules (after_char rules p)))"
    unfolding after by blast+
  from ne have "elem_at rules (after_char rules p) = Some (hd (suffix_at rules (after_char rules p)))"
    using assms(2) by (simp add: elem_at_Some_iff after_char_def hd_drop_conv_nth not_le_imp_less)
  with hd show "\<exists>e'. elem_at rules (after_char rules p) = Some e' \<and> \<not> is_modifier e'" by blast
qed

lemma push_ptr_ok:
  assumes "elem_at rules p = Some e" "\<not> is_modifier e"
  obtains st' where "push_ptr rules p st = Some st'"
    "stack_syms rules st' = syms_of (suffix_at rules p) @ stack_syms rules st"
    "stack_ok rules st \<Longrightarrow> stack_ok rules st'"
proof (cases "is_end_of_sequence e")
  case True
  then have "syms_of (suffix_at rules p) = []"
    using elem_at_suffix [OF assms(1)] by (auto simp: is_end_of_sequence_def)
  with True assms that [of st] show ?thesis by (simp add: push_ptr_def)
next
  case False
  with assms that [of "st @ [p]"] show ?thesis
    by (simp add: push_ptr_def ptr_ok_def starts_symbol_def)
qed

lemma alt_syms_starts:
  assumes "rule_shape Gre_ALT rule"
  obtains starts where "alt_starts 0 0 rule = Some starts"
    "alt_syms rule = (\<lambda>s. syms_of (drop s rule)) ` set starts"
    "\<And>s. s \<in> set starts \<Longrightarrow> s < length rule \<and> \<not> is_modifier (rule ! s)"
proof -
  obtain starts where st: "alt_starts 0 0 rule = Some starts"
    and set: "set starts = insert 0 {0 + Suc j |j. Suc j < length rule \<and> ge_type (rule ! j) = Gre_ALT}"
    using alt_starts_spec [OF assms, of 0 0] by blast
  have mem: "s \<in> set starts \<longleftrightarrow> s = 0 \<or> 0 < s \<and> s < length rule \<and> ge_type (rule ! (s - 1)) = Gre_ALT" for s
    unfolding set by (cases s) auto
  have "alt_syms rule = (\<lambda>s. syms_of (drop s rule)) ` set starts"
    unfolding alt_syms_def image_def using mem by blast
  moreover have "s < length rule \<and> \<not> is_modifier (rule ! s)" if "s \<in> set starts" for s
  proof -
    have len: "s < length rule"
      using that rule_shape_nonempty [OF assms] unfolding mem by auto
    from rule_shape_drop [OF assms len] that len
    have "rule_shape Gre_ALT (drop s rule)" unfolding mem by auto
    then have "follows_ok Gre_ALT (ge_type (rule ! s))"
      using len by (simp flip: Cons_nth_drop_Suc)
    with len show ?thesis by (auto simp: follows_ok_def is_modifier_def)
  qed
  ultimately show thesis using st that by blast
qed

lemma wf_rules_ref:
  assumes "wf_rules rules" "elem_at rules p = Some e" "ge_type e = Gre_RULE_REF"
  shows "unat (ge_value e) < length rules" "rule_shape Gre_ALT (rules ! unat (ge_value e))"
proof -
  have "rules ! fst p \<in> set rules" "e \<in> set (rules ! fst p)"
    using assms(2) by (auto simp: elem_at_Some_iff)
  with assms(1,3) show "unat (ge_value e) < length rules"
    by (auto simp: wf_rules_def rule_refs_valid_def)
  with assms(1) show "rule_shape Gre_ALT (rules ! unat (ge_value e))"
    by (simp add: wf_rules_def)
qed

lemma stack_top:
  assumes "stack_ok rules st" "st \<noteq> []"
  obtains e where "elem_at rules (last st) = Some e" "starts_symbol e"
    "stack_syms rules st = syms_of (suffix_at rules (last st)) @ stack_syms rules (butlast st)"
proof -
  have "stack_syms rules (butlast st @ [last st]) =
      syms_of (suffix_at rules (last st)) @ stack_syms rules (butlast st)"
    by (rule stack_syms_snoc)
  with assms that show thesis by (fastforce simp: ptr_ok_def)
qed

lemma stack_ok_butlast: "stack_ok rules st \<Longrightarrow> stack_ok rules (butlast st)"
  by (auto dest: in_set_butlastD)

lemma expand_ref_ok:
  assumes "wf_rules rules" "stack_ok rules st" "st \<noteq> []"
    and "elem_at rules (last st) = Some e" "ge_type e = Gre_RULE_REF"
  obtains nexts rest where "expand_ref rules st (last st) (unat (ge_value e)) = Some nexts"
    "\<forall>x \<in> set nexts. stack_ok rules x"
    "stack_syms rules st = Ref (unat (ge_value e)) # rest"
    "stack_syms rules ` set nexts = (\<lambda>a. a @ rest) ` alt_syms (rules ! unat (ge_value e))"
proof -
  let ?n = "unat (ge_value e)"
  let ?rest = "syms_of (suffix_at rules (ptr_next (last st))) @ stack_syms rules (butlast st)"
  note n = wf_rules_ref [OF assms(1,4,5)]
  obtain starts where starts: "alt_starts 0 0 (rules ! ?n) = Some starts"
    and alts: "alt_syms (rules ! ?n) = (\<lambda>s. syms_of (drop s (rules ! ?n))) ` set starts"
    and ok: "\<And>s. s \<in> set starts \<Longrightarrow> s < length (rules ! ?n) \<and> \<not> is_modifier (rules ! ?n ! s)"
    by (rule alt_syms_starts [OF n(2)]) blast
  obtain e' where e': "elem_at rules (ptr_next (last st)) = Some e'" "follows_ok (ge_type e) (ge_type e')"
    using wf_next [OF assms(1,4)] assms(5) by auto
  with assms(5) have "\<not> is_modifier e'" by (auto simp: follows_ok_def is_modifier_def)
  then obtain st1 where st1: "push_ptr rules (ptr_next (last st)) (butlast st) = Some st1"
    "stack_syms rules st1 = ?rest" "stack_ok rules st1"
    using push_ptr_ok [OF e'(1)] stack_ok_butlast [OF assms(2)] by metis
  let ?f = "\<lambda>subpos todo. do {
       next_stack \<leftarrow> push_ptr rules (ptr_next (last st)) (butlast st);
       next_stack \<leftarrow> push_ptr rules (?n, subpos) next_stack;
       Some (todo @ [next_stack]) }"
  let ?I = "\<lambda>pre todo. (\<forall>x \<in> set todo. stack_ok rules x) \<and>
      stack_syms rules ` set todo = (\<lambda>s. syms_of (drop s (rules ! ?n)) @ ?rest) ` set pre"
  have "\<exists>nexts. ofold ?f starts [] = Some nexts \<and> ?I starts nexts"
  proof (rule ofold_list_inv)
    fix pre s post todo
    assume s: "starts = pre @ s # post" and I: "?I pre todo"
    then have "elem_at rules (?n, s) = Some (rules ! ?n ! s)" "\<not> is_modifier (rules ! ?n ! s)"
      using ok [of s] n(1) by (auto simp: elem_at_Some_iff)
    then obtain st2 where "push_ptr rules (?n, s) st1 = Some st2"
      "stack_syms rules st2 = syms_of (drop s (rules ! ?n)) @ ?rest" "stack_ok rules st2"
      using push_ptr_ok [of rules "(?n, s)" _ st1] st1 by (metis fst_conv snd_conv)
    with st1 I show "\<exists>todo'. ?f s todo = Some todo' \<and> ?I (pre @ [s]) todo'" by auto
  qed simp
  then obtain nexts where nexts: "ofold ?f starts [] = Some nexts" "?I starts nexts" by blast
  show thesis
  proof (rule that)
    show "expand_ref rules st (last st) ?n = Some nexts"
      using n(1) starts nexts(1) by (simp add: expand_ref_def)
    show "stack_syms rules st = Ref ?n # ?rest"
      using stack_top [OF assms(2,3)] elem_at_suffix [OF assms(4)] assms(5) by auto
    show "stack_syms rules ` set nexts = (\<lambda>a. a @ ?rest) ` alt_syms (rules ! ?n)"
      using nexts(2) by (simp add: alts image_image)
  qed (use nexts(2) in blast)
qed

end
