(* ===== verification/GrammarAdvance.thy ===== *)
theory GrammarAdvance
  imports GrammarLang
begin

section \<open>Advancing a stack\<close>

text \<open>
  What \<open>llama_grammar_advance_stack\<close> computes and when it returns. The loop is an exploration of
  the stacks reached by resolving the reference on top; it returns exactly the settled ones. It
  need not return: it does for every stack when no rule reaches itself at its left end, where the
  symbols skipped at the left end are all those that derive the empty text.
\<close>

subsection \<open>Resolving references, as a relation on stacks\<close>

inductive expands :: "gr_rules \<Rightarrow> gr_stack \<Rightarrow> gr_stack \<Rightarrow> bool" for rules where
  "st \<noteq> [] \<Longrightarrow> elem_at rules (last st) = Some e \<Longrightarrow> ge_type e = Gre_RULE_REF \<Longrightarrow>
   expand_ref rules st (last st) (unat (ge_value e)) = Some nexts \<Longrightarrow> st' \<in> set nexts \<Longrightarrow>
   expands rules st st'"

definition settled :: "gr_rules \<Rightarrow> gr_stack \<Rightarrow> bool" where
  "settled rules st \<longleftrightarrow>
     st = [] \<or> (\<exists>e. elem_at rules (last st) = Some e \<and> is_stack_terminal (ge_type e))"

inductive_simps expands_Nil [simp]: "expands rules [] st'"

lemma set_add_stack [simp]: "set (add_stack st stacks) = insert st (set stacks)"
  by (auto simp: add_stack_def)

lemma distinct_add_stack: "distinct stacks \<Longrightarrow> distinct (add_stack st stacks)"
  by (auto simp: add_stack_def)

lemma settled_no_expands: "settled rules st \<Longrightarrow> \<not> expands rules st st'"
  by (auto simp: settled_def is_stack_terminal_def elim!: expands.cases)

text \<open>One round: the stack on top is dropped, settled, or replaced by its successors.\<close>

lemma advance_step_cases:
  assumes "advance_step rules (st # todo, seen, new_stacks) = Some s'"
  obtains (seen) "st \<in> set seen" "s' = (todo, seen, new_stacks)"
  | (settled) "st \<notin> set seen" "settled rules st" "s' = (todo, st # seen, add_stack st new_stacks)"
  | (expand) nexts where "st \<notin> set seen" "\<not> settled rules st"
      "s' = (rev nexts @ todo, st # seen, new_stacks)" "\<And>x. expands rules st x \<longleftrightarrow> x \<in> set nexts"
proof -
  consider "st \<in> set seen" | "st \<notin> set seen" "st = []" | "st \<notin> set seen" "st \<noteq> []" by blast
  then show thesis
  proof cases
    case 3
    with assms obtain e where e: "elem_at rules (last st) = Some e"
      by (auto simp: bind_eq_Some_conv)
    show thesis
    proof (cases "ge_type e = Gre_RULE_REF")
      case True
      with 3 e assms obtain nexts
        where n: "expand_ref rules st (last st) (unat (ge_value e)) = Some nexts"
          "s' = (rev nexts @ todo, st # seen, new_stacks)"
        by (auto simp: bind_eq_Some_conv)
      show thesis
      proof (rule expand)
        show "\<not> settled rules st"
          using 3 e True by (auto simp: settled_def is_stack_terminal_def)
        show "expands rules st x \<longleftrightarrow> x \<in> set nexts" for x
          using 3 e True n by (auto simp: expands.simps)
      qed (use 3 n in blast)+
    next
      case False
      with 3 e assms show thesis
        by (intro settled) (auto simp: settled_def split: if_splits)
    qed
  qed (use assms that in \<open>auto simp: settled_def\<close>)
qed

subsection \<open>The loop explores exactly what can be reached\<close>

definition advance_inv ::
  "gr_rules \<Rightarrow> gr_stack \<Rightarrow> gr_stack list \<Rightarrow> advance_state \<Rightarrow> bool" where
  "advance_inv rules st0 new0 s \<longleftrightarrow> (case s of (todo, seen, new_stacks) \<Rightarrow>
     st0 \<in> set todo \<union> set seen \<and>
     (\<forall>x \<in> set todo \<union> set seen. (expands rules)\<^sup>*\<^sup>* st0 x) \<and>
     (\<forall>x \<in> set seen. \<forall>y. expands rules x y \<longrightarrow> y \<in> set todo \<union> set seen) \<and>
     set new_stacks = set new0 \<union> {x \<in> set seen. settled rules x} \<and>
     (distinct new0 \<longrightarrow> distinct new_stacks))"

lemma advance_inv_step:
  assumes "advance_inv rules st0 new0 (st # todo, seen, new_stacks)"
    and "advance_step rules (st # todo, seen, new_stacks) = Some s'"
  shows "advance_inv rules st0 new0 s'"
  using assms(2)
proof (cases rule: advance_step_cases)
  case seen
  with assms(1) show ?thesis by (auto simp: advance_inv_def)
next
  case settled
  with assms(1) show ?thesis
    by (auto simp: advance_inv_def distinct_add_stack dest: settled_no_expands)
next
  case (expand nexts)
  have "(expands rules)\<^sup>*\<^sup>* st0 x" if "x \<in> set nexts" for x
    using assms(1) expand(4) that by (auto simp: advance_inv_def intro: rtranclp.rtrancl_into_rtrancl)
  with assms(1) expand show ?thesis by (auto simp: advance_inv_def)
qed

lemma advance_loop_inv:
  assumes "advance_loop rules s = Some res" "advance_inv rules st0 new0 s"
  shows "\<exists>seen. advance_inv rules st0 new0 ([], seen, res)"
proof -
  have "advance_inv rules st0 new0 s \<longrightarrow> (\<exists>seen. advance_inv rules st0 new0 ([], seen, res))"
  proof (rule advance_loop.raw_induct [where P = "\<lambda>rules s res. advance_inv rules st0 new0 s \<longrightarrow>
        (\<exists>seen. advance_inv rules st0 new0 ([], seen, res))", OF _ assms(1)])
    fix loop and rules :: gr_rules and s res
    assume IH: "\<And>rules s res. loop rules s = Some res \<Longrightarrow>
        advance_inv rules st0 new0 s \<longrightarrow> (\<exists>seen. advance_inv rules st0 new0 ([], seen, res))"
      and body: "(case s of (todo, seen, new_stacks) \<Rightarrow>
        if todo = [] then Some new_stacks
        else do { st \<leftarrow> advance_step rules s; loop rules st }) = Some res"
    show "advance_inv rules st0 new0 s \<longrightarrow> (\<exists>seen. advance_inv rules st0 new0 ([], seen, res))"
    proof
      assume inv: "advance_inv rules st0 new0 s"
      obtain todo seen new_stacks where s: "s = (todo, seen, new_stacks)" by (cases s)
      show "\<exists>seen. advance_inv rules st0 new0 ([], seen, res)"
      proof (cases todo)
        case Nil
        with body inv s show ?thesis by auto
      next
        case (Cons st todo')
        with body s obtain s' where s': "advance_step rules s = Some s'" "loop rules s' = Some res"
          by (auto simp: bind_eq_Some_conv simp del: advance_step.simps)
        have "advance_inv rules st0 new0 s'"
          using inv s'(1) unfolding s Cons by (rule advance_inv_step)
        with IH [OF s'(2)] show ?thesis by blast
      qed
    qed
  qed
  with assms(2) show ?thesis by blast
qed

lemma advance_stack_exact:
  assumes "advance_stack rules st new_stacks = Some res"
  shows "set res = set new_stacks \<union> {x. (expands rules)\<^sup>*\<^sup>* st x \<and> settled rules x}"
    and "distinct new_stacks \<Longrightarrow> distinct res"
proof -
  have "advance_inv rules st new_stacks ([st], [], new_stacks)"
    by (simp add: advance_inv_def)
  from advance_loop_inv [OF assms [unfolded advance_stack_def] this] obtain seen
    where inv: "advance_inv rules st new_stacks ([], seen, res)" by blast
  have st: "st \<in> set seen" and closed: "\<And>x y. x \<in> set seen \<Longrightarrow> expands rules x y \<Longrightarrow> y \<in> set seen"
    and sound: "\<And>x. x \<in> set seen \<Longrightarrow> (expands rules)\<^sup>*\<^sup>* st x"
    and res: "set res = set new_stacks \<union> {x \<in> set seen. settled rules x}"
    using inv by (simp_all add: advance_inv_def)
  have "x \<in> set seen" if "(expands rules)\<^sup>*\<^sup>* st x" for x
    using that by induction (use st closed in blast)+
  with sound have "set seen = {x. (expands rules)\<^sup>*\<^sup>* st x}" by blast
  then show "set res = set new_stacks \<union> {x. (expands rules)\<^sup>*\<^sup>* st x \<and> settled rules x}"
    unfolding res by simp
  from inv show "distinct new_stacks \<Longrightarrow> distinct res" by (simp add: advance_inv_def)
qed

subsection \<open>The loop returns on stacks that cannot be expanded forever\<close>

lemma advance_loop_Nil [simp]: "advance_loop rules ([], seen, new_stacks) = Some new_stacks"
  by (subst advance_loop.simps) simp

lemma advance_loop_Cons:
  "advance_loop rules (st # todo, seen, new_stacks) =
     Option.bind (advance_step rules (st # todo, seen, new_stacks)) (advance_loop rules)"
  by (subst advance_loop.simps) (simp del: advance_step.simps)

lemma expands_ok:
  assumes "wf_rules rules" "stack_ok rules st" "expands rules st st'"
  shows "stack_ok rules st'"
  using assms(3)
proof cases
  case (1 e nexts)
  obtain nexts' where "expand_ref rules st (last st) (unat (ge_value e)) = Some nexts'"
    "\<forall>x \<in> set nexts'. stack_ok rules x"
    by (rule expand_ref_ok [OF assms(1,2) 1(1,2,3)]) (rule that)
  with 1(4,5) show ?thesis by simp
qed

lemma starts_symbol_cases:
  "starts_symbol e \<Longrightarrow> ge_type e = Gre_RULE_REF \<or> is_stack_terminal (ge_type e)"
  by (cases "ge_type e")
    (simp_all add: starts_symbol_def is_end_of_sequence_def is_modifier_def is_stack_terminal_def)

lemma stack_top_kinds:
  assumes "stack_ok rules st" "st \<noteq> []" "elem_at rules (last st) = Some e"
  shows "ge_type e = Gre_RULE_REF \<or> is_stack_terminal (ge_type e)"
proof -
  have "ptr_ok rules (last st)" using assms(1,2) by simp
  with assms(3) show ?thesis by (simp add: ptr_ok_def starts_symbol_cases)
qed

lemma advance_step_defined:
  assumes "wf_rules rules" "stack_ok rules st"
  shows "\<exists>s'. advance_step rules (st # todo, seen, new_stacks) = Some s'"
proof (cases "st = []")
  case False
  then obtain e where e: "elem_at rules (last st) = Some e"
    using stack_top [OF assms(2)] by blast
  from stack_top_kinds [OF assms(2) False e] show ?thesis
  proof
    assume r: "ge_type e = Gre_RULE_REF"
    obtain nexts where "expand_ref rules st (last st) (unat (ge_value e)) = Some nexts"
      by (rule expand_ref_ok [OF assms False e r]) (rule that)
    with e r False show ?thesis by simp
  next
    assume "is_stack_terminal (ge_type e)"
    then have "ge_type e \<noteq> Gre_RULE_REF" by (auto simp: is_stack_terminal_def)
    with \<open>is_stack_terminal (ge_type e)\<close> e show ?thesis by simp
  qed
qed simp

lemma advance_loop_total:
  assumes "wf_rules rules" "Wellfounded.accp (\<lambda>y x. expands rules x y) st" "stack_ok rules st"
    and "\<And>seen new_stacks. \<exists>res. advance_loop rules (todo, seen, new_stacks) = Some res"
  shows "\<exists>res. advance_loop rules (st # todo, seen, new_stacks) = Some res"
  using assms(2-)
proof (induction arbitrary: todo seen new_stacks rule: accp.induct)
  case (accI st)
  from advance_step_defined [OF assms(1) accI.prems(1)] obtain s'
    where s': "advance_step rules (st # todo, seen, new_stacks) = Some s'" by blast
  then show ?case
  proof (cases rule: advance_step_cases)
    case (expand nexts)
    have "\<exists>res. advance_loop rules (xs @ todo, seen', new') = Some res"
      if "set xs \<subseteq> set nexts" for xs seen' new'
      using that
    proof (induction xs arbitrary: seen' new')
      case (Cons x xs)
      then have x: "expands rules st x" using expand(4) by simp
      with Cons accI.IH [OF x expands_ok [OF assms(1) accI.prems(1) x]] show ?case by simp
    qed (use accI.prems(2) in simp)
    with s' expand(3) show ?thesis by (simp add: advance_loop_Cons del: advance_step.simps)
  qed (use s' accI.prems(2) in \<open>simp_all add: advance_loop_Cons del: advance_step.simps\<close>)
qed

lemma advance_stack_total:
  assumes "wf_rules rules" "Wellfounded.accp (\<lambda>y x. expands rules x y) st" "stack_ok rules st"
  shows "\<exists>res. advance_stack rules st new_stacks = Some res"
  unfolding advance_stack_def by (rule advance_loop_total [OF assms]) simp

subsection \<open>Stacks as sentential forms\<close>

inductive sym_expands :: "gr_rules \<Rightarrow> gr_sym list \<Rightarrow> gr_sym list \<Rightarrow> bool" for rules where
  "n < length rules \<Longrightarrow> a \<in> alt_syms (rules ! n) \<Longrightarrow> sym_expands rules (Ref n # ss) (a @ ss)"

inductive_cases sym_expandsE: "sym_expands rules ss ts"

lemma expands_syms:
  assumes "wf_rules rules" "stack_ok rules st" "expands rules st st'"
  shows "sym_expands rules (stack_syms rules st) (stack_syms rules st')"
  using assms(3)
proof cases
  case (1 e nexts)
  obtain rest nexts' where
    n': "expand_ref rules st (last st) (unat (ge_value e)) = Some nexts'"
    and st: "stack_syms rules st = Ref (unat (ge_value e)) # rest"
    and im: "stack_syms rules ` set nexts' = (\<lambda>a. a @ rest) ` alt_syms (rules ! unat (ge_value e))"
    by (rule expand_ref_ok [OF assms(1,2) 1(1,2,3)]) (rule that)
  have "stack_syms rules st' \<in> stack_syms rules ` set nexts'"
    using 1(4,5) n' by simp
  then obtain a where "a \<in> alt_syms (rules ! unat (ge_value e))" "stack_syms rules st' = a @ rest"
    unfolding im by blast
  with st wf_rules_ref(1) [OF assms(1) 1(2,3)] show ?thesis by (simp add: sym_expands.intros)
qed

lemma expands_lifts:
  assumes "wf_rules rules" "stack_ok rules st" "sym_expands rules (stack_syms rules st) ts"
  shows "\<exists>st'. expands rules st st' \<and> stack_syms rules st' = ts"
proof -
  from assms(3) obtain n a ss where n: "stack_syms rules st = Ref n # ss" "a \<in> alt_syms (rules ! n)"
    "ts = a @ ss" by (auto elim: sym_expandsE)
  then have ne: "st \<noteq> []" by auto
  obtain e where e: "elem_at rules (last st) = Some e" "starts_symbol e"
    and syms: "stack_syms rules st = syms_of (suffix_at rules (last st)) @ stack_syms rules (butlast st)"
    by (rule stack_top [OF assms(2) ne])
  have r: "ge_type e = Gre_RULE_REF" "unat (ge_value e) = n"
    using syms n(1) e elem_at_suffix [OF e(1)]
    by (auto simp: starts_symbol_def is_end_of_sequence_def is_modifier_def split: gretype.splits)
  obtain nexts rest where x:
    "expand_ref rules st (last st) (unat (ge_value e)) = Some nexts"
    "stack_syms rules st = Ref (unat (ge_value e)) # rest"
    "stack_syms rules ` set nexts = (\<lambda>a. a @ rest) ` alt_syms (rules ! unat (ge_value e))"
    by (rule expand_ref_ok [OF assms(1,2) ne e(1) r(1)]) (rule that)
  from n(1) x(2) have "rest = ss" by simp
  with n x(3) r(2) have "ts \<in> stack_syms rules ` set nexts" by simp
  then obtain st' where "st' \<in> set nexts" "stack_syms rules st' = ts" by blast
  with expands.intros [OF ne e(1) r(1) x(1)] show ?thesis by blast
qed

lemma accp_stack_syms:
  assumes "wf_rules rules" "Wellfounded.accp (\<lambda>y x. sym_expands rules x y) (stack_syms rules st)"
    "stack_ok rules st"
  shows "Wellfounded.accp (\<lambda>y x. expands rules x y) st"
  using assms(2,3)
proof (induction "stack_syms rules st" arbitrary: st rule: accp.induct)
  case (accI st)
  show ?case
  proof (rule accp.accI)
    fix st' assume x: "expands rules st st'"
    show "Wellfounded.accp (\<lambda>y x. expands rules x y) st'"
      by (rule accI.hyps(2) [OF expands_syms [OF assms(1) accI.prems x]
            expands_ok [OF assms(1) accI.prems x]])
  qed
qed

subsection \<open>Settled stacks carry the language\<close>

lemma settled_syms:
  assumes "stack_ok rules st"
  shows "settled rules st \<longleftrightarrow> (\<nexists>n ss. stack_syms rules st = Ref n # ss)"
proof (cases "st = []")
  case False
  then obtain e where e: "elem_at rules (last st) = Some e" "starts_symbol e"
    and syms: "stack_syms rules st = syms_of (suffix_at rules (last st)) @ stack_syms rules (butlast st)"
    using stack_top [OF assms] by blast
  then show ?thesis
    using False elem_at_suffix [OF e(1)]
    by (auto simp: settled_def is_stack_terminal_def starts_symbol_def is_end_of_sequence_def
        is_modifier_def split: gretype.splits)
qed (simp add: settled_def)

lemma derives_settled:
  assumes "wf_rules rules" "derives rules ss w" "ss = stack_syms rules st" "stack_ok rules st"
  shows "\<exists>st'. (expands rules)\<^sup>*\<^sup>* st st' \<and> settled rules st' \<and> derives rules (stack_syms rules st') w"
  using assms(2-)
proof (induction arbitrary: st rule: derives.induct)
  case (derives_Ref n a ss w)
  from expands_lifts [OF assms(1) derives_Ref.prems(2), of "a @ ss"] derives_Ref
  obtain st1 where st1: "expands rules st st1" "stack_syms rules st1 = a @ ss"
    by (metis sym_expands.intros)
  from derives_Ref.IH [OF st1(2) [symmetric] expands_ok [OF assms(1) derives_Ref.prems(2) st1(1)]]
  show ?case using st1(1) by (metis converse_rtranclp_into_rtranclp)
next
  case (derives_Chars c S ss w)
  then have "settled rules st" "derives rules (stack_syms rules st) (c # w)"
    by (auto simp: settled_syms simp flip: derives_Chars.prems(1) intro: derives.intros)
  then show ?case by blast
next
  case derives_Nil
  then have "settled rules st" "derives rules (stack_syms rules st) []"
    by (auto simp: settled_syms simp flip: derives_Nil.prems(1))
  then show ?case by blast
qed

lemma expands_star_ok:
  assumes "(expands rules)\<^sup>*\<^sup>* st st'" "wf_rules rules" "stack_ok rules st"
  shows "stack_ok rules st'"
  using assms by induction (auto dest: expands_ok)

lemma expands_star_derives:
  assumes "(expands rules)\<^sup>*\<^sup>* st st'" "wf_rules rules" "stack_ok rules st"
    and "derives rules (stack_syms rules st') w"
  shows "derives rules (stack_syms rules st) w"
  using assms
proof (induction rule: converse_rtranclp_induct)
  case (step x y)
  from step.IH [OF step.prems(1) expands_ok [OF step.prems(1,2) step.hyps(1)] step.prems(3)]
    expands_syms [OF step.prems(1,2) step.hyps(1)]
  show ?case by (auto elim!: sym_expandsE intro: derives.intros)
qed

definition live :: "gr_rules \<Rightarrow> gr_stack list \<Rightarrow> u32 list \<Rightarrow> bool" where
  "live rules stacks w \<longleftrightarrow> (\<exists>st \<in> set stacks. derives rules (stack_syms rules st) w)"

definition stacks_ok :: "gr_rules \<Rightarrow> gr_stack list \<Rightarrow> bool" where
  "stacks_ok rules stacks \<longleftrightarrow>
     distinct stacks \<and> (\<forall>st \<in> set stacks. stack_ok rules st \<and> settled rules st)"

lemma stacks_ok_Nil [simp]: "stacks_ok rules []"
  by (simp add: stacks_ok_def)

lemma live_Nil [simp]: "\<not> live rules [] w"
  by (simp add: live_def)

lemma advance_stack_live:
  assumes "wf_rules rules" "stack_ok rules st" "advance_stack rules st new_stacks = Some res"
  shows "live rules res w \<longleftrightarrow> live rules new_stacks w \<or> derives rules (stack_syms rules st) w"
    and "stacks_ok rules new_stacks \<Longrightarrow> stacks_ok rules res"
proof -
  note ex = advance_stack_exact [OF assms(3)]
  show "live rules res w \<longleftrightarrow> live rules new_stacks w \<or> derives rules (stack_syms rules st) w"
  proof
    assume "live rules res w"
    then show "live rules new_stacks w \<or> derives rules (stack_syms rules st) w"
      using expands_star_derives [OF _ assms(1,2)] unfolding live_def ex(1) by blast
  next
    assume "live rules new_stacks w \<or> derives rules (stack_syms rules st) w"
    then show "live rules res w"
      using derives_settled [OF assms(1) _ refl assms(2)] unfolding live_def ex(1) by blast
  qed
  show "stacks_ok rules res" if "stacks_ok rules new_stacks"
    using that ex(2) expands_star_ok [OF _ assms(1,2)] unfolding stacks_ok_def ex(1) by blast
qed

subsection \<open>When no rule is left recursive, every stack can be advanced\<close>

text \<open>
  \<open>left_ref\<close> is the relation the detection follows: the references reached at the left end of an
  alternate by skipping rules that have an empty alternate.
\<close>

definition may_be_empty :: "gr_rules \<Rightarrow> nat \<Rightarrow> bool" where
  "may_be_empty rules n \<longleftrightarrow> [] \<in> alt_syms (rules ! n)"

definition left_ref :: "gr_rules \<Rightarrow> nat \<Rightarrow> nat \<Rightarrow> bool" where
  "left_ref rules n m \<longleftrightarrow> (\<exists>pre post. map Ref pre @ Ref m # post \<in> alt_syms (rules ! n) \<and>
     (\<forall>k \<in> set pre. may_be_empty rules k))"

definition no_left_recursion :: "gr_rules \<Rightarrow> bool" where
  "no_left_recursion rules \<longleftrightarrow>
     (\<forall>n < length rules. Wellfounded.accp (\<lambda>m n. left_ref rules n m) n)"

text \<open>Every rule that derives the empty text says so: it has an empty alternate.\<close>

definition empty_is_direct :: "gr_rules \<Rightarrow> bool" where
  "empty_is_direct rules \<longleftrightarrow>
     (\<forall>n < length rules. derives rules [Ref n] [] \<longrightarrow> may_be_empty rules n)"

abbreviation expandable :: "gr_rules \<Rightarrow> gr_sym list \<Rightarrow> bool" where
  "expandable rules \<equiv> Wellfounded.accp (\<lambda>y x. sym_expands rules x y)"

lemma derives_Refs_Nil:
  "\<forall>k \<in> set ks. k < length rules \<and> may_be_empty rules k \<Longrightarrow> derives rules (map Ref ks) []"
  by (induction ks) (auto simp: may_be_empty_def intro!: derives_Ref [where a = "[]"])

lemma expandable_settled:
  "(\<nexists>n rest. ss = Ref n # rest \<and> n < length rules) \<Longrightarrow> expandable rules ss"
  by (rule accp.accI) (auto elim: sym_expandsE)

lemma expandable_Ref:
  assumes "empty_is_direct rules" "Wellfounded.accp (\<lambda>m n. left_ref rules n m) n" "n < length rules"
    and "derives rules [Ref n] [] \<Longrightarrow> expandable rules ss"
  shows "expandable rules (Ref n # ss)"
  using assms(2-)
proof (induction arbitrary: ss rule: accp.induct)
  case (accI n)
  have main: "expandable rules (post @ ss)"
    if "map Ref pre @ post \<in> alt_syms (rules ! n)" "\<forall>k \<in> set pre. k < length rules \<and> may_be_empty rules k"
    for pre post
    using that
  proof (induction post arbitrary: pre)
    case Nil
    then have "derives rules [Ref n] []"
      using derives_Refs_Nil [of pre rules] accI.prems(1) by (auto intro!: derives_Ref)
    then show ?case using accI.prems(2) by simp
  next
    case (Cons s post)
    show ?case
    proof (cases "\<exists>m < length rules. s = Ref m")
      case True
      then obtain m where m: "s = Ref m" "m < length rules" by blast
      have "left_ref rules n m"
        using Cons.prems m unfolding left_ref_def by blast
      moreover have "expandable rules (post @ ss)" if "derives rules [Ref m] []"
      proof -
        have "may_be_empty rules m"
          using that m assms(1) by (simp add: empty_is_direct_def)
        then show ?thesis
          using Cons.IH [of "pre @ [m]"] Cons.prems m by simp
      qed
      ultimately show ?thesis using accI.IH [of m "post @ ss"] m by simp
    next
      case False
      then show ?thesis by (intro expandable_settled) auto
    qed
  qed
  show ?case
  proof (rule accp.accI)
    fix ts assume "sym_expands rules (Ref n # ss) ts"
    then obtain a where "a \<in> alt_syms (rules ! n)" "ts = a @ ss" by (auto elim: sym_expandsE)
    then show "expandable rules ts" using main [of "[]" a] by simp
  qed
qed

lemma expandable_all:
  assumes "empty_is_direct rules" "no_left_recursion rules"
  shows "expandable rules ss"
proof (induction ss)
  case (Cons s ss)
  show ?case
  proof (cases "\<exists>n < length rules. s = Ref n")
    case True
    with assms Cons show ?thesis by (auto simp: no_left_recursion_def intro: expandable_Ref)
  qed (auto intro: expandable_settled)
qed (auto intro: expandable_settled)

lemma advance_stack_returns:
  assumes "wf_rules rules" "empty_is_direct rules" "no_left_recursion rules" "stack_ok rules st"
  shows "\<exists>res. advance_stack rules st new_stacks = Some res"
  by (intro advance_stack_total accp_stack_syms expandable_all assms)

end
