(* ===== verification/GrammarRecursion.thy ===== *)
theory GrammarRecursion
  imports GrammarAdvance
begin

section \<open>The detection of left recursion\<close>

text \<open>
  \<open>llama_grammar_detect_left_recursion\<close> returns for every well-formed grammar, and reports a
  left recursion exactly when some rule reaches itself through \<open>left_ref\<close>: through the references
  at the left end of its alternates, skipping rules that have an empty alternate.
\<close>

subsection \<open>The references the search follows\<close>

fun left_syms :: "(nat \<Rightarrow> bool) \<Rightarrow> gr_sym list \<Rightarrow> nat set" where
  "left_syms E (Ref m # ss) = insert m (if E m then left_syms E ss else {})"
| "left_syms E _ = {}"

fun left_scan :: "(nat \<Rightarrow> bool) \<Rightarrow> bool \<Rightarrow> gr_rule \<Rightarrow> nat set" where
  "left_scan E recurse [] = {}"
| "left_scan E recurse (e # es) =
     (if ge_type e = Gre_RULE_REF \<and> recurse
      then insert (unat (ge_value e)) (left_scan E (E (unat (ge_value e))) es)
      else left_scan E (is_end_of_sequence e) es)"

lemma left_syms_iff:
  "m \<in> left_syms E ss \<longleftrightarrow> (\<exists>pre post. ss = map Ref pre @ Ref m # post \<and> (\<forall>k \<in> set pre. E k))"
proof (induction E ss rule: left_syms.induct)
  case (1 E n ss)
  show ?case
  proof
    assume "m \<in> left_syms E (Ref n # ss)"
    then consider "m = n" | "E n" "m \<in> left_syms E ss" by (auto split: if_splits)
    then show "\<exists>pre post. Ref n # ss = map Ref pre @ Ref m # post \<and> (\<forall>k \<in> set pre. E k)"
    proof cases
      case 1
      then have "Ref n # ss = map Ref [] @ Ref m # ss \<and> (\<forall>k \<in> set []. E k)" by simp
      then show ?thesis by blast
    next
      case 2
      with "1.IH" obtain pre post where "ss = map Ref pre @ Ref m # post" "\<forall>k \<in> set pre. E k" by blast
      with 2 have "Ref n # ss = map Ref (n # pre) @ Ref m # post \<and> (\<forall>k \<in> set (n # pre). E k)" by simp
      then show ?thesis by blast
    qed
  next
    assume "\<exists>pre post. Ref n # ss = map Ref pre @ Ref m # post \<and> (\<forall>k \<in> set pre. E k)"
    then obtain pre post where p: "Ref n # ss = map Ref pre @ Ref m # post" "\<forall>k \<in> set pre. E k" by blast
    then show "m \<in> left_syms E (Ref n # ss)"
      using "1.IH" by (cases pre) auto
  qed
qed (auto simp: Cons_eq_append_conv)

lemma left_scan_bound:
  "m \<in> left_scan E recurse es \<Longrightarrow>
    \<forall>e \<in> set es. ge_type e = Gre_RULE_REF \<longrightarrow> unat (ge_value e) < n \<Longrightarrow> m < n"
  by (induction E recurse es rule: left_scan.induct) (auto split: if_splits)

lemma left_ref_iff:
  "left_ref rules n m \<longleftrightarrow> (\<exists>a \<in> alt_syms (rules ! n). m \<in> left_syms (may_be_empty rules) a)"
  unfolding left_ref_def left_syms_iff by blast

text \<open>The alternates that start inside the rest of a rule.\<close>

abbreviation later_alts :: "gr_rule \<Rightarrow> gr_sym list set" where
  "later_alts es \<equiv> {syms_of (drop s es) |s. 0 < s \<and> s < length es \<and> ge_type (es ! (s - 1)) = Gre_ALT}"

lemma later_alts_Cons:
  "later_alts (e # es) =
     (if ge_type e = Gre_ALT \<and> es \<noteq> [] then {syms_of es} else {}) \<union> later_alts es"
proof (intro set_eqI iffI)
  fix x assume "x \<in> later_alts (e # es)"
  then obtain s where s: "x = syms_of (drop s (e # es))" "0 < s" "s < length (e # es)"
    "ge_type ((e # es) ! (s - 1)) = Gre_ALT" by blast
  then obtain j where j: "s = Suc j" by (cases s) auto
  show "x \<in> (if ge_type e = Gre_ALT \<and> es \<noteq> [] then {syms_of es} else {}) \<union> later_alts es"
  proof (cases j)
    case 0
    with s j show ?thesis by auto
  next
    case (Suc k)
    with s j have "x = syms_of (drop j es) \<and> 0 < j \<and> j < length es \<and> ge_type (es ! (j - 1)) = Gre_ALT"
      by simp
    then show ?thesis by blast
  qed
next
  fix x assume "x \<in> (if ge_type e = Gre_ALT \<and> es \<noteq> [] then {syms_of es} else {}) \<union> later_alts es"
  then consider "ge_type e = Gre_ALT" "es \<noteq> []" "x = syms_of es"
    | s where "x = syms_of (drop s es)" "0 < s" "s < length es" "ge_type (es ! (s - 1)) = Gre_ALT"
    by (auto split: if_splits)
  then show "x \<in> later_alts (e # es)"
  proof cases
    case 1
    then have "x = syms_of (drop 1 (e # es)) \<and> 0 < (1 :: nat) \<and> 1 < length (e # es) \<and>
        ge_type ((e # es) ! (1 - 1)) = Gre_ALT" by simp
    then show ?thesis by blast
  next
    case 2
    then have "x = syms_of (drop (Suc s) (e # es)) \<and> 0 < Suc s \<and> Suc s < length (e # es) \<and>
        ge_type ((e # es) ! (Suc s - 1)) = Gre_ALT" by (simp add: nth_Cons')
    then show ?thesis by blast
  qed
qed

lemma left_scan_spec:
  "rule_shape t es \<Longrightarrow>
    left_scan E recurse es =
      (if recurse \<and> \<not> is_modifier (hd es) then left_syms E (syms_of es) else {}) \<union>
      \<Union> (left_syms E ` later_alts es)"
proof (induction es arbitrary: t recurse)
  case (Cons e es)
  show ?case
  proof (cases "ge_type e = Gre_END")
    case True
    with Cons.prems show ?thesis
      unfolding later_alts_Cons by (simp add: is_end_of_sequence_def)
  next
    case False
    with Cons.prems have sh: "rule_shape (ge_type e) es" by simp
    note IH = Cons.IH [OF sh] and ne = rule_shape_nonempty [OF sh]
    from sh ne have fol: "follows_ok (ge_type e) (ge_type (hd es))" by (cases es) auto
    define L where "L = \<Union> (left_syms E ` later_alts es)"
    have IH': "left_scan E r es =
        (if r \<and> \<not> is_modifier (hd es) then left_syms E (syms_of es) else {}) \<union> L" for r
      unfolding L_def by (rule IH)
    have "\<Union> (left_syms E ` later_alts (e # es)) =
        (if ge_type e = Gre_ALT then left_syms E (syms_of es) else {}) \<union> L"
      unfolding later_alts_Cons L_def using ne by simp
    then show ?thesis
      using False fol by (cases "ge_type e")
        (simp_all add: IH' is_end_of_sequence_def is_modifier_def follows_ok_def)
  qed
qed simp

lemma alt_syms_later: "alt_syms rule = insert (syms_of rule) (later_alts rule)"
proof (intro set_eqI iffI)
  fix x assume "x \<in> alt_syms rule"
  then obtain s where "x = syms_of (drop s rule)"
    "s = 0 \<or> 0 < s \<and> s < length rule \<and> ge_type (rule ! (s - 1)) = Gre_ALT"
    unfolding alt_syms_def by blast
  then show "x \<in> insert (syms_of rule) (later_alts rule)" by (cases "s = 0") auto
next
  fix x assume "x \<in> insert (syms_of rule) (later_alts rule)"
  then consider "x = syms_of (drop 0 rule)" | "x \<in> later_alts rule" by auto
  then show "x \<in> alt_syms rule" unfolding alt_syms_def by cases blast+
qed

lemma left_scan_rule:
  assumes "rule_shape Gre_ALT (rules ! n)"
  shows "left_scan (may_be_empty rules) True (rules ! n) = {m. left_ref rules n m}"
proof -
  have "\<not> is_modifier (hd (rules ! n))"
    using assms by (cases "rules ! n") (auto simp: follows_ok_def is_modifier_def)
  then have "left_scan (may_be_empty rules) True (rules ! n) =
      left_syms (may_be_empty rules) (syms_of (rules ! n)) \<union>
      \<Union> (left_syms (may_be_empty rules) ` later_alts (rules ! n))"
    unfolding left_scan_spec [OF assms] by (simp only: simp_thms if_True)
  then show ?thesis
    unfolding left_ref_iff alt_syms_later by blast
qed

lemma syms_of_empty:
  "es \<noteq> [] \<Longrightarrow> \<not> is_modifier (hd es) \<Longrightarrow> syms_of es = [] \<longleftrightarrow> is_end_of_sequence (hd es)"
  by (cases es; cases "ge_type (hd es)") (simp_all add: is_modifier_def is_end_of_sequence_def)

lemma has_empty_alt_spec:
  "rule_shape t es \<Longrightarrow>
    has_empty_alt at_start es \<longleftrightarrow>
      at_start \<and> \<not> is_modifier (hd es) \<and> syms_of es = [] \<or> [] \<in> later_alts es"
proof (induction es arbitrary: t at_start)
  case (Cons e es)
  show ?case
  proof (cases "ge_type e = Gre_END")
    case True
    with Cons.prems show ?thesis
      unfolding later_alts_Cons by (simp add: is_end_of_sequence_def is_modifier_def)
  next
    case False
    with Cons.prems have sh: "rule_shape (ge_type e) es" by simp
    note IH = Cons.IH [OF sh] and ne = rule_shape_nonempty [OF sh]
    from sh ne have fol: "follows_ok (ge_type e) (ge_type (hd es))" by (cases es) auto
    define L where "L \<longleftrightarrow> [] \<in> later_alts es"
    have IH': "has_empty_alt r es \<longleftrightarrow> r \<and> \<not> is_modifier (hd es) \<and> syms_of es = [] \<or> L" for r
      unfolding L_def by (rule IH)
    have "[] \<in> later_alts (e # es) \<longleftrightarrow> ge_type e = Gre_ALT \<and> syms_of es = [] \<or> L"
    proof -
      have "[] \<in> (if ge_type e = Gre_ALT \<and> es \<noteq> [] then {syms_of es} else {}) \<longleftrightarrow>
          ge_type e = Gre_ALT \<and> syms_of es = []"
        using ne by (simp add: eq_commute [of "[]"])
      then show ?thesis
        unfolding later_alts_Cons L_def by (simp only: Un_iff)
    qed
    then show ?thesis
      using False fol by (cases "ge_type e")
        (simp_all add: IH' is_end_of_sequence_def is_modifier_def follows_ok_def)
  qed
qed simp

lemma has_empty_alt_rule:
  assumes "rule_shape Gre_ALT (rules ! n)"
  shows "has_empty_alt True (rules ! n) \<longleftrightarrow> may_be_empty rules n"
proof -
  have "\<not> is_modifier (hd (rules ! n))"
    using assms by (cases "rules ! n") (auto simp: follows_ok_def is_modifier_def)
  then show ?thesis
    unfolding has_empty_alt_spec [OF assms] may_be_empty_def alt_syms_later
    by (simp only: insert_iff simp_thms eq_commute [of "[]"])
qed

subsection \<open>The search\<close>

definition lr_cycle :: "gr_rules \<Rightarrow> bool" where
  "lr_cycle rules \<longleftrightarrow> (\<exists>q < length rules. (left_ref rules)\<^sup>+\<^sup>+ q q)"

abbreviation lr_safe :: "gr_rules \<Rightarrow> nat \<Rightarrow> bool" where
  "lr_safe rules n \<equiv> Wellfounded.accp (\<lambda>m n. left_ref rules n m) n"

definition lr_inv :: "gr_rules \<Rightarrow> lr_state \<Rightarrow> bool" where
  "lr_inv rules st \<longleftrightarrow>
     length (lr_visited st) = length rules \<and> length (lr_in_progress st) = length rules \<and>
     length (lr_may_be_empty st) = length rules \<and>
     (\<forall>k < length rules. lr_may_be_empty st ! k \<longrightarrow> may_be_empty rules k) \<and>
     (\<forall>k < length rules. lr_visited st ! k \<longrightarrow> lr_safe rules k)"

text \<open>What a call on \<open>r\<close> answers.\<close>

definition lr_answer :: "gr_rules \<Rightarrow> nat \<Rightarrow> lr_state \<Rightarrow> bool \<Rightarrow> lr_state \<Rightarrow> bool" where
  "lr_answer rules r st found st' \<longleftrightarrow>
     (if found then lr_cycle rules
      else lr_inv rules st' \<and> lr_in_progress st' = lr_in_progress st \<and> lr_safe rules r \<and>
        lr_may_be_empty st' ! r = may_be_empty rules r \<and>
        (\<forall>k < length rules. lr_may_be_empty st ! k \<longrightarrow> lr_may_be_empty st' ! k))"

abbreviation detect_body ::
  "gr_rules \<Rightarrow> gr_element \<Rightarrow> bool \<times> bool \<times> lr_state \<Rightarrow> (bool \<times> bool \<times> lr_state) option" where
  "detect_body rules \<equiv> detect_elem (detect_left_recursion rules)"

lemma detect_body_found: "ofold (detect_elem f) es (True, recurse, st) = Some (True, recurse, st)"
  by (induction es) (auto simp: detect_elem_def)

lemma detect_loop:
  assumes calls: "\<And>m st. m \<in> left_scan (may_be_empty rules) recurse es \<Longrightarrow> lr_inv rules st \<Longrightarrow>
      lr_in_progress st = prog \<Longrightarrow>
      \<exists>found st'. detect_left_recursion rules m st = Some (found, st') \<and> lr_answer rules m st found st'"
    and refs: "\<forall>e \<in> set es. ge_type e = Gre_RULE_REF \<longrightarrow> unat (ge_value e) < length rules"
    and st: "lr_inv rules st" "lr_in_progress st = prog"
  shows "\<exists>found recurse' st'.
    ofold (detect_body rules) es (False, recurse, st) = Some (found, recurse', st') \<and>
    (if found then lr_cycle rules
     else lr_inv rules st' \<and> lr_in_progress st' = prog \<and>
       (\<forall>m \<in> left_scan (may_be_empty rules) recurse es. lr_safe rules m) \<and>
       (\<forall>k < length rules. lr_may_be_empty st ! k \<longrightarrow> lr_may_be_empty st' ! k))"
  using assms
proof (induction es arbitrary: recurse st)
  case (Cons e es)
  show ?case
  proof (cases "ge_type e = Gre_RULE_REF \<and> recurse")
    case True
    let ?m = "unat (ge_value e)"
    have m: "?m < length rules" using Cons.prems(2) True by simp
    from Cons.prems(1) [of ?m st] Cons.prems(3,4) True obtain found st1
      where st1: "detect_left_recursion rules ?m st = Some (found, st1)" "lr_answer rules ?m st found st1"
      by auto
    show ?thesis
    proof (cases found)
      case f: True
      have step: "detect_body rules e (False, recurse, st) = Some (True, recurse, st1)"
        using True st1(1) f by (simp add: detect_elem_def)
      show ?thesis
        using st1(2) f unfolding ofold.simps step
        by (intro exI [of _ True] exI [of _ recurse] exI [of _ st1]) (simp add: detect_body_found lr_answer_def)
    next
      case False
      with st1 have a: "lr_inv rules st1" "lr_in_progress st1 = prog" "lr_safe rules ?m"
        "lr_may_be_empty st1 ! ?m = may_be_empty rules ?m"
        "\<forall>k < length rules. lr_may_be_empty st ! k \<longrightarrow> lr_may_be_empty st1 ! k"
        using Cons.prems(4) by (auto simp: lr_answer_def)
      have step: "detect_body rules e (False, recurse, st) = Some (False, may_be_empty rules ?m, st1)"
        using True st1(1) False a m by (simp add: detect_elem_def lr_inv_def)
      have scan: "left_scan (may_be_empty rules) recurse (e # es) =
          insert ?m (left_scan (may_be_empty rules) (may_be_empty rules ?m) es)"
        using True by simp
      have "\<exists>found recurse' st'.
          ofold (detect_body rules) es (False, may_be_empty rules ?m, st1) = Some (found, recurse', st') \<and>
          (if found then lr_cycle rules
           else lr_inv rules st' \<and> lr_in_progress st' = prog \<and>
             (\<forall>m \<in> left_scan (may_be_empty rules) (may_be_empty rules ?m) es. lr_safe rules m) \<and>
             (\<forall>k < length rules. lr_may_be_empty st1 ! k \<longrightarrow> lr_may_be_empty st' ! k))"
        by (rule Cons.IH [OF Cons.prems(1) _ a(1,2)]) (use scan Cons.prems(2) in auto)
      with a(3,5) show ?thesis
        unfolding scan ofold.simps step by (auto split: if_splits)
    qed
  next
    case False
    have step: "detect_body rules e (False, recurse, st) = Some (False, is_end_of_sequence e, st)"
      using False by (auto simp: detect_elem_def)
    have scan: "left_scan (may_be_empty rules) recurse (e # es) =
        left_scan (may_be_empty rules) (is_end_of_sequence e) es"
      using False by auto
    have "\<exists>found recurse' st'.
        ofold (detect_body rules) es (False, is_end_of_sequence e, st) = Some (found, recurse', st') \<and>
        (if found then lr_cycle rules
         else lr_inv rules st' \<and> lr_in_progress st' = prog \<and>
           (\<forall>m \<in> left_scan (may_be_empty rules) (is_end_of_sequence e) es. lr_safe rules m) \<and>
           (\<forall>k < length rules. lr_may_be_empty st ! k \<longrightarrow> lr_may_be_empty st' ! k))"
      by (rule Cons.IH [OF Cons.prems(1) _ Cons.prems(3,4)]) (use scan Cons.prems(2) in auto)
    then show ?thesis
      unfolding scan ofold.simps step by simp
  qed
qed (auto intro: exI [of _ False])

text \<open>The number of rules not being searched bounds the depth of the recursion.\<close>

lemma detect_ok:
  assumes "wf_rules rules" "r < length rules" "lr_inv rules st"
    and "\<forall>q < length rules. lr_in_progress st ! q \<longrightarrow> (left_ref rules)\<^sup>+\<^sup>+ q r"
  shows "\<exists>found st'. detect_left_recursion rules r st = Some (found, st') \<and> lr_answer rules r st found st'"
  using assms(2-)
proof (induction "card {q. q < length rules \<and> \<not> lr_in_progress st ! q}" arbitrary: r st
    rule: less_induct)
  case less
  show ?case
  proof (cases "lr_in_progress st ! r")
    case True
    with less.prems have "detect_left_recursion rules r st = Some (True, st)"
      by (subst detect_left_recursion.simps) (simp add: lr_inv_def)
    moreover have "lr_cycle rules"
      using True less.prems unfolding lr_cycle_def by blast
    ultimately show ?thesis by (intro exI [of _ True]) (simp add: lr_answer_def)
  next
    case False
    have sh: "rule_shape Gre_ALT (rules ! r)"
      using assms(1) less.prems(1) by (simp add: wf_rules_def)
    note emp = has_empty_alt_rule [of rules r, OF sh]
    let ?prog = "(lr_in_progress st)[r := True]"
    let ?empt = "if may_be_empty rules r then (lr_may_be_empty st)[r := True] else lr_may_be_empty st"
    let ?st1 = "st\<lparr>lr_in_progress := ?prog, lr_may_be_empty := ?empt\<rparr>"
    have len: "length (lr_in_progress st) = length rules" "length (lr_may_be_empty st) = length rules"
      using less.prems(2) by (simp_all add: lr_inv_def)
    have inv1: "lr_inv rules ?st1"
      using less.prems(1,2) by (auto simp: lr_inv_def nth_list_update split: if_splits)
    have refs: "\<forall>e \<in> set (rules ! r). ge_type e = Gre_RULE_REF \<longrightarrow> unat (ge_value e) < length rules"
      using assms(1) nth_mem [OF less.prems(1)] unfolding wf_rules_def rule_refs_valid_def by blast
    have "\<exists>found recurse' st'.
        ofold (detect_body rules) (rules ! r) (False, True, ?st1) = Some (found, recurse', st') \<and>
        (if found then lr_cycle rules
         else lr_inv rules st' \<and> lr_in_progress st' = ?prog \<and>
           (\<forall>m \<in> left_scan (may_be_empty rules) True (rules ! r). lr_safe rules m) \<and>
           (\<forall>k < length rules. lr_may_be_empty ?st1 ! k \<longrightarrow> lr_may_be_empty st' ! k))"
    proof (rule detect_loop [OF _ refs inv1])
      fix m st2
      assume m: "m \<in> left_scan (may_be_empty rules) True (rules ! r)" and inv2: "lr_inv rules st2"
        and p2: "lr_in_progress st2 = ?prog"
      have ref: "left_ref rules r m"
        using m unfolding left_scan_rule [of rules r, OF sh] by simp
      have "{q. q < length rules \<and> \<not> lr_in_progress st2 ! q} \<subset>
          {q. q < length rules \<and> \<not> lr_in_progress st ! q}"
        using less.prems(1) False len p2 by (auto simp: nth_list_update split: if_splits)
      then have "card {q. q < length rules \<and> \<not> lr_in_progress st2 ! q} <
          card {q. q < length rules \<and> \<not> lr_in_progress st ! q}"
        by (intro psubset_card_mono) simp_all
      moreover have "(left_ref rules)\<^sup>+\<^sup>+ q m" if "q < length rules" "lr_in_progress st2 ! q" for q
      proof (cases "q = r")
        case False
        with that p2 less.prems(3) have "(left_ref rules)\<^sup>+\<^sup>+ q r" by simp
        with ref show ?thesis by (rule tranclp.trancl_into_trancl [rotated])
      qed (use ref in auto)
      ultimately show "\<exists>found st'. detect_left_recursion rules m st2 = Some (found, st') \<and>
          lr_answer rules m st2 found st'"
        by (intro less.hyps left_scan_bound [OF m refs] inv2) simp_all
    qed simp
    then obtain found recurse' st' where
      loop: "ofold (detect_body rules) (rules ! r) (False, True, ?st1) = Some (found, recurse', st')"
      and res: "if found then lr_cycle rules
         else lr_inv rules st' \<and> lr_in_progress st' = ?prog \<and>
           (\<forall>m \<in> left_scan (may_be_empty rules) True (rules ! r). lr_safe rules m) \<and>
           (\<forall>k < length rules. lr_may_be_empty ?st1 ! k \<longrightarrow> lr_may_be_empty st' ! k)"
      by blast
    let ?st2 = "st'\<lparr>lr_in_progress := (lr_in_progress st')[r := False],
      lr_visited := (lr_visited st')[r := True]\<rparr>"
    show ?thesis
    proof (cases found)
      case f: True
      have "detect_left_recursion rules r st = Some (True, st')"
        using False less.prems(1) len loop f emp
        by (subst detect_left_recursion.simps, cases "may_be_empty rules r") (simp_all add: set_at_def)
      with res f show ?thesis by (auto simp: lr_answer_def)
    next
      case nf: False
      with res have inv': "lr_inv rules st'" and p': "lr_in_progress st' = ?prog"
        and safe: "\<forall>m. left_ref rules r m \<longrightarrow> lr_safe rules m"
        and mono: "\<forall>k < length rules. lr_may_be_empty ?st1 ! k \<longrightarrow> lr_may_be_empty st' ! k"
        unfolding left_scan_rule [of rules r, OF sh] by auto
      have "detect_left_recursion rules r st = Some (False, ?st2)"
        using False less.prems(1) len loop nf emp inv'
        by (subst detect_left_recursion.simps, cases "may_be_empty rules r")
          (simp_all add: set_at_def lr_inv_def)
      moreover have "lr_answer rules r st False ?st2"
      proof -
        have s: "lr_safe rules r" using safe by (auto intro: accp.accI)
        then have "lr_inv rules ?st2"
          using inv' less.prems(1) by (auto simp: lr_inv_def nth_list_update)
        moreover have "(lr_in_progress st')[r := False] = lr_in_progress st"
        proof -
          have "(lr_in_progress st)[r := lr_in_progress st ! r] = lr_in_progress st"
            by (rule list_update_id)
          with False p' show ?thesis by simp
        qed
        moreover have "lr_may_be_empty st' ! r = may_be_empty rules r"
        proof
          assume "lr_may_be_empty st' ! r"
          with inv' less.prems(1) show "may_be_empty rules r" by (simp add: lr_inv_def)
        next
          assume "may_be_empty rules r"
          with mono less.prems(1) len show "lr_may_be_empty st' ! r" by simp
        qed
        moreover have "\<forall>k < length rules. lr_may_be_empty st ! k \<longrightarrow> lr_may_be_empty st' ! k"
          using mono less.prems(1) len by (auto simp: nth_list_update split: if_splits)
        ultimately show ?thesis using s by (simp add: lr_answer_def)
      qed
      ultimately show ?thesis by blast
    qed
  qed
qed

subsection \<open>The check over all rules\<close>

lemma accp_no_cycle: "Wellfounded.accp R x \<Longrightarrow> \<not> R\<^sup>+\<^sup>+ x x"
proof (induction rule: accp.induct)
  case (accI x)
  show ?case
  proof
    assume "R\<^sup>+\<^sup>+ x x"
    then obtain y where "R\<^sup>*\<^sup>* x y" "R y x" by (metis tranclp.cases rtranclp.rtrancl_refl tranclp_into_rtranclp)
    with accI.IH [of y] show False by (metis rtranclp_into_tranclp2)
  qed
qed

lemma lr_cycle_iff:
  assumes "no_left_recursion rules"
  shows "\<not> lr_cycle rules"
proof
  assume "lr_cycle rules"
  then obtain q where q: "q < length rules" "(left_ref rules)\<^sup>+\<^sup>+ q q"
    by (auto simp: lr_cycle_def)
  from q(2) have "(\<lambda>m n. left_ref rules n m)\<^sup>+\<^sup>+ q q"
    using tranclp_converse [of "left_ref rules"] by (simp add: conversep_iff [abs_def])
  with accp_no_cycle [of "\<lambda>m n. left_ref rules n m" q] assms q(1) show False
    by (simp add: no_left_recursion_def)
qed

lemma has_left_recursion_result:
  assumes "wf_rules rules"
  obtains found where "has_left_recursion rules = Some found" "found \<Longrightarrow> lr_cycle rules"
    "\<not> found \<Longrightarrow> no_left_recursion rules"
proof -
  let ?f = "\<lambda>i (found, st).
      if found then Some (found, st)
      else do {
        v \<leftarrow> at_idx (lr_visited st) i;
        if v then Some (found, st) else detect_left_recursion rules i st }"
  let ?none = "replicate (length rules) False"
  let ?s0 = "(False, \<lparr>lr_visited = ?none, lr_in_progress = ?none, lr_may_be_empty = ?none\<rparr>)"
  let ?I = "\<lambda>i (found, st). if found then lr_cycle rules
      else lr_inv rules st \<and> lr_in_progress st = ?none \<and> (\<forall>k < i. lr_safe rules k)"
  have "\<exists>s'. ofold ?f [0..<length rules] ?s0 = Some s' \<and> ?I (length rules) s'"
  proof (rule ofold_upt_inv [where I = ?I])
    fix i and s :: "bool \<times> lr_state"
    assume i: "i < length rules" and I: "?I i s"
    obtain found st where s: "s = (found, st)" by (cases s)
    show "\<exists>s'. ?f i s = Some s' \<and> ?I (Suc i) s'"
    proof (cases "found \<or> lr_visited st ! i")
      case True
      with I s i show ?thesis by (auto simp: lr_inv_def less_Suc_eq)
    next
      case False
      with I s have inv: "lr_inv rules st" "lr_in_progress st = ?none" "\<forall>k < i. lr_safe rules k"
        by auto
      from detect_ok [OF assms i inv(1)] inv(2) obtain found' st' where
        "detect_left_recursion rules i st = Some (found', st')" "lr_answer rules i st found' st'"
        by auto
      with False s i inv show ?thesis by (auto simp: lr_inv_def lr_answer_def less_Suc_eq)
    qed
  qed (auto simp: lr_inv_def)
  then obtain found st where "ofold ?f [0..<length rules] ?s0 = Some (found, st)"
    "?I (length rules) (found, st)" by auto
  then show thesis
    by (intro that [of found]) (auto simp: has_left_recursion_def Let_def no_left_recursion_def
        split: if_splits)
qed

lemma lr_cycle_iff_recursion:
  assumes "wf_rules rules"
  shows "lr_cycle rules \<longleftrightarrow> \<not> no_left_recursion rules"
  by (rule has_left_recursion_result [OF assms]) (use lr_cycle_iff [of rules] in blast)

lemma has_left_recursion_decides:
  assumes "wf_rules rules"
  shows "has_left_recursion rules = Some (\<not> no_left_recursion rules)"
  by (rule has_left_recursion_result [OF assms]) (use lr_cycle_iff [of rules] in auto)

end
