(* ===== verification/GrammarProps.thy ===== *)
theory GrammarProps
  imports GrammarRecursion
begin

section \<open>The grammar machine accepts the language of its grammar\<close>

text \<open>
  The properties of the run-time half of \<open>src/llama-grammar.cpp\<close>: what the stacks of a grammar
  stand for after any text, when the construction returns, and how the masking of candidates
  relates to accepting them.
\<close>

subsection \<open>Accepting one character\<close>

text \<open>Every well-formed stack can be advanced; a consequence of the check for left recursion.\<close>

definition advances :: "gr_rules \<Rightarrow> bool" where
  "advances rules \<longleftrightarrow>
     (\<forall>st new_stacks. stack_ok rules st \<longrightarrow> (\<exists>res. advance_stack rules st new_stacks = Some res))"

lemma advancesI:
  "wf_rules rules \<Longrightarrow> empty_is_direct rules \<Longrightarrow> no_left_recursion rules \<Longrightarrow> advances rules"
  unfolding advances_def using advance_stack_returns by blast

lemma advance_ok:
  assumes "wf_rules rules" "advances rules" "stack_ok rules st"
  obtains res where "advance_stack rules st new_stacks = Some res"
    "\<And>w. live rules res w \<longleftrightarrow> live rules new_stacks w \<or> derives rules (stack_syms rules st) w"
    "stacks_ok rules new_stacks \<Longrightarrow> stacks_ok rules res"
  using assms advance_stack_live [OF assms(1,3)] unfolding advances_def by metis

lemma is_stack_terminal_iff:
  "is_stack_terminal t \<longleftrightarrow> is_char_start t \<or> t = Gre_TOKEN \<or> t = Gre_TOKEN_NOT"
  by (auto simp: is_stack_terminal_def is_char_start_def)

lemma settled_cases:
  assumes "wf_rules rules" "stack_ok rules st" "settled rules st"
  obtains (Empty) "st = []"
  | (Char) e where "st \<noteq> []" "elem_at rules (last st) = Some e" "is_char_start (ge_type e)"
      "ge_type e \<noteq> Gre_TOKEN" "ge_type e \<noteq> Gre_TOKEN_NOT"
      "stack_syms rules st = Chars (char_set_at rules (last st)) #
         syms_of (suffix_at rules (after_char rules (last st))) @ stack_syms rules (butlast st)"
  | (Tok) e ss where "st \<noteq> []" "elem_at rules (last st) = Some e"
      "ge_type e = Gre_TOKEN \<or> ge_type e = Gre_TOKEN_NOT" "stack_syms rules st = Tok e # ss"
proof (cases "st = []")
  case False
  then obtain e where e: "elem_at rules (last st) = Some e"
    and syms: "stack_syms rules st = syms_of (suffix_at rules (last st)) @ stack_syms rules (butlast st)"
    using stack_top [OF assms(2)] by blast
  from False assms(3) e have t: "is_stack_terminal (ge_type e)" by (simp add: settled_def)
  show thesis
  proof (cases "is_char_start (ge_type e)")
    case True
    with match_char_ok(2) [OF assms(1) e True] syms show thesis
      by (intro Char [OF False e True]) (auto simp: is_char_start_def)
  next
    case tok: False
    with t have "ge_type e = Gre_TOKEN \<or> ge_type e = Gre_TOKEN_NOT"
      by (simp add: is_stack_terminal_iff)
    with syms elem_at_suffix [OF e] show thesis
      by (intro Tok [OF False e]) auto
  qed
qed (rule Empty)

lemma accept_chr_ok:
  assumes "wf_rules rules" "advances rules" "stack_ok rules st" "settled rules st"
  shows "\<exists>res. accept_chr rules st c new_stacks = Some res \<and>
    (\<forall>w. live rules res w \<longleftrightarrow> live rules new_stacks w \<or> derives rules (stack_syms rules st) (c # w)) \<and>
    (stacks_ok rules new_stacks \<longrightarrow> stacks_ok rules res)"
  using assms(1,3,4)
proof (cases rule: settled_cases)
  case (Char e)
  note m = match_char_ok [OF assms(1) Char(2,3)]
  show ?thesis
  proof (cases "c \<in> char_set_at rules (last st)")
    case True
    obtain e' where e': "elem_at rules (after_char rules (last st)) = Some e'" "\<not> is_modifier e'"
      using m(3) by blast
    obtain st' where st': "push_ptr rules (after_char rules (last st)) (butlast st) = Some st'"
      "stack_syms rules st' = syms_of (suffix_at rules (after_char rules (last st))) @
         stack_syms rules (butlast st)"
      "stack_ok rules st'"
      using push_ptr_ok [OF e'] stack_ok_butlast [OF assms(3)] by metis
    obtain res where "advance_stack rules st' new_stacks = Some res"
      "\<And>w. live rules res w \<longleftrightarrow> live rules new_stacks w \<or> derives rules (stack_syms rules st') w"
      "stacks_ok rules new_stacks \<Longrightarrow> stacks_ok rules res"
      using advance_ok [OF assms(1,2) st'(3)] by metis
    with Char m(1) [of c] True st' show ?thesis
      by (simp add: accept_chr_def derives_Chars_iff)
  next
    case False
    with Char m(1) [of c] show ?thesis by (simp add: accept_chr_def derives_Chars_iff)
  qed
next
  case (Tok e ss)
  then show ?thesis by (auto simp: accept_chr_def)
qed (simp add: accept_chr_def)

lemma accept_stacks_ok:
  assumes "wf_rules rules" "advances rules" "stacks_ok rules stacks"
  shows "\<exists>res. accept_stacks rules c stacks = Some res \<and> stacks_ok rules res \<and>
    (\<forall>w. live rules res w \<longleftrightarrow> live rules stacks (c # w))"
proof -
  have "\<exists>res. ofold (\<lambda>stack stacks_new. accept_chr rules stack c stacks_new) stacks [] = Some res \<and>
      stacks_ok rules res \<and> (\<forall>w. live rules res w \<longleftrightarrow> live rules stacks (c # w))"
  proof (rule ofold_list_inv)
    fix pre st post res
    assume "stacks = pre @ st # post"
      and I: "stacks_ok rules res \<and> (\<forall>w. live rules res w \<longleftrightarrow> live rules pre (c # w))"
    then have "stack_ok rules st" "settled rules st"
      using assms(3) by (auto simp: stacks_ok_def)
    from accept_chr_ok [OF assms(1,2) this, of c res] I
    show "\<exists>res'. accept_chr rules st c res = Some res' \<and> stacks_ok rules res' \<and>
        (\<forall>w. live rules res' w \<longleftrightarrow> live rules (pre @ [st]) (c # w))"
      by (auto simp: live_def)
  qed simp
  then show ?thesis by (simp add: accept_stacks_def)
qed

lemma accept_run_ok:
  assumes "wf_rules rules" "advances rules" "stacks_ok rules stacks"
  shows "\<exists>res. ofold (accept_stacks rules) u stacks = Some res \<and> stacks_ok rules res \<and>
    (\<forall>w. live rules res w \<longleftrightarrow> live rules stacks (u @ w))"
  using assms(3)
proof (induction u arbitrary: stacks)
  case (Cons c u)
  from accept_stacks_ok [OF assms(1,2) Cons.prems, of c] obtain s1
    where s1: "accept_stacks rules c stacks = Some s1" "stacks_ok rules s1"
      "\<forall>w. live rules s1 w \<longleftrightarrow> live rules stacks (c # w)" by blast
  with Cons.IH [OF s1(2)] show ?case by auto
qed simp

lemma live_empty:
  assumes "wf_rules rules" "stacks_ok rules stacks"
  shows "live rules stacks [] \<longleftrightarrow> [] \<in> set stacks"
proof -
  have "derives rules (stack_syms rules st) [] \<longleftrightarrow> st = []" if "st \<in> set stacks" for st
  proof -
    from that assms(2) have "stack_ok rules st" "settled rules st" by (auto simp: stacks_ok_def)
    with assms(1) show ?thesis by (cases rule: settled_cases) auto
  qed
  then show ?thesis by (auto simp: live_def)
qed

subsection \<open>The initial stacks\<close>

lemma initial_stacks_ok:
  assumes "wf_rules rules" "advances rules" "start < length rules"
  shows "\<exists>stacks. initial_stacks rules start = Some stacks \<and> stacks_ok rules stacks \<and>
    (\<forall>w. live rules stacks w \<longleftrightarrow> derives rules [Ref start] w)"
proof -
  have sh: "rule_shape Gre_ALT (rules ! start)"
    using assms(1,3) by (simp add: wf_rules_def)
  obtain starts where starts: "alt_starts 0 0 (rules ! start) = Some starts"
    and alts: "alt_syms (rules ! start) = (\<lambda>s. syms_of (drop s (rules ! start))) ` set starts"
    and ok: "\<And>s. s \<in> set starts \<Longrightarrow> s < length (rules ! start) \<and> \<not> is_modifier (rules ! start ! s)"
    by (rule alt_syms_starts [OF sh]) blast
  let ?f = "\<lambda>pos stacks. do {
      stack \<leftarrow> push_ptr rules (start, pos) [];
      advance_stack rules stack stacks }"
  let ?I = "\<lambda>pre stacks. stacks_ok rules stacks \<and> (\<forall>w. live rules stacks w \<longleftrightarrow>
      (\<exists>s \<in> set pre. derives rules (syms_of (drop s (rules ! start))) w))"
  have "\<exists>stacks. ofold ?f starts [] = Some stacks \<and> ?I starts stacks"
  proof (rule ofold_list_inv [where I = ?I])
    fix pre s post stacks
    assume s: "starts = pre @ s # post" and I: "?I pre stacks"
    have "elem_at rules (start, s) = Some (rules ! start ! s)" "\<not> is_modifier (rules ! start ! s)"
      using ok [of s] s assms(3) by (auto simp: elem_at_Some_iff)
    then obtain st where st: "push_ptr rules (start, s) [] = Some st"
      "stack_syms rules st = syms_of (drop s (rules ! start))" "stack_ok rules st"
      by (rule push_ptr_ok [where st = "[]"]) simp
    obtain res where "advance_stack rules st stacks = Some res"
      "\<And>w. live rules res w \<longleftrightarrow> live rules stacks w \<or> derives rules (stack_syms rules st) w"
      "stacks_ok rules stacks \<Longrightarrow> stacks_ok rules res"
      using advance_ok [OF assms(1,2) st(3)] by metis
    with st I show "\<exists>res. ?f s stacks = Some res \<and> ?I (pre @ [s]) res" by auto
  qed simp
  then obtain stacks where "ofold ?f starts [] = Some stacks" "?I starts stacks" by blast
  with starts assms(3) alts show ?thesis
    by (auto simp: initial_stacks_def derives_Ref_iff)
qed

subsection \<open>Construction\<close>

definition rules_shaped :: "gr_rules \<Rightarrow> bool" where
  "rules_shaped rules \<longleftrightarrow> (\<forall>rule \<in> set rules. rule_shape Gre_ALT rule)"

lemma wf_rules_iff: "wf_rules rules \<longleftrightarrow> rule_refs_valid rules \<and> rules_shaped rules"
  by (simp add: wf_rules_def rules_shaped_def)

lemma rule_shape_copy:
  "rule_shape t es \<Longrightarrow>
    (\<exists>e \<in> set es. ge_type e = Gre_END) \<and>
    rule_shape t (takeWhile (\<lambda>e. ge_type e \<noteq> Gre_END) es @ [\<lparr>ge_type = Gre_END, ge_value = 0\<rparr>])"
proof (induction es arbitrary: t)
  case (Cons e es)
  then show ?case
    by (cases "ge_type e = Gre_END") (auto simp: follows_ok_def)
qed simp

lemma copy_rules_ok:
  assumes "rules_shaped rules"
  shows "\<exists>vec. copy_rules rules = Some vec \<and> length vec = length rules \<and> rules_shaped vec"
  unfolding copy_rules_def
proof (rule ofold_list_inv [where I = "\<lambda>pre vec. length vec = length pre \<and> rules_shaped vec"])
  fix pre es post vec
  assume "rules = pre @ es # post" "length vec = length pre \<and> rules_shaped vec"
  with assms rule_shape_copy [of Gre_ALT es]
  show "\<exists>vec'. do { rule \<leftarrow> copy_rule es; Some (vec @ [rule]) } = Some vec' \<and>
      length vec' = length (pre @ [es]) \<and> rules_shaped vec'"
    by (auto simp: copy_rule_def rules_shaped_def)
qed (simp add: rules_shaped_def)

lemma grammar_init_ok:
  assumes "rules_shaped rules" "start < length rules" "copy_rules rules = Some vec"
    and "empty_is_direct vec"
  shows "\<exists>g. grammar_init_rules rules start = Some g \<and>
    (if rule_refs_valid vec \<and> no_left_recursion vec
     then \<exists>g'. g = Some g' \<and> gr_rules_of g' = vec \<and> stacks_ok vec (gr_stacks g') \<and>
       gr_partial g' = \<lparr>pu_value = 0, pu_n_remain = 0\<rparr> \<and>
       (\<forall>w. live vec (gr_stacks g') w \<longleftrightarrow> derives vec [Ref start] w)
     else g = None)"
proof (cases "rule_refs_valid vec")
  case True
  from copy_rules_ok [OF assms(1)] assms(2,3) have vec: "rules_shaped vec" "start < length vec"
    by auto
  with True have wf: "wf_rules vec" by (simp add: wf_rules_iff)
  note dec = has_left_recursion_decides [OF wf]
  show ?thesis
  proof (cases "no_left_recursion vec")
    case nl: True
    from initial_stacks_ok [OF wf advancesI [OF wf assms(4) nl] vec(2)] obtain stacks
      where "initial_stacks vec start = Some stacks" "stacks_ok vec stacks"
        "\<forall>w. live vec stacks w \<longleftrightarrow> derives vec [Ref start] w" by blast
    with True nl assms(3) dec show ?thesis by (simp add: grammar_init_rules_def)
  next
    case False
    with True assms(3) dec show ?thesis by (simp add: grammar_init_rules_def)
  qed
qed (use assms(3) in \<open>simp add: grammar_init_rules_def\<close>)

lemma gr_accept_run:
  "ofold gr_accept w g =
     (case ofold (accept_stacks (gr_rules_of g)) w (gr_stacks g) of
        None \<Rightarrow> None | Some stacks \<Rightarrow> Some (g\<lparr>gr_stacks := stacks\<rparr>))"
proof (induction w arbitrary: g)
  case (Cons c w)
  then show ?case
    by (cases "accept_stacks (gr_rules_of g) c (gr_stacks g)")
      (simp_all add: gr_accept_def split: option.split)
qed simp

text \<open>
  C6: The grammar machine accepts the language of its grammar. For a grammar that the
  construction took and in which every rule that derives the empty text has an empty alternate,
  accepting the characters of any text returns; the empty stack, which allows the end of
  generation, is among the stacks exactly when the start rule derives the text; and what the
  remaining stacks derive are exactly the texts that complete it.
\<close>

theorem grammar_accepts_language:
  assumes "rules_shaped rules" "start < length rules"
    and "grammar_init_rules rules start = Some (Some g)" "empty_is_direct (gr_rules_of g)"
  shows "\<exists>g'. ofold gr_accept w g = Some g' \<and>
    ([] \<in> set (gr_stacks g') \<longleftrightarrow> derives (gr_rules_of g) [Ref start] w) \<and>
    (\<forall>v. live (gr_rules_of g) (gr_stacks g') v \<longleftrightarrow> derives (gr_rules_of g) [Ref start] (w @ v))"
proof -
  obtain vec where vec: "copy_rules rules = Some vec" "rules_shaped vec"
    using copy_rules_ok [OF assms(1)] by blast
  have rules: "gr_rules_of g = vec"
    using assms(3) vec(1) by (auto simp: grammar_init_rules_def bind_eq_Some_conv split: if_splits)
  from grammar_init_ok [OF assms(1,2) vec(1)] assms(3,4) rules
  have ok: "rule_refs_valid vec" "no_left_recursion vec" "stacks_ok vec (gr_stacks g)"
    "\<forall>w. live vec (gr_stacks g) w \<longleftrightarrow> derives vec [Ref start] w"
    by (auto split: if_splits)
  then have wf: "wf_rules vec" using vec(2) by (simp add: wf_rules_iff)
  have adv: "advances vec"
    using advancesI [OF wf _ ok(2)] assms(4) rules by simp
  from accept_run_ok [OF wf adv ok(3), of w] obtain stacks
    where run: "ofold (accept_stacks vec) w (gr_stacks g) = Some stacks" "stacks_ok vec stacks"
      "\<forall>v. live vec stacks v \<longleftrightarrow> live vec (gr_stacks g) (w @ v)" by blast
  have "[] \<in> set stacks \<longleftrightarrow> derives vec [Ref start] w"
    using live_empty [OF wf run(2)] run(3) ok(4) by (metis append_Nil2)
  with run ok(4) rules show ?thesis by (simp add: gr_accept_run)
qed

subsection \<open>When the construction returns\<close>

text \<open>
  C8: The construction of a grammar returns, and refuses exactly the grammars with a reference to
  a rule that is not there and those with a rule that reaches itself at the left end of its
  alternates through rules that have an empty alternate - provided that every rule that derives
  the empty text has an empty alternate.
\<close>

theorem grammar_init_decides:
  assumes "rules_shaped rules" "start < length rules"
    and "copy_rules rules = Some vec" "empty_is_direct vec"
  shows "\<exists>g. grammar_init_rules rules start = Some g \<and>
    (g = None \<longleftrightarrow> \<not> rule_refs_valid vec \<or> lr_cycle vec)"
proof -
  from copy_rules_ok [OF assms(1)] assms(3) have "rules_shaped vec" by auto
  then have "lr_cycle vec \<longleftrightarrow> \<not> no_left_recursion vec" if "rule_refs_valid vec"
    using that lr_cycle_iff_recursion [of vec] by (simp add: wf_rules_iff)
  with grammar_init_ok [OF assms] show ?thesis by (auto split: if_splits)
qed

subsection \<open>A small grammar\<close>

definition gr_el :: "gretype \<Rightarrow> u32 \<Rightarrow> gr_element" where
  "gr_el t v = \<lparr>ge_type = t, ge_value = v\<rparr>"

text \<open>\<open>root ::= "x" root |\<close>, the texts of any number of \<open>x\<close>.\<close>

definition star_rules :: gr_rules where
  "star_rules = [[gr_el Gre_CHAR 0x78, gr_el Gre_RULE_REF 0, gr_el Gre_ALT 0, gr_el Gre_END 0]]"

lemma star_ok: "rules_shaped star_rules" "rule_refs_valid star_rules" "copy_rules star_rules = Some star_rules"
  "length star_rules = 1"
  by (simp_all add: star_rules_def rules_shaped_def rule_refs_valid_def gr_el_def
      follows_ok_def copy_rules_def copy_rule_def)

lemma star_shape: "rule_shape Gre_ALT (star_rules ! 0)"
  using star_ok(1,4) by (simp add: rules_shaped_def)

lemma star_empty: "empty_is_direct star_rules"
  using has_empty_alt_rule [of star_rules 0, OF star_shape]
  by (simp add: empty_is_direct_def star_ok(4) less_Suc_eq)
    (simp add: star_rules_def gr_el_def is_end_of_sequence_def)

lemma star_no_left_recursion: "no_left_recursion star_rules"
proof -
  have "\<not> left_ref star_rules 0 m" for m
    using left_scan_rule [of star_rules 0, OF star_shape]
    by (auto simp: star_rules_def gr_el_def is_end_of_sequence_def)
  then show ?thesis
    by (auto simp: no_left_recursion_def star_ok(4) less_Suc_eq intro: accp.accI)
qed

lemma star_init:
  obtains g where "grammar_init_rules star_rules 0 = Some (Some g)" "gr_rules_of g = star_rules"
    "stacks_ok star_rules (gr_stacks g)" "gr_partial g = \<lparr>pu_value = 0, pu_n_remain = 0\<rparr>"
    "\<And>w. live star_rules (gr_stacks g) w \<longleftrightarrow> derives star_rules [Ref 0] w"
  using grammar_init_ok [OF star_ok(1) _ star_ok(3) star_empty, of 0] star_ok star_no_left_recursion
  by auto

lemma star_alts: "alt_syms (star_rules ! 0) = {[Chars {0x78}, Ref 0], []}"
proof -
  have rule: "star_rules ! 0 = [gr_el Gre_CHAR 0x78, gr_el Gre_RULE_REF 0, gr_el Gre_ALT 0, gr_el Gre_END 0]"
    by (simp add: star_rules_def)
  show ?thesis
    unfolding rule alt_syms_later later_alts_Cons by (simp add: gr_el_def)
qed

lemma star_derives: "derives star_rules [Ref 0] [0x78]"
proof -
  have "derives star_rules [Ref 0] []"
    by (rule derives_Ref [where a = "[]"]) (simp_all add: star_alts star_ok(4))
  then show ?thesis
    by (intro derives_Ref [where a = "[Chars {0x78}, Ref 0]"])
      (simp_all add: star_alts star_ok(4) derives_Chars_iff)
qed

theorem grammar_init_decides_witness:
  "\<exists>g. grammar_init_rules star_rules 0 = Some g \<and> (g = None \<longleftrightarrow> \<not> rule_refs_valid star_rules \<or> lr_cycle star_rules)"
  by (rule grammar_init_decides [OF star_ok(1) _ star_ok(3) star_empty]) (simp add: star_ok(4))

theorem grammar_accepts_language_witness:
  "\<exists>g g'. grammar_init_rules star_rules 0 = Some (Some g) \<and> ofold gr_accept [0x78] g = Some g' \<and>
     [] \<in> set (gr_stacks g')"
proof -
  obtain g where g: "grammar_init_rules star_rules 0 = Some (Some g)" "gr_rules_of g = star_rules"
    by (rule star_init)
  have e: "empty_is_direct (gr_rules_of g)" unfolding g(2) by (rule star_empty)
  have "0 < length star_rules" by (simp add: star_ok(4))
  from grammar_accepts_language [OF star_ok(1) this g(1) e, of "[0x78]"] g star_derives
  show ?thesis by auto
qed

subsection \<open>A left recursion the check does not see\<close>

fun advance_rounds :: "gr_rules \<Rightarrow> nat \<Rightarrow> advance_state \<Rightarrow> advance_state option" where
  "advance_rounds rules 0 s = Some s"
| "advance_rounds rules (Suc n) s = Option.bind (advance_step rules s) (advance_rounds rules n)"

lemma advance_rounds_add:
  "advance_rounds rules (m + n) s = Option.bind (advance_rounds rules m s) (advance_rounds rules n)"
  by (induction m arbitrary: s) (auto split: Option.bind_splits)

lemma advance_rounds_done: "advance_rounds rules n ([], seen, new_stacks) = Some ([], seen, new_stacks)"
  by (induction n) auto

lemma advance_loop_rounds:
  assumes "advance_loop rules s = Some res"
  shows "\<exists>n seen. advance_rounds rules n s = Some ([], seen, res)"
proof (rule advance_loop.raw_induct [where P = "\<lambda>rules s res. \<exists>n seen.
      advance_rounds rules n s = Some ([], seen, res)", OF _ assms])
  fix loop and rules :: gr_rules and s res
  assume IH: "\<And>rules s res. loop rules s = Some res \<Longrightarrow>
      \<exists>n seen. advance_rounds rules n s = Some ([], seen, res)"
    and body: "(case s of (todo, seen, new_stacks) \<Rightarrow>
      if todo = [] then Some new_stacks
      else do { st \<leftarrow> advance_step rules s; loop rules st }) = Some res"
  obtain todo seen new_stacks where s: "s = (todo, seen, new_stacks)" by (cases s)
  show "\<exists>n seen. advance_rounds rules n s = Some ([], seen, res)"
  proof (cases "todo = []")
    case True
    with body s have "advance_rounds rules 0 s = Some ([], seen, res)" by simp
    then show ?thesis by blast
  next
    case False
    with body s obtain s' where "advance_step rules s = Some s'" "loop rules s' = Some res"
      by (auto simp: bind_eq_Some_conv simp del: advance_step.simps)
    with IH [of rules s' res] show ?thesis
      by (metis advance_rounds.simps(2) bind.bind_lunit)
  qed
qed

text \<open>
  \<open>root ::= ("b"?) root "y" | "x"\<close>, as the parser translates it: rule 0 is \<open>root\<close>, rule 1 the
  group, rule 2 the optional \<open>"b"\<close>.
\<close>

definition hidden_recursion :: gr_rules where
  "hidden_recursion =
     [[gr_el Gre_RULE_REF 1, gr_el Gre_RULE_REF 0, gr_el Gre_CHAR 0x79, gr_el Gre_ALT 0,
       gr_el Gre_CHAR 0x78, gr_el Gre_END 0],
      [gr_el Gre_RULE_REF 2, gr_el Gre_END 0],
      [gr_el Gre_CHAR 0x62, gr_el Gre_ALT 0, gr_el Gre_END 0]]"

lemma hidden_elem:
  "elem_at hidden_recursion (0, 0) = Some (gr_el Gre_RULE_REF 1)"
  "elem_at hidden_recursion (0, Suc 0) = Some (gr_el Gre_RULE_REF 0)"
  "elem_at hidden_recursion (0, 2) = Some (gr_el Gre_CHAR 0x79)"
  "elem_at hidden_recursion (0, 4) = Some (gr_el Gre_CHAR 0x78)"
  "elem_at hidden_recursion (1, 0) = Some (gr_el Gre_RULE_REF 2)"
  "elem_at hidden_recursion (1, 1) = Some (gr_el Gre_END 0)"
  "elem_at hidden_recursion (2, 0) = Some (gr_el Gre_CHAR 0x62)"
  "elem_at hidden_recursion (2, 2) = Some (gr_el Gre_END 0)"
  by (simp_all add: hidden_recursion_def elem_at_def at_idx_def)

lemma hidden_expand:
  "expand_ref hidden_recursion (B @ [(0, 0)]) (0, 0) 1 = Some [B @ [(0, 1), (1, 0)]]"
  "expand_ref hidden_recursion (B @ [(0, 1), (1, 0)]) (1, 0) 2 =
     Some [B @ [(0, 1), (2, 0)], B @ [(0, 1)]]"
  "expand_ref hidden_recursion (B @ [(0, 1)]) (0, 1) 0 =
     Some [B @ [(0, 2), (0, 0)], B @ [(0, 2), (0, 4)]]"
proof -
  have a: "alt_starts 0 0 (hidden_recursion ! 0) = Some [0, 4]"
    "alt_starts 0 0 (hidden_recursion ! 1) = Some [0]"
    "alt_starts 0 0 (hidden_recursion ! 2) = Some [0, 2]"
    "length hidden_recursion = 3"
    by (simp_all add: hidden_recursion_def gr_el_def)
  show "expand_ref hidden_recursion (B @ [(0, 0)]) (0, 0) 1 = Some [B @ [(0, 1), (1, 0)]]"
    using hidden_elem a
    by (simp add: expand_ref_def push_ptr_def is_end_of_sequence_def gr_el_def butlast_append)
  show "expand_ref hidden_recursion (B @ [(0, 1), (1, 0)]) (1, 0) 2 =
     Some [B @ [(0, 1), (2, 0)], B @ [(0, 1)]]"
    using hidden_elem a
    by (simp add: expand_ref_def push_ptr_def is_end_of_sequence_def gr_el_def butlast_append)
  show "expand_ref hidden_recursion (B @ [(0, 1)]) (0, 1) 0 =
     Some [B @ [(0, 2), (0, 0)], B @ [(0, 2), (0, 4)]]"
    using hidden_elem a
    by (simp add: expand_ref_def push_ptr_def is_end_of_sequence_def gr_el_def butlast_append
        numeral_2_eq_2)
qed

abbreviation y_pile :: "nat \<Rightarrow> gr_stack" where
  "y_pile k \<equiv> replicate k (0, 2)"

text \<open>Four rounds later the stack on top is one \<open>"y"\<close> higher, and has not been seen.\<close>

lemma count_ys: "count_list (y_pile k) (0, 2) = k"
  by (induction k) auto

lemma hidden_terminal:
  "\<exists>seen' new'. advance_step hidden_recursion ((st @ [(0, 4)]) # todo, seen, new_stacks) =
      Some (todo, seen', new') \<and> set seen' \<subseteq> insert (st @ [(0, 4)]) (set seen)"
proof (cases "st @ [(0, 4)] \<in> set seen")
  case False
  then show ?thesis using hidden_elem by (simp add: gr_el_def is_stack_terminal_def)
qed auto

lemma advance_rounds_4:
  "advance_step rules s = Some s1 \<Longrightarrow> advance_step rules s1 = Some s2 \<Longrightarrow>
   advance_step rules s2 = Some s3 \<Longrightarrow> advance_step rules s3 = Some s4 \<Longrightarrow>
   advance_rounds rules 4 s = Some s4"
  by (simp add: numeral_eq_Suc del: advance_step.simps)

lemma hidden_cycle:
  assumes "\<forall>x \<in> set seen. last x = (0, 4) \<or> count_list x (0, 2) < k"
  shows "\<exists>todo' seen' new'.
    advance_rounds hidden_recursion 4 ((y_pile k @ [(0, 0)]) # todo, seen, new_stacks) =
      Some ((y_pile (Suc k) @ [(0, 0)]) # todo', seen', new') \<and>
    (\<forall>x \<in> set seen'. last x = (0, 4) \<or> count_list x (0, 2) < Suc k)"
proof -
  let ?R = hidden_recursion
  let ?s1 = "y_pile k @ [(0, 0)]" and ?s2 = "y_pile k @ [(0, 1), (1, 0)]" and ?s3 = "y_pile k @ [(0, 1)]"
  let ?s4 = "y_pile k @ [(0, 2), (0, 4)]" and ?s5 = "y_pile k @ [(0, 2), (0, 0)]"
  have new: "?s1 \<notin> set seen" "?s2 \<notin> set (?s1 # seen)" "?s3 \<notin> set (?s2 # ?s1 # seen)"
    using assms by (auto simp: count_ys dest!: bspec)
  let ?t3 = "(y_pile k @ [(0, 1), (2, 0)]) # todo"
  have 1: "advance_step ?R (?s1 # todo, seen, new_stacks) = Some (?s2 # todo, ?s1 # seen, new_stacks)"
    using new(1) hidden_elem hidden_expand(1) by (simp add: gr_el_def)
  have 2: "advance_step ?R (?s2 # todo, ?s1 # seen, new_stacks) =
      Some (?s3 # ?t3, ?s2 # ?s1 # seen, new_stacks)"
    using new(2) hidden_elem hidden_expand(2) by (simp add: gr_el_def)
  have 3: "advance_step ?R (?s3 # ?t3, ?s2 # ?s1 # seen, new_stacks) =
      Some (?s4 # ?s5 # ?t3, ?s3 # ?s2 # ?s1 # seen, new_stacks)"
    using new(3) hidden_elem hidden_expand(3) by (simp add: gr_el_def)
  obtain seen' new' where 4: "advance_step ?R (?s4 # ?s5 # ?t3, ?s3 # ?s2 # ?s1 # seen, new_stacks) =
      Some (?s5 # ?t3, seen', new')" and sub: "set seen' \<subseteq> {?s4, ?s3, ?s2, ?s1} \<union> set seen"
    using hidden_terminal [of "y_pile k @ [(0, 2)]" "?s5 # ?t3" "?s3 # ?s2 # ?s1 # seen" new_stacks]
    by (auto simp del: advance_step.simps)
  have s5: "?s5 = y_pile (Suc k) @ [(0, 0)]"
    by (simp add: replicate_append_same [symmetric])
  have "\<forall>x \<in> {?s4, ?s3, ?s2, ?s1} \<union> set seen. last x = (0, 4) \<or> count_list x (0, 2) < Suc k"
    using assms by (auto simp: count_ys)
  with sub have "\<forall>x \<in> set seen'. last x = (0, 4) \<or> count_list x (0, 2) < Suc k" by blast
  with advance_rounds_4 [OF 1 2 3 4] show ?thesis
    unfolding s5 by blast
qed

lemma hidden_run:
  "\<exists>todo seen new'. advance_rounds hidden_recursion (4 * n) ([[(0, 0)]], [], new_stacks) =
      Some ((y_pile n @ [(0, 0)]) # todo, seen, new') \<and>
    (\<forall>x \<in> set seen. last x = (0, 4) \<or> count_list x (0, 2) < n)"
proof (induction n)
  case (Suc n)
  then obtain todo seen new' where
    run: "advance_rounds hidden_recursion (4 * n) ([[(0, 0)]], [], new_stacks) =
      Some ((y_pile n @ [(0, 0)]) # todo, seen, new')"
    and seen: "\<forall>x \<in> set seen. last x = (0, 4) \<or> count_list x (0, 2) < n" by blast
  have "advance_rounds hidden_recursion (4 * Suc n) s =
      Option.bind (advance_rounds hidden_recursion (4 * n) s) (advance_rounds hidden_recursion 4)" for s
    using advance_rounds_add [of hidden_recursion "4 * n" 4 s] by (simp add: add.commute)
  then show ?case using hidden_cycle [OF seen, of todo new'] run by auto
qed simp

lemma hidden_not_done:
  "\<exists>st todo seen new'. advance_rounds hidden_recursion n ([[(0, 0)]], [], new_stacks) =
      Some (st # todo, seen, new')"
proof -
  from hidden_run [of n new_stacks] obtain st todo seen new' where
    run: "advance_rounds hidden_recursion (n + 3 * n) ([[(0, 0)]], [], new_stacks) =
      Some (st # todo, seen, new')" by auto
  then obtain s where s: "advance_rounds hidden_recursion n ([[(0, 0)]], [], new_stacks) = Some s"
    "advance_rounds hidden_recursion (3 * n) s = Some (st # todo, seen, new')"
    unfolding advance_rounds_add by (auto simp: bind_eq_Some_conv)
  obtain todo' seen' new'' where "s = (todo', seen', new'')" by (cases s)
  with s show ?thesis by (cases todo') (auto simp: advance_rounds_done)
qed

lemma hidden_left_refs:
  "left_ref hidden_recursion 0 m \<longleftrightarrow> m = 1" "left_ref hidden_recursion 1 m \<longleftrightarrow> m = 2"
  "\<not> left_ref hidden_recursion 2 m"
proof -
  have sh: "rule_shape Gre_ALT (hidden_recursion ! n)" if "n < 3" for n
    using that by (auto simp: hidden_recursion_def gr_el_def follows_ok_def less_Suc_eq numeral_3_eq_3)
  have e: "\<not> may_be_empty hidden_recursion 1"
  proof -
    have "\<not> has_empty_alt True (hidden_recursion ! 1)"
      by (simp add: hidden_recursion_def gr_el_def is_end_of_sequence_def)
    then show ?thesis using has_empty_alt_rule [of hidden_recursion 1] sh [of 1] by simp
  qed
  have l: "left_ref hidden_recursion n m \<longleftrightarrow>
      m \<in> left_scan (may_be_empty hidden_recursion) True (hidden_recursion ! n)" if "n < 3" for n
    using left_scan_rule [of hidden_recursion n, OF sh [OF that]] by auto
  show "left_ref hidden_recursion 0 m \<longleftrightarrow> m = 1" "left_ref hidden_recursion 1 m \<longleftrightarrow> m = 2"
    "\<not> left_ref hidden_recursion 2 m"
    using e by (simp_all add: l) (simp_all add: hidden_recursion_def gr_el_def is_end_of_sequence_def)
qed

lemma hidden_shaped: "rules_shaped hidden_recursion" "rule_refs_valid hidden_recursion"
  "copy_rules hidden_recursion = Some hidden_recursion"
  by (simp_all add: hidden_recursion_def rules_shaped_def rule_refs_valid_def gr_el_def
      follows_ok_def copy_rules_def copy_rule_def)

lemma hidden_undetected: "has_left_recursion hidden_recursion = Some False"
proof -
  have 2: "lr_safe hidden_recursion 2"
    by (rule accp.accI) (simp only: hidden_left_refs)
  have 1: "lr_safe hidden_recursion 1"
    by (rule accp.accI) (simp only: hidden_left_refs 2)
  have 0: "lr_safe hidden_recursion 0"
    by (rule accp.accI) (simp only: hidden_left_refs 1)
  have "no_left_recursion hidden_recursion"
    unfolding no_left_recursion_def
  proof (intro allI impI)
    fix n
    assume "n < length hidden_recursion"
    then consider "n = 0" | "n = 1" | "n = 2" by (force simp: hidden_recursion_def)
    then show "lr_safe hidden_recursion n" by cases (simp_all only: 0 1 2)
  qed
  then show ?thesis
    using has_left_recursion_decides [of hidden_recursion] hidden_shaped by (simp add: wf_rules_iff)
qed

text \<open>
  C9: A left recursion the check does not see. The rules of
  \<open>root ::= ("b"?) root "y" | "x"\<close> are well formed and pass the check for left recursion, because
  the group derives the empty text without having an empty alternate; advancing the first stack
  then never runs out of stacks to do, at no number of rounds, so the construction of the grammar
  does not return.
\<close>

theorem left_recursion_missed:
  "rules_shaped hidden_recursion \<and> rule_refs_valid hidden_recursion \<and>
   has_left_recursion hidden_recursion = Some False \<and>
   (\<forall>n. \<exists>st todo seen new_stacks. advance_rounds hidden_recursion n ([[(0, 0)]], [], []) =
      Some (st # todo, seen, new_stacks)) \<and>
   grammar_init_rules hidden_recursion 0 = None"
proof -
  have none: "advance_stack hidden_recursion [(0, 0)] [] = None"
  proof (rule ccontr)
    assume "advance_stack hidden_recursion [(0, 0)] [] \<noteq> None"
    then obtain res where "advance_loop hidden_recursion ([[(0, 0)]], [], []) = Some res"
      by (auto simp: advance_stack_def)
    from advance_loop_rounds [OF this] hidden_not_done [of _ "[]"] show False
      by (metis Pair_inject list.distinct(1) option.inject)
  qed
  have "push_ptr hidden_recursion (0, 0) [] = Some [(0, 0)]"
    by (simp add: push_ptr_def hidden_elem is_end_of_sequence_def gr_el_def)
  moreover have "at_idx hidden_recursion 0 = Some (hidden_recursion ! 0)"
    "alt_starts 0 0 (hidden_recursion ! 0) = Some [0, 4]"
    by (simp_all add: hidden_recursion_def gr_el_def)
  ultimately have "initial_stacks hidden_recursion 0 = None"
    using none by (simp add: initial_stacks_def)
  then show ?thesis
    using hidden_shaped hidden_undetected hidden_not_done [of _ "[]"]
    by (simp add: grammar_init_rules_def)
qed

end
