(* ===== verification/GrammarReject.thy ===== *)
theory GrammarReject
  imports GrammarProps
begin

section \<open>Rejecting candidates agrees with accepting them\<close>

text \<open>
  \<open>llama_grammar_reject_candidates\<close> explores the grammar once for all candidates of a step;
  \<open>llama_grammar_accept_token\<close> runs one token through it. For grammars without token elements
  the candidates that are kept are those that accepting would leave with a stack.
\<close>

subsection \<open>What is left of a single stack\<close>

definition chr_successors :: "gr_rules \<Rightarrow> gr_stack \<Rightarrow> u32 \<Rightarrow> gr_stack set" where
  "chr_successors rules st c =
     (case accept_chr rules st c [] of Some res \<Rightarrow> set res | None \<Rightarrow> {})"

fun survives :: "gr_rules \<Rightarrow> gr_stack \<Rightarrow> u32 list \<Rightarrow> gr_partial_utf8 \<Rightarrow> bool" where
  "survives rules st [] partial \<longleftrightarrow>
     pu_n_remain partial = 0 \<or> st \<noteq> [] \<and> match_partial_char rules (last st) partial = Some True"
| "survives rules st (c # w) partial \<longleftrightarrow>
     (\<exists>st' \<in> chr_successors rules st c. survives rules st' w partial)"

definition no_tokens :: "gr_rules \<Rightarrow> bool" where
  "no_tokens rules \<longleftrightarrow>
     (\<forall>rule \<in> set rules. \<forall>e \<in> set rule. ge_type e \<noteq> Gre_TOKEN \<and> ge_type e \<noteq> Gre_TOKEN_NOT)"

lemma no_tokens_elem:
  "no_tokens rules \<Longrightarrow> elem_at rules p = Some e \<Longrightarrow> ge_type e \<noteq> Gre_TOKEN \<and> ge_type e \<noteq> Gre_TOKEN_NOT"
  unfolding no_tokens_def elem_at_Some_iff by (metis nth_mem)

text \<open>Accepting appends the successors to the stacks collected before.\<close>

lemma advance_stack_set:
  assumes "advance_stack rules st [] = Some res0" "advance_stack rules st new_stacks = Some res"
  shows "set res = set new_stacks \<union> set res0"
  using advance_stack_exact(1) [OF assms(1)] advance_stack_exact(1) [OF assms(2)] by simp

lemma accept_chr_set:
  assumes "wf_rules rules" "advances rules" "stack_ok rules st" "settled rules st"
    and "accept_chr rules st c new_stacks = Some res"
  shows "set res = set new_stacks \<union> chr_successors rules st c"
proof -
  obtain res0 where res0: "accept_chr rules st c [] = Some res0"
    using accept_chr_ok [OF assms(1-4)] by blast
  then have succ: "chr_successors rules st c = set res0" by (simp add: chr_successors_def)
  show ?thesis
  proof (cases "\<exists>st'. accept_chr rules st c = advance_stack rules st'")
    case True
    then obtain st' where "accept_chr rules st c = advance_stack rules st'" by blast
    with advance_stack_set [of rules st' res0 new_stacks res] res0 assms(5) succ show ?thesis by simp
  next
    case False
    with assms(5) res0 succ show ?thesis
      by (auto simp: accept_chr_def bind_eq_Some_conv fun_eq_iff split: if_splits prod.splits)
  qed
qed

subsection \<open>Candidates\<close>

text \<open>The code points a candidate still has, and what the code relies on for a candidate.\<close>

definition gc_points :: "gr_candidate \<Rightarrow> u32 list" where
  "gc_points tok = takeWhile (\<lambda>c. c \<noteq> 0) (drop (gc_offset tok) (gc_buffer tok))"

definition candidate_ok :: "gr_candidate \<Rightarrow> bool" where
  "candidate_ok tok \<longleftrightarrow>
     0 \<in> set (drop (gc_offset tok) (gc_buffer tok)) \<and> pu_n_remain (gc_partial tok) \<le> 3"

abbreviation gc_advance :: "gr_candidate \<Rightarrow> gr_candidate" where
  "gc_advance tok \<equiv> tok\<lparr>gc_offset := gc_offset tok + 1\<rparr>"

lemma gc_head_points:
  assumes "candidate_ok tok"
  shows "gc_head tok = Some (case gc_points tok of [] \<Rightarrow> 0 | c # w \<Rightarrow> c)"
proof -
  have "gc_offset tok < length (gc_buffer tok)"
    using assms by (metis candidate_ok_def drop_all empty_iff empty_set not_le_imp_less)
  then show ?thesis
    by (simp add: gc_head_def gc_points_def flip: Cons_nth_drop_Suc)
qed

lemma gc_points_nonzero: "gc_points tok = c # w \<Longrightarrow> c \<noteq> 0"
  unfolding gc_points_def by (metis (mono_tags) list.set_intros(1) set_takeWhileD)

lemma gc_advance_points:
  assumes "candidate_ok tok" "gc_points tok = c # w"
  shows "candidate_ok (gc_advance tok)" "gc_points (gc_advance tok) = w"
proof -
  have lt: "gc_offset tok < length (gc_buffer tok)"
    using assms(1) by (metis candidate_ok_def drop_all empty_iff empty_set not_le_imp_less)
  then have d: "drop (gc_offset tok) (gc_buffer tok) =
      gc_buffer tok ! gc_offset tok # drop (gc_offset tok + 1) (gc_buffer tok)"
    by (simp add: Cons_nth_drop_Suc)
  with assms show "candidate_ok (gc_advance tok)" "gc_points (gc_advance tok) = w"
    by (auto simp: candidate_ok_def gc_points_def split: if_splits)
qed

lemma match_partial_loop_total:
  assumes "rule_shape t es" "ge_type (hd es) \<in> {Gre_CHAR, Gre_CHAR_NOT, Gre_CHAR_ANY, Gre_CHAR_ALT}"
  shows "\<exists>b. match_partial_loop low high positive es = Some b"
  using assms
proof (induction low high positive es arbitrary: t rule: match_partial_loop.induct)
  case (1 low high positive e0 e1 es)
  from "1.prems" have sh1: "rule_shape (ge_type e0) (e1 # es)" by (auto split: if_splits)
  then have sh2: "ge_type e1 = Gre_CHAR_RNG_UPPER \<Longrightarrow> rule_shape Gre_CHAR_RNG_UPPER es" by auto
  then have ne: "ge_type e1 = Gre_CHAR_RNG_UPPER \<Longrightarrow> es \<noteq> []" by (auto dest: rule_shape_nonempty)
  show ?case
  proof (cases "(ge_type e1 = Gre_CHAR_RNG_UPPER \<and> ge_value e0 \<le> high \<and> low \<le> ge_value e1) \<or>
      (ge_type e1 \<noteq> Gre_CHAR_RNG_UPPER \<and> ge_type e0 = Gre_CHAR_ANY) \<or>
      (ge_type e1 \<noteq> Gre_CHAR_RNG_UPPER \<and> low \<le> ge_value e0 \<and> ge_value e0 \<le> high)")
    case True
    then show ?thesis by auto
  next
    case False
    then have cs: "\<not> (ge_type e1 = Gre_CHAR_RNG_UPPER \<and> ge_value e0 \<le> high \<and> low \<le> ge_value e1)"
      "\<not> (ge_type e1 \<noteq> Gre_CHAR_RNG_UPPER \<and> ge_type e0 = Gre_CHAR_ANY)"
      "\<not> (ge_type e1 \<noteq> Gre_CHAR_RNG_UPPER \<and> low \<le> ge_value e0 \<and> ge_value e0 \<le> high)" by blast+
    show ?thesis
    proof (cases "ge_type e1 = Gre_CHAR_RNG_UPPER")
      case True
      then obtain e2 es' where es: "es = e2 # es'" using ne by (cases es) auto
      with "1.IH" [OF cs refl, of e2 es'] True cs sh2 show ?thesis
        by (cases "ge_type e2 = Gre_CHAR_ALT") auto
    next
      case False
      with "1.IH" [OF cs refl, of e1 es] cs sh1 show ?thesis
        by (cases "ge_type e1 = Gre_CHAR_ALT") auto
    qed
  qed
qed (auto split: if_splits)

lemma match_partial_char_total:
  assumes "wf_rules rules" "elem_at rules p = Some e" "is_char_start (ge_type e)"
    and "pu_n_remain partial \<le> 3"
  shows "\<exists>b. match_partial_char rules p partial = Some b"
proof -
  obtain t where t: "rule_shape t (suffix_at rules p)"
    using wf_suffix_shape [OF assms(1,2)] by blast
  have "\<exists>b. match_partial_loop low high positive (suffix_at rules p) = Some b" for low high positive
    using match_partial_loop_total [OF t] elem_at_suffix [OF assms(2)] assms(3)
    by (auto simp: is_char_start_def)
  with assms(2-4) show ?thesis
    by (auto simp: match_partial_char_def is_char_start_def is_positive_char_def Let_def)
qed

definition rejected_here :: "gr_rules \<Rightarrow> gr_ptr \<Rightarrow> gr_candidate \<Rightarrow> bool" where
  "rejected_here rules p tok \<longleftrightarrow>
     (case gc_points tok of
        [] \<Rightarrow> pu_n_remain (gc_partial tok) \<noteq> 0 \<and> match_partial_char rules p (gc_partial tok) \<noteq> Some True
      | c # w \<Rightarrow> c \<notin> char_set_at rules p)"

definition passed_on :: "gr_rules \<Rightarrow> gr_ptr \<Rightarrow> gr_candidate \<Rightarrow> bool" where
  "passed_on rules p tok \<longleftrightarrow>
     (case gc_points tok of [] \<Rightarrow> False | c # w \<Rightarrow> c \<in> char_set_at rules p)"

lemma reject_at_char_spec:
  assumes "wf_rules rules" "elem_at rules p = Some e" "is_char_start (ge_type e)"
    and "\<forall>tok \<in> set candidates. candidate_ok tok"
  obtains rejects nexts where "reject_at_char rules p candidates = Some (rejects, nexts)"
    "set rejects = {tok \<in> set candidates. rejected_here rules p tok}"
    "set nexts = gc_advance ` {tok \<in> set candidates. passed_on rules p tok}"
proof -
  let ?I = "\<lambda>pre (rejects, nexts). set rejects = {tok \<in> set pre. rejected_here rules p tok} \<and>
      set nexts = gc_advance ` {tok \<in> set pre. passed_on rules p tok}"
  have "\<exists>s. reject_at_char rules p candidates = Some s \<and> ?I candidates s"
    unfolding reject_at_char_def
  proof (rule ofold_list_inv [where I = ?I])
    fix pre tok post and s :: "gr_candidate list \<times> gr_candidate list"
    assume c: "candidates = pre @ tok # post" and I: "?I pre s"
    obtain rejects nexts where s: "s = (rejects, nexts)" by (cases s)
    have ok: "candidate_ok tok" using c assms(4) by simp
    then obtain b where b: "match_partial_char rules p (gc_partial tok) = Some b"
      using match_partial_char_total [OF assms(1-3)] by (auto simp: candidate_ok_def)
    note m = match_char_ok(1) [OF assms(1-3)]
    show "\<exists>s'. (case s of (rejects, next_candidates) \<Rightarrow> do {
       c \<leftarrow> gc_head tok;
       if c = 0 then
         (if pu_n_remain (gc_partial tok) \<noteq> 0 then do {
            m \<leftarrow> match_partial_char rules p (gc_partial tok);
            Some (if \<not> m then rejects @ [tok] else rejects, next_candidates) }
          else Some (rejects, next_candidates))
       else do {
         (m, _) \<leftarrow> match_char rules p c;
         Some (if m then (rejects, next_candidates @ [tok\<lparr>gc_offset := gc_offset tok + 1\<rparr>])
               else (rejects @ [tok], next_candidates)) } }) = Some s' \<and> ?I (pre @ [tok]) s'"
    proof (cases "gc_points tok")
      case Nil
      with I s b gc_head_points [OF ok] show ?thesis
        by (auto simp: rejected_here_def passed_on_def)
    next
      case (Cons c w)
      with I s m [of c] gc_head_points [OF ok] gc_points_nonzero [OF Cons] show ?thesis
        by (auto simp: rejected_here_def passed_on_def)
    qed
  qed simp
  then show thesis using that by auto
qed

subsection \<open>Every stack settles somewhere\<close>

lemma expandable_settles:
  assumes "wf_rules rules" "Wellfounded.accp (\<lambda>y x. expands rules x y) st" "stack_ok rules st"
  shows "\<exists>x. (expands rules)\<^sup>*\<^sup>* st x \<and> settled rules x"
  using assms(2,3)
proof (induction rule: accp.induct)
  case (accI st)
  show ?case
  proof (cases "settled rules st")
    case False
    then have ne: "st \<noteq> []" by (auto simp: settled_def)
    then obtain e where e: "elem_at rules (last st) = Some e"
      using stack_top [OF accI.prems] by blast
    with False ne stack_top_kinds [OF accI.prems ne e] have r: "ge_type e = Gre_RULE_REF"
      by (auto simp: settled_def)
    obtain nexts rest where n: "expand_ref rules st (last st) (unat (ge_value e)) = Some nexts"
      and im: "stack_syms rules ` set nexts = (\<lambda>a. a @ rest) ` alt_syms (rules ! unat (ge_value e))"
      by (rule expand_ref_ok [OF assms(1) accI.prems ne e r]) (rule that)
    have "alt_syms (rules ! unat (ge_value e)) \<noteq> {}" by (auto simp: alt_syms_def)
    with im obtain st' where "st' \<in> set nexts" by fastforce
    then have x: "expands rules st st'" using expands.intros [OF ne e r n] by blast
    from accI.IH [OF x expands_ok [OF assms(1) accI.prems x]] x show ?thesis
      by (metis converse_rtranclp_into_rtranclp)
  qed blast
qed

text \<open>What the construction guarantees of a grammar without hidden empty rules.\<close>

definition well_behaved :: "gr_rules \<Rightarrow> bool" where
  "well_behaved rules \<longleftrightarrow> wf_rules rules \<and> advances rules \<and>
     (\<forall>st. stack_ok rules st \<longrightarrow> (\<exists>x. (expands rules)\<^sup>*\<^sup>* st x \<and> settled rules x))"

lemma well_behavedI:
  assumes "wf_rules rules" "empty_is_direct rules" "no_left_recursion rules"
  shows "well_behaved rules"
  unfolding well_behaved_def
  using assms advancesI expandable_settles accp_stack_syms expandable_all by blast

lemma advance_nonempty:
  assumes "well_behaved rules" "stack_ok rules st"
  obtains res where "advance_stack rules st [] = Some res" "res \<noteq> []" "stacks_ok rules res"
proof -
  from assms obtain res where res: "advance_stack rules st [] = Some res"
    unfolding well_behaved_def advances_def by blast
  moreover from assms obtain x where "(expands rules)\<^sup>*\<^sup>* st x" "settled rules x"
    unfolding well_behaved_def by blast
  with advance_stack_exact(1) [OF res] have "res \<noteq> []" by auto
  moreover have "stacks_ok rules res"
    using advance_stack_live(2) [OF _ assms(2) res] assms(1) by (simp add: well_behaved_def)
  ultimately show thesis by (rule that)
qed

subsection \<open>The rejected candidates\<close>

lemma reject_all_spec:
  assumes "stacks \<noteq> []"
    and "\<And>st cs. st \<in> set stacks \<Longrightarrow> set cs \<subseteq> set candidates \<Longrightarrow> candidates \<noteq> [] \<Longrightarrow>
      \<exists>r. f st cs = Some r \<and> set r = {tok \<in> set cs. \<not> S st tok}"
  shows "\<exists>r. reject_all f stacks candidates = Some r \<and>
    set r = {tok \<in> set candidates. \<forall>st \<in> set stacks. \<not> S st tok}"
proof (cases "candidates = []")
  case False
  obtain st0 stacks' where st: "stacks = st0 # stacks'" using assms(1) by (cases stacks) auto
  obtain r0 where r0: "f st0 candidates = Some r0" "set r0 = {tok \<in> set candidates. \<not> S st0 tok}"
    using assms(2) [of st0 candidates] st False by auto
  have "\<exists>r. ofold f stacks' r0 = Some r \<and>
      set r = {tok \<in> set candidates. \<forall>st \<in> insert st0 (set stacks'). \<not> S st tok}"
  proof (rule ofold_list_inv [where I = "\<lambda>pre r.
        set r = {tok \<in> set candidates. \<forall>st \<in> insert st0 (set pre). \<not> S st tok}"])
    fix pre st1 post r
    assume "stacks' = pre @ st1 # post"
      and r: "set r = {tok \<in> set candidates. \<forall>st \<in> insert st0 (set pre). \<not> S st tok}"
    then obtain r1 where "f st1 r = Some r1" "set r1 = {tok \<in> set r. \<not> S st1 tok}"
      using assms(2) [of st1 r] st False by auto
    with r show "\<exists>r'. f st1 r = Some r' \<and>
        set r' = {tok \<in> set candidates. \<forall>st \<in> insert st0 (set (pre @ [st1])). \<not> S st tok}"
      by auto
  qed (use r0 in auto)
  with st False r0 show ?thesis by (simp add: reject_all_def)
qed (use assms(1) in \<open>simp add: reject_all_def\<close>)

lemma filter_set_snoc: "{x \<in> set (xs @ [y]). P x} = {x \<in> set xs. P x} \<union> (if P y then {y} else {})"
  by auto

lemma reject_at_end_spec:
  assumes "\<forall>tok \<in> set candidates. candidate_ok tok"
  shows "\<exists>r. reject_at_end candidates = Some r \<and>
    set r = {tok \<in> set candidates. gc_points tok \<noteq> [] \<or> pu_n_remain (gc_partial tok) \<noteq> 0}"
  unfolding reject_at_end_def
proof (rule ofold_list_inv [where I = "\<lambda>pre r. set r =
      {tok \<in> set pre. gc_points tok \<noteq> [] \<or> pu_n_remain (gc_partial tok) \<noteq> 0}"])
  fix pre tok post r
  assume "candidates = pre @ tok # post"
    and r: "set r = {tok \<in> set pre. gc_points tok \<noteq> [] \<or> pu_n_remain (gc_partial tok) \<noteq> 0}"
  with assms have ok: "candidate_ok tok" by simp
  show "\<exists>r'. do {
       c \<leftarrow> gc_head tok;
       Some (if c \<noteq> 0 \<or> pu_n_remain (gc_partial tok) \<noteq> 0 then r @ [tok] else r) } = Some r' \<and>
      set r' = {t \<in> set (pre @ [tok]). gc_points t \<noteq> [] \<or> pu_n_remain (gc_partial t) \<noteq> 0}"
  proof (cases "gc_points tok")
    case Nil
    then have "gc_head tok = Some 0" using gc_head_points [OF ok] by simp
    with Nil r show ?thesis unfolding filter_set_snoc by simp
  next
    case (Cons c w)
    then have "gc_head tok = Some c" "c \<noteq> 0"
      using gc_head_points [OF ok] gc_points_nonzero [OF Cons] by simp_all
    with Cons r show ?thesis unfolding filter_set_snoc by simp
  qed
qed simp

lemma chr_successors_Nil [simp]: "chr_successors rules [] c = {}"
  by (simp add: chr_successors_def accept_chr_def)

lemma chr_successors_Char:
  assumes "wf_rules rules" "st \<noteq> []" "elem_at rules (last st) = Some e" "is_char_start (ge_type e)"
    and "push_ptr rules (after_char rules (last st)) (butlast st) = Some st'"
    and "advance_stack rules st' [] = Some res"
  shows "chr_successors rules st c = (if c \<in> char_set_at rules (last st) then set res else {})"
  using assms match_char_ok(1) [OF assms(1,3,4), of c]
  by (auto simp: chr_successors_def accept_chr_def is_char_start_def)

lemma survives_points:
  assumes "wf_rules rules" "st \<noteq> []" "elem_at rules (last st) = Some e" "is_char_start (ge_type e)"
    and "push_ptr rules (after_char rules (last st)) (butlast st) = Some st'"
    and "advance_stack rules st' [] = Some res" "candidate_ok tok"
  shows "\<not> survives rules st (gc_points tok) (gc_partial tok) \<longleftrightarrow>
    rejected_here rules (last st) tok \<or> passed_on rules (last st) tok \<and>
      (\<forall>x \<in> set res. \<not> survives rules x (gc_points (gc_advance tok)) (gc_partial (gc_advance tok)))"
proof (cases "gc_points tok")
  case Nil
  with assms(2) show ?thesis by (simp add: rejected_here_def passed_on_def)
next
  case (Cons c w)
  with chr_successors_Char [OF assms(1-6), of c] gc_advance_points(2) [OF assms(7) Cons] show ?thesis
    by (simp add: rejected_here_def passed_on_def)
qed

lemma reject_for_stack_spec:
  assumes "well_behaved rules" "no_tokens rules"
  shows "stack_ok rules st \<Longrightarrow> settled rules st \<Longrightarrow> \<forall>tok \<in> set candidates. candidate_ok tok \<Longrightarrow>
    \<forall>tok \<in> set candidates. length (gc_points tok) \<le> N \<Longrightarrow>
    \<exists>r. reject_candidates_for_stack rules st candidates = Some r \<and>
      set r = {tok \<in> set candidates. \<not> survives rules st (gc_points tok) (gc_partial tok)}"
proof (induction N arbitrary: st candidates rule: less_induct)
  case (less N)
  have wf: "wf_rules rules" using assms(1) by (simp add: well_behaved_def)
  from wf less.prems(1,2) show ?case
  proof (cases rule: settled_cases)
    case Empty
    have "\<not> survives rules [] (gc_points tok) (gc_partial tok) \<longleftrightarrow>
        gc_points tok \<noteq> [] \<or> pu_n_remain (gc_partial tok) \<noteq> 0" for tok
      by (cases "gc_points tok") auto
    moreover have "reject_candidates_for_stack rules [] candidates = reject_at_end candidates"
      by (subst reject_candidates_for_stack.simps) simp
    ultimately show ?thesis
      using reject_at_end_spec [OF less.prems(3)] unfolding Empty by (simp only:)
  next
    case (Tok e ss)
    with no_tokens_elem [OF assms(2)] show ?thesis by blast
  next
    case (Char e)
    let ?p = "last st"
    obtain rejects nexts where here: "reject_at_char rules ?p candidates = Some (rejects, nexts)"
      "set rejects = {tok \<in> set candidates. rejected_here rules ?p tok}"
      "set nexts = gc_advance ` {tok \<in> set candidates. passed_on rules ?p tok}"
      by (rule reject_at_char_spec [OF wf Char(2,3) less.prems(3)]) (rule that)
    note m = match_char_ok [OF wf Char(2,3)]
    from m(3) obtain e' where e': "elem_at rules (after_char rules ?p) = Some e'" "\<not> is_modifier e'"
      by blast
    obtain st' where st': "push_ptr rules (after_char rules ?p) (butlast st) = Some st'" "stack_ok rules st'"
      by (rule push_ptr_ok [OF e', where st = "butlast st"])
        (use that stack_ok_butlast [OF less.prems(1)] in blast)
    obtain res where res: "advance_stack rules st' [] = Some res" "res \<noteq> []" "stacks_ok rules res"
      by (rule advance_nonempty [OF assms(1) st'(2)]) (rule that)
    have nexts_ok: "candidate_ok t \<and> length (gc_points t) < N" if "t \<in> set nexts" for t
    proof -
      from that here(3) obtain tok where tok: "tok \<in> set candidates" "passed_on rules ?p tok"
        "t = gc_advance tok" by blast
      then obtain c w where p: "gc_points tok = c # w" by (auto simp: passed_on_def split: list.splits)
      with tok less.prems(3,4) have "candidate_ok tok" "length (c # w) \<le> N" by metis+
      with gc_advance_points [OF _ p] tok(3) show ?thesis by simp
    qed
    have "\<exists>r. reject_all (reject_candidates_for_stack rules) res nexts = Some r \<and>
        set r = {t \<in> set nexts. \<forall>x \<in> set res. \<not> survives rules x (gc_points t) (gc_partial t)}"
    proof (rule reject_all_spec [OF res(2)])
      fix x cs
      assume x: "x \<in> set res" and cs: "set cs \<subseteq> set nexts" and ne: "nexts \<noteq> []"
      from ne have "length (gc_points (hd nexts)) < N" using nexts_ok by simp
      then have N: "N - 1 < N" by simp
      show "\<exists>r. reject_candidates_for_stack rules x cs = Some r \<and>
          set r = {t \<in> set cs. \<not> survives rules x (gc_points t) (gc_partial t)}"
      proof (rule less.IH [OF N])
        show "stack_ok rules x" "settled rules x"
          using x res(3) by (simp_all add: stacks_ok_def)
        show "\<forall>t \<in> set cs. candidate_ok t" using cs nexts_ok by blast
        have "length (gc_points t) \<le> N - 1" if "t \<in> set cs" for t
        proof -
          from that cs have "t \<in> set nexts" by blast
          then have "length (gc_points t) < N" using nexts_ok by blast
          then show ?thesis by simp
        qed
        then show "\<forall>t \<in> set cs. length (gc_points t) \<le> N - 1" by blast
      qed
    qed
    then obtain r where r: "reject_all (reject_candidates_for_stack rules) res nexts = Some r"
      "set r = {t \<in> set nexts. \<forall>x \<in> set res. \<not> survives rules x (gc_points t) (gc_partial t)}"
      by blast
    let ?rewind = "\<lambda>tok. tok\<lparr>gc_offset := gc_offset tok - 1\<rparr> :: gr_candidate"
    have run: "reject_candidates_for_stack rules st candidates = Some (rejects @ map ?rewind r)"
      using Char(1-5) here(1) m(1) [of 0] st'(1) res(1) r(1)
      by (subst reject_candidates_for_stack.simps) simp
    have undo: "?rewind (gc_advance tok) = tok" for tok by simp
    have "set (map ?rewind r) = {tok \<in> set candidates. passed_on rules ?p tok \<and>
        (\<forall>x \<in> set res. \<not> survives rules x (gc_points (gc_advance tok)) (gc_partial (gc_advance tok)))}"
    proof -
      have "?rewind ` {t \<in> gc_advance ` A. P t} = {tok \<in> A. P (gc_advance tok)}" for A P
        using undo by (force simp: image_iff)
      then show ?thesis unfolding set_map r(2) here(3) by auto
    qed
    moreover have "\<not> survives rules st (gc_points tok) (gc_partial tok) \<longleftrightarrow>
        rejected_here rules ?p tok \<or> passed_on rules ?p tok \<and>
        (\<forall>x \<in> set res. \<not> survives rules x (gc_points (gc_advance tok)) (gc_partial (gc_advance tok)))"
      if "tok \<in> set candidates" for tok
      by (rule survives_points [OF wf Char(1-3) st'(1) res(1)]) (use that less.prems(3) in blast)
    ultimately show ?thesis
      using run here(2) by auto
  qed
qed

end
