(* ===== verification/GrammarUtf8.thy ===== *)
theory GrammarUtf8
  imports Grammar
begin

unbundle bit_operations_syntax

section \<open>Decoding text that arrives in pieces\<close>

text \<open>
  The text of a generation reaches the grammar as the pieces of the sampled tokens, which may end
  inside a character. Decoding piece by piece, with the unfinished character carried over, gives
  the code points of the whole text.
\<close>

subsection \<open>What a decoded piece looks like\<close>

lemma utf8_lookup_bound: "utf8_lookup ! unat (drop_bit 4 (b :: 8 word)) \<le> 4"
proof -
  have "unat b < 2 ^ LENGTH(8)" by (rule unsigned_less)
  then have "unat (drop_bit 4 b) < 16"
    by (simp add: drop_bit_eq_div unat_div)
  moreover have "utf8_lookup ! k \<le> 4" if "k < 16" for k
    using that by (auto simp: utf8_lookup_def less_Suc_eq numeral_eq_Suc nth_Cons')
  ultimately show ?thesis by simp
qed

lemma utf8_collect_spec:
  assumes "utf8_collect bs v n = (rest, v', n')"
  shows "n' \<le> n" "0 \<le> n \<Longrightarrow> 0 \<le> n'" "0 < n' \<Longrightarrow> rest = [] \<or> hd rest = 0"
  using assms by (induction bs v n rule: utf8_collect.induct) (auto split: if_splits)

lemma utf8_continue_spec:
  assumes "utf8_continue bs v n = Some (rest, v', n')"
  shows "n' \<le> n" "0 < n' \<Longrightarrow> rest = [] \<or> hd rest = 0" "n \<le> 0 \<Longrightarrow> rest = bs \<and> n' = n"
    "0 \<le> n \<Longrightarrow> 0 \<le> n'"
  using assms by (induction bs v n rule: utf8_continue.induct) (auto split: if_splits)

lemma utf8_sequences_end:
  "src = [] \<or> hd src = 0 \<Longrightarrow> utf8_sequences src cps v n = (cps @ [0], \<lparr>pu_value = v, pu_n_remain = n\<rparr>)"
  by (subst utf8_sequences.simps) simp

text \<open>One sequence, given its first byte and what the loop over its continuation bytes leaves.\<close>

lemma utf8_sequences_step:
  fixes b :: "8 word"
  assumes "b \<noteq> 0" "utf8_lookup ! unat (drop_bit 4 b) - 1 = m"
  shows "utf8_sequences (b # bs) cps v n =
    (if m < 0 then ([0], \<lparr>pu_value = 0, pu_n_remain = m\<rparr>)
     else case utf8_collect bs (ucast (b AND (push_bit (nat (7 - m)) 1 - 1))) m of
       (rest, v', n') \<Rightarrow> utf8_sequences rest (if n' = 0 then cps @ [v'] else cps) v' n')"
  using assms by (subst utf8_sequences.simps) (simp add: Let_def split: prod.split)

lemma utf8_sequences_shape:
  "n \<le> 3 \<Longrightarrow> pu_n_remain (snd (utf8_sequences src cps v n)) \<le> 3 \<and>
    (\<exists>out. fst (utf8_sequences src cps v n) = out @ [0] \<and>
      (0 \<le> pu_n_remain (snd (utf8_sequences src cps v n)) \<longrightarrow> length cps \<le> length out))"
proof (induction src arbitrary: cps v n rule: length_induct)
  case (1 src)
  show ?case
  proof (cases "src = [] \<or> hd src = 0")
    case True
    with "1.prems" show ?thesis by (simp add: utf8_sequences_end)
  next
    case False
    then obtain b bs where src: "src = b # bs" and b: "b \<noteq> 0" by (cases src) auto
    define m where "m = utf8_lookup ! unat (drop_bit 4 b) - 1"
    have m3: "m \<le> 3" using utf8_lookup_bound [of b] by (simp add: m_def)
    obtain rest v' n' where c:
      "utf8_collect bs (ucast (b AND (push_bit (nat (7 - m)) 1 - 1))) m = (rest, v', n')"
      by (metis prod.exhaust)
    note step = utf8_sequences_step [OF b m_def [symmetric], of bs cps v n]
    show ?thesis
    proof (cases "m < 0")
      case True
      then show ?thesis unfolding src step by simp
    next
      case nn: False
      have "length rest < length src"
        using utf8_collect_length [of bs _ m] c src by (metis fst_conv le_imp_less_Suc length_Cons)
      moreover have "n' \<le> 3" using utf8_collect_spec(1) [OF c] m3 by simp
      ultimately have IH: "pu_n_remain (snd (utf8_sequences rest cps' v' n')) \<le> 3 \<and>
          (\<exists>out. fst (utf8_sequences rest cps' v' n') = out @ [0] \<and>
            (0 \<le> pu_n_remain (snd (utf8_sequences rest cps' v' n')) \<longrightarrow> length cps' \<le> length out))"
        for cps' using "1.IH" by blast
      show ?thesis
        using IH [of "if n' = 0 then cps @ [v'] else cps"] nn
        unfolding src step c by (auto split: if_splits)
    qed
  qed
qed

lemma utf8_sequences_nonempty:
  assumes "src \<noteq> []" "hd src \<noteq> 0" "n \<le> 3" "utf8_sequences src cps v n = (out @ [0], p)"
    and "pu_n_remain p = 0"
  shows "length cps < length out"
proof -
  from assms(1,2) obtain b bs where src: "src = b # bs" and b: "b \<noteq> 0" by (cases src) auto
  define m where "m = utf8_lookup ! unat (drop_bit 4 b) - 1"
  have m3: "m \<le> 3" using utf8_lookup_bound [of b] by (simp add: m_def)
  obtain rest v' n' where c:
    "utf8_collect bs (ucast (b AND (push_bit (nat (7 - m)) 1 - 1))) m = (rest, v', n')"
    by (metis prod.exhaust)
  note step = utf8_sequences_step [OF b m_def [symmetric], of bs cps v n, unfolded c]
  have m0: "0 \<le> m" using assms(4,5) unfolding src step by (auto split: if_splits)
  have n'3: "n' \<le> 3" using utf8_collect_spec(1) [OF c] m3 by simp
  show ?thesis
  proof (cases "n' = 0")
    case True
    with utf8_sequences_shape [OF n'3, of rest "cps @ [v']" v'] assms(4,5) m0
    show ?thesis unfolding src step by auto
  next
    case False
    with utf8_collect_spec(2,3) [OF c] m0 have "rest = [] \<or> hd rest = 0" by simp
    with assms(4,5) m0 False show ?thesis
      unfolding src step by (auto simp: utf8_sequences_end)
  qed
qed

lemma decode_utf8_shape:
  assumes "decode_utf8 src start = (cps, p)" "pu_n_remain start \<le> 3"
  obtains out where "cps = out @ [0]" "pu_n_remain p \<le> 3"
    "src \<noteq> [] \<Longrightarrow> hd src \<noteq> 0 \<Longrightarrow> pu_n_remain p = 0 \<Longrightarrow> out \<noteq> []"
proof (cases "utf8_continue src (pu_value start) (pu_n_remain start)")
  case None
  with assms that [of "[]"] show ?thesis by (auto simp: decode_utf8_def)
next
  case (Some r)
  obtain rest v n where r: "r = (rest, v, n)" by (cases r)
  note c = utf8_continue_spec [OF Some [unfolded r]]
  let ?cps0 = "if pu_n_remain start > 0 \<and> n = 0 then [v] else []"
  have dec: "utf8_sequences rest ?cps0 v n = (cps, p)"
    using assms(1) Some r by (simp add: decode_utf8_def)
  have n3: "n \<le> 3" using c(1) assms(2) by simp
  from utf8_sequences_shape [OF n3, of rest ?cps0 v] dec obtain out
    where out: "cps = out @ [0]" "pu_n_remain p \<le> 3" "0 \<le> pu_n_remain p \<longrightarrow> length ?cps0 \<le> length out"
    by auto
  show ?thesis
  proof (rule that [OF out(1,2)])
    assume src: "src \<noteq> []" "hd src \<noteq> 0" and p0: "pu_n_remain p = 0"
    consider "pu_n_remain start \<le> 0" | "0 < pu_n_remain start" "n = 0" | "0 < n"
      using c(4) by linarith
    then show "out \<noteq> []"
    proof cases
      case 1
      with c(3) src have "rest \<noteq> []" "hd rest \<noteq> 0" by auto
      from utf8_sequences_nonempty [OF this n3 dec [unfolded out(1)] p0] show ?thesis by auto
    next
      case 2
      with out(3) p0 show ?thesis by auto
    next
      case 3
      with c(2) have "rest = [] \<or> hd rest = 0" by simp
      with dec 3 p0 show ?thesis by (auto simp: utf8_sequences_end)
    qed
  qed
qed

subsection \<open>Decoding as a state machine over bytes\<close>

definition lead_len :: "8 word \<Rightarrow> int" where
  "lead_len b = utf8_lookup ! unat (drop_bit 4 b) - 1"

definition utf8_step :: "u32 list \<times> u32 \<times> int \<Rightarrow> 8 word \<Rightarrow> u32 list \<times> u32 \<times> int" where
  "utf8_step s b = (case s of (cps, v, n) \<Rightarrow>
     if 0 < n then
       let v' = push_bit 6 v + ucast (b AND 0x3F) in (if n = 1 then cps @ [v'] else cps, v', n - 1)
     else
       let m = lead_len b; v' = ucast (b AND (push_bit (nat (7 - m)) 1 - 1))
       in (if m = 0 then cps @ [v'] else cps, v', m))"

lemma utf8_step_cont: "0 < n \<Longrightarrow> utf8_step (cps, v, n) b =
    (if n = 1 then cps @ [push_bit 6 v + ucast (b AND 0x3F)] else cps,
     push_bit 6 v + ucast (b AND 0x3F), n - 1)"
  by (simp add: utf8_step_def Let_def)

lemma utf8_step_lead: "n \<le> 0 \<Longrightarrow> utf8_step (cps, v, n) b =
    (if lead_len b = 0 then cps @ [ucast (b AND (push_bit (nat (7 - lead_len b)) 1 - 1))] else cps,
     ucast (b AND (push_bit (nat (7 - lead_len b)) 1 - 1)), lead_len b)"
  by (simp add: utf8_step_def Let_def)

text \<open>Bytes that continue as the first byte of each sequence announces, up to an unfinished end.\<close>

fun utf8_ok :: "int \<Rightarrow> gr_string \<Rightarrow> bool" where
  "utf8_ok n [] \<longleftrightarrow> True"
| "utf8_ok n (b # bs) \<longleftrightarrow> b \<noteq> 0 \<and>
     (if 0 < n then drop_bit 6 b = 2 \<and> utf8_ok (n - 1) bs
      else 0 \<le> lead_len b \<and> utf8_ok (lead_len b) bs)"

lemma utf8_collect_done [simp]: "utf8_collect bs v 0 = (bs, v, 0)"
  by (cases bs) auto

lemma utf8_continue_done [simp]: "utf8_continue bs v 0 = Some (bs, v, 0)"
  by (cases bs) auto

text \<open>Both loops over continuation bytes run the machine to the end of the character.\<close>

lemma utf8_collect_steps:
  assumes "0 < n" "utf8_ok n bs"
  shows "case utf8_collect bs v n of (rest, v', n') \<Rightarrow>
    foldl utf8_step (cps, v, n) bs = foldl utf8_step (if n' = 0 then cps @ [v'] else cps, v', n') rest \<and>
    utf8_ok n' rest \<and> utf8_continue bs v n = Some (rest, v', n') \<and> (0 < n' \<longrightarrow> rest = []) \<and> 0 \<le> n'"
  using assms
proof (induction bs v n rule: utf8_collect.induct)
  case (2 b bs v n)
  let ?v = "push_bit 6 v + ucast (b AND 0x3F)"
  from 2 have b: "b \<noteq> 0" "drop_bit 6 b = 2" "utf8_ok (n - 1) bs" by auto
  show ?case
  proof (cases "n = 1")
    case True
    with b show ?thesis by (simp add: utf8_step_cont)
  next
    case False
    with 2 b show ?thesis by (simp add: utf8_step_cont split: prod.splits)
  qed
qed simp

lemma utf8_sequences_steps:
  "utf8_ok 0 src \<Longrightarrow> utf8_sequences src cps v 0 =
    (case foldl utf8_step (cps, v, 0) src of (cps', v', n') \<Rightarrow>
      (cps' @ [0], \<lparr>pu_value = v', pu_n_remain = n'\<rparr>))"
proof (induction src arbitrary: cps v rule: length_induct)
  case (1 src)
  show ?case
  proof (cases src)
    case Nil
    then show ?thesis by (simp add: utf8_sequences_end)
  next
    case (Cons b bs)
    let ?m = "lead_len b"
    let ?v = "ucast (b AND (push_bit (nat (7 - ?m)) 1 - 1)) :: u32"
    from 1(2) Cons have b: "b \<noteq> 0" "0 \<le> ?m" "utf8_ok ?m bs" by auto
    note step = utf8_sequences_step [OF b(1) lead_len_def [symmetric], where bs = bs and cps = cps and v = v and n = 0]
    obtain rest v' n' where c: "utf8_collect bs ?v ?m = (rest, v', n')" by (metis prod.exhaust)
    have len: "length rest < length src"
      using utf8_collect_length [of bs ?v ?m] c Cons by simp
    have first: "foldl utf8_step (cps, v, 0) src =
        foldl utf8_step (if ?m = 0 then cps @ [?v] else cps, ?v, ?m) bs"
      unfolding Cons by (simp add: utf8_step_lead)
    show ?thesis
    proof (cases "?m = 0")
      case True
      with c have "rest = bs" "v' = ?v" "n' = 0" by auto
      with 1(1) len b True show ?thesis
        unfolding first unfolding Cons step c by simp
    next
      case False
      with b(2) have m: "0 < ?m" by simp
      from utf8_collect_steps [OF m b(3), where v = ?v and cps = cps] c
      have r: "foldl utf8_step (cps, ?v, ?m) bs =
          foldl utf8_step (if n' = 0 then cps @ [v'] else cps, v', n') rest"
        "utf8_ok n' rest" "0 < n' \<longrightarrow> rest = []" "0 \<le> n'" by auto
      show ?thesis
      proof (cases "n' = 0")
        case True
        with 1(1) len r b False show ?thesis
          unfolding first unfolding Cons step c by simp
      next
        case nz: False
        with r have "rest = []" by simp
        with r nz b False show ?thesis
          unfolding first unfolding Cons step c by (simp add: utf8_sequences_end)
      qed
    qed
  qed
qed

lemma decode_steps:
  assumes "0 \<le> n" "utf8_ok n src"
  shows "decode_utf8 src \<lparr>pu_value = v, pu_n_remain = n\<rparr> =
    (case foldl utf8_step ([], v, n) src of (cps', v', n') \<Rightarrow>
      (cps' @ [0], \<lparr>pu_value = v', pu_n_remain = n'\<rparr>))"
proof (cases "n = 0")
  case True
  with assms show ?thesis by (simp add: decode_utf8_def utf8_sequences_steps)
next
  case False
  with assms(1) have n: "0 < n" by simp
  obtain rest v' n' where c: "utf8_collect src v n = (rest, v', n')" by (metis prod.exhaust)
  from utf8_collect_steps [OF n assms(2), where v = v and cps = "[]"] c
  have r: "foldl utf8_step ([], v, n) src = foldl utf8_step (if n' = 0 then [v'] else [], v', n') rest"
    "utf8_ok n' rest" "utf8_continue src v n = Some (rest, v', n')" "0 < n' \<longrightarrow> rest = []" "0 \<le> n'"
    by auto
  show ?thesis
  proof (cases "n' = 0")
    case True
    with n r show ?thesis by (simp add: decode_utf8_def utf8_sequences_steps)
  next
    case nz: False
    with r have "rest = []" by simp
    with r n nz show ?thesis by (simp add: decode_utf8_def utf8_sequences_end)
  qed
qed

lemma utf8_ok_append:
  "utf8_ok n (xs @ ys) \<Longrightarrow> 0 \<le> n \<Longrightarrow>
    utf8_ok n xs \<and> utf8_ok (snd (snd (foldl utf8_step (cps, v, n) xs))) ys \<and>
    0 \<le> snd (snd (foldl utf8_step (cps, v, n) xs))"
proof (induction xs arbitrary: n cps v)
  case (Cons b xs)
  obtain cps' v' n' where s: "utf8_step (cps, v, n) b = (cps', v', n')" by (metis prod.exhaust)
  then have "n' = (if 0 < n then n - 1 else lead_len b)"
    by (auto simp: utf8_step_def Let_def split: if_splits)
  with Cons s show ?case by (auto split: if_splits)
qed simp

text \<open>The code points collected so far are only appended to.\<close>

lemma utf8_steps_prefix:
  "foldl utf8_step (cps, v, n) bs =
    (cps @ fst (foldl utf8_step ([], v, n) bs), snd (foldl utf8_step ([], v, n) bs))"
proof (induction bs arbitrary: cps v n)
  case (Cons b bs)
  obtain cps' v' n' where s: "utf8_step ([], v, n) b = (cps', v', n')" by (metis prod.exhaust)
  then have "utf8_step (cps, v, n) b = (cps @ cps', v', n')"
    by (auto simp: utf8_step_def Let_def split: if_splits)
  with s Cons.IH [of "cps @ cps'" v' n'] Cons.IH [of cps' v' n'] show ?case by simp
qed simp

subsection \<open>Pieces\<close>

fun decode_pieces :: "gr_string list \<Rightarrow> gr_partial_utf8 \<Rightarrow> u32 list \<times> gr_partial_utf8" where
  "decode_pieces [] partial = ([], partial)"
| "decode_pieces (piece # pieces) partial =
     (let decoded = decode_utf8 piece partial; rest = decode_pieces pieces (snd decoded)
      in (butlast (fst decoded) @ fst rest, snd rest))"

lemma decode_pieces_steps:
  "utf8_ok n (concat pieces) \<Longrightarrow> 0 \<le> n \<Longrightarrow>
    decode_pieces pieces \<lparr>pu_value = v, pu_n_remain = n\<rparr> =
      (case foldl utf8_step ([], v, n) (concat pieces) of (cps', v', n') \<Rightarrow>
        (cps', \<lparr>pu_value = v', pu_n_remain = n'\<rparr>))"
proof (induction pieces arbitrary: v n)
  case (Cons piece pieces)
  obtain cps' v' n' where f: "foldl utf8_step ([], v, n) piece = (cps', v', n')" by (metis prod.exhaust)
  from utf8_ok_append [of n piece "concat pieces" "[]" v] Cons.prems f
  have ok: "utf8_ok n piece" "utf8_ok n' (concat pieces)" "0 \<le> n'" by auto
  have d: "decode_utf8 piece \<lparr>pu_value = v, pu_n_remain = n\<rparr> =
      (cps' @ [0], \<lparr>pu_value = v', pu_n_remain = n'\<rparr>)"
    using decode_steps [OF Cons.prems(2) ok(1)] f by simp
  from Cons.IH [OF ok(2,3), of v'] utf8_steps_prefix [of cps' v' n' "concat pieces"] d f
  show ?case by (simp add: Let_def split: prod.splits)
qed simp

subsection \<open>Encoding\<close>

definition utf8_encode :: "nat \<Rightarrow> gr_string" where
  "utf8_encode c = map word_of_nat
     (if c < 0x80 then [c]
      else if c < 0x800 then [0xC0 + c div 64, 0x80 + c mod 64]
      else if c < 0x10000 then [0xE0 + c div 4096, 0x80 + c div 64 mod 64, 0x80 + c mod 64]
      else [0xF0 + c div 262144, 0x80 + c div 4096 mod 64, 0x80 + c div 64 mod 64, 0x80 + c mod 64])"

lemma byte_and: "k < 256 \<Longrightarrow> j \<le> 8 \<Longrightarrow>
    (word_of_nat k :: 8 word) AND (push_bit j 1 - 1) = word_of_nat (k mod 2 ^ j)"
proof -
  assume "j \<le> 8"
  have "(word_of_nat k :: 8 word) AND (push_bit j 1 - 1) = take_bit j (word_of_nat k)"
    by (simp add: take_bit_eq_mask mask_eq_exp_minus_1)
  also have "\<dots> = word_of_nat (take_bit j k)"
    using \<open>j \<le> 8\<close> by (simp add: take_bit_of_nat [symmetric])
  finally show ?thesis by (simp add: take_bit_eq_mod)
qed

lemma byte_unat: "k < 256 \<Longrightarrow> unat (word_of_nat k :: 8 word) = k"
  by (simp add: unsigned_of_nat take_bit_nat_eq_self)

lemma byte_ucast: "k < 256 \<Longrightarrow> (ucast (word_of_nat k :: 8 word) :: u32) = word_of_nat k"
  by (simp add: unsigned_of_nat take_bit_nat_eq_self)

lemma byte_nonzero: "0 < k \<Longrightarrow> k < 256 \<Longrightarrow> (word_of_nat k :: 8 word) \<noteq> 0"
  using byte_unat [of k] by (metis less_numeral_extra(3) unsigned_0)

lemma byte_drop:
  assumes "k < 256"
  shows "unat (drop_bit 4 (word_of_nat k :: 8 word)) = k div 16"
    "unat (drop_bit 6 (word_of_nat k :: 8 word)) = k div 64"
  using byte_unat [OF assms] by (simp_all add: drop_bit_eq_div unat_div)

lemma byte_lead_len: "k < 256 \<Longrightarrow> lead_len (word_of_nat k) = utf8_lookup ! (k div 16) - 1"
  by (simp only: lead_len_def byte_drop)

lemma byte_cont:
  assumes "k < 64"
  shows "(word_of_nat (128 + k) :: 8 word) \<noteq> 0" "drop_bit 6 (word_of_nat (128 + k) :: 8 word) = 2"
    "(ucast ((word_of_nat (128 + k) :: 8 word) AND 0x3F) :: u32) = word_of_nat k"
proof -
  show "(word_of_nat (128 + k) :: 8 word) \<noteq> 0" by (rule byte_nonzero) (use assms in simp_all)
  have "unat (drop_bit 6 (word_of_nat (128 + k) :: 8 word)) = unat (2 :: 8 word)"
    using byte_drop(2) [of "128 + k"] assms by simp
  then show "drop_bit 6 (word_of_nat (128 + k) :: 8 word) = 2" by (simp only: word_unat_eq_iff)
  have m: "(0x3F :: 8 word) = push_bit 6 1 - 1" by simp
  have "(word_of_nat (128 + k) :: 8 word) AND 0x3F = word_of_nat k"
  proof -
    have k: "128 + k < 256" using assms by simp
    have "(128 + k) mod 64 = k" using mod_mult_self2 [of k 64 2] assms by (simp add: add.commute)
    then have "(128 + k) mod 2 ^ 6 = k" by simp
    with byte_and [OF k, of 6] show ?thesis unfolding m by (simp only:)
  qed
  then show "(ucast ((word_of_nat (128 + k) :: 8 word) AND 0x3F) :: u32) = word_of_nat k"
    using byte_ucast [of k] assms by simp
qed

lemma shift_in: "push_bit 6 (word_of_nat a :: u32) + word_of_nat b = word_of_nat (a * 64 + b)"
  by (simp add: push_bit_eq_mult)

lemma step_cont:
  assumes "k < 64" "0 < n"
  shows "utf8_step (cps, word_of_nat a, n) (word_of_nat (128 + k)) =
    (if n = 1 then cps @ [word_of_nat (a * 64 + k)] else cps, word_of_nat (a * 64 + k), n - 1)"
  unfolding utf8_step_cont [OF assms(2)] byte_cont(3) [OF assms(1)] shift_in by simp

lemma step_last:
  assumes "k < 64" "a * 64 + k = a'"
  shows "utf8_step (cps, word_of_nat a, 1) (word_of_nat (128 + k)) =
    (cps @ [word_of_nat a'], word_of_nat a', 0)"
  using step_cont [OF assms(1), of 1 cps a] unfolding assms(2) by simp

lemma step_mid:
  assumes "k < 64" "a * 64 + k = a'" "1 < n"
  shows "utf8_step (cps, word_of_nat a, n) (word_of_nat (128 + k)) = (cps, word_of_nat a', n - 1)"
  using step_cont [OF assms(1), of n cps a] assms(3) unfolding assms(2) by simp

lemma step_lead:
  assumes "k < 256" "utf8_lookup ! (k div 16) - 1 = m" "0 \<le> m" "m \<le> 7"
  shows "utf8_step (cps, v, 0) (word_of_nat k) =
    (if m = 0 then cps @ [word_of_nat (k mod 2 ^ nat (7 - m))] else cps,
     word_of_nat (k mod 2 ^ nat (7 - m)), m)"
proof -
  have "k mod 2 ^ nat (7 - m) < 256" using assms(1) by (meson le_less_trans mod_less_eq_dividend)
  moreover have "nat (7 - m) \<le> 8" using assms(3) by simp
  ultimately have "(ucast ((word_of_nat k :: 8 word) AND (push_bit (nat (7 - m)) 1 - 1)) :: u32) =
      word_of_nat (k mod 2 ^ nat (7 - m))"
    using byte_and [OF assms(1), of "nat (7 - m)"] byte_ucast by simp
  moreover have "lead_len (word_of_nat k) = m"
    using byte_lead_len [OF assms(1)] assms(2) by simp
  ultimately show ?thesis
    by (simp only: utf8_step_lead [OF order.refl])
qed

lemma utf8_ok_conts:
  assumes "k < 64"
  shows "utf8_ok 1 (word_of_nat (128 + k) # bs) \<longleftrightarrow> utf8_ok 0 bs"
    "utf8_ok 2 (word_of_nat (128 + k) # bs) \<longleftrightarrow> utf8_ok 1 bs"
    "utf8_ok 3 (word_of_nat (128 + k) # bs) \<longleftrightarrow> utf8_ok 2 bs"
  using byte_cont(1,2) [OF assms] by simp_all

lemma utf8_ok_lead: "0 < k \<Longrightarrow> k < 256 \<Longrightarrow> utf8_lookup ! (k div 16) - 1 = m \<Longrightarrow> 0 \<le> m \<Longrightarrow>
    utf8_ok 0 (word_of_nat k # bs) \<longleftrightarrow> utf8_ok m bs"
  using byte_nonzero byte_lead_len by simp

lemma lead_2:
  fixes d :: nat
  assumes "d < 32"
  shows "(0xC0 + d) div 16 = 12 \<or> (0xC0 + d) div 16 = 13" "(0xC0 + d) mod 64 = d"
proof -
  have "d div 16 < 2" using assms by (simp add: less_mult_imp_div_less)
  moreover have "(0xC0 + d) div 16 = 12 + d div 16"
    using div_mult_self2 [of 16 d 12] by (simp add: add.commute)
  ultimately show "(0xC0 + d) div 16 = 12 \<or> (0xC0 + d) div 16 = 13" by linarith
  show "(0xC0 + d) mod 64 = d"
    using mod_mult_self2 [of d 64 3] assms by (simp add: add.commute)
qed

lemma lead_3: "(d :: nat) < 16 \<Longrightarrow> (0xE0 + d) div 16 = 14 \<and> (0xE0 + d) mod 32 = d"
  using div_mult_self2 [of 16 d 14] mod_mult_self2 [of d 32 7] by (simp add: add.commute)

lemma lead_4: "(d :: nat) < 16 \<Longrightarrow> (0xF0 + d) div 16 = 15 \<and> (0xF0 + d) mod 16 = d"
  using div_mult_self2 [of 16 d 15] mod_mult_self2 [of d 16 15] by (simp add: add.commute)

lemma digits:
  fixes c :: nat
  shows "c div 4096 * 64 + c div 64 mod 64 = c div 64"
    "c div 262144 * 64 + c div 4096 mod 64 = c div 4096"
  using div_mult_mod_eq [of "c div 64" 64] div_mult_mod_eq [of "c div 4096" 64]
    div_mult2_eq [of c 64 64] div_mult2_eq [of c 4096 64] by simp_all

text \<open>One encoded character runs the machine to exactly that code point.\<close>

lemma encode_steps:
  assumes "0 < c" "c < 0x110000"
  shows "foldl utf8_step (cps, v, 0) (utf8_encode c) = (cps @ [word_of_nat c], word_of_nat c, 0)"
    and "utf8_ok 0 (utf8_encode c @ bs) \<longleftrightarrow> utf8_ok 0 bs"
proof -
  consider "c < 0x80" | "0x80 \<le> c" "c < 0x800" | "0x800 \<le> c" "c < 0x10000" | "0x10000 \<le> c"
    by linarith
  then have "foldl utf8_step (cps, v, 0) (utf8_encode c) = (cps @ [word_of_nat c], word_of_nat c, 0) \<and>
    (utf8_ok 0 (utf8_encode c @ bs) \<longleftrightarrow> utf8_ok 0 bs)"
  proof cases
    case 1
    then have l: "utf8_lookup ! (c div 16) - 1 = 0"
      by (auto simp: utf8_lookup_def nth_Cons')
    with 1 assms step_lead [OF _ l] utf8_ok_lead [OF assms(1) _ l] show ?thesis
      by (simp add: utf8_encode_def)
  next
    case 2
    let ?k = "0xC0 + c div 64"
    have enc: "utf8_encode c = map word_of_nat [?k, 128 + c mod 64]"
      using 2 by (simp add: utf8_encode_def)
    have d: "c div 64 < 32" using 2 by (simp add: less_mult_imp_div_less)
    then have k: "?k < 256" "0 < ?k" by simp_all
    have l: "utf8_lookup ! (?k div 16) - 1 = 1"
      using lead_2(1) [OF d] by (elim disjE) (simp_all only:, simp_all add: utf8_lookup_def)
    note lead_2(2) [OF d]
    with step_lead [OF k(1) l] have s: "utf8_step (cps, v, 0) (word_of_nat ?k) =
        (cps, word_of_nat (c div 64), 1)" by simp
    have m: "c mod 64 < 64" by simp
    have "utf8_ok 0 (utf8_encode c @ bs) \<longleftrightarrow> utf8_ok 0 bs"
      unfolding enc list.map append.simps utf8_ok_lead [OF k(2,1) l zero_le_one] utf8_ok_conts(1) [OF m]
      by (rule refl)
    then show ?thesis
      unfolding enc list.map foldl.simps s step_last [OF m div_mult_mod_eq] by blast
  next
    case 3
    let ?k = "0xE0 + c div 4096"
    have enc: "utf8_encode c = map word_of_nat [?k, 128 + c div 64 mod 64, 128 + c mod 64]"
      using 3 by (simp add: utf8_encode_def)
    have d: "c div 4096 < 16" using 3 by (simp add: less_mult_imp_div_less)
    then have k: "?k < 256" "0 < ?k" by simp_all
    have l: "utf8_lookup ! (?k div 16) - 1 = 2"
      unfolding conjunct1 [OF lead_3 [OF d]] by (simp add: utf8_lookup_def)
    note conjunct2 [OF lead_3 [OF d]]
    with step_lead [OF k(1) l] have s: "utf8_step (cps, v, 0) (word_of_nat ?k) =
        (cps, word_of_nat (c div 4096), 2)" by simp
    have m: "c div 64 mod 64 < 64" "c mod 64 < 64" by simp_all
    note e = digits(1) [of c]
    have "utf8_step (cps, word_of_nat (c div 4096), 2) (word_of_nat (128 + c div 64 mod 64)) =
        (cps, word_of_nat (c div 64), 1)"
      using step_mid [OF m(1) e, of 2 cps] by simp
    note steps = s this step_last [OF m(2) div_mult_mod_eq]
    have "utf8_ok 0 (utf8_encode c @ bs) \<longleftrightarrow> utf8_ok 0 bs"
      unfolding enc list.map append.simps utf8_ok_lead [OF k(2,1) l zero_le_numeral]
        utf8_ok_conts(2) [OF m(1)] utf8_ok_conts(1) [OF m(2)]
      by (rule refl)
    then show ?thesis
      unfolding enc list.map foldl.simps steps by blast
  next
    case 4
    let ?k = "0xF0 + c div 262144"
    have enc: "utf8_encode c = map word_of_nat
        [?k, 128 + c div 4096 mod 64, 128 + c div 64 mod 64, 128 + c mod 64]"
      using 4 by (simp add: utf8_encode_def)
    have d: "c div 262144 < 16" using assms(2) by (simp add: less_mult_imp_div_less)
    then have k: "?k < 256" "0 < ?k" by simp_all
    have l: "utf8_lookup ! (?k div 16) - 1 = 3"
      unfolding conjunct1 [OF lead_4 [OF d]] by (simp add: utf8_lookup_def)
    note conjunct2 [OF lead_4 [OF d]]
    with step_lead [OF k(1) l] have s: "utf8_step (cps, v, 0) (word_of_nat ?k) =
        (cps, word_of_nat (c div 262144), 3)" by simp
    have m: "c div 4096 mod 64 < 64" "c div 64 mod 64 < 64" "c mod 64 < 64" by simp_all
    note e = digits(2,1) [of c]
    have "utf8_step (cps, word_of_nat (c div 262144), 3) (word_of_nat (128 + c div 4096 mod 64)) =
        (cps, word_of_nat (c div 4096), 2)"
      "utf8_step (cps, word_of_nat (c div 4096), 2) (word_of_nat (128 + c div 64 mod 64)) =
        (cps, word_of_nat (c div 64), 1)"
      using step_mid [OF m(1) e(1), of 3 cps] step_mid [OF m(2) e(2), of 2 cps] by simp_all
    note steps = s this step_last [OF m(3) div_mult_mod_eq]
    have "utf8_ok 0 (utf8_encode c @ bs) \<longleftrightarrow> utf8_ok 0 bs"
      unfolding enc list.map append.simps utf8_ok_lead [OF k(2,1) l zero_le_numeral]
        utf8_ok_conts(3) [OF m(1)] utf8_ok_conts(2) [OF m(2)] utf8_ok_conts(1) [OF m(3)]
      by (rule refl)
    then show ?thesis
      unfolding enc list.map foldl.simps steps by blast
  qed
  then show "foldl utf8_step (cps, v, 0) (utf8_encode c) = (cps @ [word_of_nat c], word_of_nat c, 0)"
    and "utf8_ok 0 (utf8_encode c @ bs) \<longleftrightarrow> utf8_ok 0 bs" by blast+
qed

lemma encode_text_steps:
  assumes "\<forall>c \<in> set cs. 0 < c \<and> c < 0x110000"
  shows "fst (foldl utf8_step (cps, v, 0) (concat (map utf8_encode cs))) = cps @ map word_of_nat cs"
    and "snd (snd (foldl utf8_step (cps, v, 0) (concat (map utf8_encode cs)))) = 0"
    and "utf8_ok 0 (concat (map utf8_encode cs))"
  using assms by (induction cs arbitrary: cps v) (simp_all add: encode_steps)

text \<open>
  C10: Text decodes to its characters however it is cut into pieces. Decoding the pieces of an
  encoded text one after the other, each with the unfinished character of the one before, yields
  the code points of the text in order and leaves no unfinished character.
\<close>

theorem decode_pieces_roundtrip:
  assumes "concat pieces = concat (map utf8_encode cs)" "\<forall>c \<in> set cs. 0 < c \<and> c < 0x110000"
  shows "fst (decode_pieces pieces \<lparr>pu_value = v, pu_n_remain = 0\<rparr>) = map word_of_nat cs \<and>
    pu_n_remain (snd (decode_pieces pieces \<lparr>pu_value = v, pu_n_remain = 0\<rparr>)) = 0"
proof -
  from encode_text_steps(3) [OF assms(2)] assms(1) have ok: "utf8_ok 0 (concat pieces)" by simp
  from decode_pieces_steps [OF ok, of v] encode_text_steps(1,2) [OF assms(2), where cps = "[]" and v = v] assms(1)
  show ?thesis by (simp split: prod.splits)
qed

theorem decode_pieces_roundtrip_witness:
  "fst (decode_pieces [[0xC3], [0xA9, 0x78]] \<lparr>pu_value = 0, pu_n_remain = 0\<rparr>) = [0xE9, 0x78]"
  using decode_pieces_roundtrip [of "[[0xC3], [0xA9, 0x78]]" "[0xE9, 0x78]" 0]
  by (simp add: utf8_encode_def)

end
