(* ===== verification/GrammarMask.thy ===== *)
theory GrammarMask
  imports GrammarReject GrammarUtf8
begin

unbundle bit_operations_syntax

section \<open>Masking agrees with accepting\<close>

text \<open>
  \<open>llama_grammar_apply_impl\<close> lets a token through exactly when \<open>llama_grammar_accept_impl\<close> would
  take it, and leave the grammar where the bytes of an unfinished character can still go on.
\<close>

subsection \<open>Accepting a token, for grammars without token elements\<close>

lemma accept_stacks_set:
  assumes "wf_rules rules" "advances rules" "stacks_ok rules stacks" "accept_stacks rules c stacks = Some res"
  shows "set res = (\<Union>st \<in> set stacks. chr_successors rules st c)"
proof -
  have "\<exists>res. ofold (\<lambda>stack stacks_new. accept_chr rules stack c stacks_new) stacks [] = Some res \<and>
      set res = (\<Union>st \<in> set stacks. chr_successors rules st c)"
  proof (rule ofold_list_inv)
    fix pre st post res
    assume c: "stacks = pre @ st # post" and I: "set res = (\<Union>st \<in> set pre. chr_successors rules st c)"
    then have ok: "stack_ok rules st" "settled rules st"
      using assms(3) by (auto simp: stacks_ok_def)
    from accept_chr_ok [OF assms(1,2) ok, of c res] obtain res'
      where res': "accept_chr rules st c res = Some res'" by blast
    with accept_chr_set [OF assms(1,2) ok res'] I
    show "\<exists>res'. accept_chr rules st c res = Some res' \<and>
        set res' = (\<Union>st \<in> set (pre @ [st]). chr_successors rules st c)"
      by auto
  qed simp
  with assms(4) show ?thesis by (simp add: accept_stacks_def)
qed

lemma token_run:
  assumes "wf_rules rules" "advances rules" "stacks_ok rules stacks"
  shows "\<exists>res. ofold (\<lambda>chr cur. if cur = [] then Some cur else accept_stacks rules chr cur) w stacks =
      Some res \<and> stacks_ok rules res \<and>
      (\<forall>p. (\<exists>st \<in> set stacks. survives rules st w p) \<longleftrightarrow> (\<exists>st \<in> set res. survives rules st [] p)) \<and>
      (res \<noteq> [] \<longleftrightarrow> (\<exists>st \<in> set stacks. survives rules st w \<lparr>pu_value = 0, pu_n_remain = 0\<rparr>))"
proof -
  have "\<exists>res. ofold (\<lambda>chr cur. if cur = [] then Some cur else accept_stacks rules chr cur) w stacks =
      Some res \<and> stacks_ok rules res \<and>
      (\<forall>p. (\<exists>st \<in> set stacks. survives rules st w p) \<longleftrightarrow> (\<exists>st \<in> set res. survives rules st [] p))"
    using assms(3)
  proof (induction w arbitrary: stacks)
    case (Cons c w)
    from accept_stacks_ok [OF assms(1,2) Cons.prems, of c] obtain s1
      where s1: "accept_stacks rules c stacks = Some s1" "stacks_ok rules s1" by blast
    note set1 = accept_stacks_set [OF assms(1,2) Cons.prems s1(1)]
    from Cons.IH [OF s1(2)] obtain res where res:
      "ofold (\<lambda>chr cur. if cur = [] then Some cur else accept_stacks rules chr cur) w s1 = Some res"
      "stacks_ok rules res"
      "\<forall>p. (\<exists>st \<in> set s1. survives rules st w p) \<longleftrightarrow> (\<exists>st \<in> set res. survives rules st [] p)"
      by blast
    have "(if stacks = [] then Some stacks else accept_stacks rules c stacks) = Some s1"
      using s1(1) by (auto simp: accept_stacks_def)
    moreover have "(\<exists>st \<in> set stacks. survives rules st (c # w) p) \<longleftrightarrow>
        (\<exists>st \<in> set s1. survives rules st w p)" for p
      unfolding set1 by auto
    ultimately show ?case using res by (simp del: survives.simps)
  qed (simp del: survives.simps)
  then show ?thesis by (metis (no_types, lifting) list.set_intros(1) neq_Nil_conv survives.simps(1)
      gr_partial_utf8.select_convs(2) empty_iff empty_set)
qed

lemma set_fold_add_stack: "set (fold add_stack xs ys) = set ys \<union> set xs"
  by (induction xs arbitrary: ys) auto

lemma accept_token_spec:
  assumes "well_behaved rules" "no_tokens rules" "stacks_ok rules stacks"
  shows "\<exists>res. ofold (accept_token_stack rules token (w @ [0])) stacks [] = Some res \<and>
    (\<forall>p. (\<exists>st \<in> set res. survives rules st [] p) \<longleftrightarrow>
      (\<exists>st \<in> set stacks. st \<noteq> [] \<and> survives rules st w p))"
proof (rule ofold_list_inv)
  fix pre st post res
  assume c: "stacks = pre @ st # post"
    and I: "\<forall>p. (\<exists>st \<in> set res. survives rules st [] p) \<longleftrightarrow>
      (\<exists>st \<in> set pre. st \<noteq> [] \<and> survives rules st w p)"
  from assms(1) have wf: "wf_rules rules" and adv: "advances rules" by (simp_all add: well_behaved_def)
  from c assms(3) have ok: "stack_ok rules st" "settled rules st" by (auto simp: stacks_ok_def)
  show "\<exists>res'. accept_token_stack rules token (w @ [0]) st res = Some res' \<and>
      (\<forall>p. (\<exists>st \<in> set res'. survives rules st [] p) \<longleftrightarrow>
        (\<exists>st \<in> set (pre @ [st]). st \<noteq> [] \<and> survives rules st w p))"
    using wf ok
  proof (cases rule: settled_cases)
    case Empty
    with I show ?thesis by (simp add: accept_token_stack_def del: survives.simps)
  next
    case (Tok e ss)
    with no_tokens_elem [OF assms(2)] show ?thesis by blast
  next
    case (Char e)
    have "stacks_ok rules [st]" using ok by (simp add: stacks_ok_def)
    from token_run [OF wf adv this, of w] obtain cur where cur:
      "ofold (\<lambda>chr cur. if cur = [] then Some cur else accept_stacks rules chr cur) w [st] = Some cur"
      "\<forall>p. survives rules st w p \<longleftrightarrow> (\<exists>x \<in> set cur. survives rules x [] p)"
      by (auto simp del: survives.simps)
    have "accept_token_stack rules token (w @ [0]) st res = Some (fold add_stack cur res)"
      using Char cur(1) by (simp add: accept_token_stack_def)
    moreover have "(\<exists>x \<in> set (fold add_stack cur res). survives rules x [] p) \<longleftrightarrow>
        (\<exists>x \<in> set (pre @ [st]). x \<noteq> [] \<and> survives rules x w p)" for p
      unfolding set_fold_add_stack using I cur(2) Char(1) by (auto simp del: survives.simps)
    ultimately show ?thesis by blast
  qed
qed simp

subsection \<open>Masking\<close>

text \<open>Whether the grammar takes a token and, within an unfinished character, can go on after it.\<close>

definition token_fits :: "gr_vocab \<Rightarrow> gr_grammar \<Rightarrow> llama_token \<Rightarrow> bool" where
  "token_fits vocab g token \<longleftrightarrow>
     (\<exists>g'. gr_accept_impl vocab g token = Some (Gr_ok g') \<and>
       (gv_is_eog vocab token \<or>
        gv_token_to_piece vocab token \<noteq> [] \<and> hd (gv_token_to_piece vocab token) \<noteq> 0 \<and>
        (pu_n_remain (gr_partial g') = 0 \<or>
         (\<exists>st \<in> set (gr_stacks g'). st \<noteq> [] \<and>
            match_partial_char (gr_rules_of g') (last st) (gr_partial g') = Some True))))"

text \<open>A state of the sampler: a grammar that is constraining, on well-behaved rules.\<close>

definition gr_ready :: "gr_grammar \<Rightarrow> bool" where
  "gr_ready g \<longleftrightarrow> well_behaved (gr_rules_of g) \<and> no_tokens (gr_rules_of g) \<and>
     stacks_ok (gr_rules_of g) (gr_stacks g) \<and> gr_stacks g \<noteq> [] \<and>
     \<not> gr_awaiting_trigger g \<and> pu_n_remain (gr_partial g) \<le> 3"

lemma survives_Nil_nonempty:
  "(\<exists>st \<in> set stacks. survives rules st [] p) \<longleftrightarrow>
    stacks \<noteq> [] \<and> (pu_n_remain p = 0 \<or>
      (\<exists>st \<in> set stacks. st \<noteq> [] \<and> match_partial_char rules (last st) p = Some True))"
  by (cases stacks) auto

lemma token_fits_survives:
  assumes "gr_ready g" "\<not> gv_is_eog vocab token"
    and piece: "gv_token_to_piece vocab token \<noteq> []" "hd (gv_token_to_piece vocab token) \<noteq> 0"
    and dec: "decode_utf8 (gv_token_to_piece vocab token) (gr_partial g) = (w @ [0], p)"
  shows "token_fits vocab g token \<longleftrightarrow>
    (\<exists>st \<in> set (gr_stacks g). survives (gr_rules_of g) st w p)"
proof -
  let ?R = "gr_rules_of g"
  from assms(1) have wb: "well_behaved ?R" "no_tokens ?R" "stacks_ok ?R (gr_stacks g)"
    and aw: "\<not> gr_awaiting_trigger g" and n3: "pu_n_remain (gr_partial g) \<le> 3"
    by (simp_all add: gr_ready_def)
  from accept_token_spec [OF wb, of token w] obtain res where
    run: "ofold (accept_token_stack ?R token (w @ [0])) (gr_stacks g) [] = Some res"
    and res: "\<forall>p. (\<exists>st \<in> set res. survives ?R st [] p) \<longleftrightarrow>
      (\<exists>st \<in> set (gr_stacks g). st \<noteq> [] \<and> survives ?R st w p)"
    by blast
  have "gr_accept_impl vocab g token = Some (gr_finish res p g)"
    using aw assms(2) dec run by (simp add: gr_accept_impl_def gr_accept_token_def Let_def)
  then have "token_fits vocab g token \<longleftrightarrow> (\<exists>st \<in> set res. survives ?R st [] p)"
    unfolding survives_Nil_nonempty using assms(2) piece
    by (auto simp: token_fits_def gr_finish_def Let_def)
  also have "\<dots> \<longleftrightarrow> (\<exists>st \<in> set (gr_stacks g). st \<noteq> [] \<and> survives ?R st w p)"
    using res by blast
  also have "\<dots> \<longleftrightarrow> (\<exists>st \<in> set (gr_stacks g). survives ?R st w p)"
  proof -
    have "\<not> survives ?R [] w p"
    proof (cases w)
      case Nil
      show ?thesis
      proof (rule decode_utf8_shape [OF dec n3])
        fix out :: "u32 list"
        assume out: "w @ [0] = out @ [0]"
          and ne: "\<lbrakk>gv_token_to_piece vocab token \<noteq> []; hd (gv_token_to_piece vocab token) \<noteq> 0;
            pu_n_remain p = 0\<rbrakk> \<Longrightarrow> out \<noteq> []"
        from out Nil ne [OF piece] have "pu_n_remain p \<noteq> 0" by auto
        with Nil show "\<not> survives ?R [] w p" by simp
      qed
    qed simp
    then have "st \<noteq> [] \<and> survives ?R st w p \<longleftrightarrow> survives ?R st w p" for st
      by (cases "st = []") simp_all
    then show ?thesis by (simp only:)
  qed
  finally show ?thesis .
qed

abbreviation td_mask :: "token_data \<Rightarrow> token_data" where
  "td_mask t \<equiv> t\<lparr>td_logit := minus_infinity\<rparr>"

lemma fold_mask:
  "\<forall>tok \<in> set toks. gc_index tok < length xs \<Longrightarrow>
    length (fold (\<lambda>tok xs. xs[gc_index tok := td_mask (xs ! gc_index tok)]) toks xs) = length xs \<and>
    (\<forall>j < length xs. fold (\<lambda>tok xs. xs[gc_index tok := td_mask (xs ! gc_index tok)]) toks xs ! j =
      (if \<exists>tok \<in> set toks. gc_index tok = j then td_mask (xs ! j) else xs ! j))"
proof (induction toks arbitrary: xs)
  case (Cons tok toks)
  let ?xs = "xs[gc_index tok := td_mask (xs ! gc_index tok)]"
  let ?F = "fold (\<lambda>tok xs. xs[gc_index tok := td_mask (xs ! gc_index tok)]) toks"
  have IH: "length (?F ?xs) = length xs" "\<And>j. j < length xs \<Longrightarrow> ?F ?xs ! j =
      (if \<exists>t \<in> set toks. gc_index t = j then td_mask (?xs ! j) else ?xs ! j)"
    using Cons.IH [of ?xs] Cons.prems by simp_all
  have "?F ?xs ! j = (if \<exists>t \<in> set (tok # toks). gc_index t = j then td_mask (xs ! j) else xs ! j)"
    if "j < length xs" for j
    unfolding IH(2) [OF that] using that by (cases "gc_index tok = j") simp_all
  with IH(1) show ?case by simp
qed simp

lemma reject_candidates_spec:
  assumes "well_behaved rules" "no_tokens rules" "stacks_ok rules stacks" "stacks \<noteq> []"
    and "\<forall>tok \<in> set candidates. candidate_ok tok"
  shows "\<exists>r. reject_candidates rules stacks candidates = Some r \<and>
    set r = {tok \<in> set candidates. \<forall>st \<in> set stacks.
      \<not> survives rules st (gc_points tok) (gc_partial tok)}"
proof -
  have "finite ((\<lambda>tok. length (gc_points tok)) ` set candidates)" by simp
  then obtain N where N: "\<forall>tok \<in> set candidates. length (gc_points tok) \<le> N"
    unfolding finite_nat_set_iff_bounded_le by auto
  show ?thesis
    unfolding reject_candidates_def
  proof (rule reject_all_spec [OF assms(4)])
    fix st cs
    assume st: "st \<in> set stacks" and cs: "set cs \<subseteq> set candidates"
    show "\<exists>r. reject_candidates_for_stack rules st cs = Some r \<and>
        set r = {tok \<in> set cs. \<not> survives rules st (gc_points tok) (gc_partial tok)}"
    proof (rule reject_for_stack_spec [OF assms(1,2)])
      show "stack_ok rules st" "settled rules st" using st assms(3) by (simp_all add: stacks_ok_def)
      show "\<forall>tok \<in> set cs. candidate_ok tok" using cs assms(5) by blast
      show "\<forall>tok \<in> set cs. length (gc_points tok) \<le> N" using cs N by blast
    qed
  qed
qed

lemma decoded_candidate:
  assumes "decode_utf8 piece start = (cps, p)" "pu_n_remain start \<le> 3" "0 \<notin> set (butlast cps)"
    and "gc_buffer tok = cps" "gc_offset tok = 0" "gc_partial tok = p"
  shows "candidate_ok tok" "gc_points tok = butlast cps" "cps = butlast cps @ [0]"
proof -
  obtain out where out: "cps = out @ [0]" "pu_n_remain p \<le> 3"
    by (rule decode_utf8_shape [OF assms(1,2)]) (rule that)
  with assms(3-) show "candidate_ok tok" "cps = butlast cps @ [0]"
    by (simp_all add: candidate_ok_def)
  from out assms(3-) show "gc_points tok = butlast cps"
    by (auto simp: gc_points_def takeWhile_append)
qed

text \<open>
  C7: Masking the candidates of a sampling step agrees with accepting them. For a grammar without
  token elements that is constraining the output, and candidates without embedded zero code
  points, \<open>llama_grammar_apply_impl\<close> returns, changes nothing but logits, and sets a logit to
  minus infinity exactly for the tokens that \<open>llama_grammar_accept_impl\<close> would refuse - by
  throwing, or by aborting at an end-of-generation token - for pieces that are empty or start
  with a zero byte, and for pieces that end in a partial character which no stack left by the
  token can continue.
\<close>

theorem apply_masks_what_accept_refuses:
  assumes "gr_ready g"
    and "\<And>t. t \<in> set cur_p \<Longrightarrow>
      0 \<notin> set (butlast (fst (decode_utf8 (gv_token_to_piece vocab (td_id t)) (gr_partial g))))"
  shows "\<exists>out. gr_apply_impl vocab g cur_p = Some out \<and>
    out = map (\<lambda>t. if token_fits vocab g (td_id t) then t else td_mask t) cur_p"
proof -
  let ?R = "gr_rules_of g" and ?n = "length cur_p"
  let ?piece = "\<lambda>j. gv_token_to_piece vocab (td_id (cur_p ! j))"
  let ?eog = "\<lambda>j. gv_is_eog vocab (td_id (cur_p ! j))"
  let ?none = "\<lambda>j. ?piece j = [] \<or> hd (?piece j) = 0"
  let ?dec = "\<lambda>j. decode_utf8 (?piece j) (gr_partial g)"
  define cand where "cand j = \<lparr>gc_index = j, gc_buffer = fst (?dec j), gc_offset = 0,
    gc_partial = snd (?dec j), gc_id = td_id (cur_p ! j)\<rparr>" for j
  define early where "early j \<longleftrightarrow> (if ?eog j then [] \<notin> set (gr_stacks g) else ?none j)" for j
  let ?f = "\<lambda>i (cur_p, candidates).
      let id = td_id (cur_p ! i); piece = gv_token_to_piece vocab id;
          masked = cur_p[i := td_mask (cur_p ! i)]
      in if gv_is_eog vocab id
         then Some (if [] \<notin> set (gr_stacks g) then masked else cur_p, candidates)
         else if piece = [] \<or> hd piece = 0 then Some (masked, candidates)
         else
           let decoded = decode_utf8 piece (gr_partial g)
           in Some (cur_p, candidates @
                [\<lparr>gc_index = i, gc_buffer = fst decoded, gc_offset = 0,
                  gc_partial = snd decoded, gc_id = id\<rparr>])"
  let ?I = "\<lambda>i (cur, cands). length cur = ?n \<and>
      (\<forall>j < ?n. cur ! j = (if j < i \<and> early j then td_mask (cur_p ! j) else cur_p ! j)) \<and>
      set cands = cand ` {j. j < i \<and> \<not> ?eog j \<and> \<not> ?none j}"
  have "\<exists>s. ofold ?f [0..<?n] (cur_p, []) = Some s \<and> ?I ?n s"
  proof (rule ofold_upt_inv [where I = ?I])
    fix i s
    assume i: "i < ?n" and I: "?I i s"
    obtain cur cands where s: "s = (cur, cands)" by (cases s)
    with I have len: "length cur = ?n" and cur: "\<And>j. j < ?n \<Longrightarrow>
        cur ! j = (if j < i \<and> early j then td_mask (cur_p ! j) else cur_p ! j)"
      and cands: "set cands = cand ` {j. j < i \<and> \<not> ?eog j \<and> \<not> ?none j}" by auto
    have curi: "cur ! i = cur_p ! i" using cur [OF i] by simp
    have sets: "{j. j < Suc i \<and> P j} = {j. j < i \<and> P j} \<union> (if P i then {i} else {})" for P
      by (auto simp: less_Suc_eq)
    let ?cur = "if early i then cur[i := td_mask (cur_p ! i)] else cur"
    let ?cands = "if ?eog i \<or> ?none i then cands else cands @ [cand i]"
    have "?f i s = Some (?cur, ?cands)"
      unfolding s by (simp add: curi Let_def early_def cand_def)
    moreover have "?cur ! j = (if j < Suc i \<and> early j then td_mask (cur_p ! j) else cur_p ! j)"
      if "j < ?n" for j
      using cur [OF that] len that by (cases "j = i") (auto simp: less_Suc_eq)
    moreover have "set ?cands = cand ` {j. j < Suc i \<and> \<not> ?eog j \<and> \<not> ?none j}"
      unfolding sets using cands by auto
    ultimately show "\<exists>s'. ?f i s = Some s' \<and> ?I (Suc i) s'"
      using len by simp
  qed simp
  then obtain cur cands where pre: "ofold ?f [0..<?n] (cur_p, []) = Some (cur, cands)"
    "length cur = ?n" "\<And>j. j < ?n \<Longrightarrow> cur ! j = (if early j then td_mask (cur_p ! j) else cur_p ! j)"
    "set cands = cand ` {j. j < ?n \<and> \<not> ?eog j \<and> \<not> ?none j}"
    by auto
  from assms(1) have wb: "well_behaved ?R" "no_tokens ?R" "stacks_ok ?R (gr_stacks g)" "gr_stacks g \<noteq> []"
    and aw: "\<not> gr_awaiting_trigger g" and n3: "pu_n_remain (gr_partial g) \<le> 3"
    by (simp_all add: gr_ready_def)
  have dec: "candidate_ok (cand j)" "gc_points (cand j) = butlast (fst (?dec j))"
      "?dec j = (butlast (fst (?dec j)) @ [0], snd (?dec j))" if "j < ?n" for j
  proof -
    have z: "0 \<notin> set (butlast (fst (?dec j)))" using assms(2) that by simp
    note d = decoded_candidate [OF surjective_pairing n3 z, of "cand j"]
    from d show "candidate_ok (cand j)" "gc_points (cand j) = butlast (fst (?dec j))"
      by (simp_all add: cand_def)
    from d(3) show "?dec j = (butlast (fst (?dec j)) @ [0], snd (?dec j))"
      by (metis (no_types, lifting) cand_def gr_candidate.select_convs(2,3,4) surjective_pairing)
  qed
  have "\<forall>tok \<in> set cands. candidate_ok tok" using pre(4) dec(1) by auto
  from reject_candidates_spec [OF wb this] obtain r where
    r: "reject_candidates ?R (gr_stacks g) cands = Some r"
    "set r = {tok \<in> set cands. \<forall>st \<in> set (gr_stacks g).
      \<not> survives ?R st (gc_points tok) (gc_partial tok)}" by blast
  let ?out = "fold (\<lambda>tok xs. xs[gc_index tok := td_mask (xs ! gc_index tok)]) r cur"
  have idx: "\<forall>tok \<in> set r. gc_index tok < length cur"
  proof
    fix tok
    assume "tok \<in> set r"
    then have "tok \<in> set cands" unfolding r(2) by blast
    then obtain j where "tok = cand j" "j < ?n" unfolding pre(4) by blast
    then show "gc_index tok < length cur" using pre(2) by (simp add: cand_def)
  qed
  have run: "gr_apply_impl vocab g cur_p = Some ?out"
    using aw pre(1) r(1) by (simp add: gr_apply_impl_def Let_def)
  have "?out = map (\<lambda>t. if token_fits vocab g (td_id t) then t else td_mask t) cur_p"
  proof (rule nth_equalityI)
    show "length ?out = length (map (\<lambda>t. if token_fits vocab g (td_id t) then t else td_mask t) cur_p)"
      using fold_mask [OF idx] pre(2) by simp
    fix j
    assume "j < length ?out"
    then have j: "j < ?n" using fold_mask [OF idx] pre(2) by simp
    have out: "?out ! j = (if \<exists>tok \<in> set r. gc_index tok = j then td_mask (cur ! j) else cur ! j)"
      using fold_mask [OF idx] pre(2) j by simp
    have rej: "(\<exists>tok \<in> set r. gc_index tok = j) \<longleftrightarrow> \<not> ?eog j \<and> \<not> ?none j \<and>
        \<not> (\<exists>st \<in> set (gr_stacks g). survives ?R st (butlast (fst (?dec j))) (snd (?dec j)))"
    proof -
      have "(\<exists>tok \<in> set r. gc_index tok = j) \<longleftrightarrow> cand j \<in> set r"
      proof
        assume "\<exists>tok \<in> set r. gc_index tok = j"
        then obtain tok where tok: "tok \<in> set r" "gc_index tok = j" by blast
        then have "tok \<in> set cands" unfolding r(2) by blast
        then obtain k where "tok = cand k" unfolding pre(4) by blast
        with tok show "cand j \<in> set r" by (simp add: cand_def)
      next
        assume "cand j \<in> set r"
        moreover have "gc_index (cand j) = j" by (simp add: cand_def)
        ultimately show "\<exists>tok \<in> set r. gc_index tok = j" by blast
      qed
      also have "\<dots> \<longleftrightarrow> \<not> ?eog j \<and> \<not> ?none j \<and> (\<forall>st \<in> set (gr_stacks g).
          \<not> survives ?R st (gc_points (cand j)) (gc_partial (cand j)))"
      proof -
        have "cand j \<in> set cands \<longleftrightarrow> \<not> ?eog j \<and> \<not> ?none j"
        proof
          assume "cand j \<in> set cands"
          then obtain k where k: "cand j = cand k" "\<not> ?eog k" "\<not> ?none k" unfolding pre(4) by blast
          from k(1) have "k = j" by (simp add: cand_def)
          with k show "\<not> ?eog j \<and> \<not> ?none j" by simp
        next
          assume "\<not> ?eog j \<and> \<not> ?none j"
          with j show "cand j \<in> set cands" unfolding pre(4) by blast
        qed
        then show ?thesis unfolding r(2) by blast
      qed
      finally show ?thesis
        unfolding dec(2) [OF j] by (simp add: cand_def)
    qed
    have "token_fits vocab g (td_id (cur_p ! j)) \<longleftrightarrow>
        \<not> early j \<and> \<not> (\<exists>tok \<in> set r. gc_index tok = j)"
    proof (cases "?eog j \<or> ?none j")
      case True
      then show ?thesis
        unfolding rej using aw by (auto simp: token_fits_def early_def gr_accept_impl_def)
    next
      case False
      then show ?thesis
        unfolding rej using token_fits_survives [OF assms(1) _ _ _ dec(3) [OF j]] by (auto simp: early_def)
    qed
    with pre(3) [OF j] out j
    show "?out ! j = map (\<lambda>t. if token_fits vocab g (td_id t) then t else td_mask t) cur_p ! j"
      by simp
  qed
  with run show ?thesis by blast
qed

definition xy_vocab :: gr_vocab where
  "xy_vocab = \<lparr>gv_token_to_piece = (\<lambda>t. if t = 1 then [0x78] else [0x79]), gv_is_eog = (\<lambda>t. t = 3)\<rparr>"

theorem apply_masks_what_accept_refuses_witness:
  "\<exists>g out. grammar_init_rules star_rules 0 = Some (Some g) \<and>
     gr_apply_impl xy_vocab g [\<lparr>td_id = 1, td_logit = 0, td_p = 0\<rparr>] = Some out \<and> length out = 1"
proof -
  obtain g where g: "grammar_init_rules star_rules 0 = Some (Some g)" "gr_rules_of g = star_rules"
    "stacks_ok star_rules (gr_stacks g)" "gr_partial g = \<lparr>pu_value = 0, pu_n_remain = 0\<rparr>"
    "\<And>w. live star_rules (gr_stacks g) w \<longleftrightarrow> derives star_rules [Ref 0] w"
    by (rule star_init) (rule that)
  have aw: "\<not> gr_awaiting_trigger g"
    using g(1) by (auto simp: grammar_init_rules_def bind_eq_Some_conv split: if_splits)
  have "live star_rules (gr_stacks g) [0x78]" using g(5) star_derives by simp
  then have "gr_stacks g \<noteq> []" by auto
  moreover have "no_tokens star_rules"
    by (simp add: no_tokens_def star_rules_def gr_el_def)
  moreover have "well_behaved star_rules"
    by (intro well_behavedI star_empty star_no_left_recursion) (simp add: wf_rules_iff star_ok)
  ultimately have ready: "gr_ready g" using g aw by (simp add: gr_ready_def)
  have "0 \<notin> set (butlast (fst (decode_utf8 (gv_token_to_piece xy_vocab (td_id t)) (gr_partial g))))"
    if "t \<in> set [\<lparr>td_id = 1, td_logit = 0, td_p = 0\<rparr>]" for t
    using that g(4) by (simp add: xy_vocab_def decode_utf8_def utf8_sequences.simps utf8_lookup_def Let_def)
  from apply_masks_what_accept_refuses [OF ready this, of "[\<lparr>td_id = 1, td_logit = 0, td_p = 0\<rparr>]"] g(1)
  show ?thesis by auto
qed

end
