(* ===== verification/GrammarPartial.thy ===== *)
theory GrammarPartial
  imports GrammarMask
begin

unbundle bit_operations_syntax

section \<open>Matching an unfinished character\<close>

text \<open>
  \<open>llama_grammar_match_partial_char\<close> answers whether a token may end inside a character. The
  completions of an unfinished character are the code points its bytes can still become.
\<close>

definition completions :: "gr_partial_utf8 \<Rightarrow> u32 set" where
  "completions p = {c. drop_bit (6 * nat (pu_n_remain p)) c = pu_value p \<and>
     (pu_n_remain p = 2 \<longrightarrow> 0x800 \<le> c) \<and> (pu_n_remain p = 3 \<longrightarrow> 0x10000 \<le> c)}"

text \<open>An unfinished character as decoding leaves it, not one byte of an overlong encoding.\<close>

definition partial_ok :: "gr_partial_utf8 \<Rightarrow> bool" where
  "partial_ok p \<longleftrightarrow> pu_n_remain p \<in> {1, 2, 3} \<and>
     unat (pu_value p) * 2 ^ (6 * nat (pu_n_remain p)) < 2 ^ 32 \<and>
     (pu_n_remain p = 1 \<longrightarrow> 2 \<le> pu_value p)"

text \<open>The ranges of a character class are not reversed.\<close>

fun class_ordered :: "gr_rule \<Rightarrow> bool" where
  "class_ordered (e0 # e1 # es) =
     (if ge_type e1 = Gre_CHAR_RNG_UPPER
      then ge_value e0 \<le> ge_value e1 \<and> (es \<noteq> [] \<and> ge_type (hd es) = Gre_CHAR_ALT \<longrightarrow> class_ordered es)
      else ge_type e1 = Gre_CHAR_ALT \<longrightarrow> class_ordered (e1 # es))"
| "class_ordered _ = True"

lemma match_partial_loop_spec:
  assumes "rule_shape t es" "ge_type (hd es) \<in> {Gre_CHAR, Gre_CHAR_NOT, Gre_CHAR_ANY, Gre_CHAR_ALT}"
    and "class_ordered es" "low \<le> high" "ge_type (hd es) = Gre_CHAR_ANY \<longrightarrow> positive"
  shows "match_partial_loop low high positive es =
    Some ((\<exists>c \<in> {low..high}. c \<in> class_set es) = positive)"
  using assms
proof (induction low high positive es arbitrary: t rule: match_partial_loop.induct)
  case (1 low high positive e0 e1 es)
  from "1.prems" have sh1: "rule_shape (ge_type e0) (e1 # es)" by (auto split: if_splits)
  show ?case
  proof (cases "ge_type e1 = Gre_CHAR_RNG_UPPER")
    case rng: True
    with sh1 have sh2: "rule_shape Gre_CHAR_RNG_UPPER es" by simp
    then obtain e2 es' where es: "es = e2 # es'" by (cases es) auto
    have e2: "ge_type e2 \<noteq> Gre_CHAR_RNG_UPPER" "ge_type e2 \<noteq> Gre_CHAR_ANY \<or> True"
      using sh2 es by (auto simp: follows_ok_def)
    have inter: "(\<exists>c \<in> {low..high}. c \<in> {ge_value e0..ge_value e1}) \<longleftrightarrow>
        ge_value e0 \<le> high \<and> low \<le> ge_value e1"
    proof
      assume a: "ge_value e0 \<le> high \<and> low \<le> ge_value e1"
      have "max low (ge_value e0) \<in> {low..high} \<inter> {ge_value e0..ge_value e1}"
        using a "1.prems"(3,4) rng by auto
      then show "\<exists>c \<in> {low..high}. c \<in> {ge_value e0..ge_value e1}" by blast
    qed (auto intro: order_trans)
    show ?thesis
    proof (cases "ge_value e0 \<le> high \<and> low \<le> ge_value e1")
      case True
      with rng inter show ?thesis by auto
    next
      case False
      note cs = this
      show ?thesis
      proof (cases "ge_type e2 = Gre_CHAR_ALT")
        case alt: True
        have "match_partial_loop low high positive es =
            Some ((\<exists>c \<in> {low..high}. c \<in> class_set es) = positive)"
          using "1.IH" [of es e2 es'] rng cs alt es sh2 "1.prems"(3,4) by auto
        with rng cs alt es inter show ?thesis by auto
      next
        case noalt: False
        with rng cs es inter show ?thesis by auto
      qed
    qed
  next
    case norng: False
    show ?thesis
    proof (cases "ge_type e0 = Gre_CHAR_ANY")
      case True
      with norng "1.prems"(4,5) show ?thesis by auto
    next
      case noany: False
      show ?thesis
      proof (cases "low \<le> ge_value e0 \<and> ge_value e0 \<le> high")
        case True
        with norng noany show ?thesis by auto
      next
        case cs: False
        show ?thesis
        proof (cases "ge_type e1 = Gre_CHAR_ALT")
          case alt: True
          have "match_partial_loop low high positive (e1 # es) =
              Some ((\<exists>c \<in> {low..high}. c \<in> class_set (e1 # es)) = positive)"
            using "1.IH" [of "e1 # es" e1 es] norng noany cs alt sh1 "1.prems"(3,4) by auto
          with norng noany cs alt show ?thesis by auto
        next
          case noalt: False
          with norng noany cs show ?thesis by auto
        qed
      qed
    qed
  qed
qed (auto split: if_splits)

lemma div_range: "0 < m \<Longrightarrow> a * m \<le> x \<and> x \<le> a * m + (m - 1) \<longleftrightarrow> x div m = a" for a m x :: nat
proof
  assume m: "0 < m" and r: "a * m \<le> x \<and> x \<le> a * m + (m - 1)"
  have "x < Suc a * m" using r m by (simp add: less_eq_Suc_le [symmetric]) linarith
  with r show "x div m = a" by (intro div_nat_eqI) (simp_all add: mult.commute)
next
  assume "0 < m" "x div m = a"
  moreover have "x = x div m * m + x mod m" by simp
  moreover have "x mod m \<le> m - 1" using mod_less_divisor [OF \<open>0 < m\<close>, of x] by simp
  ultimately show "a * m \<le> x \<and> x \<le> a * m + (m - 1)" by (metis add_le_cancel_left le_add1)
qed

lemma unat_drop: "unat (drop_bit k c) = unat c div 2 ^ k" for c :: u32
proof -
  have "unat c < 2 ^ LENGTH(32)" by (rule unsigned_less)
  then show ?thesis
    unfolding unsigned_drop_bit_eq by (simp add: drop_bit_eq_div take_bit_nat_eq_self)
qed

lemma completion_range:
  fixes v c :: u32
  assumes k: "k = 6 \<or> k = 12 \<or> k = 18" and v: "unat v * 2 ^ k < 2 ^ 32"
  shows "unat (push_bit k v) = unat v * 2 ^ k"
    and "push_bit k v \<le> c \<and> c \<le> push_bit k v OR (push_bit k 1 - 1) \<longleftrightarrow> drop_bit k c = v"
    and "push_bit k v \<le> push_bit k v OR (push_bit k 1 - 1)"
proof -
  let ?low = "push_bit k v"
  have ulow: "unat ?low = unat v * 2 ^ k"
    using v unfolding unsigned_push_bit_eq by (simp add: push_bit_eq_mult take_bit_nat_eq_self)
  then show "unat ?low = unat v * 2 ^ k" .
  have m: "(push_bit k 1 - 1 :: u32) = mask k" by (simp add: mask_eq_exp_minus_1)
  have um: "unat (mask k :: u32) = 2 ^ k - 1"
    using k by (elim disjE) (simp_all add: mask_eq_exp_minus_1)
  have "?low AND mask k = 0"
    unfolding take_bit_eq_mask [symmetric] take_bit_push_bit by simp
  then have high: "?low OR mask k = ?low + mask k" by (simp add: disjunctive_add_eq_or)
  have fit: "unat v * 2 ^ k + (2 ^ k - 1) < 2 ^ 32"
    using k v by (elim disjE) simp_all
  have uhigh: "unat (?low OR mask k) = unat v * 2 ^ k + (2 ^ k - 1)"
    using fit unfolding high by (simp add: unat_word_ariths(1) ulow um)
  have "?low \<le> c \<and> c \<le> ?low OR mask k \<longleftrightarrow> unat c div 2 ^ k = unat v"
    unfolding word_le_nat_alt ulow uhigh by (rule div_range) simp
  then show "?low \<le> c \<and> c \<le> ?low OR (push_bit k 1 - 1) \<longleftrightarrow> drop_bit k c = v"
    unfolding m word_unat_eq_iff unat_drop .
  show "?low \<le> ?low OR (push_bit k 1 - 1)"
    unfolding m word_le_nat_alt ulow uhigh by (rule le_add1)
qed

text \<open>The bounds the code computes are those of the completions.\<close>

definition partial_low :: "gr_partial_utf8 \<Rightarrow> u32" where
  "partial_low p = (let low = push_bit (6 * nat (pu_n_remain p)) (pu_value p) in
     if low = 0 then if pu_n_remain p = 2 then 0x800 else if pu_n_remain p = 3 then 0x10000 else low
     else low)"

definition partial_high :: "gr_partial_utf8 \<Rightarrow> u32" where
  "partial_high p = (let k = 6 * nat (pu_n_remain p) in push_bit k (pu_value p) OR (push_bit k 1 - 1))"

lemma partial_range:
  assumes "partial_ok p"
  shows "partial_low p \<le> c \<and> c \<le> partial_high p \<longleftrightarrow> c \<in> completions p"
    and "partial_low p \<le> partial_high p"
proof -
  let ?n = "pu_n_remain p" and ?v = "pu_value p"
  let ?k = "6 * nat ?n"
  have n: "?n = 1 \<or> ?n = 2 \<or> ?n = 3" and fit: "unat ?v * 2 ^ ?k < 2 ^ 32"
    using assms by (auto simp: partial_ok_def)
  have k: "?k = 6 \<or> ?k = 12 \<or> ?k = 18" using n by auto
  note r = completion_range [OF k fit]
  have zero: "push_bit ?k ?v = 0 \<longleftrightarrow> ?v = 0"
    using r(1) by (simp add: word_unat_eq_iff [of "push_bit ?k ?v"] word_unat_eq_iff [of ?v])
  have drop: "unat (drop_bit ?k c) = unat c div 2 ^ ?k" for c :: u32 by (rule unat_drop)
  have "(partial_low p \<le> c \<and> c \<le> partial_high p \<longleftrightarrow> c \<in> completions p) \<and> partial_low p \<le> partial_high p"
  proof (cases "?v = 0")
    case True
    with assms have n23: "?n = 2 \<or> ?n = 3" by (auto simp: partial_ok_def)
    have low: "partial_low p = (if ?n = 2 then 0x800 else 0x10000)"
      unfolding partial_low_def Let_def using zero True n23 by auto
    have high: "partial_high p = push_bit ?k 1 - 1"
      unfolding partial_high_def Let_def using True by simp
    have hc: "c \<le> partial_high p \<longleftrightarrow> drop_bit ?k c = ?v"
      using r(2) [of c] True unfolding partial_high_def Let_def by simp
    show ?thesis
      using n23 hc unfolding completions_def low by (auto simp: high)
  next
    case False
    then have low: "partial_low p = push_bit ?k ?v"
      unfolding partial_low_def Let_def using zero by simp
    have v1: "1 \<le> unat ?v" using False by (simp add: Suc_le_eq unat_gt_0)
    have big: "drop_bit ?k c = ?v \<Longrightarrow> (?n = 2 \<longrightarrow> 0x800 \<le> c) \<and> (?n = 3 \<longrightarrow> 0x10000 \<le> c)"
    proof -
      assume "drop_bit ?k c = ?v"
      then have "1 \<le> unat c div 2 ^ ?k" using v1 drop [of c] by simp
      then have "2 ^ ?k \<le> unat c" by (simp add: Suc_le_eq div_greater_zero_iff)
      then show ?thesis by (auto simp: word_le_nat_alt)
    qed
    show ?thesis
      using r(2) [of c] r(3) big unfolding low partial_high_def Let_def completions_def by auto
  qed
  then show "partial_low p \<le> c \<and> c \<le> partial_high p \<longleftrightarrow> c \<in> completions p"
    and "partial_low p \<le> partial_high p" by blast+
qed

lemma match_partial_char_range:
  assumes "wf_rules rules" "elem_at rules pos = Some e" "is_char_start (ge_type e)"
    and "class_ordered (suffix_at rules pos)" "partial_ok p"
  shows "match_partial_char rules pos p =
    Some ((\<exists>c \<in> completions p. c \<in> class_set (suffix_at rules pos)) = is_positive_char e)"
proof -
  obtain t where t: "rule_shape t (suffix_at rules pos)"
    using wf_suffix_shape [OF assms(1,2)] by blast
  have hd: "hd (suffix_at rules pos) = e" using elem_at_suffix [OF assms(2)] by simp
  have "match_partial_loop (partial_low p) (partial_high p) (is_positive_char e) (suffix_at rules pos) =
      Some ((\<exists>c \<in> {partial_low p..partial_high p}. c \<in> class_set (suffix_at rules pos)) = is_positive_char e)"
  proof (rule match_partial_loop_spec [OF t _ assms(4) partial_range(2) [OF assms(5)]])
    show "ge_type (hd (suffix_at rules pos)) \<in> {Gre_CHAR, Gre_CHAR_NOT, Gre_CHAR_ANY, Gre_CHAR_ALT}"
      using assms(3) unfolding hd by (auto simp: is_char_start_def)
    show "ge_type (hd (suffix_at rules pos)) = Gre_CHAR_ANY \<longrightarrow> is_positive_char e"
      unfolding hd by (simp add: is_positive_char_def)
  qed
  moreover have "{partial_low p..partial_high p} = completions p"
    by (rule set_eqI) (unfold atLeastAtMost_iff, rule partial_range(1) [OF assms(5)])
  moreover have "match_partial_char rules pos p =
      match_partial_loop (partial_low p) (partial_high p) (is_positive_char e) (suffix_at rules pos)"
  proof -
    have bad: "(pu_n_remain p < 0 \<or> pu_n_remain p = 1 \<and> pu_value p < 2) = False"
      and n5: "pu_n_remain p \<le> 5" and c: "is_positive_char e \<or> ge_type e = Gre_CHAR_NOT"
      using assms(3,5) by (auto simp: partial_ok_def is_char_start_def is_positive_char_def)
    from assms(2) n5 c show ?thesis
      unfolding match_partial_char_def Let_def bad partial_low_def partial_high_def
      by (simp add: mult.commute)
  qed
  ultimately show ?thesis by simp
qed

text \<open>
  C11: What an unfinished character is matched against. At a character class or \<open>.\<close> a token may end
  inside a character exactly when some completion of it is accepted there; at an inverted class,
  exactly when every completion is accepted, not when some is.
\<close>

theorem match_partial_char_completions:
  assumes "wf_rules rules" "elem_at rules pos = Some e" "is_char_start (ge_type e)"
    and "class_ordered (suffix_at rules pos)" "partial_ok p"
  shows "match_partial_char rules pos p = Some
    (if ge_type e = Gre_CHAR_NOT then completions p \<subseteq> char_set_at rules pos
     else completions p \<inter> char_set_at rules pos \<noteq> {})"
proof -
  have "rules ! fst pos ! snd pos = e" using assms(2) by (simp add: elem_at_Some_iff)
  with match_partial_char_range [OF assms] assms(3) show ?thesis
    by (auto simp: char_set_at_def is_char_start_def is_positive_char_def)
qed

text \<open>
  A class that excludes e acute only: the first of the two bytes of that character is also the
  first byte of e grave.
\<close>

definition not_e_acute :: gr_rules where
  "not_e_acute = [[gr_el Gre_CHAR_NOT 0xE9, gr_el Gre_END 0]]"

theorem match_partial_char_completions_witness:
  "match_partial_char not_e_acute (0, 0) \<lparr>pu_value = 3, pu_n_remain = 1\<rparr> = Some False \<and>
   0xE8 \<in> completions \<lparr>pu_value = 3, pu_n_remain = 1\<rparr> \<and> 0xE8 \<in> char_set_at not_e_acute (0, 0)"
proof -
  have wf: "wf_rules not_e_acute"
    by (simp add: not_e_acute_def gr_el_def wf_rules_def rule_refs_valid_def follows_ok_def)
  have el: "elem_at not_e_acute (0, 0) = Some (gr_el Gre_CHAR_NOT 0xE9)"
    by (simp add: not_e_acute_def elem_at_def at_idx_def)
  have in9: "0xE9 \<in> completions \<lparr>pu_value = 3, pu_n_remain = 1\<rparr>"
    and in8: "0xE8 \<in> completions \<lparr>pu_value = 3, pu_n_remain = 1\<rparr>"
    by (simp_all add: completions_def)
  have set: "char_set_at not_e_acute (0, 0) = - {0xE9}"
    by (simp add: char_set_at_def not_e_acute_def gr_el_def)
  have "match_partial_char not_e_acute (0, 0) \<lparr>pu_value = 3, pu_n_remain = 1\<rparr> = Some
      (if ge_type (gr_el Gre_CHAR_NOT 0xE9) = Gre_CHAR_NOT
       then completions \<lparr>pu_value = 3, pu_n_remain = 1\<rparr> \<subseteq> char_set_at not_e_acute (0, 0)
       else completions \<lparr>pu_value = 3, pu_n_remain = 1\<rparr> \<inter> char_set_at not_e_acute (0, 0) \<noteq> {})"
    by (rule match_partial_char_completions [OF wf el])
      (simp_all add: gr_el_def is_char_start_def partial_ok_def not_e_acute_def)
  with in9 in8 show ?thesis
    unfolding set by (auto simp: gr_el_def)
qed

subsection \<open>A token element after the start of a token\<close>

text \<open>\<open>root ::= "a" <[5]>\<close>, and a vocabulary that has \<open>ab\<close> as token 5.\<close>

definition mid_rules :: gr_rules where
  "mid_rules = [[gr_el Gre_CHAR 0x61, gr_el Gre_TOKEN 5, gr_el Gre_END 0]]"

definition mid_vocab :: gr_vocab where
  "mid_vocab = \<lparr>gv_token_to_piece = (\<lambda>t. if t = 5 then [0x61, 0x62] else []), gv_is_eog = (\<lambda>t. False)\<rparr>"

definition mid_grammar :: gr_grammar where
  "mid_grammar = \<lparr>gr_rules_of = mid_rules, gr_stacks = [[(0, 0)]],
     gr_partial = \<lparr>pu_value = 0, pu_n_remain = 0\<rparr>, gr_lazy = False, gr_awaiting_trigger = False,
     gr_trigger_buffer = [], gr_trigger_positions = [], gr_trigger_tokens = [],
     gr_trigger_patterns = []\<rparr>"

lemma mid_elem:
  "elem_at mid_rules (0, 0) = Some (gr_el Gre_CHAR 0x61)"
  "elem_at mid_rules (0, Suc 0) = Some (gr_el Gre_TOKEN 5)"
  by (simp_all add: mid_rules_def elem_at_def at_idx_def)

lemma mid_match: "match_char mid_rules (0, 0) c = Some (c = 0x61, (0, Suc 0))"
  by (simp add: match_char_def mid_elem is_positive_char_def gr_el_def) (simp add: mid_rules_def gr_el_def)

lemma mid_advance:
  "advance_stack mid_rules [(0, 0)] [] = Some [[(0, 0)]]"
  "advance_stack mid_rules [(0, Suc 0)] [] = Some [[(0, Suc 0)]]"
  by (simp_all add: advance_stack_def advance_loop_Cons mid_elem gr_el_def is_stack_terminal_def
      add_stack_def)

lemma mid_decode: "decode_utf8 [0x61, 0x62] \<lparr>pu_value = 0, pu_n_remain = 0\<rparr> =
    ([0x61, 0x62, 0], \<lparr>pu_value = 0x62, pu_n_remain = 0\<rparr>)"
  by (simp add: decode_utf8_def utf8_sequences.simps utf8_lookup_def Let_def)

lemma mid_push: "push_ptr mid_rules (0, Suc 0) [] = Some [(0, Suc 0)]"
  by (simp add: push_ptr_def mid_elem gr_el_def is_end_of_sequence_def)

lemma mid_reject:
  fixes p :: gr_partial_utf8
  defines "tok \<equiv> \<lambda>k. \<lparr>gc_index = 0, gc_buffer = [0x61, 0x62, 0], gc_offset = k, gc_partial = p, gc_id = 5\<rparr>"
  shows "reject_candidates_for_stack mid_rules [(0, Suc 0)] [tok 1] = Some []"
    and "reject_candidates_for_stack mid_rules [(0, 0)] [tok 0] = Some []"
proof -
  show 1: "reject_candidates_for_stack mid_rules [(0, Suc 0)] [tok 1] = Some []"
    by (subst reject_candidates_for_stack.simps)
      (simp add: mid_elem gr_el_def reject_at_token_def gc_head_def at_idx_def match_token_def tok_def)
  have here: "reject_at_char mid_rules (0, 0) [tok 0] = Some ([], [tok 1])"
    by (simp add: reject_at_char_def gc_head_def at_idx_def mid_match tok_def)
  show "reject_candidates_for_stack mid_rules [(0, 0)] [tok 0] = Some []"
    by (subst reject_candidates_for_stack.simps)
      (simp add: mid_elem gr_el_def here mid_match mid_push mid_advance reject_all_def 1 [simplified])
qed

text \<open>
  C12: A token that masking keeps and accepting throws at. Inside a token that began at characters,
  a token element is matched by the masking against the id of the whole token, although part of
  its text is used up, while accepting drops the stack there: with \<open>root ::= "a" <[5]>\<close> and \<open>ab\<close> for
  the text of token 5, the initial grammar leaves the logit of token 5 and then fails on it.
\<close>

theorem mask_keeps_token_accept_throws:
  "grammar_init_rules mid_rules 0 = Some (Some mid_grammar) \<and>
   gr_apply_impl mid_vocab mid_grammar [\<lparr>td_id = 5, td_logit = 1, td_p = 0\<rparr>] =
     Some [\<lparr>td_id = 5, td_logit = 1, td_p = 0\<rparr>] \<and>
   (\<exists>g. gr_accept_impl mid_vocab mid_grammar 5 = Some (Gr_throw g))"
proof (intro conjI)
  have c: "copy_rules mid_rules = Some mid_rules"
    by (simp add: copy_rules_def copy_rule_def mid_rules_def gr_el_def)
  have shaped: "rules_shaped mid_rules" and refs: "rule_refs_valid mid_rules"
    by (simp_all add: mid_rules_def rules_shaped_def rule_refs_valid_def gr_el_def follows_ok_def)
  have "\<not> left_ref mid_rules 0 m" for m
    using left_scan_rule [of mid_rules 0] shaped
    by (auto simp: rules_shaped_def mid_rules_def gr_el_def is_end_of_sequence_def)
  then have nl: "no_left_recursion mid_rules"
    by (auto simp: no_left_recursion_def mid_rules_def intro: accp.accI)
  have "initial_stacks mid_rules 0 = Some [[(0, 0)]]"
  proof -
    have "at_idx mid_rules 0 = Some (mid_rules ! 0)" "alt_starts 0 0 (mid_rules ! 0) = Some [0]"
      by (simp_all add: mid_rules_def gr_el_def)
    moreover have "push_ptr mid_rules (0, 0) [] = Some [(0, 0)]"
      by (simp add: push_ptr_def mid_elem gr_el_def is_end_of_sequence_def)
    ultimately show ?thesis by (simp add: initial_stacks_def mid_advance)
  qed
  with c refs has_left_recursion_decides [of mid_rules] nl shaped
  show "grammar_init_rules mid_rules 0 = Some (Some mid_grammar)"
    by (simp add: grammar_init_rules_def mid_grammar_def wf_rules_iff)
  show "gr_apply_impl mid_vocab mid_grammar [\<lparr>td_id = 5, td_logit = 1, td_p = 0\<rparr>] =
      Some [\<lparr>td_id = 5, td_logit = 1, td_p = 0\<rparr>]"
    by (simp add: gr_apply_impl_def mid_grammar_def mid_vocab_def mid_decode Let_def
        reject_candidates_def reject_all_def mid_reject(2) [simplified])
  show "\<exists>g. gr_accept_impl mid_vocab mid_grammar 5 = Some (Gr_throw g)"
    by (simp add: gr_accept_impl_def mid_grammar_def mid_vocab_def gr_accept_token_def mid_decode
        accept_token_stack_def mid_elem gr_el_def accept_stacks_def accept_chr_def mid_match mid_push
        mid_advance gr_finish_def Let_def)
qed

end
