(* ===== verification/Spec2Isabelle.thy ===== *)
theory Spec2Isabelle
  imports KqMask KvRoundtrip RecurrentProps Iswa Hybrid GrammarPartial
begin

text \<open>
  \<^bold>\<open>llama.cpp: batches, memory and grammars\<close>

  The program keeps what a language model has seen of each sequence in a memory module and feeds it
  batch by batch. A client's batch is checked and completed by \<open>llama_batch_allocr::init\<close>
  (\<open>src/llama-batch.cpp\<close>), which asks the memory for the last position of every sequence; the
  memory's \<open>init_batch\<close> lets the allocator cut the batch into ubatches and \<open>prepare\<close>s a place for
  each; the context then applies the ubatches one by one and runs the graph on each. Between
  batches the client edits sequences: \<open>seq_rm\<close>, \<open>seq_cp\<close>, \<open>seq_keep\<close>, \<open>seq_add\<close>, \<open>seq_div\<close>. Models
  with attention keep keys and values per token in \<open>llama_kv_cache\<close>; recurrent models keep one state
  per sequence in \<open>llama_memory_recurrent\<close>. When a client constrains the output with a grammar, the
  sampler calls \<open>llama_grammar_apply_impl\<close> (\<open>src/llama-grammar.cpp\<close>) on the candidates of each step
  and \<open>llama_grammar_accept_impl\<close> on the token it picked.

  \<^bold>\<open>Theories\<close>

  \<^item> \<open>Prelude\<close>: type names, assertions and loops in the option monad, the ordered containers of the
    C++ library.
  \<^item> \<open>KvCells\<close> (\<open>src/llama-kv-cells.h\<close>): the cells of the cache with the indexes over them.
  \<^item> \<open>Batch\<close> (\<open>src/llama-batch.{h,cpp}\<close>): validation of a batch and the three ways to split it.
  \<^item> \<open>Memory\<close> (\<open>src/llama-memory.{h,cpp}\<close>): statuses, and the sequence operations as an interface.
  \<^item> \<open>KvCache\<close> (\<open>src/llama-kv-cache.{h,cpp}\<close>): the cache over the cells.
  \<^item> \<open>KvPlace\<close>: what placing ubatches does. \<open>KvSpec\<close>: the cache as a state machine.
  \<^item> \<open>KvProps\<close>: the properties of the cache. \<open>KqMask\<close>: the attention mask built from the cells.
  \<^item> \<open>StateIo\<close> (\<open>src/llama-io.cpp\<close>, \<open>src/llama-context.cpp\<close>): byte streams for saved states.
  \<^item> \<open>KvState\<close>: \<open>state_write\<close> and \<open>state_read\<close> of the cache. \<open>KvRestore\<close>: what reading the rows of a
    layer does. \<open>KvRoundtrip\<close>: saving and restoring a sequence.
  \<^item> \<open>Recurrent\<close> (\<open>src/llama-memory-recurrent.{h,cpp}\<close>, \<open>build_rs\<close> of \<open>src/llama-graph.cpp\<close>): the states of
    recurrent models. \<open>RecurrentSlot\<close>, \<open>RecurrentFind\<close>, \<open>RecurrentFill\<close>, \<open>RecurrentFound\<close>: the stages of
    \<open>find_slot\<close>, from the invariant of the cells to what the found slot holds. \<open>RecurrentState\<close>: what the
    rows of the state tensors hold after a ubatch. \<open>RecurrentOps\<close>: the sequence operations.
    \<open>RecurrentBatch\<close>: from an accepted batch to slots. \<open>RecurrentProps\<close>: the properties.
  \<^item> \<open>KvView\<close>: what the operations of the KV cache do to the sets of positions of its sequences.
    \<open>Iswa\<close> (\<open>src/llama-kv-cache-iswa.{h,cpp}\<close>): the pair of caches for models with window attention in
    some layers. \<open>Hybrid\<close> (\<open>src/llama-memory-hybrid.{h,cpp}\<close>): a KV cache and a recurrent memory side by
    side. Both state that their two parts agree about where a sequence ends.
  \<^item> \<open>Grammar\<close>, \<open>GrammarState\<close> (\<open>src/llama-grammar.{h,cpp}\<close>): the pushdown machine that constrains
    sampling, the construction of a grammar and the calls of the sampler. \<open>GrammarLang\<close>: the
    context-free grammar the rules stand for. \<open>GrammarAdvance\<close>: what advancing a stack computes and
    when it returns. \<open>GrammarRecursion\<close>: what the check for left recursion finds. \<open>GrammarProps\<close>: the
    machine accepts the language. \<open>GrammarReject\<close>, \<open>GrammarMask\<close>: masking candidates agrees with
    accepting them. \<open>GrammarUtf8\<close>, \<open>GrammarPartial\<close>: text in pieces and unfinished characters.

  \<^bold>\<open>Conventions\<close>

  A method is a function of the object's record. \<open>None\<close> is a run without a value: a failed \<open>assert\<close>,
  \<open>GGML_ASSERT\<close> or \<open>GGML_ABORT\<close>, an index out of range, or a loop that does not end
  (\<open>partial_function\<close>); an error the code reports is a value. Positions and sequence numbers are
  unbounded integers, exact wherever the C++ program has no signed overflow.
\<close>

end
